(* ===== verification/MiniSQL_Prelude.thy ===== *)
theory MiniSQL_Prelude
  imports Main "HOL-Library.Word"
begin

text \<open>
  Shared vocabulary of the MiniSQL development.

  \<^item> the identifier types and constants of \<^verbatim>\<open>src/include/common/config.h\<close> and the error codes
    of \<^verbatim>\<open>src/include/common/dberr.h\<close>;
  \<^item> pages as byte lists: the little-endian reads and writes behind
    \<^verbatim>\<open>MACH_READ_FROM\<close> / \<^verbatim>\<open>MACH_WRITE_TO\<close> and \<^verbatim>\<open>memcpy\<close> / \<^verbatim>\<open>memset\<close> / \<^verbatim>\<open>memmove\<close>
    (\<^verbatim>\<open>src/include/common/macros.h\<close>), with their round-trip and frame laws;
  \<^item> list lemmas that several components share.

  The collections \<open>layout_simps\<close> (reads after writes), \<open>inv_defs\<close> (the components' invariants)
  and \<open>config_defs\<close> (numeric constants of the configuration) carry the component proofs.
\<close>

unbundle bit_operations_syntax

named_theorems layout_simps \<open>reads after writes on byte buffers\<close>
named_theorems inv_defs \<open>definitions of component invariants\<close>
named_theorems config_defs \<open>numeric constants of the configuration\<close>

section \<open>Configuration\<close>

text \<open>
  Page identifiers take part in unsigned 32-bit arithmetic (the disk manager), so they keep their
  width; the other \<^verbatim>\<open>int32_t\<close> identifiers are only compared and counted.
\<close>

type_synonym page_id_t = "32 word"
type_synonym frame_id_t = int
type_synonym txn_id_t = int
type_synonym lsn_t = int
type_synonym column_id_t = "32 word"
type_synonym index_id_t = "32 word"
type_synonym table_id_t = "32 word"
type_synonym byte = "8 word"

definition INVALID_PAGE_ID :: page_id_t where [config_defs]: "INVALID_PAGE_ID = - 1"
definition INVALID_FRAME_ID :: frame_id_t where [config_defs]: "INVALID_FRAME_ID = - 1"
definition INVALID_TXN_ID :: txn_id_t where [config_defs]: "INVALID_TXN_ID = - 1"
definition INVALID_LSN :: lsn_t where [config_defs]: "INVALID_LSN = - 1"
definition META_PAGE_ID :: page_id_t where [config_defs]: "META_PAGE_ID = 0"
definition CATALOG_META_PAGE_ID :: page_id_t where [config_defs]: "CATALOG_META_PAGE_ID = 0"
definition INDEX_ROOTS_PAGE_ID :: page_id_t where [config_defs]: "INDEX_ROOTS_PAGE_ID = 1"
definition PAGE_SIZE :: nat where [config_defs]: "PAGE_SIZE = 4096"
definition DEFAULT_BUFFER_POOL_SIZE :: nat where
  [config_defs]: "DEFAULT_BUFFER_POOL_SIZE = 20480"
definition FIELD_NULL_LEN :: "32 word" where [config_defs]: "FIELD_NULL_LEN = - 1"
definition VARCHAR_MAX_LEN :: nat where [config_defs]: "VARCHAR_MAX_LEN = PAGE_SIZE div 2"

datatype dberr_t =
    DB_SUCCESS
  | DB_FAILED
  | DB_ALREADY_EXIST
  | DB_NOT_EXIST
  | DB_TABLE_ALREADY_EXIST
  | DB_TABLE_NOT_EXIST
  | DB_INDEX_ALREADY_EXIST
  | DB_INDEX_NOT_FOUND
  | DB_COLUMN_NAME_NOT_EXIST
  | DB_KEY_NOT_FOUND
  | DB_QUIT

text \<open>
  A failed \<^verbatim>\<open>ASSERT\<close> (or a \<^verbatim>\<open>throw\<close>) ends the operation; fallible operations return
  \<open>Inl\<close> with the reason. The string is the assertion's message. \<open>OutOfBounds\<close> marks an access
  outside an array, which the C++ code does not check.
\<close>

datatype failure = AssertionFailed string | Thrown string | OutOfBounds string

type_synonym 'a result = "failure + 'a"

definition ASSERT :: "bool \<Rightarrow> string \<Rightarrow> 'a result \<Rightarrow> 'a result" where
  "ASSERT c msg k = (if c then k else Inl (AssertionFailed msg))"

lemma ASSERT_simps [simp]:
  "ASSERT True msg k = k"
  "ASSERT False msg k = Inl (AssertionFailed msg)"
  by (simp_all add: ASSERT_def)

lemma ASSERT_Inr_iff: "ASSERT c msg k = Inr v \<longleftrightarrow> c \<and> k = Inr v"
  by (simp add: ASSERT_def)

definition bind_result :: "'a result \<Rightarrow> ('a \<Rightarrow> 'b result) \<Rightarrow> 'b result" where
  "bind_result r k = (case r of Inl e \<Rightarrow> Inl e | Inr v \<Rightarrow> k v)"

lemma bind_result_simps [simp]:
  "bind_result (Inl e) k = Inl e"
  "bind_result (Inr v) k = k v"
  by (simp_all add: bind_result_def)

lemma bind_result_Inr_iff:
  "bind_result r k = Inr v \<longleftrightarrow> (\<exists>u. r = Inr u \<and> k u = Inr v)"
  by (cases r) auto

text \<open>A loop whose end depends on the data it walks is a \<open>partial_function\<close>: \<open>None\<close> stands for a run that never
  returns, \<open>Some\<close> for the result of one that does.\<close>

type_synonym 'a run = "'a result option"

definition bind_run :: "'a run \<Rightarrow> ('a \<Rightarrow> 'b run) \<Rightarrow> 'b run" where
  "bind_run r k = Option.bind r (\<lambda>x. case x of Inl e \<Rightarrow> Some (Inl e) | Inr v \<Rightarrow> k v)"

lemma bind_run_simps [simp]:
  "bind_run None k = None" "bind_run (Some (Inl e)) k = Some (Inl e)" "bind_run (Some (Inr v)) k = k v"
  by (simp_all add: bind_run_def)

lemma bind_run_mono [partial_function_mono]:
  assumes "mono_option B" "\<And>y. mono_option (\<lambda>f. C y f)"
  shows "mono_option (\<lambda>f. bind_run (B f) (\<lambda>y. C y f))"
  unfolding bind_run_def
proof (rule bind_mono [OF assms(1)])
  show "mono_option (\<lambda>f. case x of Inl e \<Rightarrow> Some (Inl e) | Inr v \<Rightarrow> C v f)" for x
    by (cases x) (simp_all add: assms(2) option.const_mono)
qed

section \<open>Bytes\<close>

subsection \<open>Little-endian integers\<close>

fun le_dec :: "byte list \<Rightarrow> 'a::len word" where
  "le_dec [] = 0"
| "le_dec (b # bs) = ucast b OR push_bit 8 (le_dec bs)"

definition le_enc :: "nat \<Rightarrow> 'a::len word \<Rightarrow> byte list" where
  "le_enc n w = map (\<lambda>i. ucast (drop_bit (8 * i) w)) [0..<n]"

lemma length_le_enc [simp]: "length (le_enc n w) = n"
  by (simp add: le_enc_def)

lemma div_mod_shift8: "(j + 8) div 8 = Suc (j div 8)" "(j + 8) mod 8 = j mod (8::nat)"
  by simp_all

lemma bit_le_dec:
  "bit (le_dec bs :: 'a::len word) k \<longleftrightarrow>
     k < LENGTH('a) \<and> k div 8 < length bs \<and> bit (bs ! (k div 8)) (k mod 8)"
proof (induction bs arbitrary: k)
  case Nil
  show ?case by simp
next
  case (Cons b bs)
  show ?case
  proof (cases "k < 8")
    case True
    then have "k div 8 = 0" "k mod 8 = k" by auto
    with True show ?thesis by (auto simp: bit_simps)
  next
    case False
    then obtain j where j: "k = j + 8"
      by (metis add.commute le_Suc_ex not_less)
    have shifted: "bit (push_bit 8 (le_dec bs :: 'a word)) k \<longleftrightarrow>
        k < LENGTH('a) \<and> bit (le_dec bs :: 'a word) j"
      by (auto simp: j bit_simps)
    have "\<not> bit (ucast b :: 'a word) k"
      using False by (auto simp: bit_simps dest: bit_imp_le_length)
    with shifted have "bit (le_dec (b # bs) :: 'a word) k \<longleftrightarrow>
        k < LENGTH('a) \<and> bit (le_dec bs :: 'a word) j"
      by (simp add: bit_or_iff)
    then show ?thesis by (auto simp: Cons j div_mod_shift8 simp del: div_add_self2)
  qed
qed

lemma le_dec_enc:
  assumes "LENGTH('a) \<le> 8 * n"
  shows "le_dec (le_enc n w) = (w :: 'a::len word)"
proof (rule bit_word_eqI)
  fix k assume k: "k < LENGTH('a)"
  with assms have "k div 8 < n" by auto
  with k show "bit (le_dec (le_enc n w) :: 'a word) k = bit w k"
    by (simp add: bit_le_dec le_enc_def bit_simps)
qed

lemma le_enc_dec:
  assumes "8 * length bs \<le> LENGTH('a)"
  shows "le_enc (length bs) (le_dec bs :: 'a::len word) = bs"
proof (rule nth_equalityI)
  fix i assume "i < length (le_enc (length bs) (le_dec bs :: 'a word))"
  then have i: "i < length bs" by simp
  have div: "(8 * i + n) div 8 = i" if "n < 8" for n using that by simp
  show "le_enc (length bs) (le_dec bs :: 'a word) ! i = bs ! i"
    by (rule bit_word_eqI)
      (use i assms in \<open>auto simp: le_enc_def bit_simps bit_le_dec div\<close>)
qed simp

lemma le_dec_enc32 [simp]: "le_dec (le_enc 4 w) = (w :: 32 word)"
  by (simp add: le_dec_enc)

lemma le_dec_enc64 [simp]: "le_dec (le_enc 8 w) = (w :: 64 word)"
  by (simp add: le_dec_enc)

subsection \<open>Reading and writing a buffer\<close>

text \<open>\<open>rd n b off\<close> are the \<open>n\<close> bytes at \<open>off\<close>; \<open>wr b off src\<close> is
  \<^verbatim>\<open>memcpy(b + off, src, length src)\<close>. Both are meant for ranges inside the buffer; every use
  that matters carries the bound.\<close>

definition rd :: "nat \<Rightarrow> byte list \<Rightarrow> nat \<Rightarrow> byte list" where
  "rd n b off = take n (drop off b)"

definition wr :: "byte list \<Rightarrow> nat \<Rightarrow> byte list \<Rightarrow> byte list" where
  "wr b off src = take off b @ src @ drop (off + length src) b"

lemma length_rd [simp]: "off + n \<le> length b \<Longrightarrow> length (rd n b off) = n"
  by (simp add: rd_def)

lemma length_wr [simp]: "off + length src \<le> length b \<Longrightarrow> length (wr b off src) = length b"
  by (simp add: wr_def)

lemma rd_wr_same [layout_simps]:
  "off + length src \<le> length b \<Longrightarrow> n = length src \<Longrightarrow> rd n (wr b off src) off = src"
  by (simp add: rd_def wr_def)

lemma rd_wr_before:
  "off' + n \<le> off \<Longrightarrow> off + length src \<le> length b \<Longrightarrow> rd n (wr b off src) off' = rd n b off'"
  by (rule nth_equalityI) (auto simp: rd_def wr_def nth_append)

lemma rd_wr_after:
  "off + length src \<le> off' \<Longrightarrow> off + length src \<le> length b \<Longrightarrow>
   rd n (wr b off src) off' = rd n b off'"
  by (simp add: rd_def wr_def)

lemma rd_wr_disjoint [layout_simps]:
  "off' + n \<le> off \<or> off + length src \<le> off' \<Longrightarrow> off + length src \<le> length b \<Longrightarrow>
   rd n (wr b off src) off' = rd n b off'"
  using rd_wr_before rd_wr_after by blast

lemma nth_wr:
  "off + length src \<le> length b \<Longrightarrow> i < length b \<Longrightarrow>
   wr b off src ! i = (if off \<le> i \<and> i < off + length src then src ! (i - off) else b ! i)"
  by (auto simp: wr_def nth_append)

lemma rd_append [simp]: "rd n (xs @ ys) (length xs) = take n ys"
  by (simp add: rd_def)

definition rd32 :: "byte list \<Rightarrow> nat \<Rightarrow> 32 word" where
  "rd32 b off = le_dec (rd 4 b off)"

definition wr32 :: "byte list \<Rightarrow> nat \<Rightarrow> 32 word \<Rightarrow> byte list" where
  "wr32 b off v = wr b off (le_enc 4 v)"

definition rd64 :: "byte list \<Rightarrow> nat \<Rightarrow> 64 word" where
  "rd64 b off = le_dec (rd 8 b off)"

definition wr64 :: "byte list \<Rightarrow> nat \<Rightarrow> 64 word \<Rightarrow> byte list" where
  "wr64 b off v = wr b off (le_enc 8 v)"

lemma length_wr32 [simp]: "off + 4 \<le> length b \<Longrightarrow> length (wr32 b off v) = length b"
  by (simp add: wr32_def)

lemma length_wr64 [simp]: "off + 8 \<le> length b \<Longrightarrow> length (wr64 b off v) = length b"
  by (simp add: wr64_def)

lemma rd32_wr32_same [layout_simps]: "off + 4 \<le> length b \<Longrightarrow> rd32 (wr32 b off v) off = v"
  by (simp add: rd32_def wr32_def rd_wr_same)

lemma rd64_wr64_same [layout_simps]: "off + 8 \<le> length b \<Longrightarrow> rd64 (wr64 b off v) off = v"
  by (simp add: rd64_def wr64_def rd_wr_same)

lemma rd_wr32_disjoint [layout_simps]:
  "off' + n \<le> off \<or> off + 4 \<le> off' \<Longrightarrow> off + 4 \<le> length b \<Longrightarrow>
   rd n (wr32 b off v) off' = rd n b off'"
  unfolding wr32_def by (rule rd_wr_disjoint) simp_all

lemma rd_wr64_disjoint [layout_simps]:
  "off' + n \<le> off \<or> off + 8 \<le> off' \<Longrightarrow> off + 8 \<le> length b \<Longrightarrow>
   rd n (wr64 b off v) off' = rd n b off'"
  unfolding wr64_def by (rule rd_wr_disjoint) simp_all

lemma rd32_wr_disjoint [layout_simps]:
  "off' + 4 \<le> off \<or> off + length src \<le> off' \<Longrightarrow> off + length src \<le> length b \<Longrightarrow>
   rd32 (wr b off src) off' = rd32 b off'"
  by (simp add: rd32_def rd_wr_disjoint)

lemma rd32_wr32_disjoint [layout_simps]:
  "off' + 4 \<le> off \<or> off + 4 \<le> off' \<Longrightarrow> off + 4 \<le> length b \<Longrightarrow>
   rd32 (wr32 b off v) off' = rd32 b off'"
  by (simp add: rd32_def rd_wr32_disjoint)

lemma rd32_wr64_disjoint [layout_simps]:
  "off' + 4 \<le> off \<or> off + 8 \<le> off' \<Longrightarrow> off + 8 \<le> length b \<Longrightarrow>
   rd32 (wr64 b off v) off' = rd32 b off'"
  by (simp add: rd32_def rd_wr64_disjoint)

lemma rd64_wr_disjoint [layout_simps]:
  "off' + 8 \<le> off \<or> off + length src \<le> off' \<Longrightarrow> off + length src \<le> length b \<Longrightarrow>
   rd64 (wr b off src) off' = rd64 b off'"
  by (simp add: rd64_def rd_wr_disjoint)

lemma rd64_wr32_disjoint [layout_simps]:
  "off' + 8 \<le> off \<or> off + 4 \<le> off' \<Longrightarrow> off + 4 \<le> length b \<Longrightarrow>
   rd64 (wr32 b off v) off' = rd64 b off'"
  by (simp add: rd64_def rd_wr32_disjoint)

lemma rd64_wr64_disjoint [layout_simps]:
  "off' + 8 \<le> off \<or> off + 8 \<le> off' \<Longrightarrow> off + 8 \<le> length b \<Longrightarrow>
   rd64 (wr64 b off v) off' = rd64 b off'"
  by (simp add: rd64_def rd_wr64_disjoint)

text \<open>\<^verbatim>\<open>memmove\<close> inside one buffer: a read followed by a write.\<close>

definition memmove :: "nat \<Rightarrow> nat \<Rightarrow> nat \<Rightarrow> byte list \<Rightarrow> byte list" where
  "memmove dst src n d = wr d dst (rd n d src)"

text \<open>Where \<^verbatim>\<open>memmove\<close> puts the bytes it moves, and what it leaves alone.\<close>

lemma rd_memmove:
  assumes "dst + n \<le> length d" "src + n \<le> length d"
  shows "src \<le> a \<Longrightarrow> a + k \<le> src + n \<Longrightarrow> rd k (memmove dst src n d) (dst + (a - src)) = rd k d a"
    "dst + n \<le> a \<Longrightarrow> rd k (memmove dst src n d) a = rd k d a"
proof -
  have l: "length (rd n d src) = n" using assms(2) by simp
  show "rd k (memmove dst src n d) a = rd k d a" if "dst + n \<le> a"
    unfolding memmove_def using that assms(1) l by (intro rd_wr_disjoint) auto
  show "rd k (memmove dst src n d) (dst + (a - src)) = rd k d a" if "src \<le> a" "a + k \<le> src + n"
  proof (rule nth_equalityI)
    show "length (rd k (memmove dst src n d) (dst + (a - src))) = length (rd k d a)"
      using that assms l by (simp add: memmove_def)
    fix i assume "i < length (rd k (memmove dst src n d) (dst + (a - src)))"
    then have i: "i < k" using that assms l by (simp add: memmove_def)
    then have "dst \<le> dst + a + i - src" "dst + a + i - src < dst + n" using that by linarith+
    then show "rd k (memmove dst src n d) (dst + (a - src)) ! i = rd k d a ! i"
      using i that assms l by (simp add: memmove_def rd_def nth_wr)
  qed
qed

section \<open>Words as numbers\<close>

lemma unat_of_nat_small: "n < 2 ^ LENGTH('a) \<Longrightarrow> unat (of_nat n :: 'a::len word) = n"
  by (simp add: unat_of_nat)

lemma sint_small: "unat w < 2 ^ 31 \<Longrightarrow> sint (w :: 32 word) = int (unat w)"
proof -
  assume "unat w < 2 ^ 31"
  then have "int (unat w) < int (2 ^ 31)" by (simp only: of_nat_less_iff)
  then have "uint w < 2 ^ 31" by simp
  moreover have "- (2 ^ 31) \<le> uint w" by (rule order_trans [OF _ uint_ge_0]) simp
  ultimately show ?thesis by (simp add: sint_uint signed_take_bit_int_eq_self)
qed

lemma sint_neg_iff: "sint (p :: 32 word) < 0 \<longleftrightarrow> 2 ^ 31 \<le> unat p"
proof (cases "unat p < 2 ^ 31")
  case True
  then show ?thesis using sint_small [of p] by simp
next
  case False
  then have "int (2 ^ 31) \<le> int (unat p)" by (simp only: of_nat_le_iff not_less)
  then have "2 ^ 31 \<le> uint p" by simp
  moreover have "uint p < 2 ^ 32" using uint_lt2p [of p] by simp
  ultimately have "uint p div 2 ^ 31 = 1" by (intro div_pos_geq [THEN trans]) (auto simp: div_pos_pos_trivial)
  then have "bit (uint p) 31" by (simp add: bit_iff_odd)
  with False show ?thesis by (simp add: sint_uint)
qed

lemma bit31_small: "unat (w :: 32 word) < 2 ^ 31 \<Longrightarrow> \<not> bit w 31"
proof -
  assume "unat w < 2 ^ 31"
  then have "unat w div 2 ^ 31 = 0" by (rule div_less)
  then have "\<not> bit (unat w) 31" by (simp only: bit_iff_odd even_zero not_True_eq_False not_False_eq_True)
  then show ?thesis by (simp add: bit_unsigned_iff)
qed

lemma sint_inject [simp]: "sint (a :: 'a::len word) = sint b \<longleftrightarrow> a = b"
  by (metis scast_eq scast_id)

section \<open>Shared list lemmas\<close>

lemma distinct_removeAll_set [simp]:
  "distinct xs \<Longrightarrow> set (remove1 x xs) = set xs - {x}"
  by (simp add: set_remove1_eq)

lemma length_remove1_mem: "x \<in> set xs \<Longrightarrow> Suc (length (remove1 x xs)) = length xs"
  by (simp add: length_remove1) (cases xs; simp)

lemma find_append: "find P (xs @ ys) = (case find P xs of Some x \<Rightarrow> Some x | None \<Rightarrow> find P ys)"
  by (induction xs) simp_all

lemma find_cong_set: "(\<And>x. x \<in> set xs \<Longrightarrow> P x = Q x) \<Longrightarrow> find P xs = find Q xs"
  by (induction xs) auto

lemma find_upt_least: "find P [a..<b] = Some i \<longleftrightarrow> a \<le> i \<and> i < b \<and> P i \<and> (\<forall>j. a \<le> j \<longrightarrow> j < i \<longrightarrow> \<not> P j)"
  "find P [a..<b] = None \<longleftrightarrow> (\<forall>j. a \<le> j \<longrightarrow> j < b \<longrightarrow> \<not> P j)"
proof -
  have "find P [a..<b] = Some i \<longleftrightarrow> a \<le> i \<and> i < b \<and> P i \<and> (\<forall>j. a \<le> j \<longrightarrow> j < i \<longrightarrow> \<not> P j)"
  proof (induction "b - a" arbitrary: a)
    case (Suc n)
    then have a: "a < b" "n = b - Suc a" by auto
    show ?case
    proof (cases "P a")
      case True
      then have "find P [a..<b] = Some a" by (simp only: upt_conv_Cons [OF a(1)] find.simps if_True)
      with True a(1) show ?thesis by (cases "i = a") auto
    next
      case False
      then have "find P [a..<b] = find P [Suc a..<b]" by (simp only: upt_conv_Cons [OF a(1)] find.simps if_False)
      also have "\<dots> = Some i \<longleftrightarrow> Suc a \<le> i \<and> i < b \<and> P i \<and> (\<forall>j. Suc a \<le> j \<longrightarrow> j < i \<longrightarrow> \<not> P j)"
        by (rule Suc.hyps(1) [OF a(2)])
      finally show ?thesis using False by (metis Suc_leD Suc_leI le_neq_implies_less)
    qed
  qed auto
  then show "find P [a..<b] = Some i \<longleftrightarrow> a \<le> i \<and> i < b \<and> P i \<and> (\<forall>j. a \<le> j \<longrightarrow> j < i \<longrightarrow> \<not> P j)" .
  show "find P [a..<b] = None \<longleftrightarrow> (\<forall>j. a \<le> j \<longrightarrow> j < b \<longrightarrow> \<not> P j)"
    by (auto simp: find_None_iff)
qed

lemma filter_list_update_count:
  assumes "i < length xs"
  shows "length (filter P (xs[i := v])) + (if P (xs ! i) then 1 else 0) =
         length (filter P xs) + (if P v then 1 else 0)"
  using assms
proof (induction xs arbitrary: i)
  case (Cons x xs)
  then show ?case by (cases i) auto
qed simp

end
