(* ===== verification/Replacer.thy ===== *)
theory Replacer
  imports MiniSQL_Prelude
begin

text \<open>
  The abstract class \<^verbatim>\<open>Replacer\<close> (\<^verbatim>\<open>src/include/buffer/replacer.h\<close>): its virtual methods as a record
  of functions over the replacer's state, and what a replacement policy promises the buffer pool as
  a locale. \<open>evictable r\<close> is the set of frames that may be victimized, \<open>tracks r\<close> the frames the
  replacer accepts.
\<close>

record 'r replacer_ops =
  op_Victim :: "'r \<Rightarrow> 'r \<times> frame_id_t option"
  op_Pin :: "frame_id_t \<Rightarrow> 'r \<Rightarrow> 'r"
  op_Unpin :: "frame_id_t \<Rightarrow> 'r \<Rightarrow> 'r"
  op_Size :: "'r \<Rightarrow> nat"

locale replacer =
  fixes rops :: "'r replacer_ops"
    and evictable :: "'r \<Rightarrow> frame_id_t set"
    and tracks :: "'r \<Rightarrow> frame_id_t set"
    and rinv :: "'r \<Rightarrow> bool"
  assumes evictable_tracked: "rinv r \<Longrightarrow> evictable r \<subseteq> tracks r"
    and finite_evictable: "rinv r \<Longrightarrow> finite (evictable r)"
    and victim_empty: "rinv r \<Longrightarrow> evictable r = {} \<Longrightarrow> op_Victim rops r = (r, None)"
    and victim_nonempty: "rinv r \<Longrightarrow> evictable r \<noteq> {} \<Longrightarrow>
      \<exists>r' f. op_Victim rops r = (r', Some f) \<and> f \<in> evictable r \<and>
        evictable r' = evictable r - {f} \<and> tracks r' = tracks r \<and> rinv r'"
    and pin_evictable: "rinv r \<Longrightarrow> f \<in> tracks r \<Longrightarrow>
      evictable (op_Pin rops f r) = evictable r - {f}"
    and unpin_evictable: "rinv r \<Longrightarrow> f \<in> tracks r \<Longrightarrow>
      evictable (op_Unpin rops f r) = insert f (evictable r)"
    and pin_tracks: "rinv r \<Longrightarrow> tracks (op_Pin rops f r) = tracks r"
    and unpin_tracks: "rinv r \<Longrightarrow> tracks (op_Unpin rops f r) = tracks r"
    and pin_inv: "rinv r \<Longrightarrow> rinv (op_Pin rops f r)"
    and unpin_inv: "rinv r \<Longrightarrow> rinv (op_Unpin rops f r)"
    and size_evictable: "rinv r \<Longrightarrow> op_Size rops r = card (evictable r)"
begin

lemma victim_cases [consumes 1, case_names Empty Victim]:
  assumes "rinv r"
  obtains "evictable r = {}" "op_Victim rops r = (r, None)"
  | r' f where "op_Victim rops r = (r', Some f)" "f \<in> evictable r" "evictable r' = evictable r - {f}"
      "tracks r' = tracks r" "rinv r'"
  using victim_empty [OF assms] victim_nonempty [OF assms] by blast

text \<open>A frame that was pinned is never the victim, and the size goes down by one per victim.\<close>

lemma pinned_not_victim:
  assumes "rinv r" "f \<in> tracks r" "op_Victim rops (op_Pin rops f r) = (r', Some g)"
  shows "g \<noteq> f"
  using victim_cases [OF pin_inv [OF assms(1), of f]] assms pin_evictable by (metis DiffE Pair_inject
      insertI1 option.discI option.inject)

lemma victim_size:
  assumes "rinv r" "op_Victim rops r = (r', Some f)"
  shows "Suc (op_Size rops r') = op_Size rops r"
  using assms(1)
proof (cases rule: victim_cases)
  case Empty
  with assms show ?thesis by simp
next
  case (Victim r'' g)
  with assms have "r'' = r'" "g = f" by auto
  with Victim have "op_Size rops r' = card (evictable r - {f})" by (simp add: size_evictable)
  with card_Suc_Diff1 [OF finite_evictable [OF assms(1)], of f] Victim \<open>g = f\<close> assms(1)
  show ?thesis by (simp only: size_evictable)
qed

primrec victims :: "nat \<Rightarrow> 'r \<Rightarrow> frame_id_t list" where
  "victims 0 r = []"
| "victims (Suc n) r = (case op_Victim rops r of (_, None) \<Rightarrow> [] | (r', Some f) \<Rightarrow> f # victims n r')"

text \<open>Asking for as many victims as there are evictable frames yields each of them exactly once.\<close>

lemma victims_drain:
  "rinv r \<Longrightarrow> set (victims (card (evictable r)) r) = evictable r \<and> distinct (victims (card (evictable r)) r)"
proof (induction "card (evictable r)" arbitrary: r)
  case 0
  then show ?case by (simp add: finite_evictable)
next
  case (Suc n)
  from Suc.prems show ?case
  proof (cases rule: victim_cases)
    case Empty
    with Suc show ?thesis by simp
  next
    case (Victim r' f)
    then have "n = card (evictable r')"
      using Suc.hyps(2) Suc.prems by (simp add: finite_evictable)
    moreover from this have "victims (card (evictable r)) r = f # victims n r'"
      using Suc.hyps(2) [symmetric] Victim(1) by simp
    ultimately show ?thesis using Suc.hyps(1) [OF _ Victim(5)] Victim(2,3) by auto
  qed
qed

end

end
