(* ===== verification/Lru_Replacer.thy ===== *)
theory Lru_Replacer
  imports Replacer
begin

text \<open>
  The LRU policy (\<^verbatim>\<open>src/include/buffer/lru_replacer.h\<close>, \<^verbatim>\<open>src/buffer/lru_replacer.cpp\<close>). The
  \<^verbatim>\<open>std::list\<close> holds nodes with a stable identity, which the map's iterators name: a node is a pair
  of its identity and the frame, \<open>lru_next\<close> supplies the identity of the next node.
\<close>

record LRUReplacer =
  lru_list :: "(nat \<times> frame_id_t) list"
  lru_map :: "frame_id_t \<rightharpoonup> nat"
  lru_next :: nat

definition LRUReplacer_init :: "nat \<Rightarrow> LRUReplacer" where
  "LRUReplacer_init num_pages = \<lparr>lru_list = [], lru_map = Map.empty, lru_next = 0\<rparr>"

definition lru_Victim :: "LRUReplacer \<Rightarrow> LRUReplacer \<times> frame_id_t option" where
  "lru_Victim r =
     (case lru_list r of
        [] \<Rightarrow> (r, None)
      | (_, frame_id) # rest \<Rightarrow>
          (r\<lparr>lru_map := (lru_map r)(frame_id := None), lru_list := rest\<rparr>, Some frame_id))"

definition lru_Pin :: "frame_id_t \<Rightarrow> LRUReplacer \<Rightarrow> LRUReplacer" where
  "lru_Pin frame_id r =
     (case lru_map r frame_id of
        None \<Rightarrow> r
      | Some it \<Rightarrow> r\<lparr>lru_list := filter (\<lambda>(node, _). node \<noteq> it) (lru_list r),
                     lru_map := (lru_map r)(frame_id := None)\<rparr>)"

definition lru_Unpin :: "frame_id_t \<Rightarrow> LRUReplacer \<Rightarrow> LRUReplacer" where
  "lru_Unpin frame_id r =
     (if lru_map r frame_id \<noteq> None then r
      else r\<lparr>lru_list := lru_list r @ [(lru_next r, frame_id)],
             lru_map := (lru_map r)(frame_id \<mapsto> lru_next r), lru_next := Suc (lru_next r)\<rparr>)"

definition lru_Size :: "LRUReplacer \<Rightarrow> nat" where
  "lru_Size r = length (lru_list r)"

definition lru_ops :: "LRUReplacer replacer_ops" where
  "lru_ops = \<lparr>op_Victim = lru_Victim, op_Pin = lru_Pin, op_Unpin = lru_Unpin, op_Size = lru_Size\<rparr>"

section \<open>The invariant: the map indexes the list\<close>

definition lru_frames :: "LRUReplacer \<Rightarrow> frame_id_t list" where
  "lru_frames r = map snd (lru_list r)"

definition wf_lru :: "LRUReplacer \<Rightarrow> bool" where
  [inv_defs]: "wf_lru r \<longleftrightarrow> distinct (map fst (lru_list r)) \<and> distinct (map snd (lru_list r)) \<and>
     (\<forall>f n. lru_map r f = Some n \<longleftrightarrow> (n, f) \<in> set (lru_list r)) \<and>
     (\<forall>(n, f) \<in> set (lru_list r). n < lru_next r)"

lemma lru_map_None_iff: "wf_lru r \<Longrightarrow> lru_map r f = None \<longleftrightarrow> f \<notin> set (lru_frames r)"
proof -
  assume "wf_lru r"
  then have "lru_map r f \<noteq> None \<longleftrightarrow> (\<exists>n. (n, f) \<in> set (lru_list r))"
    by (simp add: wf_lru_def)
  then show ?thesis by (force simp: lru_frames_def)
qed

lemma distinct_fst_snd_filter:
  assumes "distinct (map fst xs)" "distinct (map snd xs)" "(n, f) \<in> set xs"
  shows "map snd (filter (\<lambda>(m, _). m \<noteq> n) xs) = remove1 f (map snd xs)"
  using assms
proof (induction xs)
  case (Cons x xs)
  show ?case
  proof (cases "x = (n, f)")
    case True
    with Cons.prems have "filter (\<lambda>(m, _). m \<noteq> n) xs = xs"
      by (auto simp: filter_id_conv image_iff)
    with True show ?thesis by simp
  next
    case False
    with Cons have "(n, f) \<in> set xs" "fst x \<noteq> n" "snd x \<noteq> f"
      by (auto simp: image_iff)
    with Cons show ?thesis by (auto split: prod.splits)
  qed
qed simp

text \<open>The list of frames behaves as a queue without duplicates.\<close>

lemma lru_frames_Victim:
  "wf_lru r \<Longrightarrow> lru_frames (fst (lru_Victim r)) = tl (lru_frames r)"
  "snd (lru_Victim r) = (case lru_frames r of [] \<Rightarrow> None | f # _ \<Rightarrow> Some f)"
  by (auto simp: lru_Victim_def lru_frames_def split: list.splits)

lemma lru_frames_Pin: "wf_lru r \<Longrightarrow> lru_frames (lru_Pin f r) = remove1 f (lru_frames r)"
  using lru_map_None_iff [of r f] distinct_fst_snd_filter [of "lru_list r" _ f]
  by (auto simp: lru_Pin_def lru_frames_def wf_lru_def remove1_idem split: option.splits)

lemma lru_frames_Unpin:
  "wf_lru r \<Longrightarrow> lru_frames (lru_Unpin f r) =
     (if f \<in> set (lru_frames r) then lru_frames r else lru_frames r @ [f])"
  using lru_map_None_iff [of r f] by (auto simp: lru_Unpin_def lru_frames_def)

lemma wf_lru_init: "wf_lru (LRUReplacer_init n)" "lru_frames (LRUReplacer_init n) = []"
  by (simp_all add: wf_lru_def LRUReplacer_init_def lru_frames_def)

lemma wf_lru_Victim: "wf_lru r \<Longrightarrow> wf_lru (fst (lru_Victim r))"
  by (force simp: wf_lru_def lru_Victim_def image_iff split: list.splits prod.splits)

lemma distinct_snd_inj:
  "distinct (map snd xs) \<Longrightarrow> (n, f) \<in> set xs \<Longrightarrow> (m, f) \<in> set xs \<Longrightarrow> m = n"
  by (induction xs) (auto simp: rev_image_eqI)

lemma distinct_fst_inj:
  "distinct (map fst xs) \<Longrightarrow> (n, f) \<in> set xs \<Longrightarrow> (n, g) \<in> set xs \<Longrightarrow> f = g"
  by (induction xs) (auto simp: rev_image_eqI)

lemma wf_lru_Pin:
  assumes wf: "wf_lru r"
  shows "wf_lru (lru_Pin f r)"
proof (cases "lru_map r f")
  case None
  with wf show ?thesis by (simp add: lru_Pin_def)
next
  case (Some n)
  let ?l = "filter (\<lambda>(m, _). m \<noteq> n) (lru_list r)"
  have n: "(n, f) \<in> set (lru_list r)" using wf Some by (simp add: wf_lru_def)
  have "((lru_map r)(f := None)) g = Some m \<longleftrightarrow> (m, g) \<in> set ?l" for g m
  proof (cases "g = f")
    case True
    then show ?thesis using wf n distinct_snd_inj [of "lru_list r" n f m] by (auto simp: wf_lru_def)
  next
    case False
    then have "(n, g) \<notin> set (lru_list r)"
      using wf n distinct_fst_inj [of "lru_list r" n f g] by (auto simp: wf_lru_def)
    moreover have "lru_map r g = Some m \<longleftrightarrow> (m, g) \<in> set (lru_list r)" using wf by (simp add: wf_lru_def)
    ultimately show ?thesis using False by auto
  qed
  moreover have "distinct (map fst ?l)" "distinct (map snd ?l)"
    using wf by (simp_all add: wf_lru_def distinct_map_filter)
  moreover have "lru_Pin f r = r\<lparr>lru_list := ?l, lru_map := (lru_map r)(f := None)\<rparr>"
    by (simp add: lru_Pin_def Some)
  ultimately show ?thesis
    using wf by (simp add: wf_lru_def)
qed

lemma wf_lru_Unpin: "wf_lru r \<Longrightarrow> wf_lru (lru_Unpin f r)"
  using lru_map_None_iff [of r f]
  by (force simp: wf_lru_def lru_Unpin_def lru_frames_def)

lemmas lru_frames_simps = lru_frames_Victim lru_frames_Pin lru_frames_Unpin
lemmas wf_lru_intros = wf_lru_init(1) wf_lru_Victim wf_lru_Pin wf_lru_Unpin

lemma distinct_lru_frames: "wf_lru r \<Longrightarrow> distinct (lru_frames r)"
  by (simp add: wf_lru_def lru_frames_def)

lemma lru_Size_frames: "lru_Size r = length (lru_frames r)"
  by (simp add: lru_Size_def lru_frames_def)

interpretation lru: replacer lru_ops "\<lambda>r. set (lru_frames r)" "\<lambda>_. UNIV" wf_lru
proof (unfold_locales, goal_cases)
  case (3 r)
  then have "lru_list r = []" by (simp add: lru_frames_def)
  then show ?case by (simp add: lru_ops_def lru_Victim_def)
next
  case (4 r)
  then obtain f fs where fs: "lru_frames r = f # fs" by (cases "lru_frames r") auto
  with lru_frames_Victim(1) [OF 4(1)] lru_frames_Victim(2) [of r] have "snd (lru_Victim r) = Some f" "lru_frames (fst (lru_Victim r)) = fs"
    by simp_all
  moreover have "f \<notin> set fs" using distinct_lru_frames [OF 4(1)] fs by simp
  ultimately show ?case
    using fs wf_lru_Victim [OF 4(1)] by (auto simp: lru_ops_def prod_eq_iff)
next
  case (5 r f)
  then show ?case using distinct_lru_frames [OF 5(1)] by (simp add: lru_ops_def lru_frames_Pin)
next
  case (10 r)
  then show ?case using distinct_lru_frames [OF 10]
    by (simp add: lru_ops_def lru_Size_frames distinct_card)
qed (auto simp: lru_ops_def lru_frames_Unpin intro: wf_lru_intros)

section \<open>Properties\<close>

text \<open>C21. The LRU replacer implements a queue of distinct frames: on a consistent state (the hash
  map indexes the list), \<^verbatim>\<open>Victim\<close> removes and returns the frame at the front, \<^verbatim>\<open>Pin\<close> removes a frame
  wherever it is and ignores an unknown one, \<^verbatim>\<open>Unpin\<close> appends a frame that is not queued and leaves
  a queued one at its place; all three keep the state consistent.\<close>

theorem lru_queue_refinement:
  assumes "wf_lru r"
  shows "lru_frames (fst (lru_Victim r)) = tl (lru_frames r) \<and>
    snd (lru_Victim r) = (if lru_frames r = [] then None else Some (hd (lru_frames r))) \<and>
    lru_frames (lru_Pin f r) = remove1 f (lru_frames r) \<and>
    lru_frames (lru_Unpin f r) =
      (if f \<in> set (lru_frames r) then lru_frames r else lru_frames r @ [f]) \<and>
    lru_Size r = length (lru_frames r) \<and>
    wf_lru (fst (lru_Victim r)) \<and> wf_lru (lru_Pin f r) \<and> wf_lru (lru_Unpin f r)"
  using assms by (simp add: lru_frames_simps lru_Size_frames wf_lru_intros split: list.splits)

definition lru_example :: LRUReplacer where
  "lru_example = lru_Unpin 1 (lru_Unpin 3 (lru_Unpin 1 (LRUReplacer_init 4)))"

theorem lru_queue_refinement_witness:
  "wf_lru lru_example \<and> lru_frames lru_example = [1, 3] \<and> snd (lru_Victim lru_example) = Some 1 \<and>
   lru_frames (lru_Pin 1 lru_example) = [3]"
proof -
  have wf: "wf_lru lru_example" by (simp add: lru_example_def wf_lru_intros)
  have "lru_frames lru_example = [1, 3]"
    by (simp add: lru_example_def lru_Unpin_def LRUReplacer_init_def lru_frames_def)
  with wf lru_queue_refinement [OF wf, of 1] show ?thesis by simp
qed

text \<open>Repeated \<^verbatim>\<open>Victim\<close> calls on the LRU replacer, as many as it has frames, evict every evictable
  frame exactly once.\<close>

theorem lru_victims_drain:
  assumes "wf_lru r"
  shows "set (lru.victims (lru_Size r) r) = set (lru_frames r) \<and> distinct (lru.victims (lru_Size r) r)"
proof -
  have "lru_Size r = card (set (lru_frames r))"
    using lru.size_evictable [OF assms] by (simp add: lru_ops_def)
  with lru.victims_drain [OF assms] show ?thesis by simp
qed

theorem lru_victims_drain_witness:
  "set (lru.victims (lru_Size lru_example) lru_example) = {1, 3}"
proof -
  have "wf_lru lru_example" by (simp add: lru_example_def wf_lru_intros)
  moreover have "lru_frames lru_example = [1, 3]"
    by (simp add: lru_example_def lru_Unpin_def LRUReplacer_init_def lru_frames_def)
  ultimately show ?thesis using lru_victims_drain [of lru_example] by simp
qed

end
