(* ===== verification/Clock_Replacer.thy ===== *)
theory Clock_Replacer
  imports Replacer
begin

text \<open>
  The CLOCK policy (\<^verbatim>\<open>src/include/buffer/clock_replacer.h\<close>, \<^verbatim>\<open>src/buffer/clock_replacer.cpp\<close>). The
  \<^verbatim>\<open>while (true)\<close> of \<^verbatim>\<open>Victim\<close> is a partial function whose result \<open>None\<close> would mean that the hand
  turns forever; it is shown to return whenever a frame is evictable.
\<close>

record CLOCKReplacer =
  clk_capacity :: nat
  ref_bits :: "bool list"
  in_clock :: "bool list"
  clock_hand :: nat
  clk_size :: nat

definition CLOCKReplacer_init :: "nat \<Rightarrow> CLOCKReplacer" where
  "CLOCKReplacer_init num_pages =
     \<lparr>clk_capacity = num_pages, ref_bits = replicate num_pages False,
      in_clock = replicate num_pages False, clock_hand = 0, clk_size = 0\<rparr>"

text \<open>\<^verbatim>\<open>static_cast<size_t>(frame_id)\<close>: a negative frame number becomes a huge one.\<close>

definition size_t_of :: "frame_id_t \<Rightarrow> nat" where
  "size_t_of f = nat (f mod 2 ^ 64)"

partial_function (option) clock_scan ::
  "nat \<Rightarrow> bool list \<Rightarrow> bool list \<Rightarrow> nat \<Rightarrow> (bool list \<times> nat) option" where
  "clock_scan cap inc ref hand =
     (let h = Suc hand mod cap
      in if inc ! h
         then if ref ! h then clock_scan cap inc (ref[h := False]) h else Some (ref, h)
         else clock_scan cap inc ref h)"

definition clock_Victim :: "CLOCKReplacer \<Rightarrow> (CLOCKReplacer \<times> frame_id_t option) option" where
  "clock_Victim r =
     (if clk_size r = 0 then Some (r, None)
      else case clock_scan (clk_capacity r) (in_clock r) (ref_bits r) (clock_hand r) of
        None \<Rightarrow> None
      | Some (ref, h) \<Rightarrow>
          Some (r\<lparr>clock_hand := h, in_clock := (in_clock r)[h := False], ref_bits := ref[h := False],
                  clk_size := clk_size r - 1\<rparr>, Some (int h)))"

definition clock_Pin :: "frame_id_t \<Rightarrow> CLOCKReplacer \<Rightarrow> CLOCKReplacer" where
  "clock_Pin frame_id r =
     (let i = size_t_of frame_id
      in if clk_capacity r \<le> i then r
         else if in_clock r ! i
         then r\<lparr>in_clock := (in_clock r)[i := False], ref_bits := (ref_bits r)[i := False],
                clk_size := clk_size r - 1\<rparr>
         else r)"

definition clock_Unpin :: "frame_id_t \<Rightarrow> CLOCKReplacer \<Rightarrow> CLOCKReplacer" where
  "clock_Unpin frame_id r =
     (let i = size_t_of frame_id
      in if clk_capacity r \<le> i then r
         else if \<not> in_clock r ! i
         then r\<lparr>in_clock := (in_clock r)[i := True], ref_bits := (ref_bits r)[i := True],
                clk_size := clk_size r + 1\<rparr>
         else r\<lparr>ref_bits := (ref_bits r)[i := True]\<rparr>)"

definition clock_Size :: "CLOCKReplacer \<Rightarrow> nat" where
  "clock_Size r = clk_size r"

definition clock_ops :: "CLOCKReplacer replacer_ops" where
  "clock_ops = \<lparr>op_Victim = (\<lambda>r. the (clock_Victim r)), op_Pin = clock_Pin, op_Unpin = clock_Unpin,
     op_Size = clock_Size\<rparr>"

section \<open>The invariant\<close>

definition clock_frames :: "CLOCKReplacer \<Rightarrow> frame_id_t set" where
  "clock_frames r = {f. \<exists>i < clk_capacity r. f = int i \<and> in_clock r ! i}"

definition clock_tracks :: "CLOCKReplacer \<Rightarrow> frame_id_t set" where
  "clock_tracks r = {f. 0 \<le> f \<and> f < int (clk_capacity r)}"

definition wf_clock :: "CLOCKReplacer \<Rightarrow> bool" where
  [inv_defs]: "wf_clock r \<longleftrightarrow>
     length (ref_bits r) = clk_capacity r \<and> length (in_clock r) = clk_capacity r \<and>
     clk_capacity r < 2 ^ 31 \<and>
     clk_size r = length (filter id (in_clock r)) \<and>
     (clock_hand r = 0 \<or> clock_hand r < clk_capacity r)"

lemma size_t_of_nat [simp]:
  assumes "i < 2 ^ 64"
  shows "size_t_of (int i) = i"
proof -
  have "int i < 2 ^ 64" using assms by simp
  then have "int i mod 2 ^ 64 = int i" by (intro mod_pos_pos_trivial) simp_all
  then show ?thesis by (simp add: size_t_of_def)
qed

lemma clock_frames_alt: "clock_frames r = int ` {i. i < clk_capacity r \<and> in_clock r ! i}"
  by (auto simp: clock_frames_def)

lemma clock_frames_finite [simp]: "finite (clock_frames r)"
  by (simp add: clock_frames_alt)

lemma clock_size_card: "wf_clock r \<Longrightarrow> clk_size r = card (clock_frames r)"
  by (simp add: clock_frames_alt card_image wf_clock_def length_filter_conv_card)

lemma tracked_index:
  assumes "wf_clock r" "f \<in> clock_tracks r"
  obtains i where "f = int i" "i < clk_capacity r" "size_t_of f = i"
proof -
  from assms have "f = int (nat f)" "nat f < clk_capacity r" "clk_capacity r < 2 ^ 64"
    by (auto simp: clock_tracks_def wf_clock_def)
  with that [of "nat f"] size_t_of_nat [of "nat f"] show ?thesis by simp
qed

lemma wf_clock_init: "n < 2 ^ 31 \<Longrightarrow> wf_clock (CLOCKReplacer_init n)"
  by (simp add: wf_clock_def CLOCKReplacer_init_def)

section \<open>The clock as a queue with reference bits\<close>

text \<open>
  Reading the frames in the order in which the hand meets them turns the clock into a queue of
  frames with their reference bits, and \<^verbatim>\<open>Victim\<close> into the second-chance policy on that queue: a
  referenced frame at the front goes to the back without its bit, the first unreferenced one is
  taken.
\<close>

function second_chance :: "('a \<times> bool) list \<Rightarrow> ('a \<times> ('a \<times> bool) list) option" where
  "second_chance [] = None"
| "second_chance ((f, True) # q) = second_chance (q @ [(f, False)])"
| "second_chance ((f, False) # q) = Some (f, q)"
  by pat_completeness auto
termination
  by (relation "measure (\<lambda>q. length (filter snd q))") auto

definition ring :: "nat \<Rightarrow> nat \<Rightarrow> nat list" where
  "ring cap hand = rotate (Suc hand) [0..<cap]"

definition clock_view :: "nat \<Rightarrow> bool list \<Rightarrow> bool list \<Rightarrow> nat \<Rightarrow> (nat \<times> bool) list" where
  "clock_view cap inc ref hand = map (\<lambda>i. (i, ref ! i)) (filter (\<lambda>i. inc ! i) (ring cap hand))"

definition clock_queue :: "CLOCKReplacer \<Rightarrow> (nat \<times> bool) list" where
  "clock_queue r = clock_view (clk_capacity r) (in_clock r) (ref_bits r) (clock_hand r)"

lemma ring_set [simp]: "set (ring cap hand) = {..<cap}"
  by (auto simp: ring_def)

lemma ring_step:
  fixes hand :: nat
  assumes "0 < cap"
  defines "h \<equiv> Suc hand mod cap"
  obtains rest where "ring cap hand = h # rest" "ring cap h = rest @ [h]" "h \<notin> set rest" "h < cap"
proof -
  obtain a rest where r: "ring cap hand = a # rest"
    using assms(1) by (cases "ring cap hand") (auto simp: ring_def)
  then have "a = hd (rotate (Suc hand) [0..<cap])" by (simp add: ring_def)
  with assms(1) have a: "a = h" by (simp add: h_def hd_rotate_conv_nth del: rotate_Suc)
  have "rotate (Suc h) [0..<cap] = rotate1 (rotate h [0..<cap])" by simp
  also have "rotate h [0..<cap] = rotate (Suc hand) [0..<cap]"
    using rotate_conv_mod [of "Suc hand" "[0..<cap]"] by (simp add: h_def del: rotate_Suc)
  finally have "ring cap h = rest @ [h]" using r a by (simp add: ring_def)
  moreover have "distinct (ring cap hand)" by (simp add: ring_def del: rotate_Suc)
  moreover have "h < cap" using assms(1) by (simp add: h_def)
  ultimately show thesis using that [of rest] r a by simp
qed

lemma clock_view_frames: "fst ` set (clock_view cap inc ref hand) = {i. i < cap \<and> inc ! i}"
  by (auto simp: clock_view_def image_iff)

lemma clock_view_skip:
  assumes "0 < cap" "\<not> inc ! (Suc hand mod cap)"
  shows "clock_view cap inc ref (Suc hand mod cap) = clock_view cap inc ref hand"
proof -
  obtain rest where "ring cap hand = (Suc hand mod cap) # rest"
      "ring cap (Suc hand mod cap) = rest @ [Suc hand mod cap]"
    using ring_step [OF assms(1), of hand] by blast
  with assms(2) show ?thesis by (simp add: clock_view_def)
qed

lemma clock_view_head:
  assumes "0 < cap" "inc ! (Suc hand mod cap)" "length ref = cap" "length inc = cap"
  defines "h \<equiv> Suc hand mod cap"
  obtains q where "clock_view cap inc ref hand = (h, ref ! h) # q"
    "clock_view cap inc (ref[h := False]) h = q @ [(h, False)]"
    "clock_view cap (inc[h := False]) (ref[h := False]) h = q" "h < cap"
proof -
  obtain rest where rest: "ring cap hand = h # rest" "ring cap h = rest @ [h]" "h \<notin> set rest" "h < cap"
    using ring_step [OF assms(1), of hand] unfolding h_def by blast
  let ?q = "map (\<lambda>i. (i, ref ! i)) (filter (\<lambda>i. inc ! i) rest)"
  have inc: "inc ! h" using assms(2) by (simp add: h_def)
  have "map (\<lambda>i. (i, ref[h := False] ! i)) (filter (\<lambda>i. inc ! i) rest) = ?q"
  proof (rule map_cong [OF refl])
    fix x assume "x \<in> set (filter (\<lambda>i. inc ! i) rest)"
    with rest(3) have "h \<noteq> x" by auto
    then show "(x, ref[h := False] ! x) = (x, ref ! x)" by simp
  qed
  moreover have "filter (\<lambda>i. inc[h := False] ! i) rest = filter (\<lambda>i. inc ! i) rest"
  proof (rule filter_cong [OF refl])
    fix x assume "x \<in> set rest"
    with rest(3) have "h \<noteq> x" by auto
    then show "inc[h := False] ! x = inc ! x" by simp
  qed
  ultimately show thesis
    using that [of ?q] rest inc assms(3,4) by (simp add: clock_view_def)
qed

section \<open>The scan ends\<close>

lemma clock_scan_reaches:
  assumes "0 < cap" "\<exists>i < cap. inc ! i"
  shows "\<exists>hand'. clock_scan cap inc ref hand = clock_scan cap inc ref hand' \<and>
    clock_view cap inc ref hand' = clock_view cap inc ref hand \<and> inc ! (Suc hand' mod cap)"
proof -
  have "pre @ h # post = ring cap hand \<Longrightarrow> \<forall>i \<in> set pre. \<not> inc ! i \<Longrightarrow> inc ! h \<Longrightarrow> ?thesis" for pre h post
  proof (induction pre arbitrary: hand post)
    case Nil
    then show ?case using ring_step [OF assms(1), of hand] by (metis append_Nil list.inject)
  next
    case (Cons a pre)
    obtain rest where r: "ring cap hand = (Suc hand mod cap) # rest"
        "ring cap (Suc hand mod cap) = rest @ [Suc hand mod cap]"
      using ring_step [OF assms(1), of hand] by blast
    with Cons.prems(1) have a: "a = Suc hand mod cap" and "pre @ h # (post @ [a]) = ring cap a" by auto
    with Cons.IH [of "post @ [a]" a] Cons.prems obtain hand' where
      "clock_scan cap inc ref a = clock_scan cap inc ref hand'"
      "clock_view cap inc ref hand' = clock_view cap inc ref a" "inc ! (Suc hand' mod cap)" by auto
    moreover have "\<not> inc ! a" using Cons.prems(2) by simp
    ultimately show ?case
      using a clock_view_skip [OF assms(1), of inc hand ref] clock_scan.simps [of cap inc ref hand]
      by (auto simp: Let_def)
  qed
  moreover obtain pre h post where "ring cap hand = pre @ h # post" "inc ! h" "\<forall>i \<in> set pre. \<not> inc ! i"
    using split_list_first_prop [of "ring cap hand" "\<lambda>i. inc ! i"] assms(2) by auto
  ultimately show ?thesis by metis
qed

lemma clock_scan_second_chance:
  assumes "0 < cap" "\<exists>i < cap. inc ! i" "length ref = cap" "length inc = cap"
  shows "\<exists>ref' h. clock_scan cap inc ref hand = Some (ref', h) \<and> h < cap \<and> inc ! h \<and> length ref' = cap \<and>
    second_chance (clock_view cap inc ref hand) =
      Some (h, clock_view cap (inc[h := False]) (ref'[h := False]) h)"
  using assms(3)
proof (induction "length (filter snd (clock_view cap inc ref hand))" arbitrary: ref hand rule: less_induct)
  case less
  obtain hand' where hand': "clock_scan cap inc ref hand = clock_scan cap inc ref hand'"
    "clock_view cap inc ref hand = clock_view cap inc ref hand'" and inc: "inc ! (Suc hand' mod cap)"
    using clock_scan_reaches [OF assms(1,2), of ref hand] by metis
  define h where "h = Suc hand' mod cap"
  obtain q where q: "clock_view cap inc ref hand' = (h, ref ! h) # q"
    "clock_view cap inc (ref[h := False]) h = q @ [(h, False)]"
    "clock_view cap (inc[h := False]) (ref[h := False]) h = q" "h < cap"
    using clock_view_head [OF assms(1) inc less.prems assms(4)] unfolding h_def by blast
  note step = clock_scan.simps [of cap inc ref hand', folded h_def, unfolded Let_def h_def [symmetric]]
  show ?case
  proof (cases "ref ! h")
    case True
    have "length (filter snd (clock_view cap inc (ref[h := False]) h)) <
        length (filter snd (clock_view cap inc ref hand))"
      using hand'(2) q(1,2) True by simp
    from less.hyps [OF this] less.prems step True inc hand' q(1,2) show ?thesis
      by (simp add: h_def [symmetric])
  next
    case False
    with step inc hand' q less.prems show ?thesis by (simp add: h_def [symmetric])
  qed
qed

lemma set_bits_update:
  assumes "i < length xs"
  shows "length (filter id (xs[i := b])) =
    (if xs ! i then length (filter id xs) - 1 else length (filter id xs)) + of_bool b"
  using assms
proof (induction xs arbitrary: i)
  case (Cons x xs)
  then show ?case
  proof (cases i)
    case (Suc j)
    moreover have "xs ! j \<Longrightarrow> j < length xs \<Longrightarrow> 0 < length (filter id xs)"
      by (auto simp: filter_empty_conv intro: nth_mem)
    ultimately show ?thesis using Cons by (auto simp: id_def)
  qed (simp add: id_def)
qed simp

lemma clock_frames_clear:
  assumes "h < clk_capacity r" "length (in_clock r) = clk_capacity r"
  shows "clock_frames (r\<lparr>in_clock := (in_clock r)[h := False], ref_bits := rb, clk_size := n\<rparr>) =
    clock_frames r - {int h}"
  using assms by (auto simp: clock_frames_def nth_list_update)

lemma clock_Victim_step:
  assumes wf: "wf_clock r" and ne: "clock_frames r \<noteq> {}"
  shows "\<exists>r' h. clock_Victim r = Some (r', Some (int h)) \<and> int h \<in> clock_frames r \<and>
    clock_frames r' = clock_frames r - {int h} \<and> clock_tracks r' = clock_tracks r \<and> wf_clock r' \<and>
    second_chance (clock_queue r) = Some (h, clock_queue r')"
proof -
  note w = wf [unfolded wf_clock_def]
  from ne have ex: "\<exists>i < clk_capacity r. in_clock r ! i" by (auto simp: clock_frames_def)
  then have pos: "0 < clk_capacity r" by auto
  obtain ref h where scan: "clock_scan (clk_capacity r) (in_clock r) (ref_bits r) (clock_hand r) = Some (ref, h)"
    and h: "h < clk_capacity r" "in_clock r ! h" "length ref = clk_capacity r"
    and sc: "second_chance (clock_queue r) =
      Some (h, clock_view (clk_capacity r) ((in_clock r)[h := False]) (ref[h := False]) h)"
    using clock_scan_second_chance [OF pos ex, of "ref_bits r" "clock_hand r"] w
    by (auto simp: clock_queue_def)
  have size: "clk_size r \<noteq> 0" using ne clock_size_card [OF wf] by simp
  let ?r' = "r\<lparr>clock_hand := h, in_clock := (in_clock r)[h := False], ref_bits := ref[h := False],
                  clk_size := clk_size r - 1\<rparr>"
  have "clock_Victim r = Some (?r', Some (int h))"
    using scan size by (simp add: clock_Victim_def)
  moreover have "clock_frames ?r' = clock_frames r - {int h}"
    using w h by (auto simp: clock_frames_def nth_list_update)
  moreover have "wf_clock ?r'"
    using w h set_bits_update [of h "in_clock r" False] by (simp add: wf_clock_def)
  moreover have "int h \<in> clock_frames r" using h by (auto simp: clock_frames_def)
  ultimately show ?thesis using sc by (auto simp: clock_queue_def clock_tracks_def)
qed

lemma clock_Victim_empty: "wf_clock r \<Longrightarrow> clock_frames r = {} \<Longrightarrow> clock_Victim r = Some (r, None)"
  by (simp add: clock_Victim_def clock_size_card)

lemma wf_clock_Pin: "wf_clock r \<Longrightarrow> wf_clock (clock_Pin f r)"
  by (auto simp: clock_Pin_def wf_clock_def Let_def set_bits_update)

lemma wf_clock_Unpin: "wf_clock r \<Longrightarrow> wf_clock (clock_Unpin f r)"
  by (auto simp: clock_Unpin_def wf_clock_def Let_def set_bits_update)

lemma clock_frames_Pin:
  assumes "wf_clock r" "f \<in> clock_tracks r"
  shows "clock_frames (clock_Pin f r) = clock_frames r - {f}"
proof -
  obtain i where i: "f = int i" "i < clk_capacity r" "size_t_of f = i" by (rule tracked_index [OF assms])
  then show ?thesis using assms(1)
    by (auto simp: clock_Pin_def clock_frames_def wf_clock_def nth_list_update)
qed

lemma clock_frames_Unpin:
  assumes "wf_clock r" "f \<in> clock_tracks r"
  shows "clock_frames (clock_Unpin f r) = insert f (clock_frames r)"
proof -
  obtain i where i: "f = int i" "i < clk_capacity r" "size_t_of f = i" by (rule tracked_index [OF assms])
  then show ?thesis using assms(1)
    by (auto simp: clock_Unpin_def clock_frames_def wf_clock_def nth_list_update)
qed

lemma clock_tracks_keep [simp]:
  "clock_tracks (clock_Pin f r) = clock_tracks r" "clock_tracks (clock_Unpin f r) = clock_tracks r"
  by (simp_all add: clock_tracks_def clock_Pin_def clock_Unpin_def Let_def)

lemma clock_frames_tracked: "clock_frames r \<subseteq> clock_tracks r"
  by (auto simp: clock_frames_def clock_tracks_def)

interpretation clock: replacer clock_ops clock_frames clock_tracks wf_clock
proof (unfold_locales, goal_cases)
  case (4 r)
  then show ?case using clock_Victim_step [of r] by (auto simp: clock_ops_def)
qed (simp_all add: clock_ops_def clock_Victim_empty clock_frames_Pin clock_frames_Unpin
      clock_size_card clock_Size_def wf_clock_Pin wf_clock_Unpin clock_frames_tracked)

section \<open>Properties\<close>

text \<open>C22. \<^verbatim>\<open>CLOCKReplacer::Victim\<close> always returns (its \<^verbatim>\<open>while (true)\<close> ends), keeps the clock well
  formed, and implements second chance: read in hand order, referenced frames are sent to the back
  with their bit cleared until an unreferenced one is found, which is the victim; it returns false
  exactly when the clock is empty.\<close>

theorem clock_Victim_second_chance:
  assumes "wf_clock r"
  shows "\<exists>r' v. clock_Victim r = Some (r', v) \<and> wf_clock r' \<and>
    (case second_chance (clock_queue r) of
       None \<Rightarrow> v = None \<and> r' = r \<and> clk_size r = 0
     | Some (h, q) \<Rightarrow> v = Some (int h) \<and> clock_queue r' = q \<and> clk_size r = Suc (clk_size r'))"
proof (cases "clock_frames r = {}")
  case True
  then have "fst ` set (clock_queue r) = {}"
    unfolding clock_queue_def clock_view_frames by (auto simp: clock_frames_def)
  with True assms show ?thesis by (simp add: clock_Victim_empty clock_size_card)
next
  case False
  with clock_Victim_step [OF assms] obtain r' h where
    1: "clock_Victim r = Some (r', Some (int h))" "wf_clock r'"
      "second_chance (clock_queue r) = Some (h, clock_queue r')" by blast
  then have "op_Victim clock_ops r = (r', Some (int h))" by (simp add: clock_ops_def)
  from clock.victim_size [OF assms this] 1 show ?thesis by (simp add: clock_ops_def clock_Size_def)
qed

definition clock_example :: CLOCKReplacer where
  "clock_example = clock_Unpin 1 (clock_Unpin 2 (CLOCKReplacer_init 3))"

theorem clock_Victim_second_chance_witness:
  "\<exists>r'. clock_Victim clock_example = Some (r', Some 1) \<and> wf_clock r' \<and> clock_queue r' = [(2, False)]"
proof -
  have "wf_clock clock_example"
    by (simp add: clock_example_def wf_clock_Unpin wf_clock_init)
  moreover have "clock_queue clock_example = [(1, True), (2, True)]" by code_simp
  ultimately show ?thesis
    using clock_Victim_second_chance [of clock_example] by auto
qed

end
