(* ===== verification/Slot_Allocator.thy ===== *)
theory Slot_Allocator
  imports MiniSQL_Prelude
begin

text \<open>
  The contract of an allocator of numbered slots, as the bitmap page offers it to the disk manager
  and the disk manager offers it to the buffer pool: \<open>alloc\<close> hands out a free slot if there is one,
  \<open>dealloc\<close> takes back an allocated one and refuses a free one, \<open>is_free\<close> tells them apart, and
  nothing else changes. \<open>used s\<close> is the set of slots handed out and \<open>valid s\<close> the set of slots
  that can be handed out.
\<close>

locale slot_allocator =
  fixes alloc :: "'s \<Rightarrow> 's \<times> 'i option"
    and dealloc :: "'s \<Rightarrow> 'i \<Rightarrow> 's \<times> bool"
    and is_free :: "'s \<Rightarrow> 'i \<Rightarrow> bool"
    and used :: "'s \<Rightarrow> 'i set"
    and valid :: "'s \<Rightarrow> 'i set"
    and invar :: "'s \<Rightarrow> bool"
  assumes used_valid: "invar s \<Longrightarrow> used s \<subseteq> valid s"
    and alloc_Some: "invar s \<Longrightarrow> alloc s = (s', Some i) \<Longrightarrow>
      i \<in> valid s - used s \<and> used s' = insert i (used s) \<and> valid s' = valid s"
    and alloc_None: "invar s \<Longrightarrow> alloc s = (s', None) \<Longrightarrow> s' = s \<and> used s = valid s"
    and dealloc_used: "invar s \<Longrightarrow> i \<in> used s \<Longrightarrow>
      (\<exists>s'. dealloc s i = (s', True) \<and> used s' = used s - {i} \<and> valid s' = valid s)"
    and dealloc_unused: "invar s \<Longrightarrow> i \<notin> used s \<Longrightarrow> dealloc s i = (s, False)"
    and is_free_iff: "invar s \<Longrightarrow> i \<in> valid s \<Longrightarrow> is_free s i \<longleftrightarrow> i \<notin> used s"
    and invar_alloc: "invar s \<Longrightarrow> invar (fst (alloc s))"
    and invar_dealloc: "invar s \<Longrightarrow> invar (fst (dealloc s i))"
begin

lemma alloc_cases [consumes 1, case_names Some None]:
  assumes "invar s"
  obtains s' i where "alloc s = (s', Some i)" "i \<in> valid s" "i \<notin> used s"
      "used s' = insert i (used s)" "valid s' = valid s" "invar s'"
  | "alloc s = (s, None)" "used s = valid s"
proof (cases "alloc s")
  case (Pair s' r)
  show ?thesis
  proof (cases r)
    case None
    with Pair alloc_None [OF assms] that(2) show ?thesis by auto
  next
    case (Some i)
    with Pair have "alloc s = (s', Some i)" by simp
    with alloc_Some [OF assms this] invar_alloc [OF assms] that(1) show ?thesis by auto
  qed
qed

text \<open>Allocation succeeds exactly when a slot is free.\<close>

lemma alloc_succeeds_iff:
  "invar s \<Longrightarrow> snd (alloc s) \<noteq> None \<longleftrightarrow> (\<exists>i. i \<in> valid s \<and> i \<notin> used s)"
  using used_valid [of s] by (auto elim: alloc_cases)

text \<open>Giving back what was just allocated restores the set of allocated slots.\<close>

lemma alloc_dealloc:
  assumes "invar s" and "alloc s = (s', Some i)"
  shows "\<exists>s''. dealloc s' i = (s'', True) \<and> used s'' = used s"
proof -
  have s': "invar s'" "i \<in> used s'" "used s' - {i} = used s"
    using alloc_Some [OF assms] invar_alloc [OF assms(1)] assms(2) by auto
  show ?thesis using dealloc_used [OF s'(1,2)] s'(3) by auto
qed

primrec alloc_many :: "nat \<Rightarrow> 's \<Rightarrow> 's \<times> 'i list" where
  "alloc_many 0 s = (s, [])"
| "alloc_many (Suc n) s =
     (case alloc s of (s', None) \<Rightarrow> (s', [])
      | (s', Some i) \<Rightarrow> (case alloc_many n s' of (s'', js) \<Rightarrow> (s'', i # js)))"

text \<open>Slots handed out by any number of allocations in a row are pairwise distinct, were all free
  before, and are exactly what the set of allocated slots gains.\<close>

lemma alloc_many_fresh:
  "invar s \<Longrightarrow> alloc_many n s = (s', js) \<Longrightarrow>
   distinct js \<and> set js \<inter> used s = {} \<and> used s' = used s \<union> set js \<and> valid s' = valid s \<and> invar s'"
proof (induction n arbitrary: s js)
  case 0
  then show ?case by simp
next
  case (Suc n)
  from Suc.prems(1) show ?case
  proof (cases rule: alloc_cases)
    case (Some t i)
    obtain js' where "alloc_many n t = (s', js')" "js = i # js'"
      using Suc.prems(2) Some(1) by (auto split: prod.splits)
    with Suc.IH [OF \<open>invar t\<close>] Some show ?thesis by auto
  next
    case None
    with Suc.prems show ?thesis by simp
  qed
qed

end

end
