(* ===== verification/Bitmap_Page.thy ===== *)
theory Bitmap_Page
  imports Slot_Allocator
begin

text \<open>
  The bitmap page (\<^verbatim>\<open>src/include/page/bitmap_page.h\<close>, \<^verbatim>\<open>src/page/bitmap_page.cpp\<close>): the
  allocation map of one extent. The template parameter \<^verbatim>\<open>PageSize\<close> is the argument \<open>ps\<close>; the
  class is instantiated there for 64 up to 4096. The bit loops of \<^verbatim>\<open>AllocatePage\<close> are
  \<open>scan_free\<close> (the \<^verbatim>\<open>for\<close>) and \<open>skip_used\<close> (the \<^verbatim>\<open>while\<close>).
\<close>

record BitmapPage =
  page_allocated :: "32 word"
  next_free_page :: "32 word"
  bm_bytes :: "byte list"

definition MAX_CHARS :: "nat \<Rightarrow> nat" where
  "MAX_CHARS ps = ps - 8"

definition GetMaxSupportedSize :: "nat \<Rightarrow> nat" where
  "GetMaxSupportedSize ps = 8 * MAX_CHARS ps"

definition IsPageFreeLow :: "BitmapPage \<Rightarrow> nat \<Rightarrow> nat \<Rightarrow> bool" where
  "IsPageFreeLow bp byte_index bit_index \<longleftrightarrow> (bm_bytes bp ! byte_index) AND push_bit bit_index 1 = 0"

function scan_free :: "nat \<Rightarrow> BitmapPage \<Rightarrow> nat \<Rightarrow> nat option" where
  "scan_free ps bp i =
     (if i < GetMaxSupportedSize ps
      then if IsPageFreeLow bp (i div 8) (i mod 8) then Some i else scan_free ps bp (Suc i)
      else None)"
  by pat_completeness auto
termination
  by (relation "measure (\<lambda>(ps, bp, i). GetMaxSupportedSize ps - i)") auto

function skip_used :: "nat \<Rightarrow> BitmapPage \<Rightarrow> nat \<Rightarrow> nat" where
  "skip_used ps bp i =
     (if i < GetMaxSupportedSize ps
      then if IsPageFreeLow bp (i div 8) (i mod 8) then i else skip_used ps bp (Suc i)
      else i)"
  by pat_completeness auto
termination
  by (relation "measure (\<lambda>(ps, bp, i). GetMaxSupportedSize ps - i)") auto

declare scan_free.simps [simp del] skip_used.simps [simp del]

definition set_bit_at :: "nat \<Rightarrow> BitmapPage \<Rightarrow> BitmapPage" where
  "set_bit_at i bp =
     bp\<lparr>bm_bytes := (bm_bytes bp)[i div 8 := (bm_bytes bp ! (i div 8)) OR push_bit (i mod 8) 1]\<rparr>"

definition clear_bit_at :: "nat \<Rightarrow> BitmapPage \<Rightarrow> BitmapPage" where
  "clear_bit_at i bp =
     bp\<lparr>bm_bytes := (bm_bytes bp)[i div 8 := (bm_bytes bp ! (i div 8)) AND NOT (push_bit (i mod 8) 1)]\<rparr>"

text \<open>\<^verbatim>\<open>AllocatePage\<close> returns its offset through a reference; \<open>None\<close> is the result \<^verbatim>\<open>false\<close>.\<close>

definition bitmap_AllocatePage :: "nat \<Rightarrow> BitmapPage \<Rightarrow> BitmapPage \<times> nat option" where
  "bitmap_AllocatePage ps bp =
     (if GetMaxSupportedSize ps \<le> unat (page_allocated bp) then (bp, None)
      else case scan_free ps bp (unat (next_free_page bp)) of
        None \<Rightarrow> (bp, None)
      | Some i \<Rightarrow>
          let bp1 = (set_bit_at i bp)\<lparr>page_allocated := page_allocated bp + 1\<rparr>
          in (bp1\<lparr>next_free_page := of_nat (skip_used ps bp1 (Suc i))\<rparr>, Some i))"

definition bitmap_DeAllocatePage :: "nat \<Rightarrow> BitmapPage \<Rightarrow> nat \<Rightarrow> BitmapPage \<times> bool" where
  "bitmap_DeAllocatePage ps bp page_offset =
     (if GetMaxSupportedSize ps \<le> page_offset then (bp, False)
      else if IsPageFreeLow bp (page_offset div 8) (page_offset mod 8) then (bp, False)
      else
        let bp1 = (clear_bit_at page_offset bp)\<lparr>page_allocated := page_allocated bp - 1\<rparr>
        in (if page_offset < unat (next_free_page bp1)
            then bp1\<lparr>next_free_page := of_nat page_offset\<rparr> else bp1, True))"

definition bitmap_IsPageFree :: "nat \<Rightarrow> BitmapPage \<Rightarrow> nat \<Rightarrow> bool" where
  "bitmap_IsPageFree ps bp page_offset =
     (if GetMaxSupportedSize ps \<le> page_offset then False
      else IsPageFreeLow bp (page_offset div 8) (page_offset mod 8))"

text \<open>A page of zero bytes read as a bitmap page: what \<^verbatim>\<open>memset\<close> gives the disk manager.\<close>

definition zero_bitmap :: "nat \<Rightarrow> BitmapPage" where
  "zero_bitmap ps = \<lparr>page_allocated = 0, next_free_page = 0, bm_bytes = replicate (MAX_CHARS ps) 0\<rparr>"

section \<open>The abstract view and the invariant\<close>

definition bm_bit :: "BitmapPage \<Rightarrow> nat \<Rightarrow> bool" where
  "bm_bit bp i = bit (bm_bytes bp ! (i div 8)) (i mod 8)"

definition bm_used :: "nat \<Rightarrow> BitmapPage \<Rightarrow> nat set" where
  "bm_used ps bp = {i. i < GetMaxSupportedSize ps \<and> bm_bit bp i}"

definition wf_bitmap :: "nat \<Rightarrow> BitmapPage \<Rightarrow> bool" where
  [inv_defs]: "wf_bitmap ps bp \<longleftrightarrow>
     length (bm_bytes bp) = MAX_CHARS ps \<and>
     GetMaxSupportedSize ps < 2 ^ 32 \<and>
     unat (page_allocated bp) = card (bm_used ps bp) \<and>
     unat (next_free_page bp) \<le> GetMaxSupportedSize ps \<and>
     (\<forall>i < unat (next_free_page bp). bm_bit bp i)"

lemma IsPageFreeLow_iff: "IsPageFreeLow bp (i div 8) (i mod 8) \<longleftrightarrow> \<not> bm_bit bp i"
  by (simp add: IsPageFreeLow_def bm_bit_def push_bit_of_1 and_exp_eq_0_iff_not_bit)

lemma bm_bit_frame [simp]:
  "bm_bit (bp\<lparr>page_allocated := a\<rparr>) = bm_bit bp"
  "bm_bit (bp\<lparr>next_free_page := n\<rparr>) = bm_bit bp"
  "bm_used ps (bp\<lparr>page_allocated := a\<rparr>) = bm_used ps bp"
  "bm_used ps (bp\<lparr>next_free_page := n\<rparr>) = bm_used ps bp"
  by (simp_all add: bm_bit_def bm_used_def fun_eq_iff)

lemma bit_index_inj: "(j::nat) div 8 = i div 8 \<Longrightarrow> j mod 8 = i mod 8 \<Longrightarrow> j = i"
  by (metis div_mult_mod_eq)

lemma bm_bit_set_bit:
  assumes "i < 8 * length (bm_bytes bp)"
  shows "bm_bit (set_bit_at i bp) j \<longleftrightarrow> j = i \<or> bm_bit bp j"
  using assms bit_index_inj [of j i]
  by (auto simp: bm_bit_def set_bit_at_def nth_list_update bit_simps)

lemma bm_bit_clear_bit:
  assumes "i < 8 * length (bm_bytes bp)"
  shows "bm_bit (clear_bit_at i bp) j \<longleftrightarrow> j \<noteq> i \<and> bm_bit bp j"
  using assms bit_index_inj [of j i]
  by (auto simp: bm_bit_def clear_bit_at_def nth_list_update bit_simps)

lemma bm_bytes_set_clear [simp]:
  "length (bm_bytes (set_bit_at i bp)) = length (bm_bytes bp)"
  "length (bm_bytes (clear_bit_at i bp)) = length (bm_bytes bp)"
  "page_allocated (set_bit_at i bp) = page_allocated bp"
  "next_free_page (clear_bit_at i bp) = next_free_page bp"
  by (simp_all add: set_bit_at_def clear_bit_at_def)

lemma finite_bm_used [simp]: "finite (bm_used ps bp)"
  by (simp add: bm_used_def)

lemma card_bm_used_le: "card (bm_used ps bp) \<le> GetMaxSupportedSize ps"
  using card_mono [of "{i. i < GetMaxSupportedSize ps}" "bm_used ps bp"] by (auto simp: bm_used_def)

section \<open>The two bit loops\<close>

lemma scan_free_spec:
  "(case scan_free ps bp i of
      None \<Rightarrow> \<forall>j. i \<le> j \<and> j < GetMaxSupportedSize ps \<longrightarrow> bm_bit bp j
    | Some k \<Rightarrow> i \<le> k \<and> k < GetMaxSupportedSize ps \<and> \<not> bm_bit bp k \<and>
        (\<forall>j. i \<le> j \<and> j < k \<longrightarrow> bm_bit bp j))"
proof (induction ps bp i rule: scan_free.induct)
  case (1 ps bp i)
  show ?case
  proof (cases "i < GetMaxSupportedSize ps \<and> bm_bit bp i")
    case True
    with 1 have IH: "case scan_free ps bp (Suc i) of
        None \<Rightarrow> \<forall>j. Suc i \<le> j \<and> j < GetMaxSupportedSize ps \<longrightarrow> bm_bit bp j
      | Some k \<Rightarrow> Suc i \<le> k \<and> k < GetMaxSupportedSize ps \<and> \<not> bm_bit bp k \<and>
          (\<forall>j. Suc i \<le> j \<and> j < k \<longrightarrow> bm_bit bp j)"
      by (simp add: IsPageFreeLow_iff)
    moreover have "scan_free ps bp i = scan_free ps bp (Suc i)"
      using True by (simp add: scan_free.simps [of ps bp i] IsPageFreeLow_iff)
    ultimately show ?thesis using True
      by (auto split: option.splits simp: Suc_le_eq) (metis le_neq_implies_less)+
  next
    case False
    then show ?thesis by (auto simp: scan_free.simps [of ps bp i] IsPageFreeLow_iff)
  qed
qed

lemma skip_used_spec:
  "i \<le> GetMaxSupportedSize ps \<Longrightarrow>
   i \<le> skip_used ps bp i \<and> skip_used ps bp i \<le> GetMaxSupportedSize ps \<and>
   (\<forall>j. i \<le> j \<and> j < skip_used ps bp i \<longrightarrow> bm_bit bp j)"
proof (induction ps bp i rule: skip_used.induct)
  case (1 ps bp i)
  show ?case
  proof (cases "i < GetMaxSupportedSize ps \<and> bm_bit bp i")
    case True
    with 1 have IH: "Suc i \<le> skip_used ps bp (Suc i) \<and>
        skip_used ps bp (Suc i) \<le> GetMaxSupportedSize ps \<and>
        (\<forall>j. Suc i \<le> j \<and> j < skip_used ps bp (Suc i) \<longrightarrow> bm_bit bp j)"
      by (simp add: IsPageFreeLow_iff)
    moreover have "skip_used ps bp i = skip_used ps bp (Suc i)"
      using True by (simp add: skip_used.simps [of ps bp i] IsPageFreeLow_iff)
    ultimately show ?thesis using True by (auto simp: Suc_le_eq) (metis le_neq_implies_less)
  next
    case False
    with 1 show ?thesis by (auto simp: skip_used.simps [of ps bp i] IsPageFreeLow_iff)
  qed
qed

section \<open>Allocation and release\<close>

lemma bm_used_eqI: "(\<And>j. bm_bit bp' j \<longleftrightarrow> P j) \<Longrightarrow>
    bm_used ps bp' = {j. j < GetMaxSupportedSize ps \<and> P j}"
  by (simp add: bm_used_def)

lemma wf_bitmap_bits_len: "wf_bitmap ps bp \<Longrightarrow> 8 * length (bm_bytes bp) = GetMaxSupportedSize ps"
  by (simp add: wf_bitmap_def GetMaxSupportedSize_def)

lemma wf_bitmap_full_iff:
  assumes "wf_bitmap ps bp"
  shows "GetMaxSupportedSize ps \<le> unat (page_allocated bp) \<longleftrightarrow>
         (\<forall>i < GetMaxSupportedSize ps. bm_bit bp i)"
proof -
  let ?n = "GetMaxSupportedSize ps"
  have sub: "bm_used ps bp \<subseteq> {..<?n}" by (auto simp: bm_used_def)
  have "card (bm_used ps bp) \<le> card {..<?n}" by (rule card_mono [OF finite_lessThan sub])
  then have "?n \<le> card (bm_used ps bp) \<longleftrightarrow> bm_used ps bp = {..<?n}"
    using card_subset_eq [OF finite_lessThan sub] by (metis card_lessThan eq_imp_le le_antisym)
  also have "\<dots> \<longleftrightarrow> (\<forall>i < ?n. bm_bit bp i)" by (auto simp: bm_used_def)
  finally show ?thesis using assms by (simp add: wf_bitmap_def)
qed

lemma bitmap_scan_least:
  assumes wf: "wf_bitmap ps bp" and "\<not> (\<forall>i < GetMaxSupportedSize ps. bm_bit bp i)"
  obtains k where "scan_free ps bp (unat (next_free_page bp)) = Some k"
    "k < GetMaxSupportedSize ps" "\<not> bm_bit bp k" "\<forall>j < k. bm_bit bp j"
proof -
  let ?n = "unat (next_free_page bp)"
  have low: "\<forall>i < ?n. bm_bit bp i" using wf by (simp add: wf_bitmap_def)
  show ?thesis
  proof (cases "scan_free ps bp ?n")
    case None
    with scan_free_spec [where ps = ps and bp = bp and i = ?n] have "\<forall>j. ?n \<le> j \<and> j < GetMaxSupportedSize ps \<longrightarrow> bm_bit bp j"
      by simp
    with low assms(2) show ?thesis by (meson not_le)
  next
    case (Some k)
    with scan_free_spec [where ps = ps and bp = bp and i = ?n]
    have k: "k < GetMaxSupportedSize ps" "\<not> bm_bit bp k"
      and high: "\<forall>j. ?n \<le> j \<and> j < k \<longrightarrow> bm_bit bp j" by auto
    from low high have "\<forall>j < k. bm_bit bp j" by (metis not_less)
    with Some k that show ?thesis by blast
  qed
qed

lemma wf_bitmap_set:
  assumes wf: "wf_bitmap ps bp" and k: "k < GetMaxSupportedSize ps" "\<not> bm_bit bp k"
    and low: "\<forall>j < k. bm_bit bp j"
    and bp1: "bp1 = (set_bit_at k bp)\<lparr>page_allocated := page_allocated bp + 1\<rparr>"
  shows "wf_bitmap ps (bp1\<lparr>next_free_page := of_nat (skip_used ps bp1 (Suc k))\<rparr>)"
proof -
  let ?n = "GetMaxSupportedSize ps" and ?nf = "skip_used ps bp1 (Suc k)"
  have bits: "bm_bit bp1 j \<longleftrightarrow> j = k \<or> bm_bit bp j" for j
    using k wf by (simp add: bp1 bm_bit_set_bit wf_bitmap_bits_len)
  have used: "bm_used ps bp1 = insert k (bm_used ps bp)" "k \<notin> bm_used ps bp"
    using k by (auto simp: bm_used_def bits)
  have small: "?n < 2 ^ 32" using wf by (simp add: wf_bitmap_def)
  have "card (bm_used ps bp1) \<le> ?n" by (rule card_bm_used_le)
  with used have count: "unat (page_allocated bp + 1) = card (bm_used ps bp1)"
    using wf small by (simp add: wf_bitmap_def unat_word_ariths)
  have skip: "Suc k \<le> ?nf" "?nf \<le> ?n" "\<forall>j. Suc k \<le> j \<and> j < ?nf \<longrightarrow> bm_bit bp1 j"
    using skip_used_spec [of "Suc k" ps bp1] k by auto
  then have nf: "unat (of_nat ?nf :: 32 word) = ?nf"
    using small by (intro unat_of_nat_small) simp
  have "bm_bit bp1 j" if "j < ?nf" for j
    using that low skip(3) bits [of j] by (cases j k rule: linorder_cases) (auto simp: Suc_le_eq)
  with count nf skip(2) wf show ?thesis
    by (simp add: wf_bitmap_def bp1)
qed

lemma wf_bitmap_clear:
  assumes wf: "wf_bitmap ps bp" and k: "k < GetMaxSupportedSize ps" "bm_bit bp k"
    and bp1: "bp1 = (clear_bit_at k bp)\<lparr>page_allocated := page_allocated bp - 1\<rparr>"
  shows "wf_bitmap ps (if k < unat (next_free_page bp1)
           then bp1\<lparr>next_free_page := of_nat k\<rparr> else bp1)"
proof -
  have bits: "bm_bit bp1 j \<longleftrightarrow> j \<noteq> k \<and> bm_bit bp j" for j
    using k wf by (simp add: bp1 bm_bit_clear_bit wf_bitmap_bits_len)
  then have clr: "bm_bit (clear_bit_at k bp) j \<longleftrightarrow> j \<noteq> k \<and> bm_bit bp j" for j by (simp add: bp1)
  have used: "bm_used ps bp1 = bm_used ps bp - {k}" "k \<in> bm_used ps bp"
    using k by (auto simp: bm_used_def bits)
  then have "0 < card (bm_used ps bp)" by (auto simp: card_gt_0_iff)
  then have pos: "page_allocated bp \<noteq> 0" using wf by (auto simp: wf_bitmap_def)
  then have count: "unat (page_allocated bp - 1) = card (bm_used ps bp1)"
    using wf used by (simp add: wf_bitmap_def unat_minus_one)
  have "unat (of_nat k :: 32 word) = k"
    using k wf by (intro unat_of_nat_small) (simp add: wf_bitmap_def)
  with count wf k show ?thesis by (auto simp: wf_bitmap_def bp1 clr)
qed

lemma zero_bitmap_wf: "8 * (ps - 8) < 2 ^ 32 \<Longrightarrow> wf_bitmap ps (zero_bitmap ps)"
  and zero_bitmap_bits: "i < GetMaxSupportedSize ps \<Longrightarrow> \<not> bm_bit (zero_bitmap ps) i"
proof -
  have bits: "\<not> bm_bit (zero_bitmap ps) i" if "i < GetMaxSupportedSize ps" for i
    using that by (simp add: bm_bit_def zero_bitmap_def GetMaxSupportedSize_def less_mult_imp_div_less)
  then show "i < GetMaxSupportedSize ps \<Longrightarrow> \<not> bm_bit (zero_bitmap ps) i" .
  from bits have "bm_used ps (zero_bitmap ps) = {}" by (auto simp: bm_used_def)
  then show "8 * (ps - 8) < 2 ^ 32 \<Longrightarrow> wf_bitmap ps (zero_bitmap ps)"
    by (simp add: wf_bitmap_def zero_bitmap_def GetMaxSupportedSize_def MAX_CHARS_def)
qed

text \<open>The functional behaviour of the three operations, in the form the interpretation and the
  disk manager use.\<close>

lemma bitmap_alloc_full:
  assumes "wf_bitmap ps bp" "\<forall>i < GetMaxSupportedSize ps. bm_bit bp i"
  shows "bitmap_AllocatePage ps bp = (bp, None)"
  using assms by (simp add: bitmap_AllocatePage_def wf_bitmap_full_iff)

lemma bitmap_alloc_free:
  assumes wf: "wf_bitmap ps bp" and free: "\<not> (\<forall>i < GetMaxSupportedSize ps. bm_bit bp i)"
  obtains bp' k where "bitmap_AllocatePage ps bp = (bp', Some k)" "wf_bitmap ps bp'"
    "k < GetMaxSupportedSize ps" "\<not> bm_bit bp k" "\<forall>j < k. bm_bit bp j"
    "\<forall>j. bm_bit bp' j \<longleftrightarrow> j = k \<or> bm_bit bp j"
proof -
  obtain k where k: "scan_free ps bp (unat (next_free_page bp)) = Some k"
    "k < GetMaxSupportedSize ps" "\<not> bm_bit bp k" "\<forall>j < k. bm_bit bp j"
    using bitmap_scan_least [OF wf free] .
  let ?bp1 = "(set_bit_at k bp)\<lparr>page_allocated := page_allocated bp + 1\<rparr>"
  let ?bp' = "?bp1\<lparr>next_free_page := of_nat (skip_used ps ?bp1 (Suc k))\<rparr>"
  have "bitmap_AllocatePage ps bp = (?bp', Some k)"
    using wf free k(1) by (simp add: bitmap_AllocatePage_def wf_bitmap_full_iff Let_def)
  moreover have "wf_bitmap ps ?bp'" by (rule wf_bitmap_set [OF wf k(2,3,4) refl])
  moreover have "\<forall>j. bm_bit ?bp' j \<longleftrightarrow> j = k \<or> bm_bit bp j"
    using k wf by (simp add: bm_bit_set_bit wf_bitmap_bits_len)
  ultimately show ?thesis using that k by blast
qed

lemma bitmap_dealloc_used:
  assumes wf: "wf_bitmap ps bp" and k: "k < GetMaxSupportedSize ps" "bm_bit bp k"
  obtains bp' where "bitmap_DeAllocatePage ps bp k = (bp', True)" "wf_bitmap ps bp'"
    "\<forall>j. bm_bit bp' j \<longleftrightarrow> j \<noteq> k \<and> bm_bit bp j"
proof -
  let ?bp1 = "(clear_bit_at k bp)\<lparr>page_allocated := page_allocated bp - 1\<rparr>"
  let ?bp' = "if k < unat (next_free_page ?bp1) then ?bp1\<lparr>next_free_page := of_nat k\<rparr> else ?bp1"
  have "bitmap_DeAllocatePage ps bp k = (?bp', True)"
    using k by (simp add: bitmap_DeAllocatePage_def IsPageFreeLow_iff Let_def)
  moreover have "wf_bitmap ps ?bp'" by (rule wf_bitmap_clear [OF wf k refl])
  moreover have "\<forall>j. bm_bit ?bp' j \<longleftrightarrow> j \<noteq> k \<and> bm_bit bp j"
    using k wf by (simp add: bm_bit_clear_bit wf_bitmap_bits_len)
  ultimately show ?thesis using that by blast
qed

lemma bitmap_dealloc_unused:
  "k \<notin> bm_used ps bp \<Longrightarrow> bitmap_DeAllocatePage ps bp k = (bp, False)"
  by (auto simp: bitmap_DeAllocatePage_def bm_used_def IsPageFreeLow_iff)

interpretation bm: slot_allocator "bitmap_AllocatePage ps" "bitmap_DeAllocatePage ps"
    "bitmap_IsPageFree ps" "bm_used ps" "\<lambda>_. {..<GetMaxSupportedSize ps}" "wf_bitmap ps"
  for ps
proof (unfold_locales, goal_cases)
  case (1 s)
  then show ?case by (auto simp: bm_used_def)
next
  case (2 s s' i)
  then have "\<not> (\<forall>i < GetMaxSupportedSize ps. bm_bit s i)"
    using bitmap_alloc_full [of ps s] by auto
  then obtain bp' k where "bitmap_AllocatePage ps s = (bp', Some k)" "k < GetMaxSupportedSize ps"
      "\<not> bm_bit s k" "\<forall>j. bm_bit bp' j \<longleftrightarrow> j = k \<or> bm_bit s j"
    using bitmap_alloc_free [OF 2(1)] by metis
  with 2(2) show ?case by (auto simp: bm_used_def)
next
  case (3 s s')
  then have "\<forall>i < GetMaxSupportedSize ps. bm_bit s i"
    by (metis bitmap_alloc_free [OF 3(1)] option.distinct(1) prod.inject)
  with 3 bitmap_alloc_full [OF 3(1) this] show ?case by (auto simp: bm_used_def)
next
  case (4 s i)
  then have "i < GetMaxSupportedSize ps" "bm_bit s i" by (auto simp: bm_used_def)
  then obtain bp' where "bitmap_DeAllocatePage ps s i = (bp', True)"
      "\<forall>j. bm_bit bp' j \<longleftrightarrow> j \<noteq> i \<and> bm_bit s j"
    using bitmap_dealloc_used [OF 4(1)] by metis
  then show ?case by (auto simp: bm_used_def)
next
  case (5 s i)
  then show ?case by (simp add: bitmap_dealloc_unused)
next
  case (6 s i)
  then show ?case by (auto simp: bitmap_IsPageFree_def bm_used_def IsPageFreeLow_iff)
next
  case (7 s)
  then show ?case using bitmap_alloc_full [OF 7] bitmap_alloc_free [OF 7] by (metis fst_conv)
next
  case (8 s i)
  show ?case
  proof (cases "i \<in> bm_used ps s")
    case True
    then have "i < GetMaxSupportedSize ps" "bm_bit s i" by (auto simp: bm_used_def)
    from bitmap_dealloc_used [OF 8 this] show ?thesis by (metis fst_conv)
  next
    case False
    with 8 show ?thesis by (simp add: bitmap_dealloc_unused)
  qed
qed

section \<open>Properties\<close>

text \<open>On a well-formed bitmap, \<^verbatim>\<open>AllocatePage\<close> fails exactly when every page of the extent
  is in use and then changes nothing; otherwise it hands out the lowest free page, sets exactly that
  page's bit, and leaves the bitmap well-formed (the counter and the hint included).\<close>

theorem bitmap_AllocatePage_correct:
  assumes "wf_bitmap ps bp"
  shows "case bitmap_AllocatePage ps bp of
      (bp', None) \<Rightarrow> bp' = bp \<and> (\<forall>i. i < GetMaxSupportedSize ps \<longrightarrow> bm_bit bp i)
    | (bp', Some i) \<Rightarrow> i < GetMaxSupportedSize ps \<and> \<not> bm_bit bp i \<and> (\<forall>j < i. bm_bit bp j) \<and>
        (\<forall>j. bm_bit bp' j \<longleftrightarrow> j = i \<or> bm_bit bp j) \<and> wf_bitmap ps bp'"
proof (cases "\<forall>i < GetMaxSupportedSize ps. bm_bit bp i")
  case True
  with bitmap_alloc_full [OF assms] show ?thesis by simp
next
  case False
  then obtain bp' k where "bitmap_AllocatePage ps bp = (bp', Some k)" "wf_bitmap ps bp'"
    "k < GetMaxSupportedSize ps" "\<not> bm_bit bp k" "\<forall>j < k. bm_bit bp j"
    "\<forall>j. bm_bit bp' j \<longleftrightarrow> j = k \<or> bm_bit bp j"
    using bitmap_alloc_free [OF assms] by metis
  then show ?thesis by simp
qed

lemma wf_zero_bitmap_64: "wf_bitmap 64 (zero_bitmap 64)"
  by (rule zero_bitmap_wf) simp

lemma alloc_zero_bitmap_64:
  "snd (bitmap_AllocatePage 64 (zero_bitmap 64)) = Some 0"
  by (simp add: bitmap_AllocatePage_def zero_bitmap_def scan_free.simps [of _ _ 0] Let_def
      IsPageFreeLow_def GetMaxSupportedSize_def MAX_CHARS_def)

theorem bitmap_AllocatePage_correct_witness:
  "case bitmap_AllocatePage 64 (zero_bitmap 64) of
      (bp', None) \<Rightarrow> False
    | (bp', Some i) \<Rightarrow> i = 0 \<and> bm_bit bp' 0 \<and> \<not> bm_bit bp' 1 \<and> wf_bitmap 64 bp'"
  using bitmap_AllocatePage_correct [OF wf_zero_bitmap_64] alloc_zero_bitmap_64
    zero_bitmap_bits [of 1 64]
  by (auto simp: GetMaxSupportedSize_def MAX_CHARS_def split: prod.splits option.splits)

text \<open>\<^verbatim>\<open>DeAllocatePage\<close> succeeds exactly on the allocated pages of the extent; it then clears
  exactly that page's bit and leaves the bitmap well-formed, and otherwise (offset out of range, or
  page already free) it changes nothing.\<close>

theorem bitmap_DeAllocatePage_correct:
  assumes "wf_bitmap ps bp"
  shows "case bitmap_DeAllocatePage ps bp k of (bp', ok) \<Rightarrow>
     (ok \<longleftrightarrow> k < GetMaxSupportedSize ps \<and> bm_bit bp k) \<and>
     (if ok then (\<forall>j. bm_bit bp' j \<longleftrightarrow> j \<noteq> k \<and> bm_bit bp j) \<and> wf_bitmap ps bp' else bp' = bp)"
proof (cases "k \<in> bm_used ps bp")
  case True
  then have k: "k < GetMaxSupportedSize ps" "bm_bit bp k" by (auto simp: bm_used_def)
  then obtain bp' where "bitmap_DeAllocatePage ps bp k = (bp', True)" "wf_bitmap ps bp'"
    "\<forall>j. bm_bit bp' j \<longleftrightarrow> j \<noteq> k \<and> bm_bit bp j"
    using bitmap_dealloc_used [OF assms] by metis
  with k show ?thesis by simp
next
  case False
  then show ?thesis by (auto simp: bitmap_dealloc_unused bm_used_def)
qed

theorem bitmap_DeAllocatePage_correct_witness:
  "wf_bitmap 64 (fst (bitmap_AllocatePage 64 (zero_bitmap 64))) \<and>
   snd (bitmap_DeAllocatePage 64 (fst (bitmap_AllocatePage 64 (zero_bitmap 64))) 0)"
proof -
  let ?r = "bitmap_AllocatePage 64 (zero_bitmap 64)"
  have wf: "wf_bitmap 64 (fst ?r)" by (rule bm.invar_alloc [OF wf_zero_bitmap_64])
  have "bm_bit (fst ?r) 0"
    using bm.alloc_Some [OF wf_zero_bitmap_64, of "fst ?r" 0] alloc_zero_bitmap_64
    by (simp add: prod_eq_iff bm_used_def) blast
  with bitmap_DeAllocatePage_correct [OF wf, of 0] wf show ?thesis
    by (auto simp: GetMaxSupportedSize_def MAX_CHARS_def split: prod.splits)
qed

end
