(* ===== verification/Page_Store.thy ===== *)
theory Page_Store
  imports MiniSQL_Prelude
begin

text \<open>
  The interface between the buffer pool and the disk manager: the operations of \<^verbatim>\<open>DiskManager\<close> that
  \<^verbatim>\<open>BufferPoolManager\<close> calls through its pointer \<^verbatim>\<open>disk_manager_\<close>, as a record of functions over a
  disk state, and their contract as a locale. \<open>content d p\<close> is what page \<open>p\<close> holds on disk,
  \<open>allocated d\<close> the pages handed out, \<open>ok_id\<close> the page numbers the store can address and
  \<open>room\<close> says that the next allocation stays among them.
\<close>

record 'd disk_ops =
  op_ReadPage :: "'d \<Rightarrow> page_id_t \<Rightarrow> byte list result"
  op_WritePage :: "'d \<Rightarrow> page_id_t \<Rightarrow> byte list \<Rightarrow> 'd result"
  op_AllocatePage :: "'d \<Rightarrow> ('d \<times> page_id_t) result"
  op_DeAllocatePage :: "'d \<Rightarrow> page_id_t \<Rightarrow> 'd"
  op_IsPageFree :: "'d \<Rightarrow> page_id_t \<Rightarrow> bool"

locale page_store =
  fixes dops :: "'d disk_ops"
    and content :: "'d \<Rightarrow> page_id_t \<Rightarrow> byte list"
    and allocated :: "'d \<Rightarrow> page_id_t set"
    and ok_id :: "page_id_t \<Rightarrow> bool"
    and room :: "'d \<Rightarrow> bool"
    and dinv :: "'d \<Rightarrow> bool"
  assumes read_page: "dinv d \<Longrightarrow> ok_id p \<Longrightarrow> op_ReadPage dops d p = Inr (content d p)"
    and write_page: "dinv d \<Longrightarrow> ok_id p \<Longrightarrow> length data = PAGE_SIZE \<Longrightarrow>
      \<exists>d'. op_WritePage dops d p data = Inr d' \<and> dinv d' \<and> content d' p = data \<and>
        (\<forall>q. ok_id q \<longrightarrow> q \<noteq> p \<longrightarrow> content d' q = content d q) \<and>
        allocated d' = allocated d \<and> room d' = room d"
    and alloc_page: "dinv d \<Longrightarrow> room d \<Longrightarrow>
      \<exists>d' p. op_AllocatePage dops d = Inr (d', p) \<and> dinv d' \<and> ok_id p \<and> p \<notin> allocated d \<and>
        allocated d' = insert p (allocated d) \<and> (\<forall>q. ok_id q \<longrightarrow> content d' q = content d q)"
    and dealloc_page: "dinv d \<Longrightarrow>
      dinv (op_DeAllocatePage dops d p) \<and>
      allocated (op_DeAllocatePage dops d p) = allocated d - {p} \<and>
      (\<forall>q. ok_id q \<longrightarrow> content (op_DeAllocatePage dops d p) q = content d q) \<and>
      (room d \<longrightarrow> room (op_DeAllocatePage dops d p))"
    and is_free: "dinv d \<Longrightarrow> 0 \<le> sint p \<Longrightarrow> op_IsPageFree dops d p \<longleftrightarrow> p \<notin> allocated d"
    and length_content: "dinv d \<Longrightarrow> length (content d p) = PAGE_SIZE"
    and ok_id_nonneg: "ok_id p \<Longrightarrow> 0 \<le> sint p"
begin

lemma ok_id_valid: "ok_id p \<Longrightarrow> p \<noteq> INVALID_PAGE_ID"
  using ok_id_nonneg [of INVALID_PAGE_ID] by (auto simp: INVALID_PAGE_ID_def)

text \<open>A written page reads back, and no other page changes.\<close>

lemma write_read:
  assumes "dinv d" "ok_id p" "length data = PAGE_SIZE" "ok_id q"
  obtains d' where "op_WritePage dops d p data = Inr d'" "dinv d'"
    "op_ReadPage dops d' q = Inr (if q = p then data else content d q)"
  using write_page [OF assms(1-3)] read_page assms(4) by (metis (full_types))

text \<open>A page handed out by the store is not handed out again while it is allocated.\<close>

lemma alloc_twice_distinct:
  assumes "dinv d" "room d" "op_AllocatePage dops d = Inr (d1, p)" "room d1"
    "op_AllocatePage dops d1 = Inr (d2, q)"
  shows "p \<noteq> q"
  using alloc_page [OF assms(1,2)] alloc_page [of d1] assms(3-5) by auto

end

end
