(* ===== verification/Disk_Manager.thy ===== *)
theory Disk_Manager
  imports Bitmap_Page Page_Store
begin

text \<open>
  The disk manager (\<^verbatim>\<open>src/include/storage/disk_manager.h\<close>, \<^verbatim>\<open>src/storage/disk_manager.cpp\<close>,
  \<^verbatim>\<open>src/include/page/disk_file_meta_page.h\<close>). The database file is a list of bytes: physical page 0
  is the meta page, then come the extents, each a bitmap page followed by the 32704 data pages it
  describes. The meta page is kept in memory (\<open>dm_meta\<close>) and written back by \<^verbatim>\<open>Close\<close>.

  File I/O is modelled as far as the code relies on it: a read past the end gives zeros, a write
  past the end fills the gap with zeros. I/O errors of the stream are not modelled. The byte offset
  of a read is computed in a 32-bit \<^verbatim>\<open>int\<close>, that of a write in a \<^verbatim>\<open>size_t\<close>; both are kept.
\<close>

record disk_manager =
  dm_file :: "byte list"
  dm_meta :: "byte list"
  dm_closed :: bool

definition BITMAP_SIZE :: nat where
  [config_defs]: "BITMAP_SIZE = GetMaxSupportedSize PAGE_SIZE"

definition extent_capacity :: "32 word" where
  [config_defs]: "extent_capacity = of_nat BITMAP_SIZE"

section \<open>Physical pages\<close>

definition GetFileSize :: "byte list \<Rightarrow> int" where
  "GetFileSize file = sint (of_nat (length file) :: 32 word)"

definition zero_page :: "byte list" where
  "zero_page = replicate PAGE_SIZE 0"

definition ReadPhysicalPage :: "byte list \<Rightarrow> page_id_t \<Rightarrow> byte list" where
  "ReadPhysicalPage file physical_page_id =
     (let offset = sint (physical_page_id * of_nat PAGE_SIZE)
      in if GetFileSize file \<le> offset then zero_page
         else let got = (if offset < 0 then [] else take PAGE_SIZE (drop (nat offset) file))
              in got @ replicate (PAGE_SIZE - length got) 0)"

text \<open>A negative page number is sign-extended by \<^verbatim>\<open>static_cast<size_t>\<close>: the stream cannot seek to the offset and
  writes nothing.\<close>

definition WritePhysicalPage :: "byte list \<Rightarrow> page_id_t \<Rightarrow> byte list \<Rightarrow> byte list" where
  "WritePhysicalPage file physical_page_id page_data =
     (let offset = unat physical_page_id * PAGE_SIZE
      in if sint physical_page_id < 0 then file
         else take offset file @ replicate (offset - length file) 0 @ page_data @
           drop (offset + PAGE_SIZE) file)"

section \<open>The meta page\<close>

definition num_allocated_pages :: "byte list \<Rightarrow> 32 word" where
  "num_allocated_pages meta = rd32 meta 0"

definition num_extents :: "byte list \<Rightarrow> 32 word" where
  "num_extents meta = rd32 meta 4"

definition extent_used_page :: "byte list \<Rightarrow> nat \<Rightarrow> 32 word" where
  "extent_used_page meta i = rd32 meta (8 + 4 * i)"

definition GetExtentUsedPage :: "byte list \<Rightarrow> 32 word \<Rightarrow> 32 word" where
  "GetExtentUsedPage meta extent_id =
     (if num_extents meta \<le> extent_id then 0 else extent_used_page meta (unat extent_id))"

definition MAX_VALID_PAGE_ID :: nat where
  [config_defs]: "MAX_VALID_PAGE_ID = (PAGE_SIZE - 8) div 4 * BITMAP_SIZE"

section \<open>Bitmap pages in the file\<close>

text \<open>\<^verbatim>\<open>reinterpret_cast<BitmapPage<PAGE_SIZE> *>\<close> of a page buffer, and back.\<close>

definition bitmap_of_bytes :: "byte list \<Rightarrow> BitmapPage" where
  "bitmap_of_bytes b = \<lparr>page_allocated = rd32 b 0, next_free_page = rd32 b 4, bm_bytes = drop 8 b\<rparr>"

definition bytes_of_bitmap :: "BitmapPage \<Rightarrow> byte list" where
  "bytes_of_bitmap bp = le_enc 4 (page_allocated bp) @ le_enc 4 (next_free_page bp) @ bm_bytes bp"

definition bitmap_page_id :: "32 word \<Rightarrow> page_id_t" where
  "bitmap_page_id extent_id = 1 + extent_id * (extent_capacity + 1)"

definition MapPageId :: "page_id_t \<Rightarrow> page_id_t" where
  "MapPageId logical_page_id =
     (let extent_id = logical_page_id div extent_capacity;
          page_offset = logical_page_id mod extent_capacity
      in 2 + extent_id * (extent_capacity + 1) + page_offset)"

section \<open>Operations\<close>

definition DiskManager_open :: "byte list \<Rightarrow> disk_manager" where
  "DiskManager_open file =
     \<lparr>dm_file = file, dm_meta = ReadPhysicalPage file META_PAGE_ID, dm_closed = False\<rparr>"

text \<open>Once the stream is closed, writing the meta page again has no effect.\<close>

definition DiskManager_Close :: "disk_manager \<Rightarrow> disk_manager" where
  "DiskManager_Close d =
     (if dm_closed d then d
      else d\<lparr>dm_file := WritePhysicalPage (dm_file d) META_PAGE_ID (dm_meta d), dm_closed := True\<rparr>)"

definition disk_ReadPage :: "disk_manager \<Rightarrow> page_id_t \<Rightarrow> byte list result" where
  "disk_ReadPage d logical_page_id =
     ASSERT (0 \<le> sint logical_page_id) ''Invalid page id.''
       (Inr (ReadPhysicalPage (dm_file d) (MapPageId logical_page_id)))"

definition disk_WritePage :: "disk_manager \<Rightarrow> page_id_t \<Rightarrow> byte list \<Rightarrow> disk_manager result" where
  "disk_WritePage d logical_page_id page_data =
     ASSERT (0 \<le> sint logical_page_id) ''Invalid page id.''
       (Inr (d\<lparr>dm_file := WritePhysicalPage (dm_file d) (MapPageId logical_page_id) page_data\<rparr>))"

text \<open>The loop over the existing extents: the first one whose counter is below the capacity and
  whose bitmap has a free page.\<close>

function find_extent :: "disk_manager \<Rightarrow> nat \<Rightarrow> (nat \<times> BitmapPage \<times> nat) option" where
  "find_extent d e =
     (if e < unat (num_extents (dm_meta d))
      then if BITMAP_SIZE \<le> unat (extent_used_page (dm_meta d) e) then find_extent d (Suc e)
           else case bitmap_AllocatePage PAGE_SIZE
                  (bitmap_of_bytes (ReadPhysicalPage (dm_file d) (bitmap_page_id (of_nat e)))) of
                  (bp, Some off) \<Rightarrow> Some (e, bp, off)
                | (_, None) \<Rightarrow> find_extent d (Suc e)
      else None)"
  by pat_completeness auto
termination
  by (relation "measure (\<lambda>(d, e). unat (num_extents (dm_meta d)) - e)") auto

declare find_extent.simps [simp del]

definition put_bitmap :: "disk_manager \<Rightarrow> 32 word \<Rightarrow> BitmapPage \<Rightarrow> disk_manager" where
  "put_bitmap d extent_id bp =
     d\<lparr>dm_file := WritePhysicalPage (dm_file d) (bitmap_page_id extent_id) (bytes_of_bitmap bp)\<rparr>"

definition bump_meta :: "nat \<Rightarrow> 32 word \<Rightarrow> disk_manager \<Rightarrow> disk_manager" where
  "bump_meta e delta d =
     (let meta1 = wr32 (dm_meta d) 0 (num_allocated_pages (dm_meta d) + delta)
      in d\<lparr>dm_meta := wr32 meta1 (8 + 4 * e) (extent_used_page meta1 e + delta)\<rparr>)"

definition new_extent :: "disk_manager \<Rightarrow> (disk_manager \<times> page_id_t) result" where
  "new_extent d =
     (let extent_id = num_extents (dm_meta d); e = unat extent_id in
      case bitmap_AllocatePage PAGE_SIZE (bitmap_of_bytes zero_page) of
        (_, None) \<Rightarrow> Inl (AssertionFailed ''new bitmap page should have free slot'')
      | (bp, Some page_offset) \<Rightarrow>
          let d1 = put_bitmap d extent_id bp;
              meta1 = wr32 (dm_meta d1) 4 (num_extents (dm_meta d1) + 1);
              meta2 = wr32 meta1 0 (num_allocated_pages meta1 + 1)
          in if PAGE_SIZE < 8 + 4 * e + 4 then Inl (OutOfBounds ''extent_used_page_'')
             else Inr (d1\<lparr>dm_meta := wr32 meta2 (8 + 4 * e) 1\<rparr>,
                       extent_id * extent_capacity + of_nat page_offset))"

definition disk_AllocatePage :: "disk_manager \<Rightarrow> (disk_manager \<times> page_id_t) result" where
  "disk_AllocatePage d =
     (case find_extent d 0 of
        Some (e, bp, page_offset) \<Rightarrow>
          Inr (bump_meta e 1 (put_bitmap d (of_nat e) bp),
               of_nat e * extent_capacity + of_nat page_offset)
      | None \<Rightarrow> new_extent d)"

definition disk_DeAllocatePage :: "disk_manager \<Rightarrow> page_id_t \<Rightarrow> disk_manager" where
  "disk_DeAllocatePage d logical_page_id =
     (if sint logical_page_id < 0 then d
      else let extent_id = logical_page_id div extent_capacity;
               page_offset = logical_page_id mod extent_capacity
           in if num_extents (dm_meta d) \<le> extent_id then d
              else case bitmap_DeAllocatePage PAGE_SIZE
                     (bitmap_of_bytes (ReadPhysicalPage (dm_file d) (bitmap_page_id extent_id)))
                     (unat page_offset) of
                     (_, False) \<Rightarrow> d
                   | (bp, True) \<Rightarrow> bump_meta (unat extent_id) (- 1) (put_bitmap d extent_id bp))"

definition disk_IsPageFree :: "disk_manager \<Rightarrow> page_id_t \<Rightarrow> bool" where
  "disk_IsPageFree d logical_page_id =
     (if sint logical_page_id < 0 then False
      else let extent_id = logical_page_id div extent_capacity;
               page_offset = logical_page_id mod extent_capacity
           in if num_extents (dm_meta d) \<le> extent_id then True
              else bitmap_IsPageFree PAGE_SIZE
                     (bitmap_of_bytes (ReadPhysicalPage (dm_file d) (bitmap_page_id extent_id)))
                     (unat page_offset))"

section \<open>Physical pages: reads after writes\<close>

text \<open>A physical page whose byte range lies below 2 GiB: there the 32-bit read offset is right.\<close>

definition phys_ok :: "page_id_t \<Rightarrow> bool" where
  "phys_ok p \<longleftrightarrow> unat p * PAGE_SIZE + PAGE_SIZE \<le> 2 ^ 31"

definition file_ok :: "byte list \<Rightarrow> bool" where
  "file_ok file \<longleftrightarrow> length file < 2 ^ 31"

definition page_at :: "byte list \<Rightarrow> nat \<Rightarrow> byte list" where
  "page_at file n = take PAGE_SIZE (drop (n * PAGE_SIZE) file @ replicate PAGE_SIZE 0)"

lemma length_page_at [simp]: "length (page_at file n) = PAGE_SIZE"
  by (simp add: page_at_def)

lemma unat_mult_small:
  "unat a * unat b < 2 ^ 32 \<Longrightarrow> unat (a * b :: 32 word) = unat a * unat b"
  by (simp add: unat_word_ariths)

lemma phys_offset:
  assumes "phys_ok p"
  shows "sint (p * of_nat PAGE_SIZE) = int (unat p * PAGE_SIZE)"
proof -
  have "unat (of_nat PAGE_SIZE :: 32 word) = PAGE_SIZE" by (simp add: config_defs)
  with assms have "unat (p * of_nat PAGE_SIZE) = unat p * PAGE_SIZE"
    by (subst unat_mult_small) (auto simp: phys_ok_def config_defs)
  moreover have "unat p * PAGE_SIZE < 2 ^ 31" using assms by (simp add: phys_ok_def config_defs)
  ultimately show ?thesis by (simp add: sint_small)
qed

lemma GetFileSize_small: "file_ok file \<Longrightarrow> GetFileSize file = int (length file)"
  by (simp add: GetFileSize_def file_ok_def sint_small unat_of_nat_small)

lemma ReadPhysicalPage_page_at:
  assumes "file_ok file" "phys_ok p"
  shows "ReadPhysicalPage file p = page_at file (unat p)"
proof -
  define off where "off = unat p * PAGE_SIZE"
  have "sint (p * of_nat PAGE_SIZE) = int off" by (simp only: phys_offset assms off_def)
  then show ?thesis
    by (simp add: ReadPhysicalPage_def assms GetFileSize_small page_at_def zero_page_def Let_def
        min_def flip: off_def)
qed

lemma length_WritePhysicalPage:
  "unat p < 2 ^ 31 \<Longrightarrow> length data = PAGE_SIZE \<Longrightarrow>
   length (WritePhysicalPage file p data) = max (length file) (unat p * PAGE_SIZE + PAGE_SIZE)"
  using sint_neg_iff [of p] by (simp add: WritePhysicalPage_def Let_def)

lemma phys_small: "phys_ok p \<Longrightarrow> unat p < 2 ^ 31"
  by (simp add: phys_ok_def PAGE_SIZE_def)

lemma file_ok_write:
  "file_ok file \<Longrightarrow> phys_ok p \<Longrightarrow> unat p * PAGE_SIZE + PAGE_SIZE < 2 ^ 31 \<Longrightarrow> length data = PAGE_SIZE \<Longrightarrow>
   file_ok (WritePhysicalPage file p data)"
  using phys_small [of p] by (simp add: file_ok_def length_WritePhysicalPage)

lemma page_at_nth:
  "i < PAGE_SIZE \<Longrightarrow> page_at file n ! i =
     (if n * PAGE_SIZE + i < length file then file ! (n * PAGE_SIZE + i) else 0)"
  by (auto simp: page_at_def nth_append)

lemma WritePhysicalPage_nth:
  assumes "unat p < 2 ^ 31" "length data = PAGE_SIZE"
    "j < length (WritePhysicalPage file p data)"
  shows "WritePhysicalPage file p data ! j =
     (if unat p * PAGE_SIZE \<le> j \<and> j < unat p * PAGE_SIZE + PAGE_SIZE then data ! (j - unat p * PAGE_SIZE)
      else if j < length file then file ! j else 0)"
  using assms sint_neg_iff [of p]
  by (auto simp: length_WritePhysicalPage WritePhysicalPage_def Let_def nth_append min_def)

lemma page_at_write:
  assumes "unat p < 2 ^ 31" "length data = PAGE_SIZE"
  shows "page_at (WritePhysicalPage file p data) n = (if n = unat p then data else page_at file n)"
proof (rule nth_equalityI)
  fix i assume "i < length (page_at (WritePhysicalPage file p data) n)"
  then have i: "i < PAGE_SIZE" by simp
  have same: "unat p * PAGE_SIZE \<le> n * PAGE_SIZE + i \<and> n * PAGE_SIZE + i < unat p * PAGE_SIZE + PAGE_SIZE
      \<longleftrightarrow> n = unat p"
    using i by (auto simp: PAGE_SIZE_def)
  show "page_at (WritePhysicalPage file p data) n ! i =
      (if n = unat p then data else page_at file n) ! i"
    using i assms same
    by (auto simp: page_at_nth WritePhysicalPage_nth length_WritePhysicalPage less_max_iff_disj)
qed (simp add: assms)

section \<open>Logical and physical page numbers\<close>

lemma BITMAP_SIZE_eq: "BITMAP_SIZE = 32704"
  by (simp add: config_defs GetMaxSupportedSize_def MAX_CHARS_def)

lemma unat_extent_capacity [simp]: "unat extent_capacity = 32704"
  by (simp add: extent_capacity_def BITMAP_SIZE_eq)

lemma unat_extent_capacity_Suc: "unat (extent_capacity + 1) = 32705"
  by (simp add: extent_capacity_def BITMAP_SIZE_eq)

lemma unat_add_small: "unat a + unat b < 2 ^ 32 \<Longrightarrow> unat (a + b :: 32 word) = unat a + unat b"
  by (simp add: unat_word_ariths)

definition map_nat :: "nat \<Rightarrow> nat" where
  "map_nat n = 2 + n div 32704 * 32705 + n mod 32704"

lemma unat_MapPageId:
  assumes "unat p < 2 ^ 31"
  shows "unat (MapPageId p) = map_nat (unat p)"
proof -
  have e: "unat (p div extent_capacity) = unat p div 32704"
    and o: "unat (p mod extent_capacity) = unat p mod 32704"
    by (simp_all add: unat_div unat_mod)
  have bound: "unat p div 32704 \<le> 65664" using assms by (simp add: div_le_mono div_less_iff_less_mult)
  have m: "unat (p div extent_capacity * (extent_capacity + 1)) = unat p div 32704 * 32705"
    using bound by (subst unat_mult_small) (simp_all only: e unat_extent_capacity_Suc, simp)
  have "unat (2 + p div extent_capacity * (extent_capacity + 1)) = 2 + unat p div 32704 * 32705"
    using bound by (subst unat_add_small) (simp_all add: m)
  moreover have "unat p mod 32704 < 32704" by simp
  ultimately show ?thesis
    unfolding MapPageId_def Let_def map_nat_def using bound
    by (subst unat_add_small) (simp_all add: o)
qed

lemma unat_bitmap_page_id:
  assumes "unat e \<le> 65664"
  shows "unat (bitmap_page_id e) = 1 + unat e * 32705"
proof -
  have "unat (e * (extent_capacity + 1)) = unat e * 32705"
    using assms by (subst unat_mult_small) (simp_all only: unat_extent_capacity_Suc, simp)
  then show ?thesis
    unfolding bitmap_page_id_def using assms by (subst unat_add_small) simp_all
qed

lemma map_nat_inj: "map_nat m = map_nat n \<longleftrightarrow> m = n"
proof
  have split: "map_nat k = 2 + 32705 * (k div 32704) + k mod 32704" for k by (simp add: map_nat_def)
  have lt: "k mod 32704 < 32705" for k :: nat by (rule order.strict_trans [of _ 32704]) simp_all
  assume "map_nat m = map_nat n"
  then have eq: "32705 * (m div 32704) + m mod 32704 = 32705 * (n div 32704) + n mod 32704"
    by (simp add: split)
  have "(32705 * (k div 32704) + k mod 32704) div 32705 = k div 32704"
    "(32705 * (k div 32704) + k mod 32704) mod 32705 = k mod 32704" for k :: nat
    using lt [of k] by simp_all
  with eq have "m div 32704 = n div 32704" "m mod 32704 = n mod 32704" by metis+
  then show "m = n" by (metis div_mult_mod_eq)
qed simp

lemma map_nat_not_bitmap: "map_nat n \<noteq> 1 + e * 32705"
proof
  assume "map_nat n = 1 + e * 32705"
  then have "32705 * (n div 32704) + Suc (n mod 32704) = 32705 * e" by (simp add: map_nat_def)
  then have "(32705 * (n div 32704) + Suc (n mod 32704)) mod 32705 = 0" by simp
  moreover have "Suc (n mod 32704) < 32705" by simp
  ultimately show False by simp
qed

section \<open>The invariant and the abstract view\<close>

definition disk_bitmap :: "disk_manager \<Rightarrow> nat \<Rightarrow> BitmapPage" where
  "disk_bitmap d e = bitmap_of_bytes (page_at (dm_file d) (1 + e * 32705))"

definition disk_extents :: "disk_manager \<Rightarrow> nat" where
  "disk_extents d = unat (num_extents (dm_meta d))"

definition disk_allocated :: "disk_manager \<Rightarrow> page_id_t set" where
  "disk_allocated d = {p. unat p < 2 ^ 31 \<and> unat p div 32704 < disk_extents d \<and>
     bm_bit (disk_bitmap d (unat p div 32704)) (unat p mod 32704)}"

definition disk_content :: "disk_manager \<Rightarrow> page_id_t \<Rightarrow> byte list" where
  "disk_content d p = page_at (dm_file d) (unat (MapPageId p))"

text \<open>Pages of the first 16 extents: the ones whose byte range ends below 2 GiB, as far as the
  32-bit read offset reaches.\<close>

definition disk_ok_id :: "page_id_t \<Rightarrow> bool" where
  "disk_ok_id p \<longleftrightarrow> unat p < 16 * 32704"

definition wf_disk :: "disk_manager \<Rightarrow> bool" where
  [inv_defs]: "wf_disk d \<longleftrightarrow>
     \<not> dm_closed d \<and> length (dm_meta d) = PAGE_SIZE \<and> file_ok (dm_file d) \<and> disk_extents d \<le> 16 \<and>
     (\<forall>e < disk_extents d. wf_bitmap PAGE_SIZE (disk_bitmap d e) \<and>
        unat (extent_used_page (dm_meta d) e) = card (bm_used PAGE_SIZE (disk_bitmap d e))) \<and>
     unat (num_allocated_pages (dm_meta d)) =
       (\<Sum>e < disk_extents d. card (bm_used PAGE_SIZE (disk_bitmap d e)))"

definition disk_room :: "disk_manager \<Rightarrow> bool" where
  "disk_room d \<longleftrightarrow> disk_extents d < 16 \<or>
     (\<exists>e < disk_extents d. unat (extent_used_page (dm_meta d) e) < BITMAP_SIZE)"

lemma wf_diskD:
  assumes "wf_disk d"
  shows "length (dm_meta d) = PAGE_SIZE" "file_ok (dm_file d)" "disk_extents d \<le> 16"
    "e < disk_extents d \<Longrightarrow> wf_bitmap PAGE_SIZE (disk_bitmap d e)"
    "e < disk_extents d \<Longrightarrow> unat (extent_used_page (dm_meta d) e) = card (bm_used PAGE_SIZE (disk_bitmap d e))"
    "\<not> dm_closed d"
  using assms by (auto simp: wf_disk_def)

lemma dm_closed_frame [simp]:
  "dm_closed (put_bitmap d e bp) = dm_closed d" "dm_closed (bump_meta i v d) = dm_closed d"
  by (simp_all add: put_bitmap_def bump_meta_def Let_def)

lemma Max_eq: "GetMaxSupportedSize PAGE_SIZE = 32704"
  using BITMAP_SIZE_eq by (simp add: BITMAP_SIZE_def)

lemma bitmap_roundtrip [simp]:
  "length (bm_bytes bp) = MAX_CHARS PAGE_SIZE \<Longrightarrow> bitmap_of_bytes (bytes_of_bitmap bp) = bp"
  "length (bm_bytes bp) = MAX_CHARS PAGE_SIZE \<Longrightarrow> length (bytes_of_bitmap bp) = PAGE_SIZE"
  by (simp_all add: bitmap_of_bytes_def bytes_of_bitmap_def rd32_def rd_def MAX_CHARS_def PAGE_SIZE_def)

lemma bitmap_of_zero_page: "bitmap_of_bytes zero_page = zero_bitmap PAGE_SIZE"
proof -
  have "le_dec (replicate n 0) = (0 :: 32 word)" for n by (induction n) simp_all
  then show ?thesis
    by (simp add: bitmap_of_bytes_def zero_page_def zero_bitmap_def rd32_def rd_def MAX_CHARS_def
        drop_replicate take_replicate)
qed

lemma wf_zero_bitmap_page: "wf_bitmap PAGE_SIZE (zero_bitmap PAGE_SIZE)"
  by (rule zero_bitmap_wf) (simp add: PAGE_SIZE_def)

lemma disk_ok_id_phys:
  assumes "disk_ok_id p"
  shows "unat p < 2 ^ 31" "unat (MapPageId p) = map_nat (unat p)" "phys_ok (MapPageId p)"
    "unat (MapPageId p) * PAGE_SIZE + PAGE_SIZE < 2 ^ 31"
proof -
  show small: "unat p < 2 ^ 31" using assms by (simp add: disk_ok_id_def)
  then show eq: "unat (MapPageId p) = map_nat (unat p)" by (rule unat_MapPageId)
  have "unat p div 32704 \<le> 15" using assms by (simp add: disk_ok_id_def div_less_iff_less_mult flip: less_Suc_eq_le)
  moreover have "unat p mod 32704 < 32704" by simp
  ultimately have "map_nat (unat p) < 524287" by (simp add: map_nat_def)
  with eq show "phys_ok (MapPageId p)" "unat (MapPageId p) * PAGE_SIZE + PAGE_SIZE < 2 ^ 31"
    by (simp_all add: phys_ok_def PAGE_SIZE_def)
qed

lemma bitmap_phys:
  assumes "e \<le> 16"
  shows "unat (bitmap_page_id (of_nat e)) = 1 + e * 32705" "phys_ok (bitmap_page_id (of_nat e))"
    "unat (bitmap_page_id (of_nat e)) * PAGE_SIZE + PAGE_SIZE < 2 ^ 31"
proof -
  have "unat (of_nat e :: 32 word) = e" using assms by (intro unat_of_nat_small) simp
  then show "unat (bitmap_page_id (of_nat e)) = 1 + e * 32705"
    using assms by (simp add: unat_bitmap_page_id)
  then show "phys_ok (bitmap_page_id (of_nat e))"
      "unat (bitmap_page_id (of_nat e)) * PAGE_SIZE + PAGE_SIZE < 2 ^ 31"
    using assms by (simp_all add: phys_ok_def PAGE_SIZE_def)
qed

lemma read_bitmap:
  "file_ok (dm_file d) \<Longrightarrow> e \<le> 16 \<Longrightarrow>
   bitmap_of_bytes (ReadPhysicalPage (dm_file d) (bitmap_page_id (of_nat e))) = disk_bitmap d e"
  by (simp add: ReadPhysicalPage_page_at bitmap_phys disk_bitmap_def)

section \<open>Effects of the building blocks\<close>

lemma put_bitmap_effect:
  assumes "file_ok (dm_file d)" "e \<le> 16" "length (bm_bytes bp) = MAX_CHARS PAGE_SIZE"
  shows "disk_bitmap (put_bitmap d (of_nat e) bp) e' = (if e' = e then bp else disk_bitmap d e')"
    "dm_meta (put_bitmap d (of_nat e) bp) = dm_meta d"
    "unat p < 2 ^ 31 \<Longrightarrow> disk_content (put_bitmap d (of_nat e) bp) p = disk_content d p"
    "file_ok (dm_file (put_bitmap d (of_nat e) bp))"
proof -
  have "length (bytes_of_bitmap bp) = PAGE_SIZE" using assms(3) by simp
  then show "file_ok (dm_file (put_bitmap d (of_nat e) bp))"
    using file_ok_write [OF assms(1) bitmap_phys(2,3)] assms(2) by (simp add: put_bitmap_def)
qed (use assms map_nat_not_bitmap in \<open>auto simp: put_bitmap_def disk_bitmap_def page_at_write
    bitmap_phys(1) disk_content_def unat_MapPageId\<close>)

lemma bump_meta_effect:
  assumes "length (dm_meta d) = PAGE_SIZE" "e < 1022"
  shows "num_extents (dm_meta (bump_meta e v d)) = num_extents (dm_meta d)"
    "num_allocated_pages (dm_meta (bump_meta e v d)) = num_allocated_pages (dm_meta d) + v"
    "e' < 1022 \<Longrightarrow> extent_used_page (dm_meta (bump_meta e v d)) e' =
       (if e' = e then extent_used_page (dm_meta d) e + v else extent_used_page (dm_meta d) e')"
    "dm_file (bump_meta e v d) = dm_file d"
    "length (dm_meta (bump_meta e v d)) = PAGE_SIZE"
  using assms
  by (cases e e' rule: linorder_cases;
      auto simp: bump_meta_def Let_def num_extents_def num_allocated_pages_def extent_used_page_def
        PAGE_SIZE_def layout_simps)+

lemma frame_bump_meta [simp]:
  "disk_bitmap (bump_meta e v d) = disk_bitmap d" "disk_content (bump_meta e v d) = disk_content d"
  by (simp_all add: fun_eq_iff disk_bitmap_def disk_content_def bump_meta_def Let_def)

section \<open>Allocation\<close>

lemma wf_disk_not_full:
  assumes "wf_disk d" "e < disk_extents d"
  shows "unat (extent_used_page (dm_meta d) e) < BITMAP_SIZE \<longleftrightarrow>
         \<not> (\<forall>i < 32704. bm_bit (disk_bitmap d e) i)"
  using wf_bitmap_full_iff [OF wf_diskD(4) [OF assms]] wf_diskD(4,5) [OF assms]
  by (simp add: Max_eq BITMAP_SIZE_eq wf_bitmap_def not_le [symmetric])

text \<open>The extent loop finds the first extent that is not full, and the lowest free page in it.\<close>

lemma find_extent_Some:
  assumes "wf_disk d" "find_extent d e0 = Some (e, bp, off)"
  shows "e0 \<le> e \<and> e < disk_extents d \<and> wf_bitmap PAGE_SIZE bp \<and> off < 32704 \<and>
    \<not> bm_bit (disk_bitmap d e) off \<and> (\<forall>j. bm_bit bp j \<longleftrightarrow> j = off \<or> bm_bit (disk_bitmap d e) j)"
  using assms
proof (induction d e0 rule: find_extent.induct)
  case (1 d e0)
  note wf = wf_diskD [OF \<open>wf_disk d\<close>]
  show ?case
  proof (cases "e0 < disk_extents d \<and> unat (extent_used_page (dm_meta d) e0) < BITMAP_SIZE")
    case True
    then have e0: "e0 < disk_extents d" by simp
    with True have "\<not> (\<forall>i < GetMaxSupportedSize PAGE_SIZE. bm_bit (disk_bitmap d e0) i)"
      using wf_disk_not_full [OF \<open>wf_disk d\<close>] by (simp add: Max_eq)
    then obtain bp' k where k: "bitmap_AllocatePage PAGE_SIZE (disk_bitmap d e0) = (bp', Some k)"
      "wf_bitmap PAGE_SIZE bp'" "k < 32704" "\<not> bm_bit (disk_bitmap d e0) k"
      "\<forall>j. bm_bit bp' j \<longleftrightarrow> j = k \<or> bm_bit (disk_bitmap d e0) j"
      using bitmap_alloc_free [OF wf(4) [OF e0]] by (metis Max_eq)
    from True wf(3) have "find_extent d e0 = Some (e0, bp', k)"
      by (simp add: find_extent.simps [of d e0] disk_extents_def read_bitmap wf(2) k(1))
    with 1 k e0 show ?thesis by simp
  next
    case False
    have "e0 < disk_extents d"
      using 1(4) by (simp add: find_extent.simps [of d e0] disk_extents_def split: if_splits)
    moreover from this False have "BITMAP_SIZE \<le> unat (extent_used_page (dm_meta d) e0)" by simp
    moreover from calculation have "find_extent d e0 = find_extent d (Suc e0)"
      by (simp add: find_extent.simps [of d e0] disk_extents_def)
    ultimately show ?thesis
      using 1 by (simp add: disk_extents_def)
  qed
qed

lemma find_extent_None:
  assumes "wf_disk d" "find_extent d e0 = None" "e0 \<le> e" "e < disk_extents d"
  shows "BITMAP_SIZE \<le> unat (extent_used_page (dm_meta d) e)"
  using assms
proof (induction d e0 rule: find_extent.induct)
  case (1 d e0)
  note wf = wf_diskD [OF \<open>wf_disk d\<close>]
  have e0: "e0 < disk_extents d" using 1 by simp
  have full: "BITMAP_SIZE \<le> unat (extent_used_page (dm_meta d) e0)"
  proof (rule ccontr)
    assume *: "\<not> ?thesis"
    then have "\<not> (\<forall>i < GetMaxSupportedSize PAGE_SIZE. bm_bit (disk_bitmap d e0) i)"
      using wf_disk_not_full [OF \<open>wf_disk d\<close> e0] by (simp add: Max_eq)
    then obtain bp' k where "bitmap_AllocatePage PAGE_SIZE (disk_bitmap d e0) = (bp', Some k)"
      using bitmap_alloc_free [OF wf(4) [OF e0]] by metis
    with * e0 wf(3) have "find_extent d e0 = Some (e0, bp', k)"
      by (simp add: find_extent.simps [of d e0] disk_extents_def read_bitmap wf(2))
    with 1 show False by simp
  qed
  with 1 e0 have "find_extent d (Suc e0) = None"
    by (simp add: find_extent.simps [of d e0] disk_extents_def)
  with 1 e0 full show ?case by (cases "e = e0") (auto simp: disk_extents_def)
qed

lemma unat_word_div_mod:
  assumes "e < 131000" "off < 32704"
  shows "unat (of_nat e * extent_capacity + of_nat off :: page_id_t) = e * 32704 + off"
    "(e * 32704 + off) div 32704 = e" "(e * 32704 + off) mod 32704 = off"
proof -
  have "unat (of_nat e * extent_capacity :: 32 word) = e * 32704"
    using assms by (subst unat_mult_small) (simp_all add: unat_of_nat_small)
  then show "unat (of_nat e * extent_capacity + of_nat off :: page_id_t) = e * 32704 + off"
    using assms by (subst unat_add_small) (simp_all add: unat_of_nat_small)
qed (use assms in simp_all)

text \<open>Changing one extent's bitmap changes the allocation state of that extent's pages only.\<close>

lemma disk_allocated_update:
  assumes "disk_extents d' = n" "disk_extents d \<le> n" "n \<le> 16" "e < n" "off < 32704"
    and same: "\<And>e'. e' < disk_extents d \<Longrightarrow> e' \<noteq> e \<Longrightarrow> disk_bitmap d' e' = disk_bitmap d e'"
    and new: "n \<noteq> disk_extents d \<Longrightarrow> n = Suc e \<and> disk_extents d = e"
    and bit: "\<And>j. j < 32704 \<Longrightarrow> bm_bit (disk_bitmap d' e) j \<longleftrightarrow>
      (if j = off then v else e < disk_extents d \<and> bm_bit (disk_bitmap d e) j)"
  shows "disk_allocated d' =
    (let p = of_nat e * extent_capacity + of_nat off
     in if v then insert p (disk_allocated d) else disk_allocated d - {p})"
proof -
  let ?p = "of_nat e * extent_capacity + of_nat off :: page_id_t"
  have p: "unat ?p = e * 32704 + off" "unat ?p div 32704 = e" "unat ?p mod 32704 = off"
    using assms unat_word_div_mod [of e off] by auto
  then have small: "unat ?p < 2 ^ 31" using assms by simp
  have key: "q \<in> disk_allocated d' \<longleftrightarrow> (if q = ?p then v else q \<in> disk_allocated d)" for q
  proof (cases "unat q div 32704 = e")
    case True
    have "q = ?p \<longleftrightarrow> unat q mod 32704 = off"
    proof
      assume "unat q mod 32704 = off"
      then have "unat q = unat ?p" using True p by (metis div_mult_mod_eq)
      then show "q = ?p" by (simp add: word_unat_eq_iff)
    qed (use p in simp)
    with True bit [of "unat q mod 32704"] small assms(1,4) show ?thesis
      by (auto simp: disk_allocated_def)
  next
    case False
    then have "q \<noteq> ?p" using p by auto
    moreover have "unat q div 32704 < n \<longleftrightarrow> unat q div 32704 < disk_extents d"
      using False new assms(2) by (cases "n = disk_extents d") auto
    ultimately show ?thesis using False same assms(1) by (auto simp: disk_allocated_def)
  qed
  show ?thesis unfolding Let_def by (rule set_eqI) (cases v; simp add: key)
qed

lemma wf_disk_update_extent:
  assumes wf: "wf_disk d" and e: "e < disk_extents d" and bp: "wf_bitmap PAGE_SIZE bp"
    and v: "unat (extent_used_page (dm_meta d) e + v) = card (bm_used PAGE_SIZE bp)"
      "unat (num_allocated_pages (dm_meta d) + v) =
        (\<Sum>e' < disk_extents d. card (bm_used PAGE_SIZE (if e' = e then bp else disk_bitmap d e')))"
  shows "wf_disk (bump_meta e v (put_bitmap d (of_nat e) bp))"
proof -
  have e16: "e \<le> 16" "e < 1022" using wf_diskD(3) [OF wf] e by auto
  have len: "length (bm_bytes bp) = MAX_CHARS PAGE_SIZE" using bp by (simp add: wf_bitmap_def)
  note put = put_bitmap_effect [OF wf_diskD(2) [OF wf] e16(1) len]
  have meta: "length (dm_meta (put_bitmap d (of_nat e) bp)) = PAGE_SIZE"
    using wf_diskD(1) [OF wf] by (simp add: put)
  note bump = bump_meta_effect [OF meta e16(2)]
  have ext: "disk_extents (bump_meta e v (put_bitmap d (of_nat e) bp)) = disk_extents d"
    by (simp add: disk_extents_def bump put)
  have used: "extent_used_page (dm_meta (bump_meta e v (put_bitmap d (of_nat e) bp))) e' =
      (if e' = e then extent_used_page (dm_meta d) e + v else extent_used_page (dm_meta d) e')"
    if "e' < disk_extents d" for e'
    using that wf_diskD(3) [OF wf] by (subst bump(3)) (auto simp: put)
  show ?thesis
    unfolding wf_disk_def ext frame_bump_meta bump(2,4,5) put
    using wf_diskD [OF wf] bp v used put(4) by auto
qed

lemma sum_update_one:
  fixes f :: "nat \<Rightarrow> nat"
  assumes "e < n"
  shows "(\<Sum>e' < n. if e' = e then g else f e') + f e = (\<Sum>e' < n. f e') + g"
proof -
  have "(\<Sum>e' < n. if e' = e then g else f e') = g + (\<Sum>e' \<in> {..<n} - {e}. f e')"
    using assms by (subst sum.remove [of _ e]) (auto intro!: sum.cong)
  moreover have "(\<Sum>e' < n. f e') = f e + (\<Sum>e' \<in> {..<n} - {e}. f e')"
    using assms by (intro sum.remove) auto
  ultimately show ?thesis by simp
qed

lemma sum_used_bound:
  assumes "n \<le> (16::nat)"
  shows "(\<Sum>e < n. card (bm_used PAGE_SIZE (f e))) \<le> 523264"
proof -
  have "(\<Sum>e < n. card (bm_used PAGE_SIZE (f e))) \<le> (\<Sum>e < n. 32704)"
    by (rule sum_mono) (use card_bm_used_le [of PAGE_SIZE] in \<open>simp add: Max_eq\<close>)
  with assms show ?thesis by simp
qed

lemma card_used_set:
  assumes "off < 32704" "\<not> bm_bit bp off" "\<forall>j. bm_bit bp' j \<longleftrightarrow> j = off \<or> bm_bit bp j"
  shows "card (bm_used PAGE_SIZE bp') = Suc (card (bm_used PAGE_SIZE bp))"
proof -
  have "bm_used PAGE_SIZE bp' = insert off (bm_used PAGE_SIZE bp)" "off \<notin> bm_used PAGE_SIZE bp"
    using assms by (auto simp: bm_used_def Max_eq)
  then show ?thesis by simp
qed

lemma alloc_existing_extent:
  assumes wf: "wf_disk d" and found: "find_extent d 0 = Some (e, bp, off)"
  defines "d' \<equiv> bump_meta e 1 (put_bitmap d (of_nat e) bp)"
    and "p \<equiv> of_nat e * extent_capacity + of_nat off :: page_id_t"
  shows "wf_disk d' \<and> disk_ok_id p \<and> p \<notin> disk_allocated d \<and>
    disk_allocated d' = insert p (disk_allocated d) \<and>
    (\<forall>q. disk_ok_id q \<longrightarrow> disk_content d' q = disk_content d q)"
proof -
  note fe = find_extent_Some [OF wf found]
  have e: "e < disk_extents d" "e \<le> 16" "e < 16" "e < 1022" using fe wf_diskD(3) [OF wf] by auto
  have len: "length (bm_bytes bp) = MAX_CHARS PAGE_SIZE" using fe by (simp add: wf_bitmap_def)
  note put = put_bitmap_effect [OF wf_diskD(2) [OF wf] e(2) len]
  let ?f = "\<lambda>e'. card (bm_used PAGE_SIZE (disk_bitmap d e'))"
  have card: "card (bm_used PAGE_SIZE bp) = Suc (?f e)" using fe by (intro card_used_set) auto
  have le: "card (bm_used PAGE_SIZE bp) \<le> 32704" using card_bm_used_le [of PAGE_SIZE bp] by (simp add: Max_eq)
  have sum: "(\<Sum>e' < disk_extents d. card (bm_used PAGE_SIZE (if e' = e then bp else disk_bitmap d e')))
      = Suc (\<Sum>e' < disk_extents d. ?f e')"
    using sum_update_one [OF e(1), of "card (bm_used PAGE_SIZE bp)" ?f] card by (simp add: if_distrib)
  have v1: "unat (extent_used_page (dm_meta d) e + 1) = card (bm_used PAGE_SIZE bp)"
    using wf_diskD(5) [OF wf e(1)] card le by (subst unat_add_small) simp_all
  have "unat (num_allocated_pages (dm_meta d)) = (\<Sum>e' < disk_extents d. ?f e')"
    using wf by (simp add: wf_disk_def)
  then have v2: "unat (num_allocated_pages (dm_meta d) + 1) =
      (\<Sum>e' < disk_extents d. card (bm_used PAGE_SIZE (if e' = e then bp else disk_bitmap d e')))"
    using sum sum_used_bound [OF wf_diskD(3) [OF wf], of "disk_bitmap d"]
    by (subst unat_add_small) simp_all
  have ext: "disk_extents d' = disk_extents d"
    using e(4) wf_diskD(1) [OF wf] by (simp add: d'_def disk_extents_def bump_meta_effect put(2))
  have bm: "disk_bitmap d' e' = (if e' = e then bp else disk_bitmap d e')" for e'
    by (simp add: d'_def put(1))
  have alloc: "disk_allocated d' = insert p (disk_allocated d)"
    using disk_allocated_update [OF ext, of d e off True] fe e wf_diskD(3) [OF wf]
    by (simp add: bm p_def)
  have p: "unat p = e * 32704 + off" "unat p div 32704 = e" "unat p mod 32704 = off"
    using unat_word_div_mod [of e off] e fe by (simp_all add: p_def)
  have "wf_disk d'" unfolding d'_def using fe by (intro wf_disk_update_extent [OF wf e(1) _ v1 v2]) simp
  moreover have "disk_ok_id p" using p(1) e(3) fe by (simp add: disk_ok_id_def)
  moreover have "p \<notin> disk_allocated d" using p fe by (simp add: disk_allocated_def)
  moreover have "\<forall>q. disk_ok_id q \<longrightarrow> disk_content d' q = disk_content d q"
    by (auto simp: d'_def intro!: put(3) disk_ok_id_phys(1))
  ultimately show ?thesis using alloc by blast
qed

lemma alloc_zero_bitmap_page:
  obtains bp where "bitmap_AllocatePage PAGE_SIZE (zero_bitmap PAGE_SIZE) = (bp, Some 0)"
    "wf_bitmap PAGE_SIZE bp" "\<forall>j < 32704. bm_bit bp j \<longleftrightarrow> j = 0"
proof -
  have z: "\<not> bm_bit (zero_bitmap PAGE_SIZE) j" if "j < 32704" for j
    using zero_bitmap_bits [of j PAGE_SIZE] that by (simp add: Max_eq)
  then have "\<not> (\<forall>i < GetMaxSupportedSize PAGE_SIZE. bm_bit (zero_bitmap PAGE_SIZE) i)"
    by (auto simp: Max_eq intro: exI [of _ 0])
  then obtain bp k where k: "bitmap_AllocatePage PAGE_SIZE (zero_bitmap PAGE_SIZE) = (bp, Some k)"
    "wf_bitmap PAGE_SIZE bp" "k < 32704" "\<forall>j < k. bm_bit (zero_bitmap PAGE_SIZE) j"
    "\<forall>j. bm_bit bp j \<longleftrightarrow> j = k \<or> bm_bit (zero_bitmap PAGE_SIZE) j"
    using bitmap_alloc_free [OF wf_zero_bitmap_page] by (metis Max_eq)
  then have "k = 0" using z [of 0] by (cases k) auto
  with k z that show ?thesis by blast
qed

text \<open>What creating an extent does to the in-memory meta page and to the file.\<close>

lemma new_extent_effect:
  assumes wf: "wf_disk d" and room: "disk_extents d < 16"
    and bp: "bitmap_AllocatePage PAGE_SIZE (zero_bitmap PAGE_SIZE) = (bp, Some 0)"
      "length (bm_bytes bp) = MAX_CHARS PAGE_SIZE"
  obtains d' where
    "new_extent d = Inr (d', of_nat (disk_extents d) * extent_capacity + of_nat 0)"
    "length (dm_meta d') = PAGE_SIZE" "disk_extents d' = Suc (disk_extents d)"
    "num_allocated_pages (dm_meta d') = num_allocated_pages (dm_meta d) + 1"
    "\<forall>e \<le> disk_extents d. extent_used_page (dm_meta d') e =
       (if e = disk_extents d then 1 else extent_used_page (dm_meta d) e)"
    "\<forall>e. disk_bitmap d' e = (if e = disk_extents d then bp else disk_bitmap d e)"
    "file_ok (dm_file d')" "\<forall>q. disk_ok_id q \<longrightarrow> disk_content d' q = disk_content d q" "\<not> dm_closed d'"
proof -
  let ?n = "disk_extents d" and ?x = "num_extents (dm_meta d)"
  have x: "?x = of_nat ?n" "unat ?x = ?n" by (simp_all add: disk_extents_def)
  note put = put_bitmap_effect [OF wf_diskD(2) [OF wf] less_imp_le [OF room] bp(2)]
  define d1 where "d1 = put_bitmap d ?x bp"
  define m1 where "m1 = wr32 (dm_meta d) 4 (?x + 1)"
  define m2 where "m2 = wr32 m1 0 (num_allocated_pages m1 + 1)"
  define d' where "d' = d1\<lparr>dm_meta := wr32 m2 (8 + 4 * ?n) 1\<rparr>"
  have d1: "dm_meta d1 = dm_meta d" "length (dm_meta d) = 4096"
    using wf_diskD(1) [OF wf] by (simp_all add: d1_def put(2) x(1) PAGE_SIZE_def)
  have "\<not> PAGE_SIZE < 8 + 4 * ?n + 4" using room by (simp add: PAGE_SIZE_def)
  then have code: "new_extent d = Inr (d', of_nat ?n * extent_capacity + of_nat 0)"
    by (simp add: new_extent_def bitmap_of_zero_page bp(1) Let_def d1(1) x(2) d'_def m2_def m1_def
        flip: d1_def x(1))
  have meta: "length (dm_meta d') = PAGE_SIZE" "num_extents (dm_meta d') = ?x + 1"
    "num_allocated_pages (dm_meta d') = num_allocated_pages (dm_meta d) + 1"
    using d1 room by (simp_all add: d'_def m2_def m1_def num_extents_def num_allocated_pages_def
        PAGE_SIZE_def layout_simps)
  have used: "\<forall>e \<le> ?n. extent_used_page (dm_meta d') e = (if e = ?n then 1 else extent_used_page (dm_meta d) e)"
    using d1 room by (auto simp: d'_def m2_def m1_def extent_used_page_def layout_simps)
  have ext: "disk_extents d' = Suc ?n"
    unfolding disk_extents_def meta(2) using room x(2) by (subst unat_add_small) simp_all
  have bm: "\<forall>e. disk_bitmap d' e = (if e = ?n then bp else disk_bitmap d e)"
    using put(1) by (simp add: d'_def d1_def x(1) disk_bitmap_def)
  have "file_ok (dm_file d')" using put(4) by (simp add: d'_def d1_def x(1))
  moreover have "\<forall>q. disk_ok_id q \<longrightarrow> disk_content d' q = disk_content d q"
    using put(3) disk_ok_id_phys(1) by (simp add: d'_def d1_def x(1) disk_content_def)
  moreover have "\<not> dm_closed d'" using wf_diskD(6) [OF wf] by (simp add: d'_def d1_def)
  ultimately show ?thesis using that code meta(1,3) used ext bm by blast
qed

lemma alloc_new_extent:
  assumes wf: "wf_disk d" and room: "disk_extents d < 16"
  obtains d' p where "new_extent d = Inr (d', p)" "wf_disk d'" "disk_ok_id p"
    "p \<notin> disk_allocated d" "disk_allocated d' = insert p (disk_allocated d)"
    "\<forall>q. disk_ok_id q \<longrightarrow> disk_content d' q = disk_content d q"
proof -
  let ?n = "disk_extents d"
  let ?p = "of_nat ?n * extent_capacity + of_nat 0 :: page_id_t"
  obtain bp where bp: "bitmap_AllocatePage PAGE_SIZE (zero_bitmap PAGE_SIZE) = (bp, Some 0)"
    "wf_bitmap PAGE_SIZE bp" "\<forall>j < 32704. bm_bit bp j \<longleftrightarrow> j = 0"
    using alloc_zero_bitmap_page .
  then have len: "length (bm_bytes bp) = MAX_CHARS PAGE_SIZE" by (simp add: wf_bitmap_def)
  obtain d' where d': "new_extent d = Inr (d', ?p)"
    "length (dm_meta d') = PAGE_SIZE" "disk_extents d' = Suc ?n"
    "num_allocated_pages (dm_meta d') = num_allocated_pages (dm_meta d) + 1"
    "\<forall>e \<le> ?n. extent_used_page (dm_meta d') e = (if e = ?n then 1 else extent_used_page (dm_meta d) e)"
    "\<forall>e. disk_bitmap d' e = (if e = ?n then bp else disk_bitmap d e)"
    "file_ok (dm_file d')" "\<forall>q. disk_ok_id q \<longrightarrow> disk_content d' q = disk_content d q" "\<not> dm_closed d'"
    using new_extent_effect [OF wf room bp(1) len] .
  have "bm_used PAGE_SIZE bp = {0}" using bp(3) by (auto simp: bm_used_def Max_eq)
  then have card: "card (bm_used PAGE_SIZE bp) = 1" by simp
  have sum: "(\<Sum>e < Suc ?n. card (bm_used PAGE_SIZE (disk_bitmap d' e))) =
      Suc (\<Sum>e < ?n. card (bm_used PAGE_SIZE (disk_bitmap d e)))"
    by (simp add: d'(6) card)
  have total: "unat (num_allocated_pages (dm_meta d) + 1) =
      Suc (\<Sum>e < ?n. card (bm_used PAGE_SIZE (disk_bitmap d e)))"
    using wf sum_used_bound [OF wf_diskD(3) [OF wf], of "disk_bitmap d"]
    by (subst unat_add_small) (simp_all add: wf_disk_def)
  have "wf_disk d'"
    unfolding wf_disk_def d'(3,4) sum total
    using wf_diskD(4,5) [OF wf] bp(2) room card d'(2,5,7,9) by (auto simp: d'(6) less_Suc_eq)
  moreover have "unat ?p = ?n * 32704" using unat_word_div_mod(1) [of ?n 0] room by simp
  then have "disk_ok_id ?p" "?p \<notin> disk_allocated d"
    using room by (simp_all add: disk_ok_id_def disk_allocated_def)
  moreover have "disk_allocated d' = insert ?p (disk_allocated d)"
    using disk_allocated_update [OF d'(3), of d ?n 0 True] room bp(3) by (simp add: d'(6))
  ultimately show ?thesis using that d'(1,8) by blast
qed

lemma disk_alloc_room:
  assumes wf: "wf_disk d" and room: "disk_room d"
  obtains d' p where "disk_AllocatePage d = Inr (d', p)" "wf_disk d'" "disk_ok_id p"
    "p \<notin> disk_allocated d" "disk_allocated d' = insert p (disk_allocated d)"
    "\<forall>q. disk_ok_id q \<longrightarrow> disk_content d' q = disk_content d q"
proof (cases "find_extent d 0")
  case None
  then have "disk_extents d < 16"
    using room find_extent_None [OF wf None] by (fastforce simp: disk_room_def)
  moreover have "disk_AllocatePage d = new_extent d" by (simp add: disk_AllocatePage_def None)
  ultimately show ?thesis using alloc_new_extent [OF wf] that by metis
next
  case (Some r)
  obtain e bp off where r: "r = (e, bp, off)" by (cases r)
  show ?thesis
    using alloc_existing_extent [OF wf, of e bp off] that Some r
    by (simp add: disk_AllocatePage_def)
qed

section \<open>Release and the free test\<close>

lemma ext_cap_div_mod:
  "unat (p div extent_capacity) = unat p div 32704" "unat (p mod extent_capacity) = unat p mod 32704"
  by (simp_all add: unat_div unat_mod)

lemma ext_of_page:
  assumes "wf_disk d" "unat p < 2 ^ 31"
  shows "num_extents (dm_meta d) \<le> p div extent_capacity \<longleftrightarrow> disk_extents d \<le> unat p div 32704"
    "unat p div 32704 < disk_extents d \<Longrightarrow>
      bitmap_of_bytes (ReadPhysicalPage (dm_file d) (bitmap_page_id (p div extent_capacity))) =
      disk_bitmap d (unat p div 32704)"
    "of_nat (unat p div 32704) = p div extent_capacity"
    "p = of_nat (unat p div 32704) * extent_capacity + of_nat (unat p mod 32704)"
proof -
  show "num_extents (dm_meta d) \<le> p div extent_capacity \<longleftrightarrow> disk_extents d \<le> unat p div 32704"
    by (simp add: word_le_nat_alt disk_extents_def ext_cap_div_mod)
  show of: "of_nat (unat p div 32704) = p div extent_capacity"
    by (simp flip: ext_cap_div_mod(1))
  show "bitmap_of_bytes (ReadPhysicalPage (dm_file d) (bitmap_page_id (p div extent_capacity))) =
      disk_bitmap d (unat p div 32704)" if "unat p div 32704 < disk_extents d"
    using read_bitmap [of d "unat p div 32704"] wf_diskD(2,3) [OF assms(1)] that by (simp add: of)
  have "unat p div 32704 < 131000" using assms(2) by (simp add: div_less_iff_less_mult)
  then have "unat (of_nat (unat p div 32704) * extent_capacity + of_nat (unat p mod 32704) :: page_id_t) = unat p"
    by (subst unat_word_div_mod(1)) simp_all
  then show "p = of_nat (unat p div 32704) * extent_capacity + of_nat (unat p mod 32704)"
    by (simp add: word_unat_eq_iff)
qed

lemma disk_is_free:
  assumes "wf_disk d" "0 \<le> sint p"
  shows "disk_IsPageFree d p \<longleftrightarrow> p \<notin> disk_allocated d"
proof -
  have small: "unat p < 2 ^ 31" using assms(2) sint_neg_iff [of p] by linarith
  show ?thesis
    using small assms ext_of_page [OF assms(1) small]
    by (auto simp: disk_IsPageFree_def disk_allocated_def Let_def ext_cap_div_mod
        bitmap_IsPageFree_def Max_eq IsPageFreeLow_iff)
qed

lemma disk_dealloc_noop:
  assumes "wf_disk d" "p \<notin> disk_allocated d"
  shows "disk_DeAllocatePage d p = d"
proof (cases "unat p < 2 ^ 31 \<and> unat p div 32704 < disk_extents d")
  case True
  then have "unat p mod 32704 \<notin> bm_used PAGE_SIZE (disk_bitmap d (unat p div 32704))"
    using assms(2) by (simp add: disk_allocated_def bm_used_def)
  then show ?thesis
    using True ext_of_page [OF assms(1), of p]
    by (simp add: disk_DeAllocatePage_def Let_def ext_cap_div_mod bitmap_dealloc_unused)
next
  case False
  then show ?thesis
    using ext_of_page [OF assms(1), of p] sint_neg_iff [of p]
    by (auto simp: disk_DeAllocatePage_def Let_def not_less)
qed

lemma card_used_clear:
  assumes "off < 32704" "bm_bit bp off" "\<forall>j. bm_bit bp' j \<longleftrightarrow> j \<noteq> off \<and> bm_bit bp j"
  shows "card (bm_used PAGE_SIZE bp) = Suc (card (bm_used PAGE_SIZE bp'))"
proof -
  have "bm_used PAGE_SIZE bp = insert off (bm_used PAGE_SIZE bp')" "off \<notin> bm_used PAGE_SIZE bp'"
    using assms by (auto simp: bm_used_def Max_eq)
  then show ?thesis by simp
qed

lemma unat_minus_one_small:
  assumes "unat (w :: 32 word) = Suc n"
  shows "unat (w + - 1) = n"
proof -
  have "w \<noteq> 0" using assms unat_0 by force
  then have "unat (w - 1) = unat w - 1" by (rule unat_minus_one)
  then show ?thesis by (simp only: add_uminus_conv_diff assms diff_Suc_1)
qed

lemma disk_dealloc_used:
  assumes wf: "wf_disk d" and p: "p \<in> disk_allocated d"
  defines "d' \<equiv> disk_DeAllocatePage d p"
  shows "wf_disk d' \<and> disk_allocated d' = disk_allocated d - {p} \<and>
    (\<forall>q. disk_ok_id q \<longrightarrow> disk_content d' q = disk_content d q) \<and> disk_room d'"
proof -
  define e off where "e = unat p div 32704" and "off = unat p mod 32704"
  have small: "unat p < 2 ^ 31" and e: "e < disk_extents d" and off: "off < 32704"
    and bit: "bm_bit (disk_bitmap d e) off"
    using p by (simp_all add: disk_allocated_def e_def off_def)
  note ext = ext_of_page [OF wf small, folded e_def off_def]
  have e16: "e \<le> 16" "e < 1022" using e wf_diskD(3) [OF wf] by auto
  obtain bp where bp: "bitmap_DeAllocatePage PAGE_SIZE (disk_bitmap d e) off = (bp, True)"
    "wf_bitmap PAGE_SIZE bp" "\<forall>j. bm_bit bp j \<longleftrightarrow> j \<noteq> off \<and> bm_bit (disk_bitmap d e) j"
    using bitmap_dealloc_used [OF wf_diskD(4) [OF wf e], of off] off bit by (metis Max_eq)
  have code: "d' = bump_meta e (- 1) (put_bitmap d (of_nat e) bp)"
    using small sint_neg_iff [of p] e bp(1) ext(1,2)
    by (simp add: d'_def disk_DeAllocatePage_def Let_def ext_cap_div_mod ext(3) flip: e_def off_def)
  have len: "length (bm_bytes bp) = MAX_CHARS PAGE_SIZE" using bp by (simp add: wf_bitmap_def)
  note put = put_bitmap_effect [OF wf_diskD(2) [OF wf] e16(1) len]
  let ?f = "\<lambda>e'. card (bm_used PAGE_SIZE (disk_bitmap d e'))"
  have card: "?f e = Suc (card (bm_used PAGE_SIZE bp))" using bp(3) off bit by (intro card_used_clear)
  have "Suc (\<Sum>e' < disk_extents d. card (bm_used PAGE_SIZE (if e' = e then bp else disk_bitmap d e')))
      = (\<Sum>e' < disk_extents d. ?f e')"
    using sum_update_one [OF e, of "card (bm_used PAGE_SIZE bp)" ?f] card by (simp add: if_distrib)
  then have v2: "unat (num_allocated_pages (dm_meta d) + - 1) =
      (\<Sum>e' < disk_extents d. card (bm_used PAGE_SIZE (if e' = e then bp else disk_bitmap d e')))"
    using wf by (intro unat_minus_one_small) (simp add: wf_disk_def)
  have v1: "unat (extent_used_page (dm_meta d) e + - 1) = card (bm_used PAGE_SIZE bp)"
    using wf_diskD(5) [OF wf e] card by (intro unat_minus_one_small) simp
  have n: "disk_extents d' = disk_extents d"
    using e16(2) wf_diskD(1) [OF wf] by (simp add: code disk_extents_def bump_meta_effect put(2))
  have bm: "disk_bitmap d' e' = (if e' = e then bp else disk_bitmap d e')" for e'
    by (simp add: code put(1))
  have "disk_allocated d' = disk_allocated d - {p}"
    using disk_allocated_update [OF n, of d e off False] e off bp(3) wf_diskD(3) [OF wf] ext(4)
    by (simp add: bm)
  moreover have wf': "wf_disk d'" unfolding code by (rule wf_disk_update_extent [OF wf e bp(2) v1 v2])
  moreover have "\<forall>q. disk_ok_id q \<longrightarrow> disk_content d' q = disk_content d q"
    by (auto simp: code intro!: put(3) disk_ok_id_phys(1))
  moreover have "disk_room d'"
  proof -
    have "card (bm_used PAGE_SIZE (disk_bitmap d e)) \<le> card {..<32704::nat}"
      by (intro card_mono) (auto simp: bm_used_def Max_eq)
    then have "card (bm_used PAGE_SIZE bp) < BITMAP_SIZE" using card by (simp add: BITMAP_SIZE_eq)
    then show ?thesis
      using e n wf_diskD(5) [OF wf', of e] by (auto simp: disk_room_def bm)
  qed
  ultimately show ?thesis by blast
qed

section \<open>The disk manager is a page store\<close>

definition disk_manager_ops :: "disk_manager disk_ops" where
  "disk_manager_ops = \<lparr>op_ReadPage = disk_ReadPage, op_WritePage = disk_WritePage,
     op_AllocatePage = disk_AllocatePage, op_DeAllocatePage = disk_DeAllocatePage,
     op_IsPageFree = disk_IsPageFree\<rparr>"

lemma disk_ok_id_nonneg: "disk_ok_id p \<Longrightarrow> 0 \<le> sint p"
  using sint_neg_iff [of p] by (simp add: disk_ok_id_def not_less)

lemma disk_write_effect:
  assumes wf: "wf_disk d" and p: "disk_ok_id p" and len: "length data = PAGE_SIZE"
  obtains d' where "disk_WritePage d p data = Inr d'" "wf_disk d'" "disk_content d' p = data"
    "\<forall>q. disk_ok_id q \<longrightarrow> q \<noteq> p \<longrightarrow> disk_content d' q = disk_content d q"
    "disk_allocated d' = disk_allocated d" "disk_room d' = disk_room d"
proof -
  define d' where "d' = d\<lparr>dm_file := WritePhysicalPage (dm_file d) (MapPageId p) data\<rparr>"
  note phys = disk_ok_id_phys [OF p]
  have bm: "disk_bitmap d' e = disk_bitmap d e" for e
    using map_nat_not_bitmap [of "unat p" e] len phys_small [OF phys(3)]
    by (simp add: d'_def disk_bitmap_def page_at_write phys(2))
  have ext: "disk_extents d' = disk_extents d" by (simp add: d'_def disk_extents_def)
  have "file_ok (dm_file d')"
    using file_ok_write [OF wf_diskD(2) [OF wf] phys(3,4) len] by (simp add: d'_def)
  then have "wf_disk d'" using wf by (simp add: wf_disk_def bm ext) (simp add: d'_def)
  moreover have "disk_allocated d' = disk_allocated d" "disk_room d' = disk_room d"
    by (simp_all add: disk_allocated_def disk_room_def bm ext) (simp add: d'_def)
  moreover have "disk_content d' q = (if q = p then data else disk_content d q)" if "disk_ok_id q" for q
    using disk_ok_id_phys(2) [OF that] phys(2) len phys_small [OF phys(3)] map_nat_inj [of "unat q" "unat p"]
    by (auto simp: d'_def disk_content_def page_at_write word_unat_eq_iff)
  moreover have "disk_WritePage d p data = Inr d'"
    using disk_ok_id_nonneg [OF p] by (simp add: disk_WritePage_def d'_def)
  ultimately show ?thesis using that p by auto
qed

interpretation disk: page_store disk_manager_ops disk_content disk_allocated disk_ok_id disk_room wf_disk
proof (unfold_locales, goal_cases)
  case (1 d p)
  then show ?case
    using disk_ok_id_nonneg [OF 1(2)] disk_ok_id_phys(3) [OF 1(2)] wf_diskD(2) [OF 1(1)]
    by (simp add: disk_manager_ops_def disk_ReadPage_def disk_content_def ReadPhysicalPage_page_at)
next
  case (2 d p data)
  from disk_write_effect [OF this] show ?case by (metis disk_manager_ops_def disk_ops.select_convs(2))
next
  case (3 d)
  from disk_alloc_room [OF this] show ?case by (metis disk_manager_ops_def disk_ops.select_convs(3))
next
  case (4 d p)
  then show ?case
    using disk_dealloc_used [OF 4, of p] disk_dealloc_noop [OF 4, of p]
    by (cases "p \<in> disk_allocated d") (auto simp: disk_manager_ops_def)
next
  case (5 d p)
  then show ?case by (simp add: disk_manager_ops_def disk_is_free)
next
  case (6 d p)
  show ?case by (simp add: disk_content_def)
next
  case (7 p)
  then show ?case by (rule disk_ok_id_nonneg)
qed

text \<open>There is room while fewer pages are allocated than one extent holds.\<close>

lemma disk_room_few:
  assumes wf: "wf_disk d" and few: "card (disk_allocated d) < 32704"
  shows "disk_room d"
proof (cases "disk_extents d < 16")
  case False
  let ?U = "bm_used PAGE_SIZE (disk_bitmap d 0)"
  have U: "j < 32704 \<and> bm_bit (disk_bitmap d 0) j" if "j \<in> ?U" for j
    using that by (simp add: bm_used_def Max_eq)
  have un: "unat (of_nat j :: page_id_t) = j" if "j \<in> ?U" for j
    using U [OF that] by (intro unat_of_nat_small) simp
  have "inj_on (of_nat :: nat \<Rightarrow> page_id_t) ?U" by (rule inj_onI) (metis un)
  then have "card ?U = card ((of_nat :: nat \<Rightarrow> page_id_t) ` ?U)" by (simp add: card_image)
  also have "\<dots> \<le> card (disk_allocated d)"
    by (rule card_mono) (use U un False in \<open>fastforce simp: disk_allocated_def\<close>)+
  finally have "card ?U < BITMAP_SIZE" using few by (simp add: BITMAP_SIZE_eq)
  then show ?thesis using wf_diskD(5) [OF wf, of 0] False by (auto simp: disk_room_def intro!: exI [of _ 0])
qed (simp add: disk_room_def)

section \<open>A fresh database file\<close>

lemma open_empty: "DiskManager_open [] = \<lparr>dm_file = [], dm_meta = zero_page, dm_closed = False\<rparr>"
  by (simp add: DiskManager_open_def ReadPhysicalPage_def GetFileSize_def META_PAGE_ID_def)

lemma rd32_zero_page: "rd32 zero_page off = 0"
proof -
  have "le_dec (replicate n 0) = (0 :: 32 word)" for n by (induction n) simp_all
  then show ?thesis by (simp add: rd32_def rd_def zero_page_def drop_replicate take_replicate)
qed

lemma wf_open_empty: "wf_disk (DiskManager_open [])" "disk_room (DiskManager_open [])"
  "disk_allocated (DiskManager_open []) = {}"
  by (simp_all add: open_empty wf_disk_def disk_extents_def num_extents_def num_allocated_pages_def
      rd32_zero_page file_ok_def disk_room_def disk_allocated_def) (simp add: zero_page_def)

section \<open>Properties\<close>

text \<open>\<^verbatim>\<open>MapPageId\<close> is injective on the non-negative logical page numbers, and it never gives the
  meta page's number or the number of a bitmap page: the data pages of the file never overlap each
  other or the allocation metadata.\<close>

theorem MapPageId_layout:
  assumes "0 \<le> sint p" "0 \<le> sint q" "unat e \<le> 65664"
  shows "(MapPageId p = MapPageId q \<longleftrightarrow> p = q) \<and> MapPageId p \<noteq> META_PAGE_ID \<and>
         MapPageId p \<noteq> bitmap_page_id e"
proof -
  have p: "unat (MapPageId p) = map_nat (unat p)" and q: "unat (MapPageId q) = map_nat (unat q)"
    using assms(1,2) sint_neg_iff [of p] sint_neg_iff [of q] by (auto intro!: unat_MapPageId)
  have "MapPageId p = MapPageId q \<longleftrightarrow> p = q"
    by (simp add: word_unat_eq_iff p q map_nat_inj)
  moreover have "MapPageId p \<noteq> META_PAGE_ID"
    by (simp add: word_unat_eq_iff p META_PAGE_ID_def map_nat_def)
  moreover have "MapPageId p \<noteq> bitmap_page_id e"
    using map_nat_not_bitmap [of "unat p" "unat e"] assms(3)
    by (simp add: word_unat_eq_iff p unat_bitmap_page_id)
  ultimately show ?thesis by blast
qed

theorem MapPageId_layout_witness:
  "MapPageId 32703 \<noteq> MapPageId 32704 \<and> MapPageId 32703 \<noteq> bitmap_page_id 1 \<and>
   MapPageId 32704 = 32707 \<and> bitmap_page_id 1 = 32706"
  using MapPageId_layout [of 32703 32704 1]
  by (simp add: MapPageId_def bitmap_page_id_def extent_capacity_def BITMAP_SIZE_eq)

text \<open>C12. \<^verbatim>\<open>DiskManager::AllocatePage\<close>, while there is room below the 2 GiB read limit, returns a
  page number that was free before and is allocated afterwards; no other page's allocation state and
  no page's content changes, and the counters of the meta page stay right.\<close>

theorem disk_AllocatePage_fresh:
  assumes "wf_disk d" "disk_room d"
  shows "\<exists>d' p. disk_AllocatePage d = Inr (d', p) \<and> disk_IsPageFree d p \<and> \<not> disk_IsPageFree d' p \<and>
    disk_allocated d' = insert p (disk_allocated d) \<and>
    (\<forall>q. disk_ok_id q \<longrightarrow> disk_ReadPage d' q = disk_ReadPage d q) \<and> wf_disk d'"
proof -
  obtain d' p where r: "disk_AllocatePage d = Inr (d', p)" "wf_disk d'" "disk_ok_id p"
    "p \<notin> disk_allocated d" "disk_allocated d' = insert p (disk_allocated d)"
    "\<forall>q. disk_ok_id q \<longrightarrow> disk_content d' q = disk_content d q"
    using disk_alloc_room [OF assms] .
  have "0 \<le> sint p" using r(3) by (rule disk_ok_id_nonneg)
  then have "disk_IsPageFree d p" "\<not> disk_IsPageFree d' p"
    using r assms(1) by (simp_all add: disk_is_free)
  moreover have "\<forall>q. disk_ok_id q \<longrightarrow> disk_ReadPage d' q = disk_ReadPage d q"
    using r(2,6) assms(1) disk.read_page by (simp add: disk_manager_ops_def)
  ultimately show ?thesis using r by blast
qed

theorem disk_AllocatePage_fresh_witness:
  "\<exists>d' p. disk_AllocatePage (DiskManager_open []) = Inr (d', p) \<and> disk_allocated d' = {p} \<and> wf_disk d'"
  using disk_AllocatePage_fresh [OF wf_open_empty(1,2)] wf_open_empty(3) by auto

text \<open>\<^verbatim>\<open>DeAllocatePage\<close> frees exactly the page it is given: the set of allocated pages loses it
  (and stays the same if it was not allocated, negative and out-of-range numbers included), no page's
  content changes and the disk manager stays consistent.\<close>

theorem disk_DeAllocatePage_exact:
  assumes "wf_disk d"
  shows "disk_allocated (disk_DeAllocatePage d p) = disk_allocated d - {p} \<and>
    (\<forall>q. disk_ok_id q \<longrightarrow> disk_ReadPage (disk_DeAllocatePage d p) q = disk_ReadPage d q) \<and>
    wf_disk (disk_DeAllocatePage d p)"
  using disk.dealloc_page [OF assms, of p] disk.read_page assms
  by (simp add: disk_manager_ops_def)

theorem disk_DeAllocatePage_exact_witness:
  "\<exists>d' p. disk_AllocatePage (DiskManager_open []) = Inr (d', p) \<and>
     disk_allocated (disk_DeAllocatePage d' p) = {}"
proof -
  obtain d' p where "disk_AllocatePage (DiskManager_open []) = Inr (d', p)" "wf_disk d'"
    "disk_allocated d' = {p}"
    using disk_alloc_room [OF wf_open_empty(1,2)] wf_open_empty(3) by metis
  with disk_DeAllocatePage_exact [of d' p] show ?thesis by auto
qed

text \<open>C18. What \<^verbatim>\<open>WritePage\<close> stores, \<^verbatim>\<open>ReadPage\<close> returns, and a write to one page is invisible in
  every other page, in the meta page (in memory and in the file), in every bitmap page and so in the allocation state.\<close>

theorem disk_write_read_roundtrip:
  assumes "wf_disk d" "disk_ok_id p" "disk_ok_id q" "length page_data = PAGE_SIZE"
  shows "\<exists>d'. disk_WritePage d p page_data = Inr d' \<and> wf_disk d' \<and>
    disk_ReadPage d' q = (if q = p then Inr page_data else disk_ReadPage d q) \<and>
    dm_meta d' = dm_meta d \<and>
    ReadPhysicalPage (dm_file d') META_PAGE_ID = ReadPhysicalPage (dm_file d) META_PAGE_ID \<and>
    (\<forall>e \<le> 16. ReadPhysicalPage (dm_file d') (bitmap_page_id (of_nat e)) = ReadPhysicalPage (dm_file d) (bitmap_page_id (of_nat e))) \<and>
    disk_allocated d' = disk_allocated d"
proof -
  obtain d' where 1: "disk_WritePage d p page_data = Inr d'" "wf_disk d'" "disk_content d' p = page_data"
    "\<forall>q. disk_ok_id q \<longrightarrow> q \<noteq> p \<longrightarrow> disk_content d' q = disk_content d q"
    "disk_allocated d' = disk_allocated d"
    using disk_write_effect [OF assms(1,2,4)] by metis
  have d': "d' = d\<lparr>dm_file := WritePhysicalPage (dm_file d) (MapPageId p) page_data\<rparr>"
    using 1(1) disk_ok_id_nonneg [OF assms(2)] by (simp add: disk_WritePage_def)
  note phys = disk_ok_id_phys [OF assms(2)]
  have other: "ReadPhysicalPage (dm_file d') k = ReadPhysicalPage (dm_file d) k"
    if "phys_ok k" "unat k \<noteq> map_nat (unat p)" for k
    using that ReadPhysicalPage_page_at [OF wf_diskD(2) [OF 1(2)] that(1)] ReadPhysicalPage_page_at [OF wf_diskD(2) [OF assms(1)] that(1)]
      page_at_write [OF phys_small [OF phys(3)] assms(4), of "dm_file d" "unat k"] by (simp add: d' phys(2))
  have "phys_ok META_PAGE_ID" "unat META_PAGE_ID \<noteq> map_nat (unat p)"
    by (simp_all add: phys_ok_def META_PAGE_ID_def PAGE_SIZE_def map_nat_def)
  note meta = other [OF this]
  have "ReadPhysicalPage (dm_file d') (bitmap_page_id (of_nat e)) = ReadPhysicalPage (dm_file d) (bitmap_page_id (of_nat e))"
    if "e \<le> 16" for e
    using map_nat_not_bitmap [of "unat p" e] by (intro other bitmap_phys(2) [OF that]) (simp add: bitmap_phys(1) [OF that])
  with 1 meta assms(1,3) disk.read_page [of _ q] show ?thesis
    by (auto simp: disk_manager_ops_def d')
qed

theorem disk_write_read_roundtrip_witness:
  "\<exists>d'. disk_WritePage (DiskManager_open []) 5 (replicate PAGE_SIZE 7) = Inr d' \<and>
    disk_ReadPage d' 5 = Inr (replicate PAGE_SIZE 7)"
proof -
  have ok: "disk_ok_id 5" by (simp add: disk_ok_id_def)
  have "length (replicate PAGE_SIZE (7 :: byte)) = PAGE_SIZE" by simp
  from disk_write_read_roundtrip [OF wf_open_empty(1) ok ok this] show ?thesis by auto
qed

text \<open>C19. Closing the disk manager and opening the file again restores the state: the allocated
  pages, every page's content and the meta page are the same as before.\<close>

theorem disk_reopen:
  assumes "wf_disk d"
  defines "d' \<equiv> DiskManager_open (dm_file (DiskManager_Close d))"
  shows "wf_disk d' \<and> dm_meta d' = dm_meta d \<and> disk_allocated d' = disk_allocated d \<and>
    (\<forall>q. disk_ok_id q \<longrightarrow> disk_ReadPage d' q = disk_ReadPage d q)"
proof -
  have phys0: "phys_ok META_PAGE_ID" "unat META_PAGE_ID * PAGE_SIZE + PAGE_SIZE < 2 ^ 31"
    by (simp_all add: phys_ok_def META_PAGE_ID_def PAGE_SIZE_def)
  note len = wf_diskD(1) [OF assms(1)]
  have fok: "file_ok (dm_file d')"
    using file_ok_write [OF wf_diskD(2) [OF assms(1)] phys0 len] wf_diskD(6) [OF assms(1)]
    by (simp add: d'_def DiskManager_open_def DiskManager_Close_def)
  have page: "page_at (dm_file d') n = (if n = 0 then dm_meta d else page_at (dm_file d) n)" for n
    using len wf_diskD(6) [OF assms(1)]
    by (simp add: d'_def DiskManager_open_def DiskManager_Close_def page_at_write META_PAGE_ID_def)
  have "dm_meta d' = ReadPhysicalPage (dm_file d') META_PAGE_ID"
    by (simp add: d'_def DiskManager_open_def)
  then have meta: "dm_meta d' = dm_meta d"
    using ReadPhysicalPage_page_at [OF fok phys0(1)] page [of 0] by (simp add: META_PAGE_ID_def)
  have bm: "disk_bitmap d' = disk_bitmap d" by (simp add: fun_eq_iff disk_bitmap_def page)
  have "disk_content d' q = disk_content d q" if "disk_ok_id q" for q
    using disk_ok_id_phys(2) [OF that] by (simp add: disk_content_def page map_nat_def)
  moreover have wf: "wf_disk d'"
    using assms(1) fok by (simp add: wf_disk_def bm meta disk_extents_def) (simp add: d'_def DiskManager_open_def)
  moreover have "disk_allocated d' = disk_allocated d"
    by (simp add: disk_allocated_def bm meta disk_extents_def)
  ultimately show ?thesis
    using meta disk.read_page [OF wf] disk.read_page [OF assms(1)] by (simp add: disk_manager_ops_def)
qed

theorem disk_reopen_witness:
  "disk_allocated (DiskManager_open (dm_file (DiskManager_Close (DiskManager_open [])))) = {}"
  using disk_reopen [OF wf_open_empty(1)] wf_open_empty(3) by simp

lemma take_drop_prefix: "n + k \<le> length xs \<Longrightarrow> take k (drop n (xs @ ys)) = take k (drop n xs)"
  by simp

text \<open>C20. The read offset is a 32-bit \<^verbatim>\<open>int\<close>: for every physical page from 524288 on (byte 2 GiB) the page written
  goes to its place in the file, but the read returns bytes that do not depend on it. So every page but
  one (a page of zeros, or the page 4 GiB before) reads back differently from what was written.\<close>

theorem read_offset_overflow:
  assumes "524288 \<le> unat p" "unat p < 2 ^ 31"
  shows "\<exists>other. \<forall>page_data. length page_data = PAGE_SIZE \<longrightarrow>
    page_at (WritePhysicalPage file p page_data) (unat p) = page_data \<and>
    ReadPhysicalPage (WritePhysicalPage file p page_data) p = other \<and>
    (page_data \<noteq> other \<longrightarrow> ReadPhysicalPage (WritePhysicalPage file p page_data) p \<noteq> page_data)"
proof -
  define off where "off = sint (p * of_nat PAGE_SIZE)"
  let ?pre = "take (unat p * PAGE_SIZE) file @ replicate (unat p * PAGE_SIZE - length file) 0"
  let ?n = "max (length file) (unat p * PAGE_SIZE + PAGE_SIZE)"
  let ?got = "if off < 0 then [] else take PAGE_SIZE (drop (nat off) ?pre)"
  let ?other = "if sint (of_nat ?n :: 32 word) \<le> off then zero_page else ?got @ replicate (PAGE_SIZE - length ?got) 0"
  have low: "nat off + PAGE_SIZE \<le> unat p * PAGE_SIZE" if "0 \<le> off"
  proof -
    have w: "unat (p * of_nat PAGE_SIZE :: 32 word) < 2 ^ 31"
      using that sint_neg_iff [of "p * of_nat PAGE_SIZE"] by (simp add: off_def)
    moreover from this have "off = int (unat (p * of_nat PAGE_SIZE :: 32 word))" by (simp add: off_def sint_small)
    moreover have "2 ^ 32 \<le> unat p * PAGE_SIZE"
    proof (rule ccontr)
      assume "\<not> 2 ^ 32 \<le> unat p * PAGE_SIZE"
      then have "unat (p * of_nat PAGE_SIZE :: 32 word) = unat p * PAGE_SIZE"
        by (subst unat_mult_small) (simp_all add: PAGE_SIZE_def)
      with w assms(1) show False by (simp add: PAGE_SIZE_def)
    qed
    ultimately show ?thesis by (simp add: PAGE_SIZE_def)
  qed
  have read: "ReadPhysicalPage (WritePhysicalPage file p page_data) p = ?other" if len: "length page_data = PAGE_SIZE" for page_data
  proof -
    let ?w = "WritePhysicalPage file p page_data"
    have w: "?w = ?pre @ page_data @ drop (unat p * PAGE_SIZE + PAGE_SIZE) file" "length ?pre = unat p * PAGE_SIZE"
      using assms(2) sint_neg_iff [of p] by (simp_all add: WritePhysicalPage_def Let_def)
    have "take PAGE_SIZE (drop (nat off) ?w) = take PAGE_SIZE (drop (nat off) ?pre)" if "0 \<le> off"
      unfolding w(1) by (rule take_drop_prefix) (use low [OF that] w(2) in simp)
    moreover have "GetFileSize ?w = sint (of_nat ?n :: 32 word)"
      using len assms(2) by (simp only: GetFileSize_def length_WritePhysicalPage)
    ultimately show ?thesis by (simp add: ReadPhysicalPage_def Let_def flip: off_def)
  qed
  show ?thesis
    by (rule exI [of _ ?other]) (use read page_at_write [OF assms(2)] in auto)
qed

theorem read_offset_overflow_witness:
  "\<exists>page_data. length page_data = PAGE_SIZE \<and>
     ReadPhysicalPage (WritePhysicalPage [] 1048577 page_data) 1048577 \<noteq> page_data"
proof -
  obtain other where o: "\<And>page_data. length page_data = PAGE_SIZE \<Longrightarrow> page_data \<noteq> other \<Longrightarrow>
      ReadPhysicalPage (WritePhysicalPage [] 1048577 page_data) 1048577 \<noteq> page_data"
    using read_offset_overflow [of 1048577 "[]"] by (auto simp del: One_nat_def) metis
  have "replicate PAGE_SIZE (7 :: byte) \<noteq> replicate PAGE_SIZE 8" by (simp add: PAGE_SIZE_def)
  then have "replicate PAGE_SIZE (7 :: byte) \<noteq> other \<or> replicate PAGE_SIZE (8 :: byte) \<noteq> other" by metis
  then show ?thesis using o [of "replicate PAGE_SIZE 7"] o [of "replicate PAGE_SIZE 8"] by force
qed

end
