(* ===== verification/Buffer_Pool.thy ===== *)
theory Buffer_Pool
  imports Lru_Replacer Clock_Replacer Disk_Manager
begin

text \<open>
  The buffer pool (\<^verbatim>\<open>src/include/buffer/buffer_pool_manager.h\<close>, \<^verbatim>\<open>src/buffer/buffer_pool_manager.cpp\<close>,
  \<^verbatim>\<open>src/include/page/page.h\<close>). The operations are written over the interfaces of the replacer and of
  the disk manager, as the code calls both through pointers; a \<^verbatim>\<open>Page *\<close> is the number of the frame
  it points to. The laws are proved once for every replacer and every page store, and then for the
  pool as the program builds it, with the LRU replacer and the disk manager.
\<close>

record Page =
  page_data :: "byte list"
  page_id :: page_id_t
  pin_count :: int
  is_dirty :: bool

definition Page_init :: Page where
  "Page_init = \<lparr>page_data = zero_page, page_id = INVALID_PAGE_ID, pin_count = 0, is_dirty = False\<rparr>"

definition GetLSN :: "Page \<Rightarrow> 32 word" where
  "GetLSN pg = rd32 (page_data pg) 4"

definition SetLSN :: "32 word \<Rightarrow> Page \<Rightarrow> Page" where
  "SetLSN lsn pg = pg\<lparr>page_data := wr32 (page_data pg) 4 lsn\<rparr>"

definition ResetMemory :: "Page \<Rightarrow> Page" where
  "ResetMemory pg = pg\<lparr>page_data := zero_page\<rparr>"

record ('r, 'd) bpm =
  pool_size :: nat
  pages :: "Page list"
  bpm_disk :: 'd
  page_table :: "page_id_t \<rightharpoonup> frame_id_t"
  bpm_replacer :: 'r
  free_list :: "frame_id_t list"

definition BufferPoolManager_init :: "(nat \<Rightarrow> 'r) \<Rightarrow> nat \<Rightarrow> 'd \<Rightarrow> ('r, 'd) bpm" where
  "BufferPoolManager_init new_replacer n d =
     \<lparr>pool_size = n, pages = replicate n Page_init, bpm_disk = d, page_table = Map.empty,
      bpm_replacer = new_replacer n, free_list = map int [0..<n]\<rparr>"

abbreviation frame :: "('r, 'd) bpm \<Rightarrow> frame_id_t \<Rightarrow> Page" where
  "frame b f \<equiv> pages b ! nat f"

definition upd_frame :: "frame_id_t \<Rightarrow> (Page \<Rightarrow> Page) \<Rightarrow> ('r, 'd) bpm \<Rightarrow> ('r, 'd) bpm" where
  "upd_frame f g b = b\<lparr>pages := (pages b)[nat f := g (frame b f)]\<rparr>"

definition TryToFindFreePage :: "'r replacer_ops \<Rightarrow> ('r, 'd) bpm \<Rightarrow> ('r, 'd) bpm \<times> frame_id_t" where
  "TryToFindFreePage rops b =
     (case free_list b of
        f # fs \<Rightarrow> (b\<lparr>free_list := fs\<rparr>, f)
      | [] \<Rightarrow>
          (case op_Victim rops (bpm_replacer b) of
             (r, Some f) \<Rightarrow> (b\<lparr>bpm_replacer := r\<rparr>, f)
           | (r, None) \<Rightarrow> (b\<lparr>bpm_replacer := r\<rparr>, INVALID_FRAME_ID)))"

text \<open>Writing a dirty victim back and dropping its mapping, as \<^verbatim>\<open>FetchPage\<close> and \<^verbatim>\<open>NewPage\<close> both do.\<close>

definition evict_frame :: "'d disk_ops \<Rightarrow> frame_id_t \<Rightarrow> ('r, 'd) bpm \<Rightarrow> ('r, 'd) bpm result" where
  "evict_frame dops f b =
     bind_result
       (if is_dirty (frame b f)
        then bind_result (op_WritePage dops (bpm_disk b) (page_id (frame b f)) (page_data (frame b f)))
               (\<lambda>d. Inr (upd_frame f (is_dirty_update (\<lambda>_. False)) (b\<lparr>bpm_disk := d\<rparr>)))
        else Inr b)
       (\<lambda>b. Inr (if page_id (frame b f) \<noteq> INVALID_PAGE_ID
                 then b\<lparr>page_table := (page_table b)(page_id (frame b f) := None)\<rparr> else b))"

definition FetchPage :: "'r replacer_ops \<Rightarrow> 'd disk_ops \<Rightarrow> page_id_t \<Rightarrow> ('r, 'd) bpm \<Rightarrow>
    (('r, 'd) bpm \<times> frame_id_t option) result" where
  "FetchPage rops dops p b =
     (case page_table b p of
        Some f \<Rightarrow>
          Inr ((upd_frame f (pin_count_update (\<lambda>c. c + 1)) b)
                 \<lparr>bpm_replacer := op_Pin rops f (bpm_replacer b)\<rparr>, Some f)
      | None \<Rightarrow>
          (let (b1, f) = TryToFindFreePage rops b
           in if f = INVALID_FRAME_ID then Inr (b1, None)
              else bind_result (evict_frame dops f b1) (\<lambda>b2.
                   bind_result (op_ReadPage dops (bpm_disk b2) p) (\<lambda>data.
                   Inr (upd_frame f
                          (\<lambda>pg. pg\<lparr>page_id := p, pin_count := 1, is_dirty := False, page_data := data\<rparr>)
                          (b2\<lparr>page_table := (page_table b2)(p \<mapsto> f)\<rparr>), Some f)))))"

definition bpm_AllocatePage :: "'d disk_ops \<Rightarrow> ('r, 'd) bpm \<Rightarrow> (('r, 'd) bpm \<times> page_id_t) result" where
  "bpm_AllocatePage dops b =
     bind_result (op_AllocatePage dops (bpm_disk b)) (\<lambda>(d, p). Inr (b\<lparr>bpm_disk := d\<rparr>, p))"

definition bpm_DeallocatePage :: "'d disk_ops \<Rightarrow> page_id_t \<Rightarrow> ('r, 'd) bpm \<Rightarrow> ('r, 'd) bpm" where
  "bpm_DeallocatePage dops p b = b\<lparr>bpm_disk := op_DeAllocatePage dops (bpm_disk b) p\<rparr>"

definition bpm_IsPageFree :: "'d disk_ops \<Rightarrow> page_id_t \<Rightarrow> ('r, 'd) bpm \<Rightarrow> bool" where
  "bpm_IsPageFree dops p b = op_IsPageFree dops (bpm_disk b) p"

definition NewPage :: "'r replacer_ops \<Rightarrow> 'd disk_ops \<Rightarrow> ('r, 'd) bpm \<Rightarrow>
    (('r, 'd) bpm \<times> (frame_id_t \<times> page_id_t) option) result" where
  "NewPage rops dops b =
     (let (b1, f) = TryToFindFreePage rops b
      in if f = INVALID_FRAME_ID then Inr (b1, None)
         else bind_result (evict_frame dops f b1) (\<lambda>b2.
              bind_result (bpm_AllocatePage dops b2) (\<lambda>(b3, p).
              let b4 = upd_frame f (\<lambda>pg. ResetMemory (pg\<lparr>page_id := p, pin_count := 1, is_dirty := False\<rparr>)) b3
              in Inr (b4\<lparr>page_table := (page_table b4)(p \<mapsto> f)\<rparr>, Some (f, p)))))"

definition DeletePage :: "'d disk_ops \<Rightarrow> page_id_t \<Rightarrow> ('r, 'd) bpm \<Rightarrow> ('r, 'd) bpm \<times> bool" where
  "DeletePage dops p b =
     (let b1 = bpm_DeallocatePage dops p b
      in case page_table b1 p of
           None \<Rightarrow> (b1, True)
         | Some f \<Rightarrow>
             if pin_count (frame b1 f) > 0 then (b1, False)
             else (let b2 = upd_frame f
                         (\<lambda>pg. ResetMemory (pg\<lparr>page_id := INVALID_PAGE_ID, pin_count := 0, is_dirty := False\<rparr>))
                         (b1\<lparr>page_table := (page_table b1)(p := None)\<rparr>)
                   in (b2\<lparr>free_list := free_list b2 @ [f]\<rparr>, True)))"

definition UnpinPage :: "'r replacer_ops \<Rightarrow> page_id_t \<Rightarrow> bool \<Rightarrow> ('r, 'd) bpm \<Rightarrow> ('r, 'd) bpm \<times> bool" where
  "UnpinPage rops p dirty b =
     (case page_table b p of
        None \<Rightarrow> (b, False)
      | Some f \<Rightarrow>
          if pin_count (frame b f) \<le> 0 then (b, False)
          else (let b1 = upd_frame f (pin_count_update (\<lambda>c. c - 1)) b;
                    b2 = (if dirty then upd_frame f (is_dirty_update (\<lambda>_. True)) b1 else b1);
                    b3 = (if pin_count (frame b2 f) = 0
                          then b2\<lparr>bpm_replacer := op_Unpin rops f (bpm_replacer b2)\<rparr> else b2)
                in (b3, True)))"

definition FlushPage :: "'d disk_ops \<Rightarrow> page_id_t \<Rightarrow> ('r, 'd) bpm \<Rightarrow> (('r, 'd) bpm \<times> bool) result" where
  "FlushPage dops p b =
     (case page_table b p of
        None \<Rightarrow> Inr (b, False)
      | Some f \<Rightarrow>
          bind_result (op_WritePage dops (bpm_disk b) p (page_data (frame b f))) (\<lambda>d.
          Inr (upd_frame f (is_dirty_update (\<lambda>_. False)) (b\<lparr>bpm_disk := d\<rparr>), True)))"

text \<open>The destructor flushes every mapped page, in the iteration order of the hash table, which is a
  parameter here.\<close>

primrec FlushAll :: "'d disk_ops \<Rightarrow> page_id_t list \<Rightarrow> ('r, 'd) bpm \<Rightarrow> ('r, 'd) bpm result" where
  "FlushAll dops [] b = Inr b"
| "FlushAll dops (p # ps) b = bind_result (FlushPage dops p b) (\<lambda>(b', _). FlushAll dops ps b')"

primrec all_unpinned :: "Page list \<Rightarrow> bool \<Rightarrow> bool" where
  "all_unpinned [] res = res"
| "all_unpinned (pg # pgs) res = all_unpinned pgs (if pin_count pg \<noteq> 0 then False else res)"

definition CheckAllUnpinned :: "('r, 'd) bpm \<Rightarrow> bool" where
  "CheckAllUnpinned b = all_unpinned (take (pool_size b) (pages b)) True"

text \<open>A client changes a page through the pointer it holds.\<close>

definition write_frame :: "frame_id_t \<Rightarrow> byte list \<Rightarrow> ('r, 'd) bpm \<Rightarrow> ('r, 'd) bpm" where
  "write_frame f data b = upd_frame f (page_data_update (\<lambda>_. data)) b"

section \<open>The invariant and the logical view\<close>

definition in_pool :: "('r, 'd) bpm \<Rightarrow> frame_id_t \<Rightarrow> bool" where
  "in_pool b f \<longleftrightarrow> 0 \<le> f \<and> f < int (pool_size b)"

text \<open>
  \<open>bpm_inv_but H\<close> is the invariant with the frames in \<open>H\<close> taken out of circulation, as the frame is
  that \<^verbatim>\<open>FetchPage\<close> and \<^verbatim>\<open>NewPage\<close> work on between finding and installing it.
\<close>

definition bpm_inv_but :: "frame_id_t set \<Rightarrow> ('r \<Rightarrow> frame_id_t set) \<Rightarrow> ('r \<Rightarrow> frame_id_t set) \<Rightarrow> ('r \<Rightarrow> bool) \<Rightarrow>
    ('d \<Rightarrow> page_id_t \<Rightarrow> byte list) \<Rightarrow> (page_id_t \<Rightarrow> bool) \<Rightarrow> ('d \<Rightarrow> bool) \<Rightarrow> ('r, 'd) bpm \<Rightarrow> bool" where
  "bpm_inv_but H evictable tracks rinv content ok_id dinv b \<longleftrightarrow>
     length (pages b) = pool_size b \<and> rinv (bpm_replacer b) \<and> dinv (bpm_disk b) \<and>
     distinct (free_list b) \<and>
     set (free_list b) = {f. in_pool b f \<and> f \<notin> H \<and> page_id (frame b f) = INVALID_PAGE_ID} \<and>
     evictable (bpm_replacer b) =
       {f. in_pool b f \<and> f \<notin> H \<and> page_id (frame b f) \<noteq> INVALID_PAGE_ID \<and> pin_count (frame b f) = 0} \<and>
     (\<forall>p f. page_table b p = Some f \<longleftrightarrow>
        in_pool b f \<and> f \<notin> H \<and> page_id (frame b f) = p \<and> p \<noteq> INVALID_PAGE_ID) \<and>
     (\<forall>f. in_pool b f \<longrightarrow> f \<in> tracks (bpm_replacer b) \<and>
        length (page_data (frame b f)) = PAGE_SIZE \<and>
        (f \<notin> H \<longrightarrow> 0 \<le> pin_count (frame b f) \<and>
          (page_id (frame b f) = INVALID_PAGE_ID \<longrightarrow> pin_count (frame b f) = 0 \<and> \<not> is_dirty (frame b f)) \<and>
          (page_id (frame b f) \<noteq> INVALID_PAGE_ID \<longrightarrow> ok_id (page_id (frame b f))) \<and>
          (page_id (frame b f) \<noteq> INVALID_PAGE_ID \<and> pin_count (frame b f) = 0 \<and> \<not> is_dirty (frame b f) \<longrightarrow>
             page_data (frame b f) = content (bpm_disk b) (page_id (frame b f)))))"

text \<open>What a reader of page \<open>p\<close> is entitled to see: the pooled copy, or else the page on disk.\<close>

definition bpm_view :: "('d \<Rightarrow> page_id_t \<Rightarrow> byte list) \<Rightarrow> ('r, 'd) bpm \<Rightarrow> page_id_t \<Rightarrow> byte list" where
  "bpm_view content b p =
     (case page_table b p of Some f \<Rightarrow> page_data (frame b f) | None \<Rightarrow> content (bpm_disk b) p)"

text \<open>The frames a client holds a pointer to, and that must therefore stay as they are.\<close>

definition pinned :: "('r, 'd) bpm \<Rightarrow> frame_id_t set" where
  "pinned b = {f. in_pool b f \<and> 0 < pin_count (frame b f)}"

lemma in_pool_index: "in_pool b f \<Longrightarrow> length (pages b) = pool_size b \<Longrightarrow> nat f < length (pages b)"
  by (auto simp: in_pool_def)

lemma in_pool_inj: "in_pool b f \<Longrightarrow> in_pool b g \<Longrightarrow> nat f = nat g \<longleftrightarrow> f = g"
  by (auto simp: in_pool_def)

lemma upd_frame_simps [simp]:
  "pool_size (upd_frame f h b) = pool_size b" "bpm_disk (upd_frame f h b) = bpm_disk b"
  "page_table (upd_frame f h b) = page_table b" "bpm_replacer (upd_frame f h b) = bpm_replacer b"
  "free_list (upd_frame f h b) = free_list b" "length (pages (upd_frame f h b)) = length (pages b)"
  by (simp_all add: upd_frame_def)

lemma frame_upd_frame:
  "in_pool b f \<Longrightarrow> in_pool b g \<Longrightarrow> length (pages b) = pool_size b \<Longrightarrow>
   frame (upd_frame f h b) g = (if f = g then h (frame b f) else frame b g)"
  using in_pool_index [of b f] in_pool_inj [of b f g] by (auto simp: upd_frame_def nth_list_update)

lemma in_pool_cong: "pool_size b = pool_size b' \<Longrightarrow> in_pool b f = in_pool b' f"
  by (simp add: in_pool_def)

lemma in_pool_simps [simp]:
  "in_pool (upd_frame f h b) = in_pool b" "in_pool (b\<lparr>bpm_disk := d\<rparr>) = in_pool b"
  "in_pool (b\<lparr>page_table := t\<rparr>) = in_pool b" "in_pool (b\<lparr>bpm_replacer := r\<rparr>) = in_pool b"
  "in_pool (b\<lparr>free_list := l\<rparr>) = in_pool b"
  by (auto simp: in_pool_def fun_eq_iff)

lemma Page_overwrite:
  "(pg :: Page)\<lparr>page_id := p, pin_count := c, is_dirty := dirty, page_data := data\<rparr> =
   \<lparr>page_data = data, page_id = p, pin_count = c, is_dirty = dirty\<rparr>"
  by (cases pg) simp

lemma Page_pin:
  "pin_count_update (\<lambda>c. c + 1) pg = (pg :: Page)\<lparr>pin_count := pin_count pg + 1\<rparr>"
  "pin_count_update (\<lambda>c. c - 1) pg = (pg :: Page)\<lparr>pin_count := pin_count pg - 1\<rparr>"
  by (cases pg; simp)+

lemma bpm_view_cong:
  assumes "page_table b' q = page_table b q"
    "\<And>g. page_table b q = Some g \<Longrightarrow> page_data (frame b' g) = page_data (frame b g)"
    "page_table b q = None \<Longrightarrow> content (bpm_disk b') q = content (bpm_disk b) q"
  shows "bpm_view content b' q = bpm_view content b q"
  using assms by (cases "page_table b q") (simp_all add: bpm_view_def)

section \<open>The laws, for every replacer and page store\<close>

locale buffer_pool = replacer rops evictable tracks rinv +
  page_store dops content allocated ok_id room dinv
  for rops :: "'r replacer_ops" and evictable tracks rinv
    and dops :: "'d disk_ops" and content allocated ok_id room dinv
begin

abbreviation "inv_but H \<equiv> bpm_inv_but H evictable tracks rinv content ok_id dinv"
abbreviation "bp_inv \<equiv> inv_but {}"
abbreviation "view \<equiv> bpm_view content"

lemma inv_butD:
  assumes "inv_but H b"
  shows "length (pages b) = pool_size b" "rinv (bpm_replacer b)" "dinv (bpm_disk b)"
    "distinct (free_list b)"
    "set (free_list b) = {f. in_pool b f \<and> f \<notin> H \<and> page_id (frame b f) = INVALID_PAGE_ID}"
    "evictable (bpm_replacer b) =
       {f. in_pool b f \<and> f \<notin> H \<and> page_id (frame b f) \<noteq> INVALID_PAGE_ID \<and> pin_count (frame b f) = 0}"
    "\<And>p f. page_table b p = Some f \<longleftrightarrow>
        in_pool b f \<and> f \<notin> H \<and> page_id (frame b f) = p \<and> p \<noteq> INVALID_PAGE_ID"
    "\<And>f. in_pool b f \<Longrightarrow> f \<in> tracks (bpm_replacer b)"
    "\<And>f. in_pool b f \<Longrightarrow> length (page_data (frame b f)) = PAGE_SIZE"
    "\<And>f. in_pool b f \<Longrightarrow> f \<notin> H \<Longrightarrow> 0 \<le> pin_count (frame b f)"
    "\<And>f. in_pool b f \<Longrightarrow> f \<notin> H \<Longrightarrow> page_id (frame b f) = INVALID_PAGE_ID \<Longrightarrow>
       pin_count (frame b f) = 0 \<and> \<not> is_dirty (frame b f)"
    "\<And>f. in_pool b f \<Longrightarrow> f \<notin> H \<Longrightarrow> page_id (frame b f) \<noteq> INVALID_PAGE_ID \<Longrightarrow>
       ok_id (page_id (frame b f))"
    "\<And>f. in_pool b f \<Longrightarrow> f \<notin> H \<Longrightarrow> page_id (frame b f) \<noteq> INVALID_PAGE_ID \<Longrightarrow>
       pin_count (frame b f) = 0 \<Longrightarrow> \<not> is_dirty (frame b f) \<Longrightarrow>
       page_data (frame b f) = content (bpm_disk b) (page_id (frame b f))"
  using assms by (simp_all add: bpm_inv_but_def)

text \<open>Finding a frame: an unpinned one, unless every frame is pinned.\<close>

lemma TryToFindFreePage_cases [consumes 1, case_names Full Found]:
  assumes inv: "bp_inv b"
  obtains "TryToFindFreePage rops b = (b, INVALID_FRAME_ID)" "\<And>f. in_pool b f \<Longrightarrow> f \<in> pinned b"
  | fs r f where "TryToFindFreePage rops b = (b\<lparr>free_list := fs, bpm_replacer := r\<rparr>, f)"
      "in_pool b f" "f \<noteq> INVALID_FRAME_ID" "pin_count (frame b f) = 0"
      "distinct fs" "set fs = set (free_list b) - {f}" "rinv r" "tracks r = tracks (bpm_replacer b)"
      "evictable r = evictable (bpm_replacer b) - {f}"
proof (cases "free_list b")
  case (Cons f fs)
  note I = inv_butD [OF inv]
  have f: "in_pool b f" "page_id (frame b f) = INVALID_PAGE_ID" using I(5) Cons by auto
  moreover have "f \<notin> evictable (bpm_replacer b)" using I(6) f by auto
  moreover have "TryToFindFreePage rops b = (b\<lparr>free_list := fs, bpm_replacer := bpm_replacer b\<rparr>, f)"
    using Cons by (simp add: TryToFindFreePage_def)
  moreover have "f \<noteq> INVALID_FRAME_ID" using f by (auto simp: in_pool_def INVALID_FRAME_ID_def)
  ultimately show thesis using that(2) [of "bpm_replacer b" fs f] I(2,4) I(11) [of f] Cons by auto
next
  case Nil
  note I = inv_butD [OF inv]
  from I(2) show thesis
  proof (cases rule: victim_cases)
    case Empty
    have "f \<in> pinned b" if "in_pool b f" for f
      using I(5,6) Nil Empty I(10) [of f] that by (force simp: pinned_def)
    with Empty that(1) Nil show thesis by (simp add: TryToFindFreePage_def)
  next
    case (Victim r f)
    then have "in_pool b f" "pin_count (frame b f) = 0" using I(6) by auto
    moreover have "f \<noteq> INVALID_FRAME_ID"
      using calculation by (auto simp: in_pool_def INVALID_FRAME_ID_def)
    ultimately show thesis
      using that(2) [of r "[]" f] Victim Nil by (simp add: TryToFindFreePage_def)
  qed
qed

text \<open>Evicting it loses nothing: its page is on disk afterwards, and no other page changed.\<close>

lemma evict_frame_hole:
  assumes inv: "bp_inv b" and f: "in_pool b f" "pin_count (frame b f) = 0"
    and fs: "distinct fs" "set fs = set (free_list b) - {f}"
    and r: "rinv r" "tracks r = tracks (bpm_replacer b)" "evictable r = evictable (bpm_replacer b) - {f}"
  defines "b1 \<equiv> b\<lparr>free_list := fs, bpm_replacer := r\<rparr>"
  obtains b2 where "evict_frame dops f b1 = Inr b2" "inv_but {f} b2"
    "\<And>q. ok_id q \<Longrightarrow> view b2 q = view b q" "\<And>g. in_pool b g \<Longrightarrow> g \<noteq> f \<Longrightarrow> frame b2 g = frame b g"
    "pool_size b2 = pool_size b" "room (bpm_disk b2) = room (bpm_disk b)"
    "allocated (bpm_disk b2) = allocated (bpm_disk b)"
    "\<And>q. page_table b2 q = (if page_table b q = Some f then None else page_table b q)"
    "\<And>g. in_pool b g \<Longrightarrow> g \<noteq> f \<Longrightarrow> page_id (frame b g) \<noteq> INVALID_PAGE_ID \<Longrightarrow>
       content (bpm_disk b2) (page_id (frame b g)) = content (bpm_disk b) (page_id (frame b g))"
proof -
  note I = inv_butD [OF inv, simplified]
  let ?p = "page_id (frame b f)"
  define t where "t = (if ?p \<noteq> INVALID_PAGE_ID then (page_table b)(?p := None) else page_table b)"
  have t: "t q = (if page_table b q = Some f then None else page_table b q)" for q
    using I(7) f(1) by (auto simp: t_def)
  have clean_view: "view (b2::('r,'d) bpm) q = view b q"
    if "ok_id q" "page_table b2 = t" "\<And>g. in_pool b g \<Longrightarrow> g \<noteq> f \<Longrightarrow> frame b2 g = frame b g"
      "\<And>q. ok_id q \<Longrightarrow> q \<noteq> ?p \<Longrightarrow> content (bpm_disk b2) q = content (bpm_disk b) q"
      "?p \<noteq> INVALID_PAGE_ID \<Longrightarrow> content (bpm_disk b2) ?p = page_data (frame b f)"
      "\<And>q. ?p = INVALID_PAGE_ID \<Longrightarrow> content (bpm_disk b2) q = content (bpm_disk b) q" for b2 q
  proof (cases "page_table b q")
    case None
    then have "q \<noteq> ?p \<or> ?p = INVALID_PAGE_ID" using I(7) [of ?p f] f(1) by auto
    then show ?thesis using None that t [of q] by (auto simp: bpm_view_def)
  next
    case (Some g)
    then show ?thesis using that t [of q] I(7) [of q g] by (auto simp: bpm_view_def)
  qed
  have tab: "\<forall>q g. t q = Some g \<longleftrightarrow> in_pool b g \<and> g \<noteq> f \<and> page_id (frame b g) = q \<and> q \<noteq> INVALID_PAGE_ID"
  proof (intro allI)
    fix q g
    show "t q = Some g \<longleftrightarrow> in_pool b g \<and> g \<noteq> f \<and> page_id (frame b g) = q \<and> q \<noteq> INVALID_PAGE_ID"
      unfolding t using I(7) [of q g] I(7) [of q f] by auto
  qed
  have hole: "inv_but {f} b2" if "pool_size b2 = pool_size b" "length (pages b2) = length (pages b)"
     "page_table b2 = t" "free_list b2 = fs" "bpm_replacer b2 = r" "dinv (bpm_disk b2)"
     "\<And>g. in_pool b g \<Longrightarrow> g \<noteq> f \<Longrightarrow> frame b2 g = frame b g" "page_data (frame b2 f) = page_data (frame b f)"
     "\<And>g. in_pool b g \<Longrightarrow> g \<noteq> f \<Longrightarrow> page_id (frame b g) \<noteq> INVALID_PAGE_ID \<Longrightarrow>
        content (bpm_disk b2) (page_id (frame b g)) = content (bpm_disk b) (page_id (frame b g))"
    for b2 :: "('r, 'd) bpm"
  proof -
    have pool: "in_pool b2 = in_pool b" using that(1) by (auto simp: in_pool_def fun_eq_iff)
    have "set fs = {g. in_pool b g \<and> g \<noteq> f \<and> page_id (frame b2 g) = INVALID_PAGE_ID}"
      by (auto simp add: fs(2) I(5) that(7) cong: conj_cong)
    moreover have "evictable r = {g. in_pool b g \<and> g \<noteq> f \<and> page_id (frame b2 g) \<noteq> INVALID_PAGE_ID \<and>
        pin_count (frame b2 g) = 0}"
      by (auto simp add: r(3) I(6) that(7) cong: conj_cong)
    moreover have "\<forall>q g. t q = Some g \<longleftrightarrow>
        in_pool b g \<and> g \<noteq> f \<and> page_id (frame b2 g) = q \<and> q \<noteq> INVALID_PAGE_ID"
      using tab by (simp add: that(7) cong: conj_cong)
    moreover have "length (page_data (frame b2 g)) = PAGE_SIZE" if "in_pool b g" for g
      using I(9) that \<open>page_data (frame b2 f) = page_data (frame b f)\<close>
        \<open>\<And>g. in_pool b g \<Longrightarrow> g \<noteq> f \<Longrightarrow> frame b2 g = frame b g\<close> by (cases "g = f") simp_all
    ultimately show ?thesis
      unfolding bpm_inv_but_def pool using that I(1) I(8,10-13) r(1,2) fs(1) by simp
  qed
  show thesis
  proof (cases "is_dirty (frame b f)")
    case False
    have ev: "evict_frame dops f b1 = Inr (b\<lparr>free_list := fs, bpm_replacer := r, page_table := t\<rparr>)"
      using False by (simp add: evict_frame_def b1_def t_def bind_result_def)
    show thesis
    proof (rule that [OF ev])
      show "inv_but {f} (b\<lparr>free_list := fs, bpm_replacer := r, page_table := t\<rparr>)"
        by (rule hole) (simp_all add: I(3))
    qed (use clean_view [of _ "b\<lparr>free_list := fs, bpm_replacer := r, page_table := t\<rparr>"] I(13) f False t in auto)
  next
    case True
    then have p: "?p \<noteq> INVALID_PAGE_ID" "ok_id ?p" using I(11,12) f by blast+
    obtain d where d: "op_WritePage dops (bpm_disk b) ?p (page_data (frame b f)) = Inr d" "dinv d"
      "content d ?p = page_data (frame b f)" "\<forall>q. ok_id q \<longrightarrow> q \<noteq> ?p \<longrightarrow> content d q = content (bpm_disk b) q"
      "allocated d = allocated (bpm_disk b)" "room d = room (bpm_disk b)"
      using write_page [OF I(3) p(2) I(9) [OF f(1)]] by blast
    define b2 where "b2 = (upd_frame f (is_dirty_update (\<lambda>_. False)) (b1\<lparr>bpm_disk := d\<rparr>))\<lparr>page_table := t\<rparr>"
    have fr: "in_pool b g \<Longrightarrow> frame b2 g = (if g = f then (frame b f)\<lparr>is_dirty := False\<rparr> else frame b g)" for g
      using frame_upd_frame [of "b1\<lparr>bpm_disk := d\<rparr>" f g "is_dirty_update (\<lambda>_. False)"] f I(1)
      by (auto simp: b2_def b1_def in_pool_def)
    have ev: "evict_frame dops f b1 = Inr b2"
      using True d(1) p fr [OF f(1)]
      by (simp add: evict_frame_def b1_def b2_def t_def bind_result_def)
    have b2: "pool_size b2 = pool_size b" "length (pages b2) = length (pages b)" "page_table b2 = t"
      "free_list b2 = fs" "bpm_replacer b2 = r" "bpm_disk b2 = d" by (simp_all add: b2_def b1_def)
    have other: "page_id (frame b g) \<noteq> ?p" if "in_pool b g" "g \<noteq> f" for g
      using I(7) [of ?p f] I(7) [of ?p g] that f p by auto
    show thesis
    proof (rule that [OF ev])
      show "inv_but {f} b2" by (rule hole) (use b2 fr f d(2,4) other I(12) in auto)
    qed (use clean_view [of _ b2] b2 fr d(3-6) p t other I(12) in auto)
  qed
qed

abbreviation "bp_ok b \<equiv> bp_inv b \<and> dom (page_table b) \<subseteq> allocated (bpm_disk b)"

lemma inv_but_disk:
  assumes "inv_but H b" "dinv d" "\<And>q. ok_id q \<Longrightarrow> content d q = content (bpm_disk b) q"
  shows "inv_but H (b\<lparr>bpm_disk := d\<rparr>)"
  using assms unfolding bpm_inv_but_def by simp

text \<open>Installing a page in the frame that was taken out restores the invariant.\<close>

lemma install_frame:
  assumes inv: "inv_but {f} b" and f: "in_pool b f" and p: "ok_id p" "page_table b p = None"
    and data: "length data = PAGE_SIZE"
  defines "b' \<equiv> (upd_frame f (\<lambda>_. \<lparr>page_data = data, page_id = p, pin_count = 1, is_dirty = False\<rparr>) b)
    \<lparr>page_table := (page_table b)(p \<mapsto> f)\<rparr>"
  shows "bp_inv b'" "frame b' f = \<lparr>page_data = data, page_id = p, pin_count = 1, is_dirty = False\<rparr>"
    "\<And>g. in_pool b g \<Longrightarrow> g \<noteq> f \<Longrightarrow> frame b' g = frame b g"
    "\<And>q. q \<noteq> p \<Longrightarrow> view b' q = view b q" "view b' p = data" "in_pool b' = in_pool b"
proof -
  note I = inv_butD [OF inv]
  have fr: "in_pool b g \<Longrightarrow> frame b' g = (if f = g then
      \<lparr>page_data = data, page_id = p, pin_count = 1, is_dirty = False\<rparr> else frame b g)" for g
    using frame_upd_frame [OF f _ I(1)] by (simp add: b'_def)
  then show "frame b' f = \<lparr>page_data = data, page_id = p, pin_count = 1, is_dirty = False\<rparr>"
    "\<And>g. in_pool b g \<Longrightarrow> g \<noteq> f \<Longrightarrow> frame b' g = frame b g" using f by simp_all
  show pool: "in_pool b' = in_pool b" by (simp add: b'_def)
  have b': "length (pages b') = pool_size b'" "bpm_replacer b' = bpm_replacer b" "bpm_disk b' = bpm_disk b"
    "free_list b' = free_list b" "page_table b' = (page_table b)(p \<mapsto> f)"
    using I(1) by (simp_all add: b'_def)
  have valid: "p \<noteq> INVALID_PAGE_ID" by (rule ok_id_valid [OF p(1)])
  have tab: "page_table b' q = Some g \<longleftrightarrow>
      in_pool b g \<and> page_id (frame b' g) = q \<and> q \<noteq> INVALID_PAGE_ID" for q g
    using I(7) [of q g] I(7) [of p g] p(2) valid f fr [of g] fr [of f]
    by (cases "f = g"; cases "q = p") (auto simp: b')
  have free: "set (free_list b) = {g. in_pool b g \<and> page_id (frame b' g) = INVALID_PAGE_ID}"
    using valid by (auto simp add: I(5) fr cong: conj_cong)
  have evic: "evictable (bpm_replacer b) =
      {g. in_pool b g \<and> page_id (frame b' g) \<noteq> INVALID_PAGE_ID \<and> pin_count (frame b' g) = 0}"
    by (auto simp add: I(6) fr cong: conj_cong)
  show "bp_inv b'"
    unfolding bpm_inv_but_def pool b'
    using tab [unfolded b'] free evic fr I(1-4) I(8-13) p(1) data b'(1) valid by auto
  show "\<And>q. q \<noteq> p \<Longrightarrow> view b' q = view b q"
  proof -
    fix q assume "q \<noteq> p"
    then show "view b' q = view b q"
      by (intro bpm_view_cong) (use fr I(7) in \<open>auto simp: b'\<close>)
  qed
  show "view b' p = data" using fr [OF f] by (simp add: bpm_view_def b')
qed

text \<open>Changing the frame of a resident page, with the replacer and the disk following suit.\<close>

lemma touch_frame:
  assumes inv: "bp_inv b" and hit: "page_table b p = Some f"
    and h: "page_id (h (frame b f)) = p" "length (page_data (h (frame b f))) = PAGE_SIZE"
      "0 \<le> pin_count (h (frame b f))"
    and r: "rinv r" "tracks r = tracks (bpm_replacer b)"
      "evictable r = (if pin_count (h (frame b f)) = 0 then insert f (evictable (bpm_replacer b))
         else evictable (bpm_replacer b) - {f})"
    and d: "dinv d" "\<And>q. ok_id q \<Longrightarrow> q \<noteq> p \<Longrightarrow> content d q = content (bpm_disk b) q"
    and clean: "pin_count (h (frame b f)) = 0 \<Longrightarrow> \<not> is_dirty (h (frame b f)) \<Longrightarrow>
      page_data (h (frame b f)) = content d p"
  defines "b' \<equiv> (upd_frame f h b)\<lparr>bpm_replacer := r, bpm_disk := d\<rparr>"
  shows "bp_inv b'" "in_pool b f" "frame b' f = h (frame b f)"
    "\<And>g. in_pool b g \<Longrightarrow> g \<noteq> f \<Longrightarrow> frame b' g = frame b g"
    "\<And>q. ok_id q \<Longrightarrow> view b' q = (if q = p then page_data (h (frame b f)) else view b q)"
proof -
  note I = inv_butD [OF inv, simplified]
  show f: "in_pool b f" using hit I(7) by auto
  have p: "page_id (frame b f) = p" "p \<noteq> INVALID_PAGE_ID" using hit I(7) by auto
  have fr: "in_pool b g \<Longrightarrow> frame b' g = (if f = g then h (frame b f) else frame b g)" for g
    using frame_upd_frame [OF f _ I(1)] by (simp add: b'_def)
  then show "frame b' f = h (frame b f)" "\<And>g. in_pool b g \<Longrightarrow> g \<noteq> f \<Longrightarrow> frame b' g = frame b g"
    using f by simp_all
  have b': "length (pages b') = pool_size b'" "bpm_replacer b' = r" "bpm_disk b' = d"
    "free_list b' = free_list b" "page_table b' = page_table b" "in_pool b' = in_pool b"
    using I(1) by (simp_all add: b'_def)
  have tab: "page_table b q = Some g \<longleftrightarrow>
      in_pool b g \<and> page_id (frame b' g) = q \<and> q \<noteq> INVALID_PAGE_ID" for q g
    using I(7) [of q g] fr [of g] h(1) p by (cases "f = g") auto
  have free: "set (free_list b) = {g. in_pool b g \<and> page_id (frame b' g) = INVALID_PAGE_ID}"
    using h(1) p by (auto simp add: I(5) fr cong: conj_cong)
  have evic: "evictable r =
      {g. in_pool b g \<and> page_id (frame b' g) \<noteq> INVALID_PAGE_ID \<and> pin_count (frame b' g) = 0}"
    using h(1) p f by (auto simp add: r(3) I(6) fr cong: conj_cong)
  have other: "page_id (frame b g) \<noteq> p" if "in_pool b g" "g \<noteq> f" for g
    using I(7) [of p f] I(7) [of p g] that f p by auto
  have ok: "ok_id p" using I(12) [OF f] p by simp
  show "bp_inv b'"
    unfolding bpm_inv_but_def b'
    using tab free evic fr I(1-4) I(8-13) h r(1,2) d clean p other f b'(1) ok by auto
  show "view b' q = (if q = p then page_data (h (frame b f)) else view b q)" if "ok_id q" for q
  proof (cases "q = p")
    case True
    then show ?thesis using hit fr [OF f] by (simp add: bpm_view_def b')
  next
    case False
    then have "view b' q = view b q"
      by (intro bpm_view_cong) (use fr I(7) d(2) that p in \<open>auto simp: b'\<close>)
    with False show ?thesis by simp
  qed
qed

lemma resident:
  assumes "bp_inv b" "page_table b p = Some f"
  shows "in_pool b f" "page_id (frame b f) = p" "p \<noteq> INVALID_PAGE_ID" "ok_id p"
    "length (page_data (frame b f)) = PAGE_SIZE" "f \<in> tracks (bpm_replacer b)" "0 \<le> pin_count (frame b f)"
    "f \<in> evictable (bpm_replacer b) \<longleftrightarrow> pin_count (frame b f) = 0"
  using inv_butD [OF assms(1), simplified] assms(2) by auto

lemma FetchPage_hit:
  assumes inv: "bp_inv b" and hit: "page_table b p = Some f"
  obtains b' where "FetchPage rops dops p b = Inr (b', Some f)" "bp_inv b'" "page_table b' = page_table b"
    "bpm_disk b' = bpm_disk b" "pool_size b' = pool_size b" "in_pool b f"
    "frame b' f = (frame b f)\<lparr>pin_count := pin_count (frame b f) + 1\<rparr>"
    "\<And>g. in_pool b g \<Longrightarrow> g \<noteq> f \<Longrightarrow> frame b' g = frame b g" "\<And>q. ok_id q \<Longrightarrow> view b' q = view b q"
proof -
  note R = resident [OF inv hit] and I = inv_butD(2,3) [OF inv]
  let ?h = "pin_count_update (\<lambda>c. c + 1)"
  let ?r = "op_Pin rops f (bpm_replacer b)"
  let ?b' = "(upd_frame f ?h b)\<lparr>bpm_replacer := ?r, bpm_disk := bpm_disk b\<rparr>"
  have T: "bp_inv ?b'" "frame ?b' f = ?h (frame b f)" "\<And>g. in_pool b g \<Longrightarrow> g \<noteq> f \<Longrightarrow> frame ?b' g = frame b g"
    "\<And>q. ok_id q \<Longrightarrow> view ?b' q = (if q = p then page_data (?h (frame b f)) else view b q)"
    using R I by (intro touch_frame [OF inv hit]; simp add: pin_inv pin_tracks pin_evictable)+
  have "FetchPage rops dops p b = Inr (?b', Some f)" by (simp add: FetchPage_def hit)
  moreover have "view b p = page_data (frame b f)" using hit by (simp add: bpm_view_def)
  ultimately show thesis using that [of ?b'] T R(1) by (simp add: Page_pin)
qed

lemma FetchPage_miss:
  assumes inv: "bp_inv b" and miss: "page_table b p = None" and p: "ok_id p"
  obtains "FetchPage rops dops p b = Inr (b, None)" "\<And>f. in_pool b f \<Longrightarrow> f \<in> pinned b"
  | b' f where "FetchPage rops dops p b = Inr (b', Some f)" "bp_inv b'" "in_pool b f" "f \<notin> pinned b"
      "pool_size b' = pool_size b" "dom (page_table b') \<subseteq> insert p (dom (page_table b))"
      "page_table b' p = Some f" "pin_count (frame b' f) = 1" "page_data (frame b' f) = view b p"
      "\<And>g. in_pool b g \<Longrightarrow> g \<noteq> f \<Longrightarrow> frame b' g = frame b g" "\<And>q. ok_id q \<Longrightarrow> view b' q = view b q"
      "allocated (bpm_disk b') = allocated (bpm_disk b)" "room (bpm_disk b') = room (bpm_disk b)"
      "\<not> is_dirty (frame b' f)" "content (bpm_disk b') p = view b p"
    "\<And>g. in_pool b g \<Longrightarrow> g \<noteq> f \<Longrightarrow> page_id (frame b g) \<noteq> INVALID_PAGE_ID \<Longrightarrow>
       content (bpm_disk b') (page_id (frame b g)) = content (bpm_disk b) (page_id (frame b g))"
      "\<And>q. q \<noteq> p \<Longrightarrow> page_table b' q = (if page_table b q = Some f then None else page_table b q)"
  using inv
proof (cases rule: TryToFindFreePage_cases)
  case Full
  with that(1) miss show thesis by (simp add: FetchPage_def)
next
  case (Found fs r f)
  obtain b2 where b2: "evict_frame dops f (b\<lparr>free_list := fs, bpm_replacer := r\<rparr>) = Inr b2" "inv_but {f} b2"
    "\<And>q. ok_id q \<Longrightarrow> view b2 q = view b q" "\<And>g. in_pool b g \<Longrightarrow> g \<noteq> f \<Longrightarrow> frame b2 g = frame b g"
    "pool_size b2 = pool_size b" "room (bpm_disk b2) = room (bpm_disk b)"
    "allocated (bpm_disk b2) = allocated (bpm_disk b)"
    "\<And>q. page_table b2 q = (if page_table b q = Some f then None else page_table b q)"
    "\<And>g. in_pool b g \<Longrightarrow> g \<noteq> f \<Longrightarrow> page_id (frame b g) \<noteq> INVALID_PAGE_ID \<Longrightarrow>
       content (bpm_disk b2) (page_id (frame b g)) = content (bpm_disk b) (page_id (frame b g))"
    using evict_frame_hole [OF inv Found(2,4,5,6,7,8,9)] by blast
  have none: "page_table b2 p = None" using b2(8) miss by simp
  have pool: "in_pool b2 = in_pool b" using b2(5) by (auto simp: in_pool_def fun_eq_iff)
  have "dinv (bpm_disk b2)" using b2(2) by (rule inv_butD)
  note rd = read_page [OF this p] and len = length_content [OF this, of p]
  let ?b' = "(upd_frame f (\<lambda>_. \<lparr>page_data = content (bpm_disk b2) p, page_id = p, pin_count = 1,
      is_dirty = False\<rparr>) b2)\<lparr>page_table := (page_table b2)(p \<mapsto> f)\<rparr>"
  have "FetchPage rops dops p b = Inr (?b', Some f)"
    using Found(1,3) b2(1) rd miss
    by (simp add: FetchPage_def bind_result_def upd_frame_def Page_overwrite)
  moreover note inst = install_frame [OF b2(2) Found(2) [folded pool] p none len]
  moreover have "content (bpm_disk b2) p = view b p"
    using b2(3) [OF p] none by (simp add: bpm_view_def)
  moreover have "view ?b' q = view b q" if "ok_id q" for q
    using inst(4,5) b2(3) that calculation(8) by (cases "q = p") auto
  ultimately show thesis
    using that(2) [of ?b' f] Found(2,4) b2(4-9) pool by (force simp: pinned_def split: if_splits)
qed

lemma FetchPage_law:
  assumes ok: "bp_ok b" and p: "ok_id p" "p \<in> allocated (bpm_disk b)"
  obtains "FetchPage rops dops p b = Inr (b, None)" "page_table b p = None" "\<And>f. in_pool b f \<Longrightarrow> f \<in> pinned b"
  | b' f where "FetchPage rops dops p b = Inr (b', Some f)" "bp_ok b'" "page_table b' p = Some f" "f \<in> pinned b'"
      "pool_size b' = pool_size b"
      "page_data (frame b' f) = view b p" "\<And>g. g \<in> pinned b \<Longrightarrow> g \<noteq> f \<Longrightarrow> frame b' g = frame b g"
      "\<And>q. ok_id q \<Longrightarrow> view b' q = view b q" "room (bpm_disk b') = room (bpm_disk b)"
      "allocated (bpm_disk b') = allocated (bpm_disk b)"
proof (cases "page_table b p")
  case None
  from ok have inv: "bp_inv b" by simp
  show thesis
  proof (rule FetchPage_miss [OF inv None p(1)])
    fix b' f
    assume 1: "FetchPage rops dops p b = Inr (b', Some f)" "bp_inv b'" "in_pool b f" "f \<notin> pinned b"
      "pool_size b' = pool_size b" "dom (page_table b') \<subseteq> insert p (dom (page_table b))"
      "page_table b' p = Some f" "pin_count (frame b' f) = 1" "page_data (frame b' f) = view b p"
      "\<And>g. in_pool b g \<Longrightarrow> g \<noteq> f \<Longrightarrow> frame b' g = frame b g" "\<And>q. ok_id q \<Longrightarrow> view b' q = view b q"
      "allocated (bpm_disk b') = allocated (bpm_disk b)" "room (bpm_disk b') = room (bpm_disk b)"
    have "f \<in> pinned b'" using 1(3,5,8) by (simp add: pinned_def in_pool_def)
    moreover have "dom (page_table b') \<subseteq> allocated (bpm_disk b')" using 1(6,12) ok p(2) by auto
    ultimately show thesis using that(2) [of b' f] 1 by (auto simp: pinned_def)
  qed (use that(1) None in auto)
next
  case (Some f)
  from ok have inv: "bp_inv b" by simp
  obtain b' where 1: "FetchPage rops dops p b = Inr (b', Some f)" "bp_inv b'" "page_table b' = page_table b"
    "bpm_disk b' = bpm_disk b" "pool_size b' = pool_size b" "in_pool b f"
    "frame b' f = (frame b f)\<lparr>pin_count := pin_count (frame b f) + 1\<rparr>"
    "\<And>g. in_pool b g \<Longrightarrow> g \<noteq> f \<Longrightarrow> frame b' g = frame b g" "\<And>q. ok_id q \<Longrightarrow> view b' q = view b q"
    using FetchPage_hit [OF inv Some] by blast
  have "f \<in> pinned b'" using 1(5-7) inv_butD(10) [OF inv 1(6)] by (simp add: pinned_def in_pool_def)
  moreover have "page_data (frame b' f) = view b p" using 1(7) Some by (simp add: bpm_view_def)
  ultimately show thesis using that(2) [of b' f] 1 ok Some by (auto simp: pinned_def)
qed

lemma NewPage_law:
  assumes ok: "bp_ok b" and room: "room (bpm_disk b)"
  obtains "NewPage rops dops b = Inr (b, None)" "\<And>f. in_pool b f \<Longrightarrow> f \<in> pinned b"
  | b' f p where "NewPage rops dops b = Inr (b', Some (f, p))" "bp_ok b'" "page_table b' p = Some f"
      "ok_id p" "p \<notin> allocated (bpm_disk b)" "allocated (bpm_disk b') = insert p (allocated (bpm_disk b))"
      "f \<in> pinned b'" "f \<notin> pinned b" "pool_size b' = pool_size b" "page_data (frame b' f) = zero_page" "pin_count (frame b' f) = 1"
      "\<And>g. g \<in> pinned b \<Longrightarrow> frame b' g = frame b g"
      "\<And>q. ok_id q \<Longrightarrow> q \<noteq> p \<Longrightarrow> view b' q = view b q"
      "\<And>g. in_pool b g \<Longrightarrow> g \<noteq> f \<Longrightarrow> frame b' g = frame b g"
    "\<And>g. in_pool b g \<Longrightarrow> g \<noteq> f \<Longrightarrow> page_id (frame b g) \<noteq> INVALID_PAGE_ID \<Longrightarrow>
       content (bpm_disk b') (page_id (frame b g)) = content (bpm_disk b) (page_id (frame b g))"
      "\<And>q. q \<noteq> p \<Longrightarrow> page_table b' q = (if page_table b q = Some f then None else page_table b q)"
  using conjunct1 [OF ok]
proof (cases rule: TryToFindFreePage_cases)
  case Full
  with that(1) show thesis by (simp add: NewPage_def)
next
  case (Found fs r f)
  note inv = conjunct1 [OF ok]
  obtain b2 where b2: "evict_frame dops f (b\<lparr>free_list := fs, bpm_replacer := r\<rparr>) = Inr b2" "inv_but {f} b2"
    "\<And>q. ok_id q \<Longrightarrow> view b2 q = view b q" "\<And>g. in_pool b g \<Longrightarrow> g \<noteq> f \<Longrightarrow> frame b2 g = frame b g"
    "pool_size b2 = pool_size b" "room (bpm_disk b2) = room (bpm_disk b)"
    "allocated (bpm_disk b2) = allocated (bpm_disk b)"
    "\<And>q. page_table b2 q = (if page_table b q = Some f then None else page_table b q)"
    "\<And>g. in_pool b g \<Longrightarrow> g \<noteq> f \<Longrightarrow> page_id (frame b g) \<noteq> INVALID_PAGE_ID \<Longrightarrow>
       content (bpm_disk b2) (page_id (frame b g)) = content (bpm_disk b) (page_id (frame b g))"
    using evict_frame_hole [OF inv Found(2,4,5,6,7,8,9)] by blast
  have "dinv (bpm_disk b2)" using b2(2) by (rule inv_butD)
  then obtain d p where d: "op_AllocatePage dops (bpm_disk b2) = Inr (d, p)" "dinv d" "ok_id p"
    "p \<notin> allocated (bpm_disk b)" "allocated d = insert p (allocated (bpm_disk b))"
    "\<And>q. ok_id q \<Longrightarrow> content d q = content (bpm_disk b2) q"
    using alloc_page [of "bpm_disk b2"] room b2(6,7) by metis
  let ?b3 = "b2\<lparr>bpm_disk := d\<rparr>"
  have inv3: "inv_but {f} ?b3" by (rule inv_but_disk [OF b2(2) d(2)]) (rule d(6))
  have view3: "ok_id q \<Longrightarrow> view ?b3 q = view b q" for q
    using b2(3) [of q] d(6) [of q] by (auto simp: bpm_view_def split: option.splits)
  have pool: "in_pool ?b3 = in_pool b" using b2(5) by (auto simp: in_pool_def fun_eq_iff)
  have none: "page_table ?b3 p = None" using b2(8) [of p] ok d(4) by (auto split: if_splits)
  have len: "length zero_page = PAGE_SIZE" by (simp add: zero_page_def)
  let ?b' = "(upd_frame f (\<lambda>_. \<lparr>page_data = zero_page, page_id = p, pin_count = 1,
      is_dirty = False\<rparr>) ?b3)\<lparr>page_table := (page_table ?b3)(p \<mapsto> f)\<rparr>"
  have "NewPage rops dops b = Inr (?b', Some (f, p))"
    using Found(1,3) b2(1) d(1)
    by (simp add: NewPage_def bpm_AllocatePage_def bind_result_def upd_frame_def ResetMemory_def Page_overwrite)
  moreover note inst = install_frame [OF inv3 Found(2) [folded pool] d(3) none len]
  moreover have sub: "dom (page_table b2) \<subseteq> dom (page_table b)"
    using b2(8) by (auto split: if_splits)
  moreover have "dom (page_table ?b') \<subseteq> allocated (bpm_disk ?b')"
    using sub ok d(5) by auto
  moreover have "frame ?b' g = frame b g" if "g \<in> pinned b" for g
  proof -
    have "in_pool b g" "g \<noteq> f" using that Found(4) by (auto simp: pinned_def)
    then show ?thesis using inst(3) [of g] b2(4) [of g] pool by simp
  qed
  moreover have "frame ?b' g = frame b g" if "in_pool b g" "g \<noteq> f" for g
    using that inst(3) [of g] b2(4) [of g] pool by simp
  moreover have "view ?b' q = view b q" if "ok_id q" "q \<noteq> p" for q
    using inst(4) [OF that(2)] view3 [OF that(1)] by simp
  moreover have "f \<in> pinned ?b'" "f \<notin> pinned b"
    using inst(2,6) pool Found(2,4) by (simp_all add: pinned_def)
  ultimately show thesis
    using that(2) [of ?b' f p] d(3-6) b2(5,8,9) inv_butD(12) [OF inv] by simp
qed

lemma UnpinPage_law:
  assumes ok: "bp_ok b" and hit: "page_table b p = Some f" and pin: "0 < pin_count (frame b f)"
    and honest: "dirty \<or> is_dirty (frame b f) \<or> page_data (frame b f) = content (bpm_disk b) p"
  obtains b' where "UnpinPage rops p dirty b = (b', True)" "bp_ok b'" "page_table b' = page_table b"
    "frame b' f = (frame b f)\<lparr>pin_count := pin_count (frame b f) - 1,
       is_dirty := is_dirty (frame b f) \<or> dirty\<rparr>"
    "\<And>g. in_pool b g \<Longrightarrow> g \<noteq> f \<Longrightarrow> frame b' g = frame b g" "\<And>q. ok_id q \<Longrightarrow> view b' q = view b q"
    "bpm_disk b' = bpm_disk b" "pool_size b' = pool_size b"
proof -
  note inv = conjunct1 [OF ok]
  note R = resident [OF inv hit] and I = inv_butD(1-3) [OF inv]
  let ?h = "\<lambda>pg. pg\<lparr>pin_count := pin_count pg - 1, is_dirty := is_dirty pg \<or> dirty\<rparr>"
  let ?r = "if pin_count (frame b f) = 1 then op_Unpin rops f (bpm_replacer b) else bpm_replacer b"
  let ?b' = "(upd_frame f ?h b)\<lparr>bpm_replacer := ?r, bpm_disk := bpm_disk b\<rparr>"
  have idx: "nat f < length (pages b)" using in_pool_index [OF R(1) I(1)] .
  have "UnpinPage rops p dirty b = (?b', True)"
    using hit pin idx by (simp add: UnpinPage_def upd_frame_def Let_def Page_pin)
  moreover have "view b p = page_data (frame b f)" using hit by (simp add: bpm_view_def)
  moreover have "f \<notin> evictable (bpm_replacer b)" using R(8) pin by simp
  moreover note T = touch_frame [OF inv hit, of ?h ?r "bpm_disk b"]
  ultimately show thesis
    using that [of ?b'] R I pin honest ok unpin_inv [OF I(2), of f] unpin_tracks [OF I(2), of f]
      unpin_evictable [OF I(2) R(6)] by (cases "pin_count (frame b f) = 1") auto
qed

lemma FlushPage_law:
  assumes ok: "bp_ok b" and hit: "page_table b p = Some f"
  obtains b' where "FlushPage dops p b = Inr (b', True)" "bp_ok b'" "page_table b' = page_table b"
    "content (bpm_disk b') p = page_data (frame b f)" "frame b' f = (frame b f)\<lparr>is_dirty := False\<rparr>"
    "\<And>g. in_pool b g \<Longrightarrow> g \<noteq> f \<Longrightarrow> frame b' g = frame b g" "\<And>q. ok_id q \<Longrightarrow> view b' q = view b q"
    "\<And>q. ok_id q \<Longrightarrow> q \<noteq> p \<Longrightarrow> content (bpm_disk b') q = content (bpm_disk b) q" "pool_size b' = pool_size b"
    "allocated (bpm_disk b') = allocated (bpm_disk b)"
proof -
  note inv = conjunct1 [OF ok]
  note R = resident [OF inv hit] and I = inv_butD(1-3) [OF inv]
  obtain d where d: "op_WritePage dops (bpm_disk b) p (page_data (frame b f)) = Inr d" "dinv d"
    "content d p = page_data (frame b f)" "\<And>q. ok_id q \<Longrightarrow> q \<noteq> p \<Longrightarrow> content d q = content (bpm_disk b) q"
    "allocated d = allocated (bpm_disk b)" using write_page [OF I(3) R(4,5)] by blast
  let ?h = "is_dirty_update (\<lambda>_. False)"
  let ?b' = "(upd_frame f ?h b)\<lparr>bpm_replacer := bpm_replacer b, bpm_disk := d\<rparr>"
  have "FlushPage dops p b = Inr (?b', True)"
    using hit d(1) by (simp add: FlushPage_def bind_result_def upd_frame_def)
  moreover have "view b p = page_data (frame b f)" using hit by (simp add: bpm_view_def)
  moreover have "evictable (bpm_replacer b) = (if pin_count (frame b f) = 0 then
      insert f (evictable (bpm_replacer b)) else evictable (bpm_replacer b) - {f})"
    using R(8) by auto
  moreover note T = touch_frame [OF inv hit, of ?h "bpm_replacer b" d]
  ultimately show thesis
    using that [of ?b'] R I d ok by auto
qed

lemma write_frame_law:
  assumes ok: "bp_ok b" and hit: "page_table b p = Some f" and pin: "0 < pin_count (frame b f)"
    and len: "length data = PAGE_SIZE"
  shows "bp_ok (write_frame f data b)" "view (write_frame f data b) p = data"
    "\<And>q. ok_id q \<Longrightarrow> q \<noteq> p \<Longrightarrow> view (write_frame f data b) q = view b q"
proof -
  note inv = conjunct1 [OF ok]
  note R = resident [OF inv hit] and I = inv_butD(1-3) [OF inv]
  let ?h = "page_data_update (\<lambda>_. data)"
  have eq: "write_frame f data b = (upd_frame f ?h b)\<lparr>bpm_replacer := bpm_replacer b, bpm_disk := bpm_disk b\<rparr>"
    by (simp add: write_frame_def upd_frame_def)
  have "evictable (bpm_replacer b) = evictable (bpm_replacer b) - {f}" using R(8) pin by auto
  with touch_frame [OF inv hit, of ?h "bpm_replacer b" "bpm_disk b"] R I pin len ok
  show "bp_ok (write_frame f data b)" "view (write_frame f data b) p = data"
    "\<And>q. ok_id q \<Longrightarrow> q \<noteq> p \<Longrightarrow> view (write_frame f data b) q = view b q"
    unfolding eq by auto
qed

text \<open>Flushing every resident page, in any order, leaves the logical pages on disk.\<close>

lemma FlushAll_law:
  assumes "bp_ok b"
  obtains b' where "FlushAll dops ps b = Inr b'" "bp_ok b'" "page_table b' = page_table b"
    "\<And>q. ok_id q \<Longrightarrow> view b' q = view b q"
    "\<And>q. ok_id q \<Longrightarrow> q \<in> set ps \<union> - dom (page_table b) \<Longrightarrow> content (bpm_disk b') q = view b q"
    "allocated (bpm_disk b') = allocated (bpm_disk b)"
proof -
  have "\<exists>b'. FlushAll dops ps b = Inr b' \<and> bp_ok b' \<and> page_table b' = page_table b \<and>
    (\<forall>q. ok_id q \<longrightarrow> view b' q = view b q) \<and> allocated (bpm_disk b') = allocated (bpm_disk b) \<and>
    (\<forall>q. ok_id q \<longrightarrow> q \<in> set ps \<union> - dom (page_table b) \<longrightarrow> content (bpm_disk b') q = view b q)"
    using assms
  proof (induction ps rule: rev_induct)
    case Nil
    then show ?case by (auto simp: bpm_view_def domIff)
  next
    case (snoc p ps)
    then obtain b1 where 1: "FlushAll dops ps b = Inr b1" "bp_ok b1" "page_table b1 = page_table b"
      "\<forall>q. ok_id q \<longrightarrow> view b1 q = view b q" "allocated (bpm_disk b1) = allocated (bpm_disk b)"
      "\<forall>q. ok_id q \<longrightarrow> q \<in> set ps \<union> - dom (page_table b) \<longrightarrow> content (bpm_disk b1) q = view b q" by auto
    have app: "FlushAll dops (ps @ [p]) b = bind_result (FlushAll dops ps b) (\<lambda>b. FlushAll dops [p] b)"
    proof (induction ps arbitrary: b)
      case (Cons a ps)
      then show ?case by (cases "FlushPage dops a b") (auto simp: bind_result_def split: sum.splits)
    qed (simp add: bind_result_def)
    show ?case
    proof (cases "page_table b1 p")
      case None
      then have "FlushAll dops (ps @ [p]) b = Inr b1" "p \<in> - dom (page_table b)"
        using app 1(1,3) by (auto simp: bind_result_def FlushPage_def domIff)
      with 1 show ?thesis by auto
    next
      case (Some f)
      obtain b2 where 2: "FlushPage dops p b1 = Inr (b2, True)" "bp_ok b2" "page_table b2 = page_table b1"
        "content (bpm_disk b2) p = page_data (frame b1 f)" "\<And>q. ok_id q \<Longrightarrow> view b2 q = view b1 q"
        "\<And>q. ok_id q \<Longrightarrow> q \<noteq> p \<Longrightarrow> content (bpm_disk b2) q = content (bpm_disk b1) q"
        "allocated (bpm_disk b2) = allocated (bpm_disk b1)"
        by (rule FlushPage_law [OF 1(2) Some]) (rule that)
      have "FlushAll dops (ps @ [p]) b = Inr b2" using app 1(1) 2(1) by (simp add: bind_result_def)
      moreover have "view b1 p = page_data (frame b1 f)" using Some by (simp add: bpm_view_def)
      moreover have "content (bpm_disk b2) q = view b q"
        if "ok_id q" "q \<in> set (ps @ [p]) \<union> - dom (page_table b)" for q
        using that 1(4,6) 2(4,6) calculation(2) by (cases "q = p") auto
      ultimately show ?thesis using 1(2-5) 2(2,3,5,7) by auto
    qed
  qed
  with that show thesis by blast
qed

text \<open>\<^verbatim>\<open>DeletePage\<close>, branch by branch. A resident page that nobody pins goes back to the free list, but
  its frame stays among the replacer's candidates.\<close>

lemma DeletePage_absent:
  assumes "bp_ok b" "page_table b p = None"
  obtains b' where "DeletePage dops p b = (b', True)" "bp_ok b'"
    "allocated (bpm_disk b') = allocated (bpm_disk b) - {p}" "\<And>q. ok_id q \<Longrightarrow> view b' q = view b q"
    "pages b' = pages b" "page_table b' = page_table b"
proof -
  let ?d = "op_DeAllocatePage dops (bpm_disk b) p"
  have "dinv (bpm_disk b)" using assms(1) inv_butD(3) by blast
  note D = dealloc_page [OF this, of p]
  have "bp_inv (b\<lparr>bpm_disk := ?d\<rparr>)" by (rule inv_but_disk) (use D assms(1) in auto)
  moreover have "view (b\<lparr>bpm_disk := ?d\<rparr>) q = view b q" if "ok_id q" for q
    by (rule bpm_view_cong) (use D that in auto)
  moreover have "dom (page_table b) \<subseteq> allocated (bpm_disk b) - {p}" using assms by auto
  ultimately show thesis
    using that [of "b\<lparr>bpm_disk := ?d\<rparr>"] assms(2) D
    by (simp add: DeletePage_def bpm_DeallocatePage_def)
qed

lemma DeletePage_unpinned:
  assumes ok: "bp_ok b" and hit: "page_table b p = Some f" and unpinned: "pin_count (frame b f) = 0"
  obtains b' where "DeletePage dops p b = (b', True)" "page_table b' = (page_table b)(p := None)"
    "allocated (bpm_disk b') = allocated (bpm_disk b) - {p}" "frame b' f = Page_init"
    "\<And>g. in_pool b g \<Longrightarrow> g \<noteq> f \<Longrightarrow> frame b' g = frame b g" "free_list b' = free_list b @ [f]"
    "bpm_replacer b' = bpm_replacer b" "f \<in> evictable (bpm_replacer b')" "pool_size b' = pool_size b"
    "dinv (bpm_disk b')" "length (pages b') = length (pages b)"
    "room (bpm_disk b) \<Longrightarrow> room (bpm_disk b')"
proof -
  note inv = conjunct1 [OF ok]
  note R = resident [OF inv hit] and I = inv_butD(1-3) [OF inv]
  let ?b1 = "bpm_DeallocatePage dops p b"
  let ?b2 = "(upd_frame f (\<lambda>_. Page_init) (?b1\<lparr>page_table := (page_table b)(p := None)\<rparr>))
    \<lparr>free_list := free_list b @ [f]\<rparr>"
  have "DeletePage dops p b = (?b2, True)"
    using hit unpinned
    by (simp add: DeletePage_def bpm_DeallocatePage_def Let_def upd_frame_def ResetMemory_def Page_init_def
        Page_overwrite)
  moreover have "frame ?b2 g = (if f = g then Page_init else frame b g)" if "in_pool b g" for g
    using frame_upd_frame [of "?b1\<lparr>page_table := (page_table b)(p := None)\<rparr>" f g "\<lambda>_. Page_init"] R(1) I(1) that
    by (auto simp: bpm_DeallocatePage_def)
  moreover have "f \<in> evictable (bpm_replacer b)" using R(8) unpinned by simp
  ultimately show thesis
    using that [of ?b2] R(1) dealloc_page [OF I(3), of p] by (simp add: bpm_DeallocatePage_def)
qed

text \<open>So the next page goes into that frame, and the replacer still offers it while it is pinned.\<close>

lemma DeletePage_NewPage_stale:
  assumes ok: "bp_ok b" and hit: "page_table b p = Some f" and unpinned: "pin_count (frame b f) = 0"
    and full: "free_list b = []" and room: "room (bpm_disk b)"
  obtains b1 b2 q where "DeletePage dops p b = (b1, True)" "NewPage rops dops b1 = Inr (b2, Some (f, q))"
    "page_table b2 q = Some f" "pin_count (frame b2 f) = 1" "f \<in> evictable (bpm_replacer b2)"
proof -
  note inv = conjunct1 [OF ok]
  note R = resident [OF inv hit] and I = inv_butD(1-3) [OF inv]
  obtain b1 where 1: "DeletePage dops p b = (b1, True)" "frame b1 f = Page_init" "free_list b1 = free_list b @ [f]"
    "f \<in> evictable (bpm_replacer b1)" "pool_size b1 = pool_size b" "dinv (bpm_disk b1)"
    "length (pages b1) = length (pages b)" "room (bpm_disk b) \<Longrightarrow> room (bpm_disk b1)"
    by (rule DeletePage_unpinned [OF ok hit unpinned]) (rule that)
  obtain d q where d: "op_AllocatePage dops (bpm_disk b1) = Inr (d, q)"
    using alloc_page [OF 1(6) 1(8) [OF room]] by blast
  have "f \<noteq> INVALID_FRAME_ID" "nat f < length (pages b1)"
    using R(1) I(1) 1(7) by (auto simp: in_pool_def INVALID_FRAME_ID_def)
  then have "\<exists>b2. NewPage rops dops b1 = Inr (b2, Some (f, q)) \<and> page_table b2 q = Some f \<and>
      pin_count (frame b2 f) = 1 \<and> bpm_replacer b2 = bpm_replacer b1"
    using full d 1(2,3)
    by (simp add: NewPage_def TryToFindFreePage_def evict_frame_def bpm_AllocatePage_def bind_result_def
        upd_frame_def ResetMemory_def Page_init_def)
  with 1(1,4) that show thesis by metis
qed

end

section \<open>The pool of the program\<close>

definition wf_bpm :: "(LRUReplacer, disk_manager) bpm \<Rightarrow> bool" where
  "wf_bpm b \<longleftrightarrow>
     bpm_inv_but {} (\<lambda>r. set (lru_frames r)) (\<lambda>_. UNIV) wf_lru disk_content disk_ok_id wf_disk b \<and>
     dom (page_table b) \<subseteq> disk_allocated (bpm_disk b)"

abbreviation logical_page :: "(LRUReplacer, disk_manager) bpm \<Rightarrow> page_id_t \<Rightarrow> byte list" where
  "logical_page \<equiv> bpm_view disk_content"

interpretation bp: buffer_pool lru_ops "\<lambda>r. set (lru_frames r)" "\<lambda>_. UNIV" wf_lru
  disk_manager_ops disk_content disk_allocated disk_ok_id disk_room wf_disk
  by unfold_locales

interpretation bpc: buffer_pool clock_ops clock_frames clock_tracks wf_clock
  disk_manager_ops disk_content disk_allocated disk_ok_id disk_room wf_disk
  by unfold_locales

lemma wf_bpm_init:
  assumes "wf_disk d"
  shows "wf_bpm (BufferPoolManager_init LRUReplacer_init n d)"
proof -
  have "set (map int [0..<n]) = {f. 0 \<le> f \<and> f < int n}"
    using image_int_atLeastLessThan [of 0 n] by auto
  moreover have "lru_frames (LRUReplacer_init n) = []" "wf_lru (LRUReplacer_init n)"
    by (simp_all add: lru_frames_def LRUReplacer_init_def wf_lru_def)
  ultimately show ?thesis
    using assms by (auto simp: wf_bpm_def bpm_inv_but_def BufferPoolManager_init_def in_pool_def
        Page_init_def zero_page_def distinct_map inj_on_def)
qed

text \<open>A pool of two frames over an empty file, and the same after one \<^verbatim>\<open>NewPage\<close>.\<close>

definition empty_pool :: "(LRUReplacer, disk_manager) bpm" where
  "empty_pool = BufferPoolManager_init LRUReplacer_init 2 (DiskManager_open [])"

lemma empty_pool: "wf_bpm empty_pool" "disk_room (bpm_disk empty_pool)" "pinned empty_pool = {}"
    "in_pool empty_pool 0" "disk_allocated (bpm_disk empty_pool) = {}"
proof -
  show "wf_bpm empty_pool" unfolding empty_pool_def by (rule wf_bpm_init) (rule wf_open_empty)
  show "pinned empty_pool = {}"
    by (auto simp: empty_pool_def BufferPoolManager_init_def pinned_def in_pool_def Page_init_def)
qed (simp_all add: empty_pool_def BufferPoolManager_init_def in_pool_def wf_open_empty)

lemma one_page_pool:
  obtains b f p where "wf_bpm b" "page_table b p = Some f" "disk_ok_id p" "p \<in> disk_allocated (bpm_disk b)"
    "f \<in> pinned b"
proof (rule bp.NewPage_law [of empty_pool])
  show "bp.bp_inv empty_pool \<and> dom (page_table empty_pool) \<subseteq> disk_allocated (bpm_disk empty_pool)"
    using empty_pool(1) by (simp add: wf_bpm_def)
next
  fix b f p
  assume "bp.bp_inv b \<and> dom (page_table b) \<subseteq> disk_allocated (bpm_disk b)" "page_table b p = Some f"
    "disk_ok_id p" "f \<in> pinned b" "disk_allocated (bpm_disk b) = insert p (disk_allocated (bpm_disk empty_pool))"
  then show thesis using that [of b p f] by (simp add: wf_bpm_def)
qed (use empty_pool in auto)

section \<open>Properties\<close>

text \<open>C1. \<^verbatim>\<open>FetchPage\<close> is transparent: it hands out a pinned frame that holds exactly the logical
  content of the page (the pooled copy if there is one, else what is on disk), while the pages evicted
  on the way lose nothing, no other pinned frame moves and the pool stays consistent; it returns
  \<^verbatim>\<open>nullptr\<close> only when the page is not resident and every frame is pinned, and it never aborts.\<close>

theorem FetchPage_transparent:
  assumes "wf_bpm b" "disk_ok_id p" "p \<in> disk_allocated (bpm_disk b)"
  shows "case FetchPage lru_ops disk_manager_ops p b of
      Inl e \<Rightarrow> False
    | Inr (b', None) \<Rightarrow> b' = b \<and> page_table b p = None \<and> (\<forall>f. in_pool b f \<longrightarrow> f \<in> pinned b)
    | Inr (b', Some f) \<Rightarrow> wf_bpm b' \<and> page_table b' p = Some f \<and> f \<in> pinned b' \<and>
        page_data (frame b' f) = logical_page b p \<and>
        (\<forall>q. disk_ok_id q \<longrightarrow> logical_page b' q = logical_page b q) \<and>
        (\<forall>g \<in> pinned b. g \<noteq> f \<longrightarrow> frame b' g = frame b g)"
  using assms
  by (rule_tac bp.FetchPage_law [of b p]) (simp_all add: wf_bpm_def)

theorem FetchPage_transparent_witness:
  "\<exists>b p. wf_bpm b \<and> disk_ok_id p \<and>
     (\<exists>b' f. FetchPage lru_ops disk_manager_ops p b = Inr (b', Some f) \<and>
        page_data (frame b' f) = logical_page b p)"
proof -
  obtain b f p where 1: "wf_bpm b" "page_table b p = Some f" "disk_ok_id p" "p \<in> disk_allocated (bpm_disk b)"
    by (rule one_page_pool)
  from FetchPage_transparent [OF 1(1,3,4)] 1 show ?thesis
    by (auto split: sum.splits prod.splits option.splits)
qed

text \<open>C13. \<^verbatim>\<open>NewPage\<close> hands out a zeroed, pinned frame for a page number that was free on disk, keeps
  every other page's logical content and every pinned frame, and returns \<^verbatim>\<open>nullptr\<close> only when all frames
  are pinned.\<close>

theorem NewPage_fresh:
  assumes "wf_bpm b" "disk_room (bpm_disk b)"
  shows "case NewPage lru_ops disk_manager_ops b of
      Inl e \<Rightarrow> False
    | Inr (b', None) \<Rightarrow> b' = b \<and> (\<forall>f. in_pool b f \<longrightarrow> f \<in> pinned b)
    | Inr (b', Some (f, p)) \<Rightarrow> wf_bpm b' \<and> page_table b' p = Some f \<and> f \<in> pinned b' - pinned b \<and>
        p \<notin> disk_allocated (bpm_disk b) \<and>
        disk_allocated (bpm_disk b') = insert p (disk_allocated (bpm_disk b)) \<and>
        page_data (frame b' f) = zero_page \<and> logical_page b' p = zero_page \<and>
        (\<forall>q. disk_ok_id q \<longrightarrow> q \<noteq> p \<longrightarrow> logical_page b' q = logical_page b q) \<and>
        (\<forall>g \<in> pinned b. frame b' g = frame b g)"
  using assms
  by (rule_tac bp.NewPage_law [of b]) (simp_all add: wf_bpm_def bpm_view_def)

theorem NewPage_fresh_witness:
  "\<exists>b' f p. NewPage lru_ops disk_manager_ops empty_pool = Inr (b', Some (f, p)) \<and> wf_bpm b' \<and>
     page_data (frame b' f) = zero_page"
  using NewPage_fresh [OF empty_pool(1,2)] empty_pool(3,4)
  by (auto split: sum.splits prod.splits option.splits)

text \<open>\<^verbatim>\<open>UnpinPage\<close> of a pinned page takes one pin, remembers the dirty flag, makes the frame
  evictable exactly when the last pin goes, and keeps all logical contents and the consistency of the
  pool, for a client that reports its changes (passes \<^verbatim>\<open>is_dirty\<close>, or the page is already marked, or
  is unchanged).\<close>

theorem UnpinPage_correct:
  assumes "wf_bpm b" "page_table b p = Some f" "0 < pin_count (frame b f)"
    "dirty \<or> is_dirty (frame b f) \<or> page_data (frame b f) = disk_content (bpm_disk b) p"
  shows "case UnpinPage lru_ops p dirty b of (b', ok) \<Rightarrow> ok \<and> wf_bpm b' \<and>
    frame b' f = (frame b f)\<lparr>pin_count := pin_count (frame b f) - 1,
      is_dirty := is_dirty (frame b f) \<or> dirty\<rparr> \<and>
    (f \<in> set (lru_frames (bpm_replacer b')) \<longleftrightarrow> pin_count (frame b f) = 1) \<and>
    (\<forall>q. disk_ok_id q \<longrightarrow> logical_page b' q = logical_page b q)"
proof -
  have ok: "bp.bp_inv b \<and> dom (page_table b) \<subseteq> disk_allocated (bpm_disk b)"
    using assms(1) by (simp add: wf_bpm_def)
  obtain b' where 1: "UnpinPage lru_ops p dirty b = (b', True)"
    "bp.bp_inv b' \<and> dom (page_table b') \<subseteq> disk_allocated (bpm_disk b')" "page_table b' = page_table b"
    "frame b' f = (frame b f)\<lparr>pin_count := pin_count (frame b f) - 1, is_dirty := is_dirty (frame b f) \<or> dirty\<rparr>"
    "\<And>q. disk_ok_id q \<Longrightarrow> logical_page b' q = logical_page b q"
    by (rule bp.UnpinPage_law [OF ok assms(2-4)]) (rule that)
  have "page_table b' p = Some f" using 1(3) assms(2) by simp
  note R = bp.resident [OF conjunct1 [OF 1(2)] this]
  from R(8) 1 show ?thesis by (simp add: wf_bpm_def)
qed

theorem UnpinPage_correct_witness:
  "\<exists>b p f. wf_bpm b \<and> page_table b p = Some f \<and> snd (UnpinPage lru_ops p True b)"
proof -
  obtain b f p where 1: "wf_bpm b" "page_table b p = Some f" "f \<in> pinned b" by (rule one_page_pool)
  from UnpinPage_correct [OF 1(1,2), of True] 1(3) have "snd (UnpinPage lru_ops p True b)"
    by (simp add: pinned_def case_prod_unfold)
  with 1 show ?thesis by blast
qed

text \<open>C15. Shutting the pool down is durable: the destructor's flush of every resident page, in
  whatever order the hash table is walked, succeeds and leaves on disk the logical content of every
  page.\<close>

theorem FlushAll_durable:
  assumes "wf_bpm b" "dom (page_table b) \<subseteq> set order" "disk_ok_id q"
  shows "\<exists>b'. FlushAll disk_manager_ops order b = Inr b' \<and> wf_bpm b' \<and>
    disk_ReadPage (bpm_disk b') q = Inr (logical_page b q) \<and>
    disk_allocated (bpm_disk b') = disk_allocated (bpm_disk b)"
proof -
  have ok: "bp.bp_inv b \<and> dom (page_table b) \<subseteq> disk_allocated (bpm_disk b)"
    using assms(1) by (simp add: wf_bpm_def)
  obtain b' where 1: "FlushAll disk_manager_ops order b = Inr b'"
    "bp.bp_inv b' \<and> dom (page_table b') \<subseteq> disk_allocated (bpm_disk b')"
    "\<And>q. disk_ok_id q \<Longrightarrow> q \<in> set order \<union> - dom (page_table b) \<Longrightarrow>
       disk_content (bpm_disk b') q = logical_page b q"
    "disk_allocated (bpm_disk b') = disk_allocated (bpm_disk b)"
    by (rule bp.FlushAll_law [OF ok, of order]) (rule that)
  have "disk_content (bpm_disk b') q = logical_page b q" using 1(3) [OF assms(3)] assms(2) by blast
  moreover have "wf_disk (bpm_disk b')" using 1(2) bp.inv_butD(3) by blast
  ultimately show ?thesis
    using 1 disk.read_page [of "bpm_disk b'" q] assms(3) by (simp add: wf_bpm_def disk_manager_ops_def)
qed

theorem FlushAll_durable_witness:
  "\<exists>b p b'. wf_bpm b \<and> page_table b p \<noteq> None \<and> FlushAll disk_manager_ops [p] b = Inr b' \<and>
     disk_ReadPage (bpm_disk b') p = Inr (logical_page b p)"
proof (rule bp.NewPage_law [of empty_pool])
  show "bp.bp_inv empty_pool \<and> dom (page_table empty_pool) \<subseteq> disk_allocated (bpm_disk empty_pool)"
    using empty_pool(1) by (simp add: wf_bpm_def)
next
  fix b f p
  assume 1: "bp.bp_inv b \<and> dom (page_table b) \<subseteq> disk_allocated (bpm_disk b)" "page_table b p = Some f"
    "disk_ok_id p" "disk_allocated (bpm_disk b) = insert p (disk_allocated (bpm_disk empty_pool))"
  then have "wf_bpm b" "dom (page_table b) \<subseteq> set [p]" using empty_pool(5) by (auto simp: wf_bpm_def)
  from FlushAll_durable [OF this 1(3)] \<open>wf_bpm b\<close> 1(2) show ?thesis by auto
qed (use empty_pool in auto)

text \<open>C23. \<^verbatim>\<open>DeletePage\<close> of a resident, unpinned page puts its frame on the free list but leaves it with
  the replacer: the next \<^verbatim>\<open>NewPage\<close> pins that frame for another page while the LRU list still offers it
  as a victim, so a pinned frame can be evicted.\<close>

theorem DeletePage_leaves_victim:
  assumes "wf_bpm b" "page_table b p = Some f" "pin_count (frame b f) = 0" "free_list b = []"
    "disk_room (bpm_disk b)"
  shows "\<exists>b1 b2 q. DeletePage disk_manager_ops p b = (b1, True) \<and>
    NewPage lru_ops disk_manager_ops b1 = Inr (b2, Some (f, q)) \<and> pin_count (frame b2 f) = 1 \<and>
    f \<in> set (lru_frames (bpm_replacer b2))"
  using assms
  by (rule_tac bp.DeletePage_NewPage_stale [of b p f]) (auto simp: wf_bpm_def)

theorem DeletePage_leaves_victim_witness:
  "\<exists>b p f b1 b2 q. DeletePage disk_manager_ops p b = (b1, True) \<and>
     NewPage lru_ops disk_manager_ops b1 = Inr (b2, Some (f, q)) \<and> pin_count (frame b2 f) = 1 \<and>
     f \<in> set (lru_frames (bpm_replacer b2))"
proof -
  let ?b0 = "BufferPoolManager_init LRUReplacer_init 1 (DiskManager_open [])"
  have wf0: "wf_bpm ?b0" by (rule wf_bpm_init) (rule wf_open_empty)
  have ok0: "bp.bp_inv ?b0 \<and> dom (page_table ?b0) \<subseteq> disk_allocated (bpm_disk ?b0)"
    using wf0 by (simp add: wf_bpm_def)
  have 0: "disk_room (bpm_disk ?b0)" "disk_allocated (bpm_disk ?b0) = {}" "in_pool ?b0 0" "0 \<notin> pinned ?b0"
    by (simp_all add: BufferPoolManager_init_def wf_open_empty in_pool_def pinned_def Page_init_def)
  obtain b f p where b: "bp.bp_inv b \<and> dom (page_table b) \<subseteq> disk_allocated (bpm_disk b)"
    "page_table b p = Some f" "f \<in> pinned b" "disk_allocated (bpm_disk b) = {p}" "pool_size b = 1"
    and one: "pin_count (frame b f) = 1"
    by (rule bp.NewPage_law [OF ok0 0(1)]) (use 0 that in \<open>auto simp: BufferPoolManager_init_def\<close>)
  obtain b' where b': "bp.bp_inv b' \<and> dom (page_table b') \<subseteq> disk_allocated (bpm_disk b')"
    "page_table b' = page_table b" "pin_count (frame b' f) = 0" "bpm_disk b' = bpm_disk b" "pool_size b' = 1"
    by (rule bp.UnpinPage_law [OF b(1,2), of True]) (use one b(5) that in auto)
  have "page_table b' p = Some f" using b(2) b'(2) by simp
  note R = bp.resident [OF conjunct1 [OF b'(1)] this] and I = bp.inv_butD [OF conjunct1 [OF b'(1)]]
  have "g = f" if "in_pool b' g" for g using that R(1) b'(5) by (simp add: in_pool_def)
  then have "set (free_list b') = {}" unfolding I(5) using R(2,3) by fastforce
  then have "free_list b' = []" by simp
  moreover have "disk_room (bpm_disk b')" using I(3) b(4) b'(4) by (intro disk_room_few) auto
  moreover have "wf_bpm b'" using b'(1) by (simp add: wf_bpm_def)
  ultimately have "\<exists>b1 b2 q. DeletePage disk_manager_ops p b' = (b1, True) \<and>
     NewPage lru_ops disk_manager_ops b1 = Inr (b2, Some (f, q)) \<and> pin_count (frame b2 f) = 1 \<and>
     f \<in> set (lru_frames (bpm_replacer b2))"
    using DeletePage_leaves_victim [of b' p f] b'(3) \<open>page_table b' p = Some f\<close> by blast
  then show ?thesis by blast
qed

end
