(* ===== verification/Codec.thy ===== *)
theory Codec
  imports MiniSQL_Prelude
begin

text \<open>
  The serialization idiom of the record and catalog code: an object writes itself at a moving pointer
  and returns the number of bytes written (\<^verbatim>\<open>buf += x->SerializeTo(buf)\<close>), and is read back the same
  way. A pointer is an offset into a byte list. The loops that walk a sequence of objects are
  written once, over the object's functions, and the contract of a serializable object is a locale
  whose main consequence is the round trip of sequences.
\<close>

primrec ser_seq :: "('a \<Rightarrow> byte list \<Rightarrow> nat \<Rightarrow> (byte list \<times> nat) result) \<Rightarrow> 'a list \<Rightarrow> byte list \<Rightarrow> nat \<Rightarrow>
    (byte list \<times> nat) result" where
  "ser_seq ser [] buf off = Inr (buf, off)"
| "ser_seq ser (x # xs) buf off =
     bind_result (ser x buf off) (\<lambda>(buf', n). ser_seq ser xs buf' (off + n))"

primrec des_seq :: "('t \<Rightarrow> byte list \<Rightarrow> nat \<Rightarrow> ('a \<times> nat) result) \<Rightarrow> 't list \<Rightarrow> byte list \<Rightarrow> nat \<Rightarrow>
    ('a list \<times> nat) result" where
  "des_seq des [] buf off = Inr ([], off)"
| "des_seq des (t # ts) buf off =
     bind_result (des t buf off) (\<lambda>(x, n).
     bind_result (des_seq des ts buf (off + n)) (\<lambda>(xs, off').
     Inr (x # xs, off')))"

primrec size_seq :: "('a \<Rightarrow> nat result) \<Rightarrow> 'a list \<Rightarrow> nat \<Rightarrow> nat result" where
  "size_seq sz [] acc = Inr acc"
| "size_seq sz (x # xs) acc = bind_result (sz x) (\<lambda>n. size_seq sz xs (acc + n))"

lemma wr_wr_append:
  "off + length a + length b \<le> length buf \<Longrightarrow> wr (wr buf off a) (off + length a) b = wr buf off (a @ b)"
  by (simp add: wr_def ac_simps)

lemma wr_Nil [simp]: "wr buf off [] = buf"
  by (simp add: wr_def)

lemma rd_append_iff:
  "off + length (a @ b) \<le> length buf \<Longrightarrow>
   rd (length (a @ b)) buf off = a @ b \<longleftrightarrow>
   rd (length a) buf off = a \<and> rd (length b) buf (off + length a) = b"
proof -
  assume "off + length (a @ b) \<le> length buf"
  then have "rd (length (a @ b)) buf off = rd (length a) buf off @ rd (length b) buf (off + length a)"
    by (simp add: rd_def take_add add.commute)
  moreover have "length (rd (length a) buf off) = length a"
    using \<open>off + length (a @ b) \<le> length buf\<close> by simp
  ultimately show ?thesis by simp
qed

lemma rd_takeI:
  assumes "rd (length (a @ b)) buf off = a @ b" "off + length (a @ b) \<le> length buf"
  shows "rd (length a) buf off = a" "rd (length b) buf (off + length a) = b"
  using assms rd_append_iff by blast+

lemma rd32_of_enc: "rd 4 buf off = le_enc 4 w \<Longrightarrow> rd32 buf off = w"
  by (simp add: rd32_def)

text \<open>Reading inside an object whose bytes are known.\<close>

lemma rd_slice:
  assumes "rd (length e) buf off = e" "off + length e \<le> length buf" "i + k \<le> length e"
  shows "rd k buf (off + i) = rd k e i"
proof -
  have "rd k (rd (length e) buf off) i = rd k buf (off + i)"
    using assms(2,3) by (simp add: rd_def take_drop min_absorb1 add.commute)
  with assms(1) show ?thesis by simp
qed

lemma rd32_slice:
  assumes "rd (length e) buf off = e" "off + length e \<le> length buf" "rd 4 e i = le_enc 4 w" "i + 4 \<le> length e"
  shows "rd32 buf (off + i) = w"
  using rd_slice [OF assms(1,2,4)] assms(3) by (intro rd32_of_enc) simp

lemma des_seq_map_cong:
  "(\<And>t p. t \<in> set ts \<Longrightarrow> d t buf p = d' (g t) buf p) \<Longrightarrow> des_seq d ts buf off = des_seq d' (map g ts) buf off"
  by (induction ts arbitrary: off) (auto simp: bind_result_def split: sum.splits)

text \<open>
  \<open>enc\<close> is the wire format, \<open>ok t x\<close> says that \<open>x\<close> is an object that a reader expecting
  \<open>t\<close> can read back, \<open>canon\<close> what it reads (the object up to ownership flags).
\<close>

locale codec =
  fixes ser :: "'a \<Rightarrow> byte list \<Rightarrow> nat \<Rightarrow> (byte list \<times> nat) result"
    and des :: "'t \<Rightarrow> byte list \<Rightarrow> nat \<Rightarrow> ('a \<times> nat) result"
    and size_of :: "'a \<Rightarrow> nat result"
    and ok :: "'t \<Rightarrow> 'a \<Rightarrow> bool"
    and enc :: "'a \<Rightarrow> byte list"
    and canon :: "'a \<Rightarrow> 'a"
  assumes ser_enc: "ok t x \<Longrightarrow> off + length (enc x) \<le> length buf \<Longrightarrow>
      ser x buf off = Inr (wr buf off (enc x), length (enc x))"
    and size_enc: "ok t x \<Longrightarrow> size_of x = Inr (length (enc x))"
    and des_enc: "ok t x \<Longrightarrow> off + length (enc x) \<le> length buf \<Longrightarrow> rd (length (enc x)) buf off = enc x \<Longrightarrow>
      des t buf off = Inr (canon x, length (enc x))"
begin

lemma roundtrip:
  assumes "ok t x" "size_of x = Inr n" "off + n \<le> length buf"
  obtains buf' where "ser x buf off = Inr (buf', n)" "length buf' = length buf"
    "des t buf' off = Inr (canon x, n)"
proof -
  have "n = length (enc x)" using assms(2) size_enc [OF assms(1)] by simp
  then show thesis
    using that [of "wr buf off (enc x)"] ser_enc [OF assms(1), of off buf] assms(3)
      des_enc [OF assms(1), of off "wr buf off (enc x)"] by (simp add: rd_wr_same)
qed

lemma seq_ser:
  "list_all2 ok ts xs \<Longrightarrow> off + length (concat (map enc xs)) \<le> length buf \<Longrightarrow>
   ser_seq ser xs buf off = Inr (wr buf off (concat (map enc xs)), off + length (concat (map enc xs)))"
proof (induction xs arbitrary: ts buf off)
  case (Cons x xs)
  then obtain t ts' where ts: "ts = t # ts'" "ok t x" "list_all2 ok ts' xs"
    by (auto simp: list_all2_Cons2)
  let ?b = "wr buf off (enc x)"
  have "ser x buf off = Inr (?b, length (enc x))" using Cons.prems(2) by (intro ser_enc [OF ts(2)]) simp
  moreover have "ser_seq ser xs ?b (off + length (enc x)) =
      Inr (wr ?b (off + length (enc x)) (concat (map enc xs)), off + length (enc x) + length (concat (map enc xs)))"
    using Cons.prems(2) by (intro Cons.IH [OF ts(3)]) simp
  ultimately show ?case using Cons.prems(2) by (simp add: wr_wr_append)
qed simp

lemma seq_des:
  "list_all2 ok ts xs \<Longrightarrow> off + length (concat (map enc xs)) \<le> length buf \<Longrightarrow>
   rd (length (concat (map enc xs))) buf off = concat (map enc xs) \<Longrightarrow>
   des_seq des ts buf off = Inr (map canon xs, off + length (concat (map enc xs)))"
proof (induction ts arbitrary: xs off)
  case Nil
  then show ?case by simp
next
  case (Cons t ts)
  then obtain x xs' where xs: "xs = x # xs'" "ok t x" "list_all2 ok ts xs'"
    by (auto simp: list_all2_Cons1)
  let ?r = "concat (map enc xs')"
  have "rd (length (enc x @ ?r)) buf off = enc x @ ?r" "off + length (enc x @ ?r) \<le> length buf"
    using Cons.prems xs(1) by simp_all
  note split = rd_takeI [OF this]
  have "des t buf off = Inr (canon x, length (enc x))"
    using Cons.prems xs split(1) by (intro des_enc) auto
  moreover have "des_seq des ts buf (off + length (enc x)) = Inr (map canon xs', off + length (enc x) + length ?r)"
    using Cons.prems xs split(2) by (intro Cons.IH) auto
  ultimately show ?case using xs(1) by simp
qed

lemma seq_size:
  "list_all2 ok ts xs \<Longrightarrow> size_seq size_of xs acc = Inr (acc + length (concat (map enc xs)))"
proof (induction xs arbitrary: ts acc)
  case (Cons x xs)
  then obtain t ts' where "ok t x" "list_all2 ok ts' xs" by (auto simp: list_all2_Cons2)
  with Cons.IH [of ts'] show ?case by (simp add: size_enc add.assoc)
qed simp

end

end
