(* ===== verification/Field_Types.thy ===== *)
theory Field_Types
  imports Codec "HOL-Library.List_Lexorder"
begin

text \<open>
  Column types and field values (\<^verbatim>\<open>src/include/record/type_id.h\<close>, \<^verbatim>\<open>types.h\<close>, \<^verbatim>\<open>field.h\<close>,
  \<^verbatim>\<open>src/record/types.cpp\<close>). A \<^verbatim>\<open>float\<close> is its 32-bit IEEE pattern; the three comparisons the code uses
  on floats are written out on the pattern. The virtual methods of \<^verbatim>\<open>TypeInt\<close>, \<^verbatim>\<open>TypeFloat\<close> and
  \<^verbatim>\<open>TypeChar\<close> are one definition each, and \<^verbatim>\<open>Field\<close>'s methods dispatch on the type id as
  \<^verbatim>\<open>Type::GetInstance\<close> does.
\<close>

named_theorems cmp_defs "definitions of the field comparisons"

datatype TypeId = kTypeInvalid | kTypeInt | kTypeFloat | kTypeChar

definition TypeId_num :: "TypeId \<Rightarrow> 32 word" where
  "TypeId_num t = (case t of kTypeInvalid \<Rightarrow> 0 | kTypeInt \<Rightarrow> 1 | kTypeFloat \<Rightarrow> 2 | kTypeChar \<Rightarrow> 3)"

datatype CmpBool = kFalse | kTrue | kNull

definition GetCmpBool :: "bool \<Rightarrow> CmpBool" where
  "GetCmpBool b = (if b then kTrue else kFalse)"

definition GetTypeSize :: "TypeId \<Rightarrow> nat result" where
  "GetTypeSize t = (case t of kTypeInt \<Rightarrow> Inr 4 | kTypeFloat \<Rightarrow> Inr 4 | kTypeChar \<Rightarrow> Inr 0
     | kTypeInvalid \<Rightarrow> Inl (Thrown ''Unknown field type.''))"

text \<open>The union \<^verbatim>\<open>Val\<close>: the integer and the float member share their four bytes; \<open>Unset\<close> is a union
  that no constructor has written.\<close>

datatype Val = Integer "32 word" | Float "32 word" | Chars "byte list" | Unset

fun integer_of :: "Val \<Rightarrow> 32 word" where
  "integer_of (Integer i) = i"
| "integer_of (Float w) = w"
| "integer_of _ = undefined"

fun float_of_val :: "Val \<Rightarrow> 32 word" where
  "float_of_val (Float w) = w"
| "float_of_val (Integer i) = i"
| "float_of_val _ = undefined"

fun chars_of :: "Val \<Rightarrow> byte list" where
  "chars_of (Chars cs) = cs"
| "chars_of _ = undefined"

record Field =
  f_value :: Val
  f_type :: TypeId
  f_len :: "32 word"
  f_null :: bool
  f_manage :: bool

definition Field_null :: "TypeId \<Rightarrow> Field" where
  "Field_null t = \<lparr>f_value = Unset, f_type = t, f_len = FIELD_NULL_LEN, f_null = True, f_manage = False\<rparr>"

definition Field_int :: "TypeId \<Rightarrow> 32 word \<Rightarrow> Field result" where
  "Field_int t i = ASSERT (t = kTypeInt) ''Invalid type.''
     (Inr \<lparr>f_value = Integer i, f_type = t, f_len = 4, f_null = False, f_manage = False\<rparr>)"

definition Field_float :: "TypeId \<Rightarrow> 32 word \<Rightarrow> Field result" where
  "Field_float t f = ASSERT (t = kTypeFloat) ''Invalid type.''
     (Inr \<lparr>f_value = Float f, f_type = t, f_len = 4, f_null = False, f_manage = False\<rparr>)"

text \<open>The character constructor; \<open>None\<close> is a null \<^verbatim>\<open>data\<close> pointer, and a field that does not manage
  its data keeps the bytes it points to.\<close>

definition Field_char :: "TypeId \<Rightarrow> byte list option \<Rightarrow> 32 word \<Rightarrow> bool \<Rightarrow> Field result" where
  "Field_char t data len manage_data = ASSERT (t = kTypeChar) ''Invalid type.''
     (case data of
        None \<Rightarrow> Inr \<lparr>f_value = Unset, f_type = t, f_len = 0, f_null = True, f_manage = False\<rparr>
      | Some d \<Rightarrow>
          if manage_data
          then ASSERT (unat len < VARCHAR_MAX_LEN) ''Field length exceeds max varchar length''
            (Inr \<lparr>f_value = Chars (take (unat len) d), f_type = t, f_len = len, f_null = False, f_manage = True\<rparr>)
          else Inr \<lparr>f_value = Chars d, f_type = t, f_len = len, f_null = False, f_manage = False\<rparr>)"

definition Field_copy :: "Field \<Rightarrow> Field" where
  "Field_copy other =
     (if f_type other = kTypeChar \<and> \<not> f_null other \<and> f_manage other
      then other\<lparr>f_value := Chars (take (unat (f_len other)) (chars_of (f_value other)))\<rparr>
      else other)"

definition CheckComparable :: "Field \<Rightarrow> Field \<Rightarrow> bool" where
  "CheckComparable f other \<longleftrightarrow> f_type f = f_type other"

section \<open>Serialization\<close>

definition TypeInt_SerializeTo :: "Field \<Rightarrow> byte list \<Rightarrow> nat \<Rightarrow> byte list \<times> nat" where
  "TypeInt_SerializeTo f buf off =
     (if \<not> f_null f then (wr32 buf off (integer_of (f_value f)), 4) else (buf, 0))"

definition TypeInt_DeserializeFrom :: "byte list \<Rightarrow> nat \<Rightarrow> bool \<Rightarrow> (Field \<times> nat) result" where
  "TypeInt_DeserializeFrom buf off is_null =
     (if is_null then Inr (Field_null kTypeInt, 0)
      else bind_result (Field_int kTypeInt (rd32 buf off)) (\<lambda>f. Inr (f, 4)))"

definition TypeFloat_SerializeTo :: "Field \<Rightarrow> byte list \<Rightarrow> nat \<Rightarrow> byte list \<times> nat" where
  "TypeFloat_SerializeTo f buf off =
     (if \<not> f_null f then (wr32 buf off (float_of_val (f_value f)), 4) else (buf, 0))"

definition TypeFloat_DeserializeFrom :: "byte list \<Rightarrow> nat \<Rightarrow> bool \<Rightarrow> (Field \<times> nat) result" where
  "TypeFloat_DeserializeFrom buf off is_null =
     (if is_null then Inr (Field_null kTypeFloat, 0)
      else bind_result (Field_float kTypeFloat (rd32 buf off)) (\<lambda>f. Inr (f, 4)))"

definition TypeChar_SerializeTo :: "Field \<Rightarrow> byte list \<Rightarrow> nat \<Rightarrow> byte list \<times> nat" where
  "TypeChar_SerializeTo f buf off =
     (if \<not> f_null f
      then (wr (wr32 buf off (f_len f)) (off + 4) (take (unat (f_len f)) (chars_of (f_value f))),
            unat (f_len f) + 4)
      else (buf, 0))"

definition TypeChar_DeserializeFrom :: "byte list \<Rightarrow> nat \<Rightarrow> bool \<Rightarrow> (Field \<times> nat) result" where
  "TypeChar_DeserializeFrom buf off is_null =
     (if is_null then Inr (Field_null kTypeChar, 0)
      else let len = rd32 buf off
           in bind_result (Field_char kTypeChar (Some (drop (off + 4) buf)) len True)
                (\<lambda>f. Inr (f, unat len + 4)))"

definition field_SerializeTo :: "Field \<Rightarrow> byte list \<Rightarrow> nat \<Rightarrow> (byte list \<times> nat) result" where
  "field_SerializeTo f buf off =
     (case f_type f of
        kTypeInt \<Rightarrow> Inr (TypeInt_SerializeTo f buf off)
      | kTypeFloat \<Rightarrow> Inr (TypeFloat_SerializeTo f buf off)
      | kTypeChar \<Rightarrow> Inr (TypeChar_SerializeTo f buf off)
      | kTypeInvalid \<Rightarrow> Inl (AssertionFailed ''SerializeTo not implemented.''))"

definition field_DeserializeFrom :: "TypeId \<Rightarrow> bool \<Rightarrow> byte list \<Rightarrow> nat \<Rightarrow> (Field \<times> nat) result" where
  "field_DeserializeFrom t is_null buf off =
     (case t of
        kTypeInt \<Rightarrow> TypeInt_DeserializeFrom buf off is_null
      | kTypeFloat \<Rightarrow> TypeFloat_DeserializeFrom buf off is_null
      | kTypeChar \<Rightarrow> TypeChar_DeserializeFrom buf off is_null
      | kTypeInvalid \<Rightarrow> Inl (AssertionFailed ''DeserializeFrom not implemented.''))"

definition field_GetSerializedSize :: "Field \<Rightarrow> nat result" where
  "field_GetSerializedSize f =
     (case f_type f of
        kTypeInvalid \<Rightarrow> Inl (AssertionFailed ''GetSerializedSize not implemented.'')
      | kTypeChar \<Rightarrow> Inr (if f_null f then 0 else unat (f_len f) + 4)
      | t \<Rightarrow> if f_null f then Inr 0 else GetTypeSize t)"

section \<open>Comparison\<close>

text \<open>\<^verbatim>\<open>memcmp\<close> compares unsigned bytes up to the first difference.\<close>

fun memcmp :: "byte list \<Rightarrow> byte list \<Rightarrow> nat \<Rightarrow> int" where
  "memcmp (a # as) (b # bs) (Suc n) = (if a = b then memcmp as bs n else uint a - uint b)"
| "memcmp _ _ _ = 0"

definition CompareStrings :: "byte list \<Rightarrow> int \<Rightarrow> byte list \<Rightarrow> int \<Rightarrow> int result" where
  "CompareStrings str1 len1 str2 len2 =
     ASSERT (0 \<le> len1) ''len1 >= 0'' (ASSERT (0 \<le> len2) ''len2 >= 0''
       (let ret = memcmp str1 str2 (nat (min len1 len2))
        in Inr (if ret = 0 \<and> len1 \<noteq> len2 then len1 - len2 else ret)))"

text \<open>IEEE single precision on bit patterns: NaN is unordered, and both zeros are equal.\<close>

definition float_nan :: "32 word \<Rightarrow> bool" where
  "float_nan w \<longleftrightarrow> 0x7F800000 < w AND 0x7FFFFFFF"

definition float_key :: "32 word \<Rightarrow> int" where
  "float_key w = (if bit w 31 then - uint (w AND 0x7FFFFFFF) else uint (w AND 0x7FFFFFFF))"

definition float_eq :: "32 word \<Rightarrow> 32 word \<Rightarrow> bool" where
  "float_eq a b \<longleftrightarrow> \<not> float_nan a \<and> \<not> float_nan b \<and> float_key a = float_key b"

definition float_lt :: "32 word \<Rightarrow> 32 word \<Rightarrow> bool" where
  "float_lt a b \<longleftrightarrow> \<not> float_nan a \<and> \<not> float_nan b \<and> float_key a < float_key b"

definition float_le :: "32 word \<Rightarrow> 32 word \<Rightarrow> bool" where
  "float_le a b \<longleftrightarrow> \<not> float_nan a \<and> \<not> float_nan b \<and> float_key a \<le> float_key b"

text \<open>What the eighteen comparison methods share: the assertion on the types and the null test.\<close>

definition compare_with :: "Field \<Rightarrow> Field \<Rightarrow> (unit \<Rightarrow> bool result) \<Rightarrow> CmpBool result" where
  "compare_with left right test =
     ASSERT (CheckComparable left right) ''Not comparable.''
       (if f_null left \<or> f_null right then Inr kNull
        else bind_result (test ()) (\<lambda>b. Inr (GetCmpBool b)))"

definition compare_chars :: "Field \<Rightarrow> Field \<Rightarrow> int result" where
  "compare_chars left right =
     CompareStrings (chars_of (f_value left)) (sint (f_len left)) (chars_of (f_value right)) (sint (f_len right))"

definition TypeInt_CompareEquals :: "Field \<Rightarrow> Field \<Rightarrow> CmpBool result" where
  [cmp_defs]: "TypeInt_CompareEquals left right = compare_with left right
     (\<lambda>_. let a = integer_of (f_value left); b = integer_of (f_value right) in Inr (sint a = sint b))"

definition TypeInt_CompareNotEquals :: "Field \<Rightarrow> Field \<Rightarrow> CmpBool result" where
  [cmp_defs]: "TypeInt_CompareNotEquals left right = compare_with left right
     (\<lambda>_. let a = integer_of (f_value left); b = integer_of (f_value right) in Inr (sint a \<noteq> sint b))"

definition TypeInt_CompareLessThan :: "Field \<Rightarrow> Field \<Rightarrow> CmpBool result" where
  [cmp_defs]: "TypeInt_CompareLessThan left right = compare_with left right
     (\<lambda>_. let a = integer_of (f_value left); b = integer_of (f_value right) in Inr (sint a < sint b))"

definition TypeInt_CompareLessThanEquals :: "Field \<Rightarrow> Field \<Rightarrow> CmpBool result" where
  [cmp_defs]: "TypeInt_CompareLessThanEquals left right = compare_with left right
     (\<lambda>_. let a = integer_of (f_value left); b = integer_of (f_value right) in Inr (sint a \<le> sint b))"

definition TypeInt_CompareGreaterThan :: "Field \<Rightarrow> Field \<Rightarrow> CmpBool result" where
  [cmp_defs]: "TypeInt_CompareGreaterThan left right = compare_with left right
     (\<lambda>_. let a = integer_of (f_value left); b = integer_of (f_value right) in Inr (sint b < sint a))"

definition TypeInt_CompareGreaterThanEquals :: "Field \<Rightarrow> Field \<Rightarrow> CmpBool result" where
  [cmp_defs]: "TypeInt_CompareGreaterThanEquals left right = compare_with left right
     (\<lambda>_. let a = integer_of (f_value left); b = integer_of (f_value right) in Inr (sint b \<le> sint a))"

definition TypeFloat_CompareEquals :: "Field \<Rightarrow> Field \<Rightarrow> CmpBool result" where
  [cmp_defs]: "TypeFloat_CompareEquals left right = compare_with left right
     (\<lambda>_. let a = float_of_val (f_value left); b = float_of_val (f_value right) in Inr (float_eq a b))"

definition TypeFloat_CompareNotEquals :: "Field \<Rightarrow> Field \<Rightarrow> CmpBool result" where
  [cmp_defs]: "TypeFloat_CompareNotEquals left right = compare_with left right
     (\<lambda>_. let a = float_of_val (f_value left); b = float_of_val (f_value right) in Inr (\<not> float_eq a b))"

definition TypeFloat_CompareLessThan :: "Field \<Rightarrow> Field \<Rightarrow> CmpBool result" where
  [cmp_defs]: "TypeFloat_CompareLessThan left right = compare_with left right
     (\<lambda>_. let a = float_of_val (f_value left); b = float_of_val (f_value right) in Inr (float_lt a b))"

definition TypeFloat_CompareLessThanEquals :: "Field \<Rightarrow> Field \<Rightarrow> CmpBool result" where
  [cmp_defs]: "TypeFloat_CompareLessThanEquals left right = compare_with left right
     (\<lambda>_. let a = float_of_val (f_value left); b = float_of_val (f_value right) in Inr (float_le a b))"

definition TypeFloat_CompareGreaterThan :: "Field \<Rightarrow> Field \<Rightarrow> CmpBool result" where
  [cmp_defs]: "TypeFloat_CompareGreaterThan left right = compare_with left right
     (\<lambda>_. let a = float_of_val (f_value left); b = float_of_val (f_value right) in Inr (float_lt b a))"

definition TypeFloat_CompareGreaterThanEquals :: "Field \<Rightarrow> Field \<Rightarrow> CmpBool result" where
  [cmp_defs]: "TypeFloat_CompareGreaterThanEquals left right = compare_with left right
     (\<lambda>_. let a = float_of_val (f_value left); b = float_of_val (f_value right) in Inr (float_le b a))"

definition TypeChar_CompareEquals :: "Field \<Rightarrow> Field \<Rightarrow> CmpBool result" where
  [cmp_defs]: "TypeChar_CompareEquals left right = compare_with left right
     (\<lambda>_. bind_result (compare_chars left right) (\<lambda>c. Inr (c = 0)))"

definition TypeChar_CompareNotEquals :: "Field \<Rightarrow> Field \<Rightarrow> CmpBool result" where
  [cmp_defs]: "TypeChar_CompareNotEquals left right = compare_with left right
     (\<lambda>_. bind_result (compare_chars left right) (\<lambda>c. Inr (c \<noteq> 0)))"

definition TypeChar_CompareLessThan :: "Field \<Rightarrow> Field \<Rightarrow> CmpBool result" where
  [cmp_defs]: "TypeChar_CompareLessThan left right = compare_with left right
     (\<lambda>_. bind_result (compare_chars left right) (\<lambda>c. Inr (c < 0)))"

definition TypeChar_CompareLessThanEquals :: "Field \<Rightarrow> Field \<Rightarrow> CmpBool result" where
  [cmp_defs]: "TypeChar_CompareLessThanEquals left right = compare_with left right
     (\<lambda>_. bind_result (compare_chars left right) (\<lambda>c. Inr (c \<le> 0)))"

definition TypeChar_CompareGreaterThan :: "Field \<Rightarrow> Field \<Rightarrow> CmpBool result" where
  [cmp_defs]: "TypeChar_CompareGreaterThan left right = compare_with left right
     (\<lambda>_. bind_result (compare_chars left right) (\<lambda>c. Inr (c > 0)))"

definition TypeChar_CompareGreaterThanEquals :: "Field \<Rightarrow> Field \<Rightarrow> CmpBool result" where
  [cmp_defs]: "TypeChar_CompareGreaterThanEquals left right = compare_with left right
     (\<lambda>_. bind_result (compare_chars left right) (\<lambda>c. Inr (c \<ge> 0)))"

definition CompareEquals :: "Field \<Rightarrow> Field \<Rightarrow> CmpBool result" where
  [cmp_defs]: "CompareEquals left right =
     (case f_type left of
        kTypeInt \<Rightarrow> TypeInt_CompareEquals left right
      | kTypeFloat \<Rightarrow> TypeFloat_CompareEquals left right
      | kTypeChar \<Rightarrow> TypeChar_CompareEquals left right
      | kTypeInvalid \<Rightarrow> Inl (AssertionFailed ''CompareEquals not implemented.''))"

definition CompareNotEquals :: "Field \<Rightarrow> Field \<Rightarrow> CmpBool result" where
  [cmp_defs]: "CompareNotEquals left right =
     (case f_type left of
        kTypeInt \<Rightarrow> TypeInt_CompareNotEquals left right
      | kTypeFloat \<Rightarrow> TypeFloat_CompareNotEquals left right
      | kTypeChar \<Rightarrow> TypeChar_CompareNotEquals left right
      | kTypeInvalid \<Rightarrow> Inl (AssertionFailed ''CompareNotEquals not implemented.''))"

definition CompareLessThan :: "Field \<Rightarrow> Field \<Rightarrow> CmpBool result" where
  [cmp_defs]: "CompareLessThan left right =
     (case f_type left of
        kTypeInt \<Rightarrow> TypeInt_CompareLessThan left right
      | kTypeFloat \<Rightarrow> TypeFloat_CompareLessThan left right
      | kTypeChar \<Rightarrow> TypeChar_CompareLessThan left right
      | kTypeInvalid \<Rightarrow> Inl (AssertionFailed ''CompareLessThan not implemented.''))"

definition CompareLessThanEquals :: "Field \<Rightarrow> Field \<Rightarrow> CmpBool result" where
  [cmp_defs]: "CompareLessThanEquals left right =
     (case f_type left of
        kTypeInt \<Rightarrow> TypeInt_CompareLessThanEquals left right
      | kTypeFloat \<Rightarrow> TypeFloat_CompareLessThanEquals left right
      | kTypeChar \<Rightarrow> TypeChar_CompareLessThanEquals left right
      | kTypeInvalid \<Rightarrow> Inl (AssertionFailed ''CompareLessThanEquals not implemented.''))"

definition CompareGreaterThan :: "Field \<Rightarrow> Field \<Rightarrow> CmpBool result" where
  [cmp_defs]: "CompareGreaterThan left right =
     (case f_type left of
        kTypeInt \<Rightarrow> TypeInt_CompareGreaterThan left right
      | kTypeFloat \<Rightarrow> TypeFloat_CompareGreaterThan left right
      | kTypeChar \<Rightarrow> TypeChar_CompareGreaterThan left right
      | kTypeInvalid \<Rightarrow> Inl (AssertionFailed ''CompareGreaterThan not implemented.''))"

definition CompareGreaterThanEquals :: "Field \<Rightarrow> Field \<Rightarrow> CmpBool result" where
  [cmp_defs]: "CompareGreaterThanEquals left right =
     (case f_type left of
        kTypeInt \<Rightarrow> TypeInt_CompareGreaterThanEquals left right
      | kTypeFloat \<Rightarrow> TypeFloat_CompareGreaterThanEquals left right
      | kTypeChar \<Rightarrow> TypeChar_CompareGreaterThanEquals left right
      | kTypeInvalid \<Rightarrow> Inl (AssertionFailed ''CompareGreaterThanEquals not implemented.''))"

section \<open>Well-formed fields\<close>

definition wf_field :: "Field \<Rightarrow> bool" where
  "wf_field f \<longleftrightarrow> f_type f \<noteq> kTypeInvalid \<and>
     (\<not> f_null f \<longrightarrow>
        (case f_value f of
           Integer _ \<Rightarrow> f_type f = kTypeInt \<and> f_len f = 4
         | Float _ \<Rightarrow> f_type f = kTypeFloat \<and> f_len f = 4
         | Chars cs \<Rightarrow> f_type f = kTypeChar \<and> unat (f_len f) = length cs \<and> length cs < VARCHAR_MAX_LEN
         | Unset \<Rightarrow> False))"

text \<open>What a reader gets for a field: nulls lose their length, characters are copied.\<close>

definition field_canon :: "Field \<Rightarrow> Field" where
  "field_canon f = (if f_null f then Field_null (f_type f) else f\<lparr>f_manage := (f_type f = kTypeChar)\<rparr>)"

definition field_enc :: "Field \<Rightarrow> byte list" where
  "field_enc f =
     (if f_null f then []
      else case f_value f of
             Integer i \<Rightarrow> le_enc 4 i
           | Float w \<Rightarrow> le_enc 4 w
           | Chars cs \<Rightarrow> le_enc 4 (f_len f) @ cs
           | Unset \<Rightarrow> [])"

lemma wf_field_constructors:
  "Field_int kTypeInt i = Inr f \<Longrightarrow> wf_field f"
  "Field_float kTypeFloat w = Inr f \<Longrightarrow> wf_field f"
  "length cs = unat len \<Longrightarrow> Field_char kTypeChar (Some cs) len True = Inr f \<Longrightarrow> wf_field f"
  "t \<noteq> kTypeInvalid \<Longrightarrow> wf_field (Field_null t)"
  by (auto simp: Field_int_def Field_float_def Field_char_def Field_null_def wf_field_def ASSERT_def
      split: if_splits)

lemma wf_field_cases [consumes 1, case_names Null Int Float Char]:
  assumes "wf_field f"
  obtains "f_null f" "f_type f \<noteq> kTypeInvalid"
  | i where "\<not> f_null f" "f_type f = kTypeInt" "f_value f = Integer i" "f_len f = 4"
  | w where "\<not> f_null f" "f_type f = kTypeFloat" "f_value f = Float w" "f_len f = 4"
  | cs where "\<not> f_null f" "f_type f = kTypeChar" "f_value f = Chars cs" "unat (f_len f) = length cs"
      "length cs < VARCHAR_MAX_LEN"
  using assms by (cases "f_value f") (auto simp: wf_field_def)

text \<open>The wire format of a field, as the methods write, measure and read it.\<close>

lemma field_ser_enc:
  assumes "wf_field f" "off + length (field_enc f) \<le> length buf"
  shows "field_SerializeTo f buf off = Inr (wr buf off (field_enc f), length (field_enc f))"
  using assms(1)
proof (cases rule: wf_field_cases)
  case Null
  then show ?thesis
    by (cases "f_type f")
       (simp_all add: field_SerializeTo_def TypeInt_SerializeTo_def TypeFloat_SerializeTo_def
          TypeChar_SerializeTo_def field_enc_def)
next
  case (Int i)
  then show ?thesis by (simp add: field_SerializeTo_def TypeInt_SerializeTo_def field_enc_def wr32_def)
next
  case (Float w)
  then show ?thesis by (simp add: field_SerializeTo_def TypeFloat_SerializeTo_def field_enc_def wr32_def)
next
  case (Char cs)
  then show ?thesis
    using assms(2) wr_wr_append [of off "le_enc 4 (f_len f)" cs buf]
    by (simp add: field_SerializeTo_def TypeChar_SerializeTo_def field_enc_def wr32_def)
qed

lemma field_size_enc: "wf_field f \<Longrightarrow> field_GetSerializedSize f = Inr (length (field_enc f))"
  by (cases f rule: wf_field_cases; cases "f_type f")
     (auto simp: field_GetSerializedSize_def GetTypeSize_def field_enc_def)

lemma field_des_enc:
  assumes wf: "wf_field f" and room: "off + length (field_enc f) \<le> length buf"
    and rd: "rd (length (field_enc f)) buf off = field_enc f"
  shows "field_DeserializeFrom (f_type f) (f_null f) buf off = Inr (field_canon f, length (field_enc f))"
  using wf
proof (cases rule: wf_field_cases)
  case Null
  then show ?thesis
    by (cases "f_type f")
       (simp_all add: field_DeserializeFrom_def TypeInt_DeserializeFrom_def TypeFloat_DeserializeFrom_def
          TypeChar_DeserializeFrom_def field_enc_def field_canon_def)
next
  case (Int i)
  then have "rd32 buf off = i" using rd by (intro rd32_of_enc) (simp add: field_enc_def)
  with Int show ?thesis
    by (simp add: field_DeserializeFrom_def TypeInt_DeserializeFrom_def field_enc_def field_canon_def
        Field_int_def)
next
  case (Float w)
  then have "rd32 buf off = w" using rd by (intro rd32_of_enc) (simp add: field_enc_def)
  with Float show ?thesis
    by (simp add: field_DeserializeFrom_def TypeFloat_DeserializeFrom_def field_enc_def field_canon_def
        Field_float_def)
next
  case (Char cs)
  have enc: "field_enc f = le_enc 4 (f_len f) @ cs" using Char by (simp add: field_enc_def)
  note parts = rd_takeI [of "le_enc 4 (f_len f)" cs buf off, folded enc, OF rd room]
  have "rd32 buf off = f_len f" using parts(1) by (intro rd32_of_enc) simp
  moreover have "take (length cs) (drop (off + 4) buf) = cs" using parts(2) by (simp add: rd_def)
  ultimately show ?thesis
    using Char enc
    by (simp add: field_DeserializeFrom_def TypeChar_DeserializeFrom_def field_canon_def Field_char_def)
qed

section \<open>The order behind the comparisons\<close>

fun val_less :: "Val \<Rightarrow> Val \<Rightarrow> bool" where
  "val_less (Integer x) (Integer y) \<longleftrightarrow> sint x < sint y"
| "val_less (Float x) (Float y) \<longleftrightarrow> float_key x < float_key y"
| "val_less (Chars x) (Chars y) \<longleftrightarrow> x < y"
| "val_less _ _ \<longleftrightarrow> False"

fun val_same :: "Val \<Rightarrow> Val \<Rightarrow> bool" where
  "val_same (Integer x) (Integer y) \<longleftrightarrow> x = y"
| "val_same (Float x) (Float y) \<longleftrightarrow> float_key x = float_key y"
| "val_same (Chars x) (Chars y) \<longleftrightarrow> x = y"
| "val_same _ _ \<longleftrightarrow> False"

text \<open>A field that can be ordered: well formed, not null, and not a NaN.\<close>

definition comparable :: "Field \<Rightarrow> bool" where
  "comparable f \<longleftrightarrow> wf_field f \<and> \<not> f_null f \<and> (\<forall>w. f_value f = Float w \<longrightarrow> \<not> float_nan w)"

lemma memcmp_lex:
  fixes a b :: "byte list"
  defines "c \<equiv> (let r = memcmp a b (min (length a) (length b))
     in if r = 0 \<and> length a \<noteq> length b then int (length a) - int (length b) else r)"
  shows "c = 0 \<longleftrightarrow> a = b" "c < 0 \<longleftrightarrow> a < b"
proof -
  let ?c = "\<lambda>a b. (let r = memcmp a b (min (length a) (length b))
     in if r = 0 \<and> length a \<noteq> length b then int (length a) - int (length b) else r)"
  have "(?c a b = 0 \<longleftrightarrow> a = b) \<and> (?c a b < 0 \<longleftrightarrow> a < b)"
  proof (induction a arbitrary: b)
    case Nil
    then show ?case by (cases b) (simp_all add: Let_def)
  next
    case (Cons x a)
    show ?case
    proof (cases b)
      case (Cons y b')
      show ?thesis
      proof (cases "x = y")
        case True
        then show ?thesis using Cons.IH [of b'] Cons by (simp add: Let_def split: if_splits)
      next
        case False
        then have "uint x \<noteq> uint y" by (simp add: word_uint_eq_iff)
        then show ?thesis using False Cons by (simp add: Let_def word_less_def)
      qed
    qed (simp add: Let_def)
  qed
  then show "c = 0 \<longleftrightarrow> a = b" "c < 0 \<longleftrightarrow> a < b" unfolding c_def by blast+
qed

lemma sint_len: "unat (n :: 32 word) < VARCHAR_MAX_LEN \<Longrightarrow> sint n = int (unat n)"
  by (rule sint_small) (simp add: VARCHAR_MAX_LEN_def PAGE_SIZE_def)

lemma compare_chars_order:
  assumes "f_value l = Chars a" "f_value r = Chars b" "unat (f_len l) = length a" "unat (f_len r) = length b"
    "length a < VARCHAR_MAX_LEN" "length b < VARCHAR_MAX_LEN"
  obtains c where "compare_chars l r = Inr c" "c = 0 \<longleftrightarrow> a = b" "c < 0 \<longleftrightarrow> a < b" "0 < c \<longleftrightarrow> b < a"
proof -
  let ?c = "let r = memcmp a b (min (length a) (length b))
     in if r = 0 \<and> length a \<noteq> length b then int (length a) - int (length b) else r"
  have len: "sint (f_len l) = int (length a)" "sint (f_len r) = int (length b)"
    using sint_len [of "f_len l"] sint_len [of "f_len r"] assms(3-6) by simp_all
  have nat: "nat (min (int (length a)) (int (length b))) = min (length a) (length b)" by simp
  have "compare_chars l r = Inr ?c"
    unfolding compare_chars_def CompareStrings_def len nat by (simp add: assms Let_def)
  moreover have "0 < ?c \<longleftrightarrow> b < a" using memcmp_lex [of a b] by (metis linorder_neqE not_less_iff_gr_or_eq)
  ultimately show thesis using that [of ?c] memcmp_lex [of a b] by blast
qed

lemma comparable_cases [consumes 3, case_names Int Float Char]:
  assumes "comparable l" "comparable r" "f_type l = f_type r"
  obtains i j where "f_type l = kTypeInt" "f_value l = Integer i" "f_value r = Integer j"
  | v w where "f_type l = kTypeFloat" "f_value l = Float v" "f_value r = Float w" "\<not> float_nan v" "\<not> float_nan w"
  | a b where "f_type l = kTypeChar" "f_value l = Chars a" "f_value r = Chars b"
      "unat (f_len l) = length a" "unat (f_len r) = length b" "length a < VARCHAR_MAX_LEN"
      "length b < VARCHAR_MAX_LEN"
  using assms unfolding comparable_def
  by (cases "f_value l"; cases "f_value r") (auto simp: wf_field_def)

lemma field_compare_order:
  assumes "comparable l" "comparable r" "f_type l = f_type r"
  shows "CompareLessThan l r = Inr (GetCmpBool (val_less (f_value l) (f_value r))) \<and>
    CompareGreaterThan l r = Inr (GetCmpBool (val_less (f_value r) (f_value l))) \<and>
    CompareEquals l r = Inr (GetCmpBool (val_same (f_value l) (f_value r))) \<and>
    CompareNotEquals l r = Inr (GetCmpBool (\<not> val_same (f_value l) (f_value r))) \<and>
    CompareLessThanEquals l r = Inr (GetCmpBool (\<not> val_less (f_value r) (f_value l))) \<and>
    CompareGreaterThanEquals l r = Inr (GetCmpBool (\<not> val_less (f_value l) (f_value r))) \<and>
    of_bool (val_less (f_value l) (f_value r)) + of_bool (val_same (f_value l) (f_value r)) +
      of_bool (val_less (f_value r) (f_value l)) = (1 :: nat)"
proof -
  have nn: "\<not> f_null l" "\<not> f_null r" using assms by (simp_all add: comparable_def)
  from assms show ?thesis
  proof (cases rule: comparable_cases)
    case (Int i j)
    then show ?thesis
      using nn assms(3) by (auto simp add: cmp_defs compare_with_def CheckComparable_def not_less)
  next
    case (Float v w)
    then show ?thesis
      using nn assms(3) by (simp add: cmp_defs compare_with_def CheckComparable_def float_eq_def float_lt_def
          float_le_def not_less)
  next
    case (Char a b)
    obtain c where c: "compare_chars l r = Inr c" "c = 0 \<longleftrightarrow> a = b" "c < 0 \<longleftrightarrow> a < b" "0 < c \<longleftrightarrow> b < a"
      by (rule compare_chars_order [OF Char(2-7)])
    have "(c \<le> 0) = (\<not> b < a)" "(0 \<le> c) = (\<not> a < b)" using c(3,4) by linarith+
    then show ?thesis
      using Char nn assms(3) c by (simp add: cmp_defs compare_with_def CheckComparable_def)
        (auto simp: of_bool_def)
  qed
qed

text \<open>C24. On well-formed, non-null fields of one type (and no NaN), the six comparison methods agree
  with one linear order: signed order for integers, numeric order for floats, lexicographic order of
  unsigned bytes for characters; exactly one of less, equal and greater holds.\<close>

theorem field_compare_linear:
  assumes "comparable l" "comparable r" "f_type l = f_type r"
  shows "CompareLessThan l r = Inr (GetCmpBool (val_less (f_value l) (f_value r))) \<and>
    CompareGreaterThan l r = Inr (GetCmpBool (val_less (f_value r) (f_value l))) \<and>
    CompareEquals l r = Inr (GetCmpBool (val_same (f_value l) (f_value r))) \<and>
    CompareNotEquals l r = Inr (GetCmpBool (\<not> val_same (f_value l) (f_value r))) \<and>
    CompareLessThanEquals l r = Inr (GetCmpBool (\<not> val_less (f_value r) (f_value l))) \<and>
    CompareGreaterThanEquals l r = Inr (GetCmpBool (\<not> val_less (f_value l) (f_value r))) \<and>
    of_bool (val_less (f_value l) (f_value r)) + of_bool (val_same (f_value l) (f_value r)) +
      of_bool (val_less (f_value r) (f_value l)) = (1 :: nat)"
  by (rule field_compare_order [OF assms])

theorem field_compare_linear_witness:
  "\<exists>l r. comparable l \<and> comparable r \<and> f_type l = f_type r \<and> CompareLessThan l r = Inr kTrue"
proof -
  let ?f = "\<lambda>i. \<lparr>f_value = Integer i, f_type = kTypeInt, f_len = 4, f_null = False, f_manage = False\<rparr>"
  have "comparable (?f i)" for i by (simp add: comparable_def wf_field_def)
  moreover have "CompareLessThan (?f (- 1)) (?f 1) = Inr kTrue"
    using field_compare_linear [OF calculation calculation, of "- 1" 1] by (simp add: GetCmpBool_def)
  ultimately show ?thesis by (intro exI [of _ "?f (- 1)"] exI [of _ "?f 1"]) simp
qed

end
