(* ===== verification/Schema_Codec.thy ===== *)
theory Schema_Codec
  imports Field_Types
begin

text \<open>
  Columns and schemas (\<^verbatim>\<open>src/include/record/column.h\<close>, \<^verbatim>\<open>schema.h\<close>, \<^verbatim>\<open>src/record/column.cpp\<close>,
  \<^verbatim>\<open>schema.cpp\<close>): their constructors, their lookup functions and their serialized form, with the
  round trip through a page.
\<close>

record Column =
  col_name :: "byte list"
  col_type :: TypeId
  col_len :: "32 word"
  col_table_ind :: "32 word"
  col_nullable :: bool
  col_unique :: bool

definition COLUMN_MAGIC_NUM :: "32 word" where
  "COLUMN_MAGIC_NUM = 210928"

definition Column_fixed :: "byte list \<Rightarrow> TypeId \<Rightarrow> 32 word \<Rightarrow> bool \<Rightarrow> bool \<Rightarrow> Column result" where
  "Column_fixed name t index nullable unique =
     ASSERT (t \<noteq> kTypeChar) ''Wrong constructor for CHAR type.''
       (case t of
          kTypeInt \<Rightarrow> Inr \<lparr>col_name = name, col_type = t, col_len = 4, col_table_ind = index,
                         col_nullable = nullable, col_unique = unique\<rparr>
        | kTypeFloat \<Rightarrow> Inr \<lparr>col_name = name, col_type = t, col_len = 4, col_table_ind = index,
                         col_nullable = nullable, col_unique = unique\<rparr>
        | _ \<Rightarrow> Inl (AssertionFailed ''Unsupported column type.''))"

definition Column_char :: "byte list \<Rightarrow> TypeId \<Rightarrow> 32 word \<Rightarrow> 32 word \<Rightarrow> bool \<Rightarrow> bool \<Rightarrow> Column result" where
  "Column_char name t len index nullable unique =
     ASSERT (t = kTypeChar) ''Wrong constructor for non-VARCHAR type.''
       (Inr \<lparr>col_name = name, col_type = t, col_len = len, col_table_ind = index,
             col_nullable = nullable, col_unique = unique\<rparr>)"

definition Column_copy :: "Column \<Rightarrow> Column" where
  "Column_copy other = \<lparr>col_name = col_name other, col_type = col_type other, col_len = col_len other,
     col_table_ind = col_table_ind other, col_nullable = col_nullable other, col_unique = col_unique other\<rparr>"

definition column_SerializeTo :: "Column \<Rightarrow> byte list \<Rightarrow> nat \<Rightarrow> (byte list \<times> nat) result" where
  "column_SerializeTo c buf off =
     (let n = length (col_name c);
          buf = wr32 buf off COLUMN_MAGIC_NUM;
          buf = wr32 buf (off + 4) (of_nat n);
          buf = wr buf (off + 8) (col_name c);
          buf = wr32 buf (off + 8 + n) (TypeId_num (col_type c));
          buf = wr32 buf (off + 12 + n) (col_len c);
          buf = wr32 buf (off + 16 + n) (col_table_ind c);
          buf = wr32 buf (off + 20 + n) (if col_nullable c then 1 else 0);
          buf = wr32 buf (off + 24 + n) (if col_unique c then 1 else 0)
      in Inr (buf, 28 + n))"

definition column_GetSerializedSize :: "Column \<Rightarrow> nat result" where
  "column_GetSerializedSize c = Inr (4 + 4 + length (col_name c) + 4 + 4 + 4 + 4 + 4)"

text \<open>A type number that is no enumerator is read as an enumeration value no \<^verbatim>\<open>case\<close> matches.\<close>

definition TypeId_of :: "32 word \<Rightarrow> TypeId" where
  "TypeId_of w = (if w = 1 then kTypeInt else if w = 2 then kTypeFloat else if w = 3 then kTypeChar
     else kTypeInvalid)"

definition column_DeserializeFrom :: "unit \<Rightarrow> byte list \<Rightarrow> nat \<Rightarrow> (Column \<times> nat) result" where
  "column_DeserializeFrom _ buf off =
     ASSERT (rd32 buf off = COLUMN_MAGIC_NUM) ''Failed to deserialize column.''
       (let name_len = unat (rd32 buf (off + 4));
            name = rd name_len buf (off + 8);
            t = TypeId_of (rd32 buf (off + 8 + name_len));
            len = rd32 buf (off + 12 + name_len);
            table_ind = rd32 buf (off + 16 + name_len);
            nullable = (rd32 buf (off + 20 + name_len) \<noteq> 0);
            unique = (rd32 buf (off + 24 + name_len) \<noteq> 0)
        in bind_result
             (if t = kTypeChar then Column_char name t len table_ind nullable unique
              else Column_fixed name t table_ind nullable unique)
             (\<lambda>column. Inr (column, 28 + name_len)))"

section \<open>Schemas\<close>

type_synonym Schema = "Column list"

definition SCHEMA_MAGIC_NUM :: "32 word" where
  "SCHEMA_MAGIC_NUM = 200715"

definition GetColumnCount :: "Schema \<Rightarrow> nat" where
  "GetColumnCount s = length s"

text \<open>\<^verbatim>\<open>GetColumnIndex\<close> leaves its output argument alone when the name is unknown.\<close>

fun find_column :: "Schema \<Rightarrow> byte list \<Rightarrow> nat \<Rightarrow> nat option" where
  "find_column [] name i = None"
| "find_column (c # cs) name i = (if col_name c = name then Some i else find_column cs name (Suc i))"

definition GetColumnIndex :: "Schema \<Rightarrow> byte list \<Rightarrow> nat \<Rightarrow> dberr_t \<times> nat" where
  "GetColumnIndex s name index =
     (case find_column s name 0 of Some i \<Rightarrow> (DB_SUCCESS, i) | None \<Rightarrow> (DB_COLUMN_NAME_NOT_EXIST, index))"

definition ShallowCopySchema :: "Schema \<Rightarrow> nat list \<Rightarrow> Schema" where
  "ShallowCopySchema s attrs = map (\<lambda>i. s ! i) attrs"

definition DeepCopySchema :: "Schema \<Rightarrow> Schema" where
  "DeepCopySchema from = map (\<lambda>i. Column_copy (from ! i)) [0..<GetColumnCount from]"

definition schema_SerializeTo :: "Schema \<Rightarrow> byte list \<Rightarrow> nat \<Rightarrow> (byte list \<times> nat) result" where
  "schema_SerializeTo s buf off =
     (let buf = wr32 buf off SCHEMA_MAGIC_NUM;
          buf = wr32 buf (off + 4) (of_nat (length s))
      in bind_result (ser_seq column_SerializeTo s buf (off + 8)) (\<lambda>(buf, off'). Inr (buf, off' - off)))"

definition schema_GetSerializedSize :: "Schema \<Rightarrow> nat result" where
  "schema_GetSerializedSize s = size_seq column_GetSerializedSize s 8"

definition schema_DeserializeFrom :: "unit \<Rightarrow> byte list \<Rightarrow> nat \<Rightarrow> (Schema \<times> nat) result" where
  "schema_DeserializeFrom _ buf off =
     ASSERT (rd32 buf off = SCHEMA_MAGIC_NUM) ''Failed to deserialize schema.''
       (let column_count = unat (rd32 buf (off + 4))
        in bind_result (des_seq column_DeserializeFrom (replicate column_count ()) buf (off + 8))
             (\<lambda>(columns, off'). Inr (columns, off' - off)))"

section \<open>Columns round trip\<close>

definition column_ok :: "unit \<Rightarrow> Column \<Rightarrow> bool" where
  "column_ok _ c \<longleftrightarrow> length (col_name c) < 2 ^ 32 \<and> col_type c \<noteq> kTypeInvalid \<and>
     (col_type c \<noteq> kTypeChar \<longrightarrow> col_len c = 4)"

definition column_enc :: "Column \<Rightarrow> byte list" where
  "column_enc c = le_enc 4 COLUMN_MAGIC_NUM @ le_enc 4 (of_nat (length (col_name c)) :: 32 word) @ col_name c @
     le_enc 4 (TypeId_num (col_type c)) @ le_enc 4 (col_len c) @ le_enc 4 (col_table_ind c) @
     le_enc 4 (if col_nullable c then 1 else 0 :: 32 word) @ le_enc 4 (if col_unique c then 1 else 0 :: 32 word)"

lemma length_column_enc [simp]: "length (column_enc c) = 28 + length (col_name c)"
  by (simp add: column_enc_def)

lemma column_constructors_ok:
  "length name < 2 ^ 32 \<Longrightarrow> Column_fixed name t i n u = Inr c \<Longrightarrow> column_ok () c"
  "length name < 2 ^ 32 \<Longrightarrow> Column_char name t l i n u = Inr c \<Longrightarrow> column_ok () c"
  by (auto simp: Column_fixed_def Column_char_def column_ok_def ASSERT_def split: if_splits TypeId.splits)

lemma Column_copy_id [simp]: "Column_copy c = c"
  by (cases c) (simp add: Column_copy_def)

lemma TypeId_of_num [simp]: "TypeId_of (TypeId_num t) = t"
  by (cases t) (simp_all add: TypeId_of_def TypeId_num_def)

text \<open>Consecutive writes are one write of the concatenation.\<close>

lemma wr_wr_append': "off' = off + length a \<Longrightarrow> off + length a + length b \<le> length buf \<Longrightarrow>
    wr (wr buf off a) off' b = wr buf off (a @ b)"
  by (simp add: wr_wr_append)

lemma column_ser_enc:
  assumes "off + length (column_enc c) \<le> length buf"
  shows "column_SerializeTo c buf off = Inr (wr buf off (column_enc c), length (column_enc c))"
  using assms
  by (simp add: column_SerializeTo_def Let_def wr32_def wr_wr_append' column_enc_def)

lemma column_des_enc:
  assumes ok: "column_ok () c" and room: "off + length (column_enc c) \<le> length buf"
    and rd: "rd (length (column_enc c)) buf off = column_enc c"
  shows "column_DeserializeFrom u buf off = Inr (c, length (column_enc c))"
proof -
  let ?n = "length (col_name c)"
  have unn: "unat (of_nat ?n :: 32 word) = ?n" using ok by (simp add: column_ok_def unat_of_nat_small)
  note slice = rd_slice [OF rd room]
  have f32: "rd32 buf (off + i) = w" if "rd 4 (column_enc c) i = le_enc 4 w" "i + 4 \<le> 28 + ?n" for i w
    using rd32_slice [OF rd room, of i w] that by simp
  have 1: "rd32 buf off = COLUMN_MAGIC_NUM"
    using f32 [of 0 COLUMN_MAGIC_NUM] by (simp add: column_enc_def rd_def)
  have 2: "rd32 buf (off + 4) = of_nat ?n" by (rule f32) (simp_all add: column_enc_def rd_def)
  have 3: "rd ?n buf (off + 8) = col_name c" using slice [of 8 ?n] by (simp add: column_enc_def rd_def)
  have 4: "rd32 buf (off + (8 + ?n)) = TypeId_num (col_type c)" by (rule f32) (simp_all add: column_enc_def rd_def)
  have 5: "rd32 buf (off + (12 + ?n)) = col_len c" by (rule f32) (simp_all add: column_enc_def rd_def)
  have 6: "rd32 buf (off + (16 + ?n)) = col_table_ind c" by (rule f32) (simp_all add: column_enc_def rd_def)
  have 7: "rd32 buf (off + (20 + ?n)) = (if col_nullable c then 1 else 0)" by (rule f32) (simp_all add: column_enc_def rd_def)
  have 8: "rd32 buf (off + (24 + ?n)) = (if col_unique c then 1 else 0)" by (rule f32) (simp_all add: column_enc_def rd_def)
  note reads = 1 2 3 4 5 6 7 8
  show ?thesis
  proof (cases "col_type c")
    case kTypeInvalid
    with ok show ?thesis by (simp add: column_ok_def)
  qed (use ok in \<open>simp_all add: column_DeserializeFrom_def reads [simplified add.assoc [symmetric]] unn Let_def
      Column_char_def Column_fixed_def column_ok_def\<close>)
qed

interpretation column: codec column_SerializeTo column_DeserializeFrom column_GetSerializedSize column_ok
  column_enc "\<lambda>c. c"
  by unfold_locales (simp_all add: column_ser_enc column_GetSerializedSize_def column_des_enc)

section \<open>Schemas round trip\<close>

definition schema_ok :: "unit \<Rightarrow> Schema \<Rightarrow> bool" where
  "schema_ok _ s \<longleftrightarrow> length s < 2 ^ 32 \<and> (\<forall>c \<in> set s. column_ok () c)"

definition schema_enc :: "Schema \<Rightarrow> byte list" where
  "schema_enc s = (le_enc 4 SCHEMA_MAGIC_NUM @ le_enc 4 (of_nat (length s) :: 32 word)) @ concat (map column_enc s)"

lemma schema_columns_ok: "schema_ok u s \<Longrightarrow> list_all2 column_ok (replicate (length s) ()) s"
  by (auto simp: schema_ok_def list_all2_conv_all_nth)

lemma schema_ser_enc:
  assumes "schema_ok u s" "off + length (schema_enc s) \<le> length buf"
  shows "schema_SerializeTo s buf off = Inr (wr buf off (schema_enc s), length (schema_enc s))"
proof -
  let ?h = "le_enc 4 SCHEMA_MAGIC_NUM @ le_enc 4 (of_nat (length s) :: 32 word)"
  let ?buf = "wr buf off ?h"
  have head: "wr32 (wr32 buf off SCHEMA_MAGIC_NUM) (off + 4) (of_nat (length s)) = ?buf"
    using assms(2) by (simp add: wr32_def wr_wr_append' schema_enc_def)
  have "ser_seq column_SerializeTo s ?buf (off + 8) =
      Inr (wr ?buf (off + 8) (concat (map column_enc s)), off + 8 + length (concat (map column_enc s)))"
    using assms(2) by (intro column.seq_ser [OF schema_columns_ok [OF assms(1)]]) (simp add: schema_enc_def)
  moreover have "wr ?buf (off + 8) (concat (map column_enc s)) = wr buf off (schema_enc s)"
    unfolding schema_enc_def using assms(2) by (intro wr_wr_append') (simp_all add: schema_enc_def)
  ultimately show ?thesis
    unfolding schema_SerializeTo_def Let_def head by (simp add: schema_enc_def)
qed

lemma schema_des_enc:
  assumes ok: "schema_ok u s" and room: "off + length (schema_enc s) \<le> length buf"
    and rd: "rd (length (schema_enc s)) buf off = schema_enc s"
  shows "schema_DeserializeFrom v buf off = Inr (s, length (schema_enc s))"
proof -
  let ?h = "le_enc 4 SCHEMA_MAGIC_NUM @ le_enc 4 (of_nat (length s) :: 32 word)"
  note split = rd_takeI [of ?h "concat (map column_enc s)" buf off, folded schema_enc_def, OF rd room]
  have "off + length ?h \<le> length buf" using room by (simp add: schema_enc_def)
  note hd = rd_takeI [OF split(1) this]
  have 1: "rd32 buf off = SCHEMA_MAGIC_NUM" using hd(1) by (intro rd32_of_enc) simp
  have 2: "rd32 buf (off + 4) = of_nat (length s)" using hd(2) by (intro rd32_of_enc) simp
  have n: "unat (of_nat (length s) :: 32 word) = length s"
    using ok by (simp add: schema_ok_def unat_of_nat_small)
  have "des_seq column_DeserializeFrom (replicate (length s) ()) buf (off + 8) =
      Inr (map (\<lambda>c. c) s, off + 8 + length (concat (map column_enc s)))"
    using split(2) room by (intro column.seq_des [OF schema_columns_ok [OF ok]]) (simp_all add: schema_enc_def)
  then show ?thesis
    by (simp add: schema_DeserializeFrom_def 1 2 n Let_def schema_enc_def)
qed

lemma schema_size_enc: "schema_ok u s \<Longrightarrow> schema_GetSerializedSize s = Inr (length (schema_enc s))"
  using column.seq_size [OF schema_columns_ok, of u s 8] by (simp add: schema_GetSerializedSize_def schema_enc_def)

interpretation schema: codec schema_SerializeTo schema_DeserializeFrom schema_GetSerializedSize schema_ok
  schema_enc "\<lambda>s. s"
  by unfold_locales (blast intro: schema_ser_enc schema_size_enc schema_des_enc)+

lemma find_column_nth:
  "distinct (map col_name s) \<Longrightarrow> i < length s \<Longrightarrow> find_column s (col_name (s ! i)) k = Some (k + i)"
proof (induction s arbitrary: i k)
  case (Cons c s)
  then show ?case by (cases i) (auto simp: nth_mem)
qed simp

lemma find_column_None: "name \<notin> col_name ` set s \<Longrightarrow> find_column s name k = None"
  by (induction s arbitrary: k) auto

section \<open>Properties\<close>

text \<open>C25. A schema written into a buffer with room for \<^verbatim>\<open>GetSerializedSize\<close> bytes is read back
  identically, both report exactly that many bytes, and nothing outside those bytes is touched.\<close>

theorem schema_roundtrip:
  assumes "schema_ok () s" "schema_GetSerializedSize s = Inr n" "off + n \<le> length buf"
  shows "\<exists>buf'. schema_SerializeTo s buf off = Inr (buf', n) \<and> schema_DeserializeFrom () buf' off = Inr (s, n) \<and>
    take off buf' = take off buf \<and> drop (off + n) buf' = drop (off + n) buf"
proof -
  have n: "n = length (schema_enc s)" using schema_size_enc [OF assms(1)] assms(2) by simp
  have "schema_SerializeTo s buf off = Inr (wr buf off (schema_enc s), n)"
    using schema_ser_enc [OF assms(1)] assms(3) n by simp
  moreover have "schema_DeserializeFrom () (wr buf off (schema_enc s)) off = Inr (s, n)"
    using schema_des_enc [OF assms(1), of off "wr buf off (schema_enc s)"] assms(3) n by (simp add: rd_wr_same)
  moreover have "take off (wr buf off (schema_enc s)) = take off buf"
    "drop (off + n) (wr buf off (schema_enc s)) = drop (off + n) buf"
    using assms(3) n by (simp_all add: wr_def min_absorb1)
  ultimately show ?thesis by blast
qed

definition example_schema :: Schema where
  "example_schema =
     [\<lparr>col_name = [105, 100], col_type = kTypeInt, col_len = 4, col_table_ind = 0, col_nullable = False,
       col_unique = True\<rparr>,
      \<lparr>col_name = [110], col_type = kTypeChar, col_len = 64, col_table_ind = 1, col_nullable = True,
       col_unique = False\<rparr>]"

theorem schema_roundtrip_witness:
  "\<exists>buf'. schema_SerializeTo example_schema (replicate 4096 0) 8 = Inr (buf', 67) \<and>
     schema_DeserializeFrom () buf' 8 = Inr (example_schema, 67)"
proof -
  have "schema_ok () example_schema" by (simp add: example_schema_def schema_ok_def column_ok_def)
  moreover have "schema_GetSerializedSize example_schema = Inr 67"
    by (simp add: schema_GetSerializedSize_def example_schema_def column_GetSerializedSize_def)
  ultimately show ?thesis using schema_roundtrip [of example_schema 67 8 "replicate 4096 0"] by auto
qed

end
