(* ===== verification/Row_Id.thy ===== *)
theory Row_Id
  imports MiniSQL_Prelude
begin

text \<open>
  Record identifiers (\<^verbatim>\<open>src/include/common/rowid.h\<close>): a page number and a slot number, packed
  into one 64-bit integer by \<^verbatim>\<open>RowId::Get\<close> and unpacked by \<^verbatim>\<open>RowId(int64_t)\<close>. The packed form is
  what the hash of the lock table and the iterators' end test compare.
\<close>

record RowId =
  rid_page_id :: page_id_t
  rid_slot_num :: "32 word"

definition mk_RowId :: "page_id_t \<Rightarrow> 32 word \<Rightarrow> RowId" where
  "mk_RowId p s = \<lparr>rid_page_id = p, rid_slot_num = s\<rparr>"

definition RowId_of_int64 :: "64 word \<Rightarrow> RowId" where
  "RowId_of_int64 rid = mk_RowId (ucast (signed_drop_bit 32 rid)) (ucast rid)"

definition RowId_Get :: "RowId \<Rightarrow> 64 word" where
  "RowId_Get r = push_bit 32 (scast (rid_page_id r)) OR ucast (rid_slot_num r)"

definition RowId_Set :: "page_id_t \<Rightarrow> 32 word \<Rightarrow> RowId \<Rightarrow> RowId" where
  "RowId_Set p s r = r\<lparr>rid_page_id := p, rid_slot_num := s\<rparr>"

definition RowId_eq :: "RowId \<Rightarrow> RowId \<Rightarrow> bool" where
  "RowId_eq a b \<longleftrightarrow> rid_page_id a = rid_page_id b \<and> rid_slot_num a = rid_slot_num b"

definition INVALID_ROWID :: RowId where
  "INVALID_ROWID = mk_RowId INVALID_PAGE_ID 0"

lemma RowId_eq_iff: "RowId_eq a b \<longleftrightarrow> a = b"
  by (auto simp: RowId_eq_def)

lemma mk_RowId_sel [simp]:
  "rid_page_id (mk_RowId p s) = p" "rid_slot_num (mk_RowId p s) = s"
  by (simp_all add: mk_RowId_def)

lemma bit_RowId_Get:
  "bit (RowId_Get r) k \<longleftrightarrow>
     (if k < 32 then bit (rid_slot_num r) k else k < 64 \<and> bit (rid_page_id r) (k - 32))"
proof -
  have "k - 32 = 31" if "31 \<le> k - 32" "k < 64" using that by linarith
  then show ?thesis
    by (auto simp: RowId_Get_def bit_simps min_def dest: bit_imp_le_length)
qed

text \<open>Packing a record identifier into 64 bits and unpacking it again gives the identifier
  back, and every 64-bit value is the packing of the identifier it unpacks to: the two functions are
  mutually inverse.\<close>

theorem RowId_roundtrip:
  "RowId_of_int64 (RowId_Get r) = r \<and> RowId_Get (RowId_of_int64 x) = x"
proof
  have "ucast (signed_drop_bit 32 (RowId_Get r)) = rid_page_id r"
    by (rule bit_word_eqI) (auto simp: bit_simps bit_RowId_Get)
  moreover have "ucast (RowId_Get r) = rid_slot_num r"
    by (rule bit_word_eqI) (auto simp: bit_simps bit_RowId_Get)
  ultimately show "RowId_of_int64 (RowId_Get r) = r"
    by (simp add: RowId_of_int64_def mk_RowId_def)
  show "RowId_Get (RowId_of_int64 x) = x"
    by (rule bit_word_eqI) (auto simp: bit_simps bit_RowId_Get RowId_of_int64_def)
qed

lemma RowId_Get_inject: "RowId_Get a = RowId_Get b \<longleftrightarrow> a = b"
proof
  assume "RowId_Get a = RowId_Get b"
  then have bits: "bit (RowId_Get a) k = bit (RowId_Get b) k" for k by simp
  have "rid_slot_num a = rid_slot_num b"
    by (rule bit_word_eqI) (use bits in \<open>force simp: bit_RowId_Get split: if_splits\<close>)
  moreover have "rid_page_id a = rid_page_id b"
  proof (rule bit_word_eqI)
    fix k assume "k < LENGTH(32)"
    then show "bit (rid_page_id a) k = bit (rid_page_id b) k"
      using bits [of "k + 32"] by (simp add: bit_RowId_Get)
  qed
  ultimately show "a = b" by simp
qed simp

end
