(* ===== verification/Row_Codec.thy ===== *)
theory Row_Codec
  imports Schema_Codec Row_Id
begin

text \<open>
  Rows (\<^verbatim>\<open>src/include/record/row.h\<close>, \<^verbatim>\<open>src/record/row.cpp\<close>): field count, null bitmap and fields, with
  the round trip, and the projection of a row to an index key.
\<close>

record Row =
  row_rid :: RowId
  row_fields :: "Field list"

definition Row_of_fields :: "Field list \<Rightarrow> Row" where
  "Row_of_fields fs = \<lparr>row_rid = mk_RowId INVALID_PAGE_ID 0, row_fields = map Field_copy fs\<rparr>"

definition Row_of_rid :: "RowId \<Rightarrow> Row" where
  "Row_of_rid rid = \<lparr>row_rid = rid, row_fields = []\<rparr>"

definition Row_copy :: "Row \<Rightarrow> Row" where
  "Row_copy other = \<lparr>row_rid = row_rid other, row_fields = map Field_copy (row_fields other)\<rparr>"

definition GetField :: "Row \<Rightarrow> nat \<Rightarrow> Field result" where
  "GetField r idx = ASSERT (idx < length (row_fields r)) ''Failed to access field'' (Inr (row_fields r ! idx))"

primrec set_null_bits :: "Field list \<Rightarrow> nat \<Rightarrow> nat \<Rightarrow> byte list \<Rightarrow> byte list" where
  "set_null_bits [] i base buf = buf"
| "set_null_bits (f # fs) i base buf =
     set_null_bits fs (Suc i) base
       (if f_null f then buf[base + i div 8 := buf ! (base + i div 8) OR push_bit (i mod 8) 1] else buf)"

definition row_SerializeTo :: "Row \<Rightarrow> Schema \<Rightarrow> byte list \<Rightarrow> nat \<Rightarrow> (byte list \<times> nat) result" where
  "row_SerializeTo r schema buf off =
     ASSERT (GetColumnCount schema = length (row_fields r)) ''Fields size do not match schema's column size.''
       (let field_count = GetColumnCount schema;
            bitmap_size = (field_count + 7) div 8;
            buf = wr32 buf off (of_nat field_count);
            buf = wr buf (off + 4) (replicate bitmap_size 0);
            buf = set_null_bits (row_fields r) 0 (off + 4) buf
        in bind_result
             (ser_seq (\<lambda>f b p. if \<not> f_null f then field_SerializeTo f b p else Inr (b, 0))
                (row_fields r) buf (off + 4 + bitmap_size))
             (\<lambda>(buf, off'). Inr (buf, off' - off)))"

definition row_DeserializeFrom :: "Row \<Rightarrow> Schema \<Rightarrow> byte list \<Rightarrow> nat \<Rightarrow> (Row \<times> nat) result" where
  "row_DeserializeFrom r schema buf off =
     ASSERT (row_fields r = []) ''Non empty field in row.''
       (let field_count = unat (rd32 buf off)
        in ASSERT (field_count = GetColumnCount schema) ''Field count does not match schema.''
          (let bitmap_size = (field_count + 7) div 8
           in bind_result
                (des_seq (\<lambda>i b p. field_DeserializeFrom (col_type (schema ! i))
                            (b ! (off + 4 + i div 8) AND push_bit (i mod 8) 1 \<noteq> 0) b p)
                   [0..<field_count] buf (off + 4 + bitmap_size))
                (\<lambda>(fields, off'). Inr (r\<lparr>row_fields := fields\<rparr>, off' - off))))"

definition row_GetSerializedSize :: "Row \<Rightarrow> Schema \<Rightarrow> nat result" where
  "row_GetSerializedSize r schema =
     ASSERT (GetColumnCount schema = length (row_fields r)) ''Fields size do not match schema's column size.''
       (size_seq field_GetSerializedSize (row_fields r) (4 + (GetColumnCount schema + 7) div 8))"

text \<open>\<^verbatim>\<open>idx\<close> is declared outside the loop: an unknown column name leaves the index of the column before.\<close>

primrec key_fields :: "Schema \<Rightarrow> Row \<Rightarrow> Column list \<Rightarrow> nat \<Rightarrow> Field list result" where
  "key_fields schema r [] idx = Inr []"
| "key_fields schema r (c # cs) idx =
     (let (_, idx) = GetColumnIndex schema (col_name c) idx
      in bind_result (GetField r idx) (\<lambda>f.
         bind_result (key_fields schema r cs idx) (\<lambda>fs. Inr (Field_copy f # fs))))"

definition GetKeyFromRow :: "Row \<Rightarrow> Schema \<Rightarrow> Schema \<Rightarrow> nat \<Rightarrow> Row result" where
  "GetKeyFromRow r schema key_schema idx0 =
     bind_result (key_fields schema r key_schema idx0) (\<lambda>fields. Inr (Row_of_fields fields))"

section \<open>The null bitmap\<close>

definition null_bitmap :: "Field list \<Rightarrow> byte list" where
  "null_bitmap fs = set_null_bits fs 0 0 (replicate ((length fs + 7) div 8) 0)"

lemma length_set_null_bits [simp]: "length (set_null_bits fs i base buf) = length buf"
  by (induction fs arbitrary: i buf) simp_all

lemma length_null_bitmap [simp]: "length (null_bitmap fs) = (length fs + 7) div 8"
  by (simp add: null_bitmap_def)

lemma set_null_bits_local:
  "(i + length fs + 7) div 8 \<le> length bm \<Longrightarrow>
   set_null_bits fs i (length pre) (pre @ bm @ post) = pre @ set_null_bits fs i 0 bm @ post"
proof (induction fs arbitrary: i bm)
  case (Cons f fs)
  have "i div 8 < (i + length (f # fs) + 7) div 8" by (simp add: div_less_iff_less_mult)
  then have "i div 8 < length bm" using Cons.prems by linarith
  then show ?case
    using Cons.prems Cons.IH [of "Suc i"]
    by (simp add: list_update_append nth_append)
qed simp

lemma bit_set_null_bits:
  "(i + length fs + 7) div 8 \<le> length bm \<Longrightarrow> k < length bm \<Longrightarrow> j < 8 \<Longrightarrow>
   bit (set_null_bits fs i 0 bm ! k) j \<longleftrightarrow>
     bit (bm ! k) j \<or> (\<exists>m < length fs. f_null (fs ! m) \<and> 8 * k + j = i + m)"
proof (induction fs arbitrary: i bm)
  case (Cons f fs)
  have "i div 8 < (i + length (f # fs) + 7) div 8" by (simp add: div_less_iff_less_mult)
  then have ib: "i div 8 < length bm" using Cons.prems by linarith
  let ?bm = "if f_null f then bm[i div 8 := bm ! (i div 8) OR push_bit (i mod 8) 1] else bm"
  have pos: "k = i div 8 \<and> j = i mod 8 \<longleftrightarrow> 8 * k + j = i" using Cons.prems(3) by auto
  have "bit (?bm ! k) j \<longleftrightarrow> bit (bm ! k) j \<or> f_null f \<and> 8 * k + j = i"
    using ib Cons.prems(2,3) pos by (auto simp: nth_list_update bit_simps)
  moreover have "bit (set_null_bits fs (Suc i) 0 ?bm ! k) j \<longleftrightarrow>
     bit (?bm ! k) j \<or> (\<exists>m < length fs. f_null (fs ! m) \<and> 8 * k + j = Suc i + m)"
    using Cons.prems by (intro Cons.IH) auto
  moreover have "(\<exists>m < length (f # fs). f_null ((f # fs) ! m) \<and> 8 * k + j = i + m) \<longleftrightarrow>
      f_null f \<and> 8 * k + j = i \<or> (\<exists>m < length fs. f_null (fs ! m) \<and> 8 * k + j = Suc i + m)"
    by (auto simp: less_Suc_eq_0_disj)
  ultimately show ?case by auto
qed simp

lemma null_bitmap_bit:
  assumes "i < length fs"
  shows "null_bitmap fs ! (i div 8) AND push_bit (i mod 8) 1 \<noteq> 0 \<longleftrightarrow> f_null (fs ! i)"
proof -
  have "i div 8 < (length fs + 7) div 8" using assms by (simp add: div_less_iff_less_mult)
  then have "bit (null_bitmap fs ! (i div 8)) (i mod 8) \<longleftrightarrow> f_null (fs ! i)"
    using assms by (simp add: null_bitmap_def bit_set_null_bits)
  moreover have "(w AND push_bit n 1 \<noteq> 0) = bit w n" if "n < 8" for w :: byte and n
    by (simp add: bit_iff_and_push_bit_not_eq_0)
  ultimately show ?thesis by simp
qed

section \<open>Rows round trip\<close>

definition field_ser_nonnull :: "Field \<Rightarrow> byte list \<Rightarrow> nat \<Rightarrow> (byte list \<times> nat) result" where
  "field_ser_nonnull f b p = (if \<not> f_null f then field_SerializeTo f b p else Inr (b, 0))"

definition field_ok :: "TypeId \<times> bool \<Rightarrow> Field \<Rightarrow> bool" where
  "field_ok tn f \<longleftrightarrow> wf_field f \<and> tn = (f_type f, f_null f)"

interpretation field: codec field_ser_nonnull "\<lambda>(t, n). field_DeserializeFrom t n" field_GetSerializedSize
  field_ok field_enc field_canon
proof (unfold_locales, goal_cases)
  case (1 t x off buf)
  then show ?case
    by (cases "f_null x") (auto simp: field_ser_nonnull_def field_ok_def field_ser_enc field_enc_def)
qed (auto simp: field_ok_def field_size_enc field_des_enc)

definition row_ok :: "Schema \<Rightarrow> Row \<Rightarrow> bool" where
  "row_ok schema r \<longleftrightarrow> length schema = length (row_fields r) \<and> length schema < 2 ^ 32 \<and>
     (\<forall>i < length schema. wf_field (row_fields r ! i) \<and> f_type (row_fields r ! i) = col_type (schema ! i))"

definition row_enc :: "Row \<Rightarrow> byte list" where
  "row_enc r = (le_enc 4 (of_nat (length (row_fields r)) :: 32 word) @ null_bitmap (row_fields r)) @
     concat (map field_enc (row_fields r))"

lemma row_fields_ok:
  "row_ok schema r \<Longrightarrow>
   list_all2 field_ok (map (\<lambda>i. (col_type (schema ! i), f_null (row_fields r ! i))) [0..<length schema])
     (row_fields r)"
  by (auto simp: row_ok_def list_all2_conv_all_nth field_ok_def)

lemma row_size_enc: "row_ok schema r \<Longrightarrow> row_GetSerializedSize r schema = Inr (length (row_enc r))"
  using field.seq_size [OF row_fields_ok, of schema r]
  by (simp add: row_GetSerializedSize_def row_enc_def GetColumnCount_def row_ok_def)

lemma null_bits_written:
  assumes "off + 4 + (length fs + 7) div 8 \<le> length buf"
  shows "set_null_bits fs 0 (off + 4) (wr (wr32 buf off w) (off + 4) (replicate ((length fs + 7) div 8) 0)) =
    wr buf off (le_enc 4 w @ null_bitmap fs)"
proof -
  let ?n = "(length fs + 7) div 8"
  have "wr (wr32 buf off w) (off + 4) (replicate ?n 0) = wr buf off (le_enc 4 w @ replicate ?n 0)"
    unfolding wr32_def using assms by (intro wr_wr_append') simp_all
  also have "\<dots> = (take off buf @ le_enc 4 w) @ replicate ?n 0 @ drop (off + 4 + ?n) buf"
    by (simp add: wr_def add.assoc)
  finally have w: "wr (wr32 buf off w) (off + 4) (replicate ?n 0) =
      (take off buf @ le_enc 4 w) @ replicate ?n 0 @ drop (off + 4 + ?n) buf" .
  have "length (take off buf @ le_enc 4 w) = off + 4" using assms by simp
  with set_null_bits_local [of 0 fs "replicate ?n 0" "take off buf @ le_enc 4 w" "drop (off + 4 + ?n) buf"]
  show ?thesis unfolding w by (simp add: wr_def null_bitmap_def add.assoc)
qed

lemma row_ser_enc:
  assumes ok: "row_ok schema r" and room: "off + length (row_enc r) \<le> length buf"
  shows "row_SerializeTo r schema buf off = Inr (wr buf off (row_enc r), length (row_enc r))"
proof -
  let ?fs = "row_fields r"
  let ?h = "le_enc 4 (of_nat (length ?fs) :: 32 word) @ null_bitmap ?fs"
  let ?n = "(length ?fs + 7) div 8"
  have len: "length schema = length ?fs" using ok by (simp add: row_ok_def)
  have head: "set_null_bits ?fs 0 (off + 4) (wr (wr32 buf off (of_nat (length ?fs))) (off + 4) (replicate ?n 0)) =
      wr buf off ?h"
    using room by (intro null_bits_written) (simp add: row_enc_def)
  have "ser_seq field_ser_nonnull ?fs (wr buf off ?h) (off + 4 + ?n) =
      Inr (wr (wr buf off ?h) (off + 4 + ?n) (concat (map field_enc ?fs)),
           off + 4 + ?n + length (concat (map field_enc ?fs)))"
    using room by (intro field.seq_ser [OF row_fields_ok [OF ok]]) (simp add: row_enc_def)
  moreover have "wr (wr buf off ?h) (off + 4 + ?n) (concat (map field_enc ?fs)) = wr buf off (row_enc r)"
    unfolding row_enc_def using room by (intro wr_wr_append') (simp_all add: row_enc_def)
  ultimately show ?thesis
    by (simp add: row_SerializeTo_def GetColumnCount_def len head Let_def row_enc_def
        flip: field_ser_nonnull_def)
qed

lemma row_des_enc:
  assumes ok: "row_ok schema r" and room: "off + length (row_enc r) \<le> length buf"
    and rd: "rd (length (row_enc r)) buf off = row_enc r"
  shows "row_DeserializeFrom (Row_of_rid rid) schema buf off =
    Inr (\<lparr>row_rid = rid, row_fields = map field_canon (row_fields r)\<rparr>, length (row_enc r))"
proof -
  let ?fs = "row_fields r"
  let ?h = "le_enc 4 (of_nat (length ?fs) :: 32 word) @ null_bitmap ?fs"
  let ?n = "(length ?fs + 7) div 8"
  have len: "length schema = length ?fs" and small: "length ?fs < 2 ^ 32" using ok by (simp_all add: row_ok_def)
  note split = rd_takeI [of ?h "concat (map field_enc ?fs)" buf off, folded row_enc_def, OF rd room]
  have "off + length ?h \<le> length buf" using room by (simp add: row_enc_def)
  note hd = rd_takeI [OF split(1) this]
  have "rd32 buf off = of_nat (length ?fs)" using hd(1) by (intro rd32_of_enc) simp
  then have count: "unat (rd32 buf off) = length ?fs" using small by (simp add: unat_of_nat_small)
  have bm: "buf ! (off + 4 + k) = null_bitmap ?fs ! k" if "k < ?n" for k
  proof -
    have "rd ?n buf (off + 4) ! k = null_bitmap ?fs ! k" using hd(2) by simp
    moreover have "off + 4 + ?n \<le> length buf" using room by (simp add: row_enc_def)
    ultimately show ?thesis using that by (simp add: rd_def)
  qed
  have "des_seq (\<lambda>i b p. field_DeserializeFrom (col_type (schema ! i))
          (b ! (off + 4 + i div 8) AND push_bit (i mod 8) 1 \<noteq> 0) b p) [0..<length ?fs] buf (off + 4 + ?n) =
      des_seq (\<lambda>(t, n). field_DeserializeFrom t n)
        (map (\<lambda>i. (col_type (schema ! i), f_null (?fs ! i))) [0..<length ?fs]) buf (off + 4 + ?n)"
  proof (rule des_seq_map_cong)
    fix i p assume "i \<in> set [0..<length ?fs]"
    then have i: "i < length ?fs" by simp
    then have "i div 8 < ?n" by (simp add: div_less_iff_less_mult)
    then have "(buf ! (off + 4 + i div 8) AND push_bit (i mod 8) 1 \<noteq> 0) = f_null (?fs ! i)"
      using null_bitmap_bit [OF i] bm by simp
    then show "field_DeserializeFrom (col_type (schema ! i))
          (buf ! (off + 4 + i div 8) AND push_bit (i mod 8) 1 \<noteq> 0) buf p =
        (case (col_type (schema ! i), f_null (?fs ! i)) of (t, n) \<Rightarrow> field_DeserializeFrom t n) buf p" by simp
  qed
  also have "\<dots> = Inr (map field_canon ?fs, off + 4 + ?n + length (concat (map field_enc ?fs)))"
    using split(2) room row_fields_ok [OF ok] len
    by (intro field.seq_des) (simp_all add: row_enc_def add.assoc)
  finally show ?thesis
    by (simp add: row_DeserializeFrom_def Row_of_rid_def count GetColumnCount_def len Let_def row_enc_def)
qed

section \<open>Properties\<close>

text \<open>C16. A row that matches its schema is written in exactly \<^verbatim>\<open>GetSerializedSize\<close> bytes, nothing
  outside them is touched, and reading them back gives the same fields (null fields as nulls,
  characters as owned copies).\<close>

theorem row_roundtrip:
  assumes "row_ok schema r" "row_GetSerializedSize r schema = Inr n" "off + n \<le> length buf"
  shows "\<exists>buf'. row_SerializeTo r schema buf off = Inr (buf', n) \<and>
    take off buf' = take off buf \<and> drop (off + n) buf' = drop (off + n) buf \<and>
    row_DeserializeFrom (Row_of_rid (row_rid r)) schema buf' off =
      Inr (r\<lparr>row_fields := map field_canon (row_fields r)\<rparr>, n)"
proof -
  have n: "n = length (row_enc r)" using row_size_enc [OF assms(1)] assms(2) by simp
  let ?b = "wr buf off (row_enc r)"
  have "row_SerializeTo r schema buf off = Inr (?b, n)"
    using row_ser_enc [OF assms(1)] assms(3) n by simp
  moreover have "row_DeserializeFrom (Row_of_rid (row_rid r)) schema ?b off =
      Inr (r\<lparr>row_fields := map field_canon (row_fields r)\<rparr>, n)"
    using row_des_enc [OF assms(1), of off ?b "row_rid r"] assms(3) n by (simp add: rd_wr_same)
  moreover have "take off ?b = take off buf" "drop (off + n) ?b = drop (off + n) buf"
    using assms(3) n by (simp_all add: wr_def min_absorb1)
  ultimately show ?thesis by blast
qed

definition example_row :: Row where
  "example_row = \<lparr>row_rid = mk_RowId 3 7,
     row_fields = [\<lparr>f_value = Integer 42, f_type = kTypeInt, f_len = 4, f_null = False, f_manage = False\<rparr>,
                   Field_null kTypeChar]\<rparr>"

theorem row_roundtrip_witness:
  "\<exists>buf'. row_SerializeTo example_row example_schema (replicate 64 0) 10 = Inr (buf', 9) \<and>
     row_DeserializeFrom (Row_of_rid (mk_RowId 3 7)) example_schema buf' 10 = Inr (example_row, 9)"
proof -
  have "row_ok example_schema example_row"
    by (auto simp: row_ok_def example_schema_def example_row_def wf_field_def Field_null_def less_Suc_eq)
  moreover have "row_GetSerializedSize example_row example_schema = Inr 9"
    by (simp add: row_GetSerializedSize_def example_schema_def example_row_def GetColumnCount_def
        field_GetSerializedSize_def Field_null_def GetTypeSize_def)
  ultimately show ?thesis
    using row_roundtrip [of example_schema example_row 9 10 "replicate 64 0"]
    by (auto simp: example_row_def field_canon_def Field_null_def)
qed

text \<open>The key of a row under an index schema: for columns of a table schema with distinct names,
  \<^verbatim>\<open>GetKeyFromRow\<close> picks the row's fields at the indexed positions, in index order.\<close>

theorem GetKeyFromRow_projection:
  assumes "distinct (map col_name schema)" "length (row_fields r) = length schema"
    "\<forall>i \<in> set attrs. i < length schema" "\<forall>f \<in> set (row_fields r). wf_field f"
  shows "GetKeyFromRow r schema (ShallowCopySchema schema attrs) idx0 =
    Inr (Row_of_fields (map (\<lambda>i. row_fields r ! i) attrs))"
proof -
  have copy: "Field_copy f = f" if "wf_field f" for f
    using that by (cases f rule: wf_field_cases) (simp_all add: Field_copy_def)
  have "key_fields schema r (map (\<lambda>i. schema ! i) attrs) idx = Inr (map (\<lambda>i. row_fields r ! i) attrs)" for idx
    using assms(3)
  proof (induction attrs arbitrary: idx)
    case (Cons i attrs)
    then have "GetColumnIndex schema (col_name (schema ! i)) idx = (DB_SUCCESS, i)"
      using find_column_nth [OF assms(1), of i 0] by (simp add: GetColumnIndex_def)
    moreover have "GetField r i = Inr (row_fields r ! i)" using Cons.prems assms(2) by (simp add: GetField_def)
    moreover have "Field_copy (row_fields r ! i) = row_fields r ! i"
      using Cons.prems assms(2,4) by (intro copy) simp
    ultimately show ?case using Cons by simp
  qed simp
  then show ?thesis by (simp add: GetKeyFromRow_def ShallowCopySchema_def)
qed

theorem GetKeyFromRow_projection_witness:
  "GetKeyFromRow example_row example_schema (ShallowCopySchema example_schema [1, 0]) 0 =
     Inr (Row_of_fields [row_fields example_row ! 1, row_fields example_row ! 0])"
proof -
  have "distinct (map col_name example_schema)" "length (row_fields example_row) = length example_schema"
    "\<forall>i \<in> set [1, 0]. i < length example_schema" "\<forall>f \<in> set (row_fields example_row). wf_field f"
    by (simp_all add: example_schema_def example_row_def wf_field_def Field_null_def)
  from GetKeyFromRow_projection [OF this, of 0] show ?thesis by simp
qed

end
