(* ===== verification/Table_Page.thy ===== *)
theory Table_Page
  imports Row_Codec
begin

text \<open>
  The slotted page of a table heap (\<^verbatim>\<open>src/include/page/table_page.h\<close>, \<^verbatim>\<open>src/page/table_page.cpp\<close>), on
  the raw bytes of the page: header fields, the slot array, the two slot bitmaps and the tuples, which
  grow from the end of the page. Every accessor is a read or write at the offset the header file
  gives; \<^verbatim>\<open>memmove\<close> is a read followed by a write.
\<close>

section \<open>Layout\<close>

named_theorems tp_consts "offsets of the page layout"

definition BITMAP_WORD_BITS :: nat where [tp_consts]: "BITMAP_WORD_BITS = 64"
definition BITMAP_WORD_COUNT :: nat where [tp_consts]: "BITMAP_WORD_COUNT = 8"
definition BITMAP_SLOT_CAPACITY :: nat where
  [tp_consts]: "BITMAP_SLOT_CAPACITY = BITMAP_WORD_BITS * BITMAP_WORD_COUNT"
definition BITMAP_BYTES :: nat where [tp_consts]: "BITMAP_BYTES = BITMAP_WORD_COUNT * 8"
definition SIZE_TABLE_PAGE_HEADER :: nat where [tp_consts]: "SIZE_TABLE_PAGE_HEADER = 164"
definition SIZE_TUPLE :: nat where [tp_consts]: "SIZE_TUPLE = 8"
definition OFFSET_PREV_PAGE_ID :: nat where [tp_consts]: "OFFSET_PREV_PAGE_ID = 8"
definition OFFSET_NEXT_PAGE_ID :: nat where [tp_consts]: "OFFSET_NEXT_PAGE_ID = 12"
definition OFFSET_FREE_SPACE :: nat where [tp_consts]: "OFFSET_FREE_SPACE = 16"
definition OFFSET_TUPLE_COUNT :: nat where [tp_consts]: "OFFSET_TUPLE_COUNT = 20"
definition OFFSET_LIVE_TUPLE_COUNT :: nat where [tp_consts]: "OFFSET_LIVE_TUPLE_COUNT = 24"
definition OFFSET_PREV_INSERTABLE_PAGE_ID :: nat where [tp_consts]: "OFFSET_PREV_INSERTABLE_PAGE_ID = 28"
definition OFFSET_NEXT_INSERTABLE_PAGE_ID :: nat where [tp_consts]: "OFFSET_NEXT_INSERTABLE_PAGE_ID = 32"
definition OFFSET_OCCUPIED_BITMAP :: nat where [tp_consts]: "OFFSET_OCCUPIED_BITMAP = 36"
definition OFFSET_DELETED_BITMAP :: nat where
  [tp_consts]: "OFFSET_DELETED_BITMAP = OFFSET_OCCUPIED_BITMAP + BITMAP_BYTES"
definition OFFSET_TUPLE_OFFSET :: nat where
  [tp_consts]: "OFFSET_TUPLE_OFFSET = OFFSET_DELETED_BITMAP + BITMAP_BYTES"
definition OFFSET_TUPLE_SIZE :: nat where [tp_consts]: "OFFSET_TUPLE_SIZE = OFFSET_TUPLE_OFFSET + 4"
definition SIZE_MAX_ROW :: nat where
  "SIZE_MAX_ROW = PAGE_SIZE - SIZE_TABLE_PAGE_HEADER - SIZE_TUPLE"

type_synonym tpage = "byte list"

named_theorems tp_acc "accessors of the page"

definition GetTablePageId :: "tpage \<Rightarrow> page_id_t" where [tp_acc]: "GetTablePageId d = rd32 d 0"
definition GetPrevPageId :: "tpage \<Rightarrow> page_id_t" where [tp_acc]: "GetPrevPageId d = rd32 d OFFSET_PREV_PAGE_ID"
definition GetNextPageId :: "tpage \<Rightarrow> page_id_t" where [tp_acc]: "GetNextPageId d = rd32 d OFFSET_NEXT_PAGE_ID"
definition SetPrevPageId :: "page_id_t \<Rightarrow> tpage \<Rightarrow> tpage" where
  [tp_acc]: "SetPrevPageId p d = wr32 d OFFSET_PREV_PAGE_ID p"
definition SetNextPageId :: "page_id_t \<Rightarrow> tpage \<Rightarrow> tpage" where
  [tp_acc]: "SetNextPageId p d = wr32 d OFFSET_NEXT_PAGE_ID p"
definition GetPrevInsertablePageId :: "tpage \<Rightarrow> page_id_t" where
  [tp_acc]: "GetPrevInsertablePageId d = rd32 d OFFSET_PREV_INSERTABLE_PAGE_ID"
definition GetNextInsertablePageId :: "tpage \<Rightarrow> page_id_t" where
  [tp_acc]: "GetNextInsertablePageId d = rd32 d OFFSET_NEXT_INSERTABLE_PAGE_ID"
definition SetPrevInsertablePageId :: "page_id_t \<Rightarrow> tpage \<Rightarrow> tpage" where
  [tp_acc]: "SetPrevInsertablePageId p d = wr32 d OFFSET_PREV_INSERTABLE_PAGE_ID p"
definition SetNextInsertablePageId :: "page_id_t \<Rightarrow> tpage \<Rightarrow> tpage" where
  [tp_acc]: "SetNextInsertablePageId p d = wr32 d OFFSET_NEXT_INSERTABLE_PAGE_ID p"
definition GetFreeSpacePointer :: "tpage \<Rightarrow> 32 word" where
  [tp_acc]: "GetFreeSpacePointer d = rd32 d OFFSET_FREE_SPACE"
definition SetFreeSpacePointer :: "32 word \<Rightarrow> tpage \<Rightarrow> tpage" where
  [tp_acc]: "SetFreeSpacePointer v d = wr32 d OFFSET_FREE_SPACE v"
definition GetTupleCount :: "tpage \<Rightarrow> 32 word" where [tp_acc]: "GetTupleCount d = rd32 d OFFSET_TUPLE_COUNT"
definition SetTupleCount :: "32 word \<Rightarrow> tpage \<Rightarrow> tpage" where
  [tp_acc]: "SetTupleCount v d = wr32 d OFFSET_TUPLE_COUNT v"
definition GetLiveTupleCount :: "tpage \<Rightarrow> 32 word" where
  [tp_acc]: "GetLiveTupleCount d = rd32 d OFFSET_LIVE_TUPLE_COUNT"
definition SetLiveTupleCount :: "32 word \<Rightarrow> tpage \<Rightarrow> tpage" where
  [tp_acc]: "SetLiveTupleCount v d = wr32 d OFFSET_LIVE_TUPLE_COUNT v"

definition GetFreeSpaceRemaining :: "tpage \<Rightarrow> 32 word" where
  "GetFreeSpaceRemaining d =
     GetFreeSpacePointer d - of_nat SIZE_TABLE_PAGE_HEADER - of_nat SIZE_TUPLE * GetTupleCount d"

definition GetTupleOffsetAtSlot :: "tpage \<Rightarrow> nat \<Rightarrow> 32 word" where
  "GetTupleOffsetAtSlot d slot = rd32 d (OFFSET_TUPLE_OFFSET + SIZE_TUPLE * slot)"
definition SetTupleOffsetAtSlot :: "nat \<Rightarrow> 32 word \<Rightarrow> tpage \<Rightarrow> tpage" where
  "SetTupleOffsetAtSlot slot v d = wr32 d (OFFSET_TUPLE_OFFSET + SIZE_TUPLE * slot) v"
definition GetTupleSize :: "tpage \<Rightarrow> nat \<Rightarrow> 32 word" where
  "GetTupleSize d slot = rd32 d (OFFSET_TUPLE_SIZE + SIZE_TUPLE * slot)"
definition SetTupleSize :: "nat \<Rightarrow> 32 word \<Rightarrow> tpage \<Rightarrow> tpage" where
  "SetTupleSize slot v d = wr32 d (OFFSET_TUPLE_SIZE + SIZE_TUPLE * slot) v"

definition OccupiedWord :: "tpage \<Rightarrow> nat \<Rightarrow> 64 word" where
  "OccupiedWord d i = rd64 d (OFFSET_OCCUPIED_BITMAP + 8 * i)"
definition DeletedWord :: "tpage \<Rightarrow> nat \<Rightarrow> 64 word" where
  "DeletedWord d i = rd64 d (OFFSET_DELETED_BITMAP + 8 * i)"

definition IsSlotOccupied :: "tpage \<Rightarrow> nat \<Rightarrow> bool" where
  "IsSlotOccupied d slot \<longleftrightarrow>
     OccupiedWord d (slot div BITMAP_WORD_BITS) AND push_bit (slot mod BITMAP_WORD_BITS) 1 \<noteq> 0"
definition SetSlotOccupied :: "nat \<Rightarrow> bool \<Rightarrow> tpage \<Rightarrow> tpage" where
  "SetSlotOccupied slot occupied d =
     (let w = OccupiedWord d (slot div BITMAP_WORD_BITS); mask = push_bit (slot mod BITMAP_WORD_BITS) 1
      in wr64 d (OFFSET_OCCUPIED_BITMAP + 8 * (slot div BITMAP_WORD_BITS))
           (if occupied then w OR mask else w AND NOT mask))"
definition IsSlotDeleted :: "tpage \<Rightarrow> nat \<Rightarrow> bool" where
  "IsSlotDeleted d slot \<longleftrightarrow>
     DeletedWord d (slot div BITMAP_WORD_BITS) AND push_bit (slot mod BITMAP_WORD_BITS) 1 \<noteq> 0"
definition SetSlotDeleted :: "nat \<Rightarrow> bool \<Rightarrow> tpage \<Rightarrow> tpage" where
  "SetSlotDeleted slot deleted d =
     (let w = DeletedWord d (slot div BITMAP_WORD_BITS); mask = push_bit (slot mod BITMAP_WORD_BITS) 1
      in wr64 d (OFFSET_DELETED_BITMAP + 8 * (slot div BITMAP_WORD_BITS))
           (if deleted then w OR mask else w AND NOT mask))"

definition DELETE_MASK :: "32 word" where "DELETE_MASK = push_bit 31 1"
definition IsDeleted :: "32 word \<Rightarrow> bool" where
  "IsDeleted tuple_size \<longleftrightarrow> tuple_size AND DELETE_MASK \<noteq> 0 \<or> tuple_size = 0"
definition SetDeletedFlag :: "32 word \<Rightarrow> 32 word" where "SetDeletedFlag tuple_size = tuple_size OR DELETE_MASK"
definition UnsetDeletedFlag :: "32 word \<Rightarrow> 32 word" where
  "UnsetDeletedFlag tuple_size = tuple_size AND NOT DELETE_MASK"

section \<open>Operations\<close>

definition TablePage_Init :: "page_id_t \<Rightarrow> page_id_t \<Rightarrow> tpage \<Rightarrow> tpage" where
  "TablePage_Init page_id prev_id d =
     (let d = wr32 d 0 page_id;
          d = SetPrevPageId prev_id d;
          d = SetNextPageId INVALID_PAGE_ID d;
          d = SetPrevInsertablePageId INVALID_PAGE_ID d;
          d = SetNextInsertablePageId INVALID_PAGE_ID d;
          d = SetFreeSpacePointer (of_nat PAGE_SIZE) d;
          d = SetTupleCount 0 d;
          d = SetLiveTupleCount 0 d;
          d = wr d OFFSET_OCCUPIED_BITMAP (replicate BITMAP_BYTES 0);
          d = wr d OFFSET_DELETED_BITMAP (replicate BITMAP_BYTES 0)
      in d)"

text \<open>The inner loops over the bits of a bitmap word, and the outer loops over the words.\<close>

fun reusable_bit :: "64 word \<Rightarrow> nat \<Rightarrow> nat \<Rightarrow> nat list \<Rightarrow> nat option" where
  "reusable_bit occupied base_slot tuple_count [] = None"
| "reusable_bit occupied base_slot tuple_count (b # bs) =
     (if tuple_count \<le> base_slot + b then None
      else if occupied AND push_bit b 1 = 0 then Some (base_slot + b)
      else reusable_bit occupied base_slot tuple_count bs)"

fun reusable_word :: "tpage \<Rightarrow> nat \<Rightarrow> nat list \<Rightarrow> nat option" where
  "reusable_word d tuple_count [] = None"
| "reusable_word d tuple_count (w # ws) =
     (let base_slot = w * BITMAP_WORD_BITS
      in if tuple_count \<le> base_slot then None
         else let occupied = OccupiedWord d w;
                  valid_bits = tuple_count - base_slot;
                  occupied = (if valid_bits < BITMAP_WORD_BITS
                              then occupied OR NOT (push_bit valid_bits 1 - 1) else occupied)
              in case (if NOT occupied \<noteq> 0
                       then reusable_bit occupied base_slot tuple_count [0..<BITMAP_WORD_BITS] else None) of
                   Some slot \<Rightarrow> Some slot
                 | None \<Rightarrow> reusable_word d tuple_count ws)"

definition FindReusableSlot :: "tpage \<Rightarrow> nat result" where
  "FindReusableSlot d =
     (let tuple_count = unat (GetTupleCount d)
      in ASSERT (tuple_count \<le> BITMAP_SLOT_CAPACITY) ''Tuple slot count exceeds bitmap capacity.''
           (Inr (case reusable_word d tuple_count [0..<BITMAP_WORD_COUNT] of Some s \<Rightarrow> s | None \<Rightarrow> tuple_count)))"

fun live_bit :: "64 word \<Rightarrow> nat \<Rightarrow> nat \<Rightarrow> nat list \<Rightarrow> nat option" where
  "live_bit live base_slot tuple_count [] = None"
| "live_bit live base_slot tuple_count (b # bs) =
     (if tuple_count \<le> base_slot + b then None
      else if live AND push_bit b 1 \<noteq> 0 then Some (base_slot + b)
      else live_bit live base_slot tuple_count bs)"

fun live_word :: "tpage \<Rightarrow> nat \<Rightarrow> nat \<Rightarrow> nat list \<Rightarrow> nat option" where
  "live_word d tuple_count start_slot [] = None"
| "live_word d tuple_count start_slot (w # ws) =
     (let base_slot = w * BITMAP_WORD_BITS
      in if tuple_count \<le> base_slot then None
         else let live = OccupiedWord d w AND NOT (DeletedWord d w);
                  start_bit = (if w = start_slot div BITMAP_WORD_BITS then start_slot mod BITMAP_WORD_BITS else 0);
                  live = (if start_bit \<noteq> 0 then live AND push_bit start_bit (NOT 0) else live);
                  valid_bits = tuple_count - base_slot;
                  live = (if valid_bits < BITMAP_WORD_BITS then live AND (push_bit valid_bits 1 - 1) else live)
              in case (if live \<noteq> 0
                       then live_bit live base_slot tuple_count [start_bit..<BITMAP_WORD_BITS] else None) of
                   Some slot \<Rightarrow> Some slot
                 | None \<Rightarrow> live_word d tuple_count start_slot ws)"

text \<open>\<open>None\<close> is the result \<^verbatim>\<open>-1\<close>.\<close>

definition FindLiveSlot :: "tpage \<Rightarrow> nat \<Rightarrow> nat option result" where
  "FindLiveSlot d start_slot =
     (let tuple_count = unat (GetTupleCount d)
      in ASSERT (tuple_count \<le> BITMAP_SLOT_CAPACITY) ''Tuple slot count exceeds bitmap capacity.''
           (Inr (if tuple_count \<le> start_slot then None
                 else live_word d tuple_count start_slot [start_slot div BITMAP_WORD_BITS..<BITMAP_WORD_COUNT])))"

definition CanHostAnyTuple :: "tpage \<Rightarrow> bool result" where
  "CanHostAnyTuple d =
     bind_result (FindReusableSlot d) (\<lambda>slot.
       let has_reusable_slot = slot < unat (GetTupleCount d);
           min_required = (if has_reusable_slot then 1 else of_nat SIZE_TUPLE + 1)
       in Inr (min_required \<le> GetFreeSpaceRemaining d))"

definition InsertTuple :: "Row \<Rightarrow> Schema \<Rightarrow> tpage \<Rightarrow> (tpage \<times> Row \<times> bool) result" where
  "InsertTuple row schema d =
     bind_result (row_GetSerializedSize row schema) (\<lambda>n.
     let serialized_size = of_nat n :: 32 word
     in ASSERT (serialized_size > 0) ''Can not have empty row.''
     (bind_result (FindReusableSlot d) (\<lambda>slot_num.
     let reuse_existing_slot = slot_num < unat (GetTupleCount d);
         required_space = serialized_size + (if reuse_existing_slot then 0 else of_nat SIZE_TUPLE)
     in if GetFreeSpaceRemaining d < required_space then Inr (d, row, False)
        else if \<not> reuse_existing_slot \<and> BITMAP_SLOT_CAPACITY \<le> slot_num then Inr (d, row, False)
        else
          let d = (if \<not> reuse_existing_slot then SetTupleCount (of_nat slot_num + 1) d else d);
              d = SetFreeSpacePointer (GetFreeSpacePointer d - serialized_size) d
          in bind_result (row_SerializeTo row schema d (unat (GetFreeSpacePointer d))) (\<lambda>(d, write_bytes).
             ASSERT (of_nat write_bytes = serialized_size) ''Unexpected behavior in row serialize.''
             (let d = SetTupleOffsetAtSlot slot_num (GetFreeSpacePointer d) d;
                  d = SetTupleSize slot_num serialized_size d;
                  d = SetSlotOccupied slot_num True d;
                  d = SetSlotDeleted slot_num False d;
                  d = SetLiveTupleCount (GetLiveTupleCount d + 1) d
              in Inr (d, row\<lparr>row_rid := mk_RowId (GetTablePageId d) (of_nat slot_num)\<rparr>, True))))))"

definition MarkDelete :: "RowId \<Rightarrow> tpage \<Rightarrow> tpage \<times> bool" where
  "MarkDelete rid d =
     (let slot_num = unat (rid_slot_num rid)
      in if unat (GetTupleCount d) \<le> slot_num \<or> \<not> IsSlotOccupied d slot_num then (d, False)
         else let tuple_size = GetTupleSize d slot_num
              in if IsDeleted tuple_size \<or> IsSlotDeleted d slot_num then (d, False)
                 else let d = SetTupleSize slot_num (SetDeletedFlag tuple_size) d;
                          d = SetSlotDeleted slot_num True d;
                          d = SetLiveTupleCount (GetLiveTupleCount d - 1) d
                      in (d, True))"

text \<open>The loops at the end of \<^verbatim>\<open>UpdateTuple\<close> and \<^verbatim>\<open>ApplyDelete\<close>, which move the offsets of the tuples
  below a bound.\<close>

fun shift_offsets :: "32 word \<Rightarrow> 32 word \<Rightarrow> nat list \<Rightarrow> tpage \<Rightarrow> tpage" where
  "shift_offsets bound delta [] d = d"
| "shift_offsets bound delta (i # is) d =
     (let tuple_offset_i = GetTupleOffsetAtSlot d i
      in shift_offsets bound delta is
           (if IsSlotOccupied d i \<and> tuple_offset_i < bound
            then SetTupleOffsetAtSlot i (tuple_offset_i + delta) d else d))"

definition UpdateTuple :: "Row \<Rightarrow> Row \<Rightarrow> Schema \<Rightarrow> tpage \<Rightarrow> (tpage \<times> Row \<times> bool) result" where
  "UpdateTuple new_row old_row schema d =
     ASSERT (RowId_Get (row_rid old_row) \<noteq> RowId_Get INVALID_ROWID) ''invalid old row.''
     (bind_result (row_GetSerializedSize new_row schema) (\<lambda>n.
     let serialized_size = of_nat n :: 32 word
     in ASSERT (serialized_size > 0) ''Can not have empty row.''
     (let slot_num = unat (rid_slot_num (row_rid old_row))
      in if unat (GetTupleCount d) \<le> slot_num \<or> \<not> IsSlotOccupied d slot_num then Inr (d, old_row, False)
         else let tuple_size = GetTupleSize d slot_num
              in if IsDeleted tuple_size \<or> IsSlotDeleted d slot_num then Inr (d, old_row, False)
                 else if GetFreeSpaceRemaining d + tuple_size < serialized_size then Inr (d, old_row, False)
                 else
     let tuple_offset = GetTupleOffsetAtSlot d slot_num
     in bind_result (row_DeserializeFrom old_row schema d (unat tuple_offset)) (\<lambda>(old_row, read_bytes).
        ASSERT (tuple_size = of_nat read_bytes) ''Unexpected behavior in tuple deserialize.''
        (let free_space_pointer = GetFreeSpacePointer d
         in ASSERT (free_space_pointer \<le> tuple_offset) ''Offset should appear after current free space position.''
         (let d = memmove (unat (free_space_pointer + tuple_size - serialized_size)) (unat free_space_pointer)
                    (unat (tuple_offset - free_space_pointer)) d;
              d = SetFreeSpacePointer (free_space_pointer + tuple_size - serialized_size) d
          in bind_result (row_SerializeTo new_row schema d (unat (tuple_offset + tuple_size - serialized_size)))
               (\<lambda>(d, _).
               let d = SetTupleSize slot_num serialized_size d;
                   d = shift_offsets (tuple_offset + tuple_size) (tuple_size - serialized_size)
                         [0..<unat (GetTupleCount d)] d
               in Inr (d, old_row, True))))))))"

definition ApplyDelete :: "RowId \<Rightarrow> tpage \<Rightarrow> tpage result" where
  "ApplyDelete rid d =
     (let slot_num = unat (rid_slot_num rid)
      in ASSERT (slot_num < unat (GetTupleCount d)) ''Cannot have more slots than tuples.''
      (if \<not> IsSlotOccupied d slot_num then Inr d
       else
         let raw_tuple_size = GetTupleSize d slot_num;
             tuple_was_live = (raw_tuple_size \<noteq> 0 \<and> \<not> IsDeleted raw_tuple_size);
             tuple_offset = GetTupleOffsetAtSlot d slot_num;
             tuple_size = (if IsDeleted raw_tuple_size then UnsetDeletedFlag raw_tuple_size else raw_tuple_size)
         in if tuple_size = 0 then Inr d
            else
              let free_space_pointer = GetFreeSpacePointer d
              in ASSERT (free_space_pointer \<le> tuple_offset) ''Free space appears before tuples.''
              (let d = memmove (unat (free_space_pointer + tuple_size)) (unat free_space_pointer)
                         (unat (tuple_offset - free_space_pointer)) d;
                   d = SetFreeSpacePointer (free_space_pointer + tuple_size) d;
                   d = SetTupleSize slot_num 0 d;
                   d = SetTupleOffsetAtSlot slot_num 0 d;
                   d = SetSlotOccupied slot_num False d;
                   d = SetSlotDeleted slot_num False d;
                   d = (if tuple_was_live then SetLiveTupleCount (GetLiveTupleCount d - 1) d else d)
               in Inr (shift_offsets tuple_offset tuple_size [0..<unat (GetTupleCount d)] d))))"

definition RollbackDelete :: "RowId \<Rightarrow> tpage \<Rightarrow> tpage result" where
  "RollbackDelete rid d =
     (let slot_num = unat (rid_slot_num rid)
      in ASSERT (slot_num < unat (GetTupleCount d)) ''We can't have more slots than tuples.''
      (if \<not> IsSlotOccupied d slot_num then Inr d
       else
         let tuple_size = GetTupleSize d slot_num
         in Inr (if tuple_size \<noteq> 0 \<and> (IsDeleted tuple_size \<or> IsSlotDeleted d slot_num)
                 then let d = SetTupleSize slot_num (UnsetDeletedFlag tuple_size) d
                      in if IsSlotDeleted d slot_num
                         then let d = SetSlotDeleted slot_num False d
                              in SetLiveTupleCount (GetLiveTupleCount d + 1) d
                         else d
                 else d)))"

definition GetTuple :: "Row \<Rightarrow> Schema \<Rightarrow> tpage \<Rightarrow> (Row \<times> bool) result" where
  "GetTuple row schema d =
     ASSERT (RowId_Get (row_rid row) \<noteq> RowId_Get INVALID_ROWID) ''Invalid row.''
     (let slot_num = unat (rid_slot_num (row_rid row))
      in if unat (GetTupleCount d) \<le> slot_num \<or> \<not> IsSlotOccupied d slot_num then Inr (row, False)
         else let tuple_size = GetTupleSize d slot_num
              in if tuple_size = 0 \<or> IsDeleted tuple_size \<or> IsSlotDeleted d slot_num then Inr (row, False)
                 else let tuple_offset = GetTupleOffsetAtSlot d slot_num
                      in bind_result (row_DeserializeFrom row schema d (unat tuple_offset)) (\<lambda>(row, read_bytes).
                         ASSERT (tuple_size = of_nat read_bytes) ''Unexpected behavior in tuple deserialize.''
                           (Inr (row, True))))"

definition GetFirstTupleRid :: "tpage \<Rightarrow> (RowId \<times> bool) result" where
  "GetFirstTupleRid d =
     (if GetLiveTupleCount d = 0 then Inr (mk_RowId INVALID_PAGE_ID 0, False)
      else bind_result (FindLiveSlot d 0) (\<lambda>s. case s of
             None \<Rightarrow> Inr (mk_RowId INVALID_PAGE_ID 0, False)
           | Some slot_num \<Rightarrow> Inr (mk_RowId (GetTablePageId d) (of_nat slot_num), True)))"

definition GetNextTupleRid :: "tpage \<Rightarrow> RowId \<Rightarrow> (RowId \<times> bool) result" where
  "GetNextTupleRid d cur_rid =
     ASSERT (rid_page_id cur_rid = GetTablePageId d) ''Wrong table!''
     (bind_result (FindLiveSlot d (unat (rid_slot_num cur_rid + 1))) (\<lambda>s. case s of
        None \<Rightarrow> Inr (mk_RowId INVALID_PAGE_ID 0, False)
      | Some slot_num \<Rightarrow> Inr (mk_RowId (GetTablePageId d) (of_nat slot_num), True)))"

section \<open>Frame lemmas\<close>

text \<open>What every setter leaves alone, for a page of the right length and slots that lie in it.\<close>

named_theorems tp_frame "effect of the setters on the getters"

lemmas tp_slot_defs = GetTupleOffsetAtSlot_def SetTupleOffsetAtSlot_def GetTupleSize_def SetTupleSize_def

lemma wr32_header_frame:
  assumes "length d = PAGE_SIZE" "h \<le> 32"
  shows "GetTupleOffsetAtSlot (wr32 d h v) i = GetTupleOffsetAtSlot d i"
    "GetTupleSize (wr32 d h v) i = GetTupleSize d i"
    "OccupiedWord (wr32 d h v) k = OccupiedWord d k" "DeletedWord (wr32 d h v) k = DeletedWord d k"
    "36 \<le> off \<Longrightarrow> rd n (wr32 d h v) off = rd n d off" "length (wr32 d h v) = PAGE_SIZE"
  using assms by (simp_all add: tp_slot_defs OccupiedWord_def DeletedWord_def tp_consts PAGE_SIZE_def layout_simps)

lemma wr32_slot_frame:
  assumes "length d = PAGE_SIZE" "i < 491" "h = 164 + 8 * i \<or> h = 168 + 8 * i"
  shows "k \<le> 32 \<Longrightarrow> rd32 (wr32 d h v) k = rd32 d k"
    "k < 8 \<Longrightarrow> OccupiedWord (wr32 d h v) k = OccupiedWord d k"
    "k < 8 \<Longrightarrow> DeletedWord (wr32 d h v) k = DeletedWord d k"
    "i \<noteq> j \<Longrightarrow> GetTupleOffsetAtSlot (wr32 d h v) j = GetTupleOffsetAtSlot d j"
    "i \<noteq> j \<Longrightarrow> GetTupleSize (wr32 d h v) j = GetTupleSize d j"
    "172 + 8 * i \<le> off \<Longrightarrow> rd n (wr32 d h v) off = rd n d off" "length (wr32 d h v) = PAGE_SIZE"
proof -
  have in_page: "h + 4 \<le> length d" using assms by (auto simp: PAGE_SIZE_def)
  show "k \<le> 32 \<Longrightarrow> rd32 (wr32 d h v) k = rd32 d k"
    using assms(3) in_page by (intro rd32_wr32_disjoint) auto
  show "k < 8 \<Longrightarrow> OccupiedWord (wr32 d h v) k = OccupiedWord d k"
    "k < 8 \<Longrightarrow> DeletedWord (wr32 d h v) k = DeletedWord d k"
    unfolding OccupiedWord_def DeletedWord_def using assms(3) in_page
    by (auto intro!: rd64_wr32_disjoint simp: tp_consts)
  show "i \<noteq> j \<Longrightarrow> GetTupleOffsetAtSlot (wr32 d h v) j = GetTupleOffsetAtSlot d j"
    "i \<noteq> j \<Longrightarrow> GetTupleSize (wr32 d h v) j = GetTupleSize d j"
    unfolding tp_slot_defs using assms(3) in_page
    by (auto intro!: rd32_wr32_disjoint simp: tp_consts)
  show "172 + 8 * i \<le> off \<Longrightarrow> rd n (wr32 d h v) off = rd n d off"
    using assms(3) in_page by (intro rd_wr32_disjoint) auto
  show "length (wr32 d h v) = PAGE_SIZE" using in_page assms(1) by simp
qed

lemma SetTupleOffset_frame [tp_frame]:
  assumes "length d = PAGE_SIZE" "i < 491"
  shows "k \<le> 32 \<Longrightarrow> rd32 (SetTupleOffsetAtSlot i v d) k = rd32 d k"
    "k < 8 \<Longrightarrow> OccupiedWord (SetTupleOffsetAtSlot i v d) k = OccupiedWord d k"
    "k < 8 \<Longrightarrow> DeletedWord (SetTupleOffsetAtSlot i v d) k = DeletedWord d k"
    "GetTupleOffsetAtSlot (SetTupleOffsetAtSlot i v d) j = (if i = j then v else GetTupleOffsetAtSlot d j)"
    "GetTupleSize (SetTupleOffsetAtSlot i v d) j = GetTupleSize d j"
    "172 + 8 * i \<le> off \<Longrightarrow> rd n (SetTupleOffsetAtSlot i v d) off = rd n d off"
    "length (SetTupleOffsetAtSlot i v d) = PAGE_SIZE"
proof -
  have h: "OFFSET_TUPLE_OFFSET + SIZE_TUPLE * i = 164 + 8 * i" by (simp add: tp_consts)
  note F = wr32_slot_frame [OF assms, where h = "164 + 8 * i" and v = v]
  have "GetTupleSize (wr32 d (164 + 8 * i) v) i = GetTupleSize d i"
    unfolding GetTupleSize_def using assms by (intro rd32_wr32_disjoint) (simp_all add: tp_consts PAGE_SIZE_def)
  moreover have "GetTupleOffsetAtSlot (wr32 d (164 + 8 * i) v) i = v"
    unfolding GetTupleOffsetAtSlot_def h using assms by (intro rd32_wr32_same) (simp add: PAGE_SIZE_def)
  ultimately show "GetTupleSize (SetTupleOffsetAtSlot i v d) j = GetTupleSize d j"
    "GetTupleOffsetAtSlot (SetTupleOffsetAtSlot i v d) j = (if i = j then v else GetTupleOffsetAtSlot d j)"
    unfolding SetTupleOffsetAtSlot_def h using F(4,5) [of j] by auto
qed (unfold SetTupleOffsetAtSlot_def, insert wr32_slot_frame [OF assms, where h = "164 + 8 * i" and v = v],
     simp_all add: tp_consts)

lemma SetTupleSize_frame [tp_frame]:
  assumes "length d = PAGE_SIZE" "i < 491"
  shows "k \<le> 32 \<Longrightarrow> rd32 (SetTupleSize i v d) k = rd32 d k"
    "k < 8 \<Longrightarrow> OccupiedWord (SetTupleSize i v d) k = OccupiedWord d k"
    "k < 8 \<Longrightarrow> DeletedWord (SetTupleSize i v d) k = DeletedWord d k"
    "GetTupleSize (SetTupleSize i v d) j = (if i = j then v else GetTupleSize d j)"
    "GetTupleOffsetAtSlot (SetTupleSize i v d) j = GetTupleOffsetAtSlot d j"
    "172 + 8 * i \<le> off \<Longrightarrow> rd n (SetTupleSize i v d) off = rd n d off"
    "length (SetTupleSize i v d) = PAGE_SIZE"
proof -
  have h: "OFFSET_TUPLE_SIZE + SIZE_TUPLE * i = 168 + 8 * i" by (simp add: tp_consts)
  note F = wr32_slot_frame [OF assms, where h = "168 + 8 * i" and v = v]
  have "GetTupleOffsetAtSlot (wr32 d (168 + 8 * i) v) i = GetTupleOffsetAtSlot d i"
    unfolding GetTupleOffsetAtSlot_def using assms by (intro rd32_wr32_disjoint) (simp_all add: tp_consts PAGE_SIZE_def)
  moreover have "GetTupleSize (wr32 d (168 + 8 * i) v) i = v"
    unfolding GetTupleSize_def h using assms by (intro rd32_wr32_same) (simp add: PAGE_SIZE_def)
  ultimately show "GetTupleOffsetAtSlot (SetTupleSize i v d) j = GetTupleOffsetAtSlot d j"
    "GetTupleSize (SetTupleSize i v d) j = (if i = j then v else GetTupleSize d j)"
    unfolding SetTupleSize_def h using F(4,5) [of j] by auto
qed (unfold SetTupleSize_def, insert wr32_slot_frame [OF assms, where h = "168 + 8 * i" and v = v],
     simp_all add: tp_consts)

lemma bit_mask_test: "(w :: 64 word) AND push_bit n 1 \<noteq> 0 \<longleftrightarrow> bit w n"
  by (simp add: bit_iff_and_push_bit_not_eq_0)

lemma IsSlot_bit:
  "IsSlotOccupied d i \<longleftrightarrow> bit (OccupiedWord d (i div 64)) (i mod 64)"
  "IsSlotDeleted d i \<longleftrightarrow> bit (DeletedWord d (i div 64)) (i mod 64)"
  unfolding IsSlotOccupied_def IsSlotDeleted_def bit_mask_test by (simp_all add: tp_consts)

lemma wr64_bitmap_frame:
  assumes "length d = PAGE_SIZE" "h = 36 + 8 * w \<or> h = 100 + 8 * w" "w < 8"
  shows "k \<le> 32 \<Longrightarrow> rd32 (wr64 d h v) k = rd32 d k"
    "GetTupleOffsetAtSlot (wr64 d h v) j = GetTupleOffsetAtSlot d j"
    "GetTupleSize (wr64 d h v) j = GetTupleSize d j"
    "164 \<le> off \<Longrightarrow> rd n (wr64 d h v) off = rd n d off" "length (wr64 d h v) = PAGE_SIZE"
proof -
  have "h + 8 \<le> length d" "36 \<le> h" "h + 8 \<le> 164" using assms by (auto simp: PAGE_SIZE_def)
  then show "k \<le> 32 \<Longrightarrow> rd32 (wr64 d h v) k = rd32 d k"
    "GetTupleOffsetAtSlot (wr64 d h v) j = GetTupleOffsetAtSlot d j"
    "GetTupleSize (wr64 d h v) j = GetTupleSize d j"
    "164 \<le> off \<Longrightarrow> rd n (wr64 d h v) off = rd n d off" "length (wr64 d h v) = PAGE_SIZE"
    using assms(1) by (auto simp: tp_slot_defs tp_consts intro!: rd32_wr64_disjoint rd_wr64_disjoint)
qed

lemma bitmap_words_write:
  assumes "length d = PAGE_SIZE" "w < 8" "k < 8"
  shows "OccupiedWord (wr64 d (36 + 8 * w) v) k = (if w = k then v else OccupiedWord d k)"
    "DeletedWord (wr64 d (36 + 8 * w) v) k = DeletedWord d k"
    "OccupiedWord (wr64 d (100 + 8 * w) v) k = OccupiedWord d k"
    "DeletedWord (wr64 d (100 + 8 * w) v) k = (if w = k then v else DeletedWord d k)"
  using assms
  by (auto simp: OccupiedWord_def DeletedWord_def tp_consts PAGE_SIZE_def intro!: rd64_wr64_same rd64_wr64_disjoint)

lemma SetSlot_alt:
  "SetSlotOccupied i b d = wr64 d (36 + 8 * (i div 64))
     (if b then OccupiedWord d (i div 64) OR push_bit (i mod 64) 1
      else OccupiedWord d (i div 64) AND NOT (push_bit (i mod 64) 1))"
  "SetSlotDeleted i b d = wr64 d (100 + 8 * (i div 64))
     (if b then DeletedWord d (i div 64) OR push_bit (i mod 64) 1
      else DeletedWord d (i div 64) AND NOT (push_bit (i mod 64) 1))"
  by (simp_all add: SetSlotOccupied_def SetSlotDeleted_def Let_def tp_consts)

lemma SetSlot_frame [tp_frame]:
  assumes "length d = PAGE_SIZE" "i < 512"
  shows "k \<le> 32 \<Longrightarrow> rd32 (SetSlotOccupied i b d) k = rd32 d k"
    "GetTupleOffsetAtSlot (SetSlotOccupied i b d) j = GetTupleOffsetAtSlot d j"
    "GetTupleSize (SetSlotOccupied i b d) j = GetTupleSize d j"
    "164 \<le> off \<Longrightarrow> rd n (SetSlotOccupied i b d) off = rd n d off"
    "length (SetSlotOccupied i b d) = PAGE_SIZE"
    "k \<le> 32 \<Longrightarrow> rd32 (SetSlotDeleted i b d) k = rd32 d k"
    "GetTupleOffsetAtSlot (SetSlotDeleted i b d) j = GetTupleOffsetAtSlot d j"
    "GetTupleSize (SetSlotDeleted i b d) j = GetTupleSize d j"
    "164 \<le> off \<Longrightarrow> rd n (SetSlotDeleted i b d) off = rd n d off"
    "length (SetSlotDeleted i b d) = PAGE_SIZE"
proof -
  have w: "i div 64 < 8" using assms(2) by auto
  show "k \<le> 32 \<Longrightarrow> rd32 (SetSlotOccupied i b d) k = rd32 d k"
    "GetTupleOffsetAtSlot (SetSlotOccupied i b d) j = GetTupleOffsetAtSlot d j"
    "GetTupleSize (SetSlotOccupied i b d) j = GetTupleSize d j"
    "164 \<le> off \<Longrightarrow> rd n (SetSlotOccupied i b d) off = rd n d off"
    "length (SetSlotOccupied i b d) = PAGE_SIZE"
    unfolding SetSlot_alt by (rule wr64_bitmap_frame [OF assms(1) _ w]; simp)+
  show "k \<le> 32 \<Longrightarrow> rd32 (SetSlotDeleted i b d) k = rd32 d k"
    "GetTupleOffsetAtSlot (SetSlotDeleted i b d) j = GetTupleOffsetAtSlot d j"
    "GetTupleSize (SetSlotDeleted i b d) j = GetTupleSize d j"
    "164 \<le> off \<Longrightarrow> rd n (SetSlotDeleted i b d) off = rd n d off"
    "length (SetSlotDeleted i b d) = PAGE_SIZE"
    unfolding SetSlot_alt by (rule wr64_bitmap_frame [OF assms(1) _ w]; simp)+
qed

lemma div_mod_eq64: "(i::nat) div 64 = j div 64 \<and> i mod 64 = j mod 64 \<longleftrightarrow> i = j"
  by (metis div_mult_mod_eq)

lemma SetSlot_slots [tp_frame]:
  assumes "length d = PAGE_SIZE" "i < 512" "j < 512"
  shows "IsSlotOccupied (SetSlotOccupied i b d) j = (if i = j then b else IsSlotOccupied d j)"
    "IsSlotDeleted (SetSlotOccupied i b d) j = IsSlotDeleted d j"
    "IsSlotOccupied (SetSlotDeleted i b d) j = IsSlotOccupied d j"
    "IsSlotDeleted (SetSlotDeleted i b d) j = (if i = j then b else IsSlotDeleted d j)"
proof -
  have w: "i div 64 < 8" "j div 64 < 8" using assms by auto
  have eq: "(if i div 64 = j div 64 then bit (if b then v OR push_bit (i mod 64) 1
        else v AND NOT (push_bit (i mod 64) 1)) (j mod 64) else x) =
      (if i = j then b else if i div 64 = j div 64 then bit v (j mod 64) else x)" for v :: "64 word" and x
    using div_mod_eq64 [of i j] by (auto simp: bit_simps)
  show "IsSlotOccupied (SetSlotOccupied i b d) j = (if i = j then b else IsSlotOccupied d j)"
    unfolding IsSlot_bit SetSlot_alt bitmap_words_write [OF assms(1) w]
    using eq [of "OccupiedWord d (i div 64)" "bit (OccupiedWord d (j div 64)) (j mod 64)"] by (simp split: if_splits)
  show "IsSlotDeleted (SetSlotDeleted i b d) j = (if i = j then b else IsSlotDeleted d j)"
    unfolding IsSlot_bit SetSlot_alt bitmap_words_write [OF assms(1) w]
    using eq [of "DeletedWord d (i div 64)" "bit (DeletedWord d (j div 64)) (j mod 64)"] by (simp split: if_splits)
qed (use assms in \<open>auto simp: IsSlot_bit SetSlot_alt bitmap_words_write\<close>)

lemma slot_flags_cong:
  assumes "\<And>k. k < 8 \<Longrightarrow> OccupiedWord d' k = OccupiedWord d k" "\<And>k. k < 8 \<Longrightarrow> DeletedWord d' k = DeletedWord d k"
    "j < 512"
  shows "IsSlotOccupied d' j = IsSlotOccupied d j" "IsSlotDeleted d' j = IsSlotDeleted d j"
proof -
  have "j div 64 < 8" using assms(3) by auto
  with assms(1,2) show "IsSlotOccupied d' j = IsSlotOccupied d j" "IsSlotDeleted d' j = IsSlotDeleted d j"
    by (simp_all add: IsSlot_bit)
qed

lemma slot_setters_flags [tp_frame]:
  assumes "length d = PAGE_SIZE" "i < 491" "j < 512"
  shows "IsSlotOccupied (SetTupleOffsetAtSlot i v d) j = IsSlotOccupied d j"
    "IsSlotDeleted (SetTupleOffsetAtSlot i v d) j = IsSlotDeleted d j"
    "IsSlotOccupied (SetTupleSize i v d) j = IsSlotOccupied d j"
    "IsSlotDeleted (SetTupleSize i v d) j = IsSlotDeleted d j"
  by (rule slot_flags_cong; simp add: assms tp_frame)+

lemma header_setters [tp_frame]:
  assumes "length d = PAGE_SIZE"
  shows "length (SetFreeSpacePointer v d) = PAGE_SIZE" "length (SetTupleCount v d) = PAGE_SIZE"
    "length (SetLiveTupleCount v d) = PAGE_SIZE"
    "GetTupleOffsetAtSlot (SetFreeSpacePointer v d) i = GetTupleOffsetAtSlot d i"
    "GetTupleOffsetAtSlot (SetTupleCount v d) i = GetTupleOffsetAtSlot d i"
    "GetTupleOffsetAtSlot (SetLiveTupleCount v d) i = GetTupleOffsetAtSlot d i"
    "GetTupleSize (SetFreeSpacePointer v d) i = GetTupleSize d i"
    "GetTupleSize (SetTupleCount v d) i = GetTupleSize d i"
    "GetTupleSize (SetLiveTupleCount v d) i = GetTupleSize d i"
    "36 \<le> off \<Longrightarrow> rd n (SetFreeSpacePointer v d) off = rd n d off"
    "36 \<le> off \<Longrightarrow> rd n (SetTupleCount v d) off = rd n d off"
    "36 \<le> off \<Longrightarrow> rd n (SetLiveTupleCount v d) off = rd n d off"
  using assms by (simp_all add: tp_acc tp_consts wr32_header_frame)

lemma header_setters_flags [tp_frame]:
  assumes "length d = PAGE_SIZE" "j < 512"
  shows "IsSlotOccupied (SetFreeSpacePointer v d) j = IsSlotOccupied d j"
    "IsSlotOccupied (SetTupleCount v d) j = IsSlotOccupied d j"
    "IsSlotOccupied (SetLiveTupleCount v d) j = IsSlotOccupied d j"
    "IsSlotDeleted (SetFreeSpacePointer v d) j = IsSlotDeleted d j"
    "IsSlotDeleted (SetTupleCount v d) j = IsSlotDeleted d j"
    "IsSlotDeleted (SetLiveTupleCount v d) j = IsSlotDeleted d j"
  by (rule slot_flags_cong; simp add: assms tp_acc tp_consts wr32_header_frame)+

lemma header_getters [tp_frame]:
  assumes "length d = PAGE_SIZE"
  shows "GetFreeSpacePointer (SetFreeSpacePointer v d) = v" "GetTupleCount (SetFreeSpacePointer v d) = GetTupleCount d"
    "GetLiveTupleCount (SetFreeSpacePointer v d) = GetLiveTupleCount d"
    "GetTablePageId (SetFreeSpacePointer v d) = GetTablePageId d"
    "GetTupleCount (SetTupleCount v d) = v" "GetFreeSpacePointer (SetTupleCount v d) = GetFreeSpacePointer d"
    "GetLiveTupleCount (SetTupleCount v d) = GetLiveTupleCount d"
    "GetTablePageId (SetTupleCount v d) = GetTablePageId d"
    "GetLiveTupleCount (SetLiveTupleCount v d) = v"
    "GetTupleCount (SetLiveTupleCount v d) = GetTupleCount d"
    "GetFreeSpacePointer (SetLiveTupleCount v d) = GetFreeSpacePointer d"
    "GetTablePageId (SetLiveTupleCount v d) = GetTablePageId d"
  using assms by (simp_all add: tp_acc tp_consts layout_simps PAGE_SIZE_def)

lemma header_of_slot_setters [tp_frame]:
  assumes "length d = PAGE_SIZE" "i < 491"
  shows "GetFreeSpacePointer (SetTupleOffsetAtSlot i v d) = GetFreeSpacePointer d"
    "GetTupleCount (SetTupleOffsetAtSlot i v d) = GetTupleCount d"
    "GetLiveTupleCount (SetTupleOffsetAtSlot i v d) = GetLiveTupleCount d"
    "GetTablePageId (SetTupleOffsetAtSlot i v d) = GetTablePageId d"
    "GetFreeSpacePointer (SetTupleSize i v d) = GetFreeSpacePointer d"
    "GetTupleCount (SetTupleSize i v d) = GetTupleCount d"
    "GetLiveTupleCount (SetTupleSize i v d) = GetLiveTupleCount d"
    "GetTablePageId (SetTupleSize i v d) = GetTablePageId d"
    "GetFreeSpacePointer (SetSlotOccupied i b d) = GetFreeSpacePointer d"
    "GetTupleCount (SetSlotOccupied i b d) = GetTupleCount d"
    "GetLiveTupleCount (SetSlotOccupied i b d) = GetLiveTupleCount d"
    "GetTablePageId (SetSlotOccupied i b d) = GetTablePageId d"
    "GetFreeSpacePointer (SetSlotDeleted i b d) = GetFreeSpacePointer d"
    "GetTupleCount (SetSlotDeleted i b d) = GetTupleCount d"
    "GetLiveTupleCount (SetSlotDeleted i b d) = GetLiveTupleCount d"
    "GetTablePageId (SetSlotDeleted i b d) = GetTablePageId d"
  using assms by (simp_all add: tp_acc tp_consts tp_frame)

text \<open>Writing tuple bytes behind the slot array.\<close>

lemma data_write_frame:
  assumes "length d = PAGE_SIZE" "o1 + length src \<le> PAGE_SIZE" "164 \<le> o1"
  shows "length (wr d o1 src) = PAGE_SIZE" "GetFreeSpacePointer (wr d o1 src) = GetFreeSpacePointer d"
    "GetTupleCount (wr d o1 src) = GetTupleCount d" "GetLiveTupleCount (wr d o1 src) = GetLiveTupleCount d"
    "GetTablePageId (wr d o1 src) = GetTablePageId d"
    "172 + 8 * i \<le> o1 \<Longrightarrow> GetTupleOffsetAtSlot (wr d o1 src) i = GetTupleOffsetAtSlot d i"
    "172 + 8 * i \<le> o1 \<Longrightarrow> GetTupleSize (wr d o1 src) i = GetTupleSize d i"
    "j < 512 \<Longrightarrow> IsSlotOccupied (wr d o1 src) j = IsSlotOccupied d j"
    "j < 512 \<Longrightarrow> IsSlotDeleted (wr d o1 src) j = IsSlotDeleted d j"
proof -
  have room: "o1 + length src \<le> length d" using assms by simp
  show "j < 512 \<Longrightarrow> IsSlotOccupied (wr d o1 src) j = IsSlotOccupied d j"
    "j < 512 \<Longrightarrow> IsSlotDeleted (wr d o1 src) j = IsSlotDeleted d j"
    by (rule slot_flags_cong; use room assms in \<open>simp add: OccupiedWord_def DeletedWord_def tp_consts layout_simps\<close>)+
qed (use assms in \<open>simp_all add: tp_acc tp_consts tp_slot_defs layout_simps\<close>)

text \<open>The links of a page to other pages, which the tuple operations leave alone.\<close>

definition links :: "tpage \<Rightarrow> page_id_t list" where
  "links d = [GetPrevPageId d, GetNextPageId d, GetPrevInsertablePageId d, GetNextInsertablePageId d]"

lemma links_frame [tp_frame]:
  assumes "length d = PAGE_SIZE"
  shows "links (SetFreeSpacePointer v d) = links d" "links (SetTupleCount v d) = links d"
    "links (SetLiveTupleCount v d) = links d"
    "i < 491 \<Longrightarrow> links (SetTupleOffsetAtSlot i v d) = links d" "i < 491 \<Longrightarrow> links (SetTupleSize i v d) = links d"
    "j < 512 \<Longrightarrow> links (SetSlotOccupied j b d) = links d" "j < 512 \<Longrightarrow> links (SetSlotDeleted j b d) = links d"
  using assms by (simp_all add: links_def tp_acc tp_consts layout_simps PAGE_SIZE_def tp_frame)

lemma links_data_write:
  "length d = PAGE_SIZE \<Longrightarrow> o1 + length src \<le> PAGE_SIZE \<Longrightarrow> 164 \<le> o1 \<Longrightarrow> links (wr d o1 src) = links d"
  by (simp add: links_def tp_acc tp_consts layout_simps)

section \<open>The invariant and the tuples of a page\<close>

abbreviation tcnt :: "tpage \<Rightarrow> nat" where "tcnt d \<equiv> unat (GetTupleCount d)"
abbreviation tfsp :: "tpage \<Rightarrow> nat" where "tfsp d \<equiv> unat (GetFreeSpacePointer d)"
abbreviation toff :: "tpage \<Rightarrow> nat \<Rightarrow> nat" where "toff d i \<equiv> unat (GetTupleOffsetAtSlot d i)"
abbreviation tsz :: "tpage \<Rightarrow> nat \<Rightarrow> nat" where "tsz d i \<equiv> unat (UnsetDeletedFlag (GetTupleSize d i))"

definition slot_inside :: "tpage \<Rightarrow> nat \<Rightarrow> bool" where
  "slot_inside d i \<longleftrightarrow> tfsp d \<le> toff d i \<and> toff d i + tsz d i \<le> PAGE_SIZE \<and> 0 < tsz d i \<and>
     (bit (GetTupleSize d i) 31 \<longleftrightarrow> IsSlotDeleted d i)"

definition slots_apart :: "tpage \<Rightarrow> nat \<Rightarrow> nat \<Rightarrow> bool" where
  "slots_apart d i j \<longleftrightarrow> toff d i + tsz d i \<le> toff d j \<or> toff d j + tsz d j \<le> toff d i"

definition live_slots :: "tpage \<Rightarrow> nat set" where
  "live_slots d = {i. i < tcnt d \<and> IsSlotOccupied d i \<and> \<not> IsSlotDeleted d i}"

definition wf_tpage :: "tpage \<Rightarrow> bool" where
  "wf_tpage d \<longleftrightarrow> length d = PAGE_SIZE \<and> 164 + 8 * tcnt d \<le> tfsp d \<and> tfsp d \<le> PAGE_SIZE \<and>
     (\<forall>i < tcnt d. IsSlotOccupied d i \<longrightarrow> slot_inside d i) \<and>
     (\<forall>i < tcnt d. \<not> IsSlotOccupied d i \<longrightarrow> \<not> IsSlotDeleted d i) \<and>
     (\<forall>i < tcnt d. \<forall>j < tcnt d. i \<noteq> j \<longrightarrow> IsSlotOccupied d i \<longrightarrow> IsSlotOccupied d j \<longrightarrow> slots_apart d i j) \<and>
     unat (GetLiveTupleCount d) = card (live_slots d)"

text \<open>What a page stores: for each occupied slot the bytes of its tuple and whether it is marked
  deleted.\<close>

definition tp_tuple :: "tpage \<Rightarrow> nat \<Rightarrow> (byte list \<times> bool) option" where
  "tp_tuple d i = (if i < tcnt d \<and> IsSlotOccupied d i
     then Some (rd (tsz d i) d (toff d i), IsSlotDeleted d i) else None)"

lemma wf_tpageD:
  assumes "wf_tpage d"
  shows "length d = PAGE_SIZE" "164 + 8 * tcnt d \<le> tfsp d" "tfsp d \<le> PAGE_SIZE" "tcnt d < 492"
    "\<And>i. i < tcnt d \<Longrightarrow> i < 491" "\<And>i. i < tcnt d \<Longrightarrow> IsSlotOccupied d i \<Longrightarrow> slot_inside d i"
    "\<And>i. i < tcnt d \<Longrightarrow> \<not> IsSlotOccupied d i \<Longrightarrow> \<not> IsSlotDeleted d i"
    "\<And>i j. i < tcnt d \<Longrightarrow> j < tcnt d \<Longrightarrow> i \<noteq> j \<Longrightarrow> IsSlotOccupied d i \<Longrightarrow> IsSlotOccupied d j \<Longrightarrow> slots_apart d i j"
    "unat (GetLiveTupleCount d) = card (live_slots d)"
proof -
  show "tcnt d < 492" using assms unfolding wf_tpage_def PAGE_SIZE_def by linarith
  show "\<And>i. i < tcnt d \<Longrightarrow> i < 491" using assms unfolding wf_tpage_def PAGE_SIZE_def by linarith
qed (use assms in \<open>simp_all add: wf_tpage_def\<close>)

lemma IsDeleted_bit: "IsDeleted w \<longleftrightarrow> bit w 31 \<or> w = 0"
  by (simp add: IsDeleted_def DELETE_MASK_def bit_iff_and_push_bit_not_eq_0)

lemma bit_DELETE_MASK: "bit DELETE_MASK n \<longleftrightarrow> n = 31"
  unfolding DELETE_MASK_def bit_push_bit_iff by (auto simp: bit_1_iff)

lemma deleted_flag_simps [simp]:
  "UnsetDeletedFlag (SetDeletedFlag w) = UnsetDeletedFlag w"
  "UnsetDeletedFlag (UnsetDeletedFlag w) = UnsetDeletedFlag w"
  "bit (SetDeletedFlag w) 31" "\<not> bit (UnsetDeletedFlag w) 31" "UnsetDeletedFlag 0 = 0"
  by (rule bit_word_eqI | simp add: UnsetDeletedFlag_def SetDeletedFlag_def bit_simps bit_DELETE_MASK | blast)+

lemma UnsetDeletedFlag_live: "\<not> bit w 31 \<Longrightarrow> UnsetDeletedFlag w = w"
  by (rule bit_word_eqI) (auto simp: UnsetDeletedFlag_def bit_simps bit_DELETE_MASK)

lemma finite_live_slots [simp]: "finite (live_slots d)"
  by (simp add: live_slots_def)

section \<open>Searching the bitmaps\<close>

lemma bit_low_mask: "v < 64 \<Longrightarrow> bit (2 ^ v - 1 :: 64 word) n \<longleftrightarrow> n < v"
  using bit_mask_iff [where ?'a = "64 word", of v n] by (simp add: mask_eq_exp_minus_1) linarith

lemma upt_step: "a < b \<Longrightarrow> [a..<b] = a # [Suc a..<b]"
  by (simp add: upt_rec)

lemma reusable_bit_find:
  "reusable_bit w base cnt [a..<m] = find (\<lambda>s. \<not> bit w (s - base)) [base + a..<min (base + m) cnt]"
proof (induction "m - a" arbitrary: a)
  case (Suc n)
  then have a: "a < m" "n = m - Suc a" by auto
  show ?case
  proof (cases "cnt \<le> base + a")
    case False
    then have "[base + a..<min (base + m) cnt] = (base + a) # [base + Suc a..<min (base + m) cnt]"
      using a(1) by (simp add: upt_step)
    then show ?thesis
      using Suc.hyps(1) [OF a(2)] False
      by (simp only: upt_step [OF a(1)] reusable_bit.simps find.simps bit_mask_test if_False
          flip: bit_mask_test) (auto simp flip: bit_iff_and_push_bit_not_eq_0)
  qed (simp add: upt_step [OF a(1)])
qed simp

lemma live_bit_find:
  "live_bit w base cnt [a..<m] = find (\<lambda>s. bit w (s - base)) [base + a..<min (base + m) cnt]"
proof (induction "m - a" arbitrary: a)
  case (Suc n)
  then have a: "a < m" "n = m - Suc a" by auto
  show ?case
  proof (cases "cnt \<le> base + a")
    case False
    then have "[base + a..<min (base + m) cnt] = (base + a) # [base + Suc a..<min (base + m) cnt]"
      using a(1) by (simp add: upt_step)
    then show ?thesis
      using Suc.hyps(1) [OF a(2)] False
      by (simp only: upt_step [OF a(1)] live_bit.simps find.simps bit_mask_test if_False) auto
  qed (simp add: upt_step [OF a(1)])
qed simp

lemma upt_split_word: "64 * k < cnt \<Longrightarrow> lo \<le> min (64 * k + 64) cnt \<Longrightarrow>
    [lo..<cnt] = [lo..<min (64 * k + 64) cnt] @ [64 * Suc k..<cnt]"
proof (cases "64 * k + 64 \<le> cnt")
  case True
  assume "lo \<le> min (64 * k + 64) cnt"
  then have "[lo..<64 * k + 64 + (cnt - (64 * k + 64))] = [lo..<64 * k + 64] @ [64 * k + 64..<64 * k + 64 + (cnt - (64 * k + 64))]"
    using True by (intro upt_add_eq_append) simp
  with True show ?thesis by (simp add: add.commute)
qed simp

lemma reusable_word_find:
  assumes "cnt \<le> 512"
  shows "k \<le> 8 \<Longrightarrow> reusable_word d cnt [k..<8] = find (\<lambda>s. \<not> IsSlotOccupied d s) [64 * k..<cnt]"
proof (induction "8 - k" arbitrary: k)
  case 0
  then show ?case using assms by simp
next
  case (Suc n)
  then have k: "k < 8" "n = 8 - Suc k" by auto
  show ?case
  proof (cases "cnt \<le> 64 * k")
    case False
    let ?valid = "cnt - 64 * k"
    define occ where "occ = (if ?valid < 64 then OccupiedWord d k OR NOT (push_bit ?valid 1 - 1) else OccupiedWord d k)"
    let ?R = "[64 * k..<min (64 * k + 64) cnt]"
    have same: "bit occ (s - 64 * k) = IsSlotOccupied d s" "s - 64 * k < 64" if "s \<in> set ?R" for s
    proof -
      have s: "s div 64 = k" "s mod 64 = s - 64 * k" "s - 64 * k < ?valid" "s - 64 * k < 64"
        using that by (auto simp: div_nat_eqI modulo_nat_def)
      then show "bit occ (s - 64 * k) = IsSlotOccupied d s"
        by (auto simp: occ_def IsSlot_bit bit_simps bit_low_mask)
      show "s - 64 * k < 64" by (rule s)
    qed
    have "(if NOT occ \<noteq> 0 then reusable_bit occ (64 * k) cnt [0..<64] else None) =
        find (\<lambda>s. \<not> IsSlotOccupied d s) ?R"
    proof (cases "NOT occ = 0")
      case True
      have "bit (NOT occ) n \<longleftrightarrow> n < 64 \<and> \<not> bit occ n" for n by (simp add: bit_simps)
      then have "bit occ n" if "n < 64" for n using True that by simp
      then have "IsSlotOccupied d s" if "s \<in> set ?R" for s using same [OF that] by blast
      then have "find (\<lambda>s. \<not> IsSlotOccupied d s) ?R = None" by (simp add: find_None_iff)
      then show ?thesis using True by simp
    next
      case False
      then have "find (\<lambda>s. \<not> bit occ (s - 64 * k)) ?R = find (\<lambda>s. \<not> IsSlotOccupied d s) ?R"
        using same(1) by (intro find_cong_set) blast
      then show ?thesis using False by (simp add: reusable_bit_find)
    qed
    moreover have "reusable_word d cnt [Suc k..<8] = find (\<lambda>s. \<not> IsSlotOccupied d s) [64 * Suc k..<cnt]"
      using k by (intro Suc.hyps(1)) auto
    moreover have "reusable_word d cnt (k # [Suc k..<8]) =
        (case if NOT occ \<noteq> 0 then reusable_bit occ (64 * k) cnt [0..<64] else None of
           Some s \<Rightarrow> Some s | None \<Rightarrow> reusable_word d cnt [Suc k..<8])"
      using False unfolding occ_def by (simp add: Let_def tp_consts mult.commute [of k 64])
    moreover have "[64 * k..<cnt] = ?R @ [64 * Suc k..<cnt]" by (rule upt_split_word) (use False in auto)
    ultimately show ?thesis by (simp only: upt_step [OF k(1)] find_append)
  qed (use k in \<open>simp add: upt_step [OF k(1)] Let_def tp_consts mult.commute [of k 64]\<close>)
qed

lemma live_word_find:
  assumes "cnt \<le> 512"
  shows "start div 64 \<le> k \<Longrightarrow> k \<le> 8 \<Longrightarrow> live_word d cnt start [k..<8] =
    find (\<lambda>s. IsSlotOccupied d s \<and> \<not> IsSlotDeleted d s) [if k = start div 64 then start else 64 * k..<cnt]"
proof (induction "8 - k" arbitrary: k)
  case 0
  have "512 \<le> start" if "start div 64 = 8" using that by auto
  then show ?case using 0 assms by auto
next
  case (Suc n)
  then have k: "k < 8" "n = 8 - Suc k" by auto
  let ?P = "\<lambda>s. IsSlotOccupied d s \<and> \<not> IsSlotDeleted d s"
  let ?lo = "if k = start div 64 then start else 64 * k"
  have lo: "64 * k \<le> ?lo" "?lo < 64 * k + 64" by auto
  show ?case
  proof (cases "cnt \<le> 64 * k")
    case False
    let ?valid = "cnt - 64 * k"
    let ?sb = "if k = start div 64 then start mod 64 else 0"
    define l0 where "l0 = OccupiedWord d k AND NOT (DeletedWord d k)"
    define l1 where "l1 = (if ?sb \<noteq> 0 then l0 AND push_bit ?sb (NOT 0) else l0)"
    define live where "live = (if ?valid < 64 then l1 AND (push_bit ?valid 1 - 1) else l1)"
    let ?R = "[?lo..<min (64 * k + 64) cnt]"
    have sb: "64 * k + ?sb = ?lo" by auto
    have same: "bit live (s - 64 * k) = ?P s" if "s \<in> set ?R" for s
    proof -
      have b: "64 * k \<le> s" "s < 64 * k + 64" "s < cnt" "?lo \<le> s" using that lo(1) by auto
      have k': "s div 64 = k" using b by (intro div_nat_eqI) auto
      then have "s mod 64 = s - 64 * k" by (simp add: modulo_nat_def mult.commute)
      moreover have "s - 64 * k < ?valid" "s - 64 * k < 64" using b by linarith+
      moreover have "?sb \<le> s - 64 * k" using b(4) sb by linarith
      ultimately have s: "s div 64 = k" "s mod 64 = s - 64 * k" "s - 64 * k < ?valid" "s - 64 * k < 64" "?sb \<le> s - 64 * k"
        using k' by blast+
      then have "bit l1 (s - 64 * k) = bit l0 (s - 64 * k)" by (auto simp: l1_def bit_simps)
      moreover have "bit live (s - 64 * k) = bit l1 (s - 64 * k)" using s by (auto simp: live_def bit_simps bit_low_mask)
      moreover have "bit l0 (s - 64 * k) = ?P s" using s by (auto simp: l0_def IsSlot_bit bit_simps)
      ultimately show ?thesis by simp
    qed
    have "(if live \<noteq> 0 then live_bit live (64 * k) cnt [?sb..<64] else None) = find ?P ?R"
    proof (cases "live = 0")
      case True
      then have "\<not> ?P s" if "s \<in> set ?R" for s using same [OF that] by simp
      then have "find ?P ?R = None" by (simp add: find_None_iff)
      then show ?thesis using True by simp
    next
      case False
      have "find (\<lambda>s. bit live (s - 64 * k)) ?R = find ?P ?R"
        using same by (intro find_cong_set) blast
      then show ?thesis using False sb by (simp only: live_bit_find if_True not_False_eq_True)
    qed
    moreover have "live_word d cnt start [Suc k..<8] = find ?P [64 * Suc k..<cnt]"
      using k Suc.prems Suc.hyps(1) [of "Suc k"] by auto
    moreover have "live_word d cnt start (k # [Suc k..<8]) =
        (case if live \<noteq> 0 then live_bit live (64 * k) cnt [?sb..<64] else None of
           Some s \<Rightarrow> Some s | None \<Rightarrow> live_word d cnt start [Suc k..<8])"
      using False unfolding live_def l1_def l0_def by (simp add: Let_def tp_consts mult.commute [of k 64])
    moreover have "find ?P [?lo..<cnt] = (case find ?P ?R of Some x \<Rightarrow> Some x | None \<Rightarrow> find ?P [64 * Suc k..<cnt])"
    proof (cases "?lo \<le> min (64 * k + 64) cnt")
      case True
      have "[?lo..<cnt] = ?R @ [64 * Suc k..<cnt]" by (rule upt_split_word [OF _ True]) (use False in auto)
      then show ?thesis by (simp only: find_append)
    next
      case False
      then have "cnt < ?lo" using lo(2) by linarith
      then have "cnt \<le> ?lo" "cnt \<le> 64 * Suc k" using lo(2) by (simp_all only: mult_Suc_right)
      then have "?R = []" "[?lo..<cnt] = []" "[64 * Suc k..<cnt] = []" by simp_all
      then show ?thesis by (simp only: find.simps option.case)
    qed
    ultimately show ?thesis by (simp only: upt_step [OF k(1)])
  next
    case True
    then have "cnt \<le> ?lo" using lo(1) by linarith
    with True show ?thesis by (simp add: upt_step [OF k(1)] Let_def tp_consts mult.commute [of k 64])
  qed
qed

lemma FindReusableSlot_find:
  assumes "wf_tpage d"
  shows "FindReusableSlot d =
    Inr (case find (\<lambda>s. \<not> IsSlotOccupied d s) [0..<tcnt d] of Some s \<Rightarrow> s | None \<Rightarrow> tcnt d)"
  using reusable_word_find [of "tcnt d" 0 d] wf_tpageD(4) [OF assms]
  by (simp add: FindReusableSlot_def tp_consts Let_def)

lemma FindLiveSlot_find:
  assumes "wf_tpage d"
  shows "FindLiveSlot d start = Inr (find (\<lambda>s. s \<in> live_slots d) [start..<tcnt d])"
proof -
  have "find (\<lambda>s. s \<in> live_slots d) [start..<tcnt d] =
      find (\<lambda>s. IsSlotOccupied d s \<and> \<not> IsSlotDeleted d s) [start..<tcnt d]"
    by (rule find_cong_set) (simp add: live_slots_def)
  then show ?thesis
    using live_word_find [of "tcnt d" start "start div 64" d] wf_tpageD(4) [OF assms]
    by (auto simp add: FindLiveSlot_def tp_consts Let_def)
qed

section \<open>The operations on the stored tuples\<close>

lemma tp_tuple_alt:
  "tp_tuple d i = Some (bs, del) \<longleftrightarrow>
     i < tcnt d \<and> IsSlotOccupied d i \<and> bs = rd (tsz d i) d (toff d i) \<and> del = IsSlotDeleted d i"
  by (auto simp: tp_tuple_def)

text \<open>Changing deletion marks only.\<close>

lemma tp_same_layout:
  assumes wf: "wf_tpage d" and len: "length d' = PAGE_SIZE"
    and hdr: "GetTupleCount d' = GetTupleCount d" "GetFreeSpacePointer d' = GetFreeSpacePointer d"
    and slots: "\<And>i. i < tcnt d \<Longrightarrow> GetTupleOffsetAtSlot d' i = GetTupleOffsetAtSlot d i"
      "\<And>i. i < tcnt d \<Longrightarrow> tsz d' i = tsz d i" "\<And>i. i < tcnt d \<Longrightarrow> IsSlotOccupied d' i = IsSlotOccupied d i"
      "\<And>i. i < tcnt d \<Longrightarrow> IsSlotOccupied d i \<Longrightarrow> bit (GetTupleSize d' i) 31 \<longleftrightarrow> IsSlotDeleted d' i"
      "\<And>i. i < tcnt d \<Longrightarrow> \<not> IsSlotOccupied d i \<Longrightarrow> \<not> IsSlotDeleted d' i"
    and live: "unat (GetLiveTupleCount d') = card (live_slots d')"
    and data: "\<And>off n. tfsp d \<le> off \<Longrightarrow> rd n d' off = rd n d off"
  shows "wf_tpage d'" "\<And>i. tp_tuple d' i = map_option (\<lambda>(bs, _). (bs, IsSlotDeleted d' i)) (tp_tuple d i)"
proof -
  note W = wf_tpageD [OF wf]
  have "slot_inside d' i" if "i < tcnt d" "IsSlotOccupied d i" for i
    using W(6) [OF that] that slots by (simp add: slot_inside_def hdr)
  moreover have "slots_apart d' i j" if "i < tcnt d" "j < tcnt d" "i \<noteq> j" "IsSlotOccupied d i" "IsSlotOccupied d j" for i j
    using W(8) [OF that] that slots by (simp add: slots_apart_def)
  ultimately show "wf_tpage d'"
    unfolding wf_tpage_def using W(2,3) len live slots by (simp add: hdr)
  show "tp_tuple d' i = map_option (\<lambda>(bs, _). (bs, IsSlotDeleted d' i)) (tp_tuple d i)" for i
  proof (cases "i < tcnt d \<and> IsSlotOccupied d i")
    case True
    then have "tfsp d \<le> toff d i" using W(6) [of i] by (simp add: slot_inside_def)
    with True show ?thesis using slots data by (simp add: tp_tuple_def hdr)
  next
    case False
    then show ?thesis using slots(3) by (auto simp: tp_tuple_def hdr)
  qed
qed

lemma unat_word_pred: "unat (w :: 32 word) = Suc n \<Longrightarrow> unat (w - 1) = n"
  by (metis diff_Suc_1 nat.distinct(1) unat_0 unat_minus_one)

lemma unat_word_succ: "unat (w :: 32 word) < 2 ^ 32 - 1 \<Longrightarrow> unat (w + 1) = Suc (unat w)"
  by (simp add: unat_word_ariths)

lemma live_bound: "wf_tpage d \<Longrightarrow> card (live_slots d) < 492"
proof -
  assume wf: "wf_tpage d"
  have "card (live_slots d) \<le> card {..<tcnt d}" by (intro card_mono) (auto simp: live_slots_def)
  with wf_tpageD(4) [OF wf] show ?thesis by simp
qed

text \<open>The slot a row id names, when it names a live tuple.\<close>

lemma live_slot:
  assumes "wf_tpage d" "s \<in> live_slots d"
  shows "s < tcnt d" "s < 491" "s < 512" "IsSlotOccupied d s" "\<not> IsSlotDeleted d s" "\<not> IsDeleted (GetTupleSize d s)"
    "tsz d s = unat (GetTupleSize d s)" "slot_inside d s" "GetTupleSize d s \<noteq> 0"
proof -
  show s: "s < tcnt d" "IsSlotOccupied d s" "\<not> IsSlotDeleted d s" using assms(2) by (auto simp: live_slots_def)
  show "s < 491" "s < 512" using wf_tpageD(5) [OF assms(1) s(1)] by simp_all
  show I: "slot_inside d s" using wf_tpageD(6) [OF assms(1) s(1,2)] .
  then have nb: "\<not> bit (GetTupleSize d s) 31" using s by (simp add: slot_inside_def)
  then show "tsz d s = unat (GetTupleSize d s)" by (simp add: UnsetDeletedFlag_live)
  show nz: "GetTupleSize d s \<noteq> 0" using I by (auto simp: slot_inside_def)
  show "\<not> IsDeleted (GetTupleSize d s)" using nb nz by (simp add: IsDeleted_bit)
qed

lemma MarkDelete_effect:
  assumes wf: "wf_tpage d" and s: "unat (rid_slot_num rid) = s" "s \<in> live_slots d"
  obtains d' where "MarkDelete rid d = (d', True)" "wf_tpage d'" "tcnt d' = tcnt d"
    "tp_tuple d' = (tp_tuple d)(s := map_option (\<lambda>(bs, _). (bs, True)) (tp_tuple d s))"
    "GetTablePageId d' = GetTablePageId d" "live_slots d' = live_slots d - {s}" "tfsp d' = tfsp d" "links d' = links d"
proof -
  note W = wf_tpageD [OF wf] and L = live_slot [OF wf s(2)]
  define d1 where "d1 = SetTupleSize s (SetDeletedFlag (GetTupleSize d s)) d"
  define d2 where "d2 = SetSlotDeleted s True d1"
  define d' where "d' = SetLiveTupleCount (GetLiveTupleCount d - 1) d2"
  have len: "length d1 = PAGE_SIZE" "length d2 = PAGE_SIZE" "length d' = PAGE_SIZE"
    using L W by (simp_all add: d1_def d2_def d'_def tp_frame)
  note fr = L(2,3) W(1) len tp_frame
  have G: "GetTupleCount d' = GetTupleCount d" "GetFreeSpacePointer d' = GetFreeSpacePointer d"
    "GetLiveTupleCount d' = GetLiveTupleCount d - 1" "GetTablePageId d' = GetTablePageId d"
    "\<And>i. GetTupleOffsetAtSlot d' i = GetTupleOffsetAtSlot d i"
    "\<And>i. GetTupleSize d' i = (if s = i then SetDeletedFlag (GetTupleSize d s) else GetTupleSize d i)"
    "\<And>i. i < 512 \<Longrightarrow> IsSlotOccupied d' i = IsSlotOccupied d i"
    "\<And>i. i < 512 \<Longrightarrow> IsSlotDeleted d' i = (if s = i then True else IsSlotDeleted d i)" "links d' = links d"
    using L(2,3) unfolding d'_def by (simp_all add: fr d2_def) (auto simp: fr d1_def)
  have data: "rd n d' off = rd n d off" if "tfsp d \<le> off" for n off
  proof -
    have "172 + 8 * s \<le> off" using that W(2) L(1) by linarith
    then show ?thesis unfolding d'_def by (simp add: fr d2_def) (simp add: fr d1_def)
  qed
  have small: "i < 512" if "i < tcnt d" for i using W(5) [OF that] by simp
  have ls: "live_slots d' = live_slots d - {s}"
    using small by (auto simp: live_slots_def G(1,7,8) split: if_splits)
  have cnt: "unat (GetLiveTupleCount d') = card (live_slots d')"
    unfolding ls G(3) using W(9) card_Suc_Diff1 [OF finite_live_slots s(2)]
    by (intro unat_word_pred) simp
  have "MarkDelete rid d = (d', True)"
    using L s(1) W(1) by (simp add: MarkDelete_def Let_def d'_def d2_def d1_def tp_frame)
  moreover have T: "wf_tpage d'" "\<And>i. tp_tuple d' i = map_option (\<lambda>(bs, _). (bs, IsSlotDeleted d' i)) (tp_tuple d i)"
    using cnt data small W(6,7) L by (intro tp_same_layout [OF wf len(3)]; auto simp: G slot_inside_def)+
  moreover have "tp_tuple d' i = ((tp_tuple d)(s := map_option (\<lambda>(bs, _). (bs, True)) (tp_tuple d s))) i" for i
    unfolding T(2) using small by (auto simp: tp_tuple_def G(8) L(3))
  ultimately show thesis using that G ls by (simp add: fun_eq_iff)
qed

lemma MarkDelete_refused:
  assumes "wf_tpage d" "unat (rid_slot_num rid) \<notin> live_slots d"
  shows "MarkDelete rid d = (d, False)"
  using assms by (auto simp: MarkDelete_def Let_def live_slots_def)

lemma RollbackDelete_effect:
  assumes wf: "wf_tpage d" and s: "unat (rid_slot_num rid) = s" "tp_tuple d s = Some (bs, True)"
  obtains d' where "RollbackDelete rid d = Inr d'" "wf_tpage d'" "tcnt d' = tcnt d"
    "tp_tuple d' = (tp_tuple d)(s \<mapsto> (bs, False))" "GetTablePageId d' = GetTablePageId d"
    "tfsp d' = tfsp d" "links d' = links d"
proof -
  note W = wf_tpageD [OF wf]
  have s': "s < tcnt d" "IsSlotOccupied d s" "IsSlotDeleted d s" using s(2) by (auto simp: tp_tuple_def split: if_splits)
  have L: "s < 491" "s < 512" using W(5) [OF s'(1)] by simp_all
  have I: "slot_inside d s" "bit (GetTupleSize d s) 31"
    using W(6) [OF s'(1,2)] s'(3) by (auto simp: slot_inside_def)
  define d1 where "d1 = SetTupleSize s (UnsetDeletedFlag (GetTupleSize d s)) d"
  define d2 where "d2 = SetSlotDeleted s False d1"
  define d' where "d' = SetLiveTupleCount (GetLiveTupleCount d + 1) d2"
  have len: "length d1 = PAGE_SIZE" "length d2 = PAGE_SIZE" "length d' = PAGE_SIZE"
    using L W by (simp_all add: d1_def d2_def d'_def tp_frame)
  note fr = L W(1) len tp_frame
  have G: "GetTupleCount d' = GetTupleCount d" "GetFreeSpacePointer d' = GetFreeSpacePointer d"
    "GetLiveTupleCount d' = GetLiveTupleCount d + 1" "GetTablePageId d' = GetTablePageId d"
    "\<And>i. GetTupleOffsetAtSlot d' i = GetTupleOffsetAtSlot d i"
    "\<And>i. GetTupleSize d' i = (if s = i then UnsetDeletedFlag (GetTupleSize d s) else GetTupleSize d i)"
    "\<And>i. i < 512 \<Longrightarrow> IsSlotOccupied d' i = IsSlotOccupied d i"
    "\<And>i. i < 512 \<Longrightarrow> IsSlotDeleted d' i = (if s = i then False else IsSlotDeleted d i)" "links d' = links d"
    using L unfolding d'_def by (simp_all add: fr d2_def) (auto simp: fr d1_def)
  have data: "rd n d' off = rd n d off" if "tfsp d \<le> off" for n off
  proof -
    have "172 + 8 * s \<le> off" using that W(2) s'(1) by linarith
    then show ?thesis unfolding d'_def by (simp add: fr d2_def) (simp add: fr d1_def)
  qed
  have small: "i < 512" if "i < tcnt d" for i using W(5) [OF that] by simp
  have ls: "live_slots d' = insert s (live_slots d)" "s \<notin> live_slots d"
    using small s' by (auto simp: live_slots_def G(1,7,8) split: if_splits)
  have cnt: "unat (GetLiveTupleCount d') = card (live_slots d')"
    unfolding ls(1) G(3) using W(9) live_bound [OF wf] ls(2) by (subst unat_word_succ) simp_all
  have nz: "GetTupleSize d s \<noteq> 0" using I(2) by auto
  have "RollbackDelete rid d = Inr d'"
    using nz I(2) s' s(1) L W(1)
    by (simp add: RollbackDelete_def Let_def d'_def d2_def d1_def tp_frame IsDeleted_bit)
  moreover have T: "wf_tpage d'" "\<And>i. tp_tuple d' i = map_option (\<lambda>(bs, _). (bs, IsSlotDeleted d' i)) (tp_tuple d i)"
    using cnt data small W(6,7) by (intro tp_same_layout [OF wf len(3)]; auto simp: G slot_inside_def)+
  moreover have "tp_tuple d' i = ((tp_tuple d)(s \<mapsto> (bs, False))) i" for i
    unfolding T(2) using small s(2) by (auto simp: tp_tuple_def G(8) L split: if_splits)
  ultimately show thesis using that G by (simp add: fun_eq_iff)
qed

lemma unat_free_space:
  assumes "wf_tpage d"
  shows "unat (GetFreeSpaceRemaining d) = tfsp d - 164 - 8 * tcnt d"
proof -
  note W = wf_tpageD [OF assms]
  have "unat (8 * GetTupleCount d) = 8 * tcnt d" using W(4) by (simp add: unat_word_ariths)
  moreover have "unat (GetFreeSpacePointer d - 164) = tfsp d - 164"
    using W(2) unat_sub [of 164 "GetFreeSpacePointer d"] by (simp add: word_le_nat_alt)
  ultimately show ?thesis
    using W(2) unat_sub [of "8 * GetTupleCount d" "GetFreeSpacePointer d - 164"]
    by (simp add: GetFreeSpaceRemaining_def tp_consts word_le_nat_alt)
qed

text \<open>Inserting: the new page after all the writes, given the slot and the serialized bytes.\<close>

definition insert_page :: "nat \<Rightarrow> byte list \<Rightarrow> tpage \<Rightarrow> tpage" where
  "insert_page s bs d =
     (let n = of_nat (length bs) :: 32 word;
          d1 = (if s < tcnt d then d else SetTupleCount (of_nat s + 1) d);
          d2 = SetFreeSpacePointer (GetFreeSpacePointer d1 - n) d1;
          d3 = wr d2 (unat (GetFreeSpacePointer d2)) bs;
          d4 = SetTupleOffsetAtSlot s (GetFreeSpacePointer d3) d3;
          d5 = SetTupleSize s n d4;
          d6 = SetSlotOccupied s True d5;
          d7 = SetSlotDeleted s False d6
      in SetLiveTupleCount (GetLiveTupleCount d7 + 1) d7)"

lemma insert_page_getters:
  assumes wf: "wf_tpage d" and s: "s \<le> tcnt d" "s < 491" and n: "0 < length bs"
    and room: "164 + 8 * max (tcnt d) (Suc s) + length bs \<le> tfsp d"
  defines "d' \<equiv> insert_page s bs d"
  shows "length d' = PAGE_SIZE" "tcnt d' = max (tcnt d) (Suc s)" "tfsp d' = tfsp d - length bs"
    "GetLiveTupleCount d' = GetLiveTupleCount d + 1" "GetTablePageId d' = GetTablePageId d"
    "\<And>i. 172 + 8 * i \<le> tfsp d - length bs \<Longrightarrow> toff d' i = (if i = s then tfsp d - length bs else toff d i)"
    "\<And>i. 172 + 8 * i \<le> tfsp d - length bs \<Longrightarrow>
       GetTupleSize d' i = (if i = s then of_nat (length bs) else GetTupleSize d i)"
    "\<And>i. i < 512 \<Longrightarrow> IsSlotOccupied d' i = (if i = s then True else IsSlotOccupied d i)"
    "\<And>i. i < 512 \<Longrightarrow> IsSlotDeleted d' i = (if i = s then False else IsSlotDeleted d i)"
    "\<And>off m. tfsp d \<le> off \<Longrightarrow> rd m d' off = rd m d off"
    "rd (length bs) d' (tfsp d - length bs) = bs" "links d' = links d"
proof -
  note W = wf_tpageD [OF wf]
  define n where "n = (of_nat (length bs) :: 32 word)"
  define d1 where "d1 = (if s < tcnt d then d else SetTupleCount (of_nat s + 1) d)"
  define d2 where "d2 = SetFreeSpacePointer (GetFreeSpacePointer d1 - n) d1"
  define fp where "fp = tfsp d - length bs"
  define d3 where "d3 = wr d2 fp bs"
  define d4 where "d4 = SetTupleOffsetAtSlot s (GetFreeSpacePointer d3) d3"
  define d5 where "d5 = SetTupleSize s n d4"
  define d6 where "d6 = SetSlotOccupied s True d5"
  define d7 where "d7 = SetSlotDeleted s False d6"
  have lb: "length bs \<le> 4096" using room W(3) by (simp add: PAGE_SIZE_def)
  have un: "unat n = length bs" using lb by (simp add: n_def unat_of_nat_small)
  have us: "unat (of_nat s + 1 :: 32 word) = Suc s"
    using s(2) by (subst unat_word_succ) (simp_all add: unat_of_nat_small)
  have l1: "length d1 = PAGE_SIZE" using W(1) by (simp add: d1_def tp_frame)
  have 1: "tcnt d1 = max (tcnt d) (Suc s)" "GetFreeSpacePointer d1 = GetFreeSpacePointer d"
    "GetLiveTupleCount d1 = GetLiveTupleCount d" "GetTablePageId d1 = GetTablePageId d"
    "\<And>i. GetTupleOffsetAtSlot d1 i = GetTupleOffsetAtSlot d i" "\<And>i. GetTupleSize d1 i = GetTupleSize d i"
    "\<And>i. i < 512 \<Longrightarrow> IsSlotOccupied d1 i = IsSlotOccupied d i"
    "\<And>i. i < 512 \<Longrightarrow> IsSlotDeleted d1 i = IsSlotDeleted d i" "\<And>off m. 36 \<le> off \<Longrightarrow> rd m d1 off = rd m d off"
    "links d1 = links d"
    using s(1) W(1) us by (auto simp: d1_def tp_frame)
  have l2: "length d2 = PAGE_SIZE" using l1 by (simp add: d2_def tp_frame)
  have fsp2: "unat (GetFreeSpacePointer d2) = fp"
    using room un unat_sub [of n "GetFreeSpacePointer d"] l1 1(2)
    by (simp add: d2_def tp_frame fp_def word_le_nat_alt)
  have fp: "fp + length bs = tfsp d" "172 + 8 * s \<le> fp" "164 \<le> fp" "fp + length bs \<le> PAGE_SIZE"
  proof -
    have "8 * Suc s \<le> 8 * max (tcnt d) (Suc s)" by (rule mult_le_mono2) simp
    with room have "164 + 8 * Suc s + length bs \<le> tfsp d" by linarith
    then show "fp + length bs = tfsp d" "172 + 8 * s \<le> fp" "164 \<le> fp" "fp + length bs \<le> PAGE_SIZE"
      using W(3) unfolding fp_def by auto
  qed
  have l3: "length d3 = PAGE_SIZE" using l2 fp by (simp add: d3_def)
  have d': "d' = SetLiveTupleCount (GetLiveTupleCount d7 + 1) d7"
    unfolding d'_def insert_page_def Let_def d7_def d6_def d5_def d4_def d3_def fsp2 [symmetric] d2_def d1_def n_def ..
  have s512: "s < 512" using s(2) by simp
  note F3 = data_write_frame [OF l2 fp(4) fp(3), folded d3_def]
  note layers = d' d7_def d6_def d5_def d4_def l3 s(2) s512 tp_frame
  have hdr: "GetTupleCount d' = GetTupleCount d3" "GetFreeSpacePointer d' = GetFreeSpacePointer d3"
    "GetLiveTupleCount d' = GetLiveTupleCount d3 + 1" "GetTablePageId d' = GetTablePageId d3"
    "length d' = PAGE_SIZE"
    by (simp_all add: layers)
  have slots: "GetTupleOffsetAtSlot d' i = (if s = i then GetFreeSpacePointer d3 else GetTupleOffsetAtSlot d3 i)"
    "GetTupleSize d' i = (if s = i then n else GetTupleSize d3 i)"
    "i < 512 \<Longrightarrow> IsSlotOccupied d' i = (if s = i then True else IsSlotOccupied d3 i)"
    "i < 512 \<Longrightarrow> IsSlotDeleted d' i = (if s = i then False else IsSlotDeleted d3 i)" for i
    by (simp_all add: layers)
  have data: "rd m d' off = rd m d3 off" if "172 + 8 * s \<le> off" for m off
    using that by (simp add: layers)
  have "links d' = links d3" by (simp add: layers)
  moreover have "links d3 = links d2" unfolding d3_def by (rule links_data_write [OF l2 fp(4) fp(3)])
  ultimately show "links d' = links d" using 1(10) l1 by (simp add: d2_def tp_frame)
  show "length d' = PAGE_SIZE" by (rule hdr)
  show "tcnt d' = max (tcnt d) (Suc s)" using 1(1) l1 by (simp add: hdr F3 d2_def tp_frame)
  show "tfsp d' = tfsp d - length bs" using fsp2 by (simp add: hdr F3 fp_def)
  show "GetLiveTupleCount d' = GetLiveTupleCount d + 1" "GetTablePageId d' = GetTablePageId d"
    using 1(3,4) l1 by (simp_all add: hdr F3 d2_def tp_frame)
  show "toff d' i = (if i = s then tfsp d - length bs else toff d i)" if "172 + 8 * i \<le> tfsp d - length bs" for i
    using that fsp2 1(5) l1 F3(6) [of i] by (auto simp: slots F3(2) fp_def d2_def tp_frame)
  show "GetTupleSize d' i = (if i = s then of_nat (length bs) else GetTupleSize d i)"
    if "172 + 8 * i \<le> tfsp d - length bs" for i
    using that 1(6) l1 F3(7) [of i] by (auto simp: slots fp_def d2_def tp_frame n_def)
  show "IsSlotOccupied d' i = (if i = s then True else IsSlotOccupied d i)"
    "IsSlotDeleted d' i = (if i = s then False else IsSlotDeleted d i)" if "i < 512" for i
    using that 1(7,8) l1 F3(8,9) by (auto simp: slots d2_def tp_frame)
  show "rd m d' off = rd m d off" if "tfsp d \<le> off" for m off
  proof -
    have off: "172 + 8 * s \<le> off" "36 \<le> off" using that fp by linarith+
    have "rd m d3 off = rd m d2 off"
      unfolding d3_def using that fp l2 by (intro rd_wr_disjoint) auto
    then show ?thesis using data [OF off(1)] 1(9) [OF off(2)] off(2) l1 by (simp add: d2_def tp_frame)
  qed
  have "rd (length bs) d3 fp = bs" unfolding d3_def using fp l2 by (intro rd_wr_same) simp_all
  then show "rd (length bs) d' (tfsp d - length bs) = bs" using data [of fp] fp(2) by (simp add: fp_def)
qed

lemma insert_page_wf:
  assumes wf: "wf_tpage d" and s: "s \<le> tcnt d" "s < 491" "s < tcnt d \<Longrightarrow> \<not> IsSlotOccupied d s"
    and n: "0 < length bs" and room: "164 + 8 * max (tcnt d) (Suc s) + length bs \<le> tfsp d"
  shows "wf_tpage (insert_page s bs d)" "tp_tuple (insert_page s bs d) = (tp_tuple d)(s \<mapsto> (bs, False))"
    "live_slots (insert_page s bs d) = insert s (live_slots d)"
proof -
  note W = wf_tpageD [OF wf]
  let ?d = "insert_page s bs d"
  note G = insert_page_getters [OF wf s(1,2) n room]
  have lb: "length bs \<le> 4096" using room W(3) by (simp add: PAGE_SIZE_def)
  then have bn: "unat (of_nat (length bs) :: 32 word) = length bs" by (simp add: unat_of_nat_small)
  then have nb: "\<not> bit (of_nat (length bs) :: 32 word) 31" using lb by (intro bit31_small) simp
  have old: "i < tcnt d \<and> i \<noteq> s \<or> i = s" if "i < tcnt ?d" for i using that G(2) s(1) by (auto simp: max_def split: if_splits)
  have pos: "172 + 8 * i \<le> tfsp d - length bs" "i < 512" if "i < tcnt ?d" for i
  proof -
    have "8 * Suc i \<le> 8 * max (tcnt d) (Suc s)" using that G(2) by (intro mult_le_mono2) simp
    with room show "172 + 8 * i \<le> tfsp d - length bs" by simp
    with W(3) show "i < 512" by (simp add: PAGE_SIZE_def)
  qed
  have fp: "tfsp d - length bs + length bs = tfsp d" using room by linarith
  have new: "tsz ?d s = length bs" "toff ?d s = tfsp d - length bs" "IsSlotOccupied ?d s" "\<not> IsSlotDeleted ?d s"
    and keep: "\<And>i. i < tcnt d \<Longrightarrow> i \<noteq> s \<Longrightarrow> toff ?d i = toff d i \<and> GetTupleSize ?d i = GetTupleSize d i \<and>
      IsSlotOccupied ?d i = IsSlotOccupied d i \<and> IsSlotDeleted ?d i = IsSlotDeleted d i"
    using pos G(2) G(6-9) bn nb by (auto simp: UnsetDeletedFlag_live)
  have oin: "slot_inside ?d i" "tfsp d \<le> toff ?d i" if "i < tcnt d" "i \<noteq> s" "IsSlotOccupied d i" for i
    using W(6) [OF that(1,3)] keep [OF that(1,2)] G(3) by (auto simp: slot_inside_def)
  have "slot_inside ?d s"
    using new n G(3) W(3) fp pos(1) [of s] G(2) nb by (simp add: slot_inside_def G(7))
  moreover have "slots_apart ?d i s" "slots_apart ?d s i" if "i < tcnt d" "i \<noteq> s" "IsSlotOccupied d i" for i
    using oin(2) [OF that] new(1,2) fp by (simp_all add: slots_apart_def)
  moreover have "slots_apart ?d i j"
    if "i < tcnt d" "i \<noteq> s" "j < tcnt d" "j \<noteq> s" "i \<noteq> j" "IsSlotOccupied d i" "IsSlotOccupied d j" for i j
    using W(8) [OF that(1,3,5,6,7)] keep that by (simp add: slots_apart_def)
  ultimately have apart: "slots_apart ?d i j"
    if "i < tcnt ?d" "j < tcnt ?d" "i \<noteq> j" "IsSlotOccupied ?d i" "IsSlotOccupied ?d j" for i j
    using old [OF that(1)] old [OF that(2)] that(3-5) keep by blast
  have inside: "slot_inside ?d i" if "i < tcnt ?d" "IsSlotOccupied ?d i" for i
    using old [OF that(1)] that(2) keep oin \<open>slot_inside ?d s\<close> by blast
  show ls: "live_slots ?d = insert s (live_slots d)"
    using old keep new G(2) by (auto simp: live_slots_def)
  have "s \<notin> live_slots d" using s(3) by (auto simp: live_slots_def)
  then have "unat (GetLiveTupleCount ?d) = card (live_slots ?d)"
    unfolding ls G(4) using W(9) live_bound [OF wf] by (subst unat_word_succ) simp_all
  moreover have "164 + 8 * tcnt ?d \<le> tfsp ?d" unfolding G(2,3) using room by linarith
  moreover have "\<not> IsSlotDeleted ?d i" if "i < tcnt ?d" "\<not> IsSlotOccupied ?d i" for i
    using old [OF that(1)] that(2) keep new W(7) by blast
  ultimately show "wf_tpage ?d"
    unfolding wf_tpage_def using G(1,3) W(3) apart inside by auto
  show "tp_tuple ?d = (tp_tuple d)(s \<mapsto> (bs, False))"
  proof
    fix i
    show "tp_tuple ?d i = ((tp_tuple d)(s \<mapsto> (bs, False))) i"
    proof (cases "i = s")
      case True
      then show ?thesis using new G(2,11) by (simp add: tp_tuple_def)
    next
      case False
      have "i < tcnt ?d \<longleftrightarrow> i < tcnt d" using False G(2) s(1) by (auto simp: max_def)
      then show ?thesis
        using False keep [of i] oin(2) [of i] G(10) by (auto simp: tp_tuple_def)
    qed
  qed
qed

text \<open>The slot \<^verbatim>\<open>InsertTuple\<close> uses: the first free one, or a new one at the end.\<close>

definition insert_slot :: "tpage \<Rightarrow> nat" where
  "insert_slot d = (case find (\<lambda>s. \<not> IsSlotOccupied d s) [0..<tcnt d] of Some s \<Rightarrow> s | None \<Rightarrow> tcnt d)"

lemma insert_slot_free: "insert_slot d \<le> tcnt d" "insert_slot d < tcnt d \<Longrightarrow> \<not> IsSlotOccupied d (insert_slot d)"
    "i < insert_slot d \<Longrightarrow> IsSlotOccupied d i"
  by (auto simp: insert_slot_def find_upt_least split: option.splits)

definition insert_fits :: "nat \<Rightarrow> tpage \<Rightarrow> bool" where
  "insert_fits n d \<longleftrightarrow> 164 + 8 * max (tcnt d) (Suc (insert_slot d)) + n \<le> tfsp d"

lemma InsertTuple_effect:
  assumes wf: "wf_tpage d" and ok: "row_ok schema r" and n: "length (row_enc r) < 2 ^ 31"
  shows "InsertTuple r schema d =
    (if insert_fits (length (row_enc r)) d
     then Inr (insert_page (insert_slot d) (row_enc r) d,
               r\<lparr>row_rid := mk_RowId (GetTablePageId d) (of_nat (insert_slot d))\<rparr>, True)
     else Inr (d, r, False))"
proof -
  note W = wf_tpageD [OF wf]
  let ?bs = "row_enc r" and ?s = "insert_slot d"
  let ?n = "of_nat (length ?bs) :: 32 word"
  have un: "unat ?n = length ?bs" using n by (simp add: unat_of_nat_small)
  have len: "0 < length ?bs" by (simp add: row_enc_def)
  then have pos: "0 < ?n" using un by (simp add: word_less_nat_alt)
  have size: "row_GetSerializedSize r schema = Inr (length ?bs)" by (rule row_size_enc [OF ok])
  have find: "FindReusableSlot d = Inr ?s" using FindReusableSlot_find [OF wf] by (simp add: insert_slot_def)
  have s512: "\<not> BITMAP_SLOT_CAPACITY \<le> ?s" using insert_slot_free(1) [of d] W(4) by (simp add: tp_consts)
  let ?req = "?n + (if ?s < tcnt d then 0 else of_nat SIZE_TUPLE)"
  have "unat ?req = length ?bs + (if ?s < tcnt d then 0 else 8)"
    using un n by (simp add: unat_word_ariths tp_consts)
  then have less: "GetFreeSpaceRemaining d < ?req \<longleftrightarrow> \<not> insert_fits (length ?bs) d"
    using unat_free_space [OF wf] insert_slot_free(1) [of d] W(2)
    by (auto simp: word_less_nat_alt insert_fits_def max_def)
  show ?thesis
  proof (cases "insert_fits (length ?bs) d")
    case False
    then show ?thesis using size pos find less by (simp add: InsertTuple_def Let_def)
  next
    case True
    note room = True [unfolded insert_fits_def]
    have s491: "?s < 491" 
    proof -
      have "8 * Suc ?s \<le> 8 * max (tcnt d) (Suc ?s)" by (rule mult_le_mono2) simp
      with room W(3) len show ?thesis by (simp add: PAGE_SIZE_def)
    qed
    define d1 where "d1 = (if ?s < tcnt d then d else SetTupleCount (of_nat ?s + 1) d)"
    define d2 where "d2 = SetFreeSpacePointer (GetFreeSpacePointer d1 - ?n) d1"
    have l1: "length d1 = PAGE_SIZE" "GetFreeSpacePointer d1 = GetFreeSpacePointer d"
      using W(1) by (simp_all add: d1_def tp_frame)
    have l2: "length d2 = PAGE_SIZE" using l1 by (simp add: d2_def tp_frame)
    have fp: "unat (GetFreeSpacePointer d2) + length ?bs \<le> length d2"
      using room un unat_sub [of ?n "GetFreeSpacePointer d"] l1 l2 W(3)
      by (simp add: d2_def tp_frame word_le_nat_alt)
    have ser: "row_SerializeTo r schema d2 (unat (GetFreeSpacePointer d2)) =
        Inr (wr d2 (unat (GetFreeSpacePointer d2)) ?bs, length ?bs)" by (rule row_ser_enc [OF ok fp])
    have id: "GetTablePageId (insert_page ?s ?bs d) = GetTablePageId d"
      by (rule insert_page_getters(5) [OF wf insert_slot_free(1) s491 len room])
    show ?thesis
      using True size pos find less s512 ser id
      by (cases "?s < tcnt d") (simp_all add: InsertTuple_def Let_def insert_page_def d2_def d1_def)
  qed
qed

section \<open>Closing and opening gaps\<close>

text \<open>
  \<^verbatim>\<open>ApplyDelete\<close> and \<^verbatim>\<open>UpdateTuple\<close> slide the tuples below a slot's tuple so that its place of
  \<open>ts\<close> bytes becomes one of \<open>ss\<close> bytes (none for a deletion). The next lemma says that a page that
  has been slid this way still stores every other tuple.
\<close>

lemma slide_page:
  assumes wf: "wf_tpage d" and s: "s < tcnt d" "IsSlotOccupied d s"
    and len: "length d' = PAGE_SIZE" and cnt: "GetTupleCount d' = GetTupleCount d"
    and room: "164 + 8 * tcnt d + ss \<le> tfsp d + tsz d s" and fsp: "tfsp d' = tfsp d + tsz d s - ss"
    and other: "\<And>i. i < tcnt d \<Longrightarrow> i \<noteq> s \<Longrightarrow> IsSlotOccupied d' i = IsSlotOccupied d i \<and>
      IsSlotDeleted d' i = IsSlotDeleted d i \<and> GetTupleSize d' i = GetTupleSize d i"
    and offs: "\<And>i. i < tcnt d \<Longrightarrow> i \<noteq> s \<Longrightarrow> IsSlotOccupied d i \<Longrightarrow>
      toff d' i = (if toff d i < toff d s then toff d i + tsz d s - ss else toff d i)"
    and low: "\<And>a k. tfsp d \<le> a \<Longrightarrow> a + k \<le> toff d s \<Longrightarrow> rd k d' (a + tsz d s - ss) = rd k d a"
    and high: "\<And>a k. toff d s + tsz d s \<le> a \<Longrightarrow> rd k d' a = rd k d a"
    and new: "IsSlotOccupied d' s \<Longrightarrow> 0 < ss \<and> toff d' s = toff d s + tsz d s - ss \<and> tsz d' s = ss \<and>
      (bit (GetTupleSize d' s) 31 \<longleftrightarrow> IsSlotDeleted d' s)"
    and gone: "\<not> IsSlotOccupied d' s \<Longrightarrow> \<not> IsSlotDeleted d' s"
    and live: "unat (GetLiveTupleCount d') = card (live_slots d')"
  shows "wf_tpage d'"
    "tp_tuple d' = (tp_tuple d)(s := if IsSlotOccupied d' s
       then Some (rd ss d' (toff d s + tsz d s - ss), IsSlotDeleted d' s) else None)"
proof -
  note W = wf_tpageD [OF wf]
  let ?o = "toff d s" and ?t = "tsz d s"
  have I: "tfsp d \<le> ?o" "?o + ?t \<le> PAGE_SIZE" using W(6) [OF s] by (auto simp: slot_inside_def)
  have c: "tcnt d' = tcnt d" by (simp add: cnt)
  have place: "toff d i + tsz d i \<le> ?o \<and> tfsp d \<le> toff d i \<and> toff d' i = toff d i + ?t - ss \<or>
      ?o + ?t \<le> toff d i \<and> toff d' i = toff d i"
    if "i < tcnt d" "i \<noteq> s" "IsSlotOccupied d i" for i
  proof -
    have "slots_apart d i s" "slot_inside d i" using W(6,8) s that by auto
    then show ?thesis using offs [OF that] W(6) [OF s] by (auto simp: slots_apart_def slot_inside_def)
  qed
  have inside: "slot_inside d' i" if "i < tcnt d" "IsSlotOccupied d' i" for i
  proof (cases "i = s")
    case True
    then show ?thesis using new that(2) I fsp room by (auto simp: slot_inside_def)
  next
    case False
    then have "IsSlotOccupied d i" using other that by blast
    moreover from this have "slot_inside d i" using W(6) that(1) by blast
    ultimately show ?thesis
      using place [OF that(1) False] other [OF that(1) False] fsp I room by (auto simp: slot_inside_def)
  qed
  have apart: "slots_apart d' i j"
    if ij: "i < tcnt d" "j < tcnt d" "i \<noteq> j" "IsSlotOccupied d' i" "IsSlotOccupied d' j" for i j
  proof -
    have with_s: "slots_apart d' k s \<and> slots_apart d' s k"
      if "k < tcnt d" "k \<noteq> s" "IsSlotOccupied d k" "IsSlotOccupied d' s" for k
      using place [OF that(1-3)] other [OF that(1,2)] new [OF that(4)] I room
      by (auto simp: slots_apart_def)
    show ?thesis
    proof (cases "i = s \<or> j = s")
      case True
      then show ?thesis using with_s ij other by blast
    next
      case False
      then have occ: "IsSlotOccupied d i" "IsSlotOccupied d j" using ij other by blast+
      have "slots_apart d i j" using W(8) ij occ by blast
      moreover have "tsz d' i = tsz d i" "tsz d' j = tsz d j" using other ij False by auto
      ultimately show ?thesis
        using place [of i] place [of j] ij occ False room I by (auto simp: slots_apart_def)
    qed
  qed
  have "\<not> IsSlotDeleted d' i" if "i < tcnt d" "\<not> IsSlotOccupied d' i" for i
    using that gone other W(7) by (cases "i = s") auto
  then show "wf_tpage d'"
    unfolding wf_tpage_def c using len live inside apart fsp room I by auto
  show "tp_tuple d' = (tp_tuple d)(s := if IsSlotOccupied d' s
       then Some (rd ss d' (?o + ?t - ss), IsSlotDeleted d' s) else None)"
  proof
    fix i
    show "tp_tuple d' i = ((tp_tuple d)(s := if IsSlotOccupied d' s
       then Some (rd ss d' (?o + ?t - ss), IsSlotDeleted d' s) else None)) i"
    proof (cases "i = s")
      case True
      then show ?thesis using new s by (auto simp: tp_tuple_def c)
    next
      case False
      show ?thesis
      proof (cases "i < tcnt d \<and> IsSlotOccupied d i")
        case True
        then have "rd (tsz d i) d' (toff d' i) = rd (tsz d i) d (toff d i)"
          using place [of i] False low high by auto
        with True False show ?thesis using other [of i] by (simp add: tp_tuple_def c)
      next
        case nope: False
        then show ?thesis using False other [of i] by (auto simp: tp_tuple_def c)
      qed
    qed
  qed
qed

definition shift_rel :: "32 word \<Rightarrow> 32 word \<Rightarrow> nat set \<Rightarrow> nat \<Rightarrow> tpage \<Rightarrow> tpage \<Rightarrow> bool" where
  "shift_rel bound delta S c d d' \<longleftrightarrow> length d' = PAGE_SIZE \<and>
    (\<forall>j. GetTupleOffsetAtSlot d' j = (if j \<in> S \<and> IsSlotOccupied d j \<and> GetTupleOffsetAtSlot d j < bound
       then GetTupleOffsetAtSlot d j + delta else GetTupleOffsetAtSlot d j)) \<and>
    (\<forall>j. GetTupleSize d' j = GetTupleSize d j) \<and>
    (\<forall>j < 512. IsSlotOccupied d' j = IsSlotOccupied d j \<and> IsSlotDeleted d' j = IsSlotDeleted d j) \<and>
    GetTupleCount d' = GetTupleCount d \<and> GetFreeSpacePointer d' = GetFreeSpacePointer d \<and>
    GetLiveTupleCount d' = GetLiveTupleCount d \<and> GetTablePageId d' = GetTablePageId d \<and> links d' = links d \<and>
    (\<forall>off n. 164 + 8 * c \<le> off \<longrightarrow> rd n d' off = rd n d off)"

lemma shift_offsets_rel:
  assumes "c \<le> 491"
  shows "length d = PAGE_SIZE \<Longrightarrow> distinct is \<Longrightarrow> set is \<subseteq> {..<c} \<Longrightarrow>
    shift_rel bound delta (set is) c d (shift_offsets bound delta is d)"
proof (induction "is" arbitrary: d)
  case (Cons i "is")
  have i: "i < 491" "i < c" using Cons.prems(3) assms by auto
  let ?d = "if IsSlotOccupied d i \<and> GetTupleOffsetAtSlot d i < bound
    then SetTupleOffsetAtSlot i (GetTupleOffsetAtSlot d i + delta) d else d"
  have len: "length ?d = PAGE_SIZE" using Cons.prems(1) i by (simp add: tp_frame)
  have one: "GetTupleOffsetAtSlot ?d j = (if j = i \<and> IsSlotOccupied d j \<and> GetTupleOffsetAtSlot d j < bound
       then GetTupleOffsetAtSlot d j + delta else GetTupleOffsetAtSlot d j)"
    "GetTupleSize ?d j = GetTupleSize d j"
    "j < 512 \<Longrightarrow> IsSlotOccupied ?d j = IsSlotOccupied d j" "j < 512 \<Longrightarrow> IsSlotDeleted ?d j = IsSlotDeleted d j"
    "GetTupleCount ?d = GetTupleCount d" "GetFreeSpacePointer ?d = GetFreeSpacePointer d"
    "GetLiveTupleCount ?d = GetLiveTupleCount d" "GetTablePageId ?d = GetTablePageId d"
    "164 + 8 * c \<le> off \<Longrightarrow> rd n ?d off = rd n d off" "links ?d = links d" for j off n
    using Cons.prems(1) i by (auto simp: tp_frame)
  have IH: "shift_rel bound delta (set is) c ?d (shift_offsets bound delta is ?d)"
    using Cons.prems(2,3) by (intro Cons.IH [OF len]) auto
  have occ: "j \<in> set is \<Longrightarrow> IsSlotOccupied ?d j = IsSlotOccupied d j" for j
    using one(3) Cons.prems(3) assms by auto
  have ni: "i \<notin> set is" using Cons.prems(2) by simp
  have unf: "shift_offsets bound delta (i # is) d = shift_offsets bound delta is ?d" by (simp add: Let_def)
  have off: "(if j \<in> set is \<and> IsSlotOccupied ?d j \<and> GetTupleOffsetAtSlot ?d j < bound
       then GetTupleOffsetAtSlot ?d j + delta else GetTupleOffsetAtSlot ?d j) =
      (if j \<in> set (i # is) \<and> IsSlotOccupied d j \<and> GetTupleOffsetAtSlot d j < bound
       then GetTupleOffsetAtSlot d j + delta else GetTupleOffsetAtSlot d j)" for j
    unfolding one(1) using occ [of j] ni by (cases "j = i") auto
  show ?case
    using IH unfolding unf shift_rel_def off one(2,5-8,10) using one(3,4,9) by simp
qed (simp add: shift_rel_def)

lemma ApplyDelete_effect:
  assumes wf: "wf_tpage d" and s: "unat (rid_slot_num rid) = s" "s < tcnt d" "IsSlotOccupied d s"
  obtains d' where "ApplyDelete rid d = Inr d'" "wf_tpage d'" "tp_tuple d' = (tp_tuple d)(s := None)"
    "tcnt d' = tcnt d" "tfsp d' = tfsp d + tsz d s" "GetTablePageId d' = GetTablePageId d" "links d' = links d"
proof -
  note W = wf_tpageD [OF wf]
  have s491: "s < 491" "s < 512" using W(5) [OF s(2)] by simp_all
  have I: "tfsp d \<le> toff d s" "toff d s + tsz d s \<le> PAGE_SIZE" "0 < tsz d s"
    "bit (GetTupleSize d s) 31 \<longleftrightarrow> IsSlotDeleted d s"
    using W(6) [OF s(2,3)] by (simp_all add: slot_inside_def)
  define fp where "fp = GetFreeSpacePointer d"
  define ts where "ts = UnsetDeletedFlag (GetTupleSize d s)"
  define off where "off = GetTupleOffsetAtSlot d s"
  define was_live where "was_live = (GetTupleSize d s \<noteq> 0 \<and> \<not> IsDeleted (GetTupleSize d s))"
  have nz: "GetTupleSize d s \<noteq> 0" using I(3) by auto
  have ts: "(if IsDeleted (GetTupleSize d s) then UnsetDeletedFlag (GetTupleSize d s) else GetTupleSize d s) = ts"
    using nz by (auto simp: ts_def IsDeleted_bit UnsetDeletedFlag_live)
  have tsn: "unat ts = tsz d s" "ts \<noteq> 0" using I(3) by (auto simp: ts_def)
  have sum: "unat (fp + ts) = tfsp d + tsz d s"
    using I W(3) tsn by (simp add: fp_def unat_word_ariths PAGE_SIZE_def)
  have dif: "unat (off - fp) = toff d s - tfsp d"
    using unat_sub [of fp off] I(1) by (simp add: fp_def off_def word_le_nat_alt)
  define d1 where "d1 = memmove (tfsp d + tsz d s) (tfsp d) (toff d s - tfsp d) d"
  define d2 where "d2 = SetFreeSpacePointer (fp + ts) d1"
  define d3 where "d3 = SetTupleSize s 0 d2"
  define d4 where "d4 = SetTupleOffsetAtSlot s 0 d3"
  define d5 where "d5 = SetSlotOccupied s False d4"
  define d6 where "d6 = SetSlotDeleted s False d5"
  define d7 where "d7 = (if was_live then SetLiveTupleCount (GetLiveTupleCount d6 - 1) d6 else d6)"
  define d' where "d' = shift_offsets off ts [0..<tcnt d7] d7"
  have mv: "tfsp d + tsz d s + (toff d s - tfsp d) \<le> length d" "tfsp d + (toff d s - tfsp d) \<le> length d"
    using I W(1) by simp_all
  have src: "length (rd (toff d s - tfsp d) d (tfsp d)) = toff d s - tfsp d" using mv by simp
  have base: "164 \<le> tfsp d + tsz d s" "172 + 8 * i \<le> tfsp d + tsz d s" if "i < tcnt d" for i
    using W(2) that by linarith+
  note F1 = data_write_frame [OF W(1), of "tfsp d + tsz d s" "rd (toff d s - tfsp d) d (tfsp d)",
      folded memmove_def, folded d1_def]
  have l1: "length d1 = PAGE_SIZE" using F1(1) src mv W(1) base(1) [OF s(2)] by simp
  have F1': "GetFreeSpacePointer d1 = fp" "GetTupleCount d1 = GetTupleCount d"
    "GetLiveTupleCount d1 = GetLiveTupleCount d" "GetTablePageId d1 = GetTablePageId d"
    "\<And>i. i < tcnt d \<Longrightarrow> GetTupleOffsetAtSlot d1 i = GetTupleOffsetAtSlot d i"
    "\<And>i. i < tcnt d \<Longrightarrow> GetTupleSize d1 i = GetTupleSize d i"
    "\<And>i. i < 512 \<Longrightarrow> IsSlotOccupied d1 i = IsSlotOccupied d i" "\<And>i. i < 512 \<Longrightarrow> IsSlotDeleted d1 i = IsSlotDeleted d i"
    using F1(2-9) src mv W(1) base base(1) [OF s(2)] by (simp_all add: fp_def)
  have "links d1 = links d"
    unfolding d1_def memmove_def using src mv W(1) base(1) [OF s(2)] by (intro links_data_write) simp_all
  note layers = d7_def d6_def d5_def d4_def d3_def d2_def l1 s491 tp_frame this
  have l7: "length d7 = PAGE_SIZE" by (simp add: layers)
  have G7: "GetTupleCount d7 = GetTupleCount d" "GetFreeSpacePointer d7 = fp + ts"
    "GetLiveTupleCount d7 = (if was_live then GetLiveTupleCount d - 1 else GetLiveTupleCount d)"
    "GetTablePageId d7 = GetTablePageId d"
    "\<And>i. i < tcnt d \<Longrightarrow> GetTupleOffsetAtSlot d7 i = (if s = i then 0 else GetTupleOffsetAtSlot d i)"
    "\<And>i. i < tcnt d \<Longrightarrow> GetTupleSize d7 i = (if s = i then 0 else GetTupleSize d i)"
    "\<And>i. i < 512 \<Longrightarrow> IsSlotOccupied d7 i = (if s = i then False else IsSlotOccupied d i)"
    "\<And>i. i < 512 \<Longrightarrow> IsSlotDeleted d7 i = (if s = i then False else IsSlotDeleted d i)"
    using F1' s491 by (simp_all add: layers) (auto simp: layers)
  have k7: "links d7 = links d" by (simp add: layers)
  have data7: "rd k d7 a = rd k d1 a" if "tfsp d + tsz d s \<le> a" for k a
    using base [OF s(2)] that by (simp add: layers)
  have "shift_rel off ts {0..<tcnt d} (tcnt d) d7 d'"
    unfolding d'_def G7(1) set_upt [symmetric] using W(4) l7 by (intro shift_offsets_rel) auto
  note S = this [unfolded shift_rel_def]
  have app: "ApplyDelete rid d = Inr d'"
    using s nz tsn(2) I(1)
    by (simp add: ApplyDelete_def Let_def ts flip: fp_def off_def)
       (simp add: sum dif word_le_nat_alt fp_def [symmetric] off_def [symmetric] was_live_def
          d1_def d2_def d3_def d4_def d5_def d6_def d7_def d'_def)
  have D: "length d' = PAGE_SIZE" "GetTupleCount d' = GetTupleCount d" "tfsp d' = tfsp d + tsz d s"
    "GetLiveTupleCount d' = (if was_live then GetLiveTupleCount d - 1 else GetLiveTupleCount d)"
    "GetTablePageId d' = GetTablePageId d" "\<not> IsSlotOccupied d' s" "\<not> IsSlotDeleted d' s" "links d' = links d"
    using S G7 sum s491 k7 by simp_all
  have other: "IsSlotOccupied d' i = IsSlotOccupied d i \<and> IsSlotDeleted d' i = IsSlotDeleted d i \<and>
      GetTupleSize d' i = GetTupleSize d i" if "i < tcnt d" "i \<noteq> s" for i
    using S G7(6-8) W(5) [OF that(1)] that by auto
  have offs: "toff d' i = (if toff d i < toff d s then toff d i + tsz d s - 0 else toff d i)"
    if i: "i < tcnt d" "i \<noteq> s" "IsSlotOccupied d i" for i
  proof -
    have "GetTupleOffsetAtSlot d' i =
        (if GetTupleOffsetAtSlot d i < off then GetTupleOffsetAtSlot d i + ts else GetTupleOffsetAtSlot d i)"
      using S G7(5,7) i W(5) [OF i(1)] by auto
    moreover have "unat (GetTupleOffsetAtSlot d i + ts) = toff d i + tsz d s" if "toff d i < toff d s"
      using that I tsn by (simp add: unat_word_ariths PAGE_SIZE_def)
    ultimately show ?thesis by (auto simp: off_def word_less_nat_alt)
  qed
  have base': "164 + 8 * tcnt d \<le> tfsp d + tsz d s" using W(2) by simp
  have low: "rd k d' (a + tsz d s - 0) = rd k d a" if "tfsp d \<le> a" "a + k \<le> toff d s" for a k
  proof -
    have "rd k d1 (tfsp d + tsz d s + (a - tfsp d)) = rd k d a"
      unfolding d1_def using that I(1) by (intro rd_memmove(1) [OF mv]) auto
    moreover have "tfsp d + tsz d s + (a - tfsp d) = a + tsz d s" using that by simp
    ultimately show ?thesis using S data7 [of "a + tsz d s" k] that base' by simp
  qed
  have high: "rd k d' a = rd k d a" if "toff d s + tsz d s \<le> a" for a k
  proof -
    have "rd k d1 a = rd k d a" unfolding d1_def using that I(1) by (intro rd_memmove(2) [OF mv]) auto
    then show ?thesis using S data7 [of a k] that base' I(1) by simp
  qed
  have small: "i < 512" if "i < tcnt d" for i using W(5) [OF that] by simp
  have ls: "live_slots d' = live_slots d - {s}"
    using other D(2,6) by (auto simp: live_slots_def)
  have wl: "was_live \<longleftrightarrow> s \<in> live_slots d"
    using nz s I(4) by (simp add: was_live_def IsDeleted_bit live_slots_def)
  have "unat (GetLiveTupleCount d') = card (live_slots d')"
  proof (cases was_live)
    case True
    then show ?thesis
      unfolding ls D(4) using W(9) card_Suc_Diff1 [OF finite_live_slots, of s d] wl
      by (simp add: unat_word_pred)
  qed (use ls D(4) W(9) wl in simp)
  note T = slide_page [OF wf s(2,3) D(1,2), of 0, OF _ _ other offs low high _ _ this]
  show thesis
  proof (rule that [OF app])
    show "wf_tpage d'" "tp_tuple d' = (tp_tuple d)(s := None)" using T base' D(3,6,7) by simp_all
  qed (use D in simp_all)
qed

text \<open>The stored bytes of a tuple, as \<^verbatim>\<open>DeserializeFrom\<close> finds them.\<close>

lemma stored_row:
  assumes wf: "wf_tpage d" and t: "tp_tuple d s = Some (row_enc r, del)" and ok: "row_ok schema r"
  shows "row_DeserializeFrom (Row_of_rid rid) schema d (toff d s) =
    Inr (\<lparr>row_rid = rid, row_fields = map field_canon (row_fields r)\<rparr>, tsz d s)"
    "tsz d s = length (row_enc r)"
proof -
  note W = wf_tpageD [OF wf]
  have s: "s < tcnt d" "IsSlotOccupied d s" "rd (tsz d s) d (toff d s) = row_enc r"
    using t by (auto simp: tp_tuple_def split: if_splits)
  have I: "toff d s + tsz d s \<le> length d" using W(6) [OF s(1,2)] W(1) by (simp add: slot_inside_def)
  then show len: "tsz d s = length (row_enc r)" using s(3) by (metis length_rd)
  show "row_DeserializeFrom (Row_of_rid rid) schema d (toff d s) =
      Inr (\<lparr>row_rid = rid, row_fields = map field_canon (row_fields r)\<rparr>, tsz d s)"
    using row_des_enc [OF ok, of "toff d s" d rid] I s(3) len by simp
qed

lemma GetTuple_effect:
  assumes wf: "wf_tpage d" and rid: "RowId_Get rid \<noteq> RowId_Get INVALID_ROWID"
  defines "s \<equiv> unat (rid_slot_num rid)"
  shows "tp_tuple d s = Some (row_enc r, False) \<Longrightarrow> row_ok schema r \<Longrightarrow>
      GetTuple (Row_of_rid rid) schema d =
        Inr (\<lparr>row_rid = rid, row_fields = map field_canon (row_fields r)\<rparr>, True)"
    "s \<notin> live_slots d \<Longrightarrow> GetTuple (Row_of_rid rid) schema d = Inr (Row_of_rid rid, False)"
proof -
  assume t: "tp_tuple d s = Some (row_enc r, False)" and ok: "row_ok schema r"
  then have live: "s \<in> live_slots d" by (auto simp: tp_tuple_def live_slots_def split: if_splits)
  note L = live_slot [OF wf live]
  have "of_nat (tsz d s) = GetTupleSize d s" unfolding L(7) by simp
  then show "GetTuple (Row_of_rid rid) schema d =
        Inr (\<lparr>row_rid = rid, row_fields = map field_canon (row_fields r)\<rparr>, True)"
    using rid L stored_row(1) [OF wf t ok, of rid]
    by (simp add: GetTuple_def Let_def Row_of_rid_def flip: s_def)
next
  assume "s \<notin> live_slots d"
  then show "GetTuple (Row_of_rid rid) schema d = Inr (Row_of_rid rid, False)"
    using rid by (auto simp: GetTuple_def Let_def Row_of_rid_def live_slots_def simp flip: s_def)
qed

lemma UpdateTuple_effect:
  assumes wf: "wf_tpage d" and rid: "RowId_Get rid \<noteq> RowId_Get INVALID_ROWID"
    and s: "unat (rid_slot_num rid) = s" and t: "tp_tuple d s = Some (row_enc r0, False)" "row_ok schema r0"
    and ok: "row_ok schema r" and n: "length (row_enc r) < 2 ^ 31"
    and fits: "164 + 8 * tcnt d + length (row_enc r) \<le> tfsp d + length (row_enc r0)"
  obtains d' where "UpdateTuple r (Row_of_rid rid) schema d =
      Inr (d', \<lparr>row_rid = rid, row_fields = map field_canon (row_fields r0)\<rparr>, True)"
    "wf_tpage d'" "tp_tuple d' = (tp_tuple d)(s \<mapsto> (row_enc r, False))" "tcnt d' = tcnt d"
    "GetTablePageId d' = GetTablePageId d" "links d' = links d"
proof -
  note W = wf_tpageD [OF wf]
  let ?bs = "row_enc r" and ?ss = "length (row_enc r)"
  have live: "s \<in> live_slots d" using t(1) by (auto simp: tp_tuple_def live_slots_def split: if_splits)
  note L = live_slot [OF wf live]
  have I: "tfsp d \<le> toff d s" "toff d s + tsz d s \<le> PAGE_SIZE" "0 < tsz d s"
    using L(8) by (simp_all add: slot_inside_def)
  have size0: "tsz d s = length (row_enc r0)" by (rule stored_row(2) [OF wf t])
  have room: "164 + 8 * tcnt d + ?ss \<le> tfsp d + tsz d s" using fits size0 by simp
  have ss: "0 < ?ss" by (simp add: row_enc_def)
  define fp where "fp = GetFreeSpacePointer d"
  define ts where "ts = GetTupleSize d s"
  define off where "off = GetTupleOffsetAtSlot d s"
  define w where "w = (of_nat ?ss :: 32 word)"
  have tsn: "unat ts = tsz d s" unfolding ts_def using L(7) by simp
  have wn: "unat w = ?ss" using n by (simp add: w_def unat_of_nat_small)
  have small: "tfsp d + tsz d s \<le> 4096" "toff d s + tsz d s \<le> 4096" using I by (simp_all add: PAGE_SIZE_def)
  have sum1: "unat (fp + ts) = tfsp d + tsz d s" "unat (off + ts) = toff d s + tsz d s"
    using small tsn by (simp_all add: fp_def off_def unat_word_ariths)
  have sum2: "unat (fp + ts - w) = tfsp d + tsz d s - ?ss" "unat (off + ts - w) = toff d s + tsz d s - ?ss"
    using unat_sub [of w "fp + ts"] unat_sub [of w "off + ts"] sum1 wn room I(1)
    by (simp_all add: word_le_nat_alt)
  have dif: "unat (off - fp) = toff d s - tfsp d"
    using unat_sub [of fp off] I(1) by (simp add: fp_def off_def word_le_nat_alt)
  have fit: "\<not> GetFreeSpaceRemaining d + ts < w"
  proof -
    have "unat (GetFreeSpaceRemaining d + ts) = tfsp d - 164 - 8 * tcnt d + tsz d s"
      using unat_free_space [OF wf] tsn small(1) by (simp add: unat_word_ariths)
    then show ?thesis using room wn W(2) by (simp add: word_less_nat_alt)
  qed
  let ?dst = "tfsp d + tsz d s - ?ss" and ?at = "toff d s + tsz d s - ?ss"
  define d1 where "d1 = memmove ?dst (tfsp d) (toff d s - tfsp d) d"
  define d2 where "d2 = SetFreeSpacePointer (fp + ts - w) d1"
  define d3 where "d3 = wr d2 ?at ?bs"
  define d4 where "d4 = SetTupleSize s w d3"
  define d' where "d' = shift_offsets (off + ts) (ts - w) [0..<tcnt d4] d4"
  have mv: "?dst + (toff d s - tfsp d) \<le> length d" "tfsp d + (toff d s - tfsp d) \<le> length d"
    using I W(1) ss by simp_all
  have src: "length (rd (toff d s - tfsp d) d (tfsp d)) = toff d s - tfsp d" using mv(2) by simp
  have base: "164 + 8 * tcnt d \<le> ?dst" "?dst \<le> ?at" "?at + ?ss = toff d s + tsz d s" using room I by simp_all
  have slot: "172 + 8 * i \<le> ?dst" "172 + 8 * i \<le> ?at" if "i < tcnt d" for i using base that by linarith+
  have b164: "164 \<le> ?dst" "164 \<le> ?at" using base by linarith+
  note F1 = data_write_frame [OF W(1), of ?dst "rd (toff d s - tfsp d) d (tfsp d)",
      folded memmove_def, folded d1_def]
  have l1: "length d1 = PAGE_SIZE" using F1(1) src mv W(1) b164 by simp
  have F1': "GetFreeSpacePointer d1 = fp" "GetTupleCount d1 = GetTupleCount d"
    "GetLiveTupleCount d1 = GetLiveTupleCount d" "GetTablePageId d1 = GetTablePageId d"
    "\<And>i. i < tcnt d \<Longrightarrow> GetTupleOffsetAtSlot d1 i = GetTupleOffsetAtSlot d i"
    "\<And>i. i < tcnt d \<Longrightarrow> GetTupleSize d1 i = GetTupleSize d i"
    "\<And>i. i < 512 \<Longrightarrow> IsSlotOccupied d1 i = IsSlotOccupied d i" "\<And>i. i < 512 \<Longrightarrow> IsSlotDeleted d1 i = IsSlotDeleted d i"
    using F1(2-9) src mv W(1) slot b164 by (simp_all add: fp_def)
  have l2: "length d2 = PAGE_SIZE" using l1 by (simp add: d2_def tp_frame)
  have end3: "?at + length ?bs \<le> PAGE_SIZE" using base(3) I(2) by simp
  note F3 = data_write_frame [OF l2 end3 b164(2), folded d3_def]
  have l3: "length d3 = PAGE_SIZE" by (rule F3(1))
  have l4: "length d4 = PAGE_SIZE" using l3 L(2) by (simp add: d4_def tp_frame)
  have G4: "GetTupleCount d4 = GetTupleCount d" "GetFreeSpacePointer d4 = fp + ts - w"
    "GetLiveTupleCount d4 = GetLiveTupleCount d" "GetTablePageId d4 = GetTablePageId d"
    using F1' F3(2-5) l1 l3 L(2) by (simp_all add: d4_def d2_def tp_frame)
  have "links d1 = links d"
    unfolding d1_def memmove_def using src mv W(1) b164 by (intro links_data_write) simp_all
  moreover have "links d3 = links d2" unfolding d3_def by (rule links_data_write [OF l2 end3 b164(2)])
  ultimately have k4: "links d4 = links d" using l1 l3 L(2) by (simp add: d4_def d2_def tp_frame)
  have S4: "GetTupleOffsetAtSlot d4 i = GetTupleOffsetAtSlot d i"
    "GetTupleSize d4 i = (if s = i then w else GetTupleSize d i)"
    "IsSlotOccupied d4 i = IsSlotOccupied d i" "IsSlotDeleted d4 i = IsSlotDeleted d i" if "i < tcnt d" for i
  proof -
    have i: "i < 512" "i < 491" using W(5) [OF that] by simp_all
    show "GetTupleOffsetAtSlot d4 i = GetTupleOffsetAtSlot d i"
      "GetTupleSize d4 i = (if s = i then w else GetTupleSize d i)"
      "IsSlotOccupied d4 i = IsSlotOccupied d i" "IsSlotDeleted d4 i = IsSlotDeleted d i"
      using F1'(5-8) that i F3(6-9) slot [OF that] l1 l3 L(2) by (simp_all add: d4_def d2_def tp_frame)
  qed
  have data4: "rd k d4 a = rd k d3 a" if "?dst \<le> a" for k a
    using slot(1) [OF L(1)] that l3 L(2) by (simp add: d4_def tp_frame)
  have "shift_rel (off + ts) (ts - w) {0..<tcnt d} (tcnt d) d4 d'"
    unfolding d'_def G4(1) set_upt [symmetric] using W(4) l4 by (intro shift_offsets_rel) auto
  note S = this [unfolded shift_rel_def]
  have upd: "UpdateTuple r (Row_of_rid rid) schema d =
      Inr (d', \<lparr>row_rid = rid, row_fields = map field_canon (row_fields r0)\<rparr>, True)"
  proof -
    have ser: "row_SerializeTo r schema d2 ?at = Inr (d3, ?ss)"
      unfolding d3_def using end3 l2 by (intro row_ser_enc [OF ok]) simp
    have des: "row_DeserializeFrom (Row_of_rid rid) schema d (unat off) =
        Inr (\<lparr>row_rid = rid, row_fields = map field_canon (row_fields r0)\<rparr>, unat ts)"
      using stored_row(1) [OF wf t, of rid] tsn by (simp add: off_def)
    have rr: "row_rid (Row_of_rid rid) = rid" by (simp add: Row_of_rid_def)
    have pos: "0 < w" using wn ss by (simp add: word_less_nat_alt)
    have le: "fp \<le> off" using I(1) by (simp add: fp_def off_def word_le_nat_alt)
    have size: "row_GetSerializedSize r schema = Inr ?ss" by (rule row_size_enc [OF ok])
    have c: "\<not> tcnt d \<le> s" using L(1) by simp
    have mm: "memmove (unat (fp + ts - w)) (unat fp) (unat (off - fp)) d = d1"
      by (simp only: sum2 dif d1_def) (simp add: fp_def)
    have ser': "row_SerializeTo r schema d2 (unat (off + ts - w)) = Inr (d3, ?ss)"
      unfolding sum2 by (rule ser)
    have live_ts: "\<not> IsDeleted ts" using L(6) by (simp add: ts_def)
    have tsback: "ts = of_nat (unat ts)" by simp
    show ?thesis
      unfolding UpdateTuple_def
      by (simp only: rr s Let_def size bind_result_simps w_def [symmetric] ts_def [symmetric] rid
          not_False_eq_True pos c L(4) L(5) live_ts fit if_False de_Morgan_disj simp_thms if_True
          ASSERT_simps off_def [symmetric] des prod.case tsback [symmetric] fp_def [symmetric] le mm
          d2_def [symmetric] ser' d4_def [symmetric] d'_def [symmetric])
  qed
  have D: "length d' = PAGE_SIZE" "GetTupleCount d' = GetTupleCount d" "tfsp d' = tfsp d + tsz d s - ?ss"
    "GetLiveTupleCount d' = GetLiveTupleCount d" "GetTablePageId d' = GetTablePageId d" "links d' = links d"
    using S G4 sum2 k4 by simp_all
  have other: "IsSlotOccupied d' i = IsSlotOccupied d i \<and> IsSlotDeleted d' i = IsSlotDeleted d i \<and>
      (i \<noteq> s \<longrightarrow> GetTupleSize d' i = GetTupleSize d i)" if "i < tcnt d" for i
    using S S4 [OF that] W(5) [OF that] that by auto
  have apart: "toff d i + tsz d i \<le> toff d s \<or> toff d s + tsz d s \<le> toff d i"
    if "i < tcnt d" "i \<noteq> s" "IsSlotOccupied d i" for i
    using W(8) [OF that(1) L(1) that(2,3) L(4)] by (simp add: slots_apart_def)
  have offs: "toff d' i = (if toff d i < toff d s then toff d i + tsz d s - ?ss else toff d i)"
    if i: "i < tcnt d" "i \<noteq> s" "IsSlotOccupied d i" for i
  proof -
    have in_i: "slot_inside d i" by (rule W(6) [OF i(1,3)])
    have iff: "GetTupleOffsetAtSlot d i < off + ts \<longleftrightarrow> toff d i < toff d s"
      using apart [OF i] in_i I(3) sum1(2) by (auto simp: word_less_nat_alt slot_inside_def)
    have "GetTupleOffsetAtSlot d' i =
        (if toff d i < toff d s then GetTupleOffsetAtSlot d i + (ts - w) else GetTupleOffsetAtSlot d i)"
      using S S4(1,3) [OF i(1)] i iff by auto
    moreover have "unat (GetTupleOffsetAtSlot d i + (ts - w)) = toff d i + tsz d s - ?ss" if "toff d i < toff d s"
    proof -
      have "unat (GetTupleOffsetAtSlot d i + ts) = toff d i + tsz d s"
        using that small(2) tsn by (simp add: unat_word_ariths)
      moreover have "?ss \<le> toff d i + tsz d s" using room in_i by (simp add: slot_inside_def)
      ultimately show ?thesis
        using unat_sub [of w "GetTupleOffsetAtSlot d i + ts"] wn by (simp add: word_le_nat_alt add_diff_eq)
    qed
    ultimately show ?thesis by auto
  qed
  have d3_rd: "rd k d' a = rd k d3 a" if "?dst \<le> a" for k a
    using S data4 [OF that] that base(1) by simp
  have d2_rd: "rd k d2 a = rd k d1 a" if "?dst \<le> a" for k a
    using that b164(1) l1 by (simp add: d2_def tp_frame)
  have low: "rd k d' (a + tsz d s - ?ss) = rd k d a" if a: "tfsp d \<le> a" "a + k \<le> toff d s" for a k
  proof -
    have "rd k d1 (?dst + (a - tfsp d)) = rd k d a"
      unfolding d1_def using a I(1) by (intro rd_memmove(1) [OF mv]) auto
    moreover have "?dst + (a - tfsp d) = a + tsz d s - ?ss" using a room by simp
    moreover have "rd k d3 (a + tsz d s - ?ss) = rd k d2 (a + tsz d s - ?ss)"
      unfolding d3_def using a room I(1) end3 l2 by (intro rd_wr_before) simp_all
    ultimately show ?thesis using d3_rd [of "a + tsz d s - ?ss" k] d2_rd [of "a + tsz d s - ?ss" k] a by simp
  qed
  have high: "rd k d' a = rd k d a" if a: "toff d s + tsz d s \<le> a" for a k
  proof -
    have "rd k d1 a = rd k d a" unfolding d1_def using a I(1) ss by (intro rd_memmove(2) [OF mv]) auto
    moreover have "rd k d3 a = rd k d2 a" unfolding d3_def using a base(3) end3 l2 by (intro rd_wr_after) simp_all
    ultimately show ?thesis using d3_rd [of a k] d2_rd [of a k] a base by simp
  qed
  have stored: "rd ?ss d' ?at = ?bs"
    using d3_rd [OF base(2)] rd_wr_same [of ?at ?bs d2 ?ss] end3 l2 by (simp add: d3_def)
  have new: "toff d' s = ?at" "tsz d' s = ?ss" "bit (GetTupleSize d' s) 31 \<longleftrightarrow> IsSlotDeleted d' s"
    "IsSlotOccupied d' s" "\<not> IsSlotDeleted d' s"
  proof -
    have "off < off + ts" using sum1(2) I(3) by (simp add: word_less_nat_alt off_def)
    then have "GetTupleOffsetAtSlot d' s = off + (ts - w)" using S S4(1,3) [OF L(1)] L(1,4) by (simp add: off_def)
    then show "toff d' s = ?at" using sum2(2) by (simp add: add_diff_eq)
    have "GetTupleSize d' s = w" using S S4(2) [OF L(1)] by simp
    moreover have "\<not> bit w 31" using n wn by (intro bit31_small) simp
    ultimately show "tsz d' s = ?ss" "bit (GetTupleSize d' s) 31 \<longleftrightarrow> IsSlotDeleted d' s"
      using wn other [OF L(1)] L(5) by (simp_all add: UnsetDeletedFlag_live)
    show "IsSlotOccupied d' s" "\<not> IsSlotDeleted d' s" using other [OF L(1)] L(4,5) by simp_all
  qed
  have "live_slots d' = live_slots d" using other D(2) by (auto simp: live_slots_def)
  then have lc: "unat (GetLiveTupleCount d') = card (live_slots d')" using D(4) W(9) by simp
  note T = slide_page [OF wf L(1,4) D(1,2) room D(3) _ offs low high _ _ lc]
  show thesis
  proof (rule that [OF upd])
    show "wf_tpage d'" "tp_tuple d' = (tp_tuple d)(s \<mapsto> (row_enc r, False))"
      using T other new ss stored by simp_all
  qed (use D in simp_all)
qed

section \<open>A fresh page\<close>

lemma TablePage_Init_getters:
  assumes len: "length d = PAGE_SIZE"
  shows "length (TablePage_Init p q d) = PAGE_SIZE" "GetTupleCount (TablePage_Init p q d) = 0"
    "GetLiveTupleCount (TablePage_Init p q d) = 0" "GetFreeSpacePointer (TablePage_Init p q d) = of_nat PAGE_SIZE"
    "GetTablePageId (TablePage_Init p q d) = p" "GetPrevPageId (TablePage_Init p q d) = q"
    "GetNextPageId (TablePage_Init p q d) = INVALID_PAGE_ID"
  using len by (simp_all add: TablePage_Init_def Let_def tp_acc tp_consts layout_simps PAGE_SIZE_def)

lemma TablePage_Init_wf:
  assumes "length d = PAGE_SIZE"
  shows "wf_tpage (TablePage_Init p q d)" "tp_tuple (TablePage_Init p q d) = Map.empty"
    "live_slots (TablePage_Init p q d) = {}"
proof -
  note G = TablePage_Init_getters [OF assms, of p q]
  show l: "live_slots (TablePage_Init p q d) = {}" by (simp add: live_slots_def G(2))
  show "wf_tpage (TablePage_Init p q d)" by (simp add: wf_tpage_def G l PAGE_SIZE_def)
  show "tp_tuple (TablePage_Init p q d) = Map.empty" by (auto simp: tp_tuple_def G(2))
qed

lemma live_slots_tuple: "s \<in> live_slots d \<longleftrightarrow> (\<exists>bs. tp_tuple d s = Some (bs, False))"
  by (auto simp: live_slots_def tp_tuple_def)

lemma insert_slot_bound: "wf_tpage d \<Longrightarrow> insert_slot d < 492"
  using insert_slot_free(1) [of d] wf_tpageD(4) [of d] by simp

lemma insert_fits_slot:
  assumes "wf_tpage d" "insert_fits n d" "0 < n"
  shows "insert_slot d < 491" "n \<le> 4096"
proof -
  note W = wf_tpageD [OF assms(1)]
  have "8 * Suc (insert_slot d) \<le> 8 * max (tcnt d) (Suc (insert_slot d))" by (rule mult_le_mono2) simp
  then show "insert_slot d < 491" "n \<le> 4096" using assms(2,3) W(3) by (simp_all add: insert_fits_def PAGE_SIZE_def)
qed

lemma find_live_Min:
  "find (\<lambda>s. s \<in> live_slots d) [a..<tcnt d] =
     (let L = {s \<in> live_slots d. a \<le> s} in if L = {} then None else Some (Min L))"
proof (cases "find (\<lambda>s. s \<in> live_slots d) [a..<tcnt d]")
  case None
  then have "{s \<in> live_slots d. a \<le> s} = {}" by (auto simp: find_upt_least live_slots_def)
  with None show ?thesis by simp
next
  case (Some i)
  then have i: "a \<le> i" "i \<in> live_slots d" "\<And>j. a \<le> j \<Longrightarrow> j < i \<Longrightarrow> j \<notin> live_slots d"
    by (auto simp: find_upt_least)
  then have "Min {s \<in> live_slots d. a \<le> s} = i" by (intro Min_eqI) (auto simp: not_less [symmetric])
  moreover have "{s \<in> live_slots d. a \<le> s} \<noteq> {}" using i by blast
  ultimately show ?thesis using Some by (simp add: Let_def)
qed

lemma row_enc_pos: "0 < length (row_enc r)"
  by (simp add: row_enc_def)

lemma UpdateTuple_refused:
  assumes wf: "wf_tpage d" and rid: "RowId_Get rid \<noteq> RowId_Get INVALID_ROWID"
    and s: "unat (rid_slot_num rid) = s" "s \<in> live_slots d"
    and ok: "row_ok schema r" and n: "length (row_enc r) < 2 ^ 31"
    and full: "tfsp d + tsz d s < 164 + 8 * tcnt d + length (row_enc r)"
  shows "UpdateTuple r (Row_of_rid rid) schema d = Inr (d, Row_of_rid rid, False)"
proof -
  note W = wf_tpageD [OF wf] and L = live_slot [OF wf s(2)]
  have small: "tsz d s \<le> 4096" using L(8) by (simp add: slot_inside_def PAGE_SIZE_def)
  have "unat (GetFreeSpaceRemaining d + GetTupleSize d s) = tfsp d - 164 - 8 * tcnt d + tsz d s"
    using unat_free_space [OF wf] L(7) small W(3) by (simp add: unat_word_ariths PAGE_SIZE_def)
  then have less: "GetFreeSpaceRemaining d + GetTupleSize d s < of_nat (length (row_enc r))"
    using full W(2) n by (simp add: word_less_nat_alt unat_of_nat_small)
  have pos: "0 < (of_nat (length (row_enc r)) :: 32 word)"
    using n row_enc_pos [of r] by (simp add: word_less_nat_alt unat_of_nat_small)
  show ?thesis
    using rid s L pos less row_size_enc [OF ok] by (simp add: UpdateTuple_def Let_def Row_of_rid_def)
qed

section \<open>Properties\<close>

text \<open>C8. \<^verbatim>\<open>InsertTuple\<close> on a well-formed page: if the serialized row and, for a new slot, its slot
  entry fit in the free space, the row goes to the least free slot, reading that slot gives the row back,
  every other tuple (also one marked deleted) is kept and the page stays well formed; otherwise it
  returns false and the page is unchanged.\<close>

theorem InsertTuple_stores:
  assumes "wf_tpage d" "row_ok schema r" "row_GetSerializedSize r schema = Inr n" "n < 2 ^ 31"
    and "GetTablePageId d \<noteq> INVALID_PAGE_ID"
  shows "if insert_fits n d
    then \<exists>s d' rid. tp_tuple d s = None \<and> (\<forall>i < s. tp_tuple d i \<noteq> None) \<and>
      rid = mk_RowId (GetTablePageId d) (of_nat s) \<and>
      InsertTuple r schema d = Inr (d', r\<lparr>row_rid := rid\<rparr>, True) \<and>
      wf_tpage d' \<and> (\<forall>i. i \<noteq> s \<longrightarrow> tp_tuple d' i = tp_tuple d i) \<and>
      GetTuple (Row_of_rid rid) schema d' =
        Inr (\<lparr>row_rid = rid, row_fields = map field_canon (row_fields r)\<rparr>, True)
    else InsertTuple r schema d = Inr (d, r, False)"
proof -
  note wf = assms(1) and ok = assms(2)
  let ?s = "insert_slot d"
  let ?d = "insert_page ?s (row_enc r) d" and ?rid = "mk_RowId (GetTablePageId d) (of_nat ?s)"
  have n: "n = length (row_enc r)" using row_size_enc [OF ok] assms(3) by simp
  have len: "length (row_enc r) < 2 ^ 31" using n assms(4) by simp
  note E = InsertTuple_effect [OF wf ok len, folded n]
  show ?thesis
  proof (cases "insert_fits n d")
    case True
    have pos: "0 < n" unfolding n by (simp add: row_enc_def)
    note S = insert_fits_slot [OF wf True pos]
    note I = insert_page_wf [OF wf insert_slot_free(1) S(1) insert_slot_free(2) pos [unfolded n]
        True [unfolded insert_fits_def n]]
    have none: "tp_tuple d ?s = None" "\<forall>i < ?s. tp_tuple d i \<noteq> None"
      using insert_slot_free(1,2) [of d] insert_slot_free(3) [of _ d] by (force simp: tp_tuple_def)+
    have su: "unat (of_nat ?s :: 32 word) = ?s" using S(1) by (simp add: unat_of_nat_small)
    have rid: "RowId_Get ?rid \<noteq> RowId_Get INVALID_ROWID"
      using assms(5) by (simp add: RowId_Get_inject INVALID_ROWID_def mk_RowId_def)
    have "GetTuple (Row_of_rid ?rid) schema ?d =
        Inr (\<lparr>row_rid = ?rid, row_fields = map field_canon (row_fields r)\<rparr>, True)"
      using I su by (intro GetTuple_effect(1) [OF _ rid _ ok]) simp_all
    with True E I none show ?thesis by (auto intro!: exI [of _ ?s])
  qed (use E in simp)
qed

lemma example_row_facts:
  "row_ok example_schema example_row" "row_GetSerializedSize example_row example_schema = Inr 9"
  "length (row_enc example_row) = 9"
proof -
  show ok: "row_ok example_schema example_row"
    by (auto simp: row_ok_def example_schema_def example_row_def wf_field_def Field_null_def less_Suc_eq)
  show size: "row_GetSerializedSize example_row example_schema = Inr 9"
    by (simp add: row_GetSerializedSize_def example_schema_def example_row_def GetColumnCount_def
        field_GetSerializedSize_def Field_null_def GetTypeSize_def)
  show "length (row_enc example_row) = 9" using row_size_enc [OF ok] size by simp
qed

definition example_page :: tpage where
  "example_page = TablePage_Init 5 INVALID_PAGE_ID (replicate PAGE_SIZE 0)"

lemma example_page_facts:
  "wf_tpage example_page" "GetTablePageId example_page = 5" "tcnt example_page = 0" "tfsp example_page = 4096"
  "tp_tuple example_page = Map.empty" "insert_slot example_page = 0"
  by (simp_all add: example_page_def TablePage_Init_wf TablePage_Init_getters insert_slot_def PAGE_SIZE_def)

theorem InsertTuple_stores_witness:
  "\<exists>d' rid. InsertTuple example_row example_schema example_page = Inr (d', example_row\<lparr>row_rid := rid\<rparr>, True) \<and>
     GetTuple (Row_of_rid rid) example_schema d' =
       Inr (\<lparr>row_rid = rid, row_fields = map field_canon (row_fields example_row)\<rparr>, True)"
proof -
  have "insert_fits 9 example_page" by (simp add: insert_fits_def example_page_facts)
  then show ?thesis
    using InsertTuple_stores [OF example_page_facts(1) example_row_facts(1,2)]
    by (force simp: example_page_facts INVALID_PAGE_ID_def)
qed

text \<open>The example page with one row in slot 0.\<close>

definition example_page1 :: tpage where
  "example_page1 = insert_page 0 (row_enc example_row) example_page"

lemma example_page1_facts:
  "wf_tpage example_page1" "tp_tuple example_page1 = [0 \<mapsto> (row_enc example_row, False)]"
  "live_slots example_page1 = {0}" "tcnt example_page1 = 1" "tfsp example_page1 = 4087"
  "GetTablePageId example_page1 = 5"
proof -
  have room: "164 + 8 * max (tcnt example_page) (Suc 0) + length (row_enc example_row) \<le> tfsp example_page"
    by (simp add: example_page_facts example_row_facts)
  have pos: "0 < length (row_enc example_row)" by (simp add: example_row_facts)
  note W = insert_page_wf [OF example_page_facts(1) _ _ _ pos room]
    and G = insert_page_getters [OF example_page_facts(1) _ _ pos room]
  show "wf_tpage example_page1" "tp_tuple example_page1 = [0 \<mapsto> (row_enc example_row, False)]"
    using W(1,2) by (simp_all add: example_page1_def example_page_facts)
  show "live_slots example_page1 = {0}"
    using W(3) by (simp add: example_page1_def example_page_facts live_slots_def)
  show "tcnt example_page1 = 1" "tfsp example_page1 = 4087" "GetTablePageId example_page1 = 5"
    using G by (simp_all add: example_page1_def example_page_facts example_row_facts)
qed

text \<open>Deletion in two phases: \<^verbatim>\<open>MarkDelete\<close> of a live slot marks exactly that tuple, keeps its
  bytes and makes \<^verbatim>\<open>GetTuple\<close> and a second \<^verbatim>\<open>MarkDelete\<close> refuse it; \<^verbatim>\<open>RollbackDelete\<close>
  then restores the stored tuples as they were.\<close>

theorem MarkDelete_Rollback:
  assumes "wf_tpage d" "unat (rid_slot_num rid) \<in> live_slots d" "RowId_Get rid \<noteq> RowId_Get INVALID_ROWID"
  shows "\<exists>d1 d2 bs. MarkDelete rid d = (d1, True) \<and> wf_tpage d1 \<and>
    tp_tuple d (unat (rid_slot_num rid)) = Some (bs, False) \<and>
    tp_tuple d1 = (tp_tuple d)(unat (rid_slot_num rid) \<mapsto> (bs, True)) \<and>
    GetTuple (Row_of_rid rid) schema d1 = Inr (Row_of_rid rid, False) \<and> MarkDelete rid d1 = (d1, False) \<and>
    RollbackDelete rid d1 = Inr d2 \<and> wf_tpage d2 \<and> tp_tuple d2 = tp_tuple d"
proof -
  let ?s = "unat (rid_slot_num rid)"
  obtain bs where t: "tp_tuple d ?s = Some (bs, False)" using assms(2) live_slots_tuple by blast
  obtain d1 where m: "MarkDelete rid d = (d1, True)" "wf_tpage d1"
    "tp_tuple d1 = (tp_tuple d)(?s \<mapsto> (bs, True))" "live_slots d1 = live_slots d - {?s}"
    using MarkDelete_effect [OF assms(1) refl assms(2)] t by auto
  then obtain d2 where r: "RollbackDelete rid d1 = Inr d2" "wf_tpage d2"
    "tp_tuple d2 = (tp_tuple d1)(?s \<mapsto> (bs, False))"
    using RollbackDelete_effect [OF m(2) refl, of rid bs] by auto
  have "tp_tuple d2 = tp_tuple d" unfolding r(3) m(3) using t by (simp add: fun_eq_iff)
  moreover have "MarkDelete rid d1 = (d1, False)" "GetTuple (Row_of_rid rid) schema d1 = Inr (Row_of_rid rid, False)"
    using MarkDelete_refused [OF m(2)] GetTuple_effect(2) [OF m(2) assms(3)] m(4) by simp_all
  ultimately show ?thesis using m r t by blast
qed

theorem MarkDelete_Rollback_witness:
  "\<exists>d1 d2. MarkDelete (mk_RowId 5 0) example_page1 = (d1, True) \<and>
     tp_tuple d1 = [0 \<mapsto> (row_enc example_row, True)] \<and>
     RollbackDelete (mk_RowId 5 0) d1 = Inr d2 \<and> tp_tuple d2 = tp_tuple example_page1"
proof -
  have "RowId_Get (mk_RowId 5 0) \<noteq> RowId_Get INVALID_ROWID"
    by (simp add: RowId_Get_inject INVALID_ROWID_def mk_RowId_def INVALID_PAGE_ID_def)
  then show ?thesis
    using MarkDelete_Rollback [OF example_page1_facts(1), of "mk_RowId 5 0" example_schema]
    by (auto simp: example_page1_facts)
qed

text \<open>\<^verbatim>\<open>ApplyDelete\<close> of an occupied slot, live or marked, removes exactly that tuple: the
  other tuples keep their bytes and marks although they are moved, and the space of the tuple is free
  again. A slot that is not in use is left alone, a slot beyond the count is an assertion failure.\<close>

theorem ApplyDelete_frees:
  assumes "wf_tpage d"
  shows "case tp_tuple d (unat (rid_slot_num rid)) of
      Some (bs, _) \<Rightarrow> \<exists>d'. ApplyDelete rid d = Inr d' \<and> wf_tpage d' \<and>
        tp_tuple d' = (tp_tuple d)(unat (rid_slot_num rid) := None) \<and>
        unat (GetFreeSpaceRemaining d') = unat (GetFreeSpaceRemaining d) + length bs
    | None \<Rightarrow> ApplyDelete rid d = (if unat (rid_slot_num rid) < unat (GetTupleCount d) then Inr d
        else Inl (AssertionFailed ''Cannot have more slots than tuples.''))"
proof (cases "tp_tuple d (unat (rid_slot_num rid))")
  case None
  then show ?thesis by (auto simp: ApplyDelete_def Let_def tp_tuple_def split: if_splits)
next
  case (Some a)
  let ?s = "unat (rid_slot_num rid)"
  obtain bs del where a: "a = (bs, del)" by (cases a)
  note W = wf_tpageD [OF assms]
  have s: "?s < tcnt d" "IsSlotOccupied d ?s" "bs = rd (tsz d ?s) d (toff d ?s)"
    using Some a by (auto simp: tp_tuple_def split: if_splits)
  have len: "length bs = tsz d ?s" using W(6) [OF s(1,2)] W(1) s(3) by (simp add: slot_inside_def)
  obtain d' where d': "ApplyDelete rid d = Inr d'" "wf_tpage d'" "tp_tuple d' = (tp_tuple d)(?s := None)"
    "tcnt d' = tcnt d" "tfsp d' = tfsp d + tsz d ?s"
    using ApplyDelete_effect [OF assms refl s(1,2)] by blast
  then have "unat (GetFreeSpaceRemaining d') = unat (GetFreeSpaceRemaining d) + length bs"
    using unat_free_space [OF d'(2)] unat_free_space [OF assms] W(2) len by simp
  with Some a d' show ?thesis by auto
qed

theorem ApplyDelete_frees_witness:
  "\<exists>d'. ApplyDelete (mk_RowId 5 0) example_page1 = Inr d' \<and> tp_tuple d' = Map.empty \<and>
     unat (GetFreeSpaceRemaining d') = unat (GetFreeSpaceRemaining example_page1) + 9"
  using ApplyDelete_frees [OF example_page1_facts(1), of "mk_RowId 5 0"]
  by (auto simp add: example_page1_facts example_row_facts)

text \<open>C17. \<^verbatim>\<open>UpdateTuple\<close> of a live slot: if the new row fits in the free space together with the
  room of the old tuple, the old row is handed back, the slot holds the new row (reading it gives the new
  fields) and every other tuple is kept although the tuples below are moved; otherwise it returns false and
  the page is unchanged.\<close>

theorem UpdateTuple_replaces:
  assumes "wf_tpage d" "RowId_Get rid \<noteq> RowId_Get INVALID_ROWID"
    and "tp_tuple d (unat (rid_slot_num rid)) = Some (row_enc old, False)" "row_ok schema old"
    and "row_ok schema r" "row_GetSerializedSize r schema = Inr n" "n < 2 ^ 31"
  shows "if n \<le> unat (GetFreeSpaceRemaining d) + length (row_enc old)
    then \<exists>d'. UpdateTuple r (Row_of_rid rid) schema d =
        Inr (d', \<lparr>row_rid = rid, row_fields = map field_canon (row_fields old)\<rparr>, True) \<and>
      wf_tpage d' \<and> (\<forall>i. i \<noteq> unat (rid_slot_num rid) \<longrightarrow> tp_tuple d' i = tp_tuple d i) \<and>
      GetTuple (Row_of_rid rid) schema d' =
        Inr (\<lparr>row_rid = rid, row_fields = map field_canon (row_fields r)\<rparr>, True)
    else UpdateTuple r (Row_of_rid rid) schema d = Inr (d, Row_of_rid rid, False)"
proof -
  note W = wf_tpageD [OF assms(1)]
  let ?s = "unat (rid_slot_num rid)"
  have n: "n = length (row_enc r)" using row_size_enc [OF assms(5)] assms(6) by simp
  have len: "length (row_enc r) < 2 ^ 31" using n assms(7) by simp
  have sz: "tsz d ?s = length (row_enc old)" by (rule stored_row(2) [OF assms(1,3,4)])
  have fits: "n \<le> unat (GetFreeSpaceRemaining d) + length (row_enc old) \<longleftrightarrow>
      164 + 8 * tcnt d + length (row_enc r) \<le> tfsp d + length (row_enc old)"
    using unat_free_space [OF assms(1)] W(2) n by auto
  show ?thesis
  proof (cases "n \<le> unat (GetFreeSpaceRemaining d) + length (row_enc old)")
    case True
    obtain d' where d': "UpdateTuple r (Row_of_rid rid) schema d =
        Inr (d', \<lparr>row_rid = rid, row_fields = map field_canon (row_fields old)\<rparr>, True)"
      "wf_tpage d'" "tp_tuple d' = (tp_tuple d)(?s \<mapsto> (row_enc r, False))"
      using UpdateTuple_effect [OF assms(1,2) refl assms(3-5) len True [unfolded fits]] by blast
    then have "GetTuple (Row_of_rid rid) schema d' =
        Inr (\<lparr>row_rid = rid, row_fields = map field_canon (row_fields r)\<rparr>, True)"
      by (intro GetTuple_effect(1) [OF _ assms(2) _ assms(5)]) simp_all
    with True d' show ?thesis by auto
  next
    case False
    have "?s \<in> live_slots d" using assms(3) live_slots_tuple by blast
    with False show ?thesis
      using UpdateTuple_refused [OF assms(1,2) refl _ assms(5) len] fits sz by simp
  qed
qed

definition example_row2 :: Row where
  "example_row2 = \<lparr>row_rid = INVALID_ROWID,
     row_fields = [\<lparr>f_value = Integer 7, f_type = kTypeInt, f_len = 4, f_null = False, f_manage = False\<rparr>,
       \<lparr>f_value = Chars [104, 105], f_type = kTypeChar, f_len = 2, f_null = False, f_manage = True\<rparr>]\<rparr>"

theorem UpdateTuple_replaces_witness:
  "\<exists>d'. UpdateTuple example_row2 (Row_of_rid (mk_RowId 5 0)) example_schema example_page1 =
       Inr (d', \<lparr>row_rid = mk_RowId 5 0, row_fields = map field_canon (row_fields example_row)\<rparr>, True) \<and>
     GetTuple (Row_of_rid (mk_RowId 5 0)) example_schema d' =
       Inr (\<lparr>row_rid = mk_RowId 5 0, row_fields = map field_canon (row_fields example_row2)\<rparr>, True)"
proof -
  have rid: "RowId_Get (mk_RowId 5 0) \<noteq> RowId_Get INVALID_ROWID"
    by (simp add: RowId_Get_inject INVALID_ROWID_def mk_RowId_def INVALID_PAGE_ID_def)
  have ok: "row_ok example_schema example_row2"
    by (auto simp: row_ok_def example_schema_def example_row2_def wf_field_def less_Suc_eq
        VARCHAR_MAX_LEN_def PAGE_SIZE_def)
  have size: "row_GetSerializedSize example_row2 example_schema = Inr 15"
    by (simp add: row_GetSerializedSize_def example_schema_def example_row2_def GetColumnCount_def
        field_GetSerializedSize_def GetTypeSize_def)
  have "15 \<le> unat (GetFreeSpaceRemaining example_page1) + 9"
    by (simp add: unat_free_space example_page1_facts)
  then show ?thesis
    using UpdateTuple_replaces [OF example_page1_facts(1) rid _ example_row_facts(1) ok size]
    by (auto simp: example_page1_facts example_row_facts)
qed

lemma walk_page:
  assumes "wf_tpage d"
  shows "GetFirstTupleRid d =
      Inr (if live_slots d = {} then (INVALID_ROWID, False)
           else (mk_RowId (GetTablePageId d) (of_nat (Min (live_slots d))), True))"
    "unat s < 2 ^ 32 - 1 \<Longrightarrow> GetNextTupleRid d (mk_RowId (GetTablePageId d) s) =
      Inr (let L = {i \<in> live_slots d. unat s < i}
           in if L = {} then (INVALID_ROWID, False)
              else (mk_RowId (GetTablePageId d) (of_nat (Min L)), True))"
proof -
  note F = FindLiveSlot_find [OF assms, unfolded find_live_Min]
  have "GetLiveTupleCount d = 0 \<longleftrightarrow> live_slots d = {}"
    using wf_tpageD(9) [OF assms] by (metis card_0_eq finite_live_slots unat_eq_zero)
  then show "GetFirstTupleRid d =
      Inr (if live_slots d = {} then (INVALID_ROWID, False)
           else (mk_RowId (GetTablePageId d) (of_nat (Min (live_slots d))), True))"
    using F [of 0] by (simp add: GetFirstTupleRid_def INVALID_ROWID_def Let_def)
  assume "unat s < 2 ^ 32 - 1"
  then have "unat (s + 1) = Suc (unat s)" by (rule unat_word_succ)
  then show "GetNextTupleRid d (mk_RowId (GetTablePageId d) s) =
      Inr (let L = {i \<in> live_slots d. unat s < i}
           in if L = {} then (INVALID_ROWID, False)
              else (mk_RowId (GetTablePageId d) (of_nat (Min L)), True))"
    using F [of "Suc (unat s)"] by (simp add: GetNextTupleRid_def INVALID_ROWID_def Let_def Suc_le_eq)
qed

text \<open>Walking a page: \<^verbatim>\<open>GetFirstTupleRid\<close> gives the least live slot and
  \<^verbatim>\<open>GetNextTupleRid\<close> the least live slot after the current one, so that the walk visits each live
  tuple once, in slot order, skipping free and marked slots; they report the end exactly when no such
  slot is left.\<close>

theorem tuple_walk:
  assumes "wf_tpage d" "unat s < 2 ^ 32 - 1"
  shows "GetFirstTupleRid d =
      Inr (if live_slots d = {} then (INVALID_ROWID, False)
           else (mk_RowId (GetTablePageId d) (of_nat (Min (live_slots d))), True)) \<and>
    GetNextTupleRid d (mk_RowId (GetTablePageId d) s) =
      Inr (let L = {i \<in> live_slots d. unat s < i}
           in if L = {} then (INVALID_ROWID, False)
              else (mk_RowId (GetTablePageId d) (of_nat (Min L)), True))"
  using walk_page(1) [OF assms(1)] walk_page(2) [OF assms] by blast

theorem tuple_walk_witness:
  "GetFirstTupleRid example_page1 = Inr (mk_RowId 5 0, True) \<and>
   GetNextTupleRid example_page1 (mk_RowId 5 0) = Inr (INVALID_ROWID, False)"
proof -
  have "{i \<in> live_slots example_page1. unat (0 :: 32 word) < i} = {}" by (auto simp add: example_page1_facts)
  then show ?thesis
    using tuple_walk [OF example_page1_facts(1), of 0] unfolding Let_def by (auto simp add: example_page1_facts)
qed

end
