(* ===== verification/Txn.thy ===== *)
theory Txn
  imports Row_Id
begin

text \<open>
  Transactions (\<^verbatim>\<open>src/include/concurrency/txn.h\<close>). The two lock sets are hash sets that the code
  iterates over; they are lists without repetition whose order stands for the hash order. The thread
  id, which nothing reads, is not modelled.
\<close>

datatype IsolationLevel = kReadUncommitted | kReadCommitted | kRepeatedRead

datatype AbortReason =
    kLockOnShrinking
  | kUnlockOnShrinking
  | kUpgradeConflict
  | kDeadlock
  | kLockSharedOnReadUncommitted

datatype TxnState = kGrowing | kShrinking | kCommitted | kAborted

record Txn =
  txn_id :: txn_id_t
  iso_level :: IsolationLevel
  txn_state :: TxnState
  shared_lock_set :: "RowId list"
  exclusive_lock_set :: "RowId list"

definition mk_Txn :: "txn_id_t \<Rightarrow> IsolationLevel \<Rightarrow> Txn" where
  "mk_Txn t lvl = \<lparr>txn_id = t, iso_level = lvl, txn_state = kGrowing, shared_lock_set = [], exclusive_lock_set = []\<rparr>"

definition SetState :: "TxnState \<Rightarrow> Txn \<Rightarrow> Txn" where
  "SetState s txn = txn\<lparr>txn_state := s\<rparr>"

definition shared_emplace :: "RowId \<Rightarrow> Txn \<Rightarrow> Txn" where
  "shared_emplace rid txn = txn\<lparr>shared_lock_set := List.insert rid (shared_lock_set txn)\<rparr>"

definition exclusive_emplace :: "RowId \<Rightarrow> Txn \<Rightarrow> Txn" where
  "exclusive_emplace rid txn = txn\<lparr>exclusive_lock_set := List.insert rid (exclusive_lock_set txn)\<rparr>"

definition shared_erase :: "RowId \<Rightarrow> Txn \<Rightarrow> Txn" where
  "shared_erase rid txn = txn\<lparr>shared_lock_set := removeAll rid (shared_lock_set txn)\<rparr>"

definition exclusive_erase :: "RowId \<Rightarrow> Txn \<Rightarrow> Txn" where
  "exclusive_erase rid txn = txn\<lparr>exclusive_lock_set := removeAll rid (exclusive_lock_set txn)\<rparr>"

lemma txn_sets [simp]:
  "set (shared_lock_set (shared_emplace rid txn)) = insert rid (set (shared_lock_set txn))"
  "set (exclusive_lock_set (exclusive_emplace rid txn)) = insert rid (set (exclusive_lock_set txn))"
  "set (shared_lock_set (shared_erase rid txn)) = set (shared_lock_set txn) - {rid}"
  "set (exclusive_lock_set (exclusive_erase rid txn)) = set (exclusive_lock_set txn) - {rid}"
  "exclusive_lock_set (shared_emplace rid txn) = exclusive_lock_set txn"
  "shared_lock_set (exclusive_emplace rid txn) = shared_lock_set txn"
  "exclusive_lock_set (shared_erase rid txn) = exclusive_lock_set txn"
  "shared_lock_set (exclusive_erase rid txn) = shared_lock_set txn"
  "shared_lock_set (SetState s txn) = shared_lock_set txn" "exclusive_lock_set (SetState s txn) = exclusive_lock_set txn"
  by (simp_all add: shared_emplace_def exclusive_emplace_def shared_erase_def exclusive_erase_def SetState_def)

lemma txn_states [simp]:
  "txn_id (shared_emplace rid txn) = txn_id txn" "txn_id (exclusive_emplace rid txn) = txn_id txn"
  "txn_id (shared_erase rid txn) = txn_id txn" "txn_id (exclusive_erase rid txn) = txn_id txn"
  "txn_id (SetState s txn) = txn_id txn" "txn_state (SetState s txn) = s"
  "txn_state (shared_emplace rid txn) = txn_state txn" "txn_state (exclusive_emplace rid txn) = txn_state txn"
  "txn_state (shared_erase rid txn) = txn_state txn" "txn_state (exclusive_erase rid txn) = txn_state txn"
  by (simp_all add: shared_emplace_def exclusive_emplace_def shared_erase_def exclusive_erase_def SetState_def)

lemma mk_Txn_sel [simp]:
  "txn_id (mk_Txn t lvl) = t" "txn_state (mk_Txn t lvl) = kGrowing" "shared_lock_set (mk_Txn t lvl) = []"
  "exclusive_lock_set (mk_Txn t lvl) = []" "iso_level (mk_Txn t lvl) = lvl"
  by (simp_all add: mk_Txn_def)

end
