(* ===== verification/Wait_Graph.thy ===== *)
theory Wait_Graph
  imports MiniSQL_Prelude "HOL-Library.AList"
begin

text \<open>
  The waits-for graph of the lock manager (\<^verbatim>\<open>src/concurrency/lock_manager.cpp\<close>: \<^verbatim>\<open>AddEdge\<close>,
  \<^verbatim>\<open>RemoveEdge\<close>, \<^verbatim>\<open>HasCycle\<close>, \<^verbatim>\<open>GetEdgeList\<close>). The hash map \<^verbatim>\<open>waits_for_\<close> is an association
  list whose order stands for the hash order; a \<^verbatim>\<open>std::set\<close> of transactions is a sorted list. The
  recursive search carries fuel; \<open>dfs_correct\<close> shows that as much fuel as there are transactions
  always suffices.
\<close>

section \<open>Edges\<close>

type_synonym wait_graph = "(txn_id_t \<times> txn_id_t list) list"

definition succs :: "wait_graph \<Rightarrow> txn_id_t \<Rightarrow> txn_id_t list" where
  "succs g t = (case map_of g t of Some ts \<Rightarrow> ts | None \<Rightarrow> [])"

definition AddEdge :: "txn_id_t \<Rightarrow> txn_id_t \<Rightarrow> wait_graph \<Rightarrow> wait_graph" where
  "AddEdge t1 t2 g = AList.update t1 (insort_insert t2 (succs g t1)) g"

definition RemoveEdge :: "txn_id_t \<Rightarrow> txn_id_t \<Rightarrow> wait_graph \<Rightarrow> wait_graph" where
  "RemoveEdge t1 t2 g =
     (case map_of g t1 of
        None \<Rightarrow> g
      | Some ts \<Rightarrow> let ts = removeAll t2 ts
                   in if ts = [] then AList.delete t1 g else AList.update t1 ts g)"

definition GetEdgeList :: "wait_graph \<Rightarrow> (txn_id_t \<times> txn_id_t) list" where
  "GetEdgeList g = concat (map (\<lambda>(t, ts). map (Pair t) ts) g)"

section \<open>Depth-first search\<close>

record dfs_state =
  color :: "txn_id_t \<Rightarrow> nat"
  path :: "txn_id_t list"
  newest :: txn_id_t

text \<open>The nodes: every key and every successor, in the order of \<^verbatim>\<open>std::set\<close>.\<close>

definition graph_nodes :: "wait_graph \<Rightarrow> txn_id_t list" where
  "graph_nodes g = sorted_list_of_set (\<Union>(t, ts) \<in> set g. insert t (set ts))"

text \<open>\<open>dfs\<close> is the lambda of that name and \<open>dfs_next\<close> its loop over the successors; \<open>None\<close> is lack
  of fuel. The flag tells whether a cycle was found.\<close>

fun dfs :: "nat \<Rightarrow> wait_graph \<Rightarrow> txn_id_t \<Rightarrow> dfs_state \<Rightarrow> (dfs_state \<times> bool) option"
  and dfs_next :: "nat \<Rightarrow> wait_graph \<Rightarrow> txn_id_t list \<Rightarrow> dfs_state \<Rightarrow> (dfs_state \<times> bool) option" where
  "dfs 0 g node st = None"
| "dfs (Suc n) g node st =
     (let st = st\<lparr>color := (color st)(node := 1), path := path st @ [node]\<rparr>
      in case dfs_next n g (succs g node) st of
           None \<Rightarrow> None
         | Some (st, True) \<Rightarrow> Some (st, True)
         | Some (st, False) \<Rightarrow> Some (st\<lparr>path := butlast (path st), color := (color st)(node := 2)\<rparr>, False))"
| "dfs_next n g [] st = Some (st, False)"
| "dfs_next n g (next # rest) st =
     (if color st next = 0
      then case dfs n g next st of
             None \<Rightarrow> None
           | Some (st, True) \<Rightarrow> Some (st, True)
           | Some (st, False) \<Rightarrow> dfs_next n g rest st
      else if color st next = 1
      then Some (st\<lparr>newest := fold max (dropWhile (\<lambda>v. v \<noteq> next) (path st)) next\<rparr>, True)
      else dfs_next n g rest st)"

fun dfs_roots :: "nat \<Rightarrow> wait_graph \<Rightarrow> txn_id_t list \<Rightarrow> dfs_state \<Rightarrow> (dfs_state \<times> bool) option" where
  "dfs_roots n g [] st = Some (st, False)"
| "dfs_roots n g (node # nodes) st =
     (if color st node = 0
      then case dfs n g node st of
             None \<Rightarrow> None
           | Some (st, True) \<Rightarrow> Some (st, True)
           | Some (st, False) \<Rightarrow> dfs_roots n g nodes st
      else dfs_roots n g nodes st)"

text \<open>The result and the out-parameter \<^verbatim>\<open>newest_tid_in_cycle\<close>.\<close>

definition HasCycle :: "wait_graph \<Rightarrow> (bool \<times> txn_id_t) option" where
  "HasCycle g =
     (case dfs_roots (length (graph_nodes g)) g (graph_nodes g)
             \<lparr>color = \<lambda>_. 0, path = [], newest = INVALID_TXN_ID\<rparr> of
        None \<Rightarrow> None
      | Some (st, found) \<Rightarrow> Some (found, newest st))"

section \<open>The edge relation\<close>

definition edges :: "wait_graph \<Rightarrow> (txn_id_t \<times> txn_id_t) set" where
  "edges g = {(a, b). b \<in> set (succs g a)}"

lemma edge_iff: "(a, b) \<in> edges g \<longleftrightarrow> b \<in> set (succs g a)"
  by (simp add: edges_def)

lemma edges_AddEdge: "edges (AddEdge t1 t2 g) = insert (t1, t2) (edges g)"
  by (auto simp: edges_def AddEdge_def succs_def update_conv' set_insort_insert split: if_splits option.splits)

lemma succs_upd:
  "succs (AList.update t ts g) a = (if a = t then ts else succs g a)"
  "succs (AList.delete t g) a = (if a = t then [] else succs g a)"
  by (simp_all add: succs_def update_conv' delete_conv')

lemma removeAll_Nil_iff: "removeAll x xs = [] \<longleftrightarrow> set xs \<subseteq> {x}"
  by (induction xs) auto

lemma edges_RemoveEdge:
  assumes "distinct (map fst g)"
  shows "edges (RemoveEdge t1 t2 g) = edges g - {(t1, t2)}" "distinct (map fst (RemoveEdge t1 t2 g))"
proof -
  show "distinct (map fst (RemoveEdge t1 t2 g))"
    using assms by (simp add: RemoveEdge_def Let_def distinct_update distinct_delete split: option.splits)
  have "set (succs (RemoveEdge t1 t2 g) a) = set (succs g a) - (if a = t1 then {t2} else {})" for a
  proof (cases "map_of g t1")
    case None
    then show ?thesis by (auto simp: RemoveEdge_def succs_def)
  next
    case (Some ts)
    then have "succs g t1 = ts" by (simp add: succs_def)
    with Some show ?thesis by (auto simp: RemoveEdge_def Let_def succs_upd removeAll_Nil_iff)
  qed
  then show "edges (RemoveEdge t1 t2 g) = edges g - {(t1, t2)}" by (auto simp: edges_def split: if_splits)
qed

lemma edges_delete: "edges (AList.delete t g) = {(a, b) \<in> edges g. a \<noteq> t}"
  by (auto simp: edges_def succs_upd split: if_splits)

lemma edges_Nil [simp]: "edges [] = {}"
  by (simp add: edges_def succs_def)

lemma graph_nodes_set: "set (graph_nodes g) = (\<Union>(t, ts) \<in> set g. insert t (set ts))"
  by (simp add: graph_nodes_def split_def)

lemma edge_nodes: "(a, b) \<in> edges g \<Longrightarrow> a \<in> set (graph_nodes g) \<and> b \<in> set (graph_nodes g)"
proof -
  assume "(a, b) \<in> edges g"
  then obtain ts where "(a, ts) \<in> set g" "b \<in> set ts"
    by (cases "map_of g a") (auto simp: edges_def succs_def dest: map_of_SomeD)
  then show ?thesis by (auto simp: graph_nodes_set)
qed

text \<open>A set of transactions that no edge leaves and that no cycle meets.\<close>

definition clean :: "wait_graph \<Rightarrow> txn_id_t set \<Rightarrow> bool" where
  "clean g B \<longleftrightarrow> edges g `` B \<subseteq> B \<and> (\<forall>x \<in> B. (x, x) \<notin> (edges g)\<^sup>+)"

lemma closed_trancl: "edges g `` B \<subseteq> B \<Longrightarrow> (x, y) \<in> (edges g)\<^sup>+ \<Longrightarrow> x \<in> B \<Longrightarrow> y \<in> B"
proof -
  assume closed: "edges g `` B \<subseteq> B"
  show "(x, y) \<in> (edges g)\<^sup>+ \<Longrightarrow> x \<in> B \<Longrightarrow> y \<in> B"
    by (induction rule: trancl_induct) (use closed in auto)
qed

lemma clean_insert:
  assumes "clean g B" "edges g `` {x} \<subseteq> B" "x \<notin> B"
  shows "clean g (insert x B)"
proof -
  have "(x, x) \<notin> (edges g)\<^sup>+"
  proof
    assume "(x, x) \<in> (edges g)\<^sup>+"
    then obtain y where y: "(x, y) \<in> edges g" "(y, x) \<in> (edges g)\<^sup>*" by (meson tranclD)
    then have "y \<in> B" using assms(2) by auto
    then have "x \<in> B" using y(2) assms(1,3) closed_trancl [of g B y x]
      by (auto simp: clean_def rtrancl_eq_or_trancl)
    with assms(3) show False ..
  qed
  with assms show ?thesis by (auto simp: clean_def)
qed

definition on_cycle :: "wait_graph \<Rightarrow> txn_id_t \<Rightarrow> bool" where
  "on_cycle g m \<longleftrightarrow> (\<exists>cyc. cyc \<noteq> [] \<and> successively (\<lambda>a b. (a, b) \<in> edges g) cyc \<and>
     (last cyc, hd cyc) \<in> edges g \<and> m = Max (set cyc))"

lemma successively_trancl:
  assumes "successively (\<lambda>a b. (a, b) \<in> r) xs" "(last xs, y) \<in> r" "x \<in> set xs"
  shows "(x, y) \<in> r\<^sup>+"
  using assms
proof (induction xs arbitrary: x rule: induct_list012)
  case (3 a b xs)
  then have "(b, y) \<in> r\<^sup>+" "(a, b) \<in> r" by auto
  with 3 show ?case by (cases "x = a") (auto intro: trancl_into_trancl2)
qed auto

lemma hd_successively_rtrancl:
  assumes "successively (\<lambda>a b. (a, b) \<in> r) xs" "x \<in> set xs"
  shows "(hd xs, x) \<in> r\<^sup>*"
  using assms
proof (induction xs rule: induct_list012)
  case (3 a b xs)
  then show ?case by (cases "x = a") (auto intro: converse_rtrancl_into_rtrancl)
qed auto

lemma on_cycle_trancl:
  assumes "on_cycle g m"
  shows "(m, m) \<in> (edges g)\<^sup>+"
proof -
  obtain cyc where c: "cyc \<noteq> []" "successively (\<lambda>a b. (a, b) \<in> edges g) cyc" "(last cyc, hd cyc) \<in> edges g"
    "m = Max (set cyc)" using assms by (auto simp: on_cycle_def)
  then have "m \<in> set cyc" by simp
  then show ?thesis
    using successively_trancl [OF c(2,3)] hd_successively_rtrancl [OF c(2)] by (meson trancl_rtrancl_trancl)
qed

section \<open>Correctness of the search\<close>

definition dfs_inv :: "wait_graph \<Rightarrow> dfs_state \<Rightarrow> bool" where
  "dfs_inv g st \<longleftrightarrow> successively (\<lambda>a b. (a, b) \<in> edges g) (path st) \<and> distinct (path st) \<and>
     (\<forall>v. color st v = 1 \<longleftrightarrow> v \<in> set (path st)) \<and> (\<forall>v. color st v \<le> 2) \<and> clean g {v. color st v = 2}"

definition whites :: "wait_graph \<Rightarrow> dfs_state \<Rightarrow> txn_id_t set" where
  "whites g st = {v \<in> set (graph_nodes g). color st v = 0}"

text \<open>What a search step may do: it found a cycle, or it blackened its targets and left the path as it was.\<close>

definition dfs_post :: "wait_graph \<Rightarrow> txn_id_t set \<Rightarrow> dfs_state \<Rightarrow> (dfs_state \<times> bool) option \<Rightarrow> bool" where
  "dfs_post g X st res \<longleftrightarrow> (case res of
      None \<Rightarrow> False
    | Some (st', True) \<Rightarrow> on_cycle g (newest st')
    | Some (st', False) \<Rightarrow> dfs_inv g st' \<and> path st' = path st \<and> whites g st' \<subseteq> whites g st \<and>
        (\<forall>v. color st v = 2 \<longrightarrow> color st' v = 2) \<and> (\<forall>x \<in> X. color st' x = 2))"

lemma finite_whites [simp]: "finite (whites g st)"
  by (simp add: whites_def)

lemma fold_max_Max: "xs \<noteq> [] \<Longrightarrow> fold max xs (hd xs) = Max (set xs)"
  by (cases xs) (simp_all add: Max.set_eq_fold del: list.set(2))

lemma back_edge_cycle:
  assumes inv: "dfs_inv g st" and e: "(last (path st), x) \<in> edges g" and x: "x \<in> set (path st)"
  shows "on_cycle g (fold max (dropWhile (\<lambda>v. v \<noteq> x) (path st)) x)"
proof -
  let ?cyc = "dropWhile (\<lambda>v. v \<noteq> x) (path st)"
  have ne: "?cyc \<noteq> []" using x by auto
  then have hd: "hd ?cyc = x" using hd_dropWhile by blast
  have "path st = takeWhile (\<lambda>v. v \<noteq> x) (path st) @ ?cyc" by simp
  then have "last ?cyc = last (path st)" "successively (\<lambda>a b. (a, b) \<in> edges g) ?cyc"
    using ne inv unfolding dfs_inv_def by (metis last_appendR, metis successively_append_iff)
  then show ?thesis
    unfolding on_cycle_def using ne hd e fold_max_Max [OF ne] by (intro exI [of _ ?cyc]) simp
qed

lemma dfs_enter:
  assumes inv: "dfs_inv g st" and x: "color st x = 0" and e: "path st \<noteq> [] \<Longrightarrow> (last (path st), x) \<in> edges g"
  shows "dfs_inv g (st\<lparr>color := (color st)(x := 1), path := path st @ [x]\<rparr>)"
proof -
  have "{v. ((color st)(x := 1)) v = 2} = {v. color st v = 2}" using x by auto
  moreover have "x \<notin> set (path st)" using inv x unfolding dfs_inv_def by (metis zero_neq_one)
  ultimately show ?thesis using inv x e by (auto simp: dfs_inv_def successively_append_iff)
qed

lemma dfs_leave:
  assumes inv: "dfs_inv g st" and p: "path st = ps @ [x]" and s: "\<forall>y \<in> set (succs g x). color st y = 2"
  shows "dfs_inv g (st\<lparr>path := butlast (path st), color := (color st)(x := 2)\<rparr>)"
proof -
  have x: "color st x = 1" "x \<notin> set ps" using inv p by (auto simp: dfs_inv_def)
  have "clean g (insert x {v. color st v = 2})"
  proof (rule clean_insert)
    show "x \<notin> {v. color st v = 2}" using x(1) by simp
  qed (use inv s in \<open>auto simp: dfs_inv_def edges_def\<close>)
  moreover have "{v. ((color st)(x := 2)) v = 2} = insert x {v. color st v = 2}" by auto
  moreover have "\<forall>v. v \<in> set ps \<longleftrightarrow> v \<noteq> x \<and> color st v = 1" using inv p x by (auto simp: dfs_inv_def)
  ultimately show ?thesis using inv p by (auto simp: dfs_inv_def successively_append_iff)
qed

lemma dfs_correct:
  "dfs_inv g st \<Longrightarrow> color st x = 0 \<Longrightarrow> x \<in> set (graph_nodes g) \<Longrightarrow>
     (path st \<noteq> [] \<longrightarrow> (last (path st), x) \<in> edges g) \<Longrightarrow> card (whites g st) \<le> n \<Longrightarrow>
     dfs_post g {x} st (dfs n g x st)"
  "dfs_inv g st \<Longrightarrow> path st \<noteq> [] \<Longrightarrow> \<forall>x \<in> set xs. (last (path st), x) \<in> edges g \<Longrightarrow>
     card (whites g st) \<le> n \<Longrightarrow> dfs_post g (set xs) st (dfs_next n g xs st)"
proof (induction n g x st and n g xs st rule: dfs_dfs_next.induct)
  case (1 g node st)
  then have "node \<in> whites g st" by (simp add: whites_def)
  with 1 show ?case by (metis card_0_eq empty_iff finite_whites le_zero_eq)
next
  case (2 n g node st)
  let ?st = "st\<lparr>color := (color st)(node := 1), path := path st @ [node]\<rparr>"
  have inv: "dfs_inv g ?st" using 2 by (intro dfs_enter) auto
  have "whites g ?st = whites g st - {node}" by (auto simp: whites_def)
  moreover have "node \<in> whites g st" using 2 by (simp add: whites_def)
  ultimately have w: "card (whites g ?st) \<le> n" "whites g ?st \<subseteq> whites g st"
    using 2(6) by (auto simp: card_Diff_singleton)
  have post: "dfs_post g (set (succs g node)) ?st (dfs_next n g (succs g node) ?st)"
    using 2(1) [OF refl inv _ _ w(1)] by (simp add: edge_iff)
  then obtain st' b where r: "dfs_next n g (succs g node) ?st = Some (st', b)"
    by (auto simp: dfs_post_def split: option.splits)
  show ?case
  proof (cases b)
    case True
    with r post show ?thesis by (simp add: dfs_post_def)
  next
    case False
    let ?st' = "st'\<lparr>path := butlast (path st'), color := (color st')(node := 2)\<rparr>"
    have P: "dfs_inv g st'" "path st' = path st @ [node]" "whites g st' \<subseteq> whites g ?st"
      "\<forall>v. color ?st v = 2 \<longrightarrow> color st' v = 2" "\<forall>y \<in> set (succs g node). color st' y = 2"
      using post r False by (simp_all add: dfs_post_def)
    have "dfs_inv g ?st'" by (rule dfs_leave [OF P(1,2,5)])
    moreover have "whites g ?st' \<subseteq> whites g st" using P(3) w(2) by (auto simp: whites_def)
    ultimately show ?thesis using r False P(2,4) by (auto simp: dfs_post_def)
  qed
next
  case (4 n g x xs st)
  show ?case
  proof (cases "color st x = 0")
    case True
    have "x \<in> set (graph_nodes g)" using 4(6) edge_nodes by auto
    then have post: "dfs_post g {x} st (dfs n g x st)" using 4 True by auto
    then obtain st' b where r: "dfs n g x st = Some (st', b)" by (auto simp: dfs_post_def split: option.splits)
    show ?thesis
    proof (cases b)
      case True
      with r post \<open>color st x = 0\<close> show ?thesis by (simp add: dfs_post_def)
    next
      case False
      have P: "dfs_inv g st'" "path st' = path st" "whites g st' \<subseteq> whites g st"
        "\<forall>v. color st v = 2 \<longrightarrow> color st' v = 2" "color st' x = 2"
        using post r False by (simp_all add: dfs_post_def)
      have "card (whites g st') \<le> n" using 4(7) card_mono [OF finite_whites P(3)] by simp
      then have "dfs_post g (set xs) st' (dfs_next n g xs st')"
        using 4(2) [OF True r] False P 4(5,6) by simp
      with r False True P show ?thesis by (auto simp: dfs_post_def split: option.splits bool.splits)
    qed
  next
    case white: False
    show ?thesis
    proof (cases "color st x = 1")
      case True
      then have "x \<in> set (path st)" using 4(4) by (simp add: dfs_inv_def)
      then show ?thesis using True 4(4,6) back_edge_cycle [of g st x] by (simp add: dfs_post_def)
    next
      case False
      have "color st x \<le> 2" using 4(4) by (simp add: dfs_inv_def)
      with white False have "color st x = 2" by linarith
      moreover have "dfs_post g (set xs) st (dfs_next n g xs st)" using 4 white False by simp
      ultimately show ?thesis using white by (auto simp: dfs_post_def split: option.splits bool.splits)
    qed
  qed
qed (simp add: dfs_post_def)

lemma dfs_roots_correct:
  "dfs_inv g st \<Longrightarrow> path st = [] \<Longrightarrow> set ns \<subseteq> set (graph_nodes g) \<Longrightarrow> card (whites g st) \<le> n \<Longrightarrow>
     dfs_post g (set ns) st (dfs_roots n g ns st)"
proof (induction ns arbitrary: st)
  case (Cons x ns)
  show ?case
  proof (cases "color st x = 0")
    case True
    have post: "dfs_post g {x} st (dfs n g x st)" using Cons.prems True by (intro dfs_correct(1)) auto
    then obtain st' b where r: "dfs n g x st = Some (st', b)" by (auto simp: dfs_post_def split: option.splits)
    show ?thesis
    proof (cases b)
      case True
      with r post \<open>color st x = 0\<close> show ?thesis by (simp add: dfs_post_def)
    next
      case False
      have P: "dfs_inv g st'" "path st' = []" "whites g st' \<subseteq> whites g st"
        "\<forall>v. color st v = 2 \<longrightarrow> color st' v = 2" "color st' x = 2"
        using post r False Cons.prems(2) by (simp_all add: dfs_post_def)
      have "card (whites g st') \<le> n" using Cons.prems(4) card_mono [OF finite_whites P(3)] by simp
      then have "dfs_post g (set ns) st' (dfs_roots n g ns st')" using Cons.IH P Cons.prems(3) by simp
      with r False True P Cons.prems(2) show ?thesis by (auto simp: dfs_post_def split: option.splits bool.splits)
    qed
  next
    case False
    have "color st x \<le> 2" "color st x \<noteq> 1" using Cons.prems(1,2) by (simp_all add: dfs_inv_def)
    with False have "color st x = 2" by linarith
    moreover have "dfs_post g (set ns) st (dfs_roots n g ns st)" using Cons by simp
    ultimately show ?thesis using False by (auto simp: dfs_post_def split: option.splits bool.splits)
  qed
qed (simp add: dfs_post_def)

lemma HasCycle_cases:
  obtains m where "HasCycle g = Some (True, m)" "on_cycle g m"
  | m where "HasCycle g = Some (False, m)" "acyclic (edges g)"
proof -
  let ?st = "\<lparr>color = \<lambda>_. 0, path = [], newest = INVALID_TXN_ID\<rparr>" and ?n = "length (graph_nodes g)"
  have "card (whites g ?st) \<le> ?n"
    using card_mono [of "set (graph_nodes g)" "whites g ?st"] card_length [of "graph_nodes g"]
    by (force simp: whites_def)
  then have post: "dfs_post g (set (graph_nodes g)) ?st (dfs_roots ?n g (graph_nodes g) ?st)"
    by (intro dfs_roots_correct) (simp_all add: dfs_inv_def clean_def)
  then obtain st b where r: "dfs_roots ?n g (graph_nodes g) ?st = Some (st, b)"
    by (auto simp: dfs_post_def split: option.splits)
  show thesis
  proof (cases b)
    case True
    with post r that(1) show thesis by (simp add: dfs_post_def HasCycle_def)
  next
    case False
    have P: "clean g {v. color st v = 2}" "\<forall>x \<in> set (graph_nodes g). color st x = 2"
      using post r False by (simp_all add: dfs_post_def dfs_inv_def)
    have "acyclic (edges g)"
    proof (rule acyclicI, rule allI, rule notI)
      fix x assume x: "(x, x) \<in> (edges g)\<^sup>+"
      then have "x \<in> set (graph_nodes g)" using edge_nodes by (auto dest: tranclD)
      with P x show False by (auto simp: clean_def)
    qed
    with r False that(2) show thesis by (simp add: HasCycle_def)
  qed
qed

text \<open>\<^verbatim>\<open>HasCycle\<close> always returns; it reports true exactly when the waits-for graph has a cycle, and
  then its out-parameter is the largest, that is youngest, transaction of one cycle.\<close>

theorem HasCycle_correct:
  "\<exists>found newest_tid. HasCycle g = Some (found, newest_tid) \<and>
     (if acyclic (edges g) then \<not> found else found \<and> on_cycle g newest_tid)"
proof (cases g rule: HasCycle_cases)
  case (1 m)
  then have "\<not> acyclic (edges g)" using on_cycle_trancl by (auto simp: acyclic_def)
  with 1 show ?thesis by auto
qed auto

end
