(* ===== verification/Lock_Manager.thy ===== *)
theory Lock_Manager
  imports Txn Wait_Graph
begin

text \<open>
  The lock manager (\<^verbatim>\<open>src/concurrency/lock_manager.cpp\<close>, \<^verbatim>\<open>src/include/concurrency/lock_manager.h\<close>).
  Every operation runs under \<^verbatim>\<open>latch_\<close> and is one atomic function, up to the point where it blocks on
  the condition variable of the row: it then returns \<open>Wait\<close> with the loop it is in, and the
  matching \<open>_wake\<close> function is what the thread does when it is woken (at any time, as condition variables
  may wake spuriously). \<^verbatim>\<open>LockPrepare\<close> runs before the latch is taken, so that other threads may change the state of the
  transaction in between: each call is therefore split in the part before the latch (\<open>lock_prepare\<close>) and the part under
  it (\<open>lock_latched\<close>), and \<^verbatim>\<open>LockExclusive\<close> on a row held in shared mode gives up the latch and calls
  \<^verbatim>\<open>LockUpgrade\<close> (\<open>CallsUpgrade\<close>).

  The map from transactions to list iterators is the list of its keys: \<^verbatim>\<open>EmplaceLockRequest\<close>
  asserts that a transaction has at most one request in a queue, so that an iterator is determined by
  its transaction. \<open>notify_all\<close> has no effect of its own, as every blocked thread may wake.
\<close>

section \<open>Requests and queues\<close>

datatype LockMode = kNone | kShared | kExclusive

record LockRequest =
  lr_txn_id :: txn_id_t
  lock_mode :: LockMode
  granted :: LockMode

definition mk_LockRequest :: "txn_id_t \<Rightarrow> LockMode \<Rightarrow> LockRequest" where
  "mk_LockRequest t m = \<lparr>lr_txn_id = t, lock_mode = m, granted = kNone\<rparr>"

record LockRequestQueue =
  req_list :: "LockRequest list"
  req_list_iter_map :: "txn_id_t list"
  is_writing :: bool
  is_upgrading :: bool
  sharing_cnt :: int

definition empty_queue :: LockRequestQueue where
  "empty_queue = \<lparr>req_list = [], req_list_iter_map = [], is_writing = False, is_upgrading = False, sharing_cnt = 0\<rparr>"

text \<open>\<open>None\<close> is the failed assertion.\<close>

definition EmplaceLockRequest :: "txn_id_t \<Rightarrow> LockMode \<Rightarrow> LockRequestQueue \<Rightarrow> LockRequestQueue option" where
  "EmplaceLockRequest t m q =
     (if t \<in> set (req_list_iter_map q) then None
      else Some (q\<lparr>req_list := mk_LockRequest t m # req_list q, req_list_iter_map := t # req_list_iter_map q\<rparr>))"

definition EraseLockRequest :: "txn_id_t \<Rightarrow> LockRequestQueue \<Rightarrow> LockRequestQueue \<times> bool" where
  "EraseLockRequest t q =
     (if t \<notin> set (req_list_iter_map q) then (q, False)
      else (q\<lparr>req_list := filter (\<lambda>r. lr_txn_id r \<noteq> t) (req_list q),
              req_list_iter_map := removeAll t (req_list_iter_map q)\<rparr>, True))"

definition GetLockRequestIter :: "txn_id_t \<Rightarrow> LockRequestQueue \<Rightarrow> LockRequest option" where
  "GetLockRequestIter t q =
     (if t \<in> set (req_list_iter_map q) then find (\<lambda>r. lr_txn_id r = t) (req_list q) else None)"

text \<open>An assignment through the iterator of a transaction's request.\<close>

definition at_iter :: "txn_id_t \<Rightarrow> (LockRequest \<Rightarrow> LockRequest) \<Rightarrow> LockRequestQueue \<Rightarrow> LockRequestQueue" where
  "at_iter t f q = q\<lparr>req_list := map (\<lambda>r. if lr_txn_id r = t then f r else r) (req_list q)\<rparr>"

section \<open>The lock table\<close>

type_synonym lock_table = "(RowId \<times> LockRequestQueue) list"

record LockManager =
  lock_table :: lock_table
  waits_for :: wait_graph
  enable_cycle_detection :: bool
  cycle_detection_interval :: nat

definition LockManager_init :: LockManager where
  "LockManager_init = \<lparr>lock_table = [], waits_for = [], enable_cycle_detection = False, cycle_detection_interval = 100\<rparr>"

text \<open>\<^verbatim>\<open>lock_table_[rid]\<close> as a value, and the assignment of the queue behind that reference.\<close>

definition queue_at :: "RowId \<Rightarrow> LockManager \<Rightarrow> LockRequestQueue" where
  "queue_at rid lm = (case map_of (lock_table lm) rid of Some q \<Rightarrow> q | None \<Rightarrow> empty_queue)"

definition put_queue :: "RowId \<Rightarrow> LockRequestQueue \<Rightarrow> LockManager \<Rightarrow> LockManager" where
  "put_queue rid q lm = lm\<lparr>lock_table := AList.update rid q (lock_table lm)\<rparr>"

definition EnableCycleDetection :: "nat \<Rightarrow> LockManager \<Rightarrow> LockManager" where
  "EnableCycleDetection interval lm = lm\<lparr>enable_cycle_detection := True, cycle_detection_interval := interval\<rparr>"

definition DisableCycleDetection :: "LockManager \<Rightarrow> LockManager" where
  "DisableCycleDetection lm = lm\<lparr>enable_cycle_detection := False\<rparr>"

section \<open>Locking and unlocking\<close>

datatype wait_loop = WShared | WExclusive | WUpgrade

datatype lock_op = CallShared | CallExclusive | CallUpgrade

datatype lock_outcome = Returns bool | TxnAbortException AbortReason | Wait wait_loop | CallsUpgrade | AssertFails

type_synonym lock_step_result = "LockManager \<times> Txn \<times> lock_outcome"

definition LockPrepare :: "Txn \<Rightarrow> Txn \<times> AbortReason option" where
  "LockPrepare txn =
     (if txn_state txn = kAborted then (txn, Some kDeadlock)
      else if txn_state txn = kShrinking then (SetState kAborted txn, Some kLockOnShrinking)
      else (txn, None))"

definition CheckAbort :: "Txn \<Rightarrow> LockRequestQueue \<Rightarrow> LockRequestQueue \<times> AbortReason option" where
  "CheckAbort txn q =
     (if txn_state txn \<noteq> kAborted then (q, None)
      else (case GetLockRequestIter (txn_id txn) q of
              None \<Rightarrow> q
            | Some r \<Rightarrow> if granted r = kNone then fst (EraseLockRequest (txn_id txn) q)
                        else if lock_mode r = kExclusive \<and> granted r = kShared then q\<lparr>is_upgrading := False\<rparr>
                        else q,
            Some kDeadlock))"

definition shared_loop :: "Txn \<Rightarrow> RowId \<Rightarrow> LockManager \<Rightarrow> lock_step_result" where
  "shared_loop txn rid lm =
     (let q = queue_at rid lm
      in if is_writing q \<or> is_upgrading q then (lm, txn, Wait WShared)
         else let q = at_iter (txn_id txn) (\<lambda>r. r\<lparr>granted := kShared\<rparr>) q;
                  q = q\<lparr>sharing_cnt := sharing_cnt q + 1\<rparr>
              in (put_queue rid q lm, shared_emplace rid txn, Returns True))"

definition exclusive_loop :: "Txn \<Rightarrow> RowId \<Rightarrow> LockManager \<Rightarrow> lock_step_result" where
  "exclusive_loop txn rid lm =
     (let q = queue_at rid lm
      in if is_writing q \<or> sharing_cnt q > 0 then (lm, txn, Wait WExclusive)
         else let q = at_iter (txn_id txn) (\<lambda>r. r\<lparr>granted := kExclusive\<rparr>) q;
                  q = q\<lparr>is_writing := True\<rparr>
              in (put_queue rid q lm, exclusive_emplace rid txn, Returns True))"

definition upgrade_loop :: "Txn \<Rightarrow> RowId \<Rightarrow> LockManager \<Rightarrow> lock_step_result" where
  "upgrade_loop txn rid lm =
     (let q = queue_at rid lm
      in if is_writing q \<or> sharing_cnt q > 1 then (lm, txn, Wait WUpgrade)
         else let q = q\<lparr>sharing_cnt := sharing_cnt q - 1, is_writing := True, is_upgrading := False\<rparr>;
                  q = at_iter (txn_id txn) (\<lambda>r. r\<lparr>granted := kExclusive\<rparr>) q
              in (put_queue rid q lm, exclusive_emplace rid (shared_erase rid txn), Returns True))"

text \<open>The three calls, first the part before the latch.\<close>

definition LockShared_prepare :: "Txn \<Rightarrow> Txn \<times> AbortReason option" where
  "LockShared_prepare txn =
     (if iso_level txn = kReadUncommitted then (SetState kAborted txn, Some kLockSharedOnReadUncommitted)
      else LockPrepare txn)"

definition LockShared_latched :: "Txn \<Rightarrow> RowId \<Rightarrow> LockManager \<Rightarrow> lock_step_result" where
  "LockShared_latched txn rid lm =
     (if rid \<in> set (shared_lock_set txn) \<or> rid \<in> set (exclusive_lock_set txn) then (lm, txn, Returns True)
      else case EmplaceLockRequest (txn_id txn) kShared (queue_at rid lm) of
             None \<Rightarrow> (lm, txn, AssertFails)
           | Some q \<Rightarrow> shared_loop txn rid (put_queue rid q lm))"

definition LockExclusive_latched :: "Txn \<Rightarrow> RowId \<Rightarrow> LockManager \<Rightarrow> lock_step_result" where
  "LockExclusive_latched txn rid lm =
     (if rid \<in> set (exclusive_lock_set txn) then (lm, txn, Returns True)
      else if rid \<in> set (shared_lock_set txn) then (lm, txn, CallsUpgrade)
      else case EmplaceLockRequest (txn_id txn) kExclusive (queue_at rid lm) of
             None \<Rightarrow> (lm, txn, AssertFails)
           | Some q \<Rightarrow> exclusive_loop txn rid (put_queue rid q lm))"

definition LockUpgrade_latched :: "Txn \<Rightarrow> RowId \<Rightarrow> LockManager \<Rightarrow> lock_step_result" where
  "LockUpgrade_latched txn rid lm =
     (if rid \<in> set (exclusive_lock_set txn) then (lm, txn, Returns True)
      else if rid \<notin> set (shared_lock_set txn) then (lm, txn, Returns False)
      else let q = queue_at rid lm
           in if is_upgrading q then (lm, SetState kAborted txn, TxnAbortException kUpgradeConflict)
              else let q = q\<lparr>is_upgrading := True\<rparr>
                   in case GetLockRequestIter (txn_id txn) q of
                        None \<Rightarrow> (put_queue rid q lm, txn, AssertFails)
                      | Some _ \<Rightarrow> upgrade_loop txn rid
                          (put_queue rid (at_iter (txn_id txn) (\<lambda>r. r\<lparr>lock_mode := kExclusive\<rparr>) q) lm))"

fun lock_prepare :: "lock_op \<Rightarrow> Txn \<Rightarrow> Txn \<times> AbortReason option" where
  "lock_prepare CallShared = LockShared_prepare"
| "lock_prepare CallExclusive = LockPrepare"
| "lock_prepare CallUpgrade = LockPrepare"

fun lock_latched :: "lock_op \<Rightarrow> Txn \<Rightarrow> RowId \<Rightarrow> LockManager \<Rightarrow> lock_step_result" where
  "lock_latched CallShared = LockShared_latched"
| "lock_latched CallExclusive = LockExclusive_latched"
| "lock_latched CallUpgrade = LockUpgrade_latched"

text \<open>The calls as a whole, up to the point where they return, throw or wait, when no other thread comes in between.\<close>

definition LockShared :: "Txn \<Rightarrow> RowId \<Rightarrow> LockManager \<Rightarrow> lock_step_result" where
  "LockShared txn rid lm =
     (case LockShared_prepare txn of
        (txn, Some reason) \<Rightarrow> (lm, txn, TxnAbortException reason)
      | (txn, None) \<Rightarrow> LockShared_latched txn rid lm)"

definition LockUpgrade :: "Txn \<Rightarrow> RowId \<Rightarrow> LockManager \<Rightarrow> lock_step_result" where
  "LockUpgrade txn rid lm =
     (case LockPrepare txn of
        (txn, Some reason) \<Rightarrow> (lm, txn, TxnAbortException reason)
      | (txn, None) \<Rightarrow> LockUpgrade_latched txn rid lm)"

definition LockExclusive :: "Txn \<Rightarrow> RowId \<Rightarrow> LockManager \<Rightarrow> lock_step_result" where
  "LockExclusive txn rid lm =
     (case LockPrepare txn of
        (txn, Some reason) \<Rightarrow> (lm, txn, TxnAbortException reason)
      | (txn, None) \<Rightarrow> (case LockExclusive_latched txn rid lm of
            (lm, txn, CallsUpgrade) \<Rightarrow> LockUpgrade txn rid lm
          | res \<Rightarrow> res))"

text \<open>The body of the loop after \<^verbatim>\<open>cv_.wait\<close>, and then the loop again.\<close>

fun lock_loop :: "wait_loop \<Rightarrow> Txn \<Rightarrow> RowId \<Rightarrow> LockManager \<Rightarrow> lock_step_result" where
  "lock_loop WShared = shared_loop"
| "lock_loop WExclusive = exclusive_loop"
| "lock_loop WUpgrade = upgrade_loop"

definition lock_wake :: "wait_loop \<Rightarrow> Txn \<Rightarrow> RowId \<Rightarrow> LockManager \<Rightarrow> lock_step_result" where
  "lock_wake w txn rid lm =
     (case CheckAbort txn (queue_at rid lm) of
        (q, Some reason) \<Rightarrow> (put_queue rid q lm, txn, TxnAbortException reason)
      | (q, None) \<Rightarrow>
          if txn_id txn \<notin> set (req_list_iter_map q) then (lm, txn, Returns False)
          else lock_loop w txn rid lm)"

definition Unlock :: "Txn \<Rightarrow> RowId \<Rightarrow> LockManager \<Rightarrow> LockManager \<times> Txn \<times> bool" where
  "Unlock txn rid lm =
     (case map_of (lock_table lm) rid of
        None \<Rightarrow> (lm, txn, False)
      | Some q \<Rightarrow>
          (case GetLockRequestIter (txn_id txn) q of
             None \<Rightarrow> (lm, txn, False)
           | Some r \<Rightarrow>
               let (q, txn) = (if granted r = kShared then (q\<lparr>sharing_cnt := sharing_cnt q - 1\<rparr>, shared_erase rid txn)
                               else if granted r = kExclusive then (q\<lparr>is_writing := False\<rparr>, exclusive_erase rid txn)
                               else (q, txn));
                   q = (if lock_mode r = kExclusive \<and> granted r = kShared then q\<lparr>is_upgrading := False\<rparr> else q);
                   q = fst (EraseLockRequest (txn_id txn) q);
                   txn = (if txn_state txn = kGrowing then SetState kShrinking txn else txn)
               in (put_queue rid q lm, txn, True)))"

section \<open>Deadlock detection\<close>

type_synonym txn_map = "txn_id_t \<rightharpoonup> Txn"

text \<open>Edges from the waiters of a row to the transaction \<open>t\<close>; \<^verbatim>\<open>lock_table_[row_id]\<close> makes an empty queue for a
  row without one.\<close>

definition remove_waiters :: "txn_id_t \<Rightarrow> RowId \<Rightarrow> LockManager \<Rightarrow> LockManager" where
  "remove_waiters t rid lm =
     (let q = queue_at rid lm
      in (put_queue rid q lm)\<lparr>waits_for :=
           fold (\<lambda>r. if granted r = kNone then RemoveEdge (lr_txn_id r) t else id) (req_list q) (waits_for lm)\<rparr>)"

definition DeleteNode :: "txn_id_t \<Rightarrow> txn_map \<Rightarrow> LockManager \<Rightarrow> LockManager" where
  "DeleteNode t txns lm =
     (let lm = lm\<lparr>waits_for := AList.delete t (waits_for lm)\<rparr>
      in case txns t of
           None \<Rightarrow> lm
         | Some txn \<Rightarrow> fold (remove_waiters t) (exclusive_lock_set txn) (fold (remove_waiters t) (shared_lock_set txn) lm))"

definition waits_on :: "LockRequest \<Rightarrow> LockRequest \<Rightarrow> bool" where
  "waits_on wait_req hold_req \<longleftrightarrow>
     (granted wait_req = kNone \<or> lock_mode wait_req \<noteq> granted wait_req) \<and>
     \<not> (lr_txn_id hold_req = lr_txn_id wait_req \<or> granted hold_req = kNone) \<and>
     (lock_mode wait_req = kExclusive \<or> granted hold_req = kExclusive)"

definition queue_edges :: "LockRequestQueue \<Rightarrow> wait_graph \<Rightarrow> wait_graph" where
  "queue_edges q g =
     fold (\<lambda>w. fold (\<lambda>h. if waits_on w h then AddEdge (lr_txn_id w) (lr_txn_id h) else id) (req_list q)) (req_list q) g"

definition build_graph :: "LockManager \<Rightarrow> wait_graph" where
  "build_graph lm = fold (\<lambda>(_, q). queue_edges q) (lock_table lm) []"

text \<open>The loop \<^verbatim>\<open>while (HasCycle(victim))\<close>; \<open>None\<close> is lack of fuel. Every round deletes the victim's entry
  of \<^verbatim>\<open>waits_for_\<close>, so that one round more than there are entries is enough fuel.\<close>

fun break_cycles :: "nat \<Rightarrow> LockManager \<Rightarrow> txn_map \<Rightarrow> (LockManager \<times> txn_map) option" where
  "break_cycles 0 lm txns = None"
| "break_cycles (Suc n) lm txns =
     (case HasCycle (waits_for lm) of
        None \<Rightarrow> None
      | Some (False, _) \<Rightarrow> Some (lm, txns)
      | Some (True, victim) \<Rightarrow>
          let txns = (case txns victim of None \<Rightarrow> txns | Some txn \<Rightarrow> txns(victim \<mapsto> SetState kAborted txn))
          in break_cycles n (DeleteNode victim txns lm) txns)"

text \<open>One round of \<^verbatim>\<open>RunCycleDetection\<close>, from one sleep to the next.\<close>

definition cycle_detection_round :: "LockManager \<Rightarrow> txn_map \<Rightarrow> (LockManager \<times> txn_map) option" where
  "cycle_detection_round lm txns =
     (let lm = lm\<lparr>waits_for := build_graph lm\<rparr>
      in break_cycles (Suc (length (waits_for lm))) lm txns)"

section \<open>Well-formed queues\<close>

definition grant_count :: "LockMode \<Rightarrow> LockRequestQueue \<Rightarrow> nat" where
  "grant_count m q = length (filter (\<lambda>r. granted r = m) (req_list q))"

definition queue_ok :: "LockRequestQueue \<Rightarrow> bool" where
  "queue_ok q \<longleftrightarrow> distinct (map lr_txn_id (req_list q)) \<and>
     set (req_list_iter_map q) = lr_txn_id ` set (req_list q) \<and>
     sharing_cnt q = int (grant_count kShared q) \<and>
     (if is_writing q then grant_count kExclusive q = 1 \<and> grant_count kShared q = 0 else grant_count kExclusive q = 0)"

lemma queue_ok_empty [simp]: "queue_ok empty_queue"
  by (simp add: queue_ok_def empty_queue_def grant_count_def)

lemma find_distinct:
  "distinct (map f xs) \<Longrightarrow> find (\<lambda>x. f x = t) xs = Some r \<longleftrightarrow> r \<in> set xs \<and> f r = t"
  by (induction xs) (auto simp: image_iff)

lemma GetLockRequestIter_iff:
  assumes "queue_ok q"
  shows "GetLockRequestIter t q = Some r \<longleftrightarrow> r \<in> set (req_list q) \<and> lr_txn_id r = t"
    "GetLockRequestIter t q = None \<longleftrightarrow> t \<notin> lr_txn_id ` set (req_list q)"
  using assms find_distinct [of lr_txn_id "req_list q" t]
  by (auto simp: GetLockRequestIter_def queue_ok_def find_None_iff image_iff)

lemma count_map_update:
  assumes "distinct (map f xs)" "r \<in> set xs" "f r = t"
  shows "length (filter P (map (\<lambda>x. if f x = t then g x else x) xs)) + (if P r then 1 else 0) =
         length (filter P xs) + (if P (g r) then 1 else 0)"
  using assms
proof (induction xs)
  case (Cons x xs)
  have rest: "map (\<lambda>x. if f x = t then g x else x) ys = ys" if "t \<notin> f ` set ys" for ys
    using that by (induction ys) auto
  from Cons show ?case by (cases "x = r") (auto simp: rest image_iff)
qed simp

lemma count_remove:
  assumes "distinct (map f xs)" "r \<in> set xs" "f r = t"
  shows "length (filter P (filter (\<lambda>x. f x \<noteq> t) xs)) + (if P r then 1 else 0) = length (filter P xs)"
  using assms
proof (induction xs)
  case (Cons x xs)
  have rest: "filter (\<lambda>x. f x \<noteq> t) ys = ys" if "t \<notin> f ` set ys" for ys
    using that by (induction ys) auto
  from Cons show ?case by (cases "x = r") (auto simp: rest image_iff)
qed simp

text \<open>How the primitive changes of a queue act on its counts and on the requests of the transactions.\<close>

lemma at_iter_counts:
  assumes ok: "queue_ok q" and r: "GetLockRequestIter t q = Some r"
    and f: "\<And>x. lr_txn_id (f x) = lr_txn_id x"
  shows "grant_count m (at_iter t f q) + (if granted r = m then 1 else 0) =
      grant_count m q + (if granted (f r) = m then 1 else 0)"
    "map lr_txn_id (req_list (at_iter t f q)) = map lr_txn_id (req_list q)"
    "req_list_iter_map (at_iter t f q) = req_list_iter_map q" "is_writing (at_iter t f q) = is_writing q"
    "is_upgrading (at_iter t f q) = is_upgrading q" "sharing_cnt (at_iter t f q) = sharing_cnt q"
proof -
  have r': "r \<in> set (req_list q)" "lr_txn_id r = t" "distinct (map lr_txn_id (req_list q))"
    using GetLockRequestIter_iff [OF ok] r ok by (auto simp: queue_ok_def)
  show "grant_count m (at_iter t f q) + (if granted r = m then 1 else 0) =
      grant_count m q + (if granted (f r) = m then 1 else 0)"
    using count_map_update [OF r'(3,1,2), of "\<lambda>r. granted r = m" f] by (simp add: grant_count_def at_iter_def)
  show "map lr_txn_id (req_list (at_iter t f q)) = map lr_txn_id (req_list q)" by (simp add: at_iter_def f)
qed (simp_all add: at_iter_def)

lemma find_at_iter:
  assumes "\<And>x. lr_txn_id (f x) = lr_txn_id x"
  shows "GetLockRequestIter t' (at_iter t f q) =
    (if t' = t then map_option f (GetLockRequestIter t q) else GetLockRequestIter t' q)"
proof -
  have "find (\<lambda>r. lr_txn_id r = t') (map (\<lambda>r. if lr_txn_id r = t then f r else r) xs) =
    (if t' = t then map_option f (find (\<lambda>r. lr_txn_id r = t) xs) else find (\<lambda>r. lr_txn_id r = t') xs)" for xs
    using assms by (induction xs) auto
  then show ?thesis by (cases "t' = t") (simp_all add: GetLockRequestIter_def at_iter_def)
qed

lemma GetLockRequestIter_flags [simp]:
  "GetLockRequestIter t (q\<lparr>is_writing := b\<rparr>) = GetLockRequestIter t q"
  "GetLockRequestIter t (q\<lparr>is_upgrading := b\<rparr>) = GetLockRequestIter t q"
  "GetLockRequestIter t (q\<lparr>sharing_cnt := n\<rparr>) = GetLockRequestIter t q"
  by (simp_all add: GetLockRequestIter_def)

lemma grant_count_flags [simp]:
  "grant_count m (q\<lparr>is_writing := b\<rparr>) = grant_count m q"
  "grant_count m (q\<lparr>is_upgrading := b\<rparr>) = grant_count m q"
  "grant_count m (q\<lparr>sharing_cnt := n\<rparr>) = grant_count m q"
  by (simp_all add: grant_count_def)

lemma queue_ok_upgrading [simp]: "queue_ok (q\<lparr>is_upgrading := b\<rparr>) = queue_ok q"
  by (simp add: queue_ok_def grant_count_def)

lemma Emplace_ok:
  assumes "queue_ok q" "EmplaceLockRequest t m q = Some q'"
  shows "queue_ok q'" "GetLockRequestIter t' q' = (if t' = t then Some (mk_LockRequest t m) else GetLockRequestIter t' q)"
    "is_writing q' = is_writing q" "is_upgrading q' = is_upgrading q" "sharing_cnt q' = sharing_cnt q"
  using assms
  by (auto simp: EmplaceLockRequest_def queue_ok_def grant_count_def mk_LockRequest_def GetLockRequestIter_def
      split: if_splits)

lemma Emplace_None_iff:
  "queue_ok q \<Longrightarrow> EmplaceLockRequest t m q = None \<longleftrightarrow> GetLockRequestIter t q \<noteq> None"
  using GetLockRequestIter_iff(2) [of q t] by (simp add: EmplaceLockRequest_def queue_ok_def)

lemma Erase_req:
  "GetLockRequestIter t' (fst (EraseLockRequest t q)) = (if t' = t then None else GetLockRequestIter t' q)"
proof -
  have "t' \<noteq> t \<Longrightarrow> find (\<lambda>r. lr_txn_id r = t') (filter (\<lambda>r. lr_txn_id r \<noteq> t) xs) =
      find (\<lambda>r. lr_txn_id r = t') xs" for xs
    by (induction xs) auto
  then show ?thesis by (auto simp: GetLockRequestIter_def EraseLockRequest_def)
qed

lemma Erase_counts:
  assumes ok: "queue_ok q" and r: "GetLockRequestIter t q = Some r"
  shows "grant_count m (fst (EraseLockRequest t q)) + (if granted r = m then 1 else 0) = grant_count m q"
    "distinct (map lr_txn_id (req_list (fst (EraseLockRequest t q))))"
    "set (req_list_iter_map (fst (EraseLockRequest t q))) = lr_txn_id ` set (req_list (fst (EraseLockRequest t q)))"
    "is_writing (fst (EraseLockRequest t q)) = is_writing q" "sharing_cnt (fst (EraseLockRequest t q)) = sharing_cnt q"
proof -
  have r': "r \<in> set (req_list q)" "lr_txn_id r = t" "distinct (map lr_txn_id (req_list q))"
    using GetLockRequestIter_iff [OF ok] r ok by (auto simp: queue_ok_def)
  then have key: "t \<in> set (req_list_iter_map q)" using ok by (auto simp: queue_ok_def)
  show "grant_count m (fst (EraseLockRequest t q)) + (if granted r = m then 1 else 0) = grant_count m q"
    using key count_remove [OF r'(3,1,2), of "\<lambda>r. granted r = m"] by (simp add: grant_count_def EraseLockRequest_def)
qed (use ok in \<open>auto simp: EraseLockRequest_def queue_ok_def distinct_map_filter\<close>)

lemma grant_shared_ok:
  assumes ok: "queue_ok q" and r: "GetLockRequestIter t q = Some r" "granted r = kNone" and w: "\<not> is_writing q"
  shows "queue_ok ((at_iter t (\<lambda>r. r\<lparr>granted := kShared\<rparr>) q)\<lparr>sharing_cnt := sharing_cnt q + 1\<rparr>)"
  using at_iter_counts(1) [OF ok r(1), of "\<lambda>r. r\<lparr>granted := kShared\<rparr>" kShared] at_iter_counts(2-6) [OF ok r(1), of "\<lambda>r. r\<lparr>granted := kShared\<rparr>"]
    at_iter_counts(1) [OF ok r(1), of "\<lambda>r. r\<lparr>granted := kShared\<rparr>" kExclusive] ok r(2) w
  by (simp add: queue_ok_def) (metis list.set_map)

lemma grant_exclusive_ok:
  assumes ok: "queue_ok q" and r: "GetLockRequestIter t q = Some r" "granted r = kNone"
    and w: "\<not> is_writing q" "\<not> sharing_cnt q > 0"
  shows "queue_ok ((at_iter t (\<lambda>r. r\<lparr>granted := kExclusive\<rparr>) q)\<lparr>is_writing := True\<rparr>)"
  using at_iter_counts(1) [OF ok r(1), of "\<lambda>r. r\<lparr>granted := kExclusive\<rparr>" kShared] at_iter_counts(2-6) [OF ok r(1), of "\<lambda>r. r\<lparr>granted := kExclusive\<rparr>"]
    at_iter_counts(1) [OF ok r(1), of "\<lambda>r. r\<lparr>granted := kExclusive\<rparr>" kExclusive] ok r(2) w
  by (simp add: queue_ok_def) (metis list.set_map)

lemma grant_upgrade_ok:
  assumes ok: "queue_ok q" and r: "GetLockRequestIter t q = Some r" "granted r = kShared"
    and w: "\<not> is_writing q" "\<not> sharing_cnt q > 1"
  shows "queue_ok (at_iter t (\<lambda>r. r\<lparr>granted := kExclusive\<rparr>)
     (q\<lparr>sharing_cnt := sharing_cnt q - 1, is_writing := True, is_upgrading := False\<rparr>))"
proof -
  have e: "at_iter t f (q\<lparr>sharing_cnt := n, is_writing := b, is_upgrading := c\<rparr>) =
      (at_iter t f q)\<lparr>sharing_cnt := n, is_writing := b, is_upgrading := c\<rparr>" for f n b c by (simp add: at_iter_def)
  have "r \<in> set (filter (\<lambda>r. granted r = kShared) (req_list q))"
    using GetLockRequestIter_iff [OF ok] r by simp
  then have "0 < grant_count kShared q" unfolding grant_count_def by (metis length_pos_if_in_set)
  then show ?thesis
    unfolding e
    using at_iter_counts(1) [OF ok r(1), of "\<lambda>r. r\<lparr>granted := kExclusive\<rparr>" kShared] at_iter_counts(2-6) [OF ok r(1), of "\<lambda>r. r\<lparr>granted := kExclusive\<rparr>"]
      at_iter_counts(1) [OF ok r(1), of "\<lambda>r. r\<lparr>granted := kExclusive\<rparr>" kExclusive] ok r(2) w
    by (simp add: queue_ok_def) (metis list.set_map)
qed

lemma set_mode_ok:
  assumes ok: "queue_ok q" and r: "GetLockRequestIter t q = Some r"
  shows "queue_ok (at_iter t (\<lambda>r. r\<lparr>lock_mode := m\<rparr>) q)"
  using at_iter_counts(1) [OF ok r, of "\<lambda>r. r\<lparr>lock_mode := m\<rparr>" kShared] at_iter_counts(2-6) [OF ok r, of "\<lambda>r. r\<lparr>lock_mode := m\<rparr>"]
    at_iter_counts(1) [OF ok r, of "\<lambda>r. r\<lparr>lock_mode := m\<rparr>" kExclusive] ok
  by (simp add: queue_ok_def) (metis list.set_map)

lemma Erase_flags:
  "fst (EraseLockRequest t (q\<lparr>sharing_cnt := n\<rparr>)) = (fst (EraseLockRequest t q))\<lparr>sharing_cnt := n\<rparr>"
  "fst (EraseLockRequest t (q\<lparr>is_writing := b\<rparr>)) = (fst (EraseLockRequest t q))\<lparr>is_writing := b\<rparr>"
  "fst (EraseLockRequest t (q\<lparr>is_upgrading := b\<rparr>)) = (fst (EraseLockRequest t q))\<lparr>is_upgrading := b\<rparr>"
  by (simp_all add: EraseLockRequest_def)

lemma Erase_waiting_ok:
  assumes ok: "queue_ok q" and r: "GetLockRequestIter t q = Some r" "granted r = kNone"
  shows "queue_ok (fst (EraseLockRequest t q))"
  using Erase_counts(1) [OF ok r(1), of kShared] Erase_counts(1) [OF ok r(1), of kExclusive]
    Erase_counts(2-5) [OF ok r(1)] ok r(2) by (simp add: queue_ok_def)

lemma Erase_shared_ok:
  assumes ok: "queue_ok q" and r: "GetLockRequestIter t q = Some r" "granted r = kShared"
  shows "queue_ok (fst (EraseLockRequest t (q\<lparr>sharing_cnt := sharing_cnt q - 1\<rparr>)))"
  using Erase_counts(1) [OF ok r(1), of kShared] Erase_counts(1) [OF ok r(1), of kExclusive]
    Erase_counts(2-5) [OF ok r(1)] ok r(2) by (simp add: queue_ok_def Erase_flags split: if_splits)

lemma Erase_exclusive_ok:
  assumes ok: "queue_ok q" and r: "GetLockRequestIter t q = Some r" "granted r = kExclusive"
  shows "queue_ok (fst (EraseLockRequest t (q\<lparr>is_writing := False\<rparr>)))"
  using Erase_counts(1) [OF ok r(1), of kShared] Erase_counts(1) [OF ok r(1), of kExclusive]
    Erase_counts(2-5) [OF ok r(1)] ok r(2) by (simp add: queue_ok_def Erase_flags split: if_splits)

text \<open>The rows held exclusively and the rows held at all, seen from two requests of one queue.\<close>

lemma grant_count_two:
  assumes "queue_ok q" "GetLockRequestIter t q = Some r" "GetLockRequestIter t' q = Some r'" "t \<noteq> t'"
    and "granted r = kExclusive"
  shows "granted r' = kNone"
proof -
  have r: "r \<in> set (req_list q)" "r' \<in> set (req_list q)" "r \<noteq> r'"
    using assms GetLockRequestIter_iff [OF assms(1)] by auto
  then have "r \<in> set (filter (\<lambda>x. granted x = kExclusive) (req_list q))" using assms(5) by simp
  then have pos: "0 < grant_count kExclusive q" unfolding grant_count_def by (metis length_pos_if_in_set)
  then have w: "grant_count kExclusive q = 1" "grant_count kShared q = 0"
    using assms(1) by (auto simp: queue_ok_def split: if_splits)
  show ?thesis
  proof (cases "granted r'")
    case kShared
    with r w(2) show ?thesis by (auto simp: grant_count_def filter_empty_conv)
  next
    case kExclusive
    have "{r, r'} \<subseteq> set (filter (\<lambda>x. granted x = kExclusive) (req_list q))"
      using r kExclusive assms(5) by auto
    then have "card {r, r'} \<le> length (filter (\<lambda>x. granted x = kExclusive) (req_list q))"
      by (meson card_length card_mono finite_set order_trans)
    with w(1) r(3) show ?thesis by (simp add: grant_count_def)
  qed
qed

section \<open>The table\<close>

lemma queue_at_put [simp]: "queue_at rid' (put_queue rid q lm) = (if rid' = rid then q else queue_at rid' lm)"
  by (simp add: queue_at_def put_queue_def update_conv')

lemma queue_at_waits [simp]: "queue_at rid (lm\<lparr>waits_for := g\<rparr>) = queue_at rid lm"
  by (simp add: queue_at_def)

lemma put_queue_put [simp]: "put_queue rid q (put_queue rid q' lm) = put_queue rid q lm"
  by (simp add: put_queue_def)

lemma queue_at_remove_waiters [simp]: "queue_at rid' (remove_waiters t rid lm) = queue_at rid' lm"
  by (simp add: remove_waiters_def Let_def)

lemma queue_at_fold_remove [simp]: "queue_at rid (fold (remove_waiters t) rids lm) = queue_at rid lm"
  by (induction rids arbitrary: lm) simp_all

lemma queue_at_DeleteNode [simp]: "queue_at rid (DeleteNode t txns lm) = queue_at rid lm"
  by (simp add: DeleteNode_def Let_def split: option.splits)

section \<open>Deadlock detection\<close>

lemma edges_fold_add:
  "edges (fold (\<lambda>h. if P h then AddEdge t (f h) else id) hs g) = edges g \<union> {(t, f h) |h. h \<in> set hs \<and> P h}"
  by (induction hs arbitrary: g) (auto simp: edges_AddEdge)

lemma edges_queue_edges:
  "edges (queue_edges q g) = edges g \<union> {(lr_txn_id w, lr_txn_id h) |w h. w \<in> set (req_list q) \<and> h \<in> set (req_list q) \<and> waits_on w h}"
proof -
  have "edges (fold (\<lambda>w. fold (\<lambda>h. if waits_on w h then AddEdge (lr_txn_id w) (lr_txn_id h) else id) hs) ws g) =
      edges g \<union> {(lr_txn_id w, lr_txn_id h) |w h. w \<in> set ws \<and> h \<in> set hs \<and> waits_on w h}" for hs ws
    by (induction ws arbitrary: g) (auto simp: edges_fold_add)
  then show ?thesis by (simp add: queue_edges_def)
qed

lemma edges_build_graph:
  "edges (build_graph lm) = {(lr_txn_id w, lr_txn_id h) |rid q w h. (rid, q) \<in> set (lock_table lm) \<and>
     w \<in> set (req_list q) \<and> h \<in> set (req_list q) \<and> waits_on w h}"
proof -
  have "edges (fold (\<lambda>(_, q). queue_edges q) tab g) = edges g \<union> {(lr_txn_id w, lr_txn_id h) |rid q w h.
      (rid, q) \<in> set tab \<and> w \<in> set (req_list q) \<and> h \<in> set (req_list q) \<and> waits_on w h}"
    for tab :: lock_table and g
  proof (induction tab arbitrary: g)
    case (Cons e tab)
    then show ?case by (cases e) (auto simp: edges_queue_edges; blast)
  qed simp
  then show ?thesis by (simp add: build_graph_def)
qed

abbreviation wf_graph :: "wait_graph \<Rightarrow> bool" where "wf_graph g \<equiv> distinct (map fst g)"

lemma wf_fold_add: "wf_graph g \<Longrightarrow> wf_graph (fold (\<lambda>h. if P h then AddEdge t (f h) else id) hs g)"
  by (induction hs arbitrary: g) (simp_all add: AddEdge_def distinct_update)

lemma wf_queue_edges: "wf_graph g \<Longrightarrow> wf_graph (queue_edges q g)"
proof -
  have "wf_graph g \<Longrightarrow>
      wf_graph (fold (\<lambda>w. fold (\<lambda>h. if waits_on w h then AddEdge (lr_txn_id w) (lr_txn_id h) else id) hs) ws g)" for hs ws
    by (induction ws arbitrary: g) (simp_all add: wf_fold_add)
  then show "wf_graph g \<Longrightarrow> wf_graph (queue_edges q g)" by (simp add: queue_edges_def)
qed

lemma wf_build_graph: "wf_graph (build_graph lm)"
proof -
  have "wf_graph g \<Longrightarrow> wf_graph (fold (\<lambda>(_, q). queue_edges q) tab g)" for tab :: lock_table and g
    by (induction tab arbitrary: g) (simp_all add: wf_queue_edges split_def)
  then show ?thesis by (simp add: build_graph_def)
qed

text \<open>Deletions from the graph: they drop only edges into \<open>t\<close> and entries, and add nothing.\<close>

definition drops :: "txn_id_t \<Rightarrow> wait_graph \<Rightarrow> wait_graph \<Rightarrow> bool" where
  "drops t g g' \<longleftrightarrow> wf_graph g' \<and> edges g' \<subseteq> edges g \<and> {(a, b) \<in> edges g. b \<noteq> t} \<subseteq> edges g' \<and>
     fst ` set g' \<subseteq> fst ` set g"

lemma drops_refl: "wf_graph g \<Longrightarrow> drops t g g"
  by (auto simp: drops_def)

lemma drops_trans: "drops t g g' \<Longrightarrow> drops t g' g'' \<Longrightarrow> drops t g g''"
  unfolding drops_def by blast

lemma keys_RemoveEdge: "fst ` set (RemoveEdge a t g) \<subseteq> fst ` set g"
proof (cases "map_of g a")
  case (Some ts)
  then have "a \<in> fst ` set g" by (metis map_of_eq_None_iff option.distinct(1))
  with Some show ?thesis by (auto simp: RemoveEdge_def Let_def dom_update AList.delete_eq)
qed (simp add: RemoveEdge_def)

lemma drops_RemoveEdge: "wf_graph g \<Longrightarrow> drops t g (RemoveEdge a t g)"
  using keys_RemoveEdge by (auto simp: drops_def edges_RemoveEdge)

lemma drops_fold:
  assumes "\<And>x g. wf_graph (f g) \<Longrightarrow> drops t (f g) (f (F x g))" "wf_graph (f g)"
  shows "drops t (f g) (f (fold F xs g))"
  using assms(2)
proof (induction xs arbitrary: g)
  case (Cons x xs)
  have "drops t (f g) (f (F x g))" by (rule assms(1) [OF Cons.prems])
  moreover from this have "drops t (f (F x g)) (f (fold F xs (F x g)))" by (intro Cons.IH) (simp add: drops_def)
  ultimately show ?case by (simp add: drops_trans)
qed (simp add: drops_refl)

lemma drops_remove_waiters: "wf_graph (waits_for lm) \<Longrightarrow> drops t (waits_for lm) (waits_for (remove_waiters t rid lm))"
proof -
  assume wf: "wf_graph (waits_for lm)"
  let ?F = "\<lambda>r. if granted r = kNone then RemoveEdge (lr_txn_id r) t else id"
  have "drops t (id (waits_for lm)) (id (fold ?F (req_list (queue_at rid lm)) (waits_for lm)))"
    by (rule drops_fold) (use wf in \<open>simp_all add: drops_RemoveEdge drops_refl\<close>)
  then show ?thesis by (simp add: remove_waiters_def Let_def)
qed

lemma drops_rows:
  "wf_graph (waits_for lm) \<Longrightarrow> drops t (waits_for lm) (waits_for (fold (remove_waiters t) rids lm))"
  by (rule drops_fold) (rule drops_remove_waiters)

lemma DeleteNode_graph:
  fixes t :: txn_id_t and txns :: txn_map
  assumes "wf_graph (waits_for lm)"
  defines "g \<equiv> waits_for lm" and "g' \<equiv> waits_for (DeleteNode t txns lm)"
  shows "wf_graph g'" "edges g' \<subseteq> edges g" "{(a, b) \<in> edges g. a \<noteq> t \<and> b \<noteq> t} \<subseteq> edges g'"
    "fst ` set g' \<subseteq> fst ` set g - {t}"
proof -
  let ?lm = "lm\<lparr>waits_for := AList.delete t (waits_for lm)\<rparr>"
  have wf: "wf_graph (waits_for ?lm)" using assms by (simp add: distinct_delete)
  have d: "drops t (AList.delete t g) g'"
  proof (cases "txns t")
    case None
    then show ?thesis using wf by (simp add: g'_def g_def DeleteNode_def drops_refl)
  next
    case (Some txn)
    let ?lm1 = "fold (remove_waiters t) (shared_lock_set txn) ?lm"
    have 1: "drops t (waits_for ?lm) (waits_for ?lm1)" by (rule drops_rows [OF wf])
    then have "wf_graph (waits_for ?lm1)" by (simp add: drops_def)
    from drops_trans [OF 1 drops_rows [OF this]] Some show ?thesis
      by (simp add: g'_def g_def DeleteNode_def Let_def)
  qed
  then show "wf_graph g'" by (simp add: drops_def)
  show "edges g' \<subseteq> edges g" "{(a, b) \<in> edges g. a \<noteq> t \<and> b \<noteq> t} \<subseteq> edges g'"
    using d by (auto simp: drops_def edges_delete)
  show "fst ` set g' \<subseteq> fst ` set g - {t}" 
  proof -
    have "fst ` set (AList.delete t g) \<subseteq> fst ` set g - {t}" by (auto simp: AList.delete_eq)
    then show ?thesis using d unfolding drops_def by blast
  qed
qed

text \<open>Aborting a set of transactions.\<close>

definition abort_all :: "txn_id_t set \<Rightarrow> txn_map \<Rightarrow> txn_map" where
  "abort_all V txns = (\<lambda>t. if t \<in> V then map_option (SetState kAborted) (txns t) else txns t)"

lemma abort_all_insert:
  "abort_all V (case txns v of None \<Rightarrow> txns | Some txn \<Rightarrow> txns(v \<mapsto> SetState kAborted txn)) = abort_all (insert v V) txns"
  by (auto simp: abort_all_def fun_eq_iff SetState_def split: option.splits)

lemma break_cycles_correct:
  assumes "wf_graph (waits_for lm)" "card (fst ` set (waits_for lm)) < n"
  shows "\<exists>lm' V. break_cycles n lm txns = Some (lm', abort_all V txns) \<and> acyclic (edges (waits_for lm')) \<and>
    (\<forall>rid. queue_at rid lm' = queue_at rid lm) \<and> (\<forall>v \<in> V. (v, v) \<in> (edges (waits_for lm))\<^sup>+) \<and>
    acyclic {(a, b) \<in> edges (waits_for lm). a \<notin> V \<and> b \<notin> V}"
  using assms
proof (induction n arbitrary: lm txns)
  case (Suc n)
  let ?g = "waits_for lm"
  show ?case
  proof (cases ?g rule: HasCycle_cases)
    case (1 m)
    let ?txns = "case txns m of None \<Rightarrow> txns | Some txn \<Rightarrow> txns(m \<mapsto> SetState kAborted txn)"
    let ?lm = "DeleteNode m ?txns lm"
    note D = DeleteNode_graph [OF Suc.prems(1), of m ?txns]
    have cyc: "(m, m) \<in> (edges ?g)\<^sup>+" by (rule on_cycle_trancl [OF 1(2)])
    then obtain y where "(m, y) \<in> edges ?g" by (meson tranclD)
    then have "m \<in> fst ` set ?g"
      by (cases "map_of ?g m") (force simp: edges_def succs_def dest: map_of_SomeD)+
    then have "fst ` set (waits_for ?lm) \<subset> fst ` set ?g" using D(4) by blast
    then have "card (fst ` set (waits_for ?lm)) < card (fst ` set ?g)" by (intro psubset_card_mono) simp_all
    with Suc.prems(2) have "card (fst ` set (waits_for ?lm)) < n" by simp
    from Suc.IH [OF D(1) this, of ?txns] obtain lm' V where
      ih: "break_cycles n ?lm ?txns = Some (lm', abort_all V ?txns)" "acyclic (edges (waits_for lm'))"
      "\<forall>rid. queue_at rid lm' = queue_at rid lm" "\<forall>v \<in> V. (v, v) \<in> (edges (waits_for ?lm))\<^sup>+"
      "acyclic {(a, b) \<in> edges (waits_for ?lm). a \<notin> V \<and> b \<notin> V}" by auto
    have "{(a, b) \<in> edges ?g. a \<notin> insert m V \<and> b \<notin> insert m V} \<subseteq> {(a, b) \<in> edges (waits_for ?lm). a \<notin> V \<and> b \<notin> V}"
      using D(3) by auto
    then have "acyclic {(a, b) \<in> edges ?g. a \<notin> insert m V \<and> b \<notin> insert m V}" by (rule acyclic_subset [OF ih(5)])
    moreover have "\<forall>v \<in> insert m V. (v, v) \<in> (edges ?g)\<^sup>+" using ih(4) cyc trancl_mono [OF _ D(2)] by blast
    moreover have "break_cycles (Suc n) lm txns = Some (lm', abort_all (insert m V) txns)"
      using 1 ih(1) by (simp add: Let_def abort_all_insert)
    ultimately show ?thesis using ih(2,3) by blast
  next
    case (2 m)
    have "abort_all {} txns = txns" by (simp add: abort_all_def fun_eq_iff)
    with 2 show ?thesis by (intro exI [of _ lm] exI [of _ "{}"]) (simp add: split_def)
  qed
qed simp

lemma cycle_detection_effect:
  "\<exists>lm' V. cycle_detection_round lm txns = Some (lm', abort_all V txns) \<and>
     V \<subseteq> {v. (v, v) \<in> (edges (build_graph lm))\<^sup>+} \<and>
     acyclic {(a, b) \<in> edges (build_graph lm). a \<notin> V \<and> b \<notin> V} \<and>
     (\<forall>rid. queue_at rid lm' = queue_at rid lm)"
proof -
  let ?lm = "lm\<lparr>waits_for := build_graph lm\<rparr>"
  have "card (fst ` set (waits_for ?lm)) \<le> length (waits_for ?lm)"
    by (metis card_length list.set_map length_map)
  then have "card (fst ` set (waits_for ?lm)) < Suc (length (waits_for ?lm))" by simp
  from break_cycles_correct [OF _ this, of txns] wf_build_graph [of lm]
  obtain lm' V where "break_cycles (Suc (length (waits_for ?lm))) ?lm txns = Some (lm', abort_all V txns)"
    "\<forall>rid. queue_at rid lm' = queue_at rid ?lm" "\<forall>v \<in> V. (v, v) \<in> (edges (waits_for ?lm))\<^sup>+"
    "acyclic {(a, b) \<in> edges (waits_for ?lm). a \<notin> V \<and> b \<notin> V}" by auto
  then have "cycle_detection_round lm txns = Some (lm', abort_all V txns) \<and>
     V \<subseteq> {v. (v, v) \<in> (edges (build_graph lm))\<^sup>+} \<and>
     acyclic {(a, b) \<in> edges (build_graph lm). a \<notin> V \<and> b \<notin> V} \<and>
     (\<forall>rid. queue_at rid lm' = queue_at rid lm)"
    by (auto simp: cycle_detection_round_def Let_def simp del: break_cycles.simps)
  then show ?thesis by blast
qed

text \<open>C11. One round of \<^verbatim>\<open>RunCycleDetection\<close> always ends. It builds the waits-for graph of the lock table: an
  edge from each waiting request (not granted, or an upgrade) to each other transaction that holds a
  conflicting lock on the row. It marks as aborted a set of transactions each of which lies on a cycle of
  that graph, and no cycle is left among the others; neither the requests nor other transactions
  change.\<close>

theorem cycle_detection_correct:
  "edges (build_graph lm) = {(lr_txn_id w, lr_txn_id h) |rid q w h. (rid, q) \<in> set (lock_table lm) \<and>
     w \<in> set (req_list q) \<and> h \<in> set (req_list q) \<and> waits_on w h} \<and>
   (\<exists>lm' V. cycle_detection_round lm txns = Some (lm', abort_all V txns) \<and>
     V \<subseteq> {v. (v, v) \<in> (edges (build_graph lm))\<^sup>+} \<and>
     acyclic {(a, b) \<in> edges (build_graph lm). a \<notin> V \<and> b \<notin> V} \<and>
     (\<forall>rid. queue_at rid lm' = queue_at rid lm))"
  using edges_build_graph cycle_detection_effect by blast

end
