(* ===== verification/Txn_Manager.thy ===== *)
theory Txn_Manager
  imports Lock_Manager
begin

text \<open>
  The transaction manager (\<^verbatim>\<open>src/concurrency/txn_manager.cpp\<close>) and the system it forms with the lock
  manager, as a labelled transition system in which any thread may run between two steps of another. A step is
  what runs under one latch, or without one:
  \<^item> a lock call of a transaction starts (\<open>EvCall\<close>), runs \<^verbatim>\<open>LockPrepare\<close> (\<open>EvPrepare\<close>), then its body under the latch
    (\<open>EvLatch\<close>) up to its end or the first \<^verbatim>\<open>wait\<close>, and each time it is woken one round of its loop (\<open>EvWake\<close>);
  \<^item> \<^verbatim>\<open>Unlock\<close> is one step (\<open>EvUnlock\<close>). \<^verbatim>\<open>Commit\<close> and \<^verbatim>\<open>Abort\<close> set the state (\<open>EvEnd\<close>), then collect the rows
    held (\<open>EvCollect\<close>), then unlock row by row (\<open>EvRelease\<close>) until none is left (\<open>EvReleased\<close>). These calls may come from any
    thread at any time, also while a lock call of the transaction is waiting, and several may run at once;
  \<^item> \<^verbatim>\<open>Begin\<close> and rounds of the deadlock detection.

  At most one lock call of a transaction is in progress at a time. The id counter is a 32-bit integer that wraps
  around; the model names the \<^verbatim>\<open>Txn\<close> objects by their ids, so that \<^verbatim>\<open>Begin\<close> is a step only while the id it registers is
  not in use (\<open>txn_ids_wrap\<close>: it is new for 2^32 calls, and then the ids repeat).
\<close>

section \<open>The transaction manager\<close>

record TxnManager =
  next_txn_id :: txn_id_t
  txn_map :: txn_map

definition TxnManager_init :: TxnManager where
  "TxnManager_init = \<lparr>next_txn_id = 0, txn_map = Map.empty\<rparr>"

text \<open>\<^verbatim>\<open>next_txn_id_++\<close> on \<^verbatim>\<open>std::atomic<int32_t>\<close>, which wraps around.\<close>

definition int32_inc :: "int \<Rightarrow> int" where
  "int32_inc n = signed_take_bit 31 (n + 1)"

definition Begin :: "Txn option \<Rightarrow> IsolationLevel \<Rightarrow> TxnManager \<Rightarrow> TxnManager \<times> Txn" where
  "Begin txn isolationLevel tm =
     (let (tm, txn) = (case txn of
              None \<Rightarrow> (tm\<lparr>next_txn_id := int32_inc (next_txn_id tm)\<rparr>, mk_Txn (next_txn_id tm) isolationLevel)
            | Some txn \<Rightarrow> (tm, txn))
      in (tm\<lparr>txn_map := (txn_map tm)(txn_id txn \<mapsto> txn)\<rparr>, txn))"

definition GetTransaction :: "txn_id_t \<Rightarrow> TxnManager \<Rightarrow> Txn option" where
  "GetTransaction t tm = txn_map tm t"

fun unlock_rows :: "RowId list \<Rightarrow> Txn \<Rightarrow> LockManager \<Rightarrow> LockManager \<times> Txn" where
  "unlock_rows [] txn lm = (lm, txn)"
| "unlock_rows (rid # rids) txn lm = (let (lm, txn, _) = Unlock txn rid lm in unlock_rows rids txn lm)"

text \<open>\<^verbatim>\<open>Commit\<close> and \<^verbatim>\<open>Abort\<close> when no other thread comes in between.\<close>

definition ReleaseLocks :: "Txn \<Rightarrow> LockManager \<Rightarrow> LockManager \<times> Txn" where
  "ReleaseLocks txn lm = unlock_rows (remdups (exclusive_lock_set txn @ shared_lock_set txn)) txn lm"

definition Commit :: "Txn \<Rightarrow> LockManager \<Rightarrow> LockManager \<times> Txn" where
  "Commit txn lm = ReleaseLocks (SetState kCommitted txn) lm"

definition Abort :: "Txn \<Rightarrow> LockManager \<Rightarrow> LockManager \<times> Txn" where
  "Abort txn lm = ReleaseLocks (SetState kAborted txn) lm"

section \<open>The system\<close>

text \<open>Where the lock call of a transaction is: before \<^verbatim>\<open>LockPrepare\<close>, before the latch, or in the \<^verbatim>\<open>wait\<close> of a loop.\<close>

datatype call_at = AtPrepare lock_op RowId | AtLatch lock_op RowId | AtWait wait_loop RowId

type_synonym at_map = "txn_id_t \<rightharpoonup> call_at"

text \<open>The running \<^verbatim>\<open>ReleaseLocks\<close> calls: the transaction, and the rows still to be unlocked once they are collected.\<close>

type_synonym release = "txn_id_t \<times> RowId list option"

record lock_sys =
  sys_lm :: LockManager
  sys_tm :: TxnManager
  sys_at :: at_map
  sys_releases :: "release list"

definition sys_init :: lock_sys where
  "sys_init = \<lparr>sys_lm = LockManager_init, sys_tm = TxnManager_init, sys_at = Map.empty, sys_releases = []\<rparr>"

definition sys_txns :: "lock_sys \<Rightarrow> txn_map" where
  "sys_txns s = txn_map (sys_tm s)"

definition held :: "Txn \<Rightarrow> RowId set" where
  "held txn = set (shared_lock_set txn) \<union> set (exclusive_lock_set txn)"

definition next_at :: "RowId \<Rightarrow> lock_outcome \<Rightarrow> call_at option" where
  "next_at rid out = (case out of Wait w \<Rightarrow> Some (AtWait w rid) | CallsUpgrade \<Rightarrow> Some (AtPrepare CallUpgrade rid) | _ \<Rightarrow> None)"

text \<open>The state after transaction \<open>t\<close> and the lock manager changed, and after a part of a lock call.\<close>

definition sys_put :: "txn_id_t \<Rightarrow> LockManager \<times> Txn \<Rightarrow> lock_sys \<Rightarrow> lock_sys" where
  "sys_put t res s = (case res of (lm, txn) \<Rightarrow>
     s\<lparr>sys_lm := lm, sys_tm := (sys_tm s)\<lparr>txn_map := (sys_txns s)(t \<mapsto> txn)\<rparr>\<rparr>)"

definition sys_after :: "txn_id_t \<Rightarrow> call_at option \<Rightarrow> LockManager \<times> Txn \<Rightarrow> lock_sys \<Rightarrow> lock_sys" where
  "sys_after t c res s = (sys_put t res s)\<lparr>sys_at := (sys_at s)(t := c)\<rparr>"

datatype lock_event =
    EvBegin
  | EvCall txn_id_t lock_op RowId
  | EvPrepare txn_id_t "AbortReason option"
  | EvLatch txn_id_t lock_outcome
  | EvWake txn_id_t lock_outcome
  | EvUnlock txn_id_t RowId
  | EvEnd txn_id_t TxnState
  | EvCollect txn_id_t
  | EvRelease txn_id_t
  | EvReleased txn_id_t
  | EvDetect

inductive lock_step :: "lock_sys \<Rightarrow> lock_event \<Rightarrow> lock_sys \<Rightarrow> bool" where
  step_begin: "arg = None \<or> arg = Some (mk_Txn u lvl') \<Longrightarrow> Begin arg lvl (sys_tm s) = (tm', txn) \<Longrightarrow>
    sys_txns s (txn_id txn) = None \<Longrightarrow> lock_step s EvBegin (s\<lparr>sys_tm := tm'\<rparr>)"
| step_call: "sys_txns s t = Some txn \<Longrightarrow> sys_at s t = None \<Longrightarrow>
    lock_step s (EvCall t oper rid) (sys_after t (Some (AtPrepare oper rid)) (sys_lm s, txn) s)"
| step_prepare: "sys_txns s t = Some txn \<Longrightarrow> sys_at s t = Some (AtPrepare oper rid) \<Longrightarrow> lock_prepare oper txn = (txn', a) \<Longrightarrow>
    lock_step s (EvPrepare t a) (sys_after t (if a = None then Some (AtLatch oper rid) else None) (sys_lm s, txn') s)"
| step_latch: "sys_txns s t = Some txn \<Longrightarrow> sys_at s t = Some (AtLatch oper rid) \<Longrightarrow>
    lock_latched oper txn rid (sys_lm s) = (lm', txn', out) \<Longrightarrow>
    lock_step s (EvLatch t out) (sys_after t (next_at rid out) (lm', txn') s)"
| step_wake: "sys_txns s t = Some txn \<Longrightarrow> sys_at s t = Some (AtWait w rid) \<Longrightarrow>
    lock_wake w txn rid (sys_lm s) = (lm', txn', out) \<Longrightarrow>
    lock_step s (EvWake t out) (sys_after t (next_at rid out) (lm', txn') s)"
| step_unlock: "sys_txns s t = Some txn \<Longrightarrow> Unlock txn rid (sys_lm s) = (lm', txn', ok) \<Longrightarrow>
    lock_step s (EvUnlock t rid) (sys_put t (lm', txn') s)"
| step_end: "sys_txns s t = Some txn \<Longrightarrow> st = kCommitted \<or> st = kAborted \<Longrightarrow>
    lock_step s (EvEnd t st) ((sys_put t (sys_lm s, SetState st txn) s)\<lparr>sys_releases := (t, None) # sys_releases s\<rparr>)"
| step_collect: "sys_txns s t = Some txn \<Longrightarrow> sys_releases s = rs @ (t, None) # rs' \<Longrightarrow> distinct rids \<Longrightarrow> set rids = held txn \<Longrightarrow>
    lock_step s (EvCollect t) (s\<lparr>sys_releases := rs @ (t, Some rids) # rs'\<rparr>)"
| step_release: "sys_txns s t = Some txn \<Longrightarrow> sys_releases s = rs @ (t, Some (rid # rids)) # rs' \<Longrightarrow>
    Unlock txn rid (sys_lm s) = (lm', txn', ok) \<Longrightarrow>
    lock_step s (EvRelease t) ((sys_put t (lm', txn') s)\<lparr>sys_releases := rs @ (t, Some rids) # rs'\<rparr>)"
| step_released: "sys_releases s = rs @ (t, Some []) # rs' \<Longrightarrow> lock_step s (EvReleased t) (s\<lparr>sys_releases := rs @ rs'\<rparr>)"
| step_detect: "cycle_detection_round (sys_lm s) (sys_txns s) = Some (lm', txns') \<Longrightarrow>
    lock_step s EvDetect (s\<lparr>sys_lm := lm', sys_tm := (sys_tm s)\<lparr>txn_map := txns'\<rparr>\<rparr>)"

inductive reachable :: "lock_sys \<Rightarrow> bool" where
  reach_init: "reachable sys_init"
| reach_step: "reachable s \<Longrightarrow> lock_step s e s' \<Longrightarrow> reachable s'"

text \<open>Runs in which one thread makes all calls for transaction \<open>t\<close>: none starts while another is in progress. The other
  transactions are not restricted.\<close>

fun starts :: "lock_event \<Rightarrow> txn_id_t \<Rightarrow> bool" where
  "starts (EvCall u oper rid) t \<longleftrightarrow> u = t"
| "starts (EvUnlock u rid) t \<longleftrightarrow> u = t"
| "starts (EvEnd u st) t \<longleftrightarrow> u = t"
| "starts _ t \<longleftrightarrow> False"

definition releasing :: "txn_id_t \<Rightarrow> lock_sys \<Rightarrow> bool" where
  "releasing t s \<longleftrightarrow> t \<in> fst ` set (sys_releases s)"

definition one_thread :: "txn_id_t \<Rightarrow> lock_sys \<Rightarrow> lock_event \<Rightarrow> bool" where
  "one_thread t s e \<longleftrightarrow> (starts e t \<longrightarrow> sys_at s t = None \<and> \<not> releasing t s)"

inductive own_run :: "txn_id_t \<Rightarrow> lock_sys \<Rightarrow> bool" for t where
  own_init: "own_run t sys_init"
| own_step: "own_run t s \<Longrightarrow> lock_step s e s' \<Longrightarrow> one_thread t s e \<Longrightarrow> own_run t s'"

lemma own_run_reachable: "own_run t s \<Longrightarrow> reachable s"
  by (induction rule: own_run.induct) (auto intro: reachable.intros)

section \<open>The invariant\<close>

text \<open>How a transaction's lock sets and its lock call agree with its request on a row. The request of a waiting call may be gone.\<close>

definition row_link :: "Txn \<Rightarrow> RowId \<Rightarrow> LockRequest option \<Rightarrow> call_at option \<Rightarrow> bool" where
  "row_link txn rid rq c \<longleftrightarrow> (case rq of
      None \<Rightarrow> rid \<notin> set (shared_lock_set txn) \<and> rid \<notin> set (exclusive_lock_set txn)
    | Some r \<Rightarrow> (rid \<in> set (shared_lock_set txn) \<longleftrightarrow> granted r = kShared) \<and>
        (rid \<in> set (exclusive_lock_set txn) \<longleftrightarrow> granted r = kExclusive) \<and>
        (granted r = kNone \<longleftrightarrow> c = Some (AtWait WShared rid) \<or> c = Some (AtWait WExclusive rid)) \<and>
        (c = Some (AtWait WShared rid) \<longrightarrow> lock_mode r = kShared) \<and>
        (c = Some (AtWait WExclusive rid) \<longrightarrow> lock_mode r = kExclusive) \<and>
        (c = Some (AtWait WUpgrade rid) \<longrightarrow> granted r = kShared \<and> lock_mode r = kExclusive))"

definition lock_inv :: "LockManager \<Rightarrow> txn_map \<Rightarrow> at_map \<Rightarrow> bool" where
  "lock_inv lm txns ca \<longleftrightarrow> (\<forall>rid. queue_ok (queue_at rid lm)) \<and>
     (\<forall>t txn. txns t = Some txn \<longrightarrow> txn_id txn = t \<and>
        (\<forall>rid. row_link txn rid (GetLockRequestIter t (queue_at rid lm)) (ca t))) \<and>
     (\<forall>t rid. txns t = None \<longrightarrow> ca t = None \<and> GetLockRequestIter t (queue_at rid lm) = None)"

lemma lock_invD:
  assumes "lock_inv lm txns ca"
  shows "queue_ok (queue_at rid lm)" "txns t = Some txn \<Longrightarrow> txn_id txn = t"
    "txns t = Some txn \<Longrightarrow> row_link txn rid (GetLockRequestIter t (queue_at rid lm)) (ca t)"
    "txns t = None \<Longrightarrow> ca t = None" "txns t = None \<Longrightarrow> GetLockRequestIter t (queue_at rid lm) = None"
  using assms by (auto simp: lock_inv_def)

text \<open>An operation of \<open>t\<close> on \<open>rid\<close> keeps the invariant if it keeps the row's queue well formed, leaves the
  requests of the others alone, keeps the link of \<open>t\<close> to the row and waits on no other row than before.\<close>

lemma lock_inv_update:
  assumes inv: "lock_inv lm txns ca" and t: "txns t = Some txn" and q: "queue_ok q'"
    and lm': "\<And>rid'. queue_at rid' lm' = (if rid' = rid then q' else queue_at rid' lm)"
    and others: "\<And>t'. t' \<noteq> t \<Longrightarrow> GetLockRequestIter t' q' = GetLockRequestIter t' (queue_at rid lm)"
    and id: "txn_id txn' = txn_id txn"
    and rows: "\<And>rid'. rid' \<noteq> rid \<Longrightarrow> (rid' \<in> set (shared_lock_set txn') \<longleftrightarrow> rid' \<in> set (shared_lock_set txn)) \<and>
      (rid' \<in> set (exclusive_lock_set txn') \<longleftrightarrow> rid' \<in> set (exclusive_lock_set txn))"
    and link: "row_link txn' rid (GetLockRequestIter t q') c'"
    and at: "\<And>w rid'. rid' \<noteq> rid \<Longrightarrow> c' = Some (AtWait w rid') \<longleftrightarrow> ca t = Some (AtWait w rid')"
  shows "lock_inv lm' (txns(t \<mapsto> txn')) (ca(t := c'))"
proof -
  note I = lock_invD [OF inv]
  have mine: "row_link txn' rid' (GetLockRequestIter t (queue_at rid' lm')) c'" for rid'
  proof (cases "rid' = rid")
    case False
    with I(3) [OF t, of rid'] rows [OF False] at [OF False] show ?thesis
      by (simp add: row_link_def lm' split: option.splits)
  qed (simp add: lm' link)
  have them: "GetLockRequestIter t' (queue_at rid' lm') = GetLockRequestIter t' (queue_at rid' lm)" if "t' \<noteq> t" for t' rid'
    using others [OF that] by (simp add: lm')
  show ?thesis
    using mine them q I t id by (auto simp: lock_inv_def lm')
qed

lemma lock_inv_cong:
  "(\<And>rid. queue_at rid lm' = queue_at rid lm) \<Longrightarrow> lock_inv lm' txns ca = lock_inv lm txns ca"
  by (simp add: lock_inv_def)

lemma row_link_cong:
  "shared_lock_set txn' = shared_lock_set txn \<Longrightarrow> exclusive_lock_set txn' = exclusive_lock_set txn \<Longrightarrow>
   row_link txn' rid rq c = row_link txn rid rq c"
  by (cases rq) (simp_all add: row_link_def)

lemma lock_inv_abort_all:
  assumes "lock_inv lm txns ca"
  shows "lock_inv lm (abort_all V txns) ca"
  using assms row_link_cong [of "SetState kAborted txn" txn for txn]
  by (auto simp: lock_inv_def abort_all_def split: if_splits)

text \<open>The same when only the state of the transaction changes, or its call moves on but does not wait.\<close>

definition waiting :: "call_at option \<Rightarrow> bool" where
  "waiting c \<longleftrightarrow> (\<exists>w rid. c = Some (AtWait w rid))"

lemma waiting_simps [simp]:
  "\<not> waiting None" "\<not> waiting (Some (AtPrepare oper rid))" "\<not> waiting (Some (AtLatch oper rid))" "waiting (Some (AtWait w rid))"
  by (simp_all add: waiting_def)

lemma lock_inv_txn:
  assumes "lock_inv lm txns ca" "txns t = Some txn" "txn_id txn' = txn_id txn"
    and "shared_lock_set txn' = shared_lock_set txn" "exclusive_lock_set txn' = exclusive_lock_set txn"
    and "c' = ca t \<or> \<not> waiting (ca t) \<and> \<not> waiting c'"
  shows "lock_inv lm (txns(t \<mapsto> txn')) (ca(t := c'))"
proof -
  have "row_link txn' rid (GetLockRequestIter t (queue_at rid lm)) c'" for rid
    using lock_invD(3) [OF assms(1,2), of rid] assms(6) row_link_cong [OF assms(4,5)]
    by (auto simp: row_link_def waiting_def split: option.splits)
  then show ?thesis using assms(1-3) by (auto simp: lock_inv_def)
qed

section \<open>Every part of a lock call keeps the invariant\<close>

lemma next_at_simps [simp]:
  "next_at rid (Wait w) = Some (AtWait w rid)" "next_at rid (Returns b) = None" "next_at rid AssertFails = None"
  "next_at rid (TxnAbortException a) = None" "next_at rid CallsUpgrade = Some (AtPrepare CallUpgrade rid)"
  by (simp_all add: next_at_def)

text \<open>A granted request whose mode is another one: an upgrade that waits, or one that was aborted.\<close>

definition stalled :: "LockRequest \<Rightarrow> bool" where
  "stalled r \<longleftrightarrow> granted r \<noteq> kNone \<and> lock_mode r \<noteq> granted r"

text \<open>What a part of a call leaves behind: the invariant, an assertion that does not fail, the rows the transaction
  holds (at most the requested one is new), the requests of all others; an exception aborts the transaction and
  gives it no row; and a new stalled request is one of a waiting upgrade or of an aborted transaction.\<close>

definition call_ok :: "LockManager \<Rightarrow> txn_map \<Rightarrow> at_map \<Rightarrow> txn_id_t \<Rightarrow> Txn \<Rightarrow> RowId \<Rightarrow> lock_step_result \<Rightarrow> bool" where
  "call_ok lm txns ca t txn rid res \<longleftrightarrow> (case res of (lm', txn', out) \<Rightarrow>
     lock_inv lm' (txns(t \<mapsto> txn')) (ca(t := next_at rid out)) \<and> out \<noteq> AssertFails \<and>
     held txn \<subseteq> held txn' \<and> held txn' \<subseteq> insert rid (held txn) \<and>
     (\<forall>rid' t'. rid' \<noteq> rid \<or> t' \<noteq> t \<longrightarrow>
        GetLockRequestIter t' (queue_at rid' lm') = GetLockRequestIter t' (queue_at rid' lm)) \<and>
     (case out of TxnAbortException a \<Rightarrow> held txn' = held txn \<and> txn_state txn' = kAborted | _ \<Rightarrow> txn_state txn' = txn_state txn) \<and>
     (\<forall>r. GetLockRequestIter t (queue_at rid lm') = Some r \<and> stalled r \<longrightarrow>
        out = Wait WUpgrade \<or> txn_state txn' = kAborted \<or> \<not> waiting (ca t) \<and> GetLockRequestIter t (queue_at rid lm) = Some r))"

text \<open>The loops: the caller has an ungranted request on the row (or, to upgrade, a shared lock). They
  either grant the lock or leave everything as it was.\<close>

lemma shared_loop_ok:
  assumes inv: "lock_inv lm txns ca" and t: "txns t = Some txn" and c: "\<And>w rid'. ca t = Some (AtWait w rid') \<Longrightarrow> rid' = rid"
    and lm': "\<And>rid'. queue_at rid' lm' = (if rid' = rid then q else queue_at rid' lm)" and q: "queue_ok q"
    and others: "\<And>t'. t' \<noteq> t \<Longrightarrow> GetLockRequestIter t' q = GetLockRequestIter t' (queue_at rid lm)"
    and r: "GetLockRequestIter t q = Some r" "granted r = kNone" "lock_mode r = kShared" "rid \<notin> held txn"
  shows "call_ok lm txns ca t txn rid (shared_loop txn rid lm')"
proof -
  have id: "txn_id txn = t" using lock_invD(2) [OF inv t] .
  show ?thesis
  proof (cases "is_writing q \<or> is_upgrading q")
    case True
    have "lock_inv lm' (txns(t \<mapsto> txn)) (ca(t := Some (AtWait WShared rid)))"
      by (rule lock_inv_update [OF inv t q lm' others]) (use r c in \<open>auto simp: row_link_def held_def\<close>)
    with True lm' others r(1,2) show ?thesis by (auto simp: call_ok_def shared_loop_def stalled_def)
  next
    case False
    let ?q = "(at_iter t (\<lambda>r. r\<lparr>granted := kShared\<rparr>) q)\<lparr>sharing_cnt := sharing_cnt q + 1\<rparr>"
    have ok: "queue_ok ?q" using False by (intro grant_shared_ok [OF q r(1,2)]) simp
    have "lock_inv (put_queue rid ?q lm') (txns(t \<mapsto> shared_emplace rid txn)) (ca(t := None))"
      by (rule lock_inv_update [OF inv t ok, where rid = rid])
        (use r c lm' others in \<open>auto simp: row_link_def held_def find_at_iter\<close>)
    moreover have "sharing_cnt (at_iter t (\<lambda>r. r\<lparr>granted := kShared\<rparr>) q) = sharing_cnt q" by (simp add: at_iter_def)
    ultimately show ?thesis
      using False lm' id others r(1,3)
      by (auto simp: call_ok_def shared_loop_def Let_def held_def find_at_iter stalled_def)
  qed
qed

lemma exclusive_loop_ok:
  assumes inv: "lock_inv lm txns ca" and t: "txns t = Some txn" and c: "\<And>w rid'. ca t = Some (AtWait w rid') \<Longrightarrow> rid' = rid"
    and lm': "\<And>rid'. queue_at rid' lm' = (if rid' = rid then q else queue_at rid' lm)" and q: "queue_ok q"
    and others: "\<And>t'. t' \<noteq> t \<Longrightarrow> GetLockRequestIter t' q = GetLockRequestIter t' (queue_at rid lm)"
    and r: "GetLockRequestIter t q = Some r" "granted r = kNone" "lock_mode r = kExclusive" "rid \<notin> held txn"
  shows "call_ok lm txns ca t txn rid (exclusive_loop txn rid lm')"
proof -
  have id: "txn_id txn = t" using lock_invD(2) [OF inv t] .
  show ?thesis
  proof (cases "is_writing q \<or> sharing_cnt q > 0")
    case True
    have "lock_inv lm' (txns(t \<mapsto> txn)) (ca(t := Some (AtWait WExclusive rid)))"
      by (rule lock_inv_update [OF inv t q lm' others]) (use r c in \<open>auto simp: row_link_def held_def\<close>)
    with True lm' others r(1,2) show ?thesis by (auto simp: call_ok_def exclusive_loop_def stalled_def)
  next
    case False
    let ?q = "(at_iter t (\<lambda>r. r\<lparr>granted := kExclusive\<rparr>) q)\<lparr>is_writing := True\<rparr>"
    have ok: "queue_ok ?q" using False by (intro grant_exclusive_ok [OF q r(1,2)]) simp_all
    have "lock_inv (put_queue rid ?q lm') (txns(t \<mapsto> exclusive_emplace rid txn)) (ca(t := None))"
      by (rule lock_inv_update [OF inv t ok, where rid = rid])
        (use r c lm' others in \<open>auto simp: row_link_def held_def find_at_iter\<close>)
    then show ?thesis
      using False lm' id others r(1,3)
      by (auto simp: call_ok_def exclusive_loop_def Let_def held_def find_at_iter stalled_def)
  qed
qed

lemma upgrade_loop_ok:
  assumes inv: "lock_inv lm txns ca" and t: "txns t = Some txn" and c: "\<And>w rid'. ca t = Some (AtWait w rid') \<Longrightarrow> rid' = rid"
    and lm': "\<And>rid'. queue_at rid' lm' = (if rid' = rid then q else queue_at rid' lm)" and q: "queue_ok q"
    and others: "\<And>t'. t' \<noteq> t \<Longrightarrow> GetLockRequestIter t' q = GetLockRequestIter t' (queue_at rid lm)"
    and r: "GetLockRequestIter t q = Some r" "granted r = kShared" "lock_mode r = kExclusive" "rid \<in> set (shared_lock_set txn)"
      "rid \<notin> set (exclusive_lock_set txn)"
  shows "call_ok lm txns ca t txn rid (upgrade_loop txn rid lm')"
proof -
  have id: "txn_id txn = t" using lock_invD(2) [OF inv t] .
  show ?thesis
  proof (cases "is_writing q \<or> sharing_cnt q > 1")
    case True
    have "lock_inv lm' (txns(t \<mapsto> txn)) (ca(t := Some (AtWait WUpgrade rid)))"
      by (rule lock_inv_update [OF inv t q lm' others]) (use r c in \<open>auto simp: row_link_def\<close>)
    with True lm' others show ?thesis by (auto simp: call_ok_def upgrade_loop_def)
  next
    case False
    let ?q = "at_iter t (\<lambda>r. r\<lparr>granted := kExclusive\<rparr>)
      (q\<lparr>sharing_cnt := sharing_cnt q - 1, is_writing := True, is_upgrading := False\<rparr>)"
    have ok: "queue_ok ?q" using False by (intro grant_upgrade_ok [OF q r(1,2)]) simp_all
    have "lock_inv (put_queue rid ?q lm') (txns(t \<mapsto> exclusive_emplace rid (shared_erase rid txn))) (ca(t := None))"
      by (rule lock_inv_update [OF inv t ok, where rid = rid])
        (use r c lm' others in \<open>auto simp: row_link_def find_at_iter\<close>)
    then show ?thesis
      using False lm' id others r
      by (auto simp: call_ok_def upgrade_loop_def Let_def held_def find_at_iter stalled_def)
  qed
qed

text \<open>The parts of a call that change nothing but the state of the transaction.\<close>

lemma call_ok_same:
  assumes "lock_inv lm txns ca" "txns t = Some txn" "\<not> waiting (ca t)" "\<not> waiting (next_at rid out)" "out \<noteq> AssertFails"
    and "case out of TxnAbortException a \<Rightarrow> txn' = SetState kAborted txn | _ \<Rightarrow> txn' = txn"
  shows "call_ok lm txns ca t txn rid (lm, txn', out)"
proof -
  have "txn' = txn \<or> txn' = SetState kAborted txn" using assms(6) by (auto split: lock_outcome.splits)
  then have "lock_inv lm (txns(t \<mapsto> txn')) (ca(t := next_at rid out))" using assms(3,4) by (intro lock_inv_txn [OF assms(1,2)]) auto
  then show ?thesis using assms(3,5,6) by (auto simp: call_ok_def held_def split: lock_outcome.splits)
qed

text \<open>A transaction whose call does not wait has its requests granted, exactly those of the rows it holds.\<close>

lemma running_row:
  assumes "lock_inv lm txns ca" "txns t = Some txn" "\<not> waiting (ca t)"
  shows "rid \<notin> held txn \<longleftrightarrow> GetLockRequestIter t (queue_at rid lm) = None"
    "rid \<in> set (shared_lock_set txn) \<longleftrightarrow> (\<exists>r. GetLockRequestIter t (queue_at rid lm) = Some r \<and> granted r = kShared)"
    "rid \<in> set (exclusive_lock_set txn) \<longleftrightarrow> (\<exists>r. GetLockRequestIter t (queue_at rid lm) = Some r \<and> granted r = kExclusive)"
    "GetLockRequestIter t (queue_at rid lm) = Some r \<Longrightarrow> granted r \<noteq> kNone"
  using lock_invD(3) [OF assms(1,2), of rid] assms(3)
  by (auto simp: row_link_def held_def split: option.splits) (metis LockMode.exhaust)+

lemma emplaced:
  assumes "lock_inv lm txns ca" "txns t = Some txn" "\<not> waiting (ca t)" "rid \<notin> held txn"
  obtains q where "EmplaceLockRequest t m (queue_at rid lm) = Some q" "queue_ok q"
    "\<And>t'. t' \<noteq> t \<Longrightarrow> GetLockRequestIter t' q = GetLockRequestIter t' (queue_at rid lm)"
    "GetLockRequestIter t q = Some (mk_LockRequest t m)"
proof -
  note q0 = lock_invD(1) [OF assms(1), of rid]
  have "EmplaceLockRequest t m (queue_at rid lm) \<noteq> None"
    using Emplace_None_iff [OF q0] running_row(1) [OF assms(1-3)] assms(4) by simp
  then obtain q where e: "EmplaceLockRequest t m (queue_at rid lm) = Some q" by blast
  show thesis by (rule that [OF e]) (use Emplace_ok [OF q0 e] in simp_all)
qed

lemma LockShared_latched_ok:
  assumes inv: "lock_inv lm txns ca" "txns t = Some txn" "\<not> waiting (ca t)"
  shows "call_ok lm txns ca t txn rid (LockShared_latched txn rid lm)"
proof (cases "rid \<in> held txn")
  case True
  then show ?thesis using call_ok_same [OF inv] by (auto simp: LockShared_latched_def held_def)
next
  case False
  then obtain q where q: "EmplaceLockRequest t kShared (queue_at rid lm) = Some q" "queue_ok q"
    "\<And>t'. t' \<noteq> t \<Longrightarrow> GetLockRequestIter t' q = GetLockRequestIter t' (queue_at rid lm)"
    "GetLockRequestIter t q = Some (mk_LockRequest t kShared)" using emplaced [OF inv] by blast
  have "call_ok lm txns ca t txn rid (shared_loop txn rid (put_queue rid q lm))"
    by (rule shared_loop_ok [OF inv(1,2) _ _ q(2,3,4) _ _ False]) (use inv in \<open>auto simp: mk_LockRequest_def\<close>)
  with False q(1) lock_invD(2) [OF inv(1,2)] show ?thesis by (simp add: LockShared_latched_def held_def)
qed

lemma LockExclusive_latched_ok:
  assumes inv: "lock_inv lm txns ca" "txns t = Some txn" "\<not> waiting (ca t)"
  shows "call_ok lm txns ca t txn rid (LockExclusive_latched txn rid lm)"
proof (cases "rid \<in> held txn")
  case True
  then show ?thesis using call_ok_same [OF inv] by (auto simp: LockExclusive_latched_def held_def)
next
  case False
  then obtain q where q: "EmplaceLockRequest t kExclusive (queue_at rid lm) = Some q" "queue_ok q"
    "\<And>t'. t' \<noteq> t \<Longrightarrow> GetLockRequestIter t' q = GetLockRequestIter t' (queue_at rid lm)"
    "GetLockRequestIter t q = Some (mk_LockRequest t kExclusive)" using emplaced [OF inv] by blast
  have "call_ok lm txns ca t txn rid (exclusive_loop txn rid (put_queue rid q lm))"
    by (rule exclusive_loop_ok [OF inv(1,2) _ _ q(2,3,4) _ _ False]) (use inv in \<open>auto simp: mk_LockRequest_def\<close>)
  with False q(1) lock_invD(2) [OF inv(1,2)] show ?thesis by (simp add: LockExclusive_latched_def held_def)
qed

lemma LockUpgrade_latched_ok:
  assumes inv: "lock_inv lm txns ca" "txns t = Some txn" "\<not> waiting (ca t)"
  shows "call_ok lm txns ca t txn rid (LockUpgrade_latched txn rid lm)"
proof -
  note R = running_row [OF inv, of rid] and q0 = lock_invD(1) [OF inv(1), of rid]
  have id: "txn_id txn = t" by (rule lock_invD(2) [OF inv(1,2)])
  consider "rid \<in> set (exclusive_lock_set txn)" | "rid \<notin> set (exclusive_lock_set txn)" "rid \<notin> set (shared_lock_set txn)"
    | "rid \<notin> set (exclusive_lock_set txn)" "rid \<in> set (shared_lock_set txn)" "is_upgrading (queue_at rid lm)"
    | r where "rid \<notin> set (exclusive_lock_set txn)" "rid \<in> set (shared_lock_set txn)" "\<not> is_upgrading (queue_at rid lm)"
        "GetLockRequestIter t (queue_at rid lm) = Some r" "granted r = kShared" using R(2) by blast
  then show ?thesis
  proof cases
    case (4 r)
    let ?q = "at_iter t (\<lambda>r. r\<lparr>lock_mode := kExclusive\<rparr>) ((queue_at rid lm)\<lparr>is_upgrading := True\<rparr>)"
    have ok: "queue_ok ?q" by (rule set_mode_ok [where r = r]) (use q0 4 in simp_all)
    have "call_ok lm txns ca t txn rid (upgrade_loop txn rid (put_queue rid ?q lm))"
      by (rule upgrade_loop_ok [OF inv(1,2) _ _ ok, where r = "r\<lparr>lock_mode := kExclusive\<rparr>"])
        (use inv 4 in \<open>auto simp: find_at_iter\<close>)
    with 4 id show ?thesis by (simp add: LockUpgrade_latched_def Let_def)
  qed (use call_ok_same [OF inv] in \<open>simp_all add: LockUpgrade_latched_def Let_def\<close>)
qed

lemma lock_latched_ok:
  assumes "lock_inv lm txns ca" "txns t = Some txn" "\<not> waiting (ca t)"
  shows "call_ok lm txns ca t txn rid (lock_latched oper txn rid lm)"
  using LockShared_latched_ok [OF assms] LockExclusive_latched_ok [OF assms] LockUpgrade_latched_ok [OF assms] by (cases oper) simp_all

text \<open>Waking up: an aborted transaction throws and withdraws its request, one whose request is gone returns false, the
  others run the loop again.\<close>

lemma wake_abort_ok:
  assumes inv: "lock_inv lm txns ca" "txns t = Some txn" "ca t = Some (AtWait w rid)" and st: "txn_state txn = kAborted"
  shows "\<exists>lm'. lock_wake w txn rid lm = (lm', txn, TxnAbortException kDeadlock)"
    "call_ok lm txns ca t txn rid (lock_wake w txn rid lm)"
proof -
  let ?q = "queue_at rid lm" and ?rq = "GetLockRequestIter t (queue_at rid lm)"
  note q0 = lock_invD(1) [OF inv(1), of rid] and id = lock_invD(2) [OF inv(1,2)]
  have link: "row_link txn rid ?rq (Some (AtWait w rid))" using lock_invD(3) [OF inv(1,2), of rid] inv(3) by simp
  obtain q1 where c: "CheckAbort txn ?q = (q1, Some kDeadlock)" using st by (simp add: CheckAbort_def)
  then show "\<exists>lm'. lock_wake w txn rid lm = (lm', txn, TxnAbortException kDeadlock)" by (simp add: lock_wake_def)
  have q': "queue_ok q1" "GetLockRequestIter t q1 = (if w = WUpgrade then ?rq else None)"
    "\<And>t'. t' \<noteq> t \<Longrightarrow> GetLockRequestIter t' q1 = GetLockRequestIter t' ?q"
    using st link q0 id c Erase_waiting_ok [OF q0, of t]
    by (cases w; auto simp: CheckAbort_def Erase_req row_link_def split: if_splits option.splits)+
  have "row_link txn rid (GetLockRequestIter t q1) None"
    using link q'(2) by (cases w) (auto simp: row_link_def split: option.splits)
  then have "lock_inv (put_queue rid q1 lm) (txns(t \<mapsto> txn)) (ca(t := None))"
    by (intro lock_inv_update [OF inv(1,2) q'(1) _ q'(3)]) (use inv(3) in auto)
  then show "call_ok lm txns ca t txn rid (lock_wake w txn rid lm)"
    using st c q'(3) by (auto simp: call_ok_def lock_wake_def)
qed

lemma lock_wake_ok:
  assumes inv: "lock_inv lm txns ca" "txns t = Some txn" "ca t = Some (AtWait w rid)"
  shows "call_ok lm txns ca t txn rid (lock_wake w txn rid lm)"
proof (cases "txn_state txn = kAborted")
  case True
  then show ?thesis by (rule wake_abort_ok(2) [OF inv])
next
  case False
  let ?q = "queue_at rid lm"
  note q0 = lock_invD(1) [OF inv(1), of rid] and id = lock_invD(2) [OF inv(1,2)]
  have link: "row_link txn rid (GetLockRequestIter t ?q) (Some (AtWait w rid))" using lock_invD(3) [OF inv(1,2), of rid] inv(3) by simp
  have c: "rid' = rid" if "ca t = Some (AtWait w' rid')" for w' rid' using that inv(3) by simp
  have lm': "queue_at rid' lm = (if rid' = rid then ?q else queue_at rid' lm)" for rid' by simp
  have key: "t \<in> set (req_list_iter_map ?q) \<longleftrightarrow> GetLockRequestIter t ?q \<noteq> None"
    using GetLockRequestIter_iff(2) [OF q0, of t] q0 by (auto simp: queue_ok_def)
  show ?thesis
  proof (cases "GetLockRequestIter t ?q")
    case None
    have "lock_inv lm (txns(t \<mapsto> txn)) (ca(t := None))"
      by (rule lock_inv_update [OF inv(1,2) q0 lm' refl]) (use None link inv(3) in \<open>auto simp: row_link_def\<close>)
    with None False key id show ?thesis by (auto simp: lock_wake_def CheckAbort_def call_ok_def)
  next
    case (Some r)
    have "call_ok lm txns ca t txn rid (lock_loop w txn rid lm)"
    proof (cases w)
      case WShared
      then show ?thesis using shared_loop_ok [OF inv(1,2) c lm' q0 refl Some] link Some by (simp add: row_link_def held_def)
    next
      case WExclusive
      then show ?thesis using exclusive_loop_ok [OF inv(1,2) c lm' q0 refl Some] link Some by (simp add: row_link_def held_def)
    next
      case WUpgrade
      then show ?thesis using upgrade_loop_ok [OF inv(1,2) c lm' q0 refl Some] link Some by (simp add: row_link_def)
    qed
    then show ?thesis using False key id Some by (simp add: lock_wake_def CheckAbort_def)
  qed
qed

text \<open>\<^verbatim>\<open>Unlock\<close>, by any thread and at any time: the request of the transaction on the row disappears, waiting or granted.\<close>

lemma Unlock_cases:
  assumes inv: "lock_inv lm txns ca" "txns t = Some txn" and u: "Unlock txn rid lm = (lm', txn', ok)"
  obtains "GetLockRequestIter t (queue_at rid lm) = None" "lm' = lm" "txn' = txn" "\<not> ok"
  | q' where "GetLockRequestIter t (queue_at rid lm) \<noteq> None" "queue_ok q'" "lm' = put_queue rid q' lm" "ok" "txn_id txn' = txn_id txn"
      "\<And>t'. GetLockRequestIter t' q' = (if t' = t then None else GetLockRequestIter t' (queue_at rid lm))"
      "set (shared_lock_set txn') = set (shared_lock_set txn) - {rid}"
      "set (exclusive_lock_set txn') = set (exclusive_lock_set txn) - {rid}"
      "txn_state txn' = (if txn_state txn = kGrowing then kShrinking else txn_state txn)"
proof (cases "GetLockRequestIter t (queue_at rid lm)")
  case None
  then have "Unlock txn rid lm = (lm, txn, False)"
    using lock_invD(2) [OF inv] by (auto simp: Unlock_def queue_at_def split: option.splits)
  then show ?thesis using that(1) None u by simp
next
  case (Some r)
  note q0 = lock_invD(1) [OF inv(1), of rid] and id = lock_invD(2) [OF inv]
  have L: "rid \<in> set (shared_lock_set txn) \<longleftrightarrow> granted r = kShared" "rid \<in> set (exclusive_lock_set txn) \<longleftrightarrow> granted r = kExclusive"
    using lock_invD(3) [OF inv, of rid] Some by (simp_all add: row_link_def)
  obtain q where mq: "map_of (lock_table lm) rid = Some q" "queue_at rid lm = q"
    using Some by (auto simp: queue_at_def empty_queue_def GetLockRequestIter_def split: option.splits)
  let ?set = "\<lambda>x. if txn_state txn = kGrowing then SetState kShrinking x else x"
  let ?up = "\<lambda>q. if lock_mode r = kExclusive \<and> granted r = kShared then q\<lparr>is_upgrading := False\<rparr> else q"
  let ?q1 = "if granted r = kShared then q\<lparr>sharing_cnt := sharing_cnt q - 1\<rparr> else if granted r = kExclusive then q\<lparr>is_writing := False\<rparr> else q"
  let ?x = "if granted r = kShared then shared_erase rid txn else if granted r = kExclusive then exclusive_erase rid txn else txn"
  let ?q' = "fst (EraseLockRequest t (?up ?q1))"
  have code: "lm' = put_queue rid ?q' lm" "txn' = ?set ?x" "ok"
    using u mq Some id by (auto simp: Unlock_def Let_def split: if_splits)
  have up: "queue_ok (fst (EraseLockRequest t (?up q2))) = queue_ok (fst (EraseLockRequest t q2))"
    "GetLockRequestIter t' (fst (EraseLockRequest t (?up q2))) = GetLockRequestIter t' (fst (EraseLockRequest t q2))" for q2 t'
    by (simp_all add: Erase_flags(3))
  have "queue_ok ?q'"
    unfolding up using Erase_shared_ok [OF q0 Some] Erase_exclusive_ok [OF q0 Some] Erase_waiting_ok [OF q0 Some]
    by (cases "granted r") (simp_all add: mq(2))
  moreover have "GetLockRequestIter t' ?q' = (if t' = t then None else GetLockRequestIter t' (queue_at rid lm))" for t'
    unfolding up by (simp add: Erase_req mq(2))
  ultimately show ?thesis using that(2) Some code L by (simp add: mq(2))
qed

lemma Unlock_ok:
  assumes inv: "lock_inv lm txns ca" "txns t = Some txn" and u: "Unlock txn rid lm = (lm', txn', ok)"
  shows "lock_inv lm' (txns(t \<mapsto> txn')) ca" "held txn' = held txn - {rid}"
    "txn_state txn' = (if ok \<and> txn_state txn = kGrowing then kShrinking else txn_state txn)"
    "ok \<longleftrightarrow> GetLockRequestIter t (queue_at rid lm) \<noteq> None"
    "GetLockRequestIter t' (queue_at rid' lm') = (if t' = t \<and> rid' = rid then None else GetLockRequestIter t' (queue_at rid' lm))"
proof -
  have "lock_inv lm' (txns(t \<mapsto> txn')) ca \<and> held txn' = held txn - {rid} \<and>
    txn_state txn' = (if ok \<and> txn_state txn = kGrowing then kShrinking else txn_state txn) \<and>
    (ok \<longleftrightarrow> GetLockRequestIter t (queue_at rid lm) \<noteq> None) \<and>
    GetLockRequestIter t' (queue_at rid' lm') = (if t' = t \<and> rid' = rid then None else GetLockRequestIter t' (queue_at rid' lm))"
  proof (rule Unlock_cases [OF inv u])
    assume 1: "GetLockRequestIter t (queue_at rid lm) = None" "lm' = lm" "txn' = txn" "\<not> ok"
    have "txns(t \<mapsto> txn) = txns" using inv(2) by auto
    with 1 inv(1) lock_invD(3) [OF inv, of rid] show ?thesis by (auto simp: row_link_def held_def)
  next
    fix q' assume 2: "GetLockRequestIter t (queue_at rid lm) \<noteq> None" "queue_ok q'" "lm' = put_queue rid q' lm" "ok" "txn_id txn' = txn_id txn"
      "\<And>t'. GetLockRequestIter t' q' = (if t' = t then None else GetLockRequestIter t' (queue_at rid lm))"
      "set (shared_lock_set txn') = set (shared_lock_set txn) - {rid}"
      "set (exclusive_lock_set txn') = set (exclusive_lock_set txn) - {rid}"
      "txn_state txn' = (if txn_state txn = kGrowing then kShrinking else txn_state txn)"
    have "lock_inv lm' (txns(t \<mapsto> txn')) (ca(t := ca t))"
      by (rule lock_inv_update [OF inv 2(2), where rid = rid]) (use 2 in \<open>auto simp: row_link_def\<close>)
    then show ?thesis using 2 by (auto simp: held_def)
  qed
  then show "lock_inv lm' (txns(t \<mapsto> txn')) ca" "held txn' = held txn - {rid}"
    "txn_state txn' = (if ok \<and> txn_state txn = kGrowing then kShrinking else txn_state txn)"
    "ok \<longleftrightarrow> GetLockRequestIter t (queue_at rid lm) \<noteq> None"
    "GetLockRequestIter t' (queue_at rid' lm') = (if t' = t \<and> rid' = rid then None else GetLockRequestIter t' (queue_at rid' lm))" by simp_all
qed

lemma lock_prepare_result:
  assumes "lock_prepare oper txn = (txn', a)"
  shows "txn' = txn \<or> txn' = SetState kAborted txn" "a = None \<longleftrightarrow> txn' = txn \<and> txn_state txn \<notin> {kShrinking, kAborted} \<and>
      \<not> (oper = CallShared \<and> iso_level txn = kReadUncommitted)"
    "a \<noteq> None \<longrightarrow> txn_state txn' = kAborted"
    "case a of None \<Rightarrow> True | Some kLockSharedOnReadUncommitted \<Rightarrow> iso_level txn = kReadUncommitted
       | Some kDeadlock \<Rightarrow> txn_state txn = kAborted | Some kLockOnShrinking \<Rightarrow> txn_state txn = kShrinking | _ \<Rightarrow> False"
  using assms by (cases oper; auto simp: LockShared_prepare_def LockPrepare_def SetState_def split: if_splits)+

section \<open>The invariant of the system\<close>

definition sys_inv :: "lock_sys \<Rightarrow> bool" where
  [inv_defs]: "sys_inv s \<longleftrightarrow> lock_inv (sys_lm s) (sys_txns s) (sys_at s) \<and>
     (\<forall>p \<in> set (sys_releases s). sys_txns s (fst p) \<noteq> None)"

lemma sys_put_simps [simp]:
  "sys_lm (sys_put t (lm, txn) s) = lm" "sys_txns (sys_put t (lm, txn) s) = (sys_txns s)(t \<mapsto> txn)"
  "sys_at (sys_put t (lm, txn) s) = sys_at s" "sys_releases (sys_put t (lm, txn) s) = sys_releases s"
  by (simp_all add: sys_put_def sys_txns_def)

lemma sys_after_simps [simp]:
  "sys_lm (sys_after t c (lm, txn) s) = lm" "sys_txns (sys_after t c (lm, txn) s) = (sys_txns s)(t \<mapsto> txn)"
  "sys_at (sys_after t c (lm, txn) s) = (sys_at s)(t := c)" "sys_releases (sys_after t c (lm, txn) s) = sys_releases s"
  by (simp_all add: sys_after_def sys_txns_def [of "_\<lparr>sys_at := _\<rparr>"]) (simp_all add: sys_put_def sys_txns_def)

lemma sys_upd_simps [simp]:
  "sys_txns (s\<lparr>sys_releases := rs\<rparr>) = sys_txns s" "sys_txns (s\<lparr>sys_lm := lm\<rparr>) = sys_txns s"
  "sys_txns (s\<lparr>sys_tm := tm\<rparr>) = txn_map tm"
  by (simp_all add: sys_txns_def)

lemma Begin_effect:
  assumes "Begin arg lvl tm = (tm', txn)" "arg = None \<or> arg = Some (mk_Txn u lvl')"
  shows "txn_map tm' = (txn_map tm)(txn_id txn \<mapsto> txn)" "txn = mk_Txn (txn_id txn) (iso_level txn)"
  using assms by (auto simp: Begin_def Let_def)

lemma sys_inv_call:
  assumes "sys_inv s" "sys_txns s t = Some txn" "call_ok (sys_lm s) (sys_txns s) (sys_at s) t txn rid (lm', txn', out)"
  shows "sys_inv (sys_after t (next_at rid out) (lm', txn') s)"
  using assms by (auto simp: sys_inv_def call_ok_def)

lemma lock_inv_begin:
  assumes "lock_inv lm txns ca" "txns t = None"
  shows "lock_inv lm (txns(t \<mapsto> mk_Txn t lvl)) ca"
  using assms by (auto simp: lock_inv_def row_link_def)

lemma lock_step_inv:
  assumes "lock_step s e s'" "sys_inv s"
  shows "sys_inv s'"
  using assms
proof (cases rule: lock_step.cases)
  case (step_begin arg u lvl' lvl tm' txn)
  note B = Begin_effect [OF step_begin(4,3)]
  have "lock_inv (sys_lm s) ((sys_txns s)(txn_id txn \<mapsto> txn)) (sys_at s)"
    using lock_inv_begin [of "sys_lm s" "sys_txns s" "sys_at s" "txn_id txn" "iso_level txn"] step_begin(5) assms(2) B(2)
    by (simp add: sys_inv_def)
  then show ?thesis using assms(2) B(1) by (simp add: step_begin sys_inv_def sys_txns_def [of s])
next
  case (step_call t txn oper rid)
  have "lock_inv (sys_lm s) ((sys_txns s)(t \<mapsto> txn)) ((sys_at s)(t := Some (AtPrepare oper rid)))"
    by (rule lock_inv_txn) (use step_call assms(2) in \<open>auto simp: sys_inv_def\<close>)
  then show ?thesis using assms(2) by (auto simp: step_call sys_inv_def)
next
  case (step_prepare t txn oper rid txn' a)
  have "lock_inv (sys_lm s) ((sys_txns s)(t \<mapsto> txn')) ((sys_at s)(t := if a = None then Some (AtLatch oper rid) else None))"
    by (rule lock_inv_txn [where txn = txn]) (use step_prepare lock_prepare_result(1) [OF step_prepare(5)] assms(2) in \<open>auto simp: sys_inv_def\<close>)
  then show ?thesis using assms(2) by (auto simp: step_prepare sys_inv_def)
next
  case (step_latch t txn oper rid lm' txn' out)
  have "call_ok (sys_lm s) (sys_txns s) (sys_at s) t txn rid (lm', txn', out)"
    using lock_latched_ok [of "sys_lm s" "sys_txns s" "sys_at s" t txn rid oper] step_latch assms(2) by (simp add: sys_inv_def)
  then show ?thesis using sys_inv_call assms(2) step_latch by simp
next
  case (step_wake t txn w rid lm' txn' out)
  have "call_ok (sys_lm s) (sys_txns s) (sys_at s) t txn rid (lm', txn', out)"
    using lock_wake_ok [of "sys_lm s" "sys_txns s" "sys_at s" t txn w rid] step_wake assms(2) by (simp add: sys_inv_def)
  then show ?thesis using sys_inv_call assms(2) step_wake by simp
next
  case (step_unlock t txn rid lm' txn' ok)
  then show ?thesis
    using Unlock_ok(1) [of "sys_lm s" "sys_txns s" "sys_at s" t txn rid lm' txn' ok] assms(2) by (auto simp: sys_inv_def)
next
  case (step_end t txn st)
  have "lock_inv (sys_lm s) ((sys_txns s)(t \<mapsto> SetState st txn)) ((sys_at s)(t := sys_at s t))"
    by (rule lock_inv_txn) (use step_end assms(2) in \<open>auto simp: sys_inv_def\<close>)
  then show ?thesis using assms(2) by (auto simp: step_end sys_inv_def)
next
  case (step_release t txn rs rid rids rs' lm' txn' ok)
  then show ?thesis
    using Unlock_ok(1) [of "sys_lm s" "sys_txns s" "sys_at s" t txn rid lm' txn' ok] assms(2) by (auto simp: sys_inv_def)
next
  case (step_detect lm' txns')
  obtain V where V: "txns' = abort_all V (sys_txns s)" "\<And>rid. queue_at rid lm' = queue_at rid (sys_lm s)"
    using cycle_detection_effect [of "sys_lm s" "sys_txns s"] step_detect(3) by auto
  have "lock_inv lm' txns' (sys_at s)"
    unfolding V(1) using assms(2) lock_inv_abort_all by (simp add: lock_inv_cong [OF V(2)] sys_inv_def)
  moreover have "txns' t = None \<longleftrightarrow> sys_txns s t = None" for t by (simp add: V(1) abort_all_def)
  ultimately show ?thesis using assms(2) by (simp add: step_detect sys_inv_def)
qed (auto simp: sys_inv_def)

lemma reachable_inv: "reachable s \<Longrightarrow> sys_inv s"
proof (induction rule: reachable.induct)
  case reach_init
  have "queue_at rid (sys_lm sys_init) = empty_queue" for rid
    by (simp add: sys_init_def LockManager_init_def queue_at_def)
  moreover have "GetLockRequestIter t empty_queue = None" for t
    by (simp add: GetLockRequestIter_def empty_queue_def)
  ultimately show ?case
    by (simp add: sys_inv_def lock_inv_def) (simp add: sys_init_def sys_txns_def TxnManager_init_def)
next
  case (reach_step s e s')
  then show ?case using lock_step_inv by blast
qed

lemmas reachable_lock_inv = reachable_inv [unfolded sys_inv_def, THEN conjunct1]

section \<open>Transaction ids\<close>

text \<open>The ids of the first 2^32 transactions that \<^verbatim>\<open>Begin\<close> creates are different; the next one gets the id of the first, and
  \<^verbatim>\<open>txn_map_\<close>, from which nothing is ever removed, then forgets the first.\<close>

theorem txn_ids_wrap:
  "next_txn_id (((\<lambda>tm. fst (Begin None lvl tm)) ^^ n) TxnManager_init) = signed_take_bit 31 (int n) \<and>
   (m < 2 ^ 32 \<and> n < 2 ^ 32 \<longrightarrow> signed_take_bit 31 (int m) = signed_take_bit 31 (int n) \<longrightarrow> m = n) \<and>
   signed_take_bit 31 (int (2 ^ 32)) = next_txn_id TxnManager_init"
proof (intro conjI impI)
  show "next_txn_id (((\<lambda>tm. fst (Begin None lvl tm)) ^^ n) TxnManager_init) = signed_take_bit 31 (int n)"
  proof (induction n)
    case (Suc n)
    let ?i = "signed_take_bit 31 (int n)"
    have "take_bit 32 (?i + 1) = take_bit 32 (take_bit 32 ?i + take_bit 32 1)" by (simp only: take_bit_add)
    also have "take_bit 32 ?i = take_bit 32 (int n)" by (rule take_bit_signed_take_bit) simp
    also have "take_bit 32 (take_bit 32 (int n) + take_bit 32 1) = take_bit 32 (int (Suc n))"
      by (simp only: take_bit_add of_nat_Suc add.commute)
    finally have "signed_take_bit 31 (?i + 1) = signed_take_bit 31 (int (Suc n))"
      by (simp only: signed_take_bit_eq_iff_take_bit_eq) simp
    moreover have "next_txn_id (fst (Begin None lvl tm)) = int32_inc (next_txn_id tm)" for tm by (simp add: Begin_def)
    ultimately show ?case using Suc.IH by (simp only: funpow.simps o_apply int32_inc_def)
  qed (simp add: TxnManager_init_def)
  assume "m < 2 ^ 32 \<and> n < 2 ^ 32" "signed_take_bit 31 (int m) = signed_take_bit 31 (int n)"
  then show "m = n" by (simp add: signed_take_bit_eq_iff_take_bit_eq take_bit_int_eq_self)
qed (simp add: TxnManager_init_def)

section \<open>Example runs\<close>

text \<open>A lock call without another thread in between.\<close>

lemma own_call:
  assumes "own_run u s" "sys_txns s t = Some x" "sys_at s t = None" "sys_releases s = []" "lock_prepare oper x = (x, None)"
    and "lock_latched oper x rid (sys_lm s) = (lm', x', out)"
  shows "own_run u (sys_after t (next_at rid out) (lm', x') s)"
proof -
  let ?s1 = "sys_after t (Some (AtPrepare oper rid)) (sys_lm s, x) s"
  let ?s2 = "sys_after t (Some (AtLatch oper rid)) (sys_lm s, x) ?s1"
  have 1: "own_run u ?s1"
    by (rule own_step [OF assms(1) step_call [OF assms(2,3)]]) (use assms(3,4) in \<open>auto simp: one_thread_def releasing_def\<close>)
  have "lock_step ?s1 (EvPrepare t None) (sys_after t (if (None :: AbortReason option) = None then Some (AtLatch oper rid) else None) (sys_lm ?s1, x) ?s1)"
    by (rule step_prepare [where txn = x and a = None]) (use assms(5) in simp_all)
  then have 2: "own_run u ?s2" using own_step [OF 1] by (simp add: one_thread_def)
  have "lock_step ?s2 (EvLatch t out) (sys_after t (next_at rid out) (lm', x') ?s2)"
    by (rule step_latch [where txn = x]) (use assms(6) in simp_all)
  then have "own_run u (sys_after t (next_at rid out) (lm', x') ?s2)" by (rule own_step [OF 2]) (simp add: one_thread_def)
  moreover have "sys_after t c (lm', x') ?s2 = sys_after t c (lm', x') s" for c by (simp add: sys_after_def sys_put_def sys_txns_def)
  ultimately show ?thesis by simp
qed

definition example_rid :: RowId where "example_rid = mk_RowId 2 3"

text \<open>Two transactions begin.\<close>

definition example_begun :: lock_sys where
  "example_begun = (let s = sys_init\<lparr>sys_tm := fst (Begin None kRepeatedRead (sys_tm sys_init))\<rparr>
     in s\<lparr>sys_tm := fst (Begin None kRepeatedRead (sys_tm s))\<rparr>)"

abbreviation example_txn :: "txn_id_t \<Rightarrow> Txn" where "example_txn t \<equiv> mk_Txn t kRepeatedRead"

lemma example_begun_facts:
  "own_run u example_begun" "sys_txns example_begun = [0 \<mapsto> example_txn 0, 1 \<mapsto> example_txn 1]"
  "sys_at example_begun = Map.empty" "sys_releases example_begun = []" "queue_at rid (sys_lm example_begun) = empty_queue"
proof -
  obtain tm x where b: "Begin None kRepeatedRead (sys_tm sys_init) = (tm, x)" "tm = \<lparr>next_txn_id = 1, txn_map = [0 \<mapsto> example_txn 0]\<rparr>" "x = example_txn 0"
    by (auto simp: Begin_def sys_init_def TxnManager_init_def int32_inc_def)
  have "lock_step sys_init EvBegin (sys_init\<lparr>sys_tm := tm\<rparr>)"
    by (rule step_begin [OF _ b(1)]) (auto simp: sys_txns_def sys_init_def TxnManager_init_def)
  then have 1: "own_run u (sys_init\<lparr>sys_tm := tm\<rparr>)" by (rule own_step [OF own_init]) (simp add: one_thread_def)
  obtain tm' x' where c: "Begin None kRepeatedRead tm = (tm', x')" "tm' = \<lparr>next_txn_id = 2, txn_map = [0 \<mapsto> example_txn 0, 1 \<mapsto> example_txn 1]\<rparr>"
      "x' = example_txn 1"
    using b(2) by (auto simp: Begin_def int32_inc_def)
  have "lock_step (sys_init\<lparr>sys_tm := tm\<rparr>) EvBegin (sys_init\<lparr>sys_tm := tm, sys_tm := tm'\<rparr>)"
    by (rule step_begin [where arg = None and txn = x' and lvl = kRepeatedRead]) (use b c in simp_all)
  from own_step [OF 1 this] show "own_run u example_begun" using b(1) c(1) by (simp add: example_begun_def one_thread_def)
  have e: "example_begun = sys_init\<lparr>sys_tm := tm'\<rparr>" using b(1) c(1) by (simp add: example_begun_def)
  show "sys_txns example_begun = [0 \<mapsto> example_txn 0, 1 \<mapsto> example_txn 1]" "sys_at example_begun = Map.empty"
    "sys_releases example_begun = []" "queue_at rid (sys_lm example_begun) = empty_queue"
    unfolding e c(2) by (simp_all add: sys_init_def sys_txns_def queue_at_def LockManager_init_def)
qed

text \<open>The first locks a row exclusively.\<close>

lemma example_exclusive:
  obtains s where "\<forall>u. own_run u s" "sys_txns s = [0 \<mapsto> exclusive_emplace example_rid (example_txn 0), 1 \<mapsto> example_txn 1]"
    "sys_at s = Map.empty" "sys_releases s = []"
proof -
  note B = example_begun_facts
  obtain lm' where l: "lock_latched CallExclusive (example_txn 0) example_rid (sys_lm example_begun) =
      (lm', exclusive_emplace example_rid (example_txn 0), Returns True)"
    by (auto simp: LockExclusive_latched_def EmplaceLockRequest_def B(5) empty_queue_def exclusive_loop_def Let_def)
  have "own_run u (sys_after 0 None (lm', exclusive_emplace example_rid (example_txn 0)) example_begun)" for u
    using own_call [OF B(1) _ _ B(4) _ l] by (simp add: B(2,3) LockPrepare_def)
  then show thesis by (intro that [of "sys_after 0 None (lm', exclusive_emplace example_rid (example_txn 0)) example_begun"]) (auto simp: B)
qed

text \<open>Both lock a row in shared mode, the first tries to upgrade its lock and waits; another thread aborts it
  (the run of \<^verbatim>\<open>UpgradeAfterAbortTest\<close>).\<close>

lemma example_abort_waiting:
  obtains s x where "reachable s" "sys_txns s 0 = Some x" "txn_state x = kAborted" "held x = {example_rid}"
    "sys_at s 0 = Some (AtWait WUpgrade example_rid)" "sys_releases s = [(0, None)]"
proof -
  note B = example_begun_facts
  let ?g = "\<lambda>t m. \<lparr>lr_txn_id = t, lock_mode = m, granted = kShared\<rparr>"
  define q1 where "q1 = \<lparr>req_list = [?g 0 kShared], req_list_iter_map = [0], is_writing = False, is_upgrading = False, sharing_cnt = 1\<rparr>"
  define q2 where "q2 = \<lparr>req_list = [?g 1 kShared, ?g 0 kShared], req_list_iter_map = [1, 0], is_writing = False, is_upgrading = False, sharing_cnt = 2\<rparr>"
  define q3 where "q3 = \<lparr>req_list = [?g 1 kShared, ?g 0 kExclusive], req_list_iter_map = [1, 0], is_writing = False, is_upgrading = True, sharing_cnt = 2\<rparr>"
  let ?x = "\<lambda>t. shared_emplace example_rid (example_txn t)"
  let ?lm1 = "put_queue example_rid q1 (sys_lm example_begun)" and ?lm2 = "put_queue example_rid q2 (sys_lm example_begun)"
  let ?lm3 = "put_queue example_rid q3 (sys_lm example_begun)"
  have l1: "lock_latched CallShared (example_txn 0) example_rid (sys_lm example_begun) = (?lm1, ?x 0, Returns True)"
    by (simp add: LockShared_latched_def EmplaceLockRequest_def B(5) empty_queue_def shared_loop_def Let_def q1_def at_iter_def mk_LockRequest_def)
  define s1 where "s1 = sys_after 0 None (?lm1, ?x 0) example_begun"
  have s1: "own_run 1 s1" using own_call [OF B(1) _ _ B(4) _ l1] by (simp add: B(2,3) LockShared_prepare_def LockPrepare_def s1_def)
  have l2: "lock_latched CallShared (example_txn 1) example_rid (sys_lm s1) = (?lm2, ?x 1, Returns True)"
    by (simp add: LockShared_latched_def EmplaceLockRequest_def s1_def q1_def q2_def shared_loop_def Let_def at_iter_def mk_LockRequest_def)
  define s2 where "s2 = sys_after 1 None (?lm2, ?x 1) s1"
  have s2: "own_run 1 s2" using own_call [OF s1 _ _ _ _ l2] by (simp add: s1_def B(2-4) LockShared_prepare_def LockPrepare_def s2_def)
  have l3: "lock_latched CallUpgrade (?x 0) example_rid (sys_lm s2) = (?lm3, ?x 0, Wait WUpgrade)"
    by (simp add: LockUpgrade_latched_def GetLockRequestIter_def s2_def q2_def q3_def upgrade_loop_def Let_def at_iter_def)
  define s3 where "s3 = sys_after 0 (Some (AtWait WUpgrade example_rid)) (?lm3, ?x 0) s2"
  have s3: "own_run 1 s3" using own_call [OF s2 _ _ _ _ l3] by (simp add: s1_def s2_def B(2-4) LockPrepare_def s3_def)
  have x3: "sys_txns s3 0 = Some (?x 0)" by (simp add: s3_def)
  from reach_step [OF own_run_reachable [OF s3] step_end [OF x3, of kAborted]]
  show thesis by (rule that [where x = "SetState kAborted (?x 0)"]) (simp_all add: s3_def s2_def s1_def B held_def)
qed

section \<open>Properties\<close>

text \<open>C7. Mutual exclusion: in every reachable state of the system, under every interleaving of lock calls, wake-ups, unlocks,
  commits and aborts (by any thread, also of a transaction that is waiting) and deadlock detection, a row that a
  transaction has locked exclusively is held in no mode by any other transaction. Transactions have different ids:
  \<^verbatim>\<open>Begin\<close> takes part while the id it hands out is not in use.\<close>

theorem lock_exclusion:
  assumes "reachable s" "sys_txns s t1 = Some x1" "sys_txns s t2 = Some x2" "t1 \<noteq> t2"
    and "rid \<in> set (exclusive_lock_set x1)"
  shows "rid \<notin> set (shared_lock_set x2) \<and> rid \<notin> set (exclusive_lock_set x2)"
proof -
  note I = reachable_lock_inv [OF assms(1)]
  let ?q = "queue_at rid (sys_lm s)"
  have link1: "row_link x1 rid (GetLockRequestIter t1 ?q) (sys_at s t1)"
    and link2: "row_link x2 rid (GetLockRequestIter t2 ?q) (sys_at s t2)"
    by (rule lock_invD(3) [OF I assms(2)], rule lock_invD(3) [OF I assms(3)])
  obtain r1 where r1: "GetLockRequestIter t1 ?q = Some r1" "granted r1 = kExclusive"
    using link1 assms(5) by (auto simp: row_link_def split: option.splits)
  show ?thesis
  proof (cases "GetLockRequestIter t2 ?q")
    case None
    then show ?thesis using link2 by (simp add: row_link_def)
  next
    case (Some r2)
    then have "granted r2 = kNone" by (rule grant_count_two [OF lock_invD(1) [OF I] r1(1) _ assms(4) r1(2)])
    then show ?thesis using link2 Some by (simp add: row_link_def)
  qed
qed

theorem lock_exclusion_witness:
  "\<exists>s x1 x2. reachable s \<and> sys_txns s 0 = Some x1 \<and> sys_txns s 1 = Some x2 \<and> example_rid \<in> set (exclusive_lock_set x1) \<and>
     example_rid \<notin> set (shared_lock_set x2)"
proof -
  obtain s where "\<forall>u. own_run u s" and 1: "sys_txns s = [0 \<mapsto> exclusive_emplace example_rid (example_txn 0), 1 \<mapsto> example_txn 1]"
    "sys_at s = Map.empty" "sys_releases s = []" by (rule example_exclusive)
  then have r: "reachable s" using own_run_reachable by blast
  from 1 have 2: "sys_txns s 0 = Some (exclusive_emplace example_rid (example_txn 0))" "sys_txns s 1 = Some (example_txn 1)" by simp_all
  have "example_rid \<in> set (exclusive_lock_set (exclusive_emplace example_rid (example_txn 0)))" by simp
  from lock_exclusion [OF r 2 _ this] r 2 this show ?thesis by auto
qed

text \<open>The exceptions that a step throws out of a lock call.\<close>

fun throws :: "lock_event \<Rightarrow> (txn_id_t \<times> AbortReason) option" where
  "throws (EvPrepare t a) = map_option (Pair t) a"
| "throws (EvLatch t (TxnAbortException a)) = Some (t, a)"
| "throws (EvWake t (TxnAbortException a)) = Some (t, a)"
| "throws _ = None"

text \<open>Why each of them is thrown, in terms of the state before the step.\<close>

fun reason_holds :: "AbortReason \<Rightarrow> Txn \<Rightarrow> LockManager \<Rightarrow> bool" where
  "reason_holds kDeadlock x lm \<longleftrightarrow> txn_state x = kAborted"
| "reason_holds kLockOnShrinking x lm \<longleftrightarrow> txn_state x = kShrinking"
| "reason_holds kLockSharedOnReadUncommitted x lm \<longleftrightarrow> iso_level x = kReadUncommitted"
| "reason_holds kUpgradeConflict x lm \<longleftrightarrow> (\<exists>rid \<in> set (shared_lock_set x). is_upgrading (queue_at rid lm))"
| "reason_holds kUnlockOnShrinking x lm \<longleftrightarrow> False"

definition thrown_ok :: "lock_sys \<Rightarrow> txn_id_t \<Rightarrow> AbortReason \<Rightarrow> lock_sys \<Rightarrow> bool" where
  "thrown_ok s t a s' \<longleftrightarrow> (\<exists>x x'. sys_txns s t = Some x \<and> sys_txns s' t = Some x' \<and> reason_holds a x (sys_lm s) \<and>
     txn_state x' = kAborted \<and> held x' = held x \<and> sys_at s' t = None \<and>
     (\<forall>rid r. GetLockRequestIter t (queue_at rid (sys_lm s')) = Some r \<longrightarrow> granted r \<noteq> kNone) \<and>
     (\<forall>u rid. u \<noteq> t \<longrightarrow> sys_txns s' u = sys_txns s u \<and>
        GetLockRequestIter u (queue_at rid (sys_lm s')) = GetLockRequestIter u (queue_at rid (sys_lm s))))"

lemma loop_outcomes:
  "shared_loop txn rid lm \<noteq> (lm', txn', TxnAbortException a)" "exclusive_loop txn rid lm \<noteq> (lm', txn', TxnAbortException a)"
  "upgrade_loop txn rid lm \<noteq> (lm', txn', TxnAbortException a)"
  by (simp_all add: shared_loop_def exclusive_loop_def upgrade_loop_def Let_def)

lemma latched_exception:
  assumes "lock_latched oper txn rid lm = (lm', txn', TxnAbortException a)"
  shows "reason_holds a txn lm"
  using assms loop_outcomes [of txn rid]
  by (cases oper) (auto simp: LockShared_latched_def LockExclusive_latched_def LockUpgrade_latched_def Let_def
      split: if_splits option.splits)

lemma wake_exception:
  assumes "lock_wake w txn rid lm = (lm', txn', TxnAbortException a)"
  shows "reason_holds a txn lm"
  using assms loop_outcomes [of txn rid lm] by (cases w) (auto simp: lock_wake_def CheckAbort_def split: if_splits)

lemma call_ok_thrown:
  assumes "sys_inv s" "sys_txns s t = Some txn" "call_ok (sys_lm s) (sys_txns s) (sys_at s) t txn rid (lm', txn', TxnAbortException a)"
    and "reason_holds a txn (sys_lm s)"
  shows "thrown_ok s t a (sys_after t None (lm', txn') s)"
proof -
  have "lock_inv lm' ((sys_txns s)(t \<mapsto> txn')) ((sys_at s)(t := None))" using assms(3) by (simp add: call_ok_def)
  from running_row(4) [OF this, of t txn'] show ?thesis
    using assms(2-4) by (auto simp: thrown_ok_def call_ok_def)
qed

text \<open>C26. Errors of the lock calls, in every reachable state and for every interleaving: no step fails an assertion of the code.
  A call passes \<^verbatim>\<open>LockPrepare\<close> only in a transaction that is neither shrinking nor aborted, and a waiting call that
  wakes in an aborted transaction throws. Whenever a call throws, before the latch, under it or on waking up, its
  reason holds (aborted, shrinking, shared lock under read uncommitted, another upgrade of the row in progress), the transaction is then aborted and
  holds the rows it held, none of its requests is left waiting in any queue, and neither the requests nor the
  state of any other transaction have changed.\<close>

theorem lock_call_errors:
  assumes "reachable s" "lock_step s e s'"
  shows "e \<noteq> EvLatch t AssertFails \<and> e \<noteq> EvWake t AssertFails \<and>
    (\<forall>x. sys_txns s t = Some x \<and> e = EvPrepare t None \<longrightarrow> txn_state x \<notin> {kShrinking, kAborted}) \<and>
    (\<forall>x out. sys_txns s t = Some x \<and> txn_state x = kAborted \<and> e = EvWake t out \<longrightarrow> out = TxnAbortException kDeadlock) \<and>
    (throws e = Some (t, a) \<longrightarrow> thrown_ok s t a s')"
proof -
  note inv = reachable_inv [OF assms(1)] and I = reachable_lock_inv [OF assms(1)]
  from assms(2) show ?thesis
  proof (cases rule: lock_step.cases)
    case (step_prepare u txn oper rid txn' b)
    note P = lock_prepare_result [OF step_prepare(5)]
    have "thrown_ok s t a s'" if "throws e = Some (t, a)"
    proof -
      have b: "b = Some a" "u = t" using that step_prepare(1) by auto
      have "reason_holds a txn (sys_lm s)" using P(4) b(1) by (cases a) simp_all
      moreover have "held txn' = held txn" using P(1) by (auto simp: held_def)
      moreover have "\<not> waiting (sys_at s t)" using step_prepare(4) b(2) by simp
      ultimately show ?thesis
        using step_prepare b P(3) running_row(4) [OF I, of t txn] by (auto simp: thrown_ok_def)
    qed
    then show ?thesis using step_prepare P(2) by auto
  next
    case (step_latch u txn oper rid lm' txn' out)
    have c: "call_ok (sys_lm s) (sys_txns s) (sys_at s) u txn rid (lm', txn', out)"
      using lock_latched_ok [OF I step_latch(3), of rid oper] step_latch by simp
    have "thrown_ok s t a s'" if "throws e = Some (t, a)"
    proof -
      have o: "out = TxnAbortException a" "u = t" using that step_latch(1) by (cases out; simp)+
      show ?thesis using call_ok_thrown [OF inv step_latch(3) c [unfolded o(1)]] latched_exception step_latch(2,5) o by simp
    qed
    then show ?thesis using c step_latch(1) by (auto simp: call_ok_def)
  next
    case (step_wake u txn w rid lm' txn' out)
    have c: "call_ok (sys_lm s) (sys_txns s) (sys_at s) u txn rid (lm', txn', out)"
      using lock_wake_ok [OF I step_wake(3,4)] step_wake by simp
    have "thrown_ok s t a s'" if "throws e = Some (t, a)"
    proof -
      have o: "out = TxnAbortException a" "u = t" using that step_wake(1) by (cases out; simp)+
      show ?thesis using call_ok_thrown [OF inv step_wake(3) c [unfolded o(1)]] wake_exception step_wake(2,5) o by simp
    qed
    moreover have "out = TxnAbortException kDeadlock" if "txn_state txn = kAborted"
      using wake_abort_ok(1) [OF I step_wake(3,4) that] step_wake(5) by auto
    ultimately show ?thesis using c step_wake(1,3) by (auto simp: call_ok_def)
  qed auto
qed

theorem lock_call_errors_witness:
  "\<exists>s s' x x'. reachable s \<and> lock_step s (EvWake 0 (TxnAbortException kDeadlock)) s' \<and> sys_txns s 0 = Some x \<and>
     sys_at s 0 = Some (AtWait WUpgrade example_rid) \<and> sys_txns s' 0 = Some x' \<and> held x' = {example_rid} \<and> sys_at s' 0 = None"
proof -
  obtain s x where 1: "reachable s" "sys_txns s 0 = Some x" "txn_state x = kAborted" "held x = {example_rid}"
    "sys_at s 0 = Some (AtWait WUpgrade example_rid)" "sys_releases s = [(0, None)]" by (rule example_abort_waiting)
  obtain lm' x' out where w: "lock_wake WUpgrade x example_rid (sys_lm s) = (lm', x', out)" by (cases "lock_wake WUpgrade x example_rid (sys_lm s)")
  let ?s = "sys_after 0 (next_at example_rid out) (lm', x') s"
  have st: "lock_step s (EvWake 0 out) ?s" by (rule step_wake [OF 1(2,5) w])
  have out: "out = TxnAbortException kDeadlock" using lock_call_errors [OF 1(1) st, of 0 kDeadlock] 1(2,3) by auto
  with lock_call_errors [OF 1(1) st, of 0 kDeadlock] have "thrown_ok s 0 kDeadlock ?s" by simp
  then show ?thesis using 1 st out by (intro exI [of _ s] exI [of _ ?s]) (auto simp: thrown_ok_def)
qed

end
