(* ===== verification/Txn_Protocol.thy ===== *)
theory Txn_Protocol
  imports Txn_Manager
begin

text \<open>
  What the lock and transaction managers guarantee to a transaction that is driven by one thread
  (\<open>own_run\<close>), whatever the threads of the other transactions and the deadlock detection do: it follows two-phase
  locking, and its \<^verbatim>\<open>Commit\<close> or \<^verbatim>\<open>Abort\<close> leaves nothing behind. Without that assumption the first fails: an \<^verbatim>\<open>Unlock\<close> by another thread
  makes a waiting transaction shrinking, and its wait may still be granted.
\<close>

section \<open>The invariant of a transaction with one thread\<close>

text \<open>A call past \<^verbatim>\<open>LockPrepare\<close> finds the transaction neither shrinking nor, before it waits, aborted; while its rows are
  released it makes no other call and holds only rows still to be unlocked; and its stalled requests are those
  of a waiting upgrade, of an aborted transaction or of one that is being released.\<close>

definition own_inv :: "txn_id_t \<Rightarrow> lock_sys \<Rightarrow> bool" where
  [inv_defs]: "own_inv t s \<longleftrightarrow> (\<forall>x. sys_txns s t = Some x \<longrightarrow>
     (case sys_at s t of Some (AtLatch oper rid) \<Rightarrow> txn_state x \<notin> {kShrinking, kAborted}
        | Some (AtWait w rid) \<Rightarrow> txn_state x \<noteq> kShrinking | _ \<Rightarrow> True) \<and>
     (\<forall>rs. (t, rs) \<in> set (sys_releases s) \<longrightarrow> sys_at s t = None \<and> txn_state x \<in> {kCommitted, kAborted} \<and>
        (\<forall>rids. rs = Some rids \<longrightarrow> held x \<subseteq> set rids)) \<and>
     (\<forall>rid r. GetLockRequestIter t (queue_at rid (sys_lm s)) = Some r \<and> stalled r \<longrightarrow>
        sys_at s t = Some (AtWait WUpgrade rid) \<or> txn_state x = kAborted \<or> releasing t s))"

lemma own_invD:
  assumes "own_inv t s" "sys_txns s t = Some x"
  shows "sys_at s t = Some (AtLatch oper rid) \<Longrightarrow> txn_state x \<notin> {kShrinking, kAborted}"
    "sys_at s t = Some (AtWait w rid) \<Longrightarrow> txn_state x \<noteq> kShrinking"
    "(t, rs) \<in> set (sys_releases s) \<Longrightarrow> sys_at s t = None" "(t, rs) \<in> set (sys_releases s) \<Longrightarrow> txn_state x \<in> {kCommitted, kAborted}"
    "(t, Some rids) \<in> set (sys_releases s) \<Longrightarrow> held x \<subseteq> set rids"
    "GetLockRequestIter t (queue_at rid (sys_lm s)) = Some r \<Longrightarrow> stalled r \<Longrightarrow>
       sys_at s t = Some (AtWait WUpgrade rid) \<or> txn_state x = kAborted \<or> releasing t s"
    "releasing t s \<Longrightarrow> sys_at s t = None"
  using assms by (auto simp: own_inv_def releasing_def)

text \<open>Steps that do not concern \<open>t\<close>.\<close>

lemma own_inv_frame:
  assumes "own_inv t s" "sys_txns s' t = sys_txns s t" "sys_at s' t = sys_at s t"
    and "\<And>rid. GetLockRequestIter t (queue_at rid (sys_lm s')) = GetLockRequestIter t (queue_at rid (sys_lm s))"
    and "\<And>rs. (t, rs) \<in> set (sys_releases s') \<longleftrightarrow> (t, rs) \<in> set (sys_releases s)"
  shows "own_inv t s'"
proof -
  have "releasing t s' = releasing t s" using assms(5) by (force simp: releasing_def)
  then show ?thesis using assms unfolding own_inv_def by simp
qed

lemma own_inv_call:
  assumes inv: "own_inv t s" "sys_txns s t = Some x" and at: "sys_at s t = Some (AtLatch oper rid) \<or> sys_at s t = Some (AtWait w rid)"
    and c: "call_ok (sys_lm s) (sys_txns s) (sys_at s) t x rid (lm', x', out)"
  shows "own_inv t (sys_after t (next_at rid out) (lm', x') s)"
proof -
  note O = own_invD [OF inv]
  have st: "txn_state x \<noteq> kShrinking" using O(1,2) at by auto
  have nr: "(t, rs) \<notin> set (sys_releases s)" for rs using O(3) at by auto
  have st': "txn_state x' = txn_state x \<or> txn_state x' = kAborted" using c by (auto simp: call_ok_def split: lock_outcome.splits)
  have "out = Wait WUpgrade \<and> rid' = rid \<or> txn_state x' = kAborted"
    if "GetLockRequestIter t (queue_at rid' lm') = Some r" "stalled r" for rid' r
  proof (cases "rid' = rid")
    case True
    with that c have "out = Wait WUpgrade \<or> txn_state x' = kAborted \<or>
        \<not> waiting (sys_at s t) \<and> GetLockRequestIter t (queue_at rid (sys_lm s)) = Some r"
      by (auto simp: call_ok_def)
    moreover have "\<not> releasing t s" using nr by (auto simp: releasing_def)
    ultimately show ?thesis using O(6) [of rid r] that(2) st' True by auto
  next
    case False
    with that c have "GetLockRequestIter t (queue_at rid' (sys_lm s)) = Some r" by (auto simp: call_ok_def)
    moreover have "\<not> releasing t s" "sys_at s t \<noteq> Some (AtWait WUpgrade rid')" using nr at False by (auto simp: releasing_def)
    ultimately show ?thesis using O(6) [of rid' r] that(2) st' by auto
  qed
  then show ?thesis
    using nr st st' unfolding own_inv_def by (auto simp: next_at_def split: lock_outcome.splits)
qed

lemma own_inv_unlock:
  assumes inv: "own_inv t s" "sys_inv s" "sys_txns s t = Some x" and u: "Unlock x rid (sys_lm s) = (lm', x', ok)"
    and at: "sys_at s t = None"
  shows "own_inv t (sys_put t (lm', x') s)"
proof -
  note O = own_invD [OF inv(1,3)] and U = Unlock_ok [OF inv(2) [unfolded sys_inv_def, THEN conjunct1] inv(3) u]
  have r: "releasing t (sys_put t (lm', x') s) = releasing t s" by (simp add: releasing_def)
  show ?thesis
    using O(4,5,6) at U(2,3) unfolding own_inv_def
    by (auto simp: U(5) r split: if_splits)
qed

section \<open>Deadlock detection aborts only transactions that wait\<close>

text \<open>The lock table has one queue per row.\<close>

definition table_distinct :: "LockManager \<Rightarrow> bool" where
  "table_distinct lm \<longleftrightarrow> distinct (map fst (lock_table lm))"

lemma table_distinct_put [simp]: "table_distinct lm \<Longrightarrow> table_distinct (put_queue rid q lm)"
  by (simp add: table_distinct_def put_queue_def distinct_update)

lemma table_distinct_loop: "table_distinct lm \<Longrightarrow> table_distinct (fst (lock_loop w txn rid lm))"
  by (cases w) (simp_all add: shared_loop_def exclusive_loop_def upgrade_loop_def Let_def)

lemma table_distinct_ops:
  assumes "table_distinct lm"
  shows "lock_latched oper txn rid lm = (lm', txn', out) \<Longrightarrow> table_distinct lm'" "lock_wake w txn rid lm = (lm', txn', out) \<Longrightarrow> table_distinct lm'"
    "Unlock txn rid lm = (lm', txn', ok) \<Longrightarrow> table_distinct lm'"
proof -
  have loop: "table_distinct (fst (shared_loop x rid lm1))" "table_distinct (fst (exclusive_loop x rid lm1))" "table_distinct (fst (upgrade_loop x rid lm1))"
    if "table_distinct lm1" for x lm1
    using table_distinct_loop [OF that, of WShared] table_distinct_loop [OF that, of WExclusive] table_distinct_loop [OF that, of WUpgrade] by simp_all
  have "table_distinct (fst (lock_latched oper txn rid lm))"
    using assms loop by (cases oper) (simp_all add: LockShared_latched_def LockExclusive_latched_def LockUpgrade_latched_def Let_def split: option.splits)
  then show "lock_latched oper txn rid lm = (lm', txn', out) \<Longrightarrow> table_distinct lm'" by simp
  have "table_distinct (fst (lock_wake w txn rid lm))"
    using assms table_distinct_loop by (simp add: lock_wake_def split: prod.splits option.splits)
  then show "lock_wake w txn rid lm = (lm', txn', out) \<Longrightarrow> table_distinct lm'" by simp
  have "table_distinct (fst (Unlock txn rid lm))"
    using assms by (simp add: Unlock_def Let_def split_def split: option.splits)
  then show "Unlock txn rid lm = (lm', txn', ok) \<Longrightarrow> table_distinct lm'" by simp
qed

lemma table_distinct_rows: "table_distinct lm \<Longrightarrow> table_distinct (fold (remove_waiters t) rids lm)"
proof (induction rids arbitrary: lm)
  case (Cons rid rids)
  have "table_distinct (remove_waiters t rid lm)"
    using table_distinct_put [OF Cons.prems] by (simp add: remove_waiters_def Let_def table_distinct_def)
  then show ?case using Cons.IH by simp
qed simp

lemma table_distinct_round:
  assumes "table_distinct lm" "cycle_detection_round lm txns = Some (lm', txns')"
  shows "table_distinct lm'"
proof -
  have del: "table_distinct (DeleteNode t txns lm)" if "table_distinct lm" for t txns lm
  proof -
    have "table_distinct (lm\<lparr>waits_for := AList.delete t (waits_for lm)\<rparr>)" using that by (simp add: table_distinct_def)
    then show ?thesis by (simp add: DeleteNode_def Let_def table_distinct_rows split: option.split)
  qed
  have break: "table_distinct lm \<Longrightarrow> break_cycles n lm txns = Some (lm', txns') \<Longrightarrow> table_distinct lm'" for n lm txns
  proof (induction n lm txns rule: break_cycles.induct)
    case (2 n lm txns)
    then show ?case using del by (auto simp: Let_def split: option.splits prod.splits bool.splits if_splits)
  qed simp
  have "table_distinct (lm\<lparr>waits_for := build_graph lm\<rparr>)" using assms(1) by (simp add: table_distinct_def)
  from break [OF this] assms(2) show ?thesis unfolding cycle_detection_round_def Let_def by blast
qed

lemma reachable_table: "reachable s \<Longrightarrow> table_distinct (sys_lm s)"
proof (induction rule: reachable.induct)
  case reach_init
  show ?case by (simp add: table_distinct_def sys_init_def LockManager_init_def)
next
  case (reach_step s e s')
  from reach_step(2) show ?case
  proof (cases rule: lock_step.cases)
    case (step_latch t txn oper rid lm' txn' out)
    then show ?thesis using table_distinct_ops(1) reach_step.IH by auto
  next
    case (step_wake t txn w rid lm' txn' out)
    then show ?thesis using table_distinct_ops(2) reach_step.IH by auto
  next
    case (step_unlock t txn rid lm' txn' ok)
    then show ?thesis using table_distinct_ops(3) reach_step.IH by auto
  next
    case (step_release t txn rs rid rids rs' lm' txn' ok)
    then show ?thesis using table_distinct_ops(3) reach_step.IH by auto
  next
    case (step_detect lm' txns')
    then show ?thesis using table_distinct_round reach_step.IH by auto
  qed (use reach_step.IH in auto)
qed

lemma detect_waiting:
  assumes "reachable s" "cycle_detection_round (sys_lm s) (sys_txns s) = Some (lm', txns')"
  obtains V where "txns' = abort_all V (sys_txns s)" "\<forall>rid. queue_at rid lm' = queue_at rid (sys_lm s)"
    "\<forall>v \<in> V. \<exists>rid r. GetLockRequestIter v (queue_at rid (sys_lm s)) = Some r \<and> (granted r = kNone \<or> stalled r)"
proof -
  obtain V where V: "txns' = abort_all V (sys_txns s)" "\<forall>rid. queue_at rid lm' = queue_at rid (sys_lm s)"
    "V \<subseteq> {v. (v, v) \<in> (edges (build_graph (sys_lm s)))\<^sup>+}"
    using cycle_detection_effect [of "sys_lm s" "sys_txns s"] assms(2) by auto
  have "\<exists>rid r. GetLockRequestIter v (queue_at rid (sys_lm s)) = Some r \<and> (granted r = kNone \<or> stalled r)" if "v \<in> V" for v
  proof -
    have "(v, v) \<in> (edges (build_graph (sys_lm s)))\<^sup>+" using that V(3) by blast
    then obtain y where "(v, y) \<in> edges (build_graph (sys_lm s))" by (meson tranclD)
    then obtain rid q w h where w: "(rid, q) \<in> set (lock_table (sys_lm s))" "w \<in> set (req_list q)" "lr_txn_id w = v" "waits_on w h"
      by (auto simp: edges_build_graph)
    have "queue_at rid (sys_lm s) = q"
      using w(1) reachable_table [OF assms(1)] by (simp add: queue_at_def table_distinct_def map_of_is_SomeI)
    moreover have "granted w = kNone \<or> stalled w" using w(4) by (auto simp: waits_on_def stalled_def)
    ultimately show ?thesis
      using GetLockRequestIter_iff(1) [OF lock_invD(1) [OF reachable_lock_inv [OF assms(1)], of rid]] w(2,3) by metis
  qed
  then show thesis using that V(1,2) by blast
qed

section \<open>Every step keeps the invariant\<close>

lemma own_inv_detect:
  assumes "reachable s" "own_inv t s" "cycle_detection_round (sys_lm s) (sys_txns s) = Some (lm', txns')"
  shows "own_inv t (s\<lparr>sys_lm := lm', sys_tm := (sys_tm s)\<lparr>txn_map := txns'\<rparr>\<rparr>)"
proof -
  let ?s = "s\<lparr>sys_lm := lm', sys_tm := (sys_tm s)\<lparr>txn_map := txns'\<rparr>\<rparr>"
  obtain V where V: "txns' = abort_all V (sys_txns s)" "\<forall>rid. queue_at rid lm' = queue_at rid (sys_lm s)"
    "\<forall>v \<in> V. \<exists>rid r. GetLockRequestIter v (queue_at rid (sys_lm s)) = Some r \<and> (granted r = kNone \<or> stalled r)"
    by (rule detect_waiting [OF assms(1,3)])
  have latch: "t \<notin> V" if "sys_txns s t = Some x" "sys_at s t = Some (AtLatch oper rid)" for x oper rid
  proof
    assume "t \<in> V"
    then obtain rid' r where r: "GetLockRequestIter t (queue_at rid' (sys_lm s)) = Some r" "granted r = kNone \<or> stalled r" using V(3) by blast
    have "granted r \<noteq> kNone"
      by (rule running_row(4) [OF reachable_lock_inv [OF assms(1)] that(1) _ r(1)]) (simp add: that(2))
    then show False using own_invD(1,6,7) [OF assms(2) that(1)] that(2) r by fastforce
  qed
  show ?thesis
  proof (cases "t \<in> V")
    case True
    show ?thesis
      unfolding own_inv_def
    proof (intro allI impI)
      fix y assume "sys_txns ?s t = Some y"
      then obtain x where x: "sys_txns s t = Some x" "y = SetState kAborted x" using True by (auto simp: V(1) abort_all_def)
      have "sys_at s t \<noteq> Some (AtLatch oper rid)" for oper rid using latch [OF x(1)] True by blast
      moreover have "held y = held x" by (simp add: x(2) held_def)
      ultimately show "(case sys_at ?s t of Some (AtLatch oper rid) \<Rightarrow> txn_state y \<notin> {kShrinking, kAborted}
          | Some (AtWait w rid) \<Rightarrow> txn_state y \<noteq> kShrinking | _ \<Rightarrow> True) \<and>
        (\<forall>rs. (t, rs) \<in> set (sys_releases ?s) \<longrightarrow> sys_at ?s t = None \<and> txn_state y \<in> {kCommitted, kAborted} \<and>
          (\<forall>rids. rs = Some rids \<longrightarrow> held y \<subseteq> set rids)) \<and>
        (\<forall>rid r. GetLockRequestIter t (queue_at rid (sys_lm ?s)) = Some r \<and> stalled r \<longrightarrow>
          sys_at ?s t = Some (AtWait WUpgrade rid) \<or> txn_state y = kAborted \<or> releasing t ?s)"
        using own_invD(3,5) [OF assms(2) x(1)] by (simp add: x(2) split: option.split call_at.split) blast
    qed
  next
    case False
    then show ?thesis using assms(2) by (intro own_inv_frame [OF assms(2)]) (simp_all add: V(1,2) abort_all_def)
  qed
qed

lemma own_inv_begin:
  assumes "reachable s" "own_inv t s" "arg = None \<or> arg = Some (mk_Txn u lvl')" "Begin arg lvl (sys_tm s) = (tm', txn)"
    "sys_txns s (txn_id txn) = None"
  shows "own_inv t (s\<lparr>sys_tm := tm'\<rparr>)"
proof -
  note B = Begin_effect [OF assms(4,3)]
  have m: "txn_map tm' = (sys_txns s)(txn_id txn \<mapsto> txn)" using B(1) by (simp add: sys_txns_def)
  show ?thesis
  proof (cases "t = txn_id txn")
    case True
    then have "GetLockRequestIter t (queue_at rid (sys_lm s)) = None" "sys_at s t = None" "(t, rs) \<notin> set (sys_releases s)" for rid rs
      using lock_invD(4,5) [OF reachable_lock_inv [OF assms(1)]] assms(5) reachable_inv [OF assms(1)] by (auto simp: sys_inv_def)
    then show ?thesis unfolding own_inv_def by simp
  next
    case False
    then show ?thesis by (intro own_inv_frame [OF assms(2)]) (simp_all add: m)
  qed
qed

lemma own_inv_prepare:
  assumes "own_inv t s" "sys_txns s t = Some x" "sys_at s t = Some (AtPrepare oper rid)" "lock_prepare oper x = (x', a)"
  shows "own_inv t (sys_after t (if a = None then Some (AtLatch oper rid) else None) (sys_lm s, x') s)"
proof -
  note P = lock_prepare_result [OF assms(4)] and O = own_invD [OF assms(1,2)]
  have nr: "(t, rs) \<notin> set (sys_releases s)" "\<not> releasing t s" for rs using O(3) [of rs] O(7) assms(3) by auto
  have "txn_state x' = kAborted" if "GetLockRequestIter t (queue_at rid' (sys_lm s)) = Some r" "stalled r" for rid' r
    using O(6) [OF that] nr(2) assms(3) P(1) by auto
  then show ?thesis using nr(1) P(2) unfolding own_inv_def by auto
qed

lemma own_inv_release:
  assumes "reachable s" "own_inv t s" "sys_txns s t = Some x" "sys_releases s = rs @ (t, Some (rid # rids)) # rs'"
    "Unlock x rid (sys_lm s) = (lm', x', ok)"
  shows "own_inv t ((sys_put t (lm', x') s)\<lparr>sys_releases := rs @ (t, Some rids) # rs'\<rparr>)"
proof -
  have p: "(t, Some (rid # rids)) \<in> set (sys_releases s)" using assms(4) by simp
  note h = own_invD(5) [OF assms(2,3) p] and at = own_invD(3) [OF assms(2,3) p]
  note I = own_inv_unlock [OF assms(2) reachable_inv [OF assms(1)] assms(3,5) at]
  have "held x' = held x - {rid}" by (rule Unlock_ok(2) [OF reachable_lock_inv [OF assms(1)] assms(3,5)])
  with h have "held x' \<subseteq> set rids" by auto
  then show ?thesis using I assms(4) unfolding own_inv_def releasing_def by auto
qed

lemma released_nothing:
  assumes "reachable s" "own_inv t s" "sys_txns s t = Some x" "(t, Some []) \<in> set (sys_releases s)"
  shows "held x = {}" "GetLockRequestIter t (queue_at rid (sys_lm s)) = None" "txn_state x \<in> {kCommitted, kAborted}"
proof -
  have "sys_at s t = None" by (rule own_invD(3) [OF assms(2-4)])
  moreover show "held x = {}" using own_invD(5) [OF assms(2-4)] by simp
  ultimately show "GetLockRequestIter t (queue_at rid (sys_lm s)) = None"
    using running_row(1) [OF reachable_lock_inv [OF assms(1)] assms(3), of rid] by simp
  show "txn_state x \<in> {kCommitted, kAborted}" by (rule own_invD(4) [OF assms(2-4)])
qed

lemma own_inv_released:
  assumes "reachable s" "own_inv t s" "sys_releases s = rs @ (t, Some []) # rs'"
  shows "own_inv t (s\<lparr>sys_releases := rs @ rs'\<rparr>)"
proof -
  have "GetLockRequestIter t (queue_at rid (sys_lm s)) = None" if "sys_txns s t = Some x" for x rid
    by (rule released_nothing(2) [OF assms(1,2) that]) (simp add: assms(3))
  then show ?thesis using assms(2,3) unfolding own_inv_def by auto
qed

lemma own_inv_step:
  assumes "lock_step s e s'" "reachable s" "own_inv t s" "one_thread t s e"
  shows "own_inv t s'"
proof -
  note I = reachable_lock_inv [OF assms(2)]
  from assms(1) show ?thesis
  proof (cases rule: lock_step.cases)
    case (step_begin arg u lvl' lvl tm' txn)
    then show ?thesis using own_inv_begin [OF assms(2,3)] by simp
  next
    case (step_call u txn oper rid)
    show ?thesis
    proof (cases "u = t")
      case True
      then have "(t, rs) \<notin> set (sys_releases s)" "sys_at s t = None" for rs
        using assms(4) step_call(1) by (force simp: one_thread_def releasing_def)+
      then show ?thesis using assms(3) True step_call(3) unfolding own_inv_def step_call(2) by (simp add: releasing_def)
    qed (use step_call(2) in \<open>simp add: own_inv_frame [OF assms(3)]\<close>)
  next
    case (step_prepare u txn oper rid txn' a)
    then show ?thesis
      using own_inv_prepare [OF assms(3), of txn oper rid txn' a] by (cases "u = t") (simp_all add: own_inv_frame [OF assms(3)])
  next
    case (step_latch u txn oper rid lm' txn' out)
    have c: "call_ok (sys_lm s) (sys_txns s) (sys_at s) u txn rid (lm', txn', out)"
      using lock_latched_ok [OF I step_latch(3), of rid oper] step_latch by simp
    have frame: "own_inv t s'" if "u \<noteq> t"
      using c that by (intro own_inv_frame [OF assms(3)]) (simp_all add: step_latch(2) call_ok_def)
    then show ?thesis using own_inv_call [OF assms(3), of txn oper rid WShared] c step_latch(2,3,4) by (cases "u = t") simp_all
  next
    case (step_wake u txn w rid lm' txn' out)
    have c: "call_ok (sys_lm s) (sys_txns s) (sys_at s) u txn rid (lm', txn', out)"
      using lock_wake_ok [OF I step_wake(3,4)] step_wake by simp
    have frame: "own_inv t s'" if "u \<noteq> t"
      using c that by (intro own_inv_frame [OF assms(3)]) (simp_all add: step_wake(2) call_ok_def)
    then show ?thesis using own_inv_call [OF assms(3), of txn CallShared rid w] c step_wake(2,3,4) by (cases "u = t") simp_all
  next
    case (step_unlock u txn rid lm' txn' ok)
    have "own_inv t s'" if "u \<noteq> t"
      using that by (intro own_inv_frame [OF assms(3)]) (simp_all add: step_unlock(2) Unlock_ok(5) [OF I step_unlock(3,4)])
    moreover have "own_inv t s'" if "u = t"
      using own_inv_unlock [OF assms(3) reachable_inv [OF assms(2)], of txn rid lm' txn' ok] step_unlock assms(4) that by (simp add: one_thread_def)
    ultimately show ?thesis by blast
  next
    case (step_end u txn st)
    have "own_inv t s'" if "u \<noteq> t" using that by (intro own_inv_frame [OF assms(3)]) (simp_all add: step_end(2))
    moreover have "own_inv t s'" if "u = t"
    proof -
      have "sys_at s t = None" "(t, rs) \<notin> set (sys_releases s)" for rs
        using assms(4) step_end(1) that by (force simp: one_thread_def releasing_def)+
      then show ?thesis using that step_end(4) unfolding own_inv_def step_end(2) by (simp add: releasing_def)
    qed
    ultimately show ?thesis by blast
  next
    case (step_collect u txn rs rs' rids)
    have "own_inv t s'" if "u \<noteq> t" using that by (intro own_inv_frame [OF assms(3)]) (simp_all add: step_collect(2,4))
    moreover have "own_inv t s'" if "u = t"
      using assms(3) that step_collect(3,6) unfolding own_inv_def step_collect(2) by (auto simp: step_collect(4) releasing_def)
    ultimately show ?thesis by blast
  next
    case (step_release u txn rs rid rids rs' lm' txn' ok)
    have "own_inv t s'" if "u \<noteq> t"
      using that by (intro own_inv_frame [OF assms(3)]) (simp_all add: step_release(2,4) Unlock_ok(5) [OF I step_release(3,5)])
    then show ?thesis using own_inv_release [OF assms(2,3), of txn rs rid rids rs' lm' txn' ok] step_release by (cases "u = t") simp_all
  next
    case (step_released rs u rs')
    have "own_inv t s'" if "u \<noteq> t" using that by (intro own_inv_frame [OF assms(3)]) (simp_all add: step_released(2,3))
    then show ?thesis using own_inv_released [OF assms(2,3), of rs rs'] step_released by (cases "u = t") simp_all
  next
    case (step_detect lm' txns')
    then show ?thesis using own_inv_detect [OF assms(2,3)] by simp
  qed
qed

lemma own_run_inv: "own_run t s \<Longrightarrow> own_inv t s"
proof (induction rule: own_run.induct)
  case own_init
  show ?case by (simp add: own_inv_def sys_init_def sys_txns_def TxnManager_init_def)
next
  case (own_step s e s')
  then show ?case using own_inv_step own_run_reachable by blast
qed

section \<open>Commit and abort in one piece\<close>

lemma unlock_rows_ok:
  assumes "lock_inv lm (txns(t \<mapsto> txn)) ca" "unlock_rows rids txn lm = (lm', txn')"
  shows "held txn' = held txn - set rids \<and> (txn_state txn \<noteq> kGrowing \<longrightarrow> txn_state txn' = txn_state txn) \<and>
    lock_inv lm' (txns(t \<mapsto> txn')) ca \<and>
    (\<forall>t' rid. GetLockRequestIter t' (queue_at rid lm') =
       (if t' = t \<and> rid \<in> set rids then None else GetLockRequestIter t' (queue_at rid lm)))"
  using assms
proof (induction rids arbitrary: txn lm)
  case (Cons rid rids)
  obtain lm1 txn1 ok where u: "Unlock txn rid lm = (lm1, txn1, ok)" by (cases "Unlock txn rid lm")
  have t: "(txns(t \<mapsto> txn)) t = Some txn" by simp
  note U = Unlock_ok [OF Cons.prems(1) t u]
  have I: "lock_inv lm1 (txns(t \<mapsto> txn1)) ca" using U(1) unfolding fun_upd_upd .
  have "unlock_rows rids txn1 lm1 = (lm', txn')" using Cons.prems(2) u by simp
  note ih = Cons.IH [OF I this]
  have "held txn' = held txn - set (rid # rids)" using ih U(2) by auto
  then show ?case using ih U(3,5) by (auto split: if_splits)
qed auto

lemma Release_ok:
  assumes "lock_inv lm txns ca" "txns t = Some txn" "st \<noteq> kGrowing" "ReleaseLocks (SetState st txn) lm = (lm', txn')"
  shows "held txn' = {}" "txn_state txn' = st"
    "GetLockRequestIter u (queue_at rid lm') = (if u = t \<and> rid \<in> held txn then None else GetLockRequestIter u (queue_at rid lm))"
proof -
  have "lock_inv lm (txns(t \<mapsto> SetState st txn)) (ca(t := ca t))" by (rule lock_inv_txn [OF assms(1,2)]) simp_all
  then have "lock_inv lm (txns(t \<mapsto> SetState st txn)) ca" by simp
  from unlock_rows_ok [OF this] assms(3,4)
  show "held txn' = {}" "txn_state txn' = st"
    "GetLockRequestIter u (queue_at rid lm') = (if u = t \<and> rid \<in> held txn then None else GetLockRequestIter u (queue_at rid lm))"
    by (auto simp: ReleaseLocks_def held_def)
qed

section \<open>Properties\<close>

text \<open>What one step does to a transaction that follows the protocol.\<close>

definition two_phase :: "Txn \<Rightarrow> Txn \<Rightarrow> bool" where
  "two_phase x x' \<longleftrightarrow> (txn_state x \<in> {kShrinking, kAborted} \<longrightarrow> held x' \<subseteq> held x) \<and>
     (held x \<subseteq> held x' \<or> txn_state x' \<noteq> kGrowing) \<and> (txn_state x \<noteq> kGrowing \<longrightarrow> txn_state x' \<noteq> kGrowing)"

lemma two_phase_same: "two_phase x x" "two_phase x (SetState kAborted x)"
  by (simp_all add: two_phase_def held_def)

lemma two_phase_call:
  assumes "call_ok lm txns ca t x rid (lm', x', out)" "txn_state x \<notin> {kShrinking, kAborted} \<or> out = TxnAbortException a"
  shows "two_phase x x'"
  using assms by (auto simp: call_ok_def two_phase_def split: lock_outcome.splits)

lemma two_phase_unlock:
  assumes "lock_inv lm txns ca" "txns t = Some x" "Unlock x rid lm = (lm', x', ok)"
  shows "two_phase x x'"
proof -
  have "rid \<in> held x \<longrightarrow> ok"
    using lock_invD(3) [OF assms(1,2), of rid] Unlock_ok(4) [OF assms] by (auto simp: row_link_def held_def)
  then show ?thesis using Unlock_ok(2,3) [OF assms] by (auto simp: two_phase_def)
qed

text \<open>C14. Two-phase locking of a transaction whose calls are made by one thread, whatever all other threads do: once it is shrinking or
  aborted, no step of the system gives it a lock on a further row; a step that takes a row from it leaves it in
  a state other than growing, and it never becomes growing again.\<close>

theorem two_phase_locking:
  assumes "own_run t s" "lock_step s e s'" "one_thread t s e" "sys_txns s t = Some x"
  shows "\<exists>x'. sys_txns s' t = Some x' \<and> (txn_state x \<in> {kShrinking, kAborted} \<longrightarrow> held x' \<subseteq> held x) \<and>
    (held x \<subseteq> held x' \<or> txn_state x' \<noteq> kGrowing) \<and> (txn_state x \<noteq> kGrowing \<longrightarrow> txn_state x' \<noteq> kGrowing)"
proof -
  note R = own_run_reachable [OF assms(1)] and O = own_invD [OF own_run_inv [OF assms(1)] assms(4)]
  note I = reachable_lock_inv [OF R]
  from assms(2) have "\<exists>x'. sys_txns s' t = Some x' \<and> two_phase x x'"
  proof (cases rule: lock_step.cases)
    case (step_begin arg u lvl' lvl tm' txn)
    then have "t \<noteq> txn_id txn" using assms(4) by auto
    then show ?thesis
      using Begin_effect(1) [OF step_begin(4,3)] assms(4) by (simp add: step_begin(2) sys_txns_def two_phase_same)
  next
    case (step_call u txn oper rid)
    then show ?thesis using assms(4) by (auto simp: two_phase_same)
  next
    case (step_prepare u txn oper rid txn' a)
    then show ?thesis using assms(4) lock_prepare_result(1) [OF step_prepare(5)] by (auto simp: two_phase_same)
  next
    case (step_latch u txn oper rid lm' txn' out)
    have c: "call_ok (sys_lm s) (sys_txns s) (sys_at s) u txn rid (lm', txn', out)"
      using lock_latched_ok [OF I step_latch(3), of rid oper] step_latch by simp
    have "u = t \<Longrightarrow> txn_state txn \<notin> {kShrinking, kAborted}" using O(1) step_latch(3,4) assms(4) by auto
    then show ?thesis using two_phase_call [OF c] assms(4) step_latch(2,3) by (cases "u = t") (auto simp: two_phase_same)
  next
    case (step_wake u txn w rid lm' txn' out)
    have c: "call_ok (sys_lm s) (sys_txns s) (sys_at s) u txn rid (lm', txn', out)"
      using lock_wake_ok [OF I step_wake(3,4)] step_wake by simp
    have "u = t \<Longrightarrow> txn_state txn \<notin> {kShrinking, kAborted} \<or> out = TxnAbortException kDeadlock"
      using O(2) step_wake(3-5) assms(4) wake_abort_ok(1) [OF I step_wake(3,4)] by auto
    then show ?thesis using two_phase_call [OF c] assms(4) step_wake(2,3) by (cases "u = t") (auto simp: two_phase_same)
  next
    case (step_unlock u txn rid lm' txn' ok)
    then show ?thesis
      using two_phase_unlock [OF I step_unlock(3,4)] assms(4) by (cases "u = t") (auto simp: two_phase_same)
  next
    case (step_end u txn st)
    then show ?thesis using assms(4) by (cases "u = t") (auto simp: two_phase_def held_def)
  next
    case (step_release u txn rs rid rids rs' lm' txn' ok)
    then show ?thesis
      using two_phase_unlock [OF I step_release(3,5)] assms(4) by (cases "u = t") (auto simp: two_phase_same)
  next
    case (step_detect lm' txns')
    obtain V where V: "txns' = abort_all V (sys_txns s)"
      using cycle_detection_effect [of "sys_lm s" "sys_txns s"] step_detect(3) by auto
    show ?thesis using assms(4) by (auto simp: step_detect(2) V abort_all_def two_phase_same)
  qed (use assms(4) in \<open>auto simp: two_phase_same\<close>)
  then show ?thesis unfolding two_phase_def .
qed

theorem two_phase_locking_witness:
  "\<exists>s s' x'. own_run 0 s \<and> lock_step s (EvUnlock 0 example_rid) s' \<and> sys_txns s' 0 = Some x' \<and>
     (example_rid \<in> held x' \<or> txn_state x' \<noteq> kGrowing)"
proof -
  obtain s where 1: "\<forall>u. own_run u s" "sys_txns s = [0 \<mapsto> exclusive_emplace example_rid (example_txn 0), 1 \<mapsto> example_txn 1]"
    "sys_at s = Map.empty" "sys_releases s = []" by (rule example_exclusive)
  let ?x = "exclusive_emplace example_rid (example_txn 0)"
  have x: "sys_txns s 0 = Some ?x" using 1(2) by simp
  obtain lm' x' ok where u: "Unlock ?x example_rid (sys_lm s) = (lm', x', ok)" using prod_cases3 by blast
  have st: "lock_step s (EvUnlock 0 example_rid) (sys_put 0 (lm', x') s)" by (rule step_unlock [OF x u])
  have "one_thread 0 s (EvUnlock 0 example_rid)" using 1(3,4) by (simp add: one_thread_def releasing_def)
  from two_phase_locking [OF _ st this x] 1(1) st show ?thesis by (fastforce simp: held_def)
qed

text \<open>What is left of a transaction in the lock table after its rows have been released.\<close>

definition left_alone :: "lock_sys \<Rightarrow> txn_id_t \<Rightarrow> LockManager \<Rightarrow> bool" where
  "left_alone s t lm' \<longleftrightarrow>
     (\<forall>rid r. GetLockRequestIter t (queue_at rid lm') = Some r \<longrightarrow> granted r = kNone \<and>
        (sys_at s t = Some (AtWait WShared rid) \<or> sys_at s t = Some (AtWait WExclusive rid))) \<and>
     (\<forall>u rid. u \<noteq> t \<longrightarrow> GetLockRequestIter u (queue_at rid lm') = GetLockRequestIter u (queue_at rid (sys_lm s)))"

text \<open>C27. \<^verbatim>\<open>Commit\<close> and \<^verbatim>\<open>Abort\<close> release everything. Run in one piece, by any thread and in any reachable state, they leave the transaction
  without rows and in the state they set, and all requests of the others as they were; the only request of it that may be left is the
  ungranted one with which its own thread is still waiting (so none when it is not waiting). Interleaved in any way with the
  threads of other transactions, for a transaction whose calls are made by one thread: when the release loop has come to its end, the transaction
  holds no row and no queue of the lock table has a request of it.\<close>

theorem Commit_Abort_release:
  assumes "reachable s" "sys_txns s t = Some x"
  shows "(\<exists>lm' x'. Commit x (sys_lm s) = (lm', x') \<and> txn_state x' = kCommitted \<and> held x' = {} \<and> left_alone s t lm') \<and>
    (\<exists>lm' x'. Abort x (sys_lm s) = (lm', x') \<and> txn_state x' = kAborted \<and> held x' = {} \<and> left_alone s t lm') \<and>
    (own_run t s \<and> lock_step s (EvReleased t) s' \<longrightarrow> sys_txns s' t = Some x \<and> txn_state x \<in> {kCommitted, kAborted} \<and> held x = {} \<and>
       (\<forall>rid. GetLockRequestIter t (queue_at rid (sys_lm s')) = None))"
proof -
  note I = reachable_lock_inv [OF assms(1)]
  have piece: "\<exists>lm' x'. ReleaseLocks (SetState st x) (sys_lm s) = (lm', x') \<and> txn_state x' = st \<and> held x' = {} \<and> left_alone s t lm'"
    if "st \<noteq> kGrowing" for st
  proof -
    obtain lm' x' where r: "ReleaseLocks (SetState st x) (sys_lm s) = (lm', x')" by (cases "ReleaseLocks (SetState st x) (sys_lm s)")
    note R = Release_ok [OF I assms(2) that r]
    have "granted r = kNone \<and> (sys_at s t = Some (AtWait WShared rid) \<or> sys_at s t = Some (AtWait WExclusive rid))"
      if "GetLockRequestIter t (queue_at rid (sys_lm s)) = Some r" "rid \<notin> held x" for rid r
      using lock_invD(3) [OF I assms(2), of rid] that by (cases "granted r") (auto simp: row_link_def held_def)
    then have "left_alone s t lm'" using R(3) by (auto simp: left_alone_def split: if_splits)
    with R(1,2) r show ?thesis by blast
  qed
  have own: "sys_txns s' t = Some x \<and> txn_state x \<in> {kCommitted, kAborted} \<and> held x = {} \<and>
       (\<forall>rid. GetLockRequestIter t (queue_at rid (sys_lm s')) = None)"
    if o: "own_run t s" and st: "lock_step s (EvReleased t) s'"
    using st
  proof (cases rule: lock_step.cases)
    case (step_released rs rs')
    have "(t, Some []) \<in> set (sys_releases s)" using step_released by simp
    from released_nothing [OF assms(1) own_run_inv [OF o] assms(2) this] show ?thesis using step_released assms(2) by simp
  qed
  show ?thesis using piece [of kCommitted] piece [of kAborted] own by (simp add: Commit_def Abort_def)
qed

text \<open>The first transaction of the example locks a row, commits and releases it.\<close>

theorem Commit_Abort_release_witness:
  "\<exists>s s' x. own_run 0 s \<and> lock_step s (EvReleased 0) s' \<and> sys_txns s' 0 = Some x \<and> txn_state x = kCommitted \<and>
     GetLockRequestIter 0 (queue_at example_rid (sys_lm s')) = None"
proof -
  let ?x0 = "exclusive_emplace example_rid (example_txn 0)"
  let ?x1 = "SetState kCommitted ?x0"
  obtain s where 1: "\<forall>u. own_run u s" "sys_txns s = [0 \<mapsto> ?x0, 1 \<mapsto> example_txn 1]" "sys_at s = Map.empty" "sys_releases s = []"
    by (rule example_exclusive)
  let ?s1 = "(sys_put 0 (sys_lm s, ?x1) s)\<lparr>sys_releases := (0, None) # sys_releases s\<rparr>"
  have "lock_step s (EvEnd 0 kCommitted) ?s1" by (rule step_end) (use 1(2) in simp_all)
  then have r1: "own_run 0 ?s1" using own_step 1 by (metis (no_types) empty_iff fst_conv image_empty list.set(1) one_thread_def releasing_def)
  let ?s2 = "?s1\<lparr>sys_releases := [] @ (0, Some [example_rid]) # []\<rparr>"
  have "lock_step ?s1 (EvCollect 0) ?s2" by (rule step_collect [where txn = ?x1]) (simp_all add: 1 held_def)
  then have r2: "own_run 0 ?s2" by (rule own_step [OF r1]) (simp add: one_thread_def)
  obtain lm' x' ok where u: "Unlock ?x1 example_rid (sys_lm ?s2) = (lm', x', ok)" using prod_cases3 by blast
  let ?s3 = "(sys_put 0 (lm', x') ?s2)\<lparr>sys_releases := [] @ (0, Some []) # []\<rparr>"
  have "lock_step ?s2 (EvRelease 0) ?s3" by (rule step_release [OF _ _ u]) simp_all
  then have r3: "own_run 0 ?s3" by (rule own_step [OF r2]) (simp add: one_thread_def)
  have "lock_step ?s3 (EvReleased 0) (?s3\<lparr>sys_releases := [] @ []\<rparr>)" by (rule step_released) simp
  moreover have "txn_state x' = kCommitted"
    using Unlock_ok(3) [OF reachable_lock_inv [OF own_run_reachable [OF r2]] _ u, of 0] by simp
  moreover have "sys_txns ?s3 0 = Some x'" by simp
  ultimately show ?thesis using Commit_Abort_release [OF own_run_reachable [OF r3], of 0 x'] r3 by blast
qed

section \<open>Calls by other threads\<close>

text \<open>Without the assumption that one thread makes the calls of a transaction, two-phase locking fails: a transaction waits for a row, another
  thread unlocks a row it holds, so that it is shrinking, and when it wakes it is granted the row it waits for, because
  \<^verbatim>\<open>CheckAbort\<close> looks for an aborted transaction only.\<close>

definition other_rid :: RowId where "other_rid = mk_RowId 2 4"

lemma example_rids [simp]: "other_rid \<noteq> example_rid" "example_rid \<noteq> other_rid"
  by (simp_all add: other_rid_def example_rid_def mk_RowId_def)

theorem foreign_unlock_breaks_two_phase:
  "\<exists>s s' x x'. reachable s \<and> lock_step s (EvWake 0 (Returns True)) s' \<and> sys_txns s 0 = Some x \<and> sys_txns s' 0 = Some x' \<and>
     txn_state x = kShrinking \<and> held x = {} \<and> held x' = {other_rid}"
proof -
  note B = example_begun_facts
  let ?r = "\<lambda>t g. \<lparr>lr_txn_id = t, lock_mode = kExclusive, granted = g\<rparr>"
  let ?q = "\<lambda>rs ts w. \<lparr>req_list = rs, req_list_iter_map = ts, is_writing = w, is_upgrading = False, sharing_cnt = 0\<rparr>"
  let ?lm1 = "put_queue example_rid (?q [?r 0 kExclusive] [0] True) (sys_lm example_begun)"
  let ?lm2 = "put_queue other_rid (?q [?r 1 kExclusive] [1] True) ?lm1"
  let ?lm3 = "put_queue other_rid (?q [?r 0 kNone, ?r 1 kExclusive] [0, 1] True) ?lm1"
  let ?x = "\<lambda>t rid. exclusive_emplace rid (example_txn t)"
  note defs = LockExclusive_latched_def EmplaceLockRequest_def empty_queue_def exclusive_loop_def Let_def at_iter_def mk_LockRequest_def
  have l1: "lock_latched CallExclusive (example_txn 0) example_rid (sys_lm example_begun) = (?lm1, ?x 0 example_rid, Returns True)"
    by (simp add: defs B(5))
  define s1 where "s1 = sys_after 0 None (?lm1, ?x 0 example_rid) example_begun"
  have s1: "own_run 5 s1" using own_call [OF B(1) _ _ B(4) _ l1] by (simp add: B(2,3) LockPrepare_def s1_def)
  have l2: "lock_latched CallExclusive (example_txn 1) other_rid (sys_lm s1) = (?lm2, ?x 1 other_rid, Returns True)"
    by (simp add: defs B(5) s1_def)
  define s2 where "s2 = sys_after 1 None (?lm2, ?x 1 other_rid) s1"
  have s2: "own_run 5 s2" using own_call [OF s1 _ _ _ _ l2] by (simp add: s1_def B(2-4) LockPrepare_def s2_def)
  have l3: "lock_latched CallExclusive (?x 0 example_rid) other_rid (sys_lm s2) = (?lm3, ?x 0 example_rid, Wait WExclusive)"
    by (simp add: defs s2_def exclusive_emplace_def)
  define s3 where "s3 = sys_after 0 (Some (AtWait WExclusive other_rid)) (?lm3, ?x 0 example_rid) s2"
  have s3: "reachable s3"
    using own_run_reachable [OF own_call [OF s2 _ _ _ _ l3]] by (simp add: s1_def s2_def B(2-4) LockPrepare_def s3_def)
  let ?lm4 = "put_queue example_rid (?q [] [] False) ?lm3" and ?x4 = "SetState kShrinking (exclusive_erase example_rid (?x 0 example_rid))"
  have u4: "Unlock (?x 0 example_rid) example_rid (sys_lm s3) = (?lm4, ?x4, True)"
    by (simp add: Unlock_def s3_def put_queue_def update_conv' GetLockRequestIter_def EraseLockRequest_def Let_def)
  define s4 where "s4 = sys_put 0 (?lm4, ?x4) s3"
  have s4: "reachable s4" unfolding s4_def by (rule reach_step [OF s3 step_unlock [OF _ u4]]) (simp add: s3_def)
  let ?lm5 = "put_queue other_rid (?q [?r 0 kNone] [0] False) ?lm4" and ?x5 = "SetState kShrinking (exclusive_erase other_rid (?x 1 other_rid))"
  have u5: "Unlock (?x 1 other_rid) other_rid (sys_lm s4) = (?lm5, ?x5, True)"
    by (simp add: Unlock_def s4_def put_queue_def update_conv' GetLockRequestIter_def EraseLockRequest_def Let_def)
  define s5 where "s5 = sys_put 1 (?lm5, ?x5) s4"
  have s5: "reachable s5" unfolding s5_def by (rule reach_step [OF s4 step_unlock [OF _ u5]]) (simp add: s4_def s3_def s2_def)
  let ?x6 = "exclusive_emplace other_rid ?x4"
  obtain lm6 where w: "lock_wake WExclusive ?x4 other_rid (sys_lm s5) = (lm6, ?x6, Returns True)"
    by (auto simp: lock_wake_def CheckAbort_def s5_def exclusive_loop_def Let_def)
  have "lock_step s5 (EvWake 0 (Returns True)) (sys_after 0 (next_at other_rid (Returns True)) (lm6, ?x6) s5)"
    by (rule step_wake [OF _ _ w]) (simp_all add: s5_def s4_def s3_def)
  moreover have "sys_txns s5 0 = Some ?x4" by (simp add: s5_def s4_def)
  moreover have "held ?x4 = {}" "held ?x6 = {other_rid}" by (simp_all add: held_def)
  ultimately show ?thesis using s5 by (intro exI [of _ s5] exI [of _ "sys_after 0 None (lm6, ?x6) s5"] exI [of _ ?x4] exI [of _ ?x6]) simp
qed

end
