(* ===== verification/Recovery.thy ===== *)
theory Recovery
  imports MiniSQL_Prelude "HOL-Library.AList" "HOL-Library.Sublist"
begin

text \<open>
  Log records and recovery (\<^verbatim>\<open>src/include/recovery/log_rec.h\<close>,
  \<^verbatim>\<open>src/include/recovery/recovery_manager.h\<close>). The static members of \<^verbatim>\<open>LogRec\<close> are a state that the
  \<^verbatim>\<open>Create...Log\<close> functions thread; \<^verbatim>\<open>log_recs_\<close>, a \<^verbatim>\<open>std::map\<close>, is an association list sorted by LSN;
  the table of active transactions is an association list in hash order. The walk along the
  \<^verbatim>\<open>prev_lsn_\<close> chain carries fuel, one more than there are records; \<open>recovery_correct\<close> shows that it is
  never used up on the log of a run.
\<close>

section \<open>Log records\<close>

datatype LogRecType = kInvalid | kInsert | kDelete | kUpdate | kBegin | kCommit | kAbort

type_synonym KeyType = string
type_synonym ValType = int

record LogRec =
  log_type :: LogRecType
  log_lsn :: lsn_t
  log_prev_lsn :: lsn_t
  log_txn_id :: txn_id_t
  old_key :: KeyType
  old_val :: ValType
  new_key :: KeyType
  new_val :: ValType

definition LogRec_default :: LogRec where
  "LogRec_default = \<lparr>log_type = kInvalid, log_lsn = INVALID_LSN, log_prev_lsn = INVALID_LSN,
     log_txn_id = INVALID_TXN_ID, old_key = [], old_val = 0, new_key = [], new_val = 0\<rparr>"

record log_state =
  next_lsn :: lsn_t
  prev_lsn_map :: "txn_id_t \<rightharpoonup> lsn_t"

definition log_state_init :: log_state where
  "log_state_init = \<lparr>next_lsn = 0, prev_lsn_map = Map.empty\<rparr>"

text \<open>The part the functions share: number the record, link it to the transaction's last one and remember it.\<close>

definition prev_of :: "log_state \<Rightarrow> txn_id_t \<Rightarrow> lsn_t" where
  "prev_of ls t = (case prev_lsn_map ls t of None \<Rightarrow> INVALID_LSN | Some l \<Rightarrow> l)"

definition log_advance :: "txn_id_t \<Rightarrow> log_state \<Rightarrow> log_state" where
  "log_advance t ls = \<lparr>next_lsn = next_lsn ls + 1, prev_lsn_map = (prev_lsn_map ls)(t \<mapsto> next_lsn ls)\<rparr>"

definition CreateInsertLog :: "txn_id_t \<Rightarrow> KeyType \<Rightarrow> ValType \<Rightarrow> log_state \<Rightarrow> log_state \<times> LogRec" where
  "CreateInsertLog t ins_key ins_val ls =
     (log_advance t ls, LogRec_default\<lparr>log_type := kInsert, log_txn_id := t, log_lsn := next_lsn ls,
        log_prev_lsn := prev_of ls t, new_key := ins_key, new_val := ins_val\<rparr>)"

definition CreateDeleteLog :: "txn_id_t \<Rightarrow> KeyType \<Rightarrow> ValType \<Rightarrow> log_state \<Rightarrow> log_state \<times> LogRec" where
  "CreateDeleteLog t del_key del_val ls =
     (log_advance t ls, LogRec_default\<lparr>log_type := kDelete, log_txn_id := t, log_lsn := next_lsn ls,
        log_prev_lsn := prev_of ls t, old_key := del_key, old_val := del_val\<rparr>)"

definition CreateUpdateLog ::
  "txn_id_t \<Rightarrow> KeyType \<Rightarrow> ValType \<Rightarrow> KeyType \<Rightarrow> ValType \<Rightarrow> log_state \<Rightarrow> log_state \<times> LogRec" where
  "CreateUpdateLog t ok ov nk nv ls =
     (log_advance t ls, LogRec_default\<lparr>log_type := kUpdate, log_txn_id := t, log_lsn := next_lsn ls,
        log_prev_lsn := prev_of ls t, old_key := ok, old_val := ov, new_key := nk, new_val := nv\<rparr>)"

definition CreateBeginLog :: "txn_id_t \<Rightarrow> log_state \<Rightarrow> log_state \<times> LogRec" where
  "CreateBeginLog t ls =
     (log_advance t ls, LogRec_default\<lparr>log_type := kBegin, log_txn_id := t, log_lsn := next_lsn ls,
        log_prev_lsn := INVALID_LSN\<rparr>)"

definition CreateCommitLog :: "txn_id_t \<Rightarrow> log_state \<Rightarrow> log_state \<times> LogRec" where
  "CreateCommitLog t ls =
     (log_advance t ls, LogRec_default\<lparr>log_type := kCommit, log_txn_id := t, log_lsn := next_lsn ls,
        log_prev_lsn := prev_of ls t\<rparr>)"

definition CreateAbortLog :: "txn_id_t \<Rightarrow> log_state \<Rightarrow> log_state \<times> LogRec" where
  "CreateAbortLog t ls =
     (log_advance t ls, LogRec_default\<lparr>log_type := kAbort, log_txn_id := t, log_lsn := next_lsn ls,
        log_prev_lsn := prev_of ls t\<rparr>)"

section \<open>The recovery manager\<close>

type_synonym KvDatabase = "KeyType \<rightharpoonup> ValType"
type_synonym ATT = "(txn_id_t \<times> lsn_t) list"

record CheckPoint =
  checkpoint_lsn :: lsn_t
  cp_active_txns :: ATT
  cp_persist_data :: KvDatabase

definition CheckPoint_init :: CheckPoint where
  "CheckPoint_init = \<lparr>checkpoint_lsn = INVALID_LSN, cp_active_txns = [], cp_persist_data = Map.empty\<rparr>"

definition AddActiveTxn :: "txn_id_t \<Rightarrow> lsn_t \<Rightarrow> CheckPoint \<Rightarrow> CheckPoint" where
  "AddActiveTxn t last_lsn cp = cp\<lparr>cp_active_txns := AList.update t last_lsn (cp_active_txns cp)\<rparr>"

definition AddData :: "KeyType \<Rightarrow> ValType \<Rightarrow> CheckPoint \<Rightarrow> CheckPoint" where
  "AddData key val cp =
     (if cp_persist_data cp key = None then cp\<lparr>cp_persist_data := (cp_persist_data cp)(key \<mapsto> val)\<rparr> else cp)"

record RecoveryManager =
  log_recs :: "(lsn_t \<times> LogRec) list"
  persist_lsn :: lsn_t
  active_txns :: ATT
  rm_data :: KvDatabase

definition RecoveryManager_init :: RecoveryManager where
  "RecoveryManager_init = \<lparr>log_recs = [], persist_lsn = INVALID_LSN, active_txns = [], rm_data = Map.empty\<rparr>"

definition RecoveryManager_Init :: "CheckPoint \<Rightarrow> RecoveryManager \<Rightarrow> RecoveryManager" where
  "RecoveryManager_Init cp rm =
     rm\<lparr>persist_lsn := checkpoint_lsn cp, active_txns := cp_active_txns cp, rm_data := cp_persist_data cp\<rparr>"

definition AppendLogRec :: "LogRec \<Rightarrow> RecoveryManager \<Rightarrow> RecoveryManager" where
  "AppendLogRec r rm =
     (if log_lsn r \<in> fst ` set (log_recs rm) then rm
      else rm\<lparr>log_recs := insort_key fst (log_lsn r, r) (log_recs rm)\<rparr>)"

definition GetDatabase :: "RecoveryManager \<Rightarrow> KvDatabase" where
  "GetDatabase rm = rm_data rm"

fun undo_rec :: "LogRec \<Rightarrow> KvDatabase \<Rightarrow> KvDatabase" where
  "undo_rec r d =
     (case log_type r of
        kInsert \<Rightarrow> d(new_key r := None)
      | kDelete \<Rightarrow> d(old_key r \<mapsto> old_val r)
      | kUpdate \<Rightarrow> (if old_key r \<noteq> new_key r then d(new_key r := None) else d)(old_key r \<mapsto> old_val r)
      | _ \<Rightarrow> d)"

fun UndoTxn :: "nat \<Rightarrow> (lsn_t \<times> LogRec) list \<Rightarrow> lsn_t \<Rightarrow> KvDatabase \<Rightarrow> KvDatabase option" where
  "UndoTxn 0 recs current_lsn d = None"
| "UndoTxn (Suc n) recs current_lsn d =
     (if current_lsn = INVALID_LSN then Some d
      else case map_of recs current_lsn of
             None \<Rightarrow> Some d
           | Some r \<Rightarrow> if log_type r = kBegin then Some d
                       else UndoTxn n recs (log_prev_lsn r) (undo_rec r d))"

fun redo_data :: "LogRec \<Rightarrow> KvDatabase \<Rightarrow> KvDatabase" where
  "redo_data r d =
     (case log_type r of
        kInsert \<Rightarrow> d(new_key r \<mapsto> new_val r)
      | kDelete \<Rightarrow> d(old_key r := None)
      | kUpdate \<Rightarrow> (if old_key r \<noteq> new_key r then d(old_key r := None) else d)(new_key r \<mapsto> new_val r)
      | _ \<Rightarrow> d)"

definition redo_step :: "LogRec \<Rightarrow> RecoveryManager \<Rightarrow> RecoveryManager option" where
  "redo_step r rm =
     (case log_type r of
        kCommit \<Rightarrow> Some (rm\<lparr>active_txns := AList.delete (log_txn_id r) (active_txns rm)\<rparr>)
      | kAbort \<Rightarrow>
          (case UndoTxn (Suc (length (log_recs rm))) (log_recs rm) (log_prev_lsn r) (rm_data rm) of
             None \<Rightarrow> None
           | Some d \<Rightarrow> Some (rm\<lparr>rm_data := d, active_txns := AList.delete (log_txn_id r) (active_txns rm)\<rparr>))
      | kInvalid \<Rightarrow> Some rm
      | _ \<Rightarrow> Some (rm\<lparr>rm_data := redo_data r (rm_data rm),
                    active_txns := AList.update (log_txn_id r) (log_lsn r) (active_txns rm)\<rparr>))"

fun redo_all :: "LogRec list \<Rightarrow> RecoveryManager \<Rightarrow> RecoveryManager option" where
  "redo_all [] rm = Some rm"
| "redo_all (r # rs) rm = (case redo_step r rm of None \<Rightarrow> None | Some rm \<Rightarrow> redo_all rs rm)"

definition RedoPhase :: "RecoveryManager \<Rightarrow> RecoveryManager option" where
  "RedoPhase rm = redo_all (map snd (log_recs rm)) rm"

fun undo_all :: "ATT \<Rightarrow> RecoveryManager \<Rightarrow> RecoveryManager option" where
  "undo_all [] rm = Some rm"
| "undo_all ((t, l) # ts) rm =
     (case UndoTxn (Suc (length (log_recs rm))) (log_recs rm) l (rm_data rm) of
        None \<Rightarrow> None
      | Some d \<Rightarrow> undo_all ts (rm\<lparr>rm_data := d, active_txns := AList.delete t (active_txns rm)\<rparr>))"

definition UndoPhase :: "RecoveryManager \<Rightarrow> RecoveryManager option" where
  "UndoPhase rm = undo_all (active_txns rm) rm"

text \<open>Recovery as the test drives it: load the checkpoint, append the log, redo, undo.\<close>

definition recover :: "CheckPoint \<Rightarrow> LogRec list \<Rightarrow> RecoveryManager option" where
  "recover cp logs =
     (case RedoPhase (fold AppendLogRec logs (RecoveryManager_Init cp RecoveryManager_init)) of
        None \<Rightarrow> None
      | Some rm \<Rightarrow> UndoPhase rm)"

section \<open>Runs of transactions\<close>

text \<open>
  The specification: transactions run one action at a time on a database and log each action. \<open>run_data\<close>
  is the database they see, \<open>run_committed\<close> what it would be with the committed transactions alone, and
  \<open>run_active\<close> the records of each active transaction, newest first. A key that an active
  transaction has written is written by no other before that one ends, as strict two-phase
  locking makes sure.
\<close>

record run =
  run_ls :: log_state
  run_log :: "LogRec list"
  run_data :: KvDatabase
  run_committed :: KvDatabase
  run_active :: "txn_id_t \<rightharpoonup> LogRec list"

definition override :: "KvDatabase \<Rightarrow> (KeyType \<rightharpoonup> ValType option) \<Rightarrow> KvDatabase" where
  "override d p = (\<lambda>k. case p k of None \<Rightarrow> d k | Some v \<Rightarrow> v)"

text \<open>The values a record, or a transaction's records, found and left.\<close>

definition pre_image :: "LogRec \<Rightarrow> KeyType \<rightharpoonup> ValType option" where
  "pre_image r =
     (case log_type r of
        kInsert \<Rightarrow> [new_key r \<mapsto> None]
      | kDelete \<Rightarrow> [old_key r \<mapsto> Some (old_val r)]
      | kUpdate \<Rightarrow> [new_key r \<mapsto> None, old_key r \<mapsto> Some (old_val r)]
      | _ \<Rightarrow> Map.empty)"

definition post_image :: "LogRec \<Rightarrow> KeyType \<rightharpoonup> ValType option" where
  "post_image r =
     (case log_type r of
        kInsert \<Rightarrow> [new_key r \<mapsto> Some (new_val r)]
      | kDelete \<Rightarrow> [old_key r \<mapsto> None]
      | kUpdate \<Rightarrow> [old_key r \<mapsto> None, new_key r \<mapsto> Some (new_val r)]
      | _ \<Rightarrow> Map.empty)"

fun restore :: "LogRec list \<Rightarrow> KeyType \<rightharpoonup> ValType option" where
  "restore [] = Map.empty"
| "restore (r # rs) = pre_image r ++ restore rs"

definition touched :: "LogRec list \<Rightarrow> KeyType set" where
  "touched rs = (\<Union>r \<in> set rs. dom (pre_image r))"

definition run_init :: "KvDatabase \<Rightarrow> run" where
  "run_init db = \<lparr>run_ls = log_state_init, run_log = [], run_data = db, run_committed = db, run_active = Map.empty\<rparr>"

text \<open>A write by \<open>t\<close>: the record holds the values the database has, and no other active transaction has
  written its keys.\<close>

definition write_ok :: "run \<Rightarrow> txn_id_t \<Rightarrow> LogRec \<Rightarrow> bool" where
  "write_ok s t r \<longleftrightarrow> log_type r \<in> {kInsert, kDelete, kUpdate} \<and>
     (\<forall>k v. pre_image r k = Some v \<longrightarrow> run_data s k = v) \<and>
     (\<forall>t' ch. run_active s t' = Some ch \<longrightarrow> t' \<noteq> t \<longrightarrow> dom (pre_image r) \<inter> dom (restore ch) = {})"

inductive history :: "KvDatabase \<Rightarrow> run \<Rightarrow> bool" for db where
  hist_init: "history db (run_init db)"
| hist_begin: "history db s \<Longrightarrow> run_active s t = None \<Longrightarrow> CreateBeginLog t (run_ls s) = (ls', r) \<Longrightarrow>
    history db (s\<lparr>run_ls := ls', run_log := run_log s @ [r], run_active := (run_active s)(t \<mapsto> [r])\<rparr>)"
| hist_write: "history db s \<Longrightarrow> run_active s t = Some ch \<Longrightarrow>
    (ls', r) \<in> {CreateInsertLog t nk nv (run_ls s), CreateDeleteLog t ok ov (run_ls s),
                 CreateUpdateLog t ok ov nk nv (run_ls s)} \<Longrightarrow> write_ok s t r \<Longrightarrow>
    history db (s\<lparr>run_ls := ls', run_log := run_log s @ [r], run_data := redo_data r (run_data s),
                 run_active := (run_active s)(t \<mapsto> r # ch)\<rparr>)"
| hist_commit: "history db s \<Longrightarrow> run_active s t = Some ch \<Longrightarrow> CreateCommitLog t (run_ls s) = (ls', r) \<Longrightarrow>
    history db (s\<lparr>run_ls := ls', run_log := run_log s @ [r],
                 run_committed := (\<lambda>k. if k \<in> dom (restore ch) then run_data s k else run_committed s k),
                 run_active := (run_active s)(t := None)\<rparr>)"
| hist_abort: "history db s \<Longrightarrow> run_active s t = Some ch \<Longrightarrow> CreateAbortLog t (run_ls s) = (ls', r) \<Longrightarrow>
    history db (s\<lparr>run_ls := ls', run_log := run_log s @ [r], run_data := override (run_data s) (restore ch),
                 run_active := (run_active s)(t := None)\<rparr>)"

section \<open>Images\<close>

lemma undo_rec_override: "undo_rec r d = override d (pre_image r)"
  by (auto simp: override_def pre_image_def fun_eq_iff split: LogRecType.splits)

lemma redo_data_override: "redo_data r d = override d (post_image r)"
  by (auto simp: override_def post_image_def fun_eq_iff split: LogRecType.splits)

lemma dom_post_image: "dom (post_image r) = dom (pre_image r)"
  by (auto simp: pre_image_def post_image_def split: LogRecType.splits)

declare undo_rec.simps [simp del] redo_data.simps [simp del]

lemma override_override: "override (override d p) q = override d (p ++ q)"
  by (auto simp: override_def map_add_def fun_eq_iff split: option.splits)

lemma override_apply:
  "k \<notin> dom p \<Longrightarrow> override d p k = d k" "p k = Some v \<Longrightarrow> override d p k = v"
  by (auto simp: override_def domIff)

lemma touched_snoc [simp]: "touched (rs @ [r]) = touched rs \<union> dom (pre_image r)"
  by (auto simp: touched_def)

lemma dom_restore: "dom (restore ch) = touched ch"
  by (induction ch) (auto simp: touched_def)

section \<open>The invariant of a run\<close>

text \<open>A transaction's records: linked by their LSNs down to its begin record.\<close>

fun linked :: "LogRec list \<Rightarrow> bool" where
  "linked [] \<longleftrightarrow> False"
| "linked [r] \<longleftrightarrow> log_type r = kBegin"
| "linked (r # r' # rs) \<longleftrightarrow> log_type r \<noteq> kBegin \<and> log_prev_lsn r = log_lsn r' \<and> linked (r' # rs)"

definition chain_ok :: "run \<Rightarrow> txn_id_t \<Rightarrow> LogRec list \<Rightarrow> bool" where
  "chain_ok s t ch \<longleftrightarrow> linked ch \<and> set ch \<subseteq> set (run_log s) \<and> (\<forall>r \<in> set ch. log_txn_id r = t) \<and>
     length ch \<le> length (run_log s) \<and> prev_lsn_map (run_ls s) t = Some (log_lsn (hd ch)) \<and>
     (\<forall>k v. restore ch k = Some v \<longrightarrow> run_committed s k = v)"

definition run_ok :: "KvDatabase \<Rightarrow> run \<Rightarrow> bool" where
  "run_ok db s \<longleftrightarrow> map log_lsn (run_log s) = map int [0..<length (run_log s)] \<and>
     next_lsn (run_ls s) = int (length (run_log s)) \<and>
     (\<forall>t ch. run_active s t = Some ch \<longrightarrow> chain_ok s t ch) \<and>
     (\<forall>k. (\<forall>t ch. run_active s t = Some ch \<longrightarrow> k \<notin> dom (restore ch)) \<longrightarrow> run_data s k = run_committed s k) \<and>
     (\<forall>t ch t' ch'. run_active s t = Some ch \<longrightarrow> run_active s t' = Some ch' \<longrightarrow> t \<noteq> t' \<longrightarrow>
        dom (restore ch) \<inter> dom (restore ch') = {}) \<and>
     (\<forall>k. k \<notin> touched (run_log s) \<longrightarrow> run_data s k = db k \<and> run_committed s k = db k)"

lemma run_okD:
  assumes "run_ok db s"
  shows "map log_lsn (run_log s) = map int [0..<length (run_log s)]" "next_lsn (run_ls s) = int (length (run_log s))"
    "run_active s t = Some ch \<Longrightarrow> chain_ok s t ch"
    "(\<And>t ch. run_active s t = Some ch \<Longrightarrow> k \<notin> dom (restore ch)) \<Longrightarrow> run_data s k = run_committed s k"
    "run_active s t = Some ch \<Longrightarrow> run_active s t' = Some ch' \<Longrightarrow> t \<noteq> t' \<Longrightarrow> dom (restore ch) \<inter> dom (restore ch') = {}"
    "k \<notin> touched (run_log s) \<Longrightarrow> run_data s k = db k" "k \<notin> touched (run_log s) \<Longrightarrow> run_committed s k = db k"
  using assms unfolding run_ok_def by blast+

text \<open>What the creators produce, as one fact: the record after \<open>log_advance\<close>.\<close>

definition next_rec :: "run \<Rightarrow> txn_id_t \<Rightarrow> log_state \<Rightarrow> LogRec \<Rightarrow> bool" where
  "next_rec s t ls' r \<longleftrightarrow> ls' = log_advance t (run_ls s) \<and> log_lsn r = next_lsn (run_ls s) \<and> log_txn_id r = t \<and>
     (log_type r \<noteq> kBegin \<longrightarrow> log_prev_lsn r = prev_of (run_ls s) t)"

lemma next_rec_creators:
  "CreateBeginLog t (run_ls s) = (ls', r) \<Longrightarrow> next_rec s t ls' r \<and> log_type r = kBegin"
  "CreateCommitLog t (run_ls s) = (ls', r) \<Longrightarrow> next_rec s t ls' r \<and> log_type r = kCommit"
  "CreateAbortLog t (run_ls s) = (ls', r) \<Longrightarrow> next_rec s t ls' r \<and> log_type r = kAbort"
  "(ls', r) \<in> {CreateInsertLog t nk nv (run_ls s), CreateDeleteLog t ok ov (run_ls s),
                 CreateUpdateLog t ok ov nk nv (run_ls s)} \<Longrightarrow> next_rec s t ls' r \<and> log_type r \<noteq> kBegin"
  by (auto simp: next_rec_def CreateBeginLog_def CreateCommitLog_def CreateAbortLog_def CreateInsertLog_def
      CreateDeleteLog_def CreateUpdateLog_def)

lemma numbered_snoc:
  assumes "run_ok db s" "next_rec s t ls' r"
  shows "map log_lsn (run_log s @ [r]) = map int [0..<length (run_log s @ [r])]"
    "next_lsn ls' = int (length (run_log s @ [r]))"
  using run_okD(1,2) [OF assms(1)] assms(2) by (simp_all add: next_rec_def log_advance_def)

text \<open>A transaction whose records do not change keeps its chain.\<close>

lemma chain_ok_frame:
  assumes "chain_ok s t' ch" "t' \<noteq> t" "next_rec s t ls' r" "run_ls s' = ls'" "run_log s' = run_log s @ [r]"
    "\<And>k v. restore ch k = Some v \<Longrightarrow> run_committed s' k = run_committed s k"
  shows "chain_ok s' t' ch"
  using assms by (auto simp: chain_ok_def next_rec_def log_advance_def)

lemma run_ok_begin:
  assumes ok: "run_ok db s" and t: "run_active s t = None" and r: "next_rec s t ls' r" "log_type r = kBegin"
  shows "run_ok db (s\<lparr>run_ls := ls', run_log := run_log s @ [r], run_active := (run_active s)(t \<mapsto> [r])\<rparr>)" (is "run_ok db ?s")
proof -
  have p: "pre_image r = Map.empty" using r(2) by (simp add: pre_image_def)
  have new: "chain_ok ?s t [r]"
    using r p by (auto simp: chain_ok_def next_rec_def log_advance_def)
  have old: "chain_ok ?s t' ch" if "run_active s t' = Some ch" "t' \<noteq> t" for t' ch
    by (rule chain_ok_frame [OF run_okD(3) [OF ok that(1)] that(2) r(1)]) simp_all
  have dc: "run_data s k = run_committed s k"
    if "\<And>t' ch. (if t' = t then Some [r] else run_active s t') = Some ch \<Longrightarrow> k \<notin> dom (restore ch)" for k
  proof (rule run_okD(4) [OF ok])
    fix t' ch assume "run_active s t' = Some ch"
    then show "k \<notin> dom (restore ch)" using that [of t' ch] t by (cases "t' = t") auto
  qed
  show ?thesis
    unfolding run_ok_def using numbered_snoc [OF ok r(1)] new old dc run_okD(5-7) [OF ok]
    by (simp add: p)
qed

lemma linked_Cons: "ch \<noteq> [] \<Longrightarrow> linked (r # ch) \<longleftrightarrow> log_type r \<noteq> kBegin \<and> log_prev_lsn r = log_lsn (hd ch) \<and> linked ch"
  by (cases ch) auto

lemma linked_ne: "linked ch \<Longrightarrow> ch \<noteq> []"
  by auto

lemma chain_touched: "chain_ok s t ch \<Longrightarrow> dom (restore ch) \<subseteq> touched (run_log s)"
  by (auto simp: dom_restore chain_ok_def touched_def)

lemma run_ok_write:
  assumes ok: "run_ok db s" and t: "run_active s t = Some ch" and r: "next_rec s t ls' r" "log_type r \<noteq> kBegin"
    and w: "write_ok s t r"
  shows "run_ok db (s\<lparr>run_ls := ls', run_log := run_log s @ [r], run_data := redo_data r (run_data s),
    run_active := (run_active s)(t \<mapsto> r # ch)\<rparr>)" (is "run_ok db ?s")
proof -
  note C = run_okD(3) [OF ok t]
  have sep: "dom (pre_image r) \<inter> dom (restore ch') = {}" if "run_active s t' = Some ch'" "t' \<noteq> t" for t' ch'
    using w that by (auto simp: write_ok_def)
  have com: "run_committed s k = v" if "restore (r # ch) k = Some v" for k v
  proof (cases "restore ch k")
    case None
    with that have v: "pre_image r k = Some v" by (simp add: map_add_def)
    have "k \<notin> dom (restore ch')" if "run_active s t' = Some ch'" for t' ch'
      using that t None sep v by (cases "t' = t") auto
    then have "run_data s k = run_committed s k" by (rule run_okD(4) [OF ok])
    then show ?thesis using w v by (auto simp: write_ok_def)
  qed (use that C in \<open>auto simp: map_add_def chain_ok_def\<close>)
  have new: "chain_ok ?s t (r # ch)"
    using C r com linked_ne [of ch] by (auto simp: chain_ok_def next_rec_def log_advance_def linked_Cons prev_of_def)
  have old: "chain_ok ?s t' ch'" if "run_active s t' = Some ch'" "t' \<noteq> t" for t' ch'
    by (rule chain_ok_frame [OF run_okD(3) [OF ok that(1)] that(2) r(1)]) simp_all
  have dc: "redo_data r (run_data s) k = run_committed s k"
    if k: "\<And>t' ch'. (if t' = t then Some (r # ch) else run_active s t') = Some ch' \<Longrightarrow> k \<notin> dom (restore ch')" for k
  proof -
    have "k \<notin> dom (restore (r # ch))" using k [of t "r # ch"] by simp
    then have nk: "k \<notin> dom (pre_image r)" "k \<notin> dom (restore ch)" by auto
    have "run_data s k = run_committed s k"
    proof (rule run_okD(4) [OF ok])
      fix t' ch' assume "run_active s t' = Some ch'"
      then show "k \<notin> dom (restore ch')" using k [of t' ch'] t nk(2) by (cases "t' = t") auto
    qed
    then show ?thesis using nk(1) by (simp add: redo_data_override override_apply dom_post_image)
  qed
  have disj: "dom (restore c1) \<inter> dom (restore c2) = {}"
    if "(if t1 = t then Some (r # ch) else run_active s t1) = Some c1"
      "(if t2 = t then Some (r # ch) else run_active s t2) = Some c2" "t1 \<noteq> t2" for t1 c1 t2 c2
    using that sep [of t1 c1] sep [of t2 c2] run_okD(5) [OF ok] t by (auto split: if_splits) blast+
  show ?thesis
    unfolding run_ok_def using numbered_snoc [OF ok r(1)] new old dc disj run_okD(6,7) [OF ok]
    by (simp add: redo_data_override override_apply dom_post_image)
qed

lemma run_ok_end:
  assumes ok: "run_ok db s" and t: "run_active s t = Some ch" and r: "next_rec s t ls' r" "log_type r \<in> {kCommit, kAbort}"
    and dat: "\<And>k. k \<notin> dom (restore ch) \<Longrightarrow> data' k = run_data s k \<and> com' k = run_committed s k"
    and eq: "\<And>k. k \<in> dom (restore ch) \<Longrightarrow> data' k = com' k"
  shows "run_ok db (s\<lparr>run_ls := ls', run_log := run_log s @ [r], run_data := data', run_committed := com',
    run_active := (run_active s)(t := None)\<rparr>)" (is "run_ok db ?s")
proof -
  have p: "pre_image r = Map.empty" using r(2) by (auto simp: pre_image_def)
  have T: "dom (restore ch) \<subseteq> touched (run_log s)" by (rule chain_touched [OF run_okD(3) [OF ok t]])
  have old: "chain_ok ?s t' ch'" if "run_active s t' = Some ch'" "t' \<noteq> t" for t' ch'
  proof (rule chain_ok_frame [OF run_okD(3) [OF ok that(1)] that(2) r(1)])
    fix k v assume "restore ch' k = Some v"
    then have "k \<notin> dom (restore ch)" using run_okD(5) [OF ok that(1) t that(2)] by auto
    then show "run_committed ?s k = run_committed s k" using dat by simp
  qed simp_all
  have dc: "data' k = com' k"
    if k: "\<And>t' ch'. t' \<noteq> t \<Longrightarrow> run_active s t' = Some ch' \<Longrightarrow> k \<notin> dom (restore ch')" for k
  proof (cases "k \<in> dom (restore ch)")
    case False
    have "run_data s k = run_committed s k"
    proof (rule run_okD(4) [OF ok])
      fix t' ch' assume "run_active s t' = Some ch'"
      then show "k \<notin> dom (restore ch')" using k [of t' ch'] t False by (cases "t' = t") auto
    qed
    then show ?thesis using dat [OF False] by simp
  qed (rule eq)
  have un: "data' k = db k \<and> com' k = db k" if "k \<notin> touched (run_log s)" for k
    using dat [of k] run_okD(6,7) [OF ok that] T that by auto
  show ?thesis
    unfolding run_ok_def using numbered_snoc [OF ok r(1)] old dc un run_okD(5) [OF ok]
    by (simp add: p)
qed

lemma history_run_ok: "history db s \<Longrightarrow> run_ok db s"
proof (induction rule: history.induct)
  case hist_init
  show ?case by (simp add: run_ok_def run_init_def log_state_init_def)
next
  case (hist_begin s t ls' r)
  then show ?case using next_rec_creators(1) by (intro run_ok_begin) blast+
next
  case (hist_write s t ch ls' r nk nv ok ov)
  then show ?case using next_rec_creators(4) by (intro run_ok_write) blast+
next
  case (hist_commit s t ch ls' r)
  have "run_ok db (s\<lparr>run_ls := ls', run_log := run_log s @ [r], run_data := run_data s,
      run_committed := (\<lambda>k. if k \<in> dom (restore ch) then run_data s k else run_committed s k),
      run_active := (run_active s)(t := None)\<rparr>)"
    by (rule run_ok_end [OF hist_commit(4,2)]) (use next_rec_creators(2) [OF hist_commit(3)] in auto)
  then show ?case by simp
next
  case (hist_abort s t ch ls' r)
  have com: "run_committed s k = v" if "restore ch k = Some v" for k v
    using run_okD(3) [OF hist_abort(4,2)] that by (auto simp: chain_ok_def)
  have "run_ok db (s\<lparr>run_ls := ls', run_log := run_log s @ [r], run_data := override (run_data s) (restore ch),
      run_committed := run_committed s, run_active := (run_active s)(t := None)\<rparr>)"
    by (rule run_ok_end [OF hist_abort(4,2)])
      (use next_rec_creators(3) [OF hist_abort(3)] com in \<open>auto simp: override_apply\<close>)
  then show ?case by simp
qed

section \<open>Recovery follows the run\<close>

definition keyed :: "LogRec list \<Rightarrow> (lsn_t \<times> LogRec) list" where
  "keyed rs = map (\<lambda>r. (log_lsn r, r)) rs"

definition begun :: "LogRec list \<Rightarrow> txn_id_t set" where
  "begun rs = {log_txn_id r |r. r \<in> set rs \<and> log_type r = kBegin}"

lemma begun_snoc: "begun (rs @ [r]) = (if log_type r = kBegin then insert (log_txn_id r) (begun rs) else begun rs)"
  by (auto simp: begun_def)

text \<open>A log whose records are numbered in order.\<close>

definition numbered :: "LogRec list \<Rightarrow> bool" where
  "numbered rs \<longleftrightarrow> map log_lsn rs = map int [0..<length rs]"

lemma numbered_lookup:
  assumes "numbered L" "r \<in> set L"
  shows "map_of (keyed L) (log_lsn r) = Some r" "log_lsn r \<noteq> INVALID_LSN"
proof -
  have "map fst (keyed L) = map int [0..<length L]" using assms(1) by (simp add: numbered_def keyed_def comp_def)
  then have "distinct (map fst (keyed L))" by (simp add: distinct_map inj_on_def)
  then show "map_of (keyed L) (log_lsn r) = Some r" using assms(2) by (simp add: keyed_def)
  have "log_lsn r \<in> set (map int [0..<length L])"
    using assms by (metis list.set_map numbered_def image_eqI)
  then show "log_lsn r \<noteq> INVALID_LSN" by (auto simp: INVALID_LSN_def)
qed

lemma UndoTxn_chain:
  assumes "numbered L"
  shows "linked ch \<Longrightarrow> set ch \<subseteq> set L \<Longrightarrow> length ch \<le> n \<Longrightarrow>
    UndoTxn n (keyed L) (log_lsn (hd ch)) d = Some (override d (restore ch))"
proof (induction ch arbitrary: n d rule: linked.induct)
  case (2 r)
  then obtain m where "n = Suc m" by (cases n) auto
  with 2 numbered_lookup [OF assms, of r] show ?case
    by (simp add: override_def pre_image_def fun_eq_iff)
next
  case (3 r r' rs)
  then obtain m where n: "n = Suc m" by (cases n) auto
  have "UndoTxn m (keyed L) (log_lsn (hd (r' # rs))) (undo_rec r d) = Some (override (undo_rec r d) (restore (r' # rs)))"
    using 3 n by (intro "3.IH") auto
  with 3 n numbered_lookup [OF assms, of r] show ?case
    by (simp add: undo_rec_override override_override)
qed simp

lemma redo_all_append:
  "redo_all (xs @ ys) rm = (case redo_all xs rm of None \<Rightarrow> None | Some rm \<Rightarrow> redo_all ys rm)"
  by (induction xs arbitrary: rm) (auto split: option.splits)

text \<open>The recovery manager after redoing the log of \<open>s\<close>, having started on data \<open>D0\<close> and active
  transactions \<open>A0\<close>.\<close>

definition follows :: "LogRec list \<Rightarrow> KvDatabase \<Rightarrow> (txn_id_t \<rightharpoonup> lsn_t) \<Rightarrow> run \<Rightarrow> RecoveryManager \<Rightarrow> bool" where
  "follows L D0 A0 s rm \<longleftrightarrow> log_recs rm = keyed L \<and> distinct (map fst (active_txns rm)) \<and>
     rm_data rm = (\<lambda>k. if k \<in> touched (run_log s) then run_data s k else D0 k) \<and>
     map_of (active_txns rm) =
       (\<lambda>t. if t \<in> begun (run_log s) then map_option (\<lambda>ch. log_lsn (hd ch)) (run_active s t) else A0 t)"

lemma active_begun:
  assumes "chain_ok s t ch"
  shows "t \<in> begun (run_log s)"
proof -
  have "linked ch \<Longrightarrow> log_type (last ch) = kBegin \<and> last ch \<in> set ch" by (induction ch rule: linked.induct) auto
  then have "log_type (last ch) = kBegin" "last ch \<in> set (run_log s)" "log_txn_id (last ch) = t"
    using assms by (auto simp: chain_ok_def)
  then show ?thesis by (auto simp: begun_def)
qed

lemma override_outside:
  "T' = T \<union> dom p \<Longrightarrow>
   override (\<lambda>k. if k \<in> T then d k else D0 k) p = (\<lambda>k. if k \<in> T' then override d p k else D0 k)"
  by (auto simp: override_def fun_eq_iff split: option.splits)

lemma redo_snoc:
  assumes "redo_all xs rm0 = Some rm" "redo_step r rm = Some rm'"
  shows "redo_all (xs @ [r]) rm0 = Some rm'"
  using assms by (simp add: redo_all_append)

lemma redo_follows:
  assumes "history db s" "prefix (run_log s) L" "numbered L"
    and "log_recs rm0 = keyed L" "rm_data rm0 = D0" "map_of (active_txns rm0) = A0" "distinct (map fst (active_txns rm0))"
  shows "\<exists>rm. redo_all (run_log s) rm0 = Some rm \<and> follows L D0 A0 s rm"
  using assms(1,2)
proof (induction rule: history.induct)
  case hist_init
  show ?case using assms(4-) by (auto simp: run_init_def follows_def touched_def begun_def)
next
  case (hist_begin s t ls' r)
  then obtain rm where rm: "redo_all (run_log s) rm0 = Some rm" "follows L D0 A0 s rm"
    by (auto simp: prefix_def)
  have r: "next_rec s t ls' r" "log_type r = kBegin" using next_rec_creators(1) [OF hist_begin(3)] by blast+
  let ?rm = "rm\<lparr>active_txns := AList.update t (log_lsn r) (active_txns rm)\<rparr>"
  have "redo_step r rm = Some ?rm"
    using r by (simp add: redo_step_def redo_data_override post_image_def override_def next_rec_def)
  moreover have "follows L D0 A0 (s\<lparr>run_ls := ls', run_log := run_log s @ [r], run_active := (run_active s)(t \<mapsto> [r])\<rparr>) ?rm"
    using rm(2) r by (auto simp: follows_def update_conv' distinct_update begun_snoc pre_image_def next_rec_def fun_eq_iff)
  ultimately show ?case using redo_snoc [OF rm(1)] by auto
next
  case (hist_write s t ch ls' r nk nv ok ov)
  then obtain rm where rm: "redo_all (run_log s) rm0 = Some rm" "follows L D0 A0 s rm"
    by (auto simp: prefix_def)
  have r: "next_rec s t ls' r" "log_type r \<noteq> kBegin" using next_rec_creators(4) [OF hist_write(3)] by blast+
  have ty: "log_type r \<in> {kInsert, kDelete, kUpdate}" using hist_write(4) by (simp add: write_ok_def)
  have b: "t \<in> begun (run_log s)" by (rule active_begun [OF run_okD(3) [OF history_run_ok [OF hist_write(1)] hist_write(2)]])
  let ?rm = "rm\<lparr>rm_data := redo_data r (rm_data rm), active_txns := AList.update t (log_lsn r) (active_txns rm)\<rparr>"
  have "redo_step r rm = Some ?rm" using ty r(1) by (auto simp: redo_step_def next_rec_def)
  moreover have "override (rm_data rm) (post_image r) =
      (\<lambda>k. if k \<in> touched (run_log s) \<union> dom (pre_image r) then override (run_data s) (post_image r) k else D0 k)"
    using rm(2) by (simp add: follows_def dom_post_image override_outside [OF refl])
  then have "follows L D0 A0 (s\<lparr>run_ls := ls', run_log := run_log s @ [r], run_data := redo_data r (run_data s),
      run_active := (run_active s)(t \<mapsto> r # ch)\<rparr>) ?rm"
    using rm(2) r b
    by (simp add: follows_def update_conv' distinct_update begun_snoc next_rec_def redo_data_override) auto
  ultimately show ?case using redo_snoc [OF rm(1)] by auto
next
  case (hist_commit s t ch ls' r)
  then obtain rm where rm: "redo_all (run_log s) rm0 = Some rm" "follows L D0 A0 s rm"
    by (auto simp: prefix_def)
  have r: "next_rec s t ls' r" "log_type r = kCommit" using next_rec_creators(2) [OF hist_commit(3)] by blast+
  have b: "t \<in> begun (run_log s)" by (rule active_begun [OF run_okD(3) [OF history_run_ok [OF hist_commit(1)] hist_commit(2)]])
  let ?rm = "rm\<lparr>active_txns := AList.delete t (active_txns rm)\<rparr>"
  have "redo_step r rm = Some ?rm" using r by (simp add: redo_step_def next_rec_def)
  moreover have "follows L D0 A0 (s\<lparr>run_ls := ls', run_log := run_log s @ [r], run_committed := C',
      run_active := (run_active s)(t := None)\<rparr>) ?rm" for C'
    using rm(2) r b by (auto simp: follows_def delete_conv' distinct_delete begun_snoc pre_image_def fun_eq_iff)
  ultimately show ?case using redo_snoc [OF rm(1)] by auto
next
  case (hist_abort s t ch ls' r)
  then obtain rm where rm: "redo_all (run_log s) rm0 = Some rm" "follows L D0 A0 s rm"
    by (auto simp: prefix_def)
  have r: "next_rec s t ls' r" "log_type r = kAbort" using next_rec_creators(3) [OF hist_abort(3)] by blast+
  note C = run_okD(3) [OF history_run_ok [OF hist_abort(1)] hist_abort(2)]
  have b: "t \<in> begun (run_log s)" by (rule active_begun [OF C])
  have L: "set (run_log s) \<subseteq> set L" "length (run_log s) \<le> length L"
    using hist_abort(5) by (auto simp: prefix_def)
  have lr: "log_recs rm = keyed L" using rm(2) by (simp add: follows_def)
  have prev: "log_prev_lsn r = log_lsn (hd ch)" using C r by (simp add: chain_ok_def next_rec_def prev_of_def)
  have "UndoTxn (Suc (length (keyed L))) (keyed L) (log_prev_lsn r) (rm_data rm) = Some (override (rm_data rm) (restore ch))"
    unfolding prev using C L by (intro UndoTxn_chain [OF assms(3)]) (auto simp: chain_ok_def keyed_def)
  then have "redo_step r rm = Some (rm\<lparr>rm_data := override (rm_data rm) (restore ch), active_txns := AList.delete t (active_txns rm)\<rparr>)"
    (is "_ = Some ?rm")
    using r lr by (simp add: redo_step_def next_rec_def del: UndoTxn.simps)
  moreover have "override (rm_data rm) (restore ch) =
      (\<lambda>k. if k \<in> touched (run_log s) then override (run_data s) (restore ch) k else D0 k)"
  proof -
    have "touched (run_log s) = touched (run_log s) \<union> dom (restore ch)" using chain_touched [OF C] by auto
    then show ?thesis using rm(2) by (simp add: follows_def override_outside)
  qed
  then have "follows L D0 A0 (s\<lparr>run_ls := ls', run_log := run_log s @ [r], run_data := override (run_data s) (restore ch),
      run_active := (run_active s)(t := None)\<rparr>) ?rm"
    using rm(2) r b by (simp add: follows_def delete_conv' distinct_delete begun_snoc pre_image_def) auto
  ultimately show ?case using redo_snoc [OF rm(1)] by auto
qed

lemma undo_all_effect:
  assumes ok: "run_ok db s" and L: "numbered L" "prefix (run_log s) L"
  shows "\<forall>(t, l) \<in> set ts. \<exists>ch. run_active s t = Some ch \<and> l = log_lsn (hd ch) \<Longrightarrow> log_recs rm = keyed L \<Longrightarrow>
    \<exists>rm'. undo_all ts rm = Some rm' \<and>
      (\<forall>k. rm_data rm' k = (if \<exists>t ch. t \<in> fst ` set ts \<and> run_active s t = Some ch \<and> k \<in> dom (restore ch)
         then run_committed s k else rm_data rm k)) \<and>
      active_txns rm' = filter (\<lambda>(t, _). t \<notin> fst ` set ts) (active_txns rm)"
proof (induction ts arbitrary: rm)
  case (Cons a ts)
  obtain t l ch where a: "a = (t, l)" "run_active s t = Some ch" "l = log_lsn (hd ch)" using Cons.prems(1) by auto
  note C = run_okD(3) [OF ok a(2)]
  have sub: "set (run_log s) \<subseteq> set L" "length (run_log s) \<le> length L" using L(2) by (auto simp: prefix_def)
  have u: "UndoTxn (Suc (length (keyed L))) (keyed L) l (rm_data rm) = Some (override (rm_data rm) (restore ch))"
    unfolding a(3) using C sub by (intro UndoTxn_chain [OF L(1)]) (auto simp: chain_ok_def keyed_def)
  let ?rm = "rm\<lparr>rm_data := override (rm_data rm) (restore ch), active_txns := AList.delete t (active_txns rm)\<rparr>"
  have "\<exists>rm'. undo_all ts ?rm = Some rm' \<and>
      (\<forall>k. rm_data rm' k = (if \<exists>t ch. t \<in> fst ` set ts \<and> run_active s t = Some ch \<and> k \<in> dom (restore ch)
         then run_committed s k else rm_data ?rm k)) \<and>
      active_txns rm' = filter (\<lambda>(t, _). t \<notin> fst ` set ts) (active_txns ?rm)"
    using Cons.prems by (intro Cons.IH) auto
  moreover have "rm_data ?rm = override (rm_data rm) (restore ch)" "active_txns ?rm = AList.delete t (active_txns rm)" by simp_all
  ultimately obtain rm' where ih: "undo_all ts ?rm = Some rm'"
    "\<And>k. rm_data rm' k = (if \<exists>t ch. t \<in> fst ` set ts \<and> run_active s t = Some ch \<and> k \<in> dom (restore ch)
         then run_committed s k else override (rm_data rm) (restore ch) k)"
    "active_txns rm' = filter (\<lambda>(t, _). t \<notin> fst ` set ts) (AList.delete t (active_txns rm))" by metis
  have com: "override (rm_data rm) (restore ch) k = (if k \<in> dom (restore ch) then run_committed s k else rm_data rm k)" for k
    using C by (auto simp: override_apply chain_ok_def)
  have "undo_all (a # ts) rm = Some rm'" using ih(1) u Cons.prems(2) a(1) by (simp del: UndoTxn.simps)
  moreover have "rm_data rm' k = (if \<exists>t ch. t \<in> fst ` set (a # ts) \<and> run_active s t = Some ch \<and> k \<in> dom (restore ch)
         then run_committed s k else rm_data rm k)" for k
  proof -
    have split: "(\<exists>t' ch'. t' \<in> fst ` set (a # ts) \<and> run_active s t' = Some ch' \<and> k \<in> dom (restore ch')) \<longleftrightarrow>
        k \<in> dom (restore ch) \<or> (\<exists>t' ch'. t' \<in> fst ` set ts \<and> run_active s t' = Some ch' \<and> k \<in> dom (restore ch'))"
      using a(1,2) by auto
    show ?thesis unfolding ih(2) com split by auto
  qed
  moreover have "active_txns rm' = filter (\<lambda>(t, _). t \<notin> fst ` set (a # ts)) (active_txns rm)"
    unfolding ih(3) by (auto simp: AList.delete_eq a(1) split_def intro!: filter_cong)
  ultimately show ?case by blast
qed simp

lemma insort_key_last: "\<forall>y \<in> set xs. f y < f x \<Longrightarrow> insort_key f x xs = xs @ [x]"
  by (induction xs) auto

lemma append_logs:
  "numbered (pre @ logs) \<Longrightarrow> log_recs rm = keyed pre \<Longrightarrow>
   fold AppendLogRec logs rm = rm\<lparr>log_recs := keyed (pre @ logs)\<rparr>"
proof (induction logs arbitrary: pre rm)
  case (Cons r logs)
  have "map log_lsn (pre @ r # logs) = map int [0..<length (pre @ r # logs)]" using Cons.prems(1) by (simp add: numbered_def)
  then have lsn: "log_lsn ((pre @ r # logs) ! i) = int i" if "i < length (pre @ r # logs)" for i
    using that by (metis add_cancel_left_left diff_zero length_map length_upt nth_map nth_upt)
  have r: "log_lsn r = int (length pre)" using lsn [of "length pre"] by simp
  have small: "log_lsn x < log_lsn r" if x: "x \<in> set pre" for x
  proof -
    obtain i where i: "i < length pre" "x = pre ! i" using x by (metis in_set_conv_nth)
    then have "log_lsn x = int i" using lsn [of i] by (simp add: nth_append)
    then show ?thesis using i(1) r by simp
  qed
  have "AppendLogRec r rm = rm\<lparr>log_recs := keyed (pre @ [r])\<rparr>"
    using small Cons.prems(2) by (force simp: AppendLogRec_def keyed_def insort_key_last)
  then show ?case using Cons.IH [of "pre @ [r]" "rm\<lparr>log_recs := keyed (pre @ [r])\<rparr>"] Cons.prems(1) by simp
qed (simp add: keyed_def)

section \<open>Properties\<close>

text \<open>C4. Recovery: for every run of transactions, interleaved but with no key written by two active
  transactions, and a checkpoint taken at any point of it (the data and the active transactions of that
  moment), loading the checkpoint, appending the log of the run and running \<^verbatim>\<open>RedoPhase\<close> and \<^verbatim>\<open>UndoPhase\<close>
  always ends and leaves exactly the effects of the committed transactions, with no active
  transaction.\<close>

theorem recovery_correct:
  assumes "history db s0" "history db s" "prefix (run_log s0) (run_log s)"
    and "cp_persist_data cp = run_data s0" "distinct (map fst (cp_active_txns cp))"
    and "map_of (cp_active_txns cp) = (\<lambda>t. map_option (\<lambda>ch. log_lsn (hd ch)) (run_active s0 t))"
  shows "\<exists>rm. recover cp (run_log s) = Some rm \<and> GetDatabase rm = run_committed s \<and> active_txns rm = []"
proof -
  let ?L = "run_log s"
  note ok0 = history_run_ok [OF assms(1)] and ok = history_run_ok [OF assms(2)]
  have num: "numbered ?L" using run_okD(1) [OF ok] by (simp add: numbered_def)
  let ?rm0 = "(RecoveryManager_Init cp RecoveryManager_init)\<lparr>log_recs := keyed ?L\<rparr>"
  have app: "fold AppendLogRec ?L (RecoveryManager_Init cp RecoveryManager_init) = ?rm0"
    using append_logs [of "[]" ?L] num by (simp add: RecoveryManager_Init_def RecoveryManager_init_def keyed_def)
  obtain rm where rm: "redo_all ?L ?rm0 = Some rm" "follows ?L (run_data s0) (map_of (cp_active_txns cp)) s rm"
    using redo_follows [OF assms(2) _ num, of ?rm0 "run_data s0" "map_of (cp_active_txns cp)"] assms(4,5)
    by (auto simp: RecoveryManager_Init_def)
  have snd_keyed: "map snd (keyed ?L) = ?L" by (simp add: keyed_def comp_def)
  have redo: "RedoPhase ?rm0 = Some rm" using rm(1) by (simp add: RedoPhase_def snd_keyed)
  have pre: "touched (run_log s0) \<subseteq> touched ?L" "begun (run_log s0) \<subseteq> begun ?L"
    using set_mono_prefix [OF assms(3)] by (auto simp: touched_def begun_def)
  have data: "rm_data rm k = run_data s k" for k
  proof (cases "k \<in> touched ?L")
    case False
    then show ?thesis using rm(2) pre(1) run_okD(6) [OF ok0, of k] run_okD(6) [OF ok, of k] by (auto simp: follows_def)
  qed (use rm(2) in \<open>simp add: follows_def\<close>)
  have act: "map_of (active_txns rm) t = map_option (\<lambda>ch. log_lsn (hd ch)) (run_active s t)" for t
  proof (cases "t \<in> begun ?L")
    case False
    have "run_active s0 t = None" "run_active s t = None"
      using False pre(2) active_begun [OF run_okD(3) [OF ok0]] active_begun [OF run_okD(3) [OF ok]]
      by (metis in_mono not_None_eq)+
    then show ?thesis using rm(2) False assms(6) by (simp add: follows_def)
  qed (use rm(2) in \<open>simp add: follows_def\<close>)
  have dist: "distinct (map fst (active_txns rm))" and lr: "log_recs rm = keyed ?L" using rm(2) by (simp_all add: follows_def)
  have each: "\<exists>ch. run_active s t = Some ch \<and> l = log_lsn (hd ch)" if "(t, l) \<in> set (active_txns rm)" for t l
    using act [of t] map_of_is_SomeI [OF dist that] by (cases "run_active s t") auto
  have keys: "t \<in> fst ` set (active_txns rm)" if "run_active s t = Some ch" for t ch
    using act [of t] that by (metis map_of_eq_None_iff option.distinct(1) option.simps(9))
  obtain rm' where u: "undo_all (active_txns rm) rm = Some rm'"
    "\<And>k. rm_data rm' k = (if \<exists>t ch. t \<in> fst ` set (active_txns rm) \<and> run_active s t = Some ch \<and> k \<in> dom (restore ch)
         then run_committed s k else rm_data rm k)"
    "active_txns rm' = filter (\<lambda>(t, _). t \<notin> fst ` set (active_txns rm)) (active_txns rm)"
    using undo_all_effect [OF ok num, of "active_txns rm" rm] each lr by fastforce
  have "rm_data rm' k = run_committed s k" for k
    unfolding u(2) data using keys run_okD(4) [OF ok, of k] by (auto simp: domIff)
  moreover have "active_txns rm' = []" unfolding u(3) by (force simp: filter_empty_conv)
  ultimately show ?thesis
    using u(1) redo app by (auto simp: recover_def UndoPhase_def GetDatabase_def fun_eq_iff)
qed

text \<open>A run that stops with an active transaction, which has inserted one key.\<close>

definition example_log :: "LogRec list" where
  "example_log =
     (let (ls, r0) = CreateBeginLog 0 log_state_init; (ls, r1) = CreateInsertLog 0 ''C'' 600 ls in [r0, r1])"

theorem recovery_correct_witness:
  "\<exists>rm. recover CheckPoint_init example_log = Some rm \<and> GetDatabase rm = Map.empty \<and> active_txns rm = []"
proof -
  define p0 where "p0 = CreateBeginLog 0 log_state_init"
  define p1 where "p1 = CreateInsertLog 0 ''C'' 600 (fst p0)"
  let ?i = "run_init Map.empty"
  let ?s1 = "?i\<lparr>run_ls := fst p0, run_log := run_log ?i @ [snd p0], run_active := (run_active ?i)(0 \<mapsto> [snd p0])\<rparr>"
  let ?s2 = "?s1\<lparr>run_ls := fst p1, run_log := run_log ?s1 @ [snd p1], run_data := redo_data (snd p1) (run_data ?s1),
    run_active := (run_active ?s1)(0 \<mapsto> snd p1 # [snd p0])\<rparr>"
  have 1: "history Map.empty ?s1" by (rule hist_begin [OF hist_init]) (simp_all add: p0_def run_init_def)
  have p: "(fst p1, snd p1) \<in> {CreateInsertLog 0 ''C'' 600 (run_ls ?s1), CreateDeleteLog 0 ''C'' 0 (run_ls ?s1),
      CreateUpdateLog 0 ''C'' 0 ''C'' 600 (run_ls ?s1)}" by (simp add: p1_def)
  have "write_ok ?s1 0 (snd p1)"
    by (simp add: write_ok_def p1_def CreateInsertLog_def LogRec_default_def pre_image_def run_init_def)
  then have 2: "history Map.empty ?s2" by (intro hist_write [OF 1 _ p]) simp_all
  have "run_log ?s2 = example_log" by (simp add: run_init_def example_log_def p0_def p1_def split_def Let_def)
  moreover have "prefix (run_log ?i) (run_log ?s2)" by (simp add: run_init_def)
  ultimately show ?thesis
    using recovery_correct [OF hist_init 2, of CheckPoint_init] by (simp add: CheckPoint_init_def run_init_def)
qed

end
