(* ===== verification/Root_Directory.thy ===== *)
theory Root_Directory
  imports MiniSQL_Prelude
begin

text \<open>
  The contract of a root directory: a page that maps the keys of indexes to the page numbers of their
  roots. \<^verbatim>\<open>IndexRootsPage\<close> (keys are index ids) and \<^verbatim>\<open>HeaderPage\<close> (keys are names) both
  implement it; the client theorem, that any sequence of operations acts as on a map, is proved once.
\<close>

section \<open>Sequences of operations\<close>

datatype 'k dir_op = OpInsert 'k page_id_t | OpDelete 'k | OpUpdate 'k page_id_t

fun dir_op_run :: "('k \<Rightarrow> page_id_t \<Rightarrow> 'p \<Rightarrow> ('p \<times> bool) result) \<Rightarrow> ('k \<Rightarrow> 'p \<Rightarrow> ('p \<times> bool) result) \<Rightarrow>
    ('k \<Rightarrow> page_id_t \<Rightarrow> 'p \<Rightarrow> ('p \<times> bool) result) \<Rightarrow> 'k dir_op \<Rightarrow> 'p \<Rightarrow> ('p \<times> bool) result" where
  "dir_op_run ins del upd (OpInsert k r) p = ins k r p"
| "dir_op_run ins del upd (OpDelete k) p = del k p"
| "dir_op_run ins del upd (OpUpdate k r) p = upd k r p"

text \<open>A sequence of calls, with the values they return.\<close>

fun dir_run :: "('k \<Rightarrow> page_id_t \<Rightarrow> 'p \<Rightarrow> ('p \<times> bool) result) \<Rightarrow> ('k \<Rightarrow> 'p \<Rightarrow> ('p \<times> bool) result) \<Rightarrow>
    ('k \<Rightarrow> page_id_t \<Rightarrow> 'p \<Rightarrow> ('p \<times> bool) result) \<Rightarrow> 'k dir_op list \<Rightarrow> 'p \<Rightarrow> ('p \<times> bool list) result" where
  "dir_run ins del upd [] p = Inr (p, [])"
| "dir_run ins del upd (a # as) p =
     bind_result (dir_op_run ins del upd a p) (\<lambda>(p, b).
       bind_result (dir_run ins del upd as p) (\<lambda>(p, bs). Inr (p, b # bs)))"

text \<open>The same operations on a map: insertion keeps an existing entry, update needs one. A call reports
  true when it has changed the entry of its key.\<close>

fun map_op :: "'k dir_op \<Rightarrow> ('k \<rightharpoonup> page_id_t) \<Rightarrow> ('k \<rightharpoonup> page_id_t)" where
  "map_op (OpInsert k r) m = (if m k = None then m(k \<mapsto> r) else m)"
| "map_op (OpDelete k) m = m(k := None)"
| "map_op (OpUpdate k r) m = (if m k = None then m else m(k \<mapsto> r))"

fun map_flag :: "'k dir_op \<Rightarrow> ('k \<rightharpoonup> page_id_t) \<Rightarrow> bool" where
  "map_flag (OpInsert k r) m \<longleftrightarrow> m k = None"
| "map_flag (OpDelete k) m \<longleftrightarrow> m k \<noteq> None"
| "map_flag (OpUpdate k r) m \<longleftrightarrow> m k \<noteq> None"

fun map_flags :: "'k dir_op list \<Rightarrow> ('k \<rightharpoonup> page_id_t) \<Rightarrow> bool list" where
  "map_flags [] m = []"
| "map_flags (a # as) m = map_flag a m # map_flags as (map_op a m)"

fun op_key :: "'k dir_op \<Rightarrow> 'k" where
  "op_key (OpInsert k r) = k" | "op_key (OpDelete k) = k" | "op_key (OpUpdate k r) = k"

text \<open>When a sequence is acceptable: keys and roots are, no new key is inserted into a full directory and, unless
  \<open>de\<close>, nothing is deleted from an empty one.\<close>

fun op_fits :: "nat \<Rightarrow> bool \<Rightarrow> ('k \<Rightarrow> bool) \<Rightarrow> (page_id_t \<Rightarrow> bool) \<Rightarrow> 'k dir_op \<Rightarrow> ('k \<rightharpoonup> page_id_t) \<Rightarrow> bool" where
  "op_fits cap de kp rp (OpInsert k r) m \<longleftrightarrow> kp k \<and> rp r \<and> (m k = None \<longrightarrow> card (dom m) < cap)"
| "op_fits cap de kp rp (OpDelete k) m \<longleftrightarrow> kp k \<and> (de \<or> m \<noteq> Map.empty)"
| "op_fits cap de kp rp (OpUpdate k r) m \<longleftrightarrow> kp k \<and> rp r"

fun ops_ok :: "nat \<Rightarrow> bool \<Rightarrow> ('k \<Rightarrow> bool) \<Rightarrow> (page_id_t \<Rightarrow> bool) \<Rightarrow> 'k dir_op list \<Rightarrow> ('k \<rightharpoonup> page_id_t) \<Rightarrow> bool" where
  "ops_ok cap de kp rp [] m \<longleftrightarrow> True"
| "ops_ok cap de kp rp (a # as) m \<longleftrightarrow> op_fits cap de kp rp a m \<and> ops_ok cap de kp rp as (map_op a m)"

text \<open>Removing the entry of a key from a list with distinct keys.\<close>

lemma filter_key_take_drop:
  assumes "distinct (map fst xs)" "i < length xs" "fst (xs ! i) = k"
  shows "filter (\<lambda>(k', _). k' \<noteq> k) xs = take i xs @ drop (Suc i) xs"
proof -
  have xs: "xs = take i xs @ xs ! i # drop (Suc i) xs" by (rule id_take_nth_drop [OF assms(2)])
  have "distinct (map fst (take i xs @ xs ! i # drop (Suc i) xs))" using assms(1) xs by simp
  then have "k \<notin> fst ` set (take i xs)" "k \<notin> fst ` set (drop (Suc i) xs)" using assms(3) by auto
  then have "filter (\<lambda>(k', _). k' \<noteq> k) (take i xs) = take i xs"
    "filter (\<lambda>(k', _). k' \<noteq> k) (drop (Suc i) xs) = drop (Suc i) xs"
    by (force intro: filter_True)+
  then show ?thesis by (subst xs) (simp add: assms(3) split_def)
qed

lemma filter_key_absent: "map_of xs k = None \<Longrightarrow> filter (\<lambda>(k', _). k' \<noteq> k) xs = xs"
  by (induction xs) (auto split: if_splits)

text \<open>Searching an array for a key is the lookup in its list of entries.\<close>

lemma map_of_find_upt:
  "map_of (map f [a..<b]) k = map_option (\<lambda>i. snd (f i)) (find (\<lambda>i. fst (f i) = k) [a..<b])"
proof -
  have "map_of (map f xs) k = map_option (\<lambda>i. snd (f i)) (find (\<lambda>i. fst (f i) = k) xs)" for xs
    by (induction xs) (auto simp: prod.case_eq_if)
  then show ?thesis .
qed

section \<open>The contract\<close>

locale root_directory =
  fixes ins :: "'k \<Rightarrow> page_id_t \<Rightarrow> 'p \<Rightarrow> ('p \<times> bool) result"
    and del :: "'k \<Rightarrow> 'p \<Rightarrow> ('p \<times> bool) result"
    and upd :: "'k \<Rightarrow> page_id_t \<Rightarrow> 'p \<Rightarrow> ('p \<times> bool) result"
    and lookup :: "'k \<Rightarrow> 'p \<Rightarrow> page_id_t option result"
    and view :: "'p \<Rightarrow> ('k \<times> page_id_t) list"
    and ok :: "'p \<Rightarrow> bool" and capacity :: nat and de :: bool and key_ok :: "'k \<Rightarrow> bool" and root_ok :: "page_id_t \<Rightarrow> bool"
  assumes view_distinct: "ok p \<Longrightarrow> distinct (map fst (view p))"
    and lookup_view: "ok p \<Longrightarrow> key_ok k \<Longrightarrow> lookup k p = Inr (map_of (view p) k)"
    and ins_dup: "ok p \<Longrightarrow> key_ok k \<Longrightarrow> root_ok r \<Longrightarrow> map_of (view p) k \<noteq> None \<Longrightarrow> ins k r p = Inr (p, False)"
    and ins_new: "ok p \<Longrightarrow> key_ok k \<Longrightarrow> root_ok r \<Longrightarrow> map_of (view p) k = None \<Longrightarrow> length (view p) < capacity \<Longrightarrow>
      \<exists>p'. ins k r p = Inr (p', True) \<and> ok p' \<and> view p' = view p @ [(k, r)]"
    and del_view: "ok p \<Longrightarrow> key_ok k \<Longrightarrow> de \<or> view p \<noteq> [] \<Longrightarrow>
      \<exists>p'. del k p = Inr (p', map_of (view p) k \<noteq> None) \<and> ok p' \<and> view p' = filter (\<lambda>(k', _). k' \<noteq> k) (view p)"
    and upd_view: "ok p \<Longrightarrow> key_ok k \<Longrightarrow> root_ok r \<Longrightarrow>
      \<exists>p'. upd k r p = Inr (p', map_of (view p) k \<noteq> None) \<and> ok p' \<and>
        view p' = map (\<lambda>(k', r'). (k', if k' = k then r else r')) (view p)"
begin

lemma map_of_filter_key: "map_of (filter (\<lambda>(k', _). k' \<noteq> k) xs) = (map_of xs)(k := None)"
  by (induction xs) (auto simp: fun_eq_iff)

lemma map_of_map_key:
  "map_of (map (\<lambda>(k', r'). (k', if k' = k then r else r')) xs) =
     (if map_of xs k = None then map_of xs else (map_of xs)(k \<mapsto> r))"
  by (induction xs) (auto simp: fun_eq_iff)

lemma card_view: "ok p \<Longrightarrow> card (dom (map_of (view p))) = length (view p)"
  using distinct_card [OF view_distinct, of p] by (simp add: dom_map_of_conv_image_fst)

lemma op_refines:
  assumes "ok p" "op_fits capacity de key_ok root_ok a (map_of (view p))"
  shows "\<exists>p'. dir_op_run ins del upd a p = Inr (p', map_flag a (map_of (view p))) \<and> ok p' \<and>
    map_of (view p') = map_op a (map_of (view p))"
proof (cases a)
  case (OpInsert k r)
  show ?thesis
  proof (cases "map_of (view p) k")
    case None
    then obtain p' where "ins k r p = Inr (p', True)" "ok p'" "view p' = view p @ [(k, r)]"
      using ins_new [of p k r] assms OpInsert card_view [of p] by auto
    then show ?thesis using OpInsert None by (auto simp: fun_eq_iff map_add_def split: option.splits)
  next
    case (Some r')
    then show ?thesis using ins_dup [of p k r] assms OpInsert by auto
  qed
next
  case (OpDelete k)
  then have "de \<or> view p \<noteq> []" using assms(2) by auto
  then obtain p' where "del k p = Inr (p', map_of (view p) k \<noteq> None)" "ok p'" "view p' = filter (\<lambda>(k', _). k' \<noteq> k) (view p)"
    using del_view [of p k] assms OpDelete by auto
  then show ?thesis using OpDelete by (auto simp: map_of_filter_key)
next
  case (OpUpdate k r)
  then obtain p' where "upd k r p = Inr (p', map_of (view p) k \<noteq> None)" "ok p'"
    "view p' = map (\<lambda>(k', r'). (k', if k' = k then r else r')) (view p)"
    using upd_view [of p k r] assms by auto
  then show ?thesis using OpUpdate by (auto simp: map_of_map_key)
qed

lemma run_refines:
  assumes "ok p" "ops_ok capacity de key_ok root_ok as (map_of (view p))"
  shows "\<exists>p'. dir_run ins del upd as p = Inr (p', map_flags as (map_of (view p))) \<and> ok p' \<and>
    map_of (view p') = fold map_op as (map_of (view p))"
  using assms
proof (induction as arbitrary: p)
  case (Cons a as)
  then obtain p1 where p1: "dir_op_run ins del upd a p = Inr (p1, map_flag a (map_of (view p)))"
    "ok p1" "map_of (view p1) = map_op a (map_of (view p))"
    using op_refines [OF Cons.prems(1), of a] by auto
  then show ?case using Cons.IH [OF p1(2)] Cons.prems(2) by auto
qed simp

end

end
