(* ===== verification/Index_Roots_Page.thy ===== *)
theory Index_Roots_Page
  imports Root_Directory
begin

text \<open>
  The page of index roots (\<^verbatim>\<open>src/include/page/index_roots_page.h\<close>, \<^verbatim>\<open>src/page/index_roots_page.cpp\<close>) on its
  bytes: a signed count and an array of pairs of index id and root page. \<^verbatim>\<open>Insert\<close> does not check
  the capacity; the model reports \<open>OutOfBounds\<close> where the code writes behind the page.
\<close>

type_synonym irpage = "byte list"

definition MAX_INDEX_COUNT :: nat where "MAX_INDEX_COUNT = (PAGE_SIZE - 4) div 8"

definition ir_count :: "irpage \<Rightarrow> 32 word" where "ir_count d = rd32 d 0"
definition ir_set_count :: "32 word \<Rightarrow> irpage \<Rightarrow> irpage" where "ir_set_count n d = wr32 d 0 n"
definition ir_root :: "irpage \<Rightarrow> nat \<Rightarrow> index_id_t \<times> page_id_t" where
  "ir_root d i = (rd32 d (4 + 8 * i), rd32 d (8 + 8 * i))"
definition ir_set_root :: "nat \<Rightarrow> index_id_t \<times> page_id_t \<Rightarrow> irpage \<Rightarrow> irpage" where
  "ir_set_root i e d = wr32 (wr32 d (4 + 8 * i) (fst e)) (8 + 8 * i) (snd e)"

definition ir_Init :: "irpage \<Rightarrow> irpage" where "ir_Init d = ir_set_count 0 d"

definition ir_GetIndexCount :: "irpage \<Rightarrow> int" where "ir_GetIndexCount d = sint (ir_count d)"

definition FindIndex :: "index_id_t \<Rightarrow> irpage \<Rightarrow> nat option" where
  "FindIndex index_id d = find (\<lambda>i. fst (ir_root d i) = index_id) [0..<nat (sint (ir_count d))]"

definition ir_Insert :: "index_id_t \<Rightarrow> page_id_t \<Rightarrow> irpage \<Rightarrow> (irpage \<times> bool) result" where
  "ir_Insert index_id root_id d =
     (case FindIndex index_id d of
        Some _ \<Rightarrow> Inr (d, False)
      | None \<Rightarrow> let n = nat (sint (ir_count d))
                in if length d < 12 + 8 * n then Inl (OutOfBounds ''roots_'')
                   else Inr (ir_set_count (ir_count d + 1) (ir_set_root n (index_id, root_id) d), True))"

fun ir_shift :: "nat list \<Rightarrow> irpage \<Rightarrow> irpage" where
  "ir_shift [] d = d"
| "ir_shift (i # is) d = ir_shift is (ir_set_root i (ir_root d (Suc i)) d)"

definition ir_Delete :: "index_id_t \<Rightarrow> irpage \<Rightarrow> (irpage \<times> bool) result" where
  "ir_Delete index_id d =
     (case FindIndex index_id d of
        None \<Rightarrow> Inr (d, False)
      | Some index \<Rightarrow> Inr (ir_set_count (ir_count d - 1) (ir_shift [index..<nat (sint (ir_count d) - 1)] d), True))"

definition ir_Update :: "index_id_t \<Rightarrow> page_id_t \<Rightarrow> irpage \<Rightarrow> (irpage \<times> bool) result" where
  "ir_Update index_id root_id d =
     (case FindIndex index_id d of
        None \<Rightarrow> Inr (d, False)
      | Some index \<Rightarrow> Inr (ir_set_root index (fst (ir_root d index), root_id) d, True))"

definition ir_GetRootId :: "index_id_t \<Rightarrow> irpage \<Rightarrow> page_id_t option result" where
  "ir_GetRootId index_id d = Inr (map_option (\<lambda>index. snd (ir_root d index)) (FindIndex index_id d))"

section \<open>The entries\<close>

definition ir_view :: "irpage \<Rightarrow> (index_id_t \<times> page_id_t) list" where
  "ir_view d = map (ir_root d) [0..<nat (sint (ir_count d))]"

definition ir_ok :: "irpage \<Rightarrow> bool" where
  "ir_ok d \<longleftrightarrow> length d = PAGE_SIZE \<and> unat (ir_count d) \<le> MAX_INDEX_COUNT \<and> distinct (map fst (ir_view d))"

lemma ir_frame:
  assumes "length d = PAGE_SIZE" "i < 511"
  shows "length (ir_set_root i e d) = PAGE_SIZE" "ir_count (ir_set_root i e d) = ir_count d"
    "ir_root (ir_set_root i e d) j = (if i = j then e else ir_root d j)"
proof -
  have "ir_root (ir_set_root i e d) i = e"
    using assms by (cases e) (simp add: ir_set_root_def ir_root_def layout_simps PAGE_SIZE_def)
  moreover have "ir_root (ir_set_root i e d) j = ir_root d j" if "i \<noteq> j"
  proof -
    have "8 * j + 8 \<le> 8 * i \<or> 8 * i + 8 \<le> 8 * j" using that by linarith
    then show ?thesis
      using assms by (auto simp: ir_set_root_def ir_root_def PAGE_SIZE_def layout_simps)
  qed
  ultimately show "ir_root (ir_set_root i e d) j = (if i = j then e else ir_root d j)" by auto
qed (use assms in \<open>simp_all add: ir_set_root_def ir_count_def PAGE_SIZE_def layout_simps\<close>)

lemma ir_set_count_frame:
  assumes "length d = PAGE_SIZE"
  shows "length (ir_set_count n d) = PAGE_SIZE" "ir_count (ir_set_count n d) = n" "ir_root (ir_set_count n d) i = ir_root d i"
  using assms by (simp_all add: ir_set_count_def ir_count_def ir_root_def layout_simps PAGE_SIZE_def)

lemma ir_okD:
  assumes "ir_ok d"
  shows "length d = PAGE_SIZE" "sint (ir_count d) = int (unat (ir_count d))" "unat (ir_count d) \<le> 511"
    "nat (sint (ir_count d)) = unat (ir_count d)" "length (ir_view d) = unat (ir_count d)"
proof -
  show c: "unat (ir_count d) \<le> 511" using assms by (simp add: ir_ok_def MAX_INDEX_COUNT_def PAGE_SIZE_def)
  then show s: "sint (ir_count d) = int (unat (ir_count d))" by (intro sint_small) simp
  then show n: "nat (sint (ir_count d)) = unat (ir_count d)" by simp
  then show "length (ir_view d) = unat (ir_count d)" by (simp add: ir_view_def)
qed (use assms in \<open>simp add: ir_ok_def\<close>)

lemma FindIndex_view: "map_of (ir_view d) k = map_option (\<lambda>i. snd (ir_root d i)) (FindIndex k d)"
  by (simp add: ir_view_def FindIndex_def map_of_find_upt)

lemma ir_shift_effect:
  "b \<le> 510 \<Longrightarrow> length d = PAGE_SIZE \<Longrightarrow> length (ir_shift [a..<b] d) = PAGE_SIZE \<and> ir_count (ir_shift [a..<b] d) = ir_count d \<and>
   (\<forall>j. ir_root (ir_shift [a..<b] d) j = (if a \<le> j \<and> j < b then ir_root d (Suc j) else ir_root d j))"
proof (induction "b - a" arbitrary: a d)
  case (Suc n)
  then have ab: "a < b" "n = b - Suc a" by auto
  let ?d = "ir_set_root a (ir_root d (Suc a)) d"
  have "a < 511" using ab Suc.prems(1) by simp
  note F = ir_frame [OF Suc.prems(2) this, of "ir_root d (Suc a)"]
  have "length (ir_shift [Suc a..<b] ?d) = PAGE_SIZE \<and> ir_count (ir_shift [Suc a..<b] ?d) = ir_count ?d \<and>
     (\<forall>j. ir_root (ir_shift [Suc a..<b] ?d) j = (if Suc a \<le> j \<and> j < b then ir_root ?d (Suc j) else ir_root ?d j))"
    using Suc.hyps(1) [OF ab(2)] Suc.prems(1) F(1) by blast
  moreover have "ir_shift [a..<b] d = ir_shift [Suc a..<b] ?d" using ab(1) by (simp add: upt_conv_Cons)
  ultimately show ?case using F ab(1) by auto
qed auto

lemma FindIndex_iff: "FindIndex k d = Some i \<Longrightarrow> i < nat (sint (ir_count d)) \<and> fst (ir_root d i) = k"
  "FindIndex k d = None \<longleftrightarrow> map_of (ir_view d) k = None"
  by (auto simp: FindIndex_def find_upt_least FindIndex_view)

lemma view_count:
  assumes "length d' = PAGE_SIZE" "unat (ir_count d') = n" "n \<le> 511" "map (ir_root d') [0..<n] = es" "distinct (map fst es)"
  shows "ir_ok d'" "ir_view d' = es"
proof -
  have "nat (sint (ir_count d')) = n" using sint_small [of "ir_count d'"] assms(2,3) by simp
  then show "ir_view d' = es" by (simp add: ir_view_def assms(4))
  then show "ir_ok d'" using assms by (simp add: ir_ok_def MAX_INDEX_COUNT_def PAGE_SIZE_def)
qed

lemma ir_insert_new:
  assumes ok: "ir_ok d" and k: "map_of (ir_view d) k = None" and room: "length (ir_view d) < MAX_INDEX_COUNT"
  shows "\<exists>d'. ir_Insert k r d = Inr (d', True) \<and> ir_ok d' \<and> ir_view d' = ir_view d @ [(k, r)]"
proof -
  note K = ir_okD [OF ok]
  let ?n = "unat (ir_count d)"
  let ?d1 = "ir_set_root ?n (k, r) d" let ?d = "ir_set_count (ir_count d + 1) ?d1"
  have n: "?n < 511" using room K(5) by (simp add: MAX_INDEX_COUNT_def PAGE_SIZE_def)
  note F = ir_frame [OF K(1) n, of "(k, r)"] and G = ir_set_count_frame [OF ir_frame(1) [OF K(1) n, of "(k, r)"]]
  have c: "unat (ir_count ?d) = Suc ?n" using n by (simp add: G unat_word_ariths)
  have es: "map (ir_root ?d) [0..<Suc ?n] = ir_view d @ [(k, r)]" by (simp add: G F ir_view_def K(4))
  have "distinct (map fst (ir_view d @ [(k, r)]))"
    using ok k by (auto simp: ir_ok_def map_of_eq_None_iff)
  note V = view_count [OF G(1) c _ es this]
  have "ir_Insert k r d = Inr (?d, True)"
    using FindIndex_iff(2) [of k d] k n K(1) by (simp add: ir_Insert_def K(4) Let_def PAGE_SIZE_def)
  then show ?thesis using V n by auto
qed

lemma ir_delete_present:
  assumes ok: "ir_ok d" and k: "map_of (ir_view d) k \<noteq> None"
  shows "\<exists>d'. ir_Delete k d = Inr (d', True) \<and> ir_ok d' \<and> ir_view d' = filter (\<lambda>(k', _). k' \<noteq> k) (ir_view d)"
proof -
  note K = ir_okD [OF ok]
  let ?n = "unat (ir_count d)"
  obtain i where f: "FindIndex k d = Some i" using k FindIndex_iff(2) [of k d] by auto
  then have i: "i < ?n" "fst (ir_root d i) = k" using FindIndex_iff(1) [OF f] K(4) by simp_all
  obtain m where m: "?n = Suc m" using i(1) by (cases ?n) auto
  define d1 where "d1 = ir_shift [i..<m] d"
  define d' where "d' = ir_set_count (ir_count d - 1) d1"
  have S: "length d1 = PAGE_SIZE" "ir_count d1 = ir_count d"
    "\<And>j. ir_root d1 j = (if i \<le> j \<and> j < m then ir_root d (Suc j) else ir_root d j)"
    using ir_shift_effect [of m d i] K(1,3) m by (auto simp: d1_def)
  note G = ir_set_count_frame [OF S(1), of "ir_count d - 1", folded d'_def]
  have c: "unat (ir_count d') = m"
    unfolding G(2) using unat_sub [of 1 "ir_count d"] m by (simp add: word_le_nat_alt)
  have flt: "filter (\<lambda>(k', _). k' \<noteq> k) (ir_view d) = take i (ir_view d) @ drop (Suc i) (ir_view d)"
    using ok i K(4) by (intro filter_key_take_drop) (auto simp: ir_ok_def ir_view_def)
  have vn: "ir_view d = map (ir_root d) [0..<Suc m]" by (simp add: ir_view_def K(4) m)
  have es: "map (ir_root d') [0..<m] = take i (ir_view d) @ drop (Suc i) (ir_view d)"
    by (rule nth_equalityI) (use i m in \<open>auto simp: G S vn nth_append take_map drop_map simp del: upt_Suc\<close>)
  have "distinct (map fst (take i (ir_view d) @ drop (Suc i) (ir_view d)))"
    unfolding flt [symmetric] using ok by (simp add: ir_ok_def distinct_map_filter)
  note V = view_count [OF G(1) c _ es this]
  have "ir_Delete k d = Inr (d', True)" using f m by (simp add: ir_Delete_def K(2) d'_def d1_def)
  then show ?thesis using V K(3) flt m by auto
qed

lemma ir_update_view:
  assumes ok: "ir_ok d"
  shows "\<exists>d'. ir_Update k r d = Inr (d', map_of (ir_view d) k \<noteq> None) \<and> ir_ok d' \<and>
    ir_view d' = map (\<lambda>(k', r'). (k', if k' = k then r else r')) (ir_view d)"
proof (cases "FindIndex k d")
  case None
  then have n: "map_of (ir_view d) k = None" by (simp add: FindIndex_iff)
  then have "map (\<lambda>(k', r'). (k', if k' = k then r else r')) (ir_view d) = ir_view d"
    by (intro map_idI) (auto simp: map_of_eq_None_iff image_iff)
  with None n ok show ?thesis by (simp add: ir_Update_def)
next
  case (Some i)
  note K = ir_okD [OF ok] and I = FindIndex_iff(1) [OF Some]
  let ?n = "unat (ir_count d)" let ?d = "ir_set_root i (fst (ir_root d i), r) d"
  have i: "i < ?n" "i < 511" "fst (ir_root d i) = k" using I K(3,4) by simp_all
  note F = ir_frame [OF K(1) i(2), of "(fst (ir_root d i), r)"]
  have dist: "distinct (map fst (ir_view d))" using ok by (simp add: ir_ok_def)
  have only: "fst (ir_root d j) = k \<longleftrightarrow> j = i" if "j < ?n" for j
    using dist i that nth_eq_iff_index_eq [OF dist, of j i] by (auto simp: ir_view_def K(4))
  have es: "map (ir_root ?d) [0..<?n] = map (\<lambda>(k', r'). (k', if k' = k then r else r')) (ir_view d)"
    using only i by (auto simp: F ir_view_def K(4) split_def prod_eq_iff)
  have d: "distinct (map fst (map (\<lambda>(k', r'). (k', if k' = k then r else r')) (ir_view d)))"
    using dist by (simp add: comp_def split_def)
  have "unat (ir_count ?d) = ?n" by (simp add: F)
  from view_count [OF F(1) this K(3) es d] show ?thesis
    using Some FindIndex_iff(2) [of k d] by (auto simp: ir_Update_def)
qed

interpretation ir: root_directory ir_Insert ir_Delete ir_Update ir_GetRootId ir_view ir_ok MAX_INDEX_COUNT True
  "\<lambda>_. True" "\<lambda>_. True"
proof (unfold_locales, goal_cases)
  case (1 p)
  then show ?case by (simp add: ir_ok_def)
next
  case (2 p k)
  show ?case by (simp add: ir_GetRootId_def FindIndex_view)
next
  case (3 p k r)
  then show ?case using FindIndex_iff(2) [of k p] by (auto simp: ir_Insert_def)
next
  case (4 p k r)
  then show ?case by (intro ir_insert_new)
next
  case (5 p k)
  then show ?case
    using ir_delete_present [of p k] FindIndex_iff(2) [of k p] filter_key_absent [of "ir_view p" k]
    by (cases "map_of (ir_view p) k") (auto simp: ir_Delete_def)
next
  case (6 p k r)
  then show ?case by (intro ir_update_view)
qed

lemma ir_insert_full:
  assumes "ir_ok d" "map_of (ir_view d) k = None" "length (ir_view d) = MAX_INDEX_COUNT"
  shows "ir_Insert k r d = Inl (OutOfBounds ''roots_'')"
  using ir_okD(1,4,5) [OF assms(1)] FindIndex_iff(2) [of k d] assms(2,3)
  by (simp add: ir_Insert_def MAX_INDEX_COUNT_def PAGE_SIZE_def)

text \<open>C28. The page of index roots behaves as a map from index ids to root pages: after any sequence of
  \<^verbatim>\<open>Insert\<close>, \<^verbatim>\<open>Delete\<close> and \<^verbatim>\<open>Update\<close> calls in which no new id is inserted while the page holds its 511 entries, every
  call has returned whether it changed the map (true for a new id, a deleted entry, an updated entry), and
  \<^verbatim>\<open>GetRootId\<close> gives for every id what the same operations make of a map. Deleting from an empty page and calls on
  a full page are included; the insertion of a new id into a full page, which the code does not
  check, writes behind the array.\<close>

theorem index_roots_refine_map:
  assumes "ir_ok d" "ops_ok MAX_INDEX_COUNT True (\<lambda>_. True) (\<lambda>_. True) ops (map_of (ir_view d))"
  shows "\<exists>d'. dir_run ir_Insert ir_Delete ir_Update ops d = Inr (d', map_flags ops (map_of (ir_view d))) \<and> ir_ok d' \<and>
    (\<forall>k. ir_GetRootId k d' = Inr (fold map_op ops (map_of (ir_view d)) k)) \<and>
    (\<forall>k r. fold map_op ops (map_of (ir_view d)) k = None \<and> card (dom (fold map_op ops (map_of (ir_view d)))) = MAX_INDEX_COUNT \<longrightarrow>
       ir_Insert k r d' = Inl (OutOfBounds ''roots_''))"
proof -
  obtain d' where 1: "dir_run ir_Insert ir_Delete ir_Update ops d = Inr (d', map_flags ops (map_of (ir_view d)))" "ir_ok d'"
    "map_of (ir_view d') = fold map_op ops (map_of (ir_view d))" using ir.run_refines [OF assms] by blast
  show ?thesis
    by (rule exI [of _ d']) (use 1 ir.lookup_view [OF 1(2)] ir_insert_full [OF 1(2)] ir.card_view [OF 1(2)] in auto)
qed

lemma ir_Init_ok: "length d = PAGE_SIZE \<Longrightarrow> ir_ok (ir_Init d) \<and> ir_view (ir_Init d) = []"
  by (simp add: ir_Init_def ir_ok_def ir_view_def ir_set_count_frame MAX_INDEX_COUNT_def PAGE_SIZE_def)

theorem index_roots_refine_map_witness:
  "\<exists>d'. dir_run ir_Insert ir_Delete ir_Update [OpDelete 3, OpInsert 3 7, OpInsert 5 9, OpInsert 5 8, OpDelete 3, OpUpdate 5 11]
       (ir_Init (replicate PAGE_SIZE 0)) = Inr (d', [False, True, True, False, True, True]) \<and>
     ir_GetRootId 5 d' = Inr (Some 11) \<and> ir_GetRootId 3 d' = Inr None"
proof -
  have "ir_ok (ir_Init (replicate PAGE_SIZE 0))" "ir_view (ir_Init (replicate PAGE_SIZE 0)) = []"
    using ir_Init_ok [of "replicate PAGE_SIZE 0"] by simp_all
  then show ?thesis
    using index_roots_refine_map [of "ir_Init (replicate PAGE_SIZE 0)"
        "[OpDelete 3, OpInsert 3 7, OpInsert 5 9, OpInsert 5 8, OpDelete 3, OpUpdate 5 11]"]
    by (auto simp: MAX_INDEX_COUNT_def PAGE_SIZE_def simp del: dir_run.simps)
qed

end
