(* ===== verification/Header_Page.thy ===== *)
theory Header_Page
  imports Root_Directory
begin

text \<open>
  The header page (\<^verbatim>\<open>src/include/page/header_page.h\<close>, \<^verbatim>\<open>src/page/header_page.cpp\<close>) on its bytes: a count
  and records of 36 bytes, a C string of at most 31 characters and a root page number. A name is its list of
  bytes; \<^verbatim>\<open>strcmp\<close> sees it up to its first zero byte. As in the index roots page, insertion does not check
  the capacity; \<open>OutOfBounds\<close> marks a write behind the page.
\<close>

type_synonym hpage = "byte list"
type_synonym hname = "byte list"

definition HEADER_PAGE_MAX_ENTRY_NAME_LEN :: nat where "HEADER_PAGE_MAX_ENTRY_NAME_LEN = 32"

definition c_string :: "byte list \<Rightarrow> hname" where "c_string bs = takeWhile (\<lambda>b. b \<noteq> 0) bs"

definition GetRecordCount :: "hpage \<Rightarrow> 32 word" where "GetRecordCount d = rd32 d 0"
definition SetRecordCount :: "32 word \<Rightarrow> hpage \<Rightarrow> hpage" where "SetRecordCount n d = wr32 d 0 n"

definition HeaderPage_Init :: "hpage \<Rightarrow> hpage" where "HeaderPage_Init d = SetRecordCount 0 d"

definition FindRecord :: "hname \<Rightarrow> hpage \<Rightarrow> nat option" where
  "FindRecord name d =
     find (\<lambda>i. c_string (drop (4 + i * 36) d) = c_string name) [0..<nat (sint (GetRecordCount d))]"

definition InsertRecord :: "hname \<Rightarrow> page_id_t \<Rightarrow> hpage \<Rightarrow> (hpage \<times> bool) result" where
  "InsertRecord name root_id d =
     ASSERT (length name < 32) ''name.length() < 32''
     (ASSERT (sint INVALID_PAGE_ID < sint root_id) ''root_id > INVALID_PAGE_ID''
      (let record_num = nat (sint (GetRecordCount d)); offset = 4 + record_num * 36
       in case FindRecord name d of
            Some _ \<Rightarrow> Inr (d, False)
          | None \<Rightarrow> if length d < offset + 36 then Inl (OutOfBounds ''record'')
                    else let d = wr d offset (name @ [0]);
                             d = wr32 d (offset + 32) root_id
                         in Inr (SetRecordCount (GetRecordCount d + 1) d, True)))"

definition DeleteRecord :: "hname \<Rightarrow> hpage \<Rightarrow> (hpage \<times> bool) result" where
  "DeleteRecord name d =
     ASSERT (0 < sint (GetRecordCount d)) ''record_num > 0''
     (case FindRecord name d of
        None \<Rightarrow> Inr (d, False)
      | Some index \<Rightarrow>
          let record_num = nat (sint (GetRecordCount d)); offset = index * 36 + 4;
              d = memmove offset (offset + 36) ((record_num - index - 1) * 36) d
          in Inr (SetRecordCount (GetRecordCount d - 1) d, True))"

definition UpdateRecord :: "hname \<Rightarrow> page_id_t \<Rightarrow> hpage \<Rightarrow> (hpage \<times> bool) result" where
  "UpdateRecord name root_id d =
     ASSERT (length name < 32) ''name.length() < 32''
     (case FindRecord name d of
        None \<Rightarrow> Inr (d, False)
      | Some index \<Rightarrow> Inr (wr32 d (index * 36 + 4 + 32) root_id, True))"

definition header_GetRootId :: "hname \<Rightarrow> hpage \<Rightarrow> page_id_t option result" where
  "header_GetRootId name d =
     ASSERT (length name < 32) ''name.length() < 32''
     (Inr (map_option (\<lambda>index. rd32 d ((index + 1) * 36)) (FindRecord name d)))"

section \<open>The records\<close>

definition hrec :: "hpage \<Rightarrow> nat \<Rightarrow> hname \<times> page_id_t" where
  "hrec d i = (c_string (drop (4 + i * 36) d), rd32 d (36 + i * 36))"

definition header_view :: "hpage \<Rightarrow> (hname \<times> page_id_t) list" where
  "header_view d = map (hrec d) [0..<nat (sint (GetRecordCount d))]"

definition header_ok :: "hpage \<Rightarrow> bool" where
  "header_ok d \<longleftrightarrow> length d = PAGE_SIZE \<and> unat (GetRecordCount d) \<le> 113 \<and> distinct (map fst (header_view d)) \<and>
     (\<forall>i < unat (GetRecordCount d). 0 \<in> set (rd 32 d (4 + i * 36)))"

definition name_ok :: "hname \<Rightarrow> bool" where
  "name_ok name \<longleftrightarrow> length name < 32 \<and> 0 \<notin> set name"

lemma c_string_bounded: "0 \<in> set (rd 32 d off) \<Longrightarrow> c_string (drop off d) = c_string (rd 32 d off)"
  unfolding c_string_def rd_def
  by (subst append_take_drop_id [of 32 "drop off d", symmetric], subst takeWhile_append1) auto

lemma hrec_cong:
  assumes "rd 36 d' (4 + i * 36) = rd 36 d (4 + j * 36)" "0 \<in> set (rd 32 d (4 + j * 36))"
  shows "hrec d' i = hrec d j" "0 \<in> set (rd 32 d' (4 + i * 36))"
proof -
  have cut: "rd 32 b o1 = take 32 (rd 36 b o1)" "rd 4 b (o1 + 32) = drop 32 (rd 36 b o1)" for b o1
    by (simp_all add: rd_def add.commute drop_take)
  have 1: "rd 32 d' (4 + i * 36) = rd 32 d (4 + j * 36)" unfolding cut using assms(1) by simp
  then show z: "0 \<in> set (rd 32 d' (4 + i * 36))" using assms(2) by simp
  have "rd 4 d' (4 + i * 36 + 32) = rd 4 d (4 + j * 36 + 32)" unfolding cut using assms(1) by simp
  then have "rd32 d' (36 + i * 36) = rd32 d (36 + j * 36)" by (simp add: rd32_def algebra_simps)
  then show "hrec d' i = hrec d j" using 1 z assms(2) by (simp add: hrec_def c_string_bounded)
qed

lemma header_okD:
  assumes "header_ok d"
  shows "length d = PAGE_SIZE" "unat (GetRecordCount d) \<le> 113" "sint (GetRecordCount d) = int (unat (GetRecordCount d))"
    "nat (sint (GetRecordCount d)) = unat (GetRecordCount d)" "length (header_view d) = unat (GetRecordCount d)"
    "distinct (map fst (header_view d))"
    "\<And>i. i < unat (GetRecordCount d) \<Longrightarrow> 0 \<in> set (rd 32 d (4 + i * 36))"
proof -
  show c: "unat (GetRecordCount d) \<le> 113" using assms by (simp add: header_ok_def)
  then show "sint (GetRecordCount d) = int (unat (GetRecordCount d))" by (intro sint_small) simp
  then show n: "nat (sint (GetRecordCount d)) = unat (GetRecordCount d)" by simp
  then show "length (header_view d) = unat (GetRecordCount d)" by (simp add: header_view_def)
qed (use assms in \<open>simp_all add: header_ok_def\<close>)

lemma header_view_count:
  assumes "length d' = PAGE_SIZE" "unat (GetRecordCount d') = n" "n \<le> 113" "map (hrec d') [0..<n] = es"
    "distinct (map fst es)" "\<And>i. i < n \<Longrightarrow> 0 \<in> set (rd 32 d' (4 + i * 36))"
  shows "header_ok d'" "header_view d' = es"
proof -
  have "nat (sint (GetRecordCount d')) = n" using sint_small [of "GetRecordCount d'"] assms(2,3) by simp
  then show "header_view d' = es" by (simp add: header_view_def assms(4))
  then show "header_ok d'" using assms by (simp add: header_ok_def)
qed

lemma c_string_name: "name_ok name \<Longrightarrow> c_string name = name"
  by (simp add: c_string_def name_ok_def) (metis takeWhile_eq_all_conv)

lemma FindRecord_view:
  assumes "name_ok name"
  shows "map_of (header_view d) name = map_option (\<lambda>i. rd32 d (36 + i * 36)) (FindRecord name d)"
    "FindRecord name d = None \<longleftrightarrow> map_of (header_view d) name = None"
    "FindRecord name d = Some i \<Longrightarrow> i < nat (sint (GetRecordCount d)) \<and> fst (hrec d i) = name"
  using assms by (auto simp: header_view_def FindRecord_def map_of_find_upt hrec_def c_string_name find_upt_least)

lemma insert_record_new:
  assumes ok: "header_ok d" and nm: "name_ok name" and r: "sint INVALID_PAGE_ID < sint root"
    and k: "map_of (header_view d) name = None" and room: "length (header_view d) < 113"
  shows "\<exists>d'. InsertRecord name root d = Inr (d', True) \<and> header_ok d' \<and> header_view d' = header_view d @ [(name, root)]"
proof -
  note K = header_okD [OF ok]
  let ?n = "unat (GetRecordCount d)"
  have n: "?n < 113" using room K(5) by simp
  have nl: "length name \<le> 31" "0 \<notin> set name" using nm by (simp_all add: name_ok_def)
  define o1 where "o1 = 4 + ?n * 36"
  have o1: "o1 + 36 \<le> 4096" "4 \<le> o1" using n by (simp_all add: o1_def)
  define d1 where "d1 = wr d o1 (name @ [0])"
  define d2 where "d2 = wr32 d1 (o1 + 32) root"
  define d' where "d' = SetRecordCount (GetRecordCount d + 1) d2"
  have len: "length d1 = PAGE_SIZE" "length d2 = PAGE_SIZE" "length d' = PAGE_SIZE"
    using K(1) o1 nl by (simp_all add: d1_def d2_def d'_def SetRecordCount_def PAGE_SIZE_def)
  have cnt: "GetRecordCount d2 = GetRecordCount d" "unat (GetRecordCount d') = Suc ?n"
    using K(1) o1 nl len n
    by (simp_all add: d1_def d2_def d'_def SetRecordCount_def GetRecordCount_def layout_simps PAGE_SIZE_def unat_word_ariths)
  have old: "rd 36 d' (4 + i * 36) = rd 36 d (4 + i * 36)" if "i < ?n" for i
  proof -
    have "4 + i * 36 + 36 \<le> o1" using that by (simp add: o1_def)
    then show ?thesis using K(1) o1 nl len
      by (simp add: d'_def d2_def d1_def SetRecordCount_def layout_simps PAGE_SIZE_def)
  qed
  have new: "rd 32 d' o1 = rd 32 d1 o1" "rd32 d' (o1 + 32) = root"
    using K(1) o1 nl len by (simp_all add: d'_def d2_def SetRecordCount_def layout_simps PAGE_SIZE_def)
  have "rd 32 d1 o1 = take 32 (name @ 0 # drop (o1 + length name + 1) d)"
    using o1 K(1) by (simp add: d1_def wr_def rd_def PAGE_SIZE_def)
  then have "rd 32 d1 o1 = name @ 0 # take (31 - length name) (drop (o1 + length name + 1) d)"
    using nl(1) by (simp add: take_Cons' Suc_diff_le)
  then have s: "0 \<in> set (rd 32 d' o1)" "c_string (drop o1 d') = name"
    using nl new(1) c_string_bounded [of d' o1] by (auto simp: c_string_def takeWhile_append)
  have "hrec d' ?n = (name, root)" using s(2) new(2) by (simp add: hrec_def o1_def add.commute)
  moreover have "hrec d' i = hrec d i" "0 \<in> set (rd 32 d' (4 + i * 36))" if "i < ?n" for i
    using hrec_cong [OF old [OF that] K(7) [OF that]] by simp_all
  ultimately have es: "map (hrec d') [0..<Suc ?n] = header_view d @ [(name, root)]"
    and z: "\<And>i. i < Suc ?n \<Longrightarrow> 0 \<in> set (rd 32 d' (4 + i * 36))"
    using s(1) by (auto simp: header_view_def K(4) o1_def less_Suc_eq)
  have "distinct (map fst (header_view d @ [(name, root)]))" using K(6) k by (auto simp: map_of_eq_None_iff)
  note V = header_view_count [OF len(3) cnt(2) _ es this z]
  have "InsertRecord name root d = Inr (d', True)"
    using FindRecord_view(2) [OF nm, of d] k r nl n K(1) cnt(1)
    by (simp add: InsertRecord_def K(4) Let_def PAGE_SIZE_def d'_def d2_def d1_def o1_def)
  then show ?thesis using V n by auto
qed

lemma delete_record_present:
  assumes ok: "header_ok d" and nm: "name_ok name" and k: "map_of (header_view d) name \<noteq> None"
  shows "\<exists>d'. DeleteRecord name d = Inr (d', True) \<and> header_ok d' \<and>
    header_view d' = filter (\<lambda>(k', _). k' \<noteq> name) (header_view d)"
proof -
  note K = header_okD [OF ok]
  let ?n = "unat (GetRecordCount d)"
  obtain i where f: "FindRecord name d = Some i" using k FindRecord_view(2) [OF nm, of d] by auto
  then have i: "i < ?n" "fst (hrec d i) = name" using FindRecord_view(3) [OF nm f] K(4) by simp_all
  define m where "m = (?n - i - 1) * 36"
  define o1 where "o1 = i * 36 + 4"
  have b: "o1 + 36 + m \<le> 4096" "4 \<le> o1" using i K(2) by (simp_all add: m_def o1_def)
  define d1 where "d1 = memmove o1 (o1 + 36) m d"
  define d' where "d' = SetRecordCount (GetRecordCount d1 - 1) d1"
  have src: "length (rd m d (o1 + 36)) = m" using b K(1) by (simp add: PAGE_SIZE_def)
  have len: "length d1 = PAGE_SIZE" "length d' = PAGE_SIZE"
    using K(1) b src by (simp_all add: d1_def d'_def memmove_def SetRecordCount_def PAGE_SIZE_def)
  have c1: "GetRecordCount d1 = GetRecordCount d"
    using K(1) b src by (simp add: d1_def memmove_def GetRecordCount_def layout_simps PAGE_SIZE_def)
  have cnt: "unat (GetRecordCount d') = ?n - 1"
  proof -
    have "GetRecordCount d' = GetRecordCount d - 1"
      using c1 len(1) by (simp add: d'_def SetRecordCount_def GetRecordCount_def layout_simps PAGE_SIZE_def)
    then show ?thesis using unat_sub [of 1 "GetRecordCount d"] i(1) by (simp add: word_le_nat_alt)
  qed
  have low: "rd 36 d' (4 + j * 36) = rd 36 d (4 + j * 36)" if "j < i" for j
  proof -
    have "4 + j * 36 + 36 \<le> o1" using that by (simp add: o1_def)
    then show ?thesis using K(1) b src len
      by (simp add: d'_def d1_def memmove_def SetRecordCount_def layout_simps PAGE_SIZE_def)
  qed
  have high: "rd 36 d' (4 + j * 36) = rd 36 d (4 + Suc j * 36)" if "i \<le> j" "j < ?n - 1" for j
  proof -
    have "Suc (j - i) \<le> ?n - i - 1" using that by linarith
    then have "Suc (j - i) * 36 \<le> m" unfolding m_def by (rule mult_le_mono1)
    then have "(j - i) * 36 + 36 \<le> m" by simp
    moreover have "4 + j * 36 = o1 + (j - i) * 36" "o1 + 36 + (j - i) * 36 = 4 + Suc j * 36"
      using that by (simp_all add: o1_def diff_mult_distrib)
    moreover have "rd 36 d1 (o1 + x) = rd 36 d (o1 + 36 + x)" if "x + 36 \<le> m" for x
      using rd_memmove(1) [of o1 m d "o1 + 36" "o1 + 36 + x" 36] that b K(1) by (simp add: d1_def PAGE_SIZE_def)
    moreover have "rd 36 d' y = rd 36 d1 y" if "4 \<le> y" for y
      using that len(1) by (simp add: d'_def SetRecordCount_def layout_simps PAGE_SIZE_def)
    ultimately show ?thesis by (metis le_add1)
  qed
  have recs: "hrec d' j = hrec d (if j < i then j else Suc j) \<and> 0 \<in> set (rd 32 d' (4 + j * 36))" if "j < ?n - 1" for j
  proof (cases "j < i")
    case True
    with that i show ?thesis using hrec_cong [OF low [OF True] K(7) [of j]] by simp
  next
    case False
    have "Suc j < ?n" using that by simp
    with False that show ?thesis using hrec_cong [OF high [of j] K(7) [of "Suc j"]] by simp
  qed
  have flt: "filter (\<lambda>(k', _). k' \<noteq> name) (header_view d) = take i (header_view d) @ drop (Suc i) (header_view d)"
    using K(4-6) i by (intro filter_key_take_drop) (auto simp: header_view_def)
  have es: "map (hrec d') [0..<?n - 1] = take i (header_view d) @ drop (Suc i) (header_view d)"
    by (rule nth_equalityI) (use i K(4) recs in \<open>auto simp: header_view_def nth_append take_map drop_map\<close>)
  have "distinct (map fst (take i (header_view d) @ drop (Suc i) (header_view d)))"
    unfolding flt [symmetric] using K(6) by (simp add: distinct_map_filter)
  note V = header_view_count [OF len(2) cnt _ es this]
  have "0 < sint (GetRecordCount d)" unfolding K(3) using i(1) by linarith
  then have "DeleteRecord name d = Inr (d', True)"
    using f i by (simp add: DeleteRecord_def K(4) d'_def d1_def m_def o1_def Let_def)
  then show ?thesis using V K(2) flt recs by auto
qed

lemma update_record_view:
  assumes ok: "header_ok d" and nm: "name_ok name"
  shows "\<exists>d'. UpdateRecord name root d = Inr (d', map_of (header_view d) name \<noteq> None) \<and> header_ok d' \<and>
    header_view d' = map (\<lambda>(k', r'). (k', if k' = name then root else r')) (header_view d)"
proof (cases "FindRecord name d")
  case None
  then have n: "map_of (header_view d) name = None" using FindRecord_view(2) [OF nm] by simp
  then have "map (\<lambda>(k', r'). (k', if k' = name then root else r')) (header_view d) = header_view d"
    by (intro map_idI) (auto simp: map_of_eq_None_iff image_iff)
  with None n ok nm show ?thesis by (simp add: UpdateRecord_def name_ok_def)
next
  case (Some i)
  note K = header_okD [OF ok] and I = FindRecord_view(3) [OF nm Some]
  let ?n = "unat (GetRecordCount d)"
  have i: "i < ?n" "i < 113" "fst (hrec d i) = name" using I K(2,4) by simp_all
  define d' where "d' = wr32 d (i * 36 + 4 + 32) root"
  have b: "i * 36 + 40 \<le> 4096" using i(2) by simp
  have len: "length d' = PAGE_SIZE" using K(1) b by (simp add: d'_def PAGE_SIZE_def)
  have cnt: "GetRecordCount d' = GetRecordCount d"
    using K(1) b by (simp add: d'_def GetRecordCount_def layout_simps PAGE_SIZE_def)
  have nm': "rd 32 d' (4 + j * 36) = rd 32 d (4 + j * 36)" for j
  proof -
    have "j \<le> i \<or> i < j" by linarith
    then have "4 + j * 36 + 32 \<le> i * 36 + 36 \<or> i * 36 + 40 \<le> 4 + j * 36" by auto
    then show ?thesis using K(1) b by (auto simp: d'_def layout_simps PAGE_SIZE_def)
  qed
  have root': "rd32 d' (36 + j * 36) = (if j = i then root else rd32 d (36 + j * 36))" for j
  proof -
    have "j = i \<or> j < i \<or> i < j" by linarith
    then have "j = i \<or> 36 + j * 36 + 4 \<le> i * 36 + 36 \<or> i * 36 + 40 \<le> 36 + j * 36" by auto
    then show ?thesis using K(1) b by (auto simp: d'_def layout_simps PAGE_SIZE_def add.commute)
  qed
  have recs: "hrec d' j = (fst (hrec d j), if j = i then root else snd (hrec d j))" if "j < ?n" for j
    using nm' root' K(7) [OF that] by (simp add: hrec_def c_string_bounded)
  have only: "fst (hrec d j) = name \<longleftrightarrow> j = i" if "j < ?n" for j
    using i that nth_eq_iff_index_eq [OF K(6), of j i] by (auto simp: header_view_def K(4))
  have es: "map (hrec d') [0..<?n] = map (\<lambda>(k', r'). (k', if k' = name then root else r')) (header_view d)"
    using only i by (auto simp: recs header_view_def K(4) split_def)
  have ds: "distinct (map fst (map (\<lambda>(k', r'). (k', if k' = name then root else r')) (header_view d)))"
    using K(6) by (simp add: comp_def split_def)
  have "UpdateRecord name root d = Inr (d', True)" using Some nm by (simp add: UpdateRecord_def d'_def name_ok_def)
  moreover have "unat (GetRecordCount d') = ?n" by (simp add: cnt)
  note V = header_view_count [OF len this K(2) es ds]
  ultimately show ?thesis using V nm' K(7) Some FindRecord_view(2) [OF nm, of d] by auto
qed

lemma HeaderPage_Init_ok: "length d = PAGE_SIZE \<Longrightarrow> header_ok (HeaderPage_Init d) \<and> header_view (HeaderPage_Init d) = []"
  by (simp add: HeaderPage_Init_def header_ok_def header_view_def SetRecordCount_def GetRecordCount_def layout_simps PAGE_SIZE_def)

interpretation hp: root_directory InsertRecord DeleteRecord UpdateRecord header_GetRootId header_view header_ok 113 False
  name_ok "\<lambda>r. sint INVALID_PAGE_ID < sint r"
proof (unfold_locales, goal_cases)
  case (1 p)
  then show ?case by (simp add: header_ok_def)
next
  case (2 p k)
  then show ?case
    using FindRecord_view(1) [of k p] by (simp add: header_GetRootId_def name_ok_def algebra_simps)
next
  case (3 p k r)
  then show ?case using FindRecord_view(2) [of k p] by (auto simp: InsertRecord_def name_ok_def Let_def)
next
  case (4 p k r)
  then show ?case by (intro insert_record_new)
next
  case (5 p k)
  note K = header_okD [OF 5(1)]
  have "0 < sint (GetRecordCount p)" using 5(3) K(3,5) by (cases "unat (GetRecordCount p)") auto
  then show ?case
    using delete_record_present [of p k] FindRecord_view(2) [of k p] filter_key_absent [of "header_view p" k] 5
    by (cases "map_of (header_view p) k") (auto simp: DeleteRecord_def)
next
  case (6 p k r)
  then show ?case by (intro update_record_view)
qed

text \<open>The header page behaves as a map from names to root pages: after any sequence of \<^verbatim>\<open>InsertRecord\<close>,
  \<^verbatim>\<open>DeleteRecord\<close> and \<^verbatim>\<open>UpdateRecord\<close> calls with names of at most 31 nonzero bytes that inserts no new name into a page of
  113 records and never deletes from an empty page, every call has returned whether it changed the map, and
  \<^verbatim>\<open>GetRootId\<close> gives for every such name what the same operations make of a map.\<close>

theorem header_page_refines_map:
  assumes "header_ok d" "ops_ok 113 False name_ok (\<lambda>r. sint INVALID_PAGE_ID < sint r) ops (map_of (header_view d))"
  shows "\<exists>d'. dir_run InsertRecord DeleteRecord UpdateRecord ops d = Inr (d', map_flags ops (map_of (header_view d))) \<and> header_ok d' \<and>
    (\<forall>k. name_ok k \<longrightarrow> header_GetRootId k d' = Inr (fold map_op ops (map_of (header_view d)) k))"
  using hp.run_refines [OF assms] hp.lookup_view by auto

theorem header_page_refines_map_witness:
  "\<exists>d'. dir_run InsertRecord DeleteRecord UpdateRecord [OpInsert [97] 7, OpInsert [98, 99] 9, OpDelete [97], OpUpdate [98, 99] 11]
       (HeaderPage_Init (replicate PAGE_SIZE 0)) = Inr (d', [True, True, True, True]) \<and>
     header_GetRootId [98, 99] d' = Inr (Some 11) \<and> header_GetRootId [97] d' = Inr None"
proof -
  have "header_ok (HeaderPage_Init (replicate PAGE_SIZE 0))" "header_view (HeaderPage_Init (replicate PAGE_SIZE 0)) = []"
    using HeaderPage_Init_ok [of "replicate PAGE_SIZE 0"] by simp_all
  moreover have "[[97 :: byte] \<mapsto> 7 :: page_id_t, [98, 99] \<mapsto> 9] \<noteq> Map.empty" by (metis map_upd_nonempty)
  ultimately show ?thesis
    using header_page_refines_map [of "HeaderPage_Init (replicate PAGE_SIZE 0)"
        "[OpInsert [97] 7, OpInsert [98, 99] 9, OpDelete [97], OpUpdate [98, 99] 11]"]
    by (auto simp: PAGE_SIZE_def name_ok_def INVALID_PAGE_ID_def simp del: dir_run.simps)
qed

end
