(* ===== verification/Generic_Key.thy ===== *)
theory Generic_Key
  imports Row_Codec
begin

text \<open>
  Index keys (\<^verbatim>\<open>src/include/index/generic_key.h\<close>): a key is a buffer of \<^verbatim>\<open>key_size_\<close> bytes holding a serialized
  row of the key schema, and \<^verbatim>\<open>KeyManager\<close> serializes, deserializes and compares them. The contract of the
  comparison that the pages of the B+ tree rely on is the locale \<open>key_compare\<close>.
\<close>

record KeyManager =
  km_key_size :: nat
  km_key_schema :: Schema

definition KeyManager_new :: "Schema \<Rightarrow> nat \<Rightarrow> KeyManager" where
  "KeyManager_new key_schema key_size = \<lparr>km_key_size = key_size, km_key_schema = key_schema\<rparr>"

definition KeyManager_copy :: "KeyManager \<Rightarrow> KeyManager" where
  "KeyManager_copy other = \<lparr>km_key_size = km_key_size other, km_key_schema = km_key_schema other\<rparr>"

definition SerializeFromKey :: "KeyManager \<Rightarrow> byte list \<Rightarrow> Row \<Rightarrow> Schema \<Rightarrow> byte list result" where
  "SerializeFromKey km key_buf key schema =
     bind_result (row_GetSerializedSize key schema) (\<lambda>size.
     ASSERT (length (row_fields key) = GetColumnCount schema) ''field nums not match.''
     (ASSERT (size \<le> km_key_size km) ''Index key size exceed max key size.''
      (let key_buf = wr key_buf 0 (replicate (km_key_size km) 0)
       in bind_result (row_SerializeTo key schema key_buf 0) (\<lambda>(key_buf, _). Inr key_buf))))"

definition DeserializeToKey :: "KeyManager \<Rightarrow> byte list \<Rightarrow> Row \<Rightarrow> Schema \<Rightarrow> Row result" where
  "DeserializeToKey km key_buf key schema =
     bind_result (row_DeserializeFrom key schema key_buf 0) (\<lambda>(key, ofs).
     ASSERT (ofs \<le> km_key_size km) ''Index key size exceed max key size.'' (Inr key))"

primrec compare_columns :: "nat list \<Rightarrow> Row \<Rightarrow> Row \<Rightarrow> int result" where
  "compare_columns [] lhs_key rhs_key = Inr 0"
| "compare_columns (i # is) lhs_key rhs_key =
     bind_result (GetField lhs_key i) (\<lambda>lhs_value.
     bind_result (GetField rhs_key i) (\<lambda>rhs_value.
     bind_result (CompareLessThan lhs_value rhs_value) (\<lambda>lt.
     if lt = kTrue then Inr (- 1)
     else bind_result (CompareGreaterThan lhs_value rhs_value) (\<lambda>gt.
     if gt = kTrue then Inr 1
     else compare_columns is lhs_key rhs_key))))"

definition CompareKeys :: "KeyManager \<Rightarrow> byte list \<Rightarrow> byte list \<Rightarrow> int result" where
  "CompareKeys km lhs rhs =
     (let column_count = GetColumnCount (km_key_schema km)
      in bind_result (DeserializeToKey km lhs (Row_of_rid INVALID_ROWID) (km_key_schema km)) (\<lambda>lhs_key.
         bind_result (DeserializeToKey km rhs (Row_of_rid INVALID_ROWID) (km_key_schema km)) (\<lambda>rhs_key.
         compare_columns [0..<column_count] lhs_key rhs_key)))"

section \<open>The contract of a key comparison\<close>

locale key_compare =
  fixes cmp :: "'k \<Rightarrow> 'k \<Rightarrow> int result" and lt :: "'k \<Rightarrow> 'k \<Rightarrow> bool" and valid :: "'k \<Rightarrow> bool"
  assumes cmp_lt: "valid a \<Longrightarrow> valid b \<Longrightarrow> cmp a b = Inr (if lt a b then - 1 else if lt b a then 1 else 0)"
    and lt_asym: "valid a \<Longrightarrow> valid b \<Longrightarrow> lt a b \<Longrightarrow> \<not> lt b a"
    and not_lt_trans: "valid a \<Longrightarrow> valid b \<Longrightarrow> valid c \<Longrightarrow> \<not> lt a b \<Longrightarrow> \<not> lt b c \<Longrightarrow> \<not> lt a c"
begin

lemma lt_trans: "valid a \<Longrightarrow> valid b \<Longrightarrow> valid c \<Longrightarrow> lt a b \<Longrightarrow> lt b c \<Longrightarrow> lt a c"
  using lt_asym not_lt_trans by metis

lemma cmp_sign:
  assumes "valid a" "valid b"
  shows "\<exists>c. cmp a b = Inr c \<and> (c < 0 \<longleftrightarrow> lt a b) \<and> (0 < c \<longleftrightarrow> lt b a) \<and> (c = 0 \<longleftrightarrow> \<not> lt a b \<and> \<not> lt b a) \<and> (c \<le> 0 \<longleftrightarrow> \<not> lt b a)"
  using cmp_lt [OF assms] lt_asym [OF assms] by auto

end

section \<open>The order of keys\<close>

fun vals_less :: "Val list \<Rightarrow> Val list \<Rightarrow> bool" where
  "vals_less (a # as) (b # bs) \<longleftrightarrow> val_less a b \<or> (\<not> val_less b a \<and> vals_less as bs)"
| "vals_less _ _ \<longleftrightarrow> False"

definition key_fields_of :: "KeyManager \<Rightarrow> byte list \<Rightarrow> Field list" where
  "key_fields_of km k =
     (case DeserializeToKey km k (Row_of_rid INVALID_ROWID) (km_key_schema km) of Inr r \<Rightarrow> row_fields r | Inl _ \<Rightarrow> [])"

definition key_less :: "KeyManager \<Rightarrow> byte list \<Rightarrow> byte list \<Rightarrow> bool" where
  "key_less km a b = vals_less (map f_value (key_fields_of km a)) (map f_value (key_fields_of km b))"

text \<open>A key that can be ordered: it decodes to a row of the key schema without nulls and NaNs.\<close>

definition key_valid :: "KeyManager \<Rightarrow> byte list \<Rightarrow> bool" where
  "key_valid km k \<longleftrightarrow> length k = km_key_size km \<and>
     (case DeserializeToKey km k (Row_of_rid INVALID_ROWID) (km_key_schema km) of
        Inl _ \<Rightarrow> False
      | Inr r \<Rightarrow> list_all2 (\<lambda>f c. comparable f \<and> f_type f = col_type c) (row_fields r) (km_key_schema km))"

lemma compare_less_greater:
  assumes "comparable l" "comparable r" "f_type l = f_type r"
  shows "CompareLessThan l r = Inr (GetCmpBool (val_less (f_value l) (f_value r)))"
    "CompareGreaterThan l r = Inr (GetCmpBool (val_less (f_value r) (f_value l)))"
    "val_less (f_value l) (f_value r) \<Longrightarrow> \<not> val_less (f_value r) (f_value l)"
  using field_compare_order [OF assms] by (auto simp: of_bool_def split: if_splits)

lemma val_less_negtrans:
  assumes "comparable a" "comparable b" "comparable c" "f_type a = f_type b" "f_type b = f_type c"
    and "\<not> val_less (f_value a) (f_value b)" "\<not> val_less (f_value b) (f_value c)"
  shows "\<not> val_less (f_value a) (f_value c)"
  using assms(1,2,4)
proof (cases rule: comparable_cases)
  case (Char x y)
  obtain z where "f_value c = Chars z" by (rule comparable_cases [OF assms(2,3,5)]) (use Char assms in auto)
  with Char assms(6,7) show ?thesis by auto
qed (rule comparable_cases [OF assms(2,3,5)]; use assms in auto)+

definition col_fields :: "Column list \<Rightarrow> Field list \<Rightarrow> bool" where
  "col_fields cs fs \<longleftrightarrow> list_all2 (\<lambda>f c. comparable f \<and> f_type f = col_type c) fs cs"

lemma col_fields_Cons:
  "col_fields (c # cs) fs \<longleftrightarrow> (\<exists>f fs'. fs = f # fs' \<and> comparable f \<and> f_type f = col_type c \<and> col_fields cs fs')"
  "col_fields [] fs \<longleftrightarrow> fs = []"
  by (auto simp: col_fields_def list_all2_Cons2)

lemma vals_less_order:
  "col_fields cs as \<Longrightarrow> col_fields cs bs \<Longrightarrow>
     vals_less (map f_value as) (map f_value bs) \<Longrightarrow> \<not> vals_less (map f_value bs) (map f_value as)"
  "col_fields cs as \<Longrightarrow> col_fields cs bs \<Longrightarrow> col_fields cs ds \<Longrightarrow>
     \<not> vals_less (map f_value as) (map f_value bs) \<Longrightarrow> \<not> vals_less (map f_value bs) (map f_value ds) \<Longrightarrow>
     \<not> vals_less (map f_value as) (map f_value ds)"
proof -
  show "vals_less (map f_value as) (map f_value bs) \<Longrightarrow> \<not> vals_less (map f_value bs) (map f_value as)"
    if "col_fields cs as" "col_fields cs bs"
    using that
    by (induction cs arbitrary: as bs) (auto simp: col_fields_Cons dest!: compare_less_greater(3) [rotated 3])
  show "\<not> vals_less (map f_value as) (map f_value ds)"
    if "col_fields cs as" "col_fields cs bs" "col_fields cs ds"
      "\<not> vals_less (map f_value as) (map f_value bs)" "\<not> vals_less (map f_value bs) (map f_value ds)"
    using that
  proof (induction cs arbitrary: as bs ds)
    case (Cons c cs)
    from Cons.prems(1-3) obtain a as' b bs' d ds' where *: "as = a # as'" "bs = b # bs'" "ds = d # ds'"
      "comparable a" "comparable b" "comparable d" "f_type a = f_type b" "f_type b = f_type d"
      "col_fields cs as'" "col_fields cs bs'" "col_fields cs ds'"
      unfolding col_fields_Cons by metis
    let ?l = "\<lambda>x y. val_less (f_value x) (f_value y)"
    have n1: "\<not> ?l a b" "?l b a \<or> \<not> vals_less (map f_value as') (map f_value bs')" using Cons.prems(4) *(1,2) by auto
    have n2: "\<not> ?l b d" "?l d b \<or> \<not> vals_less (map f_value bs') (map f_value ds')" using Cons.prems(5) *(2,3) by auto
    have ty: "f_type d = f_type a" using *(7,8) by simp
    have 1: "\<not> ?l a d" by (rule val_less_negtrans [OF *(4-8) n1(1) n2(1)])
    show ?case
    proof (cases "?l d a")
      case False
      have "\<not> ?l b a" by (rule val_less_negtrans [OF *(5,6,4) *(8) ty n2(1) False])
      moreover have "\<not> ?l d b" by (rule val_less_negtrans [OF *(6,4,5) ty *(7) False n1(1)])
      ultimately show ?thesis using 1 n1 n2 Cons.IH [OF *(9-11)] *(1,3) by simp
    qed (use 1 * in auto)
  qed (auto simp: col_fields_Cons)
qed

lemma compare_columns_from:
  assumes "col_fields cs as" "col_fields cs bs" "length pre = length pre'"
  shows "compare_columns [length pre..<length pre + length cs] \<lparr>row_rid = r1, row_fields = pre @ as\<rparr>
      \<lparr>row_rid = r2, row_fields = pre' @ bs\<rparr> =
    Inr (if vals_less (map f_value as) (map f_value bs) then - 1
         else if vals_less (map f_value bs) (map f_value as) then 1 else 0)"
  using assms
proof (induction cs arbitrary: as bs pre pre')
  case (Cons c cs)
  then obtain a as' b bs' where *: "as = a # as'" "bs = b # bs'" "comparable a" "comparable b" "f_type a = f_type b"
    "col_fields cs as'" "col_fields cs bs'" by (auto simp: col_fields_Cons)
  have u: "[length pre..<length pre + length (c # cs)] = length pre # [length (pre @ [a])..<length (pre @ [a]) + length cs]"
    by (simp add: upt_conv_Cons del: upt_Suc)
  note IH = Cons.IH [OF *(6,7), of "pre @ [a]" "pre' @ [b]"]
  have f: "(pre @ a # as') ! length pre = a" "(pre' @ b # bs') ! length pre = b"
    by (simp, simp add: Cons.prems(3))
  show ?case
    unfolding u using IH * f Cons.prems(3) [symmetric] compare_less_greater [OF *(3-5)] compare_less_greater(3) [OF *(4,3) *(5) [symmetric]]
    by (simp add: GetField_def GetCmpBool_def del: upt_Suc)
qed (auto simp: col_fields_Cons)

lemma key_validE:
  assumes "key_valid km k"
  obtains r where "DeserializeToKey km k (Row_of_rid INVALID_ROWID) (km_key_schema km) = Inr r"
    "col_fields (km_key_schema km) (row_fields r)" "key_fields_of km k = row_fields r"
  using assms unfolding key_valid_def by (auto simp: key_fields_of_def col_fields_def split: sum.splits)

lemma CompareKeys_less:
  assumes "key_valid km a" "key_valid km b"
  shows "CompareKeys km a b = Inr (if key_less km a b then - 1 else if key_less km b a then 1 else 0)"
proof -
  obtain r s where 1: "DeserializeToKey km a (Row_of_rid INVALID_ROWID) (km_key_schema km) = Inr r"
    "col_fields (km_key_schema km) (row_fields r)" "key_fields_of km a = row_fields r"
    "DeserializeToKey km b (Row_of_rid INVALID_ROWID) (km_key_schema km) = Inr s"
    "col_fields (km_key_schema km) (row_fields s)" "key_fields_of km b = row_fields s"
    using key_validE [OF assms(1)] key_validE [OF assms(2)] by metis
  then show ?thesis
    using compare_columns_from [OF 1(2,5), of "[]" "[]" "row_rid r" "row_rid s"]
    by (cases r; cases s) (simp add: CompareKeys_def key_less_def GetColumnCount_def)
qed

interpretation km: key_compare "CompareKeys km" "key_less km" "key_valid km" for km
proof (unfold_locales, goal_cases)
  case (1 a b)
  then show ?case by (rule CompareKeys_less)
next
  case (2 a b)
  then show ?case by (metis key_validE key_less_def vals_less_order(1))
next
  case (3 a b c)
  then show ?case by (metis key_validE key_less_def vals_less_order(2))
qed

section \<open>Serialized keys\<close>

definition key_row_ok :: "KeyManager \<Rightarrow> Row \<Rightarrow> bool" where
  "key_row_ok km r \<longleftrightarrow> row_ok (km_key_schema km) r \<and> list_all comparable (row_fields r) \<and>
     (case row_GetSerializedSize r (km_key_schema km) of Inr n \<Rightarrow> n \<le> km_key_size km | Inl _ \<Rightarrow> False)"

lemma field_canon_comparable:
  "comparable f \<Longrightarrow> comparable (field_canon f) \<and> f_type (field_canon f) = f_type f \<and> f_value (field_canon f) = f_value f"
  by (auto simp: comparable_def field_canon_def wf_field_def split: Val.splits)

lemma SerializeFromKey_valid:
  assumes ok: "key_row_ok km r" and len: "length buf = km_key_size km"
  obtains k where "SerializeFromKey km buf r (km_key_schema km) = Inr k" "key_valid km k"
    "map f_value (key_fields_of km k) = map f_value (row_fields r)"
proof -
  let ?s = "km_key_schema km"
  have r: "row_ok ?s r" "list_all comparable (row_fields r)" using ok by (simp_all add: key_row_ok_def)
  have n: "length (row_enc r) \<le> km_key_size km" using ok row_size_enc [OF r(1)] by (simp add: key_row_ok_def)
  let ?z = "replicate (km_key_size km) 0"
  have z: "wr buf 0 ?z = ?z" using len by (simp add: wr_def)
  define k where "k = wr ?z 0 (row_enc r)"
  have k: "length k = km_key_size km" "rd (length (row_enc r)) k 0 = row_enc r"
    using n by (simp_all add: k_def rd_wr_same)
  have ser: "SerializeFromKey km buf r ?s = Inr k"
    using row_size_enc [OF r(1)] n row_ser_enc [OF r(1), of 0 ?z] r(1)
    by (simp add: SerializeFromKey_def z k_def row_ok_def GetColumnCount_def)
  have d: "DeserializeToKey km k (Row_of_rid INVALID_ROWID) ?s =
      Inr \<lparr>row_rid = INVALID_ROWID, row_fields = map field_canon (row_fields r)\<rparr>"
    using row_des_enc [OF r(1), of 0 k INVALID_ROWID] n k by (simp add: DeserializeToKey_def)
  have val: "key_valid km k"
    using d k(1) r field_canon_comparable
    by (auto simp: key_valid_def list_all2_conv_all_nth row_ok_def list_all_length)
  have "map f_value (key_fields_of km k) = map f_value (row_fields r)"
    using d r(2) field_canon_comparable by (auto simp: key_fields_of_def list_all_iff)
  then show thesis by (rule that [OF ser val])
qed

text \<open>C29. Comparing two index keys is comparing their rows: for rows of the key schema without nulls and NaNs
  that fit into a key, \<^verbatim>\<open>SerializeFromKey\<close> succeeds whatever the buffers held before, and \<^verbatim>\<open>CompareKeys\<close> of the two
  keys gives the sign of the lexicographic comparison of the field values.\<close>

theorem CompareKeys_lexicographic:
  assumes "key_row_ok km r" "key_row_ok km s" "length buf = km_key_size km" "length buf' = km_key_size km"
  shows "\<exists>a b. SerializeFromKey km buf r (km_key_schema km) = Inr a \<and> SerializeFromKey km buf' s (km_key_schema km) = Inr b \<and>
    CompareKeys km a b = Inr (if vals_less (map f_value (row_fields r)) (map f_value (row_fields s)) then - 1
      else if vals_less (map f_value (row_fields s)) (map f_value (row_fields r)) then 1 else 0)"
proof -
  obtain a where a: "SerializeFromKey km buf r (km_key_schema km) = Inr a" "key_valid km a"
    "map f_value (key_fields_of km a) = map f_value (row_fields r)"
    by (rule SerializeFromKey_valid [OF assms(1,3)])
  obtain b where b: "SerializeFromKey km buf' s (km_key_schema km) = Inr b" "key_valid km b"
    "map f_value (key_fields_of km b) = map f_value (row_fields s)"
    by (rule SerializeFromKey_valid [OF assms(2,4)])
  show ?thesis using a b CompareKeys_less [OF a(2) b(2)] by (auto simp: key_less_def)
qed

definition example_km :: KeyManager where
  "example_km = KeyManager_new
     [\<lparr>col_name = [105, 100], col_type = kTypeInt, col_len = 4, col_table_ind = 0, col_nullable = False, col_unique = True\<rparr>] 16"

definition example_key_row :: "32 word \<Rightarrow> Row" where
  "example_key_row i = \<lparr>row_rid = INVALID_ROWID,
     row_fields = [\<lparr>f_value = Integer i, f_type = kTypeInt, f_len = 4, f_null = False, f_manage = False\<rparr>]\<rparr>"

lemma example_key_row_ok: "key_row_ok example_km (example_key_row i)"
proof -
  have "row_ok (km_key_schema example_km) (example_key_row i)"
    by (simp add: example_km_def KeyManager_new_def example_key_row_def row_ok_def wf_field_def)
  from row_size_enc [OF this] this show ?thesis
    by (simp add: key_row_ok_def example_key_row_def row_enc_def comparable_def wf_field_def field_enc_def
        example_km_def KeyManager_new_def)
qed

theorem CompareKeys_lexicographic_witness:
  "\<exists>a b. SerializeFromKey example_km (replicate 16 7) (example_key_row (- 2)) (km_key_schema example_km) = Inr a \<and>
     SerializeFromKey example_km (replicate 16 9) (example_key_row 3) (km_key_schema example_km) = Inr b \<and>
     CompareKeys example_km a b = Inr (- 1)"
  using CompareKeys_lexicographic [OF example_key_row_ok [of "- 2"] example_key_row_ok [of 3], of "replicate 16 7" "replicate 16 9"]
  by (simp add: example_km_def KeyManager_new_def example_key_row_def)

text \<open>Two keys in order, for the examples of the pages.\<close>

lemma example_keys:
  obtains a b where "SerializeFromKey example_km (replicate 16 0) (example_key_row 3) (km_key_schema example_km) = Inr a"
    "SerializeFromKey example_km (replicate 16 0) (example_key_row 5) (km_key_schema example_km) = Inr b"
    "key_valid example_km a" "key_valid example_km b" "key_less example_km a b"
proof -
  have l: "length (replicate 16 0 :: byte list) = km_key_size example_km" by (simp add: example_km_def KeyManager_new_def)
  obtain a where a: "SerializeFromKey example_km (replicate 16 0) (example_key_row 3) (km_key_schema example_km) = Inr a"
    "key_valid example_km a" "map f_value (key_fields_of example_km a) = map f_value (row_fields (example_key_row 3))"
    by (rule SerializeFromKey_valid [OF example_key_row_ok l])
  obtain b where b: "SerializeFromKey example_km (replicate 16 0) (example_key_row 5) (km_key_schema example_km) = Inr b"
    "key_valid example_km b" "map f_value (key_fields_of example_km b) = map f_value (row_fields (example_key_row 5))"
    by (rule SerializeFromKey_valid [OF example_key_row_ok l])
  have "key_less example_km a b" unfolding key_less_def a(3) b(3) by (simp add: example_key_row_def)
  then show thesis by (rule that [OF a(1) b(1) a(2) b(2)])
qed

end
