(* ===== verification/Pair_Array.thy ===== *)
theory Pair_Array
  imports MiniSQL_Prelude
begin

text \<open>
  Arrays of fixed-size pairs inside a page: the pages of the B+ tree keep pairs of a key and a value, one
  behind the other from a base offset on. \<open>pairs\<close> is the list of the raw pairs; every change the page
  operations make is a copy of a run of pairs, whose effect on the list is proved here once.
\<close>

section \<open>Runs of pairs\<close>

definition pair_raw :: "nat \<Rightarrow> nat \<Rightarrow> byte list \<Rightarrow> nat \<Rightarrow> byte list" where
  "pair_raw base ps d i = rd ps d (base + i * ps)"

definition pairs :: "nat \<Rightarrow> nat \<Rightarrow> nat \<Rightarrow> byte list \<Rightarrow> byte list list" where
  "pairs base ps n d = map (pair_raw base ps d) [0..<n]"

lemma length_pairs [simp]: "length (pairs base ps n d) = n"
  by (simp add: pairs_def)

lemma nth_pairs [simp]: "i < n \<Longrightarrow> pairs base ps n d ! i = pair_raw base ps d i"
  by (simp add: pairs_def)

lemma pairs_take: "m \<le> n \<Longrightarrow> pairs base ps m d = take m (pairs base ps n d)"
  by (simp add: pairs_def take_map)

lemma rd_rd: "k + j \<le> n \<Longrightarrow> rd k (rd n s a) j = rd k s (a + j)"
  by (simp add: rd_def drop_take min_def add.commute)

lemma rd_wr_inside:
  "j + n \<le> length src \<Longrightarrow> off + length src \<le> length b \<Longrightarrow> rd n (wr b off src) (off + j) = rd n src j"
  by (simp add: rd_def wr_def drop_append)

lemma slot_bound: "i < (n :: nat) \<Longrightarrow> i * ps + ps \<le> n * ps"
  by (metis Suc_leI add.commute mult_Suc mult_le_mono1)

text \<open>Copying a run of \<open>k\<close> pairs from position \<open>b\<close> of page \<open>s\<close> to position \<open>a\<close> of page \<open>d\<close>.\<close>

lemma pair_raw_copy:
  assumes "base + (a + k) * ps \<le> length d" "base' + (b + k) * ps \<le> length s"
  shows "pair_raw base ps (wr d (base + a * ps) (rd (k * ps) s (base' + b * ps))) i =
    (if a \<le> i \<and> i < a + k then pair_raw base' ps s (b + (i - a)) else pair_raw base ps d i)"
proof -
  let ?src = "rd (k * ps) s (base' + b * ps)"
  have l: "length ?src = k * ps" using assms(2) by (simp add: distrib_right add.assoc)
  have fits: "base + a * ps + length ?src \<le> length d" using assms(1) l by (simp add: distrib_right)
  consider "i < a" | "a + k \<le> i" | j where "i = a + j" "j < k"
    by (metis le_Suc_ex nat_add_left_cancel_less not_le_imp_less)
  then show ?thesis
  proof cases
    case 1
    then have "base + i * ps + ps \<le> base + a * ps" using slot_bound [of i a ps] by simp
    then show ?thesis using 1 fits by (simp add: pair_raw_def rd_wr_disjoint)
  next
    case 2
    then have "(a + k) * ps \<le> i * ps" by (rule mult_le_mono1)
    then have "base + a * ps + length ?src \<le> base + i * ps" using l by (simp add: distrib_right)
    then show ?thesis using 2 fits by (simp add: pair_raw_def rd_wr_disjoint)
  next
    case (3 j)
    have j: "j * ps + ps \<le> k * ps" using slot_bound [OF 3(2)] .
    have "rd ps (wr d (base + a * ps) ?src) (base + a * ps + j * ps) = rd ps ?src (j * ps)"
      using j l fits by (intro rd_wr_inside) simp_all
    also have "\<dots> = rd ps s (base' + b * ps + j * ps)" using j by (intro rd_rd) simp
    finally show ?thesis using 3 by (simp add: pair_raw_def distrib_right add.assoc)
  qed
qed

lemma length_copy:
  assumes "base + (a + k) * ps \<le> length d" "base' + (b + k) * ps \<le> length s"
  shows "length (wr d (base + a * ps) (rd (k * ps) s (base' + b * ps))) = length d"
  using assms by (intro length_wr) (simp add: distrib_right add.assoc)

lemma rd_copy_header:
  assumes "base + (a + k) * ps \<le> length d" "base' + (b + k) * ps \<le> length s" "off + n \<le> base"
  shows "rd n (wr d (base + a * ps) (rd (k * ps) s (base' + b * ps))) off = rd n d off"
  using assms by (intro rd_wr_disjoint) (auto simp: distrib_right add.assoc)

text \<open>Opening a gap, closing a gap, and appending a run.\<close>

lemma pairs_open_gap:
  assumes "i \<le> n" "base + Suc n * ps \<le> length d"
  defines "d' \<equiv> memmove (base + Suc i * ps) (base + i * ps) ((n - i) * ps) d"
  shows "length d' = length d" "j < i \<Longrightarrow> pair_raw base ps d' j = pair_raw base ps d j"
    "i < j \<Longrightarrow> j \<le> n \<Longrightarrow> pair_raw base ps d' j = pair_raw base ps d (j - 1)"
    "off + k \<le> base \<Longrightarrow> rd k d' off = rd k d off"
proof -
  have 1: "base + (Suc i + (n - i)) * ps \<le> length d" using assms(1,2) by simp
  have "(i + (n - i)) * ps \<le> Suc n * ps" using assms(1) by (intro mult_le_mono1) simp
  then have 2: "base + (i + (n - i)) * ps \<le> length d" using assms(2) by linarith
  note C = pair_raw_copy [OF 1 2, folded memmove_def, folded d'_def]
  show "length d' = length d" "off + k \<le> base \<Longrightarrow> rd k d' off = rd k d off"
    using length_copy [OF 1 2] rd_copy_header [OF 1 2] by (simp_all add: d'_def memmove_def)
  show "j < i \<Longrightarrow> pair_raw base ps d' j = pair_raw base ps d j" using C [of j] by simp
  show "pair_raw base ps d' j = pair_raw base ps d (j - 1)" if "i < j" "j \<le> n"
  proof -
    have "i + (j - Suc i) = j - 1" "j < Suc i + (n - i)" using that assms(1) by linarith+
    then show ?thesis using C [of j] that by simp
  qed
qed

lemma pairs_close_gap:
  assumes "i < n" "base + n * ps \<le> length d"
  defines "d' \<equiv> memmove (base + i * ps) (base + Suc i * ps) ((n - i - 1) * ps) d"
  shows "length d' = length d" "pairs base ps (n - 1) d' = take i (pairs base ps n d) @ drop (Suc i) (pairs base ps n d)"
    "off + k \<le> base \<Longrightarrow> rd k d' off = rd k d off"
proof -
  have "(i + (n - i - 1)) * ps \<le> n * ps" using assms(1) by (intro mult_le_mono1) simp
  then have 1: "base + (i + (n - i - 1)) * ps \<le> length d" using assms(2) by linarith
  have "Suc i + (n - i - 1) = n" using assms(1) by simp
  then have 2: "base + (Suc i + (n - i - 1)) * ps \<le> length d" using assms(2) by metis
  note C = pair_raw_copy [OF 1 2, folded memmove_def, folded d'_def]
  show "length d' = length d" "off + k \<le> base \<Longrightarrow> rd k d' off = rd k d off"
    using length_copy [OF 1 2] rd_copy_header [OF 1 2] by (simp_all add: d'_def memmove_def)
  have "pair_raw base ps d' j = (if j < i then pair_raw base ps d j else pair_raw base ps d (Suc j))" if "j < n - 1" for j
    using C [of j] that by (auto simp: not_less)
  then show "pairs base ps (n - 1) d' = take i (pairs base ps n d) @ drop (Suc i) (pairs base ps n d)"
    using assms(1) by (intro nth_equalityI) (auto simp: nth_append)
qed

lemma pairs_append:
  assumes "base + (n + k) * ps \<le> length d" "base + (b + k) * ps \<le> length s"
  defines "d' \<equiv> wr d (base + n * ps) (rd (k * ps) s (base + b * ps))"
  shows "length d' = length d" "pairs base ps (n + k) d' = pairs base ps n d @ take k (drop b (pairs base ps (b + k) s))"
    "off + m \<le> base \<Longrightarrow> rd m d' off = rd m d off"
proof -
  show "length d' = length d" "off + m \<le> base \<Longrightarrow> rd m d' off = rd m d off"
    using length_copy [OF assms(1,2)] rd_copy_header [OF assms(1,2)] by (simp_all add: d'_def)
  show "pairs base ps (n + k) d' = pairs base ps n d @ take k (drop b (pairs base ps (b + k) s))"
    using pair_raw_copy [OF assms(1,2)]
    by (intro nth_equalityI) (auto simp: nth_append d'_def)
qed

text \<open>Writing one pair.\<close>

lemma pair_raw_write:
  assumes "base + Suc i * ps \<le> length d" "length x = ps"
  shows "pair_raw base ps (wr d (base + i * ps) x) j = (if j = i then x else pair_raw base ps d j)"
  using pair_raw_copy [of base i 1 ps d 0 0 x j] assms by (simp add: rd_def pair_raw_def add.commute)

text \<open>Inserting a pair at a position: shift the tail up, then write.\<close>

lemma pairs_insert:
  assumes "i \<le> n" "base + Suc n * ps \<le> length d" "length x = ps"
  defines "d' \<equiv> wr (memmove (base + Suc i * ps) (base + i * ps) ((n - i) * ps) d) (base + i * ps) x"
  shows "length d' = length d" "pairs base ps (Suc n) d' = take i (pairs base ps n d) @ x # drop i (pairs base ps n d)"
    "off + k \<le> base \<Longrightarrow> rd k d' off = rd k d off"
proof -
  note G = pairs_open_gap [OF assms(1,2)]
  define g where "g = memmove (base + Suc i * ps) (base + i * ps) ((n - i) * ps) d"
  have "Suc i * ps \<le> Suc n * ps" using assms(1) by (intro mult_le_mono1) simp
  then have b: "base + Suc i * ps \<le> length g" using assms(2) G(1) by (simp only: g_def)
  note W = pair_raw_write [OF b assms(3)]
  have d': "d' = wr g (base + i * ps) x" by (simp add: d'_def g_def)
  show "length d' = length d" using b assms(3) G(1) by (simp add: d' g_def)
  show "rd k d' off = rd k d off" if "off + k \<le> base"
    using that b assms(3) G(4) by (simp add: d' g_def rd_wr_disjoint)
  show "pairs base ps (Suc n) d' = take i (pairs base ps n d) @ x # drop i (pairs base ps n d)"
  proof (rule nth_equalityI)
    fix j assume "j < length (pairs base ps (Suc n) d')"
    then have j: "j < Suc n" by simp
    consider "j < i" | "j = i" | m where "j = Suc m" "i \<le> m" "m < n"
      using j by (cases j) (auto, linarith)
    then show "pairs base ps (Suc n) d' ! j = (take i (pairs base ps n d) @ x # drop i (pairs base ps n d)) ! j"
    proof cases
      case 3
      then show ?thesis using j assms(1) W [of j] G(3) [of j] by (simp add: nth_append d' g_def Suc_diff_le)
    qed (use j assms(1) W [of j] G(2) [of j] in \<open>simp_all add: nth_append d' g_def\<close>)
  qed (use assms(1) in simp)
qed

lemma memmove_nothing [simp]: "dst \<le> length d \<Longrightarrow> memmove dst src 0 d = d"
  by (simp add: memmove_def rd_def wr_def)

lemma wr_wr_adjacent: "a + length x \<le> length d \<Longrightarrow> b = a + length x \<Longrightarrow> wr (wr d a x) b y = wr d a (x @ y)"
  by (simp add: wr_def ac_simps)

end
