(* ===== verification/BPlus_Page.thy ===== *)
theory BPlus_Page
  imports Generic_Key Pair_Array
begin

text \<open>
  The header that leaf and internal pages of the B+ tree share (\<^verbatim>\<open>src/include/page/b_plus_tree_page.h\<close>,
  \<^verbatim>\<open>src/page/b_plus_tree_page.cpp\<close>) on the bytes of the page: seven 4-byte members, in the order of
  their declaration, read and written as the accessors do.
\<close>

type_synonym bpage = "byte list"

datatype IndexPageType = INVALID_INDEX_PAGE | LEAF_PAGE | INTERNAL_PAGE

definition IndexPageType_num :: "IndexPageType \<Rightarrow> 32 word" where
  "IndexPageType_num t = (case t of INVALID_INDEX_PAGE \<Rightarrow> 0 | LEAF_PAGE \<Rightarrow> 1 | INTERNAL_PAGE \<Rightarrow> 2)"

definition IsLeafPage :: "bpage \<Rightarrow> bool" where "IsLeafPage d \<longleftrightarrow> rd32 d 0 = IndexPageType_num LEAF_PAGE"
definition SetPageType :: "IndexPageType \<Rightarrow> bpage \<Rightarrow> bpage" where "SetPageType t d = wr32 d 0 (IndexPageType_num t)"
definition GetKeySize :: "bpage \<Rightarrow> int" where "GetKeySize d = sint (rd32 d 4)"
definition SetKeySize :: "int \<Rightarrow> bpage \<Rightarrow> bpage" where "SetKeySize n d = wr32 d 4 (word_of_int n)"
definition bp_SetLSN :: "32 word \<Rightarrow> bpage \<Rightarrow> bpage" where "bp_SetLSN lsn d = wr32 d 8 lsn"
definition GetSize :: "bpage \<Rightarrow> int" where "GetSize d = sint (rd32 d 12)"
definition SetSize :: "int \<Rightarrow> bpage \<Rightarrow> bpage" where "SetSize n d = wr32 d 12 (word_of_int n)"
definition IncreaseSize :: "int \<Rightarrow> bpage \<Rightarrow> bpage" where "IncreaseSize amount d = wr32 d 12 (rd32 d 12 + word_of_int amount)"
definition GetMaxSize :: "bpage \<Rightarrow> int" where "GetMaxSize d = sint (rd32 d 16)"
definition SetMaxSize :: "int \<Rightarrow> bpage \<Rightarrow> bpage" where "SetMaxSize n d = wr32 d 16 (word_of_int n)"
definition GetParentPageId :: "bpage \<Rightarrow> page_id_t" where "GetParentPageId d = rd32 d 20"
definition SetParentPageId :: "page_id_t \<Rightarrow> bpage \<Rightarrow> bpage" where "SetParentPageId parent_page_id d = wr32 d 20 parent_page_id"
definition bp_GetPageId :: "bpage \<Rightarrow> page_id_t" where "bp_GetPageId d = rd32 d 24"
definition bp_SetPageId :: "page_id_t \<Rightarrow> bpage \<Rightarrow> bpage" where "bp_SetPageId page_id d = wr32 d 24 page_id"

definition IsRootPage :: "bpage \<Rightarrow> bool" where "IsRootPage d \<longleftrightarrow> GetParentPageId d = INVALID_PAGE_ID"

definition GetMinSize :: "bpage \<Rightarrow> int" where
  "GetMinSize d = (if IsRootPage d then (if IsLeafPage d then 1 else 2) else GetMaxSize d div 2)"

named_theorems bp_defs \<open>accessors of the page header\<close>

lemmas bp_accessors [bp_defs] = IsLeafPage_def SetPageType_def GetKeySize_def SetKeySize_def bp_SetLSN_def GetSize_def SetSize_def
  IncreaseSize_def GetMaxSize_def SetMaxSize_def GetParentPageId_def SetParentPageId_def bp_GetPageId_def bp_SetPageId_def
  IsRootPage_def

section \<open>Small signed numbers\<close>

lemma sint_word_small: "0 \<le> i \<Longrightarrow> i < 2 ^ 31 \<Longrightarrow> sint (word_of_int i :: 32 word) = i"
  by (simp add: sint_sbintrunc' signed_take_bit_int_eq_self)

text \<open>The size of a page after a change, and what a change of the size leaves alone.\<close>

lemma size_frame:
  assumes "28 \<le> length d"
  shows "length (SetSize n d) = length d" "length (IncreaseSize a d) = length d"
    "0 \<le> n \<Longrightarrow> n < 2 ^ 31 \<Longrightarrow> GetSize (SetSize n d) = n"
    "0 \<le> GetSize d + a \<Longrightarrow> GetSize d + a < 2 ^ 31 \<Longrightarrow> GetSize (IncreaseSize a d) = GetSize d + a"
    "off + k \<le> 12 \<or> 16 \<le> off \<Longrightarrow> rd k (SetSize n d) off = rd k d off"
    "off + k \<le> 12 \<or> 16 \<le> off \<Longrightarrow> rd k (IncreaseSize a d) off = rd k d off"
proof -
  show "GetSize (IncreaseSize a d) = GetSize d + a" if "0 \<le> GetSize d + a" "GetSize d + a < 2 ^ 31"
  proof -
    have "rd32 d 12 + word_of_int a = (word_of_int (GetSize d + a) :: 32 word)"
      by (simp add: GetSize_def)
    then show ?thesis
      using assms that sint_word_small [OF that] by (simp add: GetSize_def IncreaseSize_def layout_simps)
  qed
qed (use assms in \<open>simp_all add: SetSize_def IncreaseSize_def GetSize_def layout_simps sint_word_small\<close>)

section \<open>Pages that hold an array of pairs\<close>

text \<open>
  Leaf pages (\<open>base = 32\<close>, values of 8 bytes) and internal pages (\<open>base = 28\<close>, values of 4 bytes) are arrays of
  pairs behind a header. The four changes that the operations of both are made of, on the raw pairs.
\<close>

definition page_ok :: "nat \<Rightarrow> nat \<Rightarrow> nat \<Rightarrow> bpage \<Rightarrow> bool" where
  "page_ok base vs ks d \<longleftrightarrow> length d = PAGE_SIZE \<and> GetKeySize d = int ks \<and> 0 \<le> GetSize d \<and>
     base + nat (GetSize d) * (ks + vs) \<le> PAGE_SIZE"

definition page_pairs :: "nat \<Rightarrow> nat \<Rightarrow> nat \<Rightarrow> bpage \<Rightarrow> byte list list" where
  "page_pairs base vs ks d = pairs base (ks + vs) (nat (GetSize d)) d"

text \<open>The members of the header other than the size.\<close>

definition page_header :: "nat \<Rightarrow> bpage \<Rightarrow> byte list \<times> byte list" where
  "page_header base d = (rd 12 d 0, rd (base - 16) d 16)"

lemma page_header_rd:
  assumes "page_header base d' = page_header base d" "16 \<le> base" "off + k \<le> 12 \<or> 16 \<le> off \<and> off + k \<le> base"
  shows "rd k d' off = rd k d off"
  using assms(3)
proof
  assume "off + k \<le> 12"
  then show ?thesis
    using rd_rd [of k off 12 d 0] rd_rd [of k off 12 d' 0] assms(1) by (simp add: page_header_def add.commute)
next
  assume *: "16 \<le> off \<and> off + k \<le> base"
  then have "k + (off - 16) \<le> base - 16" by linarith
  then show ?thesis
    using rd_rd [of k "off - 16" "base - 16" d 16] rd_rd [of k "off - 16" "base - 16" d' 16] assms(1) *
    by (simp add: page_header_def)
qed

lemma page_header_eq:
  assumes "page_header base d' = page_header base d" "28 \<le> base"
  shows "GetKeySize d' = GetKeySize d" "GetMaxSize d' = GetMaxSize d" "GetParentPageId d' = GetParentPageId d"
    "bp_GetPageId d' = bp_GetPageId d" "IsLeafPage d' = IsLeafPage d" "IsRootPage d' = IsRootPage d"
  using page_header_rd [OF assms(1), of _ 4] assms(2) by (simp_all add: bp_defs rd32_def)

lemma page_okD:
  assumes "page_ok base vs ks d"
  shows "length d = 4096" "nat (GetKeySize d) = ks" "0 \<le> GetSize d" "base + nat (GetSize d) * (ks + vs) \<le> 4096"
    "int (nat (GetSize d)) = GetSize d" "length (page_pairs base vs ks d) = nat (GetSize d)"
  using assms by (simp_all add: page_ok_def PAGE_SIZE_def page_pairs_def)

lemma fit_count:
  fixes n ks base vs :: nat
  assumes "base + n * (ks + vs) \<le> 4096" "4 \<le> vs"
  shows "n \<le> 1024"
proof -
  have "n * 4 \<le> n * (ks + vs)" using assms(2) by (intro mult_le_mono2) simp
  also have "\<dots> \<le> 4096" using assms(1) by simp
  finally show ?thesis by simp
qed

text \<open>A page whose members other than the size are known and whose size is set.\<close>

lemma page_resize:
  assumes ok: "page_ok base vs ks d" and base: "28 \<le> base" "4 \<le> vs"
    and w: "length w = length d" "\<And>k off. off + k \<le> base \<Longrightarrow> rd k w off = rd k d off"
    and fit: "base + n * (ks + vs) \<le> 4096"
    and d': "d' = SetSize (int n) w \<or> d' = IncreaseSize (int n - GetSize d) w"
  shows "page_ok base vs ks d'" "page_header base d' = page_header base d" "GetSize d' = int n"
    "page_pairs base vs ks d' = pairs base (ks + vs) n w"
proof -
  have l: "28 \<le> length w" using page_okD(1) [OF ok] w(1) by simp
  have n: "n \<le> 1024" by (rule fit_count [OF fit base(2)])
  have g: "GetSize w = GetSize d" using w(2) [of 12 4] base by (simp add: GetSize_def rd32_def)
  note F = size_frame [OF l]
  have sz: "GetSize d' = int n" using d' F(3) [of "int n"] F(4) [of "int n - GetSize d"] g n by auto
  have r: "rd k d' off = rd k w off" if "off + k \<le> 12 \<or> 16 \<le> off" for k off
    using d' F(5,6) that by auto
  show hd: "page_header base d' = page_header base d"
    using r w(2) base by (simp add: page_header_def)
  have "length d' = 4096" using d' F(1,2) w(1) page_okD(1) [OF ok] by auto
  then show "page_ok base vs ks d'"
    using ok sz fit page_header_eq(1) [OF hd base(1)] by (simp add: page_ok_def PAGE_SIZE_def)
  show "page_pairs base vs ks d' = pairs base (ks + vs) n w"
    using r base by (simp add: page_pairs_def sz pairs_def pair_raw_def)
  show "GetSize d' = int n" by (rule sz)
qed

lemma page_insert_raw:
  assumes ok: "page_ok base vs ks d" and base: "28 \<le> base" "4 \<le> vs" and i: "i \<le> nat (GetSize d)"
    and fit: "base + Suc (nat (GetSize d)) * (ks + vs) \<le> 4096" and x: "length x = ks + vs"
  defines "d' \<equiv> IncreaseSize 1 (wr (memmove (base + Suc i * (ks + vs)) (base + i * (ks + vs)) ((nat (GetSize d) - i) * (ks + vs)) d)
    (base + i * (ks + vs)) x)"
  shows "page_ok base vs ks d'" "page_header base d' = page_header base d" "GetSize d' = GetSize d + 1"
    "page_pairs base vs ks d' = take i (page_pairs base vs ks d) @ x # drop i (page_pairs base vs ks d)"
proof -
  note K = page_okD [OF ok]
  have "base + Suc (nat (GetSize d)) * (ks + vs) \<le> length d" using fit K(1) by simp
  note P = pairs_insert [OF i this x]
  have "int (Suc (nat (GetSize d))) - GetSize d = 1" using K(5) by simp
  then have "d' = IncreaseSize (int (Suc (nat (GetSize d))) - GetSize d)
      (wr (memmove (base + Suc i * (ks + vs)) (base + i * (ks + vs)) ((nat (GetSize d) - i) * (ks + vs)) d) (base + i * (ks + vs)) x)"
    by (simp only: d'_def)
  from page_resize [OF ok base P(1,3) fit disjI2 [OF this]] P(2) K(5)
  show "page_ok base vs ks d'" "page_header base d' = page_header base d" "GetSize d' = GetSize d + 1"
    "page_pairs base vs ks d' = take i (page_pairs base vs ks d) @ x # drop i (page_pairs base vs ks d)"
    by (simp_all add: page_pairs_def)
qed

lemma page_remove_raw:
  assumes ok: "page_ok base vs ks d" and base: "28 \<le> base" "4 \<le> vs" and i: "i < nat (GetSize d)"
  defines "d' \<equiv> IncreaseSize (- 1) (memmove (base + i * (ks + vs)) (base + Suc i * (ks + vs)) ((nat (GetSize d) - i - 1) * (ks + vs)) d)"
  shows "page_ok base vs ks d'" "page_header base d' = page_header base d" "GetSize d' = GetSize d - 1"
    "page_pairs base vs ks d' = take i (page_pairs base vs ks d) @ drop (Suc i) (page_pairs base vs ks d)"
proof -
  note K = page_okD [OF ok]
  have "base + nat (GetSize d) * (ks + vs) \<le> length d" using K(1,4) by simp
  note P = pairs_close_gap [OF i this]
  have fit: "base + (nat (GetSize d) - 1) * (ks + vs) \<le> 4096"
    by (rule order_trans [OF _ K(4)], intro add_left_mono mult_le_mono1) simp
  have n: "int (nat (GetSize d) - 1) - GetSize d = - 1" using i by simp
  have "d' = IncreaseSize (int (nat (GetSize d) - 1) - GetSize d)
      (memmove (base + i * (ks + vs)) (base + Suc i * (ks + vs)) ((nat (GetSize d) - i - 1) * (ks + vs)) d)"
    by (simp only: d'_def n)
  from page_resize [OF ok base P(1,3) fit disjI2 [OF this]] P(2) n
  show "page_ok base vs ks d'" "page_header base d' = page_header base d" "GetSize d' = GetSize d - 1"
    "page_pairs base vs ks d' = take i (page_pairs base vs ks d) @ drop (Suc i) (page_pairs base vs ks d)"
    by (simp_all add: page_pairs_def)
qed

lemma page_append_raw:
  assumes ok: "page_ok base vs ks d" and base: "28 \<le> base" "4 \<le> vs" and s: "page_ok base vs ks s"
    and b: "b + k \<le> nat (GetSize s)" and fit: "base + (nat (GetSize d) + k) * (ks + vs) \<le> 4096"
  defines "w \<equiv> wr d (base + nat (GetSize d) * (ks + vs)) (rd (k * (ks + vs)) s (base + b * (ks + vs)))"
  shows "page_ok base vs ks (IncreaseSize (int k) w)" "page_header base (IncreaseSize (int k) w) = page_header base d"
    "GetSize (IncreaseSize (int k) w) = GetSize d + int k"
    "page_pairs base vs ks (IncreaseSize (int k) w) = page_pairs base vs ks d @ take k (drop b (page_pairs base vs ks s))"
    "length w = length d" "\<And>m off. off + m \<le> base \<Longrightarrow> rd m w off = rd m d off"
    "pairs base (ks + vs) (nat (GetSize d) + k) w = page_pairs base vs ks d @ take k (drop b (page_pairs base vs ks s))"
proof -
  note K = page_okD [OF ok] and L = page_okD [OF s]
  have "base + (b + k) * (ks + vs) \<le> 4096"
    by (rule order_trans [OF _ L(4)], intro add_left_mono mult_le_mono1) (rule b)
  then have fits: "base + (nat (GetSize d) + k) * (ks + vs) \<le> length d" "base + (b + k) * (ks + vs) \<le> length s"
    using fit K(1) L(1) by simp_all
  note P = pairs_append [OF fits, folded w_def]
  have "take (b + k) (page_pairs base vs ks s) = pairs base (ks + vs) (b + k) s"
    by (simp add: page_pairs_def pairs_take [OF b])
  then have t: "take k (drop b (pairs base (ks + vs) (b + k) s)) = take k (drop b (page_pairs base vs ks s))"
    by (metis take_drop take_take min.idem add.commute)
  have "IncreaseSize (int k) w = IncreaseSize (int (nat (GetSize d) + k) - GetSize d) w" using K(5) by simp
  from page_resize [OF ok base P(1,3) fit disjI2 [OF this]] P(2) t K(5)
  show "page_ok base vs ks (IncreaseSize (int k) w)" "page_header base (IncreaseSize (int k) w) = page_header base d"
    "GetSize (IncreaseSize (int k) w) = GetSize d + int k"
    "page_pairs base vs ks (IncreaseSize (int k) w) = page_pairs base vs ks d @ take k (drop b (page_pairs base vs ks s))"
    by (simp_all add: page_pairs_def)
  show "length w = length d" "\<And>m off. off + m \<le> base \<Longrightarrow> rd m w off = rd m d off"
    "pairs base (ks + vs) (nat (GetSize d) + k) w = page_pairs base vs ks d @ take k (drop b (page_pairs base vs ks s))"
    using P t by (simp_all add: page_pairs_def)
qed

lemma page_cut:
  assumes ok: "page_ok base vs ks d" and base: "28 \<le> base" "4 \<le> vs" and n: "n \<le> nat (GetSize d)"
  shows "page_ok base vs ks (SetSize (int n) d)" "page_header base (SetSize (int n) d) = page_header base d"
    "GetSize (SetSize (int n) d) = int n" "page_pairs base vs ks (SetSize (int n) d) = take n (page_pairs base vs ks d)"
proof -
  have fit: "base + n * (ks + vs) \<le> 4096"
    by (rule order_trans [OF _ page_okD(4) [OF ok]], intro add_left_mono mult_le_mono1) (rule n)
  from page_resize [OF ok base refl refl fit disjI1 [OF refl]]
  show "page_ok base vs ks (SetSize (int n) d)" "page_header base (SetSize (int n) d) = page_header base d"
    "GetSize (SetSize (int n) d) = int n" "page_pairs base vs ks (SetSize (int n) d) = take n (page_pairs base vs ks d)"
    by (simp_all add: page_pairs_def pairs_take [OF n])
qed

end
