(* ===== verification/Ordered_Assoc.thy ===== *)
theory Ordered_Assoc
  imports Generic_Key
begin

text \<open>
  Sorted association lists, the abstract content of the pages of the B+ tree: the reference operations for an
  order \<open>lt\<close> of the keys, and what a key comparison that implements the order makes of them. Keys that
  neither precedes the other count as the same key.
\<close>

text \<open>The reference operations on the list of pairs, for an order \<open>lt\<close> of the keys.\<close>

definition key_eq :: "('k \<Rightarrow> 'k \<Rightarrow> bool) \<Rightarrow> 'k \<Rightarrow> 'k \<Rightarrow> bool" where
  "key_eq lt a b \<longleftrightarrow> \<not> lt a b \<and> \<not> lt b a"

definition key_sorted :: "('k \<Rightarrow> 'k \<Rightarrow> bool) \<Rightarrow> ('k \<times> 'v) list \<Rightarrow> bool" where
  "key_sorted lt es \<longleftrightarrow> sorted_wrt (\<lambda>a b. lt (fst a) (fst b)) es"

definition valid_keys :: "('k \<Rightarrow> bool) \<Rightarrow> ('k \<times> 'v) list \<Rightarrow> bool" where
  "valid_keys valid es \<longleftrightarrow> list_all (\<lambda>e. valid (fst e)) es"

definition rank :: "('k \<Rightarrow> 'k \<Rightarrow> bool) \<Rightarrow> 'k \<Rightarrow> ('k \<times> 'v) list \<Rightarrow> nat" where
  "rank lt key es = length (takeWhile (\<lambda>e. lt (fst e) key) es)"

definition assoc_find :: "('k \<Rightarrow> 'k \<Rightarrow> bool) \<Rightarrow> ('k \<times> 'v) list \<Rightarrow> 'k \<Rightarrow> 'v option" where
  "assoc_find lt es key = map_option snd (find (\<lambda>e. key_eq lt (fst e) key) es)"

definition assoc_insert :: "('k \<Rightarrow> 'k \<Rightarrow> bool) \<Rightarrow> 'k \<Rightarrow> 'v \<Rightarrow> ('k \<times> 'v) list \<Rightarrow> ('k \<times> 'v) list" where
  "assoc_insert lt key v es =
     (if assoc_find lt es key \<noteq> None then es
      else takeWhile (\<lambda>e. lt (fst e) key) es @ (key, v) # dropWhile (\<lambda>e. lt (fst e) key) es)"

definition assoc_remove :: "('k \<Rightarrow> 'k \<Rightarrow> bool) \<Rightarrow> 'k \<Rightarrow> ('k \<times> 'v) list \<Rightarrow> ('k \<times> 'v) list" where
  "assoc_remove lt key es = filter (\<lambda>e. \<not> key_eq lt (fst e) key) es"

lemma rank_unique:
  assumes "i \<le> length es" "\<And>j. j < i \<Longrightarrow> lt (fst (es ! j)) key" "i < length es \<Longrightarrow> \<not> lt (fst (es ! i)) key"
  shows "rank lt key es = i" "takeWhile (\<lambda>e. lt (fst e) key) es = take i es" "dropWhile (\<lambda>e. lt (fst e) key) es = drop i es"
proof -
  have t: "takeWhile (\<lambda>e. lt (fst e) key) es = take i es" using assms by (intro takeWhile_eq_take_P_nth) auto
  then show "rank lt key es = i" using assms(1) by (simp add: rank_def)
  with t show "takeWhile (\<lambda>e. lt (fst e) key) es = take i es" "dropWhile (\<lambda>e. lt (fst e) key) es = drop i es"
    by (simp_all add: dropWhile_eq_drop rank_def)
qed

lemma nth_take_drop_set:
  assumes "i \<le> length es"
  shows "e \<in> set (take i es) \<Longrightarrow> \<exists>j. j \<noteq> i \<and> j < length es \<and> e = es ! j"
    "e \<in> set (drop (Suc i) es) \<Longrightarrow> \<exists>j. j \<noteq> i \<and> j < length es \<and> e = es ! j"
proof -
  show "\<exists>j. j \<noteq> i \<and> j < length es \<and> e = es ! j" if t: "e \<in> set (take i es)"
  proof -
    from t obtain j where "j < i" "e = es ! j" using assms by (auto simp: in_set_conv_nth)
    then show ?thesis using assms by (intro exI [of _ j]) auto
  qed
  show "\<exists>j. j \<noteq> i \<and> j < length es \<and> e = es ! j" if t: "e \<in> set (drop (Suc i) es)"
  proof -
    from t obtain j where "j < length es - Suc i" "e = es ! (Suc i + j)" by (auto simp: in_set_conv_nth)
    then show ?thesis by (intro exI [of _ "Suc i + j"]) auto
  qed
qed

context key_compare
begin

lemma sorted_nth:
  assumes "key_sorted lt es" "i < j" "j < length es"
  shows "lt (fst (es ! i)) (fst (es ! j))"
  using sorted_wrt_nth_less [OF assms(1) [unfolded key_sorted_def] assms(2,3)] .

lemma valid_nth: "valid_keys valid es \<Longrightarrow> i < length es \<Longrightarrow> valid (fst (es ! i))"
  by (simp add: valid_keys_def list_all_length)

text \<open>The position of a key splits a sorted list; only the pair there can have the key.\<close>

lemma rank_split:
  assumes s: "key_sorted lt es" and v: "valid_keys valid es" "valid key"
  shows "rank lt key es \<le> length es" "\<And>j. j < rank lt key es \<Longrightarrow> lt (fst (es ! j)) key"
    "\<And>j. rank lt key es \<le> j \<Longrightarrow> j < length es \<Longrightarrow> \<not> lt (fst (es ! j)) key"
    "\<And>j. rank lt key es < j \<Longrightarrow> j < length es \<Longrightarrow> lt key (fst (es ! j))"
proof -
  let ?i = "rank lt key es"
  show le: "?i \<le> length es" by (simp add: rank_def length_takeWhile_le)
  show "lt (fst (es ! j)) key" if "j < ?i" for j
    using that by (metis nth_mem rank_def set_takeWhileD takeWhile_nth)
  have at: "\<not> lt (fst (es ! ?i)) key" if "?i < length es"
    using that nth_length_takeWhile [of "\<lambda>e. lt (fst e) key" es] by (simp add: rank_def)
  show above: "lt key (fst (es ! j))" if j: "?i < j" "j < length es" for j
  proof -
    have "lt (fst (es ! ?i)) (fst (es ! j))" by (rule sorted_nth [OF s j])
    then show ?thesis
      using at not_lt_trans [of "fst (es ! ?i)" key "fst (es ! j)"] valid_nth [OF v(1)] v(2) j le by auto
  qed
  show "\<not> lt (fst (es ! j)) key" if "?i \<le> j" "j < length es" for j
    using at above [of j] lt_asym [OF v(2) valid_nth [OF v(1), of j]] that by (cases "j = ?i") auto
qed

lemma find_rank:
  assumes s: "key_sorted lt es" and v: "valid_keys valid es" "valid key"
  defines "i \<equiv> rank lt key es"
  shows "assoc_find lt es key = (if i < length es \<and> key_eq lt (fst (es ! i)) key then Some (snd (es ! i)) else None)"
proof -
  note R = rank_split [OF s v, folded i_def]
  have ne: "\<not> key_eq lt (fst (es ! j)) key" if "j \<noteq> i" "j < length es" for j
    using R(2) [of j] R(4) [of j] that by (cases "j < i") (auto simp: key_eq_def)
  show ?thesis
  proof (cases "i < length es \<and> key_eq lt (fst (es ! i)) key")
    case True
    then have "find (\<lambda>e. key_eq lt (fst e) key) es = Some (es ! i)"
      using ne by (auto simp: find_Some_iff intro!: exI [of _ i])
    with True show ?thesis by (simp add: assoc_find_def)
  next
    case False
    then have "\<not> key_eq lt (fst e) key" if "e \<in> set es" for e using ne that by (metis in_set_conv_nth)
    then have "find (\<lambda>e. key_eq lt (fst e) key) es = None" unfolding find_None_iff by blast
    with False show ?thesis by (auto simp: assoc_find_def)
  qed
qed

lemma remove_rank:
  assumes s: "key_sorted lt es" and v: "valid_keys valid es" "valid key"
  defines "i \<equiv> rank lt key es"
  shows "assoc_remove lt key es = (if i < length es \<and> key_eq lt (fst (es ! i)) key then take i es @ drop (Suc i) es else es)"
proof -
  note R = rank_split [OF s v, folded i_def]
  have ne: "\<not> key_eq lt (fst (es ! j)) key" if "j \<noteq> i" "j < length es" for j
    using R(2) [of j] R(4) [of j] that by (cases "j < i") (auto simp: key_eq_def)
  have "filter (\<lambda>e. \<not> key_eq lt (fst e) key) (take i es) = take i es"
    "filter (\<lambda>e. \<not> key_eq lt (fst e) key) (drop (Suc i) es) = drop (Suc i) es"
    unfolding filter_id_conv using nth_take_drop_set [OF R(1)] ne by metis+
  moreover have "filter (\<lambda>e. \<not> key_eq lt (fst e) key) es = es" if "i < length es \<longrightarrow> \<not> key_eq lt (fst (es ! i)) key"
    unfolding filter_id_conv using ne that by (metis in_set_conv_nth)
  moreover have "es = take i es @ es ! i # drop (Suc i) es" if "i < length es" using that by (rule id_take_nth_drop)
  ultimately show ?thesis unfolding assoc_remove_def by (metis (no_types, lifting) filter.simps(2) filter_append)
qed

text \<open>Insertion and removal keep a sorted list sorted.\<close>

lemma insert_sorted:
  assumes s: "key_sorted lt es" and v: "valid_keys valid es" "valid key"
  shows "key_sorted lt (assoc_insert lt key x es)" "valid_keys valid (assoc_insert lt key x es)"
proof -
  define i where "i = rank lt key es"
  note R = rank_split [OF s v, folded i_def]
  have U: "takeWhile (\<lambda>e. lt (fst e) key) es = take i es" "dropWhile (\<lambda>e. lt (fst e) key) es = drop i es"
    using rank_unique [of i es lt key] R by simp_all
  have tk: "\<forall>e \<in> set (take i es). lt (fst e) key"
    by (metis R(1,2) in_set_conv_nth length_take min.absorb2 nth_take)
  show "valid_keys valid (assoc_insert lt key x es)"
    using v U by (auto simp: assoc_insert_def valid_keys_def list_all_iff dest: in_set_takeD in_set_dropD)
  show "key_sorted lt (assoc_insert lt key x es)"
  proof (cases "assoc_find lt es key")
    case None
    have dk: "lt key (fst e)" if "e \<in> set (drop i es)" for e
    proof -
      from that obtain m where m: "e = es ! (i + m)" "i + m < length es" by (auto simp: in_set_conv_nth)
      show ?thesis
      proof (cases m)
        case 0
        then show ?thesis
          using m None R(3) [of i] find_rank [OF s v, folded i_def] by (auto simp: key_eq_def split: if_splits)
      qed (use m R(4) [of "i + m"] in auto)
    qed
    have "sorted_wrt (\<lambda>a b. lt (fst a) (fst b)) (take i es @ drop i es)" using s by (simp add: key_sorted_def)
    then have "sorted_wrt (\<lambda>a b. lt (fst a) (fst b)) (take i es @ (key, x) # drop i es)"
      using tk dk by (simp add: sorted_wrt_append del: append_take_drop_id)
    then show ?thesis using None U by (simp add: assoc_insert_def key_sorted_def)
  qed (use s in \<open>simp add: assoc_insert_def\<close>)
qed

lemma remove_sorted:
  "key_sorted lt es \<Longrightarrow> key_sorted lt (assoc_remove lt key es)"
  "valid_keys valid es \<Longrightarrow> valid_keys valid (assoc_remove lt key es)"
  by (auto simp: key_sorted_def assoc_remove_def valid_keys_def list_all_iff sorted_wrt_filter)

text \<open>The leading keys of a sorted list that are not greater than a key.\<close>

lemma upto_split:
  assumes s: "key_sorted lt es" and v: "valid_keys valid es" "valid key"
  defines "m \<equiv> length (takeWhile (\<lambda>e. \<not> lt key (fst e)) es)"
  shows "m \<le> length es" "\<And>j. j < m \<Longrightarrow> \<not> lt key (fst (es ! j))" "\<And>j. m \<le> j \<Longrightarrow> j < length es \<Longrightarrow> lt key (fst (es ! j))"
proof -
  show le: "m \<le> length es" by (simp add: m_def length_takeWhile_le)
  show "\<not> lt key (fst (es ! j))" if "j < m" for j
    using that unfolding m_def by (metis nth_mem set_takeWhileD takeWhile_nth)
  have at: "lt key (fst (es ! m))" if "m < length es"
    using that nth_length_takeWhile [of "\<lambda>e. \<not> lt key (fst e)" es] by (simp add: m_def)
  show "lt key (fst (es ! j))" if j: "m \<le> j" "j < length es" for j
  proof (cases "j = m")
    case False
    then have "lt (fst (es ! m)) (fst (es ! j))" using j by (intro sorted_nth [OF s]) simp_all
    moreover have "m < length es" using j by simp
    ultimately show ?thesis
      using lt_trans [OF v(2) valid_nth [OF v(1), of m] valid_nth [OF v(1) j(2)]] at by blast
  qed (use at j in simp)
qed

end

end
