(* ===== verification/BPlus_Leaf.thy ===== *)
theory BPlus_Leaf
  imports BPlus_Page Ordered_Assoc
begin

text \<open>
  Leaf pages of the B+ tree (\<^verbatim>\<open>src/include/page/b_plus_tree_leaf_page.h\<close>, \<^verbatim>\<open>src/page/b_plus_tree_leaf_page.cpp\<close>) on
  the bytes of the page: the header, the link to the next leaf, and from byte 32 on the pairs of key and
  record id. A pointer into the page is its offset; \<open>cmp\<close> is \<^verbatim>\<open>KM.CompareKeys\<close> of the key manager that the
  code passes along. A write behind the page is \<open>OutOfBounds\<close>.
\<close>

definition LEAF_PAGE_HEADER_SIZE :: nat where "LEAF_PAGE_HEADER_SIZE = 32"

definition leaf_pair_size :: "bpage \<Rightarrow> nat" where "leaf_pair_size d = nat (GetKeySize d) + 8"

definition leaf_GetNextPageId :: "bpage \<Rightarrow> page_id_t" where "leaf_GetNextPageId d = rd32 d 28"
definition leaf_SetNextPageId :: "page_id_t \<Rightarrow> bpage \<Rightarrow> bpage" where "leaf_SetNextPageId next_page_id d = wr32 d 28 next_page_id"

definition leaf_Init :: "page_id_t \<Rightarrow> page_id_t \<Rightarrow> int \<Rightarrow> int \<Rightarrow> bpage \<Rightarrow> bpage" where
  "leaf_Init page_id parent_id key_size max_size d =
     (let d = SetPageType LEAF_PAGE d;
          d = bp_SetPageId page_id d;
          d = SetParentPageId parent_id d;
          d = SetKeySize key_size d;
          d = SetMaxSize max_size d;
          d = SetSize 0 d
      in leaf_SetNextPageId INVALID_PAGE_ID d)"

definition leaf_PairPtrAt :: "bpage \<Rightarrow> nat \<Rightarrow> nat" where "leaf_PairPtrAt d index = 32 + index * leaf_pair_size d"

definition leaf_KeyAt :: "bpage \<Rightarrow> nat \<Rightarrow> byte list" where
  "leaf_KeyAt d index = rd (nat (GetKeySize d)) d (leaf_PairPtrAt d index)"

definition leaf_SetKeyAt :: "nat \<Rightarrow> byte list \<Rightarrow> bpage \<Rightarrow> bpage" where
  "leaf_SetKeyAt index key d = wr d (leaf_PairPtrAt d index) (take (nat (GetKeySize d)) key)"

definition leaf_ValueAt :: "bpage \<Rightarrow> nat \<Rightarrow> RowId" where
  "leaf_ValueAt d index =
     (let off = leaf_PairPtrAt d index + nat (GetKeySize d) in mk_RowId (rd32 d off) (rd32 d (off + 4)))"

definition leaf_SetValueAt :: "nat \<Rightarrow> RowId \<Rightarrow> bpage \<Rightarrow> bpage" where
  "leaf_SetValueAt index value d =
     (let off = leaf_PairPtrAt d index + nat (GetKeySize d)
      in wr d off (le_enc 4 (rid_page_id value) @ le_enc 4 (rid_slot_num value)))"

definition leaf_GetItem :: "bpage \<Rightarrow> nat \<Rightarrow> byte list \<times> RowId" where
  "leaf_GetItem d index = (leaf_KeyAt d index, leaf_ValueAt d index)"

function KeyIndex_loop :: "(byte list \<Rightarrow> byte list \<Rightarrow> int result) \<Rightarrow> byte list \<Rightarrow> bpage \<Rightarrow> nat \<Rightarrow> nat \<Rightarrow> nat result" where
  "KeyIndex_loop cmp key d left right =
     (if left < right then
        let mid = left + (right - left) div 2
        in bind_result (cmp (leaf_KeyAt d mid) key) (\<lambda>c.
           if c < 0 then KeyIndex_loop cmp key d (mid + 1) right else KeyIndex_loop cmp key d left mid)
      else Inr left)"
  by pat_completeness auto
termination by (relation "measure (\<lambda>(cmp, key, d, left, right). right - left)") auto

declare KeyIndex_loop.simps [simp del]

definition KeyIndex :: "(byte list \<Rightarrow> byte list \<Rightarrow> int result) \<Rightarrow> byte list \<Rightarrow> bpage \<Rightarrow> nat result" where
  "KeyIndex cmp key d = KeyIndex_loop cmp key d 0 (nat (GetSize d))"

text \<open>The test that the operations share: the pair at \<^verbatim>\<open>index\<close> exists and has the key.\<close>

definition leaf_hit :: "(byte list \<Rightarrow> byte list \<Rightarrow> int result) \<Rightarrow> byte list \<Rightarrow> bpage \<Rightarrow> nat \<Rightarrow> bool result" where
  "leaf_hit cmp key d index =
     (if int index < GetSize d then bind_result (cmp (leaf_KeyAt d index) key) (\<lambda>c. Inr (c = 0)) else Inr False)"

definition leaf_Lookup :: "(byte list \<Rightarrow> byte list \<Rightarrow> int result) \<Rightarrow> byte list \<Rightarrow> bpage \<Rightarrow> RowId option result" where
  "leaf_Lookup cmp key d =
     bind_result (KeyIndex cmp key d) (\<lambda>index.
     bind_result (leaf_hit cmp key d index) (\<lambda>hit.
     Inr (if \<not> hit then None else Some (leaf_ValueAt d index))))"

definition leaf_Insert :: "(byte list \<Rightarrow> byte list \<Rightarrow> int result) \<Rightarrow> byte list \<Rightarrow> RowId \<Rightarrow> bpage \<Rightarrow> (bpage \<times> int) result" where
  "leaf_Insert cmp key value d =
     bind_result (KeyIndex cmp key d) (\<lambda>index.
     bind_result (leaf_hit cmp key d index) (\<lambda>hit.
     if hit then Inr (d, GetSize d)
     else if length d < leaf_PairPtrAt d (Suc (nat (GetSize d))) then Inl (OutOfBounds ''data_'')
     else let d = (if int index < GetSize d
                   then memmove (leaf_PairPtrAt d (index + 1)) (leaf_PairPtrAt d index)
                          ((nat (GetSize d) - index) * leaf_pair_size d) d
                   else d);
              d = leaf_SetKeyAt index key d;
              d = leaf_SetValueAt index value d;
              d = IncreaseSize 1 d
          in Inr (d, GetSize d)))"

definition RemoveAndDeleteRecord :: "(byte list \<Rightarrow> byte list \<Rightarrow> int result) \<Rightarrow> byte list \<Rightarrow> bpage \<Rightarrow> (bpage \<times> int) result" where
  "RemoveAndDeleteRecord cmp key d =
     bind_result (KeyIndex cmp key d) (\<lambda>index.
     bind_result (leaf_hit cmp key d index) (\<lambda>hit.
     if \<not> hit then Inr (d, GetSize d)
     else let d = (if int index + 1 < GetSize d
                   then memmove (leaf_PairPtrAt d index) (leaf_PairPtrAt d (index + 1))
                          ((nat (GetSize d) - index - 1) * leaf_pair_size d) d
                   else d);
              d = IncreaseSize (- 1) d
          in Inr (d, GetSize d)))"

text \<open>\<^verbatim>\<open>PairCopy\<close> copies from another page \<open>s\<close>; sizes and offsets are those of the receiving page.\<close>

definition leaf_PairCopy :: "nat \<Rightarrow> bpage \<Rightarrow> nat \<Rightarrow> nat \<Rightarrow> bpage \<Rightarrow> bpage" where
  "leaf_PairCopy dest s src pair_num d = wr d dest (rd (pair_num * leaf_pair_size d) s src)"

definition leaf_CopyNFrom :: "bpage \<Rightarrow> nat \<Rightarrow> int \<Rightarrow> bpage \<Rightarrow> bpage result" where
  "leaf_CopyNFrom s src sz d =
     (if sz \<le> 0 then Inr d
      else if length d < leaf_PairPtrAt d (nat (GetSize d) + nat sz) then Inl (OutOfBounds ''data_'')
      else Inr (IncreaseSize sz (leaf_PairCopy (leaf_PairPtrAt d (nat (GetSize d))) s src (nat sz) d)))"

definition leaf_MoveHalfTo :: "bpage \<Rightarrow> bpage \<Rightarrow> (bpage \<times> bpage) result" where
  "leaf_MoveHalfTo d recipient =
     (let start = nat (GetSize d) div 2; move_count = GetSize d - int start
      in bind_result (leaf_CopyNFrom d (leaf_PairPtrAt d start) move_count recipient) (\<lambda>recipient.
         let d = SetSize (int start) d;
             recipient = leaf_SetNextPageId (leaf_GetNextPageId d) recipient
         in Inr (leaf_SetNextPageId (bp_GetPageId recipient) d, recipient)))"

definition leaf_MoveAllTo :: "bpage \<Rightarrow> bpage \<Rightarrow> (bpage \<times> bpage) result" where
  "leaf_MoveAllTo d recipient =
     bind_result (leaf_CopyNFrom d (leaf_PairPtrAt d 0) (GetSize d) recipient) (\<lambda>recipient.
     Inr (SetSize 0 d, leaf_SetNextPageId (leaf_GetNextPageId d) recipient))"

definition leaf_CopyLastFrom :: "byte list \<Rightarrow> RowId \<Rightarrow> bpage \<Rightarrow> bpage result" where
  "leaf_CopyLastFrom key value d =
     (if length d < leaf_PairPtrAt d (Suc (nat (GetSize d))) then Inl (OutOfBounds ''data_'')
      else let d = leaf_SetKeyAt (nat (GetSize d)) key d;
               d = leaf_SetValueAt (nat (GetSize d)) value d
           in Inr (IncreaseSize 1 d))"

definition leaf_MoveFirstToEndOf :: "bpage \<Rightarrow> bpage \<Rightarrow> (bpage \<times> bpage) result" where
  "leaf_MoveFirstToEndOf d recipient =
     (if GetSize d = 0 then Inr (d, recipient)
      else bind_result (leaf_CopyLastFrom (leaf_KeyAt d 0) (leaf_ValueAt d 0) recipient) (\<lambda>recipient.
           let d = (if 1 < GetSize d
                    then memmove (leaf_PairPtrAt d 0) (leaf_PairPtrAt d 1) ((nat (GetSize d) - 1) * leaf_pair_size d) d
                    else d)
           in Inr (IncreaseSize (- 1) d, recipient)))"

definition leaf_CopyFirstFrom :: "byte list \<Rightarrow> RowId \<Rightarrow> bpage \<Rightarrow> bpage result" where
  "leaf_CopyFirstFrom key value d =
     (if length d < leaf_PairPtrAt d (Suc (nat (GetSize d))) then Inl (OutOfBounds ''data_'')
      else let d = (if 0 < GetSize d
                    then memmove (leaf_PairPtrAt d 1) (leaf_PairPtrAt d 0) (nat (GetSize d) * leaf_pair_size d) d
                    else d);
               d = leaf_SetKeyAt 0 key d;
               d = leaf_SetValueAt 0 value d
           in Inr (IncreaseSize 1 d))"

definition leaf_MoveLastToFrontOf :: "bpage \<Rightarrow> bpage \<Rightarrow> (bpage \<times> bpage) result" where
  "leaf_MoveLastToFrontOf d recipient =
     (if GetSize d = 0 then Inr (d, recipient)
      else let last = nat (GetSize d) - 1
           in bind_result (leaf_CopyFirstFrom (leaf_KeyAt d last) (leaf_ValueAt d last) recipient) (\<lambda>recipient.
              Inr (IncreaseSize (- 1) d, recipient)))"

section \<open>The pairs of a leaf\<close>

definition leaf_entries :: "bpage \<Rightarrow> (byte list \<times> RowId) list" where
  "leaf_entries d = map (leaf_GetItem d) [0..<nat (GetSize d)]"

definition leaf_ok :: "nat \<Rightarrow> bpage \<Rightarrow> bool" where
  "leaf_ok ks d \<longleftrightarrow> length d = PAGE_SIZE \<and> GetKeySize d = int ks \<and> 0 \<le> GetSize d \<and>
     32 + nat (GetSize d) * (ks + 8) \<le> PAGE_SIZE"

text \<open>The members of the header other than the size: type, key size, LSN; maximum, parent, page, next.\<close>

definition leaf_header :: "bpage \<Rightarrow> byte list \<times> byte list" where
  "leaf_header d = (rd 12 d 0, rd 16 d 16)"

definition enc_rid :: "RowId \<Rightarrow> byte list" where
  "enc_rid v = le_enc 4 (rid_page_id v) @ le_enc 4 (rid_slot_num v)"

definition dec_leaf :: "nat \<Rightarrow> byte list \<Rightarrow> byte list \<times> RowId" where
  "dec_leaf ks x = (take ks x, mk_RowId (rd32 x ks) (rd32 x (ks + 4)))"

lemma leaf_page: "leaf_ok ks d = page_ok 32 8 ks d" "leaf_header d = page_header 32 d"
  by (simp_all add: leaf_ok_def page_ok_def leaf_header_def page_header_def)

lemma length_enc_rid [simp]: "length (enc_rid v) = 8"
  by (simp add: enc_rid_def)

lemma dec_leaf_enc: "length key = ks \<Longrightarrow> dec_leaf ks (key @ enc_rid v) = (key, v)"
  by (simp add: dec_leaf_def enc_rid_def rd32_def rd_def mk_RowId_def)

lemma leaf_header_eq:
  assumes "leaf_header d' = leaf_header d"
  shows "GetKeySize d' = GetKeySize d" "GetMaxSize d' = GetMaxSize d" "GetParentPageId d' = GetParentPageId d"
    "bp_GetPageId d' = bp_GetPageId d" "leaf_GetNextPageId d' = leaf_GetNextPageId d" "IsLeafPage d' = IsLeafPage d"
  using page_header_eq [OF assms [unfolded leaf_page]] page_header_rd [OF assms [unfolded leaf_page], of 28 4]
  by (simp_all add: leaf_GetNextPageId_def rd32_def)

lemma leaf_okD:
  assumes "leaf_ok ks d"
  shows "length d = 4096" "nat (GetKeySize d) = ks" "leaf_pair_size d = ks + 8" "0 \<le> GetSize d"
    "32 + nat (GetSize d) * (ks + 8) \<le> 4096" "int (nat (GetSize d)) = GetSize d"
  using page_okD [OF assms [unfolded leaf_page]] by (simp_all only: leaf_pair_size_def)

lemma leaf_entries_pairs:
  assumes "leaf_ok ks d"
  shows "leaf_entries d = map (dec_leaf ks) (page_pairs 32 8 ks d)"
proof -
  note K = leaf_okD [OF assms]
  have "leaf_GetItem d i = dec_leaf ks (pair_raw 32 (ks + 8) d i)" for i
  proof -
    let ?o = "32 + i * (ks + 8)"
    have "rd 4 (rd (ks + 8) d ?o) ks = rd 4 d (?o + ks)" "rd 4 (rd (ks + 8) d ?o) (ks + 4) = rd 4 d (?o + (ks + 4))"
      by (rule rd_rd; simp)+
    moreover have "take ks (rd (ks + 8) d ?o) = rd ks d ?o" by (simp add: rd_def min_def)
    ultimately show ?thesis
      by (simp add: leaf_GetItem_def leaf_KeyAt_def leaf_ValueAt_def leaf_PairPtrAt_def K dec_leaf_def pair_raw_def
          rd32_def add.assoc Let_def)
  qed
  then show ?thesis by (simp add: leaf_entries_def page_pairs_def pairs_def)
qed

lemma leaf_put:
  assumes "nat (GetKeySize d) = ks" "length key = ks" "32 + Suc i * (ks + 8) \<le> length d"
  shows "leaf_SetValueAt i v (leaf_SetKeyAt i key d) = wr d (32 + i * (ks + 8)) (key @ enc_rid v)"
proof -
  let ?o = "32 + i * (ks + 8)"
  have o: "?o + ks \<le> length d" using assms(3) by simp
  have ps: "leaf_pair_size d = ks + 8" by (simp add: leaf_pair_size_def assms(1))
  have s1: "leaf_SetKeyAt i key d = wr d ?o key"
    using assms(2) by (simp add: leaf_SetKeyAt_def leaf_PairPtrAt_def ps assms(1))
  have "GetKeySize (wr d ?o key) = GetKeySize d"
    using o assms(2) by (simp add: GetKeySize_def layout_simps)
  then have "leaf_SetValueAt i v (wr d ?o key) = wr (wr d ?o key) (?o + ks) (enc_rid v)"
    by (simp add: leaf_SetValueAt_def leaf_PairPtrAt_def leaf_pair_size_def assms(1) enc_rid_def Let_def)
  also have "\<dots> = wr d ?o (key @ enc_rid v)" using o assms(2) by (intro wr_wr_adjacent) simp_all
  finally show ?thesis by (simp add: s1)
qed

text \<open>Inserting a pair at a position, as \<^verbatim>\<open>Insert\<close>, \<^verbatim>\<open>CopyFirstFrom\<close> and \<^verbatim>\<open>CopyLastFrom\<close> do.\<close>

lemma leaf_insert_at:
  fixes v :: RowId
  assumes ok: "leaf_ok ks d" and i: "i \<le> nat (GetSize d)" and room: "32 + Suc (nat (GetSize d)) * (ks + 8) \<le> 4096"
    and key: "length key = ks"
  defines "g \<equiv> memmove (leaf_PairPtrAt d (i + 1)) (leaf_PairPtrAt d i) ((nat (GetSize d) - i) * leaf_pair_size d) d"
  defines "d' \<equiv> IncreaseSize 1 (leaf_SetValueAt i v (leaf_SetKeyAt i key g))"
  shows "leaf_ok ks d'" "leaf_entries d' = take i (leaf_entries d) @ (key, v) # drop i (leaf_entries d)"
    "leaf_header d' = leaf_header d" "GetSize d' = GetSize d + 1"
proof -
  note K = leaf_okD [OF ok]
  have fit: "32 + Suc (nat (GetSize d)) * (ks + 8) \<le> length d" using room K(1) by simp
  note G = pairs_open_gap [OF i fit]
  have g: "g = memmove (32 + Suc i * (ks + 8)) (32 + i * (ks + 8)) ((nat (GetSize d) - i) * (ks + 8)) d"
    by (simp add: g_def leaf_PairPtrAt_def K)
  have gk: "nat (GetKeySize g) = ks" using G(4) [of 4 4] K(2) by (simp add: g GetKeySize_def rd32_def)
  have gl: "32 + Suc i * (ks + 8) \<le> length g"
    unfolding g G(1) by (rule order_trans [OF _ fit], intro add_left_mono mult_le_mono1) (simp add: i)
  have d': "d' = IncreaseSize 1 (wr g (32 + i * (ks + 8)) (key @ enc_rid v))"
    unfolding d'_def leaf_put [OF gk key gl] ..
  have "length (key @ enc_rid v) = ks + 8" using key by simp
  note P = page_insert_raw [OF ok [unfolded leaf_page] _ _ i room this, folded g d']
  show ok': "leaf_ok ks d'" using P(1) by (simp add: leaf_page)
  show "leaf_entries d' = take i (leaf_entries d) @ (key, v) # drop i (leaf_entries d)"
    using P(4) by (simp add: leaf_entries_pairs [OF ok] leaf_entries_pairs [OF ok'] take_map drop_map dec_leaf_enc [OF key])
  show "leaf_header d' = leaf_header d" "GetSize d' = GetSize d + 1" using P(2,3) by (simp_all add: leaf_page)
qed

text \<open>Removing the pair at a position, as \<^verbatim>\<open>RemoveAndDeleteRecord\<close> and \<^verbatim>\<open>MoveFirstToEndOf\<close> do.\<close>

lemma leaf_remove_at:
  assumes ok: "leaf_ok ks d" and i: "i < nat (GetSize d)"
  defines "d' \<equiv> IncreaseSize (- 1) (memmove (leaf_PairPtrAt d i) (leaf_PairPtrAt d (i + 1)) ((nat (GetSize d) - i - 1) * leaf_pair_size d) d)"
  shows "leaf_ok ks d'" "leaf_entries d' = take i (leaf_entries d) @ drop (Suc i) (leaf_entries d)"
    "leaf_header d' = leaf_header d" "GetSize d' = GetSize d - 1"
proof -
  have "d' = IncreaseSize (- 1) (memmove (32 + i * (ks + 8)) (32 + Suc i * (ks + 8)) ((nat (GetSize d) - i - 1) * (ks + 8)) d)"
    by (simp add: d'_def leaf_PairPtrAt_def leaf_okD [OF ok])
  note P = page_remove_raw [OF ok [unfolded leaf_page] _ _ i, folded this]
  show ok': "leaf_ok ks d'" using P(1) by (simp add: leaf_page)
  show "leaf_entries d' = take i (leaf_entries d) @ drop (Suc i) (leaf_entries d)"
    using P(4) by (simp add: leaf_entries_pairs [OF ok] leaf_entries_pairs [OF ok'] take_map drop_map)
  show "leaf_header d' = leaf_header d" "GetSize d' = GetSize d - 1" using P(2,3) by (simp_all add: leaf_page)
qed

text \<open>Appending a run of pairs of another leaf, and cutting a leaf short.\<close>

lemma leaf_CopyNFrom_effect:
  assumes ok: "leaf_ok ks d" and s: "leaf_ok ks s" and b: "b + k \<le> nat (GetSize s)"
    and room: "32 + (nat (GetSize d) + k) * (ks + 8) \<le> 4096"
  obtains d' where "leaf_CopyNFrom s (leaf_PairPtrAt s b) (int k) d = Inr d'" "leaf_ok ks d'" "leaf_header d' = leaf_header d"
    "leaf_entries d' = leaf_entries d @ take k (drop b (leaf_entries s))" "GetSize d' = GetSize d + int k"
proof (cases "k = 0")
  case True
  then show thesis using that [of d] ok by (simp add: leaf_CopyNFrom_def)
next
  case False
  note K = leaf_okD [OF ok] and L = leaf_okD [OF s]
  define d' where "d' = IncreaseSize (int k) (leaf_PairCopy (leaf_PairPtrAt d (nat (GetSize d))) s (leaf_PairPtrAt s b) k d)"
  have "d' = IncreaseSize (int k) (wr d (32 + nat (GetSize d) * (ks + 8)) (rd (k * (ks + 8)) s (32 + b * (ks + 8))))"
    by (simp add: d'_def leaf_PairCopy_def leaf_PairPtrAt_def K L)
  note P = page_append_raw(1-4) [OF ok [unfolded leaf_page] _ _ s [unfolded leaf_page] b room, folded this]
  have ok': "leaf_ok ks d'" using P(1) by (simp add: leaf_page)
  have "leaf_entries d' = leaf_entries d @ take k (drop b (leaf_entries s))"
    using P(4) by (simp add: leaf_entries_pairs [OF ok] leaf_entries_pairs [OF ok'] leaf_entries_pairs [OF s] take_map drop_map)
  moreover have "leaf_CopyNFrom s (leaf_PairPtrAt s b) (int k) d = Inr d'"
    using False room by (simp add: leaf_CopyNFrom_def d'_def leaf_PairPtrAt_def K)
  ultimately show thesis using that ok' P(2,3) by (simp add: leaf_page)
qed

lemma leaf_cut:
  assumes ok: "leaf_ok ks d" and n: "n \<le> nat (GetSize d)"
  shows "leaf_ok ks (SetSize (int n) d)" "leaf_entries (SetSize (int n) d) = take n (leaf_entries d)"
    "leaf_header (SetSize (int n) d) = leaf_header d" "GetSize (SetSize (int n) d) = int n"
proof -
  note P = page_cut [OF ok [unfolded leaf_page] _ _ n]
  show ok': "leaf_ok ks (SetSize (int n) d)" using P(1) by (simp add: leaf_page)
  show "leaf_entries (SetSize (int n) d) = take n (leaf_entries d)"
    using P(4) by (simp add: leaf_entries_pairs [OF ok] leaf_entries_pairs [OF ok'] take_map)
  show "leaf_header (SetSize (int n) d) = leaf_header d" "GetSize (SetSize (int n) d) = int n"
    using P(2,3) by (simp_all add: leaf_page)
qed

section \<open>Moving pairs between leaves\<close>

lemma SetNextPageId_frame:
  assumes "leaf_ok ks d"
  shows "leaf_ok ks (leaf_SetNextPageId p d)" "leaf_entries (leaf_SetNextPageId p d) = leaf_entries d"
    "GetSize (leaf_SetNextPageId p d) = GetSize d" "leaf_GetNextPageId (leaf_SetNextPageId p d) = p"
    "bp_GetPageId (leaf_SetNextPageId p d) = bp_GetPageId d" "GetMaxSize (leaf_SetNextPageId p d) = GetMaxSize d"
    "GetParentPageId (leaf_SetNextPageId p d) = GetParentPageId d" "IsLeafPage (leaf_SetNextPageId p d) = IsLeafPage d"
proof -
  note K = leaf_okD [OF assms]
  have sz: "GetSize (leaf_SetNextPageId p d) = GetSize d" "GetKeySize (leaf_SetNextPageId p d) = GetKeySize d"
    using K(1) by (simp_all add: leaf_SetNextPageId_def bp_defs layout_simps)
  show l: "leaf_ok ks (leaf_SetNextPageId p d)" using assms K(1) sz by (simp add: leaf_ok_def leaf_SetNextPageId_def PAGE_SIZE_def)
  show "leaf_entries (leaf_SetNextPageId p d) = leaf_entries d"
    using K(1) by (simp add: leaf_entries_pairs [OF l] leaf_entries_pairs [OF assms] sz page_pairs_def pairs_def pair_raw_def)
      (simp add: leaf_SetNextPageId_def layout_simps)
  show "GetSize (leaf_SetNextPageId p d) = GetSize d" "leaf_GetNextPageId (leaf_SetNextPageId p d) = p"
    "bp_GetPageId (leaf_SetNextPageId p d) = bp_GetPageId d" "GetMaxSize (leaf_SetNextPageId p d) = GetMaxSize d"
    "GetParentPageId (leaf_SetNextPageId p d) = GetParentPageId d" "IsLeafPage (leaf_SetNextPageId p d) = IsLeafPage d"
    using K(1) by (simp_all add: leaf_SetNextPageId_def leaf_GetNextPageId_def bp_defs layout_simps)
qed

lemma leaf_entries_length: "length (leaf_entries d) = nat (GetSize d)"
  by (simp add: leaf_entries_def)

lemma leaf_MoveHalfTo_effect:
  assumes d: "leaf_ok ks d" and r: "leaf_ok ks r" and z: "GetSize r = 0"
    and fit: "32 + (nat (GetSize d) + nat (GetSize r)) * (ks + 8) \<le> 4096"
  obtains d' r' where "leaf_MoveHalfTo d r = Inr (d', r')" "leaf_ok ks d'" "leaf_ok ks r'"
    "leaf_entries d' @ leaf_entries r' = leaf_entries d" "GetSize d' = GetSize d div 2"
    "leaf_GetNextPageId d' = bp_GetPageId r" "leaf_GetNextPageId r' = leaf_GetNextPageId d"
proof -
  note K = leaf_okD [OF d]
  let ?n = "nat (GetSize d)"
  define s where "s = ?n div 2"
  have s2: "int s = GetSize d div 2" using K(4) by (simp add: s_def zdiv_int)
  have b: "s + (?n - s) \<le> ?n" by (simp add: s_def)
  have room: "32 + (nat (GetSize r) + (?n - s)) * (ks + 8) \<le> 4096"
    by (rule order_trans [OF _ fit], intro add_left_mono mult_le_mono1) simp
  obtain r1 where r1: "leaf_CopyNFrom d (leaf_PairPtrAt d s) (int (?n - s)) r = Inr r1" "leaf_ok ks r1"
    "leaf_header r1 = leaf_header r" "leaf_entries r1 = leaf_entries r @ take (?n - s) (drop s (leaf_entries d))"
    by (rule leaf_CopyNFrom_effect [OF r d b room])
  have c: "s \<le> ?n" by (simp add: s_def)
  note C = leaf_cut [OF d c] and H = leaf_header_eq [OF leaf_cut(3) [OF d c]] and R = leaf_header_eq [OF r1(3)]
  have e: "GetSize d - int s = int (?n - s)" using K(6) c by (simp add: of_nat_diff)
  have "leaf_MoveHalfTo d r = Inr (leaf_SetNextPageId (bp_GetPageId (leaf_SetNextPageId (leaf_GetNextPageId (SetSize (int s) d)) r1)) (SetSize (int s) d),
      leaf_SetNextPageId (leaf_GetNextPageId (SetSize (int s) d)) r1)"
    by (simp only: leaf_MoveHalfTo_def Let_def s_def [symmetric] e r1(1) bind_result_simps)
  moreover have "leaf_entries r = []" using z by (simp add: leaf_entries_def)
  ultimately show thesis
    using that SetNextPageId_frame [OF C(1)] SetNextPageId_frame [OF r1(2)] C H R r1(4) s2
    by (simp add: leaf_entries_length)
qed

lemma leaf_MoveAllTo_effect:
  assumes d: "leaf_ok ks d" and r: "leaf_ok ks r"
    and fit: "32 + (nat (GetSize d) + nat (GetSize r)) * (ks + 8) \<le> 4096"
  obtains d' r' where "leaf_MoveAllTo d r = Inr (d', r')" "leaf_ok ks d'" "leaf_ok ks r'"
    "leaf_entries r' = leaf_entries r @ leaf_entries d" "leaf_entries d' = []" "leaf_GetNextPageId r' = leaf_GetNextPageId d"
proof -
  note K = leaf_okD [OF d]
  have b: "0 + nat (GetSize d) \<le> nat (GetSize d)" by simp
  have room: "32 + (nat (GetSize r) + nat (GetSize d)) * (ks + 8) \<le> 4096" using fit by (simp add: add.commute)
  obtain r1 where r1: "leaf_CopyNFrom d (leaf_PairPtrAt d 0) (int (nat (GetSize d))) r = Inr r1" "leaf_ok ks r1"
    "leaf_entries r1 = leaf_entries r @ take (nat (GetSize d)) (drop 0 (leaf_entries d))"
    by (rule leaf_CopyNFrom_effect [OF r d b room])
  have z: "0 \<le> nat (GetSize d)" by simp
  note C = leaf_cut [OF d z]
  have "leaf_MoveAllTo d r = Inr (SetSize 0 d, leaf_SetNextPageId (leaf_GetNextPageId d) r1)"
    using r1(1) unfolding K(6) by (simp add: leaf_MoveAllTo_def)
  then show thesis using that SetNextPageId_frame [OF r1(2)] C r1(3) by (simp add: leaf_entries_length)
qed

text \<open>Opening or closing a gap at the very end is no move at all.\<close>

lemma leaf_edge_moves:
  assumes "leaf_ok ks d" "32 + Suc (nat (GetSize d)) * (ks + 8) \<le> 4096"
  shows "memmove (leaf_PairPtrAt d (nat (GetSize d) + 1)) (leaf_PairPtrAt d (nat (GetSize d))) 0 d = d"
  using leaf_okD [OF assms(1)] assms(2) by (simp add: leaf_PairPtrAt_def)

lemma leaf_room1:
  assumes "0 < GetSize d" "32 + (nat (GetSize d) + nat (GetSize r)) * (ks + 8) \<le> 4096"
  shows "32 + Suc (nat (GetSize r)) * (ks + 8) \<le> 4096"
proof -
  have "Suc (nat (GetSize r)) * (ks + 8) \<le> (nat (GetSize d) + nat (GetSize r)) * (ks + 8)"
    using assms(1) by (intro mult_le_mono1) linarith
  with assms(2) show ?thesis by linarith
qed

lemma leaf_item_length:
  assumes "leaf_ok ks d" "i < nat (GetSize d)"
  shows "length (leaf_KeyAt d i) = ks" "leaf_entries d ! i = (leaf_KeyAt d i, leaf_ValueAt d i)"
proof -
  note K = leaf_okD [OF assms(1)]
  have "i * (ks + 8) + (ks + 8) \<le> nat (GetSize d) * (ks + 8)" by (rule slot_bound [OF assms(2)])
  then have "32 + i * (ks + 8) + ks \<le> 4096" using K(5) by linarith
  then show "length (leaf_KeyAt d i) = ks" using K by (simp add: leaf_KeyAt_def leaf_PairPtrAt_def)
  show "leaf_entries d ! i = (leaf_KeyAt d i, leaf_ValueAt d i)" using assms(2) by (simp add: leaf_entries_def leaf_GetItem_def)
qed

lemma leaf_MoveFirstToEndOf_effect:
  assumes d: "leaf_ok ks d" and r: "leaf_ok ks r" and pos: "0 < GetSize d"
    and room: "32 + Suc (nat (GetSize r)) * (ks + 8) \<le> 4096"
  obtains d' r' where "leaf_MoveFirstToEndOf d r = Inr (d', r')" "leaf_ok ks d'" "leaf_ok ks r'"
    "leaf_entries r' @ leaf_entries d' = leaf_entries r @ leaf_entries d" "GetSize d' = GetSize d - 1"
    "leaf_header d' = leaf_header d" "leaf_header r' = leaf_header r"
proof -
  note K = leaf_okD [OF d] and L = leaf_okD [OF r]
  have i: "0 < nat (GetSize d)" using pos by simp
  note I = leaf_item_length [OF d i]
  note A = leaf_insert_at [OF r order_refl room I(1), of "leaf_ValueAt d 0"]
  note E = leaf_edge_moves [OF r room]
  have gk: "nat (GetSize (leaf_SetKeyAt (nat (GetSize r)) (leaf_KeyAt d 0) r)) = nat (GetSize r)"
    using room L I(1) by (simp add: leaf_SetKeyAt_def GetSize_def leaf_PairPtrAt_def layout_simps)
  have c: "leaf_CopyLastFrom (leaf_KeyAt d 0) (leaf_ValueAt d 0) r =
      Inr (IncreaseSize 1 (leaf_SetValueAt (nat (GetSize r)) (leaf_ValueAt d 0) (leaf_SetKeyAt (nat (GetSize r)) (leaf_KeyAt d 0) r)))"
    using room L by (simp add: leaf_CopyLastFrom_def leaf_PairPtrAt_def Let_def gk)
  note B = leaf_remove_at [OF d i]
  have e: "memmove (leaf_PairPtrAt d 0) (leaf_PairPtrAt d 1) 0 d = d" using K(1) by (simp add: leaf_PairPtrAt_def)
  have "leaf_MoveFirstToEndOf d r =
      Inr (IncreaseSize (- 1) (memmove (leaf_PairPtrAt d 0) (leaf_PairPtrAt d (0 + 1)) ((nat (GetSize d) - 0 - 1) * leaf_pair_size d) d),
        IncreaseSize 1 (leaf_SetValueAt (nat (GetSize r)) (leaf_ValueAt d 0) (leaf_SetKeyAt (nat (GetSize r)) (leaf_KeyAt d 0) r)))"
    using pos c e by (cases "1 < GetSize d") (simp_all add: leaf_MoveFirstToEndOf_def Let_def)
  moreover have "leaf_entries d = leaf_entries d ! 0 # drop 1 (leaf_entries d)"
    using Cons_nth_drop_Suc [of 0 "leaf_entries d"] i by (simp add: leaf_entries_length)
  ultimately show thesis
    using that A B E I by (simp add: leaf_entries_length)
qed

lemma leaf_MoveLastToFrontOf_effect:
  assumes d: "leaf_ok ks d" and r: "leaf_ok ks r" and pos: "0 < GetSize d"
    and room: "32 + Suc (nat (GetSize r)) * (ks + 8) \<le> 4096"
  obtains d' r' where "leaf_MoveLastToFrontOf d r = Inr (d', r')" "leaf_ok ks d'" "leaf_ok ks r'"
    "leaf_entries d' @ leaf_entries r' = leaf_entries d @ leaf_entries r" "GetSize d' = GetSize d - 1"
    "leaf_header d' = leaf_header d" "leaf_header r' = leaf_header r"
proof -
  note K = leaf_okD [OF d] and L = leaf_okD [OF r]
  let ?l = "nat (GetSize d) - 1"
  have i: "?l < nat (GetSize d)" using pos by simp
  note I = leaf_item_length [OF d i]
  note A = leaf_insert_at [OF r le0 room I(1), of "leaf_ValueAt d ?l"]
  have e: "memmove (leaf_PairPtrAt r 1) (leaf_PairPtrAt r 0) 0 r = r"
    using room L by (simp add: leaf_PairPtrAt_def)
  have c: "leaf_CopyFirstFrom (leaf_KeyAt d ?l) (leaf_ValueAt d ?l) r =
      Inr (IncreaseSize 1 (leaf_SetValueAt 0 (leaf_ValueAt d ?l) (leaf_SetKeyAt 0 (leaf_KeyAt d ?l)
        (memmove (leaf_PairPtrAt r (0 + 1)) (leaf_PairPtrAt r 0) ((nat (GetSize r) - 0) * leaf_pair_size r) r))))"
    using room L e by (cases "0 < GetSize r") (simp_all add: leaf_CopyFirstFrom_def leaf_PairPtrAt_def Let_def)
  note B = leaf_remove_at [OF d i]
  have "memmove (leaf_PairPtrAt d ?l) (leaf_PairPtrAt d (?l + 1)) ((nat (GetSize d) - ?l - 1) * leaf_pair_size d) d = d"
  proof -
    have "32 + ?l * (ks + 8) \<le> 4096" by (rule order_trans [OF _ K(5)], intro add_left_mono mult_le_mono1) simp
    then have "leaf_PairPtrAt d ?l \<le> length d" unfolding leaf_PairPtrAt_def K(1,3) .
    moreover have "nat (GetSize d) - ?l - 1 = 0" by simp
    ultimately show ?thesis by simp
  qed
  note B = B [unfolded this]
  have n0: "GetSize d \<noteq> 0" using pos by simp
  have "leaf_MoveLastToFrontOf d r = Inr (IncreaseSize (- 1) d, IncreaseSize 1 (leaf_SetValueAt 0 (leaf_ValueAt d ?l) (leaf_SetKeyAt 0 (leaf_KeyAt d ?l)
        (memmove (leaf_PairPtrAt r (0 + 1)) (leaf_PairPtrAt r 0) ((nat (GetSize r) - 0) * leaf_pair_size r) r))))"
    by (simp only: leaf_MoveLastToFrontOf_def n0 if_False Let_def c bind_result_simps)
  moreover have "leaf_entries d = take ?l (leaf_entries d) @ [leaf_entries d ! ?l]" "drop (Suc ?l) (leaf_entries d) = []"
    using take_Suc_conv_app_nth [of ?l "leaf_entries d"] i by (simp_all add: leaf_entries_length)
  ultimately show thesis using that A B I by (metis append.assoc append_Cons append_Nil append_Nil2 drop_0 take_0)
qed

section \<open>Searching a sorted leaf\<close>

locale leaf_search = key_compare cmp lt valid
  for cmp :: "byte list \<Rightarrow> byte list \<Rightarrow> int result" and lt :: "byte list \<Rightarrow> byte list \<Rightarrow> bool" and valid :: "byte list \<Rightarrow> bool"
begin

text \<open>The binary search keeps the position of the key between its bounds.\<close>

lemma KeyIndex_loop_rank:
  assumes "key_sorted lt (leaf_entries d)" "valid_keys valid (leaf_entries d)" "valid key"
    and "left \<le> rank lt key (leaf_entries d)" "rank lt key (leaf_entries d) \<le> right" "right \<le> nat (GetSize d)"
  shows "KeyIndex_loop cmp key d left right = Inr (rank lt key (leaf_entries d))"
  using assms(4-6)
proof (induction "right - left" arbitrary: left right rule: less_induct)
  case less
  let ?es = "leaf_entries d" let ?i = "rank lt key ?es" let ?mid = "left + (right - left) div 2"
  note R = rank_split [OF assms(1-3)]
  have len: "length ?es = nat (GetSize d)" by (simp add: leaf_entries_def)
  show ?case
  proof (cases "left < right")
    case True
    then have m: "left \<le> ?mid" "?mid < right" by auto
    then have k: "?mid < length ?es" "leaf_KeyAt d ?mid = fst (?es ! ?mid)"
      using less.prems(3) len by (auto simp: leaf_entries_def leaf_GetItem_def)
    obtain c where c: "cmp (leaf_KeyAt d ?mid) key = Inr c" "c < 0 \<longleftrightarrow> lt (fst (?es ! ?mid)) key"
      using cmp_sign [OF valid_nth [OF assms(2) k(1)] assms(3)] k(2) by auto
    note step = KeyIndex_loop.simps [of cmp key d left right]
    show ?thesis
    proof (cases "c < 0")
      case True
      then have "?mid < ?i" using c(2) R(3) [of ?mid] k(1) by linarith
      then show ?thesis
        using less.hyps [of right "?mid + 1"] less.prems m c(1) True \<open>left < right\<close> step by (simp add: Let_def)
    next
      case False
      then have "?i \<le> ?mid" using c(2) R(2) [of ?mid] by linarith
      then show ?thesis
        using less.hyps [of ?mid left] less.prems m c(1) False \<open>left < right\<close> step by (simp add: Let_def)
    qed
  next
    case False
    then show ?thesis using less.prems KeyIndex_loop.simps [of cmp key d left right] by simp
  qed
qed

lemma KeyIndex_rank:
  assumes "key_sorted lt (leaf_entries d)" "valid_keys valid (leaf_entries d)" "valid key"
  shows "KeyIndex cmp key d = Inr (rank lt key (leaf_entries d))"
  unfolding KeyIndex_def using rank_split(1) [OF assms]
  by (intro KeyIndex_loop_rank [OF assms]) (simp_all add: leaf_entries_def)

lemma leaf_hit_rank:
  assumes "valid_keys valid (leaf_entries d)" "valid key"
  shows "leaf_hit cmp key d i =
    Inr (i < length (leaf_entries d) \<and> key_eq lt (fst (leaf_entries d ! i)) key)"
proof (cases "int i < GetSize d")
  case True
  then have i: "i < length (leaf_entries d)" "leaf_KeyAt d i = fst (leaf_entries d ! i)"
    by (auto simp: leaf_entries_def leaf_GetItem_def)
  then show ?thesis
    using True cmp_sign [OF valid_nth [OF assms(1) i(1)] assms(2)] by (auto simp: leaf_hit_def key_eq_def)
qed (auto simp: leaf_hit_def leaf_entries_def)

lemma leaf_Lookup_find:
  assumes "key_sorted lt (leaf_entries d)" "valid_keys valid (leaf_entries d)" "valid key"
  shows "leaf_Lookup cmp key d = Inr (assoc_find lt (leaf_entries d) key)"
  using find_rank [OF assms]
  by (simp add: leaf_Lookup_def KeyIndex_rank [OF assms] leaf_hit_rank [OF assms(2,3)])
     (simp add: leaf_entries_def leaf_GetItem_def)

lemma leaf_Insert_insert:
  assumes ok: "leaf_ok ks d" and s: "key_sorted lt (leaf_entries d)" "valid_keys valid (leaf_entries d)" "valid key"
    and key: "length key = ks" and room: "32 + Suc (nat (GetSize d)) * (ks + 8) \<le> 4096"
  obtains d' where "leaf_Insert cmp key v d = Inr (d', GetSize d')" "leaf_ok ks d'"
    "leaf_entries d' = assoc_insert lt key v (leaf_entries d)" "leaf_header d' = leaf_header d"
proof -
  let ?es = "leaf_entries d" let ?i = "rank lt key ?es"
  note K = leaf_okD [OF ok] and R = rank_split [OF s] and F = find_rank [OF s]
  have len: "length ?es = nat (GetSize d)" by (simp add: leaf_entries_def)
  note steps = KeyIndex_rank [OF s] leaf_hit_rank [OF s(2,3)]
  show thesis
  proof (cases "?i < length ?es \<and> key_eq lt (fst (?es ! ?i)) key")
    case True
    then show thesis using that [of d] ok F steps by (simp add: leaf_Insert_def assoc_insert_def)
  next
    case False
    then have hit: "leaf_hit cmp key d ?i = Inr False" using leaf_hit_rank [OF s(2,3)] by simp
    have i: "?i \<le> nat (GetSize d)" using R(1) len by simp
    note I = leaf_insert_at [OF ok i room key]
    have zero: "memmove (leaf_PairPtrAt d (?i + 1)) (leaf_PairPtrAt d ?i) ((nat (GetSize d) - ?i) * leaf_pair_size d) d = d"
      if "\<not> int ?i < GetSize d"
    proof -
      have n: "nat (GetSize d) = ?i" using that i by simp
      have "leaf_PairPtrAt d (?i + 1) \<le> length d" using room K(1) by (simp add: leaf_PairPtrAt_def K n)
      then show ?thesis by (simp add: n)
    qed
    have "\<not> length d < leaf_PairPtrAt d (Suc (nat (GetSize d)))" using room K by (simp add: leaf_PairPtrAt_def)
    then have "leaf_Insert cmp key v d = Inr (let d' = IncreaseSize 1 (leaf_SetValueAt ?i v (leaf_SetKeyAt ?i key
        (memmove (leaf_PairPtrAt d (?i + 1)) (leaf_PairPtrAt d ?i) ((nat (GetSize d) - ?i) * leaf_pair_size d) d))) in (d', GetSize d'))"
      using hit KeyIndex_rank [OF s] zero by (cases "int ?i < GetSize d") (simp_all add: leaf_Insert_def Let_def)
    moreover have "assoc_insert lt key v ?es = take ?i ?es @ (key, v) # drop ?i ?es"
    proof -
      have "assoc_find lt ?es key = None" using F False by auto
      then show ?thesis using rank_unique [of ?i ?es lt key] R by (simp add: assoc_insert_def)
    qed
    ultimately show thesis using that I by (simp add: Let_def)
  qed
qed

lemma leaf_Remove_remove:
  assumes ok: "leaf_ok ks d" and s: "key_sorted lt (leaf_entries d)" "valid_keys valid (leaf_entries d)" "valid key"
  obtains d' where "RemoveAndDeleteRecord cmp key d = Inr (d', GetSize d')" "leaf_ok ks d'"
    "leaf_entries d' = assoc_remove lt key (leaf_entries d)" "leaf_header d' = leaf_header d"
proof -
  let ?es = "leaf_entries d" let ?i = "rank lt key ?es"
  note K = leaf_okD [OF ok] and F = remove_rank [OF s]
  have len: "length ?es = nat (GetSize d)" by (simp add: leaf_entries_def)
  note steps = KeyIndex_rank [OF s] leaf_hit_rank [OF s(2,3)]
  show thesis
  proof (cases "?i < length ?es \<and> key_eq lt (fst (?es ! ?i)) key")
    case False
    then show thesis using that [of d] ok F steps by (auto simp: RemoveAndDeleteRecord_def)
  next
    case True
    then have i: "?i < nat (GetSize d)" using len by simp
    note I = leaf_remove_at [OF ok i]
    have zero: "memmove (leaf_PairPtrAt d ?i) (leaf_PairPtrAt d (?i + 1)) ((nat (GetSize d) - ?i - 1) * leaf_pair_size d) d = d"
      if "\<not> int ?i + 1 < GetSize d"
    proof -
      have n: "nat (GetSize d) = Suc ?i" using that i by simp
      have "leaf_PairPtrAt d ?i \<le> length d" using K(5) K(1) by (simp add: leaf_PairPtrAt_def K n)
      then show ?thesis by (simp add: n)
    qed
    have "RemoveAndDeleteRecord cmp key d = Inr (let d' = IncreaseSize (- 1)
        (memmove (leaf_PairPtrAt d ?i) (leaf_PairPtrAt d (?i + 1)) ((nat (GetSize d) - ?i - 1) * leaf_pair_size d) d) in (d', GetSize d'))"
      using True steps zero by (cases "int ?i + 1 < GetSize d") (simp_all add: RemoveAndDeleteRecord_def Let_def)
    then show thesis using that I True F by (simp add: Let_def)
  qed
qed

end

interpretation lf: leaf_search "CompareKeys km" "key_less km" "key_valid km" for km
  by (rule leaf_search.intro) (rule km.key_compare_axioms)

section \<open>Properties\<close>

definition wf_leaf :: "KeyManager \<Rightarrow> bpage \<Rightarrow> bool" where
  "wf_leaf km d \<longleftrightarrow> leaf_ok (km_key_size km) d \<and> valid_keys (key_valid km) (leaf_entries d) \<and>
     key_sorted (key_less km) (leaf_entries d)"

text \<open>A new leaf, and a leaf with one pair.\<close>

lemma leaf_Init_ok:
  assumes "length d = PAGE_SIZE" "ks < 4000"
  shows "leaf_ok ks (leaf_Init p q (int ks) m d)" "GetSize (leaf_Init p q (int ks) m d) = 0"
    "leaf_entries (leaf_Init p q (int ks) m d) = []" "IsLeafPage (leaf_Init p q (int ks) m d)"
    "bp_GetPageId (leaf_Init p q (int ks) m d) = p" "GetParentPageId (leaf_Init p q (int ks) m d) = q"
    "leaf_GetNextPageId (leaf_Init p q (int ks) m d) = INVALID_PAGE_ID"
proof -
  note S = leaf_Init_def bp_defs leaf_SetNextPageId_def leaf_GetNextPageId_def Let_def layout_simps PAGE_SIZE_def
  have l: "length d = 4096" using assms(1) by (simp add: PAGE_SIZE_def)
  show sz: "GetSize (leaf_Init p q (int ks) m d) = 0" using l by (simp add: S)
  have "GetKeySize (leaf_Init p q (int ks) m d) = sint (word_of_int (int ks) :: 32 word)" using l by (simp add: S)
  then have "GetKeySize (leaf_Init p q (int ks) m d) = int ks" using sint_word_small [of "int ks"] assms(2) by simp
  moreover have "length (leaf_Init p q (int ks) m d) = 4096" using l by (simp add: S)
  ultimately show "leaf_ok ks (leaf_Init p q (int ks) m d)" by (simp add: leaf_ok_def sz PAGE_SIZE_def)
  show "leaf_entries (leaf_Init p q (int ks) m d) = []" by (simp add: leaf_entries_def sz)
qed (use assms(1) in \<open>simp_all add: leaf_Init_def bp_defs leaf_SetNextPageId_def leaf_GetNextPageId_def Let_def layout_simps PAGE_SIZE_def IndexPageType_num_def\<close>)

definition example_leaf :: bpage where
  "example_leaf = leaf_Init 5 INVALID_PAGE_ID (int 16) 100 (replicate PAGE_SIZE 0)"

lemma example_leaf_ok: "wf_leaf example_km example_leaf" "GetSize example_leaf = 0" "leaf_entries example_leaf = []"
  using leaf_Init_ok [of "replicate PAGE_SIZE 0" 16]
  by (simp_all add: example_leaf_def wf_leaf_def valid_keys_def key_sorted_def example_km_def KeyManager_new_def)

lemma example_leaf_one:
  assumes "key_valid example_km a"
  obtains d where "leaf_Insert (CompareKeys example_km) a (mk_RowId 7 1) example_leaf = Inr (d, 1)"
    "wf_leaf example_km d" "leaf_entries d = [(a, mk_RowId 7 1)]" "GetSize d = 1"
proof -
  have 16: "km_key_size example_km = 16" by (simp add: example_km_def KeyManager_new_def)
  note E = example_leaf_ok
  have wf: "leaf_ok 16 example_leaf" "key_sorted (key_less example_km) (leaf_entries example_leaf)"
    "valid_keys (key_valid example_km) (leaf_entries example_leaf)" using E(1) by (simp_all add: wf_leaf_def 16)
  obtain d where d: "leaf_Insert (CompareKeys example_km) a (mk_RowId 7 1) example_leaf = Inr (d, GetSize d)" "leaf_ok 16 d"
    "leaf_entries d = assoc_insert (key_less example_km) a (mk_RowId 7 1) (leaf_entries example_leaf)"
    using lf.leaf_Insert_insert [OF wf assms, of "mk_RowId 7 1"] assms E(2) by (auto simp: key_valid_def 16)
  have es: "leaf_entries d = [(a, mk_RowId 7 1)]" using d(3) by (simp add: E(3) assoc_insert_def assoc_find_def)
  then have "nat (GetSize d) = 1" using leaf_entries_length [of d] by simp
  then have n: "GetSize d = 1" using leaf_okD(4) [OF d(2)] by simp
  show thesis using that d(1,2) es n assms by (simp add: wf_leaf_def 16 valid_keys_def key_sorted_def)
qed

text \<open>\<^verbatim>\<open>KeyIndex\<close> ends and its binary search agrees with the linear scan: on a sorted leaf it returns the number
  of leading keys that are smaller than the key, that is the first position whose key is not.\<close>

theorem KeyIndex_linear_scan:
  assumes "wf_leaf km d" "key_valid km key"
  shows "KeyIndex (CompareKeys km) key d = Inr (length (takeWhile (\<lambda>(k, _). key_less km k key) (leaf_entries d)))"
  using lf.KeyIndex_rank [of km d key] assms by (simp add: wf_leaf_def rank_def split_def)

theorem KeyIndex_linear_scan_witness:
  "\<exists>a b d. SerializeFromKey example_km (replicate 16 0) (example_key_row 3) (km_key_schema example_km) = Inr a \<and>
     SerializeFromKey example_km (replicate 16 0) (example_key_row 5) (km_key_schema example_km) = Inr b \<and>
     leaf_Insert (CompareKeys example_km) a (mk_RowId 7 1) example_leaf = Inr (d, 1) \<and>
     KeyIndex (CompareKeys example_km) b d = Inr 1"
proof -
  obtain a b where ab: "SerializeFromKey example_km (replicate 16 0) (example_key_row 3) (km_key_schema example_km) = Inr a"
    "SerializeFromKey example_km (replicate 16 0) (example_key_row 5) (km_key_schema example_km) = Inr b"
    "key_valid example_km a" "key_valid example_km b" "key_less example_km a b" by (rule example_keys)
  obtain d where d: "leaf_Insert (CompareKeys example_km) a (mk_RowId 7 1) example_leaf = Inr (d, 1)"
    "wf_leaf example_km d" "leaf_entries d = [(a, mk_RowId 7 1)]" by (rule example_leaf_one [OF ab(3)])
  show ?thesis using ab(1,2,5) d(1,3) KeyIndex_linear_scan [OF d(2) ab(4)] by auto
qed

text \<open>C9. A leaf page is a sorted map from keys to record ids: \<^verbatim>\<open>Lookup\<close> finds the value of a key, \<^verbatim>\<open>Insert\<close> puts an
  absent key in its place and leaves the page alone when the key is there, \<^verbatim>\<open>RemoveAndDeleteRecord\<close> removes
  exactly the pair of the key; both return the new size, keep the page sorted and the rest of its header.\<close>

theorem leaf_page_sorted_map:
  assumes "wf_leaf km d" "key_valid km key" "32 + Suc (nat (GetSize d)) * (km_key_size km + 8) \<le> PAGE_SIZE"
  shows "leaf_Lookup (CompareKeys km) key d = Inr (assoc_find (key_less km) (leaf_entries d) key) \<and>
    (\<exists>d'. leaf_Insert (CompareKeys km) key v d = Inr (d', GetSize d') \<and> wf_leaf km d' \<and> leaf_header d' = leaf_header d \<and>
      leaf_entries d' = assoc_insert (key_less km) key v (leaf_entries d)) \<and>
    (\<exists>d'. RemoveAndDeleteRecord (CompareKeys km) key d = Inr (d', GetSize d') \<and> wf_leaf km d' \<and> leaf_header d' = leaf_header d \<and>
      leaf_entries d' = assoc_remove (key_less km) key (leaf_entries d))"
proof (intro conjI)
  have wf: "leaf_ok (km_key_size km) d" "key_sorted (key_less km) (leaf_entries d)" "valid_keys (key_valid km) (leaf_entries d)"
    using assms(1) by (simp_all add: wf_leaf_def)
  have key: "length key = km_key_size km" using assms(2) by (simp add: key_valid_def)
  show "leaf_Lookup (CompareKeys km) key d = Inr (assoc_find (key_less km) (leaf_entries d) key)"
    by (rule lf.leaf_Lookup_find [OF wf(2,3) assms(2)])
  obtain d' where "leaf_Insert (CompareKeys km) key v d = Inr (d', GetSize d')" "leaf_ok (km_key_size km) d'"
    "leaf_entries d' = assoc_insert (key_less km) key v (leaf_entries d)" "leaf_header d' = leaf_header d"
    by (rule lf.leaf_Insert_insert [OF wf assms(2) key assms(3) [unfolded PAGE_SIZE_def]])
  then show "\<exists>d'. leaf_Insert (CompareKeys km) key v d = Inr (d', GetSize d') \<and> wf_leaf km d' \<and> leaf_header d' = leaf_header d \<and>
      leaf_entries d' = assoc_insert (key_less km) key v (leaf_entries d)"
    using km.insert_sorted [OF wf(2,3) assms(2)] by (auto simp: wf_leaf_def)
  obtain d' where "RemoveAndDeleteRecord (CompareKeys km) key d = Inr (d', GetSize d')" "leaf_ok (km_key_size km) d'"
    "leaf_entries d' = assoc_remove (key_less km) key (leaf_entries d)" "leaf_header d' = leaf_header d"
    by (rule lf.leaf_Remove_remove [OF wf assms(2)])
  then show "\<exists>d'. RemoveAndDeleteRecord (CompareKeys km) key d = Inr (d', GetSize d') \<and> wf_leaf km d' \<and> leaf_header d' = leaf_header d \<and>
      leaf_entries d' = assoc_remove (key_less km) key (leaf_entries d)"
    using km.remove_sorted wf(2,3) by (auto simp: wf_leaf_def)
qed

theorem leaf_page_sorted_map_witness:
  "\<exists>a b d d'. key_less example_km a b \<and> leaf_Insert (CompareKeys example_km) a (mk_RowId 7 1) example_leaf = Inr (d, 1) \<and>
     leaf_Insert (CompareKeys example_km) b (mk_RowId 8 2) d = Inr (d', 2) \<and>
     leaf_entries d' = [(a, mk_RowId 7 1), (b, mk_RowId 8 2)]"
proof -
  obtain a b where ab: "key_valid example_km a" "key_valid example_km b" "key_less example_km a b" by (rule example_keys)
  obtain d where d: "leaf_Insert (CompareKeys example_km) a (mk_RowId 7 1) example_leaf = Inr (d, 1)"
    "wf_leaf example_km d" "leaf_entries d = [(a, mk_RowId 7 1)]" "GetSize d = 1" by (rule example_leaf_one [OF ab(1)])
  have room: "32 + Suc (nat (GetSize d)) * (km_key_size example_km + 8) \<le> PAGE_SIZE"
    by (simp add: d(4) example_km_def KeyManager_new_def PAGE_SIZE_def)
  obtain d' where d': "leaf_Insert (CompareKeys example_km) b (mk_RowId 8 2) d = Inr (d', GetSize d')" "wf_leaf example_km d'"
    "leaf_entries d' = assoc_insert (key_less example_km) b (mk_RowId 8 2) (leaf_entries d)"
    using leaf_page_sorted_map [OF d(2) ab(2) room, of "mk_RowId 8 2"] by blast
  then have es: "leaf_entries d' = [(a, mk_RowId 7 1), (b, mk_RowId 8 2)]"
    using ab(3) by (simp add: d(3) assoc_insert_def assoc_find_def key_eq_def)
  then have "nat (GetSize d') = 2" using leaf_entries_length [of d'] by simp
  then have "GetSize d' = 2" by simp
  with ab(3) d(1) d'(1) es show ?thesis by auto
qed

text \<open>C30. Moving pairs between neighbouring leaves loses and reorders nothing: with the smaller leaf on the left, the
  concatenation of the two stays the same. \<^verbatim>\<open>MoveHalfTo\<close> leaves the first half and links the new leaf in between;
  \<^verbatim>\<open>MoveAllTo\<close> empties the page into its left neighbour and unlinks it; \<^verbatim>\<open>MoveFirstToEndOf\<close> and
  \<^verbatim>\<open>MoveLastToFrontOf\<close> move one pair and keep the links of both leaves. None writes behind a page when the pairs fit.\<close>

theorem leaf_moves_conserve:
  assumes d: "leaf_ok ks d" and r: "leaf_ok ks r" and fit: "32 + (nat (GetSize d) + nat (GetSize r)) * (ks + 8) \<le> PAGE_SIZE"
  shows "(GetSize r = 0 \<longrightarrow> (\<exists>d' r'. leaf_MoveHalfTo d r = Inr (d', r') \<and> leaf_ok ks d' \<and> leaf_ok ks r' \<and>
      leaf_entries d' @ leaf_entries r' = leaf_entries d \<and> GetSize d' = GetSize d div 2 \<and>
      leaf_GetNextPageId d' = bp_GetPageId r \<and> leaf_GetNextPageId r' = leaf_GetNextPageId d)) \<and>
    (\<exists>d' r'. leaf_MoveAllTo d r = Inr (d', r') \<and> leaf_ok ks d' \<and> leaf_ok ks r' \<and>
      leaf_entries r' = leaf_entries r @ leaf_entries d \<and> leaf_entries d' = [] \<and> leaf_GetNextPageId r' = leaf_GetNextPageId d) \<and>
    (0 < GetSize d \<longrightarrow> (\<exists>d' r'. leaf_MoveFirstToEndOf d r = Inr (d', r') \<and> leaf_ok ks d' \<and> leaf_ok ks r' \<and>
      leaf_entries r' @ leaf_entries d' = leaf_entries r @ leaf_entries d \<and> GetSize d' = GetSize d - 1 \<and>
      leaf_GetNextPageId d' = leaf_GetNextPageId d \<and> leaf_GetNextPageId r' = leaf_GetNextPageId r)) \<and>
    (0 < GetSize d \<longrightarrow> (\<exists>d' r'. leaf_MoveLastToFrontOf d r = Inr (d', r') \<and> leaf_ok ks d' \<and> leaf_ok ks r' \<and>
      leaf_entries d' @ leaf_entries r' = leaf_entries d @ leaf_entries r \<and> GetSize d' = GetSize d - 1 \<and>
      leaf_GetNextPageId d' = leaf_GetNextPageId d \<and> leaf_GetNextPageId r' = leaf_GetNextPageId r))"
proof (intro conjI impI)
  show "\<exists>d' r'. leaf_MoveHalfTo d r = Inr (d', r') \<and> leaf_ok ks d' \<and> leaf_ok ks r' \<and>
      leaf_entries d' @ leaf_entries r' = leaf_entries d \<and> GetSize d' = GetSize d div 2 \<and>
      leaf_GetNextPageId d' = bp_GetPageId r \<and> leaf_GetNextPageId r' = leaf_GetNextPageId d" if z: "GetSize r = 0"
    using leaf_MoveHalfTo_effect [OF d r z fit [unfolded PAGE_SIZE_def]] by blast
  show "\<exists>d' r'. leaf_MoveAllTo d r = Inr (d', r') \<and> leaf_ok ks d' \<and> leaf_ok ks r' \<and>
      leaf_entries r' = leaf_entries r @ leaf_entries d \<and> leaf_entries d' = [] \<and> leaf_GetNextPageId r' = leaf_GetNextPageId d"
    using leaf_MoveAllTo_effect [OF d r fit [unfolded PAGE_SIZE_def]] by blast
  show "\<exists>d' r'. leaf_MoveFirstToEndOf d r = Inr (d', r') \<and> leaf_ok ks d' \<and> leaf_ok ks r' \<and>
      leaf_entries r' @ leaf_entries d' = leaf_entries r @ leaf_entries d \<and> GetSize d' = GetSize d - 1 \<and>
      leaf_GetNextPageId d' = leaf_GetNextPageId d \<and> leaf_GetNextPageId r' = leaf_GetNextPageId r" if "0 < GetSize d"
    using leaf_MoveFirstToEndOf_effect [OF d r that leaf_room1 [OF that fit [unfolded PAGE_SIZE_def]]] leaf_header_eq(5) by metis
  show "\<exists>d' r'. leaf_MoveLastToFrontOf d r = Inr (d', r') \<and> leaf_ok ks d' \<and> leaf_ok ks r' \<and>
      leaf_entries d' @ leaf_entries r' = leaf_entries d @ leaf_entries r \<and> GetSize d' = GetSize d - 1 \<and>
      leaf_GetNextPageId d' = leaf_GetNextPageId d \<and> leaf_GetNextPageId r' = leaf_GetNextPageId r" if "0 < GetSize d"
    using leaf_MoveLastToFrontOf_effect [OF d r that leaf_room1 [OF that fit [unfolded PAGE_SIZE_def]]] leaf_header_eq(5) by metis
qed

theorem leaf_moves_conserve_witness:
  "\<exists>a d d' r'. leaf_Insert (CompareKeys example_km) a (mk_RowId 7 1) example_leaf = Inr (d, 1) \<and>
     leaf_MoveAllTo d example_leaf = Inr (d', r') \<and> leaf_entries r' = [(a, mk_RowId 7 1)] \<and> leaf_entries d' = []"
proof -
  obtain a b where ab: "key_valid example_km a" "key_valid example_km b" by (rule example_keys)
  obtain d where d: "leaf_Insert (CompareKeys example_km) a (mk_RowId 7 1) example_leaf = Inr (d, 1)"
    "wf_leaf example_km d" "leaf_entries d = [(a, mk_RowId 7 1)]" "GetSize d = 1" by (rule example_leaf_one [OF ab(1)])
  note E = example_leaf_ok
  have ok: "leaf_ok 16 d" "leaf_ok 16 example_leaf"
    using d(2) E(1) by (simp_all add: wf_leaf_def example_km_def KeyManager_new_def)
  have "32 + (nat (GetSize d) + nat (GetSize example_leaf)) * (16 + 8) \<le> PAGE_SIZE"
    by (simp add: d(4) E(2) PAGE_SIZE_def)
  from leaf_moves_conserve [OF ok this] d(1,3) E(3) show ?thesis by auto
qed

end
