(* ===== verification/Pool_Client.thy ===== *)
theory Pool_Client
  imports Buffer_Pool
begin

text \<open>
  What clients of the buffer pool do with it: fetch a page, change it through the pointer, and unpin it dirty.
  The law says that the pattern acts on the logical content of the one page and gives back the pool
  with the same frames pinned, whatever was evicted on the way.
\<close>

text \<open>Changing the page in a pinned frame.\<close>

definition mod_frame :: "frame_id_t \<Rightarrow> (byte list \<Rightarrow> byte list) \<Rightarrow> ('r, 'd) bpm \<Rightarrow> ('r, 'd) bpm" where
  "mod_frame f g b = write_frame f (g (page_data (frame b f))) b"

abbreviation fdata :: "('r, 'd) bpm \<Rightarrow> frame_id_t \<Rightarrow> byte list" where
  "fdata b f \<equiv> page_data (frame b f)"

definition with_page :: "'r replacer_ops \<Rightarrow> 'd disk_ops \<Rightarrow> page_id_t \<Rightarrow> string \<Rightarrow> (byte list \<Rightarrow> byte list) \<Rightarrow>
    ('r, 'd) bpm \<Rightarrow> ('r, 'd) bpm result" where
  "with_page rops dops p msg upd b =
     bind_result (FetchPage rops dops p b) (\<lambda>(b, page).
       case page of
         None \<Rightarrow> Inl (AssertionFailed msg)
       | Some f \<Rightarrow> Inr (fst (UnpinPage rops p True (write_frame f (upd (page_data (frame b f))) b))))"

text \<open>A page can be fetched when it is resident or some frame is not pinned.\<close>

definition fetchable :: "('r, 'd) bpm \<Rightarrow> page_id_t \<Rightarrow> bool" where
  "fetchable b p \<longleftrightarrow> page_table b p \<noteq> None \<or> (\<exists>f. in_pool b f \<and> f \<notin> pinned b)"

text \<open>What a pinned frame keeps while other pages are worked on: its page and its pins, and, unless its page is
  the one worked on, everything.\<close>

definition pins_kept :: "page_id_t \<Rightarrow> ('r, 'd) bpm \<Rightarrow> ('r, 'd) bpm \<Rightarrow> bool" where
  "pins_kept p b b' \<longleftrightarrow> pool_size b' = pool_size b \<and> pinned b' = pinned b \<and>
     (\<forall>g \<in> pinned b. page_id (frame b' g) = page_id (frame b g) \<and> pin_count (frame b' g) = pin_count (frame b g) \<and>
        (page_id (frame b g) \<noteq> p \<longrightarrow> frame b' g = frame b g))"

context buffer_pool
begin

lemma write_frame_frames:
  assumes "in_pool b f" "length (pages b) = pool_size b"
  shows "frame (write_frame f data b) f = (frame b f)\<lparr>page_data := data\<rparr>"
    "\<And>g. in_pool b g \<Longrightarrow> g \<noteq> f \<Longrightarrow> frame (write_frame f data b) g = frame b g"
    "page_table (write_frame f data b) = page_table b" "pool_size (write_frame f data b) = pool_size b"
    "bpm_disk (write_frame f data b) = bpm_disk b" "in_pool (write_frame f data b) = in_pool b"
  using assms in_pool_index [OF assms] in_pool_inj
  by (auto simp: write_frame_def upd_frame_def in_pool_def fun_eq_iff nth_list_update)

text \<open>Changing and unpinning a page that has just been fetched.\<close>

lemma change_unpin:
  assumes ok: "bp_ok b" and hit: "page_table b p = Some f" and pin: "0 < pin_count (frame b f)"
    and len: "length data = PAGE_SIZE"
  obtains b' where "UnpinPage rops p True (write_frame f data b) = (b', True)" "bp_ok b'" "view b' p = data"
    "\<And>q. ok_id q \<Longrightarrow> q \<noteq> p \<Longrightarrow> view b' q = view b q" "page_table b' = page_table b" "bpm_disk b' = bpm_disk b"
    "pool_size b' = pool_size b" "\<And>g. in_pool b g \<Longrightarrow> g \<noteq> f \<Longrightarrow> frame b' g = frame b g"
    "frame b' f = (frame b f)\<lparr>page_data := data, pin_count := pin_count (frame b f) - 1, is_dirty := True\<rparr>"
proof -
  note R = resident [OF conjunct1 [OF ok] hit] and I = inv_butD(1) [OF conjunct1 [OF ok]]
  note W = write_frame_law [OF ok hit pin len] and F = write_frame_frames [OF R(1) I, where data = data]
  have 1: "page_table (write_frame f data b) p = Some f" "0 < pin_count (frame (write_frame f data b) f)"
    "True \<or> is_dirty (frame (write_frame f data b) f) \<or>
      page_data (frame (write_frame f data b) f) = content (bpm_disk (write_frame f data b)) p"
    using hit pin F by simp_all
  show thesis
  proof (rule UnpinPage_law [OF W(1) 1])
    fix b' assume *: "UnpinPage rops p True (write_frame f data b) = (b', True)" "bp_ok b'"
      "page_table b' = page_table (write_frame f data b)"
      "frame b' f = (frame (write_frame f data b) f)\<lparr>pin_count := pin_count (frame (write_frame f data b) f) - 1,
         is_dirty := is_dirty (frame (write_frame f data b) f) \<or> True\<rparr>"
      "\<And>g. in_pool (write_frame f data b) g \<Longrightarrow> g \<noteq> f \<Longrightarrow> frame b' g = frame (write_frame f data b) g"
      "\<And>q. ok_id q \<Longrightarrow> view b' q = view (write_frame f data b) q" "bpm_disk b' = bpm_disk (write_frame f data b)"
      "pool_size b' = pool_size (write_frame f data b)"
    show thesis using that [of b'] * W(2,3) F R(4) by simp
  qed
qed

lemma with_page_law:
  assumes ok: "bp_ok b" and p: "ok_id p" "p \<in> allocated (bpm_disk b)" and av: "fetchable b p"
    and len: "length (upd (view b p)) = PAGE_SIZE"
  obtains b' where "with_page rops dops p msg upd b = Inr b'" "bp_ok b'" "view b' p = upd (view b p)"
    "\<And>q. ok_id q \<Longrightarrow> q \<noteq> p \<Longrightarrow> view b' q = view b q" "pins_kept p b b'"
    "allocated (bpm_disk b') = allocated (bpm_disk b)" "room (bpm_disk b') = room (bpm_disk b)"
proof (cases "page_table b p")
  case (Some f)
  obtain b1 where 1: "FetchPage rops dops p b = Inr (b1, Some f)" "bp_inv b1" "page_table b1 = page_table b"
    "bpm_disk b1 = bpm_disk b" "pool_size b1 = pool_size b" "in_pool b f"
    "frame b1 f = (frame b f)\<lparr>pin_count := pin_count (frame b f) + 1\<rparr>"
    "\<And>g. in_pool b g \<Longrightarrow> g \<noteq> f \<Longrightarrow> frame b1 g = frame b g" "\<And>q. ok_id q \<Longrightarrow> view b1 q = view b q"
    using FetchPage_hit [OF conjunct1 [OF ok] Some] by blast
  have ok1: "bp_ok b1" using 1(2,3,4) ok by simp
  have hit: "page_table b1 p = Some f" using Some 1(3) by simp
  note R = resident [OF conjunct1 [OF ok] Some]
  have pin: "0 < pin_count (frame b1 f)" using R(7) 1(7) by simp
  have d: "page_data (frame b1 f) = view b p" using 1(7) Some by (simp add: bpm_view_def)
  have pool: "in_pool b1 = in_pool b" using 1(5) by (simp add: in_pool_def fun_eq_iff)
  show thesis
  proof (rule change_unpin [OF ok1 hit pin len])
    fix b' assume *: "UnpinPage rops p True (write_frame f (upd (view b p)) b1) = (b', True)" "bp_ok b'" "view b' p = upd (view b p)"
      "\<And>q. ok_id q \<Longrightarrow> q \<noteq> p \<Longrightarrow> view b' q = view b1 q" "page_table b' = page_table b1" "bpm_disk b' = bpm_disk b1"
      "pool_size b' = pool_size b1" "\<And>g. in_pool b1 g \<Longrightarrow> g \<noteq> f \<Longrightarrow> frame b' g = frame b1 g"
      "frame b' f = (frame b1 f)\<lparr>page_data := upd (view b p), pin_count := pin_count (frame b1 f) - 1, is_dirty := True\<rparr>"
    have fr: "frame b' f = (frame b f)\<lparr>page_data := upd (view b p), is_dirty := True\<rparr>" using *(9) 1(7) by simp
    have oth: "frame b' g = frame b g" if "in_pool b g" "g \<noteq> f" for g using that *(8) 1(8) pool by simp
    have "pin_count (frame b' g) = pin_count (frame b g)" if "in_pool b g" for g
      using that fr oth by (cases "g = f") simp_all
    moreover have "in_pool b' = in_pool b" using *(7) 1(5) by (simp add: in_pool_def fun_eq_iff)
    ultimately have "pinned b' = pinned b" by (auto simp: pinned_def)
    moreover have "page_id (frame b' g) = page_id (frame b g) \<and> pin_count (frame b' g) = pin_count (frame b g) \<and>
        (page_id (frame b g) \<noteq> p \<longrightarrow> frame b' g = frame b g)" if "g \<in> pinned b" for g
      using that fr oth R(2) by (cases "g = f") (auto simp: pinned_def)
    ultimately have "pins_kept p b b'" using *(7) 1(5) by (simp add: pins_kept_def)
    then show thesis using that [of b'] * 1 d by (simp add: with_page_def)
  qed
next
  case None
  then obtain f0 where f0: "in_pool b f0" "f0 \<notin> pinned b" using av by (auto simp: fetchable_def)
  show thesis
  proof (rule FetchPage_miss [OF conjunct1 [OF ok] None p(1)])
    fix b1 f assume 1: "FetchPage rops dops p b = Inr (b1, Some f)" "bp_inv b1" "in_pool b f" "f \<notin> pinned b"
      "pool_size b1 = pool_size b" "dom (page_table b1) \<subseteq> insert p (dom (page_table b))"
      "page_table b1 p = Some f" "pin_count (frame b1 f) = 1" "page_data (frame b1 f) = view b p"
      "\<And>g. in_pool b g \<Longrightarrow> g \<noteq> f \<Longrightarrow> frame b1 g = frame b g" "\<And>q. ok_id q \<Longrightarrow> view b1 q = view b q"
      "allocated (bpm_disk b1) = allocated (bpm_disk b)" "room (bpm_disk b1) = room (bpm_disk b)"
    have ok1: "bp_ok b1" using 1(2,6,12) ok p(2) by auto
    have pin: "0 < pin_count (frame b1 f)" using 1(8) by simp
    have pool: "in_pool b1 = in_pool b" using 1(5) by (simp add: in_pool_def fun_eq_iff)
    show thesis
    proof (rule change_unpin [OF ok1 1(7) pin len])
      fix b' assume *: "UnpinPage rops p True (write_frame f (upd (view b p)) b1) = (b', True)" "bp_ok b'" "view b' p = upd (view b p)"
        "\<And>q. ok_id q \<Longrightarrow> q \<noteq> p \<Longrightarrow> view b' q = view b1 q" "page_table b' = page_table b1" "bpm_disk b' = bpm_disk b1"
        "pool_size b' = pool_size b1" "\<And>g. in_pool b1 g \<Longrightarrow> g \<noteq> f \<Longrightarrow> frame b' g = frame b1 g"
        "frame b' f = (frame b1 f)\<lparr>page_data := upd (view b p), pin_count := pin_count (frame b1 f) - 1, is_dirty := True\<rparr>"
      have oth: "frame b' g = frame b g" if "in_pool b g" "g \<noteq> f" for g using that *(8) 1(10) pool by simp
      have z: "pin_count (frame b' f) = 0" using *(9) 1(8) by simp
      have "in_pool b' = in_pool b" using *(7) 1(5) by (simp add: in_pool_def fun_eq_iff)
      moreover have "(0 < pin_count (frame b' g)) = (0 < pin_count (frame b g))" if "in_pool b g" for g
        using that oth z 1(3,4) by (cases "g = f") (auto simp: pinned_def)
      ultimately have "pinned b' = pinned b" by (auto simp: pinned_def)
      moreover have "frame b' g = frame b g" if "g \<in> pinned b" for g
        using that oth 1(4) by (auto simp: pinned_def)
      ultimately have "pins_kept p b b'" using *(7) 1(5) by (simp add: pins_kept_def)
      then show thesis using that [of b'] * 1 by (simp add: with_page_def)
    qed
  qed (use f0 in auto)
qed

section \<open>Operations of a client that holds its pins\<close>

text \<open>The pool after some work of a client: every logical page has been changed by its function, and the
  client holds the same frames, with the same pages and pins.\<close>

definition acts :: "(page_id_t \<Rightarrow> byte list \<Rightarrow> byte list) \<Rightarrow> ('r, 'd) bpm \<Rightarrow> ('r, 'd) bpm \<Rightarrow> bool" where
  "acts F b b' \<longleftrightarrow> bp_ok b' \<and> (\<forall>q. ok_id q \<longrightarrow> view b' q = F q (view b q)) \<and>
     pool_size b' = pool_size b \<and> pinned b' = pinned b \<and>
     (\<forall>g \<in> pinned b. page_id (frame b' g) = page_id (frame b g) \<and> pin_count (frame b' g) = pin_count (frame b g)) \<and>
     allocated (bpm_disk b') = allocated (bpm_disk b) \<and> room (bpm_disk b') = room (bpm_disk b)"

lemma acts_trans: "acts F b b1 \<Longrightarrow> acts G b1 b2 \<Longrightarrow> acts (\<lambda>q d. G q (F q d)) b b2"
  by (auto simp: acts_def)

lemma actsD:
  assumes "acts F b b'"
  shows "bp_ok b'" "\<And>q. ok_id q \<Longrightarrow> view b' q = F q (view b q)" "pinned b' = pinned b"
    "allocated (bpm_disk b') = allocated (bpm_disk b)" "room (bpm_disk b') = room (bpm_disk b)"
  using assms unfolding acts_def by blast+

lemma acts_refl: "bp_ok b \<Longrightarrow> acts (\<lambda>q d. d) b b"
  by (simp add: acts_def)

lemma acts_cong: "acts F b b' \<Longrightarrow> (\<And>q. ok_id q \<Longrightarrow> F q (view b q) = G q (view b q)) \<Longrightarrow> acts G b b'"
  by (auto simp: acts_def)

lemma view_length: "bp_ok b \<Longrightarrow> length (view b p) = PAGE_SIZE"
  using resident(5) [of b p] length_content [of "bpm_disk b" p] inv_butD(3) [of "{}" b]
  by (auto simp: bpm_view_def split: option.splits)

text \<open>A pinned frame holds the logical content of its page.\<close>

lemma pinned_page:
  assumes "bp_ok b" "f \<in> pinned b"
  shows "page_table b (page_id (frame b f)) = Some f" "page_data (frame b f) = view b (page_id (frame b f))"
    "ok_id (page_id (frame b f))" "0 < pin_count (frame b f)" "page_id (frame b f) \<in> allocated (bpm_disk b)"
proof -
  note inv = conjunct1 [OF assms(1)] and I = inv_butD [OF conjunct1 [OF assms(1)]]
  have f: "in_pool b f" and p: "0 < pin_count (frame b f)" using assms(2) by (simp_all add: pinned_def)
  have "page_id (frame b f) \<noteq> INVALID_PAGE_ID" using I(11) [OF f] p by auto
  then show t: "page_table b (page_id (frame b f)) = Some f" using I(7) f by simp
  then show "page_data (frame b f) = view b (page_id (frame b f))" by (simp add: bpm_view_def)
  show "ok_id (page_id (frame b f))" by (rule resident(4) [OF inv t])
  show "page_id (frame b f) \<in> allocated (bpm_disk b)" using assms(1) t by auto
qed (use assms(2) in \<open>simp add: pinned_def\<close>)

lemma acts_frame:
  assumes "bp_ok b" "acts F b b'" "f \<in> pinned b"
  shows "f \<in> pinned b'" "page_id (frame b' f) = page_id (frame b f)"
    "page_data (frame b' f) = F (page_id (frame b f)) (page_data (frame b f))"
  using assms(2) pinned_page [OF assms(1,3)] pinned_page(2) [of b' f] assms(3) by (auto simp: acts_def)

text \<open>Two pinned frames hold different pages.\<close>

lemma pinned_inj:
  "bp_ok b \<Longrightarrow> f \<in> pinned b \<Longrightarrow> g \<in> pinned b \<Longrightarrow> page_id (frame b f) = page_id (frame b g) \<longleftrightarrow> f = g"
  by (metis pinned_page(1) option.inject)

lemma acts_write_frame:
  assumes ok: "bp_ok b" and f: "f \<in> pinned b" and len: "length (h (page_data (frame b f))) = PAGE_SIZE"
  shows "acts (\<lambda>q d. if q = page_id (frame b f) then h d else d) b (write_frame f (h (page_data (frame b f))) b)"
proof -
  note P = pinned_page [OF ok f] and I = inv_butD(1) [OF conjunct1 [OF ok]]
  have fp: "in_pool b f" using f by (simp add: pinned_def)
  note W = write_frame_law [OF ok P(1) P(4) len] and F = write_frame_frames [OF fp I, where data = "h (page_data (frame b f))"]
  let ?b = "write_frame f (h (page_data (frame b f))) b"
  have fr: "pin_count (frame ?b g) = pin_count (frame b g) \<and> page_id (frame ?b g) = page_id (frame b g)" if "in_pool b g" for g
    using that F(1,2) by (cases "g = f") simp_all
  then have "pinned ?b = pinned b" using F(6) by (auto simp: pinned_def)
  moreover have "view ?b q = (if q = page_id (frame b f) then h (view b q) else view b q)" if "ok_id q" for q
    using W(2,3) that P(2) by simp
  ultimately show ?thesis using W(1) F fr by (simp add: acts_def pinned_def)
qed

definition spare :: "('r, 'd) bpm \<Rightarrow> bool" where
  "spare b \<longleftrightarrow> (\<exists>f. in_pool b f \<and> f \<notin> pinned b)"

lemma acts_spare: "acts F b b' \<Longrightarrow> spare b' = spare b"
  by (simp add: spare_def acts_def in_pool_def)

lemma acts_with_page:
  assumes ok: "bp_ok b" and p: "ok_id p" "p \<in> allocated (bpm_disk b)" and sp: "spare b"
    and len: "\<And>d. length d = PAGE_SIZE \<Longrightarrow> length (h d) = PAGE_SIZE"
  obtains b' where "with_page rops dops p msg h b = Inr b'" "acts (\<lambda>q d. if q = p then h d else d) b b'"
proof -
  have av: "fetchable b p" using sp by (auto simp: fetchable_def spare_def)
  have l: "length (h (view b p)) = PAGE_SIZE" by (rule len [OF view_length [OF ok]])
  show thesis
  proof (rule with_page_law [where upd = h, OF ok p av l])
    fix b' assume "with_page rops dops p msg h b = Inr b'" "bp_ok b'" "view b' p = h (view b p)"
      "\<And>q. ok_id q \<Longrightarrow> q \<noteq> p \<Longrightarrow> view b' q = view b q" "pins_kept p b b'"
      "allocated (bpm_disk b') = allocated (bpm_disk b)" "room (bpm_disk b') = room (bpm_disk b)"
    then show thesis using that [of b'] p(1) by (auto simp: acts_def pins_kept_def)
  qed
qed

end

end
