(* ===== verification/BPlus_Internal.thy ===== *)
theory BPlus_Internal
  imports BPlus_Page Ordered_Assoc Pool_Client
begin

text \<open>
  Internal pages of the B+ tree (\<^verbatim>\<open>src/include/page/b_plus_tree_internal_page.h\<close>,
  \<^verbatim>\<open>src/page/b_plus_tree_internal_page.cpp\<close>): the header and from byte 28 on the pairs of key and child page; the
  first key is not used. Operations inside one page act on its bytes. Operations that move children between
  pages also change the parent link of every moved child, and therefore act on the buffer pool: the pages
  \<^verbatim>\<open>this\<close> and \<^verbatim>\<open>recipient\<close> are the frames the caller holds pinned.
\<close>

definition INTERNAL_PAGE_HEADER_SIZE :: nat where "INTERNAL_PAGE_HEADER_SIZE = 28"

definition internal_pair_size :: "bpage \<Rightarrow> nat" where "internal_pair_size d = nat (GetKeySize d) + 4"

definition internal_Init :: "page_id_t \<Rightarrow> page_id_t \<Rightarrow> int \<Rightarrow> int \<Rightarrow> bpage \<Rightarrow> bpage" where
  "internal_Init pid parent_id key_size max_size d =
     (let d = SetPageType INTERNAL_PAGE d;
          d = bp_SetPageId pid d;
          d = SetParentPageId parent_id d;
          d = SetKeySize key_size d;
          d = SetMaxSize max_size d
      in SetSize 0 d)"

definition internal_PairPtrAt :: "bpage \<Rightarrow> nat \<Rightarrow> nat" where "internal_PairPtrAt d index = 28 + index * internal_pair_size d"

definition internal_KeyAt :: "bpage \<Rightarrow> nat \<Rightarrow> byte list" where
  "internal_KeyAt d index = rd (nat (GetKeySize d)) d (internal_PairPtrAt d index)"

definition internal_SetKeyAt :: "nat \<Rightarrow> byte list \<Rightarrow> bpage \<Rightarrow> bpage" where
  "internal_SetKeyAt index key d = wr d (internal_PairPtrAt d index) (take (nat (GetKeySize d)) key)"

definition internal_ValueAt :: "bpage \<Rightarrow> nat \<Rightarrow> page_id_t" where
  "internal_ValueAt d index = rd32 d (internal_PairPtrAt d index + nat (GetKeySize d))"

definition internal_SetValueAt :: "nat \<Rightarrow> page_id_t \<Rightarrow> bpage \<Rightarrow> bpage" where
  "internal_SetValueAt index value d = wr32 d (internal_PairPtrAt d index + nat (GetKeySize d)) value"

definition ValueIndex :: "page_id_t \<Rightarrow> bpage \<Rightarrow> nat option" where
  "ValueIndex value d = find (\<lambda>i. internal_ValueAt d i = value) [0..<nat (GetSize d)]"

function Lookup_loop :: "(byte list \<Rightarrow> byte list \<Rightarrow> int result) \<Rightarrow> byte list \<Rightarrow> bpage \<Rightarrow> nat \<Rightarrow> nat \<Rightarrow> nat \<Rightarrow> nat result" where
  "Lookup_loop cmp key d left right child_index =
     (if 1 \<le> left \<and> left \<le> right then
        let mid = left + (right - left) div 2
        in bind_result (cmp (internal_KeyAt d mid) key) (\<lambda>c.
           if c \<le> 0 then Lookup_loop cmp key d (mid + 1) right mid
           else Lookup_loop cmp key d left (mid - 1) child_index)
      else Inr child_index)"
  by pat_completeness auto
termination by (relation "measure (\<lambda>(cmp, key, d, left, right, child_index). Suc right - left)") auto

declare Lookup_loop.simps [simp del]

definition internal_Lookup :: "(byte list \<Rightarrow> byte list \<Rightarrow> int result) \<Rightarrow> byte list \<Rightarrow> bpage \<Rightarrow> page_id_t result" where
  "internal_Lookup cmp key d =
     (if GetSize d = 0 then Inr INVALID_PAGE_ID
      else bind_result (Lookup_loop cmp key d 1 (nat (GetSize d - 1)) 0) (\<lambda>child_index. Inr (internal_ValueAt d child_index)))"

definition PopulateNewRoot :: "page_id_t \<Rightarrow> byte list \<Rightarrow> page_id_t \<Rightarrow> bpage \<Rightarrow> bpage" where
  "PopulateNewRoot old_value new_key new_value d =
     SetSize 2 (internal_SetValueAt 1 new_value (internal_SetKeyAt 1 new_key (internal_SetValueAt 0 old_value d)))"

definition InsertNodeAfter :: "page_id_t \<Rightarrow> byte list \<Rightarrow> page_id_t \<Rightarrow> bpage \<Rightarrow> (bpage \<times> int) result" where
  "InsertNodeAfter old_value new_key new_value d =
     (case ValueIndex old_value d of
        None \<Rightarrow> Inr (d, GetSize d)
      | Some old_index \<Rightarrow>
          let insert_index = old_index + 1
          in if length d < internal_PairPtrAt d (Suc (nat (GetSize d))) then Inl (OutOfBounds ''data_'')
             else let d = (if int insert_index < GetSize d
                           then memmove (internal_PairPtrAt d (insert_index + 1)) (internal_PairPtrAt d insert_index)
                                  ((nat (GetSize d) - insert_index) * internal_pair_size d) d
                           else d);
                      d = internal_SetKeyAt insert_index new_key d;
                      d = internal_SetValueAt insert_index new_value d;
                      d = IncreaseSize 1 d
                  in Inr (d, GetSize d))"

definition internal_Remove :: "nat \<Rightarrow> bpage \<Rightarrow> bpage result" where
  "internal_Remove index d =
     ASSERT (int index < GetSize d) ''Invalid remove index.''
       (let d = (if int index + 1 < GetSize d
                 then memmove (internal_PairPtrAt d index) (internal_PairPtrAt d (index + 1))
                        ((nat (GetSize d) - index - 1) * internal_pair_size d) d
                 else d)
        in Inr (IncreaseSize (- 1) d))"

definition RemoveAndReturnOnlyChild :: "bpage \<Rightarrow> (bpage \<times> page_id_t) result" where
  "RemoveAndReturnOnlyChild d =
     ASSERT (GetSize d = 1) ''Internal root should have exactly one child.''
       (let child = internal_ValueAt d 0 in Inr (SetSize 0 d, child))"

section \<open>Moving children: operations on the buffer pool\<close>

text \<open>Fetch a child, set its parent, unpin it dirty.\<close>

definition adopt :: "'r replacer_ops \<Rightarrow> 'd disk_ops \<Rightarrow> page_id_t \<Rightarrow> page_id_t \<Rightarrow> ('r, 'd) bpm \<Rightarrow> ('r, 'd) bpm result" where
  "adopt rops dops child parent b = with_page rops dops child ''Failed to fetch child page.'' (SetParentPageId parent) b"

primrec adopt_loop :: "'r replacer_ops \<Rightarrow> 'd disk_ops \<Rightarrow> frame_id_t \<Rightarrow> nat list \<Rightarrow> ('r, 'd) bpm \<Rightarrow> ('r, 'd) bpm result" where
  "adopt_loop rops dops this [] b = Inr b"
| "adopt_loop rops dops this (i # is) b =
     (let child_page_id = internal_ValueAt (fdata b this) (nat (GetSize (fdata b this)) + i)
      in bind_result (adopt rops dops child_page_id (bp_GetPageId (fdata b this)) b) (adopt_loop rops dops this is))"

text \<open>\<open>src\<close> are the bytes at the source pointer, which lies in another page.\<close>

definition internal_CopyNFrom :: "'r replacer_ops \<Rightarrow> 'd disk_ops \<Rightarrow> frame_id_t \<Rightarrow> byte list \<Rightarrow> int \<Rightarrow> ('r, 'd) bpm \<Rightarrow>
    ('r, 'd) bpm result" where
  "internal_CopyNFrom rops dops this src sz b =
     (if sz \<le> 0 then Inr b
      else let d = fdata b this
           in if length d < internal_PairPtrAt d (nat (GetSize d) + nat sz) then Inl (OutOfBounds ''data_'')
              else let b = mod_frame this (\<lambda>d. wr d (internal_PairPtrAt d (nat (GetSize d))) (take (nat sz * internal_pair_size d) src)) b
                   in bind_result (adopt_loop rops dops this [0..<nat sz] b) (\<lambda>b.
                      Inr (mod_frame this (IncreaseSize sz) b)))"

definition internal_MoveHalfTo :: "'r replacer_ops \<Rightarrow> 'd disk_ops \<Rightarrow> frame_id_t \<Rightarrow> frame_id_t \<Rightarrow> ('r, 'd) bpm \<Rightarrow> ('r, 'd) bpm result" where
  "internal_MoveHalfTo rops dops this recipient b =
     (let d = fdata b this; start = nat (GetSize d) div 2; move_count = GetSize d - int start
      in bind_result (internal_CopyNFrom rops dops recipient (drop (internal_PairPtrAt d start) d) move_count b) (\<lambda>b.
         Inr (mod_frame this (SetSize (int start)) b)))"

definition internal_MoveAllTo :: "'r replacer_ops \<Rightarrow> 'd disk_ops \<Rightarrow> frame_id_t \<Rightarrow> frame_id_t \<Rightarrow> byte list \<Rightarrow> ('r, 'd) bpm \<Rightarrow>
    ('r, 'd) bpm result" where
  "internal_MoveAllTo rops dops this recipient middle_key b =
     (if GetSize (fdata b this) = 0 then Inr b
      else let b = mod_frame this (internal_SetKeyAt 0 middle_key) b; d = fdata b this
           in bind_result (internal_CopyNFrom rops dops recipient (drop (internal_PairPtrAt d 0) d) (GetSize d) b) (\<lambda>b.
              Inr (mod_frame this (SetSize 0) b)))"

definition internal_CopyLastFrom :: "'r replacer_ops \<Rightarrow> 'd disk_ops \<Rightarrow> frame_id_t \<Rightarrow> byte list \<Rightarrow> page_id_t \<Rightarrow> ('r, 'd) bpm \<Rightarrow>
    ('r, 'd) bpm result" where
  "internal_CopyLastFrom rops dops this key value b =
     (let d = fdata b this
      in if length d < internal_PairPtrAt d (Suc (nat (GetSize d))) then Inl (OutOfBounds ''data_'')
         else let b = mod_frame this (\<lambda>d. internal_SetKeyAt (nat (GetSize d)) key d) b;
                  b = mod_frame this (\<lambda>d. internal_SetValueAt (nat (GetSize d)) value d) b;
                  b = mod_frame this (IncreaseSize 1) b
              in adopt rops dops value (bp_GetPageId (fdata b this)) b)"

definition internal_MoveFirstToEndOf :: "'r replacer_ops \<Rightarrow> 'd disk_ops \<Rightarrow> frame_id_t \<Rightarrow> frame_id_t \<Rightarrow> byte list \<Rightarrow> ('r, 'd) bpm \<Rightarrow>
    ('r, 'd) bpm result" where
  "internal_MoveFirstToEndOf rops dops this recipient middle_key b =
     (if GetSize (fdata b this) = 0 then Inr b
      else bind_result (internal_CopyLastFrom rops dops recipient middle_key (internal_ValueAt (fdata b this) 0) b) (\<lambda>b.
           bind_result (internal_Remove 0 (fdata b this)) (\<lambda>d. Inr (write_frame this d b))))"

definition internal_CopyFirstFrom :: "'r replacer_ops \<Rightarrow> 'd disk_ops \<Rightarrow> frame_id_t \<Rightarrow> page_id_t \<Rightarrow> ('r, 'd) bpm \<Rightarrow> ('r, 'd) bpm result" where
  "internal_CopyFirstFrom rops dops this value b =
     (let d = fdata b this
      in if length d < internal_PairPtrAt d (Suc (nat (GetSize d))) then Inl (OutOfBounds ''data_'')
         else let b = mod_frame this (\<lambda>d. if 0 < GetSize d
                        then memmove (internal_PairPtrAt d 1) (internal_PairPtrAt d 0) (nat (GetSize d) * internal_pair_size d) d
                        else d) b;
                  b = mod_frame this (internal_SetValueAt 0 value) b;
                  b = mod_frame this (IncreaseSize 1) b
              in adopt rops dops value (bp_GetPageId (fdata b this)) b)"

definition internal_MoveLastToFrontOf :: "'r replacer_ops \<Rightarrow> 'd disk_ops \<Rightarrow> frame_id_t \<Rightarrow> frame_id_t \<Rightarrow> byte list \<Rightarrow> ('r, 'd) bpm \<Rightarrow>
    ('r, 'd) bpm result" where
  "internal_MoveLastToFrontOf rops dops this recipient middle_key b =
     (if GetSize (fdata b this) = 0 then Inr b
      else bind_result (internal_CopyFirstFrom rops dops recipient (internal_ValueAt (fdata b this) (nat (GetSize (fdata b this)) - 1)) b) (\<lambda>b.
           let b = mod_frame recipient (internal_SetKeyAt 1 middle_key) b
           in Inr (mod_frame this (IncreaseSize (- 1)) b)))"

section \<open>The pairs of an internal page\<close>

definition internal_entries :: "bpage \<Rightarrow> (byte list \<times> page_id_t) list" where
  "internal_entries d = map (\<lambda>i. (internal_KeyAt d i, internal_ValueAt d i)) [0..<nat (GetSize d)]"

definition internal_ok :: "nat \<Rightarrow> bpage \<Rightarrow> bool" where
  "internal_ok ks d \<longleftrightarrow> length d = PAGE_SIZE \<and> GetKeySize d = int ks \<and> 0 \<le> GetSize d \<and>
     28 + nat (GetSize d) * (ks + 4) \<le> PAGE_SIZE"

definition dec_internal :: "nat \<Rightarrow> byte list \<Rightarrow> byte list \<times> page_id_t" where
  "dec_internal ks x = (take ks x, rd32 x ks)"

lemma internal_page: "internal_ok ks d = page_ok 28 4 ks d"
  by (simp add: internal_ok_def page_ok_def)

lemma dec_internal_enc: "length key = ks \<Longrightarrow> dec_internal ks (key @ le_enc 4 v) = (key, v)"
  by (simp add: dec_internal_def rd32_def rd_def)

lemma internal_okD:
  assumes "internal_ok ks d"
  shows "length d = 4096" "nat (GetKeySize d) = ks" "internal_pair_size d = ks + 4" "0 \<le> GetSize d"
    "28 + nat (GetSize d) * (ks + 4) \<le> 4096" "int (nat (GetSize d)) = GetSize d"
  using page_okD [OF assms [unfolded internal_page]] by (simp_all only: internal_pair_size_def)

lemma internal_entries_length: "length (internal_entries d) = nat (GetSize d)"
  by (simp add: internal_entries_def)

lemma internal_item_raw:
  assumes "nat (GetKeySize d) = ks"
  shows "(internal_KeyAt d i, internal_ValueAt d i) = dec_internal ks (pair_raw 28 (ks + 4) d i)"
proof -
  let ?o = "28 + i * (ks + 4)"
  have "rd 4 (rd (ks + 4) d ?o) ks = rd 4 d (?o + ks)" by (rule rd_rd) simp
  moreover have "take ks (rd (ks + 4) d ?o) = rd ks d ?o" by (simp add: rd_def min_def)
  ultimately show ?thesis
    by (simp add: internal_KeyAt_def internal_ValueAt_def internal_PairPtrAt_def internal_pair_size_def assms
        dec_internal_def pair_raw_def rd32_def)
qed

lemma internal_entries_pairs:
  assumes "internal_ok ks d"
  shows "internal_entries d = map (dec_internal ks) (page_pairs 28 4 ks d)"
  using internal_item_raw [OF internal_okD(2) [OF assms]]
  by (simp add: internal_entries_def page_pairs_def pairs_def)

lemma internal_put:
  assumes "nat (GetKeySize d) = ks" "length key = ks" "28 + Suc i * (ks + 4) \<le> length d"
  shows "internal_SetValueAt i v (internal_SetKeyAt i key d) = wr d (28 + i * (ks + 4)) (key @ le_enc 4 v)"
proof -
  let ?o = "28 + i * (ks + 4)"
  have o: "?o + ks \<le> length d" using assms(3) by simp
  have s1: "internal_SetKeyAt i key d = wr d ?o key"
    using assms(2) by (simp add: internal_SetKeyAt_def internal_PairPtrAt_def internal_pair_size_def assms(1))
  have "GetKeySize (wr d ?o key) = GetKeySize d"
    using o assms(2) by (simp add: GetKeySize_def layout_simps)
  then have "internal_SetValueAt i v (wr d ?o key) = wr (wr d ?o key) (?o + ks) (le_enc 4 v)"
    by (simp add: internal_SetValueAt_def internal_PairPtrAt_def internal_pair_size_def assms(1) wr32_def)
  also have "\<dots> = wr d ?o (key @ le_enc 4 v)" using o assms(2) by (intro wr_wr_adjacent) simp_all
  finally show ?thesis by (simp add: s1)
qed

lemma internal_insert_at:
  fixes v :: page_id_t
  assumes ok: "internal_ok ks d" and i: "i \<le> nat (GetSize d)" and room: "28 + Suc (nat (GetSize d)) * (ks + 4) \<le> 4096"
    and key: "length key = ks"
  defines "g \<equiv> memmove (internal_PairPtrAt d (i + 1)) (internal_PairPtrAt d i) ((nat (GetSize d) - i) * internal_pair_size d) d"
  defines "d' \<equiv> IncreaseSize 1 (internal_SetValueAt i v (internal_SetKeyAt i key g))"
  shows "internal_ok ks d'" "internal_entries d' = take i (internal_entries d) @ (key, v) # drop i (internal_entries d)"
    "page_header 28 d' = page_header 28 d" "GetSize d' = GetSize d + 1"
proof -
  note K = internal_okD [OF ok]
  have fit: "28 + Suc (nat (GetSize d)) * (ks + 4) \<le> length d" using room K(1) by simp
  note G = pairs_open_gap [OF i fit]
  have g: "g = memmove (28 + Suc i * (ks + 4)) (28 + i * (ks + 4)) ((nat (GetSize d) - i) * (ks + 4)) d"
    by (simp add: g_def internal_PairPtrAt_def K)
  have gk: "nat (GetKeySize g) = ks" using G(4) [of 4 4] K(2) by (simp add: g GetKeySize_def rd32_def)
  have gl: "28 + Suc i * (ks + 4) \<le> length g"
    unfolding g G(1) by (rule order_trans [OF _ fit], intro add_left_mono mult_le_mono1) (simp add: i)
  have d': "d' = IncreaseSize 1 (wr g (28 + i * (ks + 4)) (key @ le_enc 4 v))"
    unfolding d'_def internal_put [OF gk key gl] ..
  have "length (key @ le_enc 4 v) = ks + 4" using key by simp
  note P = page_insert_raw [OF ok [unfolded internal_page] _ _ i room this, folded g d']
  show ok': "internal_ok ks d'" using P(1) by (simp add: internal_page)
  show "internal_entries d' = take i (internal_entries d) @ (key, v) # drop i (internal_entries d)"
    using P(4) by (simp add: internal_entries_pairs [OF ok] internal_entries_pairs [OF ok'] take_map drop_map dec_internal_enc [OF key])
  show "page_header 28 d' = page_header 28 d" "GetSize d' = GetSize d + 1" using P(2,3) by simp_all
qed

lemma internal_remove_at:
  assumes ok: "internal_ok ks d" and i: "i < nat (GetSize d)"
  obtains d' where "internal_Remove i d = Inr d'" "internal_ok ks d'"
    "internal_entries d' = take i (internal_entries d) @ drop (Suc i) (internal_entries d)"
    "page_header 28 d' = page_header 28 d" "GetSize d' = GetSize d - 1"
proof -
  note K = internal_okD [OF ok]
  define d' where "d' = IncreaseSize (- 1) (memmove (28 + i * (ks + 4)) (28 + Suc i * (ks + 4)) ((nat (GetSize d) - i - 1) * (ks + 4)) d)"
  note P = page_remove_raw [OF ok [unfolded internal_page] _ _ i, folded d'_def]
  have zero: "memmove (28 + i * (ks + 4)) (28 + Suc i * (ks + 4)) ((nat (GetSize d) - i - 1) * (ks + 4)) d = d"
    if "\<not> int i + 1 < GetSize d"
  proof -
    have n: "nat (GetSize d) = Suc i" using that i by simp
    have "28 + i * (ks + 4) \<le> length d" using K(1,5) by (simp add: n)
    then show ?thesis by (simp add: n)
  qed
  have "int i < GetSize d" using i by simp
  then have "internal_Remove i d = Inr d'"
    using zero by (cases "int i + 1 < GetSize d") (simp_all add: internal_Remove_def d'_def internal_PairPtrAt_def K)
  moreover have ok': "internal_ok ks d'" using P(1) by (simp add: internal_page)
  moreover have "internal_entries d' = take i (internal_entries d) @ drop (Suc i) (internal_entries d)"
    using P(4) by (simp add: internal_entries_pairs [OF ok] internal_entries_pairs [OF ok'] take_map drop_map)
  ultimately show thesis using that P(2,3) by simp
qed

section \<open>Searching an internal page\<close>

locale internal_search = key_compare cmp lt valid
  for cmp :: "byte list \<Rightarrow> byte list \<Rightarrow> int result" and lt :: "byte list \<Rightarrow> byte list \<Rightarrow> bool" and valid :: "byte list \<Rightarrow> bool"
begin

lemma Lookup_loop_rank:
  assumes "key_sorted lt (tl (internal_entries d))" "valid_keys valid (tl (internal_entries d))" "valid key"
  defines "m \<equiv> length (takeWhile (\<lambda>e. \<not> lt key (fst e)) (tl (internal_entries d)))"
  shows "1 \<le> left \<Longrightarrow> left \<le> Suc m \<Longrightarrow> m \<le> right \<Longrightarrow> right < nat (GetSize d) \<Longrightarrow>
    Lookup_loop cmp key d left right (left - 1) = Inr m"
proof (induction "Suc right - left" arbitrary: left right rule: less_induct)
  case less
  let ?es = "internal_entries d" let ?mid = "left + (right - left) div 2"
  note R = upto_split [OF assms(1-3), folded m_def]
  show ?case
  proof (cases "left \<le> right")
    case True
    then have mid: "left \<le> ?mid" "?mid \<le> right" by auto
    have j: "?mid - 1 < length (tl ?es)" "tl ?es ! (?mid - 1) = (internal_KeyAt d ?mid, internal_ValueAt d ?mid)"
      using mid less.prems(1,4) by (auto simp: nth_tl internal_entries_def)
    obtain c where c: "cmp (internal_KeyAt d ?mid) key = Inr c" "c \<le> 0 \<longleftrightarrow> \<not> lt key (internal_KeyAt d ?mid)"
      using cmp_sign [OF valid_nth [OF assms(2) j(1)] assms(3)] j(2) by auto
    note step = Lookup_loop.simps [of cmp key d left right "left - 1"]
    show ?thesis
    proof (cases "c \<le> 0")
      case True
      then have "\<not> m \<le> ?mid - 1" using R(3) [OF _ j(1)] j(2) c(2) by auto
      then have "?mid \<le> m" by linarith
      then show ?thesis
        using less.hyps [of right "?mid + 1"] less.prems mid c(1) True \<open>left \<le> right\<close> step by (simp add: Let_def)
    next
      case False
      then have "\<not> ?mid - 1 < m" using R(2) [of "?mid - 1"] j(2) c(2) by auto
      then have "m < ?mid" using mid(1) less.prems(1) by linarith
      then show ?thesis
        using less.hyps [of "?mid - 1" left] less.prems mid c(1) False \<open>left \<le> right\<close> step by (simp add: Let_def)
    qed
  next
    case False
    then show ?thesis using less.prems Lookup_loop.simps [of cmp key d left right "left - 1"] by simp
  qed
qed

lemma internal_Lookup_rank:
  assumes "key_sorted lt (tl (internal_entries d))" "valid_keys valid (tl (internal_entries d))" "valid key" "0 < GetSize d"
  shows "internal_Lookup cmp key d =
    Inr (snd (internal_entries d ! length (takeWhile (\<lambda>e. \<not> lt key (fst e)) (tl (internal_entries d)))))"
proof -
  let ?m = "length (takeWhile (\<lambda>e. \<not> lt key (fst e)) (tl (internal_entries d)))"
  have m: "?m < nat (GetSize d)"
    using upto_split(1) [OF assms(1-3)] assms(4) by (simp add: internal_entries_length)
  have "Lookup_loop cmp key d 1 (nat (GetSize d - 1)) (1 - 1) = Inr ?m"
    using m assms(4) by (intro Lookup_loop_rank [OF assms(1-3)]) simp_all
  then show ?thesis using assms(4) m by (simp add: internal_Lookup_def internal_entries_def)
qed

end

interpretation isr: internal_search "CompareKeys km" "key_less km" "key_valid km" for km
  by (rule internal_search.intro) (rule km.key_compare_axioms)

section \<open>Changing one internal page\<close>

text \<open>Writing a key back where it stands changes nothing.\<close>

lemma internal_SetKeyAt_same:
  assumes "28 + Suc i * (ks + 4) \<le> length d" "nat (GetKeySize d) = ks"
  shows "length (internal_KeyAt d i) = ks" "internal_SetKeyAt i (internal_KeyAt d i) d = d"
proof -
  let ?o = "28 + i * (ks + 4)"
  have k: "internal_KeyAt d i = rd ks d ?o" by (simp add: internal_KeyAt_def internal_PairPtrAt_def internal_pair_size_def assms(2))
  have o: "?o + ks \<le> length d" using assms(1) by simp
  then show l: "length (internal_KeyAt d i) = ks" by (simp add: k)
  have "take ?o d @ take ks (drop ?o d) @ drop (?o + ks) d = d" by (metis append_take_drop_id drop_drop add.commute)
  then show "internal_SetKeyAt i (internal_KeyAt d i) d = d"
    using o l by (simp add: internal_SetKeyAt_def internal_PairPtrAt_def internal_pair_size_def assms(2) k wr_def rd_def)
qed

lemma PopulateNewRoot_effect:
  assumes ok: "internal_ok ks d" and key: "length key = ks" and fit: "28 + 2 * (ks + 4) \<le> 4096"
  obtains k0 where "internal_ok ks (PopulateNewRoot p key q d)" "internal_entries (PopulateNewRoot p key q d) = [(k0, p), (key, q)]"
    "page_header 28 (PopulateNewRoot p key q d) = page_header 28 d" "GetSize (PopulateNewRoot p key q d) = 2"
proof -
  note K = internal_okD [OF ok]
  define k0 where "k0 = internal_KeyAt d 0"
  have f1: "28 + Suc 0 * (ks + 4) \<le> length d" using fit K(1) by simp
  note S = internal_SetKeyAt_same [OF f1 K(2), folded k0_def]
  define w1 where "w1 = internal_SetValueAt 0 p d"
  have w1: "w1 = wr d (28 + 0 * (ks + 4)) (k0 @ le_enc 4 p)" using internal_put [OF K(2) S(1) f1, of p] S(2) by (simp add: w1_def)
  have l1: "length w1 = 4096" "\<And>k off. off + k \<le> 28 \<Longrightarrow> rd k w1 off = rd k d off"
    using f1 S(1) K(1) by (simp_all add: w1 rd_wr_disjoint)
  have kw: "nat (GetKeySize w1) = ks" using l1(2) [of 4 4] K(2) by (simp add: GetKeySize_def rd32_def)
  have f2: "28 + Suc 1 * (ks + 4) \<le> length w1" using fit l1(1) by simp
  define w where "w = internal_SetValueAt 1 q (internal_SetKeyAt 1 key w1)"
  have w: "w = wr w1 (28 + 1 * (ks + 4)) (key @ le_enc 4 q)" unfolding w_def by (rule internal_put [OF kw key f2])
  have l: "length w = length d" "\<And>k off. off + k \<le> 28 \<Longrightarrow> rd k w off = rd k d off"
    using f2 key K(1) l1 by (simp_all add: w rd_wr_disjoint)
  have P0: "pair_raw 28 (ks + 4) w1 0 = k0 @ le_enc 4 p"
    unfolding w1 using pair_raw_write [OF f1, of "k0 @ le_enc 4 p" 0] S(1) by simp
  have P: "pair_raw 28 (ks + 4) w j = (if j = 1 then key @ le_enc 4 q else pair_raw 28 (ks + 4) w1 j)" for j
    unfolding w using pair_raw_write [OF f2, of "key @ le_enc 4 q" j] key by simp
  have ps: "pairs 28 (ks + 4) 2 w = [k0 @ le_enc 4 p, key @ le_enc 4 q]"
    using P0 P [of 0] P [of 1] by (simp add: pairs_def upt_rec)
  have pop: "PopulateNewRoot p key q d = SetSize (int 2) w" by (simp add: PopulateNewRoot_def w_def w1_def)
  note R = page_resize [OF ok [unfolded internal_page] _ _ l fit disjI1 [OF pop], simplified]
  have ok': "internal_ok ks (PopulateNewRoot p key q d)" using R(1) by (simp add: internal_page)
  have "internal_entries (PopulateNewRoot p key q d) = [(k0, p), (key, q)]"
    using R(4) ps by (simp add: internal_entries_pairs [OF ok'] dec_internal_enc [OF S(1)] dec_internal_enc [OF key])
  then show thesis using that ok' R(2,3) by simp
qed

lemma ValueIndex_entries:
  "ValueIndex v d = Some i \<Longrightarrow> i < length (internal_entries d) \<and> snd (internal_entries d ! i) = v"
  "ValueIndex v d = None \<longleftrightarrow> v \<notin> snd ` set (internal_entries d)"
  by (auto simp: ValueIndex_def find_upt_least internal_entries_def image_image)

lemma InsertNodeAfter_effect:
  assumes ok: "internal_ok ks d" and v: "ValueIndex v d = Some i" and key: "length key = ks"
    and fit: "28 + Suc (nat (GetSize d)) * (ks + 4) \<le> 4096"
  obtains d' where "InsertNodeAfter v key w d = Inr (d', GetSize d')" "internal_ok ks d'"
    "internal_entries d' = take (Suc i) (internal_entries d) @ (key, w) # drop (Suc i) (internal_entries d)"
    "page_header 28 d' = page_header 28 d" "GetSize d' = GetSize d + 1"
proof -
  note K = internal_okD [OF ok]
  have i: "Suc i \<le> nat (GetSize d)" using ValueIndex_entries(1) [OF v] by (simp add: internal_entries_length)
  note I = internal_insert_at [OF ok i fit key]
  let ?g = "memmove (internal_PairPtrAt d (Suc i + 1)) (internal_PairPtrAt d (Suc i)) ((nat (GetSize d) - Suc i) * internal_pair_size d) d"
  have g: "(if int (i + 1) < GetSize d then ?g else d) = ?g"
  proof (cases "int (i + 1) < GetSize d")
    case False
    then have n: "nat (GetSize d) = Suc i" using i by simp
    have "internal_PairPtrAt d (Suc i + 1) \<le> length d" using fit K by (simp add: internal_PairPtrAt_def n)
    then show ?thesis using False by (simp add: n)
  qed simp
  have "\<not> length d < internal_PairPtrAt d (Suc (nat (GetSize d)))" using fit K by (simp add: internal_PairPtrAt_def)
  then have "InsertNodeAfter v key w d = (let d' = IncreaseSize 1 (internal_SetValueAt (Suc i) w (internal_SetKeyAt (Suc i) key ?g)) in Inr (d', GetSize d'))"
    using v g by (simp add: InsertNodeAfter_def Let_def)
  then show thesis using that I by (simp add: Let_def)
qed

section \<open>Properties\<close>

definition wf_internal :: "KeyManager \<Rightarrow> bpage \<Rightarrow> bool" where
  "wf_internal km d \<longleftrightarrow> internal_ok (km_key_size km) d \<and> valid_keys (key_valid km) (tl (internal_entries d)) \<and>
     key_sorted (key_less km) (tl (internal_entries d))"

text \<open>C31. \<^verbatim>\<open>Lookup\<close> of an internal page ends and its binary search agrees with the linear scan: on a page whose keys
  from the second on are sorted it returns the child before the first key that is greater than the key, and so
  never looks at the unused first key.\<close>

theorem internal_Lookup_linear_scan:
  assumes "wf_internal km d" "key_valid km key" "0 < GetSize d"
  shows "internal_Lookup (CompareKeys km) key d =
    Inr (snd (internal_entries d ! length (takeWhile (\<lambda>(k, _). \<not> key_less km key k) (tl (internal_entries d)))))"
  using isr.internal_Lookup_rank [of km d key] assms by (simp add: wf_internal_def split_def)

lemma internal_Init_ok:
  assumes "length d = PAGE_SIZE" "ks < 4000"
  shows "internal_ok ks (internal_Init p q (int ks) m d)" "GetSize (internal_Init p q (int ks) m d) = 0"
    "internal_entries (internal_Init p q (int ks) m d) = []" "\<not> IsLeafPage (internal_Init p q (int ks) m d)"
    "bp_GetPageId (internal_Init p q (int ks) m d) = p" "GetParentPageId (internal_Init p q (int ks) m d) = q"
proof -
  note S = internal_Init_def bp_defs Let_def layout_simps PAGE_SIZE_def
  have l: "length d = 4096" using assms(1) by (simp add: PAGE_SIZE_def)
  show sz: "GetSize (internal_Init p q (int ks) m d) = 0" using l by (simp add: S)
  have "GetKeySize (internal_Init p q (int ks) m d) = sint (word_of_int (int ks) :: 32 word)" using l by (simp add: S)
  then have "GetKeySize (internal_Init p q (int ks) m d) = int ks" using sint_word_small [of "int ks"] assms(2) by simp
  moreover have "length (internal_Init p q (int ks) m d) = 4096" using l by (simp add: S)
  ultimately show "internal_ok ks (internal_Init p q (int ks) m d)" by (simp add: internal_ok_def sz PAGE_SIZE_def)
  show "internal_entries (internal_Init p q (int ks) m d) = []" by (simp add: internal_entries_def sz)
qed (use assms(1) in \<open>simp_all add: internal_Init_def bp_defs Let_def layout_simps PAGE_SIZE_def IndexPageType_num_def\<close>)

text \<open>An internal root over two children.\<close>

definition example_root :: "byte list \<Rightarrow> bpage" where
  "example_root key = PopulateNewRoot 10 key 20 (internal_Init 9 INVALID_PAGE_ID (int 16) 100 (replicate PAGE_SIZE 0))"

lemma example_root_ok:
  assumes "key_valid example_km key"
  obtains k0 where "wf_internal example_km (example_root key)" "internal_entries (example_root key) = [(k0, 10), (key, 20)]"
    "GetSize (example_root key) = 2"
proof -
  have 16: "km_key_size example_km = 16" by (simp add: example_km_def KeyManager_new_def)
  have ok: "internal_ok 16 (internal_Init 9 INVALID_PAGE_ID (int 16) 100 (replicate PAGE_SIZE 0))" by (rule internal_Init_ok) simp_all
  have key: "length key = 16" using assms by (simp add: key_valid_def 16)
  show thesis
  proof (rule PopulateNewRoot_effect [OF ok key, of 10 20, folded example_root_def])
    fix k0 assume "internal_ok 16 (example_root key)" "internal_entries (example_root key) = [(k0, 10), (key, 20)]" "GetSize (example_root key) = 2"
    then show thesis using that [of k0] assms by (simp add: wf_internal_def 16 valid_keys_def key_sorted_def)
  qed simp
qed

theorem internal_Lookup_linear_scan_witness:
  "\<exists>a b. SerializeFromKey example_km (replicate 16 0) (example_key_row 3) (km_key_schema example_km) = Inr a \<and>
     SerializeFromKey example_km (replicate 16 0) (example_key_row 5) (km_key_schema example_km) = Inr b \<and>
     internal_Lookup (CompareKeys example_km) a (example_root b) = Inr 10 \<and>
     internal_Lookup (CompareKeys example_km) b (example_root a) = Inr 20"
proof -
  obtain a b where ab: "SerializeFromKey example_km (replicate 16 0) (example_key_row 3) (km_key_schema example_km) = Inr a"
    "SerializeFromKey example_km (replicate 16 0) (example_key_row 5) (km_key_schema example_km) = Inr b"
    "key_valid example_km a" "key_valid example_km b" "key_less example_km a b" by (rule example_keys)
  obtain k0 where r: "wf_internal example_km (example_root b)" "internal_entries (example_root b) = [(k0, 10), (b, 20)]"
    "GetSize (example_root b) = 2" by (rule example_root_ok [OF ab(4)])
  obtain k1 where s: "wf_internal example_km (example_root a)" "internal_entries (example_root a) = [(k1, 10), (a, 20)]"
    "GetSize (example_root a) = 2" by (rule example_root_ok [OF ab(3)])
  have "\<not> key_less example_km b a" using ab(5) km.lt_asym [OF ab(3,4)] by blast
  then show ?thesis
    using internal_Lookup_linear_scan [OF r(1) ab(3)] internal_Lookup_linear_scan [OF s(1) ab(4)] r s ab by simp
qed

text \<open>Changing one internal page: \<^verbatim>\<open>InsertNodeAfter\<close> puts the new pair directly behind the pair of the old child and
  returns the new size, and leaves the page alone when the old child is not there; \<^verbatim>\<open>Remove\<close> takes out exactly the
  pair at an index and asserts that the index is in range; \<^verbatim>\<open>PopulateNewRoot\<close> makes a page with the two children
  separated by the key. All keep the rest of the header.\<close>

theorem internal_page_changes:
  assumes "internal_ok ks d" "length key = ks" "28 + Suc (nat (GetSize d)) * (ks + 4) \<le> PAGE_SIZE" "28 + 2 * (ks + 4) \<le> PAGE_SIZE"
    and "es = internal_entries d"
  shows "(case ValueIndex old d of
       None \<Rightarrow> old \<notin> snd ` set es \<and> InsertNodeAfter old key new d = Inr (d, GetSize d)
     | Some i \<Rightarrow> snd (es ! i) = old \<and> (\<exists>d'. InsertNodeAfter old key new d = Inr (d', GetSize d + 1) \<and> internal_ok ks d' \<and>
         internal_entries d' = take (Suc i) es @ (key, new) # drop (Suc i) es \<and> page_header 28 d' = page_header 28 d)) \<and>
    (if i < length es then \<exists>d'. internal_Remove i d = Inr d' \<and> internal_ok ks d' \<and>
         internal_entries d' = take i es @ drop (Suc i) es \<and> page_header 28 d' = page_header 28 d
     else internal_Remove i d = Inl (AssertionFailed ''Invalid remove index.'')) \<and>
    (\<exists>k0. internal_ok ks (PopulateNewRoot p key q d) \<and> internal_entries (PopulateNewRoot p key q d) = [(k0, p), (key, q)] \<and>
       page_header 28 (PopulateNewRoot p key q d) = page_header 28 d)"
proof (intro conjI)
  have fit: "28 + Suc (nat (GetSize d)) * (ks + 4) \<le> 4096" "28 + 2 * (ks + 4) \<le> 4096" using assms(3,4) by (simp_all add: PAGE_SIZE_def)
  show "case ValueIndex old d of
       None \<Rightarrow> old \<notin> snd ` set es \<and> InsertNodeAfter old key new d = Inr (d, GetSize d)
     | Some i \<Rightarrow> snd (es ! i) = old \<and> (\<exists>d'. InsertNodeAfter old key new d = Inr (d', GetSize d + 1) \<and> internal_ok ks d' \<and>
         internal_entries d' = take (Suc i) es @ (key, new) # drop (Suc i) es \<and> page_header 28 d' = page_header 28 d)"
  proof (cases "ValueIndex old d")
    case None
    then show ?thesis using ValueIndex_entries(2) [of old d] by (simp add: assms(5) InsertNodeAfter_def)
  next
    case (Some i)
    obtain d' where "InsertNodeAfter old key new d = Inr (d', GetSize d')" "internal_ok ks d'"
      "internal_entries d' = take (Suc i) (internal_entries d) @ (key, new) # drop (Suc i) (internal_entries d)"
      "page_header 28 d' = page_header 28 d" "GetSize d' = GetSize d + 1"
      by (rule InsertNodeAfter_effect [OF assms(1) Some assms(2) fit(1)])
    then show ?thesis using Some ValueIndex_entries(1) [OF Some] by (simp add: assms(5))
  qed
  show "if i < length es then \<exists>d'. internal_Remove i d = Inr d' \<and> internal_ok ks d' \<and>
         internal_entries d' = take i es @ drop (Suc i) es \<and> page_header 28 d' = page_header 28 d
     else internal_Remove i d = Inl (AssertionFailed ''Invalid remove index.'')"
  proof (cases "i < length es")
    case True
    then have i: "i < nat (GetSize d)" by (simp add: assms(5) internal_entries_length)
    obtain d' where "internal_Remove i d = Inr d'" "internal_ok ks d'"
      "internal_entries d' = take i (internal_entries d) @ drop (Suc i) (internal_entries d)" "page_header 28 d' = page_header 28 d"
      by (rule internal_remove_at [OF assms(1) i])
    then show ?thesis using True by (simp add: assms(5))
  next
    case False
    then have "\<not> int i < GetSize d" by (simp add: assms(5) internal_entries_length)
    then show ?thesis using False by (simp add: internal_Remove_def)
  qed
  show "\<exists>k0. internal_ok ks (PopulateNewRoot p key q d) \<and> internal_entries (PopulateNewRoot p key q d) = [(k0, p), (key, q)] \<and>
       page_header 28 (PopulateNewRoot p key q d) = page_header 28 d"
    using PopulateNewRoot_effect [OF assms(1,2) fit(2)] by metis
qed

theorem internal_page_changes_witness:
  "\<exists>a b k0 d'. internal_entries (example_root a) = [(k0, 10), (a, 20)] \<and>
     InsertNodeAfter 10 b 30 (example_root a) = Inr (d', 3) \<and> internal_entries d' = [(k0, 10), (b, 30), (a, 20)]"
proof -
  obtain a b where ab: "key_valid example_km a" "key_valid example_km b" by (rule example_keys)
  obtain k0 where r: "wf_internal example_km (example_root a)" "internal_entries (example_root a) = [(k0, 10), (a, 20)]"
    "GetSize (example_root a) = 2" by (rule example_root_ok [OF ab(1)])
  have 16: "km_key_size example_km = 16" by (simp add: example_km_def KeyManager_new_def)
  have ok: "internal_ok 16 (example_root a)" "length b = 16" using r(1) ab(2) by (simp_all add: wf_internal_def key_valid_def 16)
  obtain i where i: "ValueIndex 10 (example_root a) = Some i" using ValueIndex_entries(2) [of 10 "example_root a"] r(2) by auto
  then have "i = 0" using ValueIndex_entries(1) [OF i] r(2) by (cases i) auto
  with internal_page_changes [OF ok _ _ refl, of 10 30 0 0 0] i r show ?thesis by (auto simp: PAGE_SIZE_def)
qed

end
