(* ===== verification/Internal_Moves.thy ===== *)
theory Internal_Moves
  imports BPlus_Internal
begin

text \<open>
  Moving children between internal pages through the buffer pool: what the split, merge and redistribution
  operations of \<open>BPlus_Internal\<close> do to the two pages and to the parent links of the moved children, for every
  replacer and page store, and then for the pool as the program builds it.
\<close>

text \<open>The effect of a move: the source page \<open>p\<close> becomes \<open>d\<close>, the recipient \<open>q\<close> becomes \<open>r\<close>, the moved children
  get a new parent, and no other page changes.\<close>

definition moved :: "page_id_t \<Rightarrow> bpage \<Rightarrow> page_id_t \<Rightarrow> bpage \<Rightarrow> page_id_t set \<Rightarrow> page_id_t \<Rightarrow> page_id_t \<Rightarrow> bpage \<Rightarrow> bpage" where
  "moved p d q r C parent x old =
     (if x = p then d else if x = q then r else if x \<in> C then SetParentPageId parent old else old)"

lemma SetParentPageId_idem: "24 \<le> length d \<Longrightarrow> SetParentPageId p (SetParentPageId p d) = SetParentPageId p d"
  by (simp add: SetParentPageId_def wr32_def wr_def)

lemma length_SetParentPageId: "length d = PAGE_SIZE \<Longrightarrow> length (SetParentPageId p d) = PAGE_SIZE"
  by (simp add: SetParentPageId_def PAGE_SIZE_def)

text \<open>The children that a copied run brings along.\<close>

lemma copied_children:
  assumes d: "internal_ok ks d" and s: "internal_ok ks s" and b: "a + k \<le> nat (GetSize s)"
    and fit: "28 + (nat (GetSize d) + k) * (ks + 4) \<le> 4096" and i: "i < k"
  defines "w \<equiv> wr d (28 + nat (GetSize d) * (ks + 4)) (rd (k * (ks + 4)) s (28 + a * (ks + 4)))"
  shows "internal_ValueAt w (nat (GetSize d) + i) = snd (take k (drop a (internal_entries s)) ! i)"
proof -
  note P = page_append_raw(5-7) [OF d [unfolded internal_page] _ _ s [unfolded internal_page] b fit, folded w_def, simplified]
  note L = internal_entries_length and K = page_okD [OF d [unfolded internal_page]] and S = page_okD [OF s [unfolded internal_page]]
  have ks: "nat (GetKeySize w) = ks" using P(2) [of 4 4] K(2) by (simp add: GetKeySize_def rd32_def)
  have "pair_raw 28 (ks + 4) w (nat (GetSize d) + i) = (page_pairs 28 4 ks d @ take k (drop a (page_pairs 28 4 ks s))) ! (nat (GetSize d) + i)"
    using i by (simp add: P(3) [symmetric])
  also have "\<dots> = page_pairs 28 4 ks s ! (a + i)" using i b K(6) S(6) by (simp add: nth_append)
  finally have "dec_internal ks (pair_raw 28 (ks + 4) w (nat (GetSize d) + i)) = internal_entries s ! (a + i)"
    using i b S(6) by (simp add: internal_entries_pairs [OF s])
  then have "internal_ValueAt w (nat (GetSize d) + i) = snd (internal_entries s ! (a + i))"
    unfolding internal_item_raw [OF ks, symmetric] by (metis snd_conv)
  then show ?thesis using i b by (simp add: L)
qed

text \<open>Setting one key.\<close>

lemma internal_SetKeyAt_effect:
  assumes ok: "internal_ok ks d" and i: "i < nat (GetSize d)" and key: "length key = ks"
  defines "d' \<equiv> internal_SetKeyAt i key d"
  shows "internal_ok ks d'" "internal_entries d' = (internal_entries d)[i := (key, snd (internal_entries d ! i))]"
    "page_header 28 d' = page_header 28 d" "GetSize d' = GetSize d"
proof -
  note K = internal_okD [OF ok]
  let ?o = "28 + i * (ks + 4)"
  have "i * (ks + 4) + (ks + 4) \<le> nat (GetSize d) * (ks + 4)" by (rule slot_bound [OF i])
  then have o: "?o + ks + 4 \<le> 4096" using K(5) by linarith
  have d': "d' = wr d ?o key" using key by (simp add: d'_def internal_SetKeyAt_def internal_PairPtrAt_def K)
  have len: "length d' = 4096" using o key K(1) by (simp add: d')
  have hd: "rd k d' off = rd k d off" if "off + k \<le> 28" for k off
    using that o key K(1) by (simp add: d' rd_wr_disjoint)
  show "page_header 28 d' = page_header 28 d" using hd by (simp add: page_header_def)
  have sz: "GetSize d' = GetSize d" "GetKeySize d' = GetKeySize d"
    using hd [of 12 4] hd [of 4 4] by (simp_all add: bp_defs rd32_def)
  show "GetSize d' = GetSize d" by (rule sz)
  show ok': "internal_ok ks d'" using ok sz len by (simp add: internal_ok_def PAGE_SIZE_def)
  have at: "pair_raw 28 (ks + 4) d' j = (if j = i then key @ le_enc 4 (internal_ValueAt d i) else pair_raw 28 (ks + 4) d j)" for j
  proof -
    have "d' = wr d ?o (key @ rd 4 d (?o + ks))"
    proof (rule nth_equalityI)
      fix m assume "m < length d'"
      then show "d' ! m = wr d ?o (key @ rd 4 d (?o + ks)) ! m"
        using o key K(1) len by (auto simp: d' nth_wr nth_append rd_def)
    qed (use o key K(1) in \<open>simp add: d'\<close>)
    moreover have "rd 4 d (?o + ks) = le_enc 4 (internal_ValueAt d i)"
      using le_enc_dec [of "rd 4 d (?o + ks)", where 'a = 32] o K(1)
      by (simp add: internal_ValueAt_def internal_PairPtrAt_def K rd32_def)
    ultimately show ?thesis
      using pair_raw_write [of 28 i "ks + 4" d "key @ le_enc 4 (internal_ValueAt d i)" j] o key K(1) by simp
  qed
  show "internal_entries d' = (internal_entries d)[i := (key, snd (internal_entries d ! i))]"
  proof (rule nth_equalityI)
    fix j assume "j < length (internal_entries d')"
    then have j: "j < nat (GetSize d)" by (simp add: internal_entries_length sz)
    have e: "internal_entries e ! j = dec_internal ks (pair_raw 28 (ks + 4) e j)" if "internal_ok ks e" "GetSize e = GetSize d" for e
      using that j by (simp add: internal_entries_pairs [OF that(1)] page_pairs_def)
    show "internal_entries d' ! j = (internal_entries d)[i := (key, snd (internal_entries d ! i))] ! j"
    proof (cases "j = i")
      case True
      then show ?thesis
        using e [OF ok' sz(1)] at [of i] j dec_internal_enc [OF key] i by (simp add: internal_entries_def)
    next
      case False
      then show ?thesis using e [OF ok' sz(1)] e [OF ok refl] at [of j] by simp
    qed
  qed (simp add: internal_entries_length sz)
qed

context buffer_pool
begin

lemma adopt_acts:
  assumes "bp_ok b" "ok_id c" "c \<in> allocated (bpm_disk b)" "spare b"
  obtains b' where "adopt rops dops c parent b = Inr b'" "acts (\<lambda>q d. if q = c then SetParentPageId parent d else d) b b'"
  unfolding adopt_def
  by (rule acts_with_page [OF assms, of "SetParentPageId parent" "''Failed to fetch child page.''"]) (rule length_SetParentPageId)

lemma adopt_loop_acts:
  assumes "bp_ok b" "f \<in> pinned b" "spare b"
    and "\<And>i. i \<in> set is \<Longrightarrow> ok_id (C i) \<and> C i \<in> allocated (bpm_disk b) \<and> C i \<noteq> page_id (frame b f)"
    and "\<And>i. C i = internal_ValueAt (fdata b f) (nat (GetSize (fdata b f)) + i)" and "parent = bp_GetPageId (fdata b f)"
  shows "\<exists>b'. adopt_loop rops dops f is b = Inr b' \<and> acts (\<lambda>q d. if q \<in> C ` set is then SetParentPageId parent d else d) b b'"
  using assms
proof (induction "is" arbitrary: b)
  case Nil
  then show ?case using acts_refl [of b] by auto
next
  case (Cons i js)
  have c: "ok_id (C i)" "C i \<in> allocated (bpm_disk b)" "C i \<noteq> page_id (frame b f)" using Cons.prems(4) by simp_all
  obtain b1 where b1: "adopt rops dops (C i) parent b = Inr b1" "acts (\<lambda>q d. if q = C i then SetParentPageId parent d else d) b b1"
    by (rule adopt_acts [OF Cons.prems(1) c(1,2) Cons.prems(3)])
  note A = acts_frame [OF Cons.prems(1) b1(2) Cons.prems(2)]
  have fd: "fdata b1 f = fdata b f" using A(3) c(3) by simp
  have ok1: "bp_ok b1" and al: "allocated (bpm_disk b1) = allocated (bpm_disk b)" using actsD [OF b1(2)] by simp_all
  have "spare b1" using acts_spare [OF b1(2)] Cons.prems(3) by simp
  from Cons.IH [OF ok1 A(1) this] obtain b' where b': "adopt_loop rops dops f js b1 = Inr b'"
    "acts (\<lambda>q d. if q \<in> C ` set js then SetParentPageId parent d else d) b1 b'"
    using Cons.prems(4-6) fd al A(2) by auto
  have "acts (\<lambda>q d. if q \<in> C ` set (i # js) then SetParentPageId parent d else d) b b'"
    using SetParentPageId_idem view_length [OF Cons.prems(1)]
    by (intro acts_cong [OF acts_trans [OF b1(2) b'(2)]]) (auto simp: PAGE_SIZE_def)
  moreover have "adopt_loop rops dops f (i # js) b = Inr b'"
    using b1(1) b'(1) Cons.prems(5) [of i] Cons.prems(6) by (simp add: Let_def)
  ultimately show ?case by blast
qed

lemma mod_frame_acts:
  assumes "bp_ok b" "f \<in> pinned b" "length (h (fdata b f)) = PAGE_SIZE"
  shows "acts (\<lambda>q d. if q = page_id (frame b f) then h d else d) b (mod_frame f h b)"
  unfolding mod_frame_def by (rule acts_write_frame [where h = h, OF assms])

text \<open>Appending a run of pairs of another page, with its children.\<close>

lemma CopyNFrom_acts:
  assumes ok: "bp_ok b" and g: "g \<in> pinned b" and sp: "spare b" and r: "internal_ok ks (fdata b g)" and s: "internal_ok ks s"
    and ak: "a + k \<le> nat (GetSize s)" "0 < k" and fit: "28 + (nat (GetSize (fdata b g)) + k) * (ks + 4) \<le> 4096"
    and C: "C = snd ` set (take k (drop a (internal_entries s)))"
    and ch: "\<And>c. c \<in> C \<Longrightarrow> ok_id c \<and> c \<in> allocated (bpm_disk b) \<and> c \<noteq> page_id (frame b g)"
  obtains b' r' where "internal_CopyNFrom rops dops g (drop (28 + a * (ks + 4)) s) (int k) b = Inr b'"
    "acts (\<lambda>q d. if q = page_id (frame b g) then r' else if q \<in> C then SetParentPageId (bp_GetPageId (fdata b g)) d else d) b b'"
    "internal_ok ks r'" "internal_entries r' = internal_entries (fdata b g) @ take k (drop a (internal_entries s))"
    "page_header 28 r' = page_header 28 (fdata b g)"
proof -
  let ?d = "fdata b g" let ?n = "nat (GetSize ?d)" let ?q = "page_id (frame b g)"
  note K = internal_okD [OF r]
  define w where "w = wr ?d (28 + ?n * (ks + 4)) (rd (k * (ks + 4)) s (28 + a * (ks + 4)))"
  note P = page_append_raw [OF r [unfolded internal_page] _ _ s [unfolded internal_page] ak(1) fit, folded w_def, simplified]
  define b1 where "b1 = mod_frame g (\<lambda>d. wr d (internal_PairPtrAt d (nat (GetSize d))) (take (k * internal_pair_size d) (drop (28 + a * (ks + 4)) s))) b"
  have w1: "wr ?d (internal_PairPtrAt ?d ?n) (take (k * internal_pair_size ?d) (drop (28 + a * (ks + 4)) s)) = w"
    by (simp add: w_def internal_PairPtrAt_def K rd_def)
  have a1: "acts (\<lambda>q d. if q = ?q then w else d) b b1"
    using P(5) K(1) w1 acts_cong [OF mod_frame_acts [OF ok g, of "\<lambda>_. w"]]
    by (simp add: b1_def mod_frame_def PAGE_SIZE_def)
  note A1 = acts_frame [OF ok a1 g]
  have fd1: "fdata b1 g = w" using A1(3) by simp
  have sz: "GetSize w = GetSize ?d" "bp_GetPageId w = bp_GetPageId ?d"
    using P(6) [of 12 4] P(6) [of 24 4] by (simp_all add: GetSize_def bp_GetPageId_def rd32_def)
  have ok1: "bp_ok b1" and al1: "allocated (bpm_disk b1) = allocated (bpm_disk b)" using actsD [OF a1] by simp_all
  define V where "V i = internal_ValueAt (fdata b1 g) (nat (GetSize (fdata b1 g)) + i)" for i
  have V: "V i = snd (take k (drop a (internal_entries s)) ! i)" if "i < k" for i
    using copied_children [OF r s ak(1) fit that, folded w_def] by (simp add: V_def fd1 sz)
  have VC: "V ` set [0..<k] = C"
  proof -
    have "length (take k (drop a (internal_entries s))) = k" using ak(1) by (simp add: internal_entries_length)
    then have "set (take k (drop a (internal_entries s))) = (\<lambda>i. take k (drop a (internal_entries s)) ! i) ` {0..<k}"
      by (metis atLeast_upt list.set_map map_nth set_upt)
    then show ?thesis using V by (simp add: C image_image)
  qed
  have "spare b1" using acts_spare [OF a1] sp by simp
  moreover have "ok_id (V i) \<and> V i \<in> allocated (bpm_disk b1) \<and> V i \<noteq> page_id (frame b1 g)" if "i \<in> set [0..<k]" for i
    unfolding al1 A1(2) using imageI [OF that, of V] by (intro ch) (simp only: VC)
  ultimately obtain b2 where b2: "adopt_loop rops dops g [0..<k] b1 = Inr b2"
    "acts (\<lambda>q d. if q \<in> C then SetParentPageId (bp_GetPageId ?d) d else d) b1 b2"
    using adopt_loop_acts [OF ok1 A1(1), of "[0..<k]" V] VC sz(2) fd1 by (auto simp: V_def)
  have qC: "?q \<notin> C" using ch by blast
  note A2 = acts_frame [OF ok1 b2(2) A1(1)]
  have fd2: "fdata b2 g = w" using A2(3) A1(2) fd1 qC by simp
  note ok2 = actsD(1) [OF b2(2)]
  have "length (IncreaseSize (int k) (fdata b2 g)) = PAGE_SIZE"
    using P(1) by (simp add: fd2 page_ok_def)
  note a3 = mod_frame_acts [where h = "IncreaseSize (int k)", OF ok2 A2(1) this]
  define b' where "b' = mod_frame g (IncreaseSize (int k)) b2"
  have "acts (\<lambda>q d. if q = ?q then IncreaseSize (int k) w else if q \<in> C then SetParentPageId (bp_GetPageId ?d) d else d) b b'"
    unfolding b'_def by (rule acts_cong [OF acts_trans [OF acts_trans [OF a1 b2(2)] a3]]) (auto simp: qC A1(2) A2(2))
  moreover have "\<not> length ?d < internal_PairPtrAt ?d (?n + k)" using fit K by (simp add: internal_PairPtrAt_def)
  then have "internal_CopyNFrom rops dops g (drop (28 + a * (ks + 4)) s) (int k) b = Inr b'"
    using ak(2) b2(1) by (simp add: internal_CopyNFrom_def b'_def b1_def Let_def)
  moreover have ok': "internal_ok ks (IncreaseSize (int k) w)" using P(1) by (simp add: internal_page)
  moreover have "internal_entries (IncreaseSize (int k) w) = internal_entries ?d @ take k (drop a (internal_entries s))"
    using P(4) by (simp add: internal_entries_pairs [OF r] internal_entries_pairs [OF ok'] internal_entries_pairs [OF s] take_map drop_map)
  ultimately show thesis using that P(2) by blast
qed

text \<open>The situation of a move: two pinned pages, and children that are other pages.\<close>

definition move_ready :: "nat \<Rightarrow> frame_id_t \<Rightarrow> frame_id_t \<Rightarrow> page_id_t set \<Rightarrow> ('r, 'd) bpm \<Rightarrow> bool" where
  "move_ready ks f g C b \<longleftrightarrow> f \<in> pinned b \<and> g \<in> pinned b \<and> f \<noteq> g \<and> spare b \<and>
     internal_ok ks (fdata b f) \<and> internal_ok ks (fdata b g) \<and>
     (\<forall>c \<in> C. ok_id c \<and> c \<in> allocated (bpm_disk b) \<and> c \<noteq> page_id (frame b f) \<and> c \<noteq> page_id (frame b g))"

lemma move_readyD:
  assumes "move_ready ks f g C b" "bp_ok b"
  shows "f \<in> pinned b" "g \<in> pinned b" "spare b" "internal_ok ks (fdata b f)" "internal_ok ks (fdata b g)"
    "page_id (frame b f) \<noteq> page_id (frame b g)"
    "\<And>c. c \<in> C \<Longrightarrow> ok_id c \<and> c \<in> allocated (bpm_disk b) \<and> c \<noteq> page_id (frame b f) \<and> c \<noteq> page_id (frame b g)"
  using assms(1) pinned_inj [OF assms(2)] unfolding move_ready_def by blast+

text \<open>The last step of a move: the source page is cut short.\<close>

lemma move_finish:
  assumes ok: "bp_ok b" and m: "move_ready ks f g C b" and h: "length (h (fdata b f)) = PAGE_SIZE"
    and a: "acts (\<lambda>x d. if x = page_id (frame b g) then r' else if x \<in> C then SetParentPageId par d else d) b b1"
  shows "acts (moved (page_id (frame b f)) (h (fdata b f)) (page_id (frame b g)) r' C par) b (mod_frame f h b1)"
proof -
  note M = move_readyD [OF m ok]
  have fC: "page_id (frame b f) \<notin> C" using M(7) by blast
  note A = acts_frame [OF ok a M(1)]
  have fd: "fdata b1 f = fdata b f" using A(3) M(6) fC by simp
  have l: "length (h (fdata b1 f)) = PAGE_SIZE" using h by (simp add: fd)
  note a2 = mod_frame_acts [where h = h, OF actsD(1) [OF a] A(1) l]
  show ?thesis
    using pinned_page(2) [OF ok M(1)]
    by (intro acts_cong [OF acts_trans [OF a a2]]) (auto simp: moved_def A(2) fC M(6) M(6) [symmetric])
qed

lemma MoveHalfTo_law:
  assumes ok: "bp_ok b" and z: "GetSize (fdata b g) = 0" "0 < GetSize (fdata b f)"
    and C: "C = snd ` set (drop (nat (GetSize (fdata b f)) div 2) (internal_entries (fdata b f)))" and m: "move_ready ks f g C b"
  obtains b' d' r' where "internal_MoveHalfTo rops dops f g b = Inr b'"
    "acts (moved (page_id (frame b f)) d' (page_id (frame b g)) r' C (bp_GetPageId (fdata b g))) b b'"
    "internal_ok ks d'" "internal_ok ks r'" "page_header 28 d' = page_header 28 (fdata b f)" "page_header 28 r' = page_header 28 (fdata b g)"
    "internal_entries d' = take (nat (GetSize (fdata b f)) div 2) (internal_entries (fdata b f))"
    "internal_entries r' = drop (nat (GetSize (fdata b f)) div 2) (internal_entries (fdata b f))"
proof -
  note M = move_readyD [OF m ok]
  let ?d = "fdata b f" let ?n = "nat (GetSize ?d)"
  define s where "s = ?n div 2"
  note K = internal_okD [OF M(4)]
  have sn: "s + (?n - s) \<le> ?n" "0 < ?n - s" "s \<le> ?n" using z(2) by (auto simp: s_def)
  have fit: "28 + (nat (GetSize (fdata b g)) + (?n - s)) * (ks + 4) \<le> 4096"
    unfolding z(1) by (rule order_trans [OF _ K(5)], intro add_left_mono mult_le_mono1) simp
  have t: "take (?n - s) (drop s (internal_entries ?d)) = drop s (internal_entries ?d)" by (simp add: internal_entries_length)
  have C': "C = snd ` set (take (?n - s) (drop s (internal_entries ?d)))" unfolding t by (simp add: C s_def)
  obtain b1 r' where 1: "internal_CopyNFrom rops dops g (drop (28 + s * (ks + 4)) ?d) (int (?n - s)) b = Inr b1"
    "acts (\<lambda>q d. if q = page_id (frame b g) then r' else if q \<in> C then SetParentPageId (bp_GetPageId (fdata b g)) d else d) b b1"
    "internal_ok ks r'" "internal_entries r' = internal_entries (fdata b g) @ take (?n - s) (drop s (internal_entries ?d))"
    "page_header 28 r' = page_header 28 (fdata b g)"
    using CopyNFrom_acts [OF ok M(2,3,5,4) sn(1,2) fit C'] M(7) by blast
  note P = page_cut [OF M(4) [unfolded internal_page] _ _ sn(3), simplified]
  have ok': "internal_ok ks (SetSize (int s) ?d)" using P(1) by (simp add: internal_page)
  have "length (SetSize (int s) ?d) = PAGE_SIZE" using ok' by (simp add: internal_ok_def)
  note fin = move_finish [where h = "SetSize (int s)", OF ok m this 1(2)]
  have e: "GetSize ?d - int s = int (?n - s)" using K(6) sn(3) by (simp add: of_nat_diff)
  have "internal_MoveHalfTo rops dops f g b = Inr (mod_frame f (SetSize (int s)) b1)"
    unfolding internal_MoveHalfTo_def Let_def s_def [symmetric] e internal_PairPtrAt_def K(3) 1(1) by simp
  moreover have "internal_entries (SetSize (int s) ?d) = take s (internal_entries ?d)"
    using P(4) by (simp add: internal_entries_pairs [OF M(4)] internal_entries_pairs [OF ok'] take_map)
  moreover have "internal_entries r' = drop s (internal_entries ?d)" using 1(4) t z(1) by (simp add: internal_entries_def)
  ultimately show thesis using that fin ok' 1(3,5) P(2) by (simp add: s_def)
qed

lemma MoveAllTo_law:
  assumes ok: "bp_ok b" and z: "0 < GetSize (fdata b f)" and key: "length middle_key = ks"
    and fit: "28 + (nat (GetSize (fdata b g)) + nat (GetSize (fdata b f))) * (ks + 4) \<le> 4096"
    and C: "C = snd ` set (internal_entries (fdata b f))" and m: "move_ready ks f g C b"
  obtains b' d' r' where "internal_MoveAllTo rops dops f g middle_key b = Inr b'"
    "acts (moved (page_id (frame b f)) d' (page_id (frame b g)) r' C (bp_GetPageId (fdata b g))) b b'"
    "internal_ok ks d'" "internal_ok ks r'" "page_header 28 r' = page_header 28 (fdata b g)" "internal_entries d' = []"
    "internal_entries r' = internal_entries (fdata b g) @
       (middle_key, snd (hd (internal_entries (fdata b f)))) # tl (internal_entries (fdata b f))"
proof -
  note M = move_readyD [OF m ok]
  let ?d = "fdata b f" let ?n = "nat (GetSize ?d)"
  define d1 where "d1 = internal_SetKeyAt 0 middle_key ?d"
  note D = internal_SetKeyAt_effect [OF M(4) _ key, of 0, folded d1_def]
  have i: "0 < ?n" using z by simp
  note D = D [OF i]
  define b0 where "b0 = mod_frame f (internal_SetKeyAt 0 middle_key) b"
  have l: "length (internal_SetKeyAt 0 middle_key ?d) = PAGE_SIZE" using D(1) by (simp add: d1_def internal_ok_def)
  have a0: "acts (\<lambda>q d. if q = page_id (frame b f) then internal_SetKeyAt 0 middle_key d else d) b b0"
    unfolding b0_def by (rule mod_frame_acts [where h = "internal_SetKeyAt 0 middle_key", OF ok M(1) l])
  note F = acts_frame [OF ok a0 M(1)] and G = acts_frame [OF ok a0 M(2)] and A = actsD [OF a0]
  have fd: "fdata b0 f = d1" "fdata b0 g = fdata b g" using F(3) G(3) M(6) by (simp_all add: d1_def)
  obtain e es where ees: "internal_entries ?d = e # es"
    using i internal_entries_length [of ?d] by (cases "internal_entries ?d") auto
  have d1: "internal_entries d1 = (middle_key, snd e) # es" using D(2) by (simp add: ees)
  have es: "snd ` set (internal_entries d1) = C" by (simp add: d1 C ees)
  have m0: "move_ready ks f g C b0"
    unfolding move_ready_def F(2) G(2) fd A(4) using M F(1) G(1) D(1) acts_spare [OF a0] m by (simp add: move_ready_def)
  have n1: "GetSize d1 = GetSize ?d" by (rule D(4))
  have ak: "0 + ?n \<le> nat (GetSize d1)" by (simp add: n1)
  have fit': "28 + (nat (GetSize (fdata b0 g)) + ?n) * (ks + 4) \<le> 4096" using fit by (simp add: fd)
  have C': "C = snd ` set (take ?n (drop 0 (internal_entries d1)))"
    using es by (simp add: n1 [symmetric] internal_entries_length [symmetric])
  note M0 = move_readyD [OF m0 A(1)]
  obtain b1 r' where 1: "internal_CopyNFrom rops dops g (drop (28 + 0 * (ks + 4)) d1) (int ?n) b0 = Inr b1"
    "acts (\<lambda>q d. if q = page_id (frame b0 g) then r' else if q \<in> C then SetParentPageId (bp_GetPageId (fdata b0 g)) d else d) b0 b1"
    "internal_ok ks r'" "internal_entries r' = internal_entries (fdata b0 g) @ take ?n (drop 0 (internal_entries d1))"
    "page_header 28 r' = page_header 28 (fdata b0 g)"
    using CopyNFrom_acts [OF A(1) M0(2,3,5) D(1) ak i fit' C'] M0(7) by blast
  note P = page_cut [OF D(1) [unfolded internal_page] _ _ le0, simplified]
  have ok': "internal_ok ks (SetSize 0 d1)" using P(1) by (simp add: internal_page)
  have "length (SetSize 0 (fdata b0 f)) = PAGE_SIZE" using ok' by (simp add: internal_ok_def fd)
  note fin = move_finish [where h = "SetSize 0", OF A(1) m0 this 1(2)]
  define b' where "b' = mod_frame f (SetSize 0) b1"
  have act: "acts (moved (page_id (frame b f)) (SetSize 0 d1) (page_id (frame b g)) r' C (bp_GetPageId (fdata b g))) b b'"
    unfolding b'_def by (rule acts_cong [OF acts_trans [OF a0 fin]]) (simp add: moved_def F(2) G(2) fd)
  have z': "GetSize ?d \<noteq> 0" "GetSize d1 = int ?n" using z n1 by simp_all
  have "internal_MoveAllTo rops dops f g middle_key b = Inr b'"
    using 1(1) z' by (simp add: internal_MoveAllTo_def Let_def b0_def [symmetric] fd b'_def internal_PairPtrAt_def)
  moreover have "internal_entries (SetSize 0 d1) = []" using P(3) by (simp add: internal_entries_def)
  moreover have "internal_entries r' = internal_entries (fdata b g) @ (middle_key, snd (hd (internal_entries ?d))) # tl (internal_entries ?d)"
    using 1(4) internal_entries_length [of ?d] by (simp add: fd d1 ees)
  ultimately show thesis using that act ok' 1(3,5) by (simp add: fd)
qed

lemma mod_frame_comp:
  assumes "bp_ok b" "f \<in> pinned b"
  shows "mod_frame f h2 (mod_frame f h1 b) = mod_frame f (\<lambda>d. h2 (h1 d)) b"
    "fdata (mod_frame f h1 b) f = h1 (fdata b f)"
proof -
  have f: "in_pool b f" using assms(2) by (simp add: pinned_def)
  note I = inv_butD(1) [OF conjunct1 [OF assms(1)]]
  show fd: "fdata (mod_frame f h1 b) f = h1 (fdata b f)"
    using write_frame_frames(1) [OF f I] by (simp add: mod_frame_def)
  have "write_frame f x (write_frame f y b) = write_frame f x b" for x y
    using in_pool_index [OF f I] by (simp add: write_frame_def upd_frame_def)
  then show "mod_frame f h2 (mod_frame f h1 b) = mod_frame f (\<lambda>d. h2 (h1 d)) b"
    using fd by (simp add: mod_frame_def)
qed

lemma mod_frame_comp3:
  assumes "bp_ok b" "f \<in> pinned b"
  shows "mod_frame f h3 (mod_frame f h2 (mod_frame f h1 b)) = mod_frame f (\<lambda>d. h3 (h2 (h1 d))) b"
proof -
  have f: "in_pool b f" using assms(2) by (simp add: pinned_def)
  note I = inv_butD(1) [OF conjunct1 [OF assms(1)]]
  have "write_frame f x (write_frame f y b) = write_frame f x b" for x y
    using in_pool_index [OF f I] by (simp add: write_frame_def upd_frame_def)
  moreover have "fdata (write_frame f x b) f = x" for x using write_frame_frames(1) [OF f I] by simp
  ultimately show ?thesis by (simp add: mod_frame_def)
qed

text \<open>Writing one more pair into the recipient and adopting its child.\<close>

lemma put_adopt:
  assumes ok: "bp_ok b" and m: "move_ready ks f g {c} b" and r': "h (fdata b g) = r'" "length r' = PAGE_SIZE"
    "page_header 28 r' = page_header 28 (fdata b g)"
  obtains b' where "adopt rops dops c (bp_GetPageId (fdata (mod_frame g h b) g)) (mod_frame g h b) = Inr b'"
    "acts (\<lambda>q d. if q = page_id (frame b g) then r' else if q \<in> {c} then SetParentPageId (bp_GetPageId (fdata b g)) d else d) b b'"
proof -
  note M = move_readyD [OF m ok]
  have "length (h (fdata b g)) = PAGE_SIZE" using r' by simp
  note a = mod_frame_acts [where h = h, OF ok M(2) this] and F = mod_frame_comp(2) [OF ok M(2), of h]
  note A = actsD [OF a]
  have c: "ok_id c" "c \<in> allocated (bpm_disk (mod_frame g h b))" using M(7) [of c] A(4) by simp_all
  have pid: "bp_GetPageId (fdata (mod_frame g h b) g) = bp_GetPageId (fdata b g)"
    using page_header_eq(4) [OF r'(3)] by (simp add: F r'(1))
  have sp: "spare (mod_frame g h b)" using acts_spare [OF a] M(3) by simp
  show thesis
  proof (rule adopt_acts [OF A(1) c sp])
    fix b' assume 1: "adopt rops dops c (bp_GetPageId (fdata b g)) (mod_frame g h b) = Inr b'"
      "acts (\<lambda>q d. if q = c then SetParentPageId (bp_GetPageId (fdata b g)) d else d) (mod_frame g h b) b'"
    have "acts (\<lambda>q d. if q = page_id (frame b g) then r' else if q \<in> {c} then SetParentPageId (bp_GetPageId (fdata b g)) d else d) b b'"
      using M(7) [of c] r'(1) pinned_page(2) [OF ok M(2)] by (intro acts_cong [OF acts_trans [OF a 1(2)]]) auto
    then show thesis using that 1(1) pid by simp
  qed
qed

lemma MoveFirstToEndOf_law:
  assumes ok: "bp_ok b" and z: "0 < GetSize (fdata b f)" and key: "length middle_key = ks"
    and fit: "28 + Suc (nat (GetSize (fdata b g))) * (ks + 4) \<le> 4096"
    and c: "c = snd (hd (internal_entries (fdata b f)))" and m: "move_ready ks f g {c} b"
  obtains b' d' r' where "internal_MoveFirstToEndOf rops dops f g middle_key b = Inr b'"
    "acts (moved (page_id (frame b f)) d' (page_id (frame b g)) r' {c} (bp_GetPageId (fdata b g))) b b'"
    "internal_ok ks d'" "internal_ok ks r'" "page_header 28 d' = page_header 28 (fdata b f)" "page_header 28 r' = page_header 28 (fdata b g)"
    "internal_entries d' = tl (internal_entries (fdata b f))" "internal_entries r' = internal_entries (fdata b g) @ [(middle_key, c)]"
proof -
  note M = move_readyD [OF m ok]
  let ?d = "fdata b f" let ?r = "fdata b g" let ?m = "nat (GetSize ?r)"
  note K = internal_okD [OF M(5)]
  have i: "0 < nat (GetSize ?d)" using z by simp
  obtain e es where ees: "internal_entries ?d = e # es"
    using i internal_entries_length [of ?d] by (cases "internal_entries ?d") auto
  have "internal_entries ?d ! 0 = (internal_KeyAt ?d 0, internal_ValueAt ?d 0)" using i by (simp add: internal_entries_def)
  then have v0: "internal_ValueAt ?d 0 = c" by (simp add: c ees)
  define H where "H d = IncreaseSize 1 (internal_SetValueAt (nat (GetSize (internal_SetKeyAt (nat (GetSize d)) middle_key d))) c
      (internal_SetKeyAt (nat (GetSize d)) middle_key d))" for d
  have e1: "memmove (internal_PairPtrAt ?r (?m + 1)) (internal_PairPtrAt ?r ?m) ((?m - ?m) * internal_pair_size ?r) ?r = ?r"
    using fit K by (simp add: internal_PairPtrAt_def)
  note I = internal_insert_at [OF M(5) order_refl fit key, of c, unfolded e1]
  have "GetSize (internal_SetKeyAt ?m middle_key ?r) = GetSize ?r"
    using fit K key by (simp add: internal_SetKeyAt_def internal_PairPtrAt_def GetSize_def layout_simps)
  then have H: "H ?r = IncreaseSize 1 (internal_SetValueAt ?m c (internal_SetKeyAt ?m middle_key ?r))" by (simp add: H_def)
  have hl: "length (H ?r) = PAGE_SIZE" using I(1) by (simp add: H internal_ok_def)
  have hh: "page_header 28 (H ?r) = page_header 28 ?r" using I(3) by (simp add: H)
  obtain b1 where b1: "adopt rops dops c (bp_GetPageId (fdata (mod_frame g H b) g)) (mod_frame g H b) = Inr b1"
    "acts (\<lambda>q d. if q = page_id (frame b g) then H ?r else if q \<in> {c} then SetParentPageId (bp_GetPageId ?r) d else d) b b1"
    by (rule put_adopt [where h = H, OF ok m refl hl hh])
  have cp: "internal_CopyLastFrom rops dops g middle_key c b = Inr b1"
  proof -
    have "mod_frame g (IncreaseSize 1) (mod_frame g (\<lambda>d. internal_SetValueAt (nat (GetSize d)) c d)
        (mod_frame g (\<lambda>d. internal_SetKeyAt (nat (GetSize d)) middle_key d) b)) = mod_frame g H b"
      unfolding mod_frame_comp3 [OF ok M(2)] H_def ..
    moreover have "\<not> length ?r < internal_PairPtrAt ?r (Suc ?m)" using fit K by (simp add: internal_PairPtrAt_def)
    ultimately show ?thesis using b1(1) by (simp add: internal_CopyLastFrom_def Let_def)
  qed
  obtain d' where d': "internal_Remove 0 ?d = Inr d'" "internal_ok ks d'" "internal_entries d' = es"
    "page_header 28 d' = page_header 28 ?d"
    using internal_remove_at [OF M(4) i] by (auto simp: ees)
  have "length ((\<lambda>_. d') ?d) = PAGE_SIZE" using d'(2) by (simp add: internal_ok_def)
  note fin = move_finish [where h = "\<lambda>_. d'", OF ok m this b1(2)]
  have fd: "fdata b1 f = ?d" using acts_frame(3) [OF ok b1(2) M(1)] M(6) M(7) [of c] by auto
  have n0: "GetSize ?d \<noteq> 0" using z by simp
  have "internal_MoveFirstToEndOf rops dops f g middle_key b = Inr (mod_frame f (\<lambda>_. d') b1)"
    using n0 cp d'(1) by (simp add: internal_MoveFirstToEndOf_def v0 fd mod_frame_def)
  then show thesis using that fin d' I H by (simp add: ees internal_entries_length)
qed

lemma MoveLastToFrontOf_law:
  assumes ok: "bp_ok b" and z: "0 < GetSize (fdata b f)" "0 < GetSize (fdata b g)" and key: "length middle_key = ks"
    and fit: "28 + Suc (nat (GetSize (fdata b g))) * (ks + 4) \<le> 4096"
    and c: "c = snd (last (internal_entries (fdata b f)))" and m: "move_ready ks f g {c} b"
  obtains b' d' r' k0 where "internal_MoveLastToFrontOf rops dops f g middle_key b = Inr b'"
    "acts (moved (page_id (frame b f)) d' (page_id (frame b g)) r' {c} (bp_GetPageId (fdata b g))) b b'"
    "internal_ok ks d'" "internal_ok ks r'" "page_header 28 d' = page_header 28 (fdata b f)" "page_header 28 r' = page_header 28 (fdata b g)"
    "internal_entries d' = butlast (internal_entries (fdata b f))"
    "internal_entries r' = (k0, c) # (middle_key, snd (hd (internal_entries (fdata b g)))) # tl (internal_entries (fdata b g))"
proof -
  note M = move_readyD [OF m ok]
  let ?d = "fdata b f" let ?r = "fdata b g" let ?n = "nat (GetSize ?d)" let ?m = "nat (GetSize ?r)"
  note K = internal_okD [OF M(5)] and L = internal_okD [OF M(4)]
  have i: "0 < ?n" "0 < ?m" using z by simp_all
  have len: "length (internal_entries ?d) = ?n" by (rule internal_entries_length)
  have "last (internal_entries ?d) = (internal_KeyAt ?d (?n - 1), internal_ValueAt ?d (?n - 1))"
    using i by (subst last_conv_nth) (auto simp: len internal_entries_def)
  then have v: "internal_ValueAt ?d (?n - 1) = c" by (simp add: c)
  obtain e es where ees: "internal_entries ?r = e # es"
    using i internal_entries_length [of ?r] by (cases "internal_entries ?r") auto
  define g1 where "g1 = memmove (internal_PairPtrAt ?r 1) (internal_PairPtrAt ?r 0) (?m * internal_pair_size ?r) ?r"
  define k0 where "k0 = internal_KeyAt g1 0"
  note G = pairs_open_gap [of 0 ?m 28 "ks + 4" ?r, simplified]
  have gl: "length g1 = 4096" "nat (GetKeySize g1) = ks"
    using G(1) G(4) [of 4 4] fit K by (simp_all add: g1_def internal_PairPtrAt_def GetKeySize_def rd32_def)
  have "ks + 28 \<le> 4096" using fit by simp
  moreover have "take 28 g1 @ take ks (drop 28 g1) @ drop (28 + ks) g1 = g1"
    by (metis append_take_drop_id drop_drop add.commute)
  ultimately have k0: "length k0 = ks" "internal_SetKeyAt 0 k0 g1 = g1"
    using gl by (simp_all add: k0_def internal_KeyAt_def internal_SetKeyAt_def internal_PairPtrAt_def wr_def rd_def)
  note I = internal_insert_at [OF M(5) le0 fit k0(1), of c, simplified, folded g1_def [simplified], unfolded k0(2)]
  define r1 where "r1 = IncreaseSize 1 (internal_SetValueAt 0 c g1)"
  note I = I [folded r1_def]
  define H where "H d = IncreaseSize 1 (internal_SetValueAt 0 c
      (if 0 < GetSize d then memmove (internal_PairPtrAt d 1) (internal_PairPtrAt d 0) (nat (GetSize d) * internal_pair_size d) d else d))" for d
  have H: "H ?r = r1" using z(2) by (simp add: H_def r1_def g1_def)
  have hl: "length r1 = PAGE_SIZE" using I(1) by (simp add: internal_ok_def)
  obtain b1 where b1: "adopt rops dops c (bp_GetPageId (fdata (mod_frame g H b) g)) (mod_frame g H b) = Inr b1"
    "acts (\<lambda>q d. if q = page_id (frame b g) then r1 else if q \<in> {c} then SetParentPageId (bp_GetPageId ?r) d else d) b b1"
    by (rule put_adopt [where h = H, OF ok m H hl I(3)])
  have cp: "internal_CopyFirstFrom rops dops g c b = Inr b1"
    using b1(1) fit K unfolding internal_CopyFirstFrom_def Let_def mod_frame_comp3 [OF ok M(2)] H_def [symmetric]
    by (simp add: internal_PairPtrAt_def)
  have i1: "1 < nat (GetSize r1)" using I(4) i(2) K(6) by simp
  note S = internal_SetKeyAt_effect [OF I(1) i1 key]
  define r' where "r' = internal_SetKeyAt 1 middle_key r1"
  note S = S [folded r'_def]
  note A1 = acts_frame [OF ok b1(2) M(2)] and A = actsD [OF b1(2)]
  have fg: "fdata b1 g = r1" using A1(3) by simp
  have sl: "length (internal_SetKeyAt 1 middle_key (fdata b1 g)) = PAGE_SIZE" using S(1) by (simp add: fg r'_def internal_ok_def)
  note a2 = mod_frame_acts [where h = "internal_SetKeyAt 1 middle_key", OF A(1) A1(1) sl]
  have act2: "acts (\<lambda>q d. if q = page_id (frame b g) then r' else if q \<in> {c} then SetParentPageId (bp_GetPageId ?r) d else d) b
      (mod_frame g (internal_SetKeyAt 1 middle_key) b1)"
    by (rule acts_cong [OF acts_trans [OF b1(2) a2]]) (auto simp: A1(2) r'_def)
  have n1: "28 + (?n - 1) * (ks + 4) \<le> 4096"
    by (rule order_trans [OF _ L(5)], intro add_left_mono mult_le_mono1) simp
  have "int (?n - 1) - GetSize ?d = - 1" using i(1) L(6) by simp
  then have "IncreaseSize (- 1) ?d = IncreaseSize (int (?n - 1) - GetSize ?d) ?d" by simp
  note P = page_resize [OF M(4) [unfolded internal_page] _ _ refl refl n1 disjI2 [OF this], simplified]
  have ok': "internal_ok ks (IncreaseSize (- 1) ?d)" using P(1) by (simp add: internal_page)
  have "length (IncreaseSize (- 1) ?d) = PAGE_SIZE" using ok' by (simp add: internal_ok_def)
  note fin = move_finish [where h = "IncreaseSize (- 1)", OF ok m this act2]
  have pt: "pairs 28 (ks + 4) (?n - 1) ?d = take (?n - 1) (pairs 28 (ks + 4) ?n ?d)" by (rule pairs_take) simp
  have en: "internal_entries (IncreaseSize (- 1) ?d) = butlast (internal_entries ?d)"
    using P(4) pt by (simp add: internal_entries_pairs [OF M(4)] internal_entries_pairs [OF ok'] page_pairs_def
        butlast_conv_take take_map)
  have n0: "GetSize ?d \<noteq> 0" using z by simp
  have "internal_MoveLastToFrontOf rops dops f g middle_key b = Inr (mod_frame f (IncreaseSize (- 1)) (mod_frame g (internal_SetKeyAt 1 middle_key) b1))"
    unfolding internal_MoveLastToFrontOf_def v cp Let_def using n0 by simp
  moreover have "internal_entries r' = (k0, c) # (middle_key, snd e) # es" using S(2) I(2) by (simp add: ees)
  ultimately show thesis using that fin ok' S(1,3) I(3) P(2) en by (simp add: ees)
qed

end

section \<open>Properties\<close>

text \<open>The same on the pool of the program: when a move is allowed, and what it does to the pages that are not its
  two own.\<close>

definition move_ok :: "nat \<Rightarrow> frame_id_t \<Rightarrow> frame_id_t \<Rightarrow> page_id_t set \<Rightarrow> (LRUReplacer, disk_manager) bpm \<Rightarrow> bool" where
  "move_ok ks f g C b \<longleftrightarrow> wf_bpm b \<and> f \<in> pinned b \<and> g \<in> pinned b \<and> f \<noteq> g \<and> (\<exists>h. in_pool b h \<and> h \<notin> pinned b) \<and>
     internal_ok ks (fdata b f) \<and> internal_ok ks (fdata b g) \<and>
     (\<forall>c \<in> C. disk_ok_id c \<and> c \<in> disk_allocated (bpm_disk b) \<and> c \<noteq> page_id (frame b f) \<and> c \<noteq> page_id (frame b g))"

definition moved_only :: "frame_id_t \<Rightarrow> frame_id_t \<Rightarrow> page_id_t set \<Rightarrow> (LRUReplacer, disk_manager) bpm \<Rightarrow> (LRUReplacer, disk_manager) bpm \<Rightarrow> bool" where
  "moved_only f g C b b' \<longleftrightarrow> wf_bpm b' \<and> pinned b' = pinned b \<and>
     page_id (frame b' f) = page_id (frame b f) \<and> page_id (frame b' g) = page_id (frame b g) \<and>
     (\<forall>c \<in> C. logical_page b' c = SetParentPageId (bp_GetPageId (fdata b g)) (logical_page b c)) \<and>
     (\<forall>q. disk_ok_id q \<and> q \<notin> C \<and> q \<noteq> page_id (frame b f) \<and> q \<noteq> page_id (frame b g) \<longrightarrow> logical_page b' q = logical_page b q)"

lemma move_ok_ready: "move_ok ks f g C b \<Longrightarrow> D \<subseteq> C \<Longrightarrow> bp.move_ready ks f g D b"
  unfolding move_ok_def bp.move_ready_def bp.spare_def by blast

lemma moved_result:
  assumes ok: "move_ok ks f g C b" "D \<subseteq> C"
    and a: "bp.acts (moved (page_id (frame b f)) d' (page_id (frame b g)) r' D (bp_GetPageId (fdata b g))) b b'"
  shows "fdata b' f = d'" "fdata b' g = r'" "moved_only f g D b b'"
proof -
  have wf: "bp.bp_inv b \<and> dom (page_table b) \<subseteq> disk_allocated (bpm_disk b)" using ok(1) by (simp add: move_ok_def wf_bpm_def)
  note M = bp.move_readyD [OF move_ok_ready [OF ok] wf]
  note F = bp.acts_frame [OF wf a M(1)] and G = bp.acts_frame [OF wf a M(2)] and A = bp.actsD [OF a]
  show "fdata b' f = d'" "fdata b' g = r'" using F(3) G(3) M(6) by (simp_all add: moved_def)
  show "moved_only f g D b b'"
    using A F(2) G(2) M(7) by (auto simp: moved_only_def wf_bpm_def moved_def)
qed

text \<open>C10. Splitting, merging and redistributing internal pages through the buffer pool. With both pages pinned, a
  spare frame and children on other pages: \<^verbatim>\<open>MoveHalfTo\<close> into an empty page cuts the list of pairs in two; \<^verbatim>\<open>MoveAllTo\<close>
  appends everything with the separator as the first key and leaves the page empty; \<^verbatim>\<open>MoveFirstToEndOf\<close> and
  \<^verbatim>\<open>MoveLastToFrontOf\<close> move one child, with the separator as the key at the seam. In every case each moved child,
  and no other page but the two, is changed, by getting the recipient as its parent; nothing stays pinned.\<close>

theorem internal_moves_conserve:
  assumes ok: "move_ok ks f g (snd ` set es) b" and key: "length middle_key = ks" and pos: "0 < GetSize (fdata b f)"
    and fit: "28 + (nat (GetSize (fdata b g)) + nat (GetSize (fdata b f))) * (ks + 4) \<le> PAGE_SIZE"
    and es: "es = internal_entries (fdata b f)" and rs: "rs = internal_entries (fdata b g)"
  shows "(GetSize (fdata b g) = 0 \<longrightarrow> (\<exists>b'. internal_MoveHalfTo lru_ops disk_manager_ops f g b = Inr b' \<and>
      internal_entries (fdata b' f) = take (length es div 2) es \<and> internal_entries (fdata b' g) = drop (length es div 2) es \<and>
      moved_only f g (snd ` set (drop (length es div 2) es)) b b')) \<and>
    (\<exists>b'. internal_MoveAllTo lru_ops disk_manager_ops f g middle_key b = Inr b' \<and> internal_entries (fdata b' f) = [] \<and>
      internal_entries (fdata b' g) = rs @ (middle_key, snd (hd es)) # tl es \<and> moved_only f g (snd ` set es) b b') \<and>
    (\<exists>b'. internal_MoveFirstToEndOf lru_ops disk_manager_ops f g middle_key b = Inr b' \<and> internal_entries (fdata b' f) = tl es \<and>
      internal_entries (fdata b' g) = rs @ [(middle_key, snd (hd es))] \<and> moved_only f g {snd (hd es)} b b') \<and>
    (0 < GetSize (fdata b g) \<longrightarrow> (\<exists>b' k0. internal_MoveLastToFrontOf lru_ops disk_manager_ops f g middle_key b = Inr b' \<and>
      internal_entries (fdata b' f) = butlast es \<and>
      internal_entries (fdata b' g) = (k0, snd (last es)) # (middle_key, snd (hd rs)) # tl rs \<and> moved_only f g {snd (last es)} b b'))"
proof -
  have wf: "bp.bp_inv b \<and> dom (page_table b) \<subseteq> disk_allocated (bpm_disk b)" using ok by (simp add: move_ok_def wf_bpm_def)
  note R = move_ok_ready [OF ok] and Q = moved_result [OF ok [unfolded es]]
  have n: "length es = nat (GetSize (fdata b f))" "es \<noteq> []"
    using pos internal_entries_length [of "fdata b f"] by (auto simp: es)
  have sub: "snd ` set (drop m es) \<subseteq> snd ` set es" "{snd (hd es)} \<subseteq> snd ` set es" "{snd (last es)} \<subseteq> snd ` set es" for m
    using n(2) by (auto dest: in_set_dropD)
  have fits: "28 + (nat (GetSize (fdata b g)) + nat (GetSize (fdata b f))) * (ks + 4) \<le> 4096" using fit by (simp add: PAGE_SIZE_def)
  have fit1: "28 + Suc (nat (GetSize (fdata b g))) * (ks + 4) \<le> 4096"
    by (rule order_trans [OF _ fits], intro add_left_mono mult_le_mono1) (use pos in linarith)
  let ?P = "page_id (frame b f)" and ?Q = "page_id (frame b g)" and ?par = "bp_GetPageId (fdata b g)" and ?s = "nat (GetSize (fdata b f)) div 2"
  show ?thesis
  proof (intro conjI impI)
    assume z: "GetSize (fdata b g) = 0"
    obtain b' d' r' where h: "internal_MoveHalfTo lru_ops disk_manager_ops f g b = Inr b'"
      "bp.acts (moved ?P d' ?Q r' (snd ` set (drop ?s (internal_entries (fdata b f)))) ?par) b b'"
      "internal_entries d' = take ?s (internal_entries (fdata b f))" "internal_entries r' = drop ?s (internal_entries (fdata b f))"
      by (rule bp.MoveHalfTo_law [OF wf z pos refl R [OF sub(1), unfolded es]])
    with Q [OF sub(1) [of ?s, unfolded es] h(2)] n(1)
    show "\<exists>b'. internal_MoveHalfTo lru_ops disk_manager_ops f g b = Inr b' \<and>
      internal_entries (fdata b' f) = take (length es div 2) es \<and> internal_entries (fdata b' g) = drop (length es div 2) es \<and>
      moved_only f g (snd ` set (drop (length es div 2) es)) b b'" by (simp add: es internal_entries_length)
  next
    obtain b' d' r' where h: "internal_MoveAllTo lru_ops disk_manager_ops f g middle_key b = Inr b'"
      "bp.acts (moved ?P d' ?Q r' (snd ` set (internal_entries (fdata b f))) ?par) b b'" "internal_entries d' = []"
      "internal_entries r' = internal_entries (fdata b g) @ (middle_key, snd (hd (internal_entries (fdata b f)))) # tl (internal_entries (fdata b f))"
      by (rule bp.MoveAllTo_law [OF wf pos key fits refl R [OF order_refl, unfolded es]])
    with Q [OF order_refl [of "snd ` set es", unfolded es] h(2)]
    show "\<exists>b'. internal_MoveAllTo lru_ops disk_manager_ops f g middle_key b = Inr b' \<and> internal_entries (fdata b' f) = [] \<and>
      internal_entries (fdata b' g) = rs @ (middle_key, snd (hd es)) # tl es \<and> moved_only f g (snd ` set es) b b'" by (simp add: es rs)
  next
    obtain b' d' r' where h: "internal_MoveFirstToEndOf lru_ops disk_manager_ops f g middle_key b = Inr b'"
      "bp.acts (moved ?P d' ?Q r' {snd (hd (internal_entries (fdata b f)))} ?par) b b'" "internal_entries d' = tl (internal_entries (fdata b f))"
      "internal_entries r' = internal_entries (fdata b g) @ [(middle_key, snd (hd (internal_entries (fdata b f))))]"
      by (rule bp.MoveFirstToEndOf_law [OF wf pos key fit1 refl R [OF sub(2), unfolded es]])
    with Q [OF sub(2) [unfolded es] h(2)]
    show "\<exists>b'. internal_MoveFirstToEndOf lru_ops disk_manager_ops f g middle_key b = Inr b' \<and> internal_entries (fdata b' f) = tl es \<and>
      internal_entries (fdata b' g) = rs @ [(middle_key, snd (hd es))] \<and> moved_only f g {snd (hd es)} b b'" by (simp add: es rs)
  next
    assume z: "0 < GetSize (fdata b g)"
    obtain b' d' r' k0 where h: "internal_MoveLastToFrontOf lru_ops disk_manager_ops f g middle_key b = Inr b'"
      "bp.acts (moved ?P d' ?Q r' {snd (last (internal_entries (fdata b f)))} ?par) b b'" "internal_entries d' = butlast (internal_entries (fdata b f))"
      "internal_entries r' = (k0, snd (last (internal_entries (fdata b f)))) # (middle_key, snd (hd (internal_entries (fdata b g)))) # tl (internal_entries (fdata b g))"
      by (rule bp.MoveLastToFrontOf_law [OF wf pos z key fit1 refl R [OF sub(3), unfolded es]])
    with Q [OF sub(3) [unfolded es] h(2)]
    show "\<exists>b' k0. internal_MoveLastToFrontOf lru_ops disk_manager_ops f g middle_key b = Inr b' \<and>
      internal_entries (fdata b' f) = butlast es \<and>
      internal_entries (fdata b' g) = (k0, snd (last es)) # (middle_key, snd (hd rs)) # tl rs \<and> moved_only f g {snd (last es)} b b'"
      by (simp add: es rs)
  qed
qed

text \<open>A pool of four frames with three new pages.\<close>

lemma pool_NewPage:
  assumes wf: "wf_bpm b" and few: "card (disk_allocated (bpm_disk b)) < 32704" and sp: "in_pool b h" "h \<notin> pinned b"
  obtains b' f p where "wf_bpm b'" "f \<notin> pinned b" "in_pool b f" "pinned b' = insert f (pinned b)" "page_id (frame b' f) = p"
    "disk_ok_id p" "p \<notin> disk_allocated (bpm_disk b)" "disk_allocated (bpm_disk b') = insert p (disk_allocated (bpm_disk b))"
    "pool_size b' = pool_size b" "\<And>g. g \<in> pinned b \<Longrightarrow> frame b' g = frame b g"
proof -
  have ok: "bp.bp_inv b \<and> dom (page_table b) \<subseteq> disk_allocated (bpm_disk b)" using wf by (simp add: wf_bpm_def)
  have room: "disk_room (bpm_disk b)" using disk_room_few [OF _ few] ok bp.inv_butD(3) by blast
  show thesis
  proof (rule bp.NewPage_law [OF ok room])
    fix b' f p assume 1: "bp.bp_inv b' \<and> dom (page_table b') \<subseteq> disk_allocated (bpm_disk b')" "page_table b' p = Some f"
      "disk_ok_id p" "p \<notin> disk_allocated (bpm_disk b)" "disk_allocated (bpm_disk b') = insert p (disk_allocated (bpm_disk b))"
      "f \<in> pinned b'" "f \<notin> pinned b" "pool_size b' = pool_size b" "\<And>g. g \<in> pinned b \<Longrightarrow> frame b' g = frame b g"
      "\<And>g. in_pool b g \<Longrightarrow> g \<noteq> f \<Longrightarrow> frame b' g = frame b g"
    have pool: "in_pool b' = in_pool b" using 1(8) by (simp add: in_pool_def fun_eq_iff)
    have "x \<in> pinned b' \<longleftrightarrow> x \<in> insert f (pinned b)" for x
      using 1(6,10) pool by (cases "x = f") (auto simp: pinned_def)
    then have "pinned b' = insert f (pinned b)" by blast
    moreover have "page_id (frame b' f) = p" "in_pool b f" using bp.resident [OF conjunct1 [OF 1(1)] 1(2)] pool by auto
    ultimately show thesis using that 1 by (simp add: wf_bpm_def)
  qed (use sp in auto)
qed

lemma example_move:
  assumes key: "length key = 16"
  obtains b f g c k0 where "move_ok 16 f g {c} b" "internal_entries (fdata b f) = [(k0, c), (key, c)]" "internal_entries (fdata b g) = []"
    "GetSize (fdata b f) = 2" "GetSize (fdata b g) = 0"
proof -
  let ?b = "BufferPoolManager_init LRUReplacer_init 4 (DiskManager_open [])"
  have 0: "wf_bpm ?b" "pinned ?b = {}" "disk_allocated (bpm_disk ?b) = {}" "pool_size ?b = 4"
    using wf_bpm_init [OF wf_open_empty(1), of 4] wf_open_empty(3)
    by (auto simp: BufferPoolManager_init_def pinned_def in_pool_def Page_init_def)
  have free: "\<exists>h. in_pool b h \<and> h \<notin> S" if "pool_size b = 4" "finite S" "card S \<le> 3" for b :: "(LRUReplacer, disk_manager) bpm" and S
  proof (rule ccontr)
    assume "\<nexists>h. in_pool b h \<and> h \<notin> S"
    then have "{0, 1, 2, 3} \<subseteq> S" using that(1) by (auto simp: in_pool_def)
    then have "card {0 :: int, 1, 2, 3} \<le> card S" by (rule card_mono [OF that(2)])
    with that(3) show False by simp
  qed
  obtain h0 where "in_pool ?b h0" "h0 \<notin> pinned ?b" using free [OF 0(4), of "{}"] 0(2) by auto
  from pool_NewPage [OF 0(1) _ this] obtain b1 f1 p1 where 1: "wf_bpm b1" "pinned b1 = {f1}" "page_id (frame b1 f1) = p1" "disk_ok_id p1"
    "disk_allocated (bpm_disk b1) = {p1}" "pool_size b1 = 4" using 0 by (metis (no_types, lifting) card.empty zero_less_numeral)
  obtain h1 where "in_pool b1 h1" "h1 \<notin> pinned b1" using free [OF 1(6), of "{f1}"] 1(2) by auto
  from pool_NewPage [OF 1(1) _ this] 1 obtain b2 f2 p2 where 2: "wf_bpm b2" "f2 \<noteq> f1" "pinned b2 = {f2, f1}" "page_id (frame b2 f2) = p2"
    "disk_ok_id p2" "p2 \<noteq> p1" "disk_allocated (bpm_disk b2) = {p2, p1}" "pool_size b2 = 4" "page_id (frame b2 f1) = p1"
    by (auto, metis singletonI)
  obtain h2 where "in_pool b2 h2" "h2 \<notin> pinned b2"
    using free [OF 2(8), of "{f2, f1}"] 2(3) card_length [of "[f2, f1]"] by auto
  from pool_NewPage [OF 2(1) _ this] 2 obtain b3 f3 p3 where 3: "wf_bpm b3" "pinned b3 = {f3, f2, f1}"
    "disk_ok_id p3" "p3 \<noteq> p1" "p3 \<noteq> p2" "disk_allocated (bpm_disk b3) = {p3, p2, p1}" "pool_size b3 = 4"
    "page_id (frame b3 f1) = p1" "page_id (frame b3 f2) = p2"
    using card_length [of "[p2, p1]"] by (auto, metis insertCI)
  have ok3: "bp.bp_inv b3 \<and> dom (page_table b3) \<subseteq> disk_allocated (bpm_disk b3)" using 3(1) by (simp add: wf_bpm_def)
  define init where "init = internal_Init 9 INVALID_PAGE_ID (int 16) 100 (replicate PAGE_SIZE 0)"
  have init: "internal_ok 16 init" "internal_entries init = []" "GetSize init = 0"
    unfolding init_def by (rule internal_Init_ok; simp)+
  define X where "X = PopulateNewRoot p3 key p3 init"
  have "28 + 2 * (16 + 4) \<le> (4096 :: nat)" by simp
  from PopulateNewRoot_effect [OF init(1) key this, of p3 p3, folded X_def]
  obtain k0 where X: "internal_ok 16 X" "internal_entries X = [(k0, p3), (key, p3)]" "GetSize X = 2" by metis
  have len: "length X = PAGE_SIZE" "length init = PAGE_SIZE" using X(1) init(1) by (simp_all add: internal_ok_def)
  have f1: "f1 \<in> pinned b3" "f2 \<in> pinned b3" using 3(2) by simp_all
  define b4 where "b4 = write_frame f1 X b3"
  have a4: "bp.acts (\<lambda>q d. if q = p1 then X else d) b3 b4"
    using bp.acts_write_frame [where h = "\<lambda>_. X", OF ok3 f1(1)] len by (simp add: b4_def 3(8))
  note F4 = bp.acts_frame [OF ok3 a4] and A4 = bp.actsD [OF a4]
  have f4: "fdata b4 f1 = X" "page_id (frame b4 f1) = p1" "page_id (frame b4 f2) = p2" "f2 \<in> pinned b4" "f1 \<in> pinned b4"
    using F4 [OF f1(1)] F4 [OF f1(2)] 3(8,9) by simp_all
  define b5 where "b5 = write_frame f2 init b4"
  have a5: "bp.acts (\<lambda>q d. if q = p2 then init else d) b4 b5"
    using bp.acts_write_frame [where h = "\<lambda>_. init", OF A4(1) f4(4)] len by (simp add: b5_def f4(3))
  note F5 = bp.acts_frame [OF A4(1) a5] and A5 = bp.actsD [OF a5]
  have f5: "fdata b5 f1 = X" "fdata b5 f2 = init" "page_id (frame b5 f1) = p1" "page_id (frame b5 f2) = p2"
    using F5 [OF f4(5)] F5 [OF f4(4)] f4 2(6) by simp_all
  have pin: "pinned b5 = {f3, f2, f1}" "disk_allocated (bpm_disk b5) = {p3, p2, p1}" "pool_size b5 = 4"
    using A5(3,4) A4(3,4) 3(2,6,7) a4 a5 by (simp_all add: bp.acts_def)
  have "card {f3, f2, f1} \<le> 3" using card_length [of "[f3, f2, f1]"] by simp
  then obtain h where h: "in_pool b5 h" "h \<notin> pinned b5" using free [OF pin(3), of "{f3, f2, f1}"] pin(1) by auto
  have "move_ok 16 f1 f2 {p3} b5"
    unfolding move_ok_def using A5(1) pin f5 X(1) init(1) h 2(2) 3(3-5) by (auto simp: wf_bpm_def)
  then show thesis using that f5 X init by simp
qed

theorem internal_moves_conserve_witness:
  "\<exists>b f g es b'. es = internal_entries (fdata b f) \<and> length es = 2 \<and> move_ok 16 f g (snd ` set es) b \<and>
     internal_MoveHalfTo lru_ops disk_manager_ops f g b = Inr b' \<and> internal_entries (fdata b' g) = drop 1 es"
proof -
  have key: "length (replicate 16 0 :: byte list) = 16" by simp
  obtain b f g c k0 where 1: "move_ok 16 f g {c} b" "internal_entries (fdata b f) = [(k0, c), (replicate 16 0, c)]"
    "internal_entries (fdata b g) = []" "GetSize (fdata b f) = 2" "GetSize (fdata b g) = 0"
    by (rule example_move [OF key])
  let ?es = "internal_entries (fdata b f)"
  have m: "move_ok 16 f g (snd ` set ?es) b" using 1(1,2) by simp
  have "28 + (nat (GetSize (fdata b g)) + nat (GetSize (fdata b f))) * (16 + 4) \<le> PAGE_SIZE"
    using 1(4,5) by (simp add: PAGE_SIZE_def)
  from internal_moves_conserve [OF m key _ this refl refl] 1
  obtain b' where "internal_MoveHalfTo lru_ops disk_manager_ops f g b = Inr b'" "internal_entries (fdata b' g) = drop (length ?es div 2) ?es" by auto
  then show ?thesis using m 1(2) by (intro exI [of _ b] exI [of _ f] exI [of _ g] exI [of _ ?es] exI [of _ b']) simp
qed

end
