(* ===== verification/Pool_Session.thy ===== *)
theory Pool_Session
  imports Pool_Client
begin

text \<open>
  The buffer pool as its clients see it: a map from page numbers to page contents (\<open>store\<close>), the number of
  pins on every page (\<open>pins\<close>), and the pages a client has changed and not yet reported as dirty (\<open>unsaved\<close>). Fetching,
  unpinning, creating and writing pages act on these three; the brackets at the end treat a fetch and its
  unpin as one, so that a client is reasoned about without the frames, the replacer and the disk.
\<close>

definition pins :: "('r, 'd) bpm \<Rightarrow> page_id_t \<Rightarrow> int" where
  "pins b p = (case page_table b p of None \<Rightarrow> 0 | Some f \<Rightarrow> pin_count (frame b f))"

definition spares :: "('r, 'd) bpm \<Rightarrow> nat" where
  "spares b = pool_size b - card {p. 0 < pins b p}"

context buffer_pool
begin

definition store :: "('r, 'd) bpm \<Rightarrow> page_id_t \<rightharpoonup> byte list" where
  "store b p = (if p \<in> allocated (bpm_disk b) \<and> ok_id p then Some (view b p) else None)"

definition unsaved :: "('r, 'd) bpm \<Rightarrow> page_id_t set" where
  "unsaved b = {p. \<exists>f. page_table b p = Some f \<and> \<not> is_dirty (frame b f) \<and>
     page_data (frame b f) \<noteq> content (bpm_disk b) p}"

lemma storeD: "store b p = Some d \<Longrightarrow> p \<in> allocated (bpm_disk b) \<and> ok_id p \<and> d = view b p \<and> p \<noteq> INVALID_PAGE_ID"
  using ok_id_valid by (auto simp: store_def split: if_splits)

lemma store_length: "bp_ok b \<Longrightarrow> store b p = Some d \<Longrightarrow> length d = PAGE_SIZE"
  using view_length storeD by blast

lemma pins_frame: "bp_inv b \<Longrightarrow> 0 < pins b p \<longleftrightarrow> (\<exists>f. page_table b p = Some f \<and> f \<in> pinned b)"
  by (auto simp: pins_def pinned_def dest: resident(1) split: option.splits)

lemma pins_nonneg: "bp_inv b \<Longrightarrow> 0 \<le> pins b p"
  by (auto simp: pins_def dest: resident(7) split: option.splits)

lemma finite_pinned [simp]: "finite {f. in_pool b f}"
proof -
  have "{f. in_pool b f} = {0..<int (pool_size b)}" by (auto simp: in_pool_def)
  then show ?thesis by simp
qed

lemma pinned_pages:
  assumes "bp_inv b"
  shows "{p. 0 < pins b p} = (\<lambda>f. page_id (frame b f)) ` pinned b" "finite {p. 0 < pins b p}"
proof -
  note I = inv_butD [OF assms, simplified]
  have hit: "page_table b (page_id (frame b f)) = Some f" if "f \<in> pinned b" for f
    using that iffD2 [OF I(7)] I(11) [of f] by (fastforce simp: pinned_def)
  show eq: "{p. 0 < pins b p} = (\<lambda>f. page_id (frame b f)) ` pinned b"
  proof (intro equalityI subsetI)
    fix p assume "p \<in> {p. 0 < pins b p}"
    then obtain f where f: "page_table b p = Some f" "f \<in> pinned b" using pins_frame [OF assms] by auto
    then show "p \<in> (\<lambda>f. page_id (frame b f)) ` pinned b" using resident(2) [OF assms f(1)] by force
  next
    fix p assume "p \<in> (\<lambda>f. page_id (frame b f)) ` pinned b"
    then obtain f where "p = page_id (frame b f)" "f \<in> pinned b" by blast
    then show "p \<in> {p. 0 < pins b p}" using hit [of f] pins_frame [OF assms] by simp
  qed
  have "finite (pinned b)" by (rule finite_subset [OF _ finite_pinned [of b]]) (auto simp: pinned_def)
  then show "finite {p. 0 < pins b p}" unfolding eq by simp
qed

lemma pinned_resident: "bp_inv b \<Longrightarrow> f \<in> pinned b \<Longrightarrow> page_table b (page_id (frame b f)) = Some f"
  using inv_butD(7,11) [of "{}" b] by (force simp: pinned_def)

lemma spares_frame:
  assumes "bp_inv b" "0 < spares b"
  obtains f where "in_pool b f" "f \<notin> pinned b"
proof -
  have "card {p. 0 < pins b p} < pool_size b" using assms(2) by (simp add: spares_def)
  have eq: "{f. in_pool b f} = {0..<int (pool_size b)}" by (auto simp: in_pool_def)
  have card: "card {f. in_pool b f} = pool_size b" unfolding eq by simp
  have inj: "inj_on (\<lambda>f. page_id (frame b f)) (pinned b)"
  proof (rule inj_onI)
    fix f g assume fg: "f \<in> pinned b" "g \<in> pinned b" "page_id (frame b f) = page_id (frame b g)"
    then show "f = g" using pinned_resident [OF assms(1)] by (metis option.inject)
  qed
  have "card (pinned b) < card {f. in_pool b f}"
    using \<open>card {p. 0 < pins b p} < pool_size b\<close> card_image [OF inj] pinned_pages(1) [OF assms(1)] card by simp
  then have "pinned b \<noteq> {f. in_pool b f}" by auto
  moreover have "pinned b \<subseteq> {f. in_pool b f}" by (auto simp: pinned_def)
  ultimately show thesis using that by blast
qed

text \<open>What a fetch does.\<close>

lemma session_Fetch:
  assumes ok: "bp_ok b" and p: "store b p = Some d" and av: "0 < spares b \<or> 0 < pins b p"
  obtains b' f where "FetchPage rops dops p b = Inr (b', Some f)" "bp_ok b'" "page_table b' p = Some f"
    "page_data (frame b' f) = d" "store b' = store b" "pins b' = (pins b)(p := pins b p + 1)"
    "unsaved b' \<subseteq> unsaved b" "\<And>q. 0 < pins b q \<Longrightarrow> page_table b' q = page_table b q"
    "pool_size b' = pool_size b" "room (bpm_disk b') = room (bpm_disk b)"
proof (cases "page_table b p")
  case (Some f)
  note inv = conjunct1 [OF ok] and P = storeD [OF p]
  show thesis
  proof (rule FetchPage_hit [OF inv Some])
    fix b' assume 1: "FetchPage rops dops p b = Inr (b', Some f)" "bp_inv b'" "page_table b' = page_table b"
      "bpm_disk b' = bpm_disk b" "pool_size b' = pool_size b" "in_pool b f"
      "frame b' f = (frame b f)\<lparr>pin_count := pin_count (frame b f) + 1\<rparr>"
      "\<And>g. in_pool b g \<Longrightarrow> g \<noteq> f \<Longrightarrow> frame b' g = frame b g" "\<And>q. ok_id q \<Longrightarrow> view b' q = view b q"
    have oth: "frame b' g = frame b g" if "page_table b q = Some g" "q \<noteq> p" for q g
      using 1(8) [of g] resident [OF inv that(1)] resident [OF inv Some] that(2) by auto
    have "pins b' q = ((pins b)(p := pins b p + 1)) q" for q
      using 1(3,7) oth [of q] Some by (auto simp: pins_def split: option.splits)
    moreover have "unsaved b' \<subseteq> unsaved b"
    proof
      fix q assume "q \<in> unsaved b'"
      then show "q \<in> unsaved b" using 1(3,4,7) oth [of q] Some by (cases "q = p") (auto simp: unsaved_def)
    qed
    moreover have "page_data (frame b' f) = d" using 1(7) P Some by (simp add: bpm_view_def)
    ultimately show thesis using that [of b' f] 1 ok Some by (auto simp: store_def fun_eq_iff)
  qed
next
  case None
  note inv = conjunct1 [OF ok] and P = storeD [OF p]
  have "\<not> 0 < pins b p" using None by (simp add: pins_def)
  then obtain f0 where f0: "in_pool b f0" "f0 \<notin> pinned b" using av spares_frame [OF inv] by blast
  show thesis
  proof (rule FetchPage_miss [OF inv None])
    fix b' f assume 1: "FetchPage rops dops p b = Inr (b', Some f)" "bp_inv b'" "in_pool b f" "f \<notin> pinned b"
      "pool_size b' = pool_size b" "dom (page_table b') \<subseteq> insert p (dom (page_table b))"
      "page_table b' p = Some f" "pin_count (frame b' f) = 1" "page_data (frame b' f) = view b p"
      "\<And>g. in_pool b g \<Longrightarrow> g \<noteq> f \<Longrightarrow> frame b' g = frame b g" "\<And>q. ok_id q \<Longrightarrow> view b' q = view b q"
      "allocated (bpm_disk b') = allocated (bpm_disk b)" "room (bpm_disk b') = room (bpm_disk b)"
      "\<not> is_dirty (frame b' f)" "content (bpm_disk b') p = view b p"
      "\<And>g. in_pool b g \<Longrightarrow> g \<noteq> f \<Longrightarrow> page_id (frame b g) \<noteq> INVALID_PAGE_ID \<Longrightarrow>
       content (bpm_disk b') (page_id (frame b g)) = content (bpm_disk b) (page_id (frame b g))"
      "\<And>q. q \<noteq> p \<Longrightarrow> page_table b' q = (if page_table b q = Some f then None else page_table b q)"
    have z: "pin_count (frame b f) = 0"
      using 1(3,4) inv_butD(10) [OF inv 1(3)] by (simp add: pinned_def)
    have oth: "frame b' g = frame b g" "content (bpm_disk b') q = content (bpm_disk b) q"
      if "page_table b q = Some g" "g \<noteq> f" for q g
      using 1(10) [of g] 1(16) [of g] resident [OF inv that(1)] that(2) by auto
    have pin: "pins b' q = ((pins b)(p := pins b p + 1)) q" for q
      using 1(7,8) 1(17) [of q] oth [of q] None z
      by (cases "page_table b q") (auto simp: pins_def)
    have "unsaved b' \<subseteq> unsaved b"
    proof
      fix q assume q: "q \<in> unsaved b'"
      then have "q \<noteq> p" using 1(7,9,15) by (auto simp: unsaved_def)
      with q show "q \<in> unsaved b" using 1(17) [of q] oth [of q] by (auto simp: unsaved_def split: if_splits)
    qed
    moreover have "page_table b' q = page_table b q" if "0 < pins b q" for q
    proof -
      have "q \<noteq> p" "page_table b q \<noteq> Some f" using that None z by (auto simp: pins_def split: option.splits)
      then show ?thesis using 1(17) by simp
    qed
    moreover have "dom (page_table b') \<subseteq> allocated (bpm_disk b')" using 1(6,12) ok P by auto
    moreover have "pins b' = (pins b)(p := pins b p + 1)" using pin by blast
    ultimately show thesis using that [of b' f] 1 P by (auto simp: store_def fun_eq_iff)
  qed (use f0 P in auto)
qed

lemma session_Unpin:
  assumes ok: "bp_ok b" and pin: "0 < pins b p" and honest: "dirty \<or> p \<notin> unsaved b"
  obtains b' where "UnpinPage rops p dirty b = (b', True)" "bp_ok b'" "page_table b' = page_table b"
    "store b' = store b" "pins b' = (pins b)(p := pins b p - 1)"
    "unsaved b' \<subseteq> unsaved b - (if dirty then {p} else {})" "pool_size b' = pool_size b" "bpm_disk b' = bpm_disk b"
proof -
  note inv = conjunct1 [OF ok]
  obtain f where f: "page_table b p = Some f" "0 < pin_count (frame b f)"
    using pin by (auto simp: pins_def split: option.splits)
  have h: "dirty \<or> is_dirty (frame b f) \<or> page_data (frame b f) = content (bpm_disk b) p"
    using honest f(1) by (auto simp: unsaved_def)
  show thesis
  proof (rule UnpinPage_law [OF ok f h])
    fix b' assume 1: "UnpinPage rops p dirty b = (b', True)" "bp_ok b'" "page_table b' = page_table b"
      "frame b' f = (frame b f)\<lparr>pin_count := pin_count (frame b f) - 1, is_dirty := is_dirty (frame b f) \<or> dirty\<rparr>"
      "\<And>g. in_pool b g \<Longrightarrow> g \<noteq> f \<Longrightarrow> frame b' g = frame b g" "\<And>q. ok_id q \<Longrightarrow> view b' q = view b q"
      "bpm_disk b' = bpm_disk b" "pool_size b' = pool_size b"
    have oth: "frame b' g = frame b g" if "page_table b q = Some g" "q \<noteq> p" for q g
      using 1(5) [of g] resident [OF inv that(1)] resident [OF inv f(1)] that(2) by auto
    have "pins b' q = ((pins b)(p := pins b p - 1)) q" for q
      using 1(3,4) oth [of q] f(1) by (auto simp: pins_def split: option.splits)
    moreover have "unsaved b' \<subseteq> unsaved b - (if dirty then {p} else {})"
    proof
      fix q assume "q \<in> unsaved b'"
      then show "q \<in> unsaved b - (if dirty then {p} else {})"
        using 1(3,4,7) oth [of q] f(1) by (cases "q = p") (auto simp: unsaved_def)
    qed
    ultimately show thesis using that [of b'] 1 by (auto simp: store_def fun_eq_iff)
  qed
qed

lemma session_write:
  assumes ok: "bp_ok b" and f: "page_table b p = Some f" "0 < pins b p" and len: "length data = PAGE_SIZE"
  shows "bp_ok (write_frame f data b)" "store (write_frame f data b) = (store b)(p \<mapsto> data)"
    "pins (write_frame f data b) = pins b" "unsaved (write_frame f data b) \<subseteq> insert p (unsaved b)"
    "page_table (write_frame f data b) = page_table b" "pool_size (write_frame f data b) = pool_size b"
    "bpm_disk (write_frame f data b) = bpm_disk b" "page_data (frame (write_frame f data b) f) = data"
proof -
  note inv = conjunct1 [OF ok]
  have pin: "0 < pin_count (frame b f)" using f by (simp add: pins_def)
  note R = resident [OF inv f(1)] and W = write_frame_law [OF ok f(1) pin len]
  note F = write_frame_frames [OF R(1) inv_butD(1) [OF inv], where data = data]
  have oth: "frame (write_frame f data b) g = frame b g" if "page_table b q = Some g" "q \<noteq> p" for q g
    using F(2) [of g] resident [OF inv that(1)] R that(2) by auto
  show "bp_ok (write_frame f data b)" by (rule W(1))
  have "p \<in> allocated (bpm_disk b)" using ok f(1) by auto
  then show "store (write_frame f data b) = (store b)(p \<mapsto> data)"
    using W(2,3) F(5) R(4) by (auto simp: store_def fun_eq_iff)
  show "pins (write_frame f data b) = pins b"
  proof
    fix q show "pins (write_frame f data b) q = pins b q"
      using F(1,3) oth [of q] f(1) by (cases "q = p"; cases "page_table b q") (auto simp: pins_def)
  qed
  show "unsaved (write_frame f data b) \<subseteq> insert p (unsaved b)"
  proof
    fix q assume "q \<in> unsaved (write_frame f data b)"
    then show "q \<in> insert p (unsaved b)" using F(3,5) oth [of q] by (cases "q = p") (auto simp: unsaved_def)
  qed
qed (use resident(1) [OF conjunct1 [OF ok] f(1)] inv_butD(1) [OF conjunct1 [OF ok]] in \<open>simp_all add: write_frame_frames\<close>)

lemma session_New:
  assumes ok: "bp_ok b" and room: "room (bpm_disk b)" and sp: "0 < spares b"
  obtains b' f p where "NewPage rops dops b = Inr (b', Some (f, p))" "bp_ok b'" "page_table b' p = Some f"
    "page_data (frame b' f) = zero_page" "p \<notin> allocated (bpm_disk b)" "store b p = None" "p \<noteq> INVALID_PAGE_ID" "pins b p = 0"
    "store b' = (store b)(p \<mapsto> zero_page)" "pins b' = (pins b)(p := 1)"
    "unsaved b' \<subseteq> insert p (unsaved b)" "\<And>q. 0 < pins b q \<Longrightarrow> page_table b' q = page_table b q"
    "pool_size b' = pool_size b"
proof -
  note inv = conjunct1 [OF ok]
  obtain f0 where f0: "in_pool b f0" "f0 \<notin> pinned b" using spares_frame [OF inv sp] .
  show thesis
  proof (rule NewPage_law [OF ok room])
    fix b' f p assume 1: "NewPage rops dops b = Inr (b', Some (f, p))" "bp_ok b'" "page_table b' p = Some f"
      "ok_id p" "p \<notin> allocated (bpm_disk b)" "allocated (bpm_disk b') = insert p (allocated (bpm_disk b))"
      "f \<in> pinned b'" "f \<notin> pinned b" "pool_size b' = pool_size b" "page_data (frame b' f) = zero_page" "pin_count (frame b' f) = 1"
      "\<And>g. g \<in> pinned b \<Longrightarrow> frame b' g = frame b g"
      "\<And>q. ok_id q \<Longrightarrow> q \<noteq> p \<Longrightarrow> view b' q = view b q"
      "\<And>g. in_pool b g \<Longrightarrow> g \<noteq> f \<Longrightarrow> frame b' g = frame b g"
      "\<And>g. in_pool b g \<Longrightarrow> g \<noteq> f \<Longrightarrow> page_id (frame b g) \<noteq> INVALID_PAGE_ID \<Longrightarrow>
       content (bpm_disk b') (page_id (frame b g)) = content (bpm_disk b) (page_id (frame b g))"
      "\<And>q. q \<noteq> p \<Longrightarrow> page_table b' q = (if page_table b q = Some f then None else page_table b q)"
    have none: "page_table b p = None" using ok 1(5) by auto
    have fp: "in_pool b f" using 1(7,9) by (simp add: pinned_def in_pool_def)
    have z: "pin_count (frame b f) = 0" using 1(8) fp inv_butD(10) [OF inv fp] by (simp add: pinned_def)
    have oth: "frame b' g = frame b g" "content (bpm_disk b') q = content (bpm_disk b) q"
      if "page_table b q = Some g" "g \<noteq> f" for q g
      using 1(14) [of g] 1(15) [of g] resident [OF inv that(1)] that(2) by auto
    have pin: "pins b' q = ((pins b)(p := 1)) q" for q
      using 1(3,11) 1(16) [of q] oth [of q] z by (cases "page_table b q") (auto simp: pins_def)
    have "unsaved b' \<subseteq> insert p (unsaved b)"
    proof
      fix q assume "q \<in> unsaved b'"
      then show "q \<in> insert p (unsaved b)"
        using 1(16) [of q] oth [of q] by (cases "q = p") (auto simp: unsaved_def split: if_splits)
    qed
    moreover have "page_table b' q = page_table b q" if "0 < pins b q" for q
    proof -
      have "q \<noteq> p" "page_table b q \<noteq> Some f" using that none z by (auto simp: pins_def split: option.splits)
      then show ?thesis using 1(16) by simp
    qed
    moreover have "view b' p = zero_page" using 1(3,10) by (simp add: bpm_view_def)
    moreover have "pins b' = (pins b)(p := 1)" "pins b p = 0" using pin none by (auto simp: pins_def)
    ultimately show thesis using that [of b' f p] 1 ok_id_valid by (auto simp: store_def fun_eq_iff)
  qed (use f0 in auto)
qed

lemma New_allocated:
  assumes "bp_ok b" "room (bpm_disk b)" "0 < spares b" "NewPage rops dops b = Inr (b', Some (f, p))"
  shows "allocated (bpm_disk b') = insert p (allocated (bpm_disk b))"
proof -
  obtain f0 where "in_pool b f0" "f0 \<notin> pinned b" using spares_frame [OF conjunct1 [OF assms(1)] assms(3)] .
  with assms(4) show ?thesis by (cases rule: NewPage_law [OF assms(1,2)]) auto
qed

section \<open>Balanced work\<close>

text \<open>Work that gives back every pin it takes. \<open>W\<close> are the pages it changed without reporting them dirty, which
  it may only do to pages that are pinned around it.\<close>

definition runs :: "page_id_t set \<Rightarrow> ('r, 'd) bpm \<Rightarrow> ('r, 'd) bpm \<Rightarrow> bool" where
  "runs W b b' \<longleftrightarrow> bp_ok b' \<and> pool_size b' = pool_size b \<and> pins b' = pins b \<and>
     (\<forall>q. 0 < pins b q \<longrightarrow> page_table b' q = page_table b q) \<and> unsaved b' \<subseteq> unsaved b \<union> W"

lemma runsD:
  assumes "runs W b b'"
  shows "bp_ok b'" "pool_size b' = pool_size b" "pins b' = pins b"
    "\<And>q. 0 < pins b q \<Longrightarrow> page_table b' q = page_table b q" "unsaved b' \<subseteq> unsaved b \<union> W" "spares b' = spares b"
  using assms unfolding runs_def spares_def by auto

lemma runs_refl: "bp_ok b \<Longrightarrow> runs {} b b"
  by (simp add: runs_def)

lemma runs_trans: "runs W b b1 \<Longrightarrow> runs V b1 b2 \<Longrightarrow> runs (W \<union> V) b b2"
  by (fastforce simp: runs_def)

lemma runs_trans0: "runs {} b b1 \<Longrightarrow> runs {} b1 b2 \<Longrightarrow> runs {} b b2"
  using runs_trans [of "{}" b b1 "{}" b2] by simp

lemma runs_mono: "runs W b b' \<Longrightarrow> W \<subseteq> V \<Longrightarrow> runs V b b'"
  by (auto simp: runs_def)

lemma runs_frame:
  assumes "runs W b b'" "page_table b p = Some f" "0 < pins b p"
  shows "page_table b' p = Some f" "0 < pins b' p" "store b' p = Some (page_data (frame b' f))"
proof -
  show t: "page_table b' p = Some f" "0 < pins b' p" using runsD [OF assms(1)] assms(2,3) by simp_all
  show "store b' p = Some (page_data (frame b' f))"
    using t runsD(1) [OF assms(1)] resident(4) [of b' p f] by (auto simp: store_def bpm_view_def)
qed

lemma runs_write:
  assumes ok: "bp_ok b" and f: "page_table b p = Some f" "0 < pins b p" and len: "length data = PAGE_SIZE"
  shows "runs {p} b (write_frame f data b)" "store (write_frame f data b) = (store b)(p \<mapsto> data)"
    "bpm_disk (write_frame f data b) = bpm_disk b" "page_data (frame (write_frame f data b) f) = data"
  using session_write [OF assms] by (auto simp: runs_def)

text \<open>A page is fetched, balanced work is done, and the page is unpinned; dirty, unless it is as it was.\<close>

lemma bracket_Fetch:
  assumes ok: "bp_ok b" and p: "store b p = Some d" and sp: "n < spares b"
  obtains b1 f where "FetchPage rops dops p b = Inr (b1, Some f)" "bp_ok b1" "page_table b1 p = Some f"
    "0 < pins b1 p" "page_data (frame b1 f) = d" "store b1 = store b" "n \<le> spares b1" "unsaved b1 \<subseteq> unsaved b"
    "room (bpm_disk b1) = room (bpm_disk b)" "\<And>q. 0 < pins b q \<Longrightarrow> page_table b1 q = page_table b q"
    "\<And>b2 W dirty. runs W b1 b2 \<Longrightarrow> dirty \<or> p \<notin> W \<union> unsaved b \<Longrightarrow>
       \<exists>b3. UnpinPage rops p dirty b2 = (b3, True) \<and> runs (W - {p}) b b3 \<and> store b3 = store b2 \<and>
         bpm_disk b3 = bpm_disk b2"
proof -
  have av: "0 < spares b \<or> 0 < pins b p" using sp by auto
  show thesis
  proof (rule session_Fetch [OF ok p av])
    fix b1 f assume 1: "FetchPage rops dops p b = Inr (b1, Some f)" "bp_ok b1" "page_table b1 p = Some f"
      "page_data (frame b1 f) = d" "store b1 = store b" "pins b1 = (pins b)(p := pins b p + 1)"
      "unsaved b1 \<subseteq> unsaved b" "\<And>q. 0 < pins b q \<Longrightarrow> page_table b1 q = page_table b q"
      "pool_size b1 = pool_size b" "room (bpm_disk b1) = room (bpm_disk b)"
    note nn = pins_nonneg [OF conjunct1 [OF ok]]
    have "{q. 0 < pins b1 q} \<subseteq> insert p {q. 0 < pins b q}" using 1(6) by auto
    then have "card {q. 0 < pins b1 q} \<le> card (insert p {q. 0 < pins b q})"
      using pinned_pages(2) [OF conjunct1 [OF ok]] by (intro card_mono) auto
    also have "\<dots> \<le> Suc (card {q. 0 < pins b q})" by (rule card_insert_le_m1) simp_all
    finally have sp1: "n \<le> spares b1" using sp 1(9) by (simp add: spares_def)
    have close: "\<exists>b3. UnpinPage rops p dirty b2 = (b3, True) \<and> runs (W - {p}) b b3 \<and> store b3 = store b2 \<and>
         bpm_disk b3 = bpm_disk b2"
      if r: "runs W b1 b2" and h: "dirty \<or> p \<notin> W \<union> unsaved b" for b2 W dirty
    proof -
      note R = runsD [OF r]
      have pin: "0 < pins b2 p" using R(3) 1(6) nn [of p] by simp
      have honest: "dirty \<or> p \<notin> unsaved b2" using h R(5) 1(7) by auto
      obtain b3 where 3: "UnpinPage rops p dirty b2 = (b3, True)" "bp_ok b3" "page_table b3 = page_table b2"
        "store b3 = store b2" "pins b3 = (pins b2)(p := pins b2 p - 1)"
        "unsaved b3 \<subseteq> unsaved b2 - (if dirty then {p} else {})" "pool_size b3 = pool_size b2" "bpm_disk b3 = bpm_disk b2"
        by (rule session_Unpin [OF R(1) pin honest])
      have "pins b3 = pins b" using 3(5) R(3) 1(6) by (auto simp: fun_eq_iff)
      moreover have "page_table b3 q = page_table b q" if "0 < pins b q" for q
        using 3(3) R(4) [of q] 1(6,8) that nn [of q] by (cases "q = p") auto
      moreover have "unsaved b3 \<subseteq> unsaved b \<union> (W - {p})"
        using 3(6) R(5) 1(7) h by (cases dirty) auto
      ultimately have "runs (W - {p}) b b3" using 3(2,7) R(2) 1(9) unfolding runs_def by simp
      with 3 show ?thesis by blast
    qed
    show thesis by (rule that [OF 1(1-3) _ 1(4,5) sp1 1(7) 1(10) 1(8) close]) (use 1(6) nn [of p] in simp_all)
  qed
qed

definition closes :: "page_id_t \<Rightarrow> ('r, 'd) bpm \<Rightarrow> ('r, 'd) bpm \<Rightarrow> bool" where
  "closes p b b1 \<longleftrightarrow> (\<forall>b2 W. runs W b1 b2 \<longrightarrow> (\<exists>b3. UnpinPage rops p True b2 = (b3, True) \<and> runs (W - {p}) b b3 \<and>
     store b3 = store b2 \<and> bpm_disk b3 = bpm_disk b2))"

lemma closesE:
  assumes "closes p b b1" "runs W b1 b2"
  obtains b3 where "UnpinPage rops p True b2 = (b3, True)" "runs (W - {p}) b b3" "store b3 = store b2" "bpm_disk b3 = bpm_disk b2"
  using assms unfolding closes_def by blast

lemma use_page:
  assumes ok: "bp_ok b" and p: "store b p = Some d" and sp: "n < spares b"
  obtains b1 f where "FetchPage rops dops p b = Inr (b1, Some f)" "bp_ok b1" "page_table b1 p = Some f"
    "0 < pins b1 p" "fdata b1 f = d" "store b1 = store b" "n \<le> spares b1" "room (bpm_disk b1) = room (bpm_disk b)"
    "closes p b b1"
proof (rule bracket_Fetch [OF assms])
  fix b1 f assume 1: "FetchPage rops dops p b = Inr (b1, Some f)" "bp_ok b1" "page_table b1 p = Some f"
    "0 < pins b1 p" "fdata b1 f = d" "store b1 = store b" "n \<le> spares b1" "room (bpm_disk b1) = room (bpm_disk b)"
    "\<And>b2 W dirty. runs W b1 b2 \<Longrightarrow> dirty \<or> p \<notin> W \<union> unsaved b \<Longrightarrow>
       \<exists>b3. UnpinPage rops p dirty b2 = (b3, True) \<and> runs (W - {p}) b b3 \<and> store b3 = store b2 \<and>
         bpm_disk b3 = bpm_disk b2"
  have "closes p b b1" unfolding closes_def using 1(9) [OF _ disjI1 [OF TrueI]] by blast
  with 1(1-8) show thesis by (rule that)
qed

text \<open>A page is only read.\<close>

lemma session_read:
  assumes ok: "bp_ok b" and p: "store b p = Some d" and sp: "0 < spares b" and clean: "p \<notin> unsaved b"
  obtains b1 f b2 where "FetchPage rops dops p b = Inr (b1, Some f)" "fdata b1 f = d"
    "UnpinPage rops p False b1 = (b2, True)" "runs {} b b2" "store b2 = store b" "room (bpm_disk b2) = room (bpm_disk b)"
proof (rule bracket_Fetch [OF ok p sp])
  fix b1 f assume 1: "FetchPage rops dops p b = Inr (b1, Some f)" "bp_ok b1" "fdata b1 f = d" "store b1 = store b"
    "room (bpm_disk b1) = room (bpm_disk b)"
    "\<And>b2 W dirty. runs W b1 b2 \<Longrightarrow> dirty \<or> p \<notin> W \<union> unsaved b \<Longrightarrow>
       \<exists>b3. UnpinPage rops p dirty b2 = (b3, True) \<and> runs (W - {p}) b b3 \<and> store b3 = store b2 \<and>
         bpm_disk b3 = bpm_disk b2"
  obtain b2 where "UnpinPage rops p False b1 = (b2, True)" "runs {} b b2" "store b2 = store b1" "bpm_disk b2 = bpm_disk b1"
    using 1(6) [OF runs_refl [OF 1(2)], of False] clean by auto
  then show thesis using that [of b1 f b2] 1 by simp
qed

lemma bracket_New:
  assumes ok: "bp_ok b" and room: "room (bpm_disk b)" and sp: "n < spares b"
  obtains b1 f p where "NewPage rops dops b = Inr (b1, Some (f, p))" "bp_ok b1" "page_table b1 p = Some f"
    "0 < pins b1 p" "page_data (frame b1 f) = zero_page" "store b p = None" "p \<noteq> INVALID_PAGE_ID"
    "store b1 = (store b)(p \<mapsto> zero_page)" "n \<le> spares b1" "unsaved b1 \<subseteq> insert p (unsaved b)"
    "\<And>q. 0 < pins b q \<Longrightarrow> page_table b1 q = page_table b q" "p \<notin> allocated (bpm_disk b)"
    "\<And>b2 W. runs W b1 b2 \<Longrightarrow>
       \<exists>b3. UnpinPage rops p True b2 = (b3, True) \<and> runs (W - {p}) b b3 \<and> store b3 = store b2 \<and>
         bpm_disk b3 = bpm_disk b2"
proof -
  have s0: "0 < spares b" using sp by simp
  show thesis
  proof (rule session_New [OF ok room s0])
    fix b1 f p assume 1: "NewPage rops dops b = Inr (b1, Some (f, p))" "bp_ok b1" "page_table b1 p = Some f"
      "page_data (frame b1 f) = zero_page" "p \<notin> allocated (bpm_disk b)" "store b p = None" "p \<noteq> INVALID_PAGE_ID" "pins b p = 0"
      "store b1 = (store b)(p \<mapsto> zero_page)" "pins b1 = (pins b)(p := 1)"
      "unsaved b1 \<subseteq> insert p (unsaved b)" "\<And>q. 0 < pins b q \<Longrightarrow> page_table b1 q = page_table b q"
      "pool_size b1 = pool_size b"
    have "{q. 0 < pins b1 q} \<subseteq> insert p {q. 0 < pins b q}" using 1(10) by auto
    then have "card {q. 0 < pins b1 q} \<le> card (insert p {q. 0 < pins b q})"
      using pinned_pages(2) [OF conjunct1 [OF ok]] by (intro card_mono) auto
    also have "\<dots> \<le> Suc (card {q. 0 < pins b q})" by (rule card_insert_le_m1) simp_all
    finally have sp1: "n \<le> spares b1" using sp 1(13) by (simp add: spares_def)
    have close: "\<exists>b3. UnpinPage rops p True b2 = (b3, True) \<and> runs (W - {p}) b b3 \<and> store b3 = store b2 \<and>
         bpm_disk b3 = bpm_disk b2" if r: "runs W b1 b2" for b2 W
    proof -
      note R = runsD [OF r]
      have pin: "0 < pins b2 p" using R(3) 1(10) by simp
      obtain b3 where 3: "UnpinPage rops p True b2 = (b3, True)" "bp_ok b3" "page_table b3 = page_table b2"
        "store b3 = store b2" "pins b3 = (pins b2)(p := pins b2 p - 1)"
        "unsaved b3 \<subseteq> unsaved b2 - (if True then {p} else {})" "pool_size b3 = pool_size b2" "bpm_disk b3 = bpm_disk b2"
        by (rule session_Unpin [OF R(1) pin disjI1 [OF TrueI]])
      have "pins b3 = pins b" using 3(5) R(3) 1(8,10) by (auto simp: fun_eq_iff)
      moreover have "page_table b3 q = page_table b q" if "0 < pins b q" for q
        using 3(3) R(4) [of q] 1(8,10,12) that by (cases "q = p") auto
      moreover have "unsaved b3 \<subseteq> unsaved b \<union> (W - {p})" using 3(6) R(5) 1(11) by auto
      ultimately have "runs (W - {p}) b b3" using 3(2,7) R(2) 1(13) unfolding runs_def by simp
      with 3 show ?thesis by blast
    qed
    show thesis by (rule that [OF 1(1-3) _ 1(4,6,7) 1(9) sp1 1(11,12,5) close]) (use 1(10) in simp_all)
  qed
qed

lemma new_page:
  assumes ok: "bp_ok b" and room: "room (bpm_disk b)" and sp: "n < spares b"
  obtains b1 f p where "NewPage rops dops b = Inr (b1, Some (f, p))" "bp_ok b1" "page_table b1 p = Some f"
    "0 < pins b1 p" "fdata b1 f = zero_page" "store b p = None" "p \<noteq> INVALID_PAGE_ID"
    "store b1 = (store b)(p \<mapsto> zero_page)" "n \<le> spares b1" "closes p b b1"
proof (rule bracket_New [OF assms])
  fix b1 f p assume 1: "NewPage rops dops b = Inr (b1, Some (f, p))" "bp_ok b1" "page_table b1 p = Some f"
    "0 < pins b1 p" "fdata b1 f = zero_page" "store b p = None" "p \<noteq> INVALID_PAGE_ID"
    "store b1 = (store b)(p \<mapsto> zero_page)" "n \<le> spares b1"
    "\<And>b2 W. runs W b1 b2 \<Longrightarrow> \<exists>b3. UnpinPage rops p True b2 = (b3, True) \<and> runs (W - {p}) b b3 \<and>
       store b3 = store b2 \<and> bpm_disk b3 = bpm_disk b2"
  have "closes p b b1" unfolding closes_def using 1(10) by blast
  with 1(1-9) show thesis by (rule that)
qed

lemma runs_with_page:
  assumes ok: "bp_ok b" and p: "store b p = Some d" and sp: "0 < spares b" and len: "length (h d) = PAGE_SIZE"
  obtains b' where "with_page rops dops p msg h b = Inr b'" "runs {} b b'" "store b' = (store b)(p \<mapsto> h d)"
    "room (bpm_disk b') = room (bpm_disk b)"
proof (rule bracket_Fetch [OF ok p sp])
  fix b1 f assume 1: "FetchPage rops dops p b = Inr (b1, Some f)" "bp_ok b1" "page_table b1 p = Some f"
    "0 < pins b1 p" "page_data (frame b1 f) = d" "store b1 = store b" "room (bpm_disk b1) = room (bpm_disk b)"
    "\<And>b2 W dirty. runs W b1 b2 \<Longrightarrow> dirty \<or> p \<notin> W \<union> unsaved b \<Longrightarrow>
       \<exists>b3. UnpinPage rops p dirty b2 = (b3, True) \<and> runs (W - {p}) b b3 \<and> store b3 = store b2 \<and>
         bpm_disk b3 = bpm_disk b2"
  note W = runs_write [OF 1(2-4) len]
  obtain b3 where "UnpinPage rops p True (write_frame f (h d) b1) = (b3, True)" "runs ({p} - {p}) b b3"
    "store b3 = store (write_frame f (h d) b1)" "bpm_disk b3 = bpm_disk (write_frame f (h d) b1)"
    using 1(8) [OF W(1), of True] by blast
  then show thesis using that [of b3] 1 W by (simp add: with_page_def)
qed

text \<open>Changes of a pinned page.\<close>

lemma runs_mod_frame:
  assumes "bp_ok b" "page_table b p = Some f" "0 < pins b p" "store b p = Some d" "length (h d) = PAGE_SIZE"
  shows "runs {p} b (mod_frame f h b)" "store (mod_frame f h b) = (store b)(p \<mapsto> h d)"
    "bpm_disk (mod_frame f h b) = bpm_disk b" "fdata (mod_frame f h b) f = h d"
proof -
  have "fdata b f = d" using storeD [OF assms(4)] assms(2) by (simp add: bpm_view_def)
  then show "runs {p} b (mod_frame f h b)" "store (mod_frame f h b) = (store b)(p \<mapsto> h d)"
    "bpm_disk (mod_frame f h b) = bpm_disk b" "fdata (mod_frame f h b) f = h d"
    using runs_write [OF assms(1-3), of "h d"] assms(5) by (simp_all add: mod_frame_def)
qed

lemma runs_mod_frame2:
  assumes "bp_ok b" "page_table b p = Some f" "0 < pins b p" "store b p = Some d"
    "length (h d) = PAGE_SIZE" "length (g (h d)) = PAGE_SIZE"
  shows "runs {p} b (mod_frame f g (mod_frame f h b))" "store (mod_frame f g (mod_frame f h b)) = (store b)(p \<mapsto> g (h d))"
    "bpm_disk (mod_frame f g (mod_frame f h b)) = bpm_disk b"
proof -
  note 1 = runs_mod_frame [where h = h, OF assms(1-5)]
  note F = runs_frame [OF 1(1) assms(2,3)]
  note 2 = runs_mod_frame [OF runsD(1) [OF 1(1)] F(1,2), of "h d" g]
  show "runs {p} b (mod_frame f g (mod_frame f h b))" "store (mod_frame f g (mod_frame f h b)) = (store b)(p \<mapsto> g (h d))"
    "bpm_disk (mod_frame f g (mod_frame f h b)) = bpm_disk b"
    using 2 1 assms(6) runs_trans [OF 1(1) 2(1)] by simp_all
qed

end

end
