(* ===== verification/BPlus_Tree.thy ===== *)
theory BPlus_Tree
  imports Internal_Moves BPlus_Leaf Index_Roots_Page Pool_Session
begin

text \<open>
  The B+ tree over the buffer pool (\<^verbatim>\<open>src/include/index/b_plus_tree.h\<close>, \<^verbatim>\<open>src/index/b_plus_tree.cpp\<close>): search, the root
  directory, and insertion with splits. Removal and destruction are in \<open>Tree_Remove\<close>, iterators in \<open>Index_Iterator\<close>. Frames stand for the node pointers of
  the code; a dereference of \<^verbatim>\<open>nullptr\<close> is the failure \<open>OutOfBounds\<close>. Recursion follows links stored in pages, so it is
  defined as a partial function whose value is \<open>None\<close> when it does not end.
\<close>

record BPlusTree =
  bt_index_id :: index_id_t
  bt_root_page_id :: page_id_t
  bt_processor :: KeyManager
  bt_leaf_max_size :: int
  bt_internal_max_size :: int

type_synonym ('r, 'd) tree_state = "('r, 'd) bpm \<times> BPlusTree"

definition UNDEFINED_SIZE :: int where "UNDEFINED_SIZE = 0"

definition default_leaf_max :: "nat \<Rightarrow> int" where
  "default_leaf_max key_size = (4096 - 32) div (int key_size + 8) - 1"

definition default_internal_max :: "nat \<Rightarrow> int" where
  "default_internal_max key_size = (4096 - 28) div (int key_size + 4) - 1"

definition BPlusTree_new :: "'r replacer_ops \<Rightarrow> 'd disk_ops \<Rightarrow> index_id_t \<Rightarrow> KeyManager \<Rightarrow> int \<Rightarrow> int \<Rightarrow> ('r, 'd) bpm \<Rightarrow>
    ('r, 'd) tree_state result" where
  "BPlusTree_new rops dops index_id km leaf_max internal_max b =
     (let leaf_max = (if leaf_max = UNDEFINED_SIZE then default_leaf_max (km_key_size km) else leaf_max);
          internal_max = (if internal_max = UNDEFINED_SIZE then default_internal_max (km_key_size km) else internal_max)
      in bind_result (FetchPage rops dops INDEX_ROOTS_PAGE_ID b) (\<lambda>(b, page). case page of
           None \<Rightarrow> Inl (AssertionFailed ''Failed to fetch index roots page.'')
         | Some f \<Rightarrow>
             bind_result (ir_GetRootId index_id (fdata b f)) (\<lambda>root.
             Inr (fst (UnpinPage rops INDEX_ROOTS_PAGE_ID False b),
                  \<lparr>bt_index_id = index_id, bt_root_page_id = (case root of Some r \<Rightarrow> r | None \<Rightarrow> INVALID_PAGE_ID),
                   bt_processor = KeyManager_copy km, bt_leaf_max_size = leaf_max, bt_internal_max_size = internal_max\<rparr>))))"

definition bt_IsEmpty :: "BPlusTree \<Rightarrow> bool" where "bt_IsEmpty t \<longleftrightarrow> bt_root_page_id t = INVALID_PAGE_ID"

abbreviation bt_cmp :: "BPlusTree \<Rightarrow> byte list \<Rightarrow> byte list \<Rightarrow> int result" where
  "bt_cmp t \<equiv> CompareKeys (bt_processor t)"

section \<open>Search\<close>

text \<open>The loop of \<^verbatim>\<open>FindLeafPage\<close> from a fetched page on. No key stands for \<^verbatim>\<open>leftMost\<close>.\<close>

partial_function (option) find_leaf_loop :: "'r replacer_ops \<Rightarrow> 'd disk_ops \<Rightarrow> BPlusTree \<Rightarrow> byte list option \<Rightarrow> ('r, 'd) bpm \<Rightarrow>
    frame_id_t option \<Rightarrow> (('r, 'd) bpm \<times> frame_id_t option) run" where
  "find_leaf_loop rops dops t key b page =
     (case page of
        None \<Rightarrow> Some (Inr (b, None))
      | Some f \<Rightarrow>
          if IsLeafPage (fdata b f) then Some (Inr (b, Some f))
          else
            bind_run (Some (case key of None \<Rightarrow> Inr (internal_ValueAt (fdata b f) 0)
                            | Some k \<Rightarrow> internal_Lookup (bt_cmp t) k (fdata b f))) (\<lambda>next_page_id.
            bind_run (Some (FetchPage rops dops next_page_id (fst (UnpinPage rops (bp_GetPageId (fdata b f)) False b)))) (\<lambda>(b, page).
            find_leaf_loop rops dops t key b page)))"

definition FindLeafPage :: "'r replacer_ops \<Rightarrow> 'd disk_ops \<Rightarrow> byte list option \<Rightarrow> ('r, 'd) tree_state \<Rightarrow>
    (('r, 'd) bpm \<times> frame_id_t option) run" where
  "FindLeafPage rops dops key = (\<lambda>(b, t).
     if bt_IsEmpty t then Some (Inr (b, None))
     else bind_run (Some (FetchPage rops dops (bt_root_page_id t) b)) (\<lambda>(b, page).
          find_leaf_loop rops dops t key b page))"

definition GetValue :: "'r replacer_ops \<Rightarrow> 'd disk_ops \<Rightarrow> byte list \<Rightarrow> RowId list \<Rightarrow> ('r, 'd) tree_state \<Rightarrow>
    (('r, 'd) bpm \<times> RowId list \<times> bool) run" where
  "GetValue rops dops key result = (\<lambda>(b, t).
     if bt_IsEmpty t then Some (Inr (b, result, False))
     else bind_run (FindLeafPage rops dops (Some key) (b, t)) (\<lambda>(b, page). case page of
            None \<Rightarrow> Some (Inr (b, result, False))
          | Some f \<Rightarrow>
              bind_run (Some (leaf_Lookup (bt_cmp t) key (fdata b f))) (\<lambda>v.
              Some (Inr (fst (UnpinPage rops (bp_GetPageId (fdata b f)) False b),
                         (case v of None \<Rightarrow> result | Some rid \<Rightarrow> result @ [rid]), v \<noteq> None)))))"

section \<open>The root directory\<close>

definition UpdateRootPageId :: "'r replacer_ops \<Rightarrow> 'd disk_ops \<Rightarrow> int \<Rightarrow> ('r, 'd) tree_state \<Rightarrow> ('r, 'd) bpm result" where
  "UpdateRootPageId rops dops insert_record = (\<lambda>(b, t).
     bind_result (FetchPage rops dops INDEX_ROOTS_PAGE_ID b) (\<lambda>(b, page). case page of
       None \<Rightarrow> Inl (AssertionFailed ''Failed to fetch index roots page.'')
     | Some f \<Rightarrow>
         bind_result
           (if insert_record \<noteq> 0 then
              bind_result (ir_Insert (bt_index_id t) (bt_root_page_id t) (fdata b f)) (\<lambda>(d, ok).
              if \<not> ok then ir_Update (bt_index_id t) (bt_root_page_id t) d else Inr (d, ok))
            else
              bind_result (ir_Update (bt_index_id t) (bt_root_page_id t) (fdata b f)) (\<lambda>(d, ok).
              if \<not> ok then ir_Insert (bt_index_id t) (bt_root_page_id t) d else Inr (d, ok)))
           (\<lambda>(d, _). Inr (fst (UnpinPage rops INDEX_ROOTS_PAGE_ID True (write_frame f d b))))))"

section \<open>Insertion\<close>

definition StartNewTree :: "'r replacer_ops \<Rightarrow> 'd disk_ops \<Rightarrow> byte list \<Rightarrow> RowId \<Rightarrow> ('r, 'd) tree_state \<Rightarrow> ('r, 'd) tree_state result" where
  "StartNewTree rops dops key value = (\<lambda>(b, t).
     bind_result (NewPage rops dops b) (\<lambda>(b, page). case page of
       None \<Rightarrow> Inl (AssertionFailed ''Failed to allocate new root page.'')
     | Some (f, pid) \<Rightarrow>
         let b = mod_frame f (leaf_Init pid INVALID_PAGE_ID (int (km_key_size (bt_processor t))) (bt_leaf_max_size t)) b
         in bind_result (leaf_Insert (bt_cmp t) key value (fdata b f)) (\<lambda>(d, _).
            let b = write_frame f d b;
                t = t\<lparr>bt_root_page_id := pid\<rparr>;
                b = fst (UnpinPage rops pid True b)
            in bind_result (UpdateRootPageId rops dops 1 (b, t)) (\<lambda>b. Inr (b, t)))))"

definition SplitInternal :: "'r replacer_ops \<Rightarrow> 'd disk_ops \<Rightarrow> frame_id_t \<Rightarrow> ('r, 'd) tree_state \<Rightarrow>
    (('r, 'd) bpm \<times> frame_id_t) result" where
  "SplitInternal rops dops node = (\<lambda>(b, t).
     bind_result (NewPage rops dops b) (\<lambda>(b, page). case page of
       None \<Rightarrow> Inl (AssertionFailed ''Failed to allocate internal split page.'')
     | Some (new_node, pid) \<Rightarrow>
         let b = mod_frame new_node (internal_Init pid (GetParentPageId (fdata b node)) (int (km_key_size (bt_processor t)))
                   (bt_internal_max_size t)) b
         in bind_result (internal_MoveHalfTo rops dops node new_node b) (\<lambda>b. Inr (b, new_node))))"

definition SplitLeaf :: "'r replacer_ops \<Rightarrow> 'd disk_ops \<Rightarrow> frame_id_t \<Rightarrow> ('r, 'd) tree_state \<Rightarrow>
    (('r, 'd) bpm \<times> frame_id_t) result" where
  "SplitLeaf rops dops node = (\<lambda>(b, t).
     bind_result (NewPage rops dops b) (\<lambda>(b, page). case page of
       None \<Rightarrow> Inl (AssertionFailed ''Failed to allocate leaf split page.'')
     | Some (new_node, pid) \<Rightarrow>
         let b = mod_frame new_node (leaf_Init pid (GetParentPageId (fdata b node)) (int (km_key_size (bt_processor t)))
                   (bt_leaf_max_size t)) b
         in bind_result (leaf_MoveHalfTo (fdata b node) (fdata b new_node)) (\<lambda>(d, r).
            Inr (write_frame new_node r (write_frame node d b), new_node))))"

definition new_internal_root :: "'r replacer_ops \<Rightarrow> 'd disk_ops \<Rightarrow> frame_id_t \<Rightarrow> byte list \<Rightarrow> frame_id_t \<Rightarrow> ('r, 'd) tree_state \<Rightarrow>
    ('r, 'd) tree_state result" where
  "new_internal_root rops dops old_node key new_node = (\<lambda>(b, t).
     bind_result (NewPage rops dops b) (\<lambda>(b, page). case page of
       None \<Rightarrow> Inl (AssertionFailed ''Failed to allocate new internal root page.'')
     | Some (root, root_page_id) \<Rightarrow>
         let b = mod_frame root (internal_Init root_page_id INVALID_PAGE_ID (int (km_key_size (bt_processor t))) (bt_internal_max_size t)) b;
             b = mod_frame root (PopulateNewRoot (bp_GetPageId (fdata b old_node)) key (bp_GetPageId (fdata b new_node))) b;
             b = mod_frame old_node (SetParentPageId root_page_id) b;
             b = mod_frame new_node (SetParentPageId root_page_id) b;
             t = t\<lparr>bt_root_page_id := root_page_id\<rparr>;
             b = fst (UnpinPage rops root_page_id True b)
         in bind_result (UpdateRootPageId rops dops 0 (b, t)) (\<lambda>b. Inr (b, t))))"

partial_function (option) InsertIntoParent :: "'r replacer_ops \<Rightarrow> 'd disk_ops \<Rightarrow> frame_id_t \<Rightarrow> byte list \<Rightarrow> frame_id_t \<Rightarrow>
    ('r, 'd) bpm \<Rightarrow> BPlusTree \<Rightarrow> ('r, 'd) tree_state run" where
  "InsertIntoParent rops dops old_node key new_node b t =
     (if IsRootPage (fdata b old_node) then Some (new_internal_root rops dops old_node key new_node (b, t))
      else bind_run (Some (FetchPage rops dops (GetParentPageId (fdata b old_node)) b)) (\<lambda>(b, page). case page of
             None \<Rightarrow> Some (Inl (AssertionFailed ''Failed to fetch parent page.''))
           | Some parent \<Rightarrow>
               bind_run (Some (InsertNodeAfter (bp_GetPageId (fdata b old_node)) key (bp_GetPageId (fdata b new_node)) (fdata b parent)))
                 (\<lambda>(d, _).
               let b = write_frame parent d b;
                   b = mod_frame new_node (SetParentPageId (bp_GetPageId (fdata b parent))) b
               in if GetSize (fdata b parent) \<le> GetMaxSize (fdata b parent)
                  then Some (Inr (fst (UnpinPage rops (bp_GetPageId (fdata b parent)) True b), t))
                  else bind_run (Some (SplitInternal rops dops parent (b, t))) (\<lambda>(b, new_internal).
                       bind_run (InsertIntoParent rops dops parent (internal_KeyAt (fdata b new_internal) 0) new_internal b t) (\<lambda>(b, t).
                       let b = fst (UnpinPage rops (bp_GetPageId (fdata b parent)) True b);
                           b = fst (UnpinPage rops (bp_GetPageId (fdata b new_internal)) True b)
                       in Some (Inr (b, t)))))))"

definition InsertIntoLeaf :: "'r replacer_ops \<Rightarrow> 'd disk_ops \<Rightarrow> byte list \<Rightarrow> RowId \<Rightarrow> ('r, 'd) tree_state \<Rightarrow>
    (('r, 'd) tree_state \<times> bool) run" where
  "InsertIntoLeaf rops dops key value = (\<lambda>(b, t).
     bind_run (FindLeafPage rops dops (Some key) (b, t)) (\<lambda>(b, page). case page of
       None \<Rightarrow> Some (Inl (AssertionFailed ''Failed to find leaf page.''))
     | Some leaf \<Rightarrow>
         bind_run (Some (leaf_Lookup (bt_cmp t) key (fdata b leaf))) (\<lambda>old_value.
         if old_value \<noteq> None then Some (Inr ((fst (UnpinPage rops (bp_GetPageId (fdata b leaf)) False b), t), False))
         else bind_run (Some (leaf_Insert (bt_cmp t) key value (fdata b leaf))) (\<lambda>(d, _).
              let b = write_frame leaf d b
              in if GetSize (fdata b leaf) \<le> GetMaxSize (fdata b leaf)
                 then Some (Inr ((fst (UnpinPage rops (bp_GetPageId (fdata b leaf)) True b), t), True))
                 else bind_run (Some (SplitLeaf rops dops leaf (b, t))) (\<lambda>(b, new_leaf).
                      bind_run (InsertIntoParent rops dops leaf (leaf_KeyAt (fdata b new_leaf) 0) new_leaf b t) (\<lambda>(b, t).
                      let b = fst (UnpinPage rops (bp_GetPageId (fdata b leaf)) True b);
                          b = fst (UnpinPage rops (bp_GetPageId (fdata b new_leaf)) True b)
                      in Some (Inr ((b, t), True))))))))"

definition bt_Insert :: "'r replacer_ops \<Rightarrow> 'd disk_ops \<Rightarrow> byte list \<Rightarrow> RowId \<Rightarrow> ('r, 'd) tree_state \<Rightarrow>
    (('r, 'd) tree_state \<times> bool) run" where
  "bt_Insert rops dops key value = (\<lambda>(b, t).
     if bt_IsEmpty t then bind_run (Some (StartNewTree rops dops key value (b, t))) (\<lambda>st. Some (Inr (st, True)))
     else InsertIntoLeaf rops dops key value (b, t))"

end
