(* ===== verification/Index_Iterator.thy ===== *)
theory Index_Iterator
  imports BPlus_Tree
begin

text \<open>
  Iterators over the leaves of a B+ tree (\<^verbatim>\<open>src/index/index_iterator.cpp\<close>, \<^verbatim>\<open>Begin\<close> and \<^verbatim>\<open>End\<close> of \<^verbatim>\<open>src/index/b_plus_tree.cpp\<close>) and the
  index on top of the tree (\<^verbatim>\<open>src/index/b_plus_tree_index.cpp\<close>). An iterator holds a pin on its page, which its destructor
  gives back; the destructor calls that C++ inserts at the end of a scope are written out.
\<close>

section \<open>Iterators\<close>

record IndexIterator =
  ii_page_id :: page_id_t
  ii_page :: "frame_id_t option"
  ii_index :: int

definition IndexIterator_end :: IndexIterator where
  "IndexIterator_end = \<lparr>ii_page_id = INVALID_PAGE_ID, ii_page = None, ii_index = 0\<rparr>"

definition IndexIterator_new :: "'r replacer_ops \<Rightarrow> 'd disk_ops \<Rightarrow> page_id_t \<Rightarrow> int \<Rightarrow> ('r, 'd) bpm \<Rightarrow> (('r, 'd) bpm \<times> IndexIterator) result" where
  "IndexIterator_new rops dops pid index b =
     bind_result (FetchPage rops dops pid b) (\<lambda>(b, page). case page of
       None \<Rightarrow> Inl (OutOfBounds ''FetchPage'')
     | Some f \<Rightarrow> Inr (b, \<lparr>ii_page_id = pid, ii_page = Some f, ii_index = index\<rparr>))"

definition ii_destroy :: "'r replacer_ops \<Rightarrow> IndexIterator \<Rightarrow> ('r, 'd) bpm \<Rightarrow> ('r, 'd) bpm" where
  "ii_destroy rops it b = (if ii_page_id it \<noteq> INVALID_PAGE_ID then fst (UnpinPage rops (ii_page_id it) False b) else b)"

definition ii_deref :: "IndexIterator \<Rightarrow> ('r, 'd) bpm \<Rightarrow> (byte list \<times> RowId) result" where
  "ii_deref it b =
     (case ii_page it of
        None \<Rightarrow> Inl (AssertionFailed ''Dereference end index iterator.'')
      | Some f \<Rightarrow>
          ASSERT (ii_page_id it \<noteq> INVALID_PAGE_ID) ''Dereference end index iterator.''
          (ASSERT (0 \<le> ii_index it \<and> ii_index it < GetSize (fdata b f)) ''Invalid index iterator offset.''
           (Inr (leaf_GetItem (fdata b f) (nat (ii_index it))))))"

text \<open>The loop of \<^verbatim>\<open>operator++\<close>.\<close>

partial_function (option) ii_advance :: "'r replacer_ops \<Rightarrow> 'd disk_ops \<Rightarrow> ('r, 'd) bpm \<Rightarrow> IndexIterator \<Rightarrow>
    (('r, 'd) bpm \<times> IndexIterator) run" where
  "ii_advance rops dops b it =
     (case ii_page it of
        None \<Rightarrow> Some (Inr (b, it))
      | Some f \<Rightarrow>
          if ii_index it < GetSize (fdata b f) then Some (Inr (b, it))
          else
            let old_page_id = ii_page_id it;
                next_page_id = leaf_GetNextPageId (fdata b f);
                b = fst (UnpinPage rops old_page_id False b)
            in if next_page_id = INVALID_PAGE_ID then Some (Inr (b, \<lparr>ii_page_id = INVALID_PAGE_ID, ii_page = None, ii_index = 0\<rparr>))
               else bind_run (Some (FetchPage rops dops next_page_id b)) (\<lambda>(b, page). case page of
                      None \<Rightarrow> Some (Inl (OutOfBounds ''FetchPage''))
                    | Some g \<Rightarrow> ii_advance rops dops b \<lparr>ii_page_id = next_page_id, ii_page = Some g, ii_index = 0\<rparr>))"

definition ii_next :: "'r replacer_ops \<Rightarrow> 'd disk_ops \<Rightarrow> ('r, 'd) bpm \<Rightarrow> IndexIterator \<Rightarrow> (('r, 'd) bpm \<times> IndexIterator) run" where
  "ii_next rops dops b it =
     (if ii_page_id it = INVALID_PAGE_ID \<or> ii_page it = None then Some (Inr (b, it))
      else ii_advance rops dops b (it\<lparr>ii_index := ii_index it + 1\<rparr>))"

definition ii_eq :: "IndexIterator \<Rightarrow> IndexIterator \<Rightarrow> bool" where
  "ii_eq it itr \<longleftrightarrow> ii_page_id it = ii_page_id itr \<and> ii_index it = ii_index itr"

section \<open>The iterators of a tree\<close>

definition bt_End :: IndexIterator where "bt_End = IndexIterator_end"

partial_function (option) begin_loop :: "'r replacer_ops \<Rightarrow> 'd disk_ops \<Rightarrow> ('r, 'd) bpm \<Rightarrow> frame_id_t option \<Rightarrow> (('r, 'd) bpm \<times> IndexIterator) run" where
  "begin_loop rops dops b leaf_page =
     (case leaf_page of
        None \<Rightarrow> Some (Inr (b, bt_End))
      | Some leaf \<Rightarrow>
          if GetSize (fdata b leaf) > 0 then
            let pid = bp_GetPageId (fdata b leaf);
                b = fst (UnpinPage rops pid False b)
            in Some (IndexIterator_new rops dops pid 0 b)
          else
            let next_page_id = leaf_GetNextPageId (fdata b leaf);
                b = fst (UnpinPage rops (bp_GetPageId (fdata b leaf)) False b)
            in if next_page_id = INVALID_PAGE_ID then Some (Inr (b, bt_End))
               else bind_run (Some (FetchPage rops dops next_page_id b)) (\<lambda>(b, page). begin_loop rops dops b page))"

definition bt_Begin :: "'r replacer_ops \<Rightarrow> 'd disk_ops \<Rightarrow> ('r, 'd) tree_state \<Rightarrow> (('r, 'd) bpm \<times> IndexIterator) run" where
  "bt_Begin rops dops = (\<lambda>(b, t).
     if bt_IsEmpty t then Some (Inr (b, bt_End))
     else bind_run (FindLeafPage rops dops None (b, t)) (\<lambda>(b, leaf_page). begin_loop rops dops b leaf_page))"

partial_function (option) begin_key_loop :: "'r replacer_ops \<Rightarrow> 'd disk_ops \<Rightarrow> ('r, 'd) bpm \<Rightarrow> page_id_t \<Rightarrow> frame_id_t \<Rightarrow> int \<Rightarrow>
    (('r, 'd) bpm \<times> IndexIterator) run" where
  "begin_key_loop rops dops b pid leaf index =
     (if index \<ge> GetSize (fdata b leaf) then
        let next_page_id = leaf_GetNextPageId (fdata b leaf);
            b = fst (UnpinPage rops pid False b)
        in if next_page_id = INVALID_PAGE_ID then Some (Inr (b, bt_End))
           else bind_run (Some (FetchPage rops dops next_page_id b)) (\<lambda>(b, next_page). case next_page of
                  None \<Rightarrow> Some (Inl (OutOfBounds ''FetchPage''))
                | Some leaf \<Rightarrow> begin_key_loop rops dops b (bp_GetPageId (fdata b leaf)) leaf 0)
      else Some (IndexIterator_new rops dops pid index (fst (UnpinPage rops pid False b))))"

definition bt_Begin_key :: "'r replacer_ops \<Rightarrow> 'd disk_ops \<Rightarrow> byte list \<Rightarrow> ('r, 'd) tree_state \<Rightarrow> (('r, 'd) bpm \<times> IndexIterator) run" where
  "bt_Begin_key rops dops key = (\<lambda>(b, t).
     if bt_IsEmpty t then Some (Inr (b, bt_End))
     else bind_run (FindLeafPage rops dops (Some key) (b, t)) (\<lambda>(b, leaf_page). case leaf_page of
            None \<Rightarrow> Some (Inr (b, bt_End))
          | Some leaf \<Rightarrow>
              bind_run (Some (KeyIndex (bt_cmp t) key (fdata b leaf))) (\<lambda>index.
              begin_key_loop rops dops b (bp_GetPageId (fdata b leaf)) leaf (int index))))"

section \<open>The index\<close>

record BPlusTreeIndex =
  bi_index_id :: index_id_t
  bi_key_schema :: Schema
  bi_processor :: KeyManager
  bi_container :: BPlusTree

definition BPlusTreeIndex_new :: "'r replacer_ops \<Rightarrow> 'd disk_ops \<Rightarrow> index_id_t \<Rightarrow> Schema \<Rightarrow> nat \<Rightarrow> ('r, 'd) bpm \<Rightarrow>
    (('r, 'd) bpm \<times> BPlusTreeIndex) result" where
  "BPlusTreeIndex_new rops dops index_id key_schema key_size b =
     (let processor = KeyManager_new key_schema key_size
      in bind_result (BPlusTree_new rops dops index_id processor UNDEFINED_SIZE UNDEFINED_SIZE b) (\<lambda>(b, t).
         Inr (b, \<lparr>bi_index_id = index_id, bi_key_schema = key_schema, bi_processor = processor, bi_container = t\<rparr>)))"

text \<open>The key buffer of \<^verbatim>\<open>InitKey\<close> is freshly allocated memory; what it holds is a parameter.\<close>

definition InsertEntry :: "'r replacer_ops \<Rightarrow> 'd disk_ops \<Rightarrow> byte list \<Rightarrow> Row \<Rightarrow> RowId \<Rightarrow> ('r, 'd) bpm \<times> BPlusTreeIndex \<Rightarrow>
    ((('r, 'd) bpm \<times> BPlusTreeIndex) \<times> dberr_t) run" where
  "InsertEntry rops dops buf key row_id = (\<lambda>(b, bi).
     bind_run (Some (SerializeFromKey (bi_processor bi) buf key (bi_key_schema bi))) (\<lambda>index_key.
     bind_run (bt_Insert rops dops index_key row_id (b, bi_container bi)) (\<lambda>((b, t), status).
     Some (Inr ((b, bi\<lparr>bi_container := t\<rparr>), if \<not> status then DB_FAILED else DB_SUCCESS)))))"

text \<open>The loops of \<^verbatim>\<open>ScanKey\<close>: append what the iterator yields until it equals another one.\<close>

partial_function (option) scan_until :: "'r replacer_ops \<Rightarrow> 'd disk_ops \<Rightarrow> IndexIterator \<Rightarrow> ('r, 'd) bpm \<Rightarrow> IndexIterator \<Rightarrow> RowId list \<Rightarrow>
    (('r, 'd) bpm \<times> IndexIterator \<times> RowId list) run" where
  "scan_until rops dops stop b iter result =
     (if ii_eq iter stop then Some (Inr (b, iter, result))
      else bind_run (Some (ii_deref iter b)) (\<lambda>item.
           bind_run (ii_next rops dops b iter) (\<lambda>(b, iter).
           scan_until rops dops stop b iter (result @ [snd item]))))"

definition scan_range :: "'r replacer_ops \<Rightarrow> 'd disk_ops \<Rightarrow> IndexIterator \<Rightarrow> ('r, 'd) bpm \<Rightarrow> IndexIterator \<Rightarrow> RowId list \<Rightarrow>
    (('r, 'd) bpm \<times> RowId list) run" where
  "scan_range rops dops stop b iter result =
     bind_run (scan_until rops dops stop b iter result) (\<lambda>(b, iter, result). Some (Inr (ii_destroy rops iter b, result)))"

definition scan_gt :: "'r replacer_ops \<Rightarrow> 'd disk_ops \<Rightarrow> byte list \<Rightarrow> RowId list \<Rightarrow> ('r, 'd) tree_state \<Rightarrow> (('r, 'd) bpm \<times> RowId list) run" where
  "scan_gt rops dops index_key result = (\<lambda>(b, t).
     bind_run (bt_Begin_key rops dops index_key (b, t)) (\<lambda>(b, iter).
     bind_run (GetValue rops dops index_key result (b, t)) (\<lambda>(b, _, found).
     bind_run (if found then ii_next rops dops b iter else Some (Inr (b, iter))) (\<lambda>(b, iter).
     scan_range rops dops bt_End b iter []))))"

definition scan_ge :: "'r replacer_ops \<Rightarrow> 'd disk_ops \<Rightarrow> byte list \<Rightarrow> RowId list \<Rightarrow> ('r, 'd) tree_state \<Rightarrow> (('r, 'd) bpm \<times> RowId list) run" where
  "scan_ge rops dops index_key result = (\<lambda>(b, t).
     bind_run (bt_Begin_key rops dops index_key (b, t)) (\<lambda>(b, iter).
     scan_range rops dops bt_End b iter result))"

definition scan_lt :: "'r replacer_ops \<Rightarrow> 'd disk_ops \<Rightarrow> byte list \<Rightarrow> RowId list \<Rightarrow> ('r, 'd) tree_state \<Rightarrow> (('r, 'd) bpm \<times> RowId list) run" where
  "scan_lt rops dops index_key result = (\<lambda>(b, t).
     bind_run (bt_Begin_key rops dops index_key (b, t)) (\<lambda>(b, stop_iter).
     bind_run (bt_Begin rops dops (b, t)) (\<lambda>(b, iter).
     bind_run (scan_range rops dops stop_iter b iter result) (\<lambda>(b, result).
     Some (Inr (ii_destroy rops stop_iter b, result))))))"

definition scan_le :: "'r replacer_ops \<Rightarrow> 'd disk_ops \<Rightarrow> byte list \<Rightarrow> RowId list \<Rightarrow> ('r, 'd) tree_state \<Rightarrow> (('r, 'd) bpm \<times> RowId list) run" where
  "scan_le rops dops index_key result = (\<lambda>(b, t).
     bind_run (bt_Begin_key rops dops index_key (b, t)) (\<lambda>(b, stop_iter).
     bind_run (bt_Begin rops dops (b, t)) (\<lambda>(b, iter).
     bind_run (scan_range rops dops stop_iter b iter result) (\<lambda>(b, result).
     bind_run (GetValue rops dops index_key result (b, t)) (\<lambda>(b, result, _).
     Some (Inr (ii_destroy rops stop_iter b, result)))))))"

definition scan_ne :: "'r replacer_ops \<Rightarrow> 'd disk_ops \<Rightarrow> byte list \<Rightarrow> RowId list \<Rightarrow> ('r, 'd) tree_state \<Rightarrow> (('r, 'd) bpm \<times> RowId list) run" where
  "scan_ne rops dops index_key result = (\<lambda>(b, t).
     bind_run (bt_Begin rops dops (b, t)) (\<lambda>(b, iter).
     bind_run (scan_range rops dops bt_End b iter result) (\<lambda>(b, result).
     bind_run (GetValue rops dops index_key [] (b, t)) (\<lambda>(b, temp, found).
     if \<not> found then Some (Inr (b, result))
     else if hd temp \<in> set result then Some (Inr (b, remove1 (hd temp) result))
     else Some (Inl (OutOfBounds ''erase''))))))"

definition ScanKey :: "'r replacer_ops \<Rightarrow> 'd disk_ops \<Rightarrow> byte list \<Rightarrow> Row \<Rightarrow> RowId list \<Rightarrow> string \<Rightarrow> ('r, 'd) bpm \<times> BPlusTreeIndex \<Rightarrow>
    (('r, 'd) bpm \<times> RowId list \<times> dberr_t) run" where
  "ScanKey rops dops buf key result compare_operator = (\<lambda>(b, bi).
     let t = bi_container bi in
     bind_run (Some (SerializeFromKey (bi_processor bi) buf key (bi_key_schema bi))) (\<lambda>index_key.
     bind_run
       (if compare_operator = ''='' then
          bind_run (GetValue rops dops index_key result (b, t)) (\<lambda>(b, result, _). Some (Inr (b, result)))
        else if compare_operator = ''>'' then scan_gt rops dops index_key result (b, t)
        else if compare_operator = ''>='' then scan_ge rops dops index_key result (b, t)
        else if compare_operator = ''<'' then scan_lt rops dops index_key result (b, t)
        else if compare_operator = ''<='' then scan_le rops dops index_key result (b, t)
        else if compare_operator = ''<>'' then scan_ne rops dops index_key result (b, t)
        else Some (Inr (b, result)))
       (\<lambda>(b, result). Some (Inr (b, result, if result \<noteq> [] then DB_SUCCESS else DB_KEY_NOT_FOUND)))))"

end
