(* ===== verification/Tree_Shape.thy ===== *)
theory Tree_Shape
  imports BPlus_Tree "HOL-Library.Multiset"
begin

text \<open>
  B+ trees as values: nodes with their page numbers, the pairs of the leaves and the keys between the children. A tree is
  compared with the pages of the buffer pool node by node (\<open>shown\<close>). A context is a tree with a hole, as the path that an insertion
  walks up; the order of the keys, the depth of the leaves and the chain of the leaves are defined so that they split along a
  context.
\<close>

datatype bnode = BLeaf page_id_t "(byte list \<times> RowId) list" page_id_t | BNode page_id_t "(byte list \<times> bnode) list"

primrec root_id :: "bnode \<Rightarrow> page_id_t" where
  "root_id (BLeaf p es nx) = p"
| "root_id (BNode p cs) = p"

fun leaves :: "bnode \<Rightarrow> (page_id_t \<times> (byte list \<times> RowId) list \<times> page_id_t) list" where
  "leaves (BLeaf p es nx) = [(p, es, nx)]"
| "leaves (BNode p cs) = concat (map (\<lambda>(k, c). leaves c) cs)"

abbreviation forest_leaves :: "(byte list \<times> bnode) list \<Rightarrow> (page_id_t \<times> (byte list \<times> RowId) list \<times> page_id_t) list" where
  "forest_leaves cs \<equiv> concat (map (\<lambda>(k, c). leaves c) cs)"

definition leaf_pairs :: "(page_id_t \<times> (byte list \<times> RowId) list \<times> page_id_t) list \<Rightarrow> (byte list \<times> RowId) list" where
  "leaf_pairs ls = concat (map (\<lambda>(p, es, nx). es) ls)"

definition tree_pairs :: "bnode \<Rightarrow> (byte list \<times> RowId) list" where
  "tree_pairs T = leaf_pairs (leaves T)"

lemma leaf_pairs_append [simp]: "leaf_pairs (xs @ ys) = leaf_pairs xs @ leaf_pairs ys" "leaf_pairs [] = []"
  "leaf_pairs ((p, es, nx) # ls) = es @ leaf_pairs ls"
  by (simp_all add: leaf_pairs_def)

text \<open>The leaves are chained: each names the next, and the last one the page after all.\<close>

fun chained :: "(page_id_t \<times> (byte list \<times> RowId) list \<times> page_id_t) list \<Rightarrow> page_id_t \<Rightarrow> bool" where
  "chained [] after \<longleftrightarrow> True"
| "chained ((p, es, nx) # ls) after \<longleftrightarrow> nx = (case ls of [] \<Rightarrow> after | (q, _, _) # _ \<Rightarrow> q) \<and> chained ls after"

definition first_or :: "page_id_t \<Rightarrow> (page_id_t \<times> (byte list \<times> RowId) list \<times> page_id_t) list \<Rightarrow> page_id_t" where
  "first_or after ls = (case ls of [] \<Rightarrow> after | (q, _, _) # _ \<Rightarrow> q)"

lemma chained_append: "chained (xs @ ys) after \<longleftrightarrow> chained xs (first_or after ys) \<and> chained ys after"
proof (induction xs)
  case (Cons x xs)
  then show ?case by (cases x; cases xs) (auto simp: first_or_def)
qed simp

section \<open>Nodes and pages\<close>

text \<open>What the page of a node holds, beside its own number: the parent, and the pairs and the next leaf, or the keys and
  children.\<close>

datatype pdesc = LeafD page_id_t "(byte list \<times> RowId) list" page_id_t | NodeD page_id_t "(byte list \<times> page_id_t) list"

abbreviation bt_key_size :: "BPlusTree \<Rightarrow> nat" where "bt_key_size t \<equiv> km_key_size (bt_processor t)"

definition page_is :: "BPlusTree \<Rightarrow> page_id_t \<Rightarrow> pdesc \<Rightarrow> bpage \<Rightarrow> bool" where
  "page_is t p x d \<longleftrightarrow> bp_GetPageId d = p \<and> (case x of
      LeafD par es nx \<Rightarrow> leaf_ok (bt_key_size t) d \<and> IsLeafPage d \<and> GetParentPageId d = par \<and> GetMaxSize d = bt_leaf_max_size t \<and>
        leaf_entries d = es \<and> leaf_GetNextPageId d = nx
    | NodeD par cs \<Rightarrow> internal_ok (bt_key_size t) d \<and> \<not> IsLeafPage d \<and> GetParentPageId d = par \<and>
        GetMaxSize d = bt_internal_max_size t \<and> internal_entries d = cs)"

definition shown :: "BPlusTree \<Rightarrow> (page_id_t \<rightharpoonup> byte list) \<Rightarrow> (page_id_t \<times> pdesc) list \<Rightarrow> bool" where
  "shown t S ds \<longleftrightarrow> (\<forall>(p, x) \<in> set ds. \<exists>d. S p = Some d \<and> page_is t p x d)"

abbreviation child_ids :: "(byte list \<times> bnode) list \<Rightarrow> (byte list \<times> page_id_t) list" where
  "child_ids cs \<equiv> map (\<lambda>(k, c). (k, root_id c)) cs"

fun descs :: "page_id_t \<Rightarrow> bnode \<Rightarrow> (page_id_t \<times> pdesc) list" where
  "descs par (BLeaf p es nx) = [(p, LeafD par es nx)]"
| "descs par (BNode p cs) = (p, NodeD par (child_ids cs)) # concat (map (\<lambda>(k, c). descs p c) cs)"

abbreviation forest_descs :: "page_id_t \<Rightarrow> (byte list \<times> bnode) list \<Rightarrow> (page_id_t \<times> pdesc) list" where
  "forest_descs p cs \<equiv> concat (map (\<lambda>(k, c). descs p c) cs)"

lemma shown_append [simp]: "shown t S (xs @ ys) \<longleftrightarrow> shown t S xs \<and> shown t S ys" "shown t S []"
  "shown t S ((p, x) # ys) \<longleftrightarrow> (\<exists>d. S p = Some d \<and> page_is t p x d) \<and> shown t S ys"
  by (simp_all add: shown_def ball_Un)

lemma shown_cong: "shown t S ds \<Longrightarrow> (\<And>p. p \<in> fst ` set ds \<Longrightarrow> S' p = S p) \<Longrightarrow> shown t S' ds"
  unfolding shown_def by force

lemma shown_mset: "mset ds = mset ds' \<Longrightarrow> shown t S ds = shown t S ds'"
  by (drule mset_eq_setD) (simp add: shown_def)

text \<open>Page numbers do not depend on the parent, nor does anything but the top page.\<close>

definition top_desc :: "page_id_t \<Rightarrow> bnode \<Rightarrow> pdesc" where
  "top_desc par T = (case T of BLeaf p es nx \<Rightarrow> LeafD par es nx | BNode p cs \<Rightarrow> NodeD par (child_ids cs))"

definition below_descs :: "bnode \<Rightarrow> (page_id_t \<times> pdesc) list" where
  "below_descs T = (case T of BLeaf p es nx \<Rightarrow> [] | BNode p cs \<Rightarrow> forest_descs p cs)"

lemma descs_top: "descs par T = (root_id T, top_desc par T) # below_descs T"
  by (cases T) (simp_all add: top_desc_def below_descs_def)

definition page_ids :: "bnode \<Rightarrow> page_id_t list" where
  "page_ids T = map fst (descs INVALID_PAGE_ID T)"

lemma descs_ids: "map fst (descs par T) = page_ids T"
  by (simp add: page_ids_def descs_top)

lemma descs_ids_set: "fst ` set (descs par T) = set (page_ids T)"
  by (simp flip: descs_ids [of par])

lemma page_ids_top: "page_ids T = root_id T # map fst (below_descs T)"
  by (simp add: page_ids_def descs_top)

lemma root_in_ids [simp]: "root_id T \<in> set (page_ids T)"
  by (simp add: page_ids_top)

definition forest_ids :: "(byte list \<times> bnode) list \<Rightarrow> page_id_t list" where
  "forest_ids cs = concat (map (\<lambda>(k, c). page_ids c) cs)"

lemma forest_ids_simps [simp]: "forest_ids [] = []" "forest_ids ((k, c) # cs) = page_ids c @ forest_ids cs"
  "forest_ids (xs @ ys) = forest_ids xs @ forest_ids ys"
  by (simp_all add: forest_ids_def)

lemma forest_descs_ids: "map fst (forest_descs p cs) = forest_ids cs"
  by (induction cs) (auto simp: descs_ids)

lemma page_ids_simps [simp]: "page_ids (BLeaf p es nx) = [p]" "page_ids (BNode p cs) = p # forest_ids cs"
  by (simp_all add: page_ids_top below_descs_def forest_descs_ids)

section \<open>Contexts\<close>

text \<open>The nodes on the path from a hole to the root, with the children to both sides.\<close>

type_synonym bctx = "(page_id_t \<times> (byte list \<times> bnode) list \<times> byte list \<times> (byte list \<times> bnode) list) list"

fun plug :: "bctx \<Rightarrow> bnode \<Rightarrow> bnode" where
  "plug [] T = T"
| "plug ((p, ls, k, rs) # C) T = plug C (BNode p (ls @ (k, T) # rs))"

fun hole_parent :: "bctx \<Rightarrow> page_id_t" where
  "hole_parent [] = INVALID_PAGE_ID"
| "hole_parent ((p, ls, k, rs) # C) = p"

fun ctx_descs :: "page_id_t \<Rightarrow> bctx \<Rightarrow> (page_id_t \<times> pdesc) list" where
  "ctx_descs r [] = []"
| "ctx_descs r ((p, ls, k, rs) # C) =
     (p, NodeD (hole_parent C) (child_ids ls @ (k, r) # child_ids rs)) # forest_descs p ls @ forest_descs p rs @ ctx_descs p C"

fun ctx_ids :: "bctx \<Rightarrow> page_id_t list" where
  "ctx_ids [] = []"
| "ctx_ids ((p, ls, k, rs) # C) = p # forest_ids ls @ forest_ids rs @ ctx_ids C"

fun before :: "bctx \<Rightarrow> (page_id_t \<times> (byte list \<times> RowId) list \<times> page_id_t) list" where
  "before [] = []"
| "before ((p, ls, k, rs) # C) = before C @ forest_leaves ls"

fun behind :: "bctx \<Rightarrow> (page_id_t \<times> (byte list \<times> RowId) list \<times> page_id_t) list" where
  "behind [] = []"
| "behind ((p, ls, k, rs) # C) = forest_leaves rs @ behind C"

lemma ctx_descs_ids: "map fst (ctx_descs r C) = ctx_ids C"
  by (induction r C rule: ctx_descs.induct) (simp_all add: forest_descs_ids)

lemma plug_descs: "mset (descs INVALID_PAGE_ID (plug C T)) = mset (descs (hole_parent C) T) + mset (ctx_descs (root_id T) C)"
  by (induction C T rule: plug.induct) (auto simp: ac_simps)

lemma plug_ids: "mset (page_ids (plug C T)) = mset (page_ids T) + mset (ctx_ids C)"
  by (induction C T rule: plug.induct) (auto simp: ac_simps)

lemma plug_ids_set: "set (page_ids (plug C T)) = set (page_ids T) \<union> set (ctx_ids C)"
  using mset_eq_setD [of "page_ids (plug C T)" "page_ids T @ ctx_ids C"] plug_ids [of C T] by simp

lemma plug_leaves: "leaves (plug C T) = before C @ leaves T @ behind C"
  by (induction C T rule: plug.induct) simp_all

lemma plug_append: "plug (C @ D) T = plug D (plug C T)"
  by (induction C T rule: plug.induct) simp_all

lemma plug_shown: "shown t S (descs INVALID_PAGE_ID (plug C T)) \<longleftrightarrow> shown t S (descs (hole_parent C) T) \<and> shown t S (ctx_descs (root_id T) C)"
  using shown_mset [OF trans [OF plug_descs mset_append [symmetric]]] by simp

lemma plug_distinct: "distinct (page_ids (plug C T)) \<longleftrightarrow> distinct (page_ids T @ ctx_ids C)"
  using mset_eq_imp_distinct_iff [of "page_ids (plug C T)" "page_ids T @ ctx_ids C"] plug_ids by simp

lemma plug_root_cong: "root_id T = root_id T' \<Longrightarrow> root_id (plug C T) = root_id (plug C T')"
proof (induction C arbitrary: T T')
  case (Cons x C)
  obtain p ls k rs where x: "x = (p, ls, k, rs)" by (cases x)
  show ?case using Cons.IH [of "BNode p (ls @ (k, T) # rs)" "BNode p (ls @ (k, T') # rs)"] by (simp add: x)
qed simp

lemma plug_root:
  assumes "C \<noteq> []"
  shows "root_id (plug C T) = root_id (plug C T')"
proof -
  obtain p ls k rs D where "C = (p, ls, k, rs) # D" using assms by (cases C) auto
  then show ?thesis using plug_root_cong [of "BNode p (ls @ (k, T) # rs)" "BNode p (ls @ (k, T') # rs)" D] by simp
qed

section \<open>Depth and size\<close>

primrec balanced :: "nat \<Rightarrow> bnode \<Rightarrow> bool" where
  "balanced 0 T = (case T of BLeaf p es nx \<Rightarrow> True | BNode p cs \<Rightarrow> False)"
| "balanced (Suc n) T = (case T of BLeaf p es nx \<Rightarrow> False | BNode p cs \<Rightarrow> \<forall>c \<in> snd ` set cs. balanced n c)"

fun ctx_balanced :: "nat \<Rightarrow> bctx \<Rightarrow> bool" where
  "ctx_balanced n [] = True"
| "ctx_balanced n ((p, ls, k, rs) # C) = ((\<forall>c \<in> snd ` set (ls @ rs). balanced n c) \<and> ctx_balanced (Suc n) C)"

lemma plug_balanced: "ctx_balanced n C \<Longrightarrow> balanced n T \<Longrightarrow> balanced (n + length C) (plug C T)"
  by (induction n C arbitrary: T rule: ctx_balanced.induct) (auto simp: ball_Un)

text \<open>The number of pairs of a leaf and of children of a node.\<close>

fun sized :: "BPlusTree \<Rightarrow> bnode \<Rightarrow> bool" where
  "sized t (BLeaf p es nx) \<longleftrightarrow> int (length es) \<le> bt_leaf_max_size t"
| "sized t (BNode p cs) \<longleftrightarrow> cs \<noteq> [] \<and> int (length cs) \<le> bt_internal_max_size t \<and> (\<forall>(k, c) \<in> set cs. sized t c)"

fun ctx_sized :: "BPlusTree \<Rightarrow> bctx \<Rightarrow> bool" where
  "ctx_sized t [] \<longleftrightarrow> True"
| "ctx_sized t ((p, ls, k, rs) # C) \<longleftrightarrow> int (length ls + length rs) < bt_internal_max_size t \<and>
     (\<forall>(k, c) \<in> set (ls @ rs). sized t c) \<and> ctx_sized t C"

lemma plug_sized: "ctx_sized t C \<Longrightarrow> sized t T \<Longrightarrow> sized t (plug C T)"
  by (induction t C arbitrary: T rule: ctx_sized.induct) (auto simp: ball_Un)

section \<open>The order of the keys\<close>

text \<open>Keys between two bounds, of which either may be missing. The lower bound is inclusive.\<close>

definition above_lo :: "('k \<Rightarrow> 'k \<Rightarrow> bool) \<Rightarrow> 'k option \<Rightarrow> 'k \<Rightarrow> bool" where
  "above_lo lt lo k \<longleftrightarrow> (case lo of None \<Rightarrow> True | Some l \<Rightarrow> \<not> lt k l)"

definition strict_lo :: "('k \<Rightarrow> 'k \<Rightarrow> bool) \<Rightarrow> 'k option \<Rightarrow> 'k \<Rightarrow> bool" where
  "strict_lo lt lo k \<longleftrightarrow> (case lo of None \<Rightarrow> True | Some l \<Rightarrow> lt l k)"

definition under_hi :: "('k \<Rightarrow> 'k \<Rightarrow> bool) \<Rightarrow> 'k \<Rightarrow> 'k option \<Rightarrow> bool" where
  "under_hi lt k hi \<longleftrightarrow> (case hi of None \<Rightarrow> True | Some h \<Rightarrow> lt k h)"

lemmas bounds_simps [simp] = above_lo_def [of _ None, simplified] above_lo_def [of _ "Some l" for l, simplified]
  strict_lo_def [of _ None, simplified] strict_lo_def [of _ "Some l" for l, simplified]
  under_hi_def [of _ _ None, simplified] under_hi_def [of _ _ "Some h" for h, simplified]

text \<open>The keys of a tree lie between two bounds, and the keys of a node separate its children; the first key of a node is not
  used.\<close>

function within :: "(byte list \<Rightarrow> byte list \<Rightarrow> bool) \<Rightarrow> (byte list \<Rightarrow> bool) \<Rightarrow> byte list option \<Rightarrow> byte list option \<Rightarrow> bnode \<Rightarrow> bool"
  and within_row :: "(byte list \<Rightarrow> byte list \<Rightarrow> bool) \<Rightarrow> (byte list \<Rightarrow> bool) \<Rightarrow> byte list option \<Rightarrow> byte list option \<Rightarrow> (byte list \<times> bnode) list \<Rightarrow> bool"
where
  "within lt ok lo hi (BLeaf p es nx) \<longleftrightarrow> key_sorted lt es \<and> valid_keys ok es \<and> (\<forall>(k, v) \<in> set es. above_lo lt lo k \<and> under_hi lt k hi)"
| "within lt ok lo hi (BNode p cs) \<longleftrightarrow> within_row lt ok lo hi cs"
| "within_row lt ok lo hi [] \<longleftrightarrow> False"
| "within_row lt ok lo hi [(k, c)] \<longleftrightarrow> within lt ok lo hi c"
| "within_row lt ok lo hi ((k, c) # (k', c') # cs) \<longleftrightarrow> within lt ok lo (Some k') c \<and> ok k' \<and> strict_lo lt lo k' \<and> under_hi lt k' hi \<and>
     within_row lt ok (Some k') hi ((k', c') # cs)"
  by pat_completeness auto
termination
  by (relation "measure (\<lambda>x. case x of Inl (lt, ok, lo, hi, T) \<Rightarrow> size T
      | Inr (lt, ok, lo, hi, cs) \<Rightarrow> size_list (size_prod (\<lambda>_. 0) size) cs)") auto

text \<open>The bounds of a hole, and contexts whose other keys are in order.\<close>

fun hole_lo :: "bctx \<Rightarrow> byte list option" where
  "hole_lo [] = None"
| "hole_lo ((p, ls, k, rs) # C) = (if ls = [] then hole_lo C else Some k)"

fun hole_hi :: "bctx \<Rightarrow> byte list option" where
  "hole_hi [] = None"
| "hole_hi ((p, ls, k, rs) # C) = (case rs of [] \<Rightarrow> hole_hi C | (k', _) # _ \<Rightarrow> Some k')"

text \<open>The children left and right of a hole in a row.\<close>

definition left_row :: "(byte list \<Rightarrow> byte list \<Rightarrow> bool) \<Rightarrow> (byte list \<Rightarrow> bool) \<Rightarrow> byte list option \<Rightarrow> byte list option \<Rightarrow>
    (byte list \<times> bnode) list \<Rightarrow> byte list \<Rightarrow> bool" where
  "left_row lt ok lo hi ls k \<longleftrightarrow> ls = [] \<or> within_row lt ok lo (Some k) ls \<and> ok k \<and> strict_lo lt lo k \<and> under_hi lt k hi"

definition right_row :: "(byte list \<Rightarrow> byte list \<Rightarrow> bool) \<Rightarrow> (byte list \<Rightarrow> bool) \<Rightarrow> byte list option \<Rightarrow> byte list option \<Rightarrow>
    (byte list \<times> bnode) list \<Rightarrow> bool" where
  "right_row lt ok lo hi rs \<longleftrightarrow> (case rs of [] \<Rightarrow> True
     | (k', _) # _ \<Rightarrow> ok k' \<and> strict_lo lt lo k' \<and> under_hi lt k' hi \<and> within_row lt ok (Some k') hi rs)"

abbreviation row_lo :: "byte list option \<Rightarrow> (byte list \<times> bnode) list \<Rightarrow> byte list \<Rightarrow> byte list option" where
  "row_lo lo ls k \<equiv> if ls = [] then lo else Some k"

abbreviation row_hi :: "byte list option \<Rightarrow> (byte list \<times> bnode) list \<Rightarrow> byte list option" where
  "row_hi hi rs \<equiv> case rs of [] \<Rightarrow> hi | (k', _) # _ \<Rightarrow> Some k'"

fun ctx_within :: "(byte list \<Rightarrow> byte list \<Rightarrow> bool) \<Rightarrow> (byte list \<Rightarrow> bool) \<Rightarrow> bctx \<Rightarrow> bool" where
  "ctx_within lt ok [] \<longleftrightarrow> True"
| "ctx_within lt ok ((p, ls, k, rs) # C) \<longleftrightarrow> left_row lt ok (hole_lo C) (hole_hi C) ls k \<and>
     right_row lt ok (row_lo (hole_lo C) ls k) (hole_hi C) rs \<and> ctx_within lt ok C"

definition bound_ok :: "('k \<Rightarrow> bool) \<Rightarrow> 'k option \<Rightarrow> bool" where
  "bound_ok ok lo \<longleftrightarrow> (case lo of None \<Rightarrow> True | Some l \<Rightarrow> ok l)"

lemma bound_ok_simps [simp]: "bound_ok ok None" "bound_ok ok (Some l) = ok l"
  by (simp_all add: bound_ok_def)

lemma within_row_Cons:
  "within_row lt ok lo hi ((k, c) # rs) \<longleftrightarrow> within lt ok lo (row_hi hi rs) c \<and> right_row lt ok lo hi rs"
  by (cases rs) (auto simp: right_row_def)

lemma ctx_bounds_ok: "ctx_within lt ok C \<Longrightarrow> bound_ok ok (hole_lo C) \<and> bound_ok ok (hole_hi C)"
proof (induction C)
  case (Cons x C)
  then show ?case by (cases x) (auto simp: left_row_def right_row_def split: list.splits)
qed simp

context key_compare
begin

lemma above_trans: "bound_ok valid lo \<Longrightarrow> valid k \<Longrightarrow> valid l \<Longrightarrow> strict_lo lt lo k \<Longrightarrow> lt k l \<Longrightarrow> strict_lo lt lo l"
  by (cases lo) (simp_all, rule lt_trans [of _ k l])

lemma under_trans: "bound_ok valid hi \<Longrightarrow> valid k \<Longrightarrow> valid l \<Longrightarrow> lt k l \<Longrightarrow> under_hi lt l hi \<Longrightarrow> under_hi lt k hi"
  by (cases hi) (simp_all, rule lt_trans [of k l])

end

context leaf_search
begin

text \<open>A row of children is split at any of its keys.\<close>

lemma within_row_split:
  assumes "bound_ok valid lo" "bound_ok valid hi"
  shows "within_row lt valid lo hi (ls @ (k, c) # rs) \<longleftrightarrow> left_row lt valid lo hi ls k \<and> within_row lt valid (row_lo lo ls k) hi ((k, c) # rs)"
  using assms(1)
proof (induction ls arbitrary: lo)
  case (Cons x ls)
  obtain k0 c0 where x: "x = (k0, c0)" by (cases x)
  show ?case
  proof (cases ls)
    case Nil
    then show ?thesis by (auto simp: x left_row_def)
  next
    case (Cons y ls')
    obtain k1 c1 where y: "y = (k1, c1)" by (cases y)
    have IH: "valid k1 \<Longrightarrow> within_row lt valid (Some k1) hi (ls @ (k, c) # rs) \<longleftrightarrow>
        left_row lt valid (Some k1) hi ls k \<and> within_row lt valid (Some k) hi ((k, c) # rs)"
      using Cons.IH [of "Some k1"] Cons by simp
    show ?thesis
      using IH above_trans [OF Cons.prems, of k1 k] under_trans [OF assms(2), of k1 k]
      by (auto simp: x Cons y left_row_def)
  qed
qed (simp add: left_row_def)

lemma ctx_plug_within:
  "ctx_within lt valid C \<Longrightarrow> within lt valid (hole_lo C) (hole_hi C) T \<Longrightarrow> within lt valid None None (plug C T)"
proof (induction C arbitrary: T)
  case (Cons x C)
  obtain p ls k rs where x: "x = (p, ls, k, rs)" by (cases x)
  have c: "ctx_within lt valid C" "bound_ok valid (hole_lo C)" "bound_ok valid (hole_hi C)"
    using Cons.prems(1) ctx_bounds_ok by (auto simp: x)
  have "within_row lt valid (hole_lo C) (hole_hi C) (ls @ (k, T) # rs)"
    using Cons.prems within_row_split [OF c(2,3)] by (simp add: x within_row_Cons)
  then show ?case using Cons.IH [OF c(1), of "BNode p (ls @ (k, T) # rs)"] by (simp add: x)
qed simp

text \<open>A node is entered at one of its children.\<close>

lemma ctx_enter:
  assumes "ctx_within lt valid C" "within lt valid (hole_lo C) (hole_hi C) (BNode p (ls @ (k, c) # rs))"
  shows "ctx_within lt valid ((p, ls, k, rs) # C)" "within lt valid (hole_lo ((p, ls, k, rs) # C)) (hole_hi ((p, ls, k, rs) # C)) c"
  using assms ctx_bounds_ok [OF assms(1)] within_row_split [of "hole_lo C" "hole_hi C" ls k c rs] by (simp_all add: within_row_Cons)

text \<open>A child is replaced by two.\<close>

lemma within_row_two:
  assumes lo: "bound_ok valid lo" "bound_ok valid hi" and l: "left_row lt valid lo hi ls k" and r: "right_row lt valid (row_lo lo ls k) hi rs"
    and key: "valid key" "strict_lo lt (row_lo lo ls k) key" "under_hi lt key (row_hi hi rs)"
    and L: "within lt valid (row_lo lo ls k) (Some key) L" and R: "within lt valid (Some key) (row_hi hi rs) R"
  shows "within_row lt valid lo hi (ls @ (k, L) # (key, R) # rs)"
proof -
  have lo': "bound_ok valid (row_lo lo ls k)" using lo l by (auto simp: left_row_def)
  have "right_row lt valid (Some key) hi rs"
  proof (cases rs)
    case (Cons y rs')
    then show ?thesis using r key by (cases y) (auto simp: right_row_def)
  qed (simp add: right_row_def)
  moreover have "under_hi lt key hi"
  proof (cases rs)
    case (Cons y rs')
    then show ?thesis using r key under_trans [OF lo(2), of key "fst y"] by (cases y) (auto simp: right_row_def)
  qed (use key in simp)
  ultimately have "right_row lt valid (row_lo lo ls k) hi ((key, R) # rs)"
    using key R by (simp add: right_row_def [of _ _ _ _ "(key, R) # rs"] within_row_Cons)
  then show ?thesis using within_row_split [OF lo, of ls k L "(key, R) # rs"] l L by (simp add: within_row_Cons)
qed

text \<open>The keys of a row are sorted.\<close>

lemma within_row_sorted:
  "within_row lt valid lo hi cs \<Longrightarrow> bound_ok valid lo \<Longrightarrow>
     key_sorted lt (tl cs) \<and> valid_keys valid (tl cs) \<and> (\<forall>(k, c) \<in> set (tl cs). strict_lo lt lo k)"
proof (induction cs arbitrary: lo)
  case (Cons x cs)
  obtain k c where x: "x = (k, c)" by (cases x)
  show ?case
  proof (cases cs)
    case (Cons y cs')
    obtain k' c' where y: "y = (k', c')" by (cases y)
    have 1: "valid k'" "strict_lo lt lo k'" "within_row lt valid (Some k') hi cs"
      using Cons.prems(1) by (simp_all add: x Cons y)
    have IH: "key_sorted lt cs'" "valid_keys valid cs'" "\<forall>(k, c) \<in> set cs'. lt k' k"
      using Cons.IH [OF 1(3)] 1(1) by (simp_all add: Cons)
    have "strict_lo lt lo (fst e)" if "e \<in> set cs'" for e
      using above_trans [OF Cons.prems(2) 1(1) _ 1(2), of "fst e"] IH(2,3) that by (force simp: valid_keys_def list_all_iff)
    then show ?thesis using 1 IH by (auto simp: x Cons y key_sorted_def valid_keys_def split_def)
  qed (simp add: key_sorted_def valid_keys_def)
qed simp

end

end
