(* ===== verification/Tree_Order.thy ===== *)
theory Tree_Order
  imports Tree_Shape
begin

text \<open>
  What the order of the keys in a tree says about its pairs: they are sorted, a key belongs to one child of every
  node, and looking up and inserting a key act on the pairs of the leaf that the search reaches.
\<close>

text \<open>Lookup and insertion act on the middle of a list when the key lies between its ends.\<close>

context key_compare
begin

lemma above_lt: "valid x \<Longrightarrow> valid k \<Longrightarrow> valid y \<Longrightarrow> lt x k \<Longrightarrow> \<not> lt y k \<Longrightarrow> lt x y"
  using not_lt_trans [of x y k] by blast

lemma above_lt2: "valid x \<Longrightarrow> valid k \<Longrightarrow> valid y \<Longrightarrow> \<not> lt k x \<Longrightarrow> lt k y \<Longrightarrow> lt x y"
  using not_lt_trans [of k x y] by blast

definition keys_below :: "('k \<times> 'v) list \<Rightarrow> 'k \<Rightarrow> bool" where
  "keys_below xs key \<longleftrightarrow> (\<forall>(k, v) \<in> set xs. valid k \<and> lt k key)"

definition keys_over :: "'k \<Rightarrow> ('k \<times> 'v) list \<Rightarrow> bool" where
  "keys_over key xs \<longleftrightarrow> (\<forall>(k, v) \<in> set xs. valid k \<and> lt key k)"

lemma find_none_all: "(\<And>x. x \<in> set xs \<Longrightarrow> \<not> P x) \<Longrightarrow> find P xs = None"
  by (auto simp: find_None_iff)

lemma assoc_find_middle:
  assumes "keys_below xs key" "keys_over key ys"
  shows "assoc_find lt (xs @ es @ ys) key = assoc_find lt es key"
proof -
  have "find (\<lambda>e. key_eq lt (fst e) key) xs = None" "find (\<lambda>e. key_eq lt (fst e) key) ys = None"
    using assms by (force intro!: find_none_all simp: keys_below_def keys_over_def key_eq_def)+
  then show ?thesis by (auto simp: assoc_find_def find_append split: option.splits)
qed

lemma assoc_insert_middle:
  assumes "keys_below xs key" "keys_over key ys" "valid key"
  shows "assoc_insert lt key v (xs @ es @ ys) = xs @ assoc_insert lt key v es @ ys"
proof -
  have x: "\<forall>e \<in> set xs. lt (fst e) key" using assms(1) by (auto simp: keys_below_def)
  have y: "\<forall>e \<in> set ys. \<not> lt (fst e) key" using assms(2,3) lt_asym by (fastforce simp: keys_over_def)
  have "takeWhile (\<lambda>e. lt (fst e) key) ys = []" "dropWhile (\<lambda>e. lt (fst e) key) ys = ys" using y by (cases ys; simp)+
  then have "takeWhile (\<lambda>e. lt (fst e) key) (es @ ys) = takeWhile (\<lambda>e. lt (fst e) key) es"
    "dropWhile (\<lambda>e. lt (fst e) key) (es @ ys) = dropWhile (\<lambda>e. lt (fst e) key) es @ ys"
    by (induction es) auto
  then show ?thesis
    using x assoc_find_middle [OF assms(1,2), of es] by (simp add: assoc_insert_def)
qed

end

context leaf_search
begin

text \<open>The pairs of a tree are sorted and lie between its bounds.\<close>

definition pairs_within :: "byte list option \<Rightarrow> byte list option \<Rightarrow> (byte list \<times> RowId) list \<Rightarrow> bool" where
  "pairs_within lo hi es \<longleftrightarrow> key_sorted lt es \<and> valid_keys valid es \<and> (\<forall>(k, v) \<in> set es. above_lo lt lo k \<and> under_hi lt k hi)"

lemma pairs_within_append:
  assumes a: "pairs_within lo (Some k) xs" "pairs_within (Some k) hi ys" and k: "valid k" "strict_lo lt lo k" "under_hi lt k hi"
    and lo: "bound_ok valid lo" "bound_ok valid hi"
  shows "pairs_within lo hi (xs @ ys)"
proof -
  have x: "valid (fst e)" "lt (fst e) k" "above_lo lt lo (fst e)" if "e \<in> set xs" for e
    using a(1) that by (auto simp: pairs_within_def valid_keys_def list_all_iff)
  have y: "valid (fst e)" "\<not> lt (fst e) k" "under_hi lt (fst e) hi" if "e \<in> set ys" for e
    using a(2) that by (auto simp: pairs_within_def valid_keys_def list_all_iff)
  have "lt (fst e) (fst e')" if "e \<in> set xs" "e' \<in> set ys" for e e'
    by (rule above_lt [OF x(1) k(1) y(1) x(2) y(2)]) (use that in simp_all)
  then have "key_sorted lt (xs @ ys)" using a by (auto simp: pairs_within_def key_sorted_def sorted_wrt_append)
  moreover have "under_hi lt (fst e) hi" if "e \<in> set xs" for e
    using under_trans [OF lo(2) x(1) k(1) x(2) k(3)] that by blast
  moreover have "above_lo lt lo (fst e)" if "e \<in> set ys" for e
  proof (cases lo)
    case (Some l)
    have "lt l (fst e)" by (rule above_lt [OF _ k(1) y(1) _ y(2)]) (use Some lo k that in simp_all)
    then show ?thesis using Some lo y(1) [OF that] lt_asym by auto
  qed simp
  ultimately show ?thesis using a x y by (auto simp: pairs_within_def valid_keys_def split_def)
qed

lemma within_pairs_aux:
  "lt' = lt \<Longrightarrow> ok = valid \<Longrightarrow> within lt' ok lo hi T \<Longrightarrow> bound_ok valid lo \<Longrightarrow> bound_ok valid hi \<Longrightarrow> pairs_within lo hi (tree_pairs T)"
  "lt' = lt \<Longrightarrow> ok = valid \<Longrightarrow> within_row lt' ok lo hi cs \<Longrightarrow> bound_ok valid lo \<Longrightarrow> bound_ok valid hi \<Longrightarrow>
     pairs_within lo hi (leaf_pairs (forest_leaves cs))"
proof (induction lt' ok lo hi T and lt' ok lo hi cs rule: within_within_row.induct)
  case (5 lt' ok lo hi k c k' c' cs)
  have "pairs_within lo hi (tree_pairs c @ leaf_pairs (forest_leaves ((k', c') # cs)))"
    by (rule pairs_within_append [of lo k']) (use 5 in \<open>auto\<close>)
  then show ?case by (simp add: tree_pairs_def)
qed (simp_all add: tree_pairs_def pairs_within_def)

lemmas within_pairs = within_pairs_aux [OF refl refl]

text \<open>The pairs beside a hole.\<close>

lemma ctx_pairs:
  assumes "ctx_within lt valid C" "valid key" "above_lo lt (hole_lo C) key" "under_hi lt key (hole_hi C)"
  shows "keys_below (leaf_pairs (before C)) key" "keys_over key (leaf_pairs (behind C))"
  using assms
proof (induction C)
  case Nil
  case 1
  show ?case by (simp add: keys_below_def)
next
  case Nil
  case 2
  show ?case by (simp add: keys_over_def)
next
  case (Cons x C)
  obtain p ls k rs where x: "x = (p, ls, k, rs)" by (cases x)
  {
    assume pr: "ctx_within lt valid (x # C)" "above_lo lt (hole_lo (x # C)) key" "under_hi lt key (hole_hi (x # C))"
    have c: "ctx_within lt valid C" "bound_ok valid (hole_lo C)" "bound_ok valid (hole_hi C)"
      using pr(1) ctx_bounds_ok by (auto simp: x)
    have k: "ls \<noteq> [] \<Longrightarrow> valid k \<and> strict_lo lt (hole_lo C) k \<and> \<not> lt key k" using pr(1,2) by (auto simp: x left_row_def)
    have "above_lo lt (hole_lo C) key"
    proof (cases "hole_lo C")
      case (Some l)
      show ?thesis
      proof (cases "ls = []")
        case False
        have "lt l key" by (rule above_lt [of l k key]) (use Some c k [OF False] assms(2) in simp_all)
        then show ?thesis using Some c assms(2) lt_asym by auto
      qed (use pr(2) Some in \<open>simp add: x\<close>)
    qed simp
    moreover have "under_hi lt key (hole_hi C)"
      using pr(1,3) under_trans [OF c(3) assms(2)] by (auto simp: x right_row_def split: list.splits)
    ultimately have IH: "keys_below (leaf_pairs (before C)) key" "keys_over key (leaf_pairs (behind C))"
      using Cons.IH c(1) assms(2) by simp_all
    have "keys_below (leaf_pairs (forest_leaves ls)) key"
    proof (cases "ls = []")
      case False
      have "within_row lt valid (hole_lo C) (Some k) ls" using pr(1) False by (auto simp: x left_row_def)
      then have w: "pairs_within (hole_lo C) (Some k) (leaf_pairs (forest_leaves ls))" using within_pairs(2) c(2) k [OF False] by simp
      show ?thesis unfolding keys_below_def
      proof clarify
        fix k' v assume "(k', v) \<in> set (leaf_pairs (forest_leaves ls))"
        then have "valid k'" "lt k' k" using w by (auto simp: pairs_within_def valid_keys_def list_all_iff)
        then show "valid k' \<and> lt k' key" using above_lt [of k' k key] k [OF False] assms(2) by simp
      qed
    qed (simp add: keys_below_def)
    moreover have "keys_over key (leaf_pairs (forest_leaves rs))"
    proof (cases rs)
      case (Cons y rs')
      obtain k1 c1 where y: "y = (k1, c1)" by (cases y)
      have k1: "valid k1" "lt key k1" "within_row lt valid (Some k1) (hole_hi C) rs"
        using pr(1,3) by (auto simp: x Cons y right_row_def)
      then have w: "pairs_within (Some k1) (hole_hi C) (leaf_pairs (forest_leaves rs))" using within_pairs(2) c(3) by simp
      show ?thesis unfolding keys_over_def
      proof clarify
        fix k' v assume "(k', v) \<in> set (leaf_pairs (forest_leaves rs))"
        then have "valid k'" "\<not> lt k' k1" using w by (auto simp: pairs_within_def valid_keys_def list_all_iff)
        then show "valid k' \<and> lt key k'" using above_lt [of key k1 k'] k1 assms(2) by simp
      qed
    qed (simp add: keys_over_def)
    ultimately have "keys_below (leaf_pairs (before (x # C))) key" "keys_over key (leaf_pairs (behind (x # C)))"
      using IH by (auto simp: x keys_below_def keys_over_def)
  }
  note both = this
  case 1
  with both(1) show ?case by blast
  case 2
  with both(2) show ?case by blast
qed

text \<open>The child that a search enters.\<close>

lemma child_choice:
  assumes w: "within_row lt valid lo hi cs" "bound_ok valid lo" and key: "valid key" "above_lo lt lo key" "under_hi lt key hi"
  defines "m \<equiv> length (takeWhile (\<lambda>e. \<not> lt key (fst e)) (tl cs))"
  shows "m < length cs" "cs = take m cs @ cs ! m # drop (Suc m) cs"
    "above_lo lt (row_lo lo (take m cs) (fst (cs ! m))) key" "under_hi lt key (row_hi hi (drop (Suc m) cs))"
proof -
  have ne: "cs \<noteq> []" using w(1) by auto
  note S = within_row_sorted [OF w]
  note U = upto_split [of "tl cs" key, folded m_def]
  have m: "m \<le> length (tl cs)" using U(1) S key by blast
  then show m1: "m < length cs" using ne by (cases cs) auto
  show "cs = take m cs @ cs ! m # drop (Suc m) cs" by (rule id_take_nth_drop [OF m1])
  show "above_lo lt (row_lo lo (take m cs) (fst (cs ! m))) key"
  proof (cases m)
    case (Suc j)
    have "\<not> lt key (fst (tl cs ! j))" using U(2) [of j] S key Suc by blast
    then show ?thesis using Suc ne m1 by (auto simp: nth_tl)
  qed (use key in simp)
  show "under_hi lt key (row_hi hi (drop (Suc m) cs))"
  proof (cases "Suc m < length cs")
    case True
    have "lt key (fst (tl cs ! m))" using U(3) [of m] S key True by simp
    moreover have "drop (Suc m) cs = tl cs ! m # drop (Suc (Suc m)) cs" using True by (simp add: Cons_nth_drop_Suc nth_tl)
    ultimately show ?thesis by (simp add: split_def)
  qed (use key in simp)
qed

end

end
