(* ===== verification/Pool_Pins.thy ===== *)
theory Pool_Pins
  imports Pool_Session
begin

text \<open>
  Clients of the buffer pool that hold several pages at once and give them back in any order: \<open>held W H b b'\<close> says that
  the work from \<open>b\<close> to \<open>b'\<close> has taken \<open>H p\<close> more pins on every page \<open>p\<close> than it gave back, and that only the pages of
  \<open>W\<close> may have changes that are not yet reported as dirty. Pages allocated on the way are counted against a quota.
\<close>

definition one :: "page_id_t \<Rightarrow> page_id_t \<Rightarrow> int" where "one p q = (if q = p then 1 else 0)"

lemma one_simps [simp]: "one p p = 1" "q \<noteq> p \<Longrightarrow> one p q = 0" "0 \<le> one p q"
  by (simp_all add: one_def)

text \<open>The frame that holds a pinned page.\<close>

definition pinned_at :: "('r, 'd) bpm \<Rightarrow> page_id_t \<Rightarrow> frame_id_t \<Rightarrow> bool" where
  "pinned_at b p f \<longleftrightarrow> page_table b p = Some f \<and> 0 < pins b p"

context buffer_pool
begin

definition held :: "page_id_t set \<Rightarrow> (page_id_t \<Rightarrow> int) \<Rightarrow> ('r, 'd) bpm \<Rightarrow> ('r, 'd) bpm \<Rightarrow> bool" where
  "held W H b b' \<longleftrightarrow> bp_ok b' \<and> pool_size b' = pool_size b \<and> pins b' = (\<lambda>q. pins b q + H q) \<and>
     (\<forall>q. 0 < pins b q \<longrightarrow> page_table b' q = page_table b q) \<and> unsaved b' \<subseteq> unsaved b \<union> W"

lemma held_runs: "held W (\<lambda>_. 0) b b' = runs W b b'"
  by (simp add: held_def runs_def)

lemma held_ok: "held W H b b' \<Longrightarrow> bp_ok b'"
  by (simp add: held_def)

lemma held_mono: "held W H b b' \<Longrightarrow> W \<subseteq> V \<Longrightarrow> held V H b b'"
  by (auto simp: held_def)

lemma held_trans:
  assumes 1: "held W H b b1" and 2: "held V G b1 b2" and nn: "\<And>q. 0 \<le> H q"
  shows "held (W \<union> V) (\<lambda>q. H q + G q) b b2"
proof -
  have "page_table b2 q = page_table b q" if "0 < pins b q" for q
    using 1 2 that nn [of q] by (simp add: held_def)
  then show ?thesis using 1 2 by (auto simp: held_def)
qed

lemma held_run:
  assumes "held W H b b1" "runs V b1 b2" "\<And>q. 0 \<le> H q"
  shows "held (W \<union> V) H b b2"
  using held_trans [OF assms(1) assms(2) [folded held_runs] assms(3)] by simp

lemma run_held: "runs W b b1 \<Longrightarrow> held V G b1 b2 \<Longrightarrow> held (W \<union> V) G b b2"
  using held_trans [of W "\<lambda>_. 0" b b1 V G b2] by (simp add: held_runs)

lemma pinned_at_data: "bp_ok b \<Longrightarrow> pinned_at b p f \<Longrightarrow> store b p = Some (fdata b f)"
  using resident(4) [of b p f] by (auto simp: store_def bpm_view_def pinned_at_def)

lemma pinned_at_held: "held W H b b' \<Longrightarrow> pinned_at b p f \<Longrightarrow> 0 \<le> H p \<Longrightarrow> pinned_at b' p f"
  by (simp add: held_def pinned_at_def)

lemma pinned_at_runs: "runs W b b' \<Longrightarrow> pinned_at b p f \<Longrightarrow> pinned_at b' p f"
  by (simp add: runs_def pinned_at_def)

lemma pinned_at_pinned:
  assumes "bp_ok b" "pinned_at b p f"
  shows "f \<in> pinned b" "page_id (frame b f) = p"
  using assms resident [OF conjunct1 [OF assms(1)], of p f] by (auto simp: pinned_at_def pins_def pinned_def)

lemma pinned_at_inj: "bp_ok b \<Longrightarrow> pinned_at b p f \<Longrightarrow> pinned_at b q g \<Longrightarrow> f = g \<longleftrightarrow> p = q"
  by (metis option.inject pinned_at_def pinned_at_pinned(2))

lemma held_spares: "held W H b b' \<Longrightarrow> (\<And>q. H q = 0) \<Longrightarrow> spares b' = spares b"
  by (simp add: held_def spares_def)

section \<open>The operations\<close>

lemma spares_pin:
  assumes ok: "bp_ok b" and n: "pool_size b' = pool_size b" and p: "{q. 0 < pins b' q} \<subseteq> insert p {q. 0 < pins b q}"
  shows "spares b \<le> Suc (spares b')"
proof -
  have fin: "finite {q. 0 < pins b q}" by (rule pinned_pages(2) [OF conjunct1 [OF ok]])
  have "card {q. 0 < pins b' q} \<le> card (insert p {q. 0 < pins b q})" using p fin by (intro card_mono) auto
  also have "\<dots> \<le> Suc (card {q. 0 < pins b q})" by (rule card_insert_le_m1) simp_all
  finally show ?thesis using n by (simp add: spares_def)
qed

lemma held_Fetch:
  assumes ok: "bp_ok b" and p: "store b p = Some d" and sp: "0 < spares b"
  obtains b' f where "FetchPage rops dops p b = Inr (b', Some f)" "held {} (one p) b b'" "pinned_at b' p f" "fdata b' f = d"
    "store b' = store b" "spares b \<le> Suc (spares b')" "allocated (bpm_disk b') = allocated (bpm_disk b)"
proof -
  note nn = pins_nonneg [OF conjunct1 [OF ok]]
  obtain b' f where 1: "FetchPage rops dops p b = Inr (b', Some f)" "bp_ok b'" "page_table b' p = Some f"
    "page_data (frame b' f) = d" "store b' = store b" "pins b' = (pins b)(p := pins b p + 1)"
    "unsaved b' \<subseteq> unsaved b" "\<And>q. 0 < pins b q \<Longrightarrow> page_table b' q = page_table b q"
    "pool_size b' = pool_size b" "room (bpm_disk b') = room (bpm_disk b)"
    using session_Fetch [OF ok p disjI1 [OF sp]] by metis
  have "spares b \<le> Suc (spares b')" using 1(6) by (intro spares_pin [OF ok 1(9), of p]) auto
  moreover have "held {} (one p) b b'" using 1 by (auto simp: held_def one_def)
  moreover have "pinned_at b' p f" using 1(3,6) nn [of p] by (simp add: pinned_at_def)
  moreover have "allocated (bpm_disk b') = allocated (bpm_disk b)"
  proof (cases "page_table b p")
    case (Some g)
    show ?thesis by (rule FetchPage_hit [OF conjunct1 [OF ok] Some]) (use 1(1) in simp)
  next
    case None
    note P = storeD [OF p]
    obtain f0 where "in_pool b f0" "f0 \<notin> pinned b" using spares_frame [OF conjunct1 [OF ok] sp] .
    with None P 1(1) show ?thesis by (cases rule: FetchPage_miss [OF conjunct1 [OF ok] None]) auto
  qed
  ultimately show thesis using that 1(1,4,5) by blast
qed

lemma held_New:
  assumes ok: "bp_ok b" and room: "room (bpm_disk b)" and sp: "0 < spares b"
  obtains b' f p where "NewPage rops dops b = Inr (b', Some (f, p))" "held {p} (one p) b b'" "pinned_at b' p f" "fdata b' f = zero_page"
    "store b p = None" "p \<noteq> INVALID_PAGE_ID" "store b' = (store b)(p \<mapsto> zero_page)" "spares b \<le> Suc (spares b')"
    "allocated (bpm_disk b') = insert p (allocated (bpm_disk b))"
proof -
  obtain b' f p where 1: "NewPage rops dops b = Inr (b', Some (f, p))" "bp_ok b'" "page_table b' p = Some f"
    "page_data (frame b' f) = zero_page" "p \<notin> allocated (bpm_disk b)" "store b p = None" "p \<noteq> INVALID_PAGE_ID" "pins b p = 0"
    "store b' = (store b)(p \<mapsto> zero_page)" "pins b' = (pins b)(p := 1)"
    "unsaved b' \<subseteq> insert p (unsaved b)" "\<And>q. 0 < pins b q \<Longrightarrow> page_table b' q = page_table b q"
    "pool_size b' = pool_size b"
    by (rule session_New [OF assms]) (rule that; assumption)
  have "spares b \<le> Suc (spares b')" using 1(10) by (intro spares_pin [OF ok 1(13), of p]) auto
  moreover have "held {p} (one p) b b'" using 1 by (auto simp: held_def one_def)
  moreover have "pinned_at b' p f" using 1(3,10) by (simp add: pinned_at_def)
  ultimately show thesis using that [of b' f p] 1 New_allocated [OF ok room sp 1(1)] by simp
qed

lemma held_Unpin:
  assumes h: "held W H b b1" and p: "0 < H p" "0 \<le> pins b p" and honest: "dirty \<or> p \<notin> W \<union> unsaved b"
  obtains b2 where "UnpinPage rops p dirty b1 = (b2, True)" "held (W - (if dirty then {p} else {})) (\<lambda>q. H q - one p q) b b2"
    "store b2 = store b1" "bpm_disk b2 = bpm_disk b1"
proof -
  have ok: "bp_ok b1" using held_ok [OF h] .
  have pin: "0 < pins b1 p" using h p by (simp add: held_def)
  have hon: "dirty \<or> p \<notin> unsaved b1" using honest h by (auto simp: held_def)
  obtain b2 where 2: "UnpinPage rops p dirty b1 = (b2, True)" "bp_ok b2" "page_table b2 = page_table b1"
    "store b2 = store b1" "pins b2 = (pins b1)(p := pins b1 p - 1)"
    "unsaved b2 \<subseteq> unsaved b1 - (if dirty then {p} else {})" "pool_size b2 = pool_size b1" "bpm_disk b2 = bpm_disk b1"
    by (rule session_Unpin [OF ok pin hon])
  have "held (W - (if dirty then {p} else {})) (\<lambda>q. H q - one p q) b b2"
    using h 2 by (auto simp: held_def one_def)
  then show thesis using that 2 by blast
qed

lemma runs_mod_at:
  assumes "bp_ok b" "pinned_at b p f" "length (h (fdata b f)) = PAGE_SIZE"
  shows "runs {p} b (mod_frame f h b)" "store (mod_frame f h b) = (store b)(p \<mapsto> h (fdata b f))"
    "bpm_disk (mod_frame f h b) = bpm_disk b" "fdata (mod_frame f h b) f = h (fdata b f)"
  using runs_mod_frame [where h = h, of b p f "fdata b f"] pinned_at_data [OF assms(1,2)] assms by (auto simp: pinned_at_def)

lemma runs_write_at:
  assumes "bp_ok b" "pinned_at b p f" "length d = PAGE_SIZE"
  shows "runs {p} b (write_frame f d b)" "store (write_frame f d b) = (store b)(p \<mapsto> d)"
    "bpm_disk (write_frame f d b) = bpm_disk b" "fdata (write_frame f d b) f = d"
  using runs_write [of b p f d] assms by (auto simp: pinned_at_def)

text \<open>Another pinned page is not changed.\<close>

lemma fdata_runs:
  assumes "bp_ok b" "pinned_at b q g" "runs W b b'" "store b' q = store b q"
  shows "fdata b' g = fdata b g"
  using pinned_at_data [OF assms(1,2)] pinned_at_data [OF runsD(1) [OF assms(3)] pinned_at_runs [OF assms(3,2)]] assms(4) by simp

text \<open>Work described by its effect on every logical page.\<close>

lemma acts_runs:
  assumes ok: "bp_ok b" and a: "acts F b b'"
  shows "runs {p. 0 < pins b p} b b'" "store b' = (\<lambda>q. map_option (F q) (store b q))"
    "allocated (bpm_disk b') = allocated (bpm_disk b)"
proof -
  note A = actsD [OF a]
  have P: "pinned b' = pinned b" "pool_size b' = pool_size b"
    "\<And>g. g \<in> pinned b \<Longrightarrow> page_id (frame b' g) = page_id (frame b g) \<and> pin_count (frame b' g) = pin_count (frame b g)"
    using a by (auto simp: acts_def)
  have table: "page_table b' q = page_table b q" "pins b' q = pins b q" if "0 < pins b q" for q
  proof -
    obtain f where f: "page_table b q = Some f" "f \<in> pinned b" using pins_frame [OF conjunct1 [OF ok], of q] \<open>0 < pins b q\<close> by auto
    have "page_table b' (page_id (frame b' f)) = Some f" by (rule pinned_page(1) [OF A(1)]) (simp add: f(2) P(1))
    moreover have "page_id (frame b f) = q" using resident(2) [OF conjunct1 [OF ok] f(1)] by simp
    ultimately show "page_table b' q = page_table b q" "pins b' q = pins b q"
      using P(3) [OF f(2)] f(1) by (simp_all add: pins_def)
  qed
  have none: "pins b' q = pins b q" if "\<not> 0 < pins b q" for q
  proof -
    have "\<not> 0 < pins b' q"
    proof
      assume "0 < pins b' q"
      then obtain f where f: "page_table b' q = Some f" "f \<in> pinned b'" using pins_frame [OF conjunct1 [OF A(1)]] by blast
      have "q = page_id (frame b f)" using resident(2) [OF conjunct1 [OF A(1)] f(1)] P f(2) by simp
      then show False using pinned_page(1) [OF ok, of f] f(2) P(1) that pins_frame [OF conjunct1 [OF ok], of q] by auto
    qed
    then show ?thesis using that pins_nonneg [OF conjunct1 [OF ok], of q] pins_nonneg [OF conjunct1 [OF A(1)], of q] by simp
  qed
  have pins: "pins b' = pins b" using table(2) none by blast
  have "unsaved b' \<subseteq> {p. 0 < pins b p}"
  proof
    fix q assume "q \<in> unsaved b'"
    then obtain f where f: "page_table b' q = Some f" "\<not> is_dirty (frame b' f)" "fdata b' f \<noteq> content (bpm_disk b') q"
      by (auto simp: unsaved_def)
    note R = resident [OF conjunct1 [OF A(1)] f(1)]
    have "pin_count (frame b' f) \<noteq> 0" using inv_butD(13) [OF conjunct1 [OF A(1)], of f] R f by auto
    then have "0 < pins b' q" using f(1) R(7) by (simp add: pins_def)
    then show "q \<in> {p. 0 < pins b p}" by (simp add: pins)
  qed
  then show "runs {p. 0 < pins b p} b b'" using A(1) P(2) pins table(1) by (auto simp: runs_def)
  show "store b' = (\<lambda>q. map_option (F q) (store b q))" using A(2,4) by (auto simp: store_def fun_eq_iff)
  show "allocated (bpm_disk b') = allocated (bpm_disk b)" by (rule A(4))
qed

end

section \<open>A quota of new pages\<close>

text \<open>A store that has room while it has handed out fewer than \<open>cap\<close> pages.\<close>

locale bounded_pool = buffer_pool +
  fixes cap :: nat
  assumes few_room: "dinv d \<Longrightarrow> card (allocated d) < cap \<Longrightarrow> room d"
begin

definition quota :: "nat \<Rightarrow> ('a, 'b) bpm \<Rightarrow> bool" where
  "quota n b \<longleftrightarrow> card (allocated (bpm_disk b)) + n \<le> cap"

lemma quota_room: "bp_ok b \<Longrightarrow> quota (Suc n) b \<Longrightarrow> room (bpm_disk b)"
  using few_room inv_butD(3) [of "{}" b] by (simp add: quota_def)

lemma quota_step: "quota (Suc n) b \<Longrightarrow> allocated (bpm_disk b') = insert p (allocated (bpm_disk b)) \<Longrightarrow> quota n b'"
  by (cases "finite (allocated (bpm_disk b))") (auto simp: quota_def card_insert_if)

lemma quota_eq: "allocated (bpm_disk b') = allocated (bpm_disk b) \<Longrightarrow> quota n b' = quota n b"
  by (simp add: quota_def)

lemma quota_less: "quota n b \<Longrightarrow> m \<le> n \<Longrightarrow> quota m b"
  by (simp add: quota_def)

end

interpretation bq: bounded_pool lru_ops "\<lambda>r. set (lru_frames r)" "\<lambda>_. UNIV" wf_lru
  disk_manager_ops disk_content disk_allocated disk_ok_id disk_room wf_disk 32704
  by unfold_locales (rule disk_room_few)

end
