(* ===== verification/Tree_Search.thy ===== *)
theory Tree_Search
  imports Tree_Order Pool_Pins
begin

text \<open>
  Searching a B+ tree in the buffer pool: the walk from the root ends at the leaf that the key belongs to, holds one pin at a
  time and changes no page.
\<close>

abbreviation bt_lt :: "BPlusTree \<Rightarrow> byte list \<Rightarrow> byte list \<Rightarrow> bool" where "bt_lt t \<equiv> key_less (bt_processor t)"
abbreviation bt_valid :: "BPlusTree \<Rightarrow> byte list \<Rightarrow> bool" where "bt_valid t \<equiv> key_valid (bt_processor t)"

text \<open>A tree whose root is kept in the record, shown by the pages of a store.\<close>

definition tree_at :: "BPlusTree \<Rightarrow> (page_id_t \<rightharpoonup> byte list) \<Rightarrow> nat \<Rightarrow> bnode \<Rightarrow> bool" where
  "tree_at t S n T \<longleftrightarrow> bt_root_page_id t = root_id T \<and> shown t S (descs INVALID_PAGE_ID T) \<and> distinct (page_ids T) \<and>
     INVALID_PAGE_ID \<notin> set (page_ids T) \<and> INDEX_ROOTS_PAGE_ID \<notin> set (page_ids T) \<and>
     within (bt_lt t) (bt_valid t) None None T \<and> balanced n T \<and> sized t T \<and> chained (leaves T) INVALID_PAGE_ID"

text \<open>A hole that a search for a key reaches; the search without a key goes to the first leaf.\<close>

definition route :: "BPlusTree \<Rightarrow> byte list option \<Rightarrow> bctx \<Rightarrow> bool" where
  "route t key C \<longleftrightarrow> (case key of None \<Rightarrow> before C = [] | Some k \<Rightarrow> bt_valid t k \<and> above_lo (bt_lt t) (hole_lo C) k \<and> under_hi (bt_lt t) k (hole_hi C))"

definition ctx_ok :: "BPlusTree \<Rightarrow> nat \<Rightarrow> bctx \<Rightarrow> bool" where
  "ctx_ok t n C \<longleftrightarrow> ctx_within (bt_lt t) (bt_valid t) C \<and> ctx_balanced n C \<and> ctx_sized t C"

abbreviation fits_hole :: "BPlusTree \<Rightarrow> bctx \<Rightarrow> bnode \<Rightarrow> bool" where
  "fits_hole t C T \<equiv> within (bt_lt t) (bt_valid t) (hole_lo C) (hole_hi C) T"

lemma shown_page: "shown t S ds \<Longrightarrow> (p, x) \<in> set ds \<Longrightarrow> \<exists>d. S p = Some d \<and> page_is t p x d"
  by (auto simp: shown_def)

lemma plug_top_page:
  assumes "shown t S (descs INVALID_PAGE_ID (plug C T))"
  obtains d where "S (root_id T) = Some d" "page_is t (root_id T) (top_desc (hole_parent C) T) d"
proof -
  have "shown t S (descs (hole_parent C) T)" using assms by (simp add: plug_shown)
  then show thesis using shown_page [of t S _ "root_id T"] that by (simp add: descs_top) blast
qed

text \<open>The child of a node that is entered, as a step of the context.\<close>

lemma enter_child:
  assumes C: "ctx_ok t (Suc n) C" and T: "fits_hole t C (BNode p cs)" "balanced (Suc n) (BNode p cs)" "sized t (BNode p cs)"
    and r: "route t key C"
    and d: "internal_entries d = child_ids cs"
  obtains ls k c rs where "cs = ls @ (k, c) # rs" "ctx_ok t n ((p, ls, k, rs) # C)" "fits_hole t ((p, ls, k, rs) # C) c"
    "balanced n c" "sized t c" "route t key ((p, ls, k, rs) # C)"
    "(case key of None \<Rightarrow> Inr (internal_ValueAt d 0) | Some k \<Rightarrow> internal_Lookup (bt_cmp t) k d) = Inr (root_id c)"
proof -
  note pick = that
  let ?lt = "bt_lt t" and ?ok = "bt_valid t"
  have cw: "ctx_within ?lt ?ok C" using C by (simp add: ctx_ok_def)
  have b: "bound_ok ?ok (hole_lo C)" "bound_ok ?ok (hole_hi C)" using ctx_bounds_ok [OF cw] by simp_all
  have row: "within_row ?lt ?ok (hole_lo C) (hole_hi C) cs" using T(1) by simp
  have ne: "cs \<noteq> []" using row by auto
  have len: "length cs = nat (GetSize d)" using d internal_entries_length [of d] by (metis length_map)
  have pos: "0 < GetSize d" using ne len by (cases cs) auto
  have sel: thesis if cs: "cs = ls @ (k, c) # rs" and r': "route t key ((p, ls, k, rs) # C)"
    and v: "(case key of None \<Rightarrow> Inr (internal_ValueAt d 0) | Some k \<Rightarrow> internal_Lookup (bt_cmp t) k d) = Inr (root_id c)" for ls k c rs
  proof -
    have "ctx_ok t n ((p, ls, k, rs) # C)" "fits_hole t ((p, ls, k, rs) # C) c"
      using C lf.ctx_enter [OF cw T(1) [unfolded cs]] T(2,3) by (auto simp: ctx_ok_def cs ball_Un)
    moreover have "balanced n c" "sized t c" using T(2,3) by (auto simp: cs)
    ultimately show thesis using pick [OF cs] r' v by blast
  qed
  show thesis
  proof (cases key)
    case None
    obtain k c rs where cs: "cs = [] @ (k, c) # rs" using ne by (cases cs) auto
    have "internal_entries d ! 0 = (internal_KeyAt d 0, internal_ValueAt d 0)" using pos by (simp add: internal_entries_def)
    then have "internal_ValueAt d 0 = root_id c" by (simp add: d cs)
    then show thesis using sel [OF cs] r None by (simp add: route_def)
  next
    case (Some key')
    have K: "?ok key'" "above_lo ?lt (hole_lo C) key'" "under_hi ?lt key' (hole_hi C)" using r Some by (simp_all add: route_def)
    define m where "m = length (takeWhile (\<lambda>e. \<not> ?lt key' (fst e)) (tl cs))"
    note CC = lf.child_choice [OF row b(1) K, folded m_def]
    obtain k c where kc: "cs ! m = (k, c)" by (cases "cs ! m")
    have cs: "cs = take m cs @ (k, c) # drop (Suc m) cs" using CC(2) kc by simp
    note S = lf.within_row_sorted [OF row b(1)]
    have tl: "tl (internal_entries d) = child_ids (tl cs)" by (simp add: d map_tl)
    have "key_sorted ?lt (tl (internal_entries d))" "valid_keys ?ok (tl (internal_entries d))"
      using S by (auto simp: tl key_sorted_def valid_keys_def sorted_wrt_map list_all_iff split_def)
    from isr.internal_Lookup_rank [OF this K(1) pos]
    have "internal_Lookup (bt_cmp t) key' d = Inr (snd (internal_entries d ! length (takeWhile (\<lambda>e. \<not> ?lt key' (fst e)) (tl (internal_entries d)))))" .
    moreover have "length (takeWhile (\<lambda>e. \<not> ?lt key' (fst e)) (tl (internal_entries d))) = m"
      by (simp add: tl takeWhile_map m_def comp_def split_def)
    ultimately have "internal_Lookup (bt_cmp t) key' d = Inr (root_id c)" using CC(1) by (simp add: d kc)
    moreover have "route t key ((p, take m cs, k, drop (Suc m) cs) # C)" using CC(3,4) K(1) by (auto simp: Some route_def kc split: if_splits)
    ultimately show thesis using sel [OF cs] Some by simp
  qed
qed

context buffer_pool
begin

lemma find_leaf_law:
  assumes "balanced n T" "bp_ok b0" "shown t (store b0) (descs INVALID_PAGE_ID (plug C T))" "ctx_ok t n C" "fits_hole t C T" "sized t T"
    "route t key C" "held {} (one (root_id T)) b0 b1" "pinned_at b1 (root_id T) f" "store b1 = store b0"
    "unsaved b0 \<inter> set (page_ids (plug C T)) = {}" "0 < spares b0" "allocated (bpm_disk b1) = allocated (bpm_disk b0)"
  shows "\<exists>b2 g D p es nx. find_leaf_loop rops dops t key b1 (Some f) = Some (Inr (b2, Some g)) \<and> plug D (BLeaf p es nx) = plug C T \<and>
    length D = length C + n \<and> ctx_ok t 0 D \<and> fits_hole t D (BLeaf p es nx) \<and> sized t (BLeaf p es nx) \<and> route t key D \<and>
    held {} (one p) b0 b2 \<and> pinned_at b2 p g \<and> store b2 = store b0 \<and> allocated (bpm_disk b2) = allocated (bpm_disk b0)"
  using assms
proof (induction n arbitrary: T C b1 f)
  case 0
  then obtain p es nx where T: "T = BLeaf p es nx" by (cases T) auto
  obtain d where d: "store b0 p = Some d" "page_is t p (LeafD (hole_parent C) es nx) d"
    using plug_top_page [OF 0(3)] by (auto simp: T top_desc_def)
  have "fdata b1 f = d" using pinned_at_data [OF held_ok [OF 0(8)] 0(9)] 0(10) d(1) by (simp add: T)
  then have "find_leaf_loop rops dops t key b1 (Some f) = Some (Inr (b1, Some f))"
    using d(2) by (subst find_leaf_loop.simps) (simp add: page_is_def)
  then show ?case using 0 by (auto simp: T intro!: exI [of _ C])
next
  case (Suc n)
  then obtain p cs where T: "T = BNode p cs" by (cases T) auto
  obtain d where d: "store b0 p = Some d" "page_is t p (NodeD (hole_parent C) (child_ids cs)) d"
    using plug_top_page [OF Suc.prems(3)] by (auto simp: T top_desc_def)
  note ok1 = held_ok [OF Suc.prems(8)]
  have fd: "fdata b1 f = d" using pinned_at_data [OF ok1 Suc.prems(9)] Suc.prems(10) d(1) by (simp add: T)
  have D: "bp_GetPageId d = p" "\<not> IsLeafPage d" "internal_entries d = child_ids cs" using d(2) by (simp_all add: page_is_def)
  obtain ls k c rs where c: "cs = ls @ (k, c) # rs" "ctx_ok t n ((p, ls, k, rs) # C)" "fits_hole t ((p, ls, k, rs) # C) c"
    "balanced n c" "sized t c" "route t key ((p, ls, k, rs) # C)"
    "(case key of None \<Rightarrow> Inr (internal_ValueAt d 0) | Some k \<Rightarrow> internal_Lookup (bt_cmp t) k d) = Inr (root_id c)"
    by (rule enter_child [OF Suc.prems(4) Suc.prems(5) [unfolded T] Suc.prems(1) [unfolded T] Suc.prems(6) [unfolded T] Suc.prems(7) D(3)])
  have pl: "plug ((p, ls, k, rs) # C) c = plug C T" by (simp add: T c(1))
  have pu: "p \<notin> unsaved b0"
    using Suc.prems(11) by (auto simp: plug_ids_set T)
  obtain b2 where 2: "UnpinPage rops p False b1 = (b2, True)" "held ({} - (if False then {p} else {})) (\<lambda>q. one (root_id T) q - one p q) b0 b2"
    "store b2 = store b1" "bpm_disk b2 = bpm_disk b1"
    by (rule held_Unpin [OF Suc.prems(8), of p False]) (use pu pins_nonneg [OF conjunct1 [OF Suc.prems(2)]] in \<open>auto simp: T\<close>)
  have r2: "runs {} b0 b2" using 2(2) by (simp add: T held_runs)
  have st2: "store b2 = store b0" using 2(3) Suc.prems(10) by simp
  have sh: "shown t (store b0) (descs INVALID_PAGE_ID (plug ((p, ls, k, rs) # C) c))" unfolding pl by (rule Suc.prems(3))
  obtain dc where dc: "store b2 (root_id c) = Some dc" using plug_top_page [OF sh] st2 by metis
  have sp2: "0 < spares b2" using runsD(6) [OF r2] Suc.prems(12) by simp
  obtain b3 g where 3: "FetchPage rops dops (root_id c) b2 = Inr (b3, Some g)" "held {} (one (root_id c)) b2 b3"
    "pinned_at b3 (root_id c) g" "fdata b3 g = dc" "store b3 = store b2" "spares b2 \<le> Suc (spares b3)"
    "allocated (bpm_disk b3) = allocated (bpm_disk b2)"
    by (rule held_Fetch [OF runsD(1) [OF r2] dc sp2])
  have h3: "held {} (one (root_id c)) b0 b3" using run_held [OF r2 3(2)] by simp
  have al3: "allocated (bpm_disk b3) = allocated (bpm_disk b0)" using 3(7) 2(4) Suc.prems(13) by simp
  have st3: "store b3 = store b0" using 3(5) st2 by simp
  from Suc.IH [OF c(4) Suc.prems(2) sh c(2,3,5,6) h3 3(3) st3 Suc.prems(11) [folded pl] Suc.prems(12) al3]
  obtain b4 h D p' es nx where 4: "find_leaf_loop rops dops t key b3 (Some g) = Some (Inr (b4, Some h))" "plug D (BLeaf p' es nx) = plug C T"
    "length D = length C + Suc n" "ctx_ok t 0 D" "fits_hole t D (BLeaf p' es nx)" "sized t (BLeaf p' es nx)" "route t key D"
    "held {} (one p') b0 b4" "pinned_at b4 p' h" "store b4 = store b0" "allocated (bpm_disk b4) = allocated (bpm_disk b0)"
    unfolding pl by auto
  have "find_leaf_loop rops dops t key b1 (Some f) = find_leaf_loop rops dops t key b3 (Some g)"
    using D(1,2) c(7) 2(1) 3(1) by (subst find_leaf_loop.simps) (simp add: fd cong: option.case_cong)
  then show ?case using 4 by auto
qed

lemma FindLeafPage_law:
  assumes T: "tree_at t (store b) n T" and ok: "bp_ok b" and key: "key = None \<or> (\<exists>k. key = Some k \<and> bt_valid t k)"
    and cl: "unsaved b \<inter> set (page_ids T) = {}" and sp: "0 < spares b"
  obtains b1 g C p es nx where "FindLeafPage rops dops key (b, t) = Some (Inr (b1, Some g))" "plug C (BLeaf p es nx) = T" "length C = n"
    "ctx_ok t 0 C" "fits_hole t C (BLeaf p es nx)" "sized t (BLeaf p es nx)" "route t key C"
    "held {} (one p) b b1" "pinned_at b1 p g" "store b1 = store b" "allocated (bpm_disk b1) = allocated (bpm_disk b)"
proof -
  have sh: "shown t (store b) (descs INVALID_PAGE_ID (plug [] T))" using T by (simp add: tree_at_def)
  obtain d where d: "store b (root_id T) = Some d" using plug_top_page [OF sh] by metis
  have root: "bt_root_page_id t = root_id T" "root_id T \<noteq> INVALID_PAGE_ID" using T by (auto simp: tree_at_def page_ids_top)
  obtain b1 f where 1: "FetchPage rops dops (root_id T) b = Inr (b1, Some f)" "held {} (one (root_id T)) b b1"
    "pinned_at b1 (root_id T) f" "fdata b1 f = d" "store b1 = store b" "spares b \<le> Suc (spares b1)"
    "allocated (bpm_disk b1) = allocated (bpm_disk b)"
    by (rule held_Fetch [OF ok d sp])
  have "ctx_ok t n []" "fits_hole t [] T" "balanced n T" "sized t T" using T by (simp_all add: ctx_ok_def tree_at_def)
  moreover have "route t key []" using key by (auto simp: route_def)
  ultimately obtain b2 g D p es nx where "find_leaf_loop rops dops t key b1 (Some f) = Some (Inr (b2, Some g))"
    "plug D (BLeaf p es nx) = T" "length D = n" "ctx_ok t 0 D" "fits_hole t D (BLeaf p es nx)" "sized t (BLeaf p es nx)" "route t key D"
    "held {} (one p) b b2" "pinned_at b2 p g" "store b2 = store b" "allocated (bpm_disk b2) = allocated (bpm_disk b)"
    using find_leaf_law [of n T b t "[]" key b1 f] ok sh 1(2,3,5,7) cl sp by auto
  then show thesis using that [of b2 g] root 1(1) by (simp add: FindLeafPage_def bt_IsEmpty_def)
qed

text \<open>A point query finds the row id of the key among the pairs of the tree.\<close>

lemma GetValue_law:
  assumes T: "tree_at t (store b) n T" and ok: "bp_ok b" and key: "bt_valid t key"
    and cl: "unsaved b \<inter> set (page_ids T) = {}" and sp: "0 < spares b"
  obtains b' where "runs {} b b'" "store b' = store b" "allocated (bpm_disk b') = allocated (bpm_disk b)"
    "GetValue rops dops key result (b, t) = Some (Inr (b', case assoc_find (bt_lt t) (tree_pairs T) key of
       None \<Rightarrow> (result, False) | Some rid \<Rightarrow> (result @ [rid], True)))"
proof -
  have key': "Some key = None \<or> (\<exists>k. Some key = Some k \<and> bt_valid t k)" using key by simp
  obtain b1 g C p es nx where 1: "FindLeafPage rops dops (Some key) (b, t) = Some (Inr (b1, Some g))" "plug C (BLeaf p es nx) = T" "length C = n"
    "ctx_ok t 0 C" "fits_hole t C (BLeaf p es nx)" "sized t (BLeaf p es nx)" "route t (Some key) C"
    "held {} (one p) b b1" "pinned_at b1 p g" "store b1 = store b" "allocated (bpm_disk b1) = allocated (bpm_disk b)"
    by (rule FindLeafPage_law [OF T ok key' cl sp])
  have sh: "shown t (store b) (descs INVALID_PAGE_ID (plug C (BLeaf p es nx)))" using T 1(2) by (simp add: tree_at_def)
  obtain d where d: "store b p = Some d" "page_is t p (LeafD (hole_parent C) es nx) d"
    using plug_top_page [OF sh] by (auto simp: top_desc_def)
  have fd: "fdata b1 g = d" using pinned_at_data [OF held_ok [OF 1(8)] 1(9)] 1(10) d(1) by simp
  have D: "bp_GetPageId d = p" "leaf_entries d = es" using d(2) by (simp_all add: page_is_def)
  have s: "key_sorted (bt_lt t) (leaf_entries d)" "valid_keys (bt_valid t) (leaf_entries d)" using 1(5) by (simp_all add: D)
  have v: "leaf_Lookup (bt_cmp t) key d = Inr (assoc_find (bt_lt t) es key)" using lf.leaf_Lookup_find [OF s key] by (simp add: D)
  have r: "above_lo (bt_lt t) (hole_lo C) key" "under_hi (bt_lt t) key (hole_hi C)" and cw: "ctx_within (bt_lt t) (bt_valid t) C"
    using 1(4,7) by (simp_all add: route_def ctx_ok_def)
  have "tree_pairs T = leaf_pairs (before C) @ es @ leaf_pairs (behind C)" by (simp add: 1(2) [symmetric] tree_pairs_def plug_leaves)
  then have e: "assoc_find (bt_lt t) (tree_pairs T) key = assoc_find (bt_lt t) es key"
    using km.assoc_find_middle [OF lf.ctx_pairs [OF cw key r]] by simp
  have "p \<in> set (page_ids T)" by (simp add: 1(2) [symmetric] plug_ids_set)
  then have pu: "p \<notin> unsaved b" using cl by blast
  obtain b2 where 2: "UnpinPage rops p False b1 = (b2, True)" "held ({} - (if False then {p} else {})) (\<lambda>q. one p q - one p q) b b2"
    "store b2 = store b1" "bpm_disk b2 = bpm_disk b1"
    by (rule held_Unpin [OF 1(8), of p False]) (use pu pins_nonneg [OF conjunct1 [OF ok]] in auto)
  have "runs {} b b2" using 2(2) by (simp add: held_runs)
  moreover have "GetValue rops dops key result (b, t) = Some (Inr (b2, case assoc_find (bt_lt t) (tree_pairs T) key of
       None \<Rightarrow> (result, False) | Some rid \<Rightarrow> (result @ [rid], True)))"
  proof -
    have "\<not> bt_IsEmpty t" using T by (auto simp: bt_IsEmpty_def tree_at_def page_ids_top)
    then show ?thesis using 1(1) 2(1) v e D(1) by (simp add: GetValue_def fd split: option.splits)
  qed
  ultimately show thesis using that [of b2] 2(3,4) 1(10,11) by simp
qed

end

end
