(* ===== verification/Tree_Scan.thy ===== *)
theory Tree_Scan
  imports Index_Iterator Tree_Search
begin

text \<open>
  Iterating over the leaves of a tree in the buffer pool. An iterator stands for a position in the sorted list of all pairs:
  dereferencing reads that list, incrementing goes to the next position, and equality of iterators is equality of positions.
\<close>

section \<open>The leaves of a tree as a list of pages\<close>

definition leaf_of :: "page_id_t \<times> pdesc \<Rightarrow> (page_id_t \<times> (byte list \<times> RowId) list \<times> page_id_t) list" where
  "leaf_of x = (case x of (p, LeafD par es nx) \<Rightarrow> [(p, es, nx)] | (p, NodeD par cs) \<Rightarrow> [])"

lemma leaf_of_simps [simp]: "leaf_of (p, LeafD par es nx) = [(p, es, nx)]" "leaf_of (p, NodeD par cs) = []"
  by (simp_all add: leaf_of_def)

lemma leaf_of_fst: "fst ` set (leaf_of x) \<subseteq> {fst x}"
  by (cases x; cases "snd x") auto

lemma leaves_descs: "leaves T = concat (map leaf_of (descs par T))"
proof (induction T arbitrary: par rule: leaves.induct)
  case (2 p cs)
  have "concat (map (\<lambda>(k, c). leaves c) cs) = concat (map (\<lambda>(k, c). concat (map leaf_of (descs p c))) cs)"
    by (rule arg_cong [of _ _ concat], rule map_cong) (use 2 in auto)
  also have "\<dots> = concat (map leaf_of (forest_descs p cs))" by (induction cs) auto
  finally show ?case by simp
qed simp

lemma leaf_of_ids: "set (map fst (concat (map leaf_of ds))) \<subseteq> set (map fst ds)"
proof (induction ds)
  case (Cons x ds)
  then show ?case using leaf_of_fst [of x] by auto
qed simp

lemma leaf_of_distinct: "distinct (map fst ds) \<Longrightarrow> distinct (map fst (concat (map leaf_of ds)))"
proof (induction ds)
  case (Cons x ds)
  then show ?case using leaf_of_ids [of ds] leaf_of_fst [of x] by (cases x; cases "snd x") auto
qed simp

definition leaves_at :: "BPlusTree \<Rightarrow> (page_id_t \<rightharpoonup> byte list) \<Rightarrow> (page_id_t \<times> (byte list \<times> RowId) list \<times> page_id_t) list \<Rightarrow> bool" where
  "leaves_at t S ls \<longleftrightarrow> (\<forall>(p, es, nx) \<in> set ls. p \<noteq> INVALID_PAGE_ID \<and> (\<exists>d par. S p = Some d \<and> page_is t p (LeafD par es nx) d)) \<and>
     distinct (map fst ls) \<and> chained ls INVALID_PAGE_ID"

lemma tree_leaves_at:
  assumes "tree_at t S n T"
  shows "leaves_at t S (leaves T)" "set (map fst (leaves T)) \<subseteq> set (page_ids T)"
proof -
  let ?ds = "descs INVALID_PAGE_ID T"
  note L = leaves_descs [of T INVALID_PAGE_ID]
  show ids: "set (map fst (leaves T)) \<subseteq> set (page_ids T)" using leaf_of_ids [of ?ds] unfolding L descs_ids .
  have "\<exists>par. (p, LeafD par es nx) \<in> set ?ds" if "(p, es, nx) \<in> set (leaves T)" for p es nx
    using that unfolding L by (auto simp: leaf_of_def split: pdesc.splits prod.splits)
  then have "\<forall>(p, es, nx) \<in> set (leaves T). \<exists>d par. S p = Some d \<and> page_is t p (LeafD par es nx) d"
    using assms by (fastforce simp: tree_at_def shown_def)
  moreover have "distinct (map fst (leaves T))" using leaf_of_distinct [of ?ds] assms unfolding L by (simp add: tree_at_def descs_ids)
  moreover have "p \<noteq> INVALID_PAGE_ID" if "(p, es, nx) \<in> set (leaves T)" for p es nx using that ids assms by (force simp: tree_at_def)
  ultimately show "leaves_at t S (leaves T)" using assms by (fastforce simp: leaves_at_def tree_at_def)
qed

section \<open>Positions\<close>

definition ii_pos :: "(page_id_t \<times> (byte list \<times> RowId) list \<times> page_id_t) list \<Rightarrow> IndexIterator \<Rightarrow> nat \<Rightarrow> bool" where
  "ii_pos ls it k \<longleftrightarrow> (if ii_page_id it = INVALID_PAGE_ID then ii_page it = None \<and> ii_index it = 0 \<and> k = length (leaf_pairs ls)
     else \<exists>ys es nx zs i. ls = ys @ (ii_page_id it, es, nx) # zs \<and> ii_index it = int i \<and> i < length es \<and> k = length (leaf_pairs ys) + i)"

definition ii_pins :: "IndexIterator \<Rightarrow> page_id_t \<Rightarrow> int" where
  "ii_pins it x = (if ii_page_id it \<noteq> INVALID_PAGE_ID \<and> x = ii_page_id it then 1 else 0)"

definition ii_live :: "('r, 'd) bpm \<Rightarrow> IndexIterator \<Rightarrow> bool" where
  "ii_live b it \<longleftrightarrow> ii_page_id it \<noteq> INVALID_PAGE_ID \<longrightarrow> (\<exists>f. ii_page it = Some f \<and> pinned_at b (ii_page_id it) f)"

lemma ii_pins_nonneg [simp]: "0 \<le> ii_pins it x" by (simp add: ii_pins_def)

lemma ii_pos_end [simp]: "ii_pos ls bt_End (length (leaf_pairs ls))" "ii_pins bt_End = (\<lambda>x. 0)" "ii_live b bt_End"
  by (simp_all add: ii_pos_def ii_pins_def ii_live_def bt_End_def IndexIterator_end_def fun_eq_iff)

lemma split_distinct:
  assumes "ys @ (p, e) # zs = ys' @ (p, e') # zs'" "distinct (map fst (ys @ (p, e) # zs))"
  shows "ys = ys' \<and> e = e' \<and> zs = zs'"
  using assms
proof (induction ys arbitrary: ys')
  case Nil
  then show ?case by (cases ys') auto
next
  case (Cons y ys)
  then show ?case by (cases ys') auto
qed

lemma ii_pos_bound: "ii_pos ls it k \<Longrightarrow> k \<le> length (leaf_pairs ls)"
  by (auto simp: ii_pos_def split: if_splits)

lemma ii_pos_eq:
  assumes "distinct (map fst ls)" "ii_pos ls it k" "ii_pos ls it' k'"
  shows "ii_eq it it' \<longleftrightarrow> k = k'"
proof -
  have end_lt: "k1 < length (leaf_pairs ls)" if "ii_pos ls i1 k1" "ii_page_id i1 \<noteq> INVALID_PAGE_ID" for i1 k1
    using that by (auto simp: ii_pos_def)
  consider "ii_page_id it = INVALID_PAGE_ID" | "ii_page_id it' = INVALID_PAGE_ID" | "ii_page_id it \<noteq> INVALID_PAGE_ID" "ii_page_id it' \<noteq> INVALID_PAGE_ID" by blast
  then show ?thesis
  proof cases
    case 1
    then show ?thesis using assms(2,3) end_lt [OF assms(3)] by (cases "ii_page_id it' = INVALID_PAGE_ID") (auto simp: ii_eq_def ii_pos_def)
  next
    case 2
    then show ?thesis using assms(2,3) end_lt [OF assms(2)] by (cases "ii_page_id it = INVALID_PAGE_ID") (auto simp: ii_eq_def ii_pos_def)
  next
    case 3
    obtain ys es nx zs i where a: "ls = ys @ (ii_page_id it, es, nx) # zs" "ii_index it = int i" "i < length es" "k = length (leaf_pairs ys) + i"
      using assms(2) 3 by (auto simp: ii_pos_def)
    obtain ys' es' nx' zs' i' where b: "ls = ys' @ (ii_page_id it', es', nx') # zs'" "ii_index it' = int i'" "i' < length es'" "k' = length (leaf_pairs ys') + i'"
      using assms(3) 3 by (auto simp: ii_pos_def)
    show ?thesis
    proof (cases "ii_page_id it = ii_page_id it'")
      case True
      have "ys = ys'" using split_distinct [of ys "ii_page_id it" "(es, nx)" zs ys' "(es', nx')" zs'] assms(1) unfolding a(1) [symmetric] b(1) [folded True, symmetric] by simp
      then show ?thesis using a b True by (auto simp: ii_eq_def)
    next
      case False
      have "k \<noteq> k'"
      proof -
        consider us where "ys' = ys @ (ii_page_id it, es, nx) # us" | us where "ys = ys' @ (ii_page_id it', es', nx') # us"
          using a(1) b(1) False by (auto simp: append_eq_append_conv2 Cons_eq_append_conv append_eq_Cons_conv)
        then show ?thesis by cases (use a b in auto)
      qed
      then show ?thesis using False by (auto simp: ii_eq_def)
    qed
  qed
qed

section \<open>Iterating\<close>

context buffer_pool
begin

text \<open>The state that a scan starts from, and a state within the scan: beside the pins \<open>G\<close> nothing is pinned and no page has
  changed.\<close>

definition scan_base :: "BPlusTree \<Rightarrow> (page_id_t \<times> (byte list \<times> RowId) list \<times> page_id_t) list \<Rightarrow> ('r, 'd) bpm \<Rightarrow> bool" where
  "scan_base t ls b \<longleftrightarrow> bp_ok b \<and> pins b = (\<lambda>x. 0) \<and> unsaved b \<inter> set (map fst ls) = {} \<and> leaves_at t (store b) ls \<and> 2 < pool_size b"

definition scanning :: "('r, 'd) bpm \<Rightarrow> (page_id_t \<Rightarrow> int) \<Rightarrow> ('r, 'd) bpm \<Rightarrow> bool" where
  "scanning b0 G b \<longleftrightarrow> held {} G b0 b \<and> store b = store b0 \<and> allocated (bpm_disk b) = allocated (bpm_disk b0)"

definition pin_few :: "(page_id_t \<Rightarrow> int) \<Rightarrow> bool" where
  "pin_few G \<longleftrightarrow> (\<forall>x. 0 \<le> G x) \<and> (\<exists>q. \<forall>x. x \<noteq> q \<longrightarrow> G x = 0)"

lemma pin_few_simps [simp]: "pin_few (\<lambda>x. 0)" "pin_few (ii_pins it)"
  by (auto simp: pin_few_def ii_pins_def)

lemma scanning_spares:
  assumes "scan_base t ls b0" "pin_few G" "scanning b0 (\<lambda>x. G x + H x) b" "pin_few H"
  shows "0 < spares b"
proof -
  have p: "pins b = (\<lambda>x. G x + H x)" "pool_size b = pool_size b0" using assms(1,3) by (simp_all add: scanning_def held_def scan_base_def)
  obtain q q' where "\<forall>x. x \<noteq> q \<longrightarrow> G x = 0" "\<forall>x. x \<noteq> q' \<longrightarrow> H x = 0" using assms(2,4) by (auto simp: pin_few_def)
  then have "{x. 0 < pins b x} \<subseteq> {q, q'}" by (auto simp: p)
  then have "card {x. 0 < pins b x} \<le> card {q, q'}" by (intro card_mono) auto
  also have "\<dots> \<le> 2" by (simp add: card_insert_if)
  finally show ?thesis using assms(1) p(2) by (simp add: spares_def scan_base_def)
qed

lemma scan_leaf:
  assumes "scan_base t ls b0" "scanning b0 G b" "(p, es, nx) \<in> set ls" "pinned_at b p f"
  shows "GetSize (fdata b f) = int (length es)" "leaf_GetNextPageId (fdata b f) = nx" "bp_GetPageId (fdata b f) = p"
    "leaf_entries (fdata b f) = es" "p \<noteq> INVALID_PAGE_ID"
proof -
  obtain d par where d: "store b0 p = Some d" "page_is t p (LeafD par es nx) d" "p \<noteq> INVALID_PAGE_ID"
    using assms(1,3) by (fastforce simp: scan_base_def leaves_at_def)
  have "fdata b f = d" using pinned_at_data [of b p f] assms(2,4) d(1) by (auto simp: scanning_def held_def)
  then show "GetSize (fdata b f) = int (length es)" "leaf_GetNextPageId (fdata b f) = nx" "bp_GetPageId (fdata b f) = p"
    "leaf_entries (fdata b f) = es" "p \<noteq> INVALID_PAGE_ID"
    using d(2,3) leaf_entries_length [of d] leaf_okD(6) [of "bt_key_size t" d] by (auto simp: page_is_def)
qed

lemma scan_fetch:
  assumes B: "scan_base t ls b0" and G: "pin_few G" and s: "scanning b0 G b" and p: "(p, es, nx) \<in> set ls"
  obtains b' f where "FetchPage rops dops p b = Inr (b', Some f)" "scanning b0 (\<lambda>x. G x + one p x) b'" "pinned_at b' p f"
proof -
  obtain d where d: "store b p = Some d" using B s p by (fastforce simp: scan_base_def leaves_at_def scanning_def)
  have ok: "bp_ok b" using s held_ok unfolding scanning_def by blast
  have sp: "0 < spares b" by (rule scanning_spares [OF B G _ pin_few_simps(1)]) (use s in simp)
  obtain b' f where 1: "FetchPage rops dops p b = Inr (b', Some f)" "held {} (one p) b b'" "pinned_at b' p f" "fdata b' f = d"
    "store b' = store b" "spares b \<le> Suc (spares b')" "allocated (bpm_disk b') = allocated (bpm_disk b)"
    by (rule held_Fetch [OF ok d sp])
  have "held ({} \<union> {}) (\<lambda>x. G x + one p x) b0 b'" by (rule held_trans [OF _ 1(2)]) (use s G in \<open>auto simp: scanning_def pin_few_def\<close>)
  then show thesis using that [OF 1(1) _ 1(3)] s 1(5,7) by (simp add: scanning_def)
qed

lemma scan_unpin:
  assumes B: "scan_base t ls b0" and G: "pin_few G" and s: "scanning b0 (\<lambda>x. G x + one p x) b" and p: "p \<in> set (map fst ls)"
  obtains b' where "UnpinPage rops p False b = (b', True)" "scanning b0 G b'"
proof -
  have h: "held {} (\<lambda>x. G x + one p x) b0 b" using s by (simp add: scanning_def)
  have z: "pins b0 p = 0" "p \<notin> unsaved b0" using B p by (auto simp: scan_base_def)
  have g: "0 \<le> G p" using G by (simp add: pin_few_def)
  obtain b' where 1: "UnpinPage rops p False b = (b', True)" "held ({} - (if False then {p} else {})) (\<lambda>x. G x + one p x - one p x) b0 b'"
    "store b' = store b" "bpm_disk b' = bpm_disk b"
    by (rule held_Unpin [OF h, of p False]) (use z g in auto)
  then show thesis using that s by (simp add: scanning_def)
qed

text \<open>From an exhausted leaf to the next one, or to the end.\<close>

lemma scan_step:
  assumes B: "scan_base t ls b0" and G: "pin_few G" and s: "scanning b0 (\<lambda>x. G x + one p x) b" and p: "ls = ys @ (p, es, nx) # zs"
  obtains b1 where "zs = []" "nx = INVALID_PAGE_ID" "UnpinPage rops p False b = (b1, True)" "scanning b0 G b1"
  | b1 q es' nx' zs' b2 g where "zs = (q, es', nx') # zs'" "nx = q" "q \<noteq> INVALID_PAGE_ID" "UnpinPage rops p False b = (b1, True)"
    "FetchPage rops dops q b1 = Inr (b2, Some g)" "scanning b0 (\<lambda>x. G x + one q x) b2" "pinned_at b2 q g"
proof -
  have in': "p \<in> set (map fst ls)" by (simp add: p)
  obtain b1 where 1: "UnpinPage rops p False b = (b1, True)" "scanning b0 G b1" by (rule scan_unpin [OF B G s in'])
  have L: "leaves_at t (store b0) ls" using B by (simp add: scan_base_def)
  then have c: "nx = first_or INVALID_PAGE_ID zs" by (simp add: leaves_at_def p chained_append first_or_def)
  show thesis
  proof (cases zs)
    case Nil
    then show thesis using that(1) [OF _ _ 1] c by (simp add: first_or_def)
  next
    case (Cons z zs')
    obtain q es' nx' where z: "z = (q, es', nx')" by (cases z)
    have q: "(q, es', nx') \<in> set ls" "q \<noteq> INVALID_PAGE_ID" "nx = q" using L c by (auto simp: p Cons z leaves_at_def first_or_def)
    obtain b2 g where 2: "FetchPage rops dops q b1 = Inr (b2, Some g)" "scanning b0 (\<lambda>x. G x + one q x) b2" "pinned_at b2 q g"
      by (rule scan_fetch [OF B G 1(2) q(1)])
    show thesis by (rule that(2) [OF Cons [unfolded z] q(3,2) 1(1) 2])
  qed
qed

definition ii_at :: "('r, 'd) bpm \<Rightarrow> (page_id_t \<times> (byte list \<times> RowId) list \<times> page_id_t) list \<Rightarrow> (page_id_t \<Rightarrow> int) \<Rightarrow> nat \<Rightarrow> ('r, 'd) bpm \<Rightarrow> IndexIterator \<Rightarrow> bool" where
  "ii_at b0 ls G k b it \<longleftrightarrow> ii_pos ls it k \<and> scanning b0 (\<lambda>x. G x + ii_pins it x) b \<and> ii_live b it"

lemma ii_at_end: "scanning b0 G b \<Longrightarrow> ii_at b0 ls G (length (leaf_pairs ls)) b \<lparr>ii_page_id = INVALID_PAGE_ID, ii_page = None, ii_index = 0\<rparr>"
  by (simp add: ii_at_def ii_pos_def ii_live_def ii_pins_def)

lemma ii_at_page:
  assumes "ls = ys @ (p, es, nx) # zs" "i < length es" "p \<noteq> INVALID_PAGE_ID" "scanning b0 (\<lambda>x. G x + one p x) b" "pinned_at b p f"
  shows "ii_at b0 ls G (length (leaf_pairs ys) + i) b \<lparr>ii_page_id = p, ii_page = Some f, ii_index = int i\<rparr>"
proof -
  have "ii_pins \<lparr>ii_page_id = p, ii_page = Some f, ii_index = int i\<rparr> = one p" using assms(3) by (auto simp: ii_pins_def one_def)
  then show ?thesis using assms by (simp add: ii_at_def ii_pos_def ii_live_def) blast
qed

lemma ii_advance_law:
  assumes B: "scan_base t ls b0" and G: "pin_few G" and s: "scanning b0 (\<lambda>x. G x + one p x) b" and p: "ls = ys @ (p, es, nx) # zs"
    and f: "pinned_at b p f" and i: "i \<le> length es"
  shows "\<exists>b' it. ii_advance rops dops b \<lparr>ii_page_id = p, ii_page = Some f, ii_index = int i\<rparr> = Some (Inr (b', it)) \<and>
    ii_at b0 ls G (length (leaf_pairs ys) + i) b' it"
  using s p f i
proof (induction zs arbitrary: b p es nx ys f i rule: length_induct)
  case (1 zs)
  have in': "(p, es, nx) \<in> set ls" using 1(3) by simp
  note D = scan_leaf [OF B 1(2) in' 1(4)]
  show ?case
  proof (cases "i < length es")
    case True
    then have "ii_advance rops dops b \<lparr>ii_page_id = p, ii_page = Some f, ii_index = int i\<rparr> =
        Some (Inr (b, \<lparr>ii_page_id = p, ii_page = Some f, ii_index = int i\<rparr>))"
      by (subst ii_advance.simps) (simp add: D)
    then show ?thesis using ii_at_page [OF 1(3) True D(5) 1(2,4)] by blast
  next
    case False
    then have i: "i = length es" using 1(5) by simp
    show ?thesis
    proof (cases rule: scan_step [OF B G 1(2,3)])
      case (1 b1)
      have "ii_advance rops dops b \<lparr>ii_page_id = p, ii_page = Some f, ii_index = int i\<rparr> =
          Some (Inr (b1, \<lparr>ii_page_id = INVALID_PAGE_ID, ii_page = None, ii_index = 0\<rparr>))"
        by (subst ii_advance.simps) (use D i 1 in \<open>simp add: Let_def\<close>)
      moreover have "length (leaf_pairs ys) + i = length (leaf_pairs ls)" using \<open>ls = ys @ (p, es, nx) # zs\<close> 1 i by simp
      ultimately show ?thesis using ii_at_end [OF 1(4), of ls] by auto
    next
      case (2 b1 q es' nx' zs' b2 g)
      have ls: "ls = (ys @ [(p, es, nx)]) @ (q, es', nx') # zs'" using \<open>ls = ys @ (p, es, nx) # zs\<close> 2 by simp
      have "length zs' < length zs" using 2 by simp
      then obtain b' it where IH: "ii_advance rops dops b2 \<lparr>ii_page_id = q, ii_page = Some g, ii_index = int 0\<rparr> = Some (Inr (b', it))"
        "ii_at b0 ls G (length (leaf_pairs (ys @ [(p, es, nx)])) + 0) b' it"
        using 1(1) 2(6,7) ls le0 by blast
      have "ii_advance rops dops b \<lparr>ii_page_id = p, ii_page = Some f, ii_index = int i\<rparr> = Some (Inr (b', it))"
        by (subst ii_advance.simps) (use D i 2 IH(1) in \<open>simp add: Let_def\<close>)
      then show ?thesis using IH(2) i by auto
    qed
  qed
qed

end

end
