(* ===== verification/Tree_Range.thy ===== *)
theory Tree_Range
  imports Tree_Scan
begin

text \<open>
  Range scans of a tree: where \<^verbatim>\<open>Begin\<close> starts, and what the loops of \<^verbatim>\<open>ScanKey\<close> collect between two positions.
\<close>

context buffer_pool
begin

lemma reopen:
  assumes B: "scan_base t ls b0" and G: "pin_few G" and s: "scanning b0 (\<lambda>x. G x + one p x) b" and p: "ls = ys @ (p, es, nx) # zs" and i: "i < length es"
  obtains b' it where "IndexIterator_new rops dops p (int i) (fst (UnpinPage rops p False b)) = Inr (b', it)"
    "ii_at b0 ls G (length (leaf_pairs ys) + i) b' it"
proof -
  have in': "p \<in> set (map fst ls)" "(p, es, nx) \<in> set ls" by (simp_all add: p)
  have "p \<noteq> INVALID_PAGE_ID" using B in'(2) by (auto simp: scan_base_def leaves_at_def)
  obtain b1 where 1: "UnpinPage rops p False b = (b1, True)" "scanning b0 G b1" by (rule scan_unpin [OF B G s in'(1)])
  obtain b2 f where 2: "FetchPage rops dops p b1 = Inr (b2, Some f)" "scanning b0 (\<lambda>x. G x + one p x) b2" "pinned_at b2 p f"
    by (rule scan_fetch [OF B G 1(2) in'(2)])
  have "IndexIterator_new rops dops p (int i) (fst (UnpinPage rops p False b)) = Inr (b2, \<lparr>ii_page_id = p, ii_page = Some f, ii_index = int i\<rparr>)"
    using 1(1) 2(1) by (simp add: IndexIterator_new_def)
  then show thesis using that ii_at_page [OF p i \<open>p \<noteq> INVALID_PAGE_ID\<close> 2(2,3)] by blast
qed

lemma bt_End_alt: "bt_End = \<lparr>ii_page_id = INVALID_PAGE_ID, ii_page = None, ii_index = 0\<rparr>"
  by (simp add: bt_End_def IndexIterator_end_def)

lemma begin_key_loop_law:
  assumes B: "scan_base t ls b0" and G: "pin_few G" and s: "scanning b0 (\<lambda>x. G x + one p x) b" and p: "ls = ys @ (p, es, nx) # zs"
    and f: "pinned_at b p f" and i: "i \<le> length es"
  shows "\<exists>b' it. begin_key_loop rops dops b p f (int i) = Some (Inr (b', it)) \<and> ii_at b0 ls G (length (leaf_pairs ys) + i) b' it"
  using s p f i
proof (induction zs arbitrary: b p es nx ys f i rule: length_induct)
  case (1 zs)
  have in': "(p, es, nx) \<in> set ls" using 1(3) by simp
  note D = scan_leaf [OF B 1(2) in' 1(4)]
  show ?case
  proof (cases "i < length es")
    case True
    then show ?thesis using reopen [OF B G 1(2,3) True] by (subst begin_key_loop.simps) (simp add: D, metis)
  next
    case False
    then have i: "i = length es" using 1(5) by simp
    show ?thesis
    proof (cases rule: scan_step [OF B G 1(2,3)])
      case (1 b1)
      have "begin_key_loop rops dops b p f (int i) = Some (Inr (b1, bt_End))"
        by (subst begin_key_loop.simps) (use D i 1 in \<open>simp add: Let_def\<close>)
      moreover have "length (leaf_pairs ys) + i = length (leaf_pairs ls)" using \<open>ls = ys @ (p, es, nx) # zs\<close> 1 i by simp
      ultimately show ?thesis using ii_at_end [OF 1(4), of ls] by (auto simp: bt_End_alt)
    next
      case (2 b1 q es' nx' zs' b2 g)
      have ls: "ls = (ys @ [(p, es, nx)]) @ (q, es', nx') # zs'" using \<open>ls = ys @ (p, es, nx) # zs\<close> 2 by simp
      have "length zs' < length zs" using 2 by simp
      then obtain b' it where IH: "begin_key_loop rops dops b2 q g (int 0) = Some (Inr (b', it))"
        "ii_at b0 ls G (length (leaf_pairs (ys @ [(p, es, nx)])) + 0) b' it"
        using 1(1) 2(6,7) ls le0 by blast
      have "bp_GetPageId (fdata b2 g) = q" using scan_leaf(3) [OF B 2(6) _ 2(7)] ls by auto
      then have "begin_key_loop rops dops b p f (int i) = Some (Inr (b', it))"
        by (subst begin_key_loop.simps) (use D i 2 IH(1) in \<open>simp add: Let_def\<close>)
      then show ?thesis using IH(2) i by auto
    qed
  qed
qed

text \<open>Without a key the search for the first pair goes the same way.\<close>

lemma begin_loop_law:
  assumes B: "scan_base t ls b0" and G: "pin_few G" and s: "scanning b0 (\<lambda>x. G x + one p x) b" and p: "ls = ys @ (p, es, nx) # zs"
    and f: "pinned_at b p f"
  shows "\<exists>b' it. begin_loop rops dops b (Some f) = Some (Inr (b', it)) \<and> ii_at b0 ls G (length (leaf_pairs ys)) b' it"
  using s p f
proof (induction zs arbitrary: b p es nx ys f rule: length_induct)
  case (1 zs)
  have in': "(p, es, nx) \<in> set ls" using 1(3) by simp
  note D = scan_leaf [OF B 1(2) in' 1(4)]
  show ?case
  proof (cases "es = []")
    case False
    then show ?thesis using reopen [OF B G 1(2,3), of 0] by (subst begin_loop.simps) (simp add: D Let_def, metis)
  next
    case True
    show ?thesis
    proof (cases rule: scan_step [OF B G 1(2,3)])
      case (1 b1)
      have "begin_loop rops dops b (Some f) = Some (Inr (b1, bt_End))"
        by (subst begin_loop.simps) (use D True 1 in \<open>simp add: Let_def\<close>)
      moreover have "length (leaf_pairs ys) = length (leaf_pairs ls)" using \<open>ls = ys @ (p, es, nx) # zs\<close> 1 True by simp
      ultimately show ?thesis using ii_at_end [OF 1(4), of ls] by (auto simp: bt_End_alt)
    next
      case (2 b1 q es' nx' zs' b2 g)
      have ls: "ls = (ys @ [(p, es, nx)]) @ (q, es', nx') # zs'" using \<open>ls = ys @ (p, es, nx) # zs\<close> 2 by simp
      have "length zs' < length zs" using 2 by simp
      then obtain b' it where IH: "begin_loop rops dops b2 (Some g) = Some (Inr (b', it))"
        "ii_at b0 ls G (length (leaf_pairs (ys @ [(p, es, nx)]))) b' it"
        using 1(1) 2(6,7) ls by blast
      have "begin_loop rops dops b (Some f) = Some (Inr (b', it))"
        by (subst begin_loop.simps) (use D True 2 IH(1) in \<open>simp add: Let_def\<close>)
      then show ?thesis using IH(2) True by auto
    qed
  qed
qed

section \<open>One step and a whole range\<close>

lemma ii_atE:
  assumes "scan_base t ls b0" "ii_at b0 ls G k b it" "k < length (leaf_pairs ls)"
  obtains ys es nx zs i f where "ls = ys @ (ii_page_id it, es, nx) # zs" "ii_index it = int i" "i < length es" "k = length (leaf_pairs ys) + i"
    "ii_page it = Some f" "pinned_at b (ii_page_id it) f" "ii_page_id it \<noteq> INVALID_PAGE_ID" "scanning b0 (\<lambda>x. G x + one (ii_page_id it) x) b"
proof -
  have n: "ii_page_id it \<noteq> INVALID_PAGE_ID" using assms(2,3) by (auto simp: ii_at_def ii_pos_def)
  then have "ii_pins it = one (ii_page_id it)" by (auto simp: ii_pins_def one_def)
  then show thesis using that assms(2) n by (auto simp: ii_at_def ii_pos_def ii_live_def)
qed

lemma ii_deref_law:
  assumes B: "scan_base t ls b0" and a: "ii_at b0 ls G k b it" "k < length (leaf_pairs ls)"
  shows "ii_deref it b = Inr (leaf_pairs ls ! k)"
proof -
  obtain ys es nx zs i f where 1: "ls = ys @ (ii_page_id it, es, nx) # zs" "ii_index it = int i" "i < length es" "k = length (leaf_pairs ys) + i"
    "ii_page it = Some f" "pinned_at b (ii_page_id it) f" "ii_page_id it \<noteq> INVALID_PAGE_ID" "scanning b0 (\<lambda>x. G x + one (ii_page_id it) x) b"
    by (rule ii_atE [OF B a])
  have in': "(ii_page_id it, es, nx) \<in> set ls" using 1(1) by simp
  note D = scan_leaf [OF B 1(8) in' 1(6)]
  have "leaf_GetItem (fdata b f) i = es ! i" using D(1) 1(3) unfolding D(4) [symmetric] by (simp add: leaf_entries_def)
  moreover have "leaf_pairs ls ! k = es ! i" using 1(3,4) arg_cong [OF 1(1), of leaf_pairs] by (simp add: nth_append)
  ultimately show ?thesis using 1 D(1) by (simp add: ii_deref_def)
qed

lemma ii_next_law:
  assumes B: "scan_base t ls b0" and G: "pin_few G" and a: "ii_at b0 ls G k b it" "k < length (leaf_pairs ls)"
  obtains b' it' where "ii_next rops dops b it = Some (Inr (b', it'))" "ii_at b0 ls G (Suc k) b' it'"
proof -
  obtain ys es nx zs i f where 1: "ls = ys @ (ii_page_id it, es, nx) # zs" "ii_index it = int i" "i < length es" "k = length (leaf_pairs ys) + i"
    "ii_page it = Some f" "pinned_at b (ii_page_id it) f" "ii_page_id it \<noteq> INVALID_PAGE_ID" "scanning b0 (\<lambda>x. G x + one (ii_page_id it) x) b"
    by (rule ii_atE [OF B a])
  have "it\<lparr>ii_index := ii_index it + 1\<rparr> = \<lparr>ii_page_id = ii_page_id it, ii_page = Some f, ii_index = int (Suc i)\<rparr>" using 1(2,5) by simp
  then show thesis using that ii_advance_law [OF B G 1(8,1,6), of "Suc i"] 1(3,4,5,7) by (auto simp: ii_next_def)
qed

lemma scan_until_law:
  assumes B: "scan_base t ls b0" and G: "pin_few G" and stop: "ii_pos ls stop m"
    and a: "ii_at b0 ls G k b it" "k \<le> m"
  shows "\<exists>b' it'. scan_until rops dops stop b it result = Some (Inr (b', it', result @ map snd (take (m - k) (drop k (leaf_pairs ls))))) \<and>
    ii_at b0 ls G m b' it'"
  using a
proof (induction "m - k" arbitrary: k b it result)
  case 0
  have "ii_eq it stop" using ii_pos_eq [OF _ _ stop, of it k] B 0 by (simp add: scan_base_def leaves_at_def ii_at_def)
  then show ?case using 0 by (subst scan_until.simps) auto
next
  case (Suc j)
  let ?ps = "leaf_pairs ls"
  have k: "k < m" "k < length ?ps" "k \<noteq> m" using Suc(2) ii_pos_bound [OF stop] by simp_all
  have ne: "\<not> ii_eq it stop" using ii_pos_eq [OF _ _ stop, of it k] B Suc(3) k by (simp add: scan_base_def leaves_at_def ii_at_def)
  obtain b1 it1 where 1: "ii_next rops dops b it = Some (Inr (b1, it1))" "ii_at b0 ls G (Suc k) b1 it1" by (rule ii_next_law [OF B G Suc(3) k(2)])
  have "m - k = Suc (m - Suc k)" "drop k ?ps = ?ps ! k # drop (Suc k) ?ps" using k by (simp_all add: Cons_nth_drop_Suc)
  then have e: "take (m - k) (drop k ?ps) = ?ps ! k # take (m - Suc k) (drop (Suc k) ?ps)" by simp
  have "\<exists>b' it'. scan_until rops dops stop b1 it1 (result @ [snd (?ps ! k)]) =
      Some (Inr (b', it', (result @ [snd (?ps ! k)]) @ map snd (take (m - Suc k) (drop (Suc k) ?ps)))) \<and> ii_at b0 ls G m b' it'"
    by (rule Suc(1) [OF _ 1(2)]) (use Suc(2) k in simp_all)
  then show ?case using ne ii_deref_law [OF B Suc(3) k(2)] 1(1) by (subst scan_until.simps) (simp add: e)
qed

lemma ii_destroy_law:
  assumes B: "scan_base t ls b0" and G: "pin_few G" and a: "ii_pos ls it k" "scanning b0 (\<lambda>x. G x + ii_pins it x) b"
  shows "scanning b0 G (ii_destroy rops it b)"
proof (cases "ii_page_id it = INVALID_PAGE_ID")
  case True
  then have "ii_pins it = (\<lambda>x. 0)" by (auto simp: ii_pins_def)
  then show ?thesis using a True by (simp add: ii_destroy_def)
next
  case False
  then obtain ys es nx zs where 1: "ls = ys @ (ii_page_id it, es, nx) # zs" using a(1) by (auto simp: ii_pos_def)
  have in': "ii_page_id it \<in> set (map fst ls)" using arg_cong [OF 1, of "map fst"] by simp
  have "ii_pins it = one (ii_page_id it)" using False by (auto simp: ii_pins_def one_def)
  then have s: "scanning b0 (\<lambda>x. G x + one (ii_page_id it) x) b" using a(2) by simp
  obtain b' where "UnpinPage rops (ii_page_id it) False b = (b', True)" "scanning b0 G b'" by (rule scan_unpin [OF B G s in'])
  then show ?thesis using False by (simp add: ii_destroy_def)
qed

lemma scan_range_law:
  assumes B: "scan_base t ls b0" and G: "pin_few G" and stop: "ii_pos ls stop m" and a: "ii_at b0 ls G k b it" "k \<le> m"
  obtains b' where "scan_range rops dops stop b it result = Some (Inr (b', result @ map snd (take (m - k) (drop k (leaf_pairs ls)))))" "scanning b0 G b'"
  using scan_until_law [OF assms, of result] ii_destroy_law [OF B G] that by (auto simp: scan_range_def ii_at_def)

end

end
