(* ===== verification/Index_Scan.thy ===== *)
theory Index_Scan
  imports Tree_Range
begin

text \<open>
  Queries of an index: every comparison operator of \<^verbatim>\<open>ScanKey\<close> selects the row ids of the pairs whose key stands in that relation to the
  given key.
\<close>

section \<open>Sorted lists cut at a key\<close>

definition key_relation :: "('k \<Rightarrow> 'k \<Rightarrow> bool) \<Rightarrow> string \<Rightarrow> 'k \<Rightarrow> 'k \<Rightarrow> bool" where
  "key_relation lt op k key \<longleftrightarrow>
     (if op = ''='' then key_eq lt k key else if op = ''>'' then lt key k else if op = ''>='' then \<not> lt k key
      else if op = ''<'' then lt k key else if op = ''<='' then \<not> lt key k else op = ''<>'' \<and> \<not> key_eq lt k key)"

definition selected :: "('k \<Rightarrow> 'k \<Rightarrow> bool) \<Rightarrow> string \<Rightarrow> 'k \<Rightarrow> ('k \<times> 'v) list \<Rightarrow> 'v list" where
  "selected lt op key ps = map snd (filter (\<lambda>e. key_relation lt op (fst e) key) ps)"

lemma selected_parts: "mset (map snd ps) = mset (selected lt ''='' key ps) + mset (selected lt ''<>'' key ps)"
  by (induction ps) (auto simp: selected_def key_relation_def)

lemma filter_cut:
  assumes "n \<le> length xs" "\<And>j. j < n \<Longrightarrow> \<not> P (xs ! j)"
  shows "filter P xs = filter P (drop n xs)"
proof -
  have "filter P (take n xs) = []" using assms by (auto simp: filter_empty_conv in_set_conv_nth)
  then show ?thesis by (metis append_Nil append_take_drop_id filter_append)
qed

lemma filter_cut_end:
  assumes "n \<le> length xs" "\<And>j. n \<le> j \<Longrightarrow> j < length xs \<Longrightarrow> \<not> P (xs ! j)"
  shows "filter P xs = filter P (take n xs)"
proof -
  have "filter P (drop n xs) = []" using assms by (auto simp: filter_empty_conv in_set_conv_nth)
  then show ?thesis by (metis append_Nil2 append_take_drop_id filter_append)
qed

lemma filter_all_nth: "(\<And>j. j < length xs \<Longrightarrow> P (xs ! j)) \<Longrightarrow> filter P xs = xs"
  by (simp add: filter_id_conv all_set_conv_all_nth)

context key_compare
begin

lemma rank_cut:
  assumes s: "key_sorted lt es" "valid_keys valid es" "valid key"
  defines "k \<equiv> rank lt key es"
  shows "selected lt ''<'' key es = map snd (take k es)" "selected lt ''>='' key es = map snd (drop k es)"
    "selected lt ''='' key es = (case assoc_find lt es key of None \<Rightarrow> [] | Some r \<Rightarrow> [r])"
    "selected lt ''>'' key es = map snd (drop (if assoc_find lt es key = None then k else Suc k) es)"
    "selected lt ''<='' key es = map snd (take k es) @ (case assoc_find lt es key of None \<Rightarrow> [] | Some r \<Rightarrow> [r])"
proof -
  note R = rank_split [OF s, folded k_def] and V = valid_nth [OF s(2)]
  have asym: "\<not> lt key (fst (es ! j))" if "j < k" for j using R(1,2) that lt_asym [OF V s(3)] by (meson less_le_trans)
  have "filter (\<lambda>e. lt (fst e) key) (take k es) = take k es" "filter (\<lambda>e. \<not> lt (fst e) key) (drop k es) = drop k es"
    by (rule filter_all_nth, use R(1,2,3) in simp)+
  then have lo: "filter (\<lambda>e. lt (fst e) key) es = take k es" "filter (\<lambda>e. \<not> lt (fst e) key) es = drop k es"
    using filter_cut_end [OF R(1), of "\<lambda>e. lt (fst e) key"] filter_cut [OF R(1), of "\<lambda>e. \<not> lt (fst e) key"] R(2,3) by simp_all
  show "selected lt ''<'' key es = map snd (take k es)" "selected lt ''>='' key es = map snd (drop k es)"
    using lo by (simp_all add: selected_def key_relation_def)
  have F: "assoc_find lt es key = (if k < length es \<and> key_eq lt (fst (es ! k)) key then Some (snd (es ! k)) else None)"
    unfolding k_def by (rule find_rank [OF s])
  have up: "lt key (fst e)" if mem: "e \<in> set (drop (Suc k) es)" for e
  proof -
    obtain i where i: "i < length (drop (Suc k) es)" "e = drop (Suc k) es ! i" using mem unfolding in_set_conv_nth by metis
    then show ?thesis using R(4) [of "Suc k + i"] by simp
  qed
  have ups: "filter (\<lambda>e. key_eq lt (fst e) key) (drop (Suc k) es) = []" "filter (\<lambda>e. lt key (fst e)) (drop (Suc k) es) = drop (Suc k) es"
    "filter (\<lambda>e. \<not> lt key (fst e)) (drop (Suc k) es) = []"
    using up unfolding filter_empty_conv filter_id_conv key_eq_def by blast+
  have dr: "drop k es = es ! k # drop (Suc k) es" if "k < length es" using that by (simp add: Cons_nth_drop_Suc)
  have eq: "filter (\<lambda>e. key_eq lt (fst e) key) es = filter (\<lambda>e. key_eq lt (fst e) key) (drop k es)"
    "filter (\<lambda>e. lt key (fst e)) es = filter (\<lambda>e. lt key (fst e)) (drop k es)"
    by (rule filter_cut [OF R(1)], use R(2) asym in \<open>auto simp: key_eq_def\<close>)+
  have "filter (\<lambda>e. \<not> lt key (fst e)) (take k es) = take k es" by (rule filter_all_nth) (use asym in simp)
  then have le: "filter (\<lambda>e. \<not> lt key (fst e)) es = take k es @ filter (\<lambda>e. \<not> lt key (fst e)) (drop k es)"
    by (metis append_take_drop_id filter_append)
  have at: "k < length es \<Longrightarrow> \<not> key_eq lt (fst (es ! k)) key \<Longrightarrow> lt key (fst (es ! k))" using R(3) [of k] by (auto simp: key_eq_def)
  show "selected lt ''='' key es = (case assoc_find lt es key of None \<Rightarrow> [] | Some r \<Rightarrow> [r])"
    unfolding selected_def key_relation_def F using eq(1) ups(1) dr by (cases "k < length es") auto
  show "selected lt ''>'' key es = map snd (drop (if assoc_find lt es key = None then k else Suc k) es)"
    unfolding selected_def key_relation_def F using eq(2) ups(2) dr at by (cases "k < length es") (auto simp: key_eq_def)
  show "selected lt ''<='' key es = map snd (take k es) @ (case assoc_find lt es key of None \<Rightarrow> [] | Some r \<Rightarrow> [r])"
    unfolding selected_def key_relation_def F using le ups(3) dr at by (cases "k < length es") (auto simp: key_eq_def)
qed

lemma rank_middle:
  assumes "keys_below xs key" "keys_over key ys" "valid key"
  shows "rank lt key (xs @ es @ ys) = length xs + rank lt key es"
proof -
  have x: "\<forall>e \<in> set xs. lt (fst e) key" using assms(1) by (auto simp: keys_below_def)
  have y: "\<forall>e \<in> set ys. \<not> lt (fst e) key" using assms(2,3) lt_asym by (fastforce simp: keys_over_def)
  have "takeWhile (\<lambda>e. lt (fst e) key) ys = []" using y by (cases ys; simp)
  then have "takeWhile (\<lambda>e. lt (fst e) key) (es @ ys) = takeWhile (\<lambda>e. lt (fst e) key) es" by (induction es) auto
  then show ?thesis using x by (simp add: rank_def)
qed

end

section \<open>Where a scan begins\<close>

context buffer_pool
begin

definition scan_tree :: "BPlusTree \<Rightarrow> nat \<Rightarrow> bnode \<Rightarrow> ('r, 'd) bpm \<Rightarrow> bool" where
  "scan_tree t n T b \<longleftrightarrow> bp_ok b \<and> pins b = (\<lambda>x. 0) \<and> unsaved b \<inter> set (page_ids T) = {} \<and> tree_at t (store b) n T \<and> 2 < pool_size b"

lemma scan_tree_base: "scan_tree t n T b \<Longrightarrow> scan_base t (leaves T) b"
  using tree_leaves_at [of t "store b" n T] by (auto simp: scan_tree_def scan_base_def)

lemma scanning_state:
  assumes "scan_tree t n T b0" "pin_few G" "scanning b0 G b"
  shows "bp_ok b" "tree_at t (store b) n T" "unsaved b \<inter> set (page_ids T) = {}" "0 < spares b"
proof -
  have h: "held {} G b0 b" using assms(3) by (simp add: scanning_def)
  show "bp_ok b" by (rule held_ok [OF h])
  show "tree_at t (store b) n T" using assms(1,3) by (simp add: scan_tree_def scanning_def)
  show "unsaved b \<inter> set (page_ids T) = {}" using assms(1) h by (auto simp: scan_tree_def held_def)
  show "0 < spares b" by (rule scanning_spares [OF scan_tree_base [OF assms(1)] assms(2) _ pin_few_simps(1)]) (use assms(3) in simp)
qed

lemma find_scan:
  assumes S: "scan_tree t n T b0" and G: "pin_few G" and s: "scanning b0 G b" and key: "key = None \<or> (\<exists>k. key = Some k \<and> bt_valid t k)"
  obtains b1 g C p es nx where "FindLeafPage rops dops key (b, t) = Some (Inr (b1, Some g))" "leaves T = before C @ (p, es, nx) # behind C"
    "ctx_ok t 0 C" "fits_hole t C (BLeaf p es nx)" "route t key C" "scanning b0 (\<lambda>x. G x + one p x) b1" "pinned_at b1 p g"
proof -
  note X = scanning_state [OF S G s]
  obtain b1 g C p es nx where 1: "FindLeafPage rops dops key (b, t) = Some (Inr (b1, Some g))" "plug C (BLeaf p es nx) = T" "length C = n"
    "ctx_ok t 0 C" "fits_hole t C (BLeaf p es nx)" "sized t (BLeaf p es nx)" "route t key C"
    "held {} (one p) b b1" "pinned_at b1 p g" "store b1 = store b" "allocated (bpm_disk b1) = allocated (bpm_disk b)"
    by (rule FindLeafPage_law [OF X(2,1) key X(3,4)])
  have "held ({} \<union> {}) (\<lambda>x. G x + one p x) b0 b1" by (rule held_trans [OF _ 1(8)]) (use s G in \<open>auto simp: scanning_def pin_few_def\<close>)
  then have "scanning b0 (\<lambda>x. G x + one p x) b1" using s 1(10,11) by (simp add: scanning_def)
  moreover have "leaves T = before C @ (p, es, nx) # behind C" unfolding 1(2) [symmetric] by (simp add: plug_leaves)
  ultimately show thesis using that 1(1,4,5,7,9) by blast
qed

lemma Begin_law:
  assumes S: "scan_tree t n T b0" and G: "pin_few G" and s: "scanning b0 G b"
  obtains b' it where "bt_Begin rops dops (b, t) = Some (Inr (b', it))" "ii_at b0 (leaves T) G 0 b' it"
proof -
  have k: "None = None \<or> (\<exists>k. None = Some k \<and> bt_valid t k)" by simp
  obtain b1 g C p es nx where 1: "FindLeafPage rops dops None (b, t) = Some (Inr (b1, Some g))" "leaves T = before C @ (p, es, nx) # behind C"
    "ctx_ok t 0 C" "fits_hole t C (BLeaf p es nx)" "route t None C" "scanning b0 (\<lambda>x. G x + one p x) b1" "pinned_at b1 p g"
    by (rule find_scan [OF S G s k])
  have "before C = []" using 1(5) by (simp add: route_def)
  moreover have "\<not> bt_IsEmpty t" using S by (auto simp: scan_tree_def bt_IsEmpty_def tree_at_def page_ids_top)
  ultimately show thesis
    using that 1(1) begin_loop_law [OF scan_tree_base [OF S] G 1(6,2,7)] by (auto simp: bt_Begin_def)
qed

lemma Begin_key_law:
  assumes S: "scan_tree t n T b0" and G: "pin_few G" and s: "scanning b0 G b" and key: "bt_valid t key"
  obtains b' it where "bt_Begin_key rops dops key (b, t) = Some (Inr (b', it))" "ii_at b0 (leaves T) G (rank (bt_lt t) key (tree_pairs T)) b' it"
proof -
  have k: "Some key = None \<or> (\<exists>k. Some key = Some k \<and> bt_valid t k)" using key by simp
  note B = scan_tree_base [OF S]
  obtain b1 g C p es nx where 1: "FindLeafPage rops dops (Some key) (b, t) = Some (Inr (b1, Some g))" "leaves T = before C @ (p, es, nx) # behind C"
    "ctx_ok t 0 C" "fits_hole t C (BLeaf p es nx)" "route t (Some key) C" "scanning b0 (\<lambda>x. G x + one p x) b1" "pinned_at b1 p g"
    by (rule find_scan [OF S G s k])
  have in': "(p, es, nx) \<in> set (leaves T)" using 1(2) by simp
  note D = scan_leaf [OF B 1(6) in' 1(7)]
  have so: "key_sorted (bt_lt t) es" "valid_keys (bt_valid t) es" using 1(4) by simp_all
  have i: "KeyIndex (bt_cmp t) key (fdata b1 g) = Inr (rank (bt_lt t) key es)" "rank (bt_lt t) key es \<le> length es"
    using lf.KeyIndex_rank [of "bt_processor t" "fdata b1 g" key] km.rank_split(1) [OF so key] so key by (simp_all add: D(4))
  have cw: "ctx_within (bt_lt t) (bt_valid t) C" "above_lo (bt_lt t) (hole_lo C) key" "under_hi (bt_lt t) key (hole_hi C)"
    using 1(3,5) by (simp_all add: ctx_ok_def route_def)
  have r: "rank (bt_lt t) key (tree_pairs T) = length (leaf_pairs (before C)) + rank (bt_lt t) key es"
    using km.rank_middle [OF lf.ctx_pairs [OF cw(1) key cw(2,3)] key, of es] by (simp add: tree_pairs_def 1(2))
  have "\<not> bt_IsEmpty t" using S by (auto simp: scan_tree_def bt_IsEmpty_def tree_at_def page_ids_top)
  then show thesis
    using that 1(1) begin_key_loop_law [OF B G 1(6,2,7) i(2)] i(1) r D(3) by (auto simp: bt_Begin_key_def)
qed

lemma GetValue_scan:
  assumes S: "scan_tree t n T b0" and G: "pin_few G" and s: "scanning b0 G b" and key: "bt_valid t key"
  obtains b' where "GetValue rops dops key result (b, t) = Some (Inr (b', case assoc_find (bt_lt t) (tree_pairs T) key of
       None \<Rightarrow> (result, False) | Some rid \<Rightarrow> (result @ [rid], True)))" "scanning b0 G b'" "\<And>p f. pinned_at b p f \<Longrightarrow> pinned_at b' p f"
proof -
  note X = scanning_state [OF S G s]
  obtain b' where 1: "runs {} b b'" "store b' = store b" "allocated (bpm_disk b') = allocated (bpm_disk b)"
    "GetValue rops dops key result (b, t) = Some (Inr (b', case assoc_find (bt_lt t) (tree_pairs T) key of
       None \<Rightarrow> (result, False) | Some rid \<Rightarrow> (result @ [rid], True)))"
    by (rule GetValue_law [OF X(2,1) key X(3,4)])
  have "held ({} \<union> {}) G b0 b'" by (rule held_run [OF _ 1(1)]) (use s G in \<open>auto simp: scanning_def pin_few_def\<close>)
  then have "scanning b0 G b'" using s 1(2,3) by (simp add: scanning_def)
  then show thesis using that [OF 1(4)] pinned_at_runs [OF 1(1)] by blast
qed

lemma pairs_sorted: "scan_tree t n T b \<Longrightarrow> key_sorted (bt_lt t) (tree_pairs T) \<and> valid_keys (bt_valid t) (tree_pairs T)"
  using lf.within_pairs(1) [of "bt_processor t" None None T] by (auto simp: scan_tree_def tree_at_def lf.pairs_within_def)

lemma scan_start: "scan_tree t n T b \<Longrightarrow> scanning b (\<lambda>x. 0) b"
  by (auto simp: scan_tree_def scanning_def held_def)

lemma range_to_end:
  assumes S: "scan_tree t n T b0" and a: "ii_at b0 (leaves T) (\<lambda>x. 0) k b it"
  obtains b' where "scan_range rops dops bt_End b it result = Some (Inr (b', result @ map snd (drop k (tree_pairs T))))" "scanning b0 (\<lambda>x. 0) b'"
proof -
  have k: "k \<le> length (leaf_pairs (leaves T))" using a ii_pos_bound by (auto simp: ii_at_def)
  show thesis
    by (rule scan_range_law [OF scan_tree_base [OF S] pin_few_simps(1) ii_pos_end(1) a k, where result = result]) (use that in \<open>simp add: tree_pairs_def\<close>)
qed

lemma scan_ge_law:
  assumes S: "scan_tree t n T b0" and key: "bt_valid t key"
  obtains b' where "scan_ge rops dops key result (b0, t) = Some (Inr (b', result @ selected (bt_lt t) ''>='' key (tree_pairs T)))" "scanning b0 (\<lambda>x. 0) b'"
proof -
  obtain b1 it where 1: "bt_Begin_key rops dops key (b0, t) = Some (Inr (b1, it))" "ii_at b0 (leaves T) (\<lambda>x. 0) (rank (bt_lt t) key (tree_pairs T)) b1 it"
    by (rule Begin_key_law [OF S pin_few_simps(1) scan_start [OF S] key])
  obtain b2 where "scan_range rops dops bt_End b1 it result = Some (Inr (b2, result @ map snd (drop (rank (bt_lt t) key (tree_pairs T)) (tree_pairs T))))"
    "scanning b0 (\<lambda>x. 0) b2" by (rule range_to_end [OF S 1(2)])
  then show thesis using that 1(1) km.rank_cut(2) [of "bt_processor t" "tree_pairs T" key] pairs_sorted [OF S] key by (simp add: scan_ge_def)
qed

lemma scan_gt_law:
  assumes S: "scan_tree t n T b0" and key: "bt_valid t key"
  obtains b' where "scan_gt rops dops key result (b0, t) = Some (Inr (b', selected (bt_lt t) ''>'' key (tree_pairs T)))" "scanning b0 (\<lambda>x. 0) b'"
proof -
  let ?ps = "tree_pairs T" and ?k = "rank (bt_lt t) key (tree_pairs T)"
  have so: "key_sorted (bt_lt t) ?ps" "valid_keys (bt_valid t) ?ps" using pairs_sorted [OF S] by simp_all
  note B = scan_tree_base [OF S]
  obtain b1 it where 1: "bt_Begin_key rops dops key (b0, t) = Some (Inr (b1, it))" "ii_at b0 (leaves T) (\<lambda>x. 0) ?k b1 it"
    by (rule Begin_key_law [OF S pin_few_simps(1) scan_start [OF S] key])
  have s1: "scanning b0 (ii_pins it) b1" using 1(2) by (simp add: ii_at_def)
  obtain b2 where 2: "GetValue rops dops key result (b1, t) = Some (Inr (b2, case assoc_find (bt_lt t) ?ps key of
       None \<Rightarrow> (result, False) | Some rid \<Rightarrow> (result @ [rid], True)))" "scanning b0 (ii_pins it) b2" "\<And>p f. pinned_at b1 p f \<Longrightarrow> pinned_at b2 p f"
    by (rule GetValue_scan [OF S pin_few_simps(2) s1 key]) (rule that; assumption)
  have a2: "ii_at b0 (leaves T) (\<lambda>x. 0) ?k b2 it" using 1(2) 2(2,3) by (auto simp: ii_at_def ii_live_def)
  define k' where "k' = (if assoc_find (bt_lt t) ?ps key = None then ?k else Suc ?k)"
  have "\<exists>b3 it3. (if assoc_find (bt_lt t) ?ps key \<noteq> None then ii_next rops dops b2 it else Some (Inr (b2, it))) = Some (Inr (b3, it3)) \<and>
      ii_at b0 (leaves T) (\<lambda>x. 0) k' b3 it3"
  proof (cases "assoc_find (bt_lt t) ?ps key")
    case None
    then show ?thesis using a2 by (simp add: k'_def)
  next
    case (Some r)
    then have "?k < length (leaf_pairs (leaves T))" using km.find_rank [OF so key] by (auto simp: tree_pairs_def split: if_splits)
    then obtain b3 it3 where "ii_next rops dops b2 it = Some (Inr (b3, it3))" "ii_at b0 (leaves T) (\<lambda>x. 0) (Suc ?k) b3 it3"
      by (rule ii_next_law [OF B pin_few_simps(1) a2])
    then show ?thesis using Some by (auto simp: k'_def)
  qed
  then obtain b3 it3 where 3: "(if assoc_find (bt_lt t) ?ps key \<noteq> None then ii_next rops dops b2 it else Some (Inr (b2, it))) = Some (Inr (b3, it3))"
    "ii_at b0 (leaves T) (\<lambda>x. 0) k' b3 it3" by blast
  obtain b4 where 4: "scan_range rops dops bt_End b3 it3 [] = Some (Inr (b4, [] @ map snd (drop k' ?ps)))" "scanning b0 (\<lambda>x. 0) b4"
    by (rule range_to_end [OF S 3(2)])
  have "scan_gt rops dops key result (b0, t) = Some (Inr (b4, map snd (drop k' ?ps)))"
    using 1(1) 2(1) 3(1) 4(1) by (cases "assoc_find (bt_lt t) ?ps key") (simp_all add: scan_gt_def)
  then show thesis using that 4(2) km.rank_cut(4) [OF so key] by (simp add: k'_def)
qed

lemma scan_below:
  assumes S: "scan_tree t n T b0" and key: "bt_valid t key"
  obtains b1 stop b2 it b3 where "bt_Begin_key rops dops key (b0, t) = Some (Inr (b1, stop))" "bt_Begin rops dops (b1, t) = Some (Inr (b2, it))"
    "scan_range rops dops stop b2 it result = Some (Inr (b3, result @ map snd (take (rank (bt_lt t) key (tree_pairs T)) (tree_pairs T))))"
    "scanning b0 (ii_pins stop) b3" "ii_pos (leaves T) stop (rank (bt_lt t) key (tree_pairs T))"
proof -
  let ?k = "rank (bt_lt t) key (tree_pairs T)"
  obtain b1 stop where 1: "bt_Begin_key rops dops key (b0, t) = Some (Inr (b1, stop))" "ii_at b0 (leaves T) (\<lambda>x. 0) ?k b1 stop"
    by (rule Begin_key_law [OF S pin_few_simps(1) scan_start [OF S] key])
  have s1: "scanning b0 (ii_pins stop) b1" and pos: "ii_pos (leaves T) stop ?k" using 1(2) by (simp_all add: ii_at_def)
  obtain b2 it where 2: "bt_Begin rops dops (b1, t) = Some (Inr (b2, it))" "ii_at b0 (leaves T) (ii_pins stop) 0 b2 it"
    by (rule Begin_law [OF S pin_few_simps(2) s1])
  show thesis
    by (rule scan_range_law [OF scan_tree_base [OF S] pin_few_simps(2) pos 2(2) le0, where result = result])
      (use that [OF 1(1) 2(1)] pos in \<open>simp add: tree_pairs_def\<close>)
qed

lemma scan_lt_law:
  assumes S: "scan_tree t n T b0" and key: "bt_valid t key"
  obtains b' where "scan_lt rops dops key result (b0, t) = Some (Inr (b', result @ selected (bt_lt t) ''<'' key (tree_pairs T)))" "scanning b0 (\<lambda>x. 0) b'"
proof -
  let ?k = "rank (bt_lt t) key (tree_pairs T)"
  obtain b1 stop b2 it b3 where 1: "bt_Begin_key rops dops key (b0, t) = Some (Inr (b1, stop))" "bt_Begin rops dops (b1, t) = Some (Inr (b2, it))"
    "scan_range rops dops stop b2 it result = Some (Inr (b3, result @ map snd (take ?k (tree_pairs T))))" "scanning b0 (ii_pins stop) b3" "ii_pos (leaves T) stop ?k"
    by (rule scan_below [OF S key])
  have "scanning b0 (\<lambda>x. 0) (ii_destroy rops stop b3)" by (rule ii_destroy_law [OF scan_tree_base [OF S] pin_few_simps(1) 1(5)]) (use 1(4) in simp)
  then show thesis using that 1(1-3) km.rank_cut(1) [of "bt_processor t" "tree_pairs T" key] pairs_sorted [OF S] key by (simp add: scan_lt_def)
qed

lemma scan_le_law:
  assumes S: "scan_tree t n T b0" and key: "bt_valid t key"
  obtains b' where "scan_le rops dops key result (b0, t) = Some (Inr (b', result @ selected (bt_lt t) ''<='' key (tree_pairs T)))" "scanning b0 (\<lambda>x. 0) b'"
proof -
  let ?k = "rank (bt_lt t) key (tree_pairs T)" and ?r = "result @ map snd (take (rank (bt_lt t) key (tree_pairs T)) (tree_pairs T))"
  obtain b1 stop b2 it b3 where 1: "bt_Begin_key rops dops key (b0, t) = Some (Inr (b1, stop))" "bt_Begin rops dops (b1, t) = Some (Inr (b2, it))"
    "scan_range rops dops stop b2 it result = Some (Inr (b3, ?r))" "scanning b0 (ii_pins stop) b3" "ii_pos (leaves T) stop ?k"
    by (rule scan_below [OF S key])
  obtain b4 where 4: "GetValue rops dops key ?r (b3, t) = Some (Inr (b4, case assoc_find (bt_lt t) (tree_pairs T) key of
       None \<Rightarrow> (?r, False) | Some rid \<Rightarrow> (?r @ [rid], True)))" "scanning b0 (ii_pins stop) b4"
    by (rule GetValue_scan [OF S pin_few_simps(2) 1(4) key])
  have "scanning b0 (\<lambda>x. 0) (ii_destroy rops stop b4)" by (rule ii_destroy_law [OF scan_tree_base [OF S] pin_few_simps(1) 1(5)]) (use 4(2) in simp)
  moreover have "scan_le rops dops key result (b0, t) = Some (Inr (ii_destroy rops stop b4, result @ selected (bt_lt t) ''<='' key (tree_pairs T)))"
    using 1(1-3) 4(1) km.rank_cut(5) [of "bt_processor t" "tree_pairs T" key] pairs_sorted [OF S] key
    by (cases "assoc_find (bt_lt t) (tree_pairs T) key") (simp_all add: scan_le_def)
  ultimately show thesis using that by blast
qed

text \<open>For \<^verbatim>\<open><>\<close> the row id of the key is erased from the list of all; as a multiset the rest is what is asked for.\<close>

lemma scan_ne_law:
  assumes S: "scan_tree t n T b0" and key: "bt_valid t key"
  obtains b' r where "scan_ne rops dops key result (b0, t) = Some (Inr (b', r))" "mset r = mset (result @ selected (bt_lt t) ''<>'' key (tree_pairs T))"
    "scanning b0 (\<lambda>x. 0) b'"
proof -
  let ?ps = "tree_pairs T" and ?r = "result @ map snd (tree_pairs T)"
  have so: "key_sorted (bt_lt t) ?ps" "valid_keys (bt_valid t) ?ps" using pairs_sorted [OF S] by simp_all
  obtain b1 it where 1: "bt_Begin rops dops (b0, t) = Some (Inr (b1, it))" "ii_at b0 (leaves T) (\<lambda>x. 0) 0 b1 it"
    by (rule Begin_law [OF S pin_few_simps(1) scan_start [OF S]])
  obtain b2 where 2: "scan_range rops dops bt_End b1 it result = Some (Inr (b2, result @ map snd (drop 0 ?ps)))" "scanning b0 (\<lambda>x. 0) b2"
    by (rule range_to_end [OF S 1(2)])
  obtain b3 where 3: "GetValue rops dops key [] (b2, t) = Some (Inr (b3, case assoc_find (bt_lt t) ?ps key of
       None \<Rightarrow> ([], False) | Some rid \<Rightarrow> ([] @ [rid], True)))" "scanning b0 (\<lambda>x. 0) b3"
    by (rule GetValue_scan [OF S pin_few_simps(1) 2(2) key]) (rule that; assumption)
  have part: "mset (map snd ?ps) = mset (selected (bt_lt t) ''='' key ?ps) + mset (selected (bt_lt t) ''<>'' key ?ps)"
    by (rule selected_parts)
  show thesis
  proof (cases "assoc_find (bt_lt t) ?ps key")
    case None
    then have "mset ?r = mset (result @ selected (bt_lt t) ''<>'' key ?ps)" using part km.rank_cut(3) [OF so key] by simp
    then show thesis using that [of b3 ?r] 1(1) 2(1) 3 None by (simp add: scan_ne_def)
  next
    case (Some rid)
    then have e: "mset (map snd ?ps) = {#rid#} + mset (selected (bt_lt t) ''<>'' key ?ps)" using part km.rank_cut(3) [OF so key] by simp
    then have "rid \<in># mset (map snd ?ps)" by simp
    then have m: "rid \<in> set ?r" by simp
    have "mset (remove1 rid ?r) = mset (result @ selected (bt_lt t) ''<>'' key ?ps)" using e by simp
    then show thesis using that [of b3 "remove1 rid ?r"] 1(1) 2(1) 3 Some m by (simp add: scan_ne_def)
  qed
qed

end

end
