(* ===== verification/Tree_Pages.thy ===== *)
theory Tree_Pages
  imports Tree_Search
begin

text \<open>
  The pages of tree nodes under the operations that insertion uses: a changed parent, new pages, the split of a leaf, and a
  child added to a node.
\<close>

text \<open>The maximum sizes of a tree leave room for one more pair than they allow, and for a root with two children.\<close>

definition bt_fits :: "BPlusTree \<Rightarrow> bool" where
  "bt_fits t \<longleftrightarrow> 1 \<le> bt_leaf_max_size t \<and> 2 \<le> bt_internal_max_size t \<and>
     32 + (nat (bt_leaf_max_size t) + 1) * (bt_key_size t + 8) \<le> 4096 \<and>
     28 + (nat (bt_internal_max_size t) + 1) * (bt_key_size t + 4) \<le> 4096"

lemma bt_fitsD:
  assumes "bt_fits t"
  shows "1 \<le> bt_leaf_max_size t" "2 \<le> bt_internal_max_size t" "bt_key_size t < 4000" "bt_leaf_max_size t < 2 ^ 31"
    "bt_internal_max_size t < 2 ^ 31"
    "n \<le> nat (bt_leaf_max_size t) + 1 \<Longrightarrow> 32 + n * (bt_key_size t + 8) \<le> 4096"
    "n \<le> nat (bt_internal_max_size t) + 1 \<Longrightarrow> 28 + n * (bt_key_size t + 4) \<le> 4096"
proof -
  note F = assms [unfolded bt_fits_def]
  show "1 \<le> bt_leaf_max_size t" "2 \<le> bt_internal_max_size t" using F by simp_all
  have "2 * (bt_key_size t + 8) \<le> (nat (bt_leaf_max_size t) + 1) * (bt_key_size t + 8)" using F by (intro mult_le_mono1) linarith
  moreover have "32 + (nat (bt_leaf_max_size t) + 1) * (bt_key_size t + 8) \<le> 4096" using F by blast
  ultimately have "32 + 2 * (bt_key_size t + 8) \<le> 4096" by (meson add_left_mono order_trans)
  then show "bt_key_size t < 4000" by simp
  show "bt_leaf_max_size t < 2 ^ 31" using fit_count [of 32 "nat (bt_leaf_max_size t) + 1" "bt_key_size t" 8] F by simp
  show "bt_internal_max_size t < 2 ^ 31" using fit_count [of 28 "nat (bt_internal_max_size t) + 1" "bt_key_size t" 4] F by simp
  show "32 + n * (bt_key_size t + 8) \<le> 4096" if "n \<le> nat (bt_leaf_max_size t) + 1"
    using mult_le_mono1 [OF that, of "bt_key_size t + 8"] F by linarith
  show "28 + n * (bt_key_size t + 4) \<le> 4096" if "n \<le> nat (bt_internal_max_size t) + 1"
    using mult_le_mono1 [OF that, of "bt_key_size t + 4"] F by linarith
qed

section \<open>The parent of a page\<close>

definition set_parent :: "page_id_t \<Rightarrow> pdesc \<Rightarrow> pdesc" where
  "set_parent par x = (case x of LeafD _ es nx \<Rightarrow> LeafD par es nx | NodeD _ cs \<Rightarrow> NodeD par cs)"

lemma set_parent_top: "set_parent par' (top_desc par T) = top_desc par' T"
  by (simp add: set_parent_def top_desc_def split: bnode.split)

lemma page_is_length: "page_is t p x d \<Longrightarrow> length d = PAGE_SIZE"
  by (auto simp: page_is_def leaf_ok_def internal_ok_def split: pdesc.splits)

lemma SetParent_rd:
  assumes "length d = 4096"
  shows "length (SetParentPageId q d) = 4096" "off + k \<le> 20 \<or> 24 \<le> off \<Longrightarrow> rd k (SetParentPageId q d) off = rd k d off"
    "GetParentPageId (SetParentPageId q d) = q" "GetSize (SetParentPageId q d) = GetSize d" "GetKeySize (SetParentPageId q d) = GetKeySize d"
    "GetMaxSize (SetParentPageId q d) = GetMaxSize d" "bp_GetPageId (SetParentPageId q d) = bp_GetPageId d"
    "IsLeafPage (SetParentPageId q d) = IsLeafPage d"
  using assms by (simp_all add: bp_defs layout_simps)

lemma page_is_parent:
  assumes "page_is t p x d"
  shows "page_is t p (set_parent q x) (SetParentPageId q d)"
proof -
  let ?d = "SetParentPageId q d"
  have l: "length d = 4096" using page_is_length [OF assms] by (simp add: PAGE_SIZE_def)
  note R = SetParent_rd [OF l, where q = q] and S = SetParent_rd(1,1,3-8) [OF l, where q = q]
  show ?thesis
  proof (cases x)
    case (LeafD par es nx)
    have "leaf_pair_size ?d = leaf_pair_size d" by (simp add: leaf_pair_size_def S(5))
    then have "leaf_GetItem ?d i = leaf_GetItem d i" for i
      using R(2) by (simp add: leaf_GetItem_def leaf_KeyAt_def leaf_ValueAt_def S(5) rd32_def leaf_PairPtrAt_def)
    then have "leaf_entries ?d = leaf_entries d" by (simp add: leaf_entries_def S(4))
    then show ?thesis
      using assms LeafD R(2) [of 28 4] S(4,5,6) by (simp add: page_is_def set_parent_def leaf_ok_def S leaf_GetNextPageId_def rd32_def PAGE_SIZE_def)
  next
    case (NodeD par cs)
    have "internal_pair_size ?d = internal_pair_size d" by (simp add: internal_pair_size_def S(5))
    then have "(internal_KeyAt ?d i, internal_ValueAt ?d i) = (internal_KeyAt d i, internal_ValueAt d i)" for i
      using R(2) by (simp add: internal_KeyAt_def internal_ValueAt_def S(5) rd32_def internal_PairPtrAt_def)
    then have "internal_entries ?d = internal_entries d" by (simp add: internal_entries_def S(4))
    then show ?thesis using assms NodeD by (simp add: page_is_def set_parent_def internal_ok_def S PAGE_SIZE_def)
  qed
qed

section \<open>New pages\<close>

lemma new_leaf_page:
  assumes "bt_fits t"
  shows "page_is t p (LeafD par [] INVALID_PAGE_ID) (leaf_Init p par (int (bt_key_size t)) (bt_leaf_max_size t) zero_page)"
proof -
  note F = bt_fitsD [OF assms]
  have z: "length zero_page = PAGE_SIZE" by (simp add: zero_page_def)
  have "GetMaxSize (leaf_Init p par (int (bt_key_size t)) (bt_leaf_max_size t) zero_page) = bt_leaf_max_size t"
    using z F(1,4) by (simp add: leaf_Init_def Let_def leaf_SetNextPageId_def bp_defs layout_simps PAGE_SIZE_def sint_word_small)
  then show ?thesis using leaf_Init_ok [OF z F(3)] by (simp add: page_is_def)
qed

lemma new_internal_page:
  assumes "bt_fits t"
  shows "page_is t p (NodeD par []) (internal_Init p par (int (bt_key_size t)) (bt_internal_max_size t) zero_page)"
proof -
  note F = bt_fitsD [OF assms]
  have z: "length zero_page = PAGE_SIZE" by (simp add: zero_page_def)
  have "GetMaxSize (internal_Init p par (int (bt_key_size t)) (bt_internal_max_size t) zero_page) = bt_internal_max_size t"
    using z F(2,5) by (simp add: internal_Init_def Let_def bp_defs layout_simps PAGE_SIZE_def sint_word_small)
  then show ?thesis using internal_Init_ok [OF z F(3)] by (simp add: page_is_def)
qed

section \<open>Changed pages\<close>

lemma leaf_page_insert:
  assumes d: "page_is t p (LeafD par es nx) d" and f: "bt_fits t" and n: "int (length es) \<le> bt_leaf_max_size t"
    and s: "key_sorted (bt_lt t) es" "valid_keys (bt_valid t) es" "bt_valid t key"
  obtains d' where "leaf_Insert (bt_cmp t) key v d = Inr (d', GetSize d')"
    "page_is t p (LeafD par (assoc_insert (bt_lt t) key v es) nx) d'"
proof -
  have D: "leaf_ok (bt_key_size t) d" "leaf_entries d = es" using d by (simp_all add: page_is_def)
  have sz: "nat (GetSize d) = length es" using D(2) leaf_entries_length [of d] by simp
  have room: "32 + Suc (nat (GetSize d)) * (bt_key_size t + 8) \<le> 4096"
    unfolding sz using bt_fitsD(6) [OF f, of "Suc (length es)"] n by simp
  have len: "length key = bt_key_size t" using s(3) by (simp add: key_valid_def)
  obtain d' where d': "leaf_Insert (bt_cmp t) key v d = Inr (d', GetSize d')" "leaf_ok (bt_key_size t) d'"
    "leaf_entries d' = assoc_insert (bt_lt t) key v (leaf_entries d)" "leaf_header d' = leaf_header d"
    using lf.leaf_Insert_insert [OF D(1) _ _ s(3) len room] s(1,2) D(2) by metis
  then show thesis using that [of d'] d leaf_header_eq [OF d'(4)] by (simp add: page_is_def)
qed

lemma leaf_page_split:
  assumes d: "page_is t p (LeafD par es nx) d" and r: "page_is t q (LeafD par [] INVALID_PAGE_ID) r" and f: "bt_fits t"
    and n: "length es \<le> nat (bt_leaf_max_size t) + 1"
  obtains d' r' where "leaf_MoveHalfTo d r = Inr (d', r')" "page_is t p (LeafD par (take (length es div 2) es) q) d'"
    "page_is t q (LeafD par (drop (length es div 2) es) nx) r'"
proof -
  let ?n = "length es" let ?s = "length es div 2"
  have D: "leaf_ok (bt_key_size t) d" "leaf_entries d = es" and R: "leaf_ok (bt_key_size t) r" "leaf_entries r = []"
    using d r by (simp_all add: page_is_def)
  have sz: "nat (GetSize d) = ?n" "nat (GetSize r) = 0" "GetSize d = int ?n" "GetSize r = 0"
    using D R leaf_entries_length [of d] leaf_entries_length [of r] leaf_okD(6) [OF D(1)] leaf_okD(6) [OF R(1)] by simp_all
  have bnd: "?s + (?n - ?s) \<le> nat (GetSize d)" by (simp add: sz)
  have room: "32 + (nat (GetSize r) + (?n - ?s)) * (bt_key_size t + 8) \<le> 4096" using bt_fitsD(6) [OF f, of "?n - ?s"] n by (simp add: sz)
  obtain r1 where r1: "leaf_CopyNFrom d (leaf_PairPtrAt d ?s) (int (?n - ?s)) r = Inr r1" "leaf_ok (bt_key_size t) r1" "leaf_header r1 = leaf_header r"
    "leaf_entries r1 = leaf_entries r @ take (?n - ?s) (drop ?s (leaf_entries d))" "GetSize r1 = GetSize r + int (?n - ?s)"
    by (rule leaf_CopyNFrom_effect [OF R(1) D(1) bnd room])
  have sn: "?s \<le> nat (GetSize d)" by (simp add: sz)
  note Cut = leaf_cut [OF D(1) sn] and HC = leaf_header_eq [OF leaf_cut(3) [OF D(1) sn]] and HR = leaf_header_eq [OF r1(3)]
  note N1 = SetNextPageId_frame [OF Cut(1)] and N2 = SetNextPageId_frame [OF r1(2)]
  have e: "GetSize d - int ?s = int (?n - ?s)" by (simp add: sz of_nat_diff)
  have "leaf_MoveHalfTo d r = Inr (leaf_SetNextPageId q (SetSize (int ?s) d), leaf_SetNextPageId nx r1)"
    unfolding leaf_MoveHalfTo_def Let_def sz(1) e r1(1) using d r HC(5) HR(4) N2(5) by (simp add: page_is_def)
  moreover have "page_is t p (LeafD par (take ?s es) q) (leaf_SetNextPageId q (SetSize (int ?s) d))"
    using d N1 HC Cut(2) D(2) by (simp add: page_is_def)
  moreover have "page_is t q (LeafD par (drop ?s es) nx) (leaf_SetNextPageId nx r1)"
    using r N2 HR r1(4) D(2) R(2) by (simp add: page_is_def)
  ultimately show thesis by (rule that)
qed

lemma node_page_insert:
  assumes d: "page_is t P (NodeD par (xs @ (k, p) # ys)) d" and f: "bt_fits t" and p: "p \<notin> snd ` set xs"
    and n: "int (length xs + length ys) < bt_internal_max_size t" and key: "length key = bt_key_size t"
  obtains d' where "InsertNodeAfter p key q d = Inr (d', GetSize d')" "page_is t P (NodeD par (xs @ (k, p) # (key, q) # ys)) d'"
    "GetSize d' = int (length xs + length ys + 2)"
proof -
  have D: "internal_ok (bt_key_size t) d" "internal_entries d = xs @ (k, p) # ys" using d by (simp_all add: page_is_def)
  have sz: "nat (GetSize d) = length xs + length ys + 1" using D(2) internal_entries_length [of d] by simp
  obtain i where i: "ValueIndex p d = Some i" using ValueIndex_entries(2) [of p d] D(2) by (cases "ValueIndex p d") auto
  have ent: "internal_ValueAt d j = snd (internal_entries d ! j)" if "j < nat (GetSize d)" for j using that by (simp add: internal_entries_def)
  have "i = length xs"
  proof -
    have "internal_ValueAt d i = p" "i < nat (GetSize d)" "\<And>j. j < i \<Longrightarrow> internal_ValueAt d j \<noteq> p"
      using i by (auto simp: ValueIndex_def find_upt_least)
    moreover have "internal_ValueAt d (length xs) = p" using ent [of "length xs"] sz D(2) by simp
    moreover have "internal_ValueAt d j \<noteq> p" if "j < length xs" for j
    proof -
      have "internal_ValueAt d j = snd (xs ! j)" using ent [of j] that sz D(2) by (simp add: nth_append)
      then show ?thesis using p that by (metis image_eqI nth_mem)
    qed
    ultimately show ?thesis by (metis linorder_neqE_nat)
  qed
  have fit: "28 + Suc (nat (GetSize d)) * (bt_key_size t + 4) \<le> 4096"
    unfolding sz using bt_fitsD(7) [OF f, of "Suc (length xs + length ys + 1)"] n by simp
  obtain d' where d': "InsertNodeAfter p key q d = Inr (d', GetSize d')" "internal_ok (bt_key_size t) d'"
    "internal_entries d' = take (Suc i) (internal_entries d) @ (key, q) # drop (Suc i) (internal_entries d)"
    "page_header 28 d' = page_header 28 d" "GetSize d' = GetSize d + 1"
    by (rule InsertNodeAfter_effect [OF D(1) i key fit])
  have "internal_entries d' = xs @ (k, p) # (key, q) # ys" using d'(3) by (simp add: D(2) \<open>i = length xs\<close>)
  then have "page_is t P (NodeD par (xs @ (k, p) # (key, q) # ys)) d'"
    using d d'(2) page_header_eq [OF d'(4)] by (simp add: page_is_def)
  moreover have "GetSize d' = int (length xs + length ys + 2)" using d'(5) sz internal_okD(6) [OF D(1)] by simp
  ultimately show thesis using that d'(1) by blast
qed

lemma root_page_new:
  assumes f: "bt_fits t" and r: "page_is t r (NodeD INVALID_PAGE_ID []) d" and key: "length key = bt_key_size t"
  obtains k0 where "page_is t r (NodeD INVALID_PAGE_ID [(k0, p), (key, q)]) (PopulateNewRoot p key q d)"
proof -
  have D: "internal_ok (bt_key_size t) d" using r by (simp add: page_is_def)
  have fit: "28 + 2 * (bt_key_size t + 4) \<le> 4096" using bt_fitsD(7) [OF f, of 2] bt_fitsD(2) [OF f] by simp
  obtain k0 where k0: "internal_ok (bt_key_size t) (PopulateNewRoot p key q d)" "internal_entries (PopulateNewRoot p key q d) = [(k0, p), (key, q)]"
    "page_header 28 (PopulateNewRoot p key q d) = page_header 28 d" "GetSize (PopulateNewRoot p key q d) = 2"
    by (rule PopulateNewRoot_effect [OF D key fit])
  then show thesis using that r page_header_eq [OF k0(3)] by (simp add: page_is_def)
qed

end
