(* ===== verification/Tree_Insert.thy ===== *)
theory Tree_Insert
  imports Tree_Pages
begin

text \<open>
  Insertion into a B+ tree in the buffer pool. A split replaces the node in a hole of the tree by two; the parent takes
  the second one in, and splits in turn when it is full, up to a new root. The pairs are those of before and the new one, the leaves
  stay at one depth and in one chain, and all other pages are as they were.
\<close>

section \<open>Pages shown after a change\<close>

lemma shown_upd: "shown t S ds \<Longrightarrow> p \<notin> fst ` set ds \<Longrightarrow> shown t (S(p \<mapsto> d)) ds"
  by (erule shown_cong) auto

lemma page_is_root [simp]: "page_is (t\<lparr>bt_root_page_id := r\<rparr>) p x d = page_is t p x d"
  by (simp add: page_is_def cong: pdesc.case_cong)

lemma shown_root [simp]: "shown (t\<lparr>bt_root_page_id := r\<rparr>) S ds = shown t S ds"
  by (simp add: shown_def page_is_def cong: pdesc.case_cong)

lemma sized_root [simp]: "sized (t\<lparr>bt_root_page_id := r\<rparr>) T = sized t T"
  by (induction t T rule: sized.induct) (auto simp: split_def)

text \<open>A node gets another parent.\<close>

lemma shown_reparent:
  assumes "shown t S (descs par T)" "S' (root_id T) = Some (SetParentPageId par' d)" "S (root_id T) = Some d" "distinct (page_ids T)"
    "\<And>x. x \<in> set (page_ids T) \<Longrightarrow> x \<noteq> root_id T \<Longrightarrow> S' x = S x"
  shows "shown t S' (descs par' T)"
proof -
  have "page_is t (root_id T) (top_desc par T) d" "shown t S (below_descs T)" using assms(1,3) by (auto simp: descs_top)
  moreover have "shown t S' (below_descs T)"
    by (rule shown_cong [OF calculation(2)]) (use assms(4,5) in \<open>simp add: page_ids_top; metis\<close>)
  ultimately show ?thesis using assms(2) page_is_parent [of t "root_id T" "top_desc par T" d par'] by (simp add: descs_top set_parent_top)
qed

lemma shown_ids: "shown t S (descs par T) \<Longrightarrow> x \<in> set (page_ids T) \<Longrightarrow> S x \<noteq> None"
  unfolding descs_ids_set [of par, symmetric] shown_def by fastforce

lemma shown_forest: "shown t S (forest_descs P cs) \<longleftrightarrow> (\<forall>(k, c) \<in> set cs. shown t S (descs P c))"
  by (induction cs) auto

text \<open>In a row of trees on different pages, a root is in no other tree.\<close>

lemma root_in_forest: "(k, c) \<in> set cs \<Longrightarrow> x \<in> set (page_ids c) \<Longrightarrow> x \<in> set (forest_ids cs)"
  by (force simp: forest_ids_def)

lemma forest_root_unique:
  "distinct (forest_ids cs) \<Longrightarrow> (k, c) \<in> set cs \<Longrightarrow> x \<in> set (page_ids c) \<Longrightarrow> (k', c') \<in> set cs \<Longrightarrow> x = root_id c' \<Longrightarrow> x = root_id c"
proof (induction cs)
  case (Cons y cs)
  obtain ky cy where y: "y = (ky, cy)" by (cases y)
  have d: "distinct (forest_ids cs)" "set (page_ids cy) \<inter> set (forest_ids cs) = {}" using Cons.prems(1) by (simp_all add: y)
  have r: "x \<in> set (page_ids c')" using Cons.prems(5) root_in_ids by simp
  consider "c = cy" "c' = cy" | "(k, c) \<in> set cs" "(k', c') \<in> set cs" | "c = cy" "(k', c') \<in> set cs" | "(k, c) \<in> set cs" "c' = cy"
    using Cons.prems(2,4) by (auto simp: y)
  then show ?case
  proof cases
    case 2
    then show ?thesis using Cons.IH [OF d(1)] Cons.prems(3,5) by blast
  next
    case 3
    then show ?thesis using root_in_forest [OF 3(2) r] d(2) Cons.prems(3) by auto
  next
    case 4
    then show ?thesis using root_in_forest [OF 4(1) Cons.prems(3)] d(2) r by auto
  qed (use Cons.prems(5) in simp)
qed simp

section \<open>The root directory\<close>

definition roots_at :: "(page_id_t \<rightharpoonup> byte list) \<Rightarrow> (index_id_t \<rightharpoonup> page_id_t) \<Rightarrow> bool" where
  "roots_at S M \<longleftrightarrow> (\<exists>d. S INDEX_ROOTS_PAGE_ID = Some d \<and> ir_ok d \<and> map_of (ir_view d) = M)"

lemma roots_count: "ir_ok d \<Longrightarrow> length (ir_view d) = card (dom (map_of (ir_view d)))"
  using distinct_card [of "map fst (ir_view d)"] by (simp add: ir_ok_def dom_map_of_conv_image_fst)

lemma map_of_replace:
  "map_of (map (\<lambda>(k', r'). (k', if k' = k then r else r')) xs) = (if map_of xs k = None then map_of xs else (map_of xs)(k \<mapsto> r))"
  by (induction xs) (auto simp: fun_eq_iff)

lemma ir_put:
  assumes "ir_ok d" "map_of (ir_view d) i \<noteq> None \<or> length (ir_view d) < MAX_INDEX_COUNT"
  obtains d' where "(if n \<noteq> (0 :: int) then bind_result (ir_Insert i r d) (\<lambda>(d, ok). if \<not> ok then ir_Update i r d else Inr (d, ok))
      else bind_result (ir_Update i r d) (\<lambda>(d, ok). if \<not> ok then ir_Insert i r d else Inr (d, ok))) = Inr (d', True)"
    "ir_ok d'" "map_of (ir_view d') = (map_of (ir_view d))(i \<mapsto> r)"
proof (cases "map_of (ir_view d) i")
  case None
  then obtain d' where "ir_Insert i r d = Inr (d', True)" "ir_ok d'" "ir_view d' = ir_view d @ [(i, r)]"
    using ir.ins_new [of d i r] assms by auto
  moreover have "ir_Update i r d = Inr (d, False)" using None FindIndex_iff(2) [of i d] by (simp add: ir_Update_def)
  moreover have "map_of (ir_view d @ [(i, r)]) = (map_of (ir_view d))(i \<mapsto> r)" using None by (auto simp: fun_eq_iff map_add_def split: option.splits)
  ultimately show thesis using that [of d'] by simp
next
  case (Some r0)
  then obtain d' where "ir_Update i r d = Inr (d', True)" "ir_ok d'"
    "ir_view d' = map (\<lambda>(k', r'). (k', if k' = i then r else r')) (ir_view d)"
    using ir.upd_view [of d i r] assms(1) by auto
  moreover have "ir_Insert i r d = Inr (d, False)" using ir.ins_dup [of d i r] assms(1) Some by simp
  ultimately show thesis using that [of d'] Some by (simp add: map_of_replace)
qed

context buffer_pool
begin

lemma UpdateRoot_law:
  assumes ok: "bp_ok b" and r: "roots_at (store b) M" and sp: "0 < spares b" and m: "M (bt_index_id t) \<noteq> None \<or> card (dom M) < MAX_INDEX_COUNT"
  obtains b' d where "UpdateRootPageId rops dops n (b, t) = Inr b'" "runs {} b b'" "store b' = (store b)(INDEX_ROOTS_PAGE_ID \<mapsto> d)"
    "roots_at (store b') (M(bt_index_id t \<mapsto> bt_root_page_id t))" "allocated (bpm_disk b') = allocated (bpm_disk b)"
proof -
  obtain d where d: "store b INDEX_ROOTS_PAGE_ID = Some d" "ir_ok d" "map_of (ir_view d) = M" using r by (auto simp: roots_at_def)
  have "map_of (ir_view d) (bt_index_id t) \<noteq> None \<or> length (ir_view d) < MAX_INDEX_COUNT" using m d(3) roots_count [OF d(2)] by simp
  then obtain d' where d': "(if n \<noteq> 0 then bind_result (ir_Insert (bt_index_id t) (bt_root_page_id t) d) (\<lambda>(d, ok). if \<not> ok then ir_Update (bt_index_id t) (bt_root_page_id t) d else Inr (d, ok))
      else bind_result (ir_Update (bt_index_id t) (bt_root_page_id t) d) (\<lambda>(d, ok). if \<not> ok then ir_Insert (bt_index_id t) (bt_root_page_id t) d else Inr (d, ok))) = Inr (d', True)"
    "ir_ok d'" "map_of (ir_view d') = (map_of (ir_view d))(bt_index_id t \<mapsto> bt_root_page_id t)"
    by (rule ir_put [OF d(2)])
  obtain b1 f where 1: "FetchPage rops dops INDEX_ROOTS_PAGE_ID b = Inr (b1, Some f)" "held {} (one INDEX_ROOTS_PAGE_ID) b b1"
    "pinned_at b1 INDEX_ROOTS_PAGE_ID f" "fdata b1 f = d" "store b1 = store b" "spares b \<le> Suc (spares b1)"
    "allocated (bpm_disk b1) = allocated (bpm_disk b)"
    by (rule held_Fetch [OF ok d(1) sp])
  have len: "length d' = PAGE_SIZE" by (rule ir_okD(1) [OF d'(2)])
  note W = runs_write_at [OF held_ok [OF 1(2)] 1(3) len]
  have h: "held {INDEX_ROOTS_PAGE_ID} (one INDEX_ROOTS_PAGE_ID) b (write_frame f d' b1)" using held_run [OF 1(2) W(1)] by simp
  obtain b2 where 2: "UnpinPage rops INDEX_ROOTS_PAGE_ID True (write_frame f d' b1) = (b2, True)"
    "held ({INDEX_ROOTS_PAGE_ID} - (if True then {INDEX_ROOTS_PAGE_ID} else {})) (\<lambda>q. one INDEX_ROOTS_PAGE_ID q - one INDEX_ROOTS_PAGE_ID q) b b2"
    "store b2 = store (write_frame f d' b1)" "bpm_disk b2 = bpm_disk (write_frame f d' b1)"
    by (rule held_Unpin [OF h, of INDEX_ROOTS_PAGE_ID True]) (use pins_nonneg [OF conjunct1 [OF ok]] in auto)
  have st: "store b2 = (store b)(INDEX_ROOTS_PAGE_ID \<mapsto> d')" using 2(3) W(2) 1(5) by simp
  have "UpdateRootPageId rops dops n (b, t) = Inr b2" using 1(1,4) d'(1) 2(1) by (cases "n = 0") (simp_all add: UpdateRootPageId_def)
  moreover have "runs {} b b2" using 2(2) by (simp add: held_runs)
  moreover have "roots_at (store b2) (M(bt_index_id t \<mapsto> bt_root_page_id t))" using d' d(3) by (simp add: roots_at_def st)
  ultimately show thesis using that [of b2 d'] st 2(4) W(3) 1(7) by simp
qed

lemma step_mod:
  assumes "bp_ok b" "pinned_at b p f" "store b p = Some d" "length (h d) = PAGE_SIZE"
  shows "runs {p} b (mod_frame f h b)" "store (mod_frame f h b) = (store b)(p \<mapsto> h d)" "bpm_disk (mod_frame f h b) = bpm_disk b"
    "bp_ok (mod_frame f h b)" "\<And>q g. pinned_at b q g \<Longrightarrow> pinned_at (mod_frame f h b) q g"
proof -
  have fd: "fdata b f = d" using pinned_at_data [OF assms(1,2)] assms(3) by simp
  note M = runs_mod_at [where h = h, OF assms(1,2)]
  show r: "runs {p} b (mod_frame f h b)" "store (mod_frame f h b) = (store b)(p \<mapsto> h d)" "bpm_disk (mod_frame f h b) = bpm_disk b"
    using M assms(4) by (simp_all add: fd)
  show "bp_ok (mod_frame f h b)" by (rule runsD(1) [OF r(1)])
  show "\<And>q g. pinned_at b q g \<Longrightarrow> pinned_at (mod_frame f h b) q g" by (rule pinned_at_runs [OF r(1)])
qed

lemma step_write:
  assumes "bp_ok b" "pinned_at b p f" "length d = PAGE_SIZE"
  shows "runs {p} b (write_frame f d b)" "store (write_frame f d b) = (store b)(p \<mapsto> d)" "bpm_disk (write_frame f d b) = bpm_disk b"
    "bp_ok (write_frame f d b)" "\<And>q g. pinned_at b q g \<Longrightarrow> pinned_at (write_frame f d b) q g"
  using runs_write_at [OF assms] runsD(1) pinned_at_runs by blast+

text \<open>The contents of a pinned page, from the store.\<close>

lemma fdata_store: "bp_ok b \<Longrightarrow> pinned_at b p f \<Longrightarrow> store b p = Some d \<Longrightarrow> fdata b f = d"
  using pinned_at_data by fastforce

lemma length_parent: "length d = PAGE_SIZE \<Longrightarrow> length (SetParentPageId r d) = PAGE_SIZE"
  by (rule length_SetParentPageId)

end

context bounded_pool
begin

lemma new_root_law:
  assumes f: "bt_fits t" and ok: "bp_ok b" and pf: "pinned_at b (root_id L) f" and pg: "pinned_at b (root_id R) g"
    and sh: "shown t (store b) (descs INVALID_PAGE_ID L)" "shown t (store b) (descs INVALID_PAGE_ID R)"
    and dist: "distinct (page_ids L @ page_ids R)" and rt: "INDEX_ROOTS_PAGE_ID \<notin> set (page_ids L @ page_ids R)"
    and key: "length key = bt_key_size t" and sp: "0 < spares b" and q: "quota 1 b"
    and M: "roots_at (store b) M" "M (bt_index_id t) \<noteq> None"
  obtains b' r k0 where "new_internal_root rops dops f key g (b, t) = Inr (b', t\<lparr>bt_root_page_id := r\<rparr>)"
    "runs {root_id L, root_id R} b b'" "store b r = None" "r \<noteq> INVALID_PAGE_ID"
    "shown t (store b') (descs INVALID_PAGE_ID (BNode r [(k0, L), (key, R)]))"
    "roots_at (store b') (M(bt_index_id t \<mapsto> r))"
    "\<And>x. x \<notin> {r, root_id L, root_id R, INDEX_ROOTS_PAGE_ID} \<Longrightarrow> store b' x = store b x"
proof -
  let ?p = "root_id L" and ?q = "root_id R"
  obtain dp where dp: "store b ?p = Some dp" "page_is t ?p (top_desc INVALID_PAGE_ID L) dp" using sh(1) by (auto simp: descs_top)
  obtain dq where dq: "store b ?q = Some dq" "page_is t ?q (top_desc INVALID_PAGE_ID R) dq" using sh(2) by (auto simp: descs_top)
  have other: "?q \<notin> set (page_ids L)" "?p \<notin> set (page_ids R)" using dist root_in_ids by (metis disjoint_iff distinct_append)+
  have pq: "?p \<noteq> ?q" using other root_in_ids by metis
  have rtn: "?p \<noteq> INDEX_ROOTS_PAGE_ID" "?q \<noteq> INDEX_ROOTS_PAGE_ID" using rt root_in_ids by (metis UnCI set_append)+
  obtain b1 h r where 1: "NewPage rops dops b = Inr (b1, Some (h, r))" "held {r} (one r) b b1" "pinned_at b1 r h" "fdata b1 h = zero_page"
    "store b r = None" "r \<noteq> INVALID_PAGE_ID" "store b1 = (store b)(r \<mapsto> zero_page)" "spares b \<le> Suc (spares b1)"
    "allocated (bpm_disk b1) = insert r (allocated (bpm_disk b))"
    by (rule held_New [OF ok quota_room [OF ok] sp]) (use q in simp)
  have rne: "r \<noteq> ?p" "r \<noteq> ?q" "r \<noteq> INDEX_ROOTS_PAGE_ID" using 1(5) dp dq M(1) by (auto simp: roots_at_def)
  have nn: "0 \<le> one r x" for x by simp
  note pf1 = pinned_at_held [OF 1(2) pf nn] and pg1 = pinned_at_held [OF 1(2) pg nn]
  define ini where "ini = internal_Init r INVALID_PAGE_ID (int (bt_key_size t)) (bt_internal_max_size t) zero_page"
  have ini: "page_is t r (NodeD INVALID_PAGE_ID []) ini" unfolding ini_def by (rule new_internal_page [OF f])
  define b2 where "b2 = mod_frame h (internal_Init r INVALID_PAGE_ID (int (bt_key_size t)) (bt_internal_max_size t)) b1"
  have z: "store b1 r = Some zero_page" using 1(7) by simp
  note S2 = step_mod [where h = "internal_Init r INVALID_PAGE_ID (int (bt_key_size t)) (bt_internal_max_size t)", OF held_ok [OF 1(2)] 1(3) z,
      folded ini_def b2_def, OF page_is_length [OF ini]]
  have st2: "store b2 r = Some ini" "store b2 ?p = Some dp" "store b2 ?q = Some dq" using S2(2) 1(7) rne dp dq by simp_all
  have ids: "bp_GetPageId (fdata b2 f) = ?p" "bp_GetPageId (fdata b2 g) = ?q"
    using fdata_store [OF S2(4) S2(5) [OF pf1] st2(2)] fdata_store [OF S2(4) S2(5) [OF pg1] st2(3)] dp(2) dq(2) by (simp_all add: page_is_def)
  obtain k0 where k0: "page_is t r (NodeD INVALID_PAGE_ID [(k0, ?p), (key, ?q)]) (PopulateNewRoot ?p key ?q ini)"
    by (rule root_page_new [OF f ini key])
  define b3 where "b3 = mod_frame h (PopulateNewRoot ?p key ?q) b2"
  note S3 = step_mod [where h = "PopulateNewRoot ?p key ?q", OF S2(4) S2(5) [OF 1(3)] st2(1) page_is_length [OF k0], folded b3_def]
  have st3: "store b3 ?p = Some dp" using S3(2) st2 rne by simp
  define b4 where "b4 = mod_frame f (SetParentPageId r) b3"
  note S4 = step_mod [where h = "SetParentPageId r", OF S3(4) S3(5) [OF S2(5) [OF pf1]] st3 length_parent [OF page_is_length [OF dp(2)]], folded b4_def]
  have st4: "store b4 ?q = Some dq" using S4(2) S3(2) st2 rne pq by simp
  define b5 where "b5 = mod_frame g (SetParentPageId r) b4"
  note S5 = step_mod [where h = "SetParentPageId r", OF S4(4) S4(5) [OF S3(5) [OF S2(5) [OF pg1]]] st4 length_parent [OF page_is_length [OF dq(2)]], folded b5_def]
  have h5: "held {r, ?p, ?q} (one r) b b5"
    using held_run [OF held_run [OF held_run [OF held_run [OF 1(2) S2(1) nn] S3(1) nn] S4(1) nn] S5(1) nn]
    by (rule held_mono) auto
  obtain b6 where 6: "UnpinPage rops r True b5 = (b6, True)" "held ({r, ?p, ?q} - (if True then {r} else {})) (\<lambda>x. one r x - one r x) b b6"
    "store b6 = store b5" "bpm_disk b6 = bpm_disk b5"
    by (rule held_Unpin [OF h5, of r True]) (use pins_nonneg [OF conjunct1 [OF ok]] in auto)
  have r6: "runs {?p, ?q} b b6" using 6(2) rne by (simp add: held_runs insert_Diff_if)
  have st6: "store b6 = (store b)(r \<mapsto> PopulateNewRoot ?p key ?q ini, ?p \<mapsto> SetParentPageId r dp, ?q \<mapsto> SetParentPageId r dq)"
    using 6(3) S5(2) S4(2) S3(2) S2(2) 1(7) by simp
  let ?t = "t\<lparr>bt_root_page_id := r\<rparr>"
  have M6: "roots_at (store b6) M" using M(1) rne rtn by (auto simp: roots_at_def st6)
  have sp6: "0 < spares b6" using sp runsD(6) [OF r6] by simp
  obtain b7 dr where 7: "UpdateRootPageId rops dops 0 (b6, ?t) = Inr b7" "runs {} b6 b7" "store b7 = (store b6)(INDEX_ROOTS_PAGE_ID \<mapsto> dr)"
    "roots_at (store b7) (M(bt_index_id ?t \<mapsto> bt_root_page_id ?t))" "allocated (bpm_disk b7) = allocated (bpm_disk b6)"
    by (rule UpdateRoot_law [OF runsD(1) [OF r6] M6 sp6, where t = ?t]) (use M(2) in auto)
  have "new_internal_root rops dops f key g (b, t) = Inr (b7, ?t)"
    using 1(1) 6(1) 7(1) ids by (simp add: new_internal_root_def Let_def b2_def b3_def b4_def b5_def)
  moreover have "runs {?p, ?q} b b7" using runs_trans [OF r6 7(2)] by simp
  moreover have fresh: "r \<notin> set (page_ids L)" "r \<notin> set (page_ids R)"
    using shown_ids [OF sh(1), of r] shown_ids [OF sh(2), of r] 1(5) by auto
  have "shown t (store b7) (descs INVALID_PAGE_ID (BNode r [(k0, L), (key, R)]))"
  proof -
    have "shown t (store b7) (descs r L)"
      by (rule shown_reparent [OF sh(1) _ dp(1)]) (use 7(3) st6 rt fresh rne rtn pq dist other in auto)
    moreover have "shown t (store b7) (descs r R)"
      by (rule shown_reparent [OF sh(2) _ dq(1)]) (use 7(3) st6 rt fresh rne rtn pq dist other in auto)
    moreover have "store b7 r = Some (PopulateNewRoot ?p key ?q ini)" using 7(3) st6 rne by simp
    ultimately show ?thesis using k0 by simp
  qed
  ultimately show thesis using that [of b7 r k0] 1(5,6) 7(3,4) st6 by simp
qed

lemma SplitInternal_law:
  assumes f: "bt_fits t" and ok: "bp_ok b" and pf: "pinned_at b P f" and sh: "shown t (store b) (descs par (BNode P cs))"
    and dist: "distinct (page_ids (BNode P cs))" and len: "length cs = nat (bt_internal_max_size t) + 1"
    and sp: "1 < spares b" and q: "quota 1 b"
  defines "m \<equiv> length cs div 2"
  obtains b' g Q where "SplitInternal rops dops f (b, t) = Inr (b', g)" "held {x. 0 < pins b x \<or> x = Q} (one Q) b b'"
    "pinned_at b' P f" "pinned_at b' Q g" "store b Q = None" "Q \<noteq> INVALID_PAGE_ID"
    "shown t (store b') (descs par (BNode P (take m cs)))" "shown t (store b') (descs par (BNode Q (drop m cs)))"
    "\<And>x. x \<notin> set (page_ids (BNode P cs)) \<Longrightarrow> x \<noteq> Q \<Longrightarrow> store b' x = store b x" "allocated (bpm_disk b') = insert Q (allocated (bpm_disk b))"
    "spares b \<le> Suc (spares b')"
proof -
  obtain d where d: "store b P = Some d" "page_is t P (NodeD par (child_ids cs)) d" using sh by auto
  have kids: "shown t (store b) (descs P c)" if "(k, c) \<in> set cs" for k c using sh that by (auto simp: shown_forest)
  obtain b1 g Q where 1: "NewPage rops dops b = Inr (b1, Some (g, Q))" "held {Q} (one Q) b b1" "pinned_at b1 Q g" "fdata b1 g = zero_page"
    "store b Q = None" "Q \<noteq> INVALID_PAGE_ID" "store b1 = (store b)(Q \<mapsto> zero_page)" "spares b \<le> Suc (spares b1)"
    "allocated (bpm_disk b1) = insert Q (allocated (bpm_disk b))"
    by (rule held_New [OF ok quota_room [OF ok]]) (use q sp in simp_all)
  have nn: "0 \<le> one Q x" for x by simp
  have QP: "Q \<noteq> P" using 1(5) d(1) by auto
  have Qf: "Q \<notin> set (forest_ids cs)" using shown_ids [OF sh, of Q] 1(5) by auto
  note ok1 = held_ok [OF 1(2)] and pf1 = pinned_at_held [OF 1(2) pf nn]
  have fd1: "fdata b1 f = d" by (rule fdata_store [OF ok1 pf1]) (use 1(7) QP d(1) in simp)
  let ?I = "internal_Init Q par (int (bt_key_size t)) (bt_internal_max_size t)"
  have ini: "page_is t Q (NodeD par []) (?I zero_page)" by (rule new_internal_page [OF f])
  define b2 where "b2 = mod_frame g ?I b1"
  have z: "store b1 Q = Some zero_page" using 1(7) by simp
  note S2 = step_mod [where h = ?I, OF ok1 1(3) z page_is_length [OF ini], folded b2_def]
  have st2: "store b2 = (store b)(Q \<mapsto> ?I zero_page)" using S2(2) 1(7) by simp
  note pf2 = S2(5) [OF pf1] and pg2 = S2(5) [OF 1(3)]
  have fd2: "fdata b2 f = d" by (rule fdata_store [OF S2(4) pf2]) (use st2 QP d(1) in simp)
  have gd2: "fdata b2 g = ?I zero_page" by (rule fdata_store [OF S2(4) pg2]) (use st2 in simp)
  have D: "internal_ok (bt_key_size t) d" "internal_entries d = child_ids cs" and G: "internal_ok (bt_key_size t) (?I zero_page)"
    "internal_entries (?I zero_page) = []" "bp_GetPageId (?I zero_page) = Q"
    using d(2) ini by (simp_all add: page_is_def)
  have szd: "nat (GetSize d) = length cs" using D(2) internal_entries_length [of d] by simp
  have szg: "GetSize (?I zero_page) = 0" using G(1,2) internal_entries_length [of "?I zero_page"] internal_okD(6) by fastforce
  define Ch where "Ch = snd ` set (drop m (child_ids cs))"
  have Ch: "Ch = snd ` set (drop (nat (GetSize (fdata b2 f)) div 2) (internal_entries (fdata b2 f)))"
    by (simp add: Ch_def m_def fd2 szd D(2))
  have ChI: "x \<in> Ch \<longleftrightarrow> (\<exists>k c. (k, c) \<in> set (drop m cs) \<and> x = root_id c)" for x by (force simp: Ch_def drop_map)
  have chid: "x \<in> set (forest_ids cs)" if "x \<in> Ch" for x using that ChI root_in_forest in_set_dropD by fastforce
  have chst: "store b2 x = store b x" "store b x \<noteq> None" if "x \<in> Ch" for x
  proof -
    show "store b2 x = store b x" using chid [OF that] Qf by (auto simp: st2)
    obtain k c where c: "(k, c) \<in> set (drop m cs)" "x = root_id c" using ChI [of x] \<open>x \<in> Ch\<close> by auto
    then show "store b x \<noteq> None" using shown_ids [OF kids [OF in_set_dropD [OF c(1)]] root_in_ids] by simp
  qed
  have sp2: "0 < spares b2" using 1(8) sp runsD(6) [OF S2(1)] by simp
  have mr: "move_ready (bt_key_size t) f g Ch b2"
  proof -
    have "spare b2" using spares_frame [OF conjunct1 [OF S2(4)] sp2] by (auto simp: spare_def)
    moreover have "f \<noteq> g" using pinned_at_inj [OF S2(4) pf2 pg2] QP by simp
    moreover have "ok_id c \<and> c \<in> allocated (bpm_disk b2) \<and> c \<noteq> P \<and> c \<noteq> Q" if "c \<in> Ch" for c
      using chst [OF that] chid [OF that] storeD [of b2 c] dist Qf by auto
    ultimately show ?thesis
      using pinned_at_pinned [OF S2(4) pf2] pinned_at_pinned [OF S2(4) pg2] D(1) G(1) by (simp add: move_ready_def fd2 gd2)
  qed
  have z2: "GetSize (fdata b2 g) = 0" "0 < GetSize (fdata b2 f)" using szg szd len by (simp_all add: gd2 fd2)
  obtain b3 d' r' where 3: "internal_MoveHalfTo rops dops f g b2 = Inr b3"
    "acts (moved (page_id (frame b2 f)) d' (page_id (frame b2 g)) r' Ch (bp_GetPageId (fdata b2 g))) b2 b3"
    "internal_ok (bt_key_size t) d'" "internal_ok (bt_key_size t) r'" "page_header 28 d' = page_header 28 (fdata b2 f)"
    "page_header 28 r' = page_header 28 (fdata b2 g)"
    "internal_entries d' = take (nat (GetSize (fdata b2 f)) div 2) (internal_entries (fdata b2 f))"
    "internal_entries r' = drop (nat (GetSize (fdata b2 f)) div 2) (internal_entries (fdata b2 f))"
    by (rule MoveHalfTo_law [OF S2(4) z2 Ch mr])
  note A = acts_runs [OF S2(4) 3(2)]
  have st3: "store b3 x = (if x = P then Some d' else if x = Q then Some r' else if x \<in> Ch then map_option (SetParentPageId Q) (store b x) else store b x)" for x
    using A(2) pinned_at_pinned(2) [OF S2(4) pf2] pinned_at_pinned(2) [OF S2(4) pg2] st2 d(1) QP
    by (auto simp: moved_def gd2 G(3) fun_eq_iff map_option_case split: option.splits)
  have dd: "page_is t P (NodeD par (child_ids (take m cs))) d'"
    using d(2) 3(3,7) page_header_eq [OF 3(5)] by (simp add: page_is_def fd2 szd m_def take_map)
  have rr: "page_is t Q (NodeD par (child_ids (drop m cs))) r'"
    using ini 3(4,8) page_header_eq [OF 3(6)] D(2) by (simp add: page_is_def fd2 gd2 szd m_def drop_map)
  have fdist: "distinct (forest_ids cs)" "P \<notin> set (forest_ids cs)" using dist by simp_all
  have split: "forest_ids cs = forest_ids (take m cs) @ forest_ids (drop m cs)" by (metis append_take_drop_id forest_ids_simps(3))
  have left: "shown t (store b3) (descs P c)" if c: "(k, c) \<in> set (take m cs)" for k c
  proof (rule shown_cong [OF kids [OF in_set_takeD [OF c]]])
    fix x assume "x \<in> fst ` set (descs P c)"
    then have x: "x \<in> set (page_ids c)" by (simp add: descs_ids_set)
    then have "x \<in> set (forest_ids (take m cs))" using root_in_forest [OF c] by simp
    moreover have "x \<notin> Ch"
    proof
      assume "x \<in> Ch"
      then have "x \<in> set (forest_ids (drop m cs))" using ChI root_in_forest root_in_ids by metis
      then show False using calculation fdist(1) unfolding split by auto
    qed
    ultimately show "store b3 x = store b x" using st3 fdist(2) Qf unfolding split by auto
  qed
  have right: "shown t (store b3) (descs Q c)" if c: "(k, c) \<in> set (drop m cs)" for k c
  proof -
    have c': "(k, c) \<in> set cs" by (rule in_set_dropD [OF c])
    obtain dc where dc: "store b (root_id c) = Some dc" using kids [OF c'] by (auto simp: descs_top)
    have in': "x \<noteq> P \<and> x \<noteq> Q" if "x \<in> set (page_ids c)" for x using root_in_forest [OF c' that] fdist(2) Qf by auto
    show ?thesis
    proof (rule shown_reparent [OF kids [OF c'] _ dc])
      show "store b3 (root_id c) = Some (SetParentPageId Q dc)" using st3 in' [OF root_in_ids] ChI c dc by auto
      show "distinct (page_ids c)" using fdist(1) c' by (auto simp: forest_ids_def distinct_concat_iff)
      fix x assume x: "x \<in> set (page_ids c)" "x \<noteq> root_id c"
      have "x \<notin> Ch" using forest_root_unique [OF fdist(1) c' x(1)] x(2) ChI in_set_dropD by metis
      then show "store b3 x = store b x" using st3 in' [OF x(1)] by auto
    qed
  qed
  have h3: "held {x. 0 < pins b x \<or> x = Q} (one Q) b b3"
  proof -
    have "held ({Q} \<union> {Q} \<union> {x. 0 < pins b2 x}) (one Q) b b3" by (rule held_run [OF held_run [OF 1(2) S2(1) nn] A(1) nn])
    moreover have "pins b2 = (\<lambda>x. pins b x + one Q x)" using runsD(3) [OF S2(1)] 1(2) by (simp add: held_def)
    ultimately show ?thesis using pins_nonneg [OF conjunct1 [OF ok]] by (elim held_mono) (auto simp: one_def split: if_splits)
  qed
  have "SplitInternal rops dops f (b, t) = Inr (b3, g)"
    using 1(1) 3(1) d(2) by (simp add: SplitInternal_def Let_def fd1 b2_def page_is_def)
  moreover have "shown t (store b3) (descs par (BNode P (take m cs)))" using left dd st3 [of P] by (auto simp: shown_forest)
  moreover have "shown t (store b3) (descs par (BNode Q (drop m cs)))" using right rr st3 [of Q] QP by (auto simp: shown_forest)
  moreover have "store b3 x = store b x" if "x \<notin> set (page_ids (BNode P cs))" "x \<noteq> Q" for x
    using st3 [of x] that chid by auto
  moreover have "allocated (bpm_disk b3) = insert Q (allocated (bpm_disk b))" using A(3) S2(3) 1(9) by simp
  moreover have "spares b \<le> Suc (spares b3)" using 1(8) runsD(6) [OF S2(1)] runsD(6) [OF A(1)] by simp
  ultimately show thesis
    using that [of b3 g Q] h3 pinned_at_runs [OF A(1) pf2] pinned_at_runs [OF A(1) pg2] 1(5,6) by blast
qed

end

end
