(* ===== verification/Tree_Grow.thy ===== *)
theory Tree_Grow
  imports Tree_Insert
begin

text \<open>
  The walk of an insertion up the tree: \<^verbatim>\<open>InsertIntoParent\<close> makes one tree of a context and the two nodes that
  a split has put into its hole.
\<close>

text \<open>The situation after a split: the node of a hole has become two, with a key between them.\<close>

definition split_hole :: "BPlusTree \<Rightarrow> (page_id_t \<rightharpoonup> byte list) \<Rightarrow> bctx \<Rightarrow> nat \<Rightarrow> byte list \<Rightarrow> bnode \<Rightarrow> bnode \<Rightarrow> bool" where
  "split_hole t S C m key L R \<longleftrightarrow> shown t S (descs (hole_parent C) L) \<and> shown t S (descs (hole_parent C) R) \<and>
     shown t S (ctx_descs (root_id L) C) \<and> distinct (page_ids L @ page_ids R @ ctx_ids C) \<and>
     INVALID_PAGE_ID \<notin> set (page_ids L @ page_ids R @ ctx_ids C) \<and> INDEX_ROOTS_PAGE_ID \<notin> set (page_ids L @ page_ids R @ ctx_ids C) \<and>
     ctx_ok t m C \<and> balanced m L \<and> balanced m R \<and> sized t L \<and> sized t R \<and>
     within (bt_lt t) (bt_valid t) (hole_lo C) (Some key) L \<and> within (bt_lt t) (bt_valid t) (Some key) (hole_hi C) R \<and>
     bt_valid t key \<and> strict_lo (bt_lt t) (hole_lo C) key \<and> under_hi (bt_lt t) key (hole_hi C) \<and>
     chained (before C @ leaves L @ leaves R @ behind C) INVALID_PAGE_ID"

text \<open>A tree that has grown: its leaves are given, it has kept its pages and taken fresh ones, the root directory names its root, and
  no other page has changed.\<close>

definition grown :: "BPlusTree \<Rightarrow> (page_id_t \<rightharpoonup> byte list) \<Rightarrow> (index_id_t \<rightharpoonup> page_id_t) \<Rightarrow> page_id_t set \<Rightarrow>
    (page_id_t \<times> (byte list \<times> RowId) list \<times> page_id_t) list \<Rightarrow> nat \<Rightarrow> (page_id_t \<rightharpoonup> byte list) \<Rightarrow> BPlusTree \<Rightarrow> bnode \<Rightarrow> bool" where
  "grown t S M ids ls n S' t' T \<longleftrightarrow> t' = t\<lparr>bt_root_page_id := root_id T\<rparr> \<and> (tree_at t' S' n T \<or> tree_at t' S' (Suc n) T) \<and> leaves T = ls \<and>
     roots_at S' (M(bt_index_id t \<mapsto> root_id T)) \<and> ids \<subseteq> set (page_ids T) \<and> (\<forall>x \<in> set (page_ids T) - ids. S x = None) \<and>
     (\<forall>x. x \<notin> set (page_ids T) \<longrightarrow> x \<noteq> INDEX_ROOTS_PAGE_ID \<longrightarrow> S' x = S x)"

lemma grown_step:
  assumes "grown t S1 M ids1 ls n S2 t' T" "ids \<subseteq> ids1" "\<And>x. x \<notin> ids1 \<Longrightarrow> S1 x = S x" "\<And>x. x \<in> ids1 - ids \<Longrightarrow> S x = None"
  shows "grown t S M ids ls n S2 t' T"
proof -
  have "S x = None" if "x \<in> set (page_ids T) - ids" for x
    using assms that by (cases "x \<in> ids1") (auto simp: grown_def)
  moreover have "S2 x = S x" if "x \<notin> set (page_ids T)" "x \<noteq> INDEX_ROOTS_PAGE_ID" for x
    using assms(1) assms(2) assms(3) [of x] that by (auto simp: grown_def)
  ultimately show ?thesis using assms(1,2) by (auto simp: grown_def)
qed

text \<open>The node of the parent, with the second node taken in.\<close>

lemma parent_row:
  assumes H: "split_hole t S ((P, ls, k, rs) # C) m key L R"
  defines "cs \<equiv> ls @ (k, L) # (key, R) # rs"
  shows "within_row (bt_lt t) (bt_valid t) (hole_lo C) (hole_hi C) cs" "balanced (Suc m) (BNode P cs)"
    "\<forall>(k, c) \<in> set cs. sized t c" "int (length cs) \<le> bt_internal_max_size t + 1" "ctx_ok t (Suc m) C"
    "forest_leaves cs = forest_leaves ls @ leaves L @ leaves R @ forest_leaves rs"
    "before C @ forest_leaves cs @ behind C = before ((P, ls, k, rs) # C) @ leaves L @ leaves R @ behind ((P, ls, k, rs) # C)"
    "mset (page_ids (BNode P cs) @ ctx_ids C) = mset (page_ids L @ page_ids R @ ctx_ids ((P, ls, k, rs) # C))"
proof -
  note H = H [unfolded split_hole_def]
  have C: "ctx_within (bt_lt t) (bt_valid t) C" using H by (simp add: ctx_ok_def)
  note B = ctx_bounds_ok [OF C]
  show "within_row (bt_lt t) (bt_valid t) (hole_lo C) (hole_hi C) cs"
    unfolding cs_def by (rule lf.within_row_two) (use H B in \<open>simp_all add: ctx_ok_def\<close>)
  show "balanced (Suc m) (BNode P cs)" using H by (auto simp: cs_def ctx_ok_def)
  show "\<forall>(k, c) \<in> set cs. sized t c" using H by (auto simp: cs_def ctx_ok_def)
  show "int (length cs) \<le> bt_internal_max_size t + 1" using H by (simp add: cs_def ctx_ok_def)
  show "ctx_ok t (Suc m) C" using H by (simp add: ctx_ok_def)
  show "forest_leaves cs = forest_leaves ls @ leaves L @ leaves R @ forest_leaves rs" by (simp add: cs_def)
  show "before C @ forest_leaves cs @ behind C = before ((P, ls, k, rs) # C) @ leaves L @ leaves R @ behind ((P, ls, k, rs) # C)"
    by (simp add: cs_def)
  show "mset (page_ids (BNode P cs) @ ctx_ids C) = mset (page_ids L @ page_ids R @ ctx_ids ((P, ls, k, rs) # C))"
    by (simp add: cs_def ac_simps)
qed

lemma split_root:
  assumes "split_hole t S [] m key L R" "bt_fits t" "shown t S' (descs INVALID_PAGE_ID (BNode r [(k0, L), (key, R)]))" "S r = None"
    "r \<noteq> INVALID_PAGE_ID" "roots_at S M0" "roots_at S' (M(bt_index_id t \<mapsto> r))"
    "\<And>x. x \<notin> {r, root_id L, root_id R, INDEX_ROOTS_PAGE_ID} \<Longrightarrow> S' x = S x"
  shows "grown t S M (set (page_ids L @ page_ids R)) (leaves L @ leaves R) m S' (t\<lparr>bt_root_page_id := r\<rparr>) (BNode r [(k0, L), (key, R)])"
proof -
  note H = assms(1) [unfolded split_hole_def]
  have r: "r \<notin> set (page_ids L)" "r \<notin> set (page_ids R)" using H assms(4) shown_ids [of t S INVALID_PAGE_ID L r] shown_ids [of t S INVALID_PAGE_ID R r] by auto
  have "r \<noteq> INDEX_ROOTS_PAGE_ID" using assms(4,6) by (auto simp: roots_at_def)
  then have "tree_at (t\<lparr>bt_root_page_id := r\<rparr>) S' (Suc m) (BNode r [(k0, L), (key, R)])"
    using H assms(2,3,5) r by (auto simp: tree_at_def bt_fits_def)
  moreover have "S' x = S x" if "x \<notin> set (page_ids (BNode r [(k0, L), (key, R)]))" "x \<noteq> INDEX_ROOTS_PAGE_ID" for x
    using assms(8) [of x] that root_in_ids [of L] root_in_ids [of R] by (auto simp del: root_in_ids)
  ultimately show ?thesis using assms(4,7) by (auto simp: grown_def)
qed

lemma split_up:
  assumes sh: "shown t S (descs (hole_parent C) (BNode P (take n cs)))" "shown t S (descs (hole_parent C) (BNode Q (drop n cs)))" "shown t S (ctx_descs P C)"
    and D: "distinct (page_ids (BNode P cs) @ ctx_ids C)" "Q \<notin> set (page_ids (BNode P cs)) \<union> set (ctx_ids C)"
    and I: "INVALID_PAGE_ID \<notin> insert Q (set (page_ids (BNode P cs)) \<union> set (ctx_ids C))" "INDEX_ROOTS_PAGE_ID \<notin> insert Q (set (page_ids (BNode P cs)) \<union> set (ctx_ids C))"
    and C: "ctx_ok t (Suc m) C" "within_row (bt_lt t) (bt_valid t) (hole_lo C) (hole_hi C) cs" "balanced (Suc m) (BNode P cs)"
    and z: "\<forall>(k, c) \<in> set cs. sized t c" "n < length cs" "0 < n" "int n \<le> bt_internal_max_size t" "int (length cs - n) \<le> bt_internal_max_size t"
    and ch: "chained (before C @ forest_leaves cs @ behind C) INVALID_PAGE_ID"
  shows "split_hole t S C (Suc m) (fst (cs ! n)) (BNode P (take n cs)) (BNode Q (drop n cs))"
proof -
  obtain kn cn where kn: "cs ! n = (kn, cn)" by (cases "cs ! n")
  have dr: "drop n cs = (kn, cn) # drop (Suc n) cs" using kn z(2) by (metis Cons_nth_drop_Suc)
  have csn: "cs = take n cs @ (kn, cn) # drop (Suc n) cs" using kn z(2) id_take_nth_drop by metis
  have tn: "take n cs \<noteq> []" using z(2,3) by auto
  have b: "bound_ok (bt_valid t) (hole_lo C)" "bound_ok (bt_valid t) (hole_hi C)" using C(1) ctx_bounds_ok by (auto simp: ctx_ok_def)
  have w: "left_row (bt_lt t) (bt_valid t) (hole_lo C) (hole_hi C) (take n cs) kn" "within_row (bt_lt t) (bt_valid t) (Some kn) (hole_hi C) (drop n cs)"
    using C(2) lf.within_row_split [OF b, of "take n cs" kn cn "drop (Suc n) cs"] tn by (simp_all flip: csn dr)
  have fl: "forest_leaves cs = forest_leaves (take n cs) @ forest_leaves (drop n cs)" by (metis append_take_drop_id concat_append map_append)
  have fi: "forest_ids cs = forest_ids (take n cs) @ forest_ids (drop n cs)" by (metis append_take_drop_id forest_ids_simps(3))
  have "\<forall>(k, c) \<in> set (take n cs). sized t c" "\<forall>(k, c) \<in> set (drop n cs). sized t c" using z(1) by (auto dest: in_set_takeD in_set_dropD)
  moreover have "balanced (Suc m) (BNode P (take n cs))" "balanced (Suc m) (BNode Q (drop n cs))"
    using C(3) by (auto dest: in_set_takeD in_set_dropD)
  moreover have "distinct (page_ids (BNode P (take n cs)) @ page_ids (BNode Q (drop n cs)) @ ctx_ids C)" using D by (auto simp: fi)
  moreover have "chained (before C @ leaves (BNode P (take n cs)) @ leaves (BNode Q (drop n cs)) @ behind C) INVALID_PAGE_ID" using ch by (simp add: fl)
  ultimately show ?thesis
    using sh w tn I C(1) z(2,4,5) by (auto simp: split_hole_def kn fi left_row_def)
qed

text \<open>Every page of a tree carries its own number.\<close>

lemma shown_number: "shown t S (descs par T) \<Longrightarrow> x \<in> set (page_ids T) \<Longrightarrow> S x = Some d \<Longrightarrow> bp_GetPageId d = x"
  unfolding descs_ids_set [of par, symmetric] shown_def by (fastforce simp: page_is_def)

context bounded_pool
begin

text \<open>The two halves of a split are given back, both as changed.\<close>

lemma unpin_two:
  assumes ok: "bp_ok b" and h: "held W (\<lambda>x. one P x + one Q x) b b1" and W: "W \<subseteq> {x. 0 < pins b x} \<union> {P, Q}" and PQ: "P \<noteq> Q"
    and p: "pinned_at b1 P f" "pinned_at b1 Q g" and n: "bp_GetPageId (fdata b1 f) = P" "bp_GetPageId (fdata b1 g) = Q"
  obtains b2 b3 where "UnpinPage rops P True b1 = (b2, True)" "bp_GetPageId (fdata b2 g) = Q" "UnpinPage rops Q True b2 = (b3, True)"
    "runs {x. 0 < pins b x} b b3" "store b3 = store b1" "allocated (bpm_disk b3) = allocated (bpm_disk b1)"
proof -
  note nn = pins_nonneg [OF conjunct1 [OF ok]]
  obtain b2 where 2: "UnpinPage rops P True b1 = (b2, True)" "held (W - (if True then {P} else {})) (\<lambda>x. one P x + one Q x - one P x) b b2"
    "store b2 = store b1" "bpm_disk b2 = bpm_disk b1"
    by (rule held_Unpin [OF h, of P True]) (use nn PQ in auto)
  have h2: "held (W - {P}) (one Q) b b2" using 2(2) by simp
  obtain b3 where 3: "UnpinPage rops Q True b2 = (b3, True)" "held (W - {P} - (if True then {Q} else {})) (\<lambda>x. one Q x - one Q x) b b3"
    "store b3 = store b2" "bpm_disk b3 = bpm_disk b2"
    by (rule held_Unpin [OF h2, of Q True]) (use nn in auto)
  have pin: "0 < pins b1 P" using p(1) by (simp add: pinned_at_def)
  obtain b2' where "UnpinPage rops P True b1 = (b2', True)" "page_table b2' = page_table b1"
    by (rule session_Unpin [OF held_ok [OF h] pin disjI1 [OF TrueI]])
  then have "page_table b2 Q = Some g" using 2(1) p(2) by (simp add: pinned_at_def)
  then have "pinned_at b2 Q g" using h2 nn [of Q] by (auto simp: pinned_at_def held_def)
  then have "fdata b2 g = fdata b1 g"
    using pinned_at_data [OF held_ok [OF h] p(2)] fdata_store [OF held_ok [OF h2]] 2(3) by simp
  moreover have "runs {x. 0 < pins b x} b b3" using 3(2) W by (simp add: held_runs) (erule runs_mono, auto)
  ultimately show thesis using that 2 3 n by simp
qed

text \<open>The parent of the hole takes the second node in.\<close>

lemma parent_insert_law:
  assumes f: "bt_fits t" and ok: "bp_ok b" and pf: "pinned_at b (root_id L) f" and pg: "pinned_at b (root_id R) g"
    and H: "split_hole t (store b) ((P, ls, k, rs) # C) m key L R" and sp: "0 < spares b"
  defines "cs \<equiv> ls @ (k, L) # (key, R) # rs"
  obtains b1 h d b3 where "FetchPage rops dops (GetParentPageId (fdata b f)) b = Inr (b1, Some h)"
    "InsertNodeAfter (bp_GetPageId (fdata b1 f)) key (bp_GetPageId (fdata b1 g)) (fdata b1 h) = Inr (d, GetSize d)"
    "b3 = mod_frame g (SetParentPageId (bp_GetPageId (fdata (write_frame h d b1) h))) (write_frame h d b1)"
    "held {P, root_id R} (one P) b b3" "pinned_at b3 P h" "fdata b3 h = d" "GetSize d = int (length cs)" "GetMaxSize d = bt_internal_max_size t"
    "bp_GetPageId d = P" "shown t (store b3) (descs (hole_parent C) (BNode P cs))" "shown t (store b3) (ctx_descs P C)"
    "\<And>x. x \<noteq> P \<Longrightarrow> x \<noteq> root_id R \<Longrightarrow> store b3 x = store b x" "allocated (bpm_disk b3) = allocated (bpm_disk b)" "spares b \<le> Suc (spares b3)"
proof -
  let ?p = "root_id L" and ?q = "root_id R"
  note HH = H [unfolded split_hole_def]
  have sh: "shown t (store b) (descs P L)" "shown t (store b) (descs P R)" "shown t (store b) (forest_descs P ls)"
    "shown t (store b) (forest_descs P rs)" "shown t (store b) (ctx_descs P C)" using HH by simp_all
  have dist: "distinct (page_ids L @ page_ids R @ P # forest_ids ls @ forest_ids rs @ ctx_ids C)" using HH by simp
  have ne: "?p \<noteq> ?q" "?p \<noteq> P" "?q \<noteq> P" "?p \<notin> set (forest_ids ls)"
    using dist root_in_ids [of L] root_in_ids [of R] by (auto simp del: root_in_ids)
  have away: "P \<notin> set (page_ids L)" "?q \<notin> set (page_ids L)" "P \<notin> set (forest_ids ls)" "?q \<notin> set (forest_ids ls)" "P \<notin> set (forest_ids rs)"
    "?q \<notin> set (forest_ids rs)" "P \<notin> set (ctx_ids C)" "?q \<notin> set (ctx_ids C)" "P \<notin> set (page_ids R)"
    using dist root_in_ids [of R] by (auto simp del: root_in_ids)
  obtain dp where dp: "store b ?p = Some dp" "page_is t ?p (top_desc P L) dp" using sh(1) by (auto simp: descs_top)
  obtain dq where dq: "store b ?q = Some dq" "page_is t ?q (top_desc P R) dq" using sh(2) by (auto simp: descs_top)
  obtain dP where dP: "store b P = Some dP" "page_is t P (NodeD (hole_parent C) (child_ids ls @ (k, ?p) # child_ids rs)) dP" using HH by auto
  have par: "GetParentPageId (fdata b f) = P"
    using fdata_store [OF ok pf dp(1)] dp(2) by (auto simp: page_is_def top_desc_def split: bnode.splits)
  obtain b1 h where 1: "FetchPage rops dops P b = Inr (b1, Some h)" "held {} (one P) b b1" "pinned_at b1 P h" "fdata b1 h = dP"
    "store b1 = store b" "spares b \<le> Suc (spares b1)" "allocated (bpm_disk b1) = allocated (bpm_disk b)"
    by (rule held_Fetch [OF ok dP(1) sp])
  have nn: "0 \<le> one P x" for x by simp
  note ok1 = held_ok [OF 1(2)] and pf1 = pinned_at_held [OF 1(2) pf nn] and pg1 = pinned_at_held [OF 1(2) pg nn]
  have ids: "bp_GetPageId (fdata b1 f) = ?p" "bp_GetPageId (fdata b1 g) = ?q"
    using fdata_store [OF ok1 pf1] fdata_store [OF ok1 pg1] dp dq 1(5) by (simp_all add: page_is_def)
  have "?p \<notin> snd ` set (child_ids ls)" using ne(4) root_in_forest root_in_ids by fastforce
  moreover have "int (length (child_ids ls) + length (child_ids rs)) < bt_internal_max_size t" using HH by (simp add: ctx_ok_def)
  moreover have "length key = bt_key_size t" using HH by (simp add: key_valid_def)
  ultimately obtain d where d: "InsertNodeAfter ?p key ?q dP = Inr (d, GetSize d)"
    "page_is t P (NodeD (hole_parent C) (child_ids ls @ (k, ?p) # (key, ?q) # child_ids rs)) d"
    "GetSize d = int (length (child_ids ls) + length (child_ids rs) + 2)"
    by (rule node_page_insert [OF dP(2) f])
  define b2 where "b2 = write_frame h d b1"
  note S2 = step_write [OF ok1 1(3) page_is_length [OF d(2)], folded b2_def]
  have hd2: "fdata b2 h = d" by (rule fdata_store [OF S2(4) S2(5) [OF 1(3)]]) (simp add: S2(2))
  have dP': "bp_GetPageId d = P" using d(2) by (simp add: page_is_def)
  have q2: "store b2 ?q = Some dq" using S2(2) 1(5) dq(1) ne(3) by simp
  define b3 where "b3 = mod_frame g (SetParentPageId P) b2"
  note S3 = step_mod [where h = "SetParentPageId P", OF S2(4) S2(5) [OF pg1] q2 length_parent [OF page_is_length [OF dq(2)]], folded b3_def]
  have st3: "store b3 = (store b)(P \<mapsto> d, ?q \<mapsto> SetParentPageId P dq)" using S3(2) S2(2) 1(5) by simp
  have keep: "shown t (store b3) ds" if "shown t (store b) ds" "P \<notin> set (map fst ds)" "?q \<notin> set (map fst ds)" for ds
  proof (rule shown_cong [OF that(1)])
    fix x assume "x \<in> fst ` set ds"
    then have "x \<noteq> P" "x \<noteq> ?q" using that(2,3) by (metis set_map)+
    then show "store b3 x = store b x" by (simp add: st3)
  qed
  have "shown t (store b3) (descs P L)" "shown t (store b3) (forest_descs P ls)" "shown t (store b3) (forest_descs P rs)"
    and ctx: "shown t (store b3) (ctx_descs P C)"
    using keep sh away by (simp_all add: descs_ids forest_descs_ids ctx_descs_ids del: set_map)
  moreover have "shown t (store b3) (descs P R)"
    by (rule shown_reparent [OF sh(2) _ dq(1)]) (use st3 dist away in auto)
  ultimately have "shown t (store b3) (descs (hole_parent C) (BNode P cs))" using d(2) ne(3) by (simp add: cs_def st3)
  moreover have "held {P, ?q} (one P) b b3"
    by (rule held_mono [OF held_run [OF held_run [OF 1(2) S2(1) nn] S3(1) nn]]) auto
  moreover have pin: "pinned_at b3 P h" using S3(5) [OF S2(5) [OF 1(3)]] .
  moreover have "fdata b3 h = d" by (rule fdata_store [OF S3(4) pin]) (use st3 ne(3) in simp)
  moreover have "b3 = mod_frame g (SetParentPageId (bp_GetPageId (fdata (write_frame h d b1) h))) (write_frame h d b1)"
    by (simp add: b3_def b2_def [symmetric] hd2 dP')
  moreover have "spares b \<le> Suc (spares b3)" using 1(6) runsD(6) [OF S2(1)] runsD(6) [OF S3(1)] by simp
  ultimately show thesis
    using that [of b1 h d b3] 1(1,4,7) par ids d S2(3) S3(3) ctx st3 by (simp add: cs_def page_is_def)
qed

lemma IsRoot_top: "page_is t p (top_desc par T) d \<Longrightarrow> IsRootPage d \<longleftrightarrow> par = INVALID_PAGE_ID"
  by (auto simp: page_is_def top_desc_def IsRootPage_def split: bnode.splits)

lemma InsertIntoParent_law:
  assumes f: "bt_fits t" and "bp_ok b" "pinned_at b (root_id L) f" "pinned_at b (root_id R) g" "split_hole t (store b) C m key L R"
    "2 * length C < spares b" "quota (Suc (length C)) b" "roots_at (store b) M" "M (bt_index_id t) = Some (root_id (plug C L))"
    "bt_root_page_id t = root_id (plug C L)"
  shows "\<exists>b' t' T. InsertIntoParent rops dops f key g b t = Some (Inr (b', t')) \<and> runs {x. 0 < pins b x} b b' \<and>
    grown t (store b) M (set (page_ids L @ page_ids R @ ctx_ids C)) (before C @ leaves L @ leaves R @ behind C) (m + length C) (store b') t' T"
  using assms(2-)
proof (induction C arbitrary: b L R f g m key)
  case Nil
  note H = Nil.prems(4) [unfolded split_hole_def]
  obtain dp where dp: "store b (root_id L) = Some dp" "page_is t (root_id L) (top_desc INVALID_PAGE_ID L) dp" using H by (auto simp: descs_top)
  have root: "IsRootPage (fdata b f)" using fdata_store [OF Nil.prems(1,2) dp(1)] IsRoot_top [OF dp(2)] by simp
  have pre: "shown t (store b) (descs INVALID_PAGE_ID L)" "shown t (store b) (descs INVALID_PAGE_ID R)" "distinct (page_ids L @ page_ids R)"
    "INDEX_ROOTS_PAGE_ID \<notin> set (page_ids L @ page_ids R)" "length key = bt_key_size t" "0 < spares b" "quota 1 b"
    using H Nil.prems(5,6) by (simp_all add: key_valid_def)
  have pre': "M (bt_index_id t) \<noteq> None" using Nil.prems(8) by simp
  obtain b' r k0 where 1: "new_internal_root rops dops f key g (b, t) = Inr (b', t\<lparr>bt_root_page_id := r\<rparr>)"
    "runs {root_id L, root_id R} b b'" "store b r = None" "r \<noteq> INVALID_PAGE_ID"
    "shown t (store b') (descs INVALID_PAGE_ID (BNode r [(k0, L), (key, R)]))"
    "roots_at (store b') (M(bt_index_id t \<mapsto> r))"
    "\<And>x. x \<notin> {r, root_id L, root_id R, INDEX_ROOTS_PAGE_ID} \<Longrightarrow> store b' x = store b x"
    by (rule new_root_law [OF f Nil.prems(1-3) pre Nil.prems(7) pre']) (rule that; assumption)
  have "runs {x. 0 < pins b x} b b'" by (rule runs_mono [OF 1(2)]) (use Nil.prems(2,3) in \<open>auto simp: pinned_at_def\<close>)
  moreover have "InsertIntoParent rops dops f key g b t = Some (Inr (b', t\<lparr>bt_root_page_id := r\<rparr>))"
    using root 1(1) by (subst InsertIntoParent.simps) simp
  moreover have "grown t (store b) M (set (page_ids L @ page_ids R)) (leaves L @ leaves R) m (store b') (t\<lparr>bt_root_page_id := r\<rparr>) (BNode r [(k0, L), (key, R)])"
    by (rule split_root [OF Nil.prems(4) f 1(5,3,4) Nil.prems(7) 1(6,7)])
  ultimately show ?case by auto
next
  case (Cons x C)
  obtain P ls k rs where x: "x = (P, ls, k, rs)" by (cases x)
  define cs where "cs = ls @ (k, L) # (key, R) # rs"
  note H = Cons.prems(4) [unfolded x]
  note HH = H [unfolded split_hole_def] and row = parent_row [OF H, folded cs_def]
  have ok: "bp_ok b" by (rule Cons.prems(1))
  have sp0: "0 < spares b" using Cons.prems(5) by simp
  obtain dp where dp: "store b (root_id L) = Some dp" "page_is t (root_id L) (top_desc P L) dp" using HH by (auto simp: descs_top)
  have "P \<noteq> INVALID_PAGE_ID" using HH by auto
  then have nroot: "\<not> IsRootPage (fdata b f)" using fdata_store [OF ok Cons.prems(2) dp(1)] IsRoot_top [OF dp(2)] by simp
  obtain b1 h d b3 where 1: "FetchPage rops dops (GetParentPageId (fdata b f)) b = Inr (b1, Some h)"
    "InsertNodeAfter (bp_GetPageId (fdata b1 f)) key (bp_GetPageId (fdata b1 g)) (fdata b1 h) = Inr (d, GetSize d)"
    "b3 = mod_frame g (SetParentPageId (bp_GetPageId (fdata (write_frame h d b1) h))) (write_frame h d b1)"
    "held {P, root_id R} (one P) b b3" "pinned_at b3 P h" "fdata b3 h = d" "GetSize d = int (length cs)" "GetMaxSize d = bt_internal_max_size t"
    "bp_GetPageId d = P" "shown t (store b3) (descs (hole_parent C) (BNode P cs))" "shown t (store b3) (ctx_descs P C)"
    "\<And>x. x \<noteq> P \<Longrightarrow> x \<noteq> root_id R \<Longrightarrow> store b3 x = store b x" "allocated (bpm_disk b3) = allocated (bpm_disk b)" "spares b \<le> Suc (spares b3)"
    by (rule parent_insert_law [OF f ok Cons.prems(2,3) H sp0, folded cs_def]) (rule that; assumption)
  have pq: "0 < pins b (root_id R)" using Cons.prems(3) by (simp add: pinned_at_def)
  have IDS: "set (page_ids (BNode P cs)) \<union> set (ctx_ids C) = set (page_ids L @ page_ids R @ ctx_ids (x # C))"
    using mset_eq_setD [OF row(8)] by (simp add: x)
  have D: "distinct (page_ids (BNode P cs) @ ctx_ids C)"
    using mset_eq_imp_distinct_iff [OF row(8)] HH by simp
  have inI: "INVALID_PAGE_ID \<notin> set (page_ids (BNode P cs)) \<union> set (ctx_ids C)" "INDEX_ROOTS_PAGE_ID \<notin> set (page_ids (BNode P cs)) \<union> set (ctx_ids C)"
    unfolding IDS using HH by (auto simp: x)
  have rid: "root_id R \<in> set (page_ids (BNode P cs))" by (simp add: cs_def)
  have out3: "store b3 y = store b y" if "y \<notin> set (page_ids (BNode P cs))" for y using 1(12) [of y] that rid by (auto simp del: page_ids_simps simp: page_ids_top)
  have out: "store b3 y = store b y" if "y \<notin> set (page_ids L @ page_ids R @ ctx_ids (x # C))" for y
    using out3 [of y] that unfolding IDS [symmetric] by blast
  have root_eq: "root_id (plug (x # C) L) = root_id (plug C (BNode P cs))" by (simp add: x) (rule plug_root_cong, simp)
  have M3: "roots_at (store b3) M" using Cons.prems(7) out3 [of INDEX_ROOTS_PAGE_ID] inI by (simp add: roots_at_def)
  have len: "cs \<noteq> []" by (simp add: cs_def)
  have chain: "chained (before C @ forest_leaves cs @ behind C) INVALID_PAGE_ID" unfolding row(7) using HH by simp
  let ?S = "store b" and ?ids = "set (page_ids L @ page_ids R @ ctx_ids (x # C))"
    and ?lv = "before (x # C) @ leaves L @ leaves R @ behind (x # C)"
  have lv: "before C @ forest_leaves cs @ behind C = ?lv" using row(7) by (simp add: x)
  have rec: "InsertIntoParent rops dops f key g b t =
     (if GetSize d \<le> GetMaxSize d then Some (Inr (fst (UnpinPage rops P True b3), t))
      else bind_run (Some (SplitInternal rops dops h (b3, t))) (\<lambda>(b, new_internal).
           bind_run (InsertIntoParent rops dops h (internal_KeyAt (fdata b new_internal) 0) new_internal b t) (\<lambda>(b, t).
           let b' = fst (UnpinPage rops (bp_GetPageId (fdata b h)) True b);
               b'' = fst (UnpinPage rops (bp_GetPageId (fdata b' new_internal)) True b')
           in Some (Inr (b'', t)))))"
    using nroot 1(1,2) 1(3) [symmetric] 1(6,9) by (subst InsertIntoParent.simps) (simp add: Let_def)
  show ?case
  proof (cases "GetSize d \<le> GetMaxSize d")
    case True
    obtain b4 where 4: "UnpinPage rops P True b3 = (b4, True)" "held ({P, root_id R} - (if True then {P} else {})) (\<lambda>x. one P x - one P x) b b4"
      "store b4 = store b3" "bpm_disk b4 = bpm_disk b3"
      by (rule held_Unpin [OF 1(4), of P True]) (use pins_nonneg [OF conjunct1 [OF ok]] in auto)
    have "runs {x. 0 < pins b x} b b4" using 4(2) pq by (simp add: held_runs) (erule runs_mono, auto)
    moreover let ?T = "plug C (BNode P cs)"
    have "tree_at t (store b4) (m + length (x # C)) ?T"
    proof -
      have "balanced (Suc m + length C) ?T" using plug_balanced [OF _ row(2)] row(5) by (simp add: ctx_ok_def)
      moreover have "sized t ?T" using plug_sized [of t C "BNode P cs"] row(3,5) True len 1(7,8) by (simp add: ctx_ok_def)
      moreover have "within (bt_lt t) (bt_valid t) None None ?T"
        using lf.ctx_plug_within row(1,5) by (simp add: ctx_ok_def)
      moreover have "distinct (page_ids ?T)" using D by (simp add: plug_distinct)
      ultimately show ?thesis
        using Cons.prems(9) root_eq 1(10,11) inI chain by (simp add: tree_at_def 4(3) plug_shown plug_leaves plug_ids_set)
    qed
    then have "grown t ?S M ?ids ?lv (m + length (x # C)) (store b4) t ?T"
      using out Cons.prems(7-9) root_eq M3 plug_leaves [of C "BNode P cs"] lv
      by (simp add: grown_def 4(3) plug_ids_set IDS fun_upd_idem del: page_ids_simps(2))
    ultimately show ?thesis using rec True 4(1) by auto
  next
    case False
    have ok3: "bp_ok b3" by (rule held_ok [OF 1(4)])
    have len3: "length cs = nat (bt_internal_max_size t) + 1" using False row(4) 1(7,8) bt_fitsD(2) [OF f] by simp
    have sp3: "2 * length C + 1 < spares b3" using Cons.prems(5) 1(14) by simp
    have q3: "quota (Suc (Suc (length C))) b3" using Cons.prems(6) quota_eq [OF 1(13)] by simp
    have dist3: "distinct (page_ids (BNode P cs))" using D by simp
    define n where "n = length cs div 2"
    have sp3': "1 < spares b3" using sp3 by simp
    have q3': "quota 1 b3" by (rule quota_less [OF q3]) simp
    obtain b4 h4 Q where 4: "SplitInternal rops dops h (b3, t) = Inr (b4, h4)" "held {x. 0 < pins b3 x \<or> x = Q} (one Q) b3 b4"
      "pinned_at b4 P h" "pinned_at b4 Q h4" "store b3 Q = None" "Q \<noteq> INVALID_PAGE_ID"
      "shown t (store b4) (descs (hole_parent C) (BNode P (take n cs)))" "shown t (store b4) (descs (hole_parent C) (BNode Q (drop n cs)))"
      "\<And>x. x \<notin> set (page_ids (BNode P cs)) \<Longrightarrow> x \<noteq> Q \<Longrightarrow> store b4 x = store b3 x" "allocated (bpm_disk b4) = insert Q (allocated (bpm_disk b3))"
      "spares b3 \<le> Suc (spares b4)"
      by (rule SplitInternal_law [OF f ok3 1(5) 1(10) dist3 len3 sp3' q3', folded n_def]) (rule that; assumption)
    have nl: "n < length cs" "0 < n" "int n \<le> bt_internal_max_size t" "int (length cs - n) \<le> bt_internal_max_size t"
      using len3 bt_fitsD(2) [OF f] by (simp_all add: n_def)
    let ?L = "BNode P (take n cs)" and ?R = "BNode Q (drop n cs)" and ?k = "fst (cs ! n)"
    have Qn: "Q \<notin> set (page_ids (BNode P cs)) \<union> set (ctx_ids C)"
      using 4(5) shown_ids [OF 1(10), of Q] 1(11) unfolding shown_def ctx_descs_ids [of P, symmetric] by fastforce
    have QR: "Q \<noteq> INDEX_ROOTS_PAGE_ID" using 4(5) M3 by (auto simp: roots_at_def)
    have ids4: "set (page_ids ?L @ page_ids ?R @ ctx_ids C) = insert Q (set (page_ids (BNode P cs)) \<union> set (ctx_ids C))"
      using forest_ids_simps(3) [of "take n cs" "drop n cs"] by auto
    have out4: "store b4 y = store b3 y" if "y \<notin> set (page_ids (BNode P cs))" "y \<noteq> Q" for y using 4(9) that by blast
    have ctx4: "shown t (store b4) (ctx_descs P C)"
    proof (rule shown_cong [OF 1(11)])
      fix y assume "y \<in> fst ` set (ctx_descs P C)"
      then have "y \<in> set (ctx_ids C)" by (simp flip: ctx_descs_ids [of P C])
      then show "store b4 y = store b3 y" using out4 [of y] D Qn by auto
    qed
    have H4: "split_hole t (store b4) C (Suc m) ?k ?L ?R"
      by (rule split_up [OF 4(7,8) ctx4 D Qn _ _ row(5,1,2,3) nl chain]) (use inI 4(6) QR in auto)
    have root4: "root_id (plug C ?L) = root_id (plug (x # C) L)" unfolding root_eq by (rule plug_root_cong) simp
    have key4: "internal_KeyAt (fdata b4 h4) 0 = ?k"
    proof -
      obtain dQ where dQ: "store b4 Q = Some dQ" "page_is t Q (NodeD (hole_parent C) (child_ids (drop n cs))) dQ" using 4(8) by auto
      have e: "internal_entries dQ = child_ids (drop n cs)" using dQ(2) by (simp add: page_is_def)
      then have "0 < nat (GetSize dQ)" using nl(1) internal_entries_length [of dQ] by simp
      then have "internal_KeyAt dQ 0 = fst (internal_entries dQ ! 0)" by (simp add: internal_entries_def)
      then show ?thesis using e nl(1) fdata_store [OF held_ok [OF 4(2)] 4(4) dQ(1)] by (simp add: split_def)
    qed
    have M4: "roots_at (store b4) M" using M3 out4 [of INDEX_ROOTS_PAGE_ID] inI QR by (simp add: roots_at_def)
    have pre: "2 * length C < spares b4" "quota (Suc (length C)) b4" "pinned_at b4 (root_id ?L) h" "pinned_at b4 (root_id ?R) h4"
      using sp3 4(3,4,11) quota_step [OF q3 4(10)] by simp_all
    obtain b5 t' T where 5: "InsertIntoParent rops dops h ?k h4 b4 t = Some (Inr (b5, t'))" "runs {x. 0 < pins b4 x} b4 b5"
      "grown t (store b4) M (set (page_ids ?L @ page_ids ?R @ ctx_ids C)) (before C @ leaves ?L @ leaves ?R @ behind C) (Suc m + length C) (store b5) t' T"
      using Cons.IH [OF held_ok [OF 4(2)] pre(3,4) H4 pre(1,2) M4] Cons.prems(8,9) root4 by auto
    have PQ: "P \<noteq> Q" using Qn by auto
    have nnP: "0 \<le> one P x" "0 \<le> one P x + one Q x" for x by (simp_all add: one_def)
    note h4 = held_trans [OF 1(4) 4(2) nnP(1)]
    have h5: "held ({P, root_id R} \<union> {x. 0 < pins b3 x \<or> x = Q} \<union> {x. 0 < pins b4 x}) (\<lambda>x. one P x + one Q x) b b5"
      by (rule held_run [OF h4 5(2) nnP(2)])
    have W: "{P, root_id R} \<union> {x. 0 < pins b3 x \<or> x = Q} \<union> {x. 0 < pins b4 x} \<subseteq> {x. 0 < pins b x} \<union> {P, Q}"
      using 1(4) h4 pq by (auto simp: held_def one_def split: if_splits)
    have p5: "pinned_at b5 P h" "pinned_at b5 Q h4" using pinned_at_runs [OF 5(2)] 4(3,4) by blast+
    have sh5: "shown t (store b5) (descs INVALID_PAGE_ID T)" and inT: "{P, Q} \<subseteq> set (page_ids T)" using 5(3) by (auto simp: grown_def tree_at_def)
    have num: "bp_GetPageId (fdata b5 h) = P" "bp_GetPageId (fdata b5 h4) = Q"
      using shown_number [OF sh5] inT pinned_at_data [OF held_ok [OF h5]] p5 by auto
    obtain b6 b7 where 7: "UnpinPage rops P True b5 = (b6, True)" "bp_GetPageId (fdata b6 h4) = Q" "UnpinPage rops Q True b6 = (b7, True)"
      "runs {x. 0 < pins b x} b b7" "store b7 = store b5" "allocated (bpm_disk b7) = allocated (bpm_disk b5)"
      by (rule unpin_two [OF ok h5 W PQ p5 num])
    have "grown t ?S M ?ids ?lv (m + length (x # C)) (store b7) t' T"
    proof -
      have e: "forest_leaves cs = forest_leaves (take n cs) @ forest_leaves (drop n cs)" by (metis append_take_drop_id concat_append map_append)
      have "before C @ leaves ?L @ leaves ?R @ behind C = ?lv" using lv unfolding e by simp
      then have g: "grown t (store b4) M (insert Q ?ids) ?lv (m + length (x # C)) (store b7) t' T"
        using 5(3) 7(5) unfolding ids4 IDS by simp
      show ?thesis
      proof (rule grown_step [OF g])
        show "?ids \<subseteq> insert Q ?ids" by blast
        show "store b4 y = store b y" if "y \<notin> insert Q ?ids" for y
          using that out4 [of y] out [of y] unfolding IDS [symmetric] by auto
        show "store b y = None" if "y \<in> insert Q ?ids - ?ids" for y using that 4(5) out [of y] by auto
      qed
    qed
    moreover have "InsertIntoParent rops dops f key g b t = Some (Inr (b7, t'))"
      unfolding rec using False 4(1) key4 5(1) num 7(1-3) by (simp add: Let_def)
    ultimately show ?thesis using 7(4) by blast
  qed
qed

end

end
