(* ===== verification/Tree_Update.thy ===== *)
theory Tree_Update
  imports Tree_Grow
begin

text \<open>
  \<^verbatim>\<open>Insert\<close> of the B+ tree on the buffer pool: a first leaf for an empty tree, a pair for a leaf with room, and the split of a full
  leaf. On the pairs of the tree it is the insertion into a sorted association list.
\<close>

section \<open>Leaves\<close>

lemma set_assoc_insert: "set (assoc_insert lt key v es) \<subseteq> insert (key, v) (set es)"
  by (auto simp: assoc_insert_def dest: set_takeWhileD set_dropWhileD)

lemma length_assoc_insert: "length (assoc_insert lt key v es) = (if assoc_find lt es key = None then Suc (length es) else length es)"
  using takeWhile_dropWhile_id [of "\<lambda>e. lt (fst e) key" es, THEN arg_cong, of length] by (auto simp: assoc_insert_def simp del: takeWhile_dropWhile_id)

lemma leaf_fits_insert:
  assumes "fits_hole t C (BLeaf p es nx)" "route t (Some key) C"
  shows "fits_hole t C (BLeaf p (assoc_insert (bt_lt t) key v es) nx)"
  using assms km.insert_sorted [of "bt_processor t" es key v] set_assoc_insert [of "bt_lt t" key v es]
  by (fastforce simp: route_def)

text \<open>A sorted list between two bounds, cut into two.\<close>

lemma cut_within:
  assumes so: "key_sorted (bt_lt t) es" "valid_keys (bt_valid t) es" "\<forall>(k, v) \<in> set es. above_lo (bt_lt t) lo k \<and> under_hi (bt_lt t) k hi"
    and lo: "bound_ok (bt_valid t) lo" and len: "0 < s" "s < length es"
  shows "within (bt_lt t) (bt_valid t) lo (Some (fst (es ! s))) (BLeaf p (take s es) nx)"
    "within (bt_lt t) (bt_valid t) (Some (fst (es ! s))) hi (BLeaf q (drop s es) ny)"
    "bt_valid t (fst (es ! s))" "strict_lo (bt_lt t) lo (fst (es ! s))" "under_hi (bt_lt t) (fst (es ! s)) hi"
proof -
  have v: "bt_valid t (fst (es ! i))" "above_lo (bt_lt t) lo (fst (es ! i))" "under_hi (bt_lt t) (fst (es ! i)) hi" if "i < length es" for i
    using km.valid_nth [OF so(2) that] so(3) nth_mem [OF that] by (auto simp: split_def)
  have lt: "bt_lt t (fst (es ! i)) (fst (es ! j))" if "i < j" "j < length es" for i j by (rule km.sorted_nth [OF so(1) that])
  show "strict_lo (bt_lt t) lo (fst (es ! s))"
  proof (cases lo)
    case (Some l)
    have "bt_lt t l (fst (es ! s))"
      by (rule km.above_lt2 [of _ l "fst (es ! 0)"]) (use lo v [OF less_trans [OF len]] v [OF len(2)] lt [OF len] Some in auto)
    then show ?thesis using Some by simp
  qed simp
  have nle: "\<not> bt_lt t (fst (es ! i)) (fst (es ! s))" if "s \<le> i" "i < length es" for i
    using that lt [of s i] km.lt_asym [OF v(1) v(1), of s i] km.lt_asym [OF v(1) v(1), of s s] by (cases "i = s") auto
  have L: "above_lo (bt_lt t) lo (fst e) \<and> bt_lt t (fst e) (fst (es ! s))" if "e \<in> set (take s es)" for e
    using that lt [OF _ len(2)] v(2) len(2) by (auto simp: in_set_conv_nth)
  have R: "\<not> bt_lt t (fst e) (fst (es ! s)) \<and> under_hi (bt_lt t) (fst e) hi" if "e \<in> set (drop s es)" for e
    using that nle v(3) by (auto simp: in_set_conv_nth)
  show "within (bt_lt t) (bt_valid t) lo (Some (fst (es ! s))) (BLeaf p (take s es) nx)"
    using so(1,2) L by (auto simp: key_sorted_def valid_keys_def sorted_wrt_take list_all_iff split_def dest: in_set_takeD)
  show "within (bt_lt t) (bt_valid t) (Some (fst (es ! s))) hi (BLeaf q (drop s es) ny)"
    using so(1,2) R by (auto simp: key_sorted_def valid_keys_def sorted_wrt_drop list_all_iff split_def dest: in_set_dropD)
  show "bt_valid t (fst (es ! s))" "under_hi (bt_lt t) (fst (es ! s)) hi" using v len(2) by simp_all
qed

text \<open>The halves of a full leaf, in the hole of the leaf.\<close>

lemma leaf_split_hole:
  assumes T: "tree_at t S n (plug C (BLeaf p es0 nx))" "ctx_ok t 0 C" and es: "fits_hole t C (BLeaf p es nx)"
    and n: "length es = nat (bt_leaf_max_size t) + 1" "bt_fits t"
    and Q: "S Q = None" "Q \<noteq> INVALID_PAGE_ID" "Q \<noteq> INDEX_ROOTS_PAGE_ID"
    and d: "page_is t p (LeafD (hole_parent C) (take s es) Q) d" "page_is t Q (LeafD (hole_parent C) (drop s es) nx) r"
    and S': "S' = S(p \<mapsto> d, Q \<mapsto> r)" and s: "s = length es div 2"
  shows "split_hole t S' C 0 (fst (es ! s)) (BLeaf p (take s es) Q) (BLeaf Q (drop s es) nx)"
proof -
  note TT = T(1) [unfolded tree_at_def plug_shown plug_distinct plug_ids_set plug_leaves]
  have len: "0 < s" "s < length es" "int s \<le> bt_leaf_max_size t" "int (length es - s) \<le> bt_leaf_max_size t"
    using n(1) bt_fitsD(1) [OF n(2)] by (simp_all add: s)
  have Qn: "Q \<noteq> p" "Q \<notin> set (ctx_ids C)"
    using TT Q(1) unfolding shown_def ctx_descs_ids [of p, symmetric] by fastforce+
  have ctx: "shown t S' (ctx_descs p C)"
  proof (rule shown_cong)
    show "shown t S (ctx_descs p C)" using TT by simp
    fix y assume "y \<in> fst ` set (ctx_descs p C)"
    then have "y \<in> set (ctx_ids C)" by (simp flip: ctx_descs_ids [of p C])
    then show "S' y = S y" using TT Qn by (auto simp: S')
  qed
  have so: "key_sorted (bt_lt t) es" "valid_keys (bt_valid t) es" "\<forall>(k, v) \<in> set es. above_lo (bt_lt t) (hole_lo C) k \<and> under_hi (bt_lt t) k (hole_hi C)"
    using es by simp_all
  have hk: "bound_ok (bt_valid t) (hole_lo C)" using T(2) ctx_bounds_ok by (auto simp: ctx_ok_def)
  note W = cut_within [OF so hk len(1,2)]
  have "chained (before C @ [(p, take s es, Q), (Q, drop s es, nx)] @ behind C) INVALID_PAGE_ID"
    using TT by (auto simp: chained_append first_or_def)
  then show ?thesis using TT T(2) ctx d W(1) [of p Q] W(2) [of Q nx] W(3-5) Q Qn len by (simp add: split_hole_def S')
qed

text \<open>A leaf is replaced by one with other pairs.\<close>

lemma leaf_tree:
  assumes T: "tree_at t S n (plug C (BLeaf p es0 nx))" "ctx_ok t 0 C" "length C = n" and es: "fits_hole t C (BLeaf p es nx)" "sized t (BLeaf p es nx)"
    and d: "page_is t p (LeafD (hole_parent C) es nx) d" and S': "S' = S(p \<mapsto> d)"
  shows "tree_at t S' n (plug C (BLeaf p es nx))" "set (page_ids (plug C (BLeaf p es nx))) = set (page_ids (plug C (BLeaf p es0 nx)))"
    "p \<in> set (page_ids (plug C (BLeaf p es nx)))" "p \<noteq> INDEX_ROOTS_PAGE_ID"
proof -
  note TT = T(1) [unfolded tree_at_def plug_shown plug_distinct plug_ids_set plug_leaves]
  let ?T = "plug C (BLeaf p es nx)"
  have root: "root_id ?T = bt_root_page_id t" using TT plug_root_cong [of "BLeaf p es nx" "BLeaf p es0 nx" C] by simp
  have "shown t S' (ctx_descs p C)"
  proof (unfold S', rule shown_upd)
    show "shown t S (ctx_descs p C)" using TT by simp
    show "p \<notin> fst ` set (ctx_descs p C)" using TT ctx_descs_ids [of p C] by (simp flip: set_map)
  qed
  moreover have "balanced n ?T" "sized t ?T" "within (bt_lt t) (bt_valid t) None None ?T"
    using plug_balanced [of 0 C "BLeaf p es nx"] plug_sized [of t C "BLeaf p es nx"] lf.ctx_plug_within T(2,3) es by (simp_all add: ctx_ok_def)
  moreover have "chained (before C @ [(p, es, nx)] @ behind C) INVALID_PAGE_ID" using TT by (auto simp: chained_append first_or_def)
  ultimately show "tree_at t S' n ?T" using TT d root by (simp add: tree_at_def plug_shown plug_distinct plug_ids_set plug_leaves S')
  show "p \<in> set (page_ids ?T)" "p \<noteq> INDEX_ROOTS_PAGE_ID" "set (page_ids ?T) = set (page_ids (plug C (BLeaf p es0 nx)))"
    using TT by (auto simp: plug_ids_set)
qed

lemma leaf_replace:
  assumes T: "tree_at t S n (plug C (BLeaf p es0 nx))" "ctx_ok t 0 C" "length C = n" and es: "fits_hole t C (BLeaf p es nx)" "sized t (BLeaf p es nx)"
    and d: "page_is t p (LeafD (hole_parent C) es nx) d" and S': "S' = S(p \<mapsto> d)" and M: "roots_at S M" "M (bt_index_id t) = Some (bt_root_page_id t)"
  shows "grown t S M (set (page_ids (plug C (BLeaf p es0 nx)))) (leaves (plug C (BLeaf p es nx))) n S' t (plug C (BLeaf p es nx))"
proof -
  note L = leaf_tree [OF T es d S']
  show ?thesis using L M unfolding grown_def L(2) [symmetric] by (auto simp: S' roots_at_def fun_upd_idem tree_at_def)
qed

context bounded_pool
begin

lemma SplitLeaf_law:
  assumes f: "bt_fits t" and ok: "bp_ok b" and pf: "pinned_at b p f" and d: "store b p = Some d" "page_is t p (LeafD par es nx) d"
    and n: "length es \<le> nat (bt_leaf_max_size t) + 1" and sp: "0 < spares b" and q: "quota 1 b"
  defines "s \<equiv> length es div 2"
  obtains b' g Q d' r' where "SplitLeaf rops dops f (b, t) = Inr (b', g)" "held {p, Q} (one Q) b b'" "pinned_at b' p f" "pinned_at b' Q g"
    "store b Q = None" "Q \<noteq> INVALID_PAGE_ID" "store b' = (store b)(p \<mapsto> d', Q \<mapsto> r')"
    "page_is t p (LeafD par (take s es) Q) d'" "page_is t Q (LeafD par (drop s es) nx) r'"
    "allocated (bpm_disk b') = insert Q (allocated (bpm_disk b))" "spares b \<le> Suc (spares b')"
proof -
  obtain b1 g Q where 1: "NewPage rops dops b = Inr (b1, Some (g, Q))" "held {Q} (one Q) b b1" "pinned_at b1 Q g" "fdata b1 g = zero_page"
    "store b Q = None" "Q \<noteq> INVALID_PAGE_ID" "store b1 = (store b)(Q \<mapsto> zero_page)" "spares b \<le> Suc (spares b1)"
    "allocated (bpm_disk b1) = insert Q (allocated (bpm_disk b))"
    by (rule held_New [OF ok quota_room [OF ok] sp]) (use q in simp)
  have Qp: "Q \<noteq> p" using 1(5) d(1) by auto
  have nn: "0 \<le> one Q x" for x by simp
  note ok1 = held_ok [OF 1(2)] and pf1 = pinned_at_held [OF 1(2) pf nn]
  have st1: "store b1 p = Some d" "store b1 Q = Some zero_page" using 1(7) d(1) Qp by simp_all
  have fd1: "fdata b1 f = d" "GetParentPageId d = par" using fdata_store [OF ok1 pf1 st1(1)] d(2) by (simp_all add: page_is_def)
  define ini where "ini = leaf_Init Q par (int (bt_key_size t)) (bt_leaf_max_size t) zero_page"
  have ini: "page_is t Q (LeafD par [] INVALID_PAGE_ID) ini" unfolding ini_def by (rule new_leaf_page [OF f])
  define b2 where "b2 = mod_frame g (leaf_Init Q par (int (bt_key_size t)) (bt_leaf_max_size t)) b1"
  note S2 = step_mod [where h = "leaf_Init Q par (int (bt_key_size t)) (bt_leaf_max_size t)", OF ok1 1(3) st1(2), folded ini_def b2_def,
      OF page_is_length [OF ini]]
  have st2: "store b2 p = Some d" "store b2 Q = Some ini" using S2(2) st1 Qp by simp_all
  have fd2: "fdata b2 f = d" "fdata b2 g = ini"
    using fdata_store [OF S2(4) S2(5) [OF pf1] st2(1)] fdata_store [OF S2(4) S2(5) [OF 1(3)] st2(2)] by simp_all
  obtain d' r' where m: "leaf_MoveHalfTo d ini = Inr (d', r')" "page_is t p (LeafD par (take s es) Q) d'"
    "page_is t Q (LeafD par (drop s es) nx) r'"
    unfolding s_def by (rule leaf_page_split [OF d(2) ini f n])
  note S3 = step_write [OF S2(4) S2(5) [OF pf1] page_is_length [OF m(2)]]
  note S4 = step_write [OF S3(4) S3(5) [OF S2(5) [OF 1(3)]] page_is_length [OF m(3)]]
  let ?b = "write_frame g r' (write_frame f d' b2)"
  have "SplitLeaf rops dops f (b, t) = Inr (?b, g)" using 1(1) m(1) by (simp add: SplitLeaf_def Let_def fd1 fd2 flip: b2_def)
  moreover have "held {p, Q} (one Q) b ?b"
    by (rule held_mono [OF held_run [OF held_run [OF held_run [OF 1(2) S2(1) nn] S3(1) nn] S4(1) nn]]) auto
  moreover have "store ?b = (store b)(p \<mapsto> d', Q \<mapsto> r')" using S4(2) S3(2) S2(2) 1(7) Qp by (simp add: fun_upd_twist)
  moreover have "allocated (bpm_disk ?b) = insert Q (allocated (bpm_disk b))" using S4(3) S3(3) S2(3) 1(9) by simp
  moreover have "spares b \<le> Suc (spares ?b)" using 1(8) runsD(6) [OF S2(1)] runsD(6) [OF S3(1)] runsD(6) [OF S4(1)] by simp
  ultimately show thesis
    using that [of ?b g Q d' r'] S4(5) [OF S3(5) [OF S2(5) [OF pf1]]] S4(5) [OF S3(5) [OF S2(5) [OF 1(3)]]] 1(5,6) m(2,3) by simp
qed

text \<open>The pairs of a leaf take the new one in, and so do those of the tree.\<close>

lemma leaf_insert_pairs:
  assumes "ctx_ok t n C" "route t (Some key) C"
  shows "assoc_find (bt_lt t) (tree_pairs (plug C (BLeaf p es nx))) key = assoc_find (bt_lt t) es key"
    "leaf_pairs (before C) @ assoc_insert (bt_lt t) key v es @ leaf_pairs (behind C) =
       assoc_insert (bt_lt t) key v (tree_pairs (plug C (BLeaf p es nx)))"
proof -
  have r: "bt_valid t key" "above_lo (bt_lt t) (hole_lo C) key" "under_hi (bt_lt t) key (hole_hi C)" and cw: "ctx_within (bt_lt t) (bt_valid t) C"
    using assms by (simp_all add: route_def ctx_ok_def)
  note P = lf.ctx_pairs [OF cw r]
  show "assoc_find (bt_lt t) (tree_pairs (plug C (BLeaf p es nx))) key = assoc_find (bt_lt t) es key"
    using km.assoc_find_middle [OF P] by (simp add: tree_pairs_def plug_leaves)
  show "leaf_pairs (before C) @ assoc_insert (bt_lt t) key v es @ leaf_pairs (behind C) =
       assoc_insert (bt_lt t) key v (tree_pairs (plug C (BLeaf p es nx)))"
    using km.assoc_insert_middle [OF P r(1)] by (simp add: tree_pairs_def plug_leaves)
qed

lemma InsertIntoLeaf_law:
  assumes f: "bt_fits t" and T: "tree_at t (store b) n T" and ok: "bp_ok b" and key: "bt_valid t key"
    and cl: "unsaved b \<inter> set (page_ids T) = {}" and sp: "2 * n + 2 < spares b" and q: "quota (Suc (Suc n)) b"
    and M: "roots_at (store b) M" "M (bt_index_id t) = Some (bt_root_page_id t)"
  shows "\<exists>b' t' T'. InsertIntoLeaf rops dops key v (b, t) = Some (Inr ((b', t'), assoc_find (bt_lt t) (tree_pairs T) key = None)) \<and>
    runs {x. 0 < pins b x} b b' \<and> grown t (store b) M (set (page_ids T)) (leaves T') n (store b') t' T' \<and>
    tree_pairs T' = assoc_insert (bt_lt t) key v (tree_pairs T) \<and>
    (assoc_find (bt_lt t) (tree_pairs T) key \<noteq> None \<longrightarrow> store b' = store b \<and> t' = t) \<and>
    (int (length (tree_pairs T)) < bt_leaf_max_size t \<longrightarrow> tree_at t' (store b') n T')"
proof -
  note nn = pins_nonneg [OF conjunct1 [OF ok]]
  have key': "Some key = None \<or> (\<exists>k. Some key = Some k \<and> bt_valid t k)" using key by simp
  have sp0: "0 < spares b" using sp by simp
  obtain b1 g C p es nx where 1: "FindLeafPage rops dops (Some key) (b, t) = Some (Inr (b1, Some g))" "plug C (BLeaf p es nx) = T" "length C = n"
    "ctx_ok t 0 C" "fits_hole t C (BLeaf p es nx)" "sized t (BLeaf p es nx)" "route t (Some key) C"
    "held {} (one p) b b1" "pinned_at b1 p g" "store b1 = store b" "allocated (bpm_disk b1) = allocated (bpm_disk b)"
    by (rule FindLeafPage_law [OF T ok key' cl sp0])
  note ok1 = held_ok [OF 1(8)] and T1 = T [folded 1(2)]
  have sh: "shown t (store b) (descs INVALID_PAGE_ID (plug C (BLeaf p es nx)))" using T1 by (simp add: tree_at_def)
  obtain d where d: "store b p = Some d" "page_is t p (LeafD (hole_parent C) es nx) d" using plug_top_page [OF sh] by (auto simp: top_desc_def)
  have fd: "fdata b1 g = d" using fdata_store [OF ok1 1(9)] 1(10) d(1) by simp
  have D: "bp_GetPageId d = p" "leaf_entries d = es" using d(2) by (simp_all add: page_is_def)
  have s: "key_sorted (bt_lt t) es" "valid_keys (bt_valid t) es" using 1(5) by simp_all
  have look: "leaf_Lookup (bt_cmp t) key d = Inr (assoc_find (bt_lt t) es key)" using lf.leaf_Lookup_find [of "bt_processor t" d key] s key by (simp add: D)
  note P = leaf_insert_pairs [OF 1(4,7), where p = p and es = es and nx = nx, unfolded 1(2)]
  have pT: "p \<in> set (page_ids T)" by (simp add: 1(2) [symmetric] plug_ids_set)
  show ?thesis
  proof (cases "assoc_find (bt_lt t) es key")
    case (Some r)
    obtain b2 where 2: "UnpinPage rops p False b1 = (b2, True)" "held ({} - (if False then {p} else {})) (\<lambda>q. one p q - one p q) b b2"
      "store b2 = store b1" "bpm_disk b2 = bpm_disk b1"
      by (rule held_Unpin [OF 1(8), of p False]) (use cl pT nn in auto)
    have "InsertIntoLeaf rops dops key v (b, t) = Some (Inr ((b2, t), False))" using 1(1) look Some 2(1) by (simp add: InsertIntoLeaf_def fd D)
    moreover have "runs {x. 0 < pins b x} b b2" using 2(2) by (simp add: held_runs) (erule runs_mono, simp)
    moreover have "grown t (store b) M (set (page_ids T)) (leaves T) n (store b2) t T"
      using T M 2(3) 1(10) by (auto simp: grown_def tree_at_def fun_upd_idem)
    moreover have "tree_pairs T = assoc_insert (bt_lt t) key v (tree_pairs T)" using P(1) Some by (simp add: assoc_insert_def)
    ultimately show ?thesis using P(1) Some 2(3) 1(10) T by auto
  next
    case None
    define es' where "es' = assoc_insert (bt_lt t) key v es"
    have n0: "int (length es) \<le> bt_leaf_max_size t" using 1(6) by simp
    obtain d' where d': "leaf_Insert (bt_cmp t) key v d = Inr (d', GetSize d')" "page_is t p (LeafD (hole_parent C) es' nx) d'"
      unfolding es'_def by (rule leaf_page_insert [OF d(2) f n0 s key])
    have D': "bp_GetPageId d' = p" "GetMaxSize d' = bt_leaf_max_size t" "GetSize d' = int (length es')"
      using d'(2) leaf_entries_length [of d'] leaf_okD(6) [of "bt_key_size t" d'] by (simp_all add: page_is_def)
    have len: "length es' = Suc (length es)" using None by (simp add: es'_def length_assoc_insert)
    have fit: "fits_hole t C (BLeaf p es' nx)" unfolding es'_def by (rule leaf_fits_insert [OF 1(5,7)])
    define b2 where "b2 = write_frame g d' b1"
    note S2 = step_write [OF ok1 1(9) page_is_length [OF d'(2)], folded b2_def]
    have pn: "0 \<le> one p x" for x by simp
    have h2: "held {p} (one p) b b2" using held_run [OF 1(8) S2(1) pn] by simp
    have st2: "store b2 = (store b)(p \<mapsto> d')" using S2(2) 1(10) by simp
    have fd2: "fdata b2 g = d'" by (rule fdata_store [OF S2(4) S2(5) [OF 1(9)]]) (simp add: st2)
    have eqn: "InsertIntoLeaf rops dops key v (b, t) =
      (if int (length es') \<le> bt_leaf_max_size t then Some (Inr ((fst (UnpinPage rops p True b2), t), True))
       else bind_run (Some (SplitLeaf rops dops g (b2, t))) (\<lambda>(b, new_leaf).
            bind_run (InsertIntoParent rops dops g (leaf_KeyAt (fdata b new_leaf) 0) new_leaf b t) (\<lambda>(b, t).
            let b' = fst (UnpinPage rops (bp_GetPageId (fdata b g)) True b);
                b'' = fst (UnpinPage rops (bp_GetPageId (fdata b' new_leaf)) True b')
            in Some (Inr ((b'', t), True)))))"
      using 1(1) look None d'(1) D' by (simp add: InsertIntoLeaf_def fd fd2 Let_def flip: b2_def)
    show ?thesis
    proof (cases "int (length es') \<le> bt_leaf_max_size t")
      case True
      obtain b3 where 3: "UnpinPage rops p True b2 = (b3, True)" "held ({p} - (if True then {p} else {})) (\<lambda>x. one p x - one p x) b b3"
        "store b3 = store b2" "bpm_disk b3 = bpm_disk b2"
        by (rule held_Unpin [OF h2, of p True]) (use nn in auto)
      have "runs {x. 0 < pins b x} b b3" using 3(2) by (simp add: held_runs) (erule runs_mono, simp)
      moreover have "sized t (BLeaf p es' nx)" using True by simp
      from leaf_replace [OF T1 1(4,3) fit this d'(2) _ M]
      have "grown t (store b) M (set (page_ids T)) (leaves (plug C (BLeaf p es' nx))) n (store b3) t (plug C (BLeaf p es' nx))"
        using 3(3) st2 1(2) by simp
      moreover have "tree_pairs (plug C (BLeaf p es' nx)) = assoc_insert (bt_lt t) key v (tree_pairs T)"
        using P(2) by (simp add: tree_pairs_def plug_leaves es'_def)
      moreover have "tree_at t (store b3) n (plug C (BLeaf p es' nx))"
        by (rule leaf_tree [OF T1 1(4,3) fit _ d'(2)]) (use True 3(3) st2 in simp_all)
      ultimately show ?thesis using eqn True 3(1) P(1) None by auto
    next
      case False
      have full: "length es' = nat (bt_leaf_max_size t) + 1" using False len 1(6) by simp
      have al2: "allocated (bpm_disk b2) = allocated (bpm_disk b)" using S2(3) 1(11) by simp
      have sp2: "2 * n + 1 < spares b2"
      proof -
        have "spares b \<le> Suc (spares b2)" by (rule spares_pin [OF ok, of _ p]) (use h2 in \<open>auto simp: held_def one_def split: if_splits\<close>)
        then show ?thesis using sp by simp
      qed
      have q2: "quota (Suc (Suc n)) b2" using q quota_eq [OF al2] by simp
      have q1: "quota 1 b2" by (rule quota_less [OF q2]) simp
      have st2p: "store b2 p = Some d'" and sp2': "0 < spares b2" and full': "length es' \<le> nat (bt_leaf_max_size t) + 1"
        using st2 sp2 full by simp_all
      define s where "s = length es' div 2"
      obtain b3 h Q dl dr where 3: "SplitLeaf rops dops g (b2, t) = Inr (b3, h)" "held {p, Q} (one Q) b2 b3" "pinned_at b3 p g" "pinned_at b3 Q h"
        "store b2 Q = None" "Q \<noteq> INVALID_PAGE_ID" "store b3 = (store b2)(p \<mapsto> dl, Q \<mapsto> dr)"
        "page_is t p (LeafD (hole_parent C) (take s es') Q) dl" "page_is t Q (LeafD (hole_parent C) (drop s es') nx) dr"
        "allocated (bpm_disk b3) = insert Q (allocated (bpm_disk b2))" "spares b2 \<le> Suc (spares b3)"
        unfolding s_def by (rule SplitLeaf_law [OF f S2(4) S2(5) [OF 1(9)] st2p d'(2) full' sp2' q1])
      have pR: "p \<noteq> INDEX_ROOTS_PAGE_ID" using T pT by (auto simp: tree_at_def)
      have Qp: "Q \<noteq> p" "store b Q = None" using 3(5) st2 by (auto split: if_splits)
      have QR: "Q \<noteq> INDEX_ROOTS_PAGE_ID" using Qp(2) M(1) by (auto simp: roots_at_def)
      have st3: "store b3 = (store b)(p \<mapsto> dl, Q \<mapsto> dr)" using 3(7) st2 by simp
      let ?L = "BLeaf p (take s es') Q" and ?R = "BLeaf Q (drop s es') nx" and ?k = "fst (es' ! s)"
      have H: "split_hole t (store b3) C 0 ?k ?L ?R" by (rule leaf_split_hole [OF T1 1(4) fit full f Qp(2) 3(6) QR 3(8,9) st3 s_def])
      have sl: "s < length es'" using len by (simp add: s_def)
      have k3: "leaf_KeyAt (fdata b3 h) 0 = ?k"
      proof -
        have e: "leaf_entries dr = drop s es'" using 3(9) by (simp add: page_is_def)
        then have "0 < nat (GetSize dr)" using sl leaf_entries_length [of dr] by simp
        then have "leaf_KeyAt dr 0 = fst (leaf_entries dr ! 0)" by (simp add: leaf_entries_def leaf_GetItem_def)
        then show ?thesis using e sl fdata_store [OF held_ok [OF 3(2)] 3(4)] st3 by simp
      qed
      have M3: "roots_at (store b3) M" using M(1) pR QR by (simp add: roots_at_def st3)
      have rt: "root_id (plug C ?L) = bt_root_page_id t"
        using T1 plug_root_cong [of ?L "BLeaf p es nx" C] by (simp add: tree_at_def)
      have pre: "pinned_at b3 (root_id ?L) g" "pinned_at b3 (root_id ?R) h" "2 * length C < spares b3" "quota (Suc (length C)) b3"
        using 3(3,4,11) sp2 quota_step [OF q2 3(10)] 1(3) by simp_all
      have Mr: "M (bt_index_id t) = Some (root_id (plug C ?L))" using M(2) rt by simp
      obtain b4 t' T' where 4: "InsertIntoParent rops dops g ?k h b3 t = Some (Inr (b4, t'))" "runs {x. 0 < pins b3 x} b3 b4"
        "grown t (store b3) M (set (page_ids ?L @ page_ids ?R @ ctx_ids C)) (before C @ leaves ?L @ leaves ?R @ behind C) n (store b4) t' T'"
        using InsertIntoParent_law [OF f held_ok [OF 3(2)] pre(1,2) H pre(3,4) M3 Mr rt [symmetric]] unfolding 1(3) add_0 by blast
      have ids: "set (page_ids ?L @ page_ids ?R @ ctx_ids C) = insert Q (set (page_ids T))" by (auto simp: 1(2) [symmetric] plug_ids_set)
      have nn2: "0 \<le> one p x + one Q x" for x by (simp add: one_def)
      note h3 = held_trans [OF h2 3(2) pn]
      have h4: "held ({p} \<union> {p, Q} \<union> {x. 0 < pins b3 x}) (\<lambda>x. one p x + one Q x) b b4" by (rule held_run [OF h3 4(2) nn2])
      have W: "{p} \<union> {p, Q} \<union> {x. 0 < pins b3 x} \<subseteq> {x. 0 < pins b x} \<union> {p, Q}" using h3 by (auto simp: held_def one_def split: if_splits)
      have p4: "pinned_at b4 p g" "pinned_at b4 Q h" using pinned_at_runs [OF 4(2)] 3(3,4) by blast+
      have sh4: "shown t (store b4) (descs INVALID_PAGE_ID T')" and inT: "{p, Q} \<subseteq> set (page_ids T')" using 4(3) by (auto simp: grown_def tree_at_def)
      have num: "bp_GetPageId (fdata b4 g) = p" "bp_GetPageId (fdata b4 h) = Q"
        using shown_number [OF sh4] inT pinned_at_data [OF held_ok [OF h4]] p4 by auto
      obtain b5 b6 where 6: "UnpinPage rops p True b4 = (b5, True)" "bp_GetPageId (fdata b5 h) = Q" "UnpinPage rops Q True b5 = (b6, True)"
        "runs {x. 0 < pins b x} b b6" "store b6 = store b4" "allocated (bpm_disk b6) = allocated (bpm_disk b4)"
        by (rule unpin_two [OF ok h4 W Qp(1) [symmetric] p4 num])
      have lv: "leaves T' = before C @ leaves ?L @ leaves ?R @ behind C" using 4(3) by (simp add: grown_def)
      have "grown t (store b) M (set (page_ids T)) (leaves T') n (store b6) t' T'"
        by (rule grown_step [OF 4(3) [folded lv 6(5), unfolded ids]]) (use Qp st3 pT in auto)
      moreover have "leaf_pairs (leaves T') = leaf_pairs (before C) @ (take s es' @ drop s es') @ leaf_pairs (behind C)"
        unfolding lv by (simp del: append_take_drop_id)
      then have "tree_pairs T' = assoc_insert (bt_lt t) key v (tree_pairs T)" using P(2) [of v] by (simp add: tree_pairs_def es'_def)
      moreover have "InsertIntoLeaf rops dops key v (b, t) = Some (Inr ((b6, t'), True))"
        unfolding eqn using False 3(1) k3 4(1) num 6(1-3) by (simp add: Let_def)
      moreover have "\<not> int (length (tree_pairs T)) < bt_leaf_max_size t"
        using full len by (simp add: tree_pairs_def plug_leaves flip: 1(2))
      ultimately show ?thesis using 6(4) P(1) None by auto
    qed
  qed
qed

end

section \<open>An index\<close>

text \<open>The index of a tree, empty or not: its pairs, its height, its pages, and its entry in the root directory.\<close>

definition index_at :: "BPlusTree \<Rightarrow> (page_id_t \<rightharpoonup> byte list) \<Rightarrow> (index_id_t \<rightharpoonup> page_id_t) \<Rightarrow> nat \<Rightarrow> (byte list \<times> RowId) list \<Rightarrow> page_id_t set \<Rightarrow> bool" where
  "index_at t S M n ps ids \<longleftrightarrow> roots_at S M \<and>
     (if bt_IsEmpty t then n = 0 \<and> ps = [] \<and> ids = {}
      else M (bt_index_id t) = Some (bt_root_page_id t) \<and> (\<exists>T. tree_at t S n T \<and> tree_pairs T = ps \<and> set (page_ids T) = ids))"

lemma tree_not_empty: "tree_at t S n T \<Longrightarrow> \<not> bt_IsEmpty t"
  by (auto simp: tree_at_def bt_IsEmpty_def page_ids_top)

lemma grown_index:
  assumes "grown t S M ids ls n S' t' T"
  obtains n' where "n' \<le> Suc n" "index_at t' S' (M(bt_index_id t \<mapsto> bt_root_page_id t')) n' (tree_pairs T) (set (page_ids T))"
    "t' = t\<lparr>bt_root_page_id := bt_root_page_id t'\<rparr>" "ids \<subseteq> set (page_ids T)" "\<forall>x \<in> set (page_ids T) - ids. S x = None"
    "\<forall>x. x \<notin> set (page_ids T) \<longrightarrow> x \<noteq> INDEX_ROOTS_PAGE_ID \<longrightarrow> S' x = S x" "tree_at t' S' n T \<longrightarrow> n' = n"
proof -
  obtain n' where n': "n' \<le> Suc n" "tree_at t' S' n' T" "tree_at t' S' n T \<longrightarrow> n' = n" using assms unfolding grown_def by (metis le_SucI order_refl)
  have t': "t' = t\<lparr>bt_root_page_id := root_id T\<rparr>" using assms by (simp add: grown_def)
  have "index_at t' S' (M(bt_index_id t \<mapsto> bt_root_page_id t')) n' (tree_pairs T) (set (page_ids T))"
    using assms n'(2) tree_not_empty [OF n'(2)] by (auto simp: index_at_def t' grown_def)
  then show thesis using that n'(1,3) t' assms by (simp add: grown_def)
qed

lemma assoc_insert_nil: "assoc_insert lt key v [] = [(key, v)]"
  by (simp add: assoc_insert_def assoc_find_def)

context bounded_pool
begin

lemma StartNewTree_law:
  assumes f: "bt_fits t" and ok: "bp_ok b" and key: "bt_valid t key" and sp: "0 < spares b" and q: "quota 1 b"
    and M: "roots_at (store b) M" "M (bt_index_id t) \<noteq> None \<or> card (dom M) < MAX_INDEX_COUNT"
  obtains b' r where "StartNewTree rops dops key v (b, t) = Inr (b', t\<lparr>bt_root_page_id := r\<rparr>)" "runs {} b b'"
    "grown t (store b) M {} [(r, [(key, v)], INVALID_PAGE_ID)] 0 (store b') (t\<lparr>bt_root_page_id := r\<rparr>) (BLeaf r [(key, v)] INVALID_PAGE_ID)"
    "allocated (bpm_disk b') = insert r (allocated (bpm_disk b))"
proof -
  obtain b1 g r where 1: "NewPage rops dops b = Inr (b1, Some (g, r))" "held {r} (one r) b b1" "pinned_at b1 r g" "fdata b1 g = zero_page"
    "store b r = None" "r \<noteq> INVALID_PAGE_ID" "store b1 = (store b)(r \<mapsto> zero_page)" "spares b \<le> Suc (spares b1)"
    "allocated (bpm_disk b1) = insert r (allocated (bpm_disk b))"
    by (rule held_New [OF ok quota_room [OF ok] sp]) (use q in simp)
  have rR: "r \<noteq> INDEX_ROOTS_PAGE_ID" using 1(5) M(1) by (auto simp: roots_at_def)
  have nn: "0 \<le> one r x" for x by simp
  let ?ini = "leaf_Init r INVALID_PAGE_ID (int (bt_key_size t)) (bt_leaf_max_size t)"
  define ini where "ini = ?ini zero_page"
  have ini: "page_is t r (LeafD INVALID_PAGE_ID [] INVALID_PAGE_ID) ini" unfolding ini_def by (rule new_leaf_page [OF f])
  have z: "store b1 r = Some zero_page" using 1(7) by simp
  define b2 where "b2 = mod_frame g ?ini b1"
  note S2 = step_mod [where h = ?ini, OF held_ok [OF 1(2)] 1(3) z, folded ini_def b2_def, OF page_is_length [OF ini]]
  have fd2: "fdata b2 g = ini" by (rule fdata_store [OF S2(4) S2(5) [OF 1(3)]]) (simp add: S2(2))
  have e: "int (length ([] :: (byte list \<times> RowId) list)) \<le> bt_leaf_max_size t" "key_sorted (bt_lt t) []" "valid_keys (bt_valid t) []"
    using bt_fitsD(1) [OF f] by (simp_all add: key_sorted_def valid_keys_def)
  obtain d where d: "leaf_Insert (bt_cmp t) key v ini = Inr (d, GetSize d)" "page_is t r (LeafD INVALID_PAGE_ID [(key, v)] INVALID_PAGE_ID) d"
    unfolding assoc_insert_nil [of "bt_lt t" key v, symmetric] by (rule leaf_page_insert [OF ini f e key])
  define b3 where "b3 = write_frame g d b2"
  note S3 = step_write [OF S2(4) S2(5) [OF 1(3)] page_is_length [OF d(2)], folded b3_def]
  have h3: "held {r} (one r) b b3" using held_run [OF held_run [OF 1(2) S2(1) nn] S3(1) nn] by simp
  obtain b4 where 4: "UnpinPage rops r True b3 = (b4, True)" "held ({r} - (if True then {r} else {})) (\<lambda>x. one r x - one r x) b b4"
    "store b4 = store b3" "bpm_disk b4 = bpm_disk b3"
    by (rule held_Unpin [OF h3, of r True]) (use pins_nonneg [OF conjunct1 [OF ok]] in auto)
  have r4: "runs {} b b4" using 4(2) by (simp add: held_runs)
  have st4: "store b4 = (store b)(r \<mapsto> d)" using 4(3) S3(2) S2(2) 1(7) by simp
  have M4: "roots_at (store b4) M" using M(1) rR by (simp add: roots_at_def st4)
  let ?t = "t\<lparr>bt_root_page_id := r\<rparr>"
  obtain b5 dr where 5: "UpdateRootPageId rops dops 1 (b4, ?t) = Inr b5" "runs {} b4 b5" "store b5 = (store b4)(INDEX_ROOTS_PAGE_ID \<mapsto> dr)"
    "roots_at (store b5) (M(bt_index_id ?t \<mapsto> bt_root_page_id ?t))" "allocated (bpm_disk b5) = allocated (bpm_disk b4)"
    by (rule UpdateRoot_law [OF runsD(1) [OF r4] M4, where t = ?t]) (use M(2) sp runsD(6) [OF r4] in auto)
  have "tree_at ?t (store b5) 0 (BLeaf r [(key, v)] INVALID_PAGE_ID)"
    using 1(6) rR d(2) key 5(3) st4 bt_fitsD(1) [OF f] by (simp add: tree_at_def key_sorted_def valid_keys_def)
  then have "grown t (store b) M {} [(r, [(key, v)], INVALID_PAGE_ID)] 0 (store b5) ?t (BLeaf r [(key, v)] INVALID_PAGE_ID)"
    using 1(5) 5(3,4) st4 by (simp add: grown_def)
  moreover have "StartNewTree rops dops key v (b, t) = Inr (b5, ?t)"
    using 1(1) d(1) 4(1) 5(1) by (simp add: StartNewTree_def Let_def fd2 flip: b2_def b3_def)
  moreover have "allocated (bpm_disk b5) = insert r (allocated (bpm_disk b))" using 5(5) 4(4) S3(3) S2(3) 1(9) by simp
  ultimately show thesis using that runs_trans0 [OF r4 5(2)] by blast
qed

theorem bt_Insert_law:
  assumes f: "bt_fits t" and I: "index_at t (store b) M n ps ids" and ok: "bp_ok b" and key: "bt_valid t key"
    and cl: "unsaved b \<inter> ids = {}" and sp: "2 * n + 2 < spares b" and q: "quota (Suc (Suc n)) b"
    and M: "M (bt_index_id t) \<noteq> None \<or> card (dom M) < MAX_INDEX_COUNT"
  shows "\<exists>b' t' n' ids'. bt_Insert rops dops key v (b, t) = Some (Inr ((b', t'), assoc_find (bt_lt t) ps key = None)) \<and>
    runs {x. 0 < pins b x} b b' \<and> t' = t\<lparr>bt_root_page_id := bt_root_page_id t'\<rparr> \<and> n' \<le> Suc n \<and>
    index_at t' (store b') (M(bt_index_id t \<mapsto> bt_root_page_id t')) n' (assoc_insert (bt_lt t) key v ps) ids' \<and> ids \<subseteq> ids' \<and>
    (\<forall>x \<in> ids' - ids. store b x = None) \<and> (\<forall>x. x \<notin> ids' \<longrightarrow> x \<noteq> INDEX_ROOTS_PAGE_ID \<longrightarrow> store b' x = store b x) \<and>
    (int (length ps) < bt_leaf_max_size t \<longrightarrow> n' = n) \<and> (bt_IsEmpty t \<longrightarrow> (\<exists>r. allocated (bpm_disk b') = insert r (allocated (bpm_disk b))))"
proof -
  have R: "roots_at (store b) M" using I by (simp add: index_at_def)
  have "\<exists>b' t' T'. bt_Insert rops dops key v (b, t) = Some (Inr ((b', t'), assoc_find (bt_lt t) ps key = None)) \<and>
      runs {x. 0 < pins b x} b b' \<and> grown t (store b) M ids (leaves T') n (store b') t' T' \<and> tree_pairs T' = assoc_insert (bt_lt t) key v ps \<and>
      (int (length ps) < bt_leaf_max_size t \<longrightarrow> tree_at t' (store b') n T') \<and> (bt_IsEmpty t \<longrightarrow> (\<exists>r. allocated (bpm_disk b') = insert r (allocated (bpm_disk b))))"
  proof (cases "bt_IsEmpty t")
    case True
    have e: "ps = []" "ids = {}" "n = 0" using I True by (simp_all add: index_at_def)
    have q1: "quota 1 b" by (rule quota_less [OF q]) simp
    have sp1: "0 < spares b" using sp by simp
    obtain b' r where 1: "StartNewTree rops dops key v (b, t) = Inr (b', t\<lparr>bt_root_page_id := r\<rparr>)" "runs {} b b'"
      "grown t (store b) M {} [(r, [(key, v)], INVALID_PAGE_ID)] 0 (store b') (t\<lparr>bt_root_page_id := r\<rparr>) (BLeaf r [(key, v)] INVALID_PAGE_ID)"
      "allocated (bpm_disk b') = insert r (allocated (bpm_disk b))"
      by (rule StartNewTree_law [OF f ok key sp1 q1 R M])
    have "bt_Insert rops dops key v (b, t) = Some (Inr ((b', t\<lparr>bt_root_page_id := r\<rparr>), True))" using True 1(1) by (simp add: bt_Insert_def)
    moreover have "runs {x. 0 < pins b x} b b'" by (rule runs_mono [OF 1(2)]) simp
    ultimately show ?thesis using 1(3,4) e
      by (intro exI [of _ b'] exI [of _ "t\<lparr>bt_root_page_id := r\<rparr>"] exI [of _ "BLeaf r [(key, v)] INVALID_PAGE_ID"])
        (auto simp: assoc_insert_nil tree_pairs_def assoc_find_def grown_def tree_at_def)
  next
    case False
    then obtain T where T: "M (bt_index_id t) = Some (bt_root_page_id t)" "tree_at t (store b) n T" "tree_pairs T = ps" "set (page_ids T) = ids"
      using I by (auto simp: index_at_def)
    show ?thesis using InsertIntoLeaf_law [OF f T(2) ok key _ sp q R T(1), of v] cl False unfolding T(3,4) by (auto simp: bt_Insert_def)
  qed
  then obtain b' t' T' where 1: "bt_Insert rops dops key v (b, t) = Some (Inr ((b', t'), assoc_find (bt_lt t) ps key = None))"
    "runs {x. 0 < pins b x} b b'" "grown t (store b) M ids (leaves T') n (store b') t' T'" "tree_pairs T' = assoc_insert (bt_lt t) key v ps"
    "int (length ps) < bt_leaf_max_size t \<longrightarrow> tree_at t' (store b') n T'" "bt_IsEmpty t \<longrightarrow> (\<exists>r. allocated (bpm_disk b') = insert r (allocated (bpm_disk b)))"
    by blast
  show ?thesis by (rule grown_index [OF 1(3)], unfold 1(4)) (use 1(1,2,5,6) in blast)
qed

end

end
