(* ===== verification/Table_Heap.thy ===== *)
theory Table_Heap
  imports Table_Page Pool_Session
begin

text \<open>
  The table heap (\<^verbatim>\<open>src/include/storage/table_heap.h\<close>, \<^verbatim>\<open>src/storage/table_heap.cpp\<close>) and its iterator
  (\<^verbatim>\<open>table_iterator.h\<close>, \<^verbatim>\<open>table_iterator.cpp\<close>): a list of table pages in the buffer pool, linked by
  \<^verbatim>\<open>next_page_id\<close>, and through it a second, doubly linked list of the pages that can still take a
  tuple. A heap object holds the ends of the two lists; the second list is rebuilt when a heap is opened and first
  used. Frames stand for the page pointers of the code. A dereference of \<^verbatim>\<open>nullptr\<close> is the failure
  \<open>OutOfBounds\<close>.
\<close>

record TableHeap =
  th_first_page_id :: page_id_t
  th_last_page_id :: page_id_t
  th_insertable_head :: page_id_t
  th_schema :: Schema
  th_built :: bool

type_synonym ('r, 'd) heap_state = "('r, 'd) bpm \<times> TableHeap"

definition TableHeap_open :: "page_id_t \<Rightarrow> Schema \<Rightarrow> TableHeap" where
  "TableHeap_open first_page_id schema =
     \<lparr>th_first_page_id = first_page_id, th_last_page_id = INVALID_PAGE_ID, th_insertable_head = INVALID_PAGE_ID,
      th_schema = schema, th_built = False\<rparr>"

definition TableHeap_create :: "'r replacer_ops \<Rightarrow> 'd disk_ops \<Rightarrow> Schema \<Rightarrow> ('r, 'd) bpm \<Rightarrow> ('r, 'd) heap_state result" where
  "TableHeap_create rops dops schema b =
     bind_result (NewPage rops dops b) (\<lambda>(b, page). case page of
       None \<Rightarrow> Inl (AssertionFailed ''Failed to create first table page.'')
     | Some (f, p) \<Rightarrow>
         let b = mod_frame f (TablePage_Init p INVALID_PAGE_ID) b;
             b = fst (UnpinPage rops p True b)
         in Inr (b, \<lparr>th_first_page_id = p, th_last_page_id = p, th_insertable_head = p, th_schema = schema,
                     th_built = True\<rparr>))"

section \<open>The list of insertable pages\<close>

text \<open>The body of the loop of \<^verbatim>\<open>EnsureHeapMetadata\<close> that appends a page to the list.\<close>

definition ensure_link :: "'r replacer_ops \<Rightarrow> 'd disk_ops \<Rightarrow> frame_id_t \<Rightarrow> page_id_t \<Rightarrow> page_id_t \<Rightarrow> ('r, 'd) heap_state \<Rightarrow>
    (('r, 'd) bpm \<times> TableHeap \<times> page_id_t) result" where
  "ensure_link rops dops f pid tail = (\<lambda>(b, th).
     bind_result (CanHostAnyTuple (fdata b f)) (\<lambda>can.
       if can then
         if tail \<noteq> INVALID_PAGE_ID then
           bind_result (with_page rops dops tail ''Failed to fetch insertable tail page.'' (SetNextInsertablePageId pid) b)
             (\<lambda>b. Inr (mod_frame f (SetPrevInsertablePageId tail) b, th, pid))
         else Inr (b, th\<lparr>th_insertable_head := pid\<rparr>, pid)
       else Inr (b, th, tail)))"

partial_function (option) ensure_loop :: "'r replacer_ops \<Rightarrow> 'd disk_ops \<Rightarrow> page_id_t \<Rightarrow> page_id_t \<Rightarrow> ('r, 'd) bpm \<Rightarrow>
    TableHeap \<Rightarrow> ('r, 'd) heap_state run" where
  "ensure_loop rops dops tail pid b th =
     (if pid = INVALID_PAGE_ID then Some (Inr (b, th))
      else bind_run (Some (FetchPage rops dops pid b)) (\<lambda>(b, page). case page of
             None \<Rightarrow> Some (Inr (b, th))
           | Some f \<Rightarrow>
               let next_page_id = GetNextPageId (fdata b f);
                   th = th\<lparr>th_last_page_id := pid\<rparr>;
                   b = mod_frame f (SetPrevInsertablePageId INVALID_PAGE_ID) b;
                   b = mod_frame f (SetNextInsertablePageId INVALID_PAGE_ID) b
               in bind_run (Some (ensure_link rops dops f pid tail (b, th))) (\<lambda>(b, th, tail).
                    ensure_loop rops dops tail next_page_id (fst (UnpinPage rops pid True b)) th)))"

definition EnsureHeapMetadata :: "'r replacer_ops \<Rightarrow> 'd disk_ops \<Rightarrow> ('r, 'd) heap_state \<Rightarrow> ('r, 'd) heap_state run" where
  "EnsureHeapMetadata rops dops = (\<lambda>(b, th).
     if th_built th then Some (Inr (b, th))
     else
       let th = th\<lparr>th_insertable_head := INVALID_PAGE_ID, th_last_page_id := INVALID_PAGE_ID\<rparr>
       in bind_run (ensure_loop rops dops INVALID_PAGE_ID (th_first_page_id th) b th) (\<lambda>(b, th).
            let th = (if th_last_page_id th = INVALID_PAGE_ID then th\<lparr>th_last_page_id := th_first_page_id th\<rparr> else th)
            in Some (Inr (b, th\<lparr>th_built := True\<rparr>))))"

definition IsInsertablePageTracked :: "TableHeap \<Rightarrow> tpage \<Rightarrow> page_id_t \<Rightarrow> bool" where
  "IsInsertablePageTracked th d pid \<longleftrightarrow> pid = th_insertable_head th \<or> GetPrevInsertablePageId d \<noteq> INVALID_PAGE_ID \<or>
     GetNextInsertablePageId d \<noteq> INVALID_PAGE_ID"

definition LinkInsertablePage :: "'r replacer_ops \<Rightarrow> 'd disk_ops \<Rightarrow> frame_id_t \<Rightarrow> page_id_t \<Rightarrow> ('r, 'd) heap_state \<Rightarrow>
    ('r, 'd) heap_state result" where
  "LinkInsertablePage rops dops f pid = (\<lambda>(b, th).
     let old_head_page_id = th_insertable_head th;
         b = mod_frame f (SetPrevInsertablePageId INVALID_PAGE_ID) b;
         b = mod_frame f (SetNextInsertablePageId old_head_page_id) b
     in bind_result
          (if old_head_page_id \<noteq> INVALID_PAGE_ID
           then with_page rops dops old_head_page_id ''Failed to fetch insertable head page.'' (SetPrevInsertablePageId pid) b
           else Inr b)
          (\<lambda>b. Inr (b, th\<lparr>th_insertable_head := pid\<rparr>)))"

definition UnlinkInsertablePage :: "'r replacer_ops \<Rightarrow> 'd disk_ops \<Rightarrow> frame_id_t \<Rightarrow> page_id_t \<Rightarrow> ('r, 'd) heap_state \<Rightarrow>
    ('r, 'd) heap_state result" where
  "UnlinkInsertablePage rops dops f pid = (\<lambda>(b, th).
     let prev_page_id = GetPrevInsertablePageId (fdata b f);
         next_page_id = GetNextInsertablePageId (fdata b f)
     in bind_result
          (if prev_page_id \<noteq> INVALID_PAGE_ID
           then with_page rops dops prev_page_id ''Failed to fetch previous insertable page.'' (SetNextInsertablePageId next_page_id) b
           else Inr b) (\<lambda>b.
        bind_result
          (if next_page_id \<noteq> INVALID_PAGE_ID
           then with_page rops dops next_page_id ''Failed to fetch next insertable page.'' (SetPrevInsertablePageId prev_page_id) b
           else Inr b) (\<lambda>b.
        let th = (if th_insertable_head th = pid then th\<lparr>th_insertable_head := next_page_id\<rparr> else th);
            b = mod_frame f (SetPrevInsertablePageId INVALID_PAGE_ID) b;
            b = mod_frame f (SetNextInsertablePageId INVALID_PAGE_ID) b
        in Inr (b, th))))"

definition RefreshInsertablePage :: "'r replacer_ops \<Rightarrow> 'd disk_ops \<Rightarrow> frame_id_t \<Rightarrow> page_id_t \<Rightarrow> ('r, 'd) heap_state \<Rightarrow>
    ('r, 'd) heap_state result" where
  "RefreshInsertablePage rops dops f pid = (\<lambda>(b, th).
     bind_result (CanHostAnyTuple (fdata b f)) (\<lambda>should_track.
       let is_tracked = IsInsertablePageTracked th (fdata b f) pid
       in if should_track \<and> \<not> is_tracked then LinkInsertablePage rops dops f pid (b, th)
          else if \<not> should_track \<and> is_tracked then UnlinkInsertablePage rops dops f pid (b, th)
          else Inr (b, th)))"

section \<open>Tuples\<close>

text \<open>One round of the loop of \<^verbatim>\<open>InsertTuple\<close>, and the loop; \<open>Some\<close> is the value the function returns inside it.\<close>

definition insert_try :: "'r replacer_ops \<Rightarrow> 'd disk_ops \<Rightarrow> Row \<Rightarrow> frame_id_t \<Rightarrow> page_id_t \<Rightarrow> ('r, 'd) heap_state \<Rightarrow>
    (('r, 'd) heap_state \<times> Row \<times> bool) result" where
  "insert_try rops dops row f pid = (\<lambda>(b, th).
     bind_result (InsertTuple row (th_schema th) (fdata b f)) (\<lambda>(d, row, ok).
     bind_result (RefreshInsertablePage rops dops f pid (write_frame f d b, th)) (\<lambda>(b, th).
       Inr ((fst (UnpinPage rops pid True b), th), row, ok))))"

partial_function (option) insert_loop :: "'r replacer_ops \<Rightarrow> 'd disk_ops \<Rightarrow> Row \<Rightarrow> page_id_t \<Rightarrow> ('r, 'd) bpm \<Rightarrow> TableHeap \<Rightarrow>
    (('r, 'd) heap_state \<times> Row \<times> bool option) run" where
  "insert_loop rops dops row pid b th =
     (if pid = INVALID_PAGE_ID then Some (Inr ((b, th), row, None))
      else bind_run (Some (FetchPage rops dops pid b)) (\<lambda>(b, page). case page of
             None \<Rightarrow> Some (Inr ((b, th), row, Some False))
           | Some f \<Rightarrow>
               let next_insertable_page_id = GetNextInsertablePageId (fdata b f)
               in bind_run (Some (insert_try rops dops row f pid (b, th))) (\<lambda>((b, th), row, ok).
                    if ok then Some (Inr ((b, th), row, Some True))
                    else insert_loop rops dops row next_insertable_page_id b th)))"

text \<open>The rest of \<^verbatim>\<open>InsertTuple\<close>: a new page at the end of the heap.\<close>

definition insert_append :: "'r replacer_ops \<Rightarrow> 'd disk_ops \<Rightarrow> Row \<Rightarrow> ('r, 'd) heap_state \<Rightarrow>
    (('r, 'd) heap_state \<times> Row \<times> bool) result" where
  "insert_append rops dops row = (\<lambda>(b, th).
     bind_result (NewPage rops dops b) (\<lambda>(b, page). case page of
       None \<Rightarrow> Inr ((b, th), row, False)
     | Some (f, new_page_id) \<Rightarrow>
         let b = mod_frame f (TablePage_Init new_page_id (th_last_page_id th)) b
         in bind_result (InsertTuple row (th_schema th) (fdata b f)) (\<lambda>(d, row, insert_ok).
            let b = write_frame f d b
            in bind_result
                 (if insert_ok then
                    bind_result
                      (if th_last_page_id th \<noteq> INVALID_PAGE_ID
                       then with_page rops dops (th_last_page_id th) ''Failed to fetch last table page.'' (SetNextPageId new_page_id) b
                       else Inr b)
                      (\<lambda>b. RefreshInsertablePage rops dops f new_page_id (b, th\<lparr>th_last_page_id := new_page_id\<rparr>))
                  else Inr (b, th))
                 (\<lambda>(b, th). Inr ((fst (UnpinPage rops new_page_id True b), th), row, insert_ok)))))"

definition heap_InsertTuple :: "'r replacer_ops \<Rightarrow> 'd disk_ops \<Rightarrow> Row \<Rightarrow> ('r, 'd) heap_state \<Rightarrow>
    (('r, 'd) heap_state \<times> Row \<times> bool) run" where
  "heap_InsertTuple rops dops row = (\<lambda>(b, th).
     bind_run (Some (row_GetSerializedSize row (th_schema th))) (\<lambda>n.
     if SIZE_MAX_ROW < unat (of_nat n :: 32 word) then Some (Inr ((b, th), row, False))
     else bind_run (EnsureHeapMetadata rops dops (b, th)) (\<lambda>(b, th).
          bind_run (insert_loop rops dops row (th_insertable_head th) b th) (\<lambda>((b, th), row, r).
          case r of Some ok \<Rightarrow> Some (Inr ((b, th), row, ok))
          | None \<Rightarrow> Some (insert_append rops dops row (b, th))))))"

definition heap_MarkDelete :: "'r replacer_ops \<Rightarrow> 'd disk_ops \<Rightarrow> RowId \<Rightarrow> ('r, 'd) bpm \<Rightarrow> (('r, 'd) bpm \<times> bool) result" where
  "heap_MarkDelete rops dops rid b =
     bind_result (FetchPage rops dops (rid_page_id rid) b) (\<lambda>(b, page). case page of
       None \<Rightarrow> Inr (b, False)
     | Some f \<Rightarrow>
         let (d, ok) = MarkDelete rid (fdata b f);
             b = write_frame f d b
         in Inr (fst (UnpinPage rops (GetTablePageId (fdata b f)) ok b), ok))"

definition heap_UpdateTuple :: "'r replacer_ops \<Rightarrow> 'd disk_ops \<Rightarrow> Row \<Rightarrow> RowId \<Rightarrow> ('r, 'd) heap_state \<Rightarrow>
    (('r, 'd) heap_state \<times> Row \<times> bool) run" where
  "heap_UpdateTuple rops dops row rid st =
     bind_run (EnsureHeapMetadata rops dops st) (\<lambda>(b, th). Some (
     bind_result (FetchPage rops dops (rid_page_id rid) b) (\<lambda>(b, page). case page of
       None \<Rightarrow> Inr ((b, th), row, False)
     | Some f \<Rightarrow>
         bind_result (UpdateTuple row (Row_of_rid rid) (th_schema th) (fdata b f)) (\<lambda>(d, _, ok).
         let b = write_frame f d b
         in bind_result (if ok then RefreshInsertablePage rops dops f (rid_page_id rid) (b, th) else Inr (b, th))
              (\<lambda>(b, th). Inr ((fst (UnpinPage rops (rid_page_id rid) ok b), th),
                              (if ok then row\<lparr>row_rid := rid\<rparr> else row), ok))))))"

definition heap_ApplyDelete :: "'r replacer_ops \<Rightarrow> 'd disk_ops \<Rightarrow> RowId \<Rightarrow> ('r, 'd) heap_state \<Rightarrow> ('r, 'd) heap_state run" where
  "heap_ApplyDelete rops dops rid st =
     bind_run (EnsureHeapMetadata rops dops st) (\<lambda>(b, th). Some (
     bind_result (FetchPage rops dops (rid_page_id rid) b) (\<lambda>(b, page). case page of
       None \<Rightarrow> Inr (b, th)
     | Some f \<Rightarrow>
         bind_result (ApplyDelete rid (fdata b f)) (\<lambda>d.
         bind_result (RefreshInsertablePage rops dops f (rid_page_id rid) (write_frame f d b, th))
              (\<lambda>(b, th). Inr (fst (UnpinPage rops (rid_page_id rid) True b), th))))))"

definition heap_RollbackDelete :: "'r replacer_ops \<Rightarrow> 'd disk_ops \<Rightarrow> RowId \<Rightarrow> ('r, 'd) bpm \<Rightarrow> ('r, 'd) bpm result" where
  "heap_RollbackDelete rops dops rid b =
     bind_result (FetchPage rops dops (rid_page_id rid) b) (\<lambda>(b, page). case page of
       None \<Rightarrow> Inl (AssertionFailed ''page != nullptr'')
     | Some f \<Rightarrow>
         bind_result (RollbackDelete rid (fdata b f)) (\<lambda>d.
         let b = write_frame f d b
         in Inr (fst (UnpinPage rops (GetTablePageId (fdata b f)) True b))))"

definition heap_GetTuple :: "'r replacer_ops \<Rightarrow> 'd disk_ops \<Rightarrow> Schema \<Rightarrow> Row \<Rightarrow> ('r, 'd) bpm \<Rightarrow>
    (('r, 'd) bpm \<times> Row \<times> bool) result" where
  "heap_GetTuple rops dops schema row b =
     bind_result (FetchPage rops dops (rid_page_id (row_rid row)) b) (\<lambda>(b, page). case page of
       None \<Rightarrow> Inr (b, row, False)
     | Some f \<Rightarrow>
         bind_result (GetTuple row schema (fdata b f)) (\<lambda>(row, ok).
         Inr (fst (UnpinPage rops (rid_page_id (row_rid row)) False b), row, ok)))"

section \<open>Freeing the pages\<close>

text \<open>\<^verbatim>\<open>DeleteTable\<close> recurses to the end of the chain with every page pinned and deletes the pages from the
  last to the first; \<^verbatim>\<open>FreeTableHeap\<close> walks forward.\<close>

partial_function (option) delete_chain :: "'r replacer_ops \<Rightarrow> 'd disk_ops \<Rightarrow> page_id_t \<Rightarrow> page_id_t \<Rightarrow> ('r, 'd) bpm \<Rightarrow>
    ('r, 'd) bpm run" where
  "delete_chain rops dops first_page_id pid b =
     (if pid \<noteq> INVALID_PAGE_ID then
        bind_run (Some (FetchPage rops dops pid b)) (\<lambda>(b, page). case page of
          None \<Rightarrow> Some (Inl (OutOfBounds ''temp_table_page''))
        | Some f \<Rightarrow>
            bind_run
              (if GetNextPageId (fdata b f) \<noteq> INVALID_PAGE_ID
               then delete_chain rops dops first_page_id (GetNextPageId (fdata b f)) b else Some (Inr b))
              (\<lambda>b. Some (Inr (fst (DeletePage dops pid (fst (UnpinPage rops pid False b)))))))
      else delete_chain rops dops first_page_id first_page_id b)"

definition DeleteTable :: "'r replacer_ops \<Rightarrow> 'd disk_ops \<Rightarrow> page_id_t \<Rightarrow> ('r, 'd) heap_state \<Rightarrow> ('r, 'd) bpm run" where
  "DeleteTable rops dops pid = (\<lambda>(b, th). delete_chain rops dops (th_first_page_id th) pid b)"

partial_function (option) free_chain :: "'r replacer_ops \<Rightarrow> 'd disk_ops \<Rightarrow> page_id_t \<Rightarrow> ('r, 'd) bpm \<Rightarrow> ('r, 'd) bpm run" where
  "free_chain rops dops pid b =
     (if pid = INVALID_PAGE_ID then Some (Inr b)
      else bind_run (Some (FetchPage rops dops pid b)) (\<lambda>(b, page). case page of
             None \<Rightarrow> Some (Inl (AssertionFailed ''page != nullptr''))
           | Some f \<Rightarrow>
               free_chain rops dops (GetNextPageId (fdata b f))
                 (fst (DeletePage dops pid (fst (UnpinPage rops pid False b))))))"

definition FreeTableHeap :: "'r replacer_ops \<Rightarrow> 'd disk_ops \<Rightarrow> ('r, 'd) heap_state \<Rightarrow> ('r, 'd) bpm run" where
  "FreeTableHeap rops dops = (\<lambda>(b, th). free_chain rops dops (th_first_page_id th) b)"

section \<open>The iterator\<close>

text \<open>The heap an iterator belongs to is an address, or \<open>None\<close> for \<^verbatim>\<open>nullptr\<close>; the state of the heap
  is passed along.\<close>

record TableIterator =
  it_heap :: "nat option"
  it_row :: Row
  it_is_end :: bool

definition TableIterator_new :: "'r replacer_ops \<Rightarrow> 'd disk_ops \<Rightarrow> nat option \<Rightarrow> RowId \<Rightarrow> ('r, 'd) heap_state \<Rightarrow>
    (('r, 'd) bpm \<times> TableIterator) result" where
  "TableIterator_new rops dops heap rid = (\<lambda>(b, th).
     let is_end = (RowId_Get rid = RowId_Get INVALID_ROWID)
     in if \<not> is_end \<and> heap \<noteq> None
        then bind_result (heap_GetTuple rops dops (th_schema th) (Row_of_rid rid) b) (\<lambda>(b, row, ok).
               Inr (b, if ok then \<lparr>it_heap = heap, it_row = row, it_is_end = False\<rparr>
                       else \<lparr>it_heap = heap, it_row = row\<lparr>row_rid := INVALID_ROWID\<rparr>, it_is_end = True\<rparr>))
        else Inr (b, \<lparr>it_heap = heap, it_row = Row_of_rid rid, it_is_end = is_end\<rparr>))"

definition it_eq :: "TableIterator \<Rightarrow> TableIterator \<Rightarrow> bool" where
  "it_eq a c \<longleftrightarrow> (if it_is_end a \<and> it_is_end c then True
     else it_heap a = it_heap c \<and> RowId_Get (row_rid (it_row a)) = RowId_Get (row_rid (it_row c)) \<and> it_is_end a = it_is_end c)"

definition heap_End :: "nat \<Rightarrow> TableIterator" where
  "heap_End this = \<lparr>it_heap = Some this, it_row = Row_of_rid INVALID_ROWID, it_is_end = True\<rparr>"

text \<open>The loops of \<^verbatim>\<open>Begin\<close> and \<^verbatim>\<open>operator++\<close> that look for the first tuple from a page on.\<close>

partial_function (option) first_rid_loop :: "'r replacer_ops \<Rightarrow> 'd disk_ops \<Rightarrow> page_id_t \<Rightarrow> ('r, 'd) bpm \<Rightarrow>
    (('r, 'd) bpm \<times> RowId option) run" where
  "first_rid_loop rops dops pid b =
     (if pid = INVALID_PAGE_ID then Some (Inr (b, None))
      else bind_run (Some (FetchPage rops dops pid b)) (\<lambda>(b, page). case page of
             None \<Rightarrow> Some (Inr (b, None))
           | Some f \<Rightarrow>
               bind_run (Some (GetFirstTupleRid (fdata b f))) (\<lambda>(rid, found).
                 let next_page_id = GetNextPageId (fdata b f);
                     b = fst (UnpinPage rops pid False b)
                 in if found then Some (Inr (b, Some rid)) else first_rid_loop rops dops next_page_id b)))"

definition heap_Begin :: "'r replacer_ops \<Rightarrow> 'd disk_ops \<Rightarrow> nat \<Rightarrow> ('r, 'd) heap_state \<Rightarrow> (('r, 'd) bpm \<times> TableIterator) run" where
  "heap_Begin rops dops this = (\<lambda>(b, th).
     bind_run (first_rid_loop rops dops (th_first_page_id th) b) (\<lambda>(b, r). case r of
       Some rid \<Rightarrow> Some (TableIterator_new rops dops (Some this) rid (b, th))
     | None \<Rightarrow> Some (Inr (b, heap_End this))))"

definition it_next :: "'r replacer_ops \<Rightarrow> 'd disk_ops \<Rightarrow> TableIterator \<Rightarrow> ('r, 'd) heap_state \<Rightarrow> (('r, 'd) bpm \<times> TableIterator) run" where
  "it_next rops dops it = (\<lambda>(b, th).
     if it_is_end it \<or> it_heap it = None then Some (Inr (b, it))
     else
       let current_rid = row_rid (it_row it)
       in bind_run (Some (FetchPage rops dops (rid_page_id current_rid) b)) (\<lambda>(b, page). case page of
            None \<Rightarrow> Some (Inr (b, it\<lparr>it_is_end := True, it_row := (it_row it)\<lparr>row_rid := INVALID_ROWID\<rparr>\<rparr>))
          | Some f \<Rightarrow>
              bind_run (Some (GetNextTupleRid (fdata b f) current_rid)) (\<lambda>(next_rid, found).
              let next_page_id = GetNextPageId (fdata b f);
                  b = fst (UnpinPage rops (rid_page_id current_rid) False b)
              in bind_run (if found then Some (Inr (b, Some next_rid)) else first_rid_loop rops dops next_page_id b)
                   (\<lambda>(b, r). case r of
                      None \<Rightarrow> Some (Inr (b, it\<lparr>it_is_end := True, it_row := Row_of_rid INVALID_ROWID\<rparr>))
                    | Some rid \<Rightarrow>
                        bind_run (Some (heap_GetTuple rops dops (th_schema th) (Row_of_rid rid) b)) (\<lambda>(b, row, ok).
                          Some (Inr (b, it\<lparr>it_row := row, it_is_end := \<not> ok\<rparr>)))))))"

text \<open>\<^verbatim>\<open>iter++\<close> returns the old value.\<close>

definition it_next_post :: "'r replacer_ops \<Rightarrow> 'd disk_ops \<Rightarrow> TableIterator \<Rightarrow> ('r, 'd) heap_state \<Rightarrow>
    (('r, 'd) bpm \<times> TableIterator \<times> TableIterator) run" where
  "it_next_post rops dops it st = bind_run (it_next rops dops it st) (\<lambda>(b, it'). Some (Inr (b, it', it\<lparr>it_row := Row_copy (it_row it)\<rparr>)))"

end
