(* ===== verification/Link_List.thy ===== *)
theory Link_List
  imports Main
begin

text \<open>
  Linked lists over numbered nodes, for the page lists of the table heap: the successor and predecessor of a
  node in a list, with \<open>z\<close> where there is none (also for nodes outside the list), and what inserting at
  either end and removing a node does to them.
\<close>

definition hd_or :: "'a \<Rightarrow> 'a list \<Rightarrow> 'a" where
  "hd_or z xs = (case xs of [] \<Rightarrow> z | x # _ \<Rightarrow> x)"

fun succ_in :: "'a \<Rightarrow> 'a list \<Rightarrow> 'a \<Rightarrow> 'a" where
  "succ_in z [] x = z"
| "succ_in z (y # ys) x = (if x = y then hd_or z ys else succ_in z ys x)"

definition pred_in :: "'a \<Rightarrow> 'a list \<Rightarrow> 'a \<Rightarrow> 'a" where
  "pred_in z xs = succ_in z (rev xs)"

lemma hd_or_simps [simp]: "hd_or z [] = z" "hd_or z (x # xs) = x" "hd_or z (xs @ [x]) = hd_or x xs"
  by (simp_all add: hd_or_def split: list.split)

lemma hd_or_in: "hd_or z xs = z \<or> hd_or z xs \<in> set xs"
  by (cases xs) simp_all

lemma succ_in_outside [simp]: "x \<notin> set xs \<Longrightarrow> succ_in z xs x = z"
  by (induction xs) auto

lemma pred_in_outside [simp]: "x \<notin> set xs \<Longrightarrow> pred_in z xs x = z"
  by (simp add: pred_in_def)

lemma succ_in_range: "succ_in z xs x = z \<or> succ_in z xs x \<in> set xs"
proof (induction xs)
  case (Cons y ys)
  then show ?case using hd_or_in [of z ys] by auto
qed simp

lemma pred_in_range: "pred_in z xs x = z \<or> pred_in z xs x \<in> set xs"
  using succ_in_range [of z "rev xs" x] by (simp add: pred_in_def)

lemma succ_in_at: "distinct (xs @ y # ys) \<Longrightarrow> succ_in z (xs @ y # ys) y = hd_or z ys"
  by (induction xs) auto

lemma succ_in_snoc:
  "distinct xs \<Longrightarrow> p \<notin> set xs \<Longrightarrow>
   succ_in z (xs @ [p]) x = (if x = p then z else if xs \<noteq> [] \<and> x = last xs then p else succ_in z xs x)"
proof (induction xs)
  case (Cons y ys)
  show ?case
  proof (cases ys)
    case (Cons a list)
    with Cons.IH Cons.prems show ?thesis by auto
  qed (use Cons.prems in auto)
qed simp

lemma pred_in_Cons:
  "distinct xs \<Longrightarrow> p \<notin> set xs \<Longrightarrow>
   pred_in z (p # xs) x = (if x = p then z else if xs \<noteq> [] \<and> x = hd xs then p else pred_in z xs x)"
  by (simp add: pred_in_def succ_in_snoc last_rev)

lemma pred_in_snoc: "pred_in z (xs @ [p]) x = (if x = p then hd_or z (rev xs) else pred_in z xs x)"
  by (simp add: pred_in_def)

lemma succ_pred:
  assumes "distinct xs" "z \<notin> set xs" "p \<in> set xs" "x \<noteq> z"
  shows "succ_in z xs x = p \<longleftrightarrow> pred_in z xs p = x"
  using assms
proof (induction xs)
  case (Cons y ys)
  have d: "distinct ys" "y \<notin> set ys" "z \<notin> set ys" "y \<noteq> z" using Cons.prems by auto
  note P = pred_in_Cons [OF d(1,2), of z p]
  show ?case
  proof (cases "p = y")
    case True
    have "succ_in z (y # ys) x \<noteq> y"
      using succ_in_range [of z ys x] hd_or_in [of z ys] d by auto
    then show ?thesis using True P Cons.prems(4) by auto
  next
    case False
    then have p: "p \<in> set ys" using Cons.prems by simp
    then obtain a as where ys: "ys = a # as" by (cases ys) auto
    show ?thesis
    proof (cases "p = a")
      case True
      have "succ_in z ys x \<noteq> a" using succ_in_range [of z as x] hd_or_in [of z as] d ys by auto
      then show ?thesis using P True False ys by auto
    next
      case neq: False
      then have eq: "pred_in z (y # ys) p = pred_in z ys p" using P False ys by simp
      have "pred_in z ys p \<noteq> y" using pred_in_range [of z ys p] d by auto
      then show ?thesis using eq Cons.IH [OF d(1,3) p Cons.prems(4)] ys neq by auto
    qed
  qed
qed simp

lemma succ_in_remove1:
  assumes "distinct xs" "z \<notin> set xs" "p \<in> set xs"
  shows "succ_in z (remove1 p xs) x =
    (if x = p then z else if succ_in z xs x = p then succ_in z xs p else succ_in z xs x)"
  using assms
proof (induction xs)
  case (Cons y ys)
  have d: "distinct ys" "y \<notin> set ys" "z \<notin> set ys" "y \<noteq> z" using Cons.prems by auto
  show ?case
  proof (cases "y = p")
    case True
    have "succ_in z ys x \<noteq> p" using succ_in_range [of z ys x] d True by auto
    with True d show ?thesis by auto
  next
    case False
    then have p: "p \<in> set ys" using Cons.prems by simp
    then obtain a as where ys: "ys = a # as" by (cases ys) auto
    show ?thesis
    proof (cases "x = y")
      case True
      then show ?thesis using False ys p d by auto
    next
      case neq: False
      then show ?thesis using Cons.IH [OF d(1,3) p] False by auto
    qed
  qed
qed simp

lemma rev_remove1: "distinct xs \<Longrightarrow> rev (remove1 p xs) = remove1 p (rev xs)"
  by (simp add: distinct_remove1_removeAll removeAll_filter_not_eq rev_filter)

lemma pred_in_remove1:
  assumes "distinct xs" "z \<notin> set xs" "p \<in> set xs"
  shows "pred_in z (remove1 p xs) x =
    (if x = p then z else if pred_in z xs x = p then pred_in z xs p else pred_in z xs x)"
  using succ_in_remove1 [of "rev xs" z p x] assms by (simp add: pred_in_def rev_remove1)

text \<open>A node without links is outside the list, or its only node.\<close>

lemma in_list_iff:
  assumes "distinct xs" "z \<notin> set xs" "x \<noteq> z"
  shows "x \<in> set xs \<longleftrightarrow> x = hd_or z xs \<or> pred_in z xs x \<noteq> z \<or> succ_in z xs x \<noteq> z"
proof
  assume x: "x \<in> set xs"
  show "x = hd_or z xs \<or> pred_in z xs x \<noteq> z \<or> succ_in z xs x \<noteq> z"
  proof (rule ccontr)
    assume "\<not> ?thesis"
    then have c: "x \<noteq> hd_or z xs" "pred_in z xs x = z" by auto
    obtain ys zs where xs: "xs = ys @ x # zs" using x by (meson split_list)
    have "ys \<noteq> []" using c(1) xs by auto
    then obtain w ws where ys: "ys = ws @ [w]" by (metis rev_exhaust)
    have "succ_in z xs w = x" using succ_in_at [of ws w "x # zs" z] assms(1) xs ys by simp
    moreover have "w \<noteq> z" using assms(2) xs ys by auto
    ultimately show False using succ_pred [OF assms(1,2) x] c(2) by auto
  qed
next
  assume "x = hd_or z xs \<or> pred_in z xs x \<noteq> z \<or> succ_in z xs x \<noteq> z"
  then show "x \<in> set xs"
    using hd_or_in [of z xs] assms(3) succ_in_outside [of x xs z] pred_in_outside [of x xs z] by metis
qed

lemma hd_or_remove1: "distinct xs \<Longrightarrow> hd_or z (remove1 p xs) = (if hd_or z xs = p \<and> xs \<noteq> [] then succ_in z xs p else hd_or z xs)"
  by (cases xs) auto

end
