(* ===== verification/Heap_Pages.thy ===== *)
theory Heap_Pages
  imports Table_Heap Link_List
begin

text \<open>
  What a table heap is, over a map from page numbers to pages: the pages of the heap in order, the list of pages
  that can take another tuple, and the tuples the heap stores. The lemmas say what the link updates of the heap do to
  the two lists.
\<close>

section \<open>Links and tuples of one page\<close>

text \<open>Two pages with the same tuples in the same places.\<close>

definition same_page :: "tpage \<Rightarrow> tpage \<Rightarrow> bool" where
  "same_page d d' \<longleftrightarrow> wf_tpage d' \<and> tp_tuple d' = tp_tuple d \<and> GetTablePageId d' = GetTablePageId d \<and>
     tcnt d' = tcnt d \<and> tfsp d' = tfsp d"

lemma same_page_refl: "wf_tpage d \<Longrightarrow> same_page d d"
  by (simp add: same_page_def)

lemma same_page_trans: "same_page a b \<Longrightarrow> same_page b c \<Longrightarrow> same_page a c"
  by (auto simp: same_page_def)

lemma insert_slot_cong:
  assumes "tcnt d' = tcnt d" "\<And>i. tp_tuple d' i = None \<longleftrightarrow> tp_tuple d i = None"
  shows "insert_slot d' = insert_slot d"
proof -
  have "IsSlotOccupied d' i = IsSlotOccupied d i" if "i < tcnt d" for i
    using assms(2) [of i] assms(1) that by (simp add: tp_tuple_def split: if_splits)
  then have "find (\<lambda>s. \<not> IsSlotOccupied d' s) [0..<tcnt d] = find (\<lambda>s. \<not> IsSlotOccupied d s) [0..<tcnt d]"
    by (intro find_cong) auto
  then show ?thesis by (simp add: insert_slot_def assms(1) split: option.split)
qed

lemma insert_fits_cong:
  "tcnt d' = tcnt d \<Longrightarrow> tfsp d' = tfsp d \<Longrightarrow> (\<And>i. tp_tuple d' i = None \<longleftrightarrow> tp_tuple d i = None) \<Longrightarrow>
   insert_fits n d' = insert_fits n d"
  using insert_slot_cong [of d' d] by (simp add: insert_fits_def)

lemma same_page_fits: "same_page d d' \<Longrightarrow> insert_fits n d' = insert_fits n d"
  by (rule insert_fits_cong) (simp_all add: same_page_def)

lemma link_write_same:
  assumes wf: "wf_tpage d" and h: "h \<in> {8, 12, 28, 32}"
  shows "same_page d (wr32 d h v)"
proof -
  note W = wf_tpageD [OF wf]
  let ?d = "wr32 d h v"
  have h32: "h \<le> 32" using h by auto
  note F = wr32_header_frame [OF W(1) h32, where v = v]
  have hdr: "GetTupleCount ?d = GetTupleCount d" "GetFreeSpacePointer ?d = GetFreeSpacePointer d"
    "GetLiveTupleCount ?d = GetLiveTupleCount d" "GetTablePageId ?d = GetTablePageId d"
    using h W(1) by (auto simp: tp_acc tp_consts PAGE_SIZE_def layout_simps)
  have fl: "IsSlotOccupied ?d i = IsSlotOccupied d i" "IsSlotDeleted ?d i = IsSlotDeleted d i" if "i < tcnt d" for i
    using W(5) [OF that] F(3,4) by (intro slot_flags_cong; simp)+
  have live: "live_slots ?d = live_slots d" using fl by (auto simp: live_slots_def hdr)
  have data: "rd n ?d off = rd n d off" if "tfsp d \<le> off" for n off
    using that W(2) by (intro F(5)) simp
  note T = tp_same_layout [OF wf F(6) hdr(1,2)]
  have wf': "wf_tpage ?d"
    using W(6,7,9) fl data by (intro T(1)) (simp_all add: F hdr live slot_inside_def)
  moreover have "tp_tuple ?d i = map_option (\<lambda>(bs, _). (bs, IsSlotDeleted ?d i)) (tp_tuple d i)" for i
    using W(6,7,9) fl data by (intro T(2)) (simp_all add: F hdr live slot_inside_def)
  then have "tp_tuple ?d = tp_tuple d" using fl(2) by (auto simp: fun_eq_iff tp_tuple_def)
  ultimately show ?thesis using hdr by (simp add: same_page_def)
qed

lemma link_setters_same:
  assumes "wf_tpage d"
  shows "same_page d (SetPrevInsertablePageId v d)" "same_page d (SetNextInsertablePageId v d)" "same_page d (SetNextPageId v d)"
  using link_write_same [OF assms] by (simp_all add: tp_acc tp_consts)

lemma link_getters:
  assumes "length d = PAGE_SIZE"
  shows "GetPrevInsertablePageId (SetPrevInsertablePageId v d) = v"
    "GetNextInsertablePageId (SetPrevInsertablePageId v d) = GetNextInsertablePageId d"
    "GetNextPageId (SetPrevInsertablePageId v d) = GetNextPageId d"
    "GetPrevInsertablePageId (SetNextInsertablePageId v d) = GetPrevInsertablePageId d"
    "GetNextInsertablePageId (SetNextInsertablePageId v d) = v"
    "GetNextPageId (SetNextInsertablePageId v d) = GetNextPageId d"
    "GetPrevInsertablePageId (SetNextPageId v d) = GetPrevInsertablePageId d"
    "GetNextInsertablePageId (SetNextPageId v d) = GetNextInsertablePageId d"
    "GetNextPageId (SetNextPageId v d) = v"
    "length (SetPrevInsertablePageId v d) = PAGE_SIZE" "length (SetNextInsertablePageId v d) = PAGE_SIZE"
    "length (SetNextPageId v d) = PAGE_SIZE"
  using assms by (simp_all add: tp_acc tp_consts PAGE_SIZE_def layout_simps)

lemma CanHostAnyTuple_fits: "wf_tpage d \<Longrightarrow> CanHostAnyTuple d = Inr (insert_fits 1 d)"
proof -
  assume wf: "wf_tpage d"
  note W = wf_tpageD [OF wf]
  have find: "FindReusableSlot d = Inr (insert_slot d)"
    using FindReusableSlot_find [OF wf] by (simp add: insert_slot_def)
  let ?m = "if insert_slot d < tcnt d then 1 else of_nat SIZE_TUPLE + 1 :: 32 word"
  have "unat ?m = (if insert_slot d < tcnt d then 1 else 9)" by (simp add: tp_consts)
  then have "?m \<le> GetFreeSpaceRemaining d \<longleftrightarrow> insert_fits 1 d"
    using unat_free_space [OF wf] insert_slot_free(1) [of d] W(2)
    by (auto simp: word_le_nat_alt insert_fits_def max_def)
  with find show ?thesis by (simp add: CanHostAnyTuple_def Let_def)
qed

section \<open>The pages of a heap\<close>

definition tp_ok :: "Schema \<Rightarrow> page_id_t \<Rightarrow> tpage \<Rightarrow> bool" where
  "tp_ok schema p d \<longleftrightarrow> wf_tpage d \<and> GetTablePageId d = p \<and>
     (\<forall>s bs del. tp_tuple d s = Some (bs, del) \<longrightarrow> (\<exists>r. row_ok schema r \<and> bs = row_enc r))"

type_synonym page_map = "page_id_t \<rightharpoonup> byte list"

definition heap_pages :: "page_map \<Rightarrow> Schema \<Rightarrow> page_id_t list \<Rightarrow> bool" where
  "heap_pages S schema ps \<longleftrightarrow> ps \<noteq> [] \<and> distinct ps \<and> INVALID_PAGE_ID \<notin> set ps \<and>
     (\<forall>p \<in> set ps. \<exists>d. S p = Some d \<and> tp_ok schema p d \<and> GetNextPageId d = succ_in INVALID_PAGE_ID ps p)"

text \<open>The list \<open>qs\<close> of insertable pages; the pages in \<open>X\<close> have been changed and not yet been
  entered or removed.\<close>

definition heap_free :: "page_map \<Rightarrow> TableHeap \<Rightarrow> page_id_t list \<Rightarrow> page_id_t list \<Rightarrow> page_id_t set \<Rightarrow> bool" where
  "heap_free S th ps qs X \<longleftrightarrow> distinct qs \<and> set qs \<subseteq> set ps \<and> th_insertable_head th = hd_or INVALID_PAGE_ID qs \<and>
     (\<forall>p \<in> set ps. GetPrevInsertablePageId (the (S p)) = pred_in INVALID_PAGE_ID qs p \<and>
        GetNextInsertablePageId (the (S p)) = succ_in INVALID_PAGE_ID qs p) \<and>
     (\<forall>p \<in> set ps - X. p \<in> set qs \<longleftrightarrow> insert_fits 1 (the (S p)))"

definition heap_ok :: "page_map \<Rightarrow> TableHeap \<Rightarrow> page_id_t list \<Rightarrow> bool" where
  "heap_ok S th ps \<longleftrightarrow> heap_pages S (th_schema th) ps \<and> th_first_page_id th = hd ps \<and>
     (th_built th \<longrightarrow> th_last_page_id th = last ps \<and> (\<exists>qs. heap_free S th ps qs {}))"

text \<open>The tuples of the heap, with their deletion marks.\<close>

definition heap_map :: "page_map \<Rightarrow> page_id_t list \<Rightarrow> RowId \<Rightarrow> (byte list \<times> bool) option" where
  "heap_map S ps rid = (if rid_page_id rid \<in> set ps
     then tp_tuple (the (S (rid_page_id rid))) (unat (rid_slot_num rid)) else None)"

lemma heap_pagesD:
  assumes "heap_pages S schema ps"
  shows "ps \<noteq> []" "distinct ps" "INVALID_PAGE_ID \<notin> set ps"
    "\<And>p. p \<in> set ps \<Longrightarrow> \<exists>d. S p = Some d \<and> tp_ok schema p d \<and> GetNextPageId d = succ_in INVALID_PAGE_ID ps p"
  using assms by (auto simp: heap_pages_def)

lemma heap_page:
  assumes "heap_pages S schema ps" "p \<in> set ps"
  obtains d where "S p = Some d" "tp_ok schema p d" "GetNextPageId d = succ_in INVALID_PAGE_ID ps p" "wf_tpage d"
    "GetTablePageId d = p" "length d = PAGE_SIZE"
proof -
  obtain d where "S p = Some d" "tp_ok schema p d" "GetNextPageId d = succ_in INVALID_PAGE_ID ps p"
    using heap_pagesD(4) [OF assms] by blast
  then show thesis using that [of d] wf_tpageD(1) [of d] by (simp add: tp_ok_def)
qed

lemma heap_freeD:
  assumes "heap_free S th ps qs X"
  shows "distinct qs" "set qs \<subseteq> set ps" "th_insertable_head th = hd_or INVALID_PAGE_ID qs"
    "\<And>p. p \<in> set ps \<Longrightarrow> GetPrevInsertablePageId (the (S p)) = pred_in INVALID_PAGE_ID qs p"
    "\<And>p. p \<in> set ps \<Longrightarrow> GetNextInsertablePageId (the (S p)) = succ_in INVALID_PAGE_ID qs p"
    "\<And>p. p \<in> set ps \<Longrightarrow> p \<notin> X \<Longrightarrow> p \<in> set qs \<longleftrightarrow> insert_fits 1 (the (S p))"
  using assms by (auto simp: heap_free_def)

section \<open>Changes of links only\<close>

definition link_only :: "page_id_t list \<Rightarrow> page_map \<Rightarrow> page_map \<Rightarrow> bool" where
  "link_only ps S S' \<longleftrightarrow> (\<forall>q \<in> set ps. same_page (the (S q)) (the (S' q)) \<and> S' q \<noteq> None \<and>
        GetNextPageId (the (S' q)) = GetNextPageId (the (S q))) \<and>
     (\<forall>q. q \<notin> set ps \<longrightarrow> S' q = S q)"

lemma link_only_refl: "heap_pages S schema ps \<Longrightarrow> link_only ps S S"
  by (fastforce simp: link_only_def heap_pages_def tp_ok_def intro: same_page_refl)

lemma link_only_trans: "link_only ps S S1 \<Longrightarrow> link_only ps S1 S2 \<Longrightarrow> link_only ps S S2"
  by (auto simp: link_only_def intro: same_page_trans)

lemma link_only_pages:
  assumes "link_only ps S S'" "heap_pages S schema ps"
  shows "heap_pages S' schema ps" "heap_map S' ps = heap_map S ps"
proof -
  have "\<exists>d. S' p = Some d \<and> tp_ok schema p d \<and> GetNextPageId d = succ_in INVALID_PAGE_ID ps p" if p: "p \<in> set ps" for p
  proof -
    obtain d where d: "S p = Some d" "tp_ok schema p d" "GetNextPageId d = succ_in INVALID_PAGE_ID ps p"
      by (rule heap_page [OF assms(2) p])
    then show ?thesis using assms(1) p by (auto simp: link_only_def same_page_def tp_ok_def)
  qed
  then show "heap_pages S' schema ps" using assms(2) by (simp add: heap_pages_def)
  show "heap_map S' ps = heap_map S ps"
    using assms(1) by (auto simp: heap_map_def link_only_def same_page_def fun_eq_iff)
qed

lemma link_only_update:
  assumes "heap_pages S schema ps" "p \<in> set ps" "same_page (the (S p)) d" "GetNextPageId d = GetNextPageId (the (S p))"
  shows "link_only ps S (S(p \<mapsto> d))"
  using assms link_only_refl [OF assms(1)] by (auto simp: link_only_def)

lemma heap_free_fits:
  "link_only ps S S' \<Longrightarrow> p \<in> set ps \<Longrightarrow> insert_fits n (the (S' p)) = insert_fits n (the (S p))"
  using same_page_fits unfolding link_only_def by blast

lemma free_iff:
  assumes "heap_pages S schema ps" "heap_free S th ps qs X" "p \<in> set ps"
  shows "IsInsertablePageTracked th (the (S p)) p \<longleftrightarrow> p \<in> set qs"
proof -
  note P = heap_pagesD [OF assms(1)] and F = heap_freeD [OF assms(2)]
  have "INVALID_PAGE_ID \<notin> set qs" "p \<noteq> INVALID_PAGE_ID" using P(3) F(2) assms(3) by auto
  then show ?thesis
    using in_list_iff [OF F(1), of INVALID_PAGE_ID p] F(3-5) assms(3) by (simp add: IsInsertablePageTracked_def)
qed

text \<open>Putting a page in front of the list.\<close>

lemma free_link:
  assumes P: "heap_pages S schema ps" and F: "heap_free S th ps qs X" and p: "p \<in> set ps" "p \<notin> set qs" "p \<in> X"
  defines "S1 \<equiv> S(p \<mapsto> SetNextInsertablePageId (hd_or INVALID_PAGE_ID qs)
      (SetPrevInsertablePageId INVALID_PAGE_ID (the (S p))))"
  defines "S2 \<equiv> (if qs = [] then S1 else S1(hd qs \<mapsto> SetPrevInsertablePageId p (the (S1 (hd qs)))))"
  shows "heap_free S2 (th\<lparr>th_insertable_head := p\<rparr>) ps (p # qs) X" "link_only ps S S2"
proof -
  note PD = heap_pagesD [OF P] and FD = heap_freeD [OF F]
  have pg: "wf_tpage (the (S q))" "length (the (S q)) = PAGE_SIZE" if "q \<in> set ps" for q
    using heap_page [OF P that] by fastforce+
  let ?d1 = "SetPrevInsertablePageId INVALID_PAGE_ID (the (S p))"
  let ?d2 = "SetNextInsertablePageId (hd_or INVALID_PAGE_ID qs) ?d1"
  note L1 = link_getters [OF pg(2) [OF p(1)]]
  note L2 = link_getters [OF L1(10)]
  have s1: "same_page (the (S p)) ?d1" by (rule link_setters_same(1) [OF pg(1) [OF p(1)]])
  then have w1: "wf_tpage ?d1" by (simp add: same_page_def)
  have s2: "same_page (the (S p)) ?d2" by (rule same_page_trans [OF s1 link_setters_same(2) [OF w1]])
  have lo1: "link_only ps S S1" unfolding S1_def
    by (rule link_only_update [OF P p(1) s2]) (simp add: L1 L2)
  have P1: "heap_pages S1 schema ps" by (rule link_only_pages(1) [OF lo1 P])
  have hdq: "hd qs \<in> set ps" "hd qs \<noteq> p" if "qs \<noteq> []" using that FD(2) p(2) by (auto simp: neq_Nil_conv)
  have lo2: "link_only ps S1 S2"
  proof (cases "qs = []")
    case True
    then show ?thesis using link_only_refl [OF P1] by (simp add: S2_def)
  next
    case False
    then have pg1: "wf_tpage (the (S1 (hd qs)))" "length (the (S1 (hd qs))) = PAGE_SIZE"
      using heap_page [OF P1 hdq(1) [OF False]] by fastforce+
    show ?thesis using False hdq link_getters(3) [OF pg1(2)] link_setters_same(1) [OF pg1(1)]
      by (auto simp: S2_def intro!: link_only_update [OF P1])
  qed
  show lo: "link_only ps S S2" by (rule link_only_trans [OF lo1 lo2])
  have "GetPrevInsertablePageId (the (S2 q)) = pred_in INVALID_PAGE_ID (p # qs) q \<and>
      GetNextInsertablePageId (the (S2 q)) = succ_in INVALID_PAGE_ID (p # qs) q" if q: "q \<in> set ps" for q
    using FD(4,5) [OF q] L1 L2 pg [OF q] hdq p(2) pred_in_Cons [OF FD(1) p(2), of INVALID_PAGE_ID q]
    by (cases "q = p"; cases "qs = []"; cases "q = hd qs") (auto simp: S2_def S1_def link_getters)
  then show "heap_free S2 (th\<lparr>th_insertable_head := p\<rparr>) ps (p # qs) X"
    using FD p heap_free_fits [OF lo] by (auto simp: heap_free_def)
qed

text \<open>Taking a page out of the list.\<close>

definition relink :: "page_map \<Rightarrow> page_id_t \<Rightarrow> (tpage \<Rightarrow> tpage) \<Rightarrow> page_map" where
  "relink S p h = (if p = INVALID_PAGE_ID then S else S(p \<mapsto> h (the (S p))))"

lemma relink_link_only:
  assumes P: "heap_pages S schema ps" and p: "p = INVALID_PAGE_ID \<or> p \<in> set ps"
    and h: "h = SetPrevInsertablePageId v \<or> h = SetNextInsertablePageId v"
  shows "link_only ps S (relink S p h)" "heap_pages (relink S p h) schema ps"
proof -
  show lo: "link_only ps S (relink S p h)"
  proof (cases "p = INVALID_PAGE_ID")
    case True
    then show ?thesis using link_only_refl [OF P] by (simp add: relink_def)
  next
    case False
    then have p': "p \<in> set ps" using p by simp
    obtain d where d: "S p = Some d" "wf_tpage d" "length d = PAGE_SIZE" using heap_page [OF P p'] by metis
    show ?thesis
      using False h d link_getters(3,6) [OF d(3)] link_setters_same [OF d(2)]
      by (auto simp: relink_def intro!: link_only_update [OF P p'])
  qed
  show "heap_pages (relink S p h) schema ps" by (rule link_only_pages(1) [OF lo P])
qed

lemma relink_links:
  assumes P: "heap_pages S schema ps" and p: "p = INVALID_PAGE_ID \<or> p \<in> set ps" and q: "q \<in> set ps"
  shows "GetPrevInsertablePageId (the (relink S p (SetPrevInsertablePageId v) q)) =
      (if q = p then v else GetPrevInsertablePageId (the (S q)))"
    "GetNextInsertablePageId (the (relink S p (SetPrevInsertablePageId v) q)) = GetNextInsertablePageId (the (S q))"
    "GetNextInsertablePageId (the (relink S p (SetNextInsertablePageId v) q)) =
      (if q = p then v else GetNextInsertablePageId (the (S q)))"
    "GetPrevInsertablePageId (the (relink S p (SetNextInsertablePageId v) q)) = GetPrevInsertablePageId (the (S q))"
proof -
  have "q \<noteq> INVALID_PAGE_ID" using heap_pagesD(3) [OF P] q by auto
  moreover obtain d where "S q = Some d" "length d = PAGE_SIZE" using heap_page [OF P q] by metis
  ultimately show "GetPrevInsertablePageId (the (relink S p (SetPrevInsertablePageId v) q)) =
      (if q = p then v else GetPrevInsertablePageId (the (S q)))"
    "GetNextInsertablePageId (the (relink S p (SetPrevInsertablePageId v) q)) = GetNextInsertablePageId (the (S q))"
    "GetNextInsertablePageId (the (relink S p (SetNextInsertablePageId v) q)) =
      (if q = p then v else GetNextInsertablePageId (the (S q)))"
    "GetPrevInsertablePageId (the (relink S p (SetNextInsertablePageId v) q)) = GetPrevInsertablePageId (the (S q))"
    by (auto simp add: relink_def link_getters)
qed

lemma free_unlink:
  assumes P: "heap_pages S schema ps" and F: "heap_free S th ps qs X" and p: "p \<in> set qs" "p \<in> X"
  defines "prv \<equiv> pred_in INVALID_PAGE_ID qs p" and "nxt \<equiv> succ_in INVALID_PAGE_ID qs p"
  defines "S1 \<equiv> relink S prv (SetNextInsertablePageId nxt)"
  defines "S2 \<equiv> relink S1 nxt (SetPrevInsertablePageId prv)"
  defines "S3 \<equiv> relink (relink S2 p (SetPrevInsertablePageId INVALID_PAGE_ID)) p (SetNextInsertablePageId INVALID_PAGE_ID)"
  shows "heap_free S3 (if th_insertable_head th = p then th\<lparr>th_insertable_head := nxt\<rparr> else th) ps (remove1 p qs) X"
    "link_only ps S S3" "heap_pages S1 schema ps" "heap_pages S2 schema ps"
proof -
  note PD = heap_pagesD [OF P] and FD = heap_freeD [OF F]
  have pp: "p \<in> set ps" using p FD(2) by auto
  have z: "INVALID_PAGE_ID \<notin> set qs" using PD(3) FD(2) by auto
  have prv: "prv = INVALID_PAGE_ID \<or> prv \<in> set ps" and nxt: "nxt = INVALID_PAGE_ID \<or> nxt \<in> set ps"
    using pred_in_range [of INVALID_PAGE_ID qs p] succ_in_range [of INVALID_PAGE_ID qs p] FD(2)
    by (auto simp: prv_def nxt_def)
  note 1 = relink_link_only [OF P prv, of "SetNextInsertablePageId nxt" nxt, folded S1_def, OF disjI2 [OF refl]]
  note 2 = relink_link_only [OF 1(2) nxt, of "SetPrevInsertablePageId prv" prv, folded S2_def, OF disjI1 [OF refl]]
  note 3 = relink_link_only [OF 2(2) disjI2 [OF pp], of "SetPrevInsertablePageId INVALID_PAGE_ID" INVALID_PAGE_ID, OF disjI1 [OF refl]]
  note 4 = relink_link_only [OF 3(2) disjI2 [OF pp], of "SetNextInsertablePageId INVALID_PAGE_ID" INVALID_PAGE_ID,
      folded S3_def, OF disjI2 [OF refl]]
  show "heap_pages S1 schema ps" "heap_pages S2 schema ps" by (rule 1(2) 2(2))+
  show lo: "link_only ps S S3" by (rule link_only_trans [OF link_only_trans [OF link_only_trans [OF 1(1) 2(1)] 3(1)] 4(1)])
  have links: "GetPrevInsertablePageId (the (S3 q)) = (if q = p then INVALID_PAGE_ID else if q = nxt then prv
        else pred_in INVALID_PAGE_ID qs q)"
    "GetNextInsertablePageId (the (S3 q)) = (if q = p then INVALID_PAGE_ID else if q = prv then nxt
        else succ_in INVALID_PAGE_ID qs q)" if q: "q \<in> set ps" for q
    using FD(4,5) [OF q] relink_links [OF P prv q] relink_links [OF 1(2) nxt q] relink_links [OF 2(2) disjI2 [OF pp] q]
      relink_links [OF 3(2) disjI2 [OF pp] q]
    by (simp_all add: S3_def S2_def S1_def)
  have "q = prv \<longleftrightarrow> succ_in INVALID_PAGE_ID qs q = p" "q = nxt \<longleftrightarrow> pred_in INVALID_PAGE_ID qs q = p"
    if q: "q \<in> set ps" for q
  proof -
    have qz: "q \<noteq> INVALID_PAGE_ID" "p \<noteq> INVALID_PAGE_ID" using q pp PD(3) by auto
    show "q = prv \<longleftrightarrow> succ_in INVALID_PAGE_ID qs q = p"
      using succ_pred [OF FD(1) z p(1) qz(1)] by (auto simp: prv_def)
    show "q = nxt \<longleftrightarrow> pred_in INVALID_PAGE_ID qs q = p"
    proof (cases "q \<in> set qs")
      case True
      then show ?thesis using succ_pred [OF FD(1) z True qz(2)] by (auto simp: nxt_def)
    next
      case False
      then show ?thesis using succ_in_range [of INVALID_PAGE_ID qs p] qz by (auto simp: nxt_def)
    qed
  qed
  then have "GetPrevInsertablePageId (the (S3 q)) = pred_in INVALID_PAGE_ID (remove1 p qs) q \<and>
      GetNextInsertablePageId (the (S3 q)) = succ_in INVALID_PAGE_ID (remove1 p qs) q" if "q \<in> set ps" for q
    using that links [OF that] succ_in_remove1 [OF FD(1) z p(1), of q] pred_in_remove1 [OF FD(1) z p(1), of q]
    by (auto simp: prv_def nxt_def)
  moreover have "set (remove1 p qs) = set qs - {p}" using FD(1) by simp
  moreover have "(if th_insertable_head th = p then nxt else th_insertable_head th) = hd_or INVALID_PAGE_ID (remove1 p qs)"
    using hd_or_remove1 [OF FD(1), of INVALID_PAGE_ID p] FD(3) p(1) by (auto simp: nxt_def)
  ultimately show "heap_free S3 (if th_insertable_head th = p then th\<lparr>th_insertable_head := nxt\<rparr> else th) ps (remove1 p qs) X"
    using FD(1,2,6) p(2) heap_free_fits [OF lo] by (auto simp: heap_free_def)
qed

text \<open>Rebuilding the list from the front: the pages \<open>xs\<close> have been visited, \<open>y\<close> is next.\<close>

lemma free_append:
  assumes F: "heap_free S th xs qs {}" and y: "y \<notin> set xs" and lo: "link_only ps S S'" "set xs \<subseteq> set ps"
    and new: "GetNextInsertablePageId (the (S' y)) = INVALID_PAGE_ID"
      "GetPrevInsertablePageId (the (S' y)) = (if c then hd_or INVALID_PAGE_ID (rev qs) else INVALID_PAGE_ID)"
    and old: "\<And>q. q \<in> set xs \<Longrightarrow> GetPrevInsertablePageId (the (S' q)) = GetPrevInsertablePageId (the (S q))"
      "\<And>q. q \<in> set xs \<Longrightarrow> GetNextInsertablePageId (the (S' q)) =
        (if c \<and> q = hd_or INVALID_PAGE_ID (rev qs) then y else GetNextInsertablePageId (the (S q)))"
    and c: "c \<longleftrightarrow> insert_fits 1 (the (S' y))" and z: "INVALID_PAGE_ID \<notin> set xs"
    and th: "th_insertable_head th' = (if c \<and> qs = [] then y else th_insertable_head th)"
  shows "heap_free S' th' (xs @ [y]) (if c then qs @ [y] else qs) {}"
proof -
  note FD = heap_freeD [OF F]
  have yq: "y \<notin> set qs" using FD(2) y by auto
  have last: "hd_or INVALID_PAGE_ID (rev qs) = (if qs = [] then INVALID_PAGE_ID else last qs)"
    by (cases qs rule: rev_cases) simp_all
  have fits: "insert_fits 1 (the (S' q)) = insert_fits 1 (the (S q))" if "q \<in> set xs" for q
    using heap_free_fits [OF lo(1)] lo(2) that by blast
  have "GetPrevInsertablePageId (the (S' q)) = pred_in INVALID_PAGE_ID (if c then qs @ [y] else qs) q \<and>
      GetNextInsertablePageId (the (S' q)) = succ_in INVALID_PAGE_ID (if c then qs @ [y] else qs) q"
    if q: "q \<in> set (xs @ [y])" for q
  proof (cases "q = y")
    case True
    then show ?thesis using new yq succ_in_snoc [OF FD(1) yq] by (auto simp: pred_in_snoc)
  next
    case False
    then have qx: "q \<in> set xs" using q by simp
    then have "q \<noteq> INVALID_PAGE_ID" using z by auto
    with qx False show ?thesis
      using old [OF qx] FD(4,5) [OF qx] succ_in_snoc [OF FD(1) yq, of INVALID_PAGE_ID q] last by (auto simp: pred_in_snoc)
  qed
  then show ?thesis
    using FD(1-3,6) yq th c fits y unfolding heap_free_def by (cases c; cases qs) auto
qed

section \<open>Changing the tuples of one page\<close>

lemma links_eqD:
  assumes "links d' = links d"
  shows "GetNextPageId d' = GetNextPageId d" "GetPrevInsertablePageId d' = GetPrevInsertablePageId d"
    "GetNextInsertablePageId d' = GetNextInsertablePageId d"
  using assms by (simp_all add: links_def)

lemma heap_put:
  assumes P: "heap_pages S schema ps" and p: "p \<in> set ps" "S p = Some d" and d': "tp_ok schema p d'" "links d' = links d"
  shows "heap_pages (S(p \<mapsto> d')) schema ps"
    "heap_map (S(p \<mapsto> d')) ps = (\<lambda>rid. if rid_page_id rid = p then tp_tuple d' (unat (rid_slot_num rid)) else heap_map S ps rid)"
    "heap_free S th ps qs {} \<Longrightarrow> heap_free (S(p \<mapsto> d')) th ps qs {p}"
    "heap_free S th ps qs {} \<Longrightarrow> insert_fits 1 d' = insert_fits 1 d \<Longrightarrow> heap_free (S(p \<mapsto> d')) th ps qs {}"
proof -
  note L = links_eqD [OF d'(2)]
  have "GetNextPageId d = succ_in INVALID_PAGE_ID ps p" using heap_pagesD(4) [OF P p(1)] p(2) by auto
  then show "heap_pages (S(p \<mapsto> d')) schema ps"
    using P d'(1) L(1) unfolding heap_pages_def by (auto simp: fun_upd_def)
  show "heap_map (S(p \<mapsto> d')) ps = (\<lambda>rid. if rid_page_id rid = p then tp_tuple d' (unat (rid_slot_num rid)) else heap_map S ps rid)"
    using p by (auto simp: heap_map_def fun_eq_iff)
  show "heap_free S th ps qs {} \<Longrightarrow> heap_free (S(p \<mapsto> d')) th ps qs {p}"
    using p(2) L(2,3) unfolding heap_free_def by auto
  show "heap_free S th ps qs {} \<Longrightarrow> insert_fits 1 d' = insert_fits 1 d \<Longrightarrow> heap_free (S(p \<mapsto> d')) th ps qs {}"
    using p(2) L(2,3) unfolding heap_free_def by auto
qed

lemma tp_ok_update:
  assumes "tp_ok schema p d" "wf_tpage d'" "GetTablePageId d' = GetTablePageId d"
    and "\<And>s bs del. tp_tuple d' s = Some (bs, del) \<Longrightarrow> (\<exists>del'. tp_tuple d s = Some (bs, del')) \<or> (\<exists>r. row_ok schema r \<and> bs = row_enc r)"
  shows "tp_ok schema p d'"
  using assms unfolding tp_ok_def by blast

lemma heap_rid_valid:
  "heap_pages S schema ps \<Longrightarrow> rid_page_id rid \<in> set ps \<Longrightarrow> RowId_Get rid \<noteq> RowId_Get INVALID_ROWID"
  using heap_pagesD(3) by (auto simp: RowId_Get_inject INVALID_ROWID_def mk_RowId_def)

lemma insert_fits_mono: "insert_fits n d \<Longrightarrow> m \<le> n \<Longrightarrow> insert_fits m d"
  by (simp add: insert_fits_def)

lemma Init_fits:
  assumes "length d = PAGE_SIZE"
  shows "insert_fits n (TablePage_Init p q d) \<longleftrightarrow> n \<le> SIZE_MAX_ROW"
proof -
  note G = TablePage_Init_getters [OF assms, of p q]
  have "insert_slot (TablePage_Init p q d) = 0" by (simp add: insert_slot_def G(2))
  then show ?thesis by (simp add: insert_fits_def G SIZE_MAX_ROW_def PAGE_SIZE_def tp_consts)
qed

text \<open>A fresh page at the end.\<close>

lemma heap_extend:
  assumes P: "heap_pages S schema ps" and F: "heap_free S th ps qs {}" and p: "S p = None" "p \<noteq> INVALID_PAGE_ID"
    and d: "tp_ok schema p d" "GetNextPageId d = INVALID_PAGE_ID"
      "GetPrevInsertablePageId d = INVALID_PAGE_ID" "GetNextInsertablePageId d = INVALID_PAGE_ID"
  defines "S' \<equiv> relink (S(p \<mapsto> d)) (last ps) (SetNextPageId p)"
  shows "heap_pages S' schema (ps @ [p])" "heap_free S' th (ps @ [p]) qs {p}"
    "heap_map S' (ps @ [p]) = (\<lambda>rid. if rid_page_id rid = p then tp_tuple d (unat (rid_slot_num rid)) else heap_map S ps rid)"
    "q \<notin> set (ps @ [p]) \<Longrightarrow> S' q = S q"
proof -
  note PD = heap_pagesD [OF P] and FD = heap_freeD [OF F]
  have new: "p \<notin> set ps" using PD(4) [of p] p(1) by auto
  have last: "last ps \<in> set ps" "last ps \<noteq> INVALID_PAGE_ID" "last ps \<noteq> p" using PD(1,3) new by (metis last_in_set)+
  obtain dl where dl: "S (last ps) = Some dl" "tp_ok schema (last ps) dl" "wf_tpage dl" "length dl = PAGE_SIZE"
    using heap_page [OF P last(1)] by metis
  have sp: "same_page dl (SetNextPageId p dl)" by (rule link_setters_same(3) [OF dl(3)])
  note lg = link_getters [OF dl(4)]
  have S': "S' = S(p \<mapsto> d, last ps \<mapsto> SetNextPageId p dl)" using last dl(1) by (simp add: S'_def relink_def)
  have lnew: "tp_ok schema (last ps) (SetNextPageId p dl)" using dl(2) sp by (auto simp: tp_ok_def same_page_def)
  have page: "\<exists>e. S' q = Some e \<and> tp_ok schema q e \<and> GetNextPageId e = succ_in INVALID_PAGE_ID (ps @ [p]) q"
    if q: "q \<in> set (ps @ [p])" for q
  proof -
    consider "q = p" | "q = last ps" | "q \<in> set ps" "q \<noteq> p" "q \<noteq> last ps" using q by auto
    then show ?thesis
    proof cases
      case 3
      then show ?thesis using PD(1,2,4) new by (auto simp: S' succ_in_snoc)
    qed (use last lnew d(1,2) PD(1,2) new lg in \<open>auto simp: S' succ_in_snoc\<close>)
  qed
  then show "heap_pages S' schema (ps @ [p])" using PD(1-3) new p(2) unfolding heap_pages_def by simp
  have pq: "p \<notin> set qs" using FD(2) new by auto
  show "heap_free S' th (ps @ [p]) qs {p}"
    unfolding heap_free_def
  proof (intro conjI ballI)
    show "distinct qs" "set qs \<subseteq> set (ps @ [p])" "th_insertable_head th = hd_or INVALID_PAGE_ID qs" using FD(1-3) by auto
  next
    fix q assume "q \<in> set (ps @ [p])"
    then show "GetPrevInsertablePageId (the (S' q)) = pred_in INVALID_PAGE_ID qs q"
      "GetNextInsertablePageId (the (S' q)) = succ_in INVALID_PAGE_ID qs q"
      using FD(4,5) [of q] FD(4,5) [OF last(1)] dl(1) d(3,4) lg pq last(3) by (auto simp: S')
  next
    fix q assume "q \<in> set (ps @ [p]) - {p}"
    then show "(q \<in> set qs) = insert_fits 1 (the (S' q))"
      using FD(6) [of q] dl(1) same_page_fits [OF sp] by (auto simp: S')
  qed
  show "heap_map S' (ps @ [p]) = (\<lambda>rid. if rid_page_id rid = p then tp_tuple d (unat (rid_slot_num rid)) else heap_map S ps rid)"
    using last dl(1) sp new by (auto simp: heap_map_def S' same_page_def fun_eq_iff)
  show "q \<notin> set (ps @ [p]) \<Longrightarrow> S' q = S q" using last(1) by (auto simp: S')
qed

end
