(* ===== verification/Heap_Laws.thy ===== *)
theory Heap_Laws
  imports Heap_Pages
begin

text \<open>
  What the operations of the table heap do, for every buffer pool: each keeps the heap well formed (\<open>heap_ok\<close>), changes
  the stored tuples (\<open>heap_map\<close>) as its name says, leaves all pages of other owners alone, gives back its
  pins, and returns.
\<close>

context buffer_pool
begin

section \<open>Keeping the list of insertable pages\<close>

lemma runs_relink:
  assumes ok: "bp_ok b" and p: "p \<noteq> INVALID_PAGE_ID \<Longrightarrow> store b p \<noteq> None" and sp: "0 < spares b"
    and len: "\<And>d. length d = PAGE_SIZE \<Longrightarrow> length (h d) = PAGE_SIZE"
  obtains b' where "(if p \<noteq> INVALID_PAGE_ID then with_page rops dops p msg h b else Inr b) = Inr b'"
    "runs {} b b'" "store b' = relink (store b) p h" "room (bpm_disk b') = room (bpm_disk b)"
proof (cases "p = INVALID_PAGE_ID")
  case True
  then show thesis using that [of b] runs_refl [OF ok] by (simp add: relink_def)
next
  case False
  then obtain d where d: "store b p = Some d" using p by blast
  show thesis
  proof (rule runs_with_page [where h = h and msg = msg, OF ok d sp])
    show "length (h d) = PAGE_SIZE" by (rule len [OF store_length [OF ok d]])
  next
    fix b' assume "with_page rops dops p msg h b = Inr b'" "runs {} b b'" "store b' = (store b)(p \<mapsto> h d)"
      "room (bpm_disk b') = room (bpm_disk b)"
    then show thesis using that [of b'] False d by (simp add: relink_def)
  qed
qed

lemma length_link_setters:
  "length d = PAGE_SIZE \<Longrightarrow> length (SetPrevInsertablePageId v d) = PAGE_SIZE"
  "length d = PAGE_SIZE \<Longrightarrow> length (SetNextInsertablePageId v d) = PAGE_SIZE"
  "length d = PAGE_SIZE \<Longrightarrow> length (SetNextPageId v d) = PAGE_SIZE"
  by (simp_all add: link_getters)

lemma Link_law:
  assumes ok: "bp_ok b" and f: "page_table b p = Some f" "0 < pins b p" and sp: "0 < spares b"
    and P: "heap_pages (store b) schema ps" and F: "heap_free (store b) th ps qs {p}" and p: "p \<in> set ps" "p \<notin> set qs"
  obtains b' where "LinkInsertablePage rops dops f p (b, th) = Inr (b', th\<lparr>th_insertable_head := p\<rparr>)" "runs {p} b b'"
    "link_only ps (store b) (store b')" "heap_free (store b') (th\<lparr>th_insertable_head := p\<rparr>) ps (p # qs) {p}"
    "room (bpm_disk b') = room (bpm_disk b)"
proof -
  note PD = heap_pagesD [OF P] and FD = heap_freeD [OF F]
  let ?h = "th_insertable_head th"
  obtain d where d: "store b p = Some d" "length d = PAGE_SIZE" using heap_page [OF P p(1)] by metis
  let ?b1 = "mod_frame f (SetNextInsertablePageId ?h) (mod_frame f (SetPrevInsertablePageId INVALID_PAGE_ID) b)"
  note 1 = runs_mod_frame2 [OF ok f d(1), of "SetPrevInsertablePageId INVALID_PAGE_ID" "SetNextInsertablePageId ?h"]
  have r1: "runs {p} b ?b1" "store ?b1 = (store b)(p \<mapsto> SetNextInsertablePageId ?h (SetPrevInsertablePageId INVALID_PAGE_ID d))"
    "bpm_disk ?b1 = bpm_disk b" using 1 d(2) by (simp_all add: length_link_setters)
  note R1 = runsD [OF r1(1)]
  have hd: "qs = [] \<longleftrightarrow> ?h = INVALID_PAGE_ID" "qs \<noteq> [] \<Longrightarrow> ?h = hd qs \<and> hd qs \<in> set ps"
    using FD(2,3) PD(3) by (cases qs; auto)+
  have dom: "store ?b1 ?h \<noteq> None" if "?h \<noteq> INVALID_PAGE_ID"
    using hd that PD(4) [of ?h] r1(2) by auto
  have sp1: "0 < spares ?b1" using sp R1(6) by simp
  note free = free_link [OF P F p(1,2)]
  show thesis
  proof (rule runs_relink [where h = "SetPrevInsertablePageId p" and msg = "''Failed to fetch insertable head page.''",
        OF R1(1) dom sp1 length_link_setters(1)])
    fix b' assume 2: "(if ?h \<noteq> INVALID_PAGE_ID then with_page rops dops ?h ''Failed to fetch insertable head page.''
        (SetPrevInsertablePageId p) ?b1 else Inr ?b1) = Inr b'" "runs {} ?b1 b'"
      "store b' = relink (store ?b1) ?h (SetPrevInsertablePageId p)" "room (bpm_disk b') = room (bpm_disk ?b1)"
    have "store b' = (let S1 = (store b)(p \<mapsto> SetNextInsertablePageId (hd_or INVALID_PAGE_ID qs)
          (SetPrevInsertablePageId INVALID_PAGE_ID (the (store b p))))
        in if qs = [] then S1 else S1(hd qs \<mapsto> SetPrevInsertablePageId p (the (S1 (hd qs)))))"
      unfolding Let_def 2(3) r1(2) relink_def using d(1) hd FD(3) by (cases "qs = []") simp_all
    then show thesis
      using that [of b'] 2 r1 free runs_trans [OF r1(1) 2(2)] unfolding Let_def by (simp add: LinkInsertablePage_def Let_def)
  qed
qed

lemma Unlink_law:
  assumes ok: "bp_ok b" and f: "page_table b p = Some f" "0 < pins b p" and sp: "0 < spares b"
    and P: "heap_pages (store b) schema ps" and F: "heap_free (store b) th ps qs {p}" and p: "p \<in> set qs"
  obtains b' th' where "UnlinkInsertablePage rops dops f p (b, th) = Inr (b', th')" "runs {p} b b'"
    "link_only ps (store b) (store b')" "heap_free (store b') th' ps (remove1 p qs) {p}"
    "th' = th\<lparr>th_insertable_head := th_insertable_head th'\<rparr>" "room (bpm_disk b') = room (bpm_disk b)"
proof -
  note PD = heap_pagesD [OF P] and FD = heap_freeD [OF F]
  have pp: "p \<in> set ps" "p \<noteq> INVALID_PAGE_ID" using p FD(2) PD(3) by auto
  obtain d where d: "store b p = Some d" "length d = PAGE_SIZE" using heap_page [OF P pp(1)] by metis
  have fd: "fdata b f = d" using storeD [OF d(1)] f(1) by (simp add: bpm_view_def)
  let ?prv = "pred_in INVALID_PAGE_ID qs p" and ?nxt = "succ_in INVALID_PAGE_ID qs p"
  have links: "GetPrevInsertablePageId d = ?prv" "GetNextInsertablePageId d = ?nxt"
    using FD(4,5) [OF pp(1)] d(1) by simp_all
  have inps: "?prv \<noteq> INVALID_PAGE_ID \<Longrightarrow> ?prv \<in> set ps" "?nxt \<noteq> INVALID_PAGE_ID \<Longrightarrow> ?nxt \<in> set ps"
    using pred_in_range [of INVALID_PAGE_ID qs p] succ_in_range [of INVALID_PAGE_ID qs p] FD(2) by auto
  note U = free_unlink [OF P F p]
  have dom1: "store b ?prv \<noteq> None" if "?prv \<noteq> INVALID_PAGE_ID" using PD(4) [OF inps(1) [OF that]] by auto
  obtain b1 where 1: "(if ?prv \<noteq> INVALID_PAGE_ID then with_page rops dops ?prv ''Failed to fetch previous insertable page.''
        (SetNextInsertablePageId ?nxt) b else Inr b) = Inr b1" "runs {} b b1"
      "store b1 = relink (store b) ?prv (SetNextInsertablePageId ?nxt)" "room (bpm_disk b1) = room (bpm_disk b)"
    by (rule runs_relink [where h = "SetNextInsertablePageId ?nxt", OF ok dom1 sp length_link_setters(2)])
  note R1 = runsD [OF 1(2)]
  have P1: "heap_pages (store b1) schema ps" using U(3) 1(3) by simp
  have dom2: "store b1 ?nxt \<noteq> None" if "?nxt \<noteq> INVALID_PAGE_ID" using heap_pagesD(4) [OF P1 inps(2) [OF that]] by auto
  have sp1: "0 < spares b1" using sp R1(6) by simp
  obtain b2 where 2: "(if ?nxt \<noteq> INVALID_PAGE_ID then with_page rops dops ?nxt ''Failed to fetch next insertable page.''
        (SetPrevInsertablePageId ?prv) b1 else Inr b1) = Inr b2" "runs {} b1 b2"
      "store b2 = relink (store b1) ?nxt (SetPrevInsertablePageId ?prv)" "room (bpm_disk b2) = room (bpm_disk b1)"
    by (rule runs_relink [where h = "SetPrevInsertablePageId ?prv", OF R1(1) dom2 sp1 length_link_setters(1)])
  have r2: "runs {} b b2" by (rule runs_trans0 [OF 1(2) 2(2)])
  note F2 = runs_frame [OF r2 f]
  have P2: "heap_pages (store b2) schema ps" using U(4) 1(3) 2(3) by simp
  obtain d2 where d2: "store b2 p = Some d2" "length d2 = PAGE_SIZE" using heap_page [OF P2 pp(1)] by metis
  let ?b3 = "mod_frame f (SetNextInsertablePageId INVALID_PAGE_ID) (mod_frame f (SetPrevInsertablePageId INVALID_PAGE_ID) b2)"
  note 3 = runs_mod_frame2 [OF runsD(1) [OF r2] F2(1,2) d2(1), of "SetPrevInsertablePageId INVALID_PAGE_ID"
      "SetNextInsertablePageId INVALID_PAGE_ID"]
  have r3: "runs {p} b2 ?b3" "bpm_disk ?b3 = bpm_disk b2" "store ?b3 = relink (relink (store b2) p
      (SetPrevInsertablePageId INVALID_PAGE_ID)) p (SetNextInsertablePageId INVALID_PAGE_ID)"
    using 3 d2 pp(2) by (simp_all add: length_link_setters relink_def)
  have r: "runs {p} b ?b3" using runs_trans [OF r2 r3(1)] by simp
  let ?th = "if th_insertable_head th = p then th\<lparr>th_insertable_head := ?nxt\<rparr> else th"
  have "UnlinkInsertablePage rops dops f p (b, th) = Inr (?b3, ?th)"
    by (simp only: UnlinkInsertablePage_def prod.case Let_def fd links 1(1) 2(1) bind_result_simps)
  moreover have "link_only ps (store b) (store ?b3)" "heap_free (store ?b3) ?th ps (remove1 p qs) {p}"
    unfolding r3(3) 2(3) 1(3) by (rule U(2) [OF singletonI] U(1) [OF singletonI])+
  ultimately show thesis by (rule that [OF _ r]) (simp_all add: r3(2) 1(4) 2(4))
qed

lemma Refresh_law:
  assumes ok: "bp_ok b" and f: "page_table b p = Some f" "0 < pins b p" and sp: "0 < spares b"
    and P: "heap_pages (store b) schema ps" and F: "heap_free (store b) th ps qs {p}" and p: "p \<in> set ps"
  obtains b' th' qs' where "RefreshInsertablePage rops dops f p (b, th) = Inr (b', th')" "runs {p} b b'"
    "link_only ps (store b) (store b')" "heap_free (store b') th' ps qs' {}"
    "th' = th\<lparr>th_insertable_head := th_insertable_head th'\<rparr>" "room (bpm_disk b') = room (bpm_disk b)"
proof -
  obtain d where d: "store b p = Some d" "wf_tpage d" using heap_page [OF P p] by metis
  have fd: "fdata b f = d" using storeD [OF d(1)] f(1) by (simp add: bpm_view_def)
  have tr: "IsInsertablePageTracked th d p \<longleftrightarrow> p \<in> set qs" using free_iff [OF P F p] d(1) by simp
  note can = CanHostAnyTuple_fits [OF d(2)]
  have settle: "heap_free S th' ps qs' {}" if "heap_free S th' ps qs' {p}" "p \<in> set qs' \<longleftrightarrow> insert_fits 1 (the (S p))" for S th' qs'
    using that by (auto simp: heap_free_def)
  consider "insert_fits 1 d" "p \<notin> set qs" | "\<not> insert_fits 1 d" "p \<in> set qs" | "insert_fits 1 d \<longleftrightarrow> p \<in> set qs" by blast
  then show thesis
  proof cases
    case 1
    show thesis
    proof (rule Link_law [OF ok f sp P F p 1(2)])
      fix b' assume L: "LinkInsertablePage rops dops f p (b, th) = Inr (b', th\<lparr>th_insertable_head := p\<rparr>)" "runs {p} b b'"
        "link_only ps (store b) (store b')" "heap_free (store b') (th\<lparr>th_insertable_head := p\<rparr>) ps (p # qs) {p}"
        "room (bpm_disk b') = room (bpm_disk b)"
      have "heap_free (store b') (th\<lparr>th_insertable_head := p\<rparr>) ps (p # qs) {}"
        using settle [OF L(4)] heap_free_fits [OF L(3) p] 1(1) d(1) by simp
      then show thesis
        using that [of b' "th\<lparr>th_insertable_head := p\<rparr>" "p # qs"] L 1 fd tr can by (simp add: RefreshInsertablePage_def)
    qed
  next
    case 2
    show thesis
    proof (rule Unlink_law [OF ok f sp P F 2(2)])
      fix b' th' assume L: "UnlinkInsertablePage rops dops f p (b, th) = Inr (b', th')" "runs {p} b b'"
        "link_only ps (store b) (store b')" "heap_free (store b') th' ps (remove1 p qs) {p}"
        "th' = th\<lparr>th_insertable_head := th_insertable_head th'\<rparr>" "room (bpm_disk b') = room (bpm_disk b)"
      have "p \<notin> set (remove1 p qs)" using heap_freeD(1) [OF F] by simp
      then have "heap_free (store b') th' ps (remove1 p qs) {}"
        using settle [OF L(4)] heap_free_fits [OF L(3) p] 2(1) d(1) by simp
      then show thesis
        using that [of b' th' "remove1 p qs"] L 2 fd tr can by (simp add: RefreshInsertablePage_def)
    qed
  next
    case 3
    have "heap_free (store b) th ps qs {}" using settle [OF F] 3 d(1) by simp
    moreover have "runs {p} b b" using runs_mono [OF runs_refl [OF ok]] by simp
    ultimately show thesis
      using that [of b th qs] 3 fd tr can link_only_refl [OF P] by (auto simp: RefreshInsertablePage_def)
  qed
qed

section \<open>Building the list of insertable pages\<close>

lemma fdata_store: "page_table b p = Some f \<Longrightarrow> store b p = Some d \<Longrightarrow> fdata b f = d"
  using storeD [of b p d] by (simp add: bpm_view_def)

lemma ensure_link_law:
  assumes ok: "bp_ok b" and f: "page_table b y = Some f" "0 < pins b y" and sp: "0 < spares b"
    and P: "heap_pages (store b) schema (xs @ y # ys)" and F: "heap_free (store b) th xs qs {}"
    and y: "GetPrevInsertablePageId (the (store b y)) = INVALID_PAGE_ID" "GetNextInsertablePageId (the (store b y)) = INVALID_PAGE_ID"
  obtains b' th' qs' where "ensure_link rops dops f y (hd_or INVALID_PAGE_ID (rev qs)) (b, th) =
      Inr (b', th', hd_or INVALID_PAGE_ID (rev qs'))" "runs {y} b b'" "link_only (xs @ y # ys) (store b) (store b')"
    "heap_free (store b') th' (xs @ [y]) qs' {}" "th' = th\<lparr>th_insertable_head := th_insertable_head th'\<rparr>"
    "room (bpm_disk b') = room (bpm_disk b)"
proof -
  let ?ps = "xs @ y # ys" and ?t = "hd_or INVALID_PAGE_ID (rev qs)"
  note PD = heap_pagesD [OF P] and FD = heap_freeD [OF F]
  have yx: "y \<notin> set xs" "INVALID_PAGE_ID \<notin> set xs" "y \<in> set ?ps" "y \<noteq> INVALID_PAGE_ID" "set xs \<subseteq> set ?ps" using PD(2,3) by auto
  obtain d where d: "store b y = Some d" "wf_tpage d" "length d = PAGE_SIZE" using heap_page [OF P yx(3)] by metis
  note fd = fdata_store [OF f(1) d(1)] and can = CanHostAnyTuple_fits [OF d(2)]
  show thesis
  proof (cases "insert_fits 1 d \<and> qs \<noteq> []")
    case False
    let ?th = "if insert_fits 1 d then th\<lparr>th_insertable_head := y\<rparr> else th"
    have "heap_free (store b) ?th (xs @ [y]) (if insert_fits 1 d then qs @ [y] else qs) {}"
      by (rule free_append [OF F yx(1) link_only_refl [OF P] yx(5)])
        (use False y d(1) yx in \<open>auto split: if_splits\<close>)
    moreover have "runs {y} b b" using runs_mono [OF runs_refl [OF ok]] by simp
    ultimately show thesis
      using that [of b ?th "if insert_fits 1 d then qs @ [y] else qs"] False fd can link_only_refl [OF P]
      by (auto simp: ensure_link_def)
  next
    case True
    then have t: "?t = last qs" "last qs \<in> set xs" using FD(2) by (cases qs rule: rev_cases; auto)+
    have tps: "?t \<in> set ?ps" "?t \<noteq> INVALID_PAGE_ID" "?t \<noteq> y" using t yx by auto
    have dom: "store b ?t \<noteq> None" if "?t \<noteq> INVALID_PAGE_ID" using PD(4) [OF tps(1)] by auto
    obtain b1 where 1: "(if ?t \<noteq> INVALID_PAGE_ID then with_page rops dops ?t ''Failed to fetch insertable tail page.''
        (SetNextInsertablePageId y) b else Inr b) = Inr b1" "runs {} b b1"
      "store b1 = relink (store b) ?t (SetNextInsertablePageId y)" "room (bpm_disk b1) = room (bpm_disk b)"
      by (rule runs_relink [where h = "SetNextInsertablePageId y", OF ok dom sp length_link_setters(2)])
    note F1 = runs_frame [OF 1(2) f]
    have lo1: "link_only ?ps (store b) (store b1)" "heap_pages (store b1) schema ?ps"
      unfolding 1(3) by (rule relink_link_only [OF P disjI2 [OF tps(1)] disjI2 [OF refl]])+
    obtain d1 where d1: "store b1 y = Some d1" "length d1 = PAGE_SIZE" using heap_page [OF lo1(2) yx(3)] by metis
    note m = runs_mod_frame [where h = "SetPrevInsertablePageId ?t", OF runsD(1) [OF 1(2)] F1(1,2) d1(1)]
    let ?b2 = "mod_frame f (SetPrevInsertablePageId ?t) b1"
    have 2: "runs {y} b1 ?b2" "store ?b2 = relink (store b1) y (SetPrevInsertablePageId ?t)" "bpm_disk ?b2 = bpm_disk b1"
      using m d1 yx(4) by (simp_all add: length_link_setters relink_def)
    have lo2: "link_only ?ps (store b1) (store ?b2)"
      unfolding 2(2) by (rule relink_link_only [OF lo1(2) disjI2 [OF yx(3)] disjI1 [OF refl]])
    have lo: "link_only ?ps (store b) (store ?b2)" by (rule link_only_trans [OF lo1(1) lo2])
    have lk: "GetPrevInsertablePageId (the (store ?b2 q)) = (if q = y then ?t else GetPrevInsertablePageId (the (store b q)))"
      "GetNextInsertablePageId (the (store ?b2 q)) = (if q = ?t then y else GetNextInsertablePageId (the (store b q)))"
      if q: "q \<in> set ?ps" for q
      using relink_links [OF P disjI2 [OF tps(1)] q] relink_links [OF lo1(2) disjI2 [OF yx(3)] q] by (simp_all add: 2(2) 1(3))
    have fits: "insert_fits 1 (the (store ?b2 y))" using heap_free_fits [OF lo yx(3)] True d(1) by simp
    have "heap_free (store ?b2) th (xs @ [y]) (if True then qs @ [y] else qs) {}"
      by (rule free_append [OF F yx(1) lo yx(5)]) (use lk yx fits True y tps in \<open>auto split: if_splits\<close>)
    moreover have "runs {y} b ?b2" using runs_trans [OF 1(2) 2(1)] by simp
    moreover have "ensure_link rops dops f y ?t (b, th) = Inr (?b2, th, y)"
      using 1(1) True tps(2) fd can by (simp add: ensure_link_def)
    ultimately show thesis using that [of ?b2 th "qs @ [y]"] lo 1(4) 2(3) by simp
  qed
qed

lemma ensure_loop_law:
  "bp_ok b \<Longrightarrow> heap_pages (store b) schema (xs @ ys) \<Longrightarrow> heap_free (store b) th xs qs {} \<Longrightarrow> 1 < spares b \<Longrightarrow>
   \<exists>b' th' qs'. ensure_loop rops dops (hd_or INVALID_PAGE_ID (rev qs)) (hd_or INVALID_PAGE_ID ys) b th = Some (Inr (b', th')) \<and>
     runs {} b b' \<and> link_only (xs @ ys) (store b) (store b') \<and> heap_free (store b') th' (xs @ ys) qs' {} \<and>
     th' = th\<lparr>th_insertable_head := th_insertable_head th', th_last_page_id := (if ys = [] then th_last_page_id th else last ys)\<rparr> \<and>
     room (bpm_disk b') = room (bpm_disk b)"
proof (induction ys arbitrary: b th qs xs)
  case Nil
  then show ?case
    using runs_refl [of b] link_only_refl [of "store b" schema xs]
    by (subst ensure_loop.simps) (auto intro!: exI [of _ qs])
next
  case (Cons y ys)
  note ok = Cons.prems(1) and P = Cons.prems(2) and F = Cons.prems(3) and sp = Cons.prems(4)
  let ?ps = "xs @ y # ys" and ?t = "hd_or INVALID_PAGE_ID (rev qs)"
  note PD = heap_pagesD [OF P]
  have y: "y \<in> set ?ps" "y \<noteq> INVALID_PAGE_ID" "y \<notin> set xs" using PD(2,3) by auto
  obtain d where d: "store b y = Some d" "GetNextPageId d = succ_in INVALID_PAGE_ID ?ps y" "length d = PAGE_SIZE"
    using heap_page [OF P y(1)] by metis
  have nxt: "GetNextPageId d = hd_or INVALID_PAGE_ID ys" using d(2) succ_in_at [OF PD(2)] by simp
  obtain b1 f where 1: "FetchPage rops dops y b = Inr (b1, Some f)" "bp_ok b1" "page_table b1 y = Some f"
    "0 < pins b1 y" "fdata b1 f = d" "store b1 = store b" "1 \<le> spares b1" "room (bpm_disk b1) = room (bpm_disk b)" "closes y b b1"
    by (rule use_page [OF ok d(1) sp])
  let ?b2 = "mod_frame f (SetNextInsertablePageId INVALID_PAGE_ID) (mod_frame f (SetPrevInsertablePageId INVALID_PAGE_ID) b1)"
  note m = runs_mod_frame2 [where h = "SetPrevInsertablePageId INVALID_PAGE_ID" and g = "SetNextInsertablePageId INVALID_PAGE_ID",
      OF 1(2-4) d(1) [folded 1(6)]]
  have 2: "runs {y} b1 ?b2" "bpm_disk ?b2 = bpm_disk b1" "store ?b2 = relink (relink (store b) y
      (SetPrevInsertablePageId INVALID_PAGE_ID)) y (SetNextInsertablePageId INVALID_PAGE_ID)"
    using m d(1,3) y(2) 1(6) by (simp_all add: length_link_setters relink_def)
  note lo1 = relink_link_only [OF P disjI2 [OF y(1)] disjI1 [OF refl], of INVALID_PAGE_ID]
  note lo2 = relink_link_only [OF lo1(2) disjI2 [OF y(1)] disjI2 [OF refl], of INVALID_PAGE_ID]
  have lo: "link_only ?ps (store b) (store ?b2)" "heap_pages (store ?b2) schema ?ps"
    unfolding 2(3) by (rule link_only_trans [OF lo1(1) lo2(1)], rule lo2(2))
  have lk: "GetPrevInsertablePageId (the (store ?b2 q)) = (if q = y then INVALID_PAGE_ID else GetPrevInsertablePageId (the (store b q)))"
    "GetNextInsertablePageId (the (store ?b2 q)) = (if q = y then INVALID_PAGE_ID else GetNextInsertablePageId (the (store b q)))"
    if q: "q \<in> set ?ps" for q
    using relink_links [OF P disjI2 [OF y(1)] q] relink_links [OF lo1(2) disjI2 [OF y(1)] q] by (simp_all add: 2(3))
  let ?th = "th\<lparr>th_last_page_id := y\<rparr>"
  have F2: "heap_free (store ?b2) ?th xs qs {}"
  proof -
    have "insert_fits 1 (the (store ?b2 q)) = insert_fits 1 (the (store b q))" if "q \<in> set xs" for q
      using heap_free_fits [OF lo(1)] that by simp
    then show ?thesis using F lk y(3) unfolding heap_free_def by auto
  qed
  note B2 = runs_frame [OF 2(1) 1(3,4)]
  have sp2: "0 < spares ?b2" using 1(7) runsD(6) [OF 2(1)] by simp
  show ?case
  proof (rule ensure_link_law [OF runsD(1) [OF 2(1)] B2(1,2) sp2 lo(2) F2])
    fix b3 th' qs' assume 3: "ensure_link rops dops f y ?t (?b2, ?th) = Inr (b3, th', hd_or INVALID_PAGE_ID (rev qs'))"
      "runs {y} ?b2 b3" "link_only ?ps (store ?b2) (store b3)" "heap_free (store b3) th' (xs @ [y]) qs' {}"
      "th' = ?th\<lparr>th_insertable_head := th_insertable_head th'\<rparr>" "room (bpm_disk b3) = room (bpm_disk ?b2)"
    have r13: "runs {y} b1 b3" using runs_trans [OF 2(1) 3(2)] by simp
    obtain b4 where u4: "UnpinPage rops y True b3 = (b4, True)" "runs ({y} - {y}) b b4" "store b4 = store b3" "bpm_disk b4 = bpm_disk b3"
      by (rule closesE [OF 1(9) r13])
    note 4 = u4 [unfolded Diff_cancel]
    have lo3: "link_only ?ps (store b) (store b4)" unfolding 4(3) by (rule link_only_trans [OF lo(1) 3(3)])
    have P4: "heap_pages (store b4) schema ((xs @ [y]) @ ys)" using link_only_pages(1) [OF lo3 P] by simp
    have F4: "heap_free (store b4) th' (xs @ [y]) qs' {}" using 3(4) 4(3) by simp
    have sp4: "1 < spares b4" using sp runsD(6) [OF 4(2)] by simp
    obtain b' th2 qs2 where 5: "ensure_loop rops dops (hd_or INVALID_PAGE_ID (rev qs')) (hd_or INVALID_PAGE_ID ys) b4 th' = Some (Inr (b', th2))"
      "runs {} b4 b'" "link_only ((xs @ [y]) @ ys) (store b4) (store b')" "heap_free (store b') th2 ((xs @ [y]) @ ys) qs2 {}"
      "th2 = th'\<lparr>th_insertable_head := th_insertable_head th2, th_last_page_id := (if ys = [] then th_last_page_id th' else last ys)\<rparr>"
      "room (bpm_disk b') = room (bpm_disk b4)"
      using Cons.IH [OF runsD(1) [OF 4(2)] P4 F4 sp4] by blast
    have "ensure_loop rops dops ?t y b th = Some (Inr (b', th2))"
      using 1(1,5) 3(1) 4(1) 5(1) y(2) nxt by (subst ensure_loop.simps) (simp add: Let_def)
    moreover have "link_only ?ps (store b) (store b')" using link_only_trans [OF lo3] 5(3) by simp
    moreover have "th2 = th\<lparr>th_insertable_head := th_insertable_head th2, th_last_page_id := last (y # ys)\<rparr>"
      using 3(5) 5(5) by (cases th; cases th'; cases th2; simp split: if_splits)
    ultimately show ?case
      using runs_trans0 [OF 4(2) 5(2)] 5(4,6) 4(4) 3(6) 2(2) 1(8) by (auto intro!: exI [of _ qs2])
  qed (use lk [OF y(1)] in simp_all)
qed

lemma Ensure_law:
  assumes ok: "bp_ok b" and H: "heap_ok (store b) th ps" and sp: "1 < spares b"
  obtains b' th' qs where "EnsureHeapMetadata rops dops (b, th) = Some (Inr (b', th'))" "runs {} b b'"
    "link_only ps (store b) (store b')" "heap_ok (store b') th' ps" "th_built th'" "heap_free (store b') th' ps qs {}"
    "th_schema th' = th_schema th" "th_first_page_id th' = th_first_page_id th" "room (bpm_disk b') = room (bpm_disk b)"
proof -
  have P: "heap_pages (store b) (th_schema th) ps" and first: "th_first_page_id th = hd ps"
    using H by (simp_all add: heap_ok_def)
  note PD = heap_pagesD [OF P]
  show thesis
  proof (cases "th_built th")
    case True
    then obtain qs where "heap_free (store b) th ps qs {}" using H by (auto simp: heap_ok_def)
    then show thesis
      using that [of b th qs] True H runs_refl [OF ok] link_only_refl [OF P] by (simp add: EnsureHeapMetadata_def)
  next
    case False
    let ?th = "th\<lparr>th_insertable_head := INVALID_PAGE_ID, th_last_page_id := INVALID_PAGE_ID\<rparr>"
    have F0: "heap_free (store b) ?th [] [] {}" by (simp add: heap_free_def)
    obtain b' th1 qs where 1: "ensure_loop rops dops INVALID_PAGE_ID (hd_or INVALID_PAGE_ID ps) b ?th = Some (Inr (b', th1))"
      "runs {} b b'" "link_only ps (store b) (store b')" "heap_free (store b') th1 ps qs {}"
      "th1 = ?th\<lparr>th_insertable_head := th_insertable_head th1, th_last_page_id := last ps\<rparr>"
      "room (bpm_disk b') = room (bpm_disk b)"
      using ensure_loop_law [OF ok _ F0 sp, of "th_schema th" ps] P PD(1) by auto
    have "last ps \<noteq> INVALID_PAGE_ID" using PD(1,3) by (metis last_in_set)
    moreover have "th_last_page_id th1 = last ps" "th_first_page_id th1 = hd ps" "th_schema th1 = th_schema th"
      using arg_cong [OF 1(5), of th_last_page_id] arg_cong [OF 1(5), of th_first_page_id] arg_cong [OF 1(5), of th_schema]
        first by simp_all
    moreover have "hd_or INVALID_PAGE_ID ps = hd ps" using PD(1) by (cases ps) simp_all
    moreover have "heap_free (store b') (th1\<lparr>th_built := True\<rparr>) ps qs {}" using 1(4) by (simp add: heap_free_def)
    ultimately show thesis
      using that [of b' "th1\<lparr>th_built := True\<rparr>" qs] 1(1-3,6) False first link_only_pages(1) [OF 1(3) P]
      by (auto simp: EnsureHeapMetadata_def Let_def heap_ok_def)
  qed
qed

end

end
