(* ===== verification/Heap_Ops.thy ===== *)
theory Heap_Ops
  imports Heap_Laws
begin

text \<open>
  The tuple operations of the table heap on the map of stored tuples.
\<close>

context buffer_pool
begin

lemma Refresh_noop:
  assumes f: "page_table b p = Some f" and P: "heap_pages (store b) schema ps" and F: "heap_free (store b) th ps qs {}"
    and p: "p \<in> set ps"
  shows "RefreshInsertablePage rops dops f p (b, th) = Inr (b, th)"
proof -
  obtain d where d: "store b p = Some d" "wf_tpage d" using heap_page [OF P p] by metis
  note fd = fdata_store [OF f d(1)]
  have "IsInsertablePageTracked th d p \<longleftrightarrow> insert_fits 1 d"
    using free_iff [OF P F p] heap_freeD(6) [OF F p] d(1) by simp
  then show ?thesis using fd CanHostAnyTuple_fits [OF d(2)] by (auto simp: RefreshInsertablePage_def)
qed

lemma write_frame_same:
  assumes "bp_ok b" "page_table b p = Some f"
  shows "write_frame f (fdata b f) b = b"
proof -
  have "nat f < length (pages b)"
    using in_pool_index [OF resident(1) [OF conjunct1 [OF assms(1)] assms(2)] inv_butD(1) [OF conjunct1 [OF assms(1)]]] .
  then show ?thesis by (simp add: write_frame_def upd_frame_def)
qed

text \<open>The effect of a change of tuples on a heap: \<open>ps'\<close> are its pages afterwards, \<open>m\<close> its tuples.\<close>

definition heap_becomes :: "('r, 'd) bpm \<Rightarrow> TableHeap \<Rightarrow> page_id_t list \<Rightarrow> (RowId \<Rightarrow> (byte list \<times> bool) option) \<Rightarrow>
    ('r, 'd) bpm \<Rightarrow> TableHeap \<Rightarrow> bool" where
  "heap_becomes b th ps' m b' th' \<longleftrightarrow> runs {} b b' \<and> heap_ok (store b') th' ps' \<and> heap_map (store b') ps' = m \<and>
     (\<forall>q. q \<notin> set ps' \<longrightarrow> store b' q = store b q) \<and> th_schema th' = th_schema th \<and>
     th_first_page_id th' = th_first_page_id th \<and> th_built th'"

lemma heap_becomes_trans:
  assumes "heap_becomes b th ps m b1 th1" "heap_becomes b1 th1 ps' m' b2 th2" "set ps \<subseteq> set ps'"
  shows "heap_becomes b th ps' m' b2 th2"
  using assms runs_trans0 [of b b1 b2] unfolding heap_becomes_def by auto

lemma Ensure_becomes:
  assumes "bp_ok b" "heap_ok (store b) th ps" "1 < spares b"
  obtains b' th' qs where "EnsureHeapMetadata rops dops (b, th) = Some (Inr (b', th'))"
    "heap_becomes b th ps (heap_map (store b) ps) b' th'" "heap_free (store b') th' ps qs {}"
    "room (bpm_disk b') = room (bpm_disk b)" "link_only ps (store b) (store b')"
proof (rule Ensure_law [OF assms])
  fix b' th' qs assume 1: "EnsureHeapMetadata rops dops (b, th) = Some (Inr (b', th'))" "runs {} b b'"
    "link_only ps (store b) (store b')" "heap_ok (store b') th' ps" "th_built th'" "heap_free (store b') th' ps qs {}"
    "th_schema th' = th_schema th" "th_first_page_id th' = th_first_page_id th" "room (bpm_disk b') = room (bpm_disk b)"
  have "heap_pages (store b) (th_schema th) ps" using assms(2) by (simp add: heap_ok_def)
  note M = link_only_pages(2) [OF 1(3) this]
  have "\<forall>q. q \<notin> set ps \<longrightarrow> store b' q = store b q" using 1(3) by (simp add: link_only_def)
  with M 1 show thesis by (intro that [of b' th' qs]) (simp_all add: heap_becomes_def)
qed

text \<open>Changing the tuples of a page that is pinned and refreshing the list.\<close>

lemma put_refresh:
  assumes ok: "bp_ok b" and f: "page_table b p = Some f" "0 < pins b p" and sp: "0 < spares b"
    and P: "heap_pages (store b) schema ps" and F: "heap_free (store b) th ps qs {}" and p: "p \<in> set ps"
    and d: "store b p = Some d" "tp_ok schema p d'" "links d' = links d"
  obtains b' th' qs' where "RefreshInsertablePage rops dops f p (write_frame f d' b, th) = Inr (b', th')" "runs {p} b b'"
    "heap_pages (store b') schema ps" "heap_free (store b') th' ps qs' {}"
    "heap_map (store b') ps = (\<lambda>rid. if rid_page_id rid = p then tp_tuple d' (unat (rid_slot_num rid)) else heap_map (store b) ps rid)"
    "\<forall>q. q \<notin> set ps \<longrightarrow> store b' q = store b q" "th' = th\<lparr>th_insertable_head := th_insertable_head th'\<rparr>"
    "room (bpm_disk b') = room (bpm_disk b)"
proof -
  have len: "length d' = PAGE_SIZE" using d(2) wf_tpageD(1) by (simp add: tp_ok_def)
  note W = runs_write [OF ok f len]
  note H = heap_put [OF P p d]
  note B = runs_frame [OF W(1) f]
  have sp1: "0 < spares (write_frame f d' b)" using sp runsD(6) [OF W(1)] by simp
  have P1: "heap_pages (store (write_frame f d' b)) schema ps" and F1: "heap_free (store (write_frame f d' b)) th ps qs {p}"
    unfolding W(2) using H(1) H(3) [OF F] by simp_all
  show thesis
  proof (rule Refresh_law [OF runsD(1) [OF W(1)] B(1,2) sp1 P1 F1 p])
    fix b' th' qs' assume 2: "RefreshInsertablePage rops dops f p (write_frame f d' b, th) = Inr (b', th')"
      "runs {p} (write_frame f d' b) b'" "link_only ps (store (write_frame f d' b)) (store b')"
      "heap_free (store b') th' ps qs' {}" "th' = th\<lparr>th_insertable_head := th_insertable_head th'\<rparr>"
      "room (bpm_disk b') = room (bpm_disk (write_frame f d' b))"
    have oth: "\<forall>q. q \<notin> set ps \<longrightarrow> store b' q = store b q" using 2(3) p by (auto simp: link_only_def W(2))
    have r: "runs {p} b b'" using runs_trans [OF W(1) 2(2)] by simp
    have m: "heap_map (store b') ps = (\<lambda>rid. if rid_page_id rid = p then tp_tuple d' (unat (rid_slot_num rid))
        else heap_map (store b) ps rid)"
      using link_only_pages(2) [OF 2(3) P1] H(2) W(2) by simp
    show thesis
      by (rule that [OF 2(1) r link_only_pages(1) [OF 2(3) P1] 2(4) m oth 2(5)]) (simp add: 2(6) W(3))
  qed
qed

section \<open>InsertTuple\<close>

lemma insert_page_ok:
  assumes ok: "tp_ok schema p d" and r: "row_ok schema r" and n: "length (row_enc r) \<le> SIZE_MAX_ROW"
    and fits: "insert_fits (length (row_enc r)) d"
  defines "s \<equiv> insert_slot d" and "d' \<equiv> insert_page (insert_slot d) (row_enc r) d"
  shows "InsertTuple r schema d = Inr (d', r\<lparr>row_rid := mk_RowId p (of_nat s)\<rparr>, True)" "tp_ok schema p d'"
    "links d' = links d" "tp_tuple d' = (tp_tuple d)(s \<mapsto> (row_enc r, False))" "tp_tuple d s = None"
    "unat (of_nat s :: 32 word) = s"
proof -
  have wf: "wf_tpage d" and id: "GetTablePageId d = p" using ok by (simp_all add: tp_ok_def)
  have len: "length (row_enc r) < 2 ^ 31" using n by (simp add: SIZE_MAX_ROW_def PAGE_SIZE_def)
  note S = insert_fits_slot [OF wf fits row_enc_pos]
  note room = fits [unfolded insert_fits_def]
  note W = insert_page_wf [OF wf insert_slot_free(1) S(1) insert_slot_free(2) row_enc_pos room]
  note G = insert_page_getters [OF wf insert_slot_free(1) S(1) row_enc_pos room]
  show "InsertTuple r schema d = Inr (d', r\<lparr>row_rid := mk_RowId p (of_nat s)\<rparr>, True)"
    using InsertTuple_effect [OF wf r len] fits id by (simp add: d'_def s_def)
  show t: "tp_tuple d' = (tp_tuple d)(s \<mapsto> (row_enc r, False))" using W(2) by (simp add: d'_def s_def)
  show "tp_ok schema p d'"
    by (rule tp_ok_update [OF ok]) (use W(1) G(5) r t in \<open>auto simp: d'_def split: if_splits\<close>)
  show "links d' = links d" using G(12) by (simp add: d'_def)
  show "tp_tuple d s = None" using insert_slot_free(1,2) [of d] by (auto simp: tp_tuple_def s_def)
  show "unat (of_nat s :: 32 word) = s" using S(1) by (simp add: s_def unat_of_nat_small)
qed

text \<open>The map with one more tuple, as the page maps give it.\<close>

lemma heap_map_insert:
  assumes "heap_map S ps (mk_RowId p (of_nat s)) = None" "tp_tuple d' = (tp_tuple d)(s \<mapsto> v)" "unat (of_nat s :: 32 word) = s"
    and "\<And>rid. rid_page_id rid = p \<Longrightarrow> heap_map S ps rid = tp_tuple d (unat (rid_slot_num rid))"
  shows "(\<lambda>rid. if rid_page_id rid = p then tp_tuple d' (unat (rid_slot_num rid)) else heap_map S ps rid) =
    (heap_map S ps)(mk_RowId p (of_nat s) \<mapsto> v)"
proof
  fix rid :: RowId
  have iff: "rid = mk_RowId p (of_nat s) \<longleftrightarrow> rid_page_id rid = p \<and> unat (rid_slot_num rid) = s"
  proof
    assume *: "rid_page_id rid = p \<and> unat (rid_slot_num rid) = s"
    have "rid_slot_num rid = of_nat (unat (rid_slot_num rid))" by simp
    with * have "rid_slot_num rid = of_nat s" by (simp only:)
    with * show "rid = mk_RowId p (of_nat s)" by (cases rid) (simp add: mk_RowId_def)
  qed (use assms(3) in simp)
  show "(if rid_page_id rid = p then tp_tuple d' (unat (rid_slot_num rid)) else heap_map S ps rid) =
      ((heap_map S ps)(mk_RowId p (of_nat s) \<mapsto> v)) rid"
    unfolding fun_upd_apply iff assms(2) using assms(4) [of rid] by simp
qed

definition inserted :: "('r, 'd) bpm \<Rightarrow> TableHeap \<Rightarrow> page_id_t list \<Rightarrow> Row \<Rightarrow> ('r, 'd) bpm \<Rightarrow> TableHeap \<Rightarrow> page_id_t list \<Rightarrow> Row \<Rightarrow> bool" where
  "inserted b th ps r b' th' ps' r' \<longleftrightarrow> (\<exists>rid. r' = r\<lparr>row_rid := rid\<rparr> \<and> heap_map (store b) ps rid = None \<and> rid_page_id rid \<in> set ps' \<and>
     heap_becomes b th ps' ((heap_map (store b) ps)(rid \<mapsto> (row_enc r, False))) b' th')"

lemma insert_try_law:
  assumes ok: "bp_ok b" and H: "heap_ok (store b) th ps" "th_built th" "heap_free (store b) th ps qs {}" and sp: "1 < spares b"
    and p: "p \<in> set ps" and r: "row_ok (th_schema th) r" "length (row_enc r) \<le> SIZE_MAX_ROW"
  obtains d b1 f where "store b p = Some d" "FetchPage rops dops p b = Inr (b1, Some f)" "fdata b1 f = d"
    "\<exists>b'. if insert_fits (length (row_enc r)) d
       then \<exists>th' r'. insert_try rops dops r f p (b1, th) = Inr ((b', th'), r', True) \<and> inserted b th ps r b' th' ps r'
       else insert_try rops dops r f p (b1, th) = Inr ((b', th), r, False) \<and> runs {} b b' \<and> store b' = store b \<and>
         room (bpm_disk b') = room (bpm_disk b)"
proof -
  have P: "heap_pages (store b) (th_schema th) ps" and last: "th_last_page_id th = last ps" and first: "th_first_page_id th = hd ps"
    using H(1,2) by (simp_all add: heap_ok_def)
  obtain d where d: "store b p = Some d" "tp_ok (th_schema th) p d" "wf_tpage d" using heap_page [OF P p] by metis
  obtain b1 f where 1: "FetchPage rops dops p b = Inr (b1, Some f)" "bp_ok b1" "page_table b1 p = Some f"
    "0 < pins b1 p" "fdata b1 f = d" "store b1 = store b" "1 \<le> spares b1" "room (bpm_disk b1) = room (bpm_disk b)" "closes p b b1"
    by (rule use_page [OF ok d(1) sp])
  note P1 = P [folded 1(6)] and F1 = H(3) [folded 1(6)] and d1 = d(1) [folded 1(6)]
  show thesis
  proof (rule that [OF d(1) 1(1) 1(5)], cases "insert_fits (length (row_enc r)) d")
    case True
    note I = insert_page_ok [OF d(2) r True]
    let ?s = "insert_slot d" and ?d = "insert_page (insert_slot d) (row_enc r) d"
    have sp1: "0 < spares b1" using 1(7) by simp
    obtain b2 th' qs' where 2: "RefreshInsertablePage rops dops f p (write_frame f ?d b1, th) = Inr (b2, th')" "runs {p} b1 b2"
      "heap_pages (store b2) (th_schema th) ps" "heap_free (store b2) th' ps qs' {}"
      "heap_map (store b2) ps = (\<lambda>rid. if rid_page_id rid = p then tp_tuple ?d (unat (rid_slot_num rid)) else heap_map (store b1) ps rid)"
      "\<forall>q. q \<notin> set ps \<longrightarrow> store b2 q = store b1 q" "th' = th\<lparr>th_insertable_head := th_insertable_head th'\<rparr>"
      "room (bpm_disk b2) = room (bpm_disk b1)"
      by (rule put_refresh [OF 1(2-4) sp1 P1 F1 p d1 I(2,3)])
    obtain b3 where 3: "UnpinPage rops p True b2 = (b3, True)" "runs ({p} - {p}) b b3" "store b3 = store b2" "bpm_disk b3 = bpm_disk b2"
      by (rule closesE [OF 1(9) 2(2)])
    let ?rid = "mk_RowId p (of_nat ?s)"
    have at: "heap_map (store b) ps rid = tp_tuple d (unat (rid_slot_num rid))" if "rid_page_id rid = p" for rid
      using that p d(1) by (simp add: heap_map_def)
    have none: "heap_map (store b) ps ?rid = None" using at [of ?rid] I(5,6) by simp
    have map: "heap_map (store b3) ps = (heap_map (store b) ps)(?rid \<mapsto> (row_enc r, False))"
      unfolding 3(3) 2(5) 1(6) by (rule heap_map_insert [OF none I(4,6) at])
    have th: "th_schema th' = th_schema th" "th_first_page_id th' = hd ps" "th_last_page_id th' = last ps" "th_built th'"
      using arg_cong [OF 2(7), of th_schema] arg_cong [OF 2(7), of th_first_page_id] arg_cong [OF 2(7), of th_last_page_id]
        arg_cong [OF 2(7), of th_built] first last H(2) by simp_all
    have "heap_ok (store b3) th' ps" unfolding heap_ok_def using 2(3,4) 3(3) th by auto
    then have "inserted b th ps r b3 th' ps (r\<lparr>row_rid := ?rid\<rparr>)"
      unfolding inserted_def heap_becomes_def using none map 3(2,3) 2(6) 1(6) th first p by (intro exI [of _ ?rid]) simp
    moreover have "insert_try rops dops r f p (b1, th) = Inr ((b3, th'), r\<lparr>row_rid := ?rid\<rparr>, True)"
      using I(1) 1(5) 2(1) 3(1) by (simp add: insert_try_def)
    ultimately show "\<exists>b'. if insert_fits (length (row_enc r)) d
       then \<exists>th' r'. insert_try rops dops r f p (b1, th) = Inr ((b', th'), r', True) \<and> inserted b th ps r b' th' ps r'
       else insert_try rops dops r f p (b1, th) = Inr ((b', th), r, False) \<and> runs {} b b' \<and> store b' = store b \<and>
         room (bpm_disk b') = room (bpm_disk b)" using True by auto
  next
    case False
    have len: "length (row_enc r) < 2 ^ 31" using r(2) by (simp add: SIZE_MAX_ROW_def PAGE_SIZE_def)
    have ins: "InsertTuple r (th_schema th) d = Inr (d, r, False)" using InsertTuple_effect [OF d(3) r(1) len] False by simp
    have same: "write_frame f d b1 = b1" using write_frame_same [OF 1(2,3)] 1(5) by simp
    have rf: "RefreshInsertablePage rops dops f p (b1, th) = Inr (b1, th)" by (rule Refresh_noop [OF 1(3) P1 F1 p])
    obtain b3 where 3: "UnpinPage rops p True b1 = (b3, True)" "runs ({} - {p}) b b3" "store b3 = store b1" "bpm_disk b3 = bpm_disk b1"
      by (rule closesE [OF 1(9) runs_refl [OF 1(2)]])
    have "insert_try rops dops r f p (b1, th) = Inr ((b3, th), r, False)"
      using ins 1(5) same rf 3(1) by (simp add: insert_try_def)
    then show "\<exists>b'. if insert_fits (length (row_enc r)) d
       then \<exists>th' r'. insert_try rops dops r f p (b1, th) = Inr ((b', th'), r', True) \<and> inserted b th ps r b' th' ps r'
       else insert_try rops dops r f p (b1, th) = Inr ((b', th), r, False) \<and> runs {} b b' \<and> store b' = store b \<and>
         room (bpm_disk b') = room (bpm_disk b)" using False 3 1(6,8) by auto
  qed
qed

lemma insert_loop_law:
  "bp_ok b \<Longrightarrow> heap_ok (store b) th ps \<Longrightarrow> th_built th \<Longrightarrow> heap_free (store b) th ps (xs @ cs) {} \<Longrightarrow> 1 < spares b \<Longrightarrow>
   row_ok (th_schema th) r \<Longrightarrow> length (row_enc r) \<le> SIZE_MAX_ROW \<Longrightarrow>
   (\<exists>b'. insert_loop rops dops r (hd_or INVALID_PAGE_ID cs) b th = Some (Inr ((b', th), r, None)) \<and> runs {} b b' \<and>
      store b' = store b \<and> room (bpm_disk b') = room (bpm_disk b)) \<or>
   (\<exists>b' th' r'. insert_loop rops dops r (hd_or INVALID_PAGE_ID cs) b th = Some (Inr ((b', th'), r', Some True)) \<and>
      inserted b th ps r b' th' ps r')"
proof (induction cs arbitrary: b xs)
  case Nil
  then show ?case using runs_refl [of b] by (subst insert_loop.simps) auto
next
  case (Cons y ys)
  note ok = Cons.prems(1) and H = Cons.prems(2,3,4) and sp = Cons.prems(5) and r = Cons.prems(6,7)
  have P: "heap_pages (store b) (th_schema th) ps" using H(1) by (simp add: heap_ok_def)
  have y: "y \<in> set ps" using heap_freeD(2) [OF H(3)] by simp
  have yz: "y \<noteq> INVALID_PAGE_ID" using heap_pagesD(3) [OF P] y by auto
  show ?case
  proof (rule insert_try_law [OF ok H sp y r])
    fix d b1 f assume 1: "store b y = Some d" "FetchPage rops dops y b = Inr (b1, Some f)" "fdata b1 f = d"
      "\<exists>b'. if insert_fits (length (row_enc r)) d
       then \<exists>th' r'. insert_try rops dops r f y (b1, th) = Inr ((b', th'), r', True) \<and> inserted b th ps r b' th' ps r'
       else insert_try rops dops r f y (b1, th) = Inr ((b', th), r, False) \<and> runs {} b b' \<and> store b' = store b \<and>
         room (bpm_disk b') = room (bpm_disk b)"
    have nxt: "GetNextInsertablePageId d = hd_or INVALID_PAGE_ID ys"
      using heap_freeD(5) [OF H(3) y] 1(1) succ_in_at [OF heap_freeD(1) [OF H(3)]] by simp
    show ?case
    proof (cases "insert_fits (length (row_enc r)) d")
      case True
      with 1(4) obtain b' th' r' where "insert_try rops dops r f y (b1, th) = Inr ((b', th'), r', True)"
        "inserted b th ps r b' th' ps r'" by auto
      then show ?thesis using 1(2) yz by (subst (1 2) insert_loop.simps) (auto simp: Let_def)
    next
      case False
      with 1(4) obtain b2 where 2: "insert_try rops dops r f y (b1, th) = Inr ((b2, th), r, False)" "runs {} b b2"
        "store b2 = store b" "room (bpm_disk b2) = room (bpm_disk b)" by auto
      have step: "insert_loop rops dops r y b th = insert_loop rops dops r (hd_or INVALID_PAGE_ID ys) b2 th"
        using 1(2,3) 2(1) yz nxt by (subst insert_loop.simps) (simp add: Let_def)
      have F2: "heap_free (store b2) th ps ((xs @ [y]) @ ys) {}" using H(3) 2(3) by simp
      have sp2: "1 < spares b2" using sp runsD(6) [OF 2(2)] by simp
      have tr: "inserted b th ps r b' th' ps r'" if "inserted b2 th ps r b' th' ps r'" for b' th' r'
        using that runs_trans0 [OF 2(2)] 2(3) unfolding inserted_def heap_becomes_def by auto
      have H2: "heap_ok (store b2) th ps" using H(1) 2(3) by simp
      consider b' where "insert_loop rops dops r (hd_or INVALID_PAGE_ID ys) b2 th = Some (Inr ((b', th), r, None))" "runs {} b2 b'"
          "store b' = store b2" "room (bpm_disk b') = room (bpm_disk b2)"
        | b' th' r' where "insert_loop rops dops r (hd_or INVALID_PAGE_ID ys) b2 th = Some (Inr ((b', th'), r', Some True))"
          "inserted b2 th ps r b' th' ps r'"
        using Cons.IH [OF runsD(1) [OF 2(2)] H2 H(2) F2 sp2 r] by blast
      then show ?thesis
      proof cases
        case (1 b')
        then show ?thesis using runs_trans0 [OF 2(2)] 2(3,4) unfolding hd_or_simps step by simp
      next
        case (2 b' th' r')
        then show ?thesis using tr unfolding hd_or_simps step by blast
      qed
    qed
  qed
qed

lemma insert_append_law:
  assumes ok: "bp_ok b" and H: "heap_ok (store b) th ps" "th_built th" "heap_free (store b) th ps qs {}" and sp: "1 < spares b"
    and room: "room (bpm_disk b)" and r: "row_ok (th_schema th) r" "length (row_enc r) \<le> SIZE_MAX_ROW"
  obtains b' th' r' p where "insert_append rops dops r (b, th) = Inr ((b', th'), r', True)" "inserted b th ps r b' th' (ps @ [p]) r'"
    "p \<notin> set ps" "store b p = None"
proof -
  have P: "heap_pages (store b) (th_schema th) ps" and lst: "th_last_page_id th = last ps" and first: "th_first_page_id th = hd ps"
    using H(1,2) by (simp_all add: heap_ok_def)
  note PD = heap_pagesD [OF P]
  have last: "last ps \<in> set ps" "last ps \<noteq> INVALID_PAGE_ID" using PD(1,3) by (metis last_in_set)+
  obtain b1 f p where 1: "NewPage rops dops b = Inr (b1, Some (f, p))" "bp_ok b1" "page_table b1 p = Some f"
    "0 < pins b1 p" "fdata b1 f = zero_page" "store b p = None" "p \<noteq> INVALID_PAGE_ID"
    "store b1 = (store b)(p \<mapsto> zero_page)" "1 \<le> spares b1" "closes p b b1"
    by (rule new_page [OF ok room sp])
  have new: "p \<notin> set ps" using PD(4) [of p] 1(6) by auto
  let ?ini = "TablePage_Init p (last ps) zero_page"
  have z: "length zero_page = PAGE_SIZE" by (simp add: zero_page_def)
  note G = TablePage_Init_getters [OF z, of p "last ps"] and W0 = TablePage_Init_wf [OF z, of p "last ps"]
  have lk: "GetPrevInsertablePageId ?ini = INVALID_PAGE_ID" "GetNextInsertablePageId ?ini = INVALID_PAGE_ID"
    using z by (simp_all add: TablePage_Init_def Let_def tp_acc tp_consts layout_simps PAGE_SIZE_def)
  have ok0: "tp_ok (th_schema th) p ?ini" using W0 G(5) by (simp add: tp_ok_def)
  have fits: "insert_fits (length (row_enc r)) ?ini" using r(2) Init_fits [OF z] by simp
  note I = insert_page_ok [OF ok0 r fits]
  let ?s = "insert_slot ?ini" and ?d = "insert_page (insert_slot ?ini) (row_enc r) ?ini"
  have len: "length ?d = PAGE_SIZE" using I(2) wf_tpageD(1) by (simp add: tp_ok_def)
  let ?b2 = "write_frame f ?d (mod_frame f (TablePage_Init p (last ps)) b1)"
  note M = runs_mod_frame [where h = "TablePage_Init p (last ps)", OF 1(2-4), of zero_page]
  have m: "runs {p} b1 (mod_frame f (TablePage_Init p (last ps)) b1)" "fdata (mod_frame f (TablePage_Init p (last ps)) b1) f = ?ini"
    "store (mod_frame f (TablePage_Init p (last ps)) b1) = (store b)(p \<mapsto> ?ini)"
    using M G(1) 1(8) by simp_all
  note Wr = runs_write [OF runsD(1) [OF m(1)] runs_frame(1,2) [OF m(1) 1(3,4)] len]
  have r2: "runs {p} b1 ?b2" using runs_trans [OF m(1) Wr(1)] by simp
  have S2: "store ?b2 = (store b)(p \<mapsto> ?d)" using Wr(2) m(3) by simp
  have sp2: "0 < spares ?b2" using 1(9) runsD(6) [OF r2] by simp
  have dom: "store ?b2 (last ps) \<noteq> None" if "last ps \<noteq> INVALID_PAGE_ID" using S2 PD(4) [OF last(1)] by auto
  obtain b3 where 3: "(if last ps \<noteq> INVALID_PAGE_ID then with_page rops dops (last ps) ''Failed to fetch last table page.''
      (SetNextPageId p) ?b2 else Inr ?b2) = Inr b3" "runs {} ?b2 b3" "store b3 = relink (store ?b2) (last ps) (SetNextPageId p)"
      "room (bpm_disk b3) = room (bpm_disk ?b2)"
    by (rule runs_relink [where h = "SetNextPageId p", OF runsD(1) [OF r2] dom sp2 length_link_setters(3)])
  note L = links_eqD [OF I(3)]
  have lkd: "GetNextPageId ?d = INVALID_PAGE_ID" "GetPrevInsertablePageId ?d = INVALID_PAGE_ID" "GetNextInsertablePageId ?d = INVALID_PAGE_ID"
    using L lk G(7) by simp_all
  note E = heap_extend [OF P H(3) 1(6,7) I(2) lkd, folded S2, folded 3(3)]
  let ?th = "th\<lparr>th_last_page_id := p\<rparr>"
  have r3: "runs {p} b1 b3" using runs_trans [OF r2 3(2)] by simp
  note B3 = runs_frame [OF r3 1(3,4)]
  have F3: "heap_free (store b3) ?th (ps @ [p]) qs {p}" using E(2) by (simp add: heap_free_def)
  have sp3: "0 < spares b3" using 1(9) runsD(6) [OF r3] by simp
  have pin: "p \<in> set (ps @ [p])" by simp
  show thesis
  proof (rule Refresh_law [OF runsD(1) [OF r3] B3(1,2) sp3 E(1) F3 pin])
    fix b4 th' qs' assume 4: "RefreshInsertablePage rops dops f p (b3, ?th) = Inr (b4, th')" "runs {p} b3 b4"
      "link_only (ps @ [p]) (store b3) (store b4)" "heap_free (store b4) th' (ps @ [p]) qs' {}"
      "th' = ?th\<lparr>th_insertable_head := th_insertable_head th'\<rparr>" "room (bpm_disk b4) = room (bpm_disk b3)"
    have r4: "runs {p} b1 b4" using runs_trans [OF r3 4(2)] by simp
    obtain b5 where 5: "UnpinPage rops p True b4 = (b5, True)" "runs ({p} - {p}) b b5" "store b5 = store b4" "bpm_disk b5 = bpm_disk b4"
      by (rule closesE [OF 1(10) r4])
    let ?rid = "mk_RowId p (of_nat ?s)"
    have none: "heap_map (store b) ps ?rid = None" using new by (simp add: heap_map_def)
    have at: "heap_map (store b) ps rid = tp_tuple ?ini (unat (rid_slot_num rid))" if "rid_page_id rid = p" for rid
      using that new W0(2) by (simp add: heap_map_def)
    have map: "heap_map (store b5) (ps @ [p]) = (heap_map (store b) ps)(?rid \<mapsto> (row_enc r, False))"
      unfolding 5(3) link_only_pages(2) [OF 4(3) E(1)] E(3) by (rule heap_map_insert [OF none I(4,6) at])
    have th: "th_schema th' = th_schema th" "th_first_page_id th' = hd ps" "th_last_page_id th' = p" "th_built th'"
      using arg_cong [OF 4(5), of th_schema] arg_cong [OF 4(5), of th_first_page_id] arg_cong [OF 4(5), of th_last_page_id]
        arg_cong [OF 4(5), of th_built] first H(2) by simp_all
    have "heap_ok (store b5) th' (ps @ [p])"
      unfolding heap_ok_def using link_only_pages(1) [OF 4(3) E(1)] 4(4) 5(3) th PD(1) by auto
    moreover have "store b5 q = store b q" if "q \<notin> set (ps @ [p])" for q
      using 4(3) 5(3) E(4) [OF that] that by (simp add: link_only_def)
    ultimately have "inserted b th ps r b5 th' (ps @ [p]) (r\<lparr>row_rid := ?rid\<rparr>)"
      unfolding inserted_def heap_becomes_def using none map 5(2) th first by (intro exI [of _ ?rid]) simp
    moreover have "insert_append rops dops r (b, th) = Inr ((b5, th'), r\<lparr>row_rid := ?rid\<rparr>, True)"
      using 1(1) m(2) I(1) 3(1) 4(1) 5(1) last(2) by (simp add: insert_append_def lst Let_def)
    ultimately show thesis using that new 1(6) by blast
  qed
qed

lemma heap_Insert_law:
  assumes ok: "bp_ok b" and H: "heap_ok (store b) th ps" and sp: "1 < spares b" and room: "room (bpm_disk b)"
    and r: "row_ok (th_schema th) r" "length (row_enc r) \<le> SIZE_MAX_ROW"
  obtains b' th' r' ps' where "heap_InsertTuple rops dops r (b, th) = Some (Inr ((b', th'), r', True))"
    "inserted b th ps r b' th' ps' r'" "ps' = ps \<or> (\<exists>p. ps' = ps @ [p] \<and> p \<notin> set ps \<and> store b p = None)"
proof (rule Ensure_becomes [OF ok H sp])
  fix b1 th1 qs assume 1: "EnsureHeapMetadata rops dops (b, th) = Some (Inr (b1, th1))"
    "heap_becomes b th ps (heap_map (store b) ps) b1 th1" "heap_free (store b1) th1 ps qs {}"
    "room (bpm_disk b1) = room (bpm_disk b)"
  have D: "runs {} b b1" "heap_ok (store b1) th1 ps" "heap_map (store b1) ps = heap_map (store b) ps"
    "th_schema th1 = th_schema th" "th_built th1" using 1(2) by (simp_all add: heap_becomes_def)
  have hd: "th_insertable_head th1 = hd_or INVALID_PAGE_ID qs" by (rule heap_freeD(3) [OF 1(3)])
  have sp1: "1 < spares b1" using sp runsD(6) [OF D(1)] by simp
  have size: "row_GetSerializedSize r (th_schema th) = Inr (length (row_enc r))"
    "unat (of_nat (length (row_enc r)) :: 32 word) = length (row_enc r)"
    using row_size_enc [OF r(1)] r(2) by (simp_all add: unat_of_nat_small SIZE_MAX_ROW_def PAGE_SIZE_def)
  have lift: "inserted b th ps r b' th' ps' r'" if "inserted b1 th1 ps r b' th' ps' r'" "set ps \<subseteq> set ps'" for b' th' ps' r'
    using that heap_becomes_trans [OF 1(2)] unfolding inserted_def D(3) by blast
  note r1 = r(1) [folded D(4)] r(2)
  consider b2 where "insert_loop rops dops r (hd_or INVALID_PAGE_ID qs) b1 th1 = Some (Inr ((b2, th1), r, None))" "runs {} b1 b2"
      "store b2 = store b1" "room (bpm_disk b2) = room (bpm_disk b1)"
    | b2 th2 r2 where "insert_loop rops dops r (hd_or INVALID_PAGE_ID qs) b1 th1 = Some (Inr ((b2, th2), r2, Some True))"
      "inserted b1 th1 ps r b2 th2 ps r2"
    using insert_loop_law [OF runsD(1) [OF D(1)] D(2,5) _ sp1 r1, of "[]" qs] 1(3) by auto
  then show thesis
  proof cases
    case (1 b2)
    note R2 = runsD [OF 1(2)]
    have H2: "heap_ok (store b2) th1 ps" "heap_free (store b2) th1 ps qs {}" using D(2) \<open>heap_free (store b1) th1 ps qs {}\<close> 1(3) by simp_all
    have s2: "1 < spares b2" "room (bpm_disk b2)"
      using sp1 R2(6) room \<open>room (bpm_disk b1) = room (bpm_disk b)\<close> 1(4) by simp_all
    show thesis
    proof (rule insert_append_law [OF R2(1) H2(1) D(5) H2(2) s2 r1])
      fix b' th' r' p assume 3: "insert_append rops dops r (b2, th1) = Inr ((b', th'), r', True)"
        "inserted b2 th1 ps r b' th' (ps @ [p]) r'" "p \<notin> set ps" "store b2 p = None"
      have "inserted b1 th1 ps r b' th' (ps @ [p]) r'"
        using 3(2) runs_trans0 [OF 1(2)] 1(3) unfolding inserted_def heap_becomes_def by auto
      then have "inserted b th ps r b' th' (ps @ [p]) r'" by (rule lift) auto
      moreover have "heap_InsertTuple rops dops r (b, th) = Some (Inr ((b', th'), r', True))"
        using size r(2) \<open>EnsureHeapMetadata rops dops (b, th) = _\<close> 1(1) hd 3(1) by (simp add: heap_InsertTuple_def)
      moreover have "store b p = None"
        using \<open>heap_becomes b th ps _ b1 th1\<close> 3(3,4) 1(3) by (simp add: heap_becomes_def)
      ultimately show thesis using that 3(3) by blast
    qed
  next
    case (2 b2 th2 r2)
    have "inserted b th ps r b2 th2 ps r2" by (rule lift [OF 2(2)]) simp
    moreover have "heap_InsertTuple rops dops r (b, th) = Some (Inr ((b2, th2), r2, True))"
      using size r(2) \<open>EnsureHeapMetadata rops dops (b, th) = _\<close> 2(1) hd by (simp add: heap_InsertTuple_def)
    ultimately show thesis using that by blast
  qed
qed

section \<open>Deletion and update\<close>

text \<open>The map with the tuple of one slot changed.\<close>

lemma heap_map_change:
  assumes "tp_tuple d' = (tp_tuple d)(unat (rid_slot_num rid) := v)" "p = rid_page_id rid"
    and "\<And>rid. rid_page_id rid = p \<Longrightarrow> heap_map S ps rid = tp_tuple d (unat (rid_slot_num rid))"
  shows "(\<lambda>rid. if rid_page_id rid = p then tp_tuple d' (unat (rid_slot_num rid)) else heap_map S ps rid) =
    (heap_map S ps)(rid := v)"
proof
  fix x :: RowId
  have iff: "x = rid \<longleftrightarrow> rid_page_id x = p \<and> unat (rid_slot_num x) = unat (rid_slot_num rid)"
    using assms(2) by (cases x; cases rid) (auto simp: unsigned_word_eqI)
  show "(if rid_page_id x = p then tp_tuple d' (unat (rid_slot_num x)) else heap_map S ps x) = ((heap_map S ps)(rid := v)) x"
    unfolding fun_upd_apply iff assms(1) using assms(3) [of x] by simp
qed

text \<open>A change of the marks of a page, which leaves the list of insertable pages alone.\<close>

lemma mark_page:
  assumes ok: "bp_ok b" and H: "heap_ok (store b) th ps" and p: "rid_page_id rid \<in> set ps" "store b (rid_page_id rid) = Some d"
    and d': "wf_tpage d'" "GetTablePageId d' = GetTablePageId d" "tcnt d' = tcnt d" "tfsp d' = tfsp d" "links d' = links d"
      "tp_tuple d' = (tp_tuple d)(unat (rid_slot_num rid) \<mapsto> (bs, del'))" "tp_tuple d (unat (rid_slot_num rid)) = Some (bs, del)"
    and b1: "bp_ok b1" "page_table b1 (rid_page_id rid) = Some f" "0 < pins b1 (rid_page_id rid)" "store b1 = store b"
      "closes (rid_page_id rid) b b1"
  obtains b' where "UnpinPage rops (rid_page_id rid) True (write_frame f d' b1) = (b', True)" "runs {} b b'"
    "heap_ok (store b') th ps" "heap_map (store b') ps = (heap_map (store b) ps)(rid \<mapsto> (bs, del'))"
    "\<forall>q. q \<notin> set ps \<longrightarrow> store b' q = store b q"
proof -
  let ?p = "rid_page_id rid"
  have P: "heap_pages (store b) (th_schema th) ps" using H by (simp add: heap_ok_def)
  have okd: "tp_ok (th_schema th) ?p d" using heap_pagesD(4) [OF P p(1)] p(2) by auto
  have okd': "tp_ok (th_schema th) ?p d'"
    by (rule tp_ok_update [OF okd d'(1,2)]) (use d'(6,7) in \<open>auto split: if_splits\<close>)
  note W = runs_write [OF b1(1-3) wf_tpageD(1) [OF d'(1)]]
  note Put = heap_put [OF P p okd' d'(5)]
  have fits: "insert_fits 1 d' = insert_fits 1 d" by (rule insert_fits_cong [OF d'(3,4)]) (use d'(6,7) in auto)
  obtain b' where 3: "UnpinPage rops ?p True (write_frame f d' b1) = (b', True)" "runs ({?p} - {?p}) b b'"
    "store b' = store (write_frame f d' b1)" "bpm_disk b' = bpm_disk (write_frame f d' b1)"
    by (rule closesE [OF b1(5) W(1)])
  have S': "store b' = (store b)(?p \<mapsto> d')" using 3(3) W(2) b1(4) by simp
  have "heap_ok (store b') th ps" using H Put(1) Put(4) [OF _ fits] unfolding heap_ok_def S' by blast
  moreover have "heap_map (store b') ps = (heap_map (store b) ps)(rid \<mapsto> (bs, del'))"
    unfolding S' Put(2) by (rule heap_map_change [OF d'(6) refl]) (use p in \<open>simp add: heap_map_def\<close>)
  ultimately show thesis using that [of b'] 3(1,2) S' p(1) by auto
qed

lemma heap_Mark_law:
  assumes ok: "bp_ok b" and H: "heap_ok (store b) th ps" and sp: "0 < spares b" and p: "rid_page_id rid \<in> set ps"
    and clean: "rid_page_id rid \<notin> unsaved b"
  obtains b' where "case heap_map (store b) ps rid of
      Some (bs, False) \<Rightarrow> heap_MarkDelete rops dops rid b = Inr (b', True) \<and> runs {} b b' \<and> heap_ok (store b') th ps \<and>
        heap_map (store b') ps = (heap_map (store b) ps)(rid \<mapsto> (bs, True)) \<and> (\<forall>q. q \<notin> set ps \<longrightarrow> store b' q = store b q)
    | _ \<Rightarrow> heap_MarkDelete rops dops rid b = Inr (b', False) \<and> runs {} b b' \<and> store b' = store b"
proof -
  let ?p = "rid_page_id rid" and ?s = "unat (rid_slot_num rid)"
  have P: "heap_pages (store b) (th_schema th) ps" using H by (simp add: heap_ok_def)
  obtain d where d: "store b ?p = Some d" "wf_tpage d" "GetTablePageId d = ?p" using heap_page [OF P p] by metis
  have m: "heap_map (store b) ps rid = tp_tuple d ?s" using p d(1) by (simp add: heap_map_def)
  show thesis
  proof (cases "?s \<in> live_slots d")
    case True
    then obtain bs where t: "tp_tuple d ?s = Some (bs, False)" using live_slots_tuple by blast
    obtain d' where d': "MarkDelete rid d = (d', True)" "wf_tpage d'" "tcnt d' = tcnt d"
      "tp_tuple d' = (tp_tuple d)(?s := map_option (\<lambda>(bs, _). (bs, True)) (tp_tuple d ?s))"
      "GetTablePageId d' = GetTablePageId d" "live_slots d' = live_slots d - {?s}" "tfsp d' = tfsp d" "links d' = links d"
      by (rule MarkDelete_effect [OF d(2) refl True])
    have t': "tp_tuple d' = (tp_tuple d)(?s \<mapsto> (bs, True))" using d'(4) t by simp
    obtain b1 f where 1: "FetchPage rops dops ?p b = Inr (b1, Some f)" "bp_ok b1" "page_table b1 ?p = Some f"
      "0 < pins b1 ?p" "fdata b1 f = d" "store b1 = store b" "0 \<le> spares b1" "room (bpm_disk b1) = room (bpm_disk b)" "closes ?p b b1"
      by (rule use_page [OF ok d(1) sp])
    obtain b' where 2: "UnpinPage rops ?p True (write_frame f d' b1) = (b', True)" "runs {} b b'"
      "heap_ok (store b') th ps" "heap_map (store b') ps = (heap_map (store b) ps)(rid \<mapsto> (bs, True))"
      "\<forall>q. q \<notin> set ps \<longrightarrow> store b' q = store b q"
      by (rule mark_page [OF ok H p d(1) d'(2,5,3,7,8) t' t 1(2-4,6,9)])
    have fd: "fdata (write_frame f d' b1) f = d'" using runs_write(4) [OF 1(2-4) wf_tpageD(1) [OF d'(2)]] .
    show thesis using that [of b'] m t 1(1,5) 2 d'(1,5) d(3) fd by (simp add: heap_MarkDelete_def Let_def)
  next
    case False
    then have dead: "\<nexists>bs. tp_tuple d ?s = Some (bs, False)" using live_slots_tuple by blast
    obtain b1 f b2 where 1: "FetchPage rops dops ?p b = Inr (b1, Some f)" "fdata b1 f = d"
      "UnpinPage rops ?p False b1 = (b2, True)" "runs {} b b2" "store b2 = store b" "room (bpm_disk b2) = room (bpm_disk b)"
      "bp_ok b1" "page_table b1 ?p = Some f"
    proof (rule bracket_Fetch [OF ok d(1) sp])
      fix b1 f assume 1: "FetchPage rops dops ?p b = Inr (b1, Some f)" "bp_ok b1" "page_table b1 ?p = Some f" "fdata b1 f = d" "store b1 = store b"
        "room (bpm_disk b1) = room (bpm_disk b)"
        "\<And>b2 W dirty. runs W b1 b2 \<Longrightarrow> dirty \<or> ?p \<notin> W \<union> unsaved b \<Longrightarrow>
           \<exists>b3. UnpinPage rops ?p dirty b2 = (b3, True) \<and> runs (W - {?p}) b b3 \<and> store b3 = store b2 \<and> bpm_disk b3 = bpm_disk b2"
      obtain b2 where "UnpinPage rops ?p False b1 = (b2, True)" "runs {} b b2" "store b2 = store b1" "bpm_disk b2 = bpm_disk b1"
        using 1(7) [OF runs_refl [OF 1(2)], of False] clean by auto
      then show thesis using that [of b1 f b2] 1 by simp
    qed
    have same: "write_frame f d b1 = b1" using write_frame_same [OF 1(7,8)] 1(2) by simp
    have "heap_MarkDelete rops dops rid b = Inr (b2, False)"
      using 1(1-3) MarkDelete_refused [OF d(2) False] same d(3) by (simp add: heap_MarkDelete_def)
    then show thesis using that [of b2] m dead 1(4,5) by (auto split: option.split bool.split)
  qed
qed

lemma heap_Rollback_law:
  assumes ok: "bp_ok b" and H: "heap_ok (store b) th ps" and sp: "0 < spares b" and p: "rid_page_id rid \<in> set ps"
    and t: "heap_map (store b) ps rid = Some (bs, True)"
  obtains b' where "heap_RollbackDelete rops dops rid b = Inr b'" "runs {} b b'" "heap_ok (store b') th ps"
    "heap_map (store b') ps = (heap_map (store b) ps)(rid \<mapsto> (bs, False))" "\<forall>q. q \<notin> set ps \<longrightarrow> store b' q = store b q"
proof -
  let ?p = "rid_page_id rid" and ?s = "unat (rid_slot_num rid)"
  have P: "heap_pages (store b) (th_schema th) ps" using H by (simp add: heap_ok_def)
  obtain d where d: "store b ?p = Some d" "wf_tpage d" "GetTablePageId d = ?p" using heap_page [OF P p] by metis
  have m: "tp_tuple d ?s = Some (bs, True)" using p d(1) t by (simp add: heap_map_def)
  obtain d' where d': "RollbackDelete rid d = Inr d'" "wf_tpage d'" "tcnt d' = tcnt d"
    "tp_tuple d' = (tp_tuple d)(?s \<mapsto> (bs, False))" "GetTablePageId d' = GetTablePageId d" "tfsp d' = tfsp d" "links d' = links d"
    by (rule RollbackDelete_effect [OF d(2) refl m])
  obtain b1 f where 1: "FetchPage rops dops ?p b = Inr (b1, Some f)" "bp_ok b1" "page_table b1 ?p = Some f"
    "0 < pins b1 ?p" "fdata b1 f = d" "store b1 = store b" "0 \<le> spares b1" "room (bpm_disk b1) = room (bpm_disk b)" "closes ?p b b1"
    by (rule use_page [OF ok d(1) sp])
  obtain b' where 2: "UnpinPage rops ?p True (write_frame f d' b1) = (b', True)" "runs {} b b'"
    "heap_ok (store b') th ps" "heap_map (store b') ps = (heap_map (store b) ps)(rid \<mapsto> (bs, False))"
    "\<forall>q. q \<notin> set ps \<longrightarrow> store b' q = store b q"
    by (rule mark_page [OF ok H p d(1) d'(2,5,3,6,7) d'(4) m 1(2-4,6,9)])
  have fd: "fdata (write_frame f d' b1) f = d'" using runs_write(4) [OF 1(2-4) wf_tpageD(1) [OF d'(2)]] .
  have "heap_RollbackDelete rops dops rid b = Inr b'"
    using 1(1,5) 2(1) d'(1,5) d(3) fd by (simp add: heap_RollbackDelete_def Let_def)
  then show thesis by (rule that [OF _ 2(2-5)])
qed

text \<open>A change of the tuples of a page between fetch and unpin, followed by a refresh.\<close>

lemma change_page:
  assumes ok: "bp_ok b" and H: "heap_ok (store b) th ps" "th_built th" "heap_free (store b) th ps qs {}" and sp: "1 < spares b"
    and p: "rid_page_id rid \<in> set ps" "store b (rid_page_id rid) = Some d"
    and d': "tp_ok (th_schema th) (rid_page_id rid) d'" "links d' = links d" "tp_tuple d' = (tp_tuple d)(unat (rid_slot_num rid) := v)"
  obtains b1 f b2 th' b' where "FetchPage rops dops (rid_page_id rid) b = Inr (b1, Some f)" "fdata b1 f = d"
    "RefreshInsertablePage rops dops f (rid_page_id rid) (write_frame f d' b1, th) = Inr (b2, th')"
    "UnpinPage rops (rid_page_id rid) True b2 = (b', True)" "heap_becomes b th ps ((heap_map (store b) ps)(rid := v)) b' th'"
proof -
  let ?p = "rid_page_id rid"
  have P: "heap_pages (store b) (th_schema th) ps" and last: "th_last_page_id th = last ps" and first: "th_first_page_id th = hd ps"
    using H(1,2) by (simp_all add: heap_ok_def)
  obtain b1 f where 1: "FetchPage rops dops ?p b = Inr (b1, Some f)" "bp_ok b1" "page_table b1 ?p = Some f"
    "0 < pins b1 ?p" "fdata b1 f = d" "store b1 = store b" "1 \<le> spares b1" "room (bpm_disk b1) = room (bpm_disk b)" "closes ?p b b1"
    by (rule use_page [OF ok p(2) sp])
  note P1 = P [folded 1(6)] and F1 = H(3) [folded 1(6)] and d1 = p(2) [folded 1(6)]
  have sp1: "0 < spares b1" using 1(7) by simp
  obtain b2 th' qs' where 2: "RefreshInsertablePage rops dops f ?p (write_frame f d' b1, th) = Inr (b2, th')" "runs {?p} b1 b2"
    "heap_pages (store b2) (th_schema th) ps" "heap_free (store b2) th' ps qs' {}"
    "heap_map (store b2) ps = (\<lambda>rid. if rid_page_id rid = ?p then tp_tuple d' (unat (rid_slot_num rid)) else heap_map (store b1) ps rid)"
    "\<forall>q. q \<notin> set ps \<longrightarrow> store b2 q = store b1 q" "th' = th\<lparr>th_insertable_head := th_insertable_head th'\<rparr>"
    "room (bpm_disk b2) = room (bpm_disk b1)"
    by (rule put_refresh [OF 1(2-4) sp1 P1 F1 p(1) d1 d'(1,2)])
  obtain b3 where 3: "UnpinPage rops ?p True b2 = (b3, True)" "runs ({?p} - {?p}) b b3" "store b3 = store b2" "bpm_disk b3 = bpm_disk b2"
    by (rule closesE [OF 1(9) 2(2)])
  have map: "heap_map (store b3) ps = (heap_map (store b) ps)(rid := v)"
    unfolding 3(3) 2(5) 1(6) by (rule heap_map_change [OF d'(3) refl]) (use p in \<open>simp add: heap_map_def\<close>)
  have th: "th_schema th' = th_schema th" "th_first_page_id th' = hd ps" "th_last_page_id th' = last ps" "th_built th'"
    using arg_cong [OF 2(7), of th_schema] arg_cong [OF 2(7), of th_first_page_id] arg_cong [OF 2(7), of th_last_page_id]
      arg_cong [OF 2(7), of th_built] first last H(2) by simp_all
  have "heap_ok (store b3) th' ps" unfolding heap_ok_def using 2(3,4) 3(3) th by auto
  then have "heap_becomes b th ps ((heap_map (store b) ps)(rid := v)) b3 th'"
    unfolding heap_becomes_def using map 3(2,3) 2(6) 1(6) th first by simp
  then show thesis by (rule that [OF 1(1,5) 2(1) 3(1)])
qed

lemma heap_Apply_law:
  assumes ok: "bp_ok b" and H: "heap_ok (store b) th ps" and sp: "1 < spares b" and p: "rid_page_id rid \<in> set ps"
    and t: "heap_map (store b) ps rid = Some (bs, del)"
  obtains b' th' where "heap_ApplyDelete rops dops rid (b, th) = Some (Inr (b', th'))"
    "heap_becomes b th ps ((heap_map (store b) ps)(rid := None)) b' th'"
proof (rule Ensure_becomes [OF ok H sp])
  let ?p = "rid_page_id rid" and ?s = "unat (rid_slot_num rid)"
  fix b1 th1 qs assume 1: "EnsureHeapMetadata rops dops (b, th) = Some (Inr (b1, th1))"
    "heap_becomes b th ps (heap_map (store b) ps) b1 th1" "heap_free (store b1) th1 ps qs {}"
  have D: "runs {} b b1" "heap_ok (store b1) th1 ps" "heap_map (store b1) ps = heap_map (store b) ps"
    "th_schema th1 = th_schema th" "th_built th1" using 1(2) by (simp_all add: heap_becomes_def)
  have P: "heap_pages (store b1) (th_schema th1) ps" using D(2) by (simp add: heap_ok_def)
  obtain d where d: "store b1 ?p = Some d" "wf_tpage d" "tp_ok (th_schema th1) ?p d" using heap_page [OF P p] by metis
  have m: "tp_tuple d ?s = Some (bs, del)" using p d(1) t D(3) by (metis heap_map_def option.sel)
  have s: "?s < tcnt d" "IsSlotOccupied d ?s" using m by (auto simp: tp_tuple_def split: if_splits)
  obtain d' where d': "ApplyDelete rid d = Inr d'" "wf_tpage d'" "tp_tuple d' = (tp_tuple d)(?s := None)"
    "tcnt d' = tcnt d" "tfsp d' = tfsp d + tsz d ?s" "GetTablePageId d' = GetTablePageId d" "links d' = links d"
    by (rule ApplyDelete_effect [OF d(2) refl s])
  have okd': "tp_ok (th_schema th1) ?p d'"
    by (rule tp_ok_update [OF d(3) d'(2,6)]) (use d'(3) in \<open>auto split: if_splits\<close>)
  have sp1: "1 < spares b1" using sp runsD(6) [OF D(1)] by simp
  show thesis
  proof (rule change_page [OF runsD(1) [OF D(1)] D(2,5) 1(3) sp1 p d(1) okd' d'(7,3)])
    fix b2 f b3 th' b' assume 2: "FetchPage rops dops ?p b1 = Inr (b2, Some f)" "fdata b2 f = d"
      "RefreshInsertablePage rops dops f ?p (write_frame f d' b2, th1) = Inr (b3, th')"
      "UnpinPage rops ?p True b3 = (b', True)" "heap_becomes b1 th1 ps ((heap_map (store b1) ps)(rid := None)) b' th'"
    have "heap_becomes b th ps ((heap_map (store b) ps)(rid := None)) b' th'"
      using heap_becomes_trans [OF 1(2) 2(5)] D(3) by simp
    moreover have "heap_ApplyDelete rops dops rid (b, th) = Some (Inr (b', th'))"
      using 1(1) 2(1-4) d'(1) by (simp add: heap_ApplyDelete_def)
    ultimately show thesis using that by blast
  qed
qed

lemma heap_row:
  assumes "heap_pages S schema ps" "heap_map S ps rid = Some (bs, del)"
  obtains r where "row_ok schema r" "bs = row_enc r"
proof -
  have p: "rid_page_id rid \<in> set ps" using assms(2) by (auto simp: heap_map_def split: if_splits)
  obtain d where d: "S (rid_page_id rid) = Some d" "tp_ok schema (rid_page_id rid) d" using heap_page [OF assms(1) p] by metis
  then show thesis using that assms(2) p by (auto simp: heap_map_def tp_ok_def)
qed

lemma heap_Update_law:
  assumes ok: "bp_ok b" and H: "heap_ok (store b) th ps" and sp: "1 < spares b" and p: "rid_page_id rid \<in> set ps"
    and t: "heap_map (store b) ps rid = Some (row_enc old, False)" "row_ok (th_schema th) old"
    and r: "row_ok (th_schema th) r" "length (row_enc r) < 2 ^ 31" and clean: "rid_page_id rid \<notin> unsaved b"
  obtains b' th' where "heap_UpdateTuple rops dops r rid (b, th) = Some (Inr (if length (row_enc r) \<le>
        unat (GetFreeSpaceRemaining (the (store b (rid_page_id rid)))) + length (row_enc old)
      then ((b', th'), r\<lparr>row_rid := rid\<rparr>, True) else ((b', th'), r, False)))"
    "heap_becomes b th ps (if length (row_enc r) \<le> unat (GetFreeSpaceRemaining (the (store b (rid_page_id rid)))) + length (row_enc old)
      then (heap_map (store b) ps)(rid \<mapsto> (row_enc r, False)) else heap_map (store b) ps) b' th'"
proof (rule Ensure_becomes [OF ok H sp])
  let ?p = "rid_page_id rid" and ?s = "unat (rid_slot_num rid)"
  fix b1 th1 qs assume 1: "EnsureHeapMetadata rops dops (b, th) = Some (Inr (b1, th1))"
    "heap_becomes b th ps (heap_map (store b) ps) b1 th1" "heap_free (store b1) th1 ps qs {}" "link_only ps (store b) (store b1)"
  have D: "runs {} b b1" "heap_ok (store b1) th1 ps" "heap_map (store b1) ps = heap_map (store b) ps"
    "th_schema th1 = th_schema th" "th_built th1" using 1(2) by (simp_all add: heap_becomes_def)
  have P: "heap_pages (store b1) (th_schema th1) ps" using D(2) by (simp add: heap_ok_def)
  obtain d where d: "store b1 ?p = Some d" "wf_tpage d" "tp_ok (th_schema th1) ?p d" using heap_page [OF P p] by metis
  have P0: "heap_pages (store b) (th_schema th) ps" using H by (simp add: heap_ok_def)
  obtain d0 where d0: "store b ?p = Some d0" "wf_tpage d0" using heap_page [OF P0 p] by metis
  have same: "same_page d0 d" using 1(4) p d(1) d0(1) by (auto simp: link_only_def)
  note rid = heap_rid_valid [OF P0 p]
  have m: "tp_tuple d ?s = Some (row_enc old, False)" using p d(1) t(1) D(3) by (metis heap_map_def option.sel)
  let ?fits = "length (row_enc r) \<le> unat (GetFreeSpaceRemaining d0) + length (row_enc old)"
  have fits: "?fits \<longleftrightarrow> 164 + 8 * tcnt d + length (row_enc r) \<le> tfsp d + length (row_enc old)"
    using unat_free_space [OF d0(2)] wf_tpageD(2) [OF d(2)] same by (auto simp: same_page_def)
  note r1 = r(1) [folded D(4)] and o1 = t(2) [folded D(4)]
  have sp1: "1 < spares b1" using sp runsD(6) [OF D(1)] by simp
  show thesis
  proof (cases ?fits)
    case True
    obtain d' where d': "UpdateTuple r (Row_of_rid rid) (th_schema th1) d =
        Inr (d', \<lparr>row_rid = rid, row_fields = map field_canon (row_fields old)\<rparr>, True)"
      "wf_tpage d'" "tp_tuple d' = (tp_tuple d)(?s \<mapsto> (row_enc r, False))" "tcnt d' = tcnt d"
      "GetTablePageId d' = GetTablePageId d" "links d' = links d"
      by (rule UpdateTuple_effect [OF d(2) rid refl m o1 r1 r(2) True [unfolded fits]])
    have okd': "tp_ok (th_schema th1) ?p d'"
      by (rule tp_ok_update [OF d(3) d'(2,5)]) (use d'(3) r1 in \<open>auto split: if_splits\<close>)
    show thesis
    proof (rule change_page [OF runsD(1) [OF D(1)] D(2,5) 1(3) sp1 p d(1) okd' d'(6,3)])
      fix b2 f b3 th' b' assume 2: "FetchPage rops dops ?p b1 = Inr (b2, Some f)" "fdata b2 f = d"
        "RefreshInsertablePage rops dops f ?p (write_frame f d' b2, th1) = Inr (b3, th')"
        "UnpinPage rops ?p True b3 = (b', True)" "heap_becomes b1 th1 ps ((heap_map (store b1) ps)(rid \<mapsto> (row_enc r, False))) b' th'"
      have "heap_becomes b th ps ((heap_map (store b) ps)(rid \<mapsto> (row_enc r, False))) b' th'"
        using heap_becomes_trans [OF 1(2) 2(5)] D(3) by simp
      moreover have "heap_UpdateTuple rops dops r rid (b, th) = Some (Inr ((b', th'), r\<lparr>row_rid := rid\<rparr>, True))"
        using 1(1) 2(1-4) d'(1) by (simp add: heap_UpdateTuple_def Let_def)
      ultimately show thesis using that [of b' th'] True d0(1) by simp
    qed
  next
    case False
    have live: "?s \<in> live_slots d" using m live_slots_tuple by blast
    have "tsz d ?s = length (row_enc old)" by (rule stored_row(2) [OF d(2) m o1])
    then have full: "tfsp d + tsz d ?s < 164 + 8 * tcnt d + length (row_enc r)" using False fits by simp
    note U = UpdateTuple_refused [OF d(2) rid refl live r1 r(2) full]
    have cl: "?p \<notin> unsaved b1" using clean runsD(5) [OF D(1)] by auto
    have sp0: "0 < spares b1" using sp1 by simp
    show thesis
    proof (rule bracket_Fetch [OF runsD(1) [OF D(1)] d(1) sp0])
      fix b2 f assume 2: "FetchPage rops dops ?p b1 = Inr (b2, Some f)" "bp_ok b2" "page_table b2 ?p = Some f" "fdata b2 f = d" "store b2 = store b1"
        "\<And>b3 W dirty. runs W b2 b3 \<Longrightarrow> dirty \<or> ?p \<notin> W \<union> unsaved b1 \<Longrightarrow>
           \<exists>b4. UnpinPage rops ?p dirty b3 = (b4, True) \<and> runs (W - {?p}) b1 b4 \<and> store b4 = store b3 \<and> bpm_disk b4 = bpm_disk b3"
      obtain b3 where 3: "UnpinPage rops ?p False b2 = (b3, True)" "runs {} b1 b3" "store b3 = store b2"
        using 2(6) [OF runs_refl [OF 2(2)], of False] cl by auto
      have same: "write_frame f d b2 = b2" using write_frame_same [OF 2(2,3)] 2(4) by simp
      have "heap_UpdateTuple rops dops r rid (b, th) = Some (Inr ((b3, th1), r, False))"
        using 1(1) 2(1,4) U 3(1) same by (simp add: heap_UpdateTuple_def Let_def)
      moreover have "heap_becomes b th ps (heap_map (store b) ps) b3 th1"
        using 1(2) runs_trans0 [OF D(1) 3(2)] 3(3) 2(5) unfolding heap_becomes_def by simp
      ultimately show thesis using that [of b3 th1] False d0(1) by simp
    qed
  qed
qed

section \<open>Reading\<close>

lemma heap_Get_law:
  assumes ok: "bp_ok b" and P: "heap_pages (store b) schema ps" and sp: "0 < spares b" and p: "rid_page_id rid \<in> set ps"
    and clean: "rid_page_id rid \<notin> unsaved b"
  obtains b' where "runs {} b b'" "store b' = store b" "room (bpm_disk b') = room (bpm_disk b)"
    "case heap_map (store b) ps rid of
       Some (bs, False) \<Rightarrow> \<forall>r. row_ok schema r \<and> bs = row_enc r \<longrightarrow>
         heap_GetTuple rops dops schema (Row_of_rid rid) b = Inr (b', \<lparr>row_rid = rid, row_fields = map field_canon (row_fields r)\<rparr>, True)
     | _ \<Rightarrow> heap_GetTuple rops dops schema (Row_of_rid rid) b = Inr (b', Row_of_rid rid, False)"
proof -
  let ?p = "rid_page_id rid" and ?s = "unat (rid_slot_num rid)"
  obtain d where d: "store b ?p = Some d" "wf_tpage d" using heap_page [OF P p] by metis
  have m: "heap_map (store b) ps rid = tp_tuple d ?s" using p d(1) by (simp add: heap_map_def)
  note G = GetTuple_effect [OF d(2) heap_rid_valid [OF P p], where schema = schema]
  obtain b1 f b2 where 1: "FetchPage rops dops ?p b = Inr (b1, Some f)" "fdata b1 f = d"
    "UnpinPage rops ?p False b1 = (b2, True)" "runs {} b b2" "store b2 = store b" "room (bpm_disk b2) = room (bpm_disk b)"
    by (rule session_read [OF ok d(1) sp clean])
  have rr: "row_rid (Row_of_rid rid) = rid" by (simp add: Row_of_rid_def)
  show thesis
  proof (rule that [OF 1(4-6)], cases "?s \<in> live_slots d")
    case True
    then obtain bs where t: "tp_tuple d ?s = Some (bs, False)" using live_slots_tuple by blast
    then show "case heap_map (store b) ps rid of
       Some (bs, False) \<Rightarrow> \<forall>r. row_ok schema r \<and> bs = row_enc r \<longrightarrow>
         heap_GetTuple rops dops schema (Row_of_rid rid) b = Inr (b2, \<lparr>row_rid = rid, row_fields = map field_canon (row_fields r)\<rparr>, True)
     | _ \<Rightarrow> heap_GetTuple rops dops schema (Row_of_rid rid) b = Inr (b2, Row_of_rid rid, False)"
      using m G(1) 1(1-3) rr by (simp add: heap_GetTuple_def)
  next
    case False
    then have "\<nexists>bs. tp_tuple d ?s = Some (bs, False)" using live_slots_tuple by blast
    moreover have "heap_GetTuple rops dops schema (Row_of_rid rid) b = Inr (b2, Row_of_rid rid, False)"
      using G(2) [OF False] 1(1-3) rr by (simp add: heap_GetTuple_def)
    ultimately show "case heap_map (store b) ps rid of
       Some (bs, False) \<Rightarrow> \<forall>r. row_ok schema r \<and> bs = row_enc r \<longrightarrow>
         heap_GetTuple rops dops schema (Row_of_rid rid) b = Inr (b2, \<lparr>row_rid = rid, row_fields = map field_canon (row_fields r)\<rparr>, True)
     | _ \<Rightarrow> heap_GetTuple rops dops schema (Row_of_rid rid) b = Inr (b2, Row_of_rid rid, False)"
      using m by (auto split: option.split bool.split)
  qed
qed

end

end
