(* ===== verification/Heap_Scan.thy ===== *)
theory Heap_Scan
  imports Heap_Ops
begin

text \<open>
  Walking a table heap: the loop over \<^verbatim>\<open>Begin\<close>, \<^verbatim>\<open>operator++\<close> and \<^verbatim>\<open>End\<close> that every client runs visits
  each live tuple once, page by page and slot by slot, and ends.
\<close>

partial_function (option) scan_loop :: "'r replacer_ops \<Rightarrow> 'd disk_ops \<Rightarrow> nat \<Rightarrow> TableIterator \<Rightarrow> ('r, 'd) bpm \<Rightarrow> TableHeap \<Rightarrow>
    (('r, 'd) bpm \<times> Row list) run" where
  "scan_loop rops dops this it b th =
     (if it_eq it (heap_End this) then Some (Inr (b, []))
      else bind_run (it_next rops dops it (b, th)) (\<lambda>(b, it').
             bind_run (scan_loop rops dops this it' b th) (\<lambda>(b, rows). Some (Inr (b, it_row it # rows)))))"

definition heap_scan :: "'r replacer_ops \<Rightarrow> 'd disk_ops \<Rightarrow> nat \<Rightarrow> ('r, 'd) heap_state \<Rightarrow> (('r, 'd) bpm \<times> Row list) run" where
  "heap_scan rops dops this = (\<lambda>(b, th).
     bind_run (heap_Begin rops dops this (b, th)) (\<lambda>(b, it). scan_loop rops dops this it b th))"

text \<open>The row ids of the live tuples, in the order of the walk.\<close>

definition page_slots :: "page_map \<Rightarrow> page_id_t \<Rightarrow> nat list" where
  "page_slots S p = sorted_list_of_set (live_slots (the (S p)))"

definition page_rids :: "page_map \<Rightarrow> page_id_t \<Rightarrow> RowId list" where
  "page_rids S p = map (\<lambda>s. mk_RowId p (of_nat s)) (page_slots S p)"

definition heap_rids :: "page_map \<Rightarrow> page_id_t list \<Rightarrow> RowId list" where
  "heap_rids S ps = concat (map (page_rids S) ps)"

text \<open>The row a reader gets for a row id.\<close>

definition row_at :: "page_map \<Rightarrow> Schema \<Rightarrow> page_id_t list \<Rightarrow> RowId \<Rightarrow> Row \<Rightarrow> bool" where
  "row_at S schema ps rid row \<longleftrightarrow> (\<exists>r. row_ok schema r \<and> heap_map S ps rid = Some (row_enc r, False) \<and>
     row = \<lparr>row_rid = rid, row_fields = map field_canon (row_fields r)\<rparr>)"

lemma page_slots_live: "set (page_slots S p) = live_slots (the (S p))" "distinct (page_slots S p)" "sorted (page_slots S p)"
  by (simp_all add: page_slots_def)

lemma live_slot_small: "wf_tpage d \<Longrightarrow> s \<in> live_slots d \<Longrightarrow> unat (of_nat s :: 32 word) = s"
  using live_slot(2) [of d s] by (simp add: unat_of_nat_small)

lemma page_slots_after:
  assumes "page_slots S p = xs @ s # zs"
  shows "{i \<in> live_slots (the (S p)). s < i} = set zs"
proof -
  have "sorted (xs @ s # zs)" "distinct (xs @ s # zs)" using page_slots_live(2,3) [of S p] assms by simp_all
  moreover have "live_slots (the (S p)) = set (xs @ s # zs)" using page_slots_live(1) [of S p] assms by simp
  ultimately show ?thesis by (fastforce simp: sorted_append le_less)
qed

lemma Min_sorted: "sorted (z # zs) \<Longrightarrow> Min (set (z # zs)) = z"
  by (intro Min_eqI) auto

text \<open>Each live tuple occurs once.\<close>

lemma heap_rids_set:
  assumes P: "heap_pages S schema ps"
  shows "distinct (heap_rids S ps)" "rid \<in> set (heap_rids S ps) \<longleftrightarrow> (\<exists>bs. heap_map S ps rid = Some (bs, False))"
proof -
  note PD = heap_pagesD [OF P]
  have page: "wf_tpage (the (S p))" if "p \<in> set ps" for p using heap_page [OF P that] by fastforce
  have inj: "inj_on (\<lambda>s. mk_RowId p (of_nat s)) (live_slots (the (S p)))" if "p \<in> set ps" for p
  proof (rule inj_onI)
    fix s t assume s: "s \<in> live_slots (the (S p))" and t: "t \<in> live_slots (the (S p))"
      and "mk_RowId p (of_nat s :: 32 word) = mk_RowId p (of_nat t)"
    then have "(of_nat s :: 32 word) = of_nat t" by (simp add: mk_RowId_def)
    then have "unat (of_nat s :: 32 word) = unat (of_nat t :: 32 word)" by simp
    then show "s = t" using live_slot_small [OF page [OF that]] s t by simp
  qed
  have pg: "rid_page_id rid = p" if "rid \<in> set (page_rids S p)" for rid p
    using that by (auto simp: page_rids_def)
  show "distinct (heap_rids S ps)"
    using PD(2) page inj pg unfolding heap_rids_def
  proof (induction ps)
    case (Cons p ps)
    have "distinct (page_rids S p)" using Cons.prems(3) page_slots_live [of S p] by (simp add: page_rids_def distinct_map)
    moreover have "set (page_rids S p) \<inter> set (concat (map (page_rids S) ps)) = {}"
      using Cons.prems(1) by (auto dest!: Cons.prems(4))
    ultimately show ?case using Cons by auto
  qed simp
  show "rid \<in> set (heap_rids S ps) \<longleftrightarrow> (\<exists>bs. heap_map S ps rid = Some (bs, False))"
  proof
    assume "rid \<in> set (heap_rids S ps)"
    then obtain p s where p: "p \<in> set ps" "s \<in> live_slots (the (S p))" "rid = mk_RowId p (of_nat s)"
      using page_slots_live(1) by (auto simp: heap_rids_def page_rids_def)
    then show "\<exists>bs. heap_map S ps rid = Some (bs, False)"
      using live_slot_small [OF page [OF p(1)] p(2)] live_slots_tuple by (simp add: heap_map_def)
  next
    assume "\<exists>bs. heap_map S ps rid = Some (bs, False)"
    then have p: "rid_page_id rid \<in> set ps" "unat (rid_slot_num rid) \<in> live_slots (the (S (rid_page_id rid)))"
      by (auto simp: heap_map_def live_slots_tuple split: if_splits)
    have "rid = mk_RowId (rid_page_id rid) (of_nat (unat (rid_slot_num rid)))" by (simp add: mk_RowId_def)
    then have "rid \<in> set (page_rids S (rid_page_id rid))"
      unfolding page_rids_def using page_slots_live(1) [of S "rid_page_id rid"] p(2) by (metis image_eqI list.set_map)
    then show "rid \<in> set (heap_rids S ps)" using p(1) by (auto simp: heap_rids_def)
  qed
qed

context buffer_pool
begin

lemma first_rid_law:
  "bp_ok b \<Longrightarrow> heap_pages (store b) schema (xs @ ys) \<Longrightarrow> 0 < spares b \<Longrightarrow> unsaved b \<inter> set (xs @ ys) = {} \<Longrightarrow>
   \<exists>b' r. first_rid_loop rops dops (hd_or INVALID_PAGE_ID ys) b = Some (Inr (b', r)) \<and> runs {} b b' \<and> store b' = store b \<and>
     (case r of None \<Rightarrow> concat (map (page_rids (store b)) ys) = []
      | Some rid \<Rightarrow> \<exists>sk q zs t ts. ys = sk @ q # zs \<and> concat (map (page_rids (store b)) sk) = [] \<and>
          page_slots (store b) q = t # ts \<and> rid = mk_RowId q (of_nat t))"
proof (induction ys arbitrary: b xs)
  case Nil
  then show ?case using runs_refl [of b] by (subst first_rid_loop.simps) simp
next
  case (Cons y ys)
  let ?ps = "xs @ y # ys"
  note ok = Cons.prems(1) and P = Cons.prems(2) and sp = Cons.prems(3) and cl = Cons.prems(4)
  note PD = heap_pagesD [OF P]
  have y: "y \<in> set ?ps" "y \<noteq> INVALID_PAGE_ID" using PD(3) by auto
  obtain d where d: "store b y = Some d" "GetNextPageId d = succ_in INVALID_PAGE_ID ?ps y" "wf_tpage d" "GetTablePageId d = y"
    using heap_page [OF P y(1)] by metis
  have nxt: "GetNextPageId d = hd_or INVALID_PAGE_ID ys" using d(2) succ_in_at [OF PD(2)] by simp
  have cy: "y \<notin> unsaved b" using cl by auto
  obtain b1 f b2 where 1: "FetchPage rops dops y b = Inr (b1, Some f)" "fdata b1 f = d"
    "UnpinPage rops y False b1 = (b2, True)" "runs {} b b2" "store b2 = store b" "room (bpm_disk b2) = room (bpm_disk b)"
    by (rule session_read [OF ok d(1) sp cy])
  note F = walk_page(1) [OF d(3)]
  show ?case
  proof (cases "live_slots d = {}")
    case True
    have step: "first_rid_loop rops dops y b = first_rid_loop rops dops (hd_or INVALID_PAGE_ID ys) b2"
      using 1(1-3) F True y(2) nxt by (subst first_rid_loop.simps) (simp add: Let_def)
    have none: "page_rids (store b) y = []" using True d(1) by (simp add: page_rids_def page_slots_def)
    have pr: "heap_pages (store b2) schema ((xs @ [y]) @ ys)" "0 < spares b2" "unsaved b2 \<inter> set ((xs @ [y]) @ ys) = {}"
      using P 1(5) sp runsD(5,6) [OF 1(4)] cl by auto
    obtain b' r where 2: "first_rid_loop rops dops (hd_or INVALID_PAGE_ID ys) b2 = Some (Inr (b', r))" "runs {} b2 b'"
      "store b' = store b2" "case r of None \<Rightarrow> concat (map (page_rids (store b2)) ys) = []
      | Some rid \<Rightarrow> \<exists>sk q zs t ts. ys = sk @ q # zs \<and> concat (map (page_rids (store b2)) sk) = [] \<and>
          page_slots (store b2) q = t # ts \<and> rid = mk_RowId q (of_nat t)"
      using Cons.IH [OF runsD(1) [OF 1(4)] pr] by blast
    have "case r of None \<Rightarrow> concat (map (page_rids (store b)) (y # ys)) = []
      | Some rid \<Rightarrow> \<exists>sk q zs t ts. y # ys = sk @ q # zs \<and> concat (map (page_rids (store b)) sk) = [] \<and>
          page_slots (store b) q = t # ts \<and> rid = mk_RowId q (of_nat t)"
    proof (cases r)
      case None
      then show ?thesis using 2(4) none 1(5) by simp
    next
      case (Some rid)
      then obtain sk q zs t ts where "ys = sk @ q # zs" "concat (map (page_rids (store b)) sk) = []"
        "page_slots (store b) q = t # ts" "rid = mk_RowId q (of_nat t)" using 2(4) 1(5) by auto
      then show ?thesis using Some none by (auto intro!: exI [of _ "y # sk"])
    qed
    then show ?thesis using 2(1-3) runs_trans0 [OF 1(4) 2(2)] 1(5) unfolding hd_or_simps step by auto
  next
    case False
    have sl: "set (page_slots (store b) y) = live_slots d" "sorted (page_slots (store b) y)"
      using page_slots_live [of "store b" y] d(1) by simp_all
    then obtain t ts where t: "page_slots (store b) y = t # ts" using False by (cases "page_slots (store b) y") auto
    then have "Min (live_slots d) = t" using sl Min_sorted [of t ts] by simp
    then have "first_rid_loop rops dops y b = Some (Inr (b2, Some (mk_RowId y (of_nat t))))"
      using 1(1-3) F False y(2) d(4) by (subst first_rid_loop.simps) (simp add: Let_def)
    then show ?thesis using 1(4,5) t by (auto intro!: exI [of _ "[]"])
  qed
qed

text \<open>An iterator that stands at the first of the row ids \<open>L\<close>, or at the end.\<close>

definition it_at :: "page_map \<Rightarrow> Schema \<Rightarrow> page_id_t list \<Rightarrow> nat \<Rightarrow> RowId list \<Rightarrow> TableIterator \<Rightarrow> bool" where
  "it_at S schema ps this L it \<longleftrightarrow> it_heap it = Some this \<and>
     (case L of [] \<Rightarrow> it_is_end it | rid # _ \<Rightarrow> \<not> it_is_end it \<and> row_at S schema ps rid (it_row it))"

lemma row_at_Get:
  assumes ok: "bp_ok b" and P: "heap_pages (store b) schema ps" and sp: "0 < spares b"
    and rid: "rid \<in> set (heap_rids (store b) ps)" and clean: "unsaved b \<inter> set ps = {}"
  obtains b' row where "heap_GetTuple rops dops schema (Row_of_rid rid) b = Inr (b', row, True)" "runs {} b b'"
    "store b' = store b" "row_at (store b) schema ps rid row"
proof -
  obtain bs where bs: "heap_map (store b) ps rid = Some (bs, False)" using heap_rids_set(2) [OF P] rid by blast
  then obtain r where r: "row_ok schema r" "bs = row_enc r" by (rule heap_row [OF P])
  have p: "rid_page_id rid \<in> set ps" using bs by (auto simp: heap_map_def split: if_splits)
  then have "rid_page_id rid \<notin> unsaved b" using clean by auto
  then show thesis
    by (rule heap_Get_law [OF ok P sp p]) (use bs r that in \<open>auto simp: row_at_def\<close>)
qed

lemma it_next_law:
  assumes ok: "bp_ok b" and P: "heap_pages (store b) (th_schema th) ps" and sp: "0 < spares b" and clean: "unsaved b \<inter> set ps = {}"
    and pos: "ps = xs @ p # ys" "page_slots (store b) p = us @ s # zs"
    and it: "it_at (store b) (th_schema th) ps this (mk_RowId p (of_nat s) # L) it"
  obtains b' it' where "it_next rops dops it (b, th) = Some (Inr (b', it'))" "runs {} b b'" "store b' = store b"
    "it_at (store b) (th_schema th) ps this
       (map (\<lambda>s. mk_RowId p (of_nat s)) zs @ concat (map (page_rids (store b)) ys)) it'"
proof -
  note PD = heap_pagesD [OF P]
  have p: "p \<in> set ps" "p \<notin> unsaved b" using pos(1) clean by auto
  obtain d where d: "store b p = Some d" "GetNextPageId d = succ_in INVALID_PAGE_ID ps p" "wf_tpage d" "GetTablePageId d = p"
    using heap_page [OF P p(1)] by metis
  have nxt: "GetNextPageId d = hd_or INVALID_PAGE_ID ys" using d(2) succ_in_at PD(2) pos(1) by metis
  have slots: "set (page_slots (store b) p) = live_slots d" using page_slots_live(1) [of "store b" p] d(1) by simp
  have sl: "s \<in> live_slots d" using slots pos(2) by auto
  have us: "unat (of_nat s :: 32 word) = s" by (rule live_slot_small [OF d(3) sl])
  have s32: "unat (of_nat s :: 32 word) < 2 ^ 32 - 1" using us live_slot(2) [OF d(3) sl] by simp
  have after: "{i \<in> live_slots d. s < i} = set zs" using page_slots_after [OF pos(2)] d(1) by simp
  have srt: "sorted zs" using page_slots_live(3) [of "store b" p] pos(2) by (simp add: sorted_append)
  have nrid: "GetNextTupleRid d (mk_RowId p (of_nat s)) = Inr (if zs = [] then (INVALID_ROWID, False) else (mk_RowId p (of_nat (hd zs)), True))"
    using walk_page(2) [OF d(3) s32] d(4) us after Min_sorted [of "hd zs" "tl zs"] srt by (cases zs) simp_all
  have I: "it_heap it = Some this" "\<not> it_is_end it" "row_rid (it_row it) = mk_RowId p (of_nat s)"
    using it by (auto simp: it_at_def row_at_def)
  obtain b1 f b2 where 1: "FetchPage rops dops p b = Inr (b1, Some f)" "fdata b1 f = d"
    "UnpinPage rops p False b1 = (b2, True)" "runs {} b b2" "store b2 = store b" "room (bpm_disk b2) = room (bpm_disk b)"
    by (rule session_read [OF ok d(1) sp p(2)])
  note R2 = runsD [OF 1(4)]
  have pr: "heap_pages (store b2) (th_schema th) ps" "0 < spares b2" "unsaved b2 \<inter> set ps = {}"
    using P 1(5) sp R2(5,6) clean by auto
  note result = that
  have fin: thesis if r: "(if zs = [] then first_rid_loop rops dops (hd_or INVALID_PAGE_ID ys) b2 else Some (Inr (b2, Some (mk_RowId p (of_nat (hd zs)))))) =
      Some (Inr (b3, Some rid))" "runs {} b b3" "store b3 = store b" "unsaved b3 \<inter> set ps = {}"
      "map (\<lambda>s. mk_RowId p (of_nat s)) zs @ concat (map (page_rids (store b)) ys) = rid # M" "rid \<in> set (heap_rids (store b) ps)" for b3 rid M
  proof -
    have pr3: "heap_pages (store b3) (th_schema th) ps" "0 < spares b3" "rid \<in> set (heap_rids (store b3) ps)"
      using P r(3,6) sp runsD(6) [OF r(2)] by simp_all
    obtain b4 row where 4: "heap_GetTuple rops dops (th_schema th) (Row_of_rid rid) b3 = Inr (b4, row, True)" "runs {} b3 b4"
      "store b4 = store b3" "row_at (store b3) (th_schema th) ps rid row"
      by (rule row_at_Get [OF runsD(1) [OF r(2)] pr3 r(4)])
    have "it_next rops dops it (b, th) = Some (Inr (b4, it\<lparr>it_row := row, it_is_end := False\<rparr>))"
      using I 1(1-3) nrid nxt r(1) 4(1) by (cases "zs = []") (simp_all add: it_next_def Let_def)
    then show thesis
      using result [of b4 "it\<lparr>it_row := row, it_is_end := False\<rparr>"] runs_trans0 [OF r(2) 4(2)] 4(3,4) r(3,5) I(1) by (simp add: it_at_def)
  qed
  have mem: "rid \<in> set (heap_rids (store b) ps)" if "q \<in> set ps" "t \<in> set (page_slots (store b) q)" "rid = mk_RowId q (of_nat t)" for rid q t
    using that by (auto simp: heap_rids_def page_rids_def)
  show thesis
  proof (cases zs)
    case (Cons z zs')
    show thesis
      by (rule fin [of b2 "mk_RowId p (of_nat z)" "map (\<lambda>s. mk_RowId p (of_nat s)) zs' @ concat (map (page_rids (store b)) ys)"])
        (use Cons 1(4,5) pr(3) pos mem [OF p(1), of z] in auto)
  next
    case Nil
    have pr': "heap_pages (store b2) (th_schema th) ((xs @ [p]) @ ys)" "unsaved b2 \<inter> set ((xs @ [p]) @ ys) = {}"
      using pr pos(1) by simp_all
    obtain b3 r where 3: "first_rid_loop rops dops (hd_or INVALID_PAGE_ID ys) b2 = Some (Inr (b3, r))" "runs {} b2 b3" "store b3 = store b2"
      "case r of None \<Rightarrow> concat (map (page_rids (store b2)) ys) = []
      | Some rid \<Rightarrow> \<exists>sk q zs t ts. ys = sk @ q # zs \<and> concat (map (page_rids (store b2)) sk) = [] \<and>
          page_slots (store b2) q = t # ts \<and> rid = mk_RowId q (of_nat t)"
      using first_rid_law [OF R2(1) pr'(1) pr(2) pr'(2)] by blast
    have r3: "runs {} b b3" by (rule runs_trans0 [OF 1(4) 3(2)])
    show thesis
    proof (cases r)
      case None
      have e: "concat (map (page_rids (store b)) ys) = []" using 3(4) 1(5) None by simp
      have "it_next rops dops it (b, th) = Some (Inr (b3, it\<lparr>it_is_end := True, it_row := Row_of_rid INVALID_ROWID\<rparr>))"
        using I 1(1-3) nrid nxt 3(1) Nil None by (simp add: it_next_def Let_def)
      moreover have "it_at (store b) (th_schema th) ps this (map (\<lambda>s. mk_RowId p (of_nat s)) zs @ concat (map (page_rids (store b)) ys))
          (it\<lparr>it_is_end := True, it_row := Row_of_rid INVALID_ROWID\<rparr>)" unfolding e Nil using I(1) by (simp add: it_at_def)
      moreover have "store b3 = store b" using 3(3) 1(5) by simp
      ultimately show thesis using result r3 by blast
    next
      case (Some rid)
      then obtain sk q ws t ts where q: "ys = sk @ q # ws" "concat (map (page_rids (store b)) sk) = []"
        "page_slots (store b) q = t # ts" "rid = mk_RowId q (of_nat t)" using 3(4) 1(5) by auto
      have "q \<in> set ps" using pos(1) q(1) by simp
      show thesis
        by (rule fin [of b3 rid "map (\<lambda>s. mk_RowId q (of_nat s)) ts @ concat (map (page_rids (store b)) ws)"])
          (use Nil 3 1(5) r3 Some q mem [OF \<open>q \<in> set ps\<close>, of t] runsD(5) [OF r3] clean in \<open>auto simp: page_rids_def\<close>)
    qed
  qed
qed

text \<open>The lists an iterator can stand at: the tails of the walk.\<close>

definition at_pos :: "page_map \<Rightarrow> page_id_t list \<Rightarrow> RowId list \<Rightarrow> bool" where
  "at_pos S ps L \<longleftrightarrow> L = [] \<or> (\<exists>xs p ys us s zs. ps = xs @ p # ys \<and> page_slots S p = us @ s # zs \<and>
     L = mk_RowId p (of_nat s) # map (\<lambda>s. mk_RowId p (of_nat s)) zs @ concat (map (page_rids S) ys))"

lemma at_pos_pages: "at_pos S (xs @ ys) (concat (map (page_rids S) ys))"
proof (induction ys arbitrary: xs)
  case (Cons y ys)
  show ?case
  proof (cases "page_slots S y")
    case Nil
    then show ?thesis using Cons.IH [of "xs @ [y]"] by (simp add: page_rids_def)
  next
    case (Cons z zs)
    then have "page_slots S y = [] @ z # zs" "concat (map (page_rids S) (y # ys)) =
        mk_RowId y (of_nat z) # map (\<lambda>s. mk_RowId y (of_nat s)) zs @ concat (map (page_rids S) ys)"
      by (simp_all add: page_rids_def)
    then show ?thesis unfolding at_pos_def by blast
  qed
qed (simp add: at_pos_def)

lemma at_pos_tail:
  assumes "ps = xs @ p # ys" "page_slots S p = us @ s # zs"
  shows "at_pos S ps (map (\<lambda>s. mk_RowId p (of_nat s)) zs @ concat (map (page_rids S) ys))"
proof (cases zs)
  case Nil
  then show ?thesis using at_pos_pages [of S "xs @ [p]" ys] assms(1) by simp
next
  case (Cons z zs')
  then have "page_slots S p = (us @ [s]) @ z # zs'" using assms(2) by simp
  moreover have "map (\<lambda>s. mk_RowId p (of_nat s)) zs @ concat (map (page_rids S) ys) =
      mk_RowId p (of_nat z) # map (\<lambda>s. mk_RowId p (of_nat s)) zs' @ concat (map (page_rids S) ys)" using Cons by simp
  ultimately show ?thesis using assms(1) unfolding at_pos_def by blast
qed

lemma scan_loop_law:
  "bp_ok b \<Longrightarrow> heap_pages (store b) (th_schema th) ps \<Longrightarrow> 0 < spares b \<Longrightarrow> unsaved b \<inter> set ps = {} \<Longrightarrow>
   at_pos (store b) ps L \<Longrightarrow> it_at (store b) (th_schema th) ps this L it \<Longrightarrow>
   \<exists>b' rows. scan_loop rops dops this it b th = Some (Inr (b', rows)) \<and> runs {} b b' \<and> store b' = store b \<and>
     list_all2 (row_at (store b) (th_schema th) ps) L rows"
proof (induction "length L" arbitrary: L b it)
  case 0
  then have "it_eq it (heap_End this)" by (simp add: it_at_def it_eq_def heap_End_def)
  then show ?case using 0 runs_refl [of b] by (subst scan_loop.simps) simp
next
  case (Suc n)
  note ok = Suc.prems(1) and P = Suc.prems(2) and sp = Suc.prems(3) and cl = Suc.prems(4)
  obtain xs p ys us s zs where pos: "ps = xs @ p # ys" "page_slots (store b) p = us @ s # zs"
    "L = mk_RowId p (of_nat s) # map (\<lambda>s. mk_RowId p (of_nat s)) zs @ concat (map (page_rids (store b)) ys)"
    using Suc.prems(5) Suc.hyps(2) unfolding at_pos_def by auto
  let ?M = "map (\<lambda>s. mk_RowId p (of_nat s)) zs @ concat (map (page_rids (store b)) ys)"
  obtain b1 it1 where 1: "it_next rops dops it (b, th) = Some (Inr (b1, it1))" "runs {} b b1" "store b1 = store b"
    "it_at (store b) (th_schema th) ps this ?M it1"
    by (rule it_next_law [OF ok P sp cl pos(1,2) Suc.prems(6) [unfolded pos(3)]])
  have nend: "\<not> it_eq it (heap_End this)" "row_at (store b) (th_schema th) ps (mk_RowId p (of_nat s)) (it_row it)"
    using Suc.prems(6) pos(3) by (auto simp: it_at_def it_eq_def heap_End_def)
  have pr: "heap_pages (store b1) (th_schema th) ps" "0 < spares b1" "unsaved b1 \<inter> set ps = {}" "at_pos (store b1) ps ?M"
    "it_at (store b1) (th_schema th) ps this ?M it1"
    using P 1(3,4) sp runsD(5,6) [OF 1(2)] cl at_pos_tail [OF pos(1,2)] by auto
  have len: "n = length ?M" using Suc.hyps(2) pos(3) by simp
  obtain b' rows where 2: "scan_loop rops dops this it1 b1 th = Some (Inr (b', rows))" "runs {} b1 b'" "store b' = store b1"
    "list_all2 (row_at (store b1) (th_schema th) ps) ?M rows"
    using Suc.hyps(1) [OF len runsD(1) [OF 1(2)] pr] by blast
  have "scan_loop rops dops this it b th = Some (Inr (b', it_row it # rows))"
    using 1(1) 2(1) nend(1) by (subst scan_loop.simps) simp
  then show ?case using runs_trans0 [OF 1(2) 2(2)] 2(3,4) 1(3) nend(2) pos(3) by auto
qed

lemma heap_scan_law:
  assumes ok: "bp_ok b" and P: "heap_pages (store b) (th_schema th) ps" and first: "th_first_page_id th = hd ps" and sp: "0 < spares b"
    and cl: "unsaved b \<inter> set ps = {}"
  obtains b' rows where "heap_scan rops dops this (b, th) = Some (Inr (b', rows))" "runs {} b b'" "store b' = store b"
    "list_all2 (row_at (store b) (th_schema th) ps) (heap_rids (store b) ps) rows"
proof -
  have hd: "th_first_page_id th = hd_or INVALID_PAGE_ID ps" using first heap_pagesD(1) [OF P] by (cases ps) simp_all
  obtain b1 r where 1: "first_rid_loop rops dops (hd_or INVALID_PAGE_ID ps) b = Some (Inr (b1, r))" "runs {} b b1" "store b1 = store b"
    "case r of None \<Rightarrow> concat (map (page_rids (store b)) ps) = []
      | Some rid \<Rightarrow> \<exists>sk q zs t ts. ps = sk @ q # zs \<and> concat (map (page_rids (store b)) sk) = [] \<and>
          page_slots (store b) q = t # ts \<and> rid = mk_RowId q (of_nat t)"
    using first_rid_law [OF ok, of "th_schema th" "[]" ps] P sp cl by auto
  let ?L = "heap_rids (store b) ps"
  have pr: "heap_pages (store b1) (th_schema th) ps" "0 < spares b1" "unsaved b1 \<inter> set ps = {}"
    using P 1(3) sp runsD(5,6) [OF 1(2)] cl by auto
  have "\<exists>b2 it. heap_Begin rops dops this (b, th) = Some (Inr (b2, it)) \<and> runs {} b b2 \<and> store b2 = store b \<and>
      it_at (store b) (th_schema th) ps this ?L it"
  proof (cases r)
    case None
    then have "?L = []" using 1(4) unfolding heap_rids_def by simp
    with None show ?thesis using 1(1-3) hd by (auto simp: heap_Begin_def it_at_def heap_End_def)
  next
    case (Some rid)
    then obtain sk q zs t ts where q: "ps = sk @ q # zs" "concat (map (page_rids (store b)) sk) = []"
      "page_slots (store b) q = t # ts" "rid = mk_RowId q (of_nat t)" using 1(4) by auto
    have L: "?L = rid # map (\<lambda>s. mk_RowId q (of_nat s)) ts @ concat (map (page_rids (store b)) zs)"
      using q by (simp add: heap_rids_def page_rids_def)
    then have "rid \<in> set (heap_rids (store b1) ps)" using 1(3) by simp
    then obtain b2 row where 2: "heap_GetTuple rops dops (th_schema th) (Row_of_rid rid) b1 = Inr (b2, row, True)" "runs {} b1 b2"
      "store b2 = store b1" "row_at (store b1) (th_schema th) ps rid row"
      using row_at_Get [OF runsD(1) [OF 1(2)] pr(1,2) _ pr(3)] by metis
    have "RowId_Get rid \<noteq> RowId_Get INVALID_ROWID" by (rule heap_rid_valid [OF P]) (use q in simp)
    then show ?thesis
      using 1 2 hd Some L runs_trans0 [OF 1(2) 2(2)] by (auto simp: heap_Begin_def TableIterator_new_def Let_def it_at_def)
  qed
  then obtain b2 it where 2: "heap_Begin rops dops this (b, th) = Some (Inr (b2, it))" "runs {} b b2" "store b2 = store b"
    "it_at (store b) (th_schema th) ps this ?L it" by blast
  have pr2: "heap_pages (store b2) (th_schema th) ps" "0 < spares b2" "unsaved b2 \<inter> set ps = {}" "at_pos (store b2) ps ?L"
    "it_at (store b2) (th_schema th) ps this ?L it"
    using P 2(3,4) sp runsD(5,6) [OF 2(2)] cl at_pos_pages [of "store b" "[]" ps] by (auto simp: heap_rids_def)
  obtain b' rows where 3: "scan_loop rops dops this it b2 th = Some (Inr (b', rows))" "runs {} b2 b'" "store b' = store b2"
    "list_all2 (row_at (store b2) (th_schema th) ps) ?L rows"
    using scan_loop_law [OF runsD(1) [OF 2(2)] pr2] by blast
  have "heap_scan rops dops this (b, th) = Some (Inr (b', rows))" using 2(1) 3(1) by (simp add: heap_scan_def)
  then show thesis using that runs_trans0 [OF 2(2) 3(2)] 3(3,4) 2(3) by simp
qed

end

end
