(* ===== verification/Table_Store.thy ===== *)
theory Table_Store
  imports Heap_Scan
begin

text \<open>
  The table heap over the buffer pool and the disk manager of the program: what is stored is kept, found, changed
  and enumerated. The state predicate \<open>table_ok\<close> speaks of the moments between two calls, when no page is pinned.
\<close>

section \<open>The state between two calls\<close>

text \<open>The pages of the database: those allocated on disk, with their logical content.\<close>

definition db_pages :: "(LRUReplacer, disk_manager) bpm \<Rightarrow> page_map" where
  "db_pages b p = (if p \<in> disk_allocated (bpm_disk b) \<and> disk_ok_id p then Some (logical_page b p) else None)"

definition quiet :: "(LRUReplacer, disk_manager) bpm \<Rightarrow> bool" where
  "quiet b \<longleftrightarrow> wf_bpm b \<and> pinned b = {} \<and> 2 \<le> pool_size b"

definition table_ok :: "(LRUReplacer, disk_manager) bpm \<Rightarrow> TableHeap \<Rightarrow> page_id_t list \<Rightarrow> bool" where
  "table_ok b th ps \<longleftrightarrow> quiet b \<and> heap_ok (db_pages b) th ps"

definition table_tuples :: "(LRUReplacer, disk_manager) bpm \<Rightarrow> page_id_t list \<Rightarrow> RowId \<Rightarrow> (byte list \<times> bool) option" where
  "table_tuples b ps = heap_map (db_pages b) ps"

lemma store_db: "bp.store b = db_pages b"
  by (simp add: bp.store_def db_pages_def fun_eq_iff)

lemma quiet_pool:
  assumes "quiet b"
  shows "bp.bp_inv b \<and> dom (page_table b) \<subseteq> disk_allocated (bpm_disk b)" "pins b = (\<lambda>p. 0)" "1 < spares b" "0 < spares b"
    "bp.unsaved b = {}"
proof -
  show ok: "bp.bp_inv b \<and> dom (page_table b) \<subseteq> disk_allocated (bpm_disk b)" using assms by (simp add: quiet_def wf_bpm_def)
  have "pins b p = 0" for p
    using bp.pins_frame [OF conjunct1 [OF ok], of p] bp.pins_nonneg [OF conjunct1 [OF ok], of p] assms by (auto simp: quiet_def)
  then show z: "pins b = (\<lambda>p. 0)" by auto
  then show "1 < spares b" "0 < spares b" using assms by (simp_all add: quiet_def spares_def)
  have "p \<notin> bp.unsaved b" for p
  proof
    assume "p \<in> bp.unsaved b"
    then obtain f where f: "page_table b p = Some f" "\<not> is_dirty (frame b f)" "page_data (frame b f) \<noteq> disk_content (bpm_disk b) p"
      by (auto simp: bp.unsaved_def)
    have "pin_count (frame b f) = 0" using fun_cong [OF z, of p] f(1) by (simp add: pins_def)
    then show False
      using bp.inv_butD(13) [OF conjunct1 [OF ok], of f] bp.resident [OF conjunct1 [OF ok] f(1)] f(2,3) by simp
  qed
  then show "bp.unsaved b = {}" by blast
qed

lemma quiet_runs:
  assumes "quiet b" "bp.runs {} b b'"
  shows "quiet b'"
proof -
  note R = bp.runsD [OF assms(2)]
  have ok: "wf_bpm b'" using R(1) by (simp add: wf_bpm_def)
  have "f \<notin> pinned b'" for f
  proof
    assume f: "f \<in> pinned b'"
    have "0 < pins b' (page_id (frame b' f))"
      using bp.pinned_resident [OF conjunct1 [OF R(1)] f] f by (simp add: pins_def pinned_def)
    then show False using R(3) quiet_pool(2) [OF assms(1)] by simp
  qed
  then show ?thesis using ok R(2) assms(1) by (auto simp: quiet_def)
qed

lemma table_ok_runs: "table_ok b th ps \<Longrightarrow> bp.runs {} b b' \<Longrightarrow> heap_ok (db_pages b') th' ps' \<Longrightarrow> table_ok b' th' ps'"
  using quiet_runs by (auto simp: table_ok_def)

lemma table_becomes:
  assumes "table_ok b th ps" "bp.heap_becomes b th ps' m b' th'"
  shows "table_ok b' th' ps'" "table_tuples b' ps' = m" "\<forall>q. q \<notin> set ps' \<longrightarrow> db_pages b' q = db_pages b q" "th_schema th' = th_schema th"
  using assms table_ok_runs [OF assms(1), of b' th' ps']
  by (simp_all add: bp.heap_becomes_def table_tuples_def store_db)

section \<open>A new table\<close>

lemma TableHeap_create_law:
  assumes "quiet b" "disk_room (bpm_disk b)"
  obtains b' th p where "TableHeap_create lru_ops disk_manager_ops schema b = Inr (b', th)" "table_ok b' th [p]"
    "table_tuples b' [p] = Map.empty" "th_schema th = schema" "th_built th"
    "disk_allocated (bpm_disk b') = insert p (disk_allocated (bpm_disk b))" "th_first_page_id th = p" "db_pages b p = None"
    "\<And>q. q \<noteq> p \<Longrightarrow> db_pages b' q = db_pages b q" "pool_size b' = pool_size b"
proof -
  note Q = quiet_pool [OF assms(1)]
  obtain b1 f p where 1: "NewPage lru_ops disk_manager_ops b = Inr (b1, Some (f, p))"
    "bp.bp_inv b1 \<and> dom (page_table b1) \<subseteq> disk_allocated (bpm_disk b1)" "page_table b1 p = Some f"
    "0 < pins b1 p" "fdata b1 f = zero_page" "bp.store b p = None" "p \<noteq> INVALID_PAGE_ID"
    "bp.store b1 = (bp.store b)(p \<mapsto> zero_page)" "0 \<le> spares b1" "bp.closes p b b1"
    by (rule bp.new_page [OF Q(1) assms(2) Q(4)])
  let ?ini = "TablePage_Init p INVALID_PAGE_ID zero_page"
  have z: "length zero_page = PAGE_SIZE" by (simp add: zero_page_def)
  note G = TablePage_Init_getters [OF z, of p INVALID_PAGE_ID] and W0 = TablePage_Init_wf [OF z, of p INVALID_PAGE_ID]
  have lk: "GetPrevInsertablePageId ?ini = INVALID_PAGE_ID" "GetNextInsertablePageId ?ini = INVALID_PAGE_ID"
    using z by (simp_all add: TablePage_Init_def Let_def tp_acc tp_consts layout_simps PAGE_SIZE_def)
  have zp: "bp.store b1 p = Some zero_page" using 1(8) by simp
  note M = bp.runs_mod_frame [where h = "TablePage_Init p INVALID_PAGE_ID", OF 1(2-4) zp G(1)]
  obtain b2 where 2: "UnpinPage lru_ops p True (mod_frame f (TablePage_Init p INVALID_PAGE_ID) b1) = (b2, True)"
    "bp.runs ({p} - {p}) b b2" "bp.store b2 = bp.store (mod_frame f (TablePage_Init p INVALID_PAGE_ID) b1)"
    "bpm_disk b2 = bpm_disk (mod_frame f (TablePage_Init p INVALID_PAGE_ID) b1)"
    by (rule bp.closesE [OF 1(10) M(1)])
  let ?th = "\<lparr>th_first_page_id = p, th_last_page_id = p, th_insertable_head = p, th_schema = schema, th_built = True\<rparr>"
  have S: "db_pages b2 p = Some ?ini" using 2(3) M(2) by (simp add: store_db [symmetric])
  have "heap_pages (db_pages b2) schema [p]"
    using S 1(7) W0 G(5,7) by (simp add: heap_pages_def tp_ok_def)
  moreover have "heap_free (db_pages b2) ?th [p] [p] {}"
    using S lk Init_fits [OF z] by (simp add: heap_free_def pred_in_def SIZE_MAX_ROW_def PAGE_SIZE_def tp_consts)
  ultimately have "heap_ok (db_pages b2) ?th [p]" by (auto simp: heap_ok_def)
  moreover have "quiet b2" using quiet_runs [OF assms(1)] 2(2) by simp
  moreover have "table_tuples b2 [p] = Map.empty"
    using S W0(2) by (auto simp: table_tuples_def heap_map_def fun_eq_iff)
  moreover have "TableHeap_create lru_ops disk_manager_ops schema b = Inr (b2, ?th)"
    using 1(1) 2(1) by (simp add: TableHeap_create_def Let_def)
  moreover have "disk_allocated (bpm_disk b2) = insert p (disk_allocated (bpm_disk b))"
    using 2(4) M(3) bp.New_allocated [OF Q(1) assms(2) Q(4) 1(1)] by simp
  moreover have "db_pages b2 q = db_pages b q" if "q \<noteq> p" for q using 2(3) M(2) 1(8) that by (simp add: store_db [symmetric])
  moreover have "pool_size b2 = pool_size b" using bp.runsD(2) [OF 2(2)] .
  ultimately show thesis using that [of b2 ?th p] 1(6) by (simp add: table_ok_def store_db)
qed

lemma TableHeap_create_ok:
  assumes "quiet b" "disk_room (bpm_disk b)"
  obtains b' th p where "TableHeap_create lru_ops disk_manager_ops schema b = Inr (b', th)" "table_ok b' th [p]"
    "table_tuples b' [p] = Map.empty" "th_schema th = schema" "th_built th"
    "disk_allocated (bpm_disk b') = insert p (disk_allocated (bpm_disk b))"
  by (rule TableHeap_create_law [OF assms]) (rule that; assumption)

lemma empty_pool_quiet: "quiet empty_pool"
  using empty_pool by (simp add: quiet_def) (simp add: empty_pool_def BufferPoolManager_init_def)

lemma quiet_room: "quiet b \<Longrightarrow> card (disk_allocated (bpm_disk b)) < 32704 \<Longrightarrow> disk_room (bpm_disk b)"
  by (meson bp.inv_butD(3) disk_room_few quiet_pool(1))

lemma example_table:
  obtains b th p where "table_ok b th [p]" "table_tuples b [p] = Map.empty" "th_schema th = example_schema" "disk_room (bpm_disk b)"
    "TableHeap_create lru_ops disk_manager_ops example_schema empty_pool = Inr (b, th)"
proof -
  obtain b th p where 1: "TableHeap_create lru_ops disk_manager_ops example_schema empty_pool = Inr (b, th)" "table_ok b th [p]"
    "table_tuples b [p] = Map.empty" "th_schema th = example_schema" "th_built th"
    "disk_allocated (bpm_disk b) = insert p (disk_allocated (bpm_disk empty_pool))"
    by (rule TableHeap_create_ok [OF empty_pool_quiet empty_pool(2)])
  moreover have "disk_room (bpm_disk b)" using 1(2,6) empty_pool(5) by (intro quiet_room) (simp_all add: table_ok_def)
  ultimately show thesis using that by blast
qed

section \<open>Storing a row\<close>

lemma table_insert:
  assumes "table_ok b th ps" "disk_room (bpm_disk b)" "row_ok (th_schema th) r" "length (row_enc r) \<le> SIZE_MAX_ROW"
  obtains b' th' ps' rid where "heap_InsertTuple lru_ops disk_manager_ops r (b, th) = Some (Inr ((b', th'), r\<lparr>row_rid := rid\<rparr>, True))"
    "table_ok b' th' ps'" "set ps \<subseteq> set ps'" "table_tuples b ps rid = None" "rid_page_id rid \<in> set ps'"
    "table_tuples b' ps' = (table_tuples b ps)(rid \<mapsto> (row_enc r, False))"
    "\<forall>q. q \<notin> set ps' \<longrightarrow> db_pages b' q = db_pages b q" "th_schema th' = th_schema th"
    "\<forall>q \<in> set ps' - set ps. db_pages b q = None"
proof -
  have q: "quiet b" "heap_ok (bp.store b) th ps" using assms(1) by (simp_all add: table_ok_def store_db)
  note Q = quiet_pool [OF q(1)]
  obtain b' th' r' ps' where 1: "heap_InsertTuple lru_ops disk_manager_ops r (b, th) = Some (Inr ((b', th'), r', True))"
    "bp.inserted b th ps r b' th' ps' r'" "ps' = ps \<or> (\<exists>p. ps' = ps @ [p] \<and> p \<notin> set ps \<and> bp.store b p = None)"
    by (rule bp.heap_Insert_law [OF Q(1) q(2) Q(3) assms(2-4)])
  then obtain rid where 2: "r' = r\<lparr>row_rid := rid\<rparr>" "heap_map (bp.store b) ps rid = None" "rid_page_id rid \<in> set ps'"
    "bp.heap_becomes b th ps' ((heap_map (bp.store b) ps)(rid \<mapsto> (row_enc r, False))) b' th'"
    by (auto simp: bp.inserted_def)
  have "set ps \<subseteq> set ps'" "\<forall>q \<in> set ps' - set ps. db_pages b q = None" using 1(3) by (auto simp: store_db)
  then show thesis
    using that [of b' th' rid ps'] 1(1) 2(1,2,3) table_becomes [OF assms(1) 2(4)] by (simp add: table_tuples_def store_db)
qed

lemma table_get:
  assumes "table_ok b th ps" "table_tuples b ps rid = Some (row_enc r, False)" "row_ok (th_schema th) r"
  obtains b' where "heap_GetTuple lru_ops disk_manager_ops (th_schema th) (Row_of_rid rid) b =
      Inr (b', \<lparr>row_rid = rid, row_fields = map field_canon (row_fields r)\<rparr>, True)"
    "table_ok b' th ps" "db_pages b' = db_pages b"
proof -
  have q: "quiet b" "heap_ok (bp.store b) th ps" "heap_pages (bp.store b) (th_schema th) ps"
    using assms(1) by (simp_all add: table_ok_def store_db heap_ok_def)
  note Q = quiet_pool [OF q(1)]
  have m: "heap_map (bp.store b) ps rid = Some (row_enc r, False)" "rid_page_id rid \<in> set ps"
    using assms(2) by (auto simp: table_tuples_def store_db heap_map_def split: if_splits)
  have "rid_page_id rid \<notin> bp.unsaved b" using Q(5) by simp
  then obtain b' where 1: "bp.runs {} b b'" "bp.store b' = bp.store b" "disk_room (bpm_disk b') = disk_room (bpm_disk b)"
    "case heap_map (bp.store b) ps rid of
       Some (bs, False) \<Rightarrow> \<forall>r. row_ok (th_schema th) r \<and> bs = row_enc r \<longrightarrow>
         heap_GetTuple lru_ops disk_manager_ops (th_schema th) (Row_of_rid rid) b = Inr (b', \<lparr>row_rid = rid, row_fields = map field_canon (row_fields r)\<rparr>, True)
     | _ \<Rightarrow> heap_GetTuple lru_ops disk_manager_ops (th_schema th) (Row_of_rid rid) b = Inr (b', Row_of_rid rid, False)"
    by (rule bp.heap_Get_law [OF Q(1) q(3) Q(4) m(2)])
  have "table_ok b' th ps" by (rule table_ok_runs [OF assms(1) 1(1)]) (use q(2) 1(2) in \<open>simp add: store_db\<close>)
  then show thesis using that [of b'] 1(2,4) m(1) assms(3) by (simp add: store_db)
qed

lemma example_stored:
  obtains b th ps rid where "table_ok b th ps" "table_tuples b ps = [rid \<mapsto> (row_enc example_row, False)]" "th_schema th = example_schema"
proof -
  obtain b th p where 1: "table_ok b th [p]" "table_tuples b [p] = Map.empty" "th_schema th = example_schema" "disk_room (bpm_disk b)"
    "TableHeap_create lru_ops disk_manager_ops example_schema empty_pool = Inr (b, th)" by (rule example_table)
  have "row_ok (th_schema th) example_row" "length (row_enc example_row) \<le> SIZE_MAX_ROW"
    using example_row_facts 1(3) by (simp_all add: SIZE_MAX_ROW_def PAGE_SIZE_def tp_consts)
  from table_insert [OF 1(1,4) this] show thesis using that 1(2,3) by metis
qed

section \<open>Properties\<close>

text \<open>C2. \<^verbatim>\<open>TableHeap::InsertTuple\<close>, over the whole storage stack: a row of at most \<^verbatim>\<open>SIZE_MAX_ROW\<close> bytes is always
  stored while the disk has room, under a row id that was free, and the heap then holds its old tuples and the
  new one; \<^verbatim>\<open>GetTuple\<close> gives the row back. A page the heap takes was not allocated before, and every page outside
  the heap, so of other tables and indexes, keeps its content. It does not
  matter whether the list of insertable pages has been built yet, and the call always returns. A longer row is refused and
  nothing changes.\<close>

theorem heap_InsertTuple_stores:
  assumes "table_ok b th ps" "disk_room (bpm_disk b)" "row_ok (th_schema th) r" "row_GetSerializedSize r (th_schema th) = Inr n" "n < 2 ^ 32"
  shows "if n \<le> SIZE_MAX_ROW
    then \<exists>b' th' ps' rid b''. heap_InsertTuple lru_ops disk_manager_ops r (b, th) = Some (Inr ((b', th'), r\<lparr>row_rid := rid\<rparr>, True)) \<and>
      table_ok b' th' ps' \<and> set ps \<subseteq> set ps' \<and> table_tuples b ps rid = None \<and>
      table_tuples b' ps' = (table_tuples b ps)(rid \<mapsto> (row_enc r, False)) \<and>
      (\<forall>q \<in> set ps' - set ps. db_pages b q = None) \<and> (\<forall>q. q \<notin> set ps' \<longrightarrow> db_pages b' q = db_pages b q) \<and>
      heap_GetTuple lru_ops disk_manager_ops (th_schema th') (Row_of_rid rid) b' =
        Inr (b'', \<lparr>row_rid = rid, row_fields = map field_canon (row_fields r)\<rparr>, True)
    else heap_InsertTuple lru_ops disk_manager_ops r (b, th) = Some (Inr ((b, th), r, False))"
proof -
  have n: "n = length (row_enc r)" using row_size_enc [OF assms(3)] assms(4) by simp
  show ?thesis
  proof (cases "n \<le> SIZE_MAX_ROW")
    case True
    obtain b' th' ps' rid where 1: "heap_InsertTuple lru_ops disk_manager_ops r (b, th) = Some (Inr ((b', th'), r\<lparr>row_rid := rid\<rparr>, True))"
      "table_ok b' th' ps'" "set ps \<subseteq> set ps'" "table_tuples b ps rid = None" "rid_page_id rid \<in> set ps'"
      "table_tuples b' ps' = (table_tuples b ps)(rid \<mapsto> (row_enc r, False))"
      "\<forall>q. q \<notin> set ps' \<longrightarrow> db_pages b' q = db_pages b q" "th_schema th' = th_schema th"
      "\<forall>q \<in> set ps' - set ps. db_pages b q = None"
      by (rule table_insert [OF assms(1-3) True [unfolded n]])
    obtain b'' where "heap_GetTuple lru_ops disk_manager_ops (th_schema th') (Row_of_rid rid) b' =
        Inr (b'', \<lparr>row_rid = rid, row_fields = map field_canon (row_fields r)\<rparr>, True)"
      by (rule table_get [OF 1(2), of rid r]) (use 1(6,8) assms(3) in simp_all)
    with True 1 show ?thesis by simp (intro exI conjI; assumption?; simp)
  next
    case False
    have "unat (of_nat n :: 32 word) = n" using assms(5) by (simp add: unat_of_nat_small)
    then show ?thesis using False assms(4) by (simp add: heap_InsertTuple_def)
  qed
qed

theorem heap_InsertTuple_stores_witness:
  "\<exists>b th b' th' rid. TableHeap_create lru_ops disk_manager_ops example_schema empty_pool = Inr (b, th) \<and>
     heap_InsertTuple lru_ops disk_manager_ops example_row (b, th) = Some (Inr ((b', th'), example_row\<lparr>row_rid := rid\<rparr>, True))"
proof -
  obtain b th p where 1: "table_ok b th [p]" "table_tuples b [p] = Map.empty" "th_schema th = example_schema" "disk_room (bpm_disk b)"
    "TableHeap_create lru_ops disk_manager_ops example_schema empty_pool = Inr (b, th)" by (rule example_table)
  show ?thesis
    using heap_InsertTuple_stores [OF 1(1,4), of example_row 9] 1 example_row_facts
    by (simp add: SIZE_MAX_ROW_def PAGE_SIZE_def tp_consts) blast
qed

text \<open>C32. The deletion protocol of the heap: \<^verbatim>\<open>MarkDelete\<close> of a live tuple succeeds and only marks it, so that
  \<^verbatim>\<open>RollbackDelete\<close> restores the table exactly and \<^verbatim>\<open>ApplyDelete\<close> removes this tuple and no other. A second
  \<^verbatim>\<open>MarkDelete\<close> reports false and changes no page. Each of them keeps the invariant of the table
  and the pages outside it.\<close>

theorem heap_delete_protocol:
  assumes "table_ok b th ps" "table_tuples b ps rid = Some (bs, False)"
  shows "\<exists>b1 b2 b3 b4 th4. heap_MarkDelete lru_ops disk_manager_ops rid b = Inr (b1, True) \<and> table_ok b1 th ps \<and>
      table_tuples b1 ps = (table_tuples b ps)(rid \<mapsto> (bs, True)) \<and>
      heap_MarkDelete lru_ops disk_manager_ops rid b1 = Inr (b2, False) \<and> db_pages b2 = db_pages b1 \<and>
      heap_RollbackDelete lru_ops disk_manager_ops rid b1 = Inr b3 \<and> table_ok b3 th ps \<and> table_tuples b3 ps = table_tuples b ps \<and>
      heap_ApplyDelete lru_ops disk_manager_ops rid (b1, th) = Some (Inr (b4, th4)) \<and> table_ok b4 th4 ps \<and>
      table_tuples b4 ps = (table_tuples b ps)(rid := None) \<and>
      (\<forall>q. q \<notin> set ps \<longrightarrow> db_pages b3 q = db_pages b q \<and> db_pages b4 q = db_pages b q)"
proof -
  have q: "quiet b" "heap_ok (bp.store b) th ps" using assms(1) by (simp_all add: table_ok_def store_db)
  note Q = quiet_pool [OF q(1)]
  have m: "heap_map (bp.store b) ps rid = Some (bs, False)" "rid_page_id rid \<in> set ps"
    using assms(2) by (auto simp: table_tuples_def store_db heap_map_def split: if_splits)
  obtain b1 where 1: "heap_MarkDelete lru_ops disk_manager_ops rid b = Inr (b1, True)" "bp.runs {} b b1" "heap_ok (bp.store b1) th ps"
    "heap_map (bp.store b1) ps = (heap_map (bp.store b) ps)(rid \<mapsto> (bs, True))" "\<forall>q. q \<notin> set ps \<longrightarrow> bp.store b1 q = bp.store b q"
    by (rule bp.heap_Mark_law [OF Q(1) q(2) Q(4) m(2)]) (use m(1) Q(5) in auto)
  have T1: "table_ok b1 th ps" by (rule table_ok_runs [OF assms(1) 1(2)]) (use 1(3) in \<open>simp add: store_db\<close>)
  then have q1: "quiet b1" by (simp add: table_ok_def)
  note Q1 = quiet_pool [OF q1]
  have m1: "heap_map (bp.store b1) ps rid = Some (bs, True)" using 1(4) by simp
  obtain b2 where 2: "heap_MarkDelete lru_ops disk_manager_ops rid b1 = Inr (b2, False)" "bp.store b2 = bp.store b1"
    by (rule bp.heap_Mark_law [OF Q1(1) 1(3) Q1(4) m(2)]) (use m1 Q1(5) in auto)
  obtain b3 where 3: "heap_RollbackDelete lru_ops disk_manager_ops rid b1 = Inr b3" "bp.runs {} b1 b3" "heap_ok (bp.store b3) th ps"
    "heap_map (bp.store b3) ps = (heap_map (bp.store b1) ps)(rid \<mapsto> (bs, False))" "\<forall>q. q \<notin> set ps \<longrightarrow> bp.store b3 q = bp.store b1 q"
    by (rule bp.heap_Rollback_law [OF Q1(1) 1(3) Q1(4) m(2) m1])
  have T3: "table_ok b3 th ps" by (rule table_ok_runs [OF T1 3(2)]) (use 3(3) in \<open>simp add: store_db\<close>)
  obtain b4 th4 where 4: "heap_ApplyDelete lru_ops disk_manager_ops rid (b1, th) = Some (Inr (b4, th4))"
    "bp.heap_becomes b1 th ps ((heap_map (bp.store b1) ps)(rid := None)) b4 th4"
    by (rule bp.heap_Apply_law [OF Q1(1) 1(3) Q1(3) m(2) m1])
  have undo: "(heap_map (bp.store b1) ps)(rid \<mapsto> (bs, False)) = heap_map (bp.store b) ps" using 1(4) m(1) by (simp add: fun_eq_iff)
  show ?thesis
    using 1(1,4,5) T1 2 3(1,4,5) T3 4(1) table_becomes [OF T1 4(2)] undo
    by (auto simp: table_tuples_def store_db)
qed

theorem heap_delete_protocol_witness:
  "\<exists>b th ps rid b1. table_ok b th ps \<and> table_tuples b ps rid = Some (row_enc example_row, False) \<and>
     heap_MarkDelete lru_ops disk_manager_ops rid b = Inr (b1, True)"
proof -
  obtain b th ps rid where 1: "table_ok b th ps" "table_tuples b ps = [rid \<mapsto> (row_enc example_row, False)]"
    "th_schema th = example_schema" by (rule example_stored)
  then have t: "table_tuples b ps rid = Some (row_enc example_row, False)" by simp
  then show ?thesis using heap_delete_protocol [OF 1(1) t] 1(1) by blast
qed

text \<open>C33. \<^verbatim>\<open>TableHeap::UpdateTuple\<close> of a live tuple succeeds exactly when the new row fits into the free space of its page
  together with the space of the old row. It then keeps the row id and replaces this tuple and no other; when it does not fit the
  table is as before, and the caller has to delete and insert.\<close>

theorem heap_UpdateTuple_replaces:
  assumes "table_ok b th ps" "table_tuples b ps rid = Some (row_enc old, False)" "row_ok (th_schema th) old"
    "row_ok (th_schema th) r" "length (row_enc r) < 2 ^ 31"
  defines "fits \<equiv> length (row_enc r) \<le> unat (GetFreeSpaceRemaining (the (db_pages b (rid_page_id rid)))) + length (row_enc old)"
  shows "\<exists>b' th'. heap_UpdateTuple lru_ops disk_manager_ops r rid (b, th) =
      Some (Inr ((b', th'), (if fits then r\<lparr>row_rid := rid\<rparr> else r), fits)) \<and> table_ok b' th' ps \<and>
      table_tuples b' ps = (if fits then (table_tuples b ps)(rid \<mapsto> (row_enc r, False)) else table_tuples b ps) \<and>
      (\<forall>q. q \<notin> set ps \<longrightarrow> db_pages b' q = db_pages b q)"
proof -
  have q: "quiet b" "heap_ok (bp.store b) th ps" using assms(1) by (simp_all add: table_ok_def store_db)
  note Q = quiet_pool [OF q(1)]
  have m: "heap_map (bp.store b) ps rid = Some (row_enc old, False)" "rid_page_id rid \<in> set ps"
    using assms(2) by (auto simp: table_tuples_def store_db heap_map_def split: if_splits)
  have cl: "rid_page_id rid \<notin> bp.unsaved b" using Q(5) by simp
  have f: "fits \<longleftrightarrow> length (row_enc r) \<le> unat (GetFreeSpaceRemaining (the (bp.store b (rid_page_id rid)))) + length (row_enc old)"
    by (simp add: fits_def store_db)
  obtain b' th' where 1: "heap_UpdateTuple lru_ops disk_manager_ops r rid (b, th) = Some (Inr (if fits
      then ((b', th'), r\<lparr>row_rid := rid\<rparr>, True) else ((b', th'), r, False)))"
    "bp.heap_becomes b th ps (if fits then (heap_map (bp.store b) ps)(rid \<mapsto> (row_enc r, False)) else heap_map (bp.store b) ps) b' th'"
    unfolding f by (rule bp.heap_Update_law [OF Q(1) q(2) Q(3) m(2,1) assms(3,4,5) cl])
  then show ?thesis
    using table_becomes [OF assms(1) 1(2)] by (cases fits) (auto simp: table_tuples_def store_db)
qed

theorem heap_UpdateTuple_replaces_witness:
  "\<exists>b th ps rid b' th'. table_tuples b ps rid = Some (row_enc example_row, False) \<and>
     heap_UpdateTuple lru_ops disk_manager_ops example_row rid (b, th) =
       Some (Inr ((b', th'), example_row\<lparr>row_rid := rid\<rparr>, True))"
proof -
  obtain b th ps rid where 1: "table_ok b th ps" "table_tuples b ps = [rid \<mapsto> (row_enc example_row, False)]"
    "th_schema th = example_schema" by (rule example_stored)
  then have t: "table_tuples b ps rid = Some (row_enc example_row, False)" by simp
  have "row_ok (th_schema th) example_row" "length (row_enc example_row) < 2 ^ 31" using example_row_facts 1(3) by simp_all
  then show ?thesis using heap_UpdateTuple_replaces [OF 1(1) t, of example_row] t by auto blast
qed

text \<open>C5. A scan of a table, \<^verbatim>\<open>for (auto it = heap->Begin(); it != heap->End(); ++it)\<close>, ends and yields every live tuple of
  the heap exactly once, in the order of the pages and, in a page, of the slots; deleted and marked tuples are
  skipped, also when whole pages are empty, and no page is changed.\<close>

theorem heap_scan_complete:
  assumes "table_ok b th ps"
  shows "\<exists>b' rows. heap_scan lru_ops disk_manager_ops this (b, th) = Some (Inr (b', rows)) \<and>
     table_ok b' th ps \<and> db_pages b' = db_pages b \<and>
     map row_rid rows = heap_rids (db_pages b) ps \<and> distinct (map row_rid rows) \<and>
     set (map row_rid rows) = {rid. \<exists>bs. table_tuples b ps rid = Some (bs, False)} \<and>
     (\<forall>row \<in> set rows. \<exists>r. row_ok (th_schema th) r \<and> table_tuples b ps (row_rid row) = Some (row_enc r, False) \<and>
        row_fields row = map field_canon (row_fields r))"
proof -
  have q: "quiet b" "heap_ok (bp.store b) th ps" "heap_pages (bp.store b) (th_schema th) ps"
    using assms(1) by (simp_all add: table_ok_def store_db heap_ok_def)
  note Q = quiet_pool [OF q(1)]
  have hd: "th_first_page_id th = hd ps" using q(2) by (simp add: heap_ok_def)
  have cl: "bp.unsaved b \<inter> set ps = {}" using Q(5) by simp
  obtain b' rows where 1: "heap_scan lru_ops disk_manager_ops this (b, th) = Some (Inr (b', rows))" "bp.runs {} b b'" "bp.store b' = bp.store b"
    "list_all2 (row_at (bp.store b) (th_schema th) ps) (heap_rids (bp.store b) ps) rows"
    by (rule bp.heap_scan_law [OF Q(1) q(3) hd Q(4) cl])
  have T: "table_ok b' th ps" by (rule table_ok_runs [OF assms(1) 1(2)]) (use q(2) 1(3) in \<open>simp add: store_db\<close>)
  have at: "\<exists>r. row_ok (th_schema th) r \<and> table_tuples b ps (row_rid row) = Some (row_enc r, False) \<and>
      row_fields row = map field_canon (row_fields r)" if "row \<in> set rows" for row
  proof -
    obtain rid where "row_at (bp.store b) (th_schema th) ps rid row"
      using 1(4) \<open>row \<in> set rows\<close> by (auto simp: list_all2_conv_all_nth in_set_conv_nth)
    then show ?thesis by (auto simp: row_at_def table_tuples_def store_db)
  qed
  have ids: "map row_rid rows = heap_rids (bp.store b) ps"
    using 1(4) by (auto simp: list_all2_conv_all_nth row_at_def intro!: nth_equalityI)
  note S = heap_rids_set [OF q(3)]
  have "set (map row_rid rows) = {rid. \<exists>bs. table_tuples b ps rid = Some (bs, False)}"
    unfolding ids using S(2) by (auto simp: table_tuples_def store_db)
  then show ?thesis
    using 1(1,3) T ids S(1) at by (intro exI [of _ b'] exI [of _ rows]) (simp add: store_db)
qed

theorem heap_scan_complete_witness:
  "\<exists>b th rid b' row. heap_scan lru_ops disk_manager_ops 1 (b, th) = Some (Inr (b', [row])) \<and> row_rid row = rid"
proof -
  obtain b th ps rid where 1: "table_ok b th ps" "table_tuples b ps = [rid \<mapsto> (row_enc example_row, False)]"
    "th_schema th = example_schema" by (rule example_stored)
  obtain b' rows where 2: "heap_scan lru_ops disk_manager_ops 1 (b, th) = Some (Inr (b', rows))" "distinct (map row_rid rows)"
    "set (map row_rid rows) = {rid. \<exists>bs. table_tuples b ps rid = Some (bs, False)}"
    using heap_scan_complete [OF 1(1)] by blast
  have "set (map row_rid rows) = {rid}" using 2(3) 1(2) by (auto split: if_splits)
  then have "map row_rid rows = [rid]"
    using 2(2) by (cases rows; cases "tl rows") auto
  then show ?thesis using 2(1) by auto
qed

end
