(* ===== verification/Storage_Engine.thy ===== *)
theory Storage_Engine
  imports Table_Store Index_Roots_Page
begin

text \<open>
  The storage engine of a database (\<^verbatim>\<open>src/common/instance.cpp\<close>) up to its catalog: a new database file gets its two fixed pages,
  the catalog page 0 and the index roots page 1. That they come out with these numbers rests on the disk manager handing out
  the lowest free page.
\<close>

section \<open>The lowest free page\<close>

lemma find_extent_least:
  assumes "wf_disk d" "find_extent d e0 = Some (e, bp, off)"
  shows "(\<forall>j < off. bm_bit (disk_bitmap d e) j) \<and> (\<forall>e'. e0 \<le> e' \<and> e' < e \<longrightarrow> (\<forall>i < 32704. bm_bit (disk_bitmap d e') i))"
  using assms
proof (induction d e0 rule: find_extent.induct)
  case (1 d e0)
  note wf = wf_diskD [OF \<open>wf_disk d\<close>]
  have e0: "e0 < disk_extents d"
    using 1(4) by (simp add: find_extent.simps [of d e0] disk_extents_def split: if_splits)
  show ?case
  proof (cases "unat (extent_used_page (dm_meta d) e0) < BITMAP_SIZE")
    case True
    then have "\<not> (\<forall>i < GetMaxSupportedSize PAGE_SIZE. bm_bit (disk_bitmap d e0) i)"
      using wf_disk_not_full [OF \<open>wf_disk d\<close> e0] by (simp add: Max_eq)
    then obtain bp' k where k: "bitmap_AllocatePage PAGE_SIZE (disk_bitmap d e0) = (bp', Some k)" "\<forall>j < k. bm_bit (disk_bitmap d e0) j"
      using bitmap_alloc_free [OF wf(4) [OF e0]] by metis
    from True e0 wf(3) have "find_extent d e0 = Some (e0, bp', k)"
      by (simp add: find_extent.simps [of d e0] disk_extents_def read_bitmap wf(2) k(1))
    with 1(4) k(2) show ?thesis by auto
  next
    case False
    then have "find_extent d e0 = find_extent d (Suc e0)" using e0 by (simp add: find_extent.simps [of d e0] disk_extents_def)
    then have IH: "(\<forall>j < off. bm_bit (disk_bitmap d e) j) \<and> (\<forall>e'. Suc e0 \<le> e' \<and> e' < e \<longrightarrow> (\<forall>i < 32704. bm_bit (disk_bitmap d e') i))"
      using 1(1) e0 False 1(3,4) by (simp add: disk_extents_def)
    have "\<forall>i < 32704. bm_bit (disk_bitmap d e0) i" using wf_disk_not_full [OF \<open>wf_disk d\<close> e0] False by blast
    with IH show ?thesis by (metis Suc_leI le_neq_implies_less)
  qed
qed

lemma AllocatePage_least:
  assumes wf: "wf_disk d" and r: "disk_AllocatePage d = Inr (d', p)" and q: "unat q < unat p"
  shows "q \<in> disk_allocated d"
proof -
  have n: "disk_extents d \<le> 16" by (rule wf_diskD(3) [OF wf])
  have div: "unat q = unat q div 32704 * 32704 + unat q mod 32704" by (simp add: div_mult_mod_eq)
  show ?thesis
  proof (cases "find_extent d 0")
    case None
    have "BITMAP_SIZE \<le> unat (extent_used_page (dm_meta d) e)" if "e < disk_extents d" for e
      using find_extent_None [OF wf None _ that] by simp
    then have full: "bm_bit (disk_bitmap d e) i" if "e < disk_extents d" "i < 32704" for e i
      using wf_disk_not_full [OF wf that(1)] that by (metis not_less)
    obtain bp where "bitmap_AllocatePage PAGE_SIZE (zero_bitmap PAGE_SIZE) = (bp, Some 0)" using alloc_zero_bitmap_page by blast
    then have "p = of_nat (disk_extents d) * extent_capacity + of_nat 0"
      using r None by (auto simp: disk_AllocatePage_def new_extent_def Let_def bitmap_of_zero_page disk_extents_def split: if_splits)
    then have "unat p = disk_extents d * 32704" using unat_word_div_mod(1) [of "disk_extents d" 0] n by simp
    then have "unat q div 32704 < disk_extents d" "unat q < 2 ^ 31" using q n by (simp_all add: less_mult_imp_div_less)
    then show ?thesis using full by (simp add: disk_allocated_def)
  next
    case (Some x)
    obtain e bp off where x: "x = (e, bp, off)" by (cases x)
    have F: "e < disk_extents d" "off < 32704" using find_extent_Some [OF wf, of 0 e bp off] Some x by auto
    note L = find_extent_least [OF wf, of 0 e bp off] 
    have p: "unat p = e * 32704 + off"
      using r Some x unat_word_div_mod(1) [of e off] F n by (auto simp: disk_AllocatePage_def)
    have le: "unat q div 32704 \<le> e" using q p F(2) by linarith
    have "unat q mod 32704 < off" if "unat q div 32704 = e" using q p div that by simp
    then have "bm_bit (disk_bitmap d (unat q div 32704)) (unat q mod 32704)" using L Some x le by (cases "unat q div 32704 = e") auto
    moreover have "unat q < 2 ^ 31" using q p F n by simp
    ultimately show ?thesis using le F(1) by (simp add: disk_allocated_def)
  qed
qed

section \<open>Opening a database\<close>

text \<open>The constructor of \<^verbatim>\<open>DBStorageEngine\<close> before it creates the catalog. With \<^verbatim>\<open>init\<close> the file is removed first, so the disk manager
  opens an empty one. Exceptions and \<^verbatim>\<open>exit\<close> are failures.\<close>

definition engine_new_page :: "'r replacer_ops \<Rightarrow> 'd disk_ops \<Rightarrow> page_id_t \<Rightarrow> string \<Rightarrow> ('r, 'd) bpm \<Rightarrow> ('r, 'd) bpm result" where
  "engine_new_page rops dops want msg b =
     bind_result (NewPage rops dops b) (\<lambda>(b, page). case page of
       None \<Rightarrow> Inl (AssertionFailed msg)
     | Some (_, pid) \<Rightarrow> if pid \<noteq> want then Inl (AssertionFailed msg) else Inr b)"

definition engine_init_pages :: "'r replacer_ops \<Rightarrow> 'd disk_ops \<Rightarrow> ('r, 'd) bpm \<Rightarrow> ('r, 'd) bpm result" where
  "engine_init_pages rops dops b =
     (if \<not> bpm_IsPageFree dops CATALOG_META_PAGE_ID b then Inl (AssertionFailed ''Catalog meta page not free.'')
      else if \<not> bpm_IsPageFree dops INDEX_ROOTS_PAGE_ID b then Inl (AssertionFailed ''Header page not free.'')
      else bind_result (engine_new_page rops dops CATALOG_META_PAGE_ID ''Failed to allocate catalog meta page.'' b) (\<lambda>b.
           bind_result (engine_new_page rops dops INDEX_ROOTS_PAGE_ID ''Failed to allocate header page.'' b) (\<lambda>b.
           if bpm_IsPageFree dops CATALOG_META_PAGE_ID b \<or> bpm_IsPageFree dops INDEX_ROOTS_PAGE_ID b
           then Inl (AssertionFailed ''exit(1)'')
           else Inr (fst (UnpinPage rops INDEX_ROOTS_PAGE_ID False (fst (UnpinPage rops CATALOG_META_PAGE_ID False b)))))))"

definition DBStorageEngine_open :: "byte list \<Rightarrow> bool \<Rightarrow> nat \<Rightarrow> (LRUReplacer, disk_manager) bpm result" where
  "DBStorageEngine_open file init buffer_pool_size =
     (let b = BufferPoolManager_init LRUReplacer_init buffer_pool_size (DiskManager_open (if init then [] else file))
      in if init then engine_init_pages lru_ops disk_manager_ops b
         else if bpm_IsPageFree disk_manager_ops CATALOG_META_PAGE_ID b
           then Inl (AssertionFailed ''Invalid catalog meta page in database file: '')
         else if bpm_IsPageFree disk_manager_ops INDEX_ROOTS_PAGE_ID b
           then Inl (AssertionFailed ''Invalid header page in database file: '')
         else Inr b)"

lemma NewPage_unused:
  assumes "free_list b = f # fs" "f \<noteq> INVALID_FRAME_ID" "\<not> is_dirty (frame b f)" "NewPage lru_ops disk_manager_ops b = Inr (b', Some (g, p))"
  shows "disk_AllocatePage (bpm_disk b) = Inr (bpm_disk b', p)" "free_list b' = fs" "\<And>h. h \<noteq> nat f \<Longrightarrow> pages b' ! h = pages b ! h"
  using assms
  by (auto simp: NewPage_def TryToFindFreePage_def evict_frame_def bpm_AllocatePage_def bind_result_def upd_frame_def Let_def
      disk_manager_ops_def split: sum.splits prod.splits if_splits)

lemma bpm_IsPageFree_iff: "wf_disk (bpm_disk b) \<Longrightarrow> 0 \<le> sint p \<Longrightarrow> bpm_IsPageFree disk_manager_ops p b \<longleftrightarrow> p \<notin> disk_allocated (bpm_disk b)"
  by (simp add: bpm_IsPageFree_def disk_manager_ops_def disk_is_free)

lemma AllocatePage_frame:
  assumes "wf_disk d" "disk_room d" "disk_AllocatePage d = Inr (d', p)"
  shows "disk_ok_id q \<Longrightarrow> disk_content d' q = disk_content d q"
  using disk_alloc_room [OF assms(1,2)] assms(3) by (metis Pair_inject sum.inject(2))

lemma fresh_content: "disk_content (DiskManager_open []) q = zero_page"
  by (simp add: open_empty disk_content_def page_at_def zero_page_def)

lemma fresh_engine:
  assumes n: "2 \<le> n"
  obtains b where "DBStorageEngine_open file True n = Inr b" "quiet b" "pool_size b = n" "disk_allocated (bpm_disk b) = {0, 1}"
    "db_pages b = [0 \<mapsto> zero_page, 1 \<mapsto> zero_page]"
proof -
  let ?d = "DiskManager_open []"
  define b where "b = BufferPoolManager_init LRUReplacer_init n ?d"
  have q: "quiet b" unfolding quiet_def b_def
    using wf_bpm_init [OF wf_open_empty(1), of n] n by (auto simp: BufferPoolManager_init_def pinned_def in_pool_def Page_init_def)
  note Q = quiet_pool [OF q]
  have d: "bpm_disk b = ?d" "pool_size b = n" by (simp_all add: b_def BufferPoolManager_init_def)
  have room0: "disk_room (bpm_disk b)" using d wf_open_empty(2) by simp
  have fl: "free_list b = 0 # 1 # map int [2..<n]" using n by (simp add: b_def BufferPoolManager_init_def upt_conv_Cons numeral_2_eq_2)
  have clean: "\<not> is_dirty (frame b 0)" "\<not> is_dirty (frame b 1)" using n by (simp_all add: b_def BufferPoolManager_init_def Page_init_def)
  obtain b1 f p where 1: "NewPage lru_ops disk_manager_ops b = Inr (b1, Some (f, p))"
    "bp.bp_inv b1 \<and> dom (page_table b1) \<subseteq> disk_allocated (bpm_disk b1)" "page_table b1 p = Some f" "page_data (frame b1 f) = zero_page"
    "p \<notin> disk_allocated (bpm_disk b)" "bp.store b p = None" "p \<noteq> INVALID_PAGE_ID" "pins b p = 0"
    "bp.store b1 = (bp.store b)(p \<mapsto> zero_page)" "pins b1 = (pins b)(p := 1)"
    "bp.unsaved b1 \<subseteq> insert p (bp.unsaved b)" "\<And>q. 0 < pins b q \<Longrightarrow> page_table b1 q = page_table b q" "pool_size b1 = pool_size b"
    by (rule bp.session_New [OF Q(1) room0 Q(4)]) (rule that; assumption)
  note N1 = NewPage_unused [OF fl _ clean(1) 1(1), unfolded d]
  have p: "p = 0" using AllocatePage_least [OF wf_open_empty(1) N1(1), of 0] wf_open_empty(3) by (auto simp: config_defs unat_gt_0)
  have wf1: "wf_disk (bpm_disk b1)" by (rule bp.inv_butD(3) [OF conjunct1 [OF 1(2)]])
  have al1: "disk_allocated (bpm_disk b1) = {0}"
    using bp.New_allocated [OF Q(1) room0 Q(4) 1(1)] d wf_open_empty(3) p by simp
  have room1: "disk_room (bpm_disk b1)" by (rule disk_room_few [OF wf1]) (simp add: al1)
  have pin1: "pins b1 = (\<lambda>q. if q = 0 then 1 else 0)" using 1(10) Q(2) p by auto
  have sp1: "0 < spares b1" using n by (simp add: spares_def pin1 1(13) d)
  obtain b2 g r where 2: "NewPage lru_ops disk_manager_ops b1 = Inr (b2, Some (g, r))"
    "bp.bp_inv b2 \<and> dom (page_table b2) \<subseteq> disk_allocated (bpm_disk b2)" "page_table b2 r = Some g" "page_data (frame b2 g) = zero_page"
    "r \<notin> disk_allocated (bpm_disk b1)" "bp.store b1 r = None" "r \<noteq> INVALID_PAGE_ID" "pins b1 r = 0"
    "bp.store b2 = (bp.store b1)(r \<mapsto> zero_page)" "pins b2 = (pins b1)(r := 1)"
    "bp.unsaved b2 \<subseteq> insert r (bp.unsaved b1)" "\<And>q. 0 < pins b1 q \<Longrightarrow> page_table b2 q = page_table b1 q" "pool_size b2 = pool_size b1"
    by (rule bp.session_New [OF 1(2) room1 sp1]) (rule that; assumption)
  have fl1: "free_list b1 = 1 # map int [2..<n]" "\<not> is_dirty (frame b1 1)" using N1(2) N1(3) [of 1] clean(2) by (simp_all add: config_defs)
  note N2 = NewPage_unused [OF fl1(1) _ fl1(2) 2(1)]
  have r: "r = 1"
  proof -
    have "\<not> unat (1 :: page_id_t) < unat r" using AllocatePage_least [OF wf1 N2(1), of 1] al1 by (auto simp: config_defs)
    then show ?thesis using 2(5) al1 by (simp add: word_unat_eq_iff)
  qed
  have wf2: "wf_disk (bpm_disk b2)" by (rule bp.inv_butD(3) [OF conjunct1 [OF 2(2)]])
  have al2: "disk_allocated (bpm_disk b2) = {0, 1}" using bp.New_allocated [OF 1(2) room1 sp1 2(1)] al1 r by auto
  have pin2: "pins b2 = (\<lambda>q. if q = 0 \<or> q = 1 then 1 else 0)" using 2(10) pin1 r by auto
  have st2: "bp.store b2 = [0 \<mapsto> zero_page, 1 \<mapsto> zero_page]"
    using 2(9) 1(9) p r d wf_open_empty(3) by (simp add: store_db db_pages_def fun_eq_iff)
  have cont: "disk_content (bpm_disk b2) q = zero_page" if "disk_ok_id q" for q
    using AllocatePage_frame [OF wf1 room1 N2(1) that] AllocatePage_frame [OF wf_open_empty(1,2) N1(1) that] fresh_content
    by (simp add: config_defs)
  have un2: "bp.unsaved b2 = {}"
  proof -
    have "q \<notin> bp.unsaved b2" for q
    proof
      assume q: "q \<in> bp.unsaved b2"
      then have "q = 0 \<or> q = 1" using 2(11) 1(11) Q(5) p r by auto
      then have s: "db_pages b2 q = Some zero_page" using st2 by (auto simp: store_db)
      then have "logical_page b2 q = zero_page" "disk_ok_id q" by (auto simp: db_pages_def split: if_splits)
      then show False using q cont [of q] by (auto simp: bp.unsaved_def bpm_view_def)
    qed
    then show ?thesis by blast
  qed
  obtain b3 where 3: "UnpinPage lru_ops 0 False b2 = (b3, True)" "bp.bp_inv b3 \<and> dom (page_table b3) \<subseteq> disk_allocated (bpm_disk b3)"
    "page_table b3 = page_table b2" "bp.store b3 = bp.store b2" "pins b3 = (pins b2)(0 := pins b2 0 - 1)"
    "bp.unsaved b3 \<subseteq> bp.unsaved b2 - (if False then {0} else {})" "pool_size b3 = pool_size b2" "bpm_disk b3 = bpm_disk b2"
    by (rule bp.session_Unpin [OF 2(2), of 0 False]) (use pin2 un2 in auto)
  obtain b4 where 4: "UnpinPage lru_ops 1 False b3 = (b4, True)" "bp.bp_inv b4 \<and> dom (page_table b4) \<subseteq> disk_allocated (bpm_disk b4)"
    "page_table b4 = page_table b3" "bp.store b4 = bp.store b3" "pins b4 = (pins b3)(1 := pins b3 1 - 1)"
    "bp.unsaved b4 \<subseteq> bp.unsaved b3 - (if False then {1} else {})" "pool_size b4 = pool_size b3" "bpm_disk b4 = bpm_disk b3"
    by (rule bp.session_Unpin [OF 3(2), of 1 False]) (use pin2 un2 3(5,6) in auto)
  have "bp.runs {} b b4"
    unfolding bp.runs_def using 4 3 2(13) 1(13) pin2 un2 Q(2) by (auto simp: fun_eq_iff)
  then have "quiet b4" by (rule quiet_runs [OF q])
  moreover have "DBStorageEngine_open file True n = Inr b4"
  proof -
    have free: "bpm_IsPageFree disk_manager_ops q b \<longleftrightarrow> True" "bpm_IsPageFree disk_manager_ops q b2 \<longleftrightarrow> q \<notin> {0, 1}" if "0 \<le> sint q" for q
      using bpm_IsPageFree_iff [of b q] bpm_IsPageFree_iff [of b2 q] wf2 al2 that d wf_open_empty by simp_all
    show ?thesis
      using 1(1) 2(1) 3(1) 4(1) p r free [of 0] free [of 1] b_def
      by (simp add: DBStorageEngine_open_def engine_init_pages_def engine_new_page_def config_defs)
  qed
  moreover have "db_pages b4 = [0 \<mapsto> zero_page, 1 \<mapsto> zero_page]" using 4(4) 3(4) st2 by (simp add: store_db)
  ultimately show thesis using that 4(7,8) 3(7,8) 2(13) 1(13) al2 d by simp
qed

end
