(* ===== verification/Tree_Store.thy ===== *)
theory Tree_Store
  imports Tree_Update Storage_Engine
begin

text \<open>
  B+ trees over the buffer pool and the disk manager of the program, between two calls: opening a tree, point queries and
  insertions.
\<close>

section \<open>The state between two calls\<close>

definition index_ok :: "(LRUReplacer, disk_manager) bpm \<Rightarrow> BPlusTree \<Rightarrow> (index_id_t \<rightharpoonup> page_id_t) \<Rightarrow> nat \<Rightarrow> (byte list \<times> RowId) list \<Rightarrow> page_id_t set \<Rightarrow> bool" where
  "index_ok b t M n ps ids \<longleftrightarrow> quiet b \<and> bt_fits t \<and> index_at t (db_pages b) M n ps ids"

lemma index_sorted:
  assumes "index_at t S M n ps ids"
  shows "key_sorted (bt_lt t) ps \<and> valid_keys (bt_valid t) ps"
proof (cases "bt_IsEmpty t")
  case True
  then show ?thesis using assms by (simp add: index_at_def key_sorted_def valid_keys_def)
next
  case False
  then obtain T where "tree_at t S n T" "tree_pairs T = ps" using assms by (auto simp: index_at_def)
  then show ?thesis using lf.within_pairs(1) [of "bt_processor t" None None T] by (auto simp: tree_at_def lf.pairs_within_def)
qed

lemma quiet_spares: "quiet b \<Longrightarrow> spares b = pool_size b"
  using quiet_pool(2) [of b] by (simp add: spares_def)

section \<open>Opening a tree\<close>

text \<open>The default sizes leave room for the one pair more that a page holds before it is split.\<close>

lemma default_sizes:
  assumes "ks \<le> 1352"
  shows "1 \<le> default_leaf_max ks" "2 \<le> default_internal_max ks"
    "32 + (nat (default_leaf_max ks) + 1) * (ks + 8) \<le> 4096" "28 + (nat (default_internal_max ks) + 1) * (ks + 4) \<le> 4096"
proof -
  have L: "nat (default_leaf_max ks) + 1 = 4064 div (ks + 8)" "default_leaf_max ks = int (4064 div (ks + 8)) - 1" "2 \<le> 4064 div (ks + 8)"
  proof -
    show e: "default_leaf_max ks = int (4064 div (ks + 8)) - 1" by (simp add: default_leaf_max_def zdiv_int)
    show t: "2 \<le> 4064 div (ks + 8)" using assms by (subst less_eq_div_iff_mult_less_eq) simp_all
    show "nat (default_leaf_max ks) + 1 = 4064 div (ks + 8)" using t by (simp add: e)
  qed
  have I: "nat (default_internal_max ks) + 1 = 4068 div (ks + 4)" "default_internal_max ks = int (4068 div (ks + 4)) - 1" "3 \<le> 4068 div (ks + 4)"
  proof -
    show e: "default_internal_max ks = int (4068 div (ks + 4)) - 1" by (simp add: default_internal_max_def zdiv_int)
    show t: "3 \<le> 4068 div (ks + 4)" using assms by (subst less_eq_div_iff_mult_less_eq) simp_all
    show "nat (default_internal_max ks) + 1 = 4068 div (ks + 4)" using t by (simp add: e)
  qed
  show "1 \<le> default_leaf_max ks" "2 \<le> default_internal_max ks" using L(2,3) I(2,3) by simp_all
  show "32 + (nat (default_leaf_max ks) + 1) * (ks + 8) \<le> 4096" unfolding L(1) using div_times_less_eq_dividend [of 4064 "ks + 8"] by linarith
  show "28 + (nat (default_internal_max ks) + 1) * (ks + 4) \<le> 4096" unfolding I(1) using div_times_less_eq_dividend [of 4068 "ks + 4"] by linarith
qed

lemma BPlusTree_new_runs:
  assumes ok: "bp.bp_inv b \<and> dom (page_table b) \<subseteq> disk_allocated (bpm_disk b)" and r: "roots_at (db_pages b) M"
    and sp: "0 < spares b" and pn: "0 \<le> pins b INDEX_ROOTS_PAGE_ID" and cl: "INDEX_ROOTS_PAGE_ID \<notin> bp.unsaved b"
  obtains b' where "BPlusTree_new lru_ops disk_manager_ops i km 0 0 b = Inr (b',
      \<lparr>bt_index_id = i, bt_root_page_id = (case M i of Some r \<Rightarrow> r | None \<Rightarrow> INVALID_PAGE_ID), bt_processor = KeyManager_copy km,
       bt_leaf_max_size = default_leaf_max (km_key_size km), bt_internal_max_size = default_internal_max (km_key_size km)\<rparr>)"
    "bp.runs {} b b'" "db_pages b' = db_pages b" "disk_allocated (bpm_disk b') = disk_allocated (bpm_disk b)"
proof -
  obtain d where d: "bp.store b INDEX_ROOTS_PAGE_ID = Some d" "ir_ok d" "map_of (ir_view d) = M" using r by (auto simp: roots_at_def store_db)
  obtain b1 f where 1: "FetchPage lru_ops disk_manager_ops INDEX_ROOTS_PAGE_ID b = Inr (b1, Some f)" "bp.held {} (one INDEX_ROOTS_PAGE_ID) b b1"
    "pinned_at b1 INDEX_ROOTS_PAGE_ID f" "fdata b1 f = d" "bp.store b1 = bp.store b" "spares b \<le> Suc (spares b1)"
    "disk_allocated (bpm_disk b1) = disk_allocated (bpm_disk b)"
    by (rule bp.held_Fetch [OF ok d(1) sp])
  obtain b2 where 2: "UnpinPage lru_ops INDEX_ROOTS_PAGE_ID False b1 = (b2, True)"
    "bp.held ({} - (if False then {INDEX_ROOTS_PAGE_ID} else {})) (\<lambda>q. one INDEX_ROOTS_PAGE_ID q - one INDEX_ROOTS_PAGE_ID q) b b2"
    "bp.store b2 = bp.store b1" "bpm_disk b2 = bpm_disk b1"
    by (rule bp.held_Unpin [OF 1(2), of INDEX_ROOTS_PAGE_ID False]) (use pn cl in auto)
  have "ir_GetRootId i d = Inr (M i)" using d(3) by (auto simp: ir_GetRootId_def simp flip: FindIndex_view)
  moreover have "bp.runs {} b b2" using 2(2) by (simp add: bp.held_runs)
  ultimately show thesis
    using that [of b2] 1(1,4,5,7) 2(1,3,4) by (simp add: BPlusTree_new_def UNDEFINED_SIZE_def store_db)
qed

lemma BPlusTree_new_law:
  assumes q: "quiet b" and r: "roots_at (db_pages b) M"
  obtains b' where "BPlusTree_new lru_ops disk_manager_ops i km 0 0 b = Inr (b',
      \<lparr>bt_index_id = i, bt_root_page_id = (case M i of Some r \<Rightarrow> r | None \<Rightarrow> INVALID_PAGE_ID), bt_processor = KeyManager_copy km,
       bt_leaf_max_size = default_leaf_max (km_key_size km), bt_internal_max_size = default_internal_max (km_key_size km)\<rparr>)"
    "bp.runs {} b b'" "db_pages b' = db_pages b" "disk_allocated (bpm_disk b') = disk_allocated (bpm_disk b)"
  using BPlusTree_new_runs [OF quiet_pool(1) [OF q] r quiet_pool(4) [OF q], of i km] quiet_pool(2,5) [OF q] that by auto

section \<open>Examples\<close>

text \<open>A tree in a new database: the directory page of zeros is the empty directory.\<close>

lemma zero_roots: "roots_at S Map.empty" if "S INDEX_ROOTS_PAGE_ID = Some zero_page"
proof -
  have "ir_count zero_page = 0" by (simp add: ir_count_def rd32_zero_page)
  then have "ir_ok zero_page" "ir_view zero_page = []" by (simp_all add: ir_ok_def ir_view_def MAX_INDEX_COUNT_def) (simp add: zero_page_def)
  then show ?thesis using that by (auto simp: roots_at_def)
qed

lemma km_copy [simp]: "KeyManager_copy km = (km :: KeyManager)"
  by (simp add: KeyManager_copy_def)

lemma example_index:
  obtains b b' t where "DBStorageEngine_open [] True 16 = Inr b" "BPlusTree_new lru_ops disk_manager_ops 7 example_km 0 0 b = Inr (b', t)"
    "index_ok b' t Map.empty 0 [] {}" "bt_processor t = example_km" "bt_index_id t = 7" "pool_size b' = 16" "card (disk_allocated (bpm_disk b')) = 2"
    "quiet b" "roots_at (db_pages b) Map.empty"
proof -
  obtain b where 1: "DBStorageEngine_open [] True 16 = Inr b" "quiet b" "pool_size b = 16" "disk_allocated (bpm_disk b) = {0, 1}"
    "db_pages b = [0 \<mapsto> zero_page, 1 \<mapsto> zero_page]"
    by (rule fresh_engine [of 16 "[]"]) simp
  have r: "roots_at (db_pages b) Map.empty" by (rule zero_roots) (simp add: 1(5) config_defs)
  have k: "km_key_size example_km \<le> 1352" by (simp add: example_km_def KeyManager_new_def)
  obtain b' where 2: "BPlusTree_new lru_ops disk_manager_ops 7 example_km 0 0 b = Inr (b',
      \<lparr>bt_index_id = 7, bt_root_page_id = (case None of Some r \<Rightarrow> r | None \<Rightarrow> INVALID_PAGE_ID), bt_processor = KeyManager_copy example_km,
       bt_leaf_max_size = default_leaf_max (km_key_size example_km), bt_internal_max_size = default_internal_max (km_key_size example_km)\<rparr>)"
    "bp.runs {} b b'" "db_pages b' = db_pages b" "disk_allocated (bpm_disk b') = disk_allocated (bpm_disk b)"
    by (rule BPlusTree_new_law [OF 1(2) r])
  show thesis
    by (rule that [OF 1(1) 2(1)])
      (use 1(2-4) 2(2-4) r default_sizes [OF k] bp.runsD(2) [OF 2(2)] quiet_runs [OF 1(2) 2(2)] in
        \<open>simp_all add: index_ok_def index_at_def bt_fits_def bt_IsEmpty_def\<close>)
qed

section \<open>Properties\<close>

text \<open>Opening a database file anew (\<^verbatim>\<open>DBStorageEngine\<close> with \<^verbatim>\<open>init\<close>), whatever the file held before: with a pool of at least two
  frames the constructor succeeds, the catalog page gets number 0 and the index roots page number 1, both are zeroed, no
  page is left pinned, and the root directory is empty.\<close>

theorem engine_init_pages_fixed:
  assumes "2 \<le> n"
  shows "\<exists>b. DBStorageEngine_open file True n = Inr b \<and> quiet b \<and> disk_allocated (bpm_disk b) = {CATALOG_META_PAGE_ID, INDEX_ROOTS_PAGE_ID} \<and>
    (\<forall>p \<in> {CATALOG_META_PAGE_ID, INDEX_ROOTS_PAGE_ID}. db_pages b p = Some zero_page) \<and> roots_at (db_pages b) Map.empty"
proof -
  obtain b where 1: "DBStorageEngine_open file True n = Inr b" "quiet b" "pool_size b = n" "disk_allocated (bpm_disk b) = {0, 1}"
    "db_pages b = [0 \<mapsto> zero_page, 1 \<mapsto> zero_page]"
    by (rule fresh_engine [OF assms, of "file"])
  moreover have "roots_at (db_pages b) Map.empty" by (rule zero_roots) (simp add: 1(5) config_defs)
  ultimately show ?thesis by (simp add: config_defs)
qed

theorem engine_init_pages_fixed_witness:
  "\<exists>b. DBStorageEngine_open [1, 2, 3] True 4 = Inr b \<and> quiet b \<and> db_pages b INDEX_ROOTS_PAGE_ID = Some zero_page"
  using engine_init_pages_fixed [of 4 "[1, 2, 3]"] by auto

text \<open>C34. The constructor of \<^verbatim>\<open>BPlusTree\<close> yields a well-formed tree for every key size up to 1352 bytes: the default page capacities
  leave room for the pair that overflows a page before its split. A tree without an entry in the root directory is empty; a tree
  with an entry is found again with the root, the pairs and the pages that it had, and no page changes.\<close>

theorem BPlusTree_new_well_formed:
  assumes "quiet b" "roots_at (db_pages b) M" "km_key_size km \<le> 1352"
  shows "\<exists>b' t. BPlusTree_new lru_ops disk_manager_ops i km 0 0 b = Inr (b', t) \<and> bt_fits t \<and> quiet b' \<and> db_pages b' = db_pages b \<and>
    (M i = None \<longrightarrow> index_ok b' t M 0 [] {}) \<and>
    (\<forall>t0 n ps ids. index_ok b t0 M n ps ids \<and> ps \<noteq> [] \<and> bt_index_id t0 = i \<and> bt_processor t0 = km \<and>
       bt_leaf_max_size t0 = default_leaf_max (km_key_size km) \<and> bt_internal_max_size t0 = default_internal_max (km_key_size km) \<longrightarrow>
       t = t0 \<and> index_ok b' t M n ps ids)"
proof -
  let ?t = "\<lparr>bt_index_id = i, bt_root_page_id = (case M i of Some r \<Rightarrow> r | None \<Rightarrow> INVALID_PAGE_ID), bt_processor = km,
       bt_leaf_max_size = default_leaf_max (km_key_size km), bt_internal_max_size = default_internal_max (km_key_size km)\<rparr>"
  obtain b' where 1: "BPlusTree_new lru_ops disk_manager_ops i km 0 0 b = Inr (b',
      \<lparr>bt_index_id = i, bt_root_page_id = (case M i of Some r \<Rightarrow> r | None \<Rightarrow> INVALID_PAGE_ID), bt_processor = KeyManager_copy km,
       bt_leaf_max_size = default_leaf_max (km_key_size km), bt_internal_max_size = default_internal_max (km_key_size km)\<rparr>)"
    "bp.runs {} b b'" "db_pages b' = db_pages b" "disk_allocated (bpm_disk b') = disk_allocated (bpm_disk b)"
    by (rule BPlusTree_new_law [OF assms(1,2)])
  have q: "quiet b'" by (rule quiet_runs [OF assms(1) 1(2)])
  have f: "bt_fits ?t" using default_sizes [OF assms(3)] by (simp add: bt_fits_def)
  have e: "index_ok b' ?t M 0 [] {}" if "M i = None" using that q f assms(2) 1(3) by (simp add: index_ok_def index_at_def bt_IsEmpty_def)
  have o: "?t = t0 \<and> index_ok b' ?t M n ps ids" if t0: "index_ok b t0 M n ps ids" "ps \<noteq> []" "bt_index_id t0 = i" "bt_processor t0 = km"
    "bt_leaf_max_size t0 = default_leaf_max (km_key_size km)" "bt_internal_max_size t0 = default_internal_max (km_key_size km)" for t0 n ps ids
  proof -
    have "M i = Some (bt_root_page_id t0)" using t0(1-3) by (auto simp: index_ok_def index_at_def split: if_splits)
    then have "?t = t0" using t0(3-6) by simp
    then show ?thesis using t0(1) q 1(3) by (simp add: index_ok_def)
  qed
  show ?thesis by (rule exI [of _ b'], rule exI [of _ ?t]) (use 1(1,3) q f e o in auto)
qed

theorem BPlusTree_new_well_formed_witness:
  "\<exists>b b' t. DBStorageEngine_open [] True 16 = Inr b \<and> BPlusTree_new lru_ops disk_manager_ops 7 example_km 0 0 b = Inr (b', t) \<and>
     bt_leaf_max_size t = 168 \<and> bt_fits t"
proof -
  obtain b b' t where 1: "DBStorageEngine_open [] True 16 = Inr b" "BPlusTree_new lru_ops disk_manager_ops 7 example_km 0 0 b = Inr (b', t)"
    "index_ok b' t Map.empty 0 [] {}" "quiet b" "roots_at (db_pages b) Map.empty" by (rule example_index)
  have k: "km_key_size example_km = 16" by (simp add: example_km_def KeyManager_new_def)
  have "bt_fits t" using BPlusTree_new_well_formed [OF 1(4,5), of example_km 7] 1(2) k by auto
  moreover have "bt_leaf_max_size t = 168"
    using 1(2) k by (auto simp: BPlusTree_new_def bind_result_def UNDEFINED_SIZE_def default_leaf_max_def ASSERT_def split: sum.splits option.splits)
  ultimately show ?thesis using 1(1,2) by blast
qed

text \<open>\<^verbatim>\<open>BPlusTree::GetValue\<close>, over the whole storage stack, is the lookup in the sorted list of the pairs of the tree: it always
  returns, appends the row id of the key when there is one, reports whether there is one, and changes no page and leaves no
  page pinned.\<close>

theorem GetValue_refines:
  assumes "index_ok b t M n ps ids" "bt_valid t key"
  shows "\<exists>b'. GetValue lru_ops disk_manager_ops key result (b, t) =
      Some (Inr (b', case assoc_find (bt_lt t) ps key of None \<Rightarrow> (result, False) | Some rid \<Rightarrow> (result @ [rid], True))) \<and>
    index_ok b' t M n ps ids \<and> db_pages b' = db_pages b"
proof (cases "bt_IsEmpty t")
  case True
  then have "ps = []" using assms(1) by (simp add: index_ok_def index_at_def)
  then show ?thesis using True assms(1) by (simp add: GetValue_def assoc_find_def)
next
  case False
  have q: "quiet b" using assms(1) by (simp add: index_ok_def)
  note Q = quiet_pool [OF q]
  obtain T where T: "tree_at t (bp.store b) n T" "tree_pairs T = ps" using assms(1) False by (auto simp: index_ok_def index_at_def store_db)
  obtain b' where 1: "bp.runs {} b b'" "bp.store b' = bp.store b"
    "GetValue lru_ops disk_manager_ops key result (b, t) = Some (Inr (b', case assoc_find (bt_lt t) (tree_pairs T) key of
       None \<Rightarrow> (result, False) | Some rid \<Rightarrow> (result @ [rid], True)))"
    by (rule bp.GetValue_law [OF T(1) Q(1) assms(2) _ Q(4)]) (use Q(5) in auto)
  then show ?thesis using assms(1) quiet_runs [OF q 1(1)] T(2) by (auto simp: index_ok_def store_db)
qed

lemma index_insert:
  assumes "index_ok b t M n ps ids" "bt_valid t key" "2 * n + 2 < pool_size b" "card (disk_allocated (bpm_disk b)) + n + 2 \<le> 32704"
    "M (bt_index_id t) \<noteq> None \<or> card (dom M) < MAX_INDEX_COUNT"
  obtains b' t' n' ids' where "bt_Insert lru_ops disk_manager_ops key v (b, t) = Some (Inr ((b', t'), assoc_find (bt_lt t) ps key = None))"
    "index_ok b' t' (M(bt_index_id t \<mapsto> bt_root_page_id t')) n' (assoc_insert (bt_lt t) key v ps) ids'" "n' \<le> Suc n"
    "t' = t\<lparr>bt_root_page_id := bt_root_page_id t'\<rparr>" "ids \<subseteq> ids'" "\<forall>x \<in> ids' - ids. db_pages b x = None"
    "\<forall>x. x \<notin> ids' \<longrightarrow> x \<noteq> INDEX_ROOTS_PAGE_ID \<longrightarrow> db_pages b' x = db_pages b x" "pool_size b' = pool_size b"
    "int (length ps) < bt_leaf_max_size t \<longrightarrow> n' = n" "bt_IsEmpty t \<longrightarrow> card (disk_allocated (bpm_disk b')) \<le> Suc (card (disk_allocated (bpm_disk b)))"
proof -
  have q: "quiet b" and f: "bt_fits t" and I: "index_at t (bp.store b) M n ps ids" using assms(1) by (simp_all add: index_ok_def store_db)
  note Q = quiet_pool [OF q]
  have pre: "bp.unsaved b \<inter> ids = {}" "2 * n + 2 < spares b" "bq.quota (Suc (Suc n)) b"
    using Q(5) assms(3,4) quiet_spares [OF q] by (simp_all add: bq.quota_def)
  obtain b' t' n' ids' where 1: "bt_Insert lru_ops disk_manager_ops key v (b, t) = Some (Inr ((b', t'), assoc_find (bt_lt t) ps key = None))"
    "bp.runs {x. 0 < pins b x} b b'" "t' = t\<lparr>bt_root_page_id := bt_root_page_id t'\<rparr>" "n' \<le> Suc n"
    "index_at t' (bp.store b') (M(bt_index_id t \<mapsto> bt_root_page_id t')) n' (assoc_insert (bt_lt t) key v ps) ids'" "ids \<subseteq> ids'"
    "\<forall>x \<in> ids' - ids. bp.store b x = None" "\<forall>x. x \<notin> ids' \<longrightarrow> x \<noteq> INDEX_ROOTS_PAGE_ID \<longrightarrow> bp.store b' x = bp.store b x"
    "int (length ps) < bt_leaf_max_size t \<longrightarrow> n' = n" "bt_IsEmpty t \<longrightarrow> (\<exists>r. disk_allocated (bpm_disk b') = insert r (disk_allocated (bpm_disk b)))"
    using bq.bt_Insert_law [OF f I Q(1) assms(2) pre assms(5), of v] by blast
  have r: "bp.runs {} b b'" using 1(2) Q(2) by simp
  have "bt_fits t'" using f by (subst 1(3)) (simp add: bt_fits_def)
  then have "index_ok b' t' (M(bt_index_id t \<mapsto> bt_root_page_id t')) n' (assoc_insert (bt_lt t) key v ps) ids'"
    using 1(5) quiet_runs [OF q r] by (simp add: index_ok_def store_db)
  moreover have "bt_IsEmpty t \<longrightarrow> card (disk_allocated (bpm_disk b')) \<le> Suc (card (disk_allocated (bpm_disk b)))"
    using 1(10) card_insert_le_m1 [of "Suc (card (disk_allocated (bpm_disk b)))" "disk_allocated (bpm_disk b)"] by auto
  ultimately show thesis using that [of b' t' n' ids'] 1(1,3,4,6-9) bp.runsD(2) [OF r] by (simp add: store_db)
qed

text \<open>C3. \<^verbatim>\<open>BPlusTree::Insert\<close>, over the whole storage stack, is the insertion into the sorted list of the pairs of the tree. It always
  returns; it reports false exactly when the key is there, and the pairs are then as before. Otherwise the new pair is in the tree, also when
  leaves and internal nodes split and a new root is made. The result is again a well-formed tree (keys ordered and separated, all leaves at one depth and in one chain, parent links right, no
  page overfull) that the root directory names, of at most one level more; it has kept its pages and taken new ones only from free ones,
  no other page of the database has changed, and no page is left pinned. The pool needs two frames per level and three more.\<close>

theorem bt_Insert_refines:
  assumes "index_ok b t M n ps ids" "bt_valid t key" "2 * n + 2 < pool_size b" "card (disk_allocated (bpm_disk b)) + n + 2 \<le> 32704"
    "M (bt_index_id t) \<noteq> None \<or> card (dom M) < MAX_INDEX_COUNT"
  shows "\<exists>b' t' n' ids'. bt_Insert lru_ops disk_manager_ops key v (b, t) = Some (Inr ((b', t'), assoc_find (bt_lt t) ps key = None)) \<and>
    index_ok b' t' (M(bt_index_id t \<mapsto> bt_root_page_id t')) n' (assoc_insert (bt_lt t) key v ps) ids' \<and> n' \<le> Suc n \<and>
    t' = t\<lparr>bt_root_page_id := bt_root_page_id t'\<rparr> \<and> ids \<subseteq> ids' \<and> (\<forall>x \<in> ids' - ids. db_pages b x = None) \<and>
    (\<forall>x. x \<notin> ids' \<longrightarrow> x \<noteq> INDEX_ROOTS_PAGE_ID \<longrightarrow> db_pages b' x = db_pages b x)"
  by (rule index_insert [OF assms]) blast

lemma example_stored_key:
  obtains a a2 b t ids M n where "index_ok b t M n [(a, mk_RowId 9 4)] ids"
    "bt_processor t = example_km" "key_valid example_km a" "key_valid example_km a2" "key_less example_km a a2"
proof -
  obtain a a2 where a: "key_valid example_km a" "key_valid example_km a2" "key_less example_km a a2" by (rule example_keys)
  obtain b b' t where 1: "index_ok b' t Map.empty 0 [] {}" "bt_processor t = example_km" "bt_index_id t = 7" "pool_size b' = 16"
    "card (disk_allocated (bpm_disk b')) = 2" by (rule example_index)
  have v: "bt_valid t a" using a(1) 1(2) by simp
  obtain b2 t2 n2 ids2 where 2: "index_ok b2 t2 ((Map.empty)(bt_index_id t \<mapsto> bt_root_page_id t2)) n2 (assoc_insert (bt_lt t) a (mk_RowId 9 4) []) ids2"
    "n2 \<le> Suc 0" "t2 = t\<lparr>bt_root_page_id := bt_root_page_id t2\<rparr>"
    by (rule index_insert [OF 1(1) v, where v = "mk_RowId 9 4"]) (use 1(4,5) in \<open>simp_all add: MAX_INDEX_COUNT_def PAGE_SIZE_def\<close>)
  have "bt_processor t2 = example_km" using 1(2) by (subst 2(3)) simp
  then show thesis using that [of b2 t2] 2(1) a by (simp add: assoc_insert_nil)
qed

theorem GetValue_refines_witness:
  "\<exists>a b t b' rids. GetValue lru_ops disk_manager_ops a [] (b, t) = Some (Inr (b', rids, True)) \<and> rids = [mk_RowId 9 4]"
proof -
  obtain a a2 b t ids M n where 1: "index_ok b t M n [(a, mk_RowId 9 4)] ids"
    "bt_processor t = example_km" "key_valid example_km a" "key_valid example_km a2" "key_less example_km a a2"
    by (rule example_stored_key)
  have "assoc_find (bt_lt t) [(a, mk_RowId 9 4)] a = Some (mk_RowId 9 4)"
    using km.lt_asym [OF 1(3) 1(3)] 1(2) by (auto simp: assoc_find_def key_eq_def)
  then show ?thesis using GetValue_refines [OF 1(1), of a "[]"] 1(2,3) by auto
qed

theorem bt_Insert_refines_witness:
  "\<exists>a b b' t b2 t2. DBStorageEngine_open [] True 16 = Inr b \<and> BPlusTree_new lru_ops disk_manager_ops 7 example_km 0 0 b = Inr (b', t) \<and>
     bt_Insert lru_ops disk_manager_ops a (mk_RowId 9 4) (b', t) = Some (Inr ((b2, t2), True))"
proof -
  obtain a a2 where a: "key_valid example_km a" "key_valid example_km a2" by (rule example_keys)
  obtain b b' t where 1: "DBStorageEngine_open [] True 16 = Inr b" "BPlusTree_new lru_ops disk_manager_ops 7 example_km 0 0 b = Inr (b', t)"
    "index_ok b' t Map.empty 0 [] {}" "bt_processor t = example_km" "bt_index_id t = 7" "pool_size b' = 16"
    "card (disk_allocated (bpm_disk b')) = 2" "quiet b" "roots_at (db_pages b) Map.empty" by (rule example_index)
  have v: "bt_valid t a" using a(1) 1(4) by simp
  obtain b2 t2 where 2: "bt_Insert lru_ops disk_manager_ops a (mk_RowId 9 4) (b', t) = Some (Inr ((b2, t2), True))"
    using bt_Insert_refines [OF 1(3) v, of "mk_RowId 9 4"] 1(6,7) by (auto simp: MAX_INDEX_COUNT_def PAGE_SIZE_def assoc_find_def)
  then show ?thesis using 1(1,2) by blast
qed

end
