(* ===== verification/Tree_Remove.thy ===== *)
theory Tree_Remove
  imports Index_Iterator
begin

text \<open>
  Removal from a B+ tree and its destruction (\<^verbatim>\<open>src/index/b_plus_tree.cpp\<close>), and the operations of the index that call them
  (\<^verbatim>\<open>src/index/b_plus_tree_index.cpp\<close>).
\<close>

section \<open>Removal\<close>

definition AdjustRoot :: "'r replacer_ops \<Rightarrow> 'd disk_ops \<Rightarrow> frame_id_t \<Rightarrow> ('r, 'd) tree_state \<Rightarrow> (('r, 'd) tree_state \<times> bool) result" where
  "AdjustRoot rops dops old_root_node = (\<lambda>(b, t).
     if \<not> IsLeafPage (fdata b old_root_node) \<and> GetSize (fdata b old_root_node) = 1 then
       bind_result (RemoveAndReturnOnlyChild (fdata b old_root_node)) (\<lambda>(d, new_root_page_id).
       bind_result (FetchPage rops dops new_root_page_id (write_frame old_root_node d b)) (\<lambda>(b, page). case page of
         None \<Rightarrow> Inl (AssertionFailed ''Failed to fetch new root page.'')
       | Some new_root \<Rightarrow>
           let b = mod_frame new_root (SetParentPageId INVALID_PAGE_ID) b;
               t = t\<lparr>bt_root_page_id := new_root_page_id\<rparr>;
               b = fst (UnpinPage rops new_root_page_id True b)
           in bind_result (UpdateRootPageId rops dops 0 (b, t)) (\<lambda>b. Inr ((b, t), True))))
     else if IsLeafPage (fdata b old_root_node) \<and> GetSize (fdata b old_root_node) = 0 then
       let t = t\<lparr>bt_root_page_id := INVALID_PAGE_ID\<rparr>
       in bind_result (FetchPage rops dops INDEX_ROOTS_PAGE_ID b) (\<lambda>(b, page). case page of
            None \<Rightarrow> Inl (AssertionFailed ''Failed to fetch index roots page.'')
          | Some f \<Rightarrow>
              bind_result (ir_Delete (bt_index_id t) (fdata b f)) (\<lambda>(d, _).
              Inr ((fst (UnpinPage rops INDEX_ROOTS_PAGE_ID True (write_frame f d b)), t), True)))
     else Inr ((b, t), False))"

definition RedistributeLeaf :: "'r replacer_ops \<Rightarrow> 'd disk_ops \<Rightarrow> frame_id_t \<Rightarrow> frame_id_t \<Rightarrow> nat \<Rightarrow> ('r, 'd) bpm \<Rightarrow> ('r, 'd) bpm result" where
  "RedistributeLeaf rops dops neighbor_node node index b =
     bind_result (FetchPage rops dops (GetParentPageId (fdata b node)) b) (\<lambda>(b, page). case page of
       None \<Rightarrow> Inl (AssertionFailed ''Failed to fetch parent page.'')
     | Some parent \<Rightarrow>
         bind_result
           (if index = 0 then
              bind_result (leaf_MoveFirstToEndOf (fdata b neighbor_node) (fdata b node)) (\<lambda>(d, r).
              let b = write_frame node r (write_frame neighbor_node d b)
              in Inr (mod_frame parent (internal_SetKeyAt 1 (leaf_KeyAt (fdata b neighbor_node) 0)) b))
            else
              bind_result (leaf_MoveLastToFrontOf (fdata b neighbor_node) (fdata b node)) (\<lambda>(d, r).
              let b = write_frame node r (write_frame neighbor_node d b)
              in Inr (mod_frame parent (internal_SetKeyAt index (leaf_KeyAt (fdata b node) 0)) b)))
           (\<lambda>b. Inr (fst (UnpinPage rops (bp_GetPageId (fdata b parent)) True b))))"

definition RedistributeInternal :: "'r replacer_ops \<Rightarrow> 'd disk_ops \<Rightarrow> frame_id_t \<Rightarrow> frame_id_t \<Rightarrow> nat \<Rightarrow> ('r, 'd) bpm \<Rightarrow> ('r, 'd) bpm result" where
  "RedistributeInternal rops dops neighbor_node node index b =
     bind_result (FetchPage rops dops (GetParentPageId (fdata b node)) b) (\<lambda>(b, page). case page of
       None \<Rightarrow> Inl (AssertionFailed ''Failed to fetch parent page.'')
     | Some parent \<Rightarrow>
         bind_result
           (if index = 0 then
              bind_result (internal_MoveFirstToEndOf rops dops neighbor_node node (internal_KeyAt (fdata b parent) 1) b) (\<lambda>b.
              Inr (mod_frame parent (internal_SetKeyAt 1 (internal_KeyAt (fdata b neighbor_node) 0)) b))
            else
              let new_parent_key = internal_KeyAt (fdata b neighbor_node) (nat (GetSize (fdata b neighbor_node) - 1))
              in bind_result (internal_MoveLastToFrontOf rops dops neighbor_node node (internal_KeyAt (fdata b parent) index) b) (\<lambda>b.
                 Inr (mod_frame parent (internal_SetKeyAt index new_parent_key) b)))
           (\<lambda>b. Inr (fst (UnpinPage rops (bp_GetPageId (fdata b parent)) True b))))"

text \<open>Both forms of \<^verbatim>\<open>Coalesce\<close> up to the test of the parent; \<open>leaf\<close> selects the form.\<close>

definition Coalesce :: "'r replacer_ops \<Rightarrow> 'd disk_ops \<Rightarrow> bool \<Rightarrow> frame_id_t \<Rightarrow> frame_id_t \<Rightarrow> frame_id_t \<Rightarrow> nat \<Rightarrow> ('r, 'd) bpm \<Rightarrow> ('r, 'd) bpm result" where
  "Coalesce rops dops leaf neighbor_node node parent index b =
     (let left = (if index = 0 then node else neighbor_node);
          right = (if index = 0 then neighbor_node else node);
          parent_remove_index = (if index = 0 then 1 else index)
      in bind_result
           (if leaf then
              bind_result (leaf_MoveAllTo (fdata b right) (fdata b left)) (\<lambda>(d, r). Inr (write_frame left r (write_frame right d b)))
            else internal_MoveAllTo rops dops right left (internal_KeyAt (fdata b parent) parent_remove_index) b)
           (\<lambda>b.
         let left_page_id = bp_GetPageId (fdata b left);
             right_page_id = bp_GetPageId (fdata b right)
         in bind_result (internal_Remove parent_remove_index (fdata b parent)) (\<lambda>d.
            let b = write_frame parent d b;
                b = fst (UnpinPage rops left_page_id True b);
                b = fst (UnpinPage rops right_page_id True b)
            in Inr (fst (DeletePage dops right_page_id b)))))"

partial_function (option) CoalesceOrRedistribute :: "'r replacer_ops \<Rightarrow> 'd disk_ops \<Rightarrow> bool \<Rightarrow> frame_id_t \<Rightarrow> ('r, 'd) bpm \<Rightarrow> BPlusTree \<Rightarrow>
    (('r, 'd) tree_state \<times> bool) run" where
  "CoalesceOrRedistribute rops dops leaf node b t =
     (if IsRootPage (fdata b node) then
        let node_page_id = bp_GetPageId (fdata b node)
        in bind_run (Some (AdjustRoot rops dops node (b, t))) (\<lambda>((b, t), should_delete).
           let b = fst (UnpinPage rops node_page_id True b)
           in Some (Inr ((if should_delete then fst (DeletePage dops node_page_id b) else b, t), should_delete)))
      else if GetSize (fdata b node) \<ge> GetMinSize (fdata b node) then
        Some (Inr ((fst (UnpinPage rops (bp_GetPageId (fdata b node)) True b), t), False))
      else
        bind_run (Some (FetchPage rops dops (GetParentPageId (fdata b node)) b)) (\<lambda>(b, page). case page of
          None \<Rightarrow> Some (Inl (AssertionFailed ''Failed to fetch parent page.''))
        | Some parent \<Rightarrow>
           (case ValueIndex (bp_GetPageId (fdata b node)) (fdata b parent) of
              None \<Rightarrow> Some (Inl (AssertionFailed ''Failed to find child in parent.''))
            | Some index \<Rightarrow>
                let neighbor_index = (if index = 0 then 1 else index - 1)
                in bind_run (Some (FetchPage rops dops (internal_ValueAt (fdata b parent) neighbor_index) b)) (\<lambda>(b, page). case page of
                     None \<Rightarrow> Some (Inl (AssertionFailed ''Failed to fetch neighbor page.''))
                   | Some neighbor \<Rightarrow>
                       if GetSize (fdata b neighbor) + GetSize (fdata b node) > GetMaxSize (fdata b node) then
                         bind_run (Some (if leaf then RedistributeLeaf rops dops neighbor node index b
                                         else RedistributeInternal rops dops neighbor node index b)) (\<lambda>b.
                         let b = fst (UnpinPage rops (bp_GetPageId (fdata b neighbor)) True b);
                             b = fst (UnpinPage rops (bp_GetPageId (fdata b node)) True b);
                             b = fst (UnpinPage rops (bp_GetPageId (fdata b parent)) True b)
                         in Some (Inr ((b, t), False)))
                       else
                         bind_run (Some (Coalesce rops dops leaf neighbor node parent index b)) (\<lambda>b.
                         if IsRootPage (fdata b parent) \<or> GetSize (fdata b parent) < GetMinSize (fdata b parent)
                         then CoalesceOrRedistribute rops dops False parent b t
                         else Some (Inr ((fst (UnpinPage rops (bp_GetPageId (fdata b parent)) True b), t), False)))))))"

definition bt_Remove :: "'r replacer_ops \<Rightarrow> 'd disk_ops \<Rightarrow> byte list \<Rightarrow> ('r, 'd) tree_state \<Rightarrow> ('r, 'd) tree_state run" where
  "bt_Remove rops dops key = (\<lambda>(b, t).
     if bt_IsEmpty t then Some (Inr (b, t))
     else bind_run (FindLeafPage rops dops (Some key) (b, t)) (\<lambda>(b, page). case page of
            None \<Rightarrow> Some (Inr (b, t))
          | Some leaf \<Rightarrow>
              let old_size = GetSize (fdata b leaf)
              in bind_run (Some (RemoveAndDeleteRecord (bt_cmp t) key (fdata b leaf))) (\<lambda>(d, _).
                 let b = write_frame leaf d b
                 in if GetSize (fdata b leaf) = old_size
                    then Some (Inr (fst (UnpinPage rops (bp_GetPageId (fdata b leaf)) False b), t))
                    else bind_run (CoalesceOrRedistribute rops dops True leaf b t) (\<lambda>(st, _). Some (Inr st)))))"

section \<open>Destruction\<close>

text \<open>\<^verbatim>\<open>Destroy\<close> calls itself from a loop over the children of a page: \<open>Inl\<close> of a page number stands for the method, \<open>Inr\<close> of
  a page and an index for the rest of its loop.\<close>

partial_function (option) destroy_walk :: "'r replacer_ops \<Rightarrow> 'd disk_ops \<Rightarrow> page_id_t + frame_id_t \<times> nat \<Rightarrow> ('r, 'd) bpm \<Rightarrow> BPlusTree \<Rightarrow>
    ('r, 'd) tree_state run" where
  "destroy_walk rops dops at b t =
     (case at of
        Inr (f, i) \<Rightarrow>
          if int i < GetSize (fdata b f) then
            bind_run (destroy_walk rops dops (Inl (internal_ValueAt (fdata b f) i)) b t) (\<lambda>(b, t).
            destroy_walk rops dops (Inr (f, Suc i)) b t)
          else Some (Inr (b, t))
      | Inl pid \<Rightarrow>
          let current_page_id = (if pid = INVALID_PAGE_ID then bt_root_page_id t else pid)
          in if current_page_id = INVALID_PAGE_ID then Some (Inr (b, t))
             else bind_run (Some (FetchPage rops dops current_page_id b)) (\<lambda>(b, page). case page of
                    None \<Rightarrow> Some (Inr (b, t))
                  | Some f \<Rightarrow>
                      bind_run (if \<not> IsLeafPage (fdata b f) then destroy_walk rops dops (Inr (f, 0)) b t else Some (Inr (b, t))) (\<lambda>(b, t).
                      let b = fst (UnpinPage rops current_page_id False b);
                          b = fst (DeletePage dops current_page_id b)
                      in if current_page_id \<noteq> bt_root_page_id t then Some (Inr (b, t))
                         else let t = t\<lparr>bt_root_page_id := INVALID_PAGE_ID\<rparr>
                              in bind_run (Some (FetchPage rops dops INDEX_ROOTS_PAGE_ID b)) (\<lambda>(b, page). case page of
                                   None \<Rightarrow> Some (Inr (b, t))
                                 | Some g \<Rightarrow>
                                     bind_run (Some (ir_Delete (bt_index_id t) (fdata b g))) (\<lambda>(d, _).
                                     Some (Inr (fst (UnpinPage rops INDEX_ROOTS_PAGE_ID True (write_frame g d b)), t)))))))"

definition bt_Destroy :: "'r replacer_ops \<Rightarrow> 'd disk_ops \<Rightarrow> page_id_t \<Rightarrow> ('r, 'd) tree_state \<Rightarrow> ('r, 'd) tree_state run" where
  "bt_Destroy rops dops current_page_id = (\<lambda>(b, t). destroy_walk rops dops (Inl current_page_id) b t)"

definition bt_Check :: "('r, 'd) tree_state \<Rightarrow> bool" where
  "bt_Check = (\<lambda>(b, t). CheckAllUnpinned b)"

section \<open>The index\<close>

definition RemoveEntry :: "'r replacer_ops \<Rightarrow> 'd disk_ops \<Rightarrow> byte list \<Rightarrow> Row \<Rightarrow> RowId \<Rightarrow> ('r, 'd) bpm \<times> BPlusTreeIndex \<Rightarrow>
    ((('r, 'd) bpm \<times> BPlusTreeIndex) \<times> dberr_t) run" where
  "RemoveEntry rops dops buf key row_id = (\<lambda>(b, bi).
     bind_run (Some (SerializeFromKey (bi_processor bi) buf key (bi_key_schema bi))) (\<lambda>index_key.
     bind_run (bt_Remove rops dops index_key (b, bi_container bi)) (\<lambda>(b, t).
     Some (Inr ((b, bi\<lparr>bi_container := t\<rparr>), DB_SUCCESS)))))"

definition bi_Destroy :: "'r replacer_ops \<Rightarrow> 'd disk_ops \<Rightarrow> ('r, 'd) bpm \<times> BPlusTreeIndex \<Rightarrow> ((('r, 'd) bpm \<times> BPlusTreeIndex) \<times> dberr_t) run" where
  "bi_Destroy rops dops = (\<lambda>(b, bi).
     bind_run (bt_Destroy rops dops INVALID_PAGE_ID (b, bi_container bi)) (\<lambda>(b, t).
     Some (Inr ((b, bi\<lparr>bi_container := t\<rparr>), DB_SUCCESS))))"

end
