(* ===== verification/Tree_Shrink.thy ===== *)
theory Tree_Shrink
  imports Tree_Remove Tree_Update
begin

text \<open>
  \<^verbatim>\<open>Remove\<close> of the B+ tree on the buffer pool, as far as it keeps all pages: an absent key, a pair of a leaf that stays large enough, and a pair
  of a leaf that then takes one from its neighbor. On the pairs of the tree it is the removal from a sorted association list.
\<close>

section \<open>Removal from a sorted list\<close>

context key_compare
begin

lemma assoc_remove_middle:
  assumes "keys_below xs key" "keys_over key ys"
  shows "assoc_remove lt key (xs @ es @ ys) = xs @ assoc_remove lt key es @ ys"
proof -
  have "filter (\<lambda>e. \<not> key_eq lt (fst e) key) xs = xs" "filter (\<lambda>e. \<not> key_eq lt (fst e) key) ys = ys"
    using assms by (auto simp: filter_id_conv keys_below_def keys_over_def key_eq_def split: prod.splits)
  then show ?thesis by (simp add: assoc_remove_def)
qed

lemma length_assoc_remove:
  assumes "key_sorted lt es" "valid_keys valid es" "valid key"
  shows "length (assoc_remove lt key es) = (if assoc_find lt es key = None then length es else length es - 1)"
    "assoc_find lt es key = None \<Longrightarrow> assoc_remove lt key es = es" "assoc_find lt es key \<noteq> None \<Longrightarrow> es \<noteq> []"
  using remove_rank [OF assms] find_rank [OF assms] by (auto split: if_splits)

end

section \<open>Removals that keep all pages\<close>

fun leaf_content :: "bnode \<Rightarrow> (byte list \<times> RowId) list" where
  "leaf_content (BLeaf p es nx) = es"
| "leaf_content (BNode p cs) = []"

text \<open>Whether the removal of a key deletes a page: the last pair of a leaf that is the root, or a leaf that gets too small and fits
  together with its neighbor into one page. A leaf without a neighbor is counted here too.\<close>

definition drops_leaf :: "BPlusTree \<Rightarrow> byte list \<Rightarrow> (byte list \<times> bnode) list \<Rightarrow> nat \<Rightarrow> bool" where
  "drops_leaf t key cs i \<longleftrightarrow> (let es = leaf_content (snd (cs ! i)) in
     assoc_find (bt_lt t) es key \<noteq> None \<and> int (length es) - 1 < bt_leaf_max_size t div 2 \<and>
     (length cs < 2 \<or> int (length es) - 1 + int (length (leaf_content (snd (cs ! (if i = 0 then 1 else i - 1))))) \<le> bt_leaf_max_size t))"

fun drops_page :: "BPlusTree \<Rightarrow> byte list \<Rightarrow> bnode \<Rightarrow> bool" where
  "drops_page t key (BLeaf p es nx) \<longleftrightarrow> False"
| "drops_page t key (BNode p cs) \<longleftrightarrow> (\<exists>(k, c) \<in> set cs. drops_page t key c) \<or> (\<exists>i < length cs. drops_leaf t key cs i)"

definition drops_pages :: "BPlusTree \<Rightarrow> byte list \<Rightarrow> bnode \<Rightarrow> bool" where
  "drops_pages t key T \<longleftrightarrow> drops_page t key T \<or> (case T of BLeaf p es nx \<Rightarrow> assoc_find (bt_lt t) es key \<noteq> None \<and> length es < 2 | BNode p cs \<Rightarrow> False)"

lemma drops_plug: "\<not> drops_page t key (plug C T) \<Longrightarrow> \<not> drops_page t key T"
  by (induction C T rule: plug.induct) auto

lemma drops_hole:
  assumes "\<not> drops_pages t key (plug ((q, ls, k, rs) # D) (BLeaf p es nx))" "assoc_find (bt_lt t) es key \<noteq> None"
    "int (length es) - 1 < bt_leaf_max_size t div 2"
  shows "ls @ rs \<noteq> []"
    "ls = [] \<Longrightarrow> bt_leaf_max_size t < int (length es) - 1 + int (length (leaf_content (snd (hd rs))))"
    "ls \<noteq> [] \<Longrightarrow> bt_leaf_max_size t < int (length es) - 1 + int (length (leaf_content (snd (last ls))))"
proof -
  have "\<not> drops_page t key (BNode q (ls @ (k, BLeaf p es nx) # rs))" using assms(1) drops_plug by (fastforce simp: drops_pages_def)
  then have "\<not> drops_leaf t key (ls @ (k, BLeaf p es nx) # rs) (length ls)" by simp
  then have n: "ls @ rs \<noteq> [] \<and> bt_leaf_max_size t < int (length es) - 1 +
      int (length (leaf_content (snd ((ls @ (k, BLeaf p es nx) # rs) ! (if length ls = 0 then 1 else length ls - 1)))))"
    using assms(2,3) by (auto simp: drops_leaf_def Let_def)
  then show "ls @ rs \<noteq> []" by simp
  show "bt_leaf_max_size t < int (length es) - 1 + int (length (leaf_content (snd (hd rs))))" if "ls = []"
    using n that by (cases rs) (auto simp: hd_conv_nth)
  show "bt_leaf_max_size t < int (length es) - 1 + int (length (leaf_content (snd (last ls))))" if "ls \<noteq> []"
    using n that by (auto simp: last_conv_nth nth_append)
qed

section \<open>Pages\<close>

context leaf_search
begin

lemma leaf_Remove_absent:
  assumes "key_sorted lt (leaf_entries d)" "valid_keys valid (leaf_entries d)" "valid key" "assoc_find lt (leaf_entries d) key = None"
  shows "RemoveAndDeleteRecord cmp key d = Inr (d, GetSize d)"
  using KeyIndex_rank [OF assms(1-3)] leaf_hit_rank [OF assms(2,3)] find_rank [OF assms(1-3)] assms(4)
  by (auto simp: RemoveAndDeleteRecord_def split: if_splits)

end

lemma rewrite_frame_twice: "write_frame f (fdata b f) b = b"
  by (simp add: write_frame_def upd_frame_def)

lemma leaf_page_remove:
  assumes d: "page_is t p (LeafD par es nx) d" and s: "key_sorted (bt_lt t) es" "valid_keys (bt_valid t) es" "bt_valid t key"
  obtains d' where "RemoveAndDeleteRecord (bt_cmp t) key d = Inr (d', GetSize d')" "page_is t p (LeafD par (assoc_remove (bt_lt t) key es) nx) d'"
proof -
  have D: "leaf_ok (bt_key_size t) d" "leaf_entries d = es" using d by (simp_all add: page_is_def)
  obtain d' where d': "RemoveAndDeleteRecord (bt_cmp t) key d = Inr (d', GetSize d')" "leaf_ok (bt_key_size t) d'"
    "leaf_entries d' = assoc_remove (bt_lt t) key (leaf_entries d)" "leaf_header d' = leaf_header d"
    using lf.leaf_Remove_remove [OF D(1) _ _ s(3)] s(1,2) D(2) by metis
  then show thesis using that [of d'] d leaf_header_eq [OF d'(4)] by (simp add: page_is_def)
qed

lemma leaf_page_size: "page_is t p (LeafD par es nx) d \<Longrightarrow> GetSize d = int (length es)"
  using leaf_entries_length [of d] leaf_okD(6) [of "bt_key_size t" d] by (simp add: page_is_def)

text \<open>A leaf gives a pair to the leaf before it, or to the leaf behind it.\<close>

lemma leaf_page_first:
  assumes d: "page_is t p (LeafD par es nx) d" and r: "page_is t q (LeafD par' es' ny) r" and f: "bt_fits t" and pos: "es \<noteq> []"
    and n: "length es' < nat (bt_leaf_max_size t) + 1"
  obtains d' r' where "leaf_MoveFirstToEndOf d r = Inr (d', r')" "page_is t p (LeafD par (tl es) nx) d'" "page_is t q (LeafD par' (es' @ [hd es]) ny) r'"
proof -
  note S = leaf_page_size [OF d] leaf_page_size [OF r]
  have D: "leaf_ok (bt_key_size t) d" "leaf_entries d = es" "leaf_ok (bt_key_size t) r" "leaf_entries r = es'" using d r by (simp_all add: page_is_def)
  have room: "32 + Suc (nat (GetSize r)) * (bt_key_size t + 8) \<le> 4096" using bt_fitsD(6) [OF f, of "Suc (length es')"] n by (simp add: S)
  have pos': "0 < GetSize d" using pos by (simp add: S)
  obtain d' r' where 1: "leaf_MoveFirstToEndOf d r = Inr (d', r')" "leaf_ok (bt_key_size t) d'" "leaf_ok (bt_key_size t) r'"
    "leaf_entries r' @ leaf_entries d' = es' @ es" "GetSize d' = GetSize d - 1" "leaf_header d' = leaf_header d" "leaf_header r' = leaf_header r"
    using leaf_MoveFirstToEndOf_effect [OF D(1,3) pos' room] D(2,4) by metis
  have "length (leaf_entries d') = length es - 1" using 1(5) S(1) leaf_entries_length [of d'] by simp
  moreover have "leaf_entries r' @ leaf_entries d' = (es' @ [hd es]) @ tl es" using 1(4) pos by simp
  ultimately have "leaf_entries r' = es' @ [hd es] \<and> leaf_entries d' = tl es" by (simp only: append_eq_append_conv length_tl disj_absorb simp_thms)
  then show thesis using that [OF 1(1)] 1(2,3) d r leaf_header_eq [OF 1(6)] leaf_header_eq [OF 1(7)] by (simp add: page_is_def)
qed

lemma leaf_page_last:
  assumes d: "page_is t p (LeafD par es nx) d" and r: "page_is t q (LeafD par' es' ny) r" and f: "bt_fits t" and pos: "es \<noteq> []"
    and n: "length es' < nat (bt_leaf_max_size t) + 1"
  obtains d' r' where "leaf_MoveLastToFrontOf d r = Inr (d', r')" "page_is t p (LeafD par (butlast es) nx) d'" "page_is t q (LeafD par' (last es # es') ny) r'"
proof -
  note S = leaf_page_size [OF d] leaf_page_size [OF r]
  have D: "leaf_ok (bt_key_size t) d" "leaf_entries d = es" "leaf_ok (bt_key_size t) r" "leaf_entries r = es'" using d r by (simp_all add: page_is_def)
  have room: "32 + Suc (nat (GetSize r)) * (bt_key_size t + 8) \<le> 4096" using bt_fitsD(6) [OF f, of "Suc (length es')"] n by (simp add: S)
  have pos': "0 < GetSize d" using pos by (simp add: S)
  obtain d' r' where 1: "leaf_MoveLastToFrontOf d r = Inr (d', r')" "leaf_ok (bt_key_size t) d'" "leaf_ok (bt_key_size t) r'"
    "leaf_entries d' @ leaf_entries r' = es @ es'" "GetSize d' = GetSize d - 1" "leaf_header d' = leaf_header d" "leaf_header r' = leaf_header r"
    using leaf_MoveLastToFrontOf_effect [OF D(1,3) pos' room] D(2,4) by metis
  have "length (leaf_entries d') = length es - 1" using 1(5) S(1) leaf_entries_length [of d'] by simp
  moreover have "leaf_entries d' @ leaf_entries r' = butlast es @ (last es # es')" using 1(4) pos by simp
  ultimately have "leaf_entries d' = butlast es \<and> leaf_entries r' = last es # es'" by (simp only: append_eq_append_conv length_butlast simp_thms)
  then show thesis using that [OF 1(1)] 1(2,3) d r leaf_header_eq [OF 1(6)] leaf_header_eq [OF 1(7)] by (simp add: page_is_def)
qed

section \<open>The tree\<close>

text \<open>Two neighbors share their pairs out anew.\<close>

lemma shift_row:
  assumes W: "within_row (bt_lt t) (bt_valid t) lo hi (ls @ (kL, BLeaf p es nx) # (k, BLeaf p' es' nx') # rs)"
    and B: "bound_ok (bt_valid t) lo" "bound_ok (bt_valid t) hi" and e: "es2 @ es2' = es @ es'" "es2 \<noteq> []" "es2' \<noteq> []"
  shows "within_row (bt_lt t) (bt_valid t) lo hi (ls @ (kL, BLeaf p es2 nx) # (fst (hd es2'), BLeaf p' es2' nx') # rs)"
proof -
  let ?lo = "row_lo lo ls kL" and ?hi = "row_hi hi rs" and ?s = "length es2"
  have l: "left_row (bt_lt t) (bt_valid t) lo hi ls kL" and w: "within (bt_lt t) (bt_valid t) ?lo (Some k) (BLeaf p es nx)" "bt_valid t k"
    "strict_lo (bt_lt t) ?lo k" "within (bt_lt t) (bt_valid t) (Some k) ?hi (BLeaf p' es' nx')" "right_row (bt_lt t) (bt_valid t) (Some k) hi rs" "under_hi (bt_lt t) k hi"
    using W lf.within_row_split [OF B, of ls kL "BLeaf p es nx"] by (auto simp: within_row_Cons right_row_def [of _ _ _ _ "(k, c) # rs" for c])
  have lo: "bound_ok (bt_valid t) ?lo" using B(1) l by (auto simp: left_row_def)
  have hi: "bound_ok (bt_valid t) ?hi" "under_hi (bt_lt t) k ?hi" using B(2) w(5,6) by (auto simp: right_row_def split: list.splits)
  have r: "right_row (bt_lt t) (bt_valid t) ?lo hi rs"
    using w(5) km.above_trans [OF lo w(2) _ w(3)] by (auto simp: right_row_def split: list.splits)
  have P: "lf.pairs_within (bt_processor t) ?lo ?hi (es2 @ es2')"
    unfolding e(1) by (rule lf.pairs_within_append [OF _ _ w(2,3) hi(2) lo hi(1)]) (use w(1,4) in \<open>simp_all add: lf.pairs_within_def\<close>)
  have so: "key_sorted (bt_lt t) (es2 @ es2')" "valid_keys (bt_valid t) (es2 @ es2')"
    "\<forall>(k, v) \<in> set (es2 @ es2'). above_lo (bt_lt t) ?lo k \<and> under_hi (bt_lt t) k ?hi" using P by (auto simp: lf.pairs_within_def)
  have s: "0 < ?s" "?s < length (es2 @ es2')" "(es2 @ es2') ! ?s = hd es2'" "take ?s (es2 @ es2') = es2" "drop ?s (es2 @ es2') = es2'"
    using e(2,3) by (simp_all add: nth_append hd_conv_nth)
  note C = cut_within [OF so lo s(1,2), unfolded s(3,4,5)]
  show ?thesis by (rule lf.within_row_two [OF B l r C(3,4,5,1,2)])
qed

lemma chained_same: "chained (xs @ (p, es, nx) # (q, es', ny) # ys) a = chained (xs @ (p, fs, nx) # (q, fs', ny) # ys) a"
  by (simp add: chained_append first_or_def)

lemma shift_tree:
  assumes T: "tree_at t S n (plug D (BNode q (ls @ (kL, BLeaf p es nx) # (k, BLeaf p' es' nx') # rs)))"
    and C: "ctx_ok t (Suc 0) D" "n = Suc (length D)"
    and W: "within_row (bt_lt t) (bt_valid t) (hole_lo D) (hole_hi D) (ls @ (kL, BLeaf p es nx) # (k, BLeaf p' es' nx') # rs)"
    and F: "\<forall>(k, c) \<in> set (ls @ rs). balanced 0 c \<and> sized t c" "int (length ls + length rs) + 2 \<le> bt_internal_max_size t"
    and e: "es2 @ es2' = es @ es'" "es2 \<noteq> []" "es2' \<noteq> []" "int (length es2) \<le> bt_leaf_max_size t" "int (length es2') \<le> bt_leaf_max_size t"
    and d: "page_is t p (LeafD q es2 nx) d" "page_is t p' (LeafD q es2' nx') d'"
      "page_is t q (NodeD (hole_parent D) (child_ids ls @ (kL, p) # (fst (hd es2'), p') # child_ids rs)) dq"
    and S': "S' p = Some d" "S' p' = Some d'" "S' q = Some dq" "\<And>x. x \<notin> {p, p', q} \<Longrightarrow> S' x = S x"
  shows "tree_at t S' n (plug D (BNode q (ls @ (kL, BLeaf p es2 nx) # (fst (hd es2'), BLeaf p' es2' nx') # rs)))"
proof -
  let ?N = "BNode q (ls @ (kL, BLeaf p es nx) # (k, BLeaf p' es' nx') # rs)"
    and ?N' = "BNode q (ls @ (kL, BLeaf p es2 nx) # (fst (hd es2'), BLeaf p' es2' nx') # rs)"
  note TT = T [unfolded tree_at_def plug_shown plug_distinct plug_ids_set plug_leaves]
  have cb: "bound_ok (bt_valid t) (hole_lo D)" "bound_ok (bt_valid t) (hole_hi D)" using C(1) ctx_bounds_ok by (auto simp: ctx_ok_def)
  have dis: "{p, p', q} \<inter> (set (forest_ids ls) \<union> set (forest_ids rs) \<union> set (ctx_ids D)) = {}" using TT by auto
  have same: "shown t S' ds" if ds: "shown t S ds" "fst ` set ds \<subseteq> set (forest_ids ls) \<union> set (forest_ids rs) \<union> set (ctx_ids D)" for ds
  proof (rule shown_cong [OF ds(1)])
    fix x assume "x \<in> fst ` set ds"
    then have "x \<notin> {p, p', q}" using ds(2) dis by blast
    then show "S' x = S x" by (rule S'(4))
  qed
  have ids: "fst ` set (forest_descs q ls) = set (forest_ids ls)" "fst ` set (forest_descs q rs) = set (forest_ids rs)"
    "fst ` set (ctx_descs q D) = set (ctx_ids D)"
    by (simp_all only: set_map [symmetric] forest_descs_ids ctx_descs_ids)
  have "shown t S' (forest_descs q ls)" "shown t S' (forest_descs q rs)" "shown t S' (ctx_descs q D)"
    by (rule same; use TT ids in auto)+
  then have sh: "shown t S' (descs INVALID_PAGE_ID (plug D ?N'))" using d S'(1-3) by (simp add: plug_shown)
  have "within (bt_lt t) (bt_valid t) None None (plug D ?N')"
    by (rule lf.ctx_plug_within) (use C(1) shift_row [OF W cb e(1-3)] in \<open>simp_all add: ctx_ok_def\<close>)
  moreover have "balanced n (plug D ?N')"
  proof -
    have "balanced (Suc 0) ?N'" using F(1) by fastforce
    then show ?thesis using plug_balanced [of "Suc 0" D ?N'] C by (simp add: ctx_ok_def del: balanced.simps)
  qed
  moreover have "sized t (plug D ?N')" by (rule plug_sized) (use C F e(4,5) in \<open>auto simp: ctx_ok_def\<close>)
  moreover have "root_id (plug D ?N') = root_id (plug D ?N)" by (rule plug_root_cong) simp
  moreover have "chained (leaves (plug D ?N')) INVALID_PAGE_ID"
    using TT chained_same [of "before D @ forest_leaves ls" p es nx p' es' nx' "forest_leaves rs @ behind D" INVALID_PAGE_ID es2 es2'] by (simp add: plug_leaves)
  ultimately show ?thesis using TT sh by (simp add: tree_at_def plug_distinct plug_ids_set)
qed

section \<open>Parents\<close>

lemma node_page_key:
  assumes d: "page_is t q (NodeD par cs) d" and j: "j < length cs" and key: "length key = bt_key_size t"
  shows "page_is t q (NodeD par (cs[j := (key, snd (cs ! j))])) (internal_SetKeyAt j key d)"
proof -
  have D: "internal_ok (bt_key_size t) d" "internal_entries d = cs" using d by (simp_all add: page_is_def)
  have i: "j < nat (GetSize d)" using D(2) j by (auto simp: internal_entries_def)
  note E = internal_SetKeyAt_effect [OF D(1) i key]
  show ?thesis using d E(1,2) D(2) page_header_eq [OF E(3)] by (simp add: page_is_def)
qed

lemma node_page_index:
  assumes d: "page_is t q (NodeD par (xs @ (k, p) # ys)) d" and p: "p \<notin> snd ` set xs"
  shows "ValueIndex p d = Some (length xs)" "\<And>i. i < length (xs @ (k, p) # ys) \<Longrightarrow> internal_ValueAt d i = snd ((xs @ (k, p) # ys) ! i)"
proof -
  have e: "internal_entries d = xs @ (k, p) # ys" using d by (simp add: page_is_def)
  then have len: "nat (GetSize d) = length (xs @ (k, p) # ys)" by (metis internal_entries_def length_map length_upt minus_nat.diff_0)
  have v: "internal_ValueAt d j = snd ((xs @ (k, p) # ys) ! j)" if "j < length (xs @ (k, p) # ys)" for j
  proof -
    have "j < nat (GetSize d)" using that by (simp add: len)
    then have "internal_ValueAt d j = snd (internal_entries d ! j)" by (simp add: internal_entries_def)
    then show ?thesis by (simp add: e)
  qed
  then show "internal_ValueAt d i = snd ((xs @ (k, p) # ys) ! i)" if "i < length (xs @ (k, p) # ys)" for i using that by blast
  have "internal_ValueAt d j \<noteq> p" if "j < length xs" for j using v [of j] p that by (force simp: nth_append)
  then show "ValueIndex p d = Some (length xs)" unfolding ValueIndex_def len find_upt_least using v [of "length xs"] by simp
qed

context buffer_pool
begin

lemma RedistributeLeaf_law:
  assumes ok: "bp_ok b" and pin: "pinned_at b x g" "pinned_at b y h" and ne: "x \<noteq> y" "q \<noteq> x" "q \<noteq> y"
    and st: "store b x = Some d" "store b y = Some dn" "store b q = Some dq" and par: "GetParentPageId d = q"
    and mv: "(if index = 0 then leaf_MoveFirstToEndOf dn d else leaf_MoveLastToFrontOf dn d) = Inr (dn', d')"
    and dq': "dq' = internal_SetKeyAt (if index = 0 then 1 else index) (leaf_KeyAt (if index = 0 then dn' else d') 0) dq"
    and len: "length dn' = PAGE_SIZE" "length d' = PAGE_SIZE" "length dq' = PAGE_SIZE" and num: "bp_GetPageId dq' = q" and sp: "0 < spares b"
  obtains b' where "RedistributeLeaf rops dops h g index b = Inr b'" "runs {x, y} b b'" "store b' = (store b)(y \<mapsto> dn', x \<mapsto> d', q \<mapsto> dq')"
    "allocated (bpm_disk b') = allocated (bpm_disk b)"
proof -
  note nn = pins_nonneg [OF conjunct1 [OF ok]]
  obtain b1 f where 1: "FetchPage rops dops q b = Inr (b1, Some f)" "held {} (one q) b b1" "pinned_at b1 q f" "fdata b1 f = dq"
    "store b1 = store b" "allocated (bpm_disk b1) = allocated (bpm_disk b)" by (rule held_Fetch [OF ok st(3) sp])
  have on: "0 \<le> one q z" for z by simp
  note ok1 = held_ok [OF 1(2)] and p1 = pinned_at_held [OF 1(2) pin(1) on] pinned_at_held [OF 1(2) pin(2) on]
  have fd: "fdata b g = d" "fdata b1 g = d" "fdata b1 h = dn"
    using fdata_store [OF ok pin(1) st(1)] fdata_store [OF ok1 p1(1)] fdata_store [OF ok1 p1(2)] st 1(5) by simp_all
  define b2 where "b2 = write_frame h dn' b1"
  note S2 = step_write [OF ok1 p1(2) len(1), folded b2_def]
  define b3 where "b3 = write_frame g d' b2"
  note S3 = step_write [OF S2(4) S2(5) [OF p1(1)] len(2), folded b3_def]
  have st3: "store b3 = (store b)(y \<mapsto> dn', x \<mapsto> d')" using S2(2) S3(2) 1(5) by simp
  have p3: "pinned_at b3 x g" "pinned_at b3 y h" "pinned_at b3 q f" using S3(5) S2(5) p1 1(3) by blast+
  have fd3: "fdata b3 g = d'" "fdata b3 h = dn'" using fdata_store [OF S3(4) p3(1)] fdata_store [OF S3(4) p3(2)] st3 ne by simp_all
  let ?k = "internal_SetKeyAt (if index = 0 then 1 else index) (leaf_KeyAt (if index = 0 then dn' else d') 0)"
  define b4 where "b4 = mod_frame f ?k b3"
  have dq3: "store b3 q = Some dq" using st3 st(3) ne by simp
  note S4 = step_mod [where h = ?k, OF S3(4) p3(3) dq3, folded dq' b4_def, OF len(3)]
  have fd4: "fdata b4 f = dq'" using fdata_store [OF S4(4) S4(5) [OF p3(3)]] S4(2) by simp
  have h4: "held ({} \<union> {y} \<union> {x} \<union> {q}) (one q) b b4"
    by (rule held_run [OF held_run [OF held_run [OF 1(2) S2(1) on] S3(1) on] S4(1) on])
  obtain b5 where 5: "UnpinPage rops q True b4 = (b5, True)" "held ({} \<union> {y} \<union> {x} \<union> {q} - (if True then {q} else {})) (\<lambda>z. one q z - one q z) b b5"
    "store b5 = store b4" "bpm_disk b5 = bpm_disk b4" by (rule held_Unpin [OF h4, of q True]) (use nn in auto)
  have "RedistributeLeaf rops dops h g index b = Inr b5"
    using 1(1) mv 5(1) fd4 num
    by (cases "index = 0") (simp_all add: RedistributeLeaf_def par fd Let_def fd3 b4_def flip: b2_def b3_def)
  moreover have "runs {x, y} b b5" using 5(2) by (simp add: held_runs) (erule runs_mono, auto)
  moreover have "store b5 = (store b)(y \<mapsto> dn', x \<mapsto> d', q \<mapsto> dq')" using 5(3) S4(2) st3 by simp
  ultimately show thesis using that 5(4) S4(3) S3(3) S2(3) 1(6) by simp
qed

lemma unpin_other:
  assumes "bp_ok b" "0 < pins b p" "pinned_at b z f" "z \<noteq> p" "UnpinPage rops p True b = (b', True)"
  shows "pinned_at b' z f" "fdata b' f = fdata b f"
proof -
  obtain b2 where 2: "UnpinPage rops p True b = (b2, True)" "bp_ok b2" "page_table b2 = page_table b" "store b2 = store b" "pins b2 = (pins b)(p := pins b p - 1)"
    by (rule session_Unpin [OF assms(1,2) disjI1 [OF TrueI]])
  have b': "b2 = b'" using 2(1) assms(5) by simp
  show p: "pinned_at b' z f" using 2(3,5) assms(3,4) by (simp add: b' pinned_at_def)
  show "fdata b' f = fdata b f" using fdata_store [OF 2(2) [unfolded b'] p] pinned_at_data [OF assms(1,3)] 2(4) by (simp add: b')
qed

text \<open>The pages of a redistribution are given back, all as changed.\<close>

lemma unpin_three:
  assumes ok: "bp_ok b0" and h: "held W (\<lambda>z. one x z + one q z + one y z) b0 b" and W: "W \<subseteq> {x, y}" and ne: "x \<noteq> y" "q \<noteq> x" "q \<noteq> y"
    and p: "pinned_at b x g" "pinned_at b y h" "pinned_at b q f"
    and n: "bp_GetPageId (fdata b g) = x" "bp_GetPageId (fdata b h) = y" "bp_GetPageId (fdata b f) = q"
  obtains b' where "(let b = fst (UnpinPage rops (bp_GetPageId (fdata b h)) True b); b = fst (UnpinPage rops (bp_GetPageId (fdata b g)) True b)
      in fst (UnpinPage rops (bp_GetPageId (fdata b f)) True b)) = b'" "runs {} b0 b'" "store b' = store b" "bpm_disk b' = bpm_disk b"
proof -
  note nn = pins_nonneg [OF conjunct1 [OF ok]]
  obtain b1 where 1: "UnpinPage rops y True b = (b1, True)" "held (W - (if True then {y} else {})) (\<lambda>z. one x z + one q z + one y z - one y z) b0 b1"
    "store b1 = store b" "bpm_disk b1 = bpm_disk b" by (rule held_Unpin [OF h, of y True]) (use nn ne in \<open>auto simp: one_def\<close>)
  have py: "0 < pins b y" using p(2) by (simp add: pinned_at_def)
  note U1 = unpin_other [OF held_ok [OF h] py p(1) ne(1) 1(1)] unpin_other [OF held_ok [OF h] py p(3) ne(3) 1(1)]
  have h1: "held (W - {y}) (\<lambda>z. one x z + one q z) b0 b1" using 1(2) by simp
  obtain b2 where 2: "UnpinPage rops x True b1 = (b2, True)" "held (W - {y} - (if True then {x} else {})) (\<lambda>z. one x z + one q z - one x z) b0 b2"
    "store b2 = store b1" "bpm_disk b2 = bpm_disk b1" by (rule held_Unpin [OF h1, of x True]) (use nn ne in \<open>auto simp: one_def\<close>)
  have px: "0 < pins b1 x" using U1(1) by (simp add: pinned_at_def)
  note U2 = unpin_other [OF held_ok [OF h1] px U1(3) ne(2) 2(1)]
  have h2: "held (W - {y} - {x}) (one q) b0 b2" using 2(2) by simp
  obtain b3 where 3: "UnpinPage rops q True b2 = (b3, True)" "held (W - {y} - {x} - (if True then {q} else {})) (\<lambda>z. one q z - one q z) b0 b3"
    "store b3 = store b2" "bpm_disk b3 = bpm_disk b2" by (rule held_Unpin [OF h2, of q True]) (use nn in \<open>auto simp: one_def\<close>)
  have "runs {} b0 b3" using 3(2) W by (simp add: held_runs) (erule runs_mono, auto)
  then show thesis using that [of b3] 1 2 3 U1 U2 n by (simp add: Let_def)
qed

lemma CoalesceOrRedistribute_law:
  assumes ok: "bp_ok b0" and h: "held {x} (one x) b0 b" and px: "pinned_at b x g" and ne: "x \<noteq> y" "q \<noteq> x" "q \<noteq> y"
    and d: "store b x = Some d" "page_is t x (LeafD q ex nx) d" and q: "q \<noteq> INVALID_PAGE_ID" "int (length ex) < bt_leaf_max_size t div 2"
    and dq: "store b q = Some dq" "page_is t q (NodeD pp cs) dq" "ValueIndex x dq = Some index"
    and dn: "internal_ValueAt dq (if index = 0 then 1 else index - 1) = y" "store b y = Some dn" "page_is t y (LeafD q ey ny) dn"
    and big: "bt_leaf_max_size t < int (length ey) + int (length ex)" and sp: "2 < spares b"
    and mv: "(if index = 0 then leaf_MoveFirstToEndOf dn d else leaf_MoveLastToFrontOf dn d) = Inr (dn', d')"
    and dq': "dq' = internal_SetKeyAt (if index = 0 then 1 else index) (leaf_KeyAt (if index = 0 then dn' else d') 0) dq"
    and new: "page_is t y (LeafD q ey' ny) dn'" "page_is t x (LeafD q ex' nx) d'" "page_is t q (NodeD pp cs') dq'"
  obtains b' where "CoalesceOrRedistribute rops dops True g b t = Some (Inr ((b', t), False))" "runs {} b0 b'"
    "store b' = (store b)(y \<mapsto> dn', x \<mapsto> d', q \<mapsto> dq')"
proof -
  note okb = held_ok [OF h]
  obtain b1 f where 1: "FetchPage rops dops q b = Inr (b1, Some f)" "held {} (one q) b b1" "pinned_at b1 q f" "fdata b1 f = dq"
    "store b1 = store b" "spares b \<le> Suc (spares b1)" by (rule held_Fetch [OF okb dq(1)]) (use sp in auto)
  note ok1 = held_ok [OF 1(2)]
  have y1: "store b1 y = Some dn" "0 < spares b1" using 1(5,6) dn(2) sp by simp_all
  obtain b2 k where 2: "FetchPage rops dops y b1 = Inr (b2, Some k)" "held {} (one y) b1 b2" "pinned_at b2 y k" "fdata b2 k = dn"
    "store b2 = store b1" "spares b1 \<le> Suc (spares b2)" by (rule held_Fetch [OF ok1 y1])
  note ok2 = held_ok [OF 2(2)]
  have on: "0 \<le> one x z" "0 \<le> one q z" "0 \<le> one y z" "0 \<le> one x z + one q z" "0 \<le> one x z + one q z + one y z" for z by (simp_all add: one_def)
  have g1: "pinned_at b1 x g" by (rule pinned_at_held [OF 1(2) px on(2)])
  have p2: "pinned_at b2 x g" "pinned_at b2 q f" by (rule pinned_at_held [OF 2(2) g1 on(3)], rule pinned_at_held [OF 2(2) 1(3) on(3)])
  have st2: "store b2 x = Some d" "store b2 y = Some dn" "store b2 q = Some dq" "0 < spares b2" using 1(5,6) 2(5,6) d(1) dn(2) dq(1) sp by simp_all
  have fd: "fdata b g = d" "fdata b1 g = d" "fdata b2 g = d" "fdata b2 f = dq"
    using fdata_store [OF okb px d(1)] fdata_store [OF ok1 g1] fdata_store [OF ok2 p2(1) st2(1)] fdata_store [OF ok2 p2(2) st2(3)] 1(5) d(1) by simp_all
  have D: "bp_GetPageId d = x" "GetParentPageId d = q" "GetMaxSize d = bt_leaf_max_size t" "GetSize d = int (length ex)" "GetSize dn = int (length ey)"
    using d(2) leaf_page_size [OF d(2)] leaf_page_size [OF dn(3)] by (simp_all add: page_is_def)
  have num: "bp_GetPageId dn' = y" "bp_GetPageId d' = x" "bp_GetPageId dq' = q" using new by (simp_all add: page_is_def)
  obtain b3 where 3: "RedistributeLeaf rops dops k g index b2 = Inr b3" "runs {x, y} b2 b3" "store b3 = (store b2)(y \<mapsto> dn', x \<mapsto> d', q \<mapsto> dq')"
    by (rule RedistributeLeaf_law [OF ok2 p2(1) 2(3) ne st2(1-3) D(2) mv dq' page_is_length [OF new(1)] page_is_length [OF new(2)] page_is_length [OF new(3)] num(3) st2(4)])
  note ok3 = runsD(1) [OF 3(2)]
  have p3: "pinned_at b3 x g" "pinned_at b3 y k" "pinned_at b3 q f" using pinned_at_runs [OF 3(2)] p2 2(3) by blast+
  have fd3: "fdata b3 g = d'" "fdata b3 k = dn'" "fdata b3 f = dq'"
    using fdata_store [OF ok3 p3(1)] fdata_store [OF ok3 p3(2)] fdata_store [OF ok3 p3(3)] 3(3) ne by simp_all
  have "held ({x} \<union> {} \<union> {} \<union> {x, y}) (\<lambda>z. one x z + one q z + one y z) b0 b3"
    by (rule held_run [OF held_trans [OF held_trans [OF h 1(2) on(1)] 2(2) on(4)] 3(2) on(5)])
  then have h3: "held {x, y} (\<lambda>z. one x z + one q z + one y z) b0 b3" by (rule held_mono) auto
  obtain b4 where 4: "(let b = fst (UnpinPage rops (bp_GetPageId (fdata b3 k)) True b3); b = fst (UnpinPage rops (bp_GetPageId (fdata b g)) True b)
      in fst (UnpinPage rops (bp_GetPageId (fdata b f)) True b)) = b4" "runs {} b0 b4" "store b4 = store b3"
    by (rule unpin_three [OF ok h3 order_refl ne p3]) (use fd3 num in simp_all)
  have "CoalesceOrRedistribute rops dops True g b t = Some (Inr ((b4, t), False))"
    using 1(1,4) 2(1,4) 3(1) 4(1) q big dq(3) dn(1)
    by (subst CoalesceOrRedistribute.simps) (simp add: fd D IsRootPage_def GetMinSize_def Let_def)
  then show thesis using that 4(2,3) 3(3) 2(5) 1(5) by simp
qed

end

section \<open>Redistribution in the tree\<close>

lemma hole_row:
  assumes "ctx_ok t m ((q, ls, k, rs) # D)" "fits_hole t ((q, ls, k, rs) # D) X"
  shows "within_row (bt_lt t) (bt_valid t) (hole_lo D) (hole_hi D) (ls @ (k, X) # rs)" "ctx_ok t (Suc m) D"
    "\<forall>(k, c) \<in> set (ls @ rs). balanced m c \<and> sized t c" "int (length ls + length rs) < bt_internal_max_size t"
proof -
  note C = assms(1) [unfolded ctx_ok_def]
  have B: "bound_ok (bt_valid t) (hole_lo D)" "bound_ok (bt_valid t) (hole_hi D)" using C ctx_bounds_ok by auto
  show "within_row (bt_lt t) (bt_valid t) (hole_lo D) (hole_hi D) (ls @ (k, X) # rs)"
    using C assms(2) lf.within_row_split [OF B] by (simp add: within_row_Cons)
  show "\<forall>(k, c) \<in> set (ls @ rs). balanced m c \<and> sized t c"
  proof
    fix e assume e: "e \<in> set (ls @ rs)"
    show "case e of (k, c) \<Rightarrow> balanced m c \<and> sized t c" using C e by (auto simp: split_def)
  qed
  show "ctx_ok t (Suc m) D" "int (length ls + length rs) < bt_internal_max_size t" using C by (auto simp: ctx_ok_def)
qed

text \<open>Two neighboring leaves and their parent: their pages.\<close>

lemma neighbor_pages:
  assumes T: "tree_at t S n (plug D (BNode q (ls @ (kL, BLeaf p es nx) # (k, BLeaf p' es' nx') # rs)))"
  obtains d d' dq where "S p = Some d" "page_is t p (LeafD q es nx) d" "S p' = Some d'" "page_is t p' (LeafD q es' nx') d'"
    "S q = Some dq" "page_is t q (NodeD (hole_parent D) (child_ids ls @ (kL, p) # (k, p') # child_ids rs)) dq"
    "p \<noteq> p'" "q \<noteq> p" "q \<noteq> p'" "q \<noteq> INVALID_PAGE_ID" "p \<notin> snd ` set (child_ids ls)" "p' \<notin> snd ` set (child_ids ls)"
proof -
  note TT = T [unfolded tree_at_def plug_shown plug_distinct plug_ids_set]
  have roots: "snd ` set (child_ids ls) \<subseteq> set (forest_ids ls)" using root_in_forest root_in_ids by fastforce
  show thesis using that TT roots by fastforce
qed

lemma leaf_page_key:
  assumes d: "page_is t p (LeafD par es nx) d" and es: "es \<noteq> []"
  shows "leaf_KeyAt d 0 = fst (hd es)"
proof -
  have "0 < nat (GetSize d)" "leaf_entries d = es" using es leaf_page_size [OF d] d by (simp_all add: page_is_def)
  then have "es ! 0 = leaf_GetItem d 0" by (auto simp: leaf_entries_def)
  then show ?thesis using es by (simp add: hd_conv_nth leaf_GetItem_def)
qed

context buffer_pool
begin

text \<open>The first child of a node takes a pair from the second, and any other child from the one before it.\<close>

lemma take_from_right:
  assumes f: "bt_fits t" and T: "tree_at t (store b) n (plug D (BNode q ((kL, BLeaf p es nx) # (k, BLeaf p' es' nx') # rs)))"
    and C: "ctx_ok t (Suc 0) D" "n = Suc (length D)"
    and W: "within_row (bt_lt t) (bt_valid t) (hole_lo D) (hole_hi D) ([] @ (kL, BLeaf p es nx) # (k, BLeaf p' es' nx') # rs)"
    and F: "\<forall>(k, c) \<in> set rs. balanced 0 c \<and> sized t c" "int (length rs) + 2 \<le> bt_internal_max_size t"
    and z: "int (length es) < bt_leaf_max_size t div 2" "int (length es') \<le> bt_leaf_max_size t" "bt_leaf_max_size t < int (length es') + int (length es)"
    and ok: "bp_ok b0" and h: "held {p} (one p) b0 b" and px: "pinned_at b p g" and sp: "2 < spares b"
  obtains b' T' where "CoalesceOrRedistribute rops dops True g b t = Some (Inr ((b', t), False))" "runs {} b0 b'" "tree_at t (store b') n T'"
    "tree_pairs T' = tree_pairs (plug D (BNode q ((kL, BLeaf p es nx) # (k, BLeaf p' es' nx') # rs)))" "set (page_ids T') = set (page_ids (plug D (BNode q ((kL, BLeaf p es nx) # (k, BLeaf p' es' nx') # rs))))"
    "\<forall>x. x \<notin> set (page_ids T') \<longrightarrow> store b' x = store b x"
proof -
  have T0: "tree_at t (store b) n (plug D (BNode q ([] @ (kL, BLeaf p es nx) # (k, BLeaf p' es' nx') # rs)))" using T by simp
  obtain d d' dq where P: "store b p = Some d" "page_is t p (LeafD q es nx) d" "store b p' = Some d'" "page_is t p' (LeafD q es' nx') d'"
    "store b q = Some dq" "page_is t q (NodeD (hole_parent D) (child_ids [] @ (kL, p) # (k, p') # child_ids rs)) dq"
    "p \<noteq> p'" "q \<noteq> p" "q \<noteq> p'" "q \<noteq> INVALID_PAGE_ID" by (rule neighbor_pages [OF T0])
  have e: "2 \<le> length es'" using z by presburger
  obtain x y es2 where es': "es' = x # y # es2" using e by (cases es' rule: list.exhaust; cases "tl es'") auto
  have len: "length es < nat (bt_leaf_max_size t) + 1" "es' \<noteq> []" using z es' by simp_all
  obtain dn' dx' where m: "leaf_MoveFirstToEndOf d' d = Inr (dn', dx')" "page_is t p' (LeafD q (tl es') nx') dn'" "page_is t p (LeafD q (es @ [hd es']) nx) dx'"
    by (rule leaf_page_first [OF P(4,2) f len(2,1)])
  have key: "leaf_KeyAt dn' 0 = fst y" using leaf_page_key [OF m(2)] es' by simp
  have V: "ValueIndex p dq = Some (length ([] :: (byte list \<times> page_id_t) list))" "internal_ValueAt dq 1 = p'"
    using node_page_index [where xs = "[]" and ys = "(k, p') # child_ids rs" and k = kL and p = p] P(6) by auto
  have kl: "length (fst y) = bt_key_size t"
  proof -
    have "bt_valid t (fst y)" using shift_row [OF W, of "es @ [x]" "y # es2"] es' C(1) ctx_bounds_ok by (auto simp: ctx_ok_def valid_keys_def within_row_Cons right_row_def)
    then show ?thesis by (simp add: key_valid_def)
  qed
  define dq' where "dq' = internal_SetKeyAt 1 (fst y) dq"
  have q': "page_is t q (NodeD (hole_parent D) (child_ids [] @ (kL, p) # (fst (hd (tl es')), p') # child_ids rs)) dq'"
    using node_page_key [OF P(6) _ kl, of 1] es' by (simp add: dq'_def)
  obtain b' where 1: "CoalesceOrRedistribute rops dops True g b t = Some (Inr ((b', t), False))" "runs {} b0 b'"
    "store b' = (store b)(p' \<mapsto> dn', p \<mapsto> dx', q \<mapsto> dq')"
    by (rule CoalesceOrRedistribute_law [OF ok h px P(7,8,9,1,2,10) z(1) P(5,6) V(1) _ P(3,4) z(3) sp _ _ m(2,3) q'])
      (use V(2) m(1) key in \<open>simp_all add: dq'_def\<close>)
  let ?T = "plug D (BNode q ([] @ (kL, BLeaf p (es @ [hd es']) nx) # (fst (hd (tl es')), BLeaf p' (tl es') nx') # rs))"
  have tree: "tree_at t (store b') n ?T"
    by (rule shift_tree [OF T0 C W _ _ _ _ _ _ _ m(3,2) q']) (use F es' z P(7-9) 1(3) in auto)
  show thesis by (rule that [OF 1(1,2) tree]) (use 1(3) es' in \<open>auto simp: tree_pairs_def plug_leaves plug_ids_set\<close>)
qed

lemma take_from_left:
  assumes f: "bt_fits t" and T: "tree_at t (store b) n (plug D (BNode q (ls @ (kL, BLeaf p' es' nx') # (k, BLeaf p es nx) # rs)))"
    and C: "ctx_ok t (Suc 0) D" "n = Suc (length D)"
    and W: "within_row (bt_lt t) (bt_valid t) (hole_lo D) (hole_hi D) (ls @ (kL, BLeaf p' es' nx') # (k, BLeaf p es nx) # rs)"
    and F: "\<forall>(k, c) \<in> set (ls @ rs). balanced 0 c \<and> sized t c" "int (length ls + length rs) + 2 \<le> bt_internal_max_size t"
    and z: "int (length es) < bt_leaf_max_size t div 2" "int (length es') \<le> bt_leaf_max_size t" "bt_leaf_max_size t < int (length es') + int (length es)"
    and ok: "bp_ok b0" and h: "held {p} (one p) b0 b" and px: "pinned_at b p g" and sp: "2 < spares b"
  obtains b' T' where "CoalesceOrRedistribute rops dops True g b t = Some (Inr ((b', t), False))" "runs {} b0 b'" "tree_at t (store b') n T'"
    "tree_pairs T' = tree_pairs (plug D (BNode q (ls @ (kL, BLeaf p' es' nx') # (k, BLeaf p es nx) # rs)))"
    "set (page_ids T') = set (page_ids (plug D (BNode q (ls @ (kL, BLeaf p' es' nx') # (k, BLeaf p es nx) # rs))))"
    "\<forall>x. x \<notin> set (page_ids T') \<longrightarrow> store b' x = store b x"
proof -
  obtain d' d dq where P: "store b p' = Some d'" "page_is t p' (LeafD q es' nx') d'" "store b p = Some d" "page_is t p (LeafD q es nx) d"
    "store b q = Some dq" "page_is t q (NodeD (hole_parent D) (child_ids ls @ (kL, p') # (k, p) # child_ids rs)) dq"
    "p' \<noteq> p" "q \<noteq> p'" "q \<noteq> p" "q \<noteq> INVALID_PAGE_ID" "p' \<notin> snd ` set (child_ids ls)" "p \<notin> snd ` set (child_ids ls)" by (rule neighbor_pages [OF T])
  have e: "2 \<le> length es'" using z by presburger
  have "butlast es' \<noteq> []" using e by (cases es' rule: rev_cases) auto
  then have len: "length es < nat (bt_leaf_max_size t) + 1" "es' \<noteq> []" "butlast es' \<noteq> []" using z e by auto
  let ?k = "fst (last es')"
  obtain dn' dx' where m: "leaf_MoveLastToFrontOf d' d = Inr (dn', dx')" "page_is t p' (LeafD q (butlast es') nx') dn'" "page_is t p (LeafD q (last es' # es) nx) dx'"
    by (rule leaf_page_last [OF P(2,4) f len(2,1)])
  have key: "leaf_KeyAt dx' 0 = ?k" using leaf_page_key [OF m(3)] by simp
  have V: "ValueIndex p dq = Some (length (child_ids ls @ [(kL, p')]))" "internal_ValueAt dq (length ls) = p'"
    using node_page_index [where xs = "child_ids ls @ [(kL, p')]" and ys = "child_ids rs" and k = k and p = p] P(6,7,12) by (auto simp: nth_append)
  have kl: "length ?k = bt_key_size t"
  proof -
    have B: "bound_ok (bt_valid t) (hole_lo D)" "bound_ok (bt_valid t) (hole_hi D)" using C(1) ctx_bounds_ok by (auto simp: ctx_ok_def)
    have "valid_keys (bt_valid t) es'" using W lf.within_row_split [OF B, of ls kL] by (simp add: within_row_Cons)
    then have "bt_valid t ?k" using len(2) by (simp add: valid_keys_def list_all_iff)
    then show ?thesis by (simp add: key_valid_def)
  qed
  define dq' where "dq' = internal_SetKeyAt (Suc (length ls)) ?k dq"
  have q': "page_is t q (NodeD (hole_parent D) (child_ids ls @ (kL, p') # (fst (hd (last es' # es)), p) # child_ids rs)) dq'"
    using node_page_key [OF P(6) _ kl, of "Suc (length ls)"] by (simp add: dq'_def list_update_append nth_append)
  obtain b' where 1: "CoalesceOrRedistribute rops dops True g b t = Some (Inr ((b', t), False))" "runs {} b0 b'"
    "store b' = (store b)(p' \<mapsto> dn', p \<mapsto> dx', q \<mapsto> dq')"
    by (rule CoalesceOrRedistribute_law [OF ok h px P(7) [symmetric] P(9,8,3,4,10) z(1) P(5,6) V(1) _ P(1,2) z(3) sp _ _ m(2,3) q'])
      (use V(2) m(1) key in \<open>simp_all add: dq'_def\<close>)
  let ?T = "plug D (BNode q (ls @ (kL, BLeaf p' (butlast es') nx') # (fst (hd (last es' # es)), BLeaf p (last es' # es) nx) # rs))"
  have tree: "tree_at t (store b') n ?T"
    by (rule shift_tree [OF T C W F _ _ _ _ _ m(2,3) q']) (use z len P(7-9) 1(3) in auto)
  show thesis by (rule that [OF 1(1,2) tree]) (use 1(3) len(2) in \<open>auto simp: tree_pairs_def plug_leaves plug_ids_set\<close>)
qed

text \<open>\<^verbatim>\<open>Remove\<close>.\<close>

lemma sibling_leaf:
  assumes "balanced 0 c" "sized t c"
  obtains p es nx where "c = BLeaf p es nx" "int (length es) \<le> bt_leaf_max_size t"
  using assms that by (cases c) auto

lemma leaf_remove_pairs:
  assumes "ctx_ok t n C" "route t (Some key) C"
  shows "leaf_pairs (before C) @ assoc_remove (bt_lt t) key es @ leaf_pairs (behind C) =
       assoc_remove (bt_lt t) key (tree_pairs (plug C (BLeaf p es nx)))"
proof -
  have r: "bt_valid t key" "above_lo (bt_lt t) (hole_lo C) key" "under_hi (bt_lt t) key (hole_hi C)" and cw: "ctx_within (bt_lt t) (bt_valid t) C"
    using assms by (simp_all add: route_def ctx_ok_def)
  show ?thesis using km.assoc_remove_middle [OF lf.ctx_pairs [OF cw r]] by (simp add: tree_pairs_def plug_leaves)
qed

text \<open>A leaf that has become too small takes a pair from its neighbor.\<close>

lemma refill_law:
  assumes f: "bt_fits t" and T: "tree_at t (store b) n (plug ((q, ls, k, rs) # D) (BLeaf p es nx))"
    and C: "ctx_ok t 0 ((q, ls, k, rs) # D)" "length ((q, ls, k, rs) # D) = n" "fits_hole t ((q, ls, k, rs) # D) (BLeaf p es nx)"
    and z: "int (length es) < bt_leaf_max_size t div 2" "ls @ rs \<noteq> []"
      "ls = [] \<Longrightarrow> bt_leaf_max_size t < int (length es) + int (length (leaf_content (snd (hd rs))))"
      "ls \<noteq> [] \<Longrightarrow> bt_leaf_max_size t < int (length es) + int (length (leaf_content (snd (last ls))))"
    and ok: "bp_ok b0" and h: "held {p} (one p) b0 b" and px: "pinned_at b p g" and sp: "2 < spares b"
  obtains b' T' where "CoalesceOrRedistribute rops dops True g b t = Some (Inr ((b', t), False))" "runs {} b0 b'" "tree_at t (store b') n T'"
    "tree_pairs T' = tree_pairs (plug ((q, ls, k, rs) # D) (BLeaf p es nx))"
    "set (page_ids T') = set (page_ids (plug ((q, ls, k, rs) # D) (BLeaf p es nx)))"
    "\<forall>x. x \<notin> set (page_ids T') \<longrightarrow> store b' x = store b x"
proof -
  note H = hole_row [OF C(1,3)]
  have n: "n = Suc (length D)" using C(2) by simp
  show thesis
  proof (cases "ls = []")
    case True
    then obtain k' c rs' where rs: "rs = (k', c) # rs'" using z(2) by (cases rs) auto
    obtain p' es' nx' where c: "c = BLeaf p' es' nx'" "int (length es') \<le> bt_leaf_max_size t" using H(3) rs sibling_leaf [of c t] by auto
    note S = z(3) [OF True, unfolded rs c list.sel snd_conv leaf_content.simps]
    show thesis
      by (rule take_from_right [OF f T [unfolded True rs c plug.simps append_Nil] H(2) n H(1) [unfolded True rs c] _ _ z(1) c(2) _ ok h px sp])
        (use that H(3,4) S True rs c in auto)
  next
    case False
    then obtain ls' kL c where ls: "ls = ls' @ [(kL, c)]" by (metis prod.exhaust rev_exhaust)
    obtain p' es' nx' where c: "c = BLeaf p' es' nx'" "int (length es') \<le> bt_leaf_max_size t" using H(3) ls sibling_leaf [of c t] by auto
    have S: "bt_leaf_max_size t < int (length es) + int (length es')" using z(4) [OF False] ls c by simp
    have T': "tree_at t (store b) n (plug D (BNode q (ls' @ (kL, BLeaf p' es' nx') # (k, BLeaf p es nx) # rs)))" using T by (simp add: ls c)
    have W: "within_row (bt_lt t) (bt_valid t) (hole_lo D) (hole_hi D) (ls' @ (kL, BLeaf p' es' nx') # (k, BLeaf p es nx) # rs)" using H(1) by (simp add: ls c)
    show thesis
      by (rule take_from_left [OF f T' H(2) n W _ _ z(1) c(2) _ ok h px sp])
        (use that H(3,4) S ls c in auto)
  qed
qed

lemma bt_Remove_law:
  assumes f: "bt_fits t" and T: "tree_at t (store b) n T" and ok: "bp_ok b" and key: "bt_valid t key"
    and cl: "unsaved b \<inter> set (page_ids T) = {}" and sp: "3 < spares b" and nd: "\<not> drops_pages t key T"
  obtains b' T' where "bt_Remove rops dops key (b, t) = Some (Inr (b', t))" "runs {} b b'" "tree_at t (store b') n T'"
    "tree_pairs T' = assoc_remove (bt_lt t) key (tree_pairs T)" "set (page_ids T') = set (page_ids T)"
    "\<forall>x. x \<notin> set (page_ids T) \<longrightarrow> store b' x = store b x"
proof -
  note nn = pins_nonneg [OF conjunct1 [OF ok]]
  have key': "Some key = None \<or> (\<exists>k. Some key = Some k \<and> bt_valid t k)" using key by simp
  have sp0: "0 < spares b" using sp by simp
  obtain b1 g C p es nx where 1: "FindLeafPage rops dops (Some key) (b, t) = Some (Inr (b1, Some g))" "plug C (BLeaf p es nx) = T" "length C = n"
    "ctx_ok t 0 C" "fits_hole t C (BLeaf p es nx)" "sized t (BLeaf p es nx)" "route t (Some key) C"
    "held {} (one p) b b1" "pinned_at b1 p g" "store b1 = store b"
    by (rule FindLeafPage_law [OF T ok key' cl sp0])
  note ok1 = held_ok [OF 1(8)] and T1 = T [folded 1(2)]
  have sh: "shown t (store b) (descs INVALID_PAGE_ID (plug C (BLeaf p es nx)))" using T1 by (simp add: tree_at_def)
  obtain d where d: "store b p = Some d" "page_is t p (LeafD (hole_parent C) es nx) d" using plug_top_page [OF sh] by (auto simp: top_desc_def)
  have fd: "fdata b1 g = d" using fdata_store [OF ok1 1(9)] 1(10) d(1) by simp
  have D: "bp_GetPageId d = p" "leaf_entries d = es" "GetSize d = int (length es)" using d(2) leaf_page_size [OF d(2)] by (simp_all add: page_is_def)
  have s: "key_sorted (bt_lt t) es" "valid_keys (bt_valid t) es" using 1(5) by simp_all
  note R = km.length_assoc_remove [OF s key] and P = leaf_remove_pairs [OF 1(4,7), where p = p and es = es and nx = nx, unfolded 1(2)]
  have ne: "\<not> bt_IsEmpty t" by (rule tree_not_empty [OF T])
  have pT: "p \<in> set (page_ids T)" by (simp add: 1(2) [symmetric] plug_ids_set)
  show thesis
  proof (cases "assoc_find (bt_lt t) es key")
    case None
    obtain b2 where 2: "UnpinPage rops p False b1 = (b2, True)" "held ({} - (if False then {p} else {})) (\<lambda>q. one p q - one p q) b b2"
      "store b2 = store b1" by (rule held_Unpin [OF 1(8), of p False]) (use cl pT nn in auto)
    have "RemoveAndDeleteRecord (bt_cmp t) key d = Inr (d, GetSize d)"
      using lf.leaf_Remove_absent [of "bt_processor t" d key] s key None by (simp add: D)
    then have "bt_Remove rops dops key (b, t) = Some (Inr (b2, t))"
      using 1(1) 2(1) ne rewrite_frame_twice [of g b1] D by (simp add: bt_Remove_def fd)
    moreover have "tree_pairs T = assoc_remove (bt_lt t) key (tree_pairs T)"
      using P R(2) [OF None] by (simp add: tree_pairs_def plug_leaves flip: 1(2))
    ultimately show thesis using that [of b2 T] T 2(2,3) 1(10) by (simp add: held_runs)
  next
    case (Some r)
    define es' where "es' = assoc_remove (bt_lt t) key es"
    have len: "length es' = length es - 1" "es \<noteq> []" using R(1,3) Some by (simp_all add: es'_def)
    obtain d' where d': "RemoveAndDeleteRecord (bt_cmp t) key d = Inr (d', GetSize d')" "page_is t p (LeafD (hole_parent C) es' nx) d'"
      unfolding es'_def by (rule leaf_page_remove [OF d(2) s key])
    have D': "bp_GetPageId d' = p" "GetMaxSize d' = bt_leaf_max_size t" "GetSize d' = int (length es')" "IsLeafPage d'" "GetParentPageId d' = hole_parent C"
      using d'(2) leaf_page_size [OF d'(2)] by (simp_all add: page_is_def)
    have fit: "fits_hole t C (BLeaf p es' nx)" "sized t (BLeaf p es' nx)"
      using 1(5,6) km.remove_sorted [of "bt_processor t" es key] len by (auto simp: es'_def assoc_remove_def)
    define b2 where "b2 = write_frame g d' b1"
    note S2 = step_write [OF ok1 1(9) page_is_length [OF d'(2)], folded b2_def]
    have pn: "0 \<le> one p x" for x by simp
    have h2: "held {p} (one p) b b2" using held_run [OF 1(8) S2(1) pn] by simp
    have st2: "store b2 = (store b)(p \<mapsto> d')" using S2(2) 1(10) by simp
    note g2 = S2(5) [OF 1(9)]
    have fd2: "fdata b2 g = d'" by (rule fdata_store [OF S2(4) g2]) (simp add: st2)
    note L = leaf_tree [OF T1 1(4,3) fit d'(2) st2]
    have pairs: "tree_pairs (plug C (BLeaf p es' nx)) = assoc_remove (bt_lt t) key (tree_pairs T)" using P by (simp add: tree_pairs_def plug_leaves es'_def)
    have eqn: "bt_Remove rops dops key (b, t) = bind_run (CoalesceOrRedistribute rops dops True g b2 t) (\<lambda>(st, _). Some (Inr st))"
      using 1(1) ne d'(1) D' len D(3) by (cases es) (simp_all add: bt_Remove_def fd fd2 Let_def flip: b2_def)
    show thesis
    proof (cases "C = [] \<or> bt_leaf_max_size t div 2 \<le> int (length es')")
      case True
      obtain b3 where 3: "UnpinPage rops p True b2 = (b3, True)" "held ({p} - (if True then {p} else {})) (\<lambda>x. one p x - one p x) b b3"
        "store b3 = store b2" by (rule held_Unpin [OF h2, of p True]) (use nn in auto)
      have big: "C = [] \<Longrightarrow> int (length es') \<noteq> 0"
        using nd 1(2) Some len by (cases es) (auto simp: drops_pages_def)
      have "C \<noteq> [] \<Longrightarrow> hole_parent C \<noteq> INVALID_PAGE_ID" using T1 by (cases C) (auto simp: tree_at_def plug_ids_set)
      then have "CoalesceOrRedistribute rops dops True g b2 t = Some (Inr ((b3, t), False))"
        using True big 3(1) D' by (subst CoalesceOrRedistribute.simps) (auto simp: fd2 IsRootPage_def GetMinSize_def AdjustRoot_def Let_def)
      then show thesis using that [OF _ _ L(1) [folded 3(3)]] eqn 3(2,3) pairs L(2) 1(2) st2 pT by (auto simp: held_runs)
    next
      case False
      then obtain q ls k rs E where C: "C = (q, ls, k, rs) # E" by (cases C) auto
      have il: "int (length es) - 1 = int (length es')" using len by (cases es) auto
      have small: "int (length es') < bt_leaf_max_size t div 2" using False by simp
      have some: "assoc_find (bt_lt t) es key \<noteq> None" using Some by simp
      note X = drops_hole [OF nd [folded 1(2), unfolded C] some, unfolded il, OF small]
      have sp2: "2 < spares b2"
      proof -
        have "spares b \<le> Suc (spares b2)" by (rule spares_pin [OF ok, of _ p]) (use h2 in \<open>auto simp: held_def one_def split: if_splits\<close>)
        then show ?thesis using sp by simp
      qed
      obtain b3 T' where 3: "CoalesceOrRedistribute rops dops True g b2 t = Some (Inr ((b3, t), False))" "runs {} b b3" "tree_at t (store b3) n T'"
        "tree_pairs T' = tree_pairs (plug ((q, ls, k, rs) # E) (BLeaf p es' nx))"
        "set (page_ids T') = set (page_ids (plug ((q, ls, k, rs) # E) (BLeaf p es' nx)))" "\<forall>x. x \<notin> set (page_ids T') \<longrightarrow> store b3 x = store b2 x"
        by (rule refill_law [OF f L(1) [unfolded C] 1(4) [unfolded C] 1(3) [unfolded C] fit(1) [unfolded C] small X ok h2 g2 sp2])
      show thesis by (rule that [OF _ 3(2,3)]) (use eqn 3(1,4-6) pairs L(2) 1(2) st2 pT C in auto)
    qed
  qed
qed

end

end
