(* ===== verification/Index_Store.thy ===== *)
theory Index_Store
  imports Index_Scan Tree_Store Tree_Shrink
begin

text \<open>
  The index of a table over the buffer pool and the disk manager of the program: entries are inserted and removed by row, and
  \<^verbatim>\<open>ScanKey\<close> answers the six comparison operators.
\<close>

definition entries_ok :: "(LRUReplacer, disk_manager) bpm \<Rightarrow> BPlusTreeIndex \<Rightarrow> (index_id_t \<rightharpoonup> page_id_t) \<Rightarrow> nat \<Rightarrow> (byte list \<times> RowId) list \<Rightarrow> page_id_t set \<Rightarrow> bool" where
  "entries_ok b bi M n ps ids \<longleftrightarrow> index_ok b (bi_container bi) M n ps ids \<and> bt_processor (bi_container bi) = bi_processor bi \<and>
     bi_key_schema bi = km_key_schema (bi_processor bi)"

abbreviation bi_lt :: "BPlusTreeIndex \<Rightarrow> byte list \<Rightarrow> byte list \<Rightarrow> bool" where "bi_lt bi \<equiv> key_less (bi_processor bi)"

text \<open>The scan of one operator, without the serialization of the key.\<close>

definition scan_op :: "string \<Rightarrow> byte list \<Rightarrow> (LRUReplacer, disk_manager) bpm \<Rightarrow> BPlusTree \<Rightarrow> ((LRUReplacer, disk_manager) bpm \<times> RowId list) run" where
  "scan_op op key b t =
     (if op = ''='' then bind_run (GetValue lru_ops disk_manager_ops key [] (b, t)) (\<lambda>(b, result, _). Some (Inr (b, result)))
      else if op = ''>'' then scan_gt lru_ops disk_manager_ops key [] (b, t)
      else if op = ''>='' then scan_ge lru_ops disk_manager_ops key [] (b, t)
      else if op = ''<'' then scan_lt lru_ops disk_manager_ops key [] (b, t)
      else if op = ''<='' then scan_le lru_ops disk_manager_ops key [] (b, t)
      else if op = ''<>'' then scan_ne lru_ops disk_manager_ops key [] (b, t)
      else Some (Inr (b, [])))"

lemma scan_op_empty: "bt_IsEmpty t \<Longrightarrow> scan_op op key b t = Some (Inr (b, []))"
proof -
  assume e: "bt_IsEmpty t"
  have "scan_range lru_ops disk_manager_ops bt_End b bt_End [] = Some (Inr (b, []))"
    by (simp add: scan_range_def scan_until.simps ii_eq_def ii_destroy_def) (simp add: bt_End_def IndexIterator_end_def)
  then show ?thesis using e
    by (simp add: scan_op_def scan_gt_def scan_ge_def scan_lt_def scan_le_def scan_ne_def GetValue_def bt_Begin_def bt_Begin_key_def
        ii_destroy_def) (simp add: bt_End_def IndexIterator_end_def)
qed

lemma scan_op_tree:
  assumes q: "quiet b" and T: "tree_at t (bp.store b) n T" and key: "bt_valid t key" and pool: "2 < pool_size b"
  obtains b' r where "scan_op op key b t = Some (Inr (b', r))" "mset r = mset (selected (bt_lt t) op key (tree_pairs T))"
    "op \<noteq> ''<>'' \<longrightarrow> r = selected (bt_lt t) op key (tree_pairs T)" "bp.scanning b (\<lambda>x. 0) b'"
proof -
  note Q = quiet_pool [OF q]
  have S: "bp.scan_tree t n T b" using Q T pool by (simp add: bp.scan_tree_def)
  have so: "key_sorted (bt_lt t) (tree_pairs T)" "valid_keys (bt_valid t) (tree_pairs T)" using bp.pairs_sorted [OF S] by simp_all
  note st = bp.scan_start [OF S]
  note pick = that
  consider "op = ''=''" | "op = ''>''" | "op = ''>=''" | "op = ''<''" | "op = ''<=''" | "op = ''<>''"
    | "op \<notin> {''='', ''>'', ''>='', ''<'', ''<='', ''<>''}" by blast
  then show thesis
  proof cases
    case 1
    obtain b' where "GetValue lru_ops disk_manager_ops key [] (b, t) = Some (Inr (b', case assoc_find (bt_lt t) (tree_pairs T) key of
       None \<Rightarrow> ([], False) | Some rid \<Rightarrow> ([] @ [rid], True)))" "bp.scanning b (\<lambda>x. 0) b'"
      by (rule bp.GetValue_scan [OF S bp.pin_few_simps(1) st key, where result = "[]"]) (rule that; assumption)
    then show thesis using pick 1 km.rank_cut(3) [OF so key] by (auto simp: scan_op_def split: option.splits)
  next
    case 2
    show thesis by (rule bp.scan_gt_law [OF S key, where result = "[]"]) (rule pick, simp_all add: 2 scan_op_def)
  next
    case 3
    show thesis by (rule bp.scan_ge_law [OF S key, where result = "[]"]) (rule pick, simp_all add: 3 scan_op_def)
  next
    case 4
    show thesis by (rule bp.scan_lt_law [OF S key, where result = "[]"]) (rule pick, simp_all add: 4 scan_op_def)
  next
    case 5
    show thesis by (rule bp.scan_le_law [OF S key, where result = "[]"]) (rule pick, simp_all add: 5 scan_op_def)
  next
    case 6
    obtain b' r where "scan_ne lru_ops disk_manager_ops key [] (b, t) = Some (Inr (b', r))" "mset r = mset ([] @ selected (bt_lt t) ''<>'' key (tree_pairs T))"
      "bp.scanning b (\<lambda>x. 0) b'" by (rule bp.scan_ne_law [OF S key])
    then show thesis using pick [of b' r] 6 by (simp add: scan_op_def)
  next
    case 7
    then show thesis by (intro pick [OF _ _ _ st, of "[]"]) (simp_all add: scan_op_def selected_def key_relation_def)
  qed
qed

lemma ScanKey_op:
  "ScanKey lru_ops disk_manager_ops buf row [] op (b, bi) =
     bind_run (Some (SerializeFromKey (bi_processor bi) buf row (bi_key_schema bi))) (\<lambda>key.
     bind_run (scan_op op key b (bi_container bi)) (\<lambda>(b, r). Some (Inr (b, r, if r \<noteq> [] then DB_SUCCESS else DB_KEY_NOT_FOUND))))"
  by (simp add: ScanKey_def scan_op_def Let_def)

lemma scan_op_law:
  assumes I: "index_ok b t M n ps ids" and key: "bt_valid t key" and pool: "2 < pool_size b"
  obtains b' r where "scan_op op key b t = Some (Inr (b', r))" "mset r = mset (selected (bt_lt t) op key ps)"
    "op \<noteq> ''<>'' \<longrightarrow> r = selected (bt_lt t) op key ps" "index_ok b' t M n ps ids" "db_pages b' = db_pages b"
proof (cases "bt_IsEmpty t")
  case True
  then have "ps = []" using I by (simp add: index_ok_def index_at_def)
  then show thesis using that [OF scan_op_empty [OF True]] I by (simp add: selected_def)
next
  case False
  have q: "quiet b" using I by (simp add: index_ok_def)
  obtain T where T: "tree_at t (bp.store b) n T" "tree_pairs T = ps" using I False by (auto simp: index_ok_def index_at_def store_db)
  obtain b' r where 1: "scan_op op key b t = Some (Inr (b', r))" "mset r = mset (selected (bt_lt t) op key ps)"
    "op \<noteq> ''<>'' \<longrightarrow> r = selected (bt_lt t) op key ps" "bp.scanning b (\<lambda>x. 0) b'"
    using scan_op_tree [OF q T(1) key pool, of op] T(2) by metis
  have "bp.runs {} b b'" "bp.store b' = bp.store b" using 1(4) by (simp_all add: bp.scanning_def bp.held_runs)
  then show thesis using that [OF 1(1-3)] I quiet_runs [OF q] by (auto simp: index_ok_def store_db)
qed

section \<open>Properties\<close>

text \<open>C6. \<^verbatim>\<open>BPlusTreeIndex::ScanKey\<close> answers a comparison with a row, over the whole storage stack: for each of the six operators it returns
  the row ids of exactly those entries whose key stands in that relation to the key of the row, in key order (for \<^verbatim>\<open><>\<close>, where the
  row id of the key is erased from the list of all, as a multiset). The status says whether there are any. The scan always
  returns, changes no page and leaves no page pinned; an operator other than these selects nothing.\<close>

theorem ScanKey_selects:
  assumes "entries_ok b bi M n ps ids" "key_row_ok (bi_processor bi) row" "length buf = km_key_size (bi_processor bi)" "2 < pool_size b"
  shows "\<exists>b' r key. SerializeFromKey (bi_processor bi) buf row (bi_key_schema bi) = Inr key \<and>
    ScanKey lru_ops disk_manager_ops buf row [] op (b, bi) = Some (Inr (b', r, if r \<noteq> [] then DB_SUCCESS else DB_KEY_NOT_FOUND)) \<and>
    mset r = mset (selected (bi_lt bi) op key ps) \<and> (op \<noteq> ''<>'' \<longrightarrow> r = selected (bi_lt bi) op key ps) \<and>
    entries_ok b' bi M n ps ids \<and> db_pages b' = db_pages b"
proof -
  have E: "index_ok b (bi_container bi) M n ps ids" "bt_processor (bi_container bi) = bi_processor bi" "bi_key_schema bi = km_key_schema (bi_processor bi)"
    using assms(1) by (simp_all add: entries_ok_def)
  obtain key where k: "SerializeFromKey (bi_processor bi) buf row (bi_key_schema bi) = Inr key" "key_valid (bi_processor bi) key"
    using SerializeFromKey_valid [OF assms(2,3)] E(3) by metis
  have v: "bt_valid (bi_container bi) key" using k(2) E(2) by simp
  obtain b' r where 1: "scan_op op key b (bi_container bi) = Some (Inr (b', r))" "mset r = mset (selected (bi_lt bi) op key ps)"
    "op \<noteq> ''<>'' \<longrightarrow> r = selected (bi_lt bi) op key ps" "index_ok b' (bi_container bi) M n ps ids" "db_pages b' = db_pages b"
    using scan_op_law [OF E(1) v assms(4), of op] E(2) by metis
  have "ScanKey lru_ops disk_manager_ops buf row [] op (b, bi) = Some (Inr (b', r, if r \<noteq> [] then DB_SUCCESS else DB_KEY_NOT_FOUND))"
    by (simp add: ScanKey_op k(1) 1(1))
  then show ?thesis using k(1) 1(2-5) E(2,3) by (auto simp: entries_ok_def)
qed

lemma entry_insert:
  assumes "entries_ok b bi M n ps ids" "key_row_ok (bi_processor bi) row" "length buf = km_key_size (bi_processor bi)"
    "2 * n + 2 < pool_size b" "card (disk_allocated (bpm_disk b)) + n + 2 \<le> 32704"
    "M (bt_index_id (bi_container bi)) \<noteq> None \<or> card (dom M) < MAX_INDEX_COUNT"
  obtains key b' t' n' ids' where "SerializeFromKey (bi_processor bi) buf row (bi_key_schema bi) = Inr key"
    "InsertEntry lru_ops disk_manager_ops buf row rid (b, bi) = Some (Inr ((b', bi\<lparr>bi_container := t'\<rparr>),
       if assoc_find (bi_lt bi) ps key = None then DB_SUCCESS else DB_FAILED))"
    "entries_ok b' (bi\<lparr>bi_container := t'\<rparr>) (M(bt_index_id (bi_container bi) \<mapsto> bt_root_page_id t')) n' (assoc_insert (bi_lt bi) key rid ps) ids'"
    "n' \<le> Suc n" "ids \<subseteq> ids'" "\<forall>x \<in> ids' - ids. db_pages b x = None"
    "\<forall>x. x \<notin> ids' \<longrightarrow> x \<noteq> INDEX_ROOTS_PAGE_ID \<longrightarrow> db_pages b' x = db_pages b x" "pool_size b' = pool_size b"
    "int (length ps) < bt_leaf_max_size (bi_container bi) \<longrightarrow> n' = n" "bt_index_id t' = bt_index_id (bi_container bi)" "bt_leaf_max_size t' = bt_leaf_max_size (bi_container bi)"
    "bt_IsEmpty (bi_container bi) \<longrightarrow> card (disk_allocated (bpm_disk b')) \<le> Suc (card (disk_allocated (bpm_disk b)))"
proof -
  have E: "index_ok b (bi_container bi) M n ps ids" "bt_processor (bi_container bi) = bi_processor bi" "bi_key_schema bi = km_key_schema (bi_processor bi)"
    using assms(1) by (simp_all add: entries_ok_def)
  obtain key where k: "SerializeFromKey (bi_processor bi) buf row (bi_key_schema bi) = Inr key" "key_valid (bi_processor bi) key"
    using SerializeFromKey_valid [OF assms(2,3)] E(3) by metis
  have v: "bt_valid (bi_container bi) key" using k(2) E(2) by simp
  obtain b' t' n' ids' where 1: "bt_Insert lru_ops disk_manager_ops key rid (b, bi_container bi) = Some (Inr ((b', t'), assoc_find (bi_lt bi) ps key = None))"
    "index_ok b' t' (M(bt_index_id (bi_container bi) \<mapsto> bt_root_page_id t')) n' (assoc_insert (bi_lt bi) key rid ps) ids'" "n' \<le> Suc n"
    "t' = (bi_container bi)\<lparr>bt_root_page_id := bt_root_page_id t'\<rparr>" "ids \<subseteq> ids'" "\<forall>x \<in> ids' - ids. db_pages b x = None"
    "\<forall>x. x \<notin> ids' \<longrightarrow> x \<noteq> INDEX_ROOTS_PAGE_ID \<longrightarrow> db_pages b' x = db_pages b x" "pool_size b' = pool_size b"
    "int (length ps) < bt_leaf_max_size (bi_container bi) \<longrightarrow> n' = n"
    "bt_IsEmpty (bi_container bi) \<longrightarrow> card (disk_allocated (bpm_disk b')) \<le> Suc (card (disk_allocated (bpm_disk b)))"
    using index_insert [OF E(1) v assms(4,5,6), of rid] E(2) by metis
  have p: "bt_processor t' = bi_processor bi" "bt_index_id t' = bt_index_id (bi_container bi)" "bt_leaf_max_size t' = bt_leaf_max_size (bi_container bi)"
    using E(2) by (subst 1(4), simp)+
  have "InsertEntry lru_ops disk_manager_ops buf row rid (b, bi) = Some (Inr ((b', bi\<lparr>bi_container := t'\<rparr>),
       if assoc_find (bi_lt bi) ps key = None then DB_SUCCESS else DB_FAILED))" by (simp add: InsertEntry_def k(1) 1(1))
  then show thesis using that k(1) 1(2,3,5-10) p E(3) by (simp add: entries_ok_def)
qed

text \<open>\<^verbatim>\<open>BPlusTreeIndex::InsertEntry\<close> keeps a unique index: an entry whose key is new is added at its place in the key order and the
  call reports success; for a key that is there it reports failure and the entries stay as they are. The call always returns, the index stays
  well formed, and besides the pages of the index and the root directory nothing in the database changes.\<close>

theorem InsertEntry_refines:
  assumes "entries_ok b bi M n ps ids" "key_row_ok (bi_processor bi) row" "length buf = km_key_size (bi_processor bi)"
    "2 * n + 2 < pool_size b" "card (disk_allocated (bpm_disk b)) + n + 2 \<le> 32704"
    "M (bt_index_id (bi_container bi)) \<noteq> None \<or> card (dom M) < MAX_INDEX_COUNT"
  shows "\<exists>key b' t' n' ids'. SerializeFromKey (bi_processor bi) buf row (bi_key_schema bi) = Inr key \<and>
    InsertEntry lru_ops disk_manager_ops buf row rid (b, bi) = Some (Inr ((b', bi\<lparr>bi_container := t'\<rparr>),
       if assoc_find (bi_lt bi) ps key = None then DB_SUCCESS else DB_FAILED)) \<and>
    entries_ok b' (bi\<lparr>bi_container := t'\<rparr>) (M(bt_index_id (bi_container bi) \<mapsto> bt_root_page_id t')) n' (assoc_insert (bi_lt bi) key rid ps) ids' \<and>
    n' \<le> Suc n \<and> (\<forall>x \<in> ids' - ids. db_pages b x = None) \<and>
    (\<forall>x. x \<notin> ids' \<longrightarrow> x \<noteq> INDEX_ROOTS_PAGE_ID \<longrightarrow> db_pages b' x = db_pages b x)"
  by (rule entry_insert [OF assms, of rid]) blast

text \<open>An index in a new database, and one with an entry.\<close>

lemma example_entries:
  obtains b b' bi where "DBStorageEngine_open [] True 16 = Inr b" "BPlusTreeIndex_new lru_ops disk_manager_ops 7 (km_key_schema example_km) 16 b = Inr (b', bi)"
    "entries_ok b' bi Map.empty 0 [] {}" "bi_processor bi = example_km" "bt_index_id (bi_container bi) = 7" "pool_size b' = 16"
    "card (disk_allocated (bpm_disk b')) = 2"
proof -
  obtain b b' t where 1: "DBStorageEngine_open [] True 16 = Inr b" "BPlusTree_new lru_ops disk_manager_ops 7 example_km 0 0 b = Inr (b', t)"
    "index_ok b' t Map.empty 0 [] {}" "bt_processor t = example_km" "bt_index_id t = 7" "pool_size b' = 16" "card (disk_allocated (bpm_disk b')) = 2"
    by (rule example_index)
  have "KeyManager_new (km_key_schema example_km) 16 = example_km" by (simp add: example_km_def KeyManager_new_def)
  then show thesis using that [OF 1(1)] 1(2-) by (simp add: BPlusTreeIndex_new_def entries_ok_def UNDEFINED_SIZE_def)
qed

lemma example_key_size: "km_key_size example_km = 16"
  by (simp add: example_km_def KeyManager_new_def)

theorem InsertEntry_refines_witness:
  "\<exists>b b' bi b2 bi2. DBStorageEngine_open [] True 16 = Inr b \<and> BPlusTreeIndex_new lru_ops disk_manager_ops 7 (km_key_schema example_km) 16 b = Inr (b', bi) \<and>
     InsertEntry lru_ops disk_manager_ops (replicate 16 0) (example_key_row 3) (mk_RowId 9 4) (b', bi) = Some (Inr ((b2, bi2), DB_SUCCESS))"
proof -
  obtain b b' bi where 1: "DBStorageEngine_open [] True 16 = Inr b" "BPlusTreeIndex_new lru_ops disk_manager_ops 7 (km_key_schema example_km) 16 b = Inr (b', bi)"
    "entries_ok b' bi Map.empty 0 [] {}" "bi_processor bi = example_km" "pool_size b' = 16" "card (disk_allocated (bpm_disk b')) = 2"
    by (rule example_entries)
  have "\<exists>b2 bi2. InsertEntry lru_ops disk_manager_ops (replicate 16 0) (example_key_row 3) (mk_RowId 9 4) (b', bi) = Some (Inr ((b2, bi2), DB_SUCCESS))"
    using InsertEntry_refines [OF 1(3), of "example_key_row 3" "replicate 16 0" "mk_RowId 9 4"] example_key_row_ok [of 3] 1(4-6)
    by (auto simp: MAX_INDEX_COUNT_def PAGE_SIZE_def assoc_find_def example_key_size)
  then show ?thesis using 1(1,2) by blast
qed

theorem ScanKey_selects_witness:
  "\<exists>b bi b' b2. ScanKey lru_ops disk_manager_ops (replicate 16 0) (example_key_row 5) [] ''<'' (b, bi) = Some (Inr (b', [mk_RowId 9 4], DB_SUCCESS)) \<and>
     ScanKey lru_ops disk_manager_ops (replicate 16 0) (example_key_row 5) [] ''>='' (b, bi) = Some (Inr (b2, [], DB_KEY_NOT_FOUND))"
proof -
  obtain a a2 where a: "SerializeFromKey example_km (replicate 16 0) (example_key_row 3) (km_key_schema example_km) = Inr a"
    "SerializeFromKey example_km (replicate 16 0) (example_key_row 5) (km_key_schema example_km) = Inr a2" "key_less example_km a a2"
    by (rule example_keys)
  obtain b b' bi where 1: "entries_ok b' bi Map.empty 0 [] {}" "bi_processor bi = example_km" "pool_size b' = 16" "card (disk_allocated (bpm_disk b')) = 2"
    by (rule example_entries)
  have km: "bi_key_schema bi = km_key_schema example_km" using 1(1,2) by (simp add: entries_ok_def)
  have ok: "key_row_ok (bi_processor bi) (example_key_row i)" for i by (simp add: 1(2) example_key_row_ok)
  have buf: "length (replicate 16 0 :: byte list) = km_key_size (bi_processor bi)" by (simp add: 1(2) example_key_size)
  obtain k b2 t2 n2 ids2 where 2: "SerializeFromKey (bi_processor bi) (replicate 16 0) (example_key_row 3) (bi_key_schema bi) = Inr k"
    "entries_ok b2 (bi\<lparr>bi_container := t2\<rparr>) ((Map.empty)(bt_index_id (bi_container bi) \<mapsto> bt_root_page_id t2)) n2 (assoc_insert (bi_lt bi) k (mk_RowId 9 4) []) ids2"
    "pool_size b2 = pool_size b'"
    by (rule entry_insert [OF 1(1) ok buf, of 3 "mk_RowId 9 4"]) (use 1(3,4) in \<open>simp_all add: MAX_INDEX_COUNT_def PAGE_SIZE_def\<close>)
  have k: "k = a" using 2(1) a(1) by (simp add: 1(2) km)
  let ?i = "bi\<lparr>bi_container := t2\<rparr>" and ?M = "(Map.empty)(bt_index_id (bi_container bi) \<mapsto> bt_root_page_id t2)"
  have E: "entries_ok b2 ?i ?M n2 [(a, mk_RowId 9 4)] ids2" using 2(2) k by (simp add: assoc_insert_nil)
  have P: "key_row_ok (bi_processor ?i) (example_key_row 5)" "length (replicate 16 0 :: byte list) = km_key_size (bi_processor ?i)" "2 < pool_size b2"
    using ok buf 2(3) 1(3) by simp_all
  show ?thesis
    using ScanKey_selects [OF E P, of "''<''"] ScanKey_selects [OF E P, of "''>=''"] a(2,3)
    by (auto simp: 1(2) km selected_def key_relation_def)
qed

section \<open>Removal of entries\<close>

text \<open>The tree of an index, with a key whose removal deletes none of its pages.\<close>

definition keeps_pages :: "(LRUReplacer, disk_manager) bpm \<Rightarrow> BPlusTreeIndex \<Rightarrow> nat \<Rightarrow> byte list \<Rightarrow> (byte list \<times> RowId) list \<Rightarrow> page_id_t set \<Rightarrow> bool" where
  "keeps_pages b bi n key ps ids \<longleftrightarrow> bt_IsEmpty (bi_container bi) \<or> (\<exists>T. tree_at (bi_container bi) (db_pages b) n T \<and> tree_pairs T = ps \<and>
     set (page_ids T) = ids \<and> \<not> drops_pages (bi_container bi) key T)"

lemma index_remove:
  assumes I: "index_ok b t M n ps ids" and T: "\<not> bt_IsEmpty t \<Longrightarrow> tree_at t (db_pages b) n T \<and> tree_pairs T = ps \<and> set (page_ids T) = ids \<and> \<not> drops_pages t key T"
    and key: "bt_valid t key" and pool: "3 < pool_size b"
  obtains b' where "bt_Remove lru_ops disk_manager_ops key (b, t) = Some (Inr (b', t))" "index_ok b' t M n (assoc_remove (bt_lt t) key ps) ids"
    "\<forall>x. x \<notin> ids \<longrightarrow> db_pages b' x = db_pages b x"
proof (cases "bt_IsEmpty t")
  case True
  then have "ps = []" using I by (simp add: index_ok_def index_at_def)
  then show thesis using that [of b] True I by (simp add: bt_Remove_def assoc_remove_def)
next
  case False
  have q: "quiet b" and f: "bt_fits t" using I by (simp_all add: index_ok_def)
  note Q = quiet_pool [OF q] and T = T [OF False]
  have tree: "tree_at t (bp.store b) n T" and nd: "\<not> drops_pages t key T" using T by (simp_all add: store_db)
  have pre: "bp.unsaved b \<inter> set (page_ids T) = {}" "3 < spares b" using Q(5) pool quiet_spares [OF q] by simp_all
  obtain b' T' where 1: "bt_Remove lru_ops disk_manager_ops key (b, t) = Some (Inr (b', t))" "bp.runs {} b b'" "tree_at t (bp.store b') n T'"
    "tree_pairs T' = assoc_remove (bt_lt t) key (tree_pairs T)" "set (page_ids T') = set (page_ids T)"
    "\<forall>x. x \<notin> set (page_ids T) \<longrightarrow> bp.store b' x = bp.store b x"
    by (rule bp.bt_Remove_law [OF f tree Q(1) key pre nd])
  have "db_pages b' INDEX_ROOTS_PAGE_ID = db_pages b INDEX_ROOTS_PAGE_ID" using 1(6) tree by (simp add: store_db tree_at_def)
  then have "index_ok b' t M n (assoc_remove (bt_lt t) key ps) ids"
    using I False 1(3-5) T quiet_runs [OF q 1(2)] by (auto simp: index_ok_def index_at_def roots_at_def store_db)
  then show thesis using that 1(1,6) T by (simp add: store_db)
qed

text \<open>C35. \<^verbatim>\<open>BPlusTreeIndex::RemoveEntry\<close> removes exactly the entry of a key, and changes nothing when there is none, as long as no page of the tree has to be
  deleted: the leaf stays large enough, or takes a pair from its neighbor. The call always returns and reports success; the index
  stays well formed with the same pages, no other page of the database changes and no page is left pinned.\<close>

theorem RemoveEntry_refines:
  assumes "entries_ok b bi M n ps ids" "key_row_ok (bi_processor bi) row" "length buf = km_key_size (bi_processor bi)" "3 < pool_size b"
    "SerializeFromKey (bi_processor bi) buf row (bi_key_schema bi) = Inr key" "keeps_pages b bi n key ps ids"
  shows "\<exists>b'. RemoveEntry lru_ops disk_manager_ops buf row rid (b, bi) = Some (Inr ((b', bi), DB_SUCCESS)) \<and>
    entries_ok b' bi M n (assoc_remove (bi_lt bi) key ps) ids \<and> (\<forall>x. x \<notin> ids \<longrightarrow> db_pages b' x = db_pages b x)"
proof -
  have E: "index_ok b (bi_container bi) M n ps ids" "bt_processor (bi_container bi) = bi_processor bi" "bi_key_schema bi = km_key_schema (bi_processor bi)"
    using assms(1) by (simp_all add: entries_ok_def)
  have v: "bt_valid (bi_container bi) key" using SerializeFromKey_valid [OF assms(2,3)] assms(5) E(2,3) by (metis sum.inject(2))
  obtain T where T: "\<not> bt_IsEmpty (bi_container bi) \<Longrightarrow> tree_at (bi_container bi) (db_pages b) n T \<and> tree_pairs T = ps \<and> set (page_ids T) = ids \<and>
      \<not> drops_pages (bi_container bi) key T" using assms(6) by (auto simp: keeps_pages_def)
  obtain b' where 1: "bt_Remove lru_ops disk_manager_ops key (b, bi_container bi) = Some (Inr (b', bi_container bi))"
    "index_ok b' (bi_container bi) M n (assoc_remove (bt_lt (bi_container bi)) key ps) ids" "\<forall>x. x \<notin> ids \<longrightarrow> db_pages b' x = db_pages b x"
    by (rule index_remove [OF E(1) T v assms(4)])
  have "RemoveEntry lru_ops disk_manager_ops buf row rid (b, bi) = Some (Inr ((b', bi), DB_SUCCESS))" using assms(5) 1(1) by (simp add: RemoveEntry_def)
  then show ?thesis using 1(2,3) E by (auto simp: entries_ok_def)
qed

text \<open>Two entries in one leaf, and the removal of the first.\<close>

lemma example_two_entries:
  obtains a a2 b bi M ids where "SerializeFromKey example_km (replicate 16 0) (example_key_row 3) (km_key_schema example_km) = Inr a"
    "key_less example_km a a2" "key_valid example_km a" "key_valid example_km a2"
    "entries_ok b bi M 0 [(a, mk_RowId 9 4), (a2, mk_RowId 9 5)] ids" "bi_processor bi = example_km" "pool_size b = 16"
proof -
  obtain a a2 where a: "SerializeFromKey example_km (replicate 16 0) (example_key_row 3) (km_key_schema example_km) = Inr a"
    "SerializeFromKey example_km (replicate 16 0) (example_key_row 5) (km_key_schema example_km) = Inr a2"
    "key_valid example_km a" "key_valid example_km a2" "key_less example_km a a2" by (rule example_keys)
  obtain b0 b1 bi where 1: "DBStorageEngine_open [] True 16 = Inr b0"
    "BPlusTreeIndex_new lru_ops disk_manager_ops 7 (km_key_schema example_km) 16 b0 = Inr (b1, bi)"
    "entries_ok b1 bi Map.empty 0 [] {}" "bi_processor bi = example_km" "bt_index_id (bi_container bi) = 7" "pool_size b1 = 16"
    "card (disk_allocated (bpm_disk b1)) = 2" by (rule example_entries)
  have max: "bt_leaf_max_size (bi_container bi) = 168"
    using 1(2,4) by (auto simp: BPlusTreeIndex_new_def BPlusTree_new_def bind_result_def UNDEFINED_SIZE_def default_leaf_max_def ASSERT_def KeyManager_new_def Let_def
        split: sum.splits option.splits)
  have E: "bi_key_schema bi = km_key_schema example_km" "bt_IsEmpty (bi_container bi)"
    using 1(3,4) by (auto simp: entries_ok_def index_ok_def index_at_def split: if_splits)
  have buf: "length (replicate 16 0 :: byte list) = km_key_size (bi_processor bi)" by (simp add: 1(4) example_key_size)
  have row: "key_row_ok (bi_processor bi) (example_key_row i)" for i by (simp add: 1(4) example_key_row_ok)
  obtain key b2 t2 n2 ids2 where 2: "SerializeFromKey (bi_processor bi) (replicate 16 0) (example_key_row 3) (bi_key_schema bi) = Inr key"
    "entries_ok b2 (bi\<lparr>bi_container := t2\<rparr>) ((Map.empty)(bt_index_id (bi_container bi) \<mapsto> bt_root_page_id t2)) n2 (assoc_insert (bi_lt bi) key (mk_RowId 9 4) []) ids2"
    "pool_size b2 = pool_size b1" "int (length ([] :: (byte list \<times> RowId) list)) < bt_leaf_max_size (bi_container bi) \<longrightarrow> n2 = 0"
    "bt_index_id t2 = bt_index_id (bi_container bi)" "bt_leaf_max_size t2 = bt_leaf_max_size (bi_container bi)"
    "bt_IsEmpty (bi_container bi) \<longrightarrow> card (disk_allocated (bpm_disk b2)) \<le> Suc (card (disk_allocated (bpm_disk b1)))"
    by (rule entry_insert [OF 1(3) row buf, of 3 "mk_RowId 9 4"]) (use 1(6,7) in \<open>simp_all add: MAX_INDEX_COUNT_def PAGE_SIZE_def\<close>)
  let ?i = "bi\<lparr>bi_container := t2\<rparr>" and ?M = "(Map.empty)(bt_index_id (bi_container bi) \<mapsto> bt_root_page_id t2)"
  have n2: "n2 = 0" and ka: "key = a" using 2(1,4) max a(1) by (simp_all add: 1(4) E)
  have E2: "entries_ok b2 ?i ?M 0 [(a, mk_RowId 9 4)] ids2" using 2(2) n2 ka by (simp add: assoc_insert_nil)
  have pre: "key_row_ok (bi_processor ?i) (example_key_row 5)" "length (replicate 16 0 :: byte list) = km_key_size (bi_processor ?i)" "2 * 0 + 2 < pool_size b2"
    "card (disk_allocated (bpm_disk b2)) + 0 + 2 \<le> 32704" "?M (bt_index_id (bi_container ?i)) \<noteq> None \<or> card (dom ?M) < MAX_INDEX_COUNT"
    using row buf 2(3,5,7) 1(6,7) E(2) by simp_all
  obtain key2 b3 t3 n3 ids3 where 3: "SerializeFromKey (bi_processor ?i) (replicate 16 0) (example_key_row 5) (bi_key_schema ?i) = Inr key2"
    "entries_ok b3 (?i\<lparr>bi_container := t3\<rparr>) (?M(bt_index_id (bi_container ?i) \<mapsto> bt_root_page_id t3)) n3 (assoc_insert (bi_lt ?i) key2 (mk_RowId 9 5) [(a, mk_RowId 9 4)]) ids3"
    "pool_size b3 = pool_size b2" "int (length [(a, mk_RowId 9 4)]) < bt_leaf_max_size (bi_container ?i) \<longrightarrow> n3 = 0"
    by (rule entry_insert [OF E2 pre, where rid = "mk_RowId 9 5"])
  have "n3 = 0" "key2 = a2" using 3(1,4) max a(2) 2(6) by (simp_all add: 1(4) E)
  moreover have "assoc_insert (bi_lt ?i) a2 (mk_RowId 9 5) [(a, mk_RowId 9 4)] = [(a, mk_RowId 9 4), (a2, mk_RowId 9 5)]"
    using a(5) by (simp add: 1(4) assoc_insert_def assoc_find_def key_eq_def)
  ultimately show thesis using that [OF a(1,5,3,4)] 3(2,3) 2(3) 1(4,6) by simp
qed

theorem RemoveEntry_refines_witness:
  "\<exists>b bi b' M ids a2. RemoveEntry lru_ops disk_manager_ops (replicate 16 0) (example_key_row 3) (mk_RowId 9 4) (b, bi) = Some (Inr ((b', bi), DB_SUCCESS)) \<and>
     entries_ok b' bi M 0 [(a2, mk_RowId 9 5)] ids"
proof -
  obtain a a2 b bi M ids where 1: "SerializeFromKey example_km (replicate 16 0) (example_key_row 3) (km_key_schema example_km) = Inr a"
    "key_less example_km a a2" "key_valid example_km a" "key_valid example_km a2"
    "entries_ok b bi M 0 [(a, mk_RowId 9 4), (a2, mk_RowId 9 5)] ids" "bi_processor bi = example_km" "pool_size b = 16" by (rule example_two_entries)
  have ks: "bi_key_schema bi = km_key_schema example_km" using 1(5,6) by (simp add: entries_ok_def)
  have "keeps_pages b bi 0 a [(a, mk_RowId 9 4), (a2, mk_RowId 9 5)] ids"
  proof (cases "bt_IsEmpty (bi_container bi)")
    case False
    then obtain T where T: "tree_at (bi_container bi) (db_pages b) 0 T" "tree_pairs T = [(a, mk_RowId 9 4), (a2, mk_RowId 9 5)]" "set (page_ids T) = ids"
      using 1(5) by (auto simp: entries_ok_def index_ok_def index_at_def)
    moreover have "\<not> drops_pages (bi_container bi) a T" using T by (cases T) (auto simp: tree_at_def tree_pairs_def drops_pages_def)
    ultimately show ?thesis by (auto simp: keeps_pages_def)
  qed (simp add: keeps_pages_def)
  then obtain b' where 2: "RemoveEntry lru_ops disk_manager_ops (replicate 16 0) (example_key_row 3) (mk_RowId 9 4) (b, bi) = Some (Inr ((b', bi), DB_SUCCESS))"
    and "entries_ok b' bi M 0 (assoc_remove (bi_lt bi) a [(a, mk_RowId 9 4), (a2, mk_RowId 9 5)]) ids"
    using RemoveEntry_refines [OF 1(5), of "example_key_row 3" "replicate 16 0" a "mk_RowId 9 4"] example_key_row_ok [of 3] 1(1,6,7) ks
    by (auto simp: example_key_size)
  moreover have "assoc_remove (bi_lt bi) a [(a, mk_RowId 9 4), (a2, mk_RowId 9 5)] = [(a2, mk_RowId 9 5)]"
    using 1(2,6) km.lt_asym [OF 1(3,3)] by (auto simp: assoc_remove_def key_eq_def)
  ultimately have "entries_ok b' bi M 0 [(a2, mk_RowId 9 5)] ids" by simp
  then show ?thesis using 2 by blast
qed

end
