(* ===== verification/Expressions.thy ===== *)
theory Expressions
  imports Row_Codec
begin

text \<open>
  Bound expressions (\<^verbatim>\<open>src/include/planner/expressions/\<close>): columns, constants, comparisons and the two
  connectives, evaluated on one row or on the two rows of a join, and the test by which the scan
  executors keep a row. \<open>sql_truth\<close> is the three-valued truth of a predicate; the program
  encodes truth values as integer fields and reads everything but 1 as false.
\<close>

datatype ExpressionType = TLogicExpression | TComparisonExpression | TColumnExpression | TConstantExpression

datatype LogicType = LogicAnd | LogicOr

datatype AbstractExpression =
    ColumnValueExpression nat nat TypeId
  | ConstantValueExpression Field
  | ComparisonExpression AbstractExpression AbstractExpression string
  | LogicExpression AbstractExpression AbstractExpression LogicType

fun GetReturnType :: "AbstractExpression \<Rightarrow> TypeId" where
  "GetReturnType (ColumnValueExpression row_idx col_idx t) = t"
| "GetReturnType (ConstantValueExpression v) = f_type v"
| "GetReturnType (ComparisonExpression l r comp_type) = kTypeInt"
| "GetReturnType (LogicExpression l r logic_type) = kTypeInt"

fun GetType :: "AbstractExpression \<Rightarrow> ExpressionType" where
  "GetType (ColumnValueExpression row_idx col_idx t) = TColumnExpression"
| "GetType (ConstantValueExpression v) = TConstantExpression"
| "GetType (ComparisonExpression l r comp_type) = TComparisonExpression"
| "GetType (LogicExpression l r logic_type) = TLogicExpression"

fun GetChildren :: "AbstractExpression \<Rightarrow> AbstractExpression list" where
  "GetChildren (ComparisonExpression l r comp_type) = [l, r]"
| "GetChildren (LogicExpression l r logic_type) = [l, r]"
| "GetChildren _ = []"

definition GetChildAt :: "AbstractExpression \<Rightarrow> nat \<Rightarrow> AbstractExpression result" where
  "GetChildAt e i = (if i < length (GetChildren e) then Inr (GetChildren e ! i) else Inl (OutOfBounds ''children_''))"

text \<open>The constructor of a logic expression checks its children's types.\<close>

definition MakeLogicExpression :: "AbstractExpression \<Rightarrow> AbstractExpression \<Rightarrow> LogicType \<Rightarrow> AbstractExpression result" where
  "MakeLogicExpression lhs rhs logic_type =
     (if GetReturnType lhs \<noteq> kTypeInt \<or> GetReturnType rhs \<noteq> kTypeInt
      then Inl (Thrown ''expect boolean from either side'')
      else Inr (LogicExpression lhs rhs logic_type))"

definition Char2Type :: "string \<Rightarrow> LogicType result" where
  "Char2Type val =
     (if val = ''and'' then Inr LogicAnd
      else if val = ''or'' then Inr LogicOr
      else Inl (Thrown ''Unsupported logic type.''))"

text \<open>\<^verbatim>\<open>CmpBool\<close> is an unscoped enumeration: it converts to an integer, and to true unless it is
  \<^verbatim>\<open>kFalse\<close>.\<close>

definition CmpBool_num :: "CmpBool \<Rightarrow> 32 word" where
  "CmpBool_num c = (case c of kFalse \<Rightarrow> 0 | kTrue \<Rightarrow> 1 | kNull \<Rightarrow> 2)"

definition CmpBool_holds :: "CmpBool \<Rightarrow> bool" where
  "CmpBool_holds c \<longleftrightarrow> c \<noteq> kFalse"

definition PerformComparison :: "string \<Rightarrow> Field \<Rightarrow> Field \<Rightarrow> CmpBool result" where
  "PerformComparison comp_type lhs rhs =
     (if comp_type = ''='' then CompareEquals lhs rhs
      else if comp_type = ''<>'' then CompareNotEquals lhs rhs
      else if comp_type = ''<'' then CompareLessThan lhs rhs
      else if comp_type = ''<='' then CompareLessThanEquals lhs rhs
      else if comp_type = ''>'' then CompareGreaterThan lhs rhs
      else if comp_type = ''>='' then CompareGreaterThanEquals lhs rhs
      else if comp_type = ''is'' then Inr (GetCmpBool (f_null lhs))
      else if comp_type = ''not'' then Inr (GetCmpBool (\<not> f_null lhs))
      else Inl (Thrown ''Unsupported comparison type''))"

text \<open>\<^verbatim>\<open>x.CompareEquals(Field(kTypeInt, 1))\<close> used as a condition: here and in the executors.\<close>

definition equals_one :: "Field \<Rightarrow> bool result" where
  "equals_one v =
     bind_result (Field_int kTypeInt 1) (\<lambda>one.
     bind_result (CompareEquals v one) (\<lambda>c. Inr (CmpBool_holds c)))"

definition GetFieldAsCmpBool :: "Field \<Rightarrow> CmpBool result" where
  "GetFieldAsCmpBool v =
     (if f_null v then Inr kNull
      else bind_result (equals_one v) (\<lambda>b. Inr (if b then kTrue else kFalse)))"

definition PerformComputation :: "LogicType \<Rightarrow> Field \<Rightarrow> Field \<Rightarrow> CmpBool result" where
  "PerformComputation logic_type lhs rhs =
     bind_result (GetFieldAsCmpBool lhs) (\<lambda>l.
     bind_result (GetFieldAsCmpBool rhs) (\<lambda>r.
     case logic_type of
       LogicAnd \<Rightarrow>
         if l = kFalse \<or> r = kFalse then Inr kFalse
         else if l = kTrue \<and> r = kTrue then Inr kTrue
         else Inr kNull
     | LogicOr \<Rightarrow>
         if l = kFalse \<and> r = kFalse then Inr kFalse
         else if l = kTrue \<or> r = kTrue then Inr kTrue
         else Inr kNull))"

text \<open>\<open>None\<close> is the null row the index scan passes when it evaluates a constant.\<close>

fun Evaluate :: "AbstractExpression \<Rightarrow> Row option \<Rightarrow> Field result" where
  "Evaluate (ColumnValueExpression row_idx col_idx t) row =
     (case row of
        None \<Rightarrow> Inl (OutOfBounds ''row'')
      | Some r \<Rightarrow> bind_result (GetField r col_idx) (\<lambda>f. Inr (Field_copy f)))"
| "Evaluate (ConstantValueExpression v) row = Inr (Field_copy v)"
| "Evaluate (ComparisonExpression l r comp_type) row =
     bind_result (Evaluate l row) (\<lambda>lhs.
     bind_result (Evaluate r row) (\<lambda>rhs.
     bind_result (PerformComparison comp_type lhs rhs) (\<lambda>c. Field_int kTypeInt (CmpBool_num c))))"
| "Evaluate (LogicExpression l r logic_type) row =
     bind_result (Evaluate l row) (\<lambda>lhs.
     bind_result (Evaluate r row) (\<lambda>rhs.
     bind_result (PerformComputation logic_type lhs rhs) (\<lambda>c. Field_int kTypeInt (CmpBool_num c))))"

fun EvaluateJoin :: "AbstractExpression \<Rightarrow> Row \<Rightarrow> Row \<Rightarrow> Field result" where
  "EvaluateJoin (ColumnValueExpression row_idx col_idx t) left_row right_row =
     (if row_idx = 0
      then bind_result (GetField left_row col_idx) (\<lambda>f. Inr (Field_copy f))
      else bind_result (GetField right_row col_idx) (\<lambda>f. Inr (Field_copy f)))"
| "EvaluateJoin (ConstantValueExpression v) left_row right_row = Inr (Field_copy v)"
| "EvaluateJoin (ComparisonExpression l r comp_type) left_row right_row =
     bind_result (EvaluateJoin l left_row right_row) (\<lambda>lhs.
     bind_result (EvaluateJoin r left_row right_row) (\<lambda>rhs.
     bind_result (PerformComparison comp_type lhs rhs) (\<lambda>c. Field_int kTypeInt (CmpBool_num c))))"
| "EvaluateJoin (LogicExpression l r logic_type) left_row right_row =
     bind_result (EvaluateJoin l left_row right_row) (\<lambda>lhs.
     bind_result (EvaluateJoin r left_row right_row) (\<lambda>rhs.
     bind_result (PerformComputation logic_type lhs rhs) (\<lambda>c. Field_int kTypeInt (CmpBool_num c))))"

text \<open>How the scan executors test a row: \<^verbatim>\<open>predicate->Evaluate(row).CompareEquals(Field(kTypeInt, 1))\<close>.\<close>

definition keeps_row :: "AbstractExpression \<Rightarrow> Row \<Rightarrow> bool result" where
  "keeps_row predicate r = bind_result (Evaluate predicate (Some r)) equals_one"

section \<open>Three-valued truth\<close>

text \<open>\<open>None\<close> is unknown.\<close>

fun kleene :: "LogicType \<Rightarrow> bool option \<Rightarrow> bool option \<Rightarrow> bool option" where
  "kleene LogicAnd (Some False) _ = Some False"
| "kleene LogicAnd _ (Some False) = Some False"
| "kleene LogicAnd (Some True) (Some True) = Some True"
| "kleene LogicOr (Some True) _ = Some True"
| "kleene LogicOr _ (Some True) = Some True"
| "kleene LogicOr (Some False) (Some False) = Some False"
| "kleene _ _ _ = None"

definition val_relation :: "string \<Rightarrow> Val \<Rightarrow> Val \<Rightarrow> bool" where
  "val_relation comp_type x y \<longleftrightarrow>
     (comp_type = ''='' \<and> val_same x y) \<or> (comp_type = ''<>'' \<and> \<not> val_same x y) \<or>
     (comp_type = ''<'' \<and> val_less x y) \<or> (comp_type = ''<='' \<and> \<not> val_less y x) \<or>
     (comp_type = ''>'' \<and> val_less y x) \<or> (comp_type = ''>='' \<and> \<not> val_less x y)"

definition field_truth :: "string \<Rightarrow> Field \<Rightarrow> Field \<Rightarrow> bool option" where
  "field_truth comp_type x y =
     (if comp_type = ''is'' then Some (f_null x)
      else if comp_type = ''not'' then Some (\<not> f_null x)
      else if f_null x \<or> f_null y then None
      else Some (val_relation comp_type (f_value x) (f_value y)))"

fun operand :: "AbstractExpression \<Rightarrow> Row \<Rightarrow> Field" where
  "operand (ColumnValueExpression row_idx col_idx t) r = row_fields r ! col_idx"
| "operand (ConstantValueExpression v) r = v"
| "operand _ r = Field_null kTypeInt"

fun sql_truth :: "AbstractExpression \<Rightarrow> Row \<Rightarrow> bool option" where
  "sql_truth (ComparisonExpression l r comp_type) row = field_truth comp_type (operand l row) (operand r row)"
| "sql_truth (LogicExpression l r logic_type) row = kleene logic_type (sql_truth l row) (sql_truth r row)"
| "sql_truth _ row = None"

section \<open>Typing\<close>

definition comp_types :: "string list" where
  "comp_types = [''='', ''<>'', ''<'', ''<='', ''>'', ''>='', ''is'', ''not'']"

text \<open>A field a comparison can read: well formed, and no NaN.\<close>

definition field_plain :: "Field \<Rightarrow> bool" where
  "field_plain f \<longleftrightarrow> wf_field f \<and> (\<not> f_null f \<longrightarrow> comparable f)"

text \<open>A predicate over columns of the given types.\<close>

fun predicate_ok :: "TypeId list \<Rightarrow> AbstractExpression \<Rightarrow> bool" where
  "predicate_ok ts (ComparisonExpression (ColumnValueExpression row_idx i t) (ConstantValueExpression v) comp_type) \<longleftrightarrow>
     i < length ts \<and> ts ! i = t \<and> f_type v = t \<and> field_plain v \<and> comp_type \<in> set comp_types"
| "predicate_ok ts (LogicExpression l r logic_type) \<longleftrightarrow> predicate_ok ts l \<and> predicate_ok ts r"
| "predicate_ok ts _ \<longleftrightarrow> False"

definition row_typed :: "TypeId list \<Rightarrow> Row \<Rightarrow> bool" where
  "row_typed ts r \<longleftrightarrow> map f_type (row_fields r) = ts \<and> (\<forall>f \<in> set (row_fields r). field_plain f)"

abbreviation int_field :: "32 word \<Rightarrow> Field" where
  "int_field i \<equiv> \<lparr>f_value = Integer i, f_type = kTypeInt, f_len = 4, f_null = False, f_manage = False\<rparr>"

lemma Field_copy_wf: "wf_field f \<Longrightarrow> Field_copy f = f"
  by (cases "f_value f") (auto simp: Field_copy_def wf_field_def)

lemma equals_one_int [simp]:
  "equals_one (int_field i) = Inr (i = 1)"
  using sint_inject [of i "1 :: 32 word"]
  by (simp add: equals_one_def Field_int_def cmp_defs compare_with_def CheckComparable_def CmpBool_holds_def GetCmpBool_def)

definition truth_num :: "bool option \<Rightarrow> CmpBool" where
  "truth_num v = (case v of None \<Rightarrow> kNull | Some b \<Rightarrow> GetCmpBool b)"

lemma truth_num_simps [simp]: "CmpBool_num c = 1 \<longleftrightarrow> c = kTrue" "truth_num v = kTrue \<longleftrightarrow> v = Some True"
  by (auto simp: CmpBool_num_def truth_num_def GetCmpBool_def split: CmpBool.split option.split)

lemma compare_null:
  assumes "wf_field x" "f_type x = f_type y" "f_null x \<or> f_null y"
  shows "CompareEquals x y = Inr kNull" "CompareNotEquals x y = Inr kNull" "CompareLessThan x y = Inr kNull"
    "CompareLessThanEquals x y = Inr kNull" "CompareGreaterThan x y = Inr kNull" "CompareGreaterThanEquals x y = Inr kNull"
  using assms by (auto simp: cmp_defs compare_with_def CheckComparable_def wf_field_def split: TypeId.split)

lemma PerformComparison_truth:
  assumes "field_plain x" "field_plain y" "f_type x = f_type y" "comp_type \<in> set comp_types"
  shows "PerformComparison comp_type x y = Inr (truth_num (field_truth comp_type x y))"
proof (cases "f_null x \<or> f_null y")
  case True
  then show ?thesis using assms compare_null [of x y]
    by (auto simp: PerformComparison_def field_truth_def truth_num_def comp_types_def field_plain_def)
next
  case False
  then have "comparable x" "comparable y" using assms(1,2) by (simp_all add: field_plain_def)
  then show ?thesis using False assms(4) field_compare_order [of x y, OF _ _ assms(3)]
    by (auto simp: PerformComparison_def field_truth_def truth_num_def comp_types_def val_relation_def)
qed

lemma typed_operand:
  assumes "row_typed ts r" "i < length ts"
  shows "GetField r i = Inr (row_fields r ! i)" "field_plain (row_fields r ! i)" "f_type (row_fields r ! i) = ts ! i"
    "Field_copy (row_fields r ! i) = row_fields r ! i"
proof -
  have "length (row_fields r) = length ts" using assms(1) by (metis length_map row_typed_def)
  then show "GetField r i = Inr (row_fields r ! i)" "field_plain (row_fields r ! i)" "f_type (row_fields r ! i) = ts ! i"
    using assms by (auto simp: GetField_def row_typed_def)
  then show "Field_copy (row_fields r ! i) = row_fields r ! i" by (simp add: Field_copy_wf field_plain_def)
qed

lemma kleene_True:
  "kleene LogicAnd x y = Some True \<longleftrightarrow> x = Some True \<and> y = Some True"
  "kleene LogicOr x y = Some True \<longleftrightarrow> x = Some True \<or> y = Some True"
  by (cases "(LogicAnd, x, y)" rule: kleene.cases; simp) (cases "(LogicOr, x, y)" rule: kleene.cases; simp)

text \<open>A typed predicate evaluates to an integer field that is 1 exactly when the predicate is true.\<close>

lemma predicate_evaluates:
  assumes "row_typed ts r" "predicate_ok ts p"
  shows "\<exists>c. Evaluate p (Some r) = Inr (int_field (CmpBool_num c)) \<and>
     (c = kTrue \<longleftrightarrow> sql_truth p r = Some True)"
  using assms
proof (induction ts p rule: predicate_ok.induct)
  case (1 ts row_idx i t v comp_type)
  then have v: "field_plain v" "f_type v = ts ! i" "comp_type \<in> set comp_types" "i < length ts" "Field_copy v = v"
    by (auto simp: Field_copy_wf field_plain_def)
  note f = typed_operand [OF 1(1) v(4)]
  have "PerformComparison comp_type (row_fields r ! i) v = Inr (truth_num (field_truth comp_type (row_fields r ! i) v))"
    using v f by (intro PerformComparison_truth) simp_all
  then show ?case using v f
    by (intro exI [of _ "truth_num (field_truth comp_type (row_fields r ! i) v)"]) (simp add: Field_int_def)
next
  case (2 ts l r' logic_type)
  then obtain c d where
    "Evaluate l (Some r) = Inr (int_field (CmpBool_num c))"
    "Evaluate r' (Some r) = Inr (int_field (CmpBool_num d))"
    "c = kTrue \<longleftrightarrow> sql_truth l r = Some True" "d = kTrue \<longleftrightarrow> sql_truth r' r = Some True"
    by auto
  then show ?case
    by (cases logic_type) (fastforce simp: PerformComputation_def GetFieldAsCmpBool_def Field_int_def kleene_True)+
qed simp_all

text \<open>C40. On a row that matches the column types, a bound predicate (comparisons of a column with a constant of its
  type, joined by \<^verbatim>\<open>and\<close> and \<^verbatim>\<open>or\<close>) evaluates without failing, and the scan executors keep the row exactly when
  the three-valued truth of the predicate is true: a comparison with a null is unknown, and an unknown part
  never lets a row through.\<close>

theorem predicate_keeps_true_rows:
  assumes "row_typed ts r" "predicate_ok ts p"
  shows "keeps_row p r = Inr (sql_truth p r = Some True)"
  using predicate_evaluates [OF assms] by (auto simp: keeps_row_def)

definition example_predicate :: AbstractExpression where
  "example_predicate = LogicExpression
     (ComparisonExpression (ColumnValueExpression 0 0 kTypeInt) (ConstantValueExpression
        (int_field 5)) ''>='')
     (ComparisonExpression (ColumnValueExpression 0 1 kTypeChar) (ConstantValueExpression (Field_null kTypeChar)) ''='')
     LogicOr"

theorem predicate_keeps_true_rows_witness:
  "\<exists>r. row_typed [kTypeInt, kTypeChar] r \<and> predicate_ok [kTypeInt, kTypeChar] example_predicate \<and>
     keeps_row example_predicate r = Inr True"
proof -
  let ?r = "\<lparr>row_rid = INVALID_ROWID, row_fields =
     [(int_field 7), Field_null kTypeChar]\<rparr>"
  have "row_typed [kTypeInt, kTypeChar] ?r" "predicate_ok [kTypeInt, kTypeChar] example_predicate"
    by (simp_all add: row_typed_def example_predicate_def field_plain_def wf_field_def comparable_def Field_null_def
        comp_types_def)
  moreover from predicate_keeps_true_rows [OF this] have "keeps_row example_predicate ?r = Inr True"
    by (simp add: example_predicate_def field_truth_def val_relation_def Field_null_def)
  ultimately show ?thesis by blast
qed

end
