(* ===== verification/Catalog_Meta.thy ===== *)
theory Catalog_Meta
  imports Schema_Codec
begin

text \<open>
  What the catalog keeps on disk (\<^verbatim>\<open>src/include/catalog/\<close>, \<^verbatim>\<open>src/catalog/\<close>): the catalog's own page with the metadata
  page of every table and index, and one page of metadata per table and per index. A \<^verbatim>\<open>std::map\<close> is an
  association list in key order.
\<close>

section \<open>Ordered maps\<close>

fun omap_set :: "'k::linorder \<Rightarrow> 'v \<Rightarrow> ('k \<times> 'v) list \<Rightarrow> ('k \<times> 'v) list" where
  "omap_set k v [] = [(k, v)]"
| "omap_set k v ((l, w) # m) =
     (if k < l then (k, v) # (l, w) # m else if k = l then (k, v) # m else (l, w) # omap_set k v m)"

definition omap_emplace :: "'k::linorder \<Rightarrow> 'v \<Rightarrow> ('k \<times> 'v) list \<Rightarrow> ('k \<times> 'v) list" where
  "omap_emplace k v m = (if k \<in> fst ` set m then m else omap_set k v m)"

definition omap_erase :: "'k \<Rightarrow> ('k \<times> 'v) list \<Rightarrow> ('k \<times> 'v) list" where
  "omap_erase k m = filter (\<lambda>e. fst e \<noteq> k) m"

definition wf_omap :: "('k::linorder \<times> 'v) list \<Rightarrow> bool" where
  "wf_omap m \<longleftrightarrow> sorted_wrt (<) (map fst m)"

lemma omap_set_of [simp]: "map_of (omap_set k v m) = (map_of m)(k \<mapsto> v)"
  by (induction k v m rule: omap_set.induct) (auto simp: fun_eq_iff)

lemma omap_keys [simp]: "fst ` set (omap_set k v m) = insert k (fst ` set m)"
  by (induction k v m rule: omap_set.induct) auto

lemma wf_omap_set: "wf_omap m \<Longrightarrow> wf_omap (omap_set k v m)"
proof (induction k v m rule: omap_set.induct)
  case (2 k v l w m)
  have keys: "set (map fst (omap_set k v m)) = insert k (set (map fst m))" using omap_keys [of k v m] by simp
  show ?case using 2 keys by (fastforce simp: wf_omap_def)
qed (simp add: wf_omap_def)

lemma wf_omap_erase: "wf_omap m \<Longrightarrow> wf_omap (omap_erase k m)"
  by (induction m) (auto simp: wf_omap_def omap_erase_def)

lemma omap_erase_of: "map_of (omap_erase k m) = (map_of m)(k := None)"
  by (induction m) (auto simp: omap_erase_def fun_eq_iff)

lemma wf_omap_Nil [simp]: "wf_omap []"
  by (simp add: wf_omap_def)

lemma wf_omap_distinct: "wf_omap m \<Longrightarrow> distinct (map fst m)"
  by (simp add: wf_omap_def sorted_wrt_iff_nth_less distinct_conv_nth) (metis linorder_neqE_nat order_less_irrefl)

lemma omap_set_last: "(\<And>l. l \<in> fst ` set m \<Longrightarrow> l < k) \<Longrightarrow> omap_set k v m = m @ [(k, v)]"
  by (induction m) (force simp: not_less_iff_gr_or_eq)+

text \<open>Reading the entries back one by one, in order, rebuilds the map.\<close>

lemma emplace_all:
  "wf_omap (m @ es) \<Longrightarrow> foldl (\<lambda>m (k, v). omap_emplace k v m) m es = m @ es"
proof (induction es arbitrary: m)
  case (Cons e es)
  obtain k v where e: "e = (k, v)" by (cases e)
  have "l < k" if "l \<in> fst ` set m" for l using Cons.prems that e by (auto simp: wf_omap_def sorted_wrt_append)
  then have "omap_emplace k v m = m @ [(k, v)]"
    using omap_set_last [of m k v] by (auto simp: omap_emplace_def)
  with Cons e show ?case by simp
qed simp

section \<open>The catalog page\<close>

record CatalogMeta =
  table_meta_pages :: "(table_id_t \<times> page_id_t) list"
  index_meta_pages :: "(index_id_t \<times> page_id_t) list"

definition CATALOG_METADATA_MAGIC_NUM :: "32 word" where
  "CATALOG_METADATA_MAGIC_NUM = 89849"

definition CatalogMeta_NewInstance :: CatalogMeta where
  "CatalogMeta_NewInstance = \<lparr>table_meta_pages = [], index_meta_pages = []\<rparr>"

definition GetNextTableId :: "CatalogMeta \<Rightarrow> table_id_t" where
  "GetNextTableId m = (if length (table_meta_pages m) = 0 then 0 else fst (last (table_meta_pages m)) + 1)"

definition GetNextIndexId :: "CatalogMeta \<Rightarrow> index_id_t" where
  "GetNextIndexId m = (if length (index_meta_pages m) = 0 then 0 else fst (last (index_meta_pages m)) + 1)"

definition catalog_meta_GetSerializedSize :: "CatalogMeta \<Rightarrow> nat" where
  "catalog_meta_GetSerializedSize m =
     4 + 4 + 4 + length (table_meta_pages m) * 8 + length (index_meta_pages m) * 8"

text \<open>One entry of either map: an identifier and a page number.\<close>

definition entry_SerializeTo :: "32 word \<times> page_id_t \<Rightarrow> byte list \<Rightarrow> nat \<Rightarrow> (byte list \<times> nat) result" where
  "entry_SerializeTo e buf off = Inr (wr32 (wr32 buf off (fst e)) (off + 4) (snd e), 8)"

definition entry_DeserializeFrom :: "unit \<Rightarrow> byte list \<Rightarrow> nat \<Rightarrow> ((32 word \<times> page_id_t) \<times> nat) result" where
  "entry_DeserializeFrom _ buf off = Inr ((rd32 buf off, rd32 buf (off + 4)), 8)"

definition catalog_meta_SerializeTo :: "CatalogMeta \<Rightarrow> byte list \<Rightarrow> byte list result" where
  "catalog_meta_SerializeTo m buf =
     ASSERT (catalog_meta_GetSerializedSize m \<le> PAGE_SIZE) ''Failed to serialize catalog metadata to disk.''
       (let buf = wr32 buf 0 CATALOG_METADATA_MAGIC_NUM;
            buf = wr32 buf 4 (of_nat (length (table_meta_pages m)));
            buf = wr32 buf 8 (of_nat (length (index_meta_pages m)))
        in bind_result (ser_seq entry_SerializeTo (table_meta_pages m) buf 12) (\<lambda>(buf, off).
           bind_result (ser_seq entry_SerializeTo (index_meta_pages m) buf off) (\<lambda>(buf, off). Inr buf)))"

definition catalog_meta_DeserializeFrom :: "byte list \<Rightarrow> CatalogMeta result" where
  "catalog_meta_DeserializeFrom buf =
     ASSERT (rd32 buf 0 = CATALOG_METADATA_MAGIC_NUM) ''Failed to deserialize catalog metadata from disk.''
       (let table_nums = unat (rd32 buf 4);
            index_nums = unat (rd32 buf 8)
        in bind_result (des_seq entry_DeserializeFrom (replicate table_nums ()) buf 12) (\<lambda>(tables, off).
           bind_result (des_seq entry_DeserializeFrom (replicate index_nums ()) buf off) (\<lambda>(indexes, off).
           Inr \<lparr>table_meta_pages = foldl (\<lambda>m (k, v). omap_emplace k v m) [] tables,
                index_meta_pages = foldl (\<lambda>m (k, v). omap_emplace k v m) [] indexes\<rparr>)))"

definition entry_enc :: "32 word \<times> page_id_t \<Rightarrow> byte list" where
  "entry_enc e = le_enc 4 (fst e) @ le_enc 4 (snd e)"

lemma length_entry_enc [simp]: "length (entry_enc e) = 8"
  by (simp add: entry_enc_def)

lemma length_entries_enc [simp]: "length (concat (map entry_enc es)) = 8 * length es"
  by (induction es) simp_all

interpretation entry: codec entry_SerializeTo entry_DeserializeFrom "\<lambda>_. Inr 8" "\<lambda>_ _. True" entry_enc "\<lambda>e. e"
proof unfold_locales
  fix off :: nat and buf :: "byte list" and x :: "32 word \<times> page_id_t"
  assume room: "off + length (entry_enc x) \<le> length buf"
  then show "entry_SerializeTo x buf off = Inr (wr buf off (entry_enc x), length (entry_enc x))"
    by (simp add: entry_SerializeTo_def wr32_def wr_wr_append' entry_enc_def)
  fix t
  assume rd: "rd (length (entry_enc x)) buf off = entry_enc x"
  have "rd32 buf off = fst x" using rd32_slice [OF rd room, of 0 "fst x"] by (simp add: entry_enc_def rd_def)
  moreover have "rd32 buf (off + 4) = snd x" by (rule rd32_slice [OF rd room]) (simp_all add: entry_enc_def rd_def)
  ultimately show "entry_DeserializeFrom t buf off = Inr (x, length (entry_enc x))"
    by (simp add: entry_DeserializeFrom_def)
qed simp

definition wf_catalog_meta :: "CatalogMeta \<Rightarrow> bool" where
  "wf_catalog_meta m \<longleftrightarrow> wf_omap (table_meta_pages m) \<and> wf_omap (index_meta_pages m) \<and>
     catalog_meta_GetSerializedSize m \<le> PAGE_SIZE"

definition catalog_meta_enc :: "CatalogMeta \<Rightarrow> byte list" where
  "catalog_meta_enc m = (le_enc 4 CATALOG_METADATA_MAGIC_NUM @ le_enc 4 (of_nat (length (table_meta_pages m)) :: 32 word) @
     le_enc 4 (of_nat (length (index_meta_pages m)) :: 32 word)) @
     concat (map entry_enc (table_meta_pages m)) @ concat (map entry_enc (index_meta_pages m))"

lemma length_catalog_meta_enc: "length (catalog_meta_enc m) = catalog_meta_GetSerializedSize m"
  by (simp add: catalog_meta_enc_def catalog_meta_GetSerializedSize_def)

lemma catalog_meta_ser_enc:
  assumes "wf_catalog_meta m" "length buf = PAGE_SIZE"
  shows "catalog_meta_SerializeTo m buf = Inr (wr buf 0 (catalog_meta_enc m))"
proof -
  let ?t = "table_meta_pages m" and ?i = "index_meta_pages m"
  let ?h = "le_enc 4 CATALOG_METADATA_MAGIC_NUM @ le_enc 4 (of_nat (length ?t) :: 32 word) @ le_enc 4 (of_nat (length ?i) :: 32 word)"
  have size: "12 + 8 * length ?t + 8 * length ?i \<le> length buf"
    using assms by (simp add: wf_catalog_meta_def catalog_meta_GetSerializedSize_def)
  have head: "wr32 (wr32 (wr32 buf 0 CATALOG_METADATA_MAGIC_NUM) 4 (of_nat (length ?t))) 8 (of_nat (length ?i)) = wr buf 0 ?h"
    using size by (simp add: wr32_def wr_wr_append')
  have ok: "list_all2 (\<lambda>_ _. True) (replicate (length es) ()) es" for es :: "(32 word \<times> page_id_t) list"
    by (simp add: list_all2_conv_all_nth)
  have t: "ser_seq entry_SerializeTo ?t (wr buf 0 ?h) 12 =
      Inr (wr (wr buf 0 ?h) 12 (concat (map entry_enc ?t)), 12 + 8 * length ?t)"
    using entry.seq_ser [OF ok, of 12 ?t "wr buf 0 ?h"] size by simp
  let ?b = "wr (wr buf 0 ?h) 12 (concat (map entry_enc ?t))"
  have i: "ser_seq entry_SerializeTo ?i ?b (12 + 8 * length ?t) =
      Inr (wr ?b (12 + 8 * length ?t) (concat (map entry_enc ?i)), 12 + 8 * length ?t + 8 * length ?i)"
    using entry.seq_ser [OF ok, of "12 + 8 * length ?t" ?i ?b] size by simp
  have "wr ?b (12 + 8 * length ?t) (concat (map entry_enc ?i)) =
      wr buf 0 (catalog_meta_enc m)"
    using size by (simp add: wr_wr_append' catalog_meta_enc_def)
  then show ?thesis
    using assms(1) unfolding catalog_meta_SerializeTo_def Let_def head t
    by (simp add: wf_catalog_meta_def i [simplified])
qed

lemma catalog_meta_des_enc:
  assumes "wf_catalog_meta m" "length buf = PAGE_SIZE" "rd (length (catalog_meta_enc m)) buf 0 = catalog_meta_enc m"
  shows "catalog_meta_DeserializeFrom buf = Inr m"
proof -
  let ?t = "table_meta_pages m" and ?i = "index_meta_pages m"
  have size: "12 + 8 * length ?t + 8 * length ?i \<le> length buf" "length buf = 4096"
    using assms by (simp_all add: wf_catalog_meta_def catalog_meta_GetSerializedSize_def PAGE_SIZE_def)
  have room: "0 + length (catalog_meta_enc m) \<le> length buf"
    using size by (simp add: length_catalog_meta_enc catalog_meta_GetSerializedSize_def)
  have len: "length (catalog_meta_enc m) = 12 + 8 * length ?t + 8 * length ?i"
    by (simp add: length_catalog_meta_enc catalog_meta_GetSerializedSize_def)
  have f32: "rd32 buf i = w" if "rd 4 (catalog_meta_enc m) i = le_enc 4 w" "i + 4 \<le> 12" for i w
    using rd32_slice [OF assms(3) room, of i w] that len by simp
  have h: "rd32 buf 0 = CATALOG_METADATA_MAGIC_NUM" "rd32 buf 4 = of_nat (length ?t)" "rd32 buf 8 = of_nat (length ?i)"
    by (rule f32, simp_all add: catalog_meta_enc_def rd_def)+
  have n: "unat (of_nat (length ?t) :: 32 word) = length ?t" "unat (of_nat (length ?i) :: 32 word) = length ?i"
    using size by (simp_all add: unat_of_nat_small)
  have ok: "list_all2 (\<lambda>_ _. True) (replicate (length es) ()) es" for es :: "(32 word \<times> page_id_t) list"
    by (simp add: list_all2_conv_all_nth)
  have "rd (8 * length ?t) buf (0 + 12) = concat (map entry_enc ?t)"
    using rd_slice [OF assms(3) room, of 12 "8 * length ?t"] len by (simp add: catalog_meta_enc_def rd_def)
  then have t: "des_seq entry_DeserializeFrom (replicate (length ?t) ()) buf 12 = Inr (?t, 12 + 8 * length ?t)"
    using entry.seq_des [OF ok, of 12 ?t buf] size by simp
  have "rd (8 * length ?i) buf (0 + (12 + 8 * length ?t)) = concat (map entry_enc ?i)"
    using rd_slice [OF assms(3) room, of "12 + 8 * length ?t" "8 * length ?i"] len by (simp add: catalog_meta_enc_def rd_def)
  then have i: "des_seq entry_DeserializeFrom (replicate (length ?i) ()) buf (12 + 8 * length ?t) =
      Inr (?i, 12 + 8 * length ?t + 8 * length ?i)"
    using entry.seq_des [OF ok, of "12 + 8 * length ?t" ?i buf] size by simp
  show ?thesis
    using assms(1) by (simp add: catalog_meta_DeserializeFrom_def h n t i emplace_all wf_catalog_meta_def)
qed

section \<open>Table metadata\<close>

record TableMetadata =
  tm_table_id :: table_id_t
  tm_table_name :: "byte list"
  tm_root_page_id :: page_id_t
  tm_schema :: Schema

definition TABLE_METADATA_MAGIC_NUM :: "32 word" where
  "TABLE_METADATA_MAGIC_NUM = 344528"

definition TableMetadata_Create :: "table_id_t \<Rightarrow> byte list \<Rightarrow> page_id_t \<Rightarrow> Schema \<Rightarrow> TableMetadata" where
  "TableMetadata_Create table_id table_name root_page_id schema =
     \<lparr>tm_table_id = table_id, tm_table_name = table_name, tm_root_page_id = root_page_id, tm_schema = schema\<rparr>"

definition table_meta_GetSerializedSize :: "TableMetadata \<Rightarrow> nat result" where
  "table_meta_GetSerializedSize m =
     bind_result (schema_GetSerializedSize (tm_schema m)) (\<lambda>n. Inr (4 + 4 + (4 + length (tm_table_name m)) + 4 + n))"

definition table_meta_SerializeTo :: "TableMetadata \<Rightarrow> byte list \<Rightarrow> nat \<Rightarrow> (byte list \<times> nat) result" where
  "table_meta_SerializeTo m buf off =
     bind_result (table_meta_GetSerializedSize m) (\<lambda>ofs.
     ASSERT (ofs \<le> PAGE_SIZE) ''Failed to serialize table info.''
       (let n = length (tm_table_name m);
            buf = wr32 buf off TABLE_METADATA_MAGIC_NUM;
            buf = wr32 buf (off + 4) (tm_table_id m);
            buf = wr32 buf (off + 8) (of_nat n);
            buf = wr buf (off + 12) (tm_table_name m);
            buf = wr32 buf (off + 12 + n) (tm_root_page_id m)
        in bind_result (schema_SerializeTo (tm_schema m) buf (off + 16 + n)) (\<lambda>(buf, k).
           ASSERT (16 + n + k = ofs) ''Unexpected serialize size.'' (Inr (buf, ofs)))))"

definition table_meta_DeserializeFrom :: "unit \<Rightarrow> byte list \<Rightarrow> nat \<Rightarrow> (TableMetadata \<times> nat) result" where
  "table_meta_DeserializeFrom _ buf off =
     ASSERT (rd32 buf off = TABLE_METADATA_MAGIC_NUM) ''Failed to deserialize table info.''
       (let table_id = rd32 buf (off + 4);
            len = unat (rd32 buf (off + 8));
            table_name = rd len buf (off + 12);
            root_page_id = rd32 buf (off + 12 + len)
        in bind_result (schema_DeserializeFrom () buf (off + 16 + len)) (\<lambda>(schema, n).
           Inr (\<lparr>tm_table_id = table_id, tm_table_name = table_name, tm_root_page_id = root_page_id, tm_schema = schema\<rparr>,
                16 + len + n)))"

definition table_meta_enc :: "TableMetadata \<Rightarrow> byte list" where
  "table_meta_enc m = (le_enc 4 TABLE_METADATA_MAGIC_NUM @ le_enc 4 (tm_table_id m) @
     le_enc 4 (of_nat (length (tm_table_name m)) :: 32 word) @ tm_table_name m @ le_enc 4 (tm_root_page_id m)) @
     schema_enc (tm_schema m)"

definition table_meta_ok :: "unit \<Rightarrow> TableMetadata \<Rightarrow> bool" where
  "table_meta_ok _ m \<longleftrightarrow> schema_ok () (tm_schema m) \<and> length (table_meta_enc m) \<le> PAGE_SIZE"

lemma table_meta_size_enc: "schema_ok () (tm_schema m) \<Longrightarrow> table_meta_GetSerializedSize m = Inr (length (table_meta_enc m))"
  by (simp add: table_meta_GetSerializedSize_def table_meta_enc_def schema_size_enc)

lemma table_meta_ser_enc:
  assumes "table_meta_ok u m" "off + length (table_meta_enc m) \<le> length buf"
  shows "table_meta_SerializeTo m buf off = Inr (wr buf off (table_meta_enc m), length (table_meta_enc m))"
proof -
  let ?n = "length (tm_table_name m)"
  let ?h = "le_enc 4 TABLE_METADATA_MAGIC_NUM @ le_enc 4 (tm_table_id m) @
     le_enc 4 (of_nat ?n :: 32 word) @ tm_table_name m @ le_enc 4 (tm_root_page_id m)"
  have len: "length ?h = 16 + ?n" "length (table_meta_enc m) = 16 + ?n + length (schema_enc (tm_schema m))"
    by (simp_all add: table_meta_enc_def)
  have sz: "table_meta_GetSerializedSize m = Inr (length (table_meta_enc m))"
    using assms(1) by (intro table_meta_size_enc) (simp add: table_meta_ok_def)
  have head: "wr32 (wr (wr32 (wr32 (wr32 buf off TABLE_METADATA_MAGIC_NUM) (off + 4) (tm_table_id m)) (off + 8) (of_nat ?n))
      (off + 12) (tm_table_name m)) (off + 12 + ?n) (tm_root_page_id m) = wr buf off ?h"
    using assms(2) by (simp add: wr32_def wr_wr_append' len)
  have s: "schema_SerializeTo (tm_schema m) (wr buf off ?h) (off + 16 + ?n) =
      Inr (wr (wr buf off ?h) (off + 16 + ?n) (schema_enc (tm_schema m)), length (schema_enc (tm_schema m)))"
    using assms by (intro schema_ser_enc [of u]) (simp_all add: table_meta_ok_def len schema_ok_def)
  have w: "wr (wr buf off ?h) (off + 16 + ?n) (schema_enc (tm_schema m)) = wr buf off (table_meta_enc m)"
    unfolding table_meta_enc_def using assms(2) len by (intro wr_wr_append') simp_all
  show ?thesis
    unfolding table_meta_SerializeTo_def sz bind_result_simps Let_def head s w
    using assms(1) len(2) by (simp add: table_meta_ok_def)
qed

lemma table_meta_des_enc:
  assumes ok: "table_meta_ok u m" and room: "off + length (table_meta_enc m) \<le> length buf"
    and rd: "rd (length (table_meta_enc m)) buf off = table_meta_enc m"
  shows "table_meta_DeserializeFrom v buf off = Inr (m, length (table_meta_enc m))"
proof -
  let ?n = "length (tm_table_name m)"
  have len: "length (table_meta_enc m) = 16 + ?n + length (schema_enc (tm_schema m))" by (simp add: table_meta_enc_def)
  have n: "unat (of_nat ?n :: 32 word) = ?n"
    using ok len by (simp add: table_meta_ok_def PAGE_SIZE_def unat_of_nat_small)
  note f32 = rd32_slice [OF rd room]
  have 1: "rd32 buf (off + 0) = TABLE_METADATA_MAGIC_NUM" by (rule f32) (simp_all add: table_meta_enc_def rd_def)
  have 2: "rd32 buf (off + 4) = tm_table_id m" by (rule f32) (simp_all add: table_meta_enc_def rd_def)
  have 3: "rd32 buf (off + 8) = of_nat ?n" by (rule f32) (simp_all add: table_meta_enc_def rd_def)
  have 4: "rd ?n buf (off + 12) = tm_table_name m"
    using rd_slice [OF rd room, of 12 ?n] len by (simp add: table_meta_enc_def rd_def)
  have 5: "rd32 buf (off + (12 + ?n)) = tm_root_page_id m" by (rule f32) (simp_all add: table_meta_enc_def rd_def)
  have "rd (length (schema_enc (tm_schema m))) buf (off + (16 + ?n)) = schema_enc (tm_schema m)"
    using rd_slice [OF rd room, of "16 + ?n" "length (schema_enc (tm_schema m))"] len by (simp add: table_meta_enc_def rd_def)
  then have 6: "schema_DeserializeFrom () buf (off + (16 + ?n)) = Inr (tm_schema m, length (schema_enc (tm_schema m)))"
    using ok room len by (intro schema_des_enc [of "()"]) (simp_all add: table_meta_ok_def)
  show ?thesis
    using 1 2 3 4 5 [folded add.assoc] 6 [folded add.assoc] n len by (simp add: table_meta_DeserializeFrom_def)
qed

interpretation table_meta: codec table_meta_SerializeTo table_meta_DeserializeFrom table_meta_GetSerializedSize table_meta_ok
  table_meta_enc "\<lambda>m. m"
  by unfold_locales (simp_all add: table_meta_ser_enc table_meta_des_enc table_meta_size_enc table_meta_ok_def)

section \<open>Index metadata\<close>

record IndexMetadata =
  im_index_id :: index_id_t
  im_index_name :: "byte list"
  im_table_id :: table_id_t
  im_key_map :: "32 word list"

definition INDEX_METADATA_MAGIC_NUM :: "32 word" where
  "INDEX_METADATA_MAGIC_NUM = 344528"

definition IndexMetadata_Create :: "index_id_t \<Rightarrow> byte list \<Rightarrow> table_id_t \<Rightarrow> 32 word list \<Rightarrow> IndexMetadata" where
  "IndexMetadata_Create index_id index_name table_id key_map =
     \<lparr>im_index_id = index_id, im_index_name = index_name, im_table_id = table_id, im_key_map = key_map\<rparr>"

definition index_meta_GetSerializedSize :: "IndexMetadata \<Rightarrow> nat result" where
  "index_meta_GetSerializedSize m = Inr (4 + 4 + (4 + length (im_index_name m)) + 4 + 4 + length (im_key_map m) * 4)"

definition word_SerializeTo :: "32 word \<Rightarrow> byte list \<Rightarrow> nat \<Rightarrow> (byte list \<times> nat) result" where
  "word_SerializeTo w buf off = Inr (wr32 buf off w, 4)"

definition word_DeserializeFrom :: "unit \<Rightarrow> byte list \<Rightarrow> nat \<Rightarrow> (32 word \<times> nat) result" where
  "word_DeserializeFrom _ buf off = Inr (rd32 buf off, 4)"

definition index_meta_SerializeTo :: "IndexMetadata \<Rightarrow> byte list \<Rightarrow> nat \<Rightarrow> (byte list \<times> nat) result" where
  "index_meta_SerializeTo m buf off =
     bind_result (index_meta_GetSerializedSize m) (\<lambda>ofs.
     ASSERT (ofs \<le> PAGE_SIZE) ''Failed to serialize index info.''
       (let n = length (im_index_name m);
            buf = wr32 buf off INDEX_METADATA_MAGIC_NUM;
            buf = wr32 buf (off + 4) (im_index_id m);
            buf = wr32 buf (off + 8) (of_nat n);
            buf = wr buf (off + 12) (im_index_name m);
            buf = wr32 buf (off + 12 + n) (im_table_id m);
            buf = wr32 buf (off + 16 + n) (of_nat (length (im_key_map m)))
        in bind_result (ser_seq word_SerializeTo (im_key_map m) buf (off + 20 + n)) (\<lambda>(buf, stop).
           ASSERT (stop - off = ofs) ''Unexpected serialize size.'' (Inr (buf, ofs)))))"

definition index_meta_DeserializeFrom :: "unit \<Rightarrow> byte list \<Rightarrow> nat \<Rightarrow> (IndexMetadata \<times> nat) result" where
  "index_meta_DeserializeFrom _ buf off =
     ASSERT (rd32 buf off = INDEX_METADATA_MAGIC_NUM) ''Failed to deserialize index info.''
       (let index_id = rd32 buf (off + 4);
            len = unat (rd32 buf (off + 8));
            index_name = rd len buf (off + 12);
            table_id = rd32 buf (off + 12 + len);
            index_key_count = unat (rd32 buf (off + 16 + len))
        in bind_result (des_seq word_DeserializeFrom (replicate index_key_count ()) buf (off + 20 + len)) (\<lambda>(key_map, stop).
           Inr (\<lparr>im_index_id = index_id, im_index_name = index_name, im_table_id = table_id, im_key_map = key_map\<rparr>,
                stop - off)))"

interpretation word_item: codec word_SerializeTo word_DeserializeFrom "\<lambda>_. Inr 4" "\<lambda>_ _. True" "le_enc 4" "\<lambda>w. w"
  by unfold_locales (simp_all add: word_SerializeTo_def word_DeserializeFrom_def wr32_def rd32_of_enc)

lemma length_words_enc [simp]: "length (concat (map (le_enc 4) ws)) = 4 * length (ws :: 32 word list)"
  by (induction ws) simp_all

definition index_meta_enc :: "IndexMetadata \<Rightarrow> byte list" where
  "index_meta_enc m = (le_enc 4 INDEX_METADATA_MAGIC_NUM @ le_enc 4 (im_index_id m) @
     le_enc 4 (of_nat (length (im_index_name m)) :: 32 word) @ im_index_name m @ le_enc 4 (im_table_id m) @
     le_enc 4 (of_nat (length (im_key_map m)) :: 32 word)) @ concat (map (le_enc 4) (im_key_map m))"

definition index_meta_ok :: "unit \<Rightarrow> IndexMetadata \<Rightarrow> bool" where
  "index_meta_ok _ m \<longleftrightarrow> length (index_meta_enc m) \<le> PAGE_SIZE"

lemma length_index_meta_enc [simp]: "length (index_meta_enc m) = 20 + length (im_index_name m) + 4 * length (im_key_map m)"
  by (simp add: index_meta_enc_def)

lemma keys_ok: "list_all2 (\<lambda>_ _. True) (replicate (length ws) ()) (ws :: 32 word list)"
  by (simp add: list_all2_conv_all_nth)

lemma index_meta_ser_enc:
  assumes "index_meta_ok u m" "off + length (index_meta_enc m) \<le> length buf"
  shows "index_meta_SerializeTo m buf off = Inr (wr buf off (index_meta_enc m), length (index_meta_enc m))"
proof -
  let ?n = "length (im_index_name m)" and ?k = "im_key_map m"
  let ?h = "le_enc 4 INDEX_METADATA_MAGIC_NUM @ le_enc 4 (im_index_id m) @
     le_enc 4 (of_nat ?n :: 32 word) @ im_index_name m @ le_enc 4 (im_table_id m) @ le_enc 4 (of_nat (length ?k) :: 32 word)"
  have head: "wr32 (wr32 (wr (wr32 (wr32 (wr32 buf off INDEX_METADATA_MAGIC_NUM) (off + 4) (im_index_id m)) (off + 8) (of_nat ?n))
      (off + 12) (im_index_name m)) (off + 12 + ?n) (im_table_id m)) (off + 16 + ?n) (of_nat (length ?k)) = wr buf off ?h"
    using assms(2) by (simp add: wr32_def wr_wr_append')
  have s: "ser_seq word_SerializeTo ?k (wr buf off ?h) (off + 20 + ?n) =
      Inr (wr (wr buf off ?h) (off + 20 + ?n) (concat (map (le_enc 4) ?k)), off + 20 + ?n + 4 * length ?k)"
    using word_item.seq_ser [OF keys_ok, of "off + 20 + ?n" ?k "wr buf off ?h"] assms(2) by simp
  have w: "wr (wr buf off ?h) (off + 20 + ?n) (concat (map (le_enc 4) ?k)) = wr buf off (index_meta_enc m)"
    unfolding index_meta_enc_def using assms(2) by (intro wr_wr_append') simp_all
  show ?thesis
    unfolding index_meta_SerializeTo_def index_meta_GetSerializedSize_def bind_result_simps Let_def head s w
    using assms(1) by (simp add: index_meta_ok_def)
qed

lemma index_meta_des_enc:
  assumes ok: "index_meta_ok u m" and room: "off + length (index_meta_enc m) \<le> length buf"
    and rd: "rd (length (index_meta_enc m)) buf off = index_meta_enc m"
  shows "index_meta_DeserializeFrom v buf off = Inr (m, length (index_meta_enc m))"
proof -
  let ?n = "length (im_index_name m)" and ?k = "im_key_map m"
  have n: "unat (of_nat ?n :: 32 word) = ?n" "unat (of_nat (length ?k) :: 32 word) = length ?k"
    using ok by (simp_all add: index_meta_ok_def PAGE_SIZE_def unat_of_nat_small)
  note f32 = rd32_slice [OF rd room]
  have 1: "rd32 buf (off + 0) = INDEX_METADATA_MAGIC_NUM" by (rule f32) (simp_all add: index_meta_enc_def rd_def)
  have 2: "rd32 buf (off + 4) = im_index_id m" by (rule f32) (simp_all add: index_meta_enc_def rd_def)
  have 3: "rd32 buf (off + 8) = of_nat ?n" by (rule f32) (simp_all add: index_meta_enc_def rd_def)
  have 4: "rd ?n buf (off + 12) = im_index_name m"
    using rd_slice [OF rd room, of 12 ?n] by (simp add: index_meta_enc_def rd_def)
  have 5: "rd32 buf (off + (12 + ?n)) = im_table_id m" by (rule f32) (simp_all add: index_meta_enc_def rd_def)
  have 6: "rd32 buf (off + (16 + ?n)) = of_nat (length ?k)" by (rule f32) (simp_all add: index_meta_enc_def rd_def)
  have "rd (4 * length ?k) buf (off + (20 + ?n)) = concat (map (le_enc 4) ?k)"
    using rd_slice [OF rd room, of "20 + ?n" "4 * length ?k"] by (simp add: index_meta_enc_def rd_def)
  then have 7: "des_seq word_DeserializeFrom (replicate (length ?k) ()) buf (off + (20 + ?n)) =
      Inr (?k, off + 20 + ?n + 4 * length ?k)"
    using word_item.seq_des [OF keys_ok, of "off + (20 + ?n)" ?k buf] room by (simp add: add.assoc)
  show ?thesis
    using 1 2 3 4 5 [folded add.assoc] 6 [folded add.assoc] 7 [folded add.assoc] n
    by (simp add: index_meta_DeserializeFrom_def)
qed

interpretation index_meta: codec index_meta_SerializeTo index_meta_DeserializeFrom index_meta_GetSerializedSize index_meta_ok
  index_meta_enc "\<lambda>m. m"
  by unfold_locales (simp_all add: index_meta_ser_enc index_meta_des_enc index_meta_GetSerializedSize_def)

end
