(* ===== verification/Catalog.thy ===== *)
theory Catalog
  imports Catalog_Meta Table_Heap Tree_Remove "HOL-Library.AList"
begin

text \<open>
  The catalog manager (\<^verbatim>\<open>src/include/catalog/\<close>, \<^verbatim>\<open>src/catalog/catalog.cpp\<close>): the tables and indexes of a database by
  name and by number, over the buffer pool. An \<^verbatim>\<open>unordered_map\<close> is an association list, and the order in which the
  code iterates over it is the order of the list, which is arbitrary in the program; nothing below depends on it. The map of index names of a
  table is inserted by \<^verbatim>\<open>operator[]\<close> also when the index is not created in the end.
\<close>

record TableInfo =
  ti_meta :: TableMetadata
  ti_heap :: TableHeap

record IndexInfo =
  xi_meta :: IndexMetadata
  xi_index :: "BPlusTreeIndex option"
  xi_key_schema :: Schema

record Catalog =
  ct_meta :: CatalogMeta
  ct_next_table_id :: table_id_t
  ct_next_index_id :: index_id_t
  ct_table_names :: "(byte list \<times> table_id_t) list"
  ct_tables :: "(table_id_t \<times> TableInfo) list"
  ct_index_names :: "(byte list \<times> (byte list \<times> index_id_t) list) list"
  ct_indexes :: "(index_id_t \<times> IndexInfo) list"

type_synonym ('r, 'd) catalog_state = "('r, 'd) bpm \<times> Catalog"

section \<open>Lookups\<close>

definition GetTable_id :: "table_id_t \<Rightarrow> Catalog \<Rightarrow> dberr_t \<times> TableInfo option" where
  "GetTable_id table_id c =
     (case map_of (ct_tables c) table_id of
        None \<Rightarrow> (DB_TABLE_NOT_EXIST, None)
      | Some info \<Rightarrow> (DB_SUCCESS, Some info))"

definition GetTable :: "byte list \<Rightarrow> Catalog \<Rightarrow> dberr_t \<times> TableInfo option" where
  "GetTable table_name c =
     (case map_of (ct_table_names c) table_name of
        None \<Rightarrow> (DB_TABLE_NOT_EXIST, None)
      | Some table_id \<Rightarrow> GetTable_id table_id c)"

definition GetTables :: "Catalog \<Rightarrow> TableInfo list" where
  "GetTables c = map snd (ct_tables c)"

definition GetIndex :: "byte list \<Rightarrow> byte list \<Rightarrow> Catalog \<Rightarrow> (dberr_t \<times> IndexInfo option) result" where
  "GetIndex table_name index_name c =
     (case map_of (ct_index_names c) table_name of
        None \<Rightarrow> Inr (DB_INDEX_NOT_FOUND, None)
      | Some names \<Rightarrow>
          (case map_of names index_name of
             None \<Rightarrow> Inr (DB_INDEX_NOT_FOUND, None)
           | Some index_id \<Rightarrow>
               (case map_of (ct_indexes c) index_id of
                  None \<Rightarrow> Inl (Thrown ''out_of_range'')
                | Some info \<Rightarrow> Inr (DB_SUCCESS, Some info))))"

primrec at_all :: "(index_id_t \<times> IndexInfo) list \<Rightarrow> index_id_t list \<Rightarrow> IndexInfo list result" where
  "at_all m [] = Inr []"
| "at_all m (i # is') =
     (case map_of m i of
        None \<Rightarrow> Inl (Thrown ''out_of_range'')
      | Some info \<Rightarrow> bind_result (at_all m is') (\<lambda>infos. Inr (info # infos)))"

definition GetTableIndexes :: "byte list \<Rightarrow> Catalog \<Rightarrow> IndexInfo list result" where
  "GetTableIndexes table_name c =
     (case map_of (ct_index_names c) table_name of
        None \<Rightarrow> Inr []
      | Some names \<Rightarrow> at_all (ct_indexes c) (map snd names))"

section \<open>Persisting the catalog page\<close>

definition FlushCatalogMetaPage :: "'r replacer_ops \<Rightarrow> 'd disk_ops \<Rightarrow> ('r, 'd) catalog_state \<Rightarrow> (('r, 'd) bpm \<times> dberr_t) result" where
  "FlushCatalogMetaPage rops dops = (\<lambda>(b, c).
     bind_result (catalog_meta_SerializeTo (ct_meta c) (replicate PAGE_SIZE 0)) (\<lambda>buf.
     bind_result (FetchPage rops dops CATALOG_META_PAGE_ID b) (\<lambda>(b, page). case page of
       None \<Rightarrow> Inr (b, DB_FAILED)
     | Some f \<Rightarrow> Inr (fst (UnpinPage rops CATALOG_META_PAGE_ID True (write_frame f buf b)), DB_SUCCESS))))"

section \<open>Tables\<close>

definition CreateTable :: "'r replacer_ops \<Rightarrow> 'd disk_ops \<Rightarrow> byte list \<Rightarrow> Schema \<Rightarrow> ('r, 'd) catalog_state \<Rightarrow>
    (('r, 'd) catalog_state \<times> dberr_t) result" where
  "CreateTable rops dops table_name schema = (\<lambda>(b, c).
     if map_of (ct_table_names c) table_name \<noteq> None then Inr ((b, c), DB_TABLE_ALREADY_EXIST)
     else
       let table_id = ct_next_table_id c;
           c = c\<lparr>ct_next_table_id := table_id + 1\<rparr>;
           copied_schema = DeepCopySchema schema
       in bind_result (TableHeap_create rops dops copied_schema b) (\<lambda>(b, table_heap).
          let table_meta = TableMetadata_Create table_id table_name (th_first_page_id table_heap) copied_schema
          in bind_result (NewPage rops dops b) (\<lambda>(b, page). case page of
               None \<Rightarrow> Inr ((b, c), DB_FAILED)
             | Some (f, meta_page_id) \<Rightarrow>
                 bind_result (table_meta_SerializeTo table_meta (fdata b f) 0) (\<lambda>(data, _).
                 let b = fst (UnpinPage rops meta_page_id True (write_frame f data b));
                     table_info = \<lparr>ti_meta = table_meta, ti_heap = table_heap\<rparr>;
                     m = ct_meta c;
                     c = c\<lparr>ct_table_names := AList.update table_name table_id (ct_table_names c),
                           ct_tables := AList.update table_id table_info (ct_tables c),
                           ct_meta := m\<lparr>table_meta_pages := omap_set table_id meta_page_id (table_meta_pages m)\<rparr>\<rparr>
                 in bind_result (FlushCatalogMetaPage rops dops (b, c)) (\<lambda>(b, _).
                    Inr ((b, c), DB_SUCCESS))))))"

section \<open>Indexes\<close>

text \<open>The largest serialized key row decides the size of the keys; \<open>None\<close> is the null pointer for keys that are
  too large and for other index types.\<close>

definition max_key_bytes :: "Schema \<Rightarrow> nat" where
  "max_key_bytes key_schema =
     (let column_cnt = length key_schema;
          size_bitmap = (if column_cnt mod 8 \<noteq> 0 then column_cnt div 8 + 1 else column_cnt div 8)
      in foldl (\<lambda>max_size col. max_size + (if col_type col = kTypeChar then 4 else 0) + unat (col_len col))
           (4 + size_bitmap) key_schema)"

definition bptree_key_size :: "nat \<Rightarrow> nat option" where
  "bptree_key_size max_size =
     (if max_size \<le> 8 then Some 16
      else if max_size \<le> 24 then Some 32
      else if max_size \<le> 56 then Some 64
      else if max_size \<le> 120 then Some 128
      else if max_size \<le> 248 then Some 256
      else None)"

definition IndexInfo_CreateIndex :: "'r replacer_ops \<Rightarrow> 'd disk_ops \<Rightarrow> index_id_t \<Rightarrow> Schema \<Rightarrow> string \<Rightarrow> ('r, 'd) bpm \<Rightarrow>
    (('r, 'd) bpm \<times> BPlusTreeIndex option) result" where
  "IndexInfo_CreateIndex rops dops index_id key_schema index_type b =
     (if index_type = ''bptree'' then
        (case bptree_key_size (max_key_bytes key_schema) of
           None \<Rightarrow> Inr (b, None)
         | Some key_size \<Rightarrow>
             bind_result (BPlusTreeIndex_new rops dops index_id key_schema key_size b) (\<lambda>(b, bi). Inr (b, Some bi)))
      else Inr (b, None))"

definition IndexInfo_Init :: "'r replacer_ops \<Rightarrow> 'd disk_ops \<Rightarrow> IndexMetadata \<Rightarrow> TableInfo \<Rightarrow> ('r, 'd) bpm \<Rightarrow>
    (('r, 'd) bpm \<times> IndexInfo) result" where
  "IndexInfo_Init rops dops meta_data table_info b =
     (let key_schema = ShallowCopySchema (tm_schema (ti_meta table_info)) (map unat (im_key_map meta_data))
      in bind_result (IndexInfo_CreateIndex rops dops (im_index_id meta_data) key_schema ''bptree'' b) (\<lambda>(b, index).
         Inr (b, \<lparr>xi_meta = meta_data, xi_index = index, xi_key_schema = key_schema\<rparr>)))"

text \<open>The columns of a new index; \<open>Inl\<close> is the early return.\<close>

primrec key_columns :: "Schema \<Rightarrow> byte list list \<Rightarrow> dberr_t + 32 word list" where
  "key_columns schema [] = Inr []"
| "key_columns schema (name # names) =
     (case GetColumnIndex schema name 0 of
        (DB_SUCCESS, i) \<Rightarrow> (case key_columns schema names of Inl e \<Rightarrow> Inl e | Inr ks \<Rightarrow> Inr (of_nat i # ks))
      | (_, _) \<Rightarrow> Inl DB_COLUMN_NAME_NOT_EXIST)"

definition need_index :: "BPlusTreeIndex option \<Rightarrow> BPlusTreeIndex run" where
  "need_index x = Some (case x of None \<Rightarrow> Inl (OutOfBounds ''index_'') | Some bi \<Rightarrow> Inr bi)"

text \<open>The loop that fills a new index from the table. The key buffers of the index and the uninitialised \<^verbatim>\<open>idx\<close>
  of \<^verbatim>\<open>GetKeyFromRow\<close> are parameters. The last component says whether every entry was inserted; the first
  refused one destroys the index.\<close>

partial_function (option) build_index :: "'r replacer_ops \<Rightarrow> 'd disk_ops \<Rightarrow> byte list \<Rightarrow> nat \<Rightarrow> nat \<Rightarrow> Schema \<Rightarrow> Schema \<Rightarrow> TableHeap \<Rightarrow>
    ('r, 'd) bpm \<Rightarrow> TableIterator \<Rightarrow> BPlusTreeIndex option \<Rightarrow> (('r, 'd) bpm \<times> BPlusTreeIndex option \<times> bool) run" where
  "build_index rops dops buf idx0 this table_schema key_schema th b it index =
     (if it_eq it (heap_End this) then Some (Inr (b, index, True))
      else
        let row = Row_copy (it_row it)
        in bind_run (Some (GetKeyFromRow row table_schema key_schema idx0)) (\<lambda>key_row.
           bind_run (need_index index) (\<lambda>bi.
           bind_run (InsertEntry rops dops buf key_row (row_rid row) (b, bi)) (\<lambda>((b, bi), status).
             if status \<noteq> DB_SUCCESS then
               bind_run (bi_Destroy rops dops (b, bi)) (\<lambda>((b, bi), _). Some (Inr (b, Some bi, False)))
             else
               bind_run (it_next rops dops it (b, th)) (\<lambda>(b, it).
               build_index rops dops buf idx0 this table_schema key_schema th b it (Some bi))))))"

text \<open>Steps 7 and 5 to 8 of \<^verbatim>\<open>CreateIndex\<close>: \<^verbatim>\<open>table_indexes\<close> is the reference \<^verbatim>\<open>index_names_[table_name]\<close>.\<close>

definition register_index :: "byte list \<Rightarrow> (byte list \<times> index_id_t) list \<Rightarrow> IndexInfo \<Rightarrow> page_id_t \<Rightarrow> Catalog \<Rightarrow> Catalog" where
  "register_index table_name table_indexes info meta_page_id c =
     (let index_id = im_index_id (xi_meta info);
          m = ct_meta c
      in c\<lparr>ct_indexes := AList.update index_id info (ct_indexes c),
           ct_index_names := AList.update table_name (AList.update (im_index_name (xi_meta info)) index_id table_indexes)
             (ct_index_names c),
           ct_meta := m\<lparr>index_meta_pages := omap_set index_id meta_page_id (index_meta_pages m)\<rparr>\<rparr>)"

definition finish_index :: "'r replacer_ops \<Rightarrow> 'd disk_ops \<Rightarrow> byte list \<Rightarrow> nat \<Rightarrow> nat \<Rightarrow> byte list \<Rightarrow> (byte list \<times> index_id_t) list \<Rightarrow>
    TableInfo \<Rightarrow> IndexMetadata \<Rightarrow> ('r, 'd) catalog_state \<Rightarrow> (('r, 'd) catalog_state \<times> dberr_t) run" where
  "finish_index rops dops buf idx0 this table_name table_indexes table_info index_meta = (\<lambda>(b, c).
     bind_run (Some (IndexInfo_Init rops dops index_meta table_info b)) (\<lambda>(b, info).
     bind_run (heap_Begin rops dops this (b, ti_heap table_info)) (\<lambda>(b, it).
     bind_run (build_index rops dops buf idx0 this (tm_schema (ti_meta table_info)) (xi_key_schema info) (ti_heap table_info) b it
       (xi_index info)) (\<lambda>(b, index, built).
     if \<not> built then Some (Inr ((b, c), DB_FAILED))
     else bind_run (Some (NewPage rops dops b)) (\<lambda>(b, page). case page of
       None \<Rightarrow> Some (Inr ((b, c), DB_FAILED))
     | Some (f, meta_page_id) \<Rightarrow>
         bind_run (Some (index_meta_SerializeTo index_meta (fdata b f) 0)) (\<lambda>(data, _).
         let b = fst (UnpinPage rops meta_page_id True (write_frame f data b));
             c = register_index table_name table_indexes (info\<lparr>xi_index := index\<rparr>) meta_page_id c
         in bind_run (Some (FlushCatalogMetaPage rops dops (b, c))) (\<lambda>(b, _). Some (Inr ((b, c), DB_SUCCESS)))))))))"

definition CreateIndex :: "'r replacer_ops \<Rightarrow> 'd disk_ops \<Rightarrow> byte list \<Rightarrow> nat \<Rightarrow> nat \<Rightarrow> byte list \<Rightarrow> byte list \<Rightarrow> byte list list \<Rightarrow>
    ('r, 'd) catalog_state \<Rightarrow> (('r, 'd) catalog_state \<times> dberr_t) run" where
  "CreateIndex rops dops buf idx0 this table_name index_name index_keys = (\<lambda>(b, c).
     case map_of (ct_table_names c) table_name of
       None \<Rightarrow> Some (Inr ((b, c), DB_TABLE_NOT_EXIST))
     | Some table_id \<Rightarrow>
         (case map_of (ct_tables c) table_id of
            None \<Rightarrow> Some (Inl (OutOfBounds ''table_info''))
          | Some table_info \<Rightarrow>
              let table_indexes = (case map_of (ct_index_names c) table_name of None \<Rightarrow> [] | Some m \<Rightarrow> m);
                  c = c\<lparr>ct_index_names := AList.update table_name table_indexes (ct_index_names c)\<rparr>
              in if map_of table_indexes index_name \<noteq> None then Some (Inr ((b, c), DB_INDEX_ALREADY_EXIST))
                 else (case key_columns (tm_schema (ti_meta table_info)) index_keys of
                   Inl e \<Rightarrow> Some (Inr ((b, c), e))
                 | Inr key_map \<Rightarrow>
                     let index_id = ct_next_index_id c;
                         c = c\<lparr>ct_next_index_id := index_id + 1\<rparr>;
                         index_meta = IndexMetadata_Create index_id index_name table_id key_map
                     in finish_index rops dops buf idx0 this table_name table_indexes table_info index_meta (b, c))))"

section \<open>Dropping\<close>

definition DeleteIndexMetaPage :: "'d disk_ops \<Rightarrow> index_id_t \<Rightarrow> ('r, 'd) bpm \<Rightarrow> CatalogMeta \<Rightarrow> ('r, 'd) bpm \<times> CatalogMeta \<times> bool" where
  "DeleteIndexMetaPage dops index_id b m =
     (case map_of (index_meta_pages m) index_id of
        None \<Rightarrow> (b, m, False)
      | Some p \<Rightarrow> (fst (DeletePage dops p b), m\<lparr>index_meta_pages := omap_erase index_id (index_meta_pages m)\<rparr>, True))"

definition DropIndex :: "'r replacer_ops \<Rightarrow> 'd disk_ops \<Rightarrow> byte list \<Rightarrow> byte list \<Rightarrow> ('r, 'd) catalog_state \<Rightarrow>
    (('r, 'd) catalog_state \<times> dberr_t) run" where
  "DropIndex rops dops table_name index_name = (\<lambda>(b, c).
     case map_of (ct_index_names c) table_name of
       None \<Rightarrow> Some (Inr ((b, c), DB_INDEX_NOT_FOUND))
     | Some names \<Rightarrow>
         (case map_of names index_name of
            None \<Rightarrow> Some (Inr ((b, c), DB_INDEX_NOT_FOUND))
          | Some index_id \<Rightarrow>
              (case map_of (ct_indexes c) index_id of
                 None \<Rightarrow> Some (Inl (OutOfBounds ''index_info''))
               | Some info \<Rightarrow>
                   bind_run (need_index (xi_index info)) (\<lambda>bi.
                   bind_run (bi_Destroy rops dops (b, bi)) (\<lambda>((b, bi), _).
                   let (b, m, _) = DeleteIndexMetaPage dops index_id b (ct_meta c);
                       names = AList.delete index_name names;
                       c = c\<lparr>ct_meta := m, ct_indexes := AList.delete index_id (ct_indexes c),
                             ct_index_names := (if names = [] then AList.delete table_name (ct_index_names c)
                                                else AList.update table_name names (ct_index_names c))\<rparr>
                   in bind_run (Some (FlushCatalogMetaPage rops dops (b, c))) (\<lambda>(b, _). Some (Inr ((b, c), DB_SUCCESS))))))))"

primrec drop_indexes :: "'r replacer_ops \<Rightarrow> 'd disk_ops \<Rightarrow> byte list \<Rightarrow> byte list list \<Rightarrow> ('r, 'd) catalog_state \<Rightarrow>
    ('r, 'd) catalog_state run" where
  "drop_indexes rops dops table_name [] st = Some (Inr st)"
| "drop_indexes rops dops table_name (n # ns) st =
     bind_run (DropIndex rops dops table_name n st) (\<lambda>(st, _). drop_indexes rops dops table_name ns st)"

definition DropTable_id :: "'r replacer_ops \<Rightarrow> 'd disk_ops \<Rightarrow> table_id_t \<Rightarrow> ('r, 'd) catalog_state \<Rightarrow>
    (('r, 'd) catalog_state \<times> dberr_t) run" where
  "DropTable_id rops dops table_id = (\<lambda>(b, c).
     case map_of (ct_tables c) table_id of
       None \<Rightarrow> Some (Inr ((b, c), DB_TABLE_NOT_EXIST))
     | Some table_info \<Rightarrow>
         let table_name = tm_table_name (ti_meta table_info);
             names = (case map_of (ct_index_names c) table_name of None \<Rightarrow> [] | Some m \<Rightarrow> map fst m)
         in bind_run (drop_indexes rops dops table_name names (b, c)) (\<lambda>(b, c).
            bind_run (DeleteTable rops dops INVALID_PAGE_ID (b, ti_heap table_info)) (\<lambda>b.
            let m = ct_meta c;
                meta_page_id = (case map_of (table_meta_pages m) table_id of None \<Rightarrow> 0 | Some p \<Rightarrow> p);
                b = fst (DeletePage dops meta_page_id b);
                c = c\<lparr>ct_meta := m\<lparr>table_meta_pages := omap_erase table_id (table_meta_pages m)\<rparr>,
                      ct_table_names := AList.delete table_name (ct_table_names c),
                      ct_tables := AList.delete table_id (ct_tables c)\<rparr>
            in bind_run (Some (FlushCatalogMetaPage rops dops (b, c))) (\<lambda>(b, _). Some (Inr ((b, c), DB_SUCCESS))))))"

definition DropTable :: "'r replacer_ops \<Rightarrow> 'd disk_ops \<Rightarrow> byte list \<Rightarrow> ('r, 'd) catalog_state \<Rightarrow>
    (('r, 'd) catalog_state \<times> dberr_t) run" where
  "DropTable rops dops table_name = (\<lambda>(b, c).
     case map_of (ct_table_names c) table_name of
       None \<Rightarrow> Some (Inr ((b, c), DB_TABLE_NOT_EXIST))
     | Some table_id \<Rightarrow> DropTable_id rops dops table_id (b, c))"

section \<open>Opening a catalog\<close>

definition LoadTable :: "'r replacer_ops \<Rightarrow> 'd disk_ops \<Rightarrow> table_id_t \<Rightarrow> page_id_t \<Rightarrow> ('r, 'd) catalog_state \<Rightarrow>
    (('r, 'd) catalog_state \<times> dberr_t) result" where
  "LoadTable rops dops table_id pid = (\<lambda>(b, c).
     bind_result (FetchPage rops dops pid b) (\<lambda>(b, page). case page of
       None \<Rightarrow> Inr ((b, c), DB_FAILED)
     | Some f \<Rightarrow>
         bind_result (table_meta_DeserializeFrom () (fdata b f) 0) (\<lambda>(table_meta, _).
         ASSERT (tm_table_id table_meta = table_id) ''Table id mismatch.''
           (let table_heap = TableHeap_open (tm_root_page_id table_meta) (tm_schema table_meta);
                table_info = \<lparr>ti_meta = table_meta, ti_heap = table_heap\<rparr>;
                c = c\<lparr>ct_table_names := AList.update (tm_table_name table_meta) table_id (ct_table_names c),
                      ct_tables := AList.update table_id table_info (ct_tables c)\<rparr>
            in Inr ((fst (UnpinPage rops pid False b), c), DB_SUCCESS)))))"

definition LoadIndex :: "'r replacer_ops \<Rightarrow> 'd disk_ops \<Rightarrow> index_id_t \<Rightarrow> page_id_t \<Rightarrow> ('r, 'd) catalog_state \<Rightarrow>
    (('r, 'd) catalog_state \<times> dberr_t) result" where
  "LoadIndex rops dops index_id pid = (\<lambda>(b, c).
     bind_result (FetchPage rops dops pid b) (\<lambda>(b, page). case page of
       None \<Rightarrow> Inr ((b, c), DB_FAILED)
     | Some f \<Rightarrow>
         bind_result (index_meta_DeserializeFrom () (fdata b f) 0) (\<lambda>(index_meta, _).
         ASSERT (im_index_id index_meta = index_id) ''Index id mismatch.''
           (case GetTable_id (im_table_id index_meta) c of
              (DB_SUCCESS, Some table_info) \<Rightarrow>
                bind_result (IndexInfo_Init rops dops index_meta table_info b) (\<lambda>(b, info).
                let table_name = tm_table_name (ti_meta table_info);
                    names = (case map_of (ct_index_names c) table_name of None \<Rightarrow> [] | Some m \<Rightarrow> m);
                    c = c\<lparr>ct_indexes := AList.update index_id info (ct_indexes c),
                          ct_index_names := AList.update table_name (AList.update (im_index_name index_meta) index_id names)
                            (ct_index_names c)\<rparr>
                in Inr ((fst (UnpinPage rops pid False b), c), DB_SUCCESS))
            | (_, _) \<Rightarrow> Inl (AssertionFailed ''Table not found for index during load.'')))))"

primrec load_all :: "(32 word \<Rightarrow> page_id_t \<Rightarrow> ('r, 'd) catalog_state \<Rightarrow> (('r, 'd) catalog_state \<times> dberr_t) result) \<Rightarrow>
    (32 word \<times> page_id_t) list \<Rightarrow> ('r, 'd) catalog_state \<Rightarrow> ('r, 'd) catalog_state result" where
  "load_all load [] st = Inr st"
| "load_all load (e # es) st = bind_result (load (fst e) (snd e) st) (\<lambda>(st, _). load_all load es st)"

definition Catalog_of_meta :: "CatalogMeta \<Rightarrow> Catalog" where
  "Catalog_of_meta m = \<lparr>ct_meta = m, ct_next_table_id = GetNextTableId m, ct_next_index_id = GetNextIndexId m,
     ct_table_names = [], ct_tables = [], ct_index_names = [], ct_indexes = []\<rparr>"

definition CatalogManager_new :: "'r replacer_ops \<Rightarrow> 'd disk_ops \<Rightarrow> bool \<Rightarrow> ('r, 'd) bpm \<Rightarrow> ('r, 'd) catalog_state result" where
  "CatalogManager_new rops dops init b =
     (if init then Inr (b, Catalog_of_meta CatalogMeta_NewInstance)
      else bind_result (FetchPage rops dops CATALOG_META_PAGE_ID b) (\<lambda>(b, page). case page of
        None \<Rightarrow> Inl (AssertionFailed ''Failed to fetch catalog meta page.'')
      | Some f \<Rightarrow>
          bind_result (catalog_meta_DeserializeFrom (fdata b f)) (\<lambda>m.
          let b = fst (UnpinPage rops CATALOG_META_PAGE_ID False b)
          in bind_result (load_all (LoadTable rops dops) (table_meta_pages m) (b, Catalog_of_meta m)) (\<lambda>st.
             load_all (LoadIndex rops dops) (index_meta_pages m) st))))"

definition CatalogManager_delete :: "'r replacer_ops \<Rightarrow> 'd disk_ops \<Rightarrow> ('r, 'd) catalog_state \<Rightarrow> ('r, 'd) bpm result" where
  "CatalogManager_delete rops dops st = bind_result (FlushCatalogMetaPage rops dops st) (\<lambda>(b, _). Inr b)"

end
