(* ===== verification/Catalog_Inv.thy ===== *)
theory Catalog_Inv
  imports Catalog
begin

text \<open>
  The maps of the catalog agree with each other in every state the catalog's operations reach: names and numbers of
  tables correspond, every index belongs to a table and is found under it, and the catalog page lists exactly the tables
  and indexes there are.
\<close>

section \<open>The invariant\<close>

text \<open>The number of the index that is registered under a table name and an index name.\<close>

definition index_number :: "Catalog \<Rightarrow> byte list \<Rightarrow> byte list \<Rightarrow> index_id_t option" where
  "index_number c tn xn = (case map_of (ct_index_names c) tn of None \<Rightarrow> None | Some m \<Rightarrow> map_of m xn)"

definition wf_tables :: "Catalog \<Rightarrow> bool" where
  "wf_tables c \<longleftrightarrow>
     wf_omap (table_meta_pages (ct_meta c)) \<and> dom (map_of (table_meta_pages (ct_meta c))) = dom (map_of (ct_tables c)) \<and>
     (\<forall>n t. map_of (ct_table_names c) n = Some t \<longleftrightarrow>
        (\<exists>i. map_of (ct_tables c) t = Some i \<and> tm_table_name (ti_meta i) = n)) \<and>
     (\<forall>t i. map_of (ct_tables c) t = Some i \<longrightarrow> tm_table_id (ti_meta i) = t \<and> t < ct_next_table_id c)"

definition wf_indexes :: "Catalog \<Rightarrow> bool" where
  "wf_indexes c \<longleftrightarrow>
     wf_omap (index_meta_pages (ct_meta c)) \<and> dom (map_of (index_meta_pages (ct_meta c))) = dom (map_of (ct_indexes c)) \<and>
     (\<forall>tn xn x. index_number c tn xn = Some x \<longleftrightarrow>
        (\<exists>i t. map_of (ct_indexes c) x = Some i \<and> im_index_name (xi_meta i) = xn \<and>
           map_of (ct_tables c) (im_table_id (xi_meta i)) = Some t \<and> tm_table_name (ti_meta t) = tn)) \<and>
     (\<forall>x i. map_of (ct_indexes c) x = Some i \<longrightarrow> im_index_id (xi_meta i) = x \<and> x < ct_next_index_id c \<and>
        im_table_id (xi_meta i) \<in> dom (map_of (ct_tables c)))"

definition wf_catalog :: "Catalog \<Rightarrow> bool" where
  "wf_catalog c \<longleftrightarrow> wf_tables c \<and> wf_indexes c"

lemma wf_tablesD:
  assumes "wf_tables c"
  shows "wf_omap (table_meta_pages (ct_meta c))"
    "dom (map_of (table_meta_pages (ct_meta c))) = dom (map_of (ct_tables c))"
    "\<And>n t. map_of (ct_table_names c) n = Some t \<longleftrightarrow> (\<exists>i. map_of (ct_tables c) t = Some i \<and> tm_table_name (ti_meta i) = n)"
    "\<And>t i. map_of (ct_tables c) t = Some i \<Longrightarrow> tm_table_id (ti_meta i) = t \<and> t < ct_next_table_id c"
  using assms by (simp_all add: wf_tables_def)

lemma wf_indexesD:
  assumes "wf_indexes c"
  shows "wf_omap (index_meta_pages (ct_meta c))"
    "dom (map_of (index_meta_pages (ct_meta c))) = dom (map_of (ct_indexes c))"
    "\<And>tn xn x. index_number c tn xn = Some x \<longleftrightarrow>
        (\<exists>i t. map_of (ct_indexes c) x = Some i \<and> im_index_name (xi_meta i) = xn \<and>
           map_of (ct_tables c) (im_table_id (xi_meta i)) = Some t \<and> tm_table_name (ti_meta t) = tn)"
    "\<And>x i. map_of (ct_indexes c) x = Some i \<Longrightarrow> im_index_id (xi_meta i) = x \<and> x < ct_next_index_id c \<and>
        im_table_id (xi_meta i) \<in> dom (map_of (ct_tables c))"
  using assms by (simp_all add: wf_indexes_def)

lemma wf_catalog_new: "wf_catalog (Catalog_of_meta CatalogMeta_NewInstance)"
  by (simp add: wf_catalog_def wf_tables_def wf_indexes_def Catalog_of_meta_def CatalogMeta_NewInstance_def index_number_def)

text \<open>Two tables never share a name.\<close>

lemma wf_tables_inj:
  assumes "wf_tables c" "map_of (ct_tables c) t = Some i" "map_of (ct_tables c) t' = Some i'"
    "tm_table_name (ti_meta i) = tm_table_name (ti_meta i')"
  shows "t = t'"
  using wf_tablesD(3) [OF assms(1)] assms(2-4) by (metis option.inject)

section \<open>The operations on the maps\<close>

text \<open>What the four operations do to the maps when they succeed.\<close>

definition add_table :: "TableInfo \<Rightarrow> page_id_t \<Rightarrow> Catalog \<Rightarrow> Catalog" where
  "add_table info p c =
     (let t = ct_next_table_id c; m = ct_meta c
      in c\<lparr>ct_next_table_id := t + 1,
           ct_table_names := AList.update (tm_table_name (ti_meta info)) t (ct_table_names c),
           ct_tables := AList.update t info (ct_tables c),
           ct_meta := m\<lparr>table_meta_pages := omap_set t p (table_meta_pages m)\<rparr>\<rparr>)"

definition names_of :: "Catalog \<Rightarrow> byte list \<Rightarrow> (byte list \<times> index_id_t) list" where
  "names_of c tn = (case map_of (ct_index_names c) tn of None \<Rightarrow> [] | Some m \<Rightarrow> m)"

text \<open>\<^verbatim>\<open>index_names_[table_name]\<close> as a reference.\<close>

definition touch_index_names :: "byte list \<Rightarrow> Catalog \<Rightarrow> Catalog" where
  "touch_index_names tn c = c\<lparr>ct_index_names := AList.update tn (names_of c tn) (ct_index_names c)\<rparr>"

definition add_index :: "byte list \<Rightarrow> IndexInfo \<Rightarrow> page_id_t \<Rightarrow> Catalog \<Rightarrow> Catalog" where
  "add_index tn info p c = register_index tn (names_of c tn) info p (c\<lparr>ct_next_index_id := ct_next_index_id c + 1\<rparr>)"

definition remove_index :: "byte list \<Rightarrow> byte list \<Rightarrow> index_id_t \<Rightarrow> Catalog \<Rightarrow> Catalog" where
  "remove_index tn xn x c =
     (let m = ct_meta c; names = AList.delete xn (names_of c tn)
      in c\<lparr>ct_meta := m\<lparr>index_meta_pages := omap_erase x (index_meta_pages m)\<rparr>,
           ct_indexes := AList.delete x (ct_indexes c),
           ct_index_names := (if names = [] then AList.delete tn (ct_index_names c)
                              else AList.update tn names (ct_index_names c))\<rparr>)"

definition remove_table :: "table_id_t \<Rightarrow> byte list \<Rightarrow> Catalog \<Rightarrow> Catalog" where
  "remove_table t n c =
     (let m = ct_meta c
      in c\<lparr>ct_meta := m\<lparr>table_meta_pages := omap_erase t (table_meta_pages m)\<rparr>,
           ct_table_names := AList.delete n (ct_table_names c),
           ct_tables := AList.delete t (ct_tables c)\<rparr>)"

lemma index_number_touch [simp]: "index_number (touch_index_names tn c) = index_number c"
  by (auto simp: fun_eq_iff index_number_def touch_index_names_def names_of_def update_conv' split: option.split)

lemma index_number_add:
  "im_index_id (xi_meta info) = ct_next_index_id c \<Longrightarrow> index_number (add_index tn info p c) tn' xn' =
     (if tn' = tn \<and> xn' = im_index_name (xi_meta info) then Some (ct_next_index_id c) else index_number c tn' xn')"
  by (auto simp: index_number_def add_index_def register_index_def names_of_def update_conv' Let_def split: option.split)

lemma index_number_remove:
  "index_number (remove_index tn xn x c) tn' xn' = (if tn' = tn \<and> xn' = xn then None else index_number c tn' xn')"
proof -
  have "map_of (AList.delete xn (names_of c tn)) xn' = (if xn' = xn then None else index_number c tn xn')"
    by (auto simp: delete_conv' names_of_def index_number_def split: option.split)
  note found = this
  show ?thesis
  proof (cases "AList.delete xn (names_of c tn) = []")
    case True
    then have "xn' \<noteq> xn \<Longrightarrow> index_number c tn xn' = None" using found by simp
    then show ?thesis using True
      by (auto simp: index_number_def [of "remove_index tn xn x c"] remove_index_def delete_conv' Let_def)
        (auto simp: index_number_def update_conv' delete_conv')
  next
    case False
    then show ?thesis using found
      by (auto simp: index_number_def [of "remove_index tn xn x c"] remove_index_def update_conv' Let_def)
        (auto simp: index_number_def update_conv' delete_conv')
  qed
qed

lemma next_id_less:
  assumes "\<And>t i. m t = Some i \<Longrightarrow> t < (n :: 32 word)" "n + 1 \<noteq> 0" "(m(n \<mapsto> v)) t = Some i"
  shows "t < n + 1"
proof -
  have "n < n + 1" using unatSuc [of n] assms(2) by (simp add: add.commute word_less_nat_alt)
  moreover have "t < n" if "t \<noteq> n" using assms(1,3) that by simp
  ultimately show ?thesis by (cases "t = n") (auto intro: less_trans)
qed

lemma fresh_id:
  assumes "\<And>t i. m t = Some i \<Longrightarrow> t < (n :: 32 word)"
  shows "m n = None"
  using assms [of n] by (cases "m n") auto

lemma wf_add_table:
  assumes wf: "wf_catalog c" and n: "map_of (ct_table_names c) (tm_table_name (ti_meta info)) = None"
    and t: "tm_table_id (ti_meta info) = ct_next_table_id c" "ct_next_table_id c + 1 \<noteq> 0"
  shows "wf_catalog (add_table info p c)"
proof -
  let ?c = "add_table info p c" and ?t = "ct_next_table_id c"
  note T = wf_tablesD [OF wf [unfolded wf_catalog_def, THEN conjunct1]]
  note X = wf_indexesD [OF wf [unfolded wf_catalog_def, THEN conjunct2]]
  have f [simp]: "ct_next_table_id ?c = ?t + 1" "map_of (ct_tables ?c) = (map_of (ct_tables c))(?t \<mapsto> info)"
    "map_of (ct_table_names ?c) = (map_of (ct_table_names c))(tm_table_name (ti_meta info) \<mapsto> ?t)"
    "table_meta_pages (ct_meta ?c) = omap_set ?t p (table_meta_pages (ct_meta c))" "ct_indexes ?c = ct_indexes c"
    "index_meta_pages (ct_meta ?c) = index_meta_pages (ct_meta c)" "ct_next_index_id ?c = ct_next_index_id c"
    "index_number ?c = index_number c"
    by (simp_all add: add_table_def Let_def update_conv' index_number_def [abs_def])
  have fresh: "map_of (ct_tables c) ?t = None" by (rule fresh_id) (use T(4) in blast)
  have new: "tm_table_name (ti_meta i) \<noteq> tm_table_name (ti_meta info)" if "map_of (ct_tables c) t' = Some i" for t' i
    using n T(3) that by (metis option.distinct(1))
  have "wf_tables ?c" unfolding wf_tables_def
  proof (intro conjI allI impI)
    fix m t'
    show "map_of (ct_table_names ?c) m = Some t' \<longleftrightarrow> (\<exists>i. map_of (ct_tables ?c) t' = Some i \<and> tm_table_name (ti_meta i) = m)"
      using T(3) [of m t'] fresh new by auto
  next
    fix t' i
    assume i: "map_of (ct_tables ?c) t' = Some i"
    then show "t' < ct_next_table_id ?c" using next_id_less [OF _ t(2), of "map_of (ct_tables c)" info t' i] T(4) by auto
    show "tm_table_id (ti_meta i) = t'" using i T(4) t(1) by (auto split: if_splits)
  qed (use T(1,2) in \<open>auto simp: wf_omap_set\<close>)
  moreover have same: "map_of (ct_tables ?c) (im_table_id (xi_meta i)) = map_of (ct_tables c) (im_table_id (xi_meta i))"
    if "map_of (ct_indexes c) x = Some i" for x i
    using X(4) [OF that] fresh by auto
  moreover have "wf_indexes ?c" unfolding wf_indexes_def
  proof (intro conjI allI impI)
    fix tn xn x
    show "index_number ?c tn xn = Some x \<longleftrightarrow> (\<exists>i t. map_of (ct_indexes ?c) x = Some i \<and> im_index_name (xi_meta i) = xn \<and>
           map_of (ct_tables ?c) (im_table_id (xi_meta i)) = Some t \<and> tm_table_name (ti_meta t) = tn)"
      unfolding f(5,8) X(3) using same by (metis (no_types, lifting))
  qed (use X in auto)
  ultimately show ?thesis by (simp add: wf_catalog_def)
qed

lemma wf_same_maps:
  assumes "wf_catalog c" "ct_meta c' = ct_meta c" "ct_table_names c' = ct_table_names c" "ct_tables c' = ct_tables c"
    "ct_indexes c' = ct_indexes c" "index_number c' = index_number c" "ct_next_table_id c \<le> ct_next_table_id c'"
    "ct_next_index_id c \<le> ct_next_index_id c'"
  shows "wf_catalog c'"
proof -
  have "t < ct_next_table_id c'" if "t < ct_next_table_id c" for t using that assms(7) by (rule less_le_trans)
  moreover have "x < ct_next_index_id c'" if "x < ct_next_index_id c" for x using that assms(8) by (rule less_le_trans)
  ultimately show ?thesis
    using assms(1) unfolding wf_catalog_def wf_tables_def wf_indexes_def assms(2-6) by blast
qed

lemma wf_add_index:
  assumes wf: "wf_catalog c" and tn: "map_of (ct_table_names c) tn = Some (im_table_id (xi_meta info))"
    and fresh_name: "index_number c tn (im_index_name (xi_meta info)) = None"
    and x: "im_index_id (xi_meta info) = ct_next_index_id c" "ct_next_index_id c + 1 \<noteq> 0"
  shows "wf_catalog (add_index tn info p c)"
proof -
  let ?c = "add_index tn info p c" and ?x = "ct_next_index_id c"
  note T = wf_tablesD [OF wf [unfolded wf_catalog_def, THEN conjunct1]]
  note X = wf_indexesD [OF wf [unfolded wf_catalog_def, THEN conjunct2]]
  have f [simp]: "ct_next_index_id ?c = ?x + 1" "map_of (ct_indexes ?c) = (map_of (ct_indexes c))(?x \<mapsto> info)"
    "index_meta_pages (ct_meta ?c) = omap_set ?x p (index_meta_pages (ct_meta c))" "ct_tables ?c = ct_tables c"
    "ct_table_names ?c = ct_table_names c" "table_meta_pages (ct_meta ?c) = table_meta_pages (ct_meta c)"
    "ct_next_table_id ?c = ct_next_table_id c"
    using x(1) by (simp_all add: add_index_def register_index_def Let_def update_conv')
  have fresh: "map_of (ct_indexes c) ?x = None" by (rule fresh_id) (use X(4) in blast)
  obtain ti where ti: "map_of (ct_tables c) (im_table_id (xi_meta info)) = Some ti" "tm_table_name (ti_meta ti) = tn"
    using tn T(3) by blast
  have "wf_tables ?c" unfolding wf_tables_def f using T by blast
  moreover have "wf_indexes ?c" unfolding wf_indexes_def
  proof (intro conjI allI impI)
    fix tn' xn x
    have "index_number c tn' xn \<noteq> Some ?x" using X(3) fresh by force
    moreover have "index_number c tn' xn = Some x \<Longrightarrow> \<not> (tn' = tn \<and> xn = im_index_name (xi_meta info))"
      using fresh_name by auto
    ultimately show "index_number ?c tn' xn = Some x \<longleftrightarrow> (\<exists>i t. map_of (ct_indexes ?c) x = Some i \<and> im_index_name (xi_meta i) = xn \<and>
           map_of (ct_tables ?c) (im_table_id (xi_meta i)) = Some t \<and> tm_table_name (ti_meta t) = tn')"
      unfolding index_number_add [OF assms(4)] using X(3) [of tn' xn x] ti by (cases "x = ?x") auto
  next
    fix x i
    assume i: "map_of (ct_indexes ?c) x = Some i"
    show "x < ct_next_index_id ?c" using i next_id_less [OF _ assms(5), of "map_of (ct_indexes c)" info x i] X(4) by auto
    show "im_index_id (xi_meta i) = x" "im_table_id (xi_meta i) \<in> dom (map_of (ct_tables ?c))"
      using i X(4) [of x i] assms(4) ti(1) by (auto split: if_splits)
  qed (use X(1,2) in \<open>auto simp: wf_omap_set\<close>)
  ultimately show ?thesis by (simp add: wf_catalog_def)
qed

lemma wf_remove_index:
  assumes wf: "wf_catalog c" and x: "index_number c tn xn = Some x"
  shows "wf_catalog (remove_index tn xn x c)"
proof -
  let ?c = "remove_index tn xn x c"
  note T = wf_tablesD [OF wf [unfolded wf_catalog_def, THEN conjunct1]]
  note X = wf_indexesD [OF wf [unfolded wf_catalog_def, THEN conjunct2]]
  have f [simp]: "ct_next_index_id ?c = ct_next_index_id c" "map_of (ct_indexes ?c) = (map_of (ct_indexes c))(x := None)"
    "index_meta_pages (ct_meta ?c) = omap_erase x (index_meta_pages (ct_meta c))" "ct_tables ?c = ct_tables c"
    "ct_table_names ?c = ct_table_names c" "table_meta_pages (ct_meta ?c) = table_meta_pages (ct_meta c)"
    "ct_next_table_id ?c = ct_next_table_id c"
    by (simp_all add: remove_index_def Let_def delete_conv')
  have only: "index_number c tn' xn' = Some x \<Longrightarrow> tn' = tn \<and> xn' = xn" for tn' xn'
    using X(3) [of tn xn x] X(3) [of tn' xn' x] x by auto
  have "wf_tables ?c" unfolding wf_tables_def f using T by blast
  moreover have "wf_indexes ?c" unfolding wf_indexes_def
  proof (intro conjI allI impI)
    fix tn' xn' y
    show "index_number ?c tn' xn' = Some y \<longleftrightarrow> (\<exists>i t. map_of (ct_indexes ?c) y = Some i \<and> im_index_name (xi_meta i) = xn' \<and>
           map_of (ct_tables ?c) (im_table_id (xi_meta i)) = Some t \<and> tm_table_name (ti_meta t) = tn')"
    proof (cases "y = x")
      case True
      then show ?thesis unfolding index_number_remove f(2) using only [of tn' xn'] by auto
    next
      case False
      then have "index_number ?c tn' xn' = Some y \<longleftrightarrow> index_number c tn' xn' = Some y" unfolding index_number_remove using x by auto
      moreover have "map_of (ct_indexes ?c) y = map_of (ct_indexes c) y" unfolding f(2) using False by simp
      ultimately show ?thesis unfolding f(4) by (simp only: X(3))
    qed
  next
    fix y i
    assume "map_of (ct_indexes ?c) y = Some i"
    then have i: "map_of (ct_indexes c) y = Some i" by (simp split: if_splits)
    show "im_index_id (xi_meta i) = y" "y < ct_next_index_id ?c" "im_table_id (xi_meta i) \<in> dom (map_of (ct_tables ?c))"
      using X(4) [OF i] by simp_all
  qed (use X(1,2) in \<open>auto simp: wf_omap_erase omap_erase_of\<close>)
  ultimately show ?thesis by (simp add: wf_catalog_def)
qed

lemma wf_remove_table:
  assumes wf: "wf_catalog c" and t: "map_of (ct_tables c) t = Some ti" "n = tm_table_name (ti_meta ti)"
    and none: "\<And>xn. index_number c n xn = None"
  shows "wf_catalog (remove_table t n c)"
proof -
  let ?c = "remove_table t n c"
  note T = wf_tablesD [OF wf [unfolded wf_catalog_def, THEN conjunct1]]
  note X = wf_indexesD [OF wf [unfolded wf_catalog_def, THEN conjunct2]]
  have f [simp]: "ct_next_index_id ?c = ct_next_index_id c" "map_of (ct_tables ?c) = (map_of (ct_tables c))(t := None)"
    "table_meta_pages (ct_meta ?c) = omap_erase t (table_meta_pages (ct_meta c))" "ct_indexes ?c = ct_indexes c"
    "map_of (ct_table_names ?c) = (map_of (ct_table_names c))(n := None)" "index_number ?c = index_number c"
    "index_meta_pages (ct_meta ?c) = index_meta_pages (ct_meta c)" "ct_next_table_id ?c = ct_next_table_id c"
    by (simp_all add: remove_table_def Let_def delete_conv' index_number_def [abs_def])
  have inj: "tm_table_name (ti_meta i) = n \<Longrightarrow> t' = t" if "map_of (ct_tables c) t' = Some i" for t' i
    using wf_tables_inj [OF _ that t(1)] wf t(2) by (simp add: wf_catalog_def)
  have "wf_tables ?c" unfolding wf_tables_def
  proof (intro conjI allI impI)
    fix m t'
    show "map_of (ct_table_names ?c) m = Some t' \<longleftrightarrow> (\<exists>i. map_of (ct_tables ?c) t' = Some i \<and> tm_table_name (ti_meta i) = m)"
    proof (cases "t' = t")
      case True
      then show ?thesis unfolding f(2,5) using T(3) [of m t] t by auto
    next
      case False
      have "map_of (ct_tables ?c) t' = map_of (ct_tables c) t'" unfolding f(2) using False by simp
      moreover have "map_of (ct_table_names ?c) m = Some t' \<longleftrightarrow> map_of (ct_table_names c) m = Some t'"
        unfolding f(5) using T(3) [of n t'] inj [of t'] False by auto
      ultimately show ?thesis by (simp only: T(3))
    qed
  qed (use T(1,2,4) in \<open>auto simp: wf_omap_erase omap_erase_of split: if_splits\<close>)
  moreover have other: "im_table_id (xi_meta i) \<noteq> t" if "map_of (ct_indexes c) x = Some i" for x i
    using X(3) [of n "im_index_name (xi_meta i)" x] none that t by auto
  then have same: "map_of (ct_tables ?c) (im_table_id (xi_meta i)) = map_of (ct_tables c) (im_table_id (xi_meta i))"
    if "map_of (ct_indexes c) x = Some i" for x i
    using that by simp
  have "wf_indexes ?c" unfolding wf_indexes_def
  proof (intro conjI allI impI)
    fix tn xn x
    show "index_number ?c tn xn = Some x \<longleftrightarrow> (\<exists>i t. map_of (ct_indexes ?c) x = Some i \<and> im_index_name (xi_meta i) = xn \<and>
           map_of (ct_tables ?c) (im_table_id (xi_meta i)) = Some t \<and> tm_table_name (ti_meta t) = tn)"
      unfolding f(4,6) X(3) using same by (metis (no_types, lifting))
  next
    fix x i
    assume "map_of (ct_indexes ?c) x = Some i"
    then have i: "map_of (ct_indexes c) x = Some i" by simp
    show "im_index_id (xi_meta i) = x" "x < ct_next_index_id ?c" "im_table_id (xi_meta i) \<in> dom (map_of (ct_tables ?c))"
      using X(4) [OF i] other [OF i] by simp_all
  qed (use X(1,2) in auto)
  ultimately show ?thesis by (simp add: wf_catalog_def)
qed

section \<open>The operations keep the invariant\<close>

lemma bind_run_Inr_iff: "bind_run r f = Some (Inr y) \<longleftrightarrow> (\<exists>x. r = Some (Inr x) \<and> f x = Some (Inr y))"
  by (cases r; cases "the r") (auto simp: bind_run_def)

lemma CreateTable_maps:
  assumes "CreateTable rops dops n s (b, c) = Inr ((b', c'), r)"
  shows "(r = DB_TABLE_ALREADY_EXIST \<and> c' = c \<and> b' = b \<and> map_of (ct_table_names c) n \<noteq> None) \<or>
     map_of (ct_table_names c) n = None \<and>
     (r = DB_FAILED \<and> c' = c\<lparr>ct_next_table_id := ct_next_table_id c + 1\<rparr> \<or>
      r = DB_SUCCESS \<and> (\<exists>info p. c' = add_table info p c \<and> ti_meta info =
        TableMetadata_Create (ct_next_table_id c) n (th_first_page_id (ti_heap info)) (DeepCopySchema s)))"
proof (cases "map_of (ct_table_names c) n")
  case None
  obtain b1 th where 1: "TableHeap_create rops dops (DeepCopySchema s) b = Inr (b1, th)"
    using assms None by (auto simp: CreateTable_def bind_result_Inr_iff Let_def)
  obtain b2 page where 2: "NewPage rops dops b1 = Inr (b2, page)"
    using assms None 1 by (auto simp: CreateTable_def bind_result_Inr_iff Let_def)
  let ?m = "TableMetadata_Create (ct_next_table_id c) n (th_first_page_id th) (DeepCopySchema s)"
  show ?thesis
  proof (cases page)
    case None
    then show ?thesis using assms \<open>map_of (ct_table_names c) n = None\<close> 1 2 by (simp add: CreateTable_def Let_def)
  next
    case (Some fp)
    then have "c' = add_table \<lparr>ti_meta = ?m, ti_heap = th\<rparr> (snd fp) c" "r = DB_SUCCESS"
      using assms None 1 2
      by (auto simp: CreateTable_def bind_result_Inr_iff Let_def add_table_def TableMetadata_Create_def split: prod.splits)
    then show ?thesis using None by force
  qed
qed (use assms in \<open>simp add: CreateTable_def\<close>)

lemma id_step: "(n :: 32 word) + 1 \<noteq> 0 \<Longrightarrow> n \<le> n + 1"
  using unatSuc [of n] by (simp add: add.commute word_le_nat_alt)

lemma CreateTable_wf:
  assumes "wf_catalog c" "ct_next_table_id c + 1 \<noteq> 0" "CreateTable rops dops n s (b, c) = Inr ((b', c'), r)"
  shows "wf_catalog c'"
proof -
  consider "c' = c" | "c' = c\<lparr>ct_next_table_id := ct_next_table_id c + 1\<rparr>"
    | info p where "c' = add_table info p c" "map_of (ct_table_names c) n = None"
        "ti_meta info = TableMetadata_Create (ct_next_table_id c) n (th_first_page_id (ti_heap info)) (DeepCopySchema s)"
    using CreateTable_maps [OF assms(3)] by blast
  then show ?thesis
  proof cases
    case 2
    then show ?thesis using wf_same_maps [OF assms(1), of c'] id_step [OF assms(2)] by (simp add: index_number_def [abs_def])
  next
    case (3 info p)
    then show ?thesis using wf_add_table [OF assms(1), of info p] assms(2) by (simp add: TableMetadata_Create_def)
  qed (use assms(1) in simp)
qed

lemma touch_fields [simp]:
  "ct_meta (touch_index_names tn c) = ct_meta c" "ct_table_names (touch_index_names tn c) = ct_table_names c"
  "ct_tables (touch_index_names tn c) = ct_tables c" "ct_indexes (touch_index_names tn c) = ct_indexes c"
  "ct_next_table_id (touch_index_names tn c) = ct_next_table_id c" "ct_next_index_id (touch_index_names tn c) = ct_next_index_id c"
  "names_of (touch_index_names tn c) tn' = names_of c tn'"
  by (auto simp: touch_index_names_def names_of_def update_conv' split: option.split)

lemma IndexInfo_Init_meta: "IndexInfo_Init rops dops m ti b = Inr (b', info) \<Longrightarrow> xi_meta info = m"
  by (auto simp: IndexInfo_Init_def Let_def bind_result_Inr_iff)

lemma finish_index_maps:
  assumes "finish_index rops dops buf idx0 this tn names ti m (b, c) = Some (Inr ((b', c'), r))"
  shows "(r = DB_FAILED \<and> c' = c) \<or>
     (r = DB_SUCCESS \<and> (\<exists>info p. xi_meta info = m \<and> c' = register_index tn names info p c))"
proof -
  obtain b1 info where 1: "IndexInfo_Init rops dops m ti b = Inr (b1, info)"
    using assms by (auto simp: finish_index_def bind_run_Inr_iff)
  obtain b2 it where 2: "heap_Begin rops dops this (b1, ti_heap ti) = Some (Inr (b2, it))"
    using assms 1 by (auto simp: finish_index_def bind_run_Inr_iff)
  obtain b3 index built where 3: "build_index rops dops buf idx0 this (tm_schema (ti_meta ti)) (xi_key_schema info)
      (ti_heap ti) b2 it (xi_index info) = Some (Inr (b3, index, built))"
    using assms 1 2 by (auto simp: finish_index_def bind_run_Inr_iff)
  show ?thesis
  proof (cases built)
    case True
    obtain b4 page where 4: "NewPage rops dops b3 = Inr (b4, page)"
      using assms 1 2 3 True by (auto simp: finish_index_def bind_run_Inr_iff)
    show ?thesis
    proof (cases page)
      case (Some fp)
      have "xi_meta (info\<lparr>xi_index := index\<rparr>) = m" using IndexInfo_Init_meta [OF 1] by simp
      moreover have "c' = register_index tn names (info\<lparr>xi_index := index\<rparr>) (snd fp) c" "r = DB_SUCCESS"
        using assms 1 2 3 4 True Some by (auto simp: finish_index_def bind_run_Inr_iff Let_def split: prod.splits)
      ultimately show ?thesis by blast
    qed (use assms 1 2 3 4 True in \<open>simp add: finish_index_def\<close>)
  qed (use assms 1 2 3 in \<open>simp add: finish_index_def\<close>)
qed

lemma key_columns_error: "key_columns s keys = Inl e \<Longrightarrow> e = DB_COLUMN_NAME_NOT_EXIST"
  by (induction keys arbitrary: e) (auto split: prod.splits dberr_t.splits sum.splits)

lemma CreateIndex_maps:
  assumes "CreateIndex rops dops buf idx0 this tn xn keys (b, c) = Some (Inr ((b', c'), r))"
  shows "(r \<noteq> DB_SUCCESS \<and> (c' = c \<or> c' = touch_index_names tn c \<or>
       c' = (touch_index_names tn c)\<lparr>ct_next_index_id := ct_next_index_id c + 1\<rparr>)) \<or>
     (\<exists>t ti info p key_map. r = DB_SUCCESS \<and> c' = add_index tn info p (touch_index_names tn c) \<and>
        map_of (ct_table_names c) tn = Some t \<and> map_of (ct_tables c) t = Some ti \<and> index_number c tn xn = None \<and>
        key_columns (tm_schema (ti_meta ti)) keys = Inr key_map \<and>
        xi_meta info = IndexMetadata_Create (ct_next_index_id c) xn t key_map)"
proof -
  have names: "(case map_of (ct_index_names c) tn of None \<Rightarrow> [] | Some m \<Rightarrow> m) = names_of c tn" by (simp add: names_of_def)
  have touch: "c\<lparr>ct_index_names := AList.update tn (names_of c tn) (ct_index_names c)\<rparr> = touch_index_names tn c"
    by (simp add: touch_index_names_def)
  have at: "index_number c tn xn = map_of (names_of c tn) xn" by (simp add: index_number_def names_of_def split: option.split)
  note go = assms [unfolded CreateIndex_def prod.case names touch Let_def]
  consider "r \<noteq> DB_SUCCESS" "c' = c \<or> c' = touch_index_names tn c"
    | t ti key_map where "map_of (ct_table_names c) tn = Some t" "map_of (ct_tables c) t = Some ti" "index_number c tn xn = None"
        "key_columns (tm_schema (ti_meta ti)) keys = Inr key_map"
        "finish_index rops dops buf idx0 this tn (names_of c tn) ti (IndexMetadata_Create (ct_next_index_id c) xn t key_map)
           (b, (touch_index_names tn c)\<lparr>ct_next_index_id := ct_next_index_id c + 1\<rparr>) = Some (Inr ((b', c'), r))"
    using go by (auto simp: at split: option.splits if_splits sum.splits dest: key_columns_error)
  then show ?thesis
  proof cases
    case (2 t ti key_map)
    from finish_index_maps [OF 2(5)] show ?thesis
    proof (elim disjE conjE exE)
      fix info p
      assume "r = DB_SUCCESS" "xi_meta info = IndexMetadata_Create (ct_next_index_id c) xn t key_map"
        "c' = register_index tn (names_of c tn) info p ((touch_index_names tn c)\<lparr>ct_next_index_id := ct_next_index_id c + 1\<rparr>)"
      then show ?thesis using 2(1-4) by (auto simp: add_index_def)
    qed simp
  qed auto
qed

lemma CreateIndex_wf:
  assumes "wf_catalog c" "ct_next_index_id c + 1 \<noteq> 0"
    "CreateIndex rops dops buf idx0 this tn xn keys (b, c) = Some (Inr ((b', c'), r))"
  shows "wf_catalog c'"
proof -
  let ?c = "touch_index_names tn c"
  have wf: "wf_catalog ?c" by (rule wf_same_maps [OF assms(1)]) simp_all
  from CreateIndex_maps [OF assms(3)]
  consider "c' = c" | "c' = ?c" | "c' = ?c\<lparr>ct_next_index_id := ct_next_index_id c + 1\<rparr>"
    | t info p key_map where "c' = add_index tn info p ?c" "map_of (ct_table_names c) tn = Some t" "index_number c tn xn = None"
        "xi_meta info = IndexMetadata_Create (ct_next_index_id c) xn t key_map" by blast
  then show ?thesis
  proof cases
    case 3
    then show ?thesis using id_step [OF assms(2)] by (intro wf_same_maps [OF wf]) (simp_all add: index_number_def [abs_def])
  next
    case (4 t info p key_map)
    then show ?thesis using wf_add_index [OF wf, of tn info p] assms(2) by (simp add: IndexMetadata_Create_def)
  qed (use assms(1) wf in simp_all)
qed

lemma DropIndex_maps:
  assumes "DropIndex rops dops tn xn (b, c) = Some (Inr ((b', c'), r))" "wf_catalog c"
  shows "(r = DB_INDEX_NOT_FOUND \<and> c' = c \<and> b' = b \<and> index_number c tn xn = None) \<or>
     (r = DB_SUCCESS \<and> (\<exists>x. index_number c tn xn = Some x \<and> c' = remove_index tn xn x c))"
proof (cases "index_number c tn xn")
  case None
  then show ?thesis using assms(1) by (auto simp: DropIndex_def index_number_def split: option.splits)
next
  case (Some x)
  then obtain names where n: "map_of (ct_index_names c) tn = Some names" "map_of names xn = Some x"
    by (auto simp: index_number_def split: option.splits)
  obtain info where i: "map_of (ct_indexes c) x = Some info"
    using wf_indexesD(3) [of c tn xn x] assms(2) Some by (auto simp: wf_catalog_def)
  then obtain p where p: "map_of (index_meta_pages (ct_meta c)) x = Some p"
    using wf_indexesD(2) [of c] assms(2) by (auto simp: wf_catalog_def)
  have "c' = remove_index tn xn x c" "r = DB_SUCCESS"
    using assms(1) n i p by (auto simp: DropIndex_def bind_run_Inr_iff Let_def DeleteIndexMetaPage_def remove_index_def names_of_def split: prod.splits)
  then show ?thesis using Some by blast
qed

lemma remove_index_fields [simp]:
  "ct_tables (remove_index tn xn x c) = ct_tables c" "ct_table_names (remove_index tn xn x c) = ct_table_names c"
  by (simp_all add: remove_index_def Let_def)

lemma DropIndex_wf:
  assumes "wf_catalog c" "DropIndex rops dops tn xn (b, c) = Some (Inr ((b', c'), r))"
  shows "wf_catalog c'" "ct_tables c' = ct_tables c" "ct_table_names c' = ct_table_names c"
    "index_number c' tn' xn' = (if tn' = tn \<and> xn' = xn then None else index_number c tn' xn')"
  using DropIndex_maps [OF assms(2,1)] wf_remove_index [OF assms(1)] assms(1) by (auto simp: index_number_remove)

lemma drop_indexes_wf:
  assumes "wf_catalog c" "drop_indexes rops dops tn ns (b, c) = Some (Inr (b', c'))"
  shows "wf_catalog c' \<and> ct_tables c' = ct_tables c \<and> ct_table_names c' = ct_table_names c \<and>
     (\<forall>xn. index_number c' tn xn = (if xn \<in> set ns then None else index_number c tn xn))"
  using assms
proof (induction ns arbitrary: b c)
  case (Cons n ns)
  then obtain b1 c1 r where 1: "DropIndex rops dops tn n (b, c) = Some (Inr ((b1, c1), r))"
    "drop_indexes rops dops tn ns (b1, c1) = Some (Inr (b', c'))" by (auto simp: bind_run_Inr_iff)
  note D = DropIndex_wf [OF Cons.prems(1) 1(1)]
  from Cons.IH [OF D(1) 1(2)] D(2-) show ?case by auto
qed simp

lemma DropTable_id_maps:
  assumes "DropTable_id rops dops t (b, c) = Some (Inr ((b', c'), r))" "map_of (ct_tables c) t = Some ti"
  obtains b1 c1 where "drop_indexes rops dops (tm_table_name (ti_meta ti)) (map fst (names_of c (tm_table_name (ti_meta ti)))) (b, c) =
      Some (Inr (b1, c1))" "c' = remove_table t (tm_table_name (ti_meta ti)) c1" "r = DB_SUCCESS"
proof -
  let ?n = "tm_table_name (ti_meta ti)"
  have ns: "(case map_of (ct_index_names c) ?n of None \<Rightarrow> [] | Some m \<Rightarrow> map fst m) = map fst (names_of c ?n)"
    by (simp add: names_of_def split: option.split)
  obtain b1 c1 where 1: "drop_indexes rops dops ?n (map fst (names_of c ?n)) (b, c) = Some (Inr (b1, c1))"
    using assms by (auto simp: DropTable_id_def Let_def ns bind_run_Inr_iff)
  then have "c' = remove_table t ?n c1" "r = DB_SUCCESS"
    using assms by (auto simp: DropTable_id_def Let_def ns bind_run_Inr_iff remove_table_def)
  with 1 show thesis by (rule that)
qed

lemma index_number_names: "index_number c n xn = map_of (names_of c n) xn"
  by (simp add: index_number_def names_of_def split: option.split)

lemma DropTable_id_wf:
  assumes "wf_catalog c" "DropTable_id rops dops t (b, c) = Some (Inr ((b', c'), r))"
  shows "wf_catalog c'"
proof (cases "map_of (ct_tables c) t")
  case None
  then show ?thesis using assms by (simp add: DropTable_id_def)
next
  case (Some ti)
  let ?n = "tm_table_name (ti_meta ti)"
  obtain b1 c1 where 1: "drop_indexes rops dops ?n (map fst (names_of c ?n)) (b, c) = Some (Inr (b1, c1))"
    "c' = remove_table t ?n c1" by (rule DropTable_id_maps [OF assms(2) Some])
  note D = drop_indexes_wf [OF assms(1) 1(1)]
  have "index_number c1 ?n xn = None" for xn
    using D by (auto simp: index_number_names [of c] map_of_eq_None_iff)
  then show ?thesis unfolding 1(2) using D Some by (intro wf_remove_table) simp_all
qed

lemma DropTable_wf:
  "wf_catalog c \<Longrightarrow> DropTable rops dops n (b, c) = Some (Inr ((b', c'), r)) \<Longrightarrow> wf_catalog c'"
  using DropTable_id_wf by (fastforce simp: DropTable_def split: option.splits)

section \<open>Reachable catalogs\<close>

text \<open>The states of a catalog from its creation on: the public operations in any order and with any outcome, and the changes
  its clients make to a table heap or an index through the pointers the catalog gives out. Numbers are 32 bits wide: the
  rules for creation stop before the counter wraps around, after which a new table would take over the number of an old one.\<close>

inductive catalog_reachable :: "'r replacer_ops \<Rightarrow> 'd disk_ops \<Rightarrow> Catalog \<Rightarrow> bool" for rops dops where
  new_catalog: "catalog_reachable rops dops (Catalog_of_meta CatalogMeta_NewInstance)"
| create_table: "catalog_reachable rops dops c \<Longrightarrow> ct_next_table_id c + 1 \<noteq> 0 \<Longrightarrow>
     CreateTable rops dops n s (b, c) = Inr ((b', c'), r) \<Longrightarrow> catalog_reachable rops dops c'"
| create_index: "catalog_reachable rops dops c \<Longrightarrow> ct_next_index_id c + 1 \<noteq> 0 \<Longrightarrow>
     CreateIndex rops dops buf idx0 this n xn keys (b, c) = Some (Inr ((b', c'), r)) \<Longrightarrow> catalog_reachable rops dops c'"
| drop_index: "catalog_reachable rops dops c \<Longrightarrow>
     DropIndex rops dops n xn (b, c) = Some (Inr ((b', c'), r)) \<Longrightarrow> catalog_reachable rops dops c'"
| drop_table: "catalog_reachable rops dops c \<Longrightarrow>
     DropTable rops dops n (b, c) = Some (Inr ((b', c'), r)) \<Longrightarrow> catalog_reachable rops dops c'"
| use_table: "catalog_reachable rops dops c \<Longrightarrow> map_of (ct_tables c) t = Some i \<Longrightarrow>
     catalog_reachable rops dops (c\<lparr>ct_tables := AList.update t (i\<lparr>ti_heap := th\<rparr>) (ct_tables c)\<rparr>)"
| use_index: "catalog_reachable rops dops c \<Longrightarrow> map_of (ct_indexes c) x = Some j \<Longrightarrow>
     catalog_reachable rops dops (c\<lparr>ct_indexes := AList.update x (j\<lparr>xi_index := bi\<rparr>) (ct_indexes c)\<rparr>)"

lemma wf_use_table:
  assumes "wf_catalog c" "map_of (ct_tables c) t = Some i"
  shows "wf_catalog (c\<lparr>ct_tables := AList.update t (i\<lparr>ti_heap := th\<rparr>) (ct_tables c)\<rparr>)"
proof -
  let ?c = "c\<lparr>ct_tables := AList.update t (i\<lparr>ti_heap := th\<rparr>) (ct_tables c)\<rparr>"
  have m: "(\<exists>j. map_of (ct_tables ?c) t' = Some j \<and> P (ti_meta j)) \<longleftrightarrow> (\<exists>j. map_of (ct_tables c) t' = Some j \<and> P (ti_meta j))" for t' P
    using assms(2) by (auto simp: update_conv')
  have d: "dom (map_of (ct_tables ?c)) = dom (map_of (ct_tables c))" using assms(2) by (auto simp: update_conv')
  have a: "index_number ?c = index_number c" by (simp add: index_number_def [abs_def])
  have 1: "map_of (ct_tables ?c) t' = Some j \<Longrightarrow> \<exists>k. map_of (ct_tables c) t' = Some k \<and> ti_meta k = ti_meta j" for t' j
    using m [of t' "\<lambda>x. x = ti_meta j"] by auto
  note T = wf_tablesD [OF assms(1) [unfolded wf_catalog_def, THEN conjunct1]]
  note X = wf_indexesD [OF assms(1) [unfolded wf_catalog_def, THEN conjunct2]]
  have "map_of (ct_table_names c) n = Some t' \<longleftrightarrow> (\<exists>j. map_of (ct_tables ?c) t' = Some j \<and> tm_table_name (ti_meta j) = n)" for n t'
    using T(3) [of n t'] m [of t' "\<lambda>x. tm_table_name x = n"] by simp
  moreover have "tm_table_id (ti_meta j) = t' \<and> t' < ct_next_table_id c" if "map_of (ct_tables ?c) t' = Some j" for t' j
    using 1 [OF that] T(4) by force
  ultimately have "wf_tables ?c" unfolding wf_tables_def d using T(1,2) by simp
  moreover have "(\<exists>k u. map_of (ct_indexes c) x = Some k \<and> im_index_name (xi_meta k) = xn \<and>
      map_of (ct_tables ?c) (im_table_id (xi_meta k)) = Some u \<and> tm_table_name (ti_meta u) = tn) \<longleftrightarrow> index_number c tn xn = Some x" for tn xn x
    unfolding X(3) using m [of _ "\<lambda>x. tm_table_name x = tn"] by metis
  then have "wf_indexes ?c" unfolding wf_indexes_def a d using X(1,2,4) by simp
  ultimately show ?thesis by (simp add: wf_catalog_def)
qed

lemma wf_use_index:
  assumes "wf_catalog c" "map_of (ct_indexes c) x = Some j"
  shows "wf_catalog (c\<lparr>ct_indexes := AList.update x (j\<lparr>xi_index := bi\<rparr>) (ct_indexes c)\<rparr>)"
proof -
  let ?c = "c\<lparr>ct_indexes := AList.update x (j\<lparr>xi_index := bi\<rparr>) (ct_indexes c)\<rparr>"
  have m: "(\<exists>i. map_of (ct_indexes ?c) x' = Some i \<and> P (xi_meta i)) \<longleftrightarrow> (\<exists>i. map_of (ct_indexes c) x' = Some i \<and> P (xi_meta i))" for x' P
    using assms(2) by (auto simp: update_conv')
  have d: "dom (map_of (ct_indexes ?c)) = dom (map_of (ct_indexes c))" using assms(2) by (auto simp: update_conv')
  have a: "index_number ?c = index_number c" by (simp add: index_number_def [abs_def])
  note X = wf_indexesD [OF assms(1) [unfolded wf_catalog_def, THEN conjunct2]]
  have "wf_tables ?c" using assms(1) by (simp add: wf_catalog_def wf_tables_def)
  moreover have "index_number c tn xn = Some y \<longleftrightarrow> (\<exists>i t. map_of (ct_indexes ?c) y = Some i \<and> im_index_name (xi_meta i) = xn \<and>
      map_of (ct_tables c) (im_table_id (xi_meta i)) = Some t \<and> tm_table_name (ti_meta t) = tn)" for tn xn y
    using X(3) [of tn xn y] m [of y "\<lambda>k. im_index_name k = xn \<and> (\<exists>t. map_of (ct_tables c) (im_table_id k) = Some t \<and> tm_table_name (ti_meta t) = tn)"]
    by auto
  moreover have "im_index_id (xi_meta i) = y \<and> y < ct_next_index_id c \<and> im_table_id (xi_meta i) \<in> dom (map_of (ct_tables c))"
    if "map_of (ct_indexes ?c) y = Some i" for y i
    using m [of y "\<lambda>k. k = xi_meta i"] that X(4) [of y] by auto
  ultimately show ?thesis using X(1,2) d unfolding wf_catalog_def wf_indexes_def a by simp
qed

lemma reachable_wf: "catalog_reachable rops dops c \<Longrightarrow> wf_catalog c"
  by (induction rule: catalog_reachable.induct)
    (blast intro: wf_catalog_new CreateTable_wf CreateIndex_wf DropIndex_wf DropTable_wf wf_use_table wf_use_index)+

text \<open>The index names of a table are listed once.\<close>

definition tidy :: "Catalog \<Rightarrow> bool" where
  "tidy c \<longleftrightarrow> (\<forall>n m. map_of (ct_index_names c) n = Some m \<longrightarrow> distinct (map fst m))"

lemma tidy_names: "tidy c \<Longrightarrow> distinct (map fst (names_of c n))"
  by (auto simp: tidy_def names_of_def split: option.split)

lemma tidy_update: "tidy c \<Longrightarrow> distinct (map fst m) \<Longrightarrow> tidy (c\<lparr>ct_index_names := AList.update n m (ct_index_names c)\<rparr>)"
  by (auto simp: tidy_def update_conv')

lemma tidy_same: "tidy c \<Longrightarrow> ct_index_names c' = ct_index_names c \<Longrightarrow> tidy c'"
  by (simp add: tidy_def)

lemma tidy_touch: "tidy c \<Longrightarrow> tidy (touch_index_names n c)"
  by (simp add: touch_index_names_def tidy_update tidy_names)

lemma tidy_add_index: "tidy c \<Longrightarrow> tidy (add_index n info p c)"
  using distinct_update [OF tidy_names, of c "im_index_name (xi_meta info)" "im_index_id (xi_meta info)" n]
  by (auto simp: tidy_def add_index_def register_index_def Let_def update_conv' split: if_splits)

lemma tidy_remove_index: "tidy c \<Longrightarrow> tidy (remove_index n xn x c)"
  using distinct_delete [OF tidy_names, of c xn n]
  by (auto simp: tidy_def remove_index_def Let_def update_conv' delete_conv' split: if_splits)

lemma drop_indexes_tidy:
  assumes "wf_catalog c" "tidy c" "drop_indexes rops dops n ns (b, c) = Some (Inr (b', c'))"
  shows "tidy c'"
  using assms
proof (induction ns arbitrary: b c)
  case (Cons m ns)
  then obtain b1 c1 r where 1: "DropIndex rops dops n m (b, c) = Some (Inr ((b1, c1), r))"
    "drop_indexes rops dops n ns (b1, c1) = Some (Inr (b', c'))" by (auto simp: bind_run_Inr_iff)
  have "tidy c1" using DropIndex_maps [OF 1(1) Cons.prems(1)] Cons.prems(2) tidy_remove_index by blast
  then show ?case by (rule Cons.IH [OF DropIndex_wf(1) [OF Cons.prems(1) 1(1)] _ 1(2)])
qed simp

lemma DropTable_tidy:
  assumes "wf_catalog c" "tidy c" "DropTable rops dops n (b, c) = Some (Inr ((b', c'), r))"
  shows "tidy c'"
proof -
  consider "c' = c" | t where "DropTable_id rops dops t (b, c) = Some (Inr ((b', c'), r))"
    using assms(3) by (auto simp: DropTable_def split: option.splits)
  then show ?thesis
  proof cases
    case (2 t)
    show ?thesis
    proof (cases "map_of (ct_tables c) t")
      case (Some ti)
      obtain b1 c1 where 1: "drop_indexes rops dops (tm_table_name (ti_meta ti)) (map fst (names_of c (tm_table_name (ti_meta ti)))) (b, c) =
          Some (Inr (b1, c1))" "c' = remove_table t (tm_table_name (ti_meta ti)) c1" by (rule DropTable_id_maps [OF 2 Some])
      show ?thesis by (rule tidy_same [OF drop_indexes_tidy [OF assms(1,2) 1(1)]]) (simp add: 1(2) remove_table_def Let_def)
    qed (use 2 assms(2) in \<open>simp add: DropTable_id_def\<close>)
  qed (use assms(2) in simp)
qed

lemma reachable_tidy: "catalog_reachable rops dops c \<Longrightarrow> tidy c"
proof (induction rule: catalog_reachable.induct)
  case new_catalog
  show ?case by (simp add: tidy_def Catalog_of_meta_def)
next
  case (create_table c n s b b' c' r)
  have "ct_index_names c' = ct_index_names c"
    using CreateTable_maps [OF create_table(3)] by (auto simp: add_table_def Let_def)
  with create_table(4) show ?case by (rule tidy_same)
next
  case (create_index c buf idx0 this n xn keys b b' c' r)
  have "tidy ((touch_index_names n c)\<lparr>ct_next_index_id := ct_next_index_id c + 1\<rparr>)"
    by (rule tidy_same [OF tidy_touch [OF create_index(4)]]) simp
  then show ?case
    using CreateIndex_maps [OF create_index(3)] tidy_touch [OF create_index(4)] create_index(4) tidy_add_index by blast
next
  case (drop_index c n xn b b' c' r)
  then show ?case using DropIndex_maps [OF drop_index(2) reachable_wf [OF drop_index(1)]] tidy_remove_index by blast
next
  case (drop_table c n b b' c' r)
  then show ?case by (blast intro: DropTable_tidy reachable_wf)
qed (simp_all add: tidy_def)

lemma at_all_known:
  "(\<And>x. x \<in> set xs \<Longrightarrow> map_of m x \<noteq> None) \<Longrightarrow> at_all m xs = Inr (map (\<lambda>x. the (map_of m x)) xs)"
  by (induction xs) (auto split: option.split)

text \<open>The indexes of the table with a given name.\<close>

definition indexes_of :: "Catalog \<Rightarrow> byte list \<Rightarrow> IndexInfo set" where
  "indexes_of c n = {j. \<exists>x t. map_of (ct_indexes c) x = Some j \<and> map_of (ct_tables c) (im_table_id (xi_meta j)) = Some t \<and>
     tm_table_name (ti_meta t) = n}"

lemma GetTableIndexes_exact:
  assumes "wf_catalog c" "tidy c"
  shows "\<exists>infos. GetTableIndexes n c = Inr infos \<and> set infos = indexes_of c n"
proof -
  note X = wf_indexesD [OF assms(1) [unfolded wf_catalog_def, THEN conjunct2]]
  have at: "\<exists>xn. index_number c n xn = Some x" if "x \<in> set (map snd (names_of c n))" for x
    using that tidy_names [OF assms(2), of n] by (auto simp: index_number_names)
  have "map_of (ct_indexes c) x \<noteq> None" if "x \<in> set (map snd (names_of c n))" for x
    using at [OF that] unfolding X(3) by auto
  then have all: "at_all (ct_indexes c) (map snd (names_of c n)) = Inr (map (\<lambda>x. the (map_of (ct_indexes c) x)) (map snd (names_of c n)))"
    by (rule at_all_known)
  have get: "GetTableIndexes n c = at_all (ct_indexes c) (map snd (names_of c n))"
    by (simp add: GetTableIndexes_def names_of_def split: option.split)
  have "(\<lambda>x. the (map_of (ct_indexes c) x)) ` set (map snd (names_of c n)) = indexes_of c n" (is "?f ` ?s = _")
  proof (intro set_eqI iffI)
    fix j assume "j \<in> ?f ` ?s"
    then obtain x where "x \<in> ?s" "j = ?f x" by blast
    then show "j \<in> indexes_of c n" using at [of x] unfolding X(3) by (auto simp: indexes_of_def)
  next
    fix j assume "j \<in> indexes_of c n"
    then obtain x where x: "map_of (ct_indexes c) x = Some j" "index_number c n (im_index_name (xi_meta j)) = Some x"
      unfolding indexes_of_def X(3) by blast
    then have "x \<in> ?s" by (auto simp: index_number_names dest!: map_of_SomeD intro: rev_image_eqI)
    with x(1) show "j \<in> ?f ` ?s" by force
  qed
  then show ?thesis unfolding get all by (simp add: image_image)
qed

section \<open>Properties\<close>

text \<open>C38. In every reachable catalog the lookups agree with the registered tables and indexes: a table is found under its name and under
  no other, \<^verbatim>\<open>GetTableIndexes\<close> gives exactly the indexes on the table, \<^verbatim>\<open>GetIndex\<close> finds an index under its table and its name and
  never runs into a missing entry, and the catalog page lists the metadata pages of exactly the registered tables and
  indexes.\<close>

theorem catalog_lookups_agree:
  assumes "catalog_reachable rops dops c"
  shows "(GetTable n c = (DB_SUCCESS, Some i) \<longleftrightarrow> (\<exists>t. map_of (ct_tables c) t = Some i \<and> tm_table_name (ti_meta i) = n)) \<and>
     (\<exists>infos. GetTableIndexes n c = Inr infos \<and> set infos = indexes_of c n) \<and>
     (\<exists>r. GetIndex n xn c = Inr r) \<and>
     (GetIndex n xn c = Inr (DB_SUCCESS, Some j) \<longleftrightarrow> j \<in> indexes_of c n \<and> im_index_name (xi_meta j) = xn) \<and>
     fst ` set (table_meta_pages (ct_meta c)) = dom (map_of (ct_tables c)) \<and>
     fst ` set (index_meta_pages (ct_meta c)) = dom (map_of (ct_indexes c))"
proof -
  note wf = reachable_wf [OF assms] and td = reachable_tidy [OF assms]
  note T = wf_tablesD [OF wf [unfolded wf_catalog_def, THEN conjunct1]]
  note X = wf_indexesD [OF wf [unfolded wf_catalog_def, THEN conjunct2]]
  have "GetTable n c = (DB_SUCCESS, Some i) \<longleftrightarrow> (\<exists>t. map_of (ct_table_names c) n = Some t \<and> map_of (ct_tables c) t = Some i)"
    by (auto simp: GetTable_def GetTable_id_def split: option.split)
  then have "GetTable n c = (DB_SUCCESS, Some i) \<longleftrightarrow> (\<exists>t. map_of (ct_tables c) t = Some i \<and> tm_table_name (ti_meta i) = n)"
    unfolding T(3) by auto
  moreover have gi: "GetIndex n xn c = (case index_number c n xn of None \<Rightarrow> Inr (DB_INDEX_NOT_FOUND, None)
      | Some x \<Rightarrow> (case map_of (ct_indexes c) x of None \<Rightarrow> Inl (Thrown ''out_of_range'') | Some k \<Rightarrow> Inr (DB_SUCCESS, Some k)))"
    by (simp add: GetIndex_def index_number_def split: option.split)
  moreover have "map_of (ct_indexes c) x \<noteq> None" if "index_number c n xn = Some x" for x using that unfolding X(3) by auto
  then have "\<exists>r. GetIndex n xn c = Inr r" by (auto simp: gi split: option.split)
  moreover have "GetIndex n xn c = Inr (DB_SUCCESS, Some j) \<longleftrightarrow> (\<exists>x. index_number c n xn = Some x \<and> map_of (ct_indexes c) x = Some j)"
    by (auto simp: gi split: option.split)
  then have "GetIndex n xn c = Inr (DB_SUCCESS, Some j) \<longleftrightarrow> j \<in> indexes_of c n \<and> im_index_name (xi_meta j) = xn"
    unfolding X(3) indexes_of_def by auto
  ultimately show ?thesis
    using GetTableIndexes_exact [OF wf td, of n] T(2) X(2) by (simp add: dom_map_of_conv_image_fst)
qed

end
