(* ===== verification/Catalog_Store.thy ===== *)
theory Catalog_Store
  imports Catalog_Inv Tree_Store
begin

text \<open>
  The catalog over the buffer pool and the disk manager of the program: a table that is created is in the catalog and in the
  metadata pages, and a catalog that is opened on those pages has the same tables, with their rows, and the same indexes.
\<close>

section \<open>Single pages between two calls\<close>

lemma quiet_read:
  assumes "quiet b" "db_pages b p = Some d"
  obtains b1 f b2 where "FetchPage lru_ops disk_manager_ops p b = Inr (b1, Some f)" "fdata b1 f = d"
    "UnpinPage lru_ops p False b1 = (b2, True)" "quiet b2" "db_pages b2 = db_pages b" "pool_size b2 = pool_size b"
proof -
  note Q = quiet_pool [OF assms(1)]
  have p: "bp.store b p = Some d" "p \<notin> bp.unsaved b" using assms(2) Q(5) by (simp_all add: store_db)
  obtain b1 f b2 where 1: "FetchPage lru_ops disk_manager_ops p b = Inr (b1, Some f)" "fdata b1 f = d"
    "UnpinPage lru_ops p False b1 = (b2, True)" "bp.runs {} b b2" "bp.store b2 = bp.store b"
    by (rule bp.session_read [OF Q(1) p(1) Q(4) p(2)])
  show thesis by (rule that [OF 1(1-3)]) (use 1(4,5) quiet_runs [OF assms(1) 1(4)] bp.runsD(2) [OF 1(4)] in \<open>simp_all add: store_db\<close>)
qed

lemma quiet_overwrite:
  assumes "quiet b" "db_pages b p = Some d" "length data = PAGE_SIZE"
  obtains b1 f b2 where "FetchPage lru_ops disk_manager_ops p b = Inr (b1, Some f)" "fdata b1 f = d"
    "UnpinPage lru_ops p True (write_frame f data b1) = (b2, True)" "quiet b2" "db_pages b2 = (db_pages b)(p \<mapsto> data)"
    "disk_allocated (bpm_disk b2) = disk_allocated (bpm_disk b)" "pool_size b2 = pool_size b"
proof -
  note Q = quiet_pool [OF assms(1)]
  have p: "bp.store b p = Some d" using assms(2) by (simp add: store_db)
  obtain b1 f where 1: "FetchPage lru_ops disk_manager_ops p b = Inr (b1, Some f)" "bp.held {} (one p) b b1"
    "pinned_at b1 p f" "fdata b1 f = d" "bp.store b1 = bp.store b" "spares b \<le> Suc (spares b1)"
    "disk_allocated (bpm_disk b1) = disk_allocated (bpm_disk b)"
    by (rule bp.held_Fetch [OF Q(1) p Q(4)])
  have f: "page_table b1 p = Some f" "0 < pins b1 p" using 1(3) by (simp_all add: pinned_at_def)
  note W = bp.runs_write [OF bp.held_ok [OF 1(2)] f assms(3)]
  have h: "bp.held ({} \<union> {p}) (one p) b (write_frame f data b1)" by (rule bp.held_run [OF 1(2) W(1)]) (simp add: one_def)
  obtain b2 where 2: "UnpinPage lru_ops p True (write_frame f data b1) = (b2, True)"
    "bp.held ({} \<union> {p} - (if True then {p} else {})) (\<lambda>q. one p q - one p q) b b2"
    "bp.store b2 = bp.store (write_frame f data b1)" "bpm_disk b2 = bpm_disk (write_frame f data b1)"
    by (rule bp.held_Unpin [OF h, of p True]) (use Q(2) in \<open>simp_all add: one_def\<close>)
  have r: "bp.runs {} b b2" using 2(2) by (simp add: bp.held_runs)
  show thesis
    by (rule that [OF 1(1,4) 2(1) quiet_runs [OF assms(1) r]])
      (use 1(5,7) 2(3,4) W(2,3) bp.runsD(2) [OF r] in \<open>simp_all add: store_db\<close>)
qed

lemma quiet_new:
  assumes "quiet b" "disk_room (bpm_disk b)"
  obtains b1 f p where "NewPage lru_ops disk_manager_ops b = Inr (b1, Some (f, p))" "fdata b1 f = zero_page" "db_pages b p = None"
    "p \<noteq> INVALID_PAGE_ID"
    "\<And>data. length data = PAGE_SIZE \<Longrightarrow> \<exists>b2. UnpinPage lru_ops p True (write_frame f data b1) = (b2, True) \<and> quiet b2 \<and>
       db_pages b2 = (db_pages b)(p \<mapsto> data) \<and> disk_allocated (bpm_disk b2) = insert p (disk_allocated (bpm_disk b)) \<and>
       pool_size b2 = pool_size b"
proof -
  note Q = quiet_pool [OF assms(1)]
  obtain b1 f p where 1: "NewPage lru_ops disk_manager_ops b = Inr (b1, Some (f, p))" "bp.held {p} (one p) b b1" "pinned_at b1 p f"
    "fdata b1 f = zero_page" "bp.store b p = None" "p \<noteq> INVALID_PAGE_ID" "bp.store b1 = (bp.store b)(p \<mapsto> zero_page)"
    "spares b \<le> Suc (spares b1)" "disk_allocated (bpm_disk b1) = insert p (disk_allocated (bpm_disk b))"
    by (rule bp.held_New [OF Q(1) assms(2) Q(4)])
  have f: "page_table b1 p = Some f" "0 < pins b1 p" using 1(3) by (simp_all add: pinned_at_def)
  have "\<exists>b2. UnpinPage lru_ops p True (write_frame f data b1) = (b2, True) \<and> quiet b2 \<and>
       db_pages b2 = (db_pages b)(p \<mapsto> data) \<and> disk_allocated (bpm_disk b2) = insert p (disk_allocated (bpm_disk b)) \<and>
       pool_size b2 = pool_size b" if "length data = PAGE_SIZE" for data
  proof -
    note W = bp.runs_write [OF bp.held_ok [OF 1(2)] f that]
    have h: "bp.held ({p} \<union> {p}) (one p) b (write_frame f data b1)" by (rule bp.held_run [OF 1(2) W(1)]) (simp add: one_def)
    obtain b2 where 2: "UnpinPage lru_ops p True (write_frame f data b1) = (b2, True)"
      "bp.held ({p} \<union> {p} - (if True then {p} else {})) (\<lambda>q. one p q - one p q) b b2"
      "bp.store b2 = bp.store (write_frame f data b1)" "bpm_disk b2 = bpm_disk (write_frame f data b1)"
      by (rule bp.held_Unpin [OF h, of p True]) (use Q(2) in \<open>simp_all add: one_def\<close>)
    have r: "bp.runs {} b b2" using 2(2) by (simp add: bp.held_runs)
    show ?thesis using 1(7,9) 2(1,3,4) W(2,3) quiet_runs [OF assms(1) r] bp.runsD(2) [OF r] by (simp add: store_db)
  qed
  with 1(1,4,5,6) show thesis using that by (simp add: store_db)
qed

section \<open>The pages of a catalog\<close>

definition catalog_page :: "CatalogMeta \<Rightarrow> byte list" where
  "catalog_page m = wr zero_page 0 (catalog_meta_enc m)"

definition table_meta_page :: "TableMetadata \<Rightarrow> byte list" where
  "table_meta_page m = wr zero_page 0 (table_meta_enc m)"

definition index_meta_page :: "IndexMetadata \<Rightarrow> byte list" where
  "index_meta_page m = wr zero_page 0 (index_meta_enc m)"

lemma length_zero_page: "length zero_page = PAGE_SIZE"
  by (simp add: zero_page_def)

lemma catalog_page_facts:
  assumes "wf_catalog_meta m"
  shows "catalog_meta_SerializeTo m (replicate PAGE_SIZE 0) = Inr (catalog_page m)" "length (catalog_page m) = PAGE_SIZE"
    "catalog_meta_DeserializeFrom (catalog_page m) = Inr m"
proof -
  have n: "length (catalog_meta_enc m) \<le> length zero_page"
    using assms by (simp add: wf_catalog_meta_def length_catalog_meta_enc length_zero_page)
  show "catalog_meta_SerializeTo m (replicate PAGE_SIZE 0) = Inr (catalog_page m)"
    using catalog_meta_ser_enc [OF assms length_zero_page] by (simp add: catalog_page_def zero_page_def)
  show l: "length (catalog_page m) = PAGE_SIZE" using n by (simp add: catalog_page_def length_zero_page)
  show "catalog_meta_DeserializeFrom (catalog_page m) = Inr m"
    by (rule catalog_meta_des_enc [OF assms l]) (use n in \<open>simp add: catalog_page_def rd_wr_same\<close>)
qed

lemma table_meta_page_facts:
  assumes "table_meta_ok () m"
  shows "table_meta_SerializeTo m zero_page 0 = Inr (table_meta_page m, length (table_meta_enc m))"
    "length (table_meta_page m) = PAGE_SIZE" "table_meta_DeserializeFrom () (table_meta_page m) 0 = Inr (m, length (table_meta_enc m))"
proof -
  have n: "0 + length (table_meta_enc m) \<le> length zero_page" using assms by (simp add: table_meta_ok_def length_zero_page)
  show "table_meta_SerializeTo m zero_page 0 = Inr (table_meta_page m, length (table_meta_enc m))"
    using table_meta_ser_enc [OF assms n] by (simp add: table_meta_page_def)
  show "length (table_meta_page m) = PAGE_SIZE" using n by (simp add: table_meta_page_def length_zero_page)
  show "table_meta_DeserializeFrom () (table_meta_page m) 0 = Inr (m, length (table_meta_enc m))"
    by (rule table_meta_des_enc [OF assms]) (use n in \<open>simp_all add: table_meta_page_def rd_wr_same\<close>)
qed

lemma index_meta_page_facts:
  assumes "index_meta_ok () m"
  shows "index_meta_SerializeTo m zero_page 0 = Inr (index_meta_page m, length (index_meta_enc m))"
    "length (index_meta_page m) = PAGE_SIZE" "index_meta_DeserializeFrom () (index_meta_page m) 0 = Inr (m, length (index_meta_enc m))"
proof -
  have n: "0 + length (index_meta_enc m) \<le> length zero_page" using assms by (simp add: index_meta_ok_def length_zero_page)
  show "index_meta_SerializeTo m zero_page 0 = Inr (index_meta_page m, length (index_meta_enc m))"
    using index_meta_ser_enc [OF assms n] by (simp add: index_meta_page_def)
  show "length (index_meta_page m) = PAGE_SIZE" using n by (simp add: index_meta_page_def length_zero_page)
  show "index_meta_DeserializeFrom () (index_meta_page m) 0 = Inr (m, length (index_meta_enc m))"
    by (rule index_meta_des_enc [OF assms]) (use n in \<open>simp_all add: index_meta_page_def rd_wr_same\<close>)
qed

text \<open>The metadata pages of the tables and indexes of a catalog hold what the catalog has in memory; \<open>catalog_saved\<close> adds the catalog page.\<close>

definition metas_saved :: "page_map \<Rightarrow> Catalog \<Rightarrow> bool" where
  "metas_saved S c \<longleftrightarrow>
     (\<forall>t p i. map_of (table_meta_pages (ct_meta c)) t = Some p \<and> map_of (ct_tables c) t = Some i \<longrightarrow>
        table_meta_ok () (ti_meta i) \<and> p \<noteq> CATALOG_META_PAGE_ID \<and> S p = Some (table_meta_page (ti_meta i))) \<and>
     (\<forall>x p j. map_of (index_meta_pages (ct_meta c)) x = Some p \<and> map_of (ct_indexes c) x = Some j \<longrightarrow>
        index_meta_ok () (xi_meta j) \<and> p \<noteq> CATALOG_META_PAGE_ID \<and> S p = Some (index_meta_page (xi_meta j)))"

definition catalog_saved :: "page_map \<Rightarrow> Catalog \<Rightarrow> bool" where
  "catalog_saved S c \<longleftrightarrow> wf_catalog_meta (ct_meta c) \<and> S CATALOG_META_PAGE_ID = Some (catalog_page (ct_meta c)) \<and> metas_saved S c"

lemma Flush_law:
  assumes "quiet b" "db_pages b CATALOG_META_PAGE_ID = Some d" "wf_catalog_meta (ct_meta c)"
  obtains b' where "FlushCatalogMetaPage lru_ops disk_manager_ops (b, c) = Inr (b', DB_SUCCESS)" "quiet b'"
    "db_pages b' = (db_pages b)(CATALOG_META_PAGE_ID \<mapsto> catalog_page (ct_meta c))"
    "disk_allocated (bpm_disk b') = disk_allocated (bpm_disk b)" "pool_size b' = pool_size b"
proof -
  note C = catalog_page_facts [OF assms(3)]
  obtain b1 f b2 where 1: "FetchPage lru_ops disk_manager_ops CATALOG_META_PAGE_ID b = Inr (b1, Some f)" "fdata b1 f = d"
    "UnpinPage lru_ops CATALOG_META_PAGE_ID True (write_frame f (catalog_page (ct_meta c)) b1) = (b2, True)" "quiet b2"
    "db_pages b2 = (db_pages b)(CATALOG_META_PAGE_ID \<mapsto> catalog_page (ct_meta c))"
    "disk_allocated (bpm_disk b2) = disk_allocated (bpm_disk b)" "pool_size b2 = pool_size b"
    by (rule quiet_overwrite [OF assms(1,2) C(2)])
  show thesis by (rule that [OF _ 1(4-7)]) (simp add: FlushCatalogMetaPage_def C(1) 1(1,3))
qed

section \<open>Creating a table\<close>

lemma heap_ok_frame:
  assumes "heap_ok S th ps" "\<And>q. q \<in> set ps \<Longrightarrow> S' q = S q"
  shows "heap_ok S' th ps"
  using assms unfolding heap_ok_def heap_pages_def heap_free_def by simp

lemma heap_map_frame: "(\<And>q. q \<in> set ps \<Longrightarrow> S' q = S q) \<Longrightarrow> heap_map S' ps = heap_map S ps"
  by (auto simp: heap_map_def fun_eq_iff)

lemma table_frame:
  assumes "table_ok b th ps" "quiet b'" "\<And>q. q \<in> set ps \<Longrightarrow> db_pages b' q = db_pages b q"
  shows "table_ok b' th ps" "table_tuples b' ps = table_tuples b ps"
  using assms heap_ok_frame [of "db_pages b" th ps "db_pages b'"] heap_map_frame [of ps "db_pages b'" "db_pages b"]
  by (simp_all add: table_ok_def table_tuples_def)

lemma DeepCopySchema_id [simp]: "DeepCopySchema s = s"
  by (simp add: DeepCopySchema_def GetColumnCount_def map_nth)

lemma add_table_meta: "ct_meta (add_table info p c) =
    (ct_meta c)\<lparr>table_meta_pages := omap_set (ct_next_table_id c) p (table_meta_pages (ct_meta c))\<rparr>"
  by (simp add: add_table_def Let_def)

lemma length_omap_set: "length (omap_set k v m) \<le> Suc (length m)"
  by (induction k v m rule: omap_set.induct) auto

lemma metas_saved_add_table:
  assumes "metas_saved S c" "wf_catalog c" "p \<noteq> CATALOG_META_PAGE_ID" "table_meta_ok () (ti_meta info)"
    "S' p = Some (table_meta_page (ti_meta info))"
    "\<And>q. q \<noteq> p \<Longrightarrow> q \<noteq> CATALOG_META_PAGE_ID \<Longrightarrow> S q \<noteq> None \<Longrightarrow> S' q = S q" "S p = None"
  shows "metas_saved S' (add_table info p c)"
proof -
  let ?c = "add_table info p c"
  note T = wf_tablesD [OF assms(2) [unfolded wf_catalog_def, THEN conjunct1]]
  have f: "map_of (table_meta_pages (ct_meta ?c)) = (map_of (table_meta_pages (ct_meta c)))(ct_next_table_id c \<mapsto> p)"
    "map_of (ct_tables ?c) = (map_of (ct_tables c))(ct_next_table_id c \<mapsto> info)" "ct_indexes ?c = ct_indexes c"
    "index_meta_pages (ct_meta ?c) = index_meta_pages (ct_meta c)"
    by (simp_all add: add_table_def Let_def update_conv')
  have keep: "S' q = Some d" if "S q = Some d" "q \<noteq> CATALOG_META_PAGE_ID" for q d
    using assms(6) [of q] assms(7) that by (cases "q = p") auto
  show ?thesis unfolding metas_saved_def f
    using assms(1,3-5) keep by (auto simp: metas_saved_def split: if_splits)
qed

lemma CreateTable_law:
  assumes q: "quiet b" and wf: "wf_catalog c" and room: "card (disk_allocated (bpm_disk b)) + 2 \<le> 32704"
    and d: "db_pages b CATALOG_META_PAGE_ID = Some d" and saved: "metas_saved (db_pages b) c"
    and n: "map_of (ct_table_names c) n = None"
    and s: "schema_ok () s" "16 + length n + length (schema_enc s) \<le> PAGE_SIZE"
    and m: "wf_catalog_meta (ct_meta c)" "catalog_meta_GetSerializedSize (ct_meta c) + 8 \<le> PAGE_SIZE"
  obtains b' info p where "CreateTable lru_ops disk_manager_ops n s (b, c) = Inr ((b', add_table info p c), DB_SUCCESS)"
    "ti_meta info = TableMetadata_Create (ct_next_table_id c) n (th_first_page_id (ti_heap info)) s" "th_schema (ti_heap info) = s"
    "catalog_saved (db_pages b') (add_table info p c)" "table_ok b' (ti_heap info) [th_first_page_id (ti_heap info)]"
    "table_tuples b' [th_first_page_id (ti_heap info)] = Map.empty"
    "\<And>q. db_pages b q \<noteq> None \<Longrightarrow> q \<noteq> CATALOG_META_PAGE_ID \<Longrightarrow> db_pages b' q = db_pages b q"
    "card (disk_allocated (bpm_disk b')) \<le> card (disk_allocated (bpm_disk b)) + 2" "pool_size b' = pool_size b"
proof -
  have r0: "disk_room (bpm_disk b)" by (rule quiet_room [OF q]) (use room in simp)
  obtain b1 th p1 where 1: "TableHeap_create lru_ops disk_manager_ops s b = Inr (b1, th)" "table_ok b1 th [p1]"
    "table_tuples b1 [p1] = Map.empty" "th_schema th = s" "th_built th"
    "disk_allocated (bpm_disk b1) = insert p1 (disk_allocated (bpm_disk b))" "th_first_page_id th = p1" "db_pages b p1 = None"
    "\<And>q. q \<noteq> p1 \<Longrightarrow> db_pages b1 q = db_pages b q" "pool_size b1 = pool_size b"
    by (rule TableHeap_create_law [OF q r0, of s]) (rule that; assumption)
  have q1: "quiet b1" using 1(2) by (simp add: table_ok_def)
  have c1: "card (disk_allocated (bpm_disk b1)) \<le> Suc (card (disk_allocated (bpm_disk b)))"
    unfolding 1(6) by (cases "finite (disk_allocated (bpm_disk b))") (simp_all add: card_insert_if)
  have r1: "disk_room (bpm_disk b1)" by (rule quiet_room [OF q1]) (use room c1 in simp)
  obtain b2 f p where 2: "NewPage lru_ops disk_manager_ops b1 = Inr (b2, Some (f, p))" "fdata b2 f = zero_page" "db_pages b1 p = None"
    "p \<noteq> INVALID_PAGE_ID"
    "\<And>data. length data = PAGE_SIZE \<Longrightarrow> \<exists>b3. UnpinPage lru_ops p True (write_frame f data b2) = (b3, True) \<and> quiet b3 \<and>
       db_pages b3 = (db_pages b1)(p \<mapsto> data) \<and> disk_allocated (bpm_disk b3) = insert p (disk_allocated (bpm_disk b1)) \<and>
       pool_size b3 = pool_size b1"
    by (rule quiet_new [OF q1 r1]) (rule that; assumption)
  let ?info = "\<lparr>ti_meta = TableMetadata_Create (ct_next_table_id c) n p1 s, ti_heap = th\<rparr>"
  let ?c = "add_table ?info p c"
  have ok: "table_meta_ok () (ti_meta ?info)" using s by (simp add: table_meta_ok_def TableMetadata_Create_def table_meta_enc_def)
  note M = table_meta_page_facts [OF ok]
  obtain b3 where 3: "UnpinPage lru_ops p True (write_frame f (table_meta_page (ti_meta ?info)) b2) = (b3, True)" "quiet b3"
    "db_pages b3 = (db_pages b1)(p \<mapsto> table_meta_page (ti_meta ?info))"
    "disk_allocated (bpm_disk b3) = insert p (disk_allocated (bpm_disk b1))" "pool_size b3 = pool_size b1"
    using 2(5) [OF M(2)] by blast
  have "db_pages b1 p1 \<noteq> None" using 1(2) by (auto simp: table_ok_def heap_ok_def heap_pages_def)
  then have ne: "p1 \<noteq> CATALOG_META_PAGE_ID" "p \<noteq> p1" using d 1(8) 2(3) by auto
  then have p: "p1 \<noteq> CATALOG_META_PAGE_ID" "p \<noteq> CATALOG_META_PAGE_ID" "p \<noteq> p1" "db_pages b p = None"
    using d 1(9) [of CATALOG_META_PAGE_ID] 1(9) [of p] 2(3) by auto
  have mc: "wf_catalog_meta (ct_meta ?c)"
    using m length_omap_set [of "ct_next_table_id c" p "table_meta_pages (ct_meta c)"]
    by (simp add: wf_catalog_meta_def add_table_meta wf_omap_set catalog_meta_GetSerializedSize_def)
  have d3: "db_pages b3 CATALOG_META_PAGE_ID = Some d" using 3(3) 1(9) p d by simp
  obtain b4 where 4: "FlushCatalogMetaPage lru_ops disk_manager_ops (b3, ?c) = Inr (b4, DB_SUCCESS)" "quiet b4"
    "db_pages b4 = (db_pages b3)(CATALOG_META_PAGE_ID \<mapsto> catalog_page (ct_meta ?c))"
    "disk_allocated (bpm_disk b4) = disk_allocated (bpm_disk b3)" "pool_size b4 = pool_size b3"
    by (rule Flush_law [OF 3(2) d3 mc])
  have S: "db_pages b4 r = db_pages b1 r" if "r \<noteq> p" "r \<noteq> CATALOG_META_PAGE_ID" for r using that 4(3) 3(3) by simp
  have keep: "db_pages b4 r = db_pages b r" if "db_pages b r \<noteq> None" "r \<noteq> CATALOG_META_PAGE_ID" for r
  proof -
    have "r \<noteq> p" "r \<noteq> p1" using that p 1(8) by auto
    then show ?thesis using S that 1(9) by simp
  qed
  have "metas_saved (db_pages b4) ?c"
  proof (rule metas_saved_add_table [OF saved wf p(2) ok])
    show "db_pages b4 p = Some (table_meta_page (ti_meta ?info))" using 4(3) 3(3) p(2) by simp
  qed (use keep p(4) in blast)+
  then have cs: "catalog_saved (db_pages b4) ?c" using mc 4(3) by (simp add: catalog_saved_def)
  note F = table_frame [OF 1(2) 4(2)]
  have t: "table_ok b4 th [p1]" "table_tuples b4 [p1] = Map.empty" using F S p 1(3) by simp_all
  have run: "CreateTable lru_ops disk_manager_ops n s (b, c) = Inr ((b4, ?c), DB_SUCCESS)"
    using n 1(1,7) 2(1,2) M(1) 3(1) 4(1)
    by (simp add: CreateTable_def Let_def TableMetadata_Create_def add_table_def)
  have "card (disk_allocated (bpm_disk b4)) \<le> Suc (card (disk_allocated (bpm_disk b1)))"
    unfolding 4(4) 3(4) by (cases "finite (disk_allocated (bpm_disk b1))") (simp_all add: card_insert_if)
  then show thesis using that [OF run] 1(4,7,10) cs t keep c1 4(5) 3(5) by simp
qed

section \<open>Opening a catalog\<close>

definition open_table :: "TableMetadata \<Rightarrow> TableInfo" where
  "open_table m = \<lparr>ti_meta = m, ti_heap = TableHeap_open (tm_root_page_id m) (tm_schema m)\<rparr>"

definition load_table :: "TableMetadata \<Rightarrow> Catalog \<Rightarrow> Catalog" where
  "load_table m c = c\<lparr>ct_table_names := AList.update (tm_table_name m) (tm_table_id m) (ct_table_names c),
     ct_tables := AList.update (tm_table_id m) (open_table m) (ct_tables c)\<rparr>"

lemma LoadTable_law:
  assumes "quiet b" "db_pages b p = Some (table_meta_page m)" "table_meta_ok () m"
  obtains b' where "LoadTable lru_ops disk_manager_ops (tm_table_id m) p (b, c) = Inr ((b', load_table m c), DB_SUCCESS)"
    "quiet b'" "db_pages b' = db_pages b" "pool_size b' = pool_size b"
proof -
  obtain b1 f b2 where 1: "FetchPage lru_ops disk_manager_ops p b = Inr (b1, Some f)" "fdata b1 f = table_meta_page m"
    "UnpinPage lru_ops p False b1 = (b2, True)" "quiet b2" "db_pages b2 = db_pages b" "pool_size b2 = pool_size b"
    by (rule quiet_read [OF assms(1,2)])
  show thesis
    by (rule that [OF _ 1(4-6)])
      (simp add: LoadTable_def 1(1-3) table_meta_page_facts(3) [OF assms(3)] load_table_def open_table_def)
qed

definition load_tables :: "(table_id_t \<Rightarrow> TableMetadata) \<Rightarrow> (table_id_t \<times> page_id_t) list \<Rightarrow> Catalog \<Rightarrow> Catalog" where
  "load_tables M es c = fold (\<lambda>e. load_table (M (fst e))) es c"

lemma load_tables_simps [simp]:
  "load_tables M [] c = c" "load_tables M (e # es) c = load_tables M es (load_table (M (fst e)) c)"
  by (simp_all add: load_tables_def)

lemma load_tables_law:
  assumes "quiet b" "\<And>t p. (t, p) \<in> set es \<Longrightarrow> table_meta_ok () (M t) \<and> tm_table_id (M t) = t \<and> db_pages b p = Some (table_meta_page (M t))"
  obtains b' where "load_all (LoadTable lru_ops disk_manager_ops) es (b, c) = Inr (b', load_tables M es c)"
    "quiet b'" "db_pages b' = db_pages b" "pool_size b' = pool_size b"
  using assms
proof (induction es arbitrary: b c thesis)
  case (Cons e es)
  obtain t p where e: "e = (t, p)" by (cases e)
  have M: "table_meta_ok () (M t)" "tm_table_id (M t) = t" "db_pages b p = Some (table_meta_page (M t))"
    using Cons.prems(3) [of t p] e by simp_all
  obtain b1 where 1: "LoadTable lru_ops disk_manager_ops (tm_table_id (M t)) p (b, c) = Inr ((b1, load_table (M t) c), DB_SUCCESS)"
    "quiet b1" "db_pages b1 = db_pages b" "pool_size b1 = pool_size b" by (rule LoadTable_law [OF Cons.prems(2) M(3,1)])
  obtain b' where 2: "load_all (LoadTable lru_ops disk_manager_ops) es (b1, load_table (M t) c) =
      Inr (b', load_tables M es (load_table (M t) c))"
    "quiet b'" "db_pages b' = db_pages b1" "pool_size b' = pool_size b1"
    by (rule Cons.IH [OF _ 1(2)]) (use Cons.prems(3) 1(3) in auto)
  show ?case by (rule Cons.prems(1) [of b']) (use 1 2 M(2) e in simp_all)
qed simp

lemma load_tables_maps:
  assumes "distinct (map fst es)" "\<forall>t \<in> fst ` set es. tm_table_id (M t) = t" "inj_on (\<lambda>t. tm_table_name (M t)) (fst ` set es)"
  shows "(\<forall>t. map_of (ct_tables (load_tables M es c)) t = (if t \<in> fst ` set es then Some (open_table (M t)) else map_of (ct_tables c) t)) \<and>
    (\<forall>t \<in> fst ` set es. map_of (ct_table_names (load_tables M es c)) (tm_table_name (M t)) = Some t) \<and>
    (\<forall>n. n \<notin> (\<lambda>t. tm_table_name (M t)) ` fst ` set es \<longrightarrow> map_of (ct_table_names (load_tables M es c)) n = map_of (ct_table_names c) n)"
  using assms
proof (induction es arbitrary: c)
  case (Cons e es)
  let ?c = "load_table (M (fst e)) c"
  have id: "tm_table_id (M (fst e)) = fst e" using Cons.prems(2) by simp
  have IH: "(\<forall>t. map_of (ct_tables (load_tables M es ?c)) t = (if t \<in> fst ` set es then Some (open_table (M t)) else map_of (ct_tables ?c) t)) \<and>
    (\<forall>t \<in> fst ` set es. map_of (ct_table_names (load_tables M es ?c)) (tm_table_name (M t)) = Some t) \<and>
    (\<forall>n. n \<notin> (\<lambda>t. tm_table_name (M t)) ` fst ` set es \<longrightarrow> map_of (ct_table_names (load_tables M es ?c)) n = map_of (ct_table_names ?c) n)"
    by (rule Cons.IH) (use Cons.prems in \<open>auto simp: inj_on_def\<close>)
  have own: "tm_table_name (M (fst e)) \<notin> (\<lambda>t. tm_table_name (M t)) ` fst ` set es" "fst e \<notin> fst ` set es"
    using Cons.prems(1,3) by (auto simp: inj_on_def)
  have m: "map_of (ct_tables ?c) = (map_of (ct_tables c))(fst e \<mapsto> open_table (M (fst e)))"
    "map_of (ct_table_names ?c) = (map_of (ct_table_names c))(tm_table_name (M (fst e)) \<mapsto> fst e)"
    using id by (simp_all add: load_table_def update_conv')
  show ?case unfolding load_tables_simps using IH own m by auto
qed simp

lemma load_tables_fields:
  "ct_meta (load_tables M es c) = ct_meta c" "ct_indexes (load_tables M es c) = ct_indexes c"
  "ct_index_names (load_tables M es c) = ct_index_names c"
  by (induction es arbitrary: c) (simp_all add: load_table_def)

text \<open>The object of an index that is opened when the root directory is \<open>R\<close>.\<close>

definition open_tree :: "(index_id_t \<rightharpoonup> page_id_t) \<Rightarrow> index_id_t \<Rightarrow> KeyManager \<Rightarrow> BPlusTree" where
  "open_tree R x km = \<lparr>bt_index_id = x, bt_root_page_id = (case R x of Some r \<Rightarrow> r | None \<Rightarrow> INVALID_PAGE_ID), bt_processor = km,
     bt_leaf_max_size = default_leaf_max (km_key_size km), bt_internal_max_size = default_internal_max (km_key_size km)\<rparr>"

definition open_index :: "(index_id_t \<rightharpoonup> page_id_t) \<Rightarrow> TableMetadata \<Rightarrow> IndexMetadata \<Rightarrow> IndexInfo" where
  "open_index R tm m =
     (let ks = ShallowCopySchema (tm_schema tm) (map unat (im_key_map m))
      in \<lparr>xi_meta = m,
          xi_index = map_option (\<lambda>n. \<lparr>bi_index_id = im_index_id m, bi_key_schema = ks, bi_processor = KeyManager_new ks n,
            bi_container = open_tree R (im_index_id m) (KeyManager_new ks n)\<rparr>) (bptree_key_size (max_key_bytes ks)),
          xi_key_schema = ks\<rparr>)"

lemma IndexInfo_Init_runs:
  assumes "bp.bp_inv b \<and> dom (page_table b) \<subseteq> disk_allocated (bpm_disk b)" "roots_at (db_pages b) R" "0 < spares b"
    "0 \<le> pins b INDEX_ROOTS_PAGE_ID" "INDEX_ROOTS_PAGE_ID \<notin> bp.unsaved b"
  obtains b' where "IndexInfo_Init lru_ops disk_manager_ops m ti b = Inr (b', open_index R (ti_meta ti) m)" "bp.runs {} b b'"
    "db_pages b' = db_pages b"
proof -
  let ?ks = "ShallowCopySchema (tm_schema (ti_meta ti)) (map unat (im_key_map m))"
  show thesis
  proof (cases "bptree_key_size (max_key_bytes ?ks)")
    case None
    then show thesis using that [of b] bp.runs_refl [OF assms(1)]
      by (simp add: IndexInfo_Init_def IndexInfo_CreateIndex_def open_index_def Let_def)
  next
    case (Some n)
    obtain b' where 1: "BPlusTree_new lru_ops disk_manager_ops (im_index_id m) (KeyManager_new ?ks n) 0 0 b = Inr (b',
        \<lparr>bt_index_id = im_index_id m, bt_root_page_id = (case R (im_index_id m) of Some r \<Rightarrow> r | None \<Rightarrow> INVALID_PAGE_ID),
         bt_processor = KeyManager_copy (KeyManager_new ?ks n),
         bt_leaf_max_size = default_leaf_max (km_key_size (KeyManager_new ?ks n)),
         bt_internal_max_size = default_internal_max (km_key_size (KeyManager_new ?ks n))\<rparr>)"
      "bp.runs {} b b'" "db_pages b' = db_pages b" "disk_allocated (bpm_disk b') = disk_allocated (bpm_disk b)"
      by (rule BPlusTree_new_runs [OF assms])
    show thesis by (rule that [OF _ 1(2,3)])
        (use 1(1) Some in \<open>simp add: IndexInfo_Init_def IndexInfo_CreateIndex_def BPlusTreeIndex_new_def open_index_def open_tree_def
           UNDEFINED_SIZE_def Let_def\<close>)
  qed
qed

definition load_index :: "(index_id_t \<rightharpoonup> page_id_t) \<Rightarrow> TableInfo \<Rightarrow> IndexMetadata \<Rightarrow> Catalog \<Rightarrow> Catalog" where
  "load_index R ti m c = c\<lparr>ct_indexes := AList.update (im_index_id m) (open_index R (ti_meta ti) m) (ct_indexes c),
     ct_index_names := AList.update (tm_table_name (ti_meta ti))
       (AList.update (im_index_name m) (im_index_id m) (names_of c (tm_table_name (ti_meta ti)))) (ct_index_names c)\<rparr>"

lemma LoadIndex_law:
  assumes q: "quiet b" and p: "db_pages b p = Some (index_meta_page m)" and m: "index_meta_ok () m"
    and r: "roots_at (db_pages b) R" and t: "map_of (ct_tables c) (im_table_id m) = Some ti"
  obtains b' where "LoadIndex lru_ops disk_manager_ops (im_index_id m) p (b, c) = Inr ((b', load_index R ti m c), DB_SUCCESS)"
    "quiet b'" "db_pages b' = db_pages b"
proof -
  note Q = quiet_pool [OF q]
  have s: "bp.store b p = Some (index_meta_page m)" using p by (simp add: store_db)
  obtain b1 f where 1: "FetchPage lru_ops disk_manager_ops p b = Inr (b1, Some f)" "bp.held {} (one p) b b1"
    "pinned_at b1 p f" "fdata b1 f = index_meta_page m" "bp.store b1 = bp.store b" "spares b \<le> Suc (spares b1)"
    "disk_allocated (bpm_disk b1) = disk_allocated (bpm_disk b)"
    by (rule bp.held_Fetch [OF Q(1) s Q(4)])
  have h: "roots_at (db_pages b1) R" "0 < spares b1" "0 \<le> pins b1 INDEX_ROOTS_PAGE_ID" "INDEX_ROOTS_PAGE_ID \<notin> bp.unsaved b1"
    using r 1(2,5,6) Q(2,3,5) by (auto simp: store_db bp.held_def one_def)
  obtain b2 where 2: "IndexInfo_Init lru_ops disk_manager_ops m ti b1 = Inr (b2, open_index R (ti_meta ti) m)" "bp.runs {} b1 b2"
    "db_pages b2 = db_pages b1"
    by (rule IndexInfo_Init_runs [OF bp.held_ok [OF 1(2)] h])
  have h2: "bp.held ({} \<union> {}) (one p) b b2" by (rule bp.held_run [OF 1(2) 2(2)]) (simp add: one_def)
  obtain b3 where 3: "UnpinPage lru_ops p False b2 = (b3, True)"
    "bp.held ({} \<union> {} - (if False then {p} else {})) (\<lambda>q. one p q - one p q) b b3" "bp.store b3 = bp.store b2" "bpm_disk b3 = bpm_disk b2"
    by (rule bp.held_Unpin [OF h2, of p False]) (use Q(2,5) in \<open>simp_all add: one_def\<close>)
  have run: "bp.runs {} b b3" using 3(2) by (simp add: bp.held_runs)
  have "LoadIndex lru_ops disk_manager_ops (im_index_id m) p (b, c) = Inr ((b3, load_index R ti m c), DB_SUCCESS)"
    by (simp add: LoadIndex_def 1(1,4) index_meta_page_facts(3) [OF m] GetTable_id_def t 2(1) 3(1) load_index_def names_of_def Let_def)
  then show thesis by (rule that [OF _ quiet_runs [OF q run]]) (use 3(3) 2(3) 1(5) in \<open>simp add: store_db\<close>)
qed

definition load_indexes :: "(index_id_t \<rightharpoonup> page_id_t) \<Rightarrow> (table_id_t \<Rightarrow> TableInfo) \<Rightarrow> (index_id_t \<Rightarrow> IndexMetadata) \<Rightarrow>
    (index_id_t \<times> page_id_t) list \<Rightarrow> Catalog \<Rightarrow> Catalog" where
  "load_indexes R T J es c = fold (\<lambda>e. load_index R (T (im_table_id (J (fst e)))) (J (fst e))) es c"

lemma load_indexes_simps [simp]:
  "load_indexes R T J [] c = c"
  "load_indexes R T J (e # es) c = load_indexes R T J es (load_index R (T (im_table_id (J (fst e)))) (J (fst e)) c)"
  by (simp_all add: load_indexes_def)

lemma load_index_fields [simp]: "ct_tables (load_index R ti m c) = ct_tables c" "ct_table_names (load_index R ti m c) = ct_table_names c"
  "ct_meta (load_index R ti m c) = ct_meta c"
  by (simp_all add: load_index_def)

lemma load_indexes_fields: "ct_tables (load_indexes R T J es c) = ct_tables c" "ct_table_names (load_indexes R T J es c) = ct_table_names c"
  "ct_meta (load_indexes R T J es c) = ct_meta c"
  by (induction es arbitrary: c) simp_all

lemma load_indexes_law:
  assumes "quiet b" "roots_at (db_pages b) R"
    "\<And>x p. (x, p) \<in> set es \<Longrightarrow> index_meta_ok () (J x) \<and> im_index_id (J x) = x \<and> db_pages b p = Some (index_meta_page (J x)) \<and>
       map_of (ct_tables c) (im_table_id (J x)) = Some (T (im_table_id (J x)))"
  obtains b' where "load_all (LoadIndex lru_ops disk_manager_ops) es (b, c) = Inr (b', load_indexes R T J es c)"
    "quiet b'" "db_pages b' = db_pages b"
  using assms
proof (induction es arbitrary: b c thesis)
  case (Cons e es)
  obtain x p where e: "e = (x, p)" by (cases e)
  let ?c = "load_index R (T (im_table_id (J x))) (J x) c"
  have J: "index_meta_ok () (J x)" "im_index_id (J x) = x" "db_pages b p = Some (index_meta_page (J x))"
    "map_of (ct_tables c) (im_table_id (J x)) = Some (T (im_table_id (J x)))"
    using Cons.prems(4) [of x p] e by simp_all
  obtain b1 where 1: "LoadIndex lru_ops disk_manager_ops (im_index_id (J x)) p (b, c) = Inr ((b1, ?c), DB_SUCCESS)"
    "quiet b1" "db_pages b1 = db_pages b" by (rule LoadIndex_law [OF Cons.prems(2) J(3,1) Cons.prems(3) J(4)])
  obtain b' where 2: "load_all (LoadIndex lru_ops disk_manager_ops) es (b1, ?c) = Inr (b', load_indexes R T J es ?c)"
    "quiet b'" "db_pages b' = db_pages b1"
    by (rule Cons.IH [OF _ 1(2), of ?c]) (use Cons.prems(3,4) 1(3) in auto)
  show ?case by (rule Cons.prems(1) [of b']) (use 1 2 J(2) e in simp_all)
qed simp

lemma index_number_load:
  "index_number (load_index R ti m c) tn xn =
     (if tn = tm_table_name (ti_meta ti) \<and> xn = im_index_name m then Some (im_index_id m) else index_number c tn xn)"
  by (auto simp: index_number_def load_index_def names_of_def update_conv' split: option.split)

lemma load_indexes_maps:
  assumes "distinct (map fst es)" "\<forall>x \<in> fst ` set es. im_index_id (J x) = x"
    "inj_on (\<lambda>x. (tm_table_name (ti_meta (T (im_table_id (J x)))), im_index_name (J x))) (fst ` set es)"
  shows "(\<forall>x. map_of (ct_indexes (load_indexes R T J es c)) x =
      (if x \<in> fst ` set es then Some (open_index R (ti_meta (T (im_table_id (J x)))) (J x)) else map_of (ct_indexes c) x)) \<and>
    (\<forall>x \<in> fst ` set es. index_number (load_indexes R T J es c) (tm_table_name (ti_meta (T (im_table_id (J x))))) (im_index_name (J x)) = Some x) \<and>
    (\<forall>tn xn. (tn, xn) \<notin> (\<lambda>x. (tm_table_name (ti_meta (T (im_table_id (J x)))), im_index_name (J x))) ` fst ` set es \<longrightarrow>
       index_number (load_indexes R T J es c) tn xn = index_number c tn xn)"
  using assms
proof (induction es arbitrary: c)
  case (Cons e es)
  let ?T = "\<lambda>x. T (im_table_id (J x))" and ?x = "fst e"
  let ?n = "\<lambda>x. (tm_table_name (ti_meta (?T x)), im_index_name (J x))" and ?c = "load_index R (T (im_table_id (J (fst e)))) (J (fst e)) c"
  have id: "im_index_id (J ?x) = ?x" using Cons.prems(2) by simp
  have IH: "(\<forall>x. map_of (ct_indexes (load_indexes R T J es ?c)) x =
      (if x \<in> fst ` set es then Some (open_index R (ti_meta (?T x)) (J x)) else map_of (ct_indexes ?c) x)) \<and>
    (\<forall>x \<in> fst ` set es. index_number (load_indexes R T J es ?c) (tm_table_name (ti_meta (?T x))) (im_index_name (J x)) = Some x) \<and>
    (\<forall>tn xn. (tn, xn) \<notin> ?n ` fst ` set es \<longrightarrow> index_number (load_indexes R T J es ?c) tn xn = index_number ?c tn xn)"
    by (rule Cons.IH) (use Cons.prems in \<open>auto simp: inj_on_def\<close>)
  have own: "?n ?x \<notin> ?n ` fst ` set es" "?x \<notin> fst ` set es"
    using Cons.prems(1,3) by (auto simp: inj_on_def)
  have m: "map_of (ct_indexes ?c) = (map_of (ct_indexes c))(?x \<mapsto> open_index R (ti_meta (?T ?x)) (J ?x))"
    using id by (simp add: load_index_def update_conv')
  show ?case unfolding load_indexes_simps using IH own m id by (auto simp: index_number_load)
qed simp

text \<open>The catalog that is opened on the pages of \<open>c\<close>.\<close>

definition meta_of_table :: "Catalog \<Rightarrow> table_id_t \<Rightarrow> TableMetadata" where
  "meta_of_table c t = ti_meta (the (map_of (ct_tables c) t))"

definition meta_of_index :: "Catalog \<Rightarrow> index_id_t \<Rightarrow> IndexMetadata" where
  "meta_of_index c x = xi_meta (the (map_of (ct_indexes c) x))"

definition reopened :: "(index_id_t \<rightharpoonup> page_id_t) \<Rightarrow> Catalog \<Rightarrow> Catalog" where
  "reopened R c = load_indexes R (\<lambda>t. open_table (meta_of_table c t)) (meta_of_index c) (index_meta_pages (ct_meta c))
     (load_tables (meta_of_table c) (table_meta_pages (ct_meta c)) (Catalog_of_meta (ct_meta c)))"

lemma reopened_tables:
  assumes "wf_catalog c"
  defines "c1 \<equiv> load_tables (meta_of_table c) (table_meta_pages (ct_meta c)) (Catalog_of_meta (ct_meta c))"
  shows "map_of (ct_tables c1) t = map_option (\<lambda>i. open_table (ti_meta i)) (map_of (ct_tables c) t)"
    "map_of (ct_table_names c1) = map_of (ct_table_names c)" "ct_meta c1 = ct_meta c" "ct_indexes c1 = []" "index_number c1 tn xn = None"
proof -
  let ?es = "table_meta_pages (ct_meta c)"
  note T = wf_tablesD [OF assms(1) [unfolded wf_catalog_def, THEN conjunct1]]
  have keys: "fst ` set ?es = dom (map_of (ct_tables c))" using T(2) by (simp add: dom_map_of_conv_image_fst)
  have M: "meta_of_table c t = ti_meta i" if "map_of (ct_tables c) t = Some i" for t i using that by (simp add: meta_of_table_def)
  have inj: "inj_on (\<lambda>t. tm_table_name (meta_of_table c t)) (fst ` set ?es)"
    unfolding keys by (rule inj_onI) (auto simp: M intro: wf_tables_inj [OF assms(1) [unfolded wf_catalog_def, THEN conjunct1]])
  have ids: "\<forall>t \<in> fst ` set ?es. tm_table_id (meta_of_table c t) = t" using T(4) M unfolding keys by auto
  note L = load_tables_maps [OF wf_omap_distinct [OF T(1)] ids inj, of "Catalog_of_meta (ct_meta c)", folded c1_def]
  show "map_of (ct_tables c1) t = map_option (\<lambda>i. open_table (ti_meta i)) (map_of (ct_tables c) t)" for t
    using L unfolding keys by (cases "map_of (ct_tables c) t") (auto simp: M Catalog_of_meta_def)
  have "map_of (ct_table_names c1) n = map_of (ct_table_names c) n" for n
  proof (cases "map_of (ct_table_names c) n")
    case None
    then have "n \<notin> (\<lambda>t. tm_table_name (meta_of_table c t)) ` fst ` set ?es"
      unfolding keys using T(3) [of n] M by (metis (no_types, lifting) domIff image_iff option.collapse option.distinct(1))
    then show ?thesis using L None by (simp add: Catalog_of_meta_def)
  next
    case (Some t)
    then obtain i where i: "map_of (ct_tables c) t = Some i" "tm_table_name (ti_meta i) = n" using T(3) by blast
    have "\<forall>t \<in> dom (map_of (ct_tables c)). map_of (ct_table_names c1) (tm_table_name (meta_of_table c t)) = Some t"
      using L unfolding keys by blast
    moreover have "t \<in> dom (map_of (ct_tables c))" using i(1) by blast
    ultimately have "map_of (ct_table_names c1) (tm_table_name (meta_of_table c t)) = Some t" by (rule bspec)
    then show ?thesis using M [OF i(1)] i(2) Some by simp
  qed
  then show "map_of (ct_table_names c1) = map_of (ct_table_names c)" by blast
  show "ct_meta c1 = ct_meta c" "ct_indexes c1 = []" "index_number c1 tn xn = None"
    unfolding c1_def by (simp_all add: load_tables_fields Catalog_of_meta_def index_number_def)
qed

lemma reopened_maps:
  assumes "wf_catalog c"
  shows "map_of (ct_tables (reopened R c)) t = map_option (\<lambda>i. open_table (ti_meta i)) (map_of (ct_tables c) t)"
    "map_of (ct_table_names (reopened R c)) = map_of (ct_table_names c)" "ct_meta (reopened R c) = ct_meta c"
    "map_of (ct_indexes (reopened R c)) x =
       map_option (\<lambda>j. open_index R (meta_of_table c (im_table_id (xi_meta j))) (xi_meta j)) (map_of (ct_indexes c) x)"
    "index_number (reopened R c) tn xn = index_number c tn xn"
proof -
  let ?xs = "index_meta_pages (ct_meta c)" and ?T = "\<lambda>t. open_table (meta_of_table c t)" and ?J = "meta_of_index c"
  let ?n = "\<lambda>x. (tm_table_name (ti_meta (?T (im_table_id (?J x)))), im_index_name (?J x))"
  note R = reopened_tables [OF assms]
  note X = wf_indexesD [OF assms [unfolded wf_catalog_def, THEN conjunct2]]
  show "map_of (ct_tables (reopened R c)) t = map_option (\<lambda>i. open_table (ti_meta i)) (map_of (ct_tables c) t)"
    "map_of (ct_table_names (reopened R c)) = map_of (ct_table_names c)" "ct_meta (reopened R c) = ct_meta c"
    unfolding reopened_def load_indexes_fields using R by simp_all
  have keys: "fst ` set ?xs = dom (map_of (ct_indexes c))" using X(2) by (simp add: dom_map_of_conv_image_fst)
  have J: "?J x = xi_meta j" if "map_of (ct_indexes c) x = Some j" for x j using that by (simp add: meta_of_index_def)
  have at: "index_number c (fst (?n x)) (snd (?n x)) = Some x" if "x \<in> fst ` set ?xs" for x
  proof -
    obtain j where j: "map_of (ct_indexes c) x = Some j" using \<open>x \<in> fst ` set ?xs\<close> unfolding keys by blast
    obtain ti where "map_of (ct_tables c) (im_table_id (xi_meta j)) = Some ti" using X(4) [OF j] by blast
    then show ?thesis unfolding X(3) using j J [OF j] by (auto simp: open_table_def meta_of_table_def)
  qed
  have inj: "inj_on ?n (fst ` set ?xs)" by (rule inj_onI) (metis at option.inject)
  have ids: "\<forall>x \<in> fst ` set ?xs. im_index_id (?J x) = x" using X(4) J unfolding keys by auto
  note L = load_indexes_maps [OF wf_omap_distinct [OF X(1)] ids inj, of R]
  show "map_of (ct_indexes (reopened R c)) x =
       map_option (\<lambda>j. open_index R (meta_of_table c (im_table_id (xi_meta j))) (xi_meta j)) (map_of (ct_indexes c) x)" for x
    unfolding reopened_def using L R(4) J unfolding keys
    by (cases "map_of (ct_indexes c) x") (auto simp: open_table_def)
  show "index_number (reopened R c) tn xn = index_number c tn xn"
  proof (cases "(tn, xn) \<in> ?n ` fst ` set ?xs")
    case True
    then obtain x where x: "x \<in> fst ` set ?xs" "?n x = (tn, xn)" by force
    then have "index_number (reopened R c) tn xn = Some x"
      unfolding reopened_def using L by auto
    then show ?thesis using at [OF x(1)] x(2) by simp
  next
    case False
    then have "index_number (reopened R c) tn xn = None"
      unfolding reopened_def using L R(5) by simp
    moreover have "index_number c tn xn = None"
    proof (rule ccontr)
      assume "index_number c tn xn \<noteq> None"
      then obtain x j ti where "map_of (ct_indexes c) x = Some j" "im_index_name (xi_meta j) = xn"
        "map_of (ct_tables c) (im_table_id (xi_meta j)) = Some ti" "tm_table_name (ti_meta ti) = tn"
        using X(3) [of tn xn] by blast
      then have "?n x = (tn, xn)" "x \<in> fst ` set ?xs" unfolding keys using J by (auto simp: open_table_def meta_of_table_def)
      with False show False by force
    qed
    ultimately show ?thesis by simp
  qed
qed

lemma CatalogManager_open_law:
  assumes "quiet b" "wf_catalog c" "catalog_saved (db_pages b) c" "roots_at (db_pages b) R"
  obtains b' where "CatalogManager_new lru_ops disk_manager_ops False b = Inr (b', reopened R c)" "quiet b'" "db_pages b' = db_pages b"
proof -
  let ?m = "ct_meta c" and ?c0 = "Catalog_of_meta (ct_meta c)"
  let ?c1 = "load_tables (meta_of_table c) (table_meta_pages ?m) ?c0"
  note T = wf_tablesD [OF assms(2) [unfolded wf_catalog_def, THEN conjunct1]]
  note X = wf_indexesD [OF assms(2) [unfolded wf_catalog_def, THEN conjunct2]]
  have S: "wf_catalog_meta ?m" "db_pages b CATALOG_META_PAGE_ID = Some (catalog_page ?m)" "metas_saved (db_pages b) c"
    using assms(3) by (simp_all add: catalog_saved_def)
  obtain b1 f b2 where 1: "FetchPage lru_ops disk_manager_ops CATALOG_META_PAGE_ID b = Inr (b1, Some f)" "fdata b1 f = catalog_page ?m"
    "UnpinPage lru_ops CATALOG_META_PAGE_ID False b1 = (b2, True)" "quiet b2" "db_pages b2 = db_pages b" "pool_size b2 = pool_size b"
    by (rule quiet_read [OF assms(1) S(2)])
  have tab: "table_meta_ok () (meta_of_table c t) \<and> tm_table_id (meta_of_table c t) = t \<and> db_pages b2 p = Some (table_meta_page (meta_of_table c t))"
    if "(t, p) \<in> set (table_meta_pages ?m)" for t p
  proof -
    have p: "map_of (table_meta_pages ?m) t = Some p" using wf_omap_distinct [OF T(1)] that by simp
    then obtain i where "map_of (ct_tables c) t = Some i" using T(2) by blast
    then show ?thesis using S(3) p T(4) 1(5) by (auto simp: metas_saved_def meta_of_table_def)
  qed
  obtain b3 where 3: "load_all (LoadTable lru_ops disk_manager_ops) (table_meta_pages ?m) (b2, ?c0) = Inr (b3, ?c1)"
    "quiet b3" "db_pages b3 = db_pages b2" "pool_size b3 = pool_size b2"
    by (rule load_tables_law [OF 1(4) tab])
  have idx: "index_meta_ok () (meta_of_index c x) \<and> im_index_id (meta_of_index c x) = x \<and>
      db_pages b3 p = Some (index_meta_page (meta_of_index c x)) \<and>
      map_of (ct_tables ?c1) (im_table_id (meta_of_index c x)) = Some (open_table (meta_of_table c (im_table_id (meta_of_index c x))))"
    if "(x, p) \<in> set (index_meta_pages ?m)" for x p
  proof -
    have p: "map_of (index_meta_pages ?m) x = Some p" using wf_omap_distinct [OF X(1)] that by simp
    then obtain j where j: "map_of (ct_indexes c) x = Some j" using X(2) by blast
    obtain i where "map_of (ct_tables c) (im_table_id (xi_meta j)) = Some i" using X(4) [OF j] by blast
    then show ?thesis using S(3) p j X(4) [OF j] 1(5) 3(3) reopened_tables(1) [OF assms(2)]
      by (auto simp: metas_saved_def meta_of_index_def meta_of_table_def)
  qed
  have r3: "roots_at (db_pages b3) R" using assms(4) 1(5) 3(3) by simp
  obtain b' where 4: "load_all (LoadIndex lru_ops disk_manager_ops) (index_meta_pages ?m) (b3, ?c1) = Inr (b', reopened R c)"
    "quiet b'" "db_pages b' = db_pages b3"
    unfolding reopened_def by (rule load_indexes_law [OF 3(2) r3 idx])
  show thesis
    by (rule that [OF _ 4(2)]) (use 1 3 4 catalog_page_facts(3) [OF S(1)] in \<open>simp_all add: CatalogManager_new_def Let_def\<close>)
qed

text \<open>The state between two calls of the catalog: the maps are consistent, the metadata pages are on disk, and so are the two
  fixed pages.\<close>

definition catalog_ok :: "(LRUReplacer, disk_manager) bpm \<Rightarrow> Catalog \<Rightarrow> (index_id_t \<rightharpoonup> page_id_t) \<Rightarrow> bool" where
  "catalog_ok b c R \<longleftrightarrow> quiet b \<and> wf_catalog c \<and> wf_catalog_meta (ct_meta c) \<and> db_pages b CATALOG_META_PAGE_ID \<noteq> None \<and>
     metas_saved (db_pages b) c \<and> roots_at (db_pages b) R"

section \<open>Examples\<close>

lemma new_catalog_ok:
  assumes "quiet b" "db_pages b = [0 \<mapsto> zero_page, 1 \<mapsto> zero_page]"
  shows "catalog_ok b (Catalog_of_meta CatalogMeta_NewInstance) Map.empty"
proof -
  have "roots_at (db_pages b) Map.empty" by (rule zero_roots) (simp add: assms(2) config_defs)
  then show ?thesis using assms wf_catalog_new
    by (simp add: catalog_ok_def metas_saved_def Catalog_of_meta_def CatalogMeta_NewInstance_def wf_catalog_meta_def
        catalog_meta_GetSerializedSize_def config_defs)
qed

lemma example_catalog:
  obtains b where "DBStorageEngine_open [] True 16 = Inr b" "catalog_ok b (Catalog_of_meta CatalogMeta_NewInstance) Map.empty"
    "card (disk_allocated (bpm_disk b)) + 2 \<le> 32704" "ct_next_table_id (Catalog_of_meta CatalogMeta_NewInstance) + 1 \<noteq> 0"
    "schema_ok () example_schema" "16 + length [116 :: byte] + length (schema_enc example_schema) \<le> PAGE_SIZE"
    "catalog_meta_GetSerializedSize (ct_meta (Catalog_of_meta CatalogMeta_NewInstance)) + 8 \<le> PAGE_SIZE"
proof -
  obtain b where 1: "DBStorageEngine_open [] True 16 = Inr b" "quiet b" "pool_size b = 16" "disk_allocated (bpm_disk b) = {0, 1}"
    "db_pages b = [0 \<mapsto> zero_page, 1 \<mapsto> zero_page]"
    by (rule fresh_engine [of 16 "[]"]) simp
  show thesis
    by (rule that [OF 1(1) new_catalog_ok [OF 1(2,5)]])
      (simp_all add: 1(4) Catalog_of_meta_def CatalogMeta_NewInstance_def GetNextTableId_def catalog_meta_GetSerializedSize_def
        example_schema_def schema_ok_def column_ok_def schema_enc_def PAGE_SIZE_def)
qed

section \<open>Properties\<close>

text \<open>C36. \<^verbatim>\<open>CatalogManager::CreateTable\<close>: a name that is taken is refused and nothing changes. Otherwise, when the disk has room for
  two more pages, the metadata fits in a page and the catalog page has room for one more entry, the table is created under the
  next id, which no table has, and the id counter moves on by one: it is found under its name, empty and with the given schema, every other lookup is unchanged, the catalog page and the metadata pages on
  disk hold the new catalog, and no other page is touched.\<close>

theorem CreateTable_correct:
  assumes "catalog_ok b c R" "card (disk_allocated (bpm_disk b)) + 2 \<le> 32704" "ct_next_table_id c + 1 \<noteq> 0"
    "schema_ok () s" "16 + length n + length (schema_enc s) \<le> PAGE_SIZE" "catalog_meta_GetSerializedSize (ct_meta c) + 8 \<le> PAGE_SIZE"
  shows "if map_of (ct_table_names c) n \<noteq> None
    then CreateTable lru_ops disk_manager_ops n s (b, c) = Inr ((b, c), DB_TABLE_ALREADY_EXIST)
    else \<exists>b' c' i. CreateTable lru_ops disk_manager_ops n s (b, c) = Inr ((b', c'), DB_SUCCESS) \<and>
      catalog_ok b' c' R \<and> catalog_saved (db_pages b') c' \<and>
      GetTable n c' = (DB_SUCCESS, Some i) \<and> tm_table_name (ti_meta i) = n \<and> tm_schema (ti_meta i) = s \<and>
      tm_table_id (ti_meta i) = ct_next_table_id c \<and> ct_next_table_id c' = ct_next_table_id c + 1 \<and>
      map_of (ct_tables c) (ct_next_table_id c) = None \<and>
      table_ok b' (ti_heap i) [tm_root_page_id (ti_meta i)] \<and> table_tuples b' [tm_root_page_id (ti_meta i)] = Map.empty \<and>
      (\<forall>n'. n' \<noteq> n \<longrightarrow> GetTable n' c' = GetTable n' c) \<and>
      (\<forall>q. db_pages b q \<noteq> None \<and> q \<noteq> CATALOG_META_PAGE_ID \<longrightarrow> db_pages b' q = db_pages b q)"
proof (cases "map_of (ct_table_names c) n")
  case None
  have C: "quiet b" "wf_catalog c" "wf_catalog_meta (ct_meta c)" "metas_saved (db_pages b) c" "roots_at (db_pages b) R"
    using assms(1) by (simp_all add: catalog_ok_def)
  obtain d where d: "db_pages b CATALOG_META_PAGE_ID = Some d" using assms(1) by (auto simp: catalog_ok_def)
  obtain b' i p where 1: "CreateTable lru_ops disk_manager_ops n s (b, c) = Inr ((b', add_table i p c), DB_SUCCESS)"
    "ti_meta i = TableMetadata_Create (ct_next_table_id c) n (th_first_page_id (ti_heap i)) s" "th_schema (ti_heap i) = s"
    "catalog_saved (db_pages b') (add_table i p c)" "table_ok b' (ti_heap i) [th_first_page_id (ti_heap i)]"
    "table_tuples b' [th_first_page_id (ti_heap i)] = Map.empty"
    "\<And>q. db_pages b q \<noteq> None \<Longrightarrow> q \<noteq> CATALOG_META_PAGE_ID \<Longrightarrow> db_pages b' q = db_pages b q"
    "card (disk_allocated (bpm_disk b')) \<le> card (disk_allocated (bpm_disk b)) + 2" "pool_size b' = pool_size b"
    by (rule CreateTable_law [OF C(1,2) assms(2) d C(4) None assms(4,5) C(3) assms(6)]) (rule that; assumption)
  have tm: "tm_table_name (ti_meta i) = n" "tm_table_id (ti_meta i) = ct_next_table_id c" "tm_schema (ti_meta i) = s"
    "tm_root_page_id (ti_meta i) = th_first_page_id (ti_heap i)" using 1(2) by (simp_all add: TableMetadata_Create_def)
  have wf: "wf_catalog (add_table i p c)" using wf_add_table [OF C(2), of i p] None tm assms(3) by simp
  have "db_pages b' INDEX_ROOTS_PAGE_ID = db_pages b INDEX_ROOTS_PAGE_ID"
    using 1(7) C(5) by (auto simp: roots_at_def config_defs)
  then have r: "roots_at (db_pages b') R" using C(5) by (simp add: roots_at_def)
  have ok: "catalog_ok b' (add_table i p c) R"
    using 1(4,5) wf r by (auto simp: catalog_ok_def catalog_saved_def table_ok_def)
  have fresh: "map_of (ct_tables c) (ct_next_table_id c) = None"
    by (rule fresh_id) (use wf_tablesD(4) [of c] C(2) in \<open>auto simp: wf_catalog_def\<close>)
  have own: "GetTable n (add_table i p c) = (DB_SUCCESS, Some i)"
    by (simp add: GetTable_def GetTable_id_def add_table_def Let_def tm(1) update_conv')
  have other: "GetTable n' (add_table i p c) = GetTable n' c" if "n' \<noteq> n" for n'
  proof -
    have "t \<noteq> ct_next_table_id c" if "map_of (ct_table_names c) n' = Some t" for t
      using that fresh wf_tablesD(3) [of c n' t] C(2) by (auto simp: wf_catalog_def)
    then show ?thesis using that
      by (auto simp: GetTable_def GetTable_id_def add_table_def Let_def tm(1) update_conv' split: option.split)
  qed
  have "ct_next_table_id (add_table i p c) = ct_next_table_id c + 1" by (simp add: add_table_def Let_def)
  then show ?thesis using None 1(1,4-7) ok own other tm fresh by auto
qed (use assms in \<open>simp add: CreateTable_def\<close>)

theorem CreateTable_correct_witness:
  "\<exists>b b' c' i. DBStorageEngine_open [] True 16 = Inr b \<and>
     CreateTable lru_ops disk_manager_ops [116] example_schema (b, Catalog_of_meta CatalogMeta_NewInstance) = Inr ((b', c'), DB_SUCCESS) \<and>
     GetTable [116] c' = (DB_SUCCESS, Some i) \<and> tm_schema (ti_meta i) = example_schema"
proof -
  obtain b where 1: "DBStorageEngine_open [] True 16 = Inr b" "catalog_ok b (Catalog_of_meta CatalogMeta_NewInstance) Map.empty"
    "card (disk_allocated (bpm_disk b)) + 2 \<le> 32704" "ct_next_table_id (Catalog_of_meta CatalogMeta_NewInstance) + 1 \<noteq> 0"
    "schema_ok () example_schema" "16 + length [116 :: byte] + length (schema_enc example_schema) \<le> PAGE_SIZE"
    "catalog_meta_GetSerializedSize (ct_meta (Catalog_of_meta CatalogMeta_NewInstance)) + 8 \<le> PAGE_SIZE" by (rule example_catalog)
  have "map_of (ct_table_names (Catalog_of_meta CatalogMeta_NewInstance)) [116] = None" by (simp add: Catalog_of_meta_def)
  then show ?thesis using CreateTable_correct [OF 1(2-7)] 1(1) by auto
qed

text \<open>C37. Opening a saved catalog again (\<^verbatim>\<open>CatalogManager\<close> with \<^verbatim>\<open>init\<close> false) restores it: the same table names, tables and index names with the
  metadata they had; every table heap is opened on its first page and has the tuples it had; every index is opened with the key size of
  its key columns and the root the directory page records; and no page changes.\<close>

theorem catalog_reopen:
  assumes "catalog_ok b c R" "catalog_saved (db_pages b) c"
  shows "\<exists>b' c'. CatalogManager_new lru_ops disk_manager_ops False b = Inr (b', c') \<and> quiet b' \<and> db_pages b' = db_pages b \<and>
    ct_meta c' = ct_meta c \<and> map_of (ct_table_names c') = map_of (ct_table_names c) \<and> index_number c' = index_number c \<and>
    (\<forall>t. map_of (ct_tables c') t = map_option (\<lambda>i. open_table (ti_meta i)) (map_of (ct_tables c) t)) \<and>
    (\<forall>x. map_of (ct_indexes c') x =
       map_option (\<lambda>j. open_index R (meta_of_table c (im_table_id (xi_meta j))) (xi_meta j)) (map_of (ct_indexes c) x)) \<and>
    (\<forall>t i ps. map_of (ct_tables c) t = Some i \<and> table_ok b (ti_heap i) ps \<and> tm_root_page_id (ti_meta i) = th_first_page_id (ti_heap i) \<and>
       tm_schema (ti_meta i) = th_schema (ti_heap i) \<longrightarrow>
       table_ok b' (ti_heap (open_table (ti_meta i))) ps \<and> table_tuples b' ps = table_tuples b ps)"
proof -
  have C: "quiet b" "wf_catalog c" "roots_at (db_pages b) R" using assms(1) by (simp_all add: catalog_ok_def)
  obtain b' where 1: "CatalogManager_new lru_ops disk_manager_ops False b = Inr (b', reopened R c)" "quiet b'" "db_pages b' = db_pages b"
    by (rule CatalogManager_open_law [OF C(1,2) assms(2) C(3)])
  have "table_ok b' (ti_heap (open_table (ti_meta i))) ps \<and> table_tuples b' ps = table_tuples b ps"
    if "table_ok b (ti_heap i) ps" "tm_root_page_id (ti_meta i) = th_first_page_id (ti_heap i)"
      "tm_schema (ti_meta i) = th_schema (ti_heap i)" for i ps
    using that 1(2,3) by (simp add: table_ok_def heap_ok_def open_table_def TableHeap_open_def table_tuples_def)
  then show ?thesis using 1 reopened_maps [OF C(2), of R] by (intro exI [of _ b'] exI [of _ "reopened R c"]) (auto simp: fun_eq_iff)
qed

theorem catalog_reopen_witness:
  "\<exists>b b' c' b'' c'' i. DBStorageEngine_open [] True 16 = Inr b \<and>
     CreateTable lru_ops disk_manager_ops [116] example_schema (b, Catalog_of_meta CatalogMeta_NewInstance) = Inr ((b', c'), DB_SUCCESS) \<and>
     CatalogManager_new lru_ops disk_manager_ops False b' = Inr (b'', c'') \<and> map_of (ct_table_names c'') [116] = Some 0 \<and>
     map_of (ct_tables c'') 0 = Some i \<and> tm_schema (ti_meta i) = example_schema"
proof -
  obtain b where 1: "DBStorageEngine_open [] True 16 = Inr b" "catalog_ok b (Catalog_of_meta CatalogMeta_NewInstance) Map.empty"
    "card (disk_allocated (bpm_disk b)) + 2 \<le> 32704" "ct_next_table_id (Catalog_of_meta CatalogMeta_NewInstance) + 1 \<noteq> 0"
    "schema_ok () example_schema" "16 + length [116 :: byte] + length (schema_enc example_schema) \<le> PAGE_SIZE"
    "catalog_meta_GetSerializedSize (ct_meta (Catalog_of_meta CatalogMeta_NewInstance)) + 8 \<le> PAGE_SIZE" by (rule example_catalog)
  let ?c = "Catalog_of_meta CatalogMeta_NewInstance"
  have C: "quiet b" "wf_catalog ?c" "wf_catalog_meta (ct_meta ?c)" "metas_saved (db_pages b) ?c" "roots_at (db_pages b) Map.empty"
    using 1(2) by (simp_all add: catalog_ok_def)
  obtain d where d: "db_pages b CATALOG_META_PAGE_ID = Some d" using 1(2) by (auto simp: catalog_ok_def)
  have n: "map_of (ct_table_names ?c) [116] = None" by (simp add: Catalog_of_meta_def)
  obtain b' i p where 2: "CreateTable lru_ops disk_manager_ops [116] example_schema (b, ?c) = Inr ((b', add_table i p ?c), DB_SUCCESS)"
    "ti_meta i = TableMetadata_Create (ct_next_table_id ?c) [116] (th_first_page_id (ti_heap i)) example_schema"
    "th_schema (ti_heap i) = example_schema"
    "catalog_saved (db_pages b') (add_table i p ?c)" "table_ok b' (ti_heap i) [th_first_page_id (ti_heap i)]"
    "\<And>q. db_pages b q \<noteq> None \<Longrightarrow> q \<noteq> CATALOG_META_PAGE_ID \<Longrightarrow> db_pages b' q = db_pages b q"
    by (rule CreateTable_law [OF C(1,2) 1(3) d C(4) n 1(5,6) C(3) 1(7)]) (rule that; assumption)
  have "db_pages b' INDEX_ROOTS_PAGE_ID = db_pages b INDEX_ROOTS_PAGE_ID" using 2(6) C(5) by (auto simp: roots_at_def config_defs)
  then have "roots_at (db_pages b') Map.empty" using C(5) by (simp add: roots_at_def)
  moreover have "wf_catalog (add_table i p ?c)"
    by (rule wf_add_table [OF C(2)]) (simp_all add: 2(2) TableMetadata_Create_def n 1(4))
  ultimately have ok: "catalog_ok b' (add_table i p ?c) Map.empty"
    using 2(4,5) by (auto simp: catalog_ok_def catalog_saved_def table_ok_def)
  have m: "map_of (ct_table_names (add_table i p ?c)) [116] = Some 0" "map_of (ct_tables (add_table i p ?c)) 0 = Some i"
    by (simp_all add: add_table_def Let_def update_conv' 2(2) TableMetadata_Create_def Catalog_of_meta_def GetNextTableId_def
        CatalogMeta_NewInstance_def)
  obtain b'' c'' where 3: "CatalogManager_new lru_ops disk_manager_ops False b' = Inr (b'', c'')"
    "map_of (ct_table_names c'') = map_of (ct_table_names (add_table i p ?c))"
    "\<forall>t. map_of (ct_tables c'') t = map_option (\<lambda>i. open_table (ti_meta i)) (map_of (ct_tables (add_table i p ?c)) t)"
    using catalog_reopen [OF ok 2(4)] by blast
  then show ?thesis using 1(1) 2(1,2) m by (auto simp: open_table_def TableMetadata_Create_def)
qed

theorem catalog_lookups_agree_witness:
  "\<exists>c i. catalog_reachable lru_ops disk_manager_ops c \<and> GetTable [116] c = (DB_SUCCESS, Some i) \<and> GetTableIndexes [116] c = Inr []"
proof -
  let ?c = "Catalog_of_meta CatalogMeta_NewInstance"
  obtain b where 1: "DBStorageEngine_open [] True 16 = Inr b" "catalog_ok b ?c Map.empty"
    "card (disk_allocated (bpm_disk b)) + 2 \<le> 32704" "ct_next_table_id ?c + 1 \<noteq> 0"
    "schema_ok () example_schema" "16 + length [116 :: byte] + length (schema_enc example_schema) \<le> PAGE_SIZE"
    "catalog_meta_GetSerializedSize (ct_meta ?c) + 8 \<le> PAGE_SIZE" by (rule example_catalog)
  have C: "quiet b" "wf_catalog ?c" "wf_catalog_meta (ct_meta ?c)" "metas_saved (db_pages b) ?c"
    using 1(2) by (simp_all add: catalog_ok_def)
  obtain d where d: "db_pages b CATALOG_META_PAGE_ID = Some d" using 1(2) by (auto simp: catalog_ok_def)
  have n: "map_of (ct_table_names ?c) [116] = None" by (simp add: Catalog_of_meta_def)
  obtain b' i p where 2: "CreateTable lru_ops disk_manager_ops [116] example_schema (b, ?c) = Inr ((b', add_table i p ?c), DB_SUCCESS)"
    "ti_meta i = TableMetadata_Create (ct_next_table_id ?c) [116] (th_first_page_id (ti_heap i)) example_schema"
    by (rule CreateTable_law [OF C(1,2) 1(3) d C(4) n 1(5,6) C(3) 1(7)])
  have r: "catalog_reachable lru_ops disk_manager_ops (add_table i p ?c)"
    by (rule catalog_reachable.create_table [OF catalog_reachable.new_catalog 1(4) 2(1)])
  note A = catalog_lookups_agree [OF r, of "[116]"]
  have "map_of (ct_tables (add_table i p ?c)) (ct_next_table_id ?c) = Some i" by (simp add: add_table_def Let_def update_conv')
  then have "GetTable [116] (add_table i p ?c) = (DB_SUCCESS, Some i)" using A [of i] 2(2) by (auto simp: TableMetadata_Create_def)
  moreover have "indexes_of (add_table i p ?c) [116] = {}" by (simp add: indexes_of_def add_table_def Let_def Catalog_of_meta_def)
  then have "GetTableIndexes [116] (add_table i p ?c) = Inr []" using A by auto
  ultimately show ?thesis using r by blast
qed

section \<open>The size of index keys\<close>

lemma bitmap_bytes: "(n + 7) div 8 = (if n mod 8 \<noteq> 0 then n div 8 + 1 else n div (8 :: nat))"
  by (cases "n mod 8 = 0") (auto simp: mod_eq_0_iff_dvd elim: dvdE, presburger)

lemma max_key_bytes_sum:
  "max_key_bytes ks = 4 + (length ks + 7) div 8 + sum_list (map (\<lambda>c. (if col_type c = kTypeChar then 4 else 0) + unat (col_len c)) ks)"
proof -
  have "foldl (\<lambda>m c. m + (if col_type c = kTypeChar then 4 else 0) + unat (col_len c)) a ks =
      a + sum_list (map (\<lambda>c. (if col_type c = kTypeChar then 4 else 0) + unat (col_len c)) ks)" for a
    by (induction ks arbitrary: a) simp_all
  then show ?thesis unfolding max_key_bytes_def Let_def bitmap_bytes by simp
qed

text \<open>A value is no longer than its column.\<close>

definition fits_column :: "Field \<Rightarrow> Column \<Rightarrow> bool" where
  "fits_column f c \<longleftrightarrow> f_null f \<or> unat (f_len f) \<le> unat (col_len c)"

lemma field_enc_fits:
  "wf_field f \<Longrightarrow> f_type f = col_type c \<Longrightarrow> fits_column f c \<Longrightarrow>
     length (field_enc f) \<le> (if col_type c = kTypeChar then 4 else 0) + unat (col_len c)"
  by (cases "f_value f") (auto simp: field_enc_def wf_field_def fits_column_def)

lemma fields_enc_fit:
  "list_all2 (\<lambda>f c. wf_field f \<and> f_type f = col_type c \<and> fits_column f c) fs cs \<Longrightarrow>
     length (concat (map field_enc fs)) \<le> sum_list (map (\<lambda>c. (if col_type c = kTypeChar then 4 else 0) + unat (col_len c)) cs)"
proof (induction fs cs rule: list_all2_induct)
  case (Cons f fs c cs)
  then show ?case using field_enc_fits [of f c] by fastforce
qed simp

text \<open>C39. The key size that \<^verbatim>\<open>IndexInfo::CreateIndex\<close> chooses is enough: if it does not refuse the key columns, every key row whose values are
  no longer than their columns serializes into the key, with nulls or without, and the key has at most 256 bytes. A value that is
  longer than its column, which nothing in the program rejects, can exceed the key; then \<^verbatim>\<open>SerializeFromKey\<close> fails its assertion.\<close>

theorem bptree_key_size_suffices:
  assumes "row_ok ks r" "bptree_key_size (max_key_bytes ks) = Some n" "length buf = n"
  shows "n \<le> 256 \<and> (list_all2 fits_column (row_fields r) ks \<longrightarrow> (\<exists>k. SerializeFromKey (KeyManager_new ks n) buf r ks = Inr k)) \<and>
    (n < length (row_enc r) \<longrightarrow> SerializeFromKey (KeyManager_new ks n) buf r ks = Inl (AssertionFailed ''Index key size exceed max key size.''))"
proof -
  have le: "max_key_bytes ks \<le> n" "n \<le> 256" using assms(2) by (auto simp: bptree_key_size_def split: if_splits)
  have len: "length (row_fields r) = length ks" using assms(1) by (simp add: row_ok_def)
  have "length (row_enc r) \<le> n" if "list_all2 fits_column (row_fields r) ks"
  proof -
    have "list_all2 (\<lambda>f c. wf_field f \<and> f_type f = col_type c \<and> fits_column f c) (row_fields r) ks"
      using that assms(1) by (auto simp: list_all2_conv_all_nth row_ok_def)
    from fields_enc_fit [OF this] show ?thesis using le(1) len by (simp add: row_enc_def max_key_bytes_sum)
  qed
  moreover have "\<exists>k. SerializeFromKey (KeyManager_new ks n) buf r ks = Inr k" if "length (row_enc r) \<le> n"
    using row_size_enc [OF assms(1)] row_ser_enc [OF assms(1), of 0 "replicate n 0"] that assms(3) len
    by (simp add: SerializeFromKey_def KeyManager_new_def GetColumnCount_def wr_def)
  moreover have "SerializeFromKey (KeyManager_new ks n) buf r ks = Inl (AssertionFailed ''Index key size exceed max key size.'')"
    if "n < length (row_enc r)"
    using row_size_enc [OF assms(1)] that len by (simp add: SerializeFromKey_def KeyManager_new_def GetColumnCount_def)
  ultimately show ?thesis using le(2) by blast
qed

definition char_key_schema :: Schema where
  "char_key_schema = [\<lparr>col_name = [110], col_type = kTypeChar, col_len = 1, col_table_ind = 0, col_nullable = False, col_unique = True\<rparr>]"

definition char_key_row :: "byte list \<Rightarrow> Row" where
  "char_key_row cs = \<lparr>row_rid = INVALID_ROWID, row_fields =
     [\<lparr>f_value = Chars cs, f_type = kTypeChar, f_len = of_nat (length cs), f_null = False, f_manage = True\<rparr>]\<rparr>"

theorem bptree_key_size_suffices_witness:
  "(\<exists>k. SerializeFromKey (KeyManager_new char_key_schema 32) (replicate 32 7) (char_key_row [65]) char_key_schema = Inr k) \<and>
   SerializeFromKey (KeyManager_new char_key_schema 32) (replicate 32 7) (char_key_row (replicate 40 65)) char_key_schema =
     Inl (AssertionFailed ''Index key size exceed max key size.'')"
proof -
  have ok: "row_ok char_key_schema (char_key_row cs)" if "length cs \<le> 40" for cs
    using that by (simp add: row_ok_def char_key_schema_def char_key_row_def wf_field_def VARCHAR_MAX_LEN_def PAGE_SIZE_def unat_of_nat_small)
  have n: "bptree_key_size (max_key_bytes char_key_schema) = Some 32"
    by (simp add: max_key_bytes_def char_key_schema_def bptree_key_size_def)
  have "list_all2 fits_column (row_fields (char_key_row [65])) char_key_schema"
    by (simp add: char_key_row_def char_key_schema_def fits_column_def)
  moreover have "32 < length (row_enc (char_key_row (replicate 40 65)))"
    by (simp add: row_enc_def char_key_row_def field_enc_def)
  ultimately show ?thesis
    using bptree_key_size_suffices [OF ok n, of "[65]" "replicate 32 7"]
      bptree_key_size_suffices [OF ok n, of "replicate 40 65" "replicate 32 7"] by simp
qed

end
