(* ===== verification/Spec2Isabelle.thy ===== *)
theory Spec2Isabelle
  imports Buffer_Pool Table_Page Txn_Protocol Recovery Index_Roots_Page Header_Page BPlus_Leaf Internal_Moves Index_Store Expressions Catalog_Store
begin

text \<open>
  Verification of MiniSQL, a small relational database engine in C++. File names below are relative to
  \<^verbatim>\<open>src/minisql-master/src\<close>.

  \<^bold>\<open>The program.\<close> A database is a file of 4 KiB pages. The disk manager allocates logical pages with
  bitmap pages, one per extent, and maps them to physical pages. The buffer pool keeps a fixed number of
  frames, pins them for its clients, and asks a replacer (LRU or CLOCK) for a victim when no frame is free.
  Tables are lists of slotted pages that hold serialized rows; indexes are B+ trees whose pages hold
  serialized keys in fixed-size pairs; two directory pages map index ids and names to root pages. Beside the
  storage stack stand the lock manager (row locks, waits-for graph, deadlock detection), the transaction
  manager, and the recovery manager (redo and undo from a log). Above it stand the catalog, the planner, the
  executors and the SQL parser.

  \<^bold>\<open>Modelling conventions.\<close> Pages are lists of 4096 bytes and are read and written at the byte offsets of the
  code, by the little-endian accessors of \<open>MiniSQL_Prelude\<close>; machine integers are words, or integers
  with the wrap-around written out, where the width matters. A class is a record and a method is a function
  on it. Failing calls and failed assertions (\<^verbatim>\<open>ASSERT\<close>, exceptions) are values: \<open>option\<close>, or
  \<open>Inl\<close> of an error. Loops over linked pages (heaps, the descent and the leaf chain of a tree) are
  \<open>partial_function\<close>s into \<open>option\<close>, where \<open>None\<close> is a loop that does not return, and every theorem about them
  shows that they return. Hash maps are association lists or maps, ordered maps are association lists sorted by key. Latches are not
  state: what runs under one latch is one step; where the code releases it (a lock request that waits, the row-by-row release of a
  commit), the steps before and after are separate steps of a transition system, so that other threads run in between. Sizes in bytes
  (\<^verbatim>\<open>uint32_t\<close> in the code) are natural numbers, which differ only above 4 GiB, and log sequence numbers and the count of
  shared holders of a row are unbounded.

  \<^bold>\<open>Storage.\<close>
  \<^item> \<open>Row_Id\<close> (\<^verbatim>\<open>include/common/rowid.h\<close>): packing of page and slot number in 64 bits.
  \<^item> \<open>Slot_Allocator\<close>: the contract of an allocator of numbered slots, as a locale. \<open>Bitmap_Page\<close>
    (\<^verbatim>\<open>page/bitmap_page.cpp\<close>) and \<open>Disk_Manager\<close> (\<^verbatim>\<open>storage/disk_manager.cpp\<close>) both interpret it. The disk
    theory shows freshness of allocated pages, exactness of deallocation, that a page written is the page read and disturbs nothing else
    below 2 GiB (and that from 2 GiB on, where the offset of \<^verbatim>\<open>ReadPhysicalPage\<close> overflows, the read does not see the write), and that closing and
    opening the file keeps the content. The failed state of the stream after a failed seek is not modelled.
  \<^item> \<open>Page_Store\<close> and \<open>Replacer\<close>: the two interfaces of the buffer pool, as locales.
    \<open>Lru_Replacer\<close> and \<open>Clock_Replacer\<close> (\<^verbatim>\<open>buffer/*.cpp\<close>) interpret \<open>Replacer\<close>; LRU
    refines a queue, and the CLOCK hand is shown to stop with the second-chance victim.
  \<^item> \<open>Buffer_Pool\<close> (\<^verbatim>\<open>buffer/buffer_pool_manager.cpp\<close>): the pool over any page store and any replacer, its
    invariant \<open>wf_bpm\<close>, and the abstraction \<open>content\<close> to the logical content of every page. Fetching is
    transparent to it, new pages are fresh and zeroed, flushing makes it durable. \<open>Pool_Client\<close> has what
    clients do (fetch, change, unpin dirty) and its law on the abstraction.
  \<^item> \<open>Pool_Pins\<close> and \<open>Pool_Session\<close>: the pool as its clients see it over a longer computation, the pages pinned and the frames to
    spare; \<open>runs\<close> relates the states before and after, with the pages that stay pinned.
  \<^item> \<open>Storage_Engine\<close> (\<^verbatim>\<open>include/common/instance.h\<close>): opening a database over the LRU replacer and the disk manager; \<open>db_pages\<close> is its
    content and \<open>quiet\<close> a pool between two calls, without pins.

  \<^bold>\<open>Records and table pages.\<close>
  \<^item> \<open>Codec\<close>: the serialization idiom as a locale. \<open>Field_Types\<close> (\<^verbatim>\<open>record/types.cpp\<close>,
    \<^verbatim>\<open>include/record/field.h\<close>), \<open>Schema_Codec\<close> (columns and schemas) and \<open>Row_Codec\<close>
    (\<^verbatim>\<open>record/row.cpp\<close>) interpret it: what is written is read back, in the length announced. Comparison of
    fields of one type is a linear order with SQL's null in the third value.
  \<^item> \<open>Table_Page\<close> (\<^verbatim>\<open>page/table_page.cpp\<close>): all operations of the slotted page on its bytes, its
    invariant, and for each operation the effect on the tuples of the page, slot by slot.
  \<^item> \<open>Table_Heap\<close> (\<^verbatim>\<open>storage/table_heap.cpp\<close>, \<^verbatim>\<open>storage/table_iterator.cpp\<close>): the heap file over the pool. \<open>Link_List\<close> has the doubly linked
    lists it keeps in its pages, \<open>Heap_Pages\<close> its invariant and its abstraction to a map from row ids to tuples, \<open>Heap_Laws\<close> and
    \<open>Heap_Ops\<close> the effect of every operation on that map, \<open>Heap_Scan\<close> the iterator. \<open>Table_Store\<close> states the
    results over the storage engine: insert, update, mark, apply and roll back deletion, and complete scans.

  \<^bold>\<open>Transactions.\<close>
  \<^item> \<open>Txn\<close>, \<open>Wait_Graph\<close>, \<open>Lock_Manager\<close> (\<^verbatim>\<open>concurrency/*.cpp\<close>): the operations. The depth-first search of
    \<^verbatim>\<open>HasCycle\<close> finds a cycle exactly when there is one; its fuel, the number of nodes, is enough because
    the path never repeats a node. The detection loop removes at least one waiting transaction in every round, so one
    more round than there are entries is enough.
  \<^item> \<open>Txn_Manager\<close>: the system of all transactions as an inductive, labelled step relation. Reachable states exclude
    conflicting grants, no assertion fails, and every exception leaves a tidy state. \<open>Txn_Protocol\<close>: a transaction driven by one
    thread follows two-phase locking and its commit or abort leaves nothing behind, whatever the other threads do; an unlock
    by a foreign thread can break the former. Ids come from a wrapping 32-bit counter, and a transaction begins while its id is not in use.
  \<^item> \<open>Recovery\<close> (\<^verbatim>\<open>include/recovery/*.h\<close>): redo and undo rebuild the state of the committed transactions. The
    undo walk is bounded by the number of records plus one, because \<^verbatim>\<open>prev_lsn_\<close> decreases.

  \<^bold>\<open>Indexes.\<close>
  \<^item> \<open>Root_Directory\<close>: the contract of a page that maps keys to root pages, interpreted by
    \<open>Index_Roots_Page\<close> and \<open>Header_Page\<close> (\<^verbatim>\<open>page/*.cpp\<close>).
  \<^item> \<open>Generic_Key\<close> (\<^verbatim>\<open>include/index/generic_key.h\<close>): keys and their comparison, which is lexicographic.
  \<^item> \<open>Pair_Array\<close>, \<open>Ordered_Assoc\<close>, \<open>BPlus_Page\<close>: arrays of pairs in a page, sorted
    association lists, and the common header of tree pages. \<open>BPlus_Leaf\<close> and \<open>BPlus_Internal\<close>
    (\<^verbatim>\<open>page/b_plus_tree_*_page.cpp\<close>) show that binary search agrees with a linear scan, that a leaf is a sorted map,
    and that splits, merges and redistribution conserve the entries. \<open>Internal_Moves\<close> shows the same for
    internal pages, where the code changes the parent link of every moved child through the buffer pool.
  \<^item> \<open>BPlus_Tree\<close> (construction, search, insertion) and \<open>Tree_Remove\<close> (removal; both \<^verbatim>\<open>index/b_plus_tree.cpp\<close>), \<open>Index_Iterator\<close>
    (\<^verbatim>\<open>index/index_iterator.cpp\<close>), \<open>Index_Scan\<close> (\<^verbatim>\<open>index/b_plus_tree_index.cpp\<close>): the tree over the pool. \<open>Tree_Shape\<close> and \<open>Tree_Order\<close>
    hold the invariant (shape, order, leaf chain, parent links) and the abstraction to the sorted list of pairs; \<open>Tree_Search\<close>, \<open>Tree_Pages\<close>, \<open>Tree_Insert\<close>,
    \<open>Tree_Grow\<close> and \<open>Tree_Update\<close> show search and insertion, \<open>Tree_Scan\<close> and \<open>Tree_Range\<close> the scans, \<open>Tree_Shrink\<close> removal. \<open>Tree_Store\<close>
    and \<open>Index_Store\<close> state the results over the storage engine. Insertion needs two frames per level and three more, a scan three, removal four;
    the disk quota is one extent (32704 pages), within which the offsets do not overflow; keys have at most 1352 bytes. Removal is shown
    where no page has to be deleted: \<^verbatim>\<open>DeletePage\<close> leaves the frame with the replacer and breaks the invariant of the pool.

  \<^bold>\<open>Catalog and expressions.\<close>
  \<^item> \<open>Catalog_Meta\<close> (the metadata of catalog, tables and indexes and their serialized forms), \<open>Catalog\<close> (\<^verbatim>\<open>catalog/*.cpp\<close>, every operation of the
    catalog manager over the pool), \<open>Catalog_Inv\<close> (reachable catalogs: all lookups agree), \<open>Catalog_Store\<close> (creating a table, reopening a catalog, and
    that the key size chosen for an index suffices). A page holds the metadata of 510 tables and indexes.
  \<^item> \<open>Expressions\<close> (\<^verbatim>\<open>include/planner/expressions\<close>): evaluation of predicates, and that the scan executors keep exactly the rows on which the
    predicate is true in three-valued logic.

  \<^bold>\<open>Not modelled.\<close> The lexer and parser (generated by flex and bison) and the syntax tree they build; the planner and the statements, which
  turn that tree into plan objects; the executors, which combine the modelled heap, index, catalog and expression operations and
  print; the entry point and all other console and file output; memory management.
\<close>

end
